(* ===== verification/Kernel_Prelude.thy ===== *)
theory Kernel_Prelude
  imports Main "HOL-Library.Word" "HOL-Library.Monad_Syntax"
begin

text \<open>
  Shared vocabulary of the development: the C integer types as words, the option monad in
  which faulting code is written, and the generic word, bit and list lemmas the component
  theories use. \<open>None\<close> always stands for an execution that leaves the defined behaviour of
  the code: an access outside an array, a dereference of a pointer to nothing, a page fault,
  or a loop that never ends. Errors that the code reports are ordinary result values.
\<close>

unbundle bit_operations_syntax

section \<open>C integer types\<close>

type_synonym u8 = "8 word"
type_synonym u16 = "16 word"
type_synonym u32 = "32 word"
type_synonym u64 = "64 word"

text \<open>The macro \<open>CEIL_DIV\<close> of \<open>mm/PMM/pmm.h\<close>, in the 32-bit arithmetic it expands to.\<close>

definition CEIL_DIV :: "u32 \<Rightarrow> u32 \<Rightarrow> u32" where
  "CEIL_DIV a b = (a + b - 1) div b"

section \<open>Lemma collections\<close>

named_theorems frame_simps \<open>what an operation leaves unchanged\<close>
named_theorems bit_facts \<open>C bit manipulation read as bits\<close>

section \<open>Bits\<close>

lemma shift_and_one_bit [bit_facts]:
  fixes w :: "'a::len word"
  shows "drop_bit i w AND 1 \<noteq> 0 \<longleftrightarrow> bit w i"
  by (simp add: and_one_eq bit_iff_odd_drop_bit odd_iff_mod_2_eq_one)

lemma xor_set_bit [bit_facts]:
  fixes w :: "'a::len word"
  shows "w XOR (NOT w AND 2 ^ i) = w OR 2 ^ i"
  by (rule bit_eqI) (auto simp: bit_simps)

lemma xor_clear_bit [bit_facts]:
  fixes w :: "'a::len word"
  shows "w XOR (w AND 2 ^ i) = w AND NOT (2 ^ i)"
  by (rule bit_eqI) (auto simp: bit_simps)

lemma bit_or_shift_one:
  fixes w :: "'a::len word"
  assumes "i < LENGTH('a)"
  shows "bit (w OR 2 ^ i) j \<longleftrightarrow> bit w j \<or> i = j"
  using assms by (auto simp: bit_simps)

lemma bit_and_not_shift_one:
  fixes w :: "'a::len word"
  assumes "i < LENGTH('a)"
  shows "bit (w AND NOT (2 ^ i)) j \<longleftrightarrow> bit w j \<and> i \<noteq> j"
  using assms by (auto simp: bit_simps dest: bit_imp_le_length)

lemma all_bits_u8_iff: "(w :: u8) = 0xFF \<longleftrightarrow> (\<forall>i<8. bit w i)"
proof -
  have mask: "(0xFF :: u8) = mask 8"
    by (simp add: mask_eq_exp_minus_1)
  show ?thesis
    unfolding mask by (auto simp: bit_mask_iff intro!: bit_eqI)
qed

section \<open>Words as naturals\<close>

lemma unat_lt_two_power: "unat (w :: 'a::len word) < 2 ^ LENGTH('a)"
  by (rule unsigned_less)

lemma unat_u32_less: "unat (w :: u32) < 4294967296"
  using unat_lt_two_power [of w] by simp

lemma unat_Suc_u32: "(b :: u32) < e \<Longrightarrow> unat (b + 1) = Suc (unat b)"
  by unat_arith

lemma unat_u32_add: "unat a + unat b < 4294967296 \<Longrightarrow> unat (a + b :: u32) = unat a + unat b"
  by (simp add: unat_word_ariths)

lemma unat_u32_mult: "unat a * unat b < 4294967296 \<Longrightarrow> unat (a * b :: u32) = unat a * unat b"
  by (simp add: unat_word_ariths)

lemma unat_u32_of_nat: "n < 4294967296 \<Longrightarrow> unat (of_nat n :: u32) = n"
  by (simp add: unat_of_nat)

lemma unat_shift3: "unat (drop_bit 3 w) = unat (w :: u32) div 8"
  by (simp add: drop_bit_eq_div unat_div)

lemma unat_page_floor: "unat (w AND NOT (mask 12) :: u32) = unat w div 4096 * 4096"
proof -
  have "w AND NOT (mask 12) = push_bit 12 (drop_bit 12 w)"
    by (rule bit_eqI) (auto simp: bit_simps)
  moreover have "unat (drop_bit 12 w) < 2 ^ 20"
    using unat_u32_less [of w] by (simp add: drop_bit_eq_div unat_div)
  ultimately show ?thesis
    by (simp add: push_bit_eq_mult drop_bit_eq_div unat_div unat_word_ariths)
qed

lemma unat_and7: "unat (w AND 7) = unat (w :: u32) mod 8"
proof -
  have "w AND 7 = take_bit 3 w"
    by (rule bit_eqI) (auto simp: bit_simps less_Suc_eq numeral_eq_Suc)
  then show ?thesis
    by (simp add: take_bit_eq_mod unat_mod)
qed

lemma sint_small:
  assumes "unat w < 0x80000000"
  shows "sint (w :: u32) = int (unat w)"
proof -
  have "int (unat w) < int 0x80000000" using assms by (simp only: of_nat_less_iff)
  then have "uint w < 0x80000000" by simp
  moreover have "- 0x80000000 \<le> uint w"
    using uint_ge_0 [of w] by linarith
  ultimately show ?thesis by (simp add: sint_uint signed_take_bit_int_eq_self)
qed

section \<open>Loops\<close>

text \<open>A counting loop whose body may fault, over the list of the values of its counter.\<close>

fun fold_opt :: "('a \<Rightarrow> 's \<Rightarrow> 's option) \<Rightarrow> 'a list \<Rightarrow> 's \<Rightarrow> 's option" where
  "fold_opt f [] s = Some s"
| "fold_opt f (x # xs) s = do { s \<leftarrow> f x s; fold_opt f xs s }"

lemma fold_opt_append: "fold_opt f (xs @ ys) s = do { s \<leftarrow> fold_opt f xs s; fold_opt f ys s }"
  by (induction xs arbitrary: s) (auto split: Option.bind_split)

text \<open>The invariant rule for such a loop over \<open>[a..<b]\<close>.\<close>

lemma fold_opt_upt:
  assumes "P a s" and "a \<le> b"
    and "\<And>i s. a \<le> i \<Longrightarrow> i < b \<Longrightarrow> P i s \<Longrightarrow> \<exists>s'. f i s = Some s' \<and> P (Suc i) s'"
  shows "\<exists>s'. fold_opt f [a..<b] s = Some s' \<and> P b s'"
  using assms(2)
proof (induction rule: dec_induct)
  case base
  then show ?case using assms(1) by simp
next
  case (step n)
  then obtain s' where "fold_opt f [a..<n] s = Some s'" "P n s'" by blast
  then show ?case
    using assms(3) [of n s'] step by (auto simp: fold_opt_append)
qed

lemma fold_upt:
  assumes "P a s" and "a \<le> b" and "\<And>i s. a \<le> i \<Longrightarrow> i < b \<Longrightarrow> P i s \<Longrightarrow> P (Suc i) (f i s)"
  shows "P b (fold f [a..<b] s)"
  using assms(2)
proof (induction rule: dec_induct)
  case base
  then show ?case using assms(1) by simp
next
  case (step n)
  then show ?case using assms(3) by simp
qed

end
