(* ===== verification/Spinlock.thy ===== *)
theory Spinlock
  imports Kernel_Prelude
begin

text \<open>
  The spinlock of \<open>sys/spinlock.c\<close>. First the three functions as one CPU runs them when no
  other CPU interferes; then every CPU running \<open>acquire\<close> and \<open>release\<close> in a loop, one memory
  access at a time, as a step relation.
\<close>

section \<open>The lock and its operations on one CPU\<close>

text \<open>The field \<open>cpu\<close> is declared as a pointer but holds an APIC id.\<close>

record spinlock =
  locked :: u32
  lock_cpu :: u32
  lock_name :: string

definition initLock :: "string \<Rightarrow> spinlock" where
  "initLock name = \<lparr>locked = 0, lock_cpu = 0, lock_name = name\<rparr>"

text \<open>The locked exchange: the old value of the lock word and the lock with the new one.\<close>

definition xchg :: "spinlock \<Rightarrow> u32 \<Rightarrow> u32 \<times> spinlock" where
  "xchg lock newval = (locked lock, lock\<lparr>locked := newval\<rparr>)"

text \<open>
  \<open>holding\<close> clears the interrupt flag (\<open>cli\<close>) and leaves it cleared; the second component of
  every state below is the interrupt flag of the calling CPU, whose APIC id is \<open>apic\<close>.
\<close>

definition holding :: "u32 \<Rightarrow> spinlock \<Rightarrow> bool" where
  "holding apic lock \<longleftrightarrow> locked lock \<noteq> 0 \<and> lock_cpu lock = apic"

text \<open>
  \<open>acquire\<close> on its own: with the lock word set and nobody else running, the loop around
  \<open>xchg\<close> never ends, which is \<open>None\<close>.
\<close>

definition acquire :: "u32 \<Rightarrow> spinlock \<times> bool \<Rightarrow> (spinlock \<times> bool) option" where
  "acquire apic st =
     (let (lock, iflag) = st; (old, lock') = xchg lock 1
      in if old \<noteq> 0 then None else Some (lock'\<lparr>lock_cpu := apic\<rparr>, False))"

definition release :: "u32 \<Rightarrow> spinlock \<times> bool \<Rightarrow> spinlock \<times> bool" where
  "release apic st = (let (lock, iflag) = st in (lock\<lparr>locked := 0, lock_cpu := 0\<rparr>, True))"

lemma acquire_release:
  assumes "locked lock = 0"
  shows "\<exists>held. acquire apic (lock, i) = Some (held, False) \<and> holding apic held
    \<and> acquire apic (held, False) = None
    \<and> release apic (held, False) = (lock\<lparr>lock_cpu := 0\<rparr>, True)"
  using assms by (simp add: acquire_def release_def xchg_def holding_def)

section \<open>All CPUs, one access at a time\<close>

text \<open>
  Where a CPU is: outside, spinning in the loop of \<open>acquire\<close>, past a successful exchange but
  before the store to \<open>cpu\<close>, in its critical section, past the check of \<open>release\<close>, and past
  the store of 0 to the lock word but before the store to \<open>cpu\<close>.
\<close>

datatype lock_pc = Outside | Spinning | Exchanged | Critical | Releasing | Unlocked

record smp_state =
  the_lock :: spinlock
  pcs :: "u32 \<Rightarrow> lock_pc"
  iflags :: "u32 \<Rightarrow> bool"

definition smp_init :: smp_state where
  "smp_init = \<lparr>the_lock = initLock ''RB tree lock'', pcs = (\<lambda>_. Outside), iflags = (\<lambda>_. True)\<rparr>"

inductive lock_step :: "smp_state \<Rightarrow> smp_state \<Rightarrow> bool" where
  begin_acquire: "pcs s i = Outside \<Longrightarrow>
     lock_step s (s\<lparr>pcs := (pcs s)(i := Spinning), iflags := (iflags s)(i := False)\<rparr>)"
| exchange: "pcs s i = Spinning \<Longrightarrow> xchg (the_lock s) 1 = (old, lock') \<Longrightarrow>
     lock_step s (s\<lparr>the_lock := lock',
       pcs := (pcs s)(i := if old \<noteq> 0 then Spinning else Exchanged)\<rparr>)"
| set_cpu: "pcs s i = Exchanged \<Longrightarrow>
     lock_step s (s\<lparr>the_lock := (the_lock s)\<lparr>lock_cpu := i\<rparr>, pcs := (pcs s)(i := Critical)\<rparr>)"
| begin_release: "pcs s i = Critical \<Longrightarrow>
     lock_step s (s\<lparr>pcs := (pcs s)(i := Releasing), iflags := (iflags s)(i := False)\<rparr>)"
| unlock: "pcs s i = Releasing \<Longrightarrow>
     lock_step s (s\<lparr>the_lock := (the_lock s)\<lparr>locked := 0\<rparr>, pcs := (pcs s)(i := Unlocked)\<rparr>)"
| clear_cpu: "pcs s i = Unlocked \<Longrightarrow>
     lock_step s (s\<lparr>the_lock := (the_lock s)\<lparr>lock_cpu := 0\<rparr>,
       pcs := (pcs s)(i := Outside), iflags := (iflags s)(i := True)\<rparr>)"

inductive lock_reachable :: "smp_state \<Rightarrow> bool" where
  start: "lock_reachable smp_init"
| step: "lock_reachable s \<Longrightarrow> lock_step s t \<Longrightarrow> lock_reachable t"

inductive_cases lock_stepE: "lock_step s t"

text \<open>Who owns the lock: a CPU between its successful exchange and the store of 0.\<close>

definition owns :: "smp_state \<Rightarrow> u32 \<Rightarrow> bool" where
  "owns s i \<longleftrightarrow> pcs s i \<in> {Exchanged, Critical, Releasing}"

definition lock_inv :: "smp_state \<Rightarrow> bool" where
  "lock_inv s \<longleftrightarrow> (locked (the_lock s) \<noteq> 0 \<longleftrightarrow> (\<exists>i. owns s i))
     \<and> (\<forall>i j. owns s i \<longrightarrow> owns s j \<longrightarrow> i = j)
     \<and> (\<forall>i. pcs s i \<noteq> Outside \<longrightarrow> \<not> iflags s i)"

lemma lock_inv_init: "lock_inv smp_init"
  by (simp add: lock_inv_def smp_init_def owns_def initLock_def)

text \<open>Only the exchange and the unlocking store change who owns the lock.\<close>

lemma owns_update:
  "owns (s\<lparr>the_lock := l, pcs := (pcs s)(i := p)\<rparr>) j \<longleftrightarrow>
     (if j = i then p \<in> {Exchanged, Critical, Releasing} else owns s j)"
  "owns (s\<lparr>pcs := (pcs s)(i := p), iflags := f\<rparr>) j \<longleftrightarrow>
     (if j = i then p \<in> {Exchanged, Critical, Releasing} else owns s j)"
  "owns (s\<lparr>the_lock := l, pcs := (pcs s)(i := p), iflags := f\<rparr>) j \<longleftrightarrow>
     (if j = i then p \<in> {Exchanged, Critical, Releasing} else owns s j)"
  by (auto simp: owns_def)

lemma lock_step_inv:
  assumes "lock_step s t" and "lock_inv s"
  shows "lock_inv t"
  using assms
proof (induction rule: lock_step.induct)
  case (exchange s i old lock')
  then have "old = locked (the_lock s)" and "lock' = (the_lock s)\<lparr>locked := 1\<rparr>" and "\<not> owns s i"
    by (auto simp: xchg_def owns_def)
  with exchange show ?case
    by (auto simp: lock_inv_def owns_update)
next
  case (set_cpu s i)
  then have "owns s i" by (simp add: owns_def)
  with set_cpu show ?case by (auto simp: lock_inv_def owns_update)
next
  case (begin_release s i)
  then have "owns s i" by (simp add: owns_def)
  with begin_release show ?case by (auto simp: lock_inv_def owns_update)
next
  case (unlock s i)
  then have "owns s i" by (simp add: owns_def)
  with unlock show ?case by (auto simp: lock_inv_def owns_update)
next
  case (begin_acquire s i)
  then have "\<not> owns s i" by (simp add: owns_def)
  with begin_acquire show ?case by (auto simp: lock_inv_def owns_update)
next
  case (clear_cpu s i)
  then have "\<not> owns s i" by (simp add: owns_def)
  with clear_cpu show ?case by (auto simp: lock_inv_def owns_update)
qed

lemma lock_reachable_inv: "lock_reachable s \<Longrightarrow> lock_inv s"
  by (induction rule: lock_reachable.induct) (auto intro: lock_inv_init lock_step_inv)

text \<open>C13: mutual exclusion. In every interleaving of the accesses of \<open>acquire\<close> and \<open>release\<close>
  by any CPUs, at most one CPU is anywhere between its successful exchange and the store that frees the lock word, with
  the stores to \<open>cpu\<close> and the check of \<open>release\<close> included. Its interrupts are disabled, and the lock word is set.\<close>

theorem spinlock_mutual_exclusion:
  assumes "lock_reachable s" and "pcs s i \<in> {Exchanged, Critical, Releasing}" and "pcs s j \<in> {Exchanged, Critical, Releasing}"
  shows "i = j \<and> \<not> iflags s i \<and> locked (the_lock s) \<noteq> 0"
  using lock_reachable_inv [OF assms(1)] assms(2,3) by (auto simp: lock_inv_def owns_def)

text \<open>Runs, for the witnesses.\<close>

lemma run_acquire:
  assumes "lock_reachable s" and "pcs s i = Outside" and "locked (the_lock s) = 0"
  shows "\<exists>t. lock_reachable t \<and> pcs t = (pcs s)(i := Critical)
    \<and> the_lock t = (the_lock s)\<lparr>locked := 1, lock_cpu := i\<rparr>"
proof -
  define s1 where "s1 = s\<lparr>pcs := (pcs s)(i := Spinning), iflags := (iflags s)(i := False)\<rparr>"
  have 1: "lock_reachable s1"
    unfolding s1_def by (rule lock_reachable.step [OF assms(1)]) (rule begin_acquire, rule assms(2))
  define s2 where "s2 = s1\<lparr>the_lock := (the_lock s)\<lparr>locked := 1\<rparr>, pcs := (pcs s1)(i := Exchanged)\<rparr>"
  have "lock_step s1 (s1\<lparr>the_lock := (the_lock s)\<lparr>locked := 1\<rparr>,
      pcs := (pcs s1)(i := if (0::u32) \<noteq> 0 then Spinning else Exchanged)\<rparr>)"
    by (rule exchange) (use assms(3) in \<open>simp_all add: s1_def xchg_def\<close>)
  then have 2: "lock_reachable s2"
    unfolding s2_def by (intro lock_reachable.step [OF 1]) simp
  define s3 where "s3 = s2\<lparr>the_lock := (the_lock s2)\<lparr>lock_cpu := i\<rparr>, pcs := (pcs s2)(i := Critical)\<rparr>"
  have "lock_reachable s3"
    unfolding s3_def by (rule lock_reachable.step [OF 2]) (rule set_cpu, simp add: s2_def)
  then show ?thesis
    by (intro exI [of _ s3]) (simp add: s3_def s2_def s1_def)
qed

theorem spinlock_mutual_exclusion_witness:
  "\<exists>s. lock_reachable s \<and> pcs s 3 = Critical \<and> \<not> iflags s 3 \<and> locked (the_lock s) \<noteq> 0"
proof -
  obtain t where "lock_reachable t" "pcs t = (pcs smp_init)(3 := Critical)"
    using run_acquire [OF lock_reachable.start, of 3] by (auto simp: smp_init_def initLock_def)
  then show ?thesis using spinlock_mutual_exclusion [of t 3 3] by auto
qed

text \<open>\<open>release\<close> clears \<open>cpu\<close> only after it has freed the lock word, so another CPU can
  acquire the lock in between and have its \<open>cpu\<close> field overwritten: a reachable state has CPU 2
  in its critical section while \<open>holding\<close>, asked by CPU 2, is false.\<close>

theorem release_race_loses_holder:
  "\<exists>s. lock_reachable s \<and> pcs s 2 = Critical \<and> \<not> holding 2 (the_lock s)"
proof -
  obtain s1 where s1: "lock_reachable s1" "pcs s1 = (pcs smp_init)(1 := Critical)"
    using run_acquire [OF lock_reachable.start, of 1] by (auto simp: smp_init_def initLock_def)
  define s2 where "s2 = s1\<lparr>pcs := (pcs s1)(1 := Releasing), iflags := (iflags s1)(1 := False)\<rparr>"
  have 2: "lock_reachable s2"
    unfolding s2_def by (rule lock_reachable.step [OF s1(1)]) (rule begin_release, simp add: s1(2))
  define s3 where "s3 = s2\<lparr>the_lock := (the_lock s2)\<lparr>locked := 0\<rparr>, pcs := (pcs s2)(1 := Unlocked)\<rparr>"
  have 3: "lock_reachable s3"
    unfolding s3_def by (rule lock_reachable.step [OF 2]) (rule unlock, simp add: s2_def)
  have "pcs s3 2 = Outside" "locked (the_lock s3) = 0"
    by (simp_all add: s3_def s2_def s1(2) smp_init_def)
  then obtain s4 where 4: "lock_reachable s4" "pcs s4 = (pcs s3)(2 := Critical)"
    using run_acquire [OF 3] by blast
  define s5 where "s5 = s4\<lparr>the_lock := (the_lock s4)\<lparr>lock_cpu := 0\<rparr>,
    pcs := (pcs s4)(1 := Outside), iflags := (iflags s4)(1 := True)\<rparr>"
  have "lock_reachable s5"
    unfolding s5_def by (rule lock_reachable.step [OF 4(1)]) (rule clear_cpu, simp add: 4(2) s3_def)
  then show ?thesis
    by (intro exI [of _ s5]) (simp add: s5_def 4(2) holding_def)
qed

end
