(* ===== verification/Proc_Tree.thy ===== *)
theory Proc_Tree
  imports Spinlock
begin

text \<open>
  The process table of \<open>sys/process.c\<close>: a red-black tree of \<open>struct process\<close> nodes linked by
  \<open>left\<close>, \<open>right\<close> and \<open>parent\<close> pointers in an explicit store. \<open>root\<close> and \<open>NIL\<close> are the two
  static pointers; the parent of the root is the null pointer, an absent child is \<open>NIL\<close>. Every
  dereference is a lookup in the store, so following a null, dangling or wild pointer is \<open>None\<close>.
  Loops are \<open>partial_function (option)\<close>: a loop that does not end is \<open>None\<close> too.
\<close>

section \<open>Data\<close>

type_synonym ptr = u32

definition NULL :: ptr where "NULL = 0"
definition BLACK :: u32 where "BLACK = 0"
definition RED :: u32 where "RED = 1"

record process =
  pid :: u32
  filename :: ptr
  pageDirectory :: u32
  isUserProc :: u32
  color :: u32
  parent :: ptr
  left :: ptr
  right :: ptr
  head_thread :: ptr
  tail_thread :: ptr

record pstate =
  procs :: "ptr \<Rightarrow> process option"
  root :: ptr
  NIL :: ptr
  UProcessID :: u32
  KProcessID :: u32
  threadID :: u32
  rbTreeLock :: spinlock
  iflag :: bool

text \<open>Reading and writing a node through a pointer.\<close>

definition rd :: "pstate \<Rightarrow> ptr \<Rightarrow> process option" where
  "rd s p = (if p = NULL then None else procs s p)"

definition upd :: "pstate \<Rightarrow> ptr \<Rightarrow> (process \<Rightarrow> process) \<Rightarrow> pstate option" where
  "upd s p f = (case rd s p of None \<Rightarrow> None
                | Some n \<Rightarrow> Some (s\<lparr>procs := (procs s)(p := Some (f n))\<rparr>))"

text \<open>Process and thread ids. \<open>getProcessID\<close> looks only at \<open>isUserProc\<close>.\<close>

definition getProcessID :: "process \<Rightarrow> pstate \<Rightarrow> u32 \<times> pstate" where
  "getProcessID proc s =
     (if isUserProc proc \<noteq> 0
      then (UProcessID s + 1, s\<lparr>UProcessID := UProcessID s + 1\<rparr>)
      else (KProcessID s + 1, s\<lparr>KProcessID := KProcessID s + 1\<rparr>))"

definition getThreadID :: "pstate \<Rightarrow> u32 \<times> pstate" where
  "getThreadID s = (threadID s + 1, s\<lparr>threadID := threadID s + 1\<rparr>)"

section \<open>Rotations\<close>

definition leftRotate :: "pstate \<Rightarrow> ptr \<Rightarrow> pstate option" where
  "leftRotate s x = do {
     nx \<leftarrow> rd s x;
     let y = right nx;
     ny \<leftarrow> rd s y;
     s \<leftarrow> upd s x (right_update (\<lambda>_. left ny));
     ny \<leftarrow> rd s y;
     s \<leftarrow> (if left ny \<noteq> NIL s then upd s (left ny) (parent_update (\<lambda>_. x)) else Some s);
     nx \<leftarrow> rd s x;
     s \<leftarrow> upd s y (parent_update (\<lambda>_. parent nx));
     nx \<leftarrow> rd s x;
     s \<leftarrow> (if parent nx = NULL then Some (s\<lparr>root := y\<rparr>)
          else do {
            np \<leftarrow> rd s (parent nx);
            if x = left np then upd s (parent nx) (left_update (\<lambda>_. y))
            else upd s (parent nx) (right_update (\<lambda>_. y))
          });
     s \<leftarrow> upd s y (left_update (\<lambda>_. x));
     upd s x (parent_update (\<lambda>_. y))
   }"

definition rightRotate :: "pstate \<Rightarrow> ptr \<Rightarrow> pstate option" where
  "rightRotate s y = do {
     ny \<leftarrow> rd s y;
     let x = left ny;
     nx \<leftarrow> rd s x;
     s \<leftarrow> upd s y (left_update (\<lambda>_. right nx));
     nx \<leftarrow> rd s x;
     s \<leftarrow> (if right nx \<noteq> NIL s then upd s (right nx) (parent_update (\<lambda>_. y)) else Some s);
     ny \<leftarrow> rd s y;
     s \<leftarrow> upd s x (parent_update (\<lambda>_. parent ny));
     ny \<leftarrow> rd s y;
     s \<leftarrow> (if parent ny = NULL then Some (s\<lparr>root := x\<rparr>)
          else do {
            np \<leftarrow> rd s (parent ny);
            if y = left np then upd s (parent ny) (left_update (\<lambda>_. x))
            else upd s (parent ny) (right_update (\<lambda>_. x))
          });
     s \<leftarrow> upd s x (right_update (\<lambda>_. y));
     upd s y (parent_update (\<lambda>_. x))
   }"

section \<open>Insertion\<close>

definition set_color :: "u32 \<Rightarrow> process \<Rightarrow> process" where
  "set_color c n = n\<lparr>color := c\<rparr>"

text \<open>
  One pass through the body of the loop in \<open>fixupInsert\<close>. The flag in the result says that the
  \<open>break\<close> was taken. The two branches differ in more than the direction: only the first one
  compares the uncle with \<open>NIL\<close> before it looks at its colour.
\<close>

definition fixup_left :: "pstate \<Rightarrow> ptr \<Rightarrow> (pstate \<times> ptr) option" where
  "fixup_left s newNode = do {
     n \<leftarrow> rd s newNode;
     np \<leftarrow> rd s (parent n);
     ng \<leftarrow> rd s (parent np);
     let y = right ng;
     y_red \<leftarrow> (if y \<noteq> NIL s then do { ny \<leftarrow> rd s y; Some (color ny = RED) } else Some False);
     if y_red then do {
       s \<leftarrow> upd s (parent n) (set_color BLACK);
       s \<leftarrow> upd s y (set_color BLACK);
       s \<leftarrow> upd s (parent np) (set_color RED);
       Some (s, parent np)
     } else do {
       (s, newNode) \<leftarrow> (if newNode = right np
         then do { s \<leftarrow> leftRotate s (parent n); Some (s, parent n) }
         else Some (s, newNode));
       n \<leftarrow> rd s newNode;
       s \<leftarrow> upd s (parent n) (set_color BLACK);
       np \<leftarrow> rd s (parent n);
       s \<leftarrow> upd s (parent np) (set_color RED);
       s \<leftarrow> rightRotate s (parent np);
       Some (s, newNode)
     }
   }"

definition fixup_right :: "pstate \<Rightarrow> ptr \<Rightarrow> (pstate \<times> ptr) option" where
  "fixup_right s newNode = do {
     n \<leftarrow> rd s newNode;
     np \<leftarrow> rd s (parent n);
     ng \<leftarrow> rd s (parent np);
     let y = left ng;
     ny \<leftarrow> rd s y;
     if color ny = RED then do {
       s \<leftarrow> upd s (parent n) (set_color BLACK);
       s \<leftarrow> upd s y (set_color BLACK);
       s \<leftarrow> upd s (parent np) (set_color RED);
       Some (s, parent np)
     } else do {
       (s, newNode) \<leftarrow> (if newNode = left np
         then do { s \<leftarrow> rightRotate s (parent n); Some (s, parent n) }
         else Some (s, newNode));
       n \<leftarrow> rd s newNode;
       s \<leftarrow> upd s (parent n) (set_color BLACK);
       np \<leftarrow> rd s (parent n);
       s \<leftarrow> upd s (parent np) (set_color RED);
       s \<leftarrow> leftRotate s (parent np);
       Some (s, newNode)
     }
   }"

text \<open>The loop test \<open>newNode->parent != NULL && newNode->parent->color == RED\<close>.\<close>

definition fixup_guard :: "pstate \<Rightarrow> ptr \<Rightarrow> bool option" where
  "fixup_guard s newNode = do {
     n \<leftarrow> rd s newNode;
     if parent n = NULL then Some False
     else do { np \<leftarrow> rd s (parent n); Some (color np = RED) }
   }"

partial_function (option) fixup_loop :: "pstate \<Rightarrow> ptr \<Rightarrow> pstate option" where
  "fixup_loop s newNode = do {
     g \<leftarrow> fixup_guard s newNode;
     if \<not> g then Some s
     else do {
       n \<leftarrow> rd s newNode;
       np \<leftarrow> rd s (parent n);
       if parent np = NULL then Some s
       else do {
         ng \<leftarrow> rd s (parent np);
         r \<leftarrow> (if parent n = left ng then fixup_left s newNode else fixup_right s newNode);
         fixup_loop (fst r) (snd r)
       }
     }
   }"

definition fixupInsert :: "pstate \<Rightarrow> ptr \<Rightarrow> pstate option" where
  "fixupInsert s newNode = do {
     s \<leftarrow> fixup_loop s newNode;
     upd s (root s) (set_color BLACK)
   }"

text \<open>The descent of \<open>rbInsert\<close>: \<open>y\<close> follows \<open>x\<close>.\<close>

partial_function (option) insert_descend :: "pstate \<Rightarrow> u32 \<Rightarrow> ptr \<Rightarrow> ptr \<Rightarrow> ptr option" where
  "insert_descend s k y x =
     (if x = NIL s then Some y
      else do {
        nx \<leftarrow> rd s x;
        insert_descend s k x (if k < pid nx then left nx else right nx)
      })"

definition rbInsert :: "pstate \<Rightarrow> ptr \<Rightarrow> pstate option" where
  "rbInsert s newProcess = do {
     n \<leftarrow> rd s newProcess;
     y \<leftarrow> insert_descend s (pid n) NULL (root s);
     s \<leftarrow> upd s newProcess (parent_update (\<lambda>_. y));
     s \<leftarrow> (if y = NULL then Some (s\<lparr>root := newProcess\<rparr>)
          else do {
            ny \<leftarrow> rd s y;
            if pid n < pid ny then upd s y (left_update (\<lambda>_. newProcess))
            else upd s y (right_update (\<lambda>_. newProcess))
          });
     s \<leftarrow> upd s newProcess (left_update (\<lambda>_. NIL s));
     s \<leftarrow> upd s newProcess (right_update (\<lambda>_. NIL s));
     s \<leftarrow> upd s newProcess (set_color RED);
     fixupInsert s newProcess
   }"

section \<open>Search and traversal\<close>

partial_function (option) search_loop :: "pstate \<Rightarrow> u32 \<Rightarrow> ptr \<Rightarrow> ptr option" where
  "search_loop s k current =
     (if current = NIL s then Some current
      else do {
        n \<leftarrow> rd s current;
        if pid n = k then Some current
        else search_loop s k (if k < pid n then left n else right n)
      })"

text \<open>\<open>rbSearch\<close> holds the tree lock around the loop; \<open>apic\<close> is the calling CPU.\<close>

definition rbSearch :: "u32 \<Rightarrow> pstate \<Rightarrow> u32 \<Rightarrow> (ptr \<times> pstate) option" where
  "rbSearch apic s k = do {
     (lk, i) \<leftarrow> acquire apic (rbTreeLock s, iflag s);
     let s = s\<lparr>rbTreeLock := lk, iflag := i\<rparr>;
     current \<leftarrow> search_loop s k (root s);
     let (lk, i) = release apic (rbTreeLock s, iflag s);
     Some (current, s\<lparr>rbTreeLock := lk, iflag := i\<rparr>)
   }"

text \<open>
  \<open>inOrderTraversal\<close> calls \<open>callback\<close> on every node in order. The callback may change any
  state \<open>st\<close>; \<open>ps\<close> projects the process table out of it, which is read again after the call.
\<close>

partial_function (option) inOrderTraversal ::
  "('st \<Rightarrow> pstate) \<Rightarrow> ('st \<Rightarrow> ptr \<Rightarrow> 'st option) \<Rightarrow> 'st \<Rightarrow> ptr \<Rightarrow> 'st option" where
  "inOrderTraversal ps callback st x =
     (if x \<noteq> NIL (ps st) then do {
        n \<leftarrow> rd (ps st) x;
        st \<leftarrow> inOrderTraversal ps callback st (left n);
        st \<leftarrow> callback st x;
        n \<leftarrow> rd (ps st) x;
        inOrderTraversal ps callback st (right n)
      } else Some st)"

section \<open>Deletion\<close>

partial_function (option) treeMinimum :: "pstate \<Rightarrow> ptr \<Rightarrow> ptr option" where
  "treeMinimum s x = do {
     n \<leftarrow> rd s x;
     if left n \<noteq> NIL s then treeMinimum s (left n) else Some x
   }"

definition rbTransplant :: "pstate \<Rightarrow> ptr \<Rightarrow> ptr \<Rightarrow> pstate option" where
  "rbTransplant s u v = do {
     nu \<leftarrow> rd s u;
     s \<leftarrow> (if parent nu = NULL then Some (s\<lparr>root := v\<rparr>)
          else do {
            np \<leftarrow> rd s (parent nu);
            if u = left np then upd s (parent nu) (left_update (\<lambda>_. v))
            else upd s (parent nu) (right_update (\<lambda>_. v))
          });
     nu \<leftarrow> rd s u;
     upd s v (parent_update (\<lambda>_. parent nu))
   }"

text \<open>The colour of the node a pointer leads to.\<close>

definition col :: "pstate \<Rightarrow> ptr \<Rightarrow> u32 option" where
  "col s p = do { n \<leftarrow> rd s p; Some (color n) }"

text \<open>
  One pass through the loop of \<open>rbDeleteFixup\<close>, for \<open>x\<close> a left child and for \<open>x\<close> a right
  child: the new state and the new \<open>x\<close>.
\<close>

definition delete_left :: "pstate \<Rightarrow> ptr \<Rightarrow> (pstate \<times> ptr) option" where
  "delete_left s x = do {
     nx \<leftarrow> rd s x;
     let xp = parent nx;
     np \<leftarrow> rd s xp;
     let w = right np;
     cw \<leftarrow> col s w;
     (s, w) \<leftarrow> (if cw = RED then do {
         s \<leftarrow> upd s w (set_color BLACK);
         s \<leftarrow> upd s xp (set_color RED);
         s \<leftarrow> leftRotate s xp;
         nx \<leftarrow> rd s x;
         np \<leftarrow> rd s (parent nx);
         Some (s, right np)
       } else Some (s, w));
     nw \<leftarrow> rd s w;
     cl \<leftarrow> col s (left nw);
     cr \<leftarrow> (if cl = BLACK then col s (right nw) else Some RED);
     if cl = BLACK \<and> cr = BLACK then do {
       s \<leftarrow> upd s w (set_color RED);
       nx \<leftarrow> rd s x;
       Some (s, parent nx)
     } else do {
       cr \<leftarrow> col s (right nw);
       (s, w) \<leftarrow> (if cr = BLACK then do {
           s \<leftarrow> upd s (left nw) (set_color BLACK);
           s \<leftarrow> upd s w (set_color RED);
           s \<leftarrow> rightRotate s w;
           nx \<leftarrow> rd s x;
           np \<leftarrow> rd s (parent nx);
           Some (s, right np)
         } else Some (s, w));
       nx \<leftarrow> rd s x;
       cp \<leftarrow> col s (parent nx);
       s \<leftarrow> upd s w (set_color cp);
       s \<leftarrow> upd s (parent nx) (set_color BLACK);
       nw \<leftarrow> rd s w;
       s \<leftarrow> upd s (right nw) (set_color BLACK);
       nx \<leftarrow> rd s x;
       s \<leftarrow> leftRotate s (parent nx);
       Some (s, root s)
     }
   }"

definition delete_right :: "pstate \<Rightarrow> ptr \<Rightarrow> (pstate \<times> ptr) option" where
  "delete_right s x = do {
     nx \<leftarrow> rd s x;
     let xp = parent nx;
     np \<leftarrow> rd s xp;
     let w = left np;
     cw \<leftarrow> col s w;
     (s, w) \<leftarrow> (if cw = RED then do {
         s \<leftarrow> upd s w (set_color BLACK);
         s \<leftarrow> upd s xp (set_color RED);
         s \<leftarrow> rightRotate s xp;
         nx \<leftarrow> rd s x;
         np \<leftarrow> rd s (parent nx);
         Some (s, left np)
       } else Some (s, w));
     nw \<leftarrow> rd s w;
     cr \<leftarrow> col s (right nw);
     cl \<leftarrow> (if cr = BLACK then col s (left nw) else Some RED);
     if cr = BLACK \<and> cl = BLACK then do {
       s \<leftarrow> upd s w (set_color RED);
       nx \<leftarrow> rd s x;
       Some (s, parent nx)
     } else do {
       cl \<leftarrow> col s (left nw);
       (s, w) \<leftarrow> (if cl = BLACK then do {
           s \<leftarrow> upd s (right nw) (set_color BLACK);
           s \<leftarrow> upd s w (set_color RED);
           s \<leftarrow> leftRotate s w;
           nx \<leftarrow> rd s x;
           np \<leftarrow> rd s (parent nx);
           Some (s, left np)
         } else Some (s, w));
       nx \<leftarrow> rd s x;
       cp \<leftarrow> col s (parent nx);
       s \<leftarrow> upd s w (set_color cp);
       s \<leftarrow> upd s (parent nx) (set_color BLACK);
       nw \<leftarrow> rd s w;
       s \<leftarrow> upd s (left nw) (set_color BLACK);
       nx \<leftarrow> rd s x;
       s \<leftarrow> rightRotate s (parent nx);
       Some (s, root s)
     }
   }"

partial_function (option) delete_loop :: "pstate \<Rightarrow> ptr \<Rightarrow> (pstate \<times> ptr) option" where
  "delete_loop s x =
     (if x = root s then Some (s, x)
      else do {
        nx \<leftarrow> rd s x;
        if color nx \<noteq> BLACK then Some (s, x)
        else do {
          np \<leftarrow> rd s (parent nx);
          r \<leftarrow> (if x = left np then delete_left s x else delete_right s x);
          delete_loop (fst r) (snd r)
        }
      })"

definition rbDeleteFixup :: "pstate \<Rightarrow> ptr \<Rightarrow> pstate option" where
  "rbDeleteFixup s x = do {
     (s, x) \<leftarrow> delete_loop s x;
     upd s x (set_color BLACK)
   }"

text \<open>
  The unlinking part of \<open>rbDelete\<close> for a node \<open>z\<close> found in the tree: the state, the node \<open>x\<close>
  that took the place of the removed one, and the colour that was removed.
\<close>

definition rb_unlink :: "pstate \<Rightarrow> ptr \<Rightarrow> (pstate \<times> ptr \<times> u32) option" where
  "rb_unlink s z = do {
     nz \<leftarrow> rd s z;
     if left nz = NIL s then do {
       s \<leftarrow> rbTransplant s z (right nz);
       Some (s, right nz, color nz)
     } else if right nz = NIL s then do {
       s \<leftarrow> rbTransplant s z (left nz);
       Some (s, left nz, color nz)
     } else do {
       y \<leftarrow> treeMinimum s (right nz);
       ny \<leftarrow> rd s y;
       let yOriginalColor = color ny;
       let x = right ny;
       s \<leftarrow> (if parent ny = z then upd s x (parent_update (\<lambda>_. y))
            else do {
              s \<leftarrow> rbTransplant s y (right ny);
              nz \<leftarrow> rd s z;
              s \<leftarrow> upd s y (right_update (\<lambda>_. right nz));
              ny \<leftarrow> rd s y;
              upd s (right ny) (parent_update (\<lambda>_. y))
            });
       s \<leftarrow> rbTransplant s z y;
       nz \<leftarrow> rd s z;
       s \<leftarrow> upd s y (left_update (\<lambda>_. left nz));
       ny \<leftarrow> rd s y;
       s \<leftarrow> upd s (left ny) (parent_update (\<lambda>_. y));
       nz \<leftarrow> rd s z;
       s \<leftarrow> upd s y (set_color (color nz));
       Some (s, x, yOriginalColor)
     }
   }"

text \<open>
  The part of \<open>rbDelete\<close> on the tree, up to the calls of \<open>kfree\<close>, which are in \<open>Process_Delete\<close>: the node that was
  found, or the null pointer when no node has the given pid, and the table.
\<close>

definition rb_delete_node :: "u32 \<Rightarrow> pstate \<Rightarrow> u32 \<Rightarrow> (ptr \<times> pstate) option" where
  "rb_delete_node apic s k = do {
     (z, s) \<leftarrow> rbSearch apic s k;
     if z = NIL s then Some (NULL, s)
     else do {
       (s, x, yOriginalColor) \<leftarrow> rb_unlink s z;
       s \<leftarrow> (if yOriginalColor = BLACK then rbDeleteFixup s x else Some s);
       Some (z, s)
     }
   }"

section \<open>Initialisation\<close>

text \<open>
  \<open>nodePreparation\<close> with the address \<open>p\<close> that \<open>kmalloc\<close> returned and the contents \<open>n\<close> of the
  fresh memory: the fields \<open>pid\<close>, \<open>head_thread\<close> and so on keep what was there.
\<close>

definition nodePreparation :: "ptr \<Rightarrow> process \<Rightarrow> pstate \<Rightarrow> pstate" where
  "nodePreparation p n s =
     s\<lparr>NIL := p,
       procs := (procs s)(p := Some (n\<lparr>color := BLACK, left := p, right := p, parent := NULL\<rparr>)),
       root := p\<rparr>"

definition initProc :: "ptr \<Rightarrow> process \<Rightarrow> pstate \<Rightarrow> pstate" where
  "initProc p n s = nodePreparation p n (s\<lparr>rbTreeLock := initLock ''RB tree lock''\<rparr>)"

end
