(* ===== verification/Proc_Tree_Rep.thy ===== *)
theory Proc_Tree_Rep
  imports Proc_Tree
begin

text \<open>
  Abstraction of the pointer tree of \<open>sys/process.c\<close> to a functional tree whose nodes carry
  their address and pid, with a zipper for the path from a node to the root. Every pointer
  operation is shown to be an operation on this tree: the rotations, the recolouring of a node
  and the replacement of an absent child.
\<close>

section \<open>Trees and contexts\<close>

datatype colr = Red | Black

datatype ptree = Lf | Br colr ptree ptr u32 ptree

datatype step = LS colr ptr u32 ptree | RS colr ptree ptr u32

fun colv :: "colr \<Rightarrow> u32" where
  "colv Red = RED"
| "colv Black = BLACK"

fun nodes :: "ptree \<Rightarrow> (ptr \<times> u32) list" where
  "nodes Lf = []"
| "nodes (Br c l a k r) = nodes l @ (a, k) # nodes r"

abbreviation addrs :: "ptree \<Rightarrow> ptr list" where
  "addrs t \<equiv> map fst (nodes t)"

fun tptr :: "ptr \<Rightarrow> ptree \<Rightarrow> ptr" where
  "tptr nil Lf = nil"
| "tptr nil (Br c l a k r) = a"

fun up :: "ptree \<Rightarrow> step \<Rightarrow> ptree" where
  "up t (LS c a k r) = Br c t a k r"
| "up t (RS c l a k) = Br c l a k t"

fun plug :: "ptree \<Rightarrow> step list \<Rightarrow> ptree" where
  "plug t [] = t"
| "plug t (st # cs) = plug (up t st) cs"

fun cptr :: "step list \<Rightarrow> ptr" where
  "cptr [] = NULL"
| "cptr (LS c a k r # cs) = a"
| "cptr (RS c l a k # cs) = a"

fun before :: "step list \<Rightarrow> (ptr \<times> u32) list" where
  "before [] = []"
| "before (LS c a k r # cs) = before cs"
| "before (RS c l a k # cs) = before cs @ nodes l @ [(a, k)]"

fun after :: "step list \<Rightarrow> (ptr \<times> u32) list" where
  "after [] = []"
| "after (LS c a k r # cs) = (a, k) # nodes r @ after cs"
| "after (RS c l a k # cs) = after cs"

text \<open>The addresses of a tree and of a context, and that none occurs twice.\<close>

fun tset :: "ptree \<Rightarrow> ptr set" where
  "tset Lf = {}"
| "tset (Br c l a k r) = insert a (tset l \<union> tset r)"

fun tdist :: "ptree \<Rightarrow> bool" where
  "tdist Lf \<longleftrightarrow> True"
| "tdist (Br c l a k r) \<longleftrightarrow> a \<notin> tset l \<and> a \<notin> tset r \<and> tset l \<inter> tset r = {} \<and> tdist l \<and> tdist r"

fun cset :: "step list \<Rightarrow> ptr set" where
  "cset [] = {}"
| "cset (LS c a k r # cs) = insert a (tset r \<union> cset cs)"
| "cset (RS c l a k # cs) = insert a (tset l \<union> cset cs)"

fun cdist :: "step list \<Rightarrow> bool" where
  "cdist [] \<longleftrightarrow> True"
| "cdist (LS c a k r # cs) \<longleftrightarrow> a \<notin> tset r \<and> a \<notin> cset cs \<and> tset r \<inter> cset cs = {} \<and> tdist r \<and> cdist cs"
| "cdist (RS c l a k # cs) \<longleftrightarrow> a \<notin> tset l \<and> a \<notin> cset cs \<and> tset l \<inter> cset cs = {} \<and> tdist l \<and> cdist cs"

lemma tset_addrs: "tset t = set (addrs t)"
  by (induction t) auto

lemma tdist_addrs: "tdist t \<longleftrightarrow> distinct (addrs t)"
  by (induction t) (auto simp: tset_addrs)

lemma nodes_plug: "nodes (plug t cs) = before cs @ nodes t @ after cs"
proof (induction cs arbitrary: t)
  case (Cons st cs)
  then show ?case by (cases st) simp_all
qed simp

lemma tset_plug [simp]: "tset (plug t cs) = tset t \<union> cset cs"
proof (induction cs arbitrary: t)
  case (Cons st cs)
  then show ?case by (cases st) auto
qed simp

lemma tdist_plug [simp]: "tdist (plug t cs) \<longleftrightarrow> tdist t \<and> cdist cs \<and> tset t \<inter> cset cs = {}"
proof (induction cs arbitrary: t)
  case (Cons st cs)
  then show ?case by (cases st) auto
qed simp

lemma plug_append: "plug t (cs @ ds) = plug (plug t cs) ds"
  by (induction cs arbitrary: t) auto

lemma cptr_in_cset: "cs \<noteq> [] \<Longrightarrow> cptr cs \<in> cset cs"
  by (cases cs rule: cptr.cases) auto

lemma tptr_in_tset: "t \<noteq> Lf \<Longrightarrow> tptr nil t \<in> tset t"
  by (cases t) auto

section \<open>The store represents a tree\<close>

fun is_tree :: "pstate \<Rightarrow> ptr \<Rightarrow> ptree \<Rightarrow> bool" where
  "is_tree s par Lf \<longleftrightarrow> True"
| "is_tree s par (Br c l a k r) \<longleftrightarrow>
     (\<exists>n. procs s a = Some n \<and> pid n = k \<and> color n = colv c \<and> parent n = par
        \<and> left n = tptr (NIL s) l \<and> right n = tptr (NIL s) r)
     \<and> is_tree s a l \<and> is_tree s a r"

fun ctx_ok :: "pstate \<Rightarrow> ptr \<Rightarrow> step list \<Rightarrow> bool" where
  "ctx_ok s h [] \<longleftrightarrow> root s = h"
| "ctx_ok s h (LS c a k r # cs) \<longleftrightarrow>
     (\<exists>n. procs s a = Some n \<and> pid n = k \<and> color n = colv c \<and> parent n = cptr cs
        \<and> left n = h \<and> right n = tptr (NIL s) r)
     \<and> is_tree s a r \<and> ctx_ok s a cs"
| "ctx_ok s h (RS c l a k # cs) \<longleftrightarrow>
     (\<exists>n. procs s a = Some n \<and> pid n = k \<and> color n = colv c \<and> parent n = cptr cs
        \<and> left n = tptr (NIL s) l \<and> right n = h)
     \<and> is_tree s a l \<and> ctx_ok s a cs"

definition sentinel :: "pstate \<Rightarrow> bool" where
  "sentinel s \<longleftrightarrow> NIL s \<noteq> NULL \<and> (\<exists>n. procs s (NIL s) = Some n \<and> color n = BLACK)"

definition addrs_ok :: "pstate \<Rightarrow> ptr set \<Rightarrow> bool" where
  "addrs_ok s A \<longleftrightarrow> NULL \<notin> A \<and> NIL s \<notin> A"

definition rep :: "pstate \<Rightarrow> ptree \<Rightarrow> bool" where
  "rep s t \<longleftrightarrow> is_tree s NULL t \<and> root s = tptr (NIL s) t \<and> sentinel s
     \<and> tdist t \<and> addrs_ok s (tset t)"

lemma plug_rep:
  "is_tree s NULL (plug t cs) \<and> root s = tptr (NIL s) (plug t cs) \<longleftrightarrow>
     is_tree s (cptr cs) t \<and> ctx_ok s (tptr (NIL s) t) cs"
proof (induction cs arbitrary: t)
  case (Cons st cs)
  then show ?case by (cases st) auto
qed auto

lemma rep_plug:
  "rep s (plug t cs) \<longleftrightarrow> is_tree s (cptr cs) t \<and> ctx_ok s (tptr (NIL s) t) cs \<and> sentinel s
     \<and> tdist t \<and> cdist cs \<and> tset t \<inter> cset cs = {} \<and> addrs_ok s (tset t) \<and> addrs_ok s (cset cs)"
  using plug_rep [of s t cs] by (auto simp: rep_def addrs_ok_def)

section \<open>Updates of one node\<close>

definition put :: "ptr \<Rightarrow> (process \<Rightarrow> process) \<Rightarrow> pstate \<Rightarrow> pstate" where
  "put p f s = s\<lparr>procs := (procs s)(p := map_option f (procs s p))\<rparr>"

lemma put_simps [simp]:
  "NIL (put p f s) = NIL s" "root (put p f s) = root s"
  "procs (put p f s) q = (if q = p then map_option f (procs s p) else procs s q)"
  by (simp_all add: put_def)

lemma root_update_simps [simp]:
  "rd (s\<lparr>root := r\<rparr>) p = rd s p"
  by (simp add: rd_def)

lemma rd_Some: "p \<noteq> NULL \<Longrightarrow> procs s p = Some n \<Longrightarrow> rd s p = Some n"
  by (simp add: rd_def)

lemma upd_put: "p \<noteq> NULL \<Longrightarrow> procs s p = Some n \<Longrightarrow> upd s p f = Some (put p f s)"
  by (simp add: upd_def rd_def put_def)

lemma is_tree_cong:
  assumes "\<And>a. a \<in> tset t \<Longrightarrow> procs s' a = procs s a" and "NIL s' = NIL s"
  shows "is_tree s' par t = is_tree s par t"
  using assms by (induction t arbitrary: par) auto

lemma is_tree_put [simp]: "p \<notin> tset t \<Longrightarrow> is_tree (put p f s) par t = is_tree s par t"
  by (intro is_tree_cong) auto

lemma is_tree_root [simp]: "is_tree (s\<lparr>root := r\<rparr>) par t = is_tree s par t"
  by (intro is_tree_cong) auto

lemma ctx_ok_cong:
  assumes "\<And>a. a \<in> cset cs \<Longrightarrow> procs s' a = procs s a"
    and "NIL s' = NIL s" and "root s' = root s"
  shows "ctx_ok s' h cs = ctx_ok s h cs"
  using assms
proof (induction s h cs rule: ctx_ok.induct)
  case (2 s h c a k r cs)
  then have "is_tree s' a r = is_tree s a r" by (intro is_tree_cong) auto
  moreover have "ctx_ok s' a cs = ctx_ok s a cs" using 2 by (intro "2.IH") auto
  ultimately show ?case using 2 by simp
next
  case (3 s h c l a k cs)
  then have "is_tree s' a l = is_tree s a l" by (intro is_tree_cong) auto
  moreover have "ctx_ok s' a cs = ctx_ok s a cs" using 3 by (intro "3.IH") auto
  ultimately show ?case using 3 by simp
qed simp

lemma ctx_ok_put [simp]: "p \<notin> cset cs \<Longrightarrow> ctx_ok (put p f s) h cs = ctx_ok s h cs"
  by (intro ctx_ok_cong) auto

text \<open>Giving a subtree another parent.\<close>

definition reparent :: "ptree \<Rightarrow> ptr \<Rightarrow> pstate \<Rightarrow> pstate" where
  "reparent t p s = (case t of Lf \<Rightarrow> s | Br c l a k r \<Rightarrow> put a (parent_update (\<lambda>_. p)) s)"

lemma reparent_simps [simp]:
  "NIL (reparent t p s) = NIL s" "root (reparent t p s) = root s"
  "q \<notin> tset t \<Longrightarrow> procs (reparent t p s) q = procs s q"
  by (auto simp: reparent_def split: ptree.splits)

lemmas frame_procs = reparent_simps(3)

lemma is_tree_reparent_self:
  "is_tree s q t \<Longrightarrow> tdist t \<Longrightarrow> is_tree (reparent t p s) p t"
  by (cases t) (auto simp: reparent_def)

lemma is_tree_reparent_other [simp]:
  "tset t \<inter> tset u = {} \<Longrightarrow> is_tree (reparent t p s) par u = is_tree s par u"
  by (intro is_tree_cong frame_procs) auto

lemma ctx_ok_reparent [simp]:
  "tset t \<inter> cset cs = {} \<Longrightarrow> ctx_ok (reparent t p s) h cs = ctx_ok s h cs"
  by (intro ctx_ok_cong frame_procs) auto

section \<open>Hanging another subtree into the context\<close>

text \<open>
  The statement \<open>if (x->parent == NULL) root = y; else if (x == x->parent->left) ...\<close> that both
  rotations and \<open>rbTransplant\<close> contain.
\<close>

definition relink :: "pstate \<Rightarrow> ptr \<Rightarrow> ptr \<Rightarrow> ptr \<Rightarrow> pstate option" where
  "relink s p x y =
     (if p = NULL then Some (s\<lparr>root := y\<rparr>)
      else do {
        np \<leftarrow> rd s p;
        if x = left np then upd s p (left_update (\<lambda>_. y)) else upd s p (right_update (\<lambda>_. y))
      })"

text \<open>The same on the abstract side: which field of which node changes.\<close>

fun relinked :: "step list \<Rightarrow> ptr \<Rightarrow> pstate \<Rightarrow> pstate" where
  "relinked [] y s = s\<lparr>root := y\<rparr>"
| "relinked (LS c a k r # cs) y s = put a (left_update (\<lambda>_. y)) s"
| "relinked (RS c l a k # cs) y s = put a (right_update (\<lambda>_. y)) s"

text \<open>The hole is not the sibling: the test \<open>x == x->parent->left\<close> finds the right side.\<close>

fun hole_clear :: "pstate \<Rightarrow> ptr \<Rightarrow> step list \<Rightarrow> bool" where
  "hole_clear s x (RS c l a k # cs) \<longleftrightarrow> x \<noteq> tptr (NIL s) l"
| "hole_clear s x cs \<longleftrightarrow> True"

lemma hole_clear_node:
  assumes "a \<notin> cset cs" and "a \<noteq> NIL s"
  shows "hole_clear s a cs"
  using assms
proof (cases "(s, a, cs)" rule: hole_clear.cases)
  case (1 s a c l b k ds)
  with assms show ?thesis by (cases l) auto
qed auto

lemma relink_relinked:
  assumes "ctx_ok s x cs" and "hole_clear s x cs" and "NULL \<notin> cset cs"
  shows "relink s (cptr cs) x y = Some (relinked cs y s)"
proof (cases cs)
  case (Cons st ds)
  with assms show ?thesis
    by (cases st) (auto simp: relink_def rd_Some upd_put)
qed (simp add: relink_def)

lemma relinked_simps [simp]:
  "NIL (relinked cs y s) = NIL s"
  "q \<notin> cset cs \<Longrightarrow> procs (relinked cs y s) q = procs s q"
  by (cases "(cs, y, s)" rule: relinked.cases; auto)+

lemma is_tree_relinked [simp]:
  "cset cs \<inter> tset t = {} \<Longrightarrow> is_tree (relinked cs y s) par t = is_tree s par t"
  by (intro is_tree_cong relinked_simps) auto

lemma ctx_ok_relinked:
  assumes "ctx_ok s x cs" and "cdist cs"
  shows "ctx_ok (relinked cs y s) y cs"
  using assms by (cases "(cs, y, s)" rule: relinked.cases) auto

section \<open>Rotations on the tree\<close>

lemma leftRotate_relink:
  "leftRotate s x = do {
     nx \<leftarrow> rd s x;
     let y = right nx;
     ny \<leftarrow> rd s y;
     s \<leftarrow> upd s x (right_update (\<lambda>_. left ny));
     ny \<leftarrow> rd s y;
     s \<leftarrow> (if left ny \<noteq> NIL s then upd s (left ny) (parent_update (\<lambda>_. x)) else Some s);
     nx \<leftarrow> rd s x;
     s \<leftarrow> upd s y (parent_update (\<lambda>_. parent nx));
     nx \<leftarrow> rd s x;
     s \<leftarrow> relink s (parent nx) x y;
     s \<leftarrow> upd s y (left_update (\<lambda>_. x));
     upd s x (parent_update (\<lambda>_. y))
   }"
  by (simp add: leftRotate_def relink_def)

lemma rightRotate_relink:
  "rightRotate s y = do {
     ny \<leftarrow> rd s y;
     let x = left ny;
     nx \<leftarrow> rd s x;
     s \<leftarrow> upd s y (left_update (\<lambda>_. right nx));
     nx \<leftarrow> rd s x;
     s \<leftarrow> (if right nx \<noteq> NIL s then upd s (right nx) (parent_update (\<lambda>_. y)) else Some s);
     ny \<leftarrow> rd s y;
     s \<leftarrow> upd s x (parent_update (\<lambda>_. parent ny));
     ny \<leftarrow> rd s y;
     s \<leftarrow> relink s (parent ny) y x;
     s \<leftarrow> upd s x (right_update (\<lambda>_. y));
     upd s y (parent_update (\<lambda>_. x))
   }"
  by (simp add: rightRotate_def relink_def)

definition lrot :: "ptr \<Rightarrow> ptr \<Rightarrow> ptree \<Rightarrow> step list \<Rightarrow> pstate \<Rightarrow> pstate" where
  "lrot a b m cs s =
     put a (parent_update (\<lambda>_. b)) (put b (left_update (\<lambda>_. a)) (relinked cs b
       (put b (parent_update (\<lambda>_. cptr cs)) (reparent m a
         (put a (right_update (\<lambda>_. tptr (NIL s) m)) s)))))"

lemma leftRotate_lrot:
  assumes "rep s (plug (Br c l a k (Br c' m b k' r)) cs)"
  shows "leftRotate s a = Some (lrot a b m cs s)"
proof -
  let ?t = "Br c l a k (Br c' m b k' r)"
  from assms have tree: "is_tree s (cptr cs) ?t" and ctx: "ctx_ok s a cs" and "tdist ?t"
    and dis: "tset ?t \<inter> cset cs = {}" and ok: "addrs_ok s (tset ?t)" "addrs_ok s (cset cs)"
    by (auto simp: rep_plug)
  from tree obtain na nb where na: "procs s a = Some na" "right na = b" "parent na = cptr cs"
    and nb: "procs s b = Some nb" "left nb = tptr (NIL s) m"
    by auto
  have ab: "a \<noteq> NULL" "b \<noteq> NULL" "a \<noteq> b" "a \<notin> tset m" "b \<notin> tset m" "a \<noteq> NIL s" "b \<noteq> NIL s"
    using ok(1) \<open>tdist ?t\<close> by (auto simp: addrs_ok_def)
  have abc: "a \<notin> cset cs" "b \<notin> cset cs" "tset m \<inter> cset cs = {}"
    using dis by auto
  define s1 where "s1 = put a (right_update (\<lambda>_. tptr (NIL s) m)) s"
  define s2 where "s2 = reparent m a s1"
  define s3 where "s3 = put b (parent_update (\<lambda>_. cptr cs)) s2"
  have m: "if tptr (NIL s) m \<noteq> NIL s then upd s1 (tptr (NIL s) m) (parent_update (\<lambda>_. a)) = Some s2
      else s2 = s1"
  proof (cases m)
    case (Br mc ml q mk mr)
    with tree ab ok(1) show ?thesis
      by (auto simp: s1_def s2_def reparent_def addrs_ok_def intro!: upd_put)
  qed (simp add: s2_def reparent_def)
  have "ctx_ok s3 a cs"
    using ctx abc by (simp add: s3_def s2_def s1_def)
  moreover have "hole_clear s3 a cs"
    using abc ab by (intro hole_clear_node) (simp_all add: s3_def s2_def s1_def)
  ultimately have rl: "relink s3 (cptr cs) a b = Some (relinked cs b s3)"
    using ok(2) by (intro relink_relinked) (auto simp: addrs_ok_def)
  note defs = s1_def s2_def s3_def
  have NILs: "NIL s1 = NIL s" by (simp add: defs)
  have s1: "upd s a (right_update (\<lambda>_. tptr (NIL s) m)) = Some s1"
    using na ab by (simp add: upd_put s1_def)
  have s3: "upd s2 b (parent_update (\<lambda>_. cptr cs)) = Some s3"
    using nb ab by (simp add: upd_put defs)
  have rds: "rd s a = Some na" "rd s b = Some nb" "rd s1 b = Some nb"
    "rd s2 a = Some (na\<lparr>right := tptr (NIL s) m\<rparr>)" "rd s3 a = Some (na\<lparr>right := tptr (NIL s) m\<rparr>)"
    using na nb ab by (simp_all add: rd_def defs)
  define s4 where "s4 = relinked cs b s3"
  have s5: "upd s4 b (left_update (\<lambda>_. a)) = Some (put b (left_update (\<lambda>_. a)) s4)"
    and s6: "upd (put b (left_update (\<lambda>_. a)) s4) a (parent_update (\<lambda>_. b)) = Some (lrot a b m cs s)"
    using na nb ab abc by (simp_all add: upd_put s4_def lrot_def defs)
  show ?thesis
    using na(2,3) nb(2) m rds s1 NILs s3 rl [folded s4_def] s5 s6
    by (cases "tptr (NIL s) m = NIL s") (simp_all add: leftRotate_relink)
qed

lemma sentinel_frame:
  "sentinel s \<Longrightarrow> procs s' (NIL s) = procs s (NIL s) \<Longrightarrow> NIL s' = NIL s \<Longrightarrow> sentinel s'"
  by (simp add: sentinel_def)

lemma lrot_rep:
  assumes "rep s (plug (Br c l a k (Br c' m b k' r)) cs)"
  shows "rep (lrot a b m cs s) (plug (Br c' (Br c l a k m) b k' r) cs)"
proof -
  let ?t = "Br c l a k (Br c' m b k' r)"
  let ?s' = "lrot a b m cs s"
  from assms have tree: "is_tree s (cptr cs) ?t" and ctx: "ctx_ok s a cs" and dt: "tdist ?t"
    and dc: "cdist cs" and dis: "tset ?t \<inter> cset cs = {}" and sent: "sentinel s"
    and ok: "addrs_ok s (tset ?t)" "addrs_ok s (cset cs)"
    by (auto simp: rep_plug)
  have nil: "NIL s \<notin> cset cs" "a \<noteq> NIL s" "b \<noteq> NIL s" "NIL s \<notin> tset m"
    using ok by (auto simp: addrs_ok_def)
  have out: "a \<notin> cset cs" "b \<notin> cset cs" "cset cs \<inter> tset l = {}" "cset cs \<inter> tset r = {}"
      "cset cs \<inter> tset m = {}"
    and ins: "a \<noteq> b" "a \<notin> tset l" "a \<notin> tset m" "a \<notin> tset r" "b \<notin> tset l" "b \<notin> tset m" "b \<notin> tset r"
      "tset m \<inter> tset l = {}" "tset m \<inter> tset r = {}"
    using dis dt by auto
  have "sentinel ?s'"
    by (rule sentinel_frame [OF sent]) (use nil in \<open>simp_all add: lrot_def\<close>)
  moreover have "ctx_ok ?s' b cs"
  proof -
    define u where "u = put b (parent_update (\<lambda>_. cptr cs)) (reparent m a (put a (right_update (\<lambda>_. tptr (NIL s) m)) s))"
    have "ctx_ok u a cs"
      using ctx out by (simp add: u_def Int_commute)
    then have "ctx_ok (relinked cs b u) b cs"
      using dc by (rule ctx_ok_relinked)
    then show ?thesis
      using out by (simp add: lrot_def u_def)
  qed
  moreover have "is_tree ?s' a m"
  proof -
    have "is_tree (reparent m a (put a (right_update (\<lambda>_. tptr (NIL s) m)) s)) a m"
      using tree dt ins by (intro is_tree_reparent_self [of _ b]) auto
    then show ?thesis
      using ins out by (simp add: lrot_def)
  qed
  moreover have "is_tree ?s' a l" "is_tree ?s' b r"
    using tree ins out by (simp_all add: lrot_def)
  moreover have "is_tree ?s' (cptr cs) (Br c' (Br c l a k m) b k' r)" if "is_tree ?s' a m"
      "is_tree ?s' a l" "is_tree ?s' b r"
    using that tree ins out by (auto simp: lrot_def)
  ultimately show ?thesis
    using dt dc dis ok by (auto simp: rep_plug addrs_ok_def lrot_def)
qed


definition rrot :: "ptr \<Rightarrow> ptr \<Rightarrow> ptree \<Rightarrow> step list \<Rightarrow> pstate \<Rightarrow> pstate" where
  "rrot a b m cs s =
     put a (parent_update (\<lambda>_. b)) (put b (right_update (\<lambda>_. a)) (relinked cs b
       (put b (parent_update (\<lambda>_. cptr cs)) (reparent m a
         (put a (left_update (\<lambda>_. tptr (NIL s) m)) s)))))"

lemma rightRotate_rrot:
  assumes "rep s (plug (Br c (Br c' l b k' m) a k r) cs)"
  shows "rightRotate s a = Some (rrot a b m cs s)"
proof -
  let ?t = "Br c (Br c' l b k' m) a k r"
  from assms have tree: "is_tree s (cptr cs) ?t" and ctx: "ctx_ok s a cs" and "tdist ?t"
    and dis: "tset ?t \<inter> cset cs = {}" and ok: "addrs_ok s (tset ?t)" "addrs_ok s (cset cs)"
    by (auto simp: rep_plug)
  from tree obtain na nb where na: "procs s a = Some na" "left na = b" "parent na = cptr cs"
    and nb: "procs s b = Some nb" "right nb = tptr (NIL s) m"
    by auto
  have ab: "a \<noteq> NULL" "b \<noteq> NULL" "a \<noteq> b" "a \<notin> tset m" "b \<notin> tset m" "a \<noteq> NIL s" "b \<noteq> NIL s"
    using ok(1) \<open>tdist ?t\<close> by (auto simp: addrs_ok_def)
  have abc: "a \<notin> cset cs" "b \<notin> cset cs" "tset m \<inter> cset cs = {}"
    using dis by auto
  define s1 where "s1 = put a (left_update (\<lambda>_. tptr (NIL s) m)) s"
  define s2 where "s2 = reparent m a s1"
  define s3 where "s3 = put b (parent_update (\<lambda>_. cptr cs)) s2"
  have m: "if tptr (NIL s) m \<noteq> NIL s then upd s1 (tptr (NIL s) m) (parent_update (\<lambda>_. a)) = Some s2
      else s2 = s1"
  proof (cases m)
    case (Br mc ml q mk mr)
    with tree ab ok(1) show ?thesis
      by (auto simp: s1_def s2_def reparent_def addrs_ok_def intro!: upd_put)
  qed (simp add: s2_def reparent_def)
  have "ctx_ok s3 a cs"
    using ctx abc by (simp add: s3_def s2_def s1_def)
  moreover have "hole_clear s3 a cs"
    using abc ab by (intro hole_clear_node) (simp_all add: s3_def s2_def s1_def)
  ultimately have rl: "relink s3 (cptr cs) a b = Some (relinked cs b s3)"
    using ok(2) by (intro relink_relinked) (auto simp: addrs_ok_def)
  note defs = s1_def s2_def s3_def
  have NILs: "NIL s1 = NIL s" by (simp add: defs)
  have s1: "upd s a (left_update (\<lambda>_. tptr (NIL s) m)) = Some s1"
    using na ab by (simp add: upd_put s1_def)
  have s3: "upd s2 b (parent_update (\<lambda>_. cptr cs)) = Some s3"
    using nb ab by (simp add: upd_put defs)
  have rds: "rd s a = Some na" "rd s b = Some nb" "rd s1 b = Some nb"
    "rd s2 a = Some (na\<lparr>left := tptr (NIL s) m\<rparr>)" "rd s3 a = Some (na\<lparr>left := tptr (NIL s) m\<rparr>)"
    using na nb ab by (simp_all add: rd_def defs)
  define s4 where "s4 = relinked cs b s3"
  have s5: "upd s4 b (right_update (\<lambda>_. a)) = Some (put b (right_update (\<lambda>_. a)) s4)"
    and s6: "upd (put b (right_update (\<lambda>_. a)) s4) a (parent_update (\<lambda>_. b)) = Some (rrot a b m cs s)"
    using na nb ab abc by (simp_all add: upd_put s4_def rrot_def defs)
  show ?thesis
    using na(2,3) nb(2) m rds s1 NILs s3 rl [folded s4_def] s5 s6
    by (cases "tptr (NIL s) m = NIL s") (simp_all add: rightRotate_relink)
qed

lemma rrot_rep:
  assumes "rep s (plug (Br c (Br c' l b k' m) a k r) cs)"
  shows "rep (rrot a b m cs s) (plug (Br c' l b k' (Br c m a k r)) cs)"
proof -
  let ?t = "Br c (Br c' l b k' m) a k r"
  let ?s' = "rrot a b m cs s"
  from assms have tree: "is_tree s (cptr cs) ?t" and ctx: "ctx_ok s a cs" and dt: "tdist ?t"
    and dc: "cdist cs" and dis: "tset ?t \<inter> cset cs = {}" and sent: "sentinel s"
    and ok: "addrs_ok s (tset ?t)" "addrs_ok s (cset cs)"
    by (auto simp: rep_plug)
  have nil: "NIL s \<notin> cset cs" "a \<noteq> NIL s" "b \<noteq> NIL s" "NIL s \<notin> tset m"
    using ok by (auto simp: addrs_ok_def)
  have out: "a \<notin> cset cs" "b \<notin> cset cs" "cset cs \<inter> tset l = {}" "cset cs \<inter> tset r = {}"
      "cset cs \<inter> tset m = {}"
    and ins: "a \<noteq> b" "a \<notin> tset l" "a \<notin> tset m" "a \<notin> tset r" "b \<notin> tset l" "b \<notin> tset m" "b \<notin> tset r"
      "tset m \<inter> tset l = {}" "tset m \<inter> tset r = {}"
    using dis dt by auto
  have "sentinel ?s'"
    by (rule sentinel_frame [OF sent]) (use nil in \<open>simp_all add: rrot_def\<close>)
  moreover have "ctx_ok ?s' b cs"
  proof -
    define u where "u = put b (parent_update (\<lambda>_. cptr cs)) (reparent m a (put a (left_update (\<lambda>_. tptr (NIL s) m)) s))"
    have "ctx_ok u a cs"
      using ctx out by (simp add: u_def Int_commute)
    then have "ctx_ok (relinked cs b u) b cs"
      using dc by (rule ctx_ok_relinked)
    then show ?thesis
      using out by (simp add: rrot_def u_def)
  qed
  moreover have "is_tree ?s' a m"
  proof -
    have "is_tree (reparent m a (put a (left_update (\<lambda>_. tptr (NIL s) m)) s)) a m"
      using tree dt ins by (intro is_tree_reparent_self [of _ b]) auto
    then show ?thesis
      using ins out by (simp add: rrot_def)
  qed
  moreover have "is_tree ?s' b l" "is_tree ?s' a r"
    using tree ins out by (simp_all add: rrot_def)
  moreover have "is_tree ?s' (cptr cs) (Br c' l b k' (Br c m a k r))" if "is_tree ?s' a m"
      "is_tree ?s' b l" "is_tree ?s' a r"
    using that tree ins out by (auto simp: rrot_def)
  ultimately show ?thesis
    using dt dc dis ok by (auto simp: rep_plug addrs_ok_def rrot_def)
qed


section \<open>What the tree operations leave alone\<close>

text \<open>
  The part of a node that the tree operations never touch, and the frame condition: outside the
  nodes of \<open>A\<close> nothing changes, inside only colours and links, and no other variable.
\<close>

definition payload :: "process \<Rightarrow> process" where
  "payload n = n\<lparr>color := 0, parent := 0, left := 0, right := 0\<rparr>"

definition frame :: "ptr set \<Rightarrow> pstate \<Rightarrow> pstate \<Rightarrow> bool" where
  "frame A s s' \<longleftrightarrow> NIL s' = NIL s \<and> UProcessID s' = UProcessID s \<and> KProcessID s' = KProcessID s
     \<and> threadID s' = threadID s \<and> rbTreeLock s' = rbTreeLock s \<and> iflag s' = iflag s
     \<and> (\<forall>p. p \<notin> A \<longrightarrow> procs s' p = procs s p)
     \<and> (\<forall>p. map_option payload (procs s' p) = map_option payload (procs s p))"

lemma frame_refl [simp]: "frame A s s"
  by (simp add: frame_def)

lemma frame_trans: "frame A r s \<Longrightarrow> frame A s t \<Longrightarrow> frame A r t"
  by (auto simp: frame_def)

lemma frame_NIL: "frame A s s' \<Longrightarrow> NIL s' = NIL s"
  by (simp add: frame_def)

lemma frame_mono: "frame A s s' \<Longrightarrow> A \<subseteq> B \<Longrightarrow> frame B s s'"
  by (auto simp: frame_def)

lemma payload_simps [simp]:
  "payload (set_color c n) = payload n" "payload (parent_update f n) = payload n"
  "payload (left_update f n) = payload n" "payload (right_update f n) = payload n"
  by (simp_all add: payload_def set_color_def)

lemma frame_put:
  assumes "frame A s t" and "p \<in> A" and "\<And>n. payload (f n) = payload n"
  shows "frame A s (put p f t)"
proof -
  have "map_option payload (map_option f x) = map_option payload x" for x
    using assms(3) by (cases x) auto
  with assms(1,2) show ?thesis
    by (auto simp: frame_def put_def)
qed

lemma frame_root: "frame A s t \<Longrightarrow> frame A s (t\<lparr>root := r\<rparr>)"
  by (auto simp: frame_def)

lemma frame_reparent: "frame A s u \<Longrightarrow> tset t \<subseteq> A \<Longrightarrow> frame A s (reparent t p u)"
  by (cases t) (auto simp: reparent_def intro: frame_put)

lemma frame_relinked: "frame A s u \<Longrightarrow> cset cs \<subseteq> A \<Longrightarrow> frame A s (relinked cs y u)"
  by (cases "(cs, y, u)" rule: relinked.cases) (auto intro: frame_put frame_root)

lemma frame_lrot:
  assumes "{a, b} \<union> tset m \<union> cset cs \<subseteq> A"
  shows "frame A s (lrot a b m cs s)" and "frame A s (rrot a b m cs s)"
  using assms unfolding lrot_def rrot_def
  by (auto intro!: frame_put frame_relinked frame_reparent)

section \<open>Rotation, recolouring and inspection at a focus\<close>

lemma rotate_left:
  assumes "rep s (plug (Br c l a k (Br c' m b k' r)) cs)" and "tset (plug (Br c l a k (Br c' m b k' r)) cs) \<subseteq> A"
  obtains s' where "leftRotate s a = Some s'"
    and "rep s' (plug (Br c' (Br c l a k m) b k' r) cs)"
    and "frame A s s'"
  using leftRotate_lrot [OF assms(1)] lrot_rep [OF assms(1)] that assms(2)
  by (fastforce intro!: frame_lrot)

lemma rotate_right:
  assumes "rep s (plug (Br c (Br c' l b k' m) a k r) cs)" and "tset (plug (Br c (Br c' l b k' m) a k r) cs) \<subseteq> A"
  obtains s' where "rightRotate s a = Some s'"
    and "rep s' (plug (Br c' l b k' (Br c m a k r)) cs)"
    and "frame A s s'"
  using rightRotate_rrot [OF assms(1)] rrot_rep [OF assms(1)] that assms(2)
  by (fastforce intro!: frame_lrot)

lemma recolour:
  assumes "rep s (plug (Br c l a k r) cs)" and "v = colv c'" and "a \<in> A"
  obtains s' where "upd s a (set_color v) = Some s'"
    and "rep s' (plug (Br c' l a k r) cs)"
    and "frame A s s'"
proof
  from assms have facts: "is_tree s (cptr cs) (Br c l a k r)" "ctx_ok s a cs" "sentinel s"
    "tdist (Br c l a k r)" "a \<notin> cset cs" "a \<noteq> NULL" "a \<noteq> NIL s"
    by (auto simp: rep_plug addrs_ok_def)
  then show "upd s a (set_color v) = Some (put a (set_color v) s)"
    by (auto intro: upd_put)
  have "sentinel (put a (set_color v) s)"
    by (rule sentinel_frame [OF facts(3)]) (use facts in simp_all)
  with facts assms show "rep (put a (set_color v) s) (plug (Br c' l a k r) cs)"
    by (auto simp: rep_plug addrs_ok_def set_color_def)
  show "frame A s (put a (set_color v) s)"
    using assms(3) by (auto intro: frame_put)
qed

lemma rep_node:
  assumes "rep s (plug (Br c l a k r) cs)"
  obtains n where "rd s a = Some n" and "pid n = k" and "color n = colv c" and "parent n = cptr cs"
    and "left n = tptr (NIL s) l" and "right n = tptr (NIL s) r"
  using assms that by (auto simp: rep_plug addrs_ok_def rd_def)

lemma cptr_Cons: "cptr (st # cs) = cptr [st]"
  by (cases st) auto

lemma tset_up: "tset (up t st) = tset t \<union> cset [st]"
  by (cases st) auto

lemma rep_nil:
  assumes "rep s t"
  obtains n where "rd s (NIL s) = Some n" and "color n = BLACK"
  using assms that by (auto simp: rep_def sentinel_def rd_def)

lemma rep_col:
  assumes "rep s (plug t cs)"
  obtains n where "rd s (tptr (NIL s) t) = Some n"
    and "color n = (case t of Lf \<Rightarrow> BLACK | Br c l a k r \<Rightarrow> colv c)"
proof (cases t)
  case Lf
  then show thesis using that rep_nil [OF assms] by auto
next
  case (Br c l a k r)
  then show thesis using that rep_node [of s c l a k r cs] assms by auto
qed

lemma rep_addrs:
  assumes "rep s t" and "a \<in> tset t"
  shows "a \<noteq> NULL" and "a \<noteq> NIL s"
  using assms by (auto simp: rep_def addrs_ok_def)

lemma rep_root: "rep s t \<Longrightarrow> root s = tptr (NIL s) t"
  by (simp add: rep_def)


section \<open>Inspection around a focus\<close>

fun stc :: "step \<Rightarrow> colr" where
  "stc (LS c a k r) = c"
| "stc (RS c l a k) = c"

definition sibling :: "step \<Rightarrow> ptree" where
  "sibling st = (case st of LS c a k r \<Rightarrow> r | RS c l a k \<Rightarrow> l)"

lemma rep_step:
  assumes "rep s (plug t (st # cs))"
  obtains n where "rd s (cptr [st]) = Some n" and "color n = colv (stc st)"
    and "parent n = cptr cs" and "cptr [st] \<noteq> NULL"
    and "left n = (case st of LS c a k r \<Rightarrow> tptr (NIL s) t | RS c l a k \<Rightarrow> tptr (NIL s) l)"
    and "cptr [st] \<noteq> tptr (NIL s) (sibling st)"
    and "tptr (NIL s) t \<noteq> tptr (NIL s) (sibling st) \<or> t = Lf"
proof -
  have R: "rep s (plug (up t st) cs)" using assms by simp
  have d: "cptr [st] \<noteq> NULL" "tdist (up t st)" "NIL s \<notin> tset (up t st)"
    using R by (cases st; auto simp: rep_plug addrs_ok_def)+
  let ?sib = "sibling st"
  have "cptr [st] \<noteq> tptr (NIL s) ?sib"
    using d by (cases st; cases ?sib) (auto simp: sibling_def)
  moreover have "tptr (NIL s) t \<noteq> tptr (NIL s) ?sib \<or> t = Lf"
    using d by (cases st; cases ?sib; cases t) (auto simp: sibling_def)
  ultimately show thesis
    using that d(1) rep_node [of s "stc st"] R by (cases st) (auto elim!: rep_node)
qed

lemma rep_parent:
  assumes "rep s (plug t cs)" and "t \<noteq> Lf"
  obtains n where "rd s (tptr (NIL s) t) = Some n" and "parent n = cptr cs"
  using assms that by (cases t) (auto elim!: rep_node)

lemma rep_sibling:
  assumes "rep s (plug t (st # cs))" and "t \<noteq> Lf"
  shows "tptr (NIL s) t \<noteq> tptr (NIL s) (sibling st)"
  using assms by (elim rep_step) auto

end
