(* ===== verification/Proc_Tree_Insert.thy ===== *)
theory Proc_Tree_Insert
  imports Proc_Tree_Rep
begin

text \<open>
  \<open>rbInsert\<close> and \<open>fixupInsert\<close> of \<open>sys/process.c\<close>: the loop of the fix-up on the zipper, the
  proof that the pointer code performs it and ends, and that the result is again a red-black
  tree with the new process inserted behind the processes whose pid is not larger.
\<close>

section \<open>Red-black trees\<close>

fun red :: "ptree \<Rightarrow> bool" where
  "red (Br Red l a k r) \<longleftrightarrow> True"
| "red t \<longleftrightarrow> False"

fun blacken :: "ptree \<Rightarrow> ptree" where
  "blacken Lf = Lf"
| "blacken (Br c l a k r) = Br Black l a k r"

text \<open>No red node has a red child, and every path down has \<open>n\<close> black nodes.\<close>

fun tinv :: "ptree \<Rightarrow> nat \<Rightarrow> bool" where
  "tinv Lf n \<longleftrightarrow> n = 0"
| "tinv (Br Red l a k r) n \<longleftrightarrow> tinv l n \<and> tinv r n \<and> \<not> red l \<and> \<not> red r"
| "tinv (Br Black l a k r) n \<longleftrightarrow> (case n of 0 \<Rightarrow> False | Suc m \<Rightarrow> tinv l m \<and> tinv r m)"

lemma tinv_Black: "tinv (Br Black l a k r) n \<longleftrightarrow> (\<exists>m. n = Suc m \<and> tinv l m \<and> tinv r m)"
  by (cases n) auto

declare tinv.simps(3) [simp del] tinv_Black [simp]

definition rbtree :: "ptree \<Rightarrow> bool" where
  "rbtree t \<longleftrightarrow> \<not> red t \<and> (\<exists>n. tinv t n)"

text \<open>What a context demands of its hole: black height \<open>n\<close>, and no red root unless \<open>c\<close>.\<close>

fun cinv :: "bool \<Rightarrow> nat \<Rightarrow> step list \<Rightarrow> bool" where
  "cinv c n [] \<longleftrightarrow> \<not> c"
| "cinv c n (LS Red a k t # cs) \<longleftrightarrow> \<not> c \<and> tinv t n \<and> \<not> red t \<and> cinv True n cs"
| "cinv c n (RS Red t a k # cs) \<longleftrightarrow> \<not> c \<and> tinv t n \<and> \<not> red t \<and> cinv True n cs"
| "cinv c n (LS Black a k t # cs) \<longleftrightarrow> tinv t n \<and> cinv False (Suc n) cs"
| "cinv c n (RS Black t a k # cs) \<longleftrightarrow> tinv t n \<and> cinv False (Suc n) cs"

lemma rbtree_plug: "rbtree (plug t cs) \<longleftrightarrow> (\<exists>n. tinv t n \<and> cinv (red t) n cs)"
proof (induction cs arbitrary: t)
  case (Cons st cs)
  show ?case
  proof (cases st)
    case (LS c a k r)
    with Cons show ?thesis by (cases c) auto
  next
    case (RS c l a k)
    with Cons show ?thesis by (cases c) auto
  qed
qed (auto simp: rbtree_def)

lemma tinv_blacken: "tinv t n \<Longrightarrow> \<exists>m. tinv (blacken t) m"
proof (cases t)
  case (Br c l a k r)
  assume "tinv t n"
  with Br show ?thesis by (cases c) (auto intro: exI [of _ "Suc n"])
qed auto

lemma not_red_blacken [simp]: "\<not> red (blacken t)"
  by (cases t) auto

lemma red_iff: "red t \<longleftrightarrow> (\<exists>l a k r. t = Br Red l a k r)"
  by (cases t rule: red.cases) auto

lemma blacken_simps [simp]: "nodes (blacken t) = nodes t" "tset (blacken t) = tset t"
  by (cases t; simp)+

section \<open>The fix-up loop on the zipper\<close>

text \<open>
  One pass for a red focus below the red step and the next one: the subtree at the grandparent,
  and whether the loop goes on from there.
\<close>

fun ins_pass :: "ptree \<Rightarrow> step \<Rightarrow> step \<Rightarrow> bool \<times> ptree" where
  "ins_pass t (LS c' p pk s) (LS c g gk u) =
     (if red u then (True, Br Red (Br Black t p pk s) g gk (blacken u))
      else (False, Br Black t p pk (Br Red s g gk u)))"
| "ins_pass t (RS c' s p pk) (LS c g gk u) =
     (if red u then (True, Br Red (Br Black s p pk t) g gk (blacken u))
      else (False, case t of Lf \<Rightarrow> Br c (Br c' s p pk t) g gk u
            | Br tc l a k r \<Rightarrow> Br Black (Br Red s p pk l) a k (Br Red r g gk u)))"
| "ins_pass t (RS c' s p pk) (RS c u g gk) =
     (if red u then (True, Br Red (blacken u) g gk (Br Black s p pk t))
      else (False, Br Black (Br Red u g gk s) p pk t))"
| "ins_pass t (LS c' p pk s) (RS c u g gk) =
     (if red u then (True, Br Red (blacken u) g gk (Br Black t p pk s))
      else (False, case t of Lf \<Rightarrow> Br c u g gk (Br c' t p pk s)
            | Br tc l a k r \<Rightarrow> Br Black (Br Red u g gk l) a k (Br Red r p pk s)))"

fun insfix :: "ptree \<Rightarrow> step list \<Rightarrow> ptree" where
  "insfix t (st # st' # cs) =
     (if stc st = Black then plug t (st # st' # cs)
      else if fst (ins_pass t st st') then insfix (snd (ins_pass t st st')) cs
      else plug (snd (ins_pass t st st')) cs)"
| "insfix t [] = plug t []"
| "insfix t [st] = plug t [st]"

lemma nodes_ins_pass: "nodes (snd (ins_pass t st st')) = nodes (up (up t st) st')"
  by (cases "(t, st, st')" rule: ins_pass.cases) (simp_all split: ptree.split)

lemma tset_ins_pass: "tset (snd (ins_pass t st st')) = tset (up (up t st) st')"
  by (simp add: tset_addrs nodes_ins_pass)

lemma nodes_insfix: "nodes (insfix t cs) = nodes (plug t cs)"
  by (induction t cs rule: insfix.induct) (auto simp: nodes_plug nodes_ins_pass)

lemma tset_insfix: "tset (insfix t cs) = tset t \<union> cset cs"
  using tset_addrs [of "insfix t cs"] tset_addrs [of "plug t cs"] by (simp add: nodes_insfix)

lemma tinv_plug:
  assumes "tinv t n" and "cinv (red t) n cs"
  shows "\<exists>m. tinv (blacken (plug t cs)) m"
  using assms rbtree_plug [of t cs] tinv_blacken by (auto simp: rbtree_def)

lemma tinv_blacken_red: "red t \<Longrightarrow> tinv t n \<Longrightarrow> tinv (blacken t) (Suc n)"
  by (auto simp: red_iff)

text \<open>A pass keeps the invariant: the new subtree is valid one black level higher.\<close>

lemma ins_pass_tinv:
  assumes "red t" and "tinv t n" and "cinv False n (st # st' # cs)" and "stc st = Red"
  shows "tinv (snd (ins_pass t st st')) (Suc n)" and "cinv False (Suc n) cs"
    and "red (snd (ins_pass t st st')) = fst (ins_pass t st st')"
proof -
  have "stc st' = Black"
    using assms(3,4) by (cases st; cases st'; cases "stc st'") auto
  with assms have "tinv (snd (ins_pass t st st')) (Suc n) \<and> cinv False (Suc n) cs
      \<and> red (snd (ins_pass t st st')) = fst (ins_pass t st st')"
    by (cases "(t, st, st')" rule: ins_pass.cases) (auto simp: red_iff tinv_blacken_red)
  then show "tinv (snd (ins_pass t st st')) (Suc n)" and "cinv False (Suc n) cs"
    and "red (snd (ins_pass t st st')) = fst (ins_pass t st st')"
    by blast+
qed

lemma cinv_Black:
  assumes "stc st = Black" and "cinv c n (st # cs)"
  shows "cinv True n (st # cs)"
  using assms by (cases st) auto

lemma insfix_tinv:
  assumes "red t" and "tinv t n" and "cinv False n cs"
  shows "\<exists>m. tinv (blacken (insfix t cs)) m"
  using assms
proof (induction t cs arbitrary: n rule: insfix.induct)
  case (1 t st st' cs)
  consider "stc st = Black" | "stc st = Red" by (cases "stc st") auto
  then show ?case
  proof cases
    case 1
    with "1.prems" have "cinv (red t) n (st # st' # cs)"
      by (simp add: cinv_Black)
    with 1 "1.prems" tinv_plug [of t n "st # st' # cs"] show ?thesis by simp
  next
    case 2
    note pass = ins_pass_tinv [OF "1.prems" 2]
    show ?thesis
    proof (cases "fst (ins_pass t st st')")
      case True
      then show ?thesis using "1.IH" pass 2 by simp
    next
      case False
      then show ?thesis using pass 2 tinv_plug [OF pass(1), of cs] by simp
    qed
  qed
next
  case (2 t)
  then show ?case using tinv_blacken by simp
next
  case (3 t st)
  then have "cinv (red t) n [st]"
    by (cases st; cases "stc st") auto
  with "3" show ?case using tinv_plug [of t n "[st]"] by simp
qed


section \<open>The pointer code performs the passes\<close>

lemma up_Br: "\<exists>l k r. up t st = Br (stc st) l (cptr [st]) k r"
  by (cases st) auto

lemma left_recolour:
  assumes R: "rep s (plug t (st # LS c g gk u # cs))" and t: "t = Br Red l a k r"
    and st: "stc st = Red" and u: "red u" and A: "tset (plug t (st # LS c g gk u # cs)) \<subseteq> A"
  shows "\<exists>s'. fixup_left s a = Some (s', g)
    \<and> rep s' (plug (snd (ins_pass t st (LS c g gk u))) cs) \<and> frame A s s'"
proof -
  obtain l' p pk r' where up: "up t st = Br Red l' p pk r'" and p: "cptr [st] = p"
    using up_Br [of t st] st by auto
  obtain ul y yk ur where u': "u = Br Red ul y yk ur"
    using u by (auto simp: red_iff)
  have Rp: "rep s (plug (Br Red l' p pk r') (LS c g gk u # cs))"
    and Rg: "rep s (plug (Br c (Br Red l' p pk r') g gk u) cs)"
    and Ru: "rep s (plug (Br Red ul y yk ur) (RS c (Br Red l' p pk r') g gk # cs))"
    and Rn: "rep s (plug (Br Red l a k r) (st # LS c g gk u # cs))"
    using R up t u' by simp_all
  have "tset (plug (Br Red l' p pk r') (LS c g gk u # cs)) \<subseteq> A"
    using A unfolding plug.simps up .
  then have mem: "p \<in> A" "y \<in> A" "g \<in> A"
    by (auto simp: u')
  obtain n where n: "rd s a = Some n" "parent n = p"
    using rep_node [OF Rn] cptr_Cons [of st "LS c g gk u # cs"] p by metis
  obtain np where np: "rd s p = Some np" "parent np = g"
    by (rule rep_node [OF Rp]) auto
  obtain ng where ng: "rd s g = Some ng" "right ng = y"
    by (rule rep_node [OF Rg]) (auto simp: u')
  obtain ny where ny: "rd s y = Some ny" "color ny = RED"
    by (rule rep_node [OF Ru]) auto
  have y: "y \<noteq> NIL s"
    using rep_addrs(2) [OF Ru, of y] by simp
  obtain s1 where s1: "upd s p (set_color BLACK) = Some s1" "frame A s s1"
      "rep s1 (plug (Br Black l' p pk r') (LS c g gk u # cs))"
    by (rule recolour [OF Rp, where c' = Black and v = BLACK and A = A]) (auto simp: mem)
  have "rep s1 (plug (Br Red ul y yk ur) (RS c (Br Black l' p pk r') g gk # cs))"
    using s1(3) by (simp add: u')
  then obtain s2 where s2: "upd s1 y (set_color BLACK) = Some s2" "frame A s1 s2"
      "rep s2 (plug (Br Black ul y yk ur) (RS c (Br Black l' p pk r') g gk # cs))"
    by (rule recolour [where c' = Black and v = BLACK and A = A]) (auto simp: mem)
  have "rep s2 (plug (Br c (Br Black l' p pk r') g gk (Br Black ul y yk ur)) cs)"
    using s2(3) by simp
  then obtain s3 where s3: "upd s2 g (set_color RED) = Some s3" "frame A s2 s3"
      "rep s3 (plug (Br Red (Br Black l' p pk r') g gk (Br Black ul y yk ur)) cs)"
    by (rule recolour [where c' = Red and v = RED and A = A]) (auto simp: mem)
  have "fixup_left s a = Some (s3, g)"
    using n np ng ny y s1(1) s2(1) s3(1) by (simp add: fixup_left_def)
  moreover have "snd (ins_pass t st (LS c g gk u)) = Br Red (Br Black l' p pk r') g gk (Br Black ul y yk ur)"
    using up u' by (cases st) auto
  ultimately show ?thesis
    using s3(3) frame_trans [OF frame_trans [OF s1(2) s2(2)] s3(2)] by auto
qed

definition finish_left :: "pstate \<Rightarrow> ptr \<Rightarrow> (pstate \<times> ptr) option" where
  "finish_left s newNode = do {
     n \<leftarrow> rd s newNode;
     s \<leftarrow> upd s (parent n) (set_color BLACK);
     np \<leftarrow> rd s (parent n);
     s \<leftarrow> upd s (parent np) (set_color RED);
     s \<leftarrow> rightRotate s (parent np);
     Some (s, newNode)
   }"

lemma guard_left:
  assumes "rep s (plug (Br Black (Br Red x a k y) p pk z) cs)"
  shows "fixup_guard s a = Some False"
proof -
  have "rep s (plug (Br Red x a k y) (LS Black p pk z # cs))"
    using assms by simp
  then obtain n where "rd s a = Some n" "parent n = p"
    by (rule rep_node) auto
  moreover obtain np where "rd s p = Some np" "color np = BLACK"
    by (rule rep_node [OF assms]) auto
  ultimately show ?thesis
    by (simp add: fixup_guard_def RED_def BLACK_def)
qed

lemma finish_left:
  assumes R: "rep s (plug (Br Red (Br Red x a k y) p pk z) (LS c g gk u # cs))"
    and A: "tset (plug (Br Red (Br Red x a k y) p pk z) (LS c g gk u # cs)) \<subseteq> A"
  shows "\<exists>s'. finish_left s a = Some (s', a)
    \<and> rep s' (plug (Br Black (Br Red x a k y) p pk (Br Red z g gk u)) cs)
    \<and> frame A s s'"
proof -
  have mem: "p \<in> A" "g \<in> A" using A by auto
  have "rep s (plug (Br Red x a k y) (LS Red p pk z # LS c g gk u # cs))"
    using R by simp
  then obtain n where n: "rd s a = Some n" "parent n = p"
    by (rule rep_node) auto
  obtain s1 where s1: "upd s p (set_color BLACK) = Some s1" "frame A s s1"
      "rep s1 (plug (Br Black (Br Red x a k y) p pk z) (LS c g gk u # cs))"
    by (rule recolour [OF R, where c' = Black and v = BLACK and A = A]) (auto simp: mem)
  obtain np where np: "rd s1 p = Some np" "parent np = g"
    by (rule rep_node [OF s1(3)]) auto
  have "rep s1 (plug (Br c (Br Black (Br Red x a k y) p pk z) g gk u) cs)"
    using s1(3) by simp
  then obtain s2 where s2: "upd s1 g (set_color RED) = Some s2" "frame A s1 s2"
      "rep s2 (plug (Br Red (Br Black (Br Red x a k y) p pk z) g gk u) cs)"
    by (rule recolour [where c' = Red and v = RED and A = A]) (auto simp: mem)
  obtain s3 where s3: "rightRotate s2 g = Some s3" "frame A s2 s3"
      "rep s3 (plug (Br Black (Br Red x a k y) p pk (Br Red z g gk u)) cs)"
    by (rule rotate_right [OF s2(3), of A]) (use A in auto)
  have "finish_left s a = Some (s3, a)"
    using n np s1(1) s2(1) s3(1) by (simp add: finish_left_def)
  then show ?thesis
    using s3(3) frame_trans [OF frame_trans [OF s1(2) s2(2)] s3(2)] by blast
qed

lemma left_rotate_cases:
  assumes R: "rep s (plug t (st # LS c g gk u # cs))" and t: "t = Br Red l a k r"
    and st: "stc st = Red" and u: "\<not> red u" and A: "tset (plug t (st # LS c g gk u # cs)) \<subseteq> A"
  shows "\<exists>s' x. fixup_left s a = Some (s', x) \<and> fixup_guard s' x = Some False
    \<and> rep s' (plug (snd (ins_pass t st (LS c g gk u))) cs) \<and> frame A s s'"
proof -
  obtain l' p pk r' where up: "up t st = Br Red l' p pk r'" and p: "cptr [st] = p"
    using up_Br [of t st] st by auto
  have Rp: "rep s (plug (Br Red l' p pk r') (LS c g gk u # cs))"
    and Rn: "rep s (plug (Br Red l a k r) (st # LS c g gk u # cs))"
    and Rg: "rep s (plug (Br c (Br Red l' p pk r') g gk u) cs)"
    and Ru: "rep s (plug u (RS c (Br Red l' p pk r') g gk # cs))"
    using R up t by simp_all
  obtain n where n: "rd s a = Some n" "parent n = p"
    using rep_node [OF Rn] cptr_Cons [of st "LS c g gk u # cs"] p by metis
  obtain np where np: "rd s p = Some np" "parent np = g" "right np = tptr (NIL s) r'"
    by (rule rep_node [OF Rp]) auto
  obtain ng where ng: "rd s g = Some ng" "right ng = tptr (NIL s) u"
    by (rule rep_node [OF Rg]) auto
  obtain ny where ny: "rd s (tptr (NIL s) u) = Some ny" "color ny = BLACK"
    using rep_col [OF Ru] u by (cases u rule: red.cases) auto
  have run: "fixup_left s a = do {
      (s, newNode) \<leftarrow> (if a = tptr (NIL s) r'
         then do { s \<leftarrow> leftRotate s p; Some (s, p) } else Some (s, a));
      finish_left s newNode }"
    using n np ng ny
    by (cases "tptr (NIL s) u = NIL s") (simp_all add: fixup_left_def finish_left_def RED_def BLACK_def)
  show ?thesis
  proof (cases st)
    case (LS c' p' pk' sb)
    then have eq: "Br Red l' p pk r' = Br Red (Br Red l a k r) p pk sb" "p' = p" "pk' = pk" "c' = Red"
      using up t st by simp_all
    have A': "tset (plug (Br Red (Br Red l a k r) p pk sb) (LS c g gk u # cs)) \<subseteq> A"
      using A t LS eq by simp
    have "a \<noteq> tptr (NIL s) sb"
      using rep_sibling [OF Rn] LS by (simp add: sibling_def)
    moreover obtain s2 where s2: "finish_left s a = Some (s2, a)" "frame A s s2"
        "rep s2 (plug (Br Black (Br Red l a k r) p pk (Br Red sb g gk u)) cs)"
      using finish_left [OF Rp [unfolded eq(1)] A'] by blast
    ultimately have "fixup_left s a = Some (s2, a)"
      using run eq(1) by simp
    then show ?thesis
      using s2(2,3) u t LS eq guard_left [OF s2(3)] by simp
  next
    case (RS c' sb p' pk')
    then have eq: "Br Red l' p pk r' = Br Red sb p pk (Br Red l a k r)" "p' = p" "pk' = pk" "c' = Red"
      using up t st by simp_all
    have A': "tset (plug (Br Red sb p pk (Br Red l a k r)) (LS c g gk u # cs)) \<subseteq> A"
      using A t RS eq by simp
    obtain s1 where s1: "leftRotate s p = Some s1" "frame A s s1"
        "rep s1 (plug (Br Red (Br Red sb p pk l) a k r) (LS c g gk u # cs))"
      by (rule rotate_left [OF Rp [unfolded eq(1)] A'])
    have "tset (plug (Br Red (Br Red sb p pk l) a k r) (LS c g gk u # cs)) \<subseteq> A"
      using A' by auto
    then obtain s2 where s2: "finish_left s1 p = Some (s2, p)" "frame A s1 s2"
        "rep s2 (plug (Br Black (Br Red sb p pk l) a k (Br Red r g gk u)) cs)"
      using finish_left [OF s1(3)] by blast
    have "fixup_left s a = Some (s2, p)"
      using run s1(1) s2(1) eq(1) by simp
    then show ?thesis
      using s2(3) frame_trans [OF s1(2) s2(2)] u t RS eq guard_left [OF s2(3)] by simp
  qed
qed

lemma right_recolour:
  assumes R: "rep s (plug t (st # RS c u g gk # cs))" and t: "t = Br Red r a k l"
    and st: "stc st = Red" and u: "red u" and A: "tset (plug t (st # RS c u g gk # cs)) \<subseteq> A"
  shows "\<exists>s'. fixup_right s a = Some (s', g)
    \<and> rep s' (plug (snd (ins_pass t st (RS c u g gk))) cs) \<and> frame A s s'"
proof -
  obtain l' p pk r' where up: "up t st = Br Red r' p pk l'" and p: "cptr [st] = p"
    using up_Br [of t st] st by auto
  obtain ul y yk ur where u': "u = Br Red ur y yk ul"
    using u by (auto simp: red_iff)
  have Rp: "rep s (plug (Br Red r' p pk l') (RS c u g gk # cs))"
    and Rg: "rep s (plug (Br c u g gk (Br Red r' p pk l')) cs)"
    and Ru: "rep s (plug (Br Red ur y yk ul) (LS c g gk (Br Red r' p pk l') # cs))"
    and Rn: "rep s (plug (Br Red r a k l) (st # RS c u g gk # cs))"
    using R up t u' by simp_all
  have "tset (plug (Br Red r' p pk l') (RS c u g gk # cs)) \<subseteq> A"
    using A unfolding plug.simps up .
  then have mem: "p \<in> A" "y \<in> A" "g \<in> A"
    by (auto simp: u')
  obtain n where n: "rd s a = Some n" "parent n = p"
    using rep_node [OF Rn] cptr_Cons [of st "RS c u g gk # cs"] p by metis
  obtain np where np: "rd s p = Some np" "parent np = g"
    by (rule rep_node [OF Rp]) auto
  obtain ng where ng: "rd s g = Some ng" "left ng = y"
    by (rule rep_node [OF Rg]) (auto simp: u')
  obtain ny where ny: "rd s y = Some ny" "color ny = RED"
    by (rule rep_node [OF Ru]) auto
  have y: "y \<noteq> NIL s"
    using rep_addrs(2) [OF Ru, of y] by simp
  obtain s1 where s1: "upd s p (set_color BLACK) = Some s1" "frame A s s1"
      "rep s1 (plug (Br Black r' p pk l') (RS c u g gk # cs))"
    by (rule recolour [OF Rp, where c' = Black and v = BLACK and A = A]) (auto simp: mem)
  have "rep s1 (plug (Br Red ur y yk ul) (LS c g gk (Br Black r' p pk l') # cs))"
    using s1(3) by (simp add: u')
  then obtain s2 where s2: "upd s1 y (set_color BLACK) = Some s2" "frame A s1 s2"
      "rep s2 (plug (Br Black ur y yk ul) (LS c g gk (Br Black r' p pk l') # cs))"
    by (rule recolour [where c' = Black and v = BLACK and A = A]) (auto simp: mem)
  have "rep s2 (plug (Br c (Br Black ur y yk ul) g gk (Br Black r' p pk l')) cs)"
    using s2(3) by simp
  then obtain s3 where s3: "upd s2 g (set_color RED) = Some s3" "frame A s2 s3"
      "rep s3 (plug (Br Red (Br Black ur y yk ul) g gk (Br Black r' p pk l')) cs)"
    by (rule recolour [where c' = Red and v = RED and A = A]) (auto simp: mem)
  have "fixup_right s a = Some (s3, g)"
    using n np ng ny y s1(1) s2(1) s3(1) by (simp add: fixup_right_def)
  moreover have "snd (ins_pass t st (RS c u g gk)) = Br Red (Br Black ur y yk ul) g gk (Br Black r' p pk l')"
    using up u' by (cases st) auto
  ultimately show ?thesis
    using s3(3) frame_trans [OF frame_trans [OF s1(2) s2(2)] s3(2)] by auto
qed

definition finish_right :: "pstate \<Rightarrow> ptr \<Rightarrow> (pstate \<times> ptr) option" where
  "finish_right s newNode = do {
     n \<leftarrow> rd s newNode;
     s \<leftarrow> upd s (parent n) (set_color BLACK);
     np \<leftarrow> rd s (parent n);
     s \<leftarrow> upd s (parent np) (set_color RED);
     s \<leftarrow> leftRotate s (parent np);
     Some (s, newNode)
   }"

lemma guard_right:
  assumes "rep s (plug (Br Black z p pk (Br Red y a k x)) cs)"
  shows "fixup_guard s a = Some False"
proof -
  have "rep s (plug (Br Red y a k x) (RS Black z p pk # cs))"
    using assms by simp
  then obtain n where "rd s a = Some n" "parent n = p"
    by (rule rep_node) auto
  moreover obtain np where "rd s p = Some np" "color np = BLACK"
    by (rule rep_node [OF assms]) auto
  ultimately show ?thesis
    by (simp add: fixup_guard_def RED_def BLACK_def)
qed

lemma finish_right:
  assumes R: "rep s (plug (Br Red z p pk (Br Red y a k x)) (RS c u g gk # cs))"
    and A: "tset (plug (Br Red z p pk (Br Red y a k x)) (RS c u g gk # cs)) \<subseteq> A"
  shows "\<exists>s'. finish_right s a = Some (s', a)
    \<and> rep s' (plug (Br Black (Br Red u g gk z) p pk (Br Red y a k x)) cs)
    \<and> frame A s s'"
proof -
  have mem: "p \<in> A" "g \<in> A" using A by auto
  have "rep s (plug (Br Red y a k x) (RS Red z p pk # RS c u g gk # cs))"
    using R by simp
  then obtain n where n: "rd s a = Some n" "parent n = p"
    by (rule rep_node) auto
  obtain s1 where s1: "upd s p (set_color BLACK) = Some s1" "frame A s s1"
      "rep s1 (plug (Br Black z p pk (Br Red y a k x)) (RS c u g gk # cs))"
    by (rule recolour [OF R, where c' = Black and v = BLACK and A = A]) (auto simp: mem)
  obtain np where np: "rd s1 p = Some np" "parent np = g"
    by (rule rep_node [OF s1(3)]) auto
  have "rep s1 (plug (Br c u g gk (Br Black z p pk (Br Red y a k x))) cs)"
    using s1(3) by simp
  then obtain s2 where s2: "upd s1 g (set_color RED) = Some s2" "frame A s1 s2"
      "rep s2 (plug (Br Red u g gk (Br Black z p pk (Br Red y a k x))) cs)"
    by (rule recolour [where c' = Red and v = RED and A = A]) (auto simp: mem)
  obtain s3 where s3: "leftRotate s2 g = Some s3" "frame A s2 s3"
      "rep s3 (plug (Br Black (Br Red u g gk z) p pk (Br Red y a k x)) cs)"
    by (rule rotate_left [OF s2(3), of A]) (use A in auto)
  have "finish_right s a = Some (s3, a)"
    using n np s1(1) s2(1) s3(1) by (simp add: finish_right_def)
  then show ?thesis
    using s3(3) frame_trans [OF frame_trans [OF s1(2) s2(2)] s3(2)] by blast
qed

lemma right_rotate_cases:
  assumes R: "rep s (plug t (st # RS c u g gk # cs))" and t: "t = Br Red r a k l"
    and st: "stc st = Red" and u: "\<not> red u" and A: "tset (plug t (st # RS c u g gk # cs)) \<subseteq> A"
  shows "\<exists>s' x. fixup_right s a = Some (s', x) \<and> fixup_guard s' x = Some False
    \<and> rep s' (plug (snd (ins_pass t st (RS c u g gk))) cs) \<and> frame A s s'"
proof -
  obtain l' p pk r' where up: "up t st = Br Red r' p pk l'" and p: "cptr [st] = p"
    using up_Br [of t st] st by auto
  have Rp: "rep s (plug (Br Red r' p pk l') (RS c u g gk # cs))"
    and Rn: "rep s (plug (Br Red r a k l) (st # RS c u g gk # cs))"
    and Rg: "rep s (plug (Br c u g gk (Br Red r' p pk l')) cs)"
    and Ru: "rep s (plug u (LS c g gk (Br Red r' p pk l') # cs))"
    using R up t by simp_all
  obtain n where n: "rd s a = Some n" "parent n = p"
    using rep_node [OF Rn] cptr_Cons [of st "RS c u g gk # cs"] p by metis
  obtain np where np: "rd s p = Some np" "parent np = g" "left np = tptr (NIL s) r'"
    by (rule rep_node [OF Rp]) auto
  obtain ng where ng: "rd s g = Some ng" "left ng = tptr (NIL s) u"
    by (rule rep_node [OF Rg]) auto
  obtain ny where ny: "rd s (tptr (NIL s) u) = Some ny" "color ny = BLACK"
    using rep_col [OF Ru] u by (cases u rule: red.cases) auto
  have run: "fixup_right s a = do {
      (s, newNode) \<leftarrow> (if a = tptr (NIL s) r'
         then do { s \<leftarrow> rightRotate s p; Some (s, p) } else Some (s, a));
      finish_right s newNode }"
    using n np ng ny
    by (cases "tptr (NIL s) u = NIL s") (simp_all add: fixup_right_def finish_right_def RED_def BLACK_def)
  show ?thesis
  proof (cases st)
    case (RS c' sb p' pk')
    then have eq: "Br Red r' p pk l' = Br Red sb p pk (Br Red r a k l)" "p' = p" "pk' = pk" "c' = Red"
      using up t st by simp_all
    have A': "tset (plug (Br Red sb p pk (Br Red r a k l)) (RS c u g gk # cs)) \<subseteq> A"
      using A t RS eq by simp
    have "a \<noteq> tptr (NIL s) sb"
      using rep_sibling [OF Rn] RS by (simp add: sibling_def)
    moreover obtain s2 where s2: "finish_right s a = Some (s2, a)" "frame A s s2"
        "rep s2 (plug (Br Black (Br Red u g gk sb) p pk (Br Red r a k l)) cs)"
      using finish_right [OF Rp [unfolded eq(1)] A'] by blast
    ultimately have "fixup_right s a = Some (s2, a)"
      using run eq(1) by simp
    then show ?thesis
      using s2(2,3) u t RS eq guard_right [OF s2(3)] by simp
  next
    case (LS c' p' pk' sb)
    then have eq: "Br Red r' p pk l' = Br Red (Br Red r a k l) p pk sb" "p' = p" "pk' = pk" "c' = Red"
      using up t st by simp_all
    have A': "tset (plug (Br Red (Br Red r a k l) p pk sb) (RS c u g gk # cs)) \<subseteq> A"
      using A t LS eq by simp
    obtain s1 where s1: "rightRotate s p = Some s1" "frame A s s1"
        "rep s1 (plug (Br Red r a k (Br Red l p pk sb)) (RS c u g gk # cs))"
      by (rule rotate_right [OF Rp [unfolded eq(1)] A'])
    have "tset (plug (Br Red r a k (Br Red l p pk sb)) (RS c u g gk # cs)) \<subseteq> A"
      using A' by auto
    then obtain s2 where s2: "finish_right s1 p = Some (s2, p)" "frame A s1 s2"
        "rep s2 (plug (Br Black (Br Red u g gk r) a k (Br Red l p pk sb)) cs)"
      using finish_right [OF s1(3)] by blast
    have "fixup_right s a = Some (s2, p)"
      using run s1(1) s2(1) eq(1) by simp
    then show ?thesis
      using s2(3) frame_trans [OF s1(2) s2(2)] u t LS eq guard_right [OF s2(3)] by simp
  qed
qed



section \<open>The loop ends and performs \<open>insfix\<close>\<close>

lemma fixup_pass:
  assumes R: "rep s (plug t (st # st' # cs))" and t: "red t" and st: "stc st = Red"
    and A: "tset (plug t (st # st' # cs)) \<subseteq> A" and ng: "rd s (cptr [st']) = Some ng"
  obtains s' x where
    "(if cptr [st] = left ng then fixup_left s (tptr (NIL s) t) else fixup_right s (tptr (NIL s) t))
       = Some (s', x)"
    and "rep s' (plug (snd (ins_pass t st st')) cs)" and "frame A s s'"
    and "if fst (ins_pass t st st') then x = tptr (NIL s') (snd (ins_pass t st st'))
         else fixup_guard s' x = Some False"
proof -
  obtain l a k r where t': "t = Br Red l a k r" using t by (auto simp: red_iff)
  have R': "rep s (plug (up t st) (st' # cs))" using R by simp
  have up: "up t st \<noteq> Lf" "tptr (NIL s) (up t st) = cptr [st]" by (cases st; simp)+
  obtain g where g: "rd s (cptr [st']) = Some g"
      "left g = (case st' of LS c a k r \<Rightarrow> cptr [st] | RS c l a k \<Rightarrow> tptr (NIL s) l)"
      "cptr [st] \<noteq> tptr (NIL s) (sibling st')"
    using rep_step [OF R'] up by metis
  then have [simp]: "g = ng" using ng by simp
  show thesis
  proof (cases st')
    case (LS c p pk u)
    have pass: "fst (ins_pass t st st') = red u" using LS by (cases st) simp_all
    show thesis
    proof (cases "red u")
      case True
      obtain s' where "fixup_left s a = Some (s', p)" "frame A s s'"
          "rep s' (plug (snd (ins_pass t st st')) cs)"
        using left_recolour [OF R [unfolded LS] t' st True A [unfolded LS]] LS by blast
      moreover have "tptr (NIL s') (snd (ins_pass t st st')) = p"
        using LS True by (cases st) simp_all
      ultimately show thesis
        using that [of s' p] g LS t' pass True by (auto simp: sibling_def)
    next
      case False
      obtain s' x where "fixup_left s a = Some (s', x)" "frame A s s'" "fixup_guard s' x = Some False"
          "rep s' (plug (snd (ins_pass t st st')) cs)"
        using left_rotate_cases [OF R [unfolded LS] t' st False A [unfolded LS]] LS by blast
      then show thesis
        using that [of s' x] g LS t' pass False by (auto simp: sibling_def)
    qed
  next
    case (RS c u p pk)
    have pass: "fst (ins_pass t st st') = red u" using RS by (cases st) simp_all
    show thesis
    proof (cases "red u")
      case True
      obtain s' where "fixup_right s a = Some (s', p)" "frame A s s'"
          "rep s' (plug (snd (ins_pass t st st')) cs)"
        using right_recolour [OF R [unfolded RS] t' st True A [unfolded RS]] RS by blast
      moreover have "tptr (NIL s') (snd (ins_pass t st st')) = p"
        using RS True by (cases st) simp_all
      ultimately show thesis
        using that [of s' p] g RS t' pass True by (auto simp: sibling_def)
    next
      case False
      obtain s' x where "fixup_right s a = Some (s', x)" "frame A s s'" "fixup_guard s' x = Some False"
          "rep s' (plug (snd (ins_pass t st st')) cs)"
        using right_rotate_cases [OF R [unfolded RS] t' st False A [unfolded RS]] RS by blast
      then show thesis
        using that [of s' x] g RS t' pass False by (auto simp: sibling_def)
    qed
  qed
qed

lemma fixup_loop_insfix:
  assumes "rep s (plug t cs)" and "red t" and "tset (plug t cs) \<subseteq> A"
  shows "\<exists>s'. fixup_loop s (tptr (NIL s) t) = Some s' \<and> rep s' (insfix t cs) \<and> frame A s s'"
  using assms
proof (induction t cs arbitrary: s rule: insfix.induct)
  case (1 t st st' cs)
  note R = "1.prems"(1)
  have "t \<noteq> Lf" using "1.prems"(2) by auto
  obtain n where n: "rd s (tptr (NIL s) t) = Some n" "parent n = cptr [st]"
    using rep_parent [OF R \<open>t \<noteq> Lf\<close>] cptr_Cons [of st "st' # cs"] by metis
  obtain np where np: "rd s (cptr [st]) = Some np" "color np = colv (stc st)"
      "parent np = cptr [st']" "cptr [st] \<noteq> NULL"
    using rep_step [OF R] cptr_Cons [of st' cs] by metis
  show ?case
  proof (cases "stc st")
    case Black
    then have "fixup_guard s (tptr (NIL s) t) = Some False"
      using n np by (simp add: fixup_guard_def RED_def BLACK_def)
    then show ?thesis
      using Black R by (auto simp: fixup_loop.simps [of s])
  next
    case Red
    then have guard: "fixup_guard s (tptr (NIL s) t) = Some True"
      using n np by (simp add: fixup_guard_def)
    have "rep s (plug (up t st) (st' # cs))" using R by simp
    then obtain ng where ng: "rd s (cptr [st']) = Some ng" "cptr [st'] \<noteq> NULL"
      by (rule rep_step)
    obtain s' x where pass: "(if cptr [st] = left ng then fixup_left s (tptr (NIL s) t)
          else fixup_right s (tptr (NIL s) t)) = Some (s', x)"
        "rep s' (plug (snd (ins_pass t st st')) cs)" "frame A s s'"
        "if fst (ins_pass t st st') then x = tptr (NIL s') (snd (ins_pass t st st'))
         else fixup_guard s' x = Some False"
      by (rule fixup_pass [OF R "1.prems"(2) Red "1.prems"(3) ng(1)])
    have loop: "fixup_loop s (tptr (NIL s) t) = fixup_loop s' x"
      using guard n np ng pass(1) by (subst fixup_loop.simps) (simp split del: if_split)
    show ?thesis
    proof (cases "fst (ins_pass t st st')")
      case True
      have "red (snd (ins_pass t st st'))"
        using True by (cases "(t, st, st')" rule: ins_pass.cases) (auto split: if_splits)
      moreover have "tset (plug (snd (ins_pass t st st')) cs) \<subseteq> A"
        using "1.prems"(3) by (simp add: tset_ins_pass)
      ultimately obtain s'' where "fixup_loop s' (tptr (NIL s') (snd (ins_pass t st st'))) = Some s''"
          "rep s'' (insfix (snd (ins_pass t st st')) cs)" "frame A s' s''"
        using "1.IH" [of s'] True Red pass(2) by auto
      then show ?thesis
        using loop pass(3,4) True Red by (auto intro: frame_trans)
    next
      case False
      then have "fixup_loop s' x = Some s'"
        using pass(4) by (simp add: fixup_loop.simps [of s'])
      then show ?thesis
        using loop pass False Red by auto
    qed
  qed
next
  case (2 t)
  then obtain n where "rd s (tptr (NIL s) t) = Some n" "parent n = NULL"
    using rep_parent [of s t "[]"] by (cases t) auto
  then have "fixup_guard s (tptr (NIL s) t) = Some False"
    by (simp add: fixup_guard_def)
  then show ?case
    using "2" by (auto simp: fixup_loop.simps [of s])
next
  case (3 t st)
  then obtain n where n: "rd s (tptr (NIL s) t) = Some n" "parent n = cptr [st]"
    using rep_parent [of s t "[st]"] by (cases t) auto
  obtain np where np: "rd s (cptr [st]) = Some np" "parent np = NULL" "cptr [st] \<noteq> NULL"
    using rep_step [OF "3"(1)] by (metis cptr.simps(1))
  have "fixup_loop s (tptr (NIL s) t) = Some s"
    using n np by (subst fixup_loop.simps) (simp add: fixup_guard_def)
  then show ?case
    using "3" by auto
qed


section \<open>Where a new node goes\<close>

fun ins_path :: "u32 \<Rightarrow> ptree \<Rightarrow> step list \<Rightarrow> step list" where
  "ins_path k Lf cs = cs"
| "ins_path k (Br c l a k' r) cs =
     (if k < k' then ins_path k l (LS c a k' r # cs) else ins_path k r (RS c l a k' # cs))"

fun path_side :: "u32 \<Rightarrow> step list \<Rightarrow> bool" where
  "path_side k [] \<longleftrightarrow> True"
| "path_side k (LS c a k' r # cs) \<longleftrightarrow> k < k'"
| "path_side k (RS c l a k' # cs) \<longleftrightarrow> \<not> k < k'"

lemma plug_ins_path: "plug Lf (ins_path k t cs) = plug t cs"
  by (induction k t cs rule: ins_path.induct) auto

lemma path_side_ins_path: "path_side k cs \<Longrightarrow> path_side k (ins_path k t cs)"
  by (induction k t cs rule: ins_path.induct) auto

lemma ins_path_sorted:
  assumes "sorted (map snd (nodes t))"
    and "\<forall>x \<in> set (before cs). snd x \<le> k" and "\<forall>x \<in> set (after cs). k < snd x"
  shows "(\<forall>x \<in> set (before (ins_path k t cs)). snd x \<le> k) \<and> (\<forall>x \<in> set (after (ins_path k t cs)). k < snd x)"
  using assms
proof (induction k t cs rule: ins_path.induct)
  case (2 k c l a k' r cs)
  have sub: "sorted (map snd (nodes l))" "sorted (map snd (nodes r))"
      "\<forall>x \<in> set (nodes l). snd x \<le> k'" "\<forall>x \<in> set (nodes r). k' \<le> snd x"
    using "2.prems"(1) by (auto simp: sorted_append)
  show ?case
  proof (cases "k < k'")
    case True
    have "\<forall>x \<in> set (nodes r). k < snd x"
      using True sub(4) by (meson less_le_trans)
    with True "2.prems"(3) have "\<forall>x \<in> set (after (LS c a k' r # cs)). k < snd x"
      by (simp add: ball_Un)
    from "2.IH"(1) [OF True sub(1) _ this] "2.prems"(2) True show ?thesis
      by (simp only: ins_path.simps if_True before.simps)
  next
    case False
    have "\<forall>x \<in> set (nodes l). snd x \<le> k"
      using False sub(3) by (meson order_trans not_less)
    with False "2.prems"(2) have "\<forall>x \<in> set (before (RS c l a k' # cs)). snd x \<le> k"
      by (simp add: ball_Un not_less)
    from "2.IH"(2) [OF False sub(2) this] "2.prems"(3) False show ?thesis
      by (simp only: ins_path.simps if_False after.simps)
  qed
qed simp

lemma insert_descend_path:
  assumes "rep s (plug t cs)"
  shows "insert_descend s k (cptr cs) (tptr (NIL s) t) = Some (cptr (ins_path k t cs))"
  using assms
proof (induction k t cs rule: ins_path.induct)
  case (1 k cs)
  then show ?case by (simp add: insert_descend.simps)
next
  case (2 k c l a k' r cs)
  have "a \<noteq> NIL s" using rep_addrs(2) [OF 2(3)] by simp
  moreover obtain n where "rd s a = Some n" "pid n = k'" "left n = tptr (NIL s) l"
      "right n = tptr (NIL s) r"
    by (rule rep_node [OF 2(3)]) auto
  ultimately show ?case
    using 2 by (subst insert_descend.simps) simp
qed

section \<open>Linking the new node\<close>

definition linked :: "ptr \<Rightarrow> step list \<Rightarrow> pstate \<Rightarrow> pstate" where
  "linked a cs s = put a (set_color RED) (put a (right_update (\<lambda>_. NIL s))
     (put a (left_update (\<lambda>_. NIL s)) (relinked cs a (put a (parent_update (\<lambda>_. cptr cs)) s))))"

lemma linked_rep:
  assumes R: "rep s (plug Lf cs)" and a: "a \<notin> cset cs" "a \<noteq> NULL" "a \<noteq> NIL s"
    and n: "procs s a = Some n"
  shows "rep (linked a cs s) (plug (Br Red Lf a (pid n) Lf) cs)"
proof -
  let ?s = "put a (parent_update (\<lambda>_. cptr cs)) s"
  from R have ctx: "ctx_ok s (NIL s) cs" and dc: "cdist cs" and sent: "sentinel s"
    and ok: "addrs_ok s (cset cs)"
    by (auto simp: rep_plug)
  have nil: "NIL s \<notin> cset cs" using ok by (simp add: addrs_ok_def)
  have "sentinel (linked a cs s)"
    by (rule sentinel_frame [OF sent]) (use nil a in \<open>simp_all add: linked_def\<close>)
  moreover have "ctx_ok (linked a cs s) a cs"
    using ctx_ok_relinked [of ?s "NIL s" cs a] ctx dc a by (simp add: linked_def)
  ultimately show ?thesis
    using a n dc ok by (auto simp: rep_plug addrs_ok_def linked_def set_color_def)
qed

lemma rbInsert_link:
  assumes R: "rep s t" and a: "a \<notin> tset t" "a \<noteq> NULL" "a \<noteq> NIL s"
    and n: "procs s a = Some n"
  shows "rbInsert s a = fixupInsert (linked a (ins_path (pid n) t []) s) a"
proof -
  define cs where "cs = ins_path (pid n) t []"
  have plug: "plug Lf cs = t" by (simp add: cs_def plug_ins_path)
  have R': "rep s (plug Lf cs)" using R plug by simp
  have ac: "a \<notin> cset cs" using a(1) tset_plug [of Lf cs] plug by simp
  have side: "path_side (pid n) cs" by (simp add: cs_def path_side_ins_path)
  have ok: "NULL \<notin> cset cs" "NIL s \<notin> cset cs" using R' by (auto simp: rep_plug addrs_ok_def)
  define s1 where "s1 = put a (parent_update (\<lambda>_. cptr cs)) s"
  have des: "insert_descend s (pid n) NULL (root s) = Some (cptr cs)"
    using insert_descend_path [of s t "[]" "pid n"] R by (simp add: cs_def rep_root)
  have s1: "upd s a (parent_update (\<lambda>_. cptr cs)) = Some s1"
    using n a by (simp add: upd_put s1_def)
  have "ctx_ok s (NIL s) cs" using R' by (simp add: rep_plug)
  then have link: "(if cptr cs = NULL then Some (s1\<lparr>root := a\<rparr>)
      else do {
        ny \<leftarrow> rd s1 (cptr cs);
        if pid n < pid ny then upd s1 (cptr cs) (left_update (\<lambda>_. a))
        else upd s1 (cptr cs) (right_update (\<lambda>_. a))
      }) = Some (relinked cs a s1)"
    using side ac ok by (cases "(cs, a, s1)" rule: relinked.cases) (auto simp: s1_def rd_Some upd_put)
  define s2 where "s2 = relinked cs a s1"
  define s3 where "s3 = put a (left_update (\<lambda>_. NIL s)) s2"
  define s4 where "s4 = put a (right_update (\<lambda>_. NIL s)) s3"
  define s5 where "s5 = put a (set_color RED) s4"
  have p2: "procs s2 a = Some (n\<lparr>parent := cptr cs\<rparr>)"
    using ac n by (simp add: s1_def s2_def)
  have nils: "NIL s2 = NIL s" "NIL s3 = NIL s"
    by (simp_all add: s1_def s2_def s3_def)
  have steps: "upd s2 a (left_update (\<lambda>_. NIL s)) = Some s3"
      "upd s3 a (right_update (\<lambda>_. NIL s)) = Some s4" "upd s4 a (set_color RED) = Some s5"
    using p2 a(2) by (simp_all add: upd_put s3_def s4_def s5_def)
  have "rbInsert s a = fixupInsert s5 a"
    using n a(2) des s1 link [folded s2_def] nils steps
    by (simp add: rbInsert_def rd_Some split del: if_split)
  then show ?thesis
    by (simp add: linked_def s1_def s2_def s3_def s4_def s5_def cs_def)
qed

lemma frame_linked:
  assumes "cset cs \<subseteq> A" and "a \<in> A"
  shows "frame A s (linked a cs s)"
  unfolding linked_def using assms by (auto intro!: frame_put frame_relinked)

section \<open>Insertion is correct\<close>

text \<open>The process table holds the pairs \<open>xs\<close> of node address and pid, in ascending order.\<close>

definition table :: "pstate \<Rightarrow> (ptr \<times> u32) list \<Rightarrow> bool" where
  "table s xs \<longleftrightarrow> sorted (map snd xs) \<and> (\<exists>t. rep s t \<and> rbtree t \<and> nodes t = xs)"

text \<open>Insertion behind the last process whose pid is not larger.\<close>

definition add_process :: "ptr \<Rightarrow> u32 \<Rightarrow> (ptr \<times> u32) list \<Rightarrow> (ptr \<times> u32) list" where
  "add_process a k xs = takeWhile (\<lambda>x. snd x \<le> k) xs @ (a, k) # dropWhile (\<lambda>x. snd x \<le> k) xs"

lemma add_process_split:
  assumes "\<forall>x \<in> set xs. snd x \<le> k" and "\<forall>x \<in> set ys. k < snd x"
  shows "add_process a k (xs @ ys) = xs @ (a, k) # ys"
proof -
  have "takeWhile (\<lambda>x. snd x \<le> k) ys = []" "dropWhile (\<lambda>x. snd x \<le> k) ys = ys"
    using assms(2) by (cases ys; auto simp: not_le [symmetric])+
  with assms(1) show ?thesis by (simp add: add_process_def)
qed

lemma sorted_add_process: "sorted (map snd xs) \<Longrightarrow> sorted (map snd (add_process a k xs))"
proof (induction xs)
  case (Cons x xs)
  then show ?case
    by (cases "snd x \<le> k") (auto simp: add_process_def dest!: set_takeWhileD set_dropWhileD)
qed (simp add: add_process_def)

lemma rep_blacken:
  assumes "rep s t" and "t \<noteq> Lf" and "tset t \<subseteq> A"
  shows "\<exists>s'. upd s (root s) (set_color BLACK) = Some s' \<and> rep s' (blacken t) \<and> frame A s s'"
proof -
  obtain c l a k r where t: "t = Br c l a k r" using assms(2) by (cases t) auto
  have R: "rep s (plug (Br c l a k r) [])" using assms t by simp
  show ?thesis
    by (rule recolour [OF R, where c' = Black and v = BLACK and A = A])
      (use assms t rep_root [OF assms(1)] in auto)
qed

lemma rbInsert_rep:
  assumes R: "rep s t" and a: "a \<notin> tset t" "a \<noteq> NULL" "a \<noteq> NIL s"
    and n: "procs s a = Some n"
  shows "\<exists>s'. rbInsert s a = Some s'
    \<and> rep s' (blacken (insfix (Br Red Lf a (pid n) Lf) (ins_path (pid n) t [])))
    \<and> frame (insert a (tset t)) s s'"
proof -
  define cs where "cs = ins_path (pid n) t []"
  define A where "A = insert a (tset t)"
  let ?f = "Br Red Lf a (pid n) Lf"
  have plug: "plug Lf cs = t" by (simp add: cs_def plug_ins_path)
  have R': "rep s (plug Lf cs)" using R plug by simp
  have cset: "cset cs = tset t" using tset_plug [of Lf cs] plug by simp
  then have ac: "a \<notin> cset cs" using a(1) by simp
  have f: "frame A s (linked a cs s)"
    by (rule frame_linked) (auto simp: A_def cset)
  have "NIL (linked a cs s) = NIL s" by (simp add: linked_def)
  then obtain s1 where s1: "fixup_loop (linked a cs s) a = Some s1" "rep s1 (insfix ?f cs)"
      "frame A (linked a cs s) s1"
    using fixup_loop_insfix [OF linked_rep [OF R' ac a(2,3) n], of A] by (auto simp: A_def cset)
  have "insfix ?f cs \<noteq> Lf" "tset (insfix ?f cs) \<subseteq> A"
    using tset_insfix [of ?f cs] by (auto simp: A_def cset)
  then obtain s2 where s2: "upd s1 (root s1) (set_color BLACK) = Some s2"
      "rep s2 (blacken (insfix ?f cs))" "frame A s1 s2"
    using rep_blacken [OF s1(2)] by blast
  have "rbInsert s a = Some s2"
    using rbInsert_link [OF R a n] s1(1) s2(1) by (simp add: fixupInsert_def cs_def)
  moreover have "frame A s s2"
    using f s1(3) s2(3) by (blast intro: frame_trans)
  ultimately show ?thesis
    using s2(2) by (auto simp: cs_def A_def)
qed

lemma rbtree_insert:
  assumes "rbtree t"
  shows "rbtree (blacken (insfix (Br Red Lf a k Lf) (ins_path k t [])))"
proof -
  have "plug Lf (ins_path k t []) = t" by (simp add: plug_ins_path)
  then obtain m where "tinv Lf m" "cinv False m (ins_path k t [])"
    using assms rbtree_plug [of Lf "ins_path k t []"] by auto
  then show ?thesis
    using insfix_tinv [of "Br Red Lf a k Lf" m "ins_path k t []"] by (auto simp: rbtree_def)
qed

lemma nodes_insert:
  assumes "sorted (map snd (nodes t))"
  shows "nodes (blacken (insfix (Br Red Lf a k Lf) (ins_path k t []))) = add_process a k (nodes t)"
proof -
  let ?cs = "ins_path k t []"
  have "nodes t = before ?cs @ after ?cs"
    using nodes_plug [of Lf ?cs] by (simp add: plug_ins_path)
  then show ?thesis
    using ins_path_sorted [OF assms, of "[]" k] add_process_split [of "before ?cs" k "after ?cs" a]
    by (simp add: nodes_insfix nodes_plug)
qed

end
