(* ===== verification/Proc_Tree_Delete.thy ===== *)
theory Proc_Tree_Delete
  imports Proc_Tree_Insert
begin

text \<open>
  \<open>rbDelete\<close> of \<open>sys/process.c\<close>: \<open>rbTransplant\<close>, the unlinking of a node and the loop of
  \<open>rbDeleteFixup\<close>. While the loop runs, the subtree at \<open>x\<close> lacks one black node; \<open>x\<close> may be
  the sentinel, whose \<open>parent\<close> field then tells the way up.
\<close>

section \<open>A focus that may be the sentinel\<close>

definition focus :: "pstate \<Rightarrow> ptree \<Rightarrow> step list \<Rightarrow> bool" where
  "focus s t cs \<longleftrightarrow> rep s (plug t cs)
     \<and> (\<exists>n. procs s (tptr (NIL s) t) = Some n \<and> parent n = cptr cs)"

lemma focus_node: "t \<noteq> Lf \<Longrightarrow> focus s t cs \<longleftrightarrow> rep s (plug t cs)"
  by (cases t) (auto simp: focus_def rep_plug)

lemma focus_rd:
  assumes "focus s t cs"
  obtains n where "rd s (tptr (NIL s) t) = Some n" and "parent n = cptr cs"
    and "color n = (if red t then RED else BLACK)"
proof -
  from assms obtain n where n: "procs s (tptr (NIL s) t) = Some n" "parent n = cptr cs"
      and R: "rep s (plug t cs)"
    by (auto simp: focus_def)
  obtain n' where "rd s (tptr (NIL s) t) = Some n'"
      "color n' = (case t of Lf \<Rightarrow> BLACK | Br c l a k r \<Rightarrow> colv c)"
    by (rule rep_col [OF R])
  then show thesis
    using that [of n] n by (cases t rule: red.cases) (auto simp: rd_def split: if_splits)
qed

text \<open>The frame of a pass: nodes of the tree only, so the sentinel stays as it is.\<close>

lemma focus_frame:
  assumes "focus s t cs" and "rep s' (plug t cs')" and "cptr cs' = cptr cs"
    and "frame A s s'" and "NIL s \<notin> A"
  shows "focus s' t cs'"
proof (cases "t = Lf")
  case True
  have "NIL s' = NIL s" "procs s' (NIL s) = procs s (NIL s)"
    using assms(4,5) by (auto simp: frame_def)
  with True assms(1-3) show ?thesis by (auto simp: focus_def)
qed (simp add: focus_node assms(2))

lemma cinv_weaken: "cinv True n cs \<Longrightarrow> cinv False n cs"
  by (cases cs; cases "hd cs"; cases "stc (hd cs)") auto

lemma plug_not_Lf:
  assumes "t \<noteq> Lf"
  shows "plug t cs \<noteq> Lf"
proof
  assume "plug t cs = Lf"
  then have "tset (plug t cs) = {}" by simp
  with assms show False by (cases t) auto
qed

section \<open>One pass of the loop\<close>

text \<open>The part of a pass behind the case of a red sibling.\<close>

definition delete_left_tail :: "pstate \<Rightarrow> ptr \<Rightarrow> ptr \<Rightarrow> (pstate \<times> ptr) option" where
  "delete_left_tail s x w = do {
     nw \<leftarrow> rd s w;
     cl \<leftarrow> col s (left nw);
     cr \<leftarrow> (if cl = BLACK then col s (right nw) else Some RED);
     if cl = BLACK \<and> cr = BLACK then do {
       s \<leftarrow> upd s w (set_color RED);
       nx \<leftarrow> rd s x;
       Some (s, parent nx)
     } else do {
       cr \<leftarrow> col s (right nw);
       (s, w) \<leftarrow> (if cr = BLACK then do {
           s \<leftarrow> upd s (left nw) (set_color BLACK);
           s \<leftarrow> upd s w (set_color RED);
           s \<leftarrow> rightRotate s w;
           nx \<leftarrow> rd s x;
           np \<leftarrow> rd s (parent nx);
           Some (s, right np)
         } else Some (s, w));
       nx \<leftarrow> rd s x;
       cp \<leftarrow> col s (parent nx);
       s \<leftarrow> upd s w (set_color cp);
       s \<leftarrow> upd s (parent nx) (set_color BLACK);
       nw \<leftarrow> rd s w;
       s \<leftarrow> upd s (right nw) (set_color BLACK);
       nx \<leftarrow> rd s x;
       s \<leftarrow> leftRotate s (parent nx);
       Some (s, root s)
     }
   }"

text \<open>The last part of it, when the far child of the sibling is red.\<close>

definition delete_left_last :: "pstate \<Rightarrow> ptr \<Rightarrow> ptr \<Rightarrow> (pstate \<times> ptr) option" where
  "delete_left_last s x w = do {
     nx \<leftarrow> rd s x;
     cp \<leftarrow> col s (parent nx);
     s \<leftarrow> upd s w (set_color cp);
     s \<leftarrow> upd s (parent nx) (set_color BLACK);
     nw \<leftarrow> rd s w;
     s \<leftarrow> upd s (right nw) (set_color BLACK);
     nx \<leftarrow> rd s x;
     s \<leftarrow> leftRotate s (parent nx);
     Some (s, root s)
   }"

lemma col_tree:
  assumes "rep s (plug t cs)"
  shows "col s (tptr (NIL s) t) = Some (if red t then RED else BLACK)"
proof -
  obtain n where "rd s (tptr (NIL s) t) = Some n"
    "color n = (case t of Lf \<Rightarrow> BLACK | Br c l a k r \<Rightarrow> colv c)"
    by (rule rep_col [OF assms])
  then show ?thesis by (cases t rule: red.cases) (simp_all add: col_def)
qed

lemma delete_left_last:
  assumes F: "focus s t (LS c p pk (Br d wl w wk (Br Red a f fk b)) # cs)"
    and A: "tset (plug t (LS c p pk (Br d wl w wk (Br Red a f fk b)) # cs)) \<subseteq> A" "NIL s \<notin> A"
  shows "\<exists>s'. delete_left_last s (tptr (NIL s) t) w = Some (s', root s') \<and> frame A s s'
    \<and> rep s' (plug (Br c (Br Black t p pk wl) w wk (Br Black a f fk b)) cs)"
proof -
  let ?x = "tptr (NIL s) t"
  let ?cs = "LS c p pk (Br d wl w wk (Br Red a f fk b)) # cs"
  have R: "rep s (plug (Br d wl w wk (Br Red a f fk b)) (RS c t p pk # cs))"
    and Rp: "rep s (plug (Br c t p pk (Br d wl w wk (Br Red a f fk b))) cs)"
    using F by (simp_all add: focus_def)
  have mem: "p \<in> A" "w \<in> A" "f \<in> A" using A by auto
  obtain nx where nx: "rd s ?x = Some nx" "parent nx = p"
    using focus_rd [OF F] by (metis cptr.simps(2))
  have cp: "col s p = Some (colv c)"
    using col_tree [OF Rp] by (cases c) simp_all
  obtain s1 where s1: "upd s w (set_color (colv c)) = Some s1" "frame A s s1"
      "rep s1 (plug (Br c wl w wk (Br Red a f fk b)) (RS c t p pk # cs))"
    by (rule recolour [OF R, where c' = c and v = "colv c" and A = A]) (auto simp: mem)
  have "rep s1 (plug (Br c t p pk (Br c wl w wk (Br Red a f fk b))) cs)" using s1(3) by simp
  then obtain s2 where s2: "upd s1 p (set_color BLACK) = Some s2" "frame A s1 s2"
      "rep s2 (plug (Br Black t p pk (Br c wl w wk (Br Red a f fk b))) cs)"
    by (rule recolour [where c' = Black and v = BLACK and A = A]) (auto simp: mem)
  have R2: "rep s2 (plug (Br Red a f fk b) (RS c wl w wk # RS Black t p pk # cs))"
    and Rw: "rep s2 (plug (Br c wl w wk (Br Red a f fk b)) (RS Black t p pk # cs))"
    using s2(3) by simp_all
  obtain nw where nw: "rd s2 w = Some nw" "right nw = f"
    by (rule rep_node [OF Rw]) auto
  obtain s3 where s3: "upd s2 f (set_color BLACK) = Some s3" "frame A s2 s3"
      "rep s3 (plug (Br Black a f fk b) (RS c wl w wk # RS Black t p pk # cs))"
    by (rule recolour [OF R2, where c' = Black and v = BLACK and A = A]) (auto simp: mem)
  have R3: "rep s3 (plug (Br Black t p pk (Br c wl w wk (Br Black a f fk b))) cs)"
    using s3(3) by simp
  have fr: "frame A s s3" using s1(2) s2(2) s3(2) by (blast intro: frame_trans)
  have "focus s3 t (LS Black p pk (Br c wl w wk (Br Black a f fk b)) # cs)"
    by (rule focus_frame [OF F _ _ fr A(2)]) (use R3 in simp_all)
  then obtain nx' where nx': "rd s3 ?x = Some nx'" "parent nx' = p"
    using focus_rd frame_NIL [OF fr] by (metis cptr.simps(2))
  have "tset (plug (Br Black t p pk (Br c wl w wk (Br Black a f fk b))) cs) \<subseteq> A"
    using A(1) by auto
  then obtain s4 where s4: "leftRotate s3 p = Some s4" "frame A s3 s4"
      "rep s4 (plug (Br c (Br Black t p pk wl) w wk (Br Black a f fk b)) cs)"
    by (rule rotate_left [OF R3])
  have "delete_left_last s ?x w = Some (s4, root s4)"
    using nx cp s1(1) s2(1) nw s3(1) nx' s4(1) by (simp add: delete_left_last_def)
  then show ?thesis
    using s4(3) frame_trans [OF fr s4(2)] by blast
qed

text \<open>
  What a pass achieves: either the loop goes on at a node \<open>x'\<close> whose subtree lacks a black node
  (or is red, so that the loop ends and \<open>x'\<close> becomes black), or \<open>x'\<close> is the root of a
  red-black tree.
\<close>

definition pass_result :: "bool \<Rightarrow> (ptr \<times> u32) list \<Rightarrow> nat \<Rightarrow> step list \<Rightarrow> pstate \<Rightarrow> ptr \<Rightarrow> bool" where
  "pass_result goon xs n cs s' x' \<longleftrightarrow>
     (\<exists>t'. goon \<and> x' = tptr (NIL s') t' \<and> t' \<noteq> Lf \<and> rep s' (plug t' cs) \<and> nodes (plug t' cs) = xs
        \<and> \<not> red t' \<and> tinv t' (Suc n) \<and> cinv False (Suc (Suc n)) cs)
     \<or> (\<exists>t' cs' m. x' = tptr (NIL s') t' \<and> red t' \<and> rep s' (plug t' cs') \<and> nodes (plug t' cs') = xs
        \<and> tinv (blacken t') m \<and> cinv False m cs')
     \<or> (\<exists>t'. x' = root s' \<and> t' \<noteq> Lf \<and> rep s' t' \<and> nodes t' = xs \<and> rbtree t')"

lemma pass_result_False:
  "pass_result False xs n cs s' x' \<Longrightarrow> pass_result goon xs m cs' s' x'"
  by (auto simp: pass_result_def)

lemma pass_result_True:
  "pass_result goon xs n cs s' x' \<Longrightarrow> pass_result True xs n cs s' x'"
  by (auto simp: pass_result_def)

lemma delete_left_tail:
  assumes F: "focus s t (LS c p pk (Br Black wl w wk wr) # cs)"
    and A: "tset (plug t (LS c p pk (Br Black wl w wk wr) # cs)) \<subseteq> A" "NIL s \<notin> A"
    and t: "\<not> red t" "tinv t n" and I: "cinv False (Suc n) (LS c p pk (Br Black wl w wk wr) # cs)"
  shows "\<exists>s' x'. delete_left_tail s (tptr (NIL s) t) w = Some (s', x') \<and> frame A s s'
    \<and> pass_result (c = Black) (nodes (plug t (LS c p pk (Br Black wl w wk wr) # cs))) n cs s' x'"
proof -
  let ?x = "tptr (NIL s) t"
  let ?cs = "LS c p pk (Br Black wl w wk wr) # cs"
  have R: "rep s (plug (Br Black wl w wk wr) (RS c t p pk # cs))"
    and Rl: "rep s (plug wl (LS Black w wk wr # RS c t p pk # cs))"
    and Rr: "rep s (plug wr (RS Black wl w wk # RS c t p pk # cs))"
    using F by (simp_all add: focus_def)
  have mem: "p \<in> A" "w \<in> A" using A by auto
  have w: "tinv wl n" "tinv wr n" using I by (cases c; simp)+
  obtain nw where nw: "rd s w = Some nw" "left nw = tptr (NIL s) wl" "right nw = tptr (NIL s) wr"
    by (rule rep_node [OF R]) auto
  have cl: "col s (tptr (NIL s) wl) = Some (if red wl then RED else BLACK)"
    by (rule col_tree [OF Rl])
  have cr: "col s (tptr (NIL s) wr) = Some (if red wr then RED else BLACK)"
    by (rule col_tree [OF Rr])
  have rb: "rbtree (plug (Br c (Br Black t p pk u) q qk (Br Black v f fk v')) cs)"
    if "tinv u n" "tinv v n" "tinv v' n" for u q qk v f fk v'
    using that t I unfolding rbtree_plug
    by (cases c) (auto intro: exI [of _ "Suc n"] exI [of _ "Suc (Suc n)"])
  consider "\<not> red wl" "\<not> red wr" | "red wl" "\<not> red wr" | "red wr" by blast
  then show ?thesis
  proof cases
    case 1
    obtain s1 where s1: "upd s w (set_color RED) = Some s1" "frame A s s1"
        "rep s1 (plug (Br Red wl w wk wr) (RS c t p pk # cs))"
      by (rule recolour [OF R, where c' = Red and v = RED and A = A]) (auto simp: mem)
    have R1: "rep s1 (plug t (LS c p pk (Br Red wl w wk wr) # cs))" using s1(3) by simp
    have "focus s1 t (LS c p pk (Br Red wl w wk wr) # cs)"
      by (rule focus_frame [OF F R1 _ s1(2) A(2)]) simp
    then obtain nx where nx: "rd s1 ?x = Some nx" "parent nx = p"
      using focus_rd frame_NIL [OF s1(2)] by (metis cptr.simps(2))
    have "delete_left_tail s ?x w = Some (s1, p)"
      using 1 nw cl cr s1(1) nx by (simp add: delete_left_tail_def)
    moreover have "pass_result (c = Black) (nodes (plug t ?cs)) n cs s1 p"
    proof (cases c)
      case Black
      then show ?thesis
        unfolding pass_result_def
        by (intro disjI1 exI [of _ "Br c t p pk (Br Red wl w wk wr)"])
          (use R1 1 w t I in \<open>simp add: nodes_plug\<close>)
    next
      case Red
      then show ?thesis
        unfolding pass_result_def
        by (intro disjI2 disjI1 exI [of _ "Br c t p pk (Br Red wl w wk wr)"] exI [of _ cs] exI [of _ "Suc n"])
          (use R1 1 w t I in \<open>simp add: nodes_plug cinv_weaken\<close>)
    qed
    ultimately show ?thesis using s1(2) by blast
  next
    case 2
    then obtain a f fk b where wl: "wl = Br Red a f fk b" by (auto simp: red_iff)
    have Rl': "rep s (plug (Br Red a f fk b) (LS Black w wk wr # RS c t p pk # cs))"
      using Rl wl by simp
    have f: "f \<in> A" using A wl by auto
    obtain s1 where s1: "upd s f (set_color BLACK) = Some s1" "frame A s s1"
        "rep s1 (plug (Br Black a f fk b) (LS Black w wk wr # RS c t p pk # cs))"
      by (rule recolour [OF Rl', where c' = Black and v = BLACK and A = A]) (auto simp: f)
    have "rep s1 (plug (Br Black (Br Black a f fk b) w wk wr) (RS c t p pk # cs))"
      using s1(3) by simp
    then obtain s2 where s2: "upd s1 w (set_color RED) = Some s2" "frame A s1 s2"
        "rep s2 (plug (Br Red (Br Black a f fk b) w wk wr) (RS c t p pk # cs))"
      by (rule recolour [where c' = Red and v = RED and A = A]) (auto simp: mem)
    have "tset (plug (Br Red (Br Black a f fk b) w wk wr) (RS c t p pk # cs)) \<subseteq> A"
      using A(1) wl by auto
    then obtain s3 where s3: "rightRotate s2 w = Some s3" "frame A s2 s3"
        "rep s3 (plug (Br Black a f fk (Br Red b w wk wr)) (RS c t p pk # cs))"
      by (rule rotate_right [OF s2(3)])
    have fr: "frame A s s3" using s1(2) s2(2) s3(2) by (blast intro: frame_trans)
    have NILs: "NIL s3 = NIL s" by (rule frame_NIL [OF fr])
    have Rt: "rep s3 (plug t (LS c p pk (Br Black a f fk (Br Red b w wk wr)) # cs))"
      and Rp: "rep s3 (plug (Br c t p pk (Br Black a f fk (Br Red b w wk wr))) cs)"
      using s3(3) by simp_all
    have F3: "focus s3 t (LS c p pk (Br Black a f fk (Br Red b w wk wr)) # cs)"
      by (rule focus_frame [OF F Rt _ fr A(2)]) simp
    then obtain nx where nx: "rd s3 ?x = Some nx" "parent nx = p"
      using focus_rd NILs by (metis cptr.simps(2))
    obtain np where np: "rd s3 p = Some np" "right np = f"
      by (rule rep_node [OF Rp]) auto
    have sub: "tset (plug t (LS c p pk (Br Black a f fk (Br Red b w wk wr)) # cs)) \<subseteq> A" "NIL s3 \<notin> A"
      using A wl NILs by auto
    obtain s4 where s4: "delete_left_last s3 ?x f = Some (s4, root s4)" "frame A s3 s4"
        "rep s4 (plug (Br c (Br Black t p pk a) f fk (Br Black b w wk wr)) cs)"
      using delete_left_last [OF F3 sub] NILs by auto
    have "delete_left_tail s ?x w = delete_left_last s3 ?x f"
      using 2 nw cl cr s1(1) s2(1) s3(1) nx np wl
      by (simp add: delete_left_tail_def delete_left_last_def RED_def BLACK_def)
    moreover have "pass_result (c = Black) (nodes (plug t ?cs)) n cs s4 (root s4)"
      unfolding pass_result_def
      by (intro disjI2 exI [of _ "plug (Br c (Br Black t p pk a) f fk (Br Black b w wk wr)) cs"])
        (use s4(3) w wl rb in \<open>auto simp: nodes_plug plug_not_Lf\<close>)
    ultimately show ?thesis using s4(1,2) fr by (auto intro: frame_trans)
  next
    case 3
    then obtain a f fk b where wr: "wr = Br Red a f fk b" by (auto simp: red_iff)
    obtain s4 where s4: "delete_left_last s ?x w = Some (s4, root s4)" "frame A s s4"
        "rep s4 (plug (Br c (Br Black t p pk wl) w wk (Br Black a f fk b)) cs)"
      using delete_left_last [OF F [unfolded wr] A [unfolded wr]] by auto
    have "delete_left_tail s ?x w = delete_left_last s ?x w"
      using 3 nw cl cr
      by (cases "red wl") (simp_all add: delete_left_tail_def delete_left_last_def RED_def BLACK_def)
    moreover have "pass_result (c = Black) (nodes (plug t ?cs)) n cs s4 (root s4)"
      unfolding pass_result_def
      by (intro disjI2 exI [of _ "plug (Br c (Br Black t p pk wl) w wk (Br Black a f fk b)) cs"])
        (use s4(3) w wr rb in \<open>auto simp: nodes_plug plug_not_Lf\<close>)
    ultimately show ?thesis using s4(1,2) by auto
  qed
qed


lemma delete_left_pass:
  assumes F: "focus s t (LS c p pk u # cs)"
    and A: "tset (plug t (LS c p pk u # cs)) \<subseteq> A" "NIL s \<notin> A"
    and t: "\<not> red t" "tinv t n" and I: "cinv False (Suc n) (LS c p pk u # cs)"
  shows "\<exists>s' x'. delete_left s (tptr (NIL s) t) = Some (s', x') \<and> frame A s s'
    \<and> pass_result True (nodes (plug t (LS c p pk u # cs))) n cs s' x'"
proof -
  let ?x = "tptr (NIL s) t"
  have u: "tinv u (Suc n)" using I by (cases c) auto
  then obtain d wl w wk wr where w: "u = Br d wl w wk wr" by (cases u) auto
  have R: "rep s (plug (Br d wl w wk wr) (RS c t p pk # cs))"
    and Rp: "rep s (plug (Br c t p pk (Br d wl w wk wr)) cs)"
    using F w by (simp_all add: focus_def)
  have mem: "p \<in> A" "w \<in> A" using A w by auto
  obtain nx where nx: "rd s ?x = Some nx" "parent nx = p"
    using focus_rd [OF F] by (metis cptr.simps(2))
  obtain np where np: "rd s p = Some np" "right np = w"
    by (rule rep_node [OF Rp]) auto
  have cw: "col s w = Some (colv d)"
    using col_tree [OF R] by (cases d) simp_all
  show ?thesis
  proof (cases d)
    case Black
    obtain s' x' where "delete_left_tail s ?x w = Some (s', x')" "frame A s s'"
        "pass_result (c = Black) (nodes (plug t (LS c p pk u # cs))) n cs s' x'"
      using delete_left_tail [OF F [unfolded w Black] A [unfolded w Black] t I [unfolded w Black]] w Black
      by auto
    moreover have "delete_left s ?x = delete_left_tail s ?x w"
      using nx np cw Black by (simp add: delete_left_def delete_left_tail_def RED_def BLACK_def)
    ultimately show ?thesis using pass_result_True by auto
  next
    case Red
    then have c: "c = Black" and wi: "tinv wl (Suc n)" "tinv wr (Suc n)" "\<not> red wl" "\<not> red wr"
      using I w by (cases c; auto)+
    obtain s1 where s1: "upd s w (set_color BLACK) = Some s1" "frame A s s1"
        "rep s1 (plug (Br Black wl w wk wr) (RS c t p pk # cs))"
      by (rule recolour [OF R, where c' = Black and v = BLACK and A = A]) (auto simp: mem)
    have "rep s1 (plug (Br c t p pk (Br Black wl w wk wr)) cs)" using s1(3) by simp
    then obtain s2 where s2: "upd s1 p (set_color RED) = Some s2" "frame A s1 s2"
        "rep s2 (plug (Br Red t p pk (Br Black wl w wk wr)) cs)"
      by (rule recolour [where c' = Red and v = RED and A = A]) (auto simp: mem)
    have "tset (plug (Br Red t p pk (Br Black wl w wk wr)) cs) \<subseteq> A"
      using A(1) w by auto
    then obtain s3 where s3: "leftRotate s2 p = Some s3" "frame A s2 s3"
        "rep s3 (plug (Br Black (Br Red t p pk wl) w wk wr) cs)"
      by (rule rotate_left [OF s2(3)])
    have fr: "frame A s s3" using s1(2) s2(2) s3(2) by (blast intro: frame_trans)
    have NILs: "NIL s3 = NIL s" by (rule frame_NIL [OF fr])
    let ?cs = "LS Black w wk wr # cs"
    have R3: "rep s3 (plug t (LS Red p pk wl # ?cs))"
      and Rp3: "rep s3 (plug (Br Red t p pk wl) ?cs)" using s3(3) by simp_all
    have F3: "focus s3 t (LS Red p pk wl # ?cs)"
      by (rule focus_frame [OF F R3 _ fr A(2)]) simp
    then obtain nx' where nx': "rd s3 ?x = Some nx'" "parent nx' = p"
      using focus_rd NILs by (metis cptr.simps(2))
    obtain np' where np': "rd s3 p = Some np'" "right np' = tptr (NIL s) wl"
      using rep_node [OF Rp3] NILs by metis
    obtain wll v vk wlr where wl: "wl = Br Black wll v vk wlr"
      using wi by (cases wl rule: red.cases) auto
    have I3: "cinv False (Suc n) (LS Red p pk wl # ?cs)"
      using I w c wi by simp
    have sub: "tset (plug t (LS Red p pk wl # ?cs)) \<subseteq> A" "NIL s3 \<notin> A"
      using A w NILs by auto
    obtain s' x' where tl: "delete_left_tail s3 ?x v = Some (s', x')" "frame A s3 s'"
        "pass_result False (nodes (plug t (LS Red p pk wl # ?cs))) n ?cs s' x'"
      using delete_left_tail [OF F3 [unfolded wl] sub [unfolded wl] t I3 [unfolded wl]] wl NILs by auto
    have "delete_left s ?x = delete_left_tail s3 ?x v"
      using nx np cw Red s1(1) s2(1) s3(1) nx' np' wl
      by (simp add: delete_left_def delete_left_tail_def)
    moreover have "pass_result True (nodes (plug t (LS c p pk u # cs))) n cs s' x'"
      using pass_result_False [OF tl(3)] by (simp add: nodes_plug w)
    ultimately show ?thesis using tl(1) frame_trans [OF fr tl(2)] by auto
  qed
qed


text \<open>The mirror images, for \<open>x\<close> a right child.\<close>

definition delete_right_tail :: "pstate \<Rightarrow> ptr \<Rightarrow> ptr \<Rightarrow> (pstate \<times> ptr) option" where
  "delete_right_tail s x w = do {
     nw \<leftarrow> rd s w;
     cr \<leftarrow> col s (right nw);
     cl \<leftarrow> (if cr = BLACK then col s (left nw) else Some RED);
     if cr = BLACK \<and> cl = BLACK then do {
       s \<leftarrow> upd s w (set_color RED);
       nx \<leftarrow> rd s x;
       Some (s, parent nx)
     } else do {
       cl \<leftarrow> col s (left nw);
       (s, w) \<leftarrow> (if cl = BLACK then do {
           s \<leftarrow> upd s (right nw) (set_color BLACK);
           s \<leftarrow> upd s w (set_color RED);
           s \<leftarrow> leftRotate s w;
           nx \<leftarrow> rd s x;
           np \<leftarrow> rd s (parent nx);
           Some (s, left np)
         } else Some (s, w));
       nx \<leftarrow> rd s x;
       cp \<leftarrow> col s (parent nx);
       s \<leftarrow> upd s w (set_color cp);
       s \<leftarrow> upd s (parent nx) (set_color BLACK);
       nw \<leftarrow> rd s w;
       s \<leftarrow> upd s (left nw) (set_color BLACK);
       nx \<leftarrow> rd s x;
       s \<leftarrow> rightRotate s (parent nx);
       Some (s, root s)
     }
   }"

definition delete_right_last :: "pstate \<Rightarrow> ptr \<Rightarrow> ptr \<Rightarrow> (pstate \<times> ptr) option" where
  "delete_right_last s x w = do {
     nx \<leftarrow> rd s x;
     cp \<leftarrow> col s (parent nx);
     s \<leftarrow> upd s w (set_color cp);
     s \<leftarrow> upd s (parent nx) (set_color BLACK);
     nw \<leftarrow> rd s w;
     s \<leftarrow> upd s (left nw) (set_color BLACK);
     nx \<leftarrow> rd s x;
     s \<leftarrow> rightRotate s (parent nx);
     Some (s, root s)
   }"

lemma delete_right_last:
  assumes F: "focus s t (RS c (Br d (Br Red b f fk a) w wk wl) p pk # cs)"
    and A: "tset (plug t (RS c (Br d (Br Red b f fk a) w wk wl) p pk # cs)) \<subseteq> A" "NIL s \<notin> A"
  shows "\<exists>s'. delete_right_last s (tptr (NIL s) t) w = Some (s', root s') \<and> frame A s s'
    \<and> rep s' (plug (Br c (Br Black b f fk a) w wk (Br Black wl p pk t)) cs)"
proof -
  let ?x = "tptr (NIL s) t"
  let ?cs = "RS c (Br d (Br Red b f fk a) w wk wl) p pk # cs"
  have R: "rep s (plug (Br d (Br Red b f fk a) w wk wl) (LS c p pk t # cs))"
    and Rp: "rep s (plug (Br c (Br d (Br Red b f fk a) w wk wl) p pk t) cs)"
    using F by (simp_all add: focus_def)
  have mem: "p \<in> A" "w \<in> A" "f \<in> A" using A by auto
  obtain nx where nx: "rd s ?x = Some nx" "parent nx = p"
    using focus_rd [OF F] by (metis cptr.simps(3))
  have cp: "col s p = Some (colv c)"
    using col_tree [OF Rp] by (cases c) simp_all
  obtain s1 where s1: "upd s w (set_color (colv c)) = Some s1" "frame A s s1"
      "rep s1 (plug (Br c (Br Red b f fk a) w wk wl) (LS c p pk t # cs))"
    by (rule recolour [OF R, where c' = c and v = "colv c" and A = A]) (auto simp: mem)
  have "rep s1 (plug (Br c (Br c (Br Red b f fk a) w wk wl) p pk t) cs)" using s1(3) by simp
  then obtain s2 where s2: "upd s1 p (set_color BLACK) = Some s2" "frame A s1 s2"
      "rep s2 (plug (Br Black (Br c (Br Red b f fk a) w wk wl) p pk t) cs)"
    by (rule recolour [where c' = Black and v = BLACK and A = A]) (auto simp: mem)
  have R2: "rep s2 (plug (Br Red b f fk a) (LS c w wk wl # LS Black p pk t # cs))"
    and Rw: "rep s2 (plug (Br c (Br Red b f fk a) w wk wl) (LS Black p pk t # cs))"
    using s2(3) by simp_all
  obtain nw where nw: "rd s2 w = Some nw" "left nw = f"
    by (rule rep_node [OF Rw]) auto
  obtain s3 where s3: "upd s2 f (set_color BLACK) = Some s3" "frame A s2 s3"
      "rep s3 (plug (Br Black b f fk a) (LS c w wk wl # LS Black p pk t # cs))"
    by (rule recolour [OF R2, where c' = Black and v = BLACK and A = A]) (auto simp: mem)
  have R3: "rep s3 (plug (Br Black (Br c (Br Black b f fk a) w wk wl) p pk t) cs)"
    using s3(3) by simp
  have fr: "frame A s s3" using s1(2) s2(2) s3(2) by (blast intro: frame_trans)
  have "focus s3 t (RS Black (Br c (Br Black b f fk a) w wk wl) p pk # cs)"
    by (rule focus_frame [OF F _ _ fr A(2)]) (use R3 in simp_all)
  then obtain nx' where nx': "rd s3 ?x = Some nx'" "parent nx' = p"
    using focus_rd frame_NIL [OF fr] by (metis cptr.simps(3))
  have "tset (plug (Br Black (Br c (Br Black b f fk a) w wk wl) p pk t) cs) \<subseteq> A"
    using A(1) by auto
  then obtain s4 where s4: "rightRotate s3 p = Some s4" "frame A s3 s4"
      "rep s4 (plug (Br c (Br Black b f fk a) w wk (Br Black wl p pk t)) cs)"
    by (rule rotate_right [OF R3])
  have "delete_right_last s ?x w = Some (s4, root s4)"
    using nx cp s1(1) s2(1) nw s3(1) nx' s4(1) by (simp add: delete_right_last_def)
  then show ?thesis
    using s4(3) frame_trans [OF fr s4(2)] by blast
qed

lemma delete_right_tail:
  assumes F: "focus s t (RS c (Br Black wr w wk wl) p pk # cs)"
    and A: "tset (plug t (RS c (Br Black wr w wk wl) p pk # cs)) \<subseteq> A" "NIL s \<notin> A"
    and t: "\<not> red t" "tinv t n" and I: "cinv False (Suc n) (RS c (Br Black wr w wk wl) p pk # cs)"
  shows "\<exists>s' x'. delete_right_tail s (tptr (NIL s) t) w = Some (s', x') \<and> frame A s s'
    \<and> pass_result (c = Black) (nodes (plug t (RS c (Br Black wr w wk wl) p pk # cs))) n cs s' x'"
proof -
  let ?x = "tptr (NIL s) t"
  let ?cs = "RS c (Br Black wr w wk wl) p pk # cs"
  have R: "rep s (plug (Br Black wr w wk wl) (LS c p pk t # cs))"
    and Rl: "rep s (plug wl (RS Black wr w wk # LS c p pk t # cs))"
    and Rr: "rep s (plug wr (LS Black w wk wl # LS c p pk t # cs))"
    using F by (simp_all add: focus_def)
  have mem: "p \<in> A" "w \<in> A" using A by auto
  have w: "tinv wl n" "tinv wr n" using I by (cases c; simp)+
  obtain nw where nw: "rd s w = Some nw" "right nw = tptr (NIL s) wl" "left nw = tptr (NIL s) wr"
    by (rule rep_node [OF R]) auto
  have cr: "col s (tptr (NIL s) wl) = Some (if red wl then RED else BLACK)"
    by (rule col_tree [OF Rl])
  have cl: "col s (tptr (NIL s) wr) = Some (if red wr then RED else BLACK)"
    by (rule col_tree [OF Rr])
  have rb: "rbtree (plug (Br c (Br Black v' f fk v) q qk (Br Black u p pk t)) cs)"
    if "tinv u n" "tinv v n" "tinv v' n" for u q qk v f fk v'
    using that t I unfolding rbtree_plug
    by (cases c) (auto intro: exI [of _ "Suc n"] exI [of _ "Suc (Suc n)"])
  consider "\<not> red wl" "\<not> red wr" | "red wl" "\<not> red wr" | "red wr" by blast
  then show ?thesis
  proof cases
    case 1
    obtain s1 where s1: "upd s w (set_color RED) = Some s1" "frame A s s1"
        "rep s1 (plug (Br Red wr w wk wl) (LS c p pk t # cs))"
      by (rule recolour [OF R, where c' = Red and v = RED and A = A]) (auto simp: mem)
    have R1: "rep s1 (plug t (RS c (Br Red wr w wk wl) p pk # cs))" using s1(3) by simp
    have "focus s1 t (RS c (Br Red wr w wk wl) p pk # cs)"
      by (rule focus_frame [OF F R1 _ s1(2) A(2)]) simp
    then obtain nx where nx: "rd s1 ?x = Some nx" "parent nx = p"
      using focus_rd frame_NIL [OF s1(2)] by (metis cptr.simps(3))
    have "delete_right_tail s ?x w = Some (s1, p)"
      using 1 nw cr cl s1(1) nx by (simp add: delete_right_tail_def)
    moreover have "pass_result (c = Black) (nodes (plug t ?cs)) n cs s1 p"
    proof (cases c)
      case Black
      then show ?thesis
        unfolding pass_result_def
        by (intro disjI1 exI [of _ "Br c (Br Red wr w wk wl) p pk t"])
          (use R1 1 w t I in \<open>simp add: nodes_plug\<close>)
    next
      case Red
      then show ?thesis
        unfolding pass_result_def
        by (intro disjI2 disjI1 exI [of _ "Br c (Br Red wr w wk wl) p pk t"] exI [of _ cs] exI [of _ "Suc n"])
          (use R1 1 w t I in \<open>simp add: nodes_plug cinv_weaken\<close>)
    qed
    ultimately show ?thesis using s1(2) by blast
  next
    case 2
    then obtain a f fk b where wl: "wl = Br Red b f fk a" by (auto simp: red_iff)
    have Rl': "rep s (plug (Br Red b f fk a) (RS Black wr w wk # LS c p pk t # cs))"
      using Rl wl by simp
    have f: "f \<in> A" using A wl by auto
    obtain s1 where s1: "upd s f (set_color BLACK) = Some s1" "frame A s s1"
        "rep s1 (plug (Br Black b f fk a) (RS Black wr w wk # LS c p pk t # cs))"
      by (rule recolour [OF Rl', where c' = Black and v = BLACK and A = A]) (auto simp: f)
    have "rep s1 (plug (Br Black wr w wk (Br Black b f fk a)) (LS c p pk t # cs))"
      using s1(3) by simp
    then obtain s2 where s2: "upd s1 w (set_color RED) = Some s2" "frame A s1 s2"
        "rep s2 (plug (Br Red wr w wk (Br Black b f fk a)) (LS c p pk t # cs))"
      by (rule recolour [where c' = Red and v = RED and A = A]) (auto simp: mem)
    have "tset (plug (Br Red wr w wk (Br Black b f fk a)) (LS c p pk t # cs)) \<subseteq> A"
      using A(1) wl by auto
    then obtain s3 where s3: "leftRotate s2 w = Some s3" "frame A s2 s3"
        "rep s3 (plug (Br Black (Br Red wr w wk b) f fk a) (LS c p pk t # cs))"
      by (rule rotate_left [OF s2(3)])
    have fr: "frame A s s3" using s1(2) s2(2) s3(2) by (blast intro: frame_trans)
    have NILs: "NIL s3 = NIL s" by (rule frame_NIL [OF fr])
    have Rt: "rep s3 (plug t (RS c (Br Black (Br Red wr w wk b) f fk a) p pk # cs))"
      and Rp: "rep s3 (plug (Br c (Br Black (Br Red wr w wk b) f fk a) p pk t) cs)"
      using s3(3) by simp_all
    have F3: "focus s3 t (RS c (Br Black (Br Red wr w wk b) f fk a) p pk # cs)"
      by (rule focus_frame [OF F Rt _ fr A(2)]) simp
    then obtain nx where nx: "rd s3 ?x = Some nx" "parent nx = p"
      using focus_rd NILs by (metis cptr.simps(3))
    obtain np where np: "rd s3 p = Some np" "left np = f"
      by (rule rep_node [OF Rp]) auto
    have sub: "tset (plug t (RS c (Br Black (Br Red wr w wk b) f fk a) p pk # cs)) \<subseteq> A" "NIL s3 \<notin> A"
      using A wl NILs by auto
    obtain s4 where s4: "delete_right_last s3 ?x f = Some (s4, root s4)" "frame A s3 s4"
        "rep s4 (plug (Br c (Br Black wr w wk b) f fk (Br Black a p pk t)) cs)"
      using delete_right_last [OF F3 sub] NILs by auto
    have "delete_right_tail s ?x w = delete_right_last s3 ?x f"
      using 2 nw cr cl s1(1) s2(1) s3(1) nx np wl
      by (simp add: delete_right_tail_def delete_right_last_def RED_def BLACK_def)
    moreover have "pass_result (c = Black) (nodes (plug t ?cs)) n cs s4 (root s4)"
      unfolding pass_result_def
      by (intro disjI2 exI [of _ "plug (Br c (Br Black wr w wk b) f fk (Br Black a p pk t)) cs"])
        (use s4(3) w wl rb in \<open>auto simp: nodes_plug plug_not_Lf\<close>)
    ultimately show ?thesis using s4(1,2) fr by (auto intro: frame_trans)
  next
    case 3
    then obtain a f fk b where wr: "wr = Br Red b f fk a" by (auto simp: red_iff)
    obtain s4 where s4: "delete_right_last s ?x w = Some (s4, root s4)" "frame A s s4"
        "rep s4 (plug (Br c (Br Black b f fk a) w wk (Br Black wl p pk t)) cs)"
      using delete_right_last [OF F [unfolded wr] A [unfolded wr]] by auto
    have "delete_right_tail s ?x w = delete_right_last s ?x w"
      using 3 nw cr cl
      by (cases "red wl") (simp_all add: delete_right_tail_def delete_right_last_def RED_def BLACK_def)
    moreover have "pass_result (c = Black) (nodes (plug t ?cs)) n cs s4 (root s4)"
      unfolding pass_result_def
      by (intro disjI2 exI [of _ "plug (Br c (Br Black b f fk a) w wk (Br Black wl p pk t)) cs"])
        (use s4(3) w wr rb in \<open>auto simp: nodes_plug plug_not_Lf\<close>)
    ultimately show ?thesis using s4(1,2) by auto
  qed
qed


lemma delete_right_pass:
  assumes F: "focus s t (RS c u p pk # cs)"
    and A: "tset (plug t (RS c u p pk # cs)) \<subseteq> A" "NIL s \<notin> A"
    and t: "\<not> red t" "tinv t n" and I: "cinv False (Suc n) (RS c u p pk # cs)"
  shows "\<exists>s' x'. delete_right s (tptr (NIL s) t) = Some (s', x') \<and> frame A s s'
    \<and> pass_result True (nodes (plug t (RS c u p pk # cs))) n cs s' x'"
proof -
  let ?x = "tptr (NIL s) t"
  have u: "tinv u (Suc n)" using I by (cases c) auto
  then obtain d wl w wk wr where w: "u = Br d wr w wk wl" by (cases u) auto
  have R: "rep s (plug (Br d wr w wk wl) (LS c p pk t # cs))"
    and Rp: "rep s (plug (Br c (Br d wr w wk wl) p pk t) cs)"
    using F w by (simp_all add: focus_def)
  have mem: "p \<in> A" "w \<in> A" using A w by auto
  obtain nx where nx: "rd s ?x = Some nx" "parent nx = p"
    using focus_rd [OF F] by (metis cptr.simps(3))
  obtain np where np: "rd s p = Some np" "left np = w"
    by (rule rep_node [OF Rp]) auto
  have cw: "col s w = Some (colv d)"
    using col_tree [OF R] by (cases d) simp_all
  show ?thesis
  proof (cases d)
    case Black
    obtain s' x' where "delete_right_tail s ?x w = Some (s', x')" "frame A s s'"
        "pass_result (c = Black) (nodes (plug t (RS c u p pk # cs))) n cs s' x'"
      using delete_right_tail [OF F [unfolded w Black] A [unfolded w Black] t I [unfolded w Black]] w Black
      by auto
    moreover have "delete_right s ?x = delete_right_tail s ?x w"
      using nx np cw Black by (simp add: delete_right_def delete_right_tail_def RED_def BLACK_def)
    ultimately show ?thesis using pass_result_True by auto
  next
    case Red
    then have c: "c = Black" and wi: "tinv wl (Suc n)" "tinv wr (Suc n)" "\<not> red wl" "\<not> red wr"
      using I w by (cases c; auto)+
    obtain s1 where s1: "upd s w (set_color BLACK) = Some s1" "frame A s s1"
        "rep s1 (plug (Br Black wr w wk wl) (LS c p pk t # cs))"
      by (rule recolour [OF R, where c' = Black and v = BLACK and A = A]) (auto simp: mem)
    have "rep s1 (plug (Br c (Br Black wr w wk wl) p pk t) cs)" using s1(3) by simp
    then obtain s2 where s2: "upd s1 p (set_color RED) = Some s2" "frame A s1 s2"
        "rep s2 (plug (Br Red (Br Black wr w wk wl) p pk t) cs)"
      by (rule recolour [where c' = Red and v = RED and A = A]) (auto simp: mem)
    have "tset (plug (Br Red (Br Black wr w wk wl) p pk t) cs) \<subseteq> A"
      using A(1) w by auto
    then obtain s3 where s3: "rightRotate s2 p = Some s3" "frame A s2 s3"
        "rep s3 (plug (Br Black wr w wk (Br Red wl p pk t)) cs)"
      by (rule rotate_right [OF s2(3)])
    have fr: "frame A s s3" using s1(2) s2(2) s3(2) by (blast intro: frame_trans)
    have NILs: "NIL s3 = NIL s" by (rule frame_NIL [OF fr])
    let ?cs = "RS Black wr w wk # cs"
    have R3: "rep s3 (plug t (RS Red wl p pk # ?cs))"
      and Rp3: "rep s3 (plug (Br Red wl p pk t) ?cs)" using s3(3) by simp_all
    have F3: "focus s3 t (RS Red wl p pk # ?cs)"
      by (rule focus_frame [OF F R3 _ fr A(2)]) simp
    then obtain nx' where nx': "rd s3 ?x = Some nx'" "parent nx' = p"
      using focus_rd NILs by (metis cptr.simps(3))
    obtain np' where np': "rd s3 p = Some np'" "left np' = tptr (NIL s) wl"
      using rep_node [OF Rp3] NILs by metis
    obtain wll v vk wlr where wl: "wl = Br Black wlr v vk wll"
      using wi by (cases wl rule: red.cases) auto
    have I3: "cinv False (Suc n) (RS Red wl p pk # ?cs)"
      using I w c wi by simp
    have sub: "tset (plug t (RS Red wl p pk # ?cs)) \<subseteq> A" "NIL s3 \<notin> A"
      using A w NILs by auto
    obtain s' x' where tl: "delete_right_tail s3 ?x v = Some (s', x')" "frame A s3 s'"
        "pass_result False (nodes (plug t (RS Red wl p pk # ?cs))) n ?cs s' x'"
      using delete_right_tail [OF F3 [unfolded wl] sub [unfolded wl] t I3 [unfolded wl]] wl NILs by auto
    have "delete_right s ?x = delete_right_tail s3 ?x v"
      using nx np cw Red s1(1) s2(1) s3(1) nx' np' wl
      by (simp add: delete_right_def delete_right_tail_def)
    moreover have "pass_result True (nodes (plug t (RS c u p pk # cs))) n cs s' x'"
      using pass_result_False [OF tl(3)] by (simp add: nodes_plug w)
    ultimately show ?thesis using tl(1) frame_trans [OF fr tl(2)] by auto
  qed
qed

section \<open>The loop\<close>

lemma exit_red:
  assumes R: "rep s (plug t cs)" and t: "red t" and A: "tset (plug t cs) \<subseteq> A"
    and I: "tinv (blacken t) m" "cinv False m cs"
  shows "\<exists>s' t'. rbDeleteFixup s (tptr (NIL s) t) = Some s' \<and> rep s' t' \<and> rbtree t'
    \<and> nodes t' = nodes (plug t cs) \<and> frame A s s'"
proof -
  obtain l a k r where t': "t = Br Red l a k r" using t by (auto simp: red_iff)
  have R': "rep s (plug (Br Red l a k r) cs)" using R t' by simp
  obtain n where n: "rd s a = Some n" "color n = RED"
    by (rule rep_node [OF R']) auto
  then have "delete_loop s a = Some (s, a)"
    by (subst delete_loop.simps) (simp add: RED_def BLACK_def)
  moreover obtain s' where "upd s a (set_color BLACK) = Some s'" "frame A s s'"
      "rep s' (plug (Br Black l a k r) cs)"
    by (rule recolour [OF R', where c' = Black and v = BLACK and A = A]) (use A t' in auto)
  moreover have "rbtree (plug (Br Black l a k r) cs)"
    using I t' unfolding rbtree_plug by auto
  ultimately show ?thesis
    by (intro exI [of _ s'] exI [of _ "plug (Br Black l a k r) cs"])
      (simp add: rbDeleteFixup_def t' nodes_plug)
qed

lemma exit_root:
  assumes R: "rep s t" and t: "tinv t m" and A: "insert (NIL s) (tset t) \<subseteq> A"
  shows "\<exists>s' t'. rbDeleteFixup s (root s) = Some s' \<and> rep s' t' \<and> rbtree t'
    \<and> nodes t' = nodes t \<and> frame A s s'"
proof -
  have loop: "delete_loop s (root s) = Some (s, root s)"
    by (subst delete_loop.simps) simp
  have rb: "rbtree (blacken t)"
    using tinv_blacken [OF t] by (simp add: rbtree_def)
  show ?thesis
  proof (cases "t = Lf")
    case True
    have root: "root s = NIL s" using R True by (simp add: rep_def)
    obtain n where n: "procs s (NIL s) = Some n" "color n = BLACK" "NIL s \<noteq> NULL"
      using R by (auto simp: rep_def sentinel_def)
    then have "upd s (root s) (set_color BLACK) = Some (put (NIL s) (set_color BLACK) s)"
      using root by (simp add: upd_put)
    moreover have "rep (put (NIL s) (set_color BLACK) s) Lf"
      using R True n by (simp add: rep_def sentinel_def set_color_def addrs_ok_def)
    moreover have "frame A s (put (NIL s) (set_color BLACK) s)"
      using A by (intro frame_put) auto
    ultimately show ?thesis
      using loop rb True by (intro exI [of _ "put (NIL s) (set_color BLACK) s"] exI [of _ Lf])
        (simp add: rbDeleteFixup_def)
  next
    case False
    obtain s' where "upd s (root s) (set_color BLACK) = Some s'" "rep s' (blacken t)" "frame A s s'"
      using rep_blacken [OF R False, of A] A by auto
    then show ?thesis
      using loop rb by (intro exI [of _ s'] exI [of _ "blacken t"]) (simp add: rbDeleteFixup_def)
  qed
qed

lemma rbDeleteFixup_step:
  assumes "x \<noteq> root s" and "rd s x = Some nx" and "color nx = BLACK" and "rd s (parent nx) = Some np"
    and "(if x = left np then delete_left s x else delete_right s x) = Some (s', x')"
  shows "rbDeleteFixup s x = rbDeleteFixup s' x'"
  using assms unfolding rbDeleteFixup_def
  by (subst delete_loop.simps) (simp split del: if_split)

lemma root_in_cset: "tptr nil (plug t (st # cs)) \<in> cset (st # cs)"
proof (induction cs arbitrary: t st)
  case Nil
  then show ?case by (cases st) auto
next
  case (Cons st' cs)
  have "tptr nil (plug (up t st) (st' # cs)) \<in> cset (st' # cs)" by (rule Cons)
  then show ?case by (cases st) auto
qed

text \<open>The subtree in focus lacks a black node, or is red and has to become black.\<close>

definition lacks :: "ptree \<Rightarrow> step list \<Rightarrow> bool" where
  "lacks t cs \<longleftrightarrow> (\<exists>m. red t \<and> tinv (blacken t) m \<and> cinv False m cs)
     \<or> (\<exists>n. \<not> red t \<and> tinv t n \<and> cinv False (Suc n) cs)"

lemma pass_focus:
  assumes F: "focus s t (st # cs)" and A: "tset (plug t (st # cs)) \<subseteq> A" "NIL s \<notin> A"
    and t: "\<not> red t" "tinv t n" and I: "cinv False (Suc n) (st # cs)"
  shows "\<exists>s' x'. rbDeleteFixup s (tptr (NIL s) t) = rbDeleteFixup s' x' \<and> frame A s s'
    \<and> pass_result True (nodes (plug t (st # cs))) n cs s' x'"
proof -
  let ?x = "tptr (NIL s) t"
  have R: "rep s (plug t (st # cs))" using F by (simp add: focus_def)
  obtain nx where nx: "rd s ?x = Some nx" "parent nx = cptr [st]" "color nx = BLACK"
    using focus_rd [OF F] t(1) cptr_Cons [of st cs] by metis
  have "?x \<notin> cset (st # cs)"
    using R [unfolded rep_plug] by (cases t) (auto simp: addrs_ok_def simp del: cset.simps)
  then have root: "?x \<noteq> root s"
    using root_in_cset [of "NIL s" t st cs] rep_root [OF R] by auto
  obtain np where np: "rd s (cptr [st]) = Some np"
      "left np = (case st of LS c a k r \<Rightarrow> tptr (NIL s) t | RS c l a k \<Rightarrow> tptr (NIL s) l)"
    by (rule rep_step [OF R])
  show ?thesis
  proof (cases st)
    case (LS c p pk u)
    obtain s' x' where "delete_left s ?x = Some (s', x')" "frame A s s'"
        "pass_result True (nodes (plug t (st # cs))) n cs s' x'"
      using delete_left_pass [of s t c p pk u cs A n] F A t I unfolding LS by blast
    moreover from this(1) have "rbDeleteFixup s ?x = rbDeleteFixup s' x'"
      by (intro rbDeleteFixup_step [OF root nx(1,3)]) (use nx np LS in auto)
    ultimately show ?thesis by blast
  next
    case (RS c u p pk)
    obtain s' x' where "delete_right s ?x = Some (s', x')" "frame A s s'"
        "pass_result True (nodes (plug t (st # cs))) n cs s' x'"
      using delete_right_pass [of s t c u p pk cs A n] F A t I unfolding RS by blast
    moreover have "?x \<noteq> tptr (NIL s) u"
    proof -
      have "tinv u (Suc n)" using I RS by (cases c) auto
      then have "u \<noteq> Lf" by auto
      then show ?thesis
        using R RS by (cases u; cases t) (auto simp: rep_plug addrs_ok_def)
    qed
    moreover from calculation have "rbDeleteFixup s ?x = rbDeleteFixup s' x'"
      by (intro rbDeleteFixup_step [OF root nx(1,3)]) (use nx np RS in auto)
    ultimately show ?thesis by blast
  qed
qed

lemma rbDeleteFixup_focus:
  assumes "focus s t cs" and "lacks t cs" and "tset (plug t cs) \<subseteq> A" and "NIL s \<notin> A"
  shows "\<exists>s' t'. rbDeleteFixup s (tptr (NIL s) t) = Some s' \<and> rep s' t' \<and> rbtree t'
    \<and> nodes t' = nodes (plug t cs) \<and> frame (insert (NIL s) A) s s'"
  using assms
proof (induction cs arbitrary: s t)
  case Nil
  have R: "rep s t" using Nil(1) by (simp add: focus_def)
  show ?case
  proof (cases "red t")
    case True
    then show ?thesis
      using exit_red [of s t "[]" "insert (NIL s) A"] R Nil(2,3) by (auto simp: lacks_def)
  next
    case False
    then obtain n where "tinv t n" using Nil(2) by (auto simp: lacks_def)
    then show ?thesis
      using exit_root [OF R, of n "insert (NIL s) A"] Nil(3) rep_root [OF R] by auto
  qed
next
  case (Cons st cs)
  note F = Cons.prems(1) and A = Cons.prems(3,4)
  let ?B = "insert (NIL s) A"
  show ?case
  proof (cases "red t")
    case True
    have R: "rep s (plug t (st # cs))" using F by (simp add: focus_def)
    obtain m where "tinv (blacken t) m" "cinv False m (st # cs)"
      using Cons.prems(2) True by (auto simp: lacks_def)
    then show ?thesis
      using exit_red [OF R True, of ?B m] A(1) by blast
  next
    case False
    then obtain n where n: "tinv t n" "cinv False (Suc n) (st # cs)"
      using Cons.prems(2) by (auto simp: lacks_def)
    obtain s' x' where p: "rbDeleteFixup s (tptr (NIL s) t) = rbDeleteFixup s' x'" "frame A s s'"
        "pass_result True (nodes (plug t (st # cs))) n cs s' x'"
      using pass_focus [OF F A False n] by blast
    have NILs: "NIL s' = NIL s" by (rule frame_NIL [OF p(2)])
    have frB: "frame ?B s s'" by (rule frame_mono [OF p(2)]) auto
    have tsub: "tset t' \<subseteq> A" if "nodes t' = nodes (plug t (st # cs))" for t'
      using A(1) that by (simp add: tset_addrs)
    have finish: ?thesis
      if "\<exists>s'' t''. rbDeleteFixup s' x' = Some s'' \<and> rep s'' t'' \<and> rbtree t''
        \<and> nodes t'' = nodes (plug t (st # cs)) \<and> frame ?B s' s''"
      using that p(1) frB by (auto intro: frame_trans)
    from p(3) consider
      (up) t' where "x' = tptr (NIL s') t'" "t' \<noteq> Lf" "rep s' (plug t' cs)"
        "nodes (plug t' cs) = nodes (plug t (st # cs))" "\<not> red t'" "tinv t' (Suc n)"
        "cinv False (Suc (Suc n)) cs"
      | (red) t' cs' m where "x' = tptr (NIL s') t'" "red t'" "rep s' (plug t' cs')"
        "nodes (plug t' cs') = nodes (plug t (st # cs))" "tinv (blacken t') m" "cinv False m cs'"
      | (root) t' where "x' = root s'" "rep s' t'" "nodes t' = nodes (plug t (st # cs))" "rbtree t'"
      unfolding pass_result_def by blast
    then show ?thesis
    proof cases
      case up
      have "focus s' t' cs" "lacks t' cs"
        using up by (auto simp: focus_node lacks_def)
      then show ?thesis
        using Cons.IH [of s' t'] tsub [OF up(4)] A(2) NILs up(1,4) by (intro finish) auto
    next
      case red
      then show ?thesis
        using exit_red [OF red(3,2) _ red(5,6), of ?B] tsub [OF red(4)] by (intro finish) auto
    next
      case root
      then obtain m where "tinv t' m" by (auto simp: rbtree_def)
      then show ?thesis
        using exit_root [OF root(2), of m ?B] tsub [OF root(3)] NILs root(1,3) by (intro finish) auto
    qed
  qed
qed

section \<open>Transplanting\<close>

lemma rbTransplant_relink:
  "rbTransplant s u v = do {
     nu \<leftarrow> rd s u;
     s \<leftarrow> relink s (parent nu) u v;
     nu \<leftarrow> rd s u;
     upd s v (parent_update (\<lambda>_. parent nu))
   }"
  by (simp add: rbTransplant_def relink_def)

definition moved :: "step list \<Rightarrow> ptr \<Rightarrow> pstate \<Rightarrow> pstate" where
  "moved cs v s = put v (parent_update (\<lambda>_. cptr cs)) (relinked cs v s)"

lemma rbTransplant_moved:
  assumes "ctx_ok s u cs" and "procs s u = Some nu" "parent nu = cptr cs"
    and "u \<noteq> NULL" "u \<noteq> NIL s" "u \<notin> cset cs" and "NULL \<notin> cset cs"
    and "procs s v = Some nv" "v \<noteq> NULL" "v \<notin> cset cs"
  shows "rbTransplant s u v = Some (moved cs v s)"
proof -
  have "relink s (cptr cs) u v = Some (relinked cs v s)"
    by (intro relink_relinked hole_clear_node assms)
  moreover have "procs (relinked cs v s) u = Some nu" "procs (relinked cs v s) v = Some nv"
    using assms by simp_all
  ultimately show ?thesis
    using assms by (simp add: rbTransplant_relink rd_Some upd_put moved_def)
qed

lemma moved_simps [simp]:
  "NIL (moved cs v s) = NIL s"
  "q \<notin> cset cs \<Longrightarrow> procs (moved cs v s) q =
     (if q = v then map_option (parent_update (\<lambda>_. cptr cs)) (procs s v) else procs s q)"
  by (auto simp: moved_def)

lemma ctx_ok_moved:
  "ctx_ok s x cs \<Longrightarrow> cdist cs \<Longrightarrow> v \<notin> cset cs \<Longrightarrow> ctx_ok (moved cs v s) v cs"
  by (simp add: moved_def ctx_ok_relinked)

lemma is_tree_moved:
  "v \<notin> tset t \<Longrightarrow> cset cs \<inter> tset t = {} \<Longrightarrow> is_tree (moved cs v s) par t = is_tree s par t"
  by (simp add: moved_def)

lemma frame_moved: "frame A s t \<Longrightarrow> v \<in> A \<Longrightarrow> cset cs \<subseteq> A \<Longrightarrow> frame A s (moved cs v t)"
  by (auto simp: moved_def intro: frame_put frame_relinked)

lemma sentinel_put:
  "sentinel s \<Longrightarrow> (\<And>n. color (f n) = color n) \<Longrightarrow> sentinel (put p f s)"
  by (auto simp: sentinel_def)

text \<open>A node with at most one child is replaced by it; the child, or the sentinel, is in focus.\<close>

lemma remove_single:
  assumes R: "rep s (plug (Br c l u k r) cs)" and m: "m = r \<and> l = Lf \<or> m = l \<and> r = Lf"
    and A: "insert (NIL s) (tset (plug (Br c l u k r) cs)) \<subseteq> A"
  shows "rbTransplant s u (tptr (NIL s) m) = Some (moved cs (tptr (NIL s) m) s)"
    and "focus (moved cs (tptr (NIL s) m) s) m cs" and "frame A s (moved cs (tptr (NIL s) m) s)"
proof -
  let ?v = "tptr (NIL s) m"
  from R have tree: "is_tree s u m" and ctx: "ctx_ok s u cs" and dist: "tdist m" "cdist cs"
    and dis: "tset m \<inter> cset cs = {}" "u \<notin> cset cs" and sent: "sentinel s"
    and ok: "addrs_ok s (tset m)" "addrs_ok s (cset cs)" and u: "u \<noteq> NULL" "u \<noteq> NIL s"
    using m by (auto simp: rep_plug addrs_ok_def)
  from R obtain nu where nu: "procs s u = Some nu" "parent nu = cptr cs"
    by (auto simp: rep_plug)
  obtain nv where nv: "procs s ?v = Some nv" "?v \<noteq> NULL" "?v \<notin> cset cs"
    using sent tree ok dis by (cases m) (auto simp: sentinel_def addrs_ok_def)
  show "rbTransplant s u ?v = Some (moved cs ?v s)"
    using ok(2) by (intro rbTransplant_moved [OF ctx nu u dis(2) _ nv]) (simp add: addrs_ok_def)
  have "NIL s \<notin> cset cs" using ok by (simp add: addrs_ok_def)
  then have sent': "sentinel (moved cs ?v s)"
    using sent by (auto simp: sentinel_def)
  have tree': "is_tree (moved cs ?v s) (cptr cs) m"
  proof (cases m)
    case (Br mc ml q mk mr)
    then have "moved cs ?v s = reparent m (cptr cs) (relinked cs ?v s)"
      by (simp add: moved_def reparent_def)
    moreover have "is_tree (relinked cs ?v s) u m"
      using tree dis by (simp add: Int_commute)
    ultimately show ?thesis
      using is_tree_reparent_self dist by simp
  qed simp
  have "rep (moved cs ?v s) (plug m cs)"
    using tree' ctx_ok_moved [OF ctx dist(2) nv(3)] sent' dist dis ok
    by (auto simp: rep_plug addrs_ok_def)
  then show "focus (moved cs ?v s) m cs"
    using nv by (simp add: focus_def)
  show "frame A s (moved cs ?v s)"
    using A m by (cases m) (auto intro!: frame_moved)
qed

section \<open>Replacing a node by another one\<close>

definition install :: "pstate \<Rightarrow> ptr \<Rightarrow> ptr \<Rightarrow> pstate option" where
  "install s z y = do {
     s \<leftarrow> rbTransplant s z y;
     nz \<leftarrow> rd s z;
     s \<leftarrow> upd s y (left_update (\<lambda>_. left nz));
     ny \<leftarrow> rd s y;
     s \<leftarrow> upd s (left ny) (parent_update (\<lambda>_. y));
     nz \<leftarrow> rd s z;
     upd s y (set_color (color nz))
   }"

definition installed :: "ptr \<Rightarrow> colr \<Rightarrow> ptree \<Rightarrow> step list \<Rightarrow> pstate \<Rightarrow> pstate" where
  "installed y c l cs s = put y (set_color (colv c)) (reparent l y
     (put y (left_update (\<lambda>_. tptr (NIL s) l)) (moved cs y s)))"

lemma install_installed:
  assumes ctx: "ctx_ok s z cs" "cdist cs" "addrs_ok s (cset cs)"
    and z: "procs s z = Some nz" "left nz = tptr (NIL s) l" "parent nz = cptr cs" "color nz = colv c"
      "z \<noteq> NULL" "z \<noteq> NIL s" "z \<notin> cset cs" "z \<notin> tset l" "z \<noteq> y"
    and l: "is_tree s z l" "l \<noteq> Lf" "tset l \<inter> cset cs = {}" "addrs_ok s (tset l)"
    and y: "procs s y = Some ny" "y \<noteq> NULL" "y \<notin> cset cs" "y \<notin> tset l"
  shows "install s z y = Some (installed y c l cs s)"
proof -
  obtain lc ll q lk lr where l': "l = Br lc ll q lk lr" using l(2) by (cases l) auto
  have q: "q \<noteq> NULL" "q \<noteq> z" "q \<noteq> y" "q \<notin> cset cs"
    using l(3,4) z(8) y(4) by (auto simp: l' addrs_ok_def)
  obtain nq where nq: "procs s q = Some nq" using l(1) l' by auto
  define s1 where "s1 = moved cs y s"
  define s2 where "s2 = put y (left_update (\<lambda>_. q)) s1"
  define s3 where "s3 = put q (parent_update (\<lambda>_. y)) s2"
  define s4 where "s4 = put y (set_color (colv c)) s3"
  have p1: "procs s1 z = Some nz" "procs s1 y = Some (ny\<lparr>parent := cptr cs\<rparr>)" "procs s1 q = Some nq"
    using z y nq q by (simp_all add: s1_def)
  have "rbTransplant s z y = Some s1"
    using ctx(3) unfolding s1_def
    by (intro rbTransplant_moved [OF ctx(1) z(1,3,5-7) _ y(1-3)]) (simp add: addrs_ok_def)
  moreover have "upd s1 y (left_update (\<lambda>_. q)) = Some s2" "upd s2 q (parent_update (\<lambda>_. y)) = Some s3"
    "upd s3 y (set_color (colv c)) = Some s4"
    using p1 y(2) q by (simp_all add: upd_put s2_def s3_def s4_def)
  moreover have "rd s1 z = Some nz" "rd s2 y = Some (ny\<lparr>parent := cptr cs, left := q\<rparr>)" "rd s3 z = Some nz"
    using p1 y(2) z(5,9) q by (simp_all add: rd_def s2_def s3_def)
  ultimately have "install s z y = Some s4"
    using z(2,4) l' by (simp add: install_def)
  then show ?thesis
    by (simp add: s4_def s3_def s2_def s1_def installed_def reparent_def l')
qed

lemma installed_rep:
  assumes ctx: "ctx_ok s z cs" "cdist cs" "addrs_ok s (cset cs)"
    and l: "is_tree s z l" "l \<noteq> Lf" "tdist l" "tset l \<inter> cset cs = {}" "addrs_ok s (tset l)"
    and r: "is_tree s y r" "tdist r" "tset r \<inter> cset cs = {}" "addrs_ok s (tset r)" "tset l \<inter> tset r = {}"
    and y: "procs s y = Some ny" "y \<noteq> NULL" "y \<noteq> NIL s" "y \<notin> cset cs" "y \<notin> tset l" "y \<notin> tset r"
      "right ny = tptr (NIL s) r" and sent: "sentinel s"
  shows "rep (installed y c l cs s) (plug (Br c l y (pid ny) r) cs)"
proof -
  let ?s = "installed y c l cs s"
  have nil: "NIL s \<notin> cset cs" "NIL s \<notin> tset l" using ctx(3) l(5) by (auto simp: addrs_ok_def)
  have "sentinel ?s"
    by (rule sentinel_frame [OF sent]) (use nil y in \<open>simp_all add: installed_def\<close>)
  moreover have "ctx_ok ?s y cs"
    using ctx_ok_moved [OF ctx(1,2) y(4)] y(4) l(4) by (simp add: installed_def)
  moreover have "is_tree ?s y l"
  proof -
    have "is_tree (put y (left_update (\<lambda>_. tptr (NIL s) l)) (moved cs y s)) z l"
      using l y by (simp add: is_tree_moved Int_commute)
    then show ?thesis
      using is_tree_reparent_self l(3) y(5) by (simp add: installed_def)
  qed
  moreover have "is_tree ?s y r"
    using r y by (simp add: installed_def is_tree_moved Int_commute)
  moreover have "procs ?s y = Some (ny\<lparr>parent := cptr cs, left := tptr (NIL s) l, color := colv c\<rparr>)"
    using y by (simp add: installed_def set_color_def)
  ultimately show ?thesis
    using ctx l r y by (auto simp: rep_plug addrs_ok_def installed_def)
qed

lemma frame_installed:
  assumes "frame A r s" and "y \<in> A" and "tset l \<subseteq> A" and "cset cs \<subseteq> A"
  shows "frame A r (installed y c l cs s)"
  unfolding installed_def using assms by (auto intro!: frame_put frame_reparent frame_moved)


section \<open>Unlinking\<close>

text \<open>The leftmost node of a tree and the path to it.\<close>

fun leftmost :: "ptree \<Rightarrow> step list \<Rightarrow> ptree \<times> step list" where
  "leftmost Lf cs = (Lf, cs)"
| "leftmost (Br c l a k r) cs = (if l = Lf then (Br c l a k r, cs) else leftmost l (LS c a k r # cs))"

fun left_only :: "step list \<Rightarrow> bool" where
  "left_only [] \<longleftrightarrow> True"
| "left_only (LS c a k r # cs) \<longleftrightarrow> left_only cs"
| "left_only (RS c l a k # cs) \<longleftrightarrow> False"

lemma left_only_before: "left_only ds \<Longrightarrow> before (ds @ cs) = before cs"
  by (induction ds rule: left_only.induct) auto

lemma after_append: "after (ds @ cs) = after ds @ after cs"
  by (induction ds rule: after.induct) auto

lemma cset_append: "cset (ds @ cs) = cset ds \<union> cset cs"
  by (induction ds rule: cset.induct) auto

lemma cptr_append: "cptr (ds @ cs) = (if ds = [] then cptr cs else cptr ds)"
  by (cases ds rule: left_only.cases) auto

lemma leftmost_path:
  assumes "t \<noteq> Lf"
  obtains c y k r ds where "leftmost t cs = (Br c Lf y k r, ds @ cs)" and "left_only ds"
    and "plug (Br c Lf y k r) ds = t"
  using assms
proof (induction t cs arbitrary: thesis rule: leftmost.induct)
  case (2 c l a k r cs)
  show ?case
  proof (cases "l = Lf")
    case True
    then show ?thesis by (intro "2.prems"(1) [of c a k r "[]"]) simp_all
  next
    case False
    obtain c' y k' r' ds where "leftmost l (LS c a k r # cs) = (Br c' Lf y k' r', ds @ LS c a k r # cs)"
        "left_only ds" "plug (Br c' Lf y k' r') ds = l"
      using "2.IH" [OF False _ False] by blast
    moreover have "left_only (ds @ [LS c a k r])"
      using \<open>left_only ds\<close> by (induction ds rule: left_only.induct) auto
    ultimately show ?thesis
      using False by (intro "2.prems"(1) [of c' y k' r' "ds @ [LS c a k r]"]) (simp_all add: plug_append)
  qed
qed simp

lemma treeMinimum_leftmost:
  assumes "rep s (plug t cs)" and "t \<noteq> Lf"
  shows "treeMinimum s (tptr (NIL s) t) = Some (tptr (NIL s) (fst (leftmost t cs)))"
  using assms
proof (induction t cs rule: leftmost.induct)
  case (2 c l a k r cs)
  obtain n where n: "rd s a = Some n" "left n = tptr (NIL s) l"
    by (rule rep_node [OF 2(2)]) auto
  show ?case
  proof (cases "l = Lf")
    case True
    with n show ?thesis by (simp add: treeMinimum.simps [of s a])
  next
    case False
    have "rep s (plug l (LS c a k r # cs))" using 2(2) by simp
    moreover have "tptr (NIL s) l \<noteq> NIL s"
      using rep_addrs(2) [OF calculation] tptr_in_tset [OF False, of "NIL s"] by auto
    ultimately show ?thesis
      using 2(1) False n by (simp add: treeMinimum.simps [of s a])
  qed
qed simp

lemma cinv_rename: "cinv b n (ds @ RS c l z k # cs) = cinv b n (ds @ RS c l y ky # cs)"
proof (induction ds arbitrary: b n)
  case Nil
  then show ?case by (cases c) simp_all
next
  case (Cons st ds)
  then show ?case by (cases st; cases "stc st") simp_all
qed

text \<open>What unlinking leaves: a subtree in focus that lacks a black node exactly when the removed
  node was black.\<close>

definition unlinked :: "ptr \<times> u32 \<Rightarrow> (ptr \<times> u32) list \<Rightarrow> pstate \<Rightarrow> ptr \<Rightarrow> u32 \<Rightarrow> bool" where
  "unlinked e xs s x d \<longleftrightarrow> (\<exists>t cs c. focus s t cs \<and> x = tptr (NIL s) t \<and> d = colv c
     \<and> (\<exists>ys zs. xs = ys @ e # zs \<and> nodes (plug t cs) = ys @ zs)
     \<and> (c = Red \<longrightarrow> rbtree (plug t cs)) \<and> (c = Black \<longrightarrow> lacks t cs))"

text \<open>Taking a node with at most one child out of a red-black tree.\<close>

lemma single_colour:
  assumes "rbtree (plug (Br c l u k r) cs)" and m: "m = r \<and> l = Lf \<or> m = l \<and> r = Lf"
  shows "c = Red \<Longrightarrow> rbtree (plug m cs)" and "c = Black \<Longrightarrow> lacks m cs"
proof -
  obtain n where n: "tinv (Br c l u k r) n" "cinv (red (Br c l u k r)) n cs"
    using assms(1) by (auto simp: rbtree_plug)
  show "rbtree (plug m cs)" if "c = Red"
    using n m that unfolding rbtree_plug by (auto intro!: exI [of _ 0] cinv_weaken)
  show "lacks m cs" if "c = Black"
  proof -
    have "tinv m 0" "n = Suc 0" using n m that by auto
    then show ?thesis
      using n that tinv_blacken_red [of m 0] by (cases "red m") (auto simp: lacks_def)
  qed
qed

lemma unlink_single:
  assumes R: "rep s (plug (Br c l u k r) cs)" and m: "m = r \<and> l = Lf \<or> m = l \<and> r = Lf"
    and rb: "rbtree (plug (Br c l u k r) cs)"
    and A: "insert (NIL s) (tset (plug (Br c l u k r) cs)) \<subseteq> A"
  shows "\<exists>s'. rbTransplant s u (tptr (NIL s) m) = Some s' \<and> frame A s s'
    \<and> unlinked (u, k) (nodes (plug (Br c l u k r) cs)) s' (tptr (NIL s) m) (colv c)"
proof -
  let ?s = "moved cs (tptr (NIL s) m) s"
  have "unlinked (u, k) (nodes (plug (Br c l u k r) cs)) ?s (tptr (NIL s) m) (colv c)"
    unfolding unlinked_def
  proof (intro exI conjI)
    show "focus ?s m cs" by (rule remove_single(2) [OF R m A])
    show "nodes (plug (Br c l u k r) cs) = (before cs @ nodes l) @ (u, k) # (nodes r @ after cs)"
      by (simp add: nodes_plug)
    show "nodes (plug m cs) = (before cs @ nodes l) @ (nodes r @ after cs)"
      using m by (auto simp: nodes_plug)
    show "c = Red \<longrightarrow> rbtree (plug m cs)" "c = Black \<longrightarrow> lacks m cs"
      using single_colour [OF rb m] by blast+
  qed simp_all
  then show ?thesis
    using remove_single [OF R m A] by blast
qed


text \<open>With two children the next node in order takes the place of the removed one.\<close>

lemma rb_unlink_double:
  assumes "rd s z = Some nz" and "left nz \<noteq> NIL s" and "right nz \<noteq> NIL s"
    and "treeMinimum s (right nz) = Some y" and "rd s y = Some ny"
    and "(if parent ny = z then upd s (right ny) (parent_update (\<lambda>_. y))
          else do {
            s \<leftarrow> rbTransplant s y (right ny);
            nz \<leftarrow> rd s z;
            s \<leftarrow> upd s y (right_update (\<lambda>_. right nz));
            ny \<leftarrow> rd s y;
            upd s (right ny) (parent_update (\<lambda>_. y))
          }) = Some s1"
    and "install s1 z y = Some s2"
  shows "rb_unlink s z = Some (s2, right ny, color ny)"
proof -
  have "rb_unlink s z = do {
      s \<leftarrow> (if parent ny = z then upd s (right ny) (parent_update (\<lambda>_. y))
          else do {
            s \<leftarrow> rbTransplant s y (right ny);
            nz \<leftarrow> rd s z;
            s \<leftarrow> upd s y (right_update (\<lambda>_. right nz));
            ny \<leftarrow> rd s y;
            upd s (right ny) (parent_update (\<lambda>_. y))
          });
      s \<leftarrow> install s z y;
      Some (s, right ny, color ny) }"
    using assms(1-5) by (simp add: rb_unlink_def install_def Let_def)
  then show ?thesis using assms(6,7) by (simp split del: if_split)
qed

lemma double_colour:
  assumes "rbtree (plug (Br d Lf y ky r) (ds @ RS c l z k # cs))"
  shows "d = Red \<Longrightarrow> rbtree (plug r (ds @ RS c l y ky # cs))"
    and "d = Black \<Longrightarrow> lacks r (ds @ RS c l y ky # cs)"
proof -
  show "rbtree (plug r (ds @ RS c l y ky # cs))" if "d = Red"
    using single_colour(1) [OF assms, of r] that cinv_rename [of _ _ ds c l z k cs y ky]
    by (simp add: rbtree_plug)
  show "lacks r (ds @ RS c l y ky # cs)" if "d = Black"
    using single_colour(2) [OF assms, of r] that cinv_rename [of _ _ ds c l z k cs y ky]
    by (simp add: lacks_def)
qed

lemma unlink_next_child:
  assumes R: "rep s (plug (Br c l z k (Br d Lf y ky r)) cs)" and l: "l \<noteq> Lf"
    and A: "insert (NIL s) (tset (plug (Br c l z k (Br d Lf y ky r)) cs)) \<subseteq> A"
  shows "\<exists>s1 s2. upd s (tptr (NIL s) r) (parent_update (\<lambda>_. y)) = Some s1
    \<and> install s1 z y = Some s2 \<and> frame A s s2 \<and> focus s2 r (RS c l y ky # cs)"
proof -
  let ?x = "tptr (NIL s) r"
  define s1 where "s1 = put ?x (parent_update (\<lambda>_. y)) s"
  from R have tree: "is_tree s z l" "is_tree s y r" and ctx: "ctx_ok s z cs" "cdist cs"
    and dist: "tdist l" "tdist r" and sent: "sentinel s"
    and ok: "addrs_ok s (tset l)" "addrs_ok s (tset r)" "addrs_ok s (cset cs)"
    and zy: "z \<noteq> NULL" "z \<noteq> NIL s" "y \<noteq> NULL" "y \<noteq> NIL s" "z \<noteq> y" "z \<notin> cset cs" "y \<notin> cset cs"
      "z \<notin> tset l" "y \<notin> tset l" "z \<notin> tset r" "y \<notin> tset r"
    and dis: "tset l \<inter> cset cs = {}" "tset r \<inter> cset cs = {}" "tset l \<inter> tset r = {}"
    by (auto simp: rep_plug addrs_ok_def)
  obtain nz where nz: "procs s z = Some nz" "left nz = tptr (NIL s) l" "parent nz = cptr cs" "color nz = colv c"
    using R by (auto simp: rep_plug)
  obtain ny where ny: "procs s y = Some ny" "right ny = tptr (NIL s) r" "pid ny = ky"
    using R by (auto simp: rep_plug)
  have x: "?x \<notin> cset cs" "?x \<notin> tset l" "?x \<noteq> z" "?x \<noteq> y" "?x \<noteq> NULL"
    using ok dis zy sent by (cases r; auto simp: addrs_ok_def sentinel_def)+
  obtain nx where nx: "procs s ?x = Some nx"
    using tree sent by (cases r) (auto simp: sentinel_def)
  have s1: "upd s ?x (parent_update (\<lambda>_. y)) = Some s1"
    using nx x by (simp add: upd_put s1_def)
  have t1: "is_tree s1 z l" "ctx_ok s1 z cs" "sentinel s1" "NIL s1 = NIL s"
    using tree ctx sent x by (simp_all add: s1_def sentinel_put)
  have t2: "is_tree s1 y r"
  proof (cases r)
    case (Br rc rl q rk rr)
    then have "s1 = reparent r y s" by (simp add: s1_def reparent_def)
    then show ?thesis using is_tree_reparent_self [OF tree(2) dist(2)] by simp
  qed simp
  have p: "procs s1 z = Some nz" "procs s1 y = Some ny"
    using nz ny x by (simp_all add: s1_def)
  have "install s1 z y = Some (installed y c l cs s1)"
    by (rule install_installed [where nz = nz and ny = ny])
      (use t1 ctx ok p nz zy l dis in \<open>simp_all add: addrs_ok_def\<close>)
  moreover have rep2: "rep (installed y c l cs s1) (plug (Br c l y (pid ny) r) cs)"
    by (rule installed_rep [where z = z])
      (use t1 t2 ctx ok p ny zy l dis dist in \<open>simp_all add: addrs_ok_def\<close>)
  moreover have fr: "frame A s (installed y c l cs s1)"
  proof (intro frame_installed)
    have "?x \<in> A" using A by (cases r) auto
    then show "frame A s s1" unfolding s1_def by (simp add: frame_put)
  qed (use A in auto)
  moreover have "focus (installed y c l cs s1) r (RS c l y ky # cs)"
  proof (cases r)
    case Lf
    have nil: "NIL s \<notin> cset cs" "NIL s \<notin> tset l" using ok by (auto simp: addrs_ok_def)
    have "procs (installed y c l cs s1) (NIL s) = procs s1 (NIL s)"
      using nil zy by (simp add: installed_def s1_def)
    then show ?thesis
      using rep2 ny Lf nx by (auto simp: focus_def s1_def installed_def)
  qed (use rep2 ny in \<open>simp add: focus_node\<close>)
  ultimately show ?thesis using s1 by blast
qed


lemma unlink_next_deep:
  assumes R: "rep s (plug (Br c l z k (plug (Br d Lf y ky r) ds)) cs)" and l: "l \<noteq> Lf" and ds: "ds \<noteq> []"
    and A: "insert (NIL s) (tset (plug (Br c l z k (plug (Br d Lf y ky r) ds)) cs)) \<subseteq> A"
  shows "\<exists>s4. do {
      s \<leftarrow> rbTransplant s y (tptr (NIL s) r);
      nz \<leftarrow> rd s z;
      s \<leftarrow> upd s y (right_update (\<lambda>_. right nz));
      ny \<leftarrow> rd s y;
      s \<leftarrow> upd s (right ny) (parent_update (\<lambda>_. y));
      install s z y } = Some s4 \<and> frame A s s4 \<and> focus s4 r (ds @ RS c l y ky # cs)"
proof -
  let ?CS = "ds @ RS c l z k # cs"
  let ?r = "plug r ds"
  have R0: "rep s (plug (Br d Lf y ky r) ?CS)"
    using R by (simp add: plug_append)
  have A0: "insert (NIL s) (tset (plug (Br d Lf y ky r) ?CS)) \<subseteq> A"
    using A by (auto simp: cset_append)
  note single = remove_single [OF R0 _ A0, of r, simplified]
  define s1 where "s1 = moved ?CS (tptr (NIL s) r) s"
  have F1: "focus s1 r ?CS" and fr1: "frame A s s1"
    using single by (simp_all add: s1_def)
  have NILs: "NIL s1 = NIL s" by (simp add: s1_def)
  have R1: "rep s1 (plug (Br c l z k ?r) cs)"
    using F1 by (simp add: focus_def plug_append)
  have r: "?r \<noteq> Lf"
  proof -
    obtain st ds' where "ds = st # ds'" using ds by (cases ds) auto
    moreover have "up r st \<noteq> Lf" by (cases st) auto
    ultimately show ?thesis using plug_not_Lf [of "up r st" ds'] by simp
  qed
  from R1 have tree: "is_tree s1 z l" "is_tree s1 z ?r" and ctx: "ctx_ok s1 z cs" "cdist cs"
    and dist: "tdist l" "tdist ?r" and sent: "sentinel s1"
    and ok: "addrs_ok s1 (tset l)" "addrs_ok s1 (tset ?r)" "addrs_ok s1 (cset cs)"
    and z: "z \<noteq> NULL" "z \<noteq> NIL s1" "z \<notin> cset cs" "z \<notin> tset l" "z \<notin> tset ?r"
    and dis: "tset l \<inter> cset cs = {}" "tset ?r \<inter> cset cs = {}" "tset l \<inter> tset ?r = {}"
    by (auto simp: rep_plug addrs_ok_def)
  obtain nz where nz: "procs s1 z = Some nz" "left nz = tptr (NIL s1) l" "right nz = tptr (NIL s1) ?r"
      "parent nz = cptr cs" "color nz = colv c"
    using R1 by (auto simp: rep_plug)
  have yn: "y \<noteq> NULL" "y \<noteq> NIL s" "y \<notin> tset r" "y \<notin> cset ?CS"
    using R0 unfolding rep_plug by (auto simp: addrs_ok_def)
  then have y: "y \<noteq> NULL" "y \<noteq> NIL s1" "y \<noteq> z" "y \<notin> cset cs" "y \<notin> tset l" "y \<notin> tset ?r"
      "y \<notin> cset ?CS"
    by (simp_all add: NILs cset_append)
  have y8: "y \<noteq> tptr (NIL s) r"
    using yn by (cases r) auto
  obtain ny where "rd s y = Some ny" "pid ny = ky"
    by (rule rep_node [OF R0])
  then have ny: "procs s1 y = Some ny" "pid ny = ky"
    using y(1,7) y8 by (simp_all add: rd_def s1_def)
  obtain q where q: "tptr (NIL s1) ?r = q" "q \<in> tset ?r"
    using tptr_in_tset [OF r] by auto
  then have qs: "q \<noteq> NULL" "q \<noteq> z" "q \<noteq> y" "q \<notin> cset cs" "q \<notin> tset l"
    using ok(2) z y(6) dis by (auto simp: addrs_ok_def)
  obtain nq where nq: "procs s1 q = Some nq"
    using tree(2) q(1) r by (cases ?r) auto
  define s2 where "s2 = put y (right_update (\<lambda>_. q)) s1"
  define s3 where "s3 = put q (parent_update (\<lambda>_. y)) s2"
  have s3: "s3 = reparent ?r y s2"
    using q(1) r by (cases ?r) (simp_all add: s3_def reparent_def)
  have steps: "rd s1 z = Some nz" "upd s1 y (right_update (\<lambda>_. q)) = Some s2"
    "rd s2 y = Some (ny\<lparr>right := q\<rparr>)" "upd s2 q (parent_update (\<lambda>_. y)) = Some s3"
    using nz ny nq z y qs by (simp_all add: rd_Some upd_put s2_def s3_def)
  have t3: "is_tree s3 z l" "ctx_ok s3 z cs" "sentinel s3" "NIL s3 = NIL s1"
    using tree(1) ctx(1) sent y qs by (simp_all add: s3_def s2_def sentinel_put)
  have r3: "is_tree s3 y ?r"
    unfolding s3 using tree(2) y(6) by (intro is_tree_reparent_self [OF _ dist(2)]) (simp add: s2_def)
  have p3: "procs s3 z = Some nz" "procs s3 y = Some (ny\<lparr>right := q\<rparr>)"
    using nz ny y(3) qs by (simp_all add: s3_def s2_def)
  define s4 where "s4 = installed y c l cs s3"
  have "install s3 z y = Some s4" unfolding s4_def
    by (rule install_installed [where nz = nz and ny = "ny\<lparr>right := q\<rparr>"])
      (use t3 ctx ok p3 nz z y l dis in \<open>simp_all add: addrs_ok_def\<close>)
  moreover have "rep s4 (plug (Br c l y (pid (ny\<lparr>right := q\<rparr>)) ?r) cs)" unfolding s4_def
    by (rule installed_rep [where z = z])
      (use t3 r3 ctx ok p3 z y l dis dist q in \<open>simp_all add: addrs_ok_def\<close>)
  then have R4: "rep s4 (plug r (ds @ RS c l y ky # cs))"
    using ny(2) by (simp add: plug_append)
  moreover have fr13: "frame (A - {NIL s}) s1 s4"
  proof -
    have "y \<in> A - {NIL s}" "q \<in> A - {NIL s}" "tset l \<union> cset cs \<subseteq> A - {NIL s}"
      using A0 A y(2) q(2) ok NILs by (auto simp: addrs_ok_def)
    then show ?thesis
      unfolding s4_def s3_def s2_def by (intro frame_installed frame_put) auto
  qed
  then have "frame A s s4"
    using frame_mono [OF fr13] fr1 by (blast intro: frame_trans)
  moreover have "focus s4 r (ds @ RS c l y ky # cs)"
  proof (rule focus_frame [OF F1 R4 _ fr13])
    show "cptr (ds @ RS c l y ky # cs) = cptr ?CS" using ds by (simp add: cptr_append)
  qed (simp add: NILs)
  ultimately show ?thesis
    using single(1) steps nz(3) q(1) by (simp add: s1_def [symmetric])
qed

lemma cdist_append: "cdist (ds @ cs) \<Longrightarrow> cset ds \<inter> cset cs = {}"
  by (induction ds rule: cset.induct) (auto simp: cset_append)

lemma rb_unlink_correct:
  assumes R: "rep s (plug (Br c l z k r) cs)" and rb: "rbtree (plug (Br c l z k r) cs)"
    and A: "insert (NIL s) (tset (plug (Br c l z k r) cs)) \<subseteq> A"
  shows "\<exists>s' x d. rb_unlink s z = Some (s', x, d) \<and> frame A s s'
    \<and> unlinked (z, k) (nodes (plug (Br c l z k r) cs)) s' x d"
proof -
  obtain nz where nz: "rd s z = Some nz" "color nz = colv c"
      "left nz = tptr (NIL s) l" "right nz = tptr (NIL s) r"
    by (rule rep_node [OF R])
  have ptrs: "tptr (NIL s) t = NIL s \<longleftrightarrow> t = Lf" if "t = l \<or> t = r" for t
    using that R by (cases t) (auto simp: rep_plug addrs_ok_def)
  consider "l = Lf" | "l \<noteq> Lf" "r = Lf" | "l \<noteq> Lf" "r \<noteq> Lf" by blast
  then show ?thesis
  proof cases
    case 1
    obtain s' where "rbTransplant s z (tptr (NIL s) r) = Some s'" "frame A s s'"
        "unlinked (z, k) (nodes (plug (Br c l z k r) cs)) s' (tptr (NIL s) r) (colv c)"
      using unlink_single [OF R _ rb A, of r] 1 by blast
    then show ?thesis
      using nz 1 by (simp add: rb_unlink_def)
  next
    case 2
    obtain s' where "rbTransplant s z (tptr (NIL s) l) = Some s'" "frame A s s'"
        "unlinked (z, k) (nodes (plug (Br c l z k r) cs)) s' (tptr (NIL s) l) (colv c)"
      using unlink_single [OF R _ rb A, of l] 2 by blast
    then show ?thesis
      using nz 2 ptrs by (simp add: rb_unlink_def)
  next
    case 3
    obtain d y ky ry ds where lm: "leftmost r (RS c l z k # cs) = (Br d Lf y ky ry, ds @ RS c l z k # cs)"
        "left_only ds" "plug (Br d Lf y ky ry) ds = r"
      by (rule leftmost_path [OF 3(2)])
    have "rep s (plug r (RS c l z k # cs))" using R by simp
    then have min: "treeMinimum s (tptr (NIL s) r) = Some y"
      using treeMinimum_leftmost 3(2) lm(1) by fastforce
    let ?cs = "ds @ RS c l z k # cs"
    have R': "rep s (plug (Br d Lf y ky ry) ?cs)" and rb': "rbtree (plug (Br d Lf y ky ry) ?cs)"
      using R rb lm(3) by (simp_all add: plug_append)
    obtain ny where ny: "rd s y = Some ny" "color ny = colv d" "parent ny = cptr ?cs"
        "right ny = tptr (NIL s) ry"
      by (rule rep_node [OF R'])
    have "z \<notin> cset ds" using R' by (auto simp: rep_plug cset_append dest: cdist_append)
    then have parent: "parent ny = z \<longleftrightarrow> ds = []"
      using ny(3) cptr_in_cset [of ds] by (auto simp: cptr_append)
    have ul: "unlinked (z, k) (nodes (plug (Br c l z k r) cs)) s' (tptr (NIL s) ry) (colv d)"
      if F: "focus s' ry (ds @ RS c l y ky # cs)" and fr: "frame A s s'" for s'
      unfolding unlinked_def
    proof (intro exI conjI)
      show "focus s' ry (ds @ RS c l y ky # cs)" by (rule F)
      show "tptr (NIL s) ry = tptr (NIL s') ry" using frame_NIL [OF fr] by simp
      show "nodes (plug (Br c l z k r) cs) =
          (before cs @ nodes l) @ (z, k) # ((y, ky) # nodes ry @ after ds @ after cs)"
        unfolding lm(3) [symmetric] using left_only_before [OF lm(2), of "[]"] by (simp add: nodes_plug)
      show "nodes (plug ry (ds @ RS c l y ky # cs)) =
          (before cs @ nodes l) @ ((y, ky) # nodes ry @ after ds @ after cs)"
        using left_only_before [OF lm(2)] by (simp add: nodes_plug after_append)
      show "d = Red \<longrightarrow> rbtree (plug ry (ds @ RS c l y ky # cs))"
        "d = Black \<longrightarrow> lacks ry (ds @ RS c l y ky # cs)"
        using double_colour [OF rb'] by blast+
    qed simp
    show ?thesis
    proof (cases "ds = []")
      case True
      then have r: "r = Br d Lf y ky ry" using lm(3) by simp
      obtain s1 s2 where s: "upd s (tptr (NIL s) ry) (parent_update (\<lambda>_. y)) = Some s1"
          "install s1 z y = Some s2" "frame A s s2" "focus s2 ry (RS c l y ky # cs)"
        using unlink_next_child [OF R [unfolded r] 3(1) A [unfolded r]] by blast
      have "rb_unlink s z = Some (s2, right ny, color ny)"
        by (rule rb_unlink_double [OF nz(1) _ _ _ ny(1) _ s(2)])
          (use nz ny min ptrs 3 parent True s(1) in simp_all)
      then show ?thesis using ul [of s2] s(3,4) True ny(2,4) by auto
    next
      case False
      obtain s2 where s: "do {
          s \<leftarrow> rbTransplant s y (tptr (NIL s) ry);
          nz \<leftarrow> rd s z;
          s \<leftarrow> upd s y (right_update (\<lambda>_. right nz));
          ny \<leftarrow> rd s y;
          s \<leftarrow> upd s (right ny) (parent_update (\<lambda>_. y));
          install s z y } = Some s2" "frame A s s2" "focus s2 ry (ds @ RS c l y ky # cs)"
        using unlink_next_deep [OF R [folded lm(3)] 3(1) False A [folded lm(3)]] by blast
      obtain s1 where s1: "do {
          s \<leftarrow> rbTransplant s y (tptr (NIL s) ry);
          nz \<leftarrow> rd s z;
          s \<leftarrow> upd s y (right_update (\<lambda>_. right nz));
          ny \<leftarrow> rd s y;
          upd s (right ny) (parent_update (\<lambda>_. y)) } = Some s1" "install s1 z y = Some s2"
        using s(1) by (auto simp: bind_eq_Some_conv)
      have "rb_unlink s z = Some (s2, right ny, color ny)"
        by (rule rb_unlink_double [OF nz(1) _ _ _ ny(1) _ s1(2)])
          (use nz ny min ptrs 3 parent False s1(1) in simp_all)
      then show ?thesis using ul [of s2] s(2,3) ny(2,4) by auto
    qed
  qed
qed

end
