(* ===== verification/Proc_Tree_Query.thy ===== *)
theory Proc_Tree_Query
  imports Proc_Tree_Delete
begin

text \<open>
  What the users of the process table of \<open>sys/process.c\<close> rely on: the empty table that
  \<open>initProc\<close> builds, \<open>rbSearch\<close>, \<open>inOrderTraversal\<close>, the depth of the tree, and the correctness
  theorems of all operations over the sorted list of processes.
\<close>

section \<open>The empty table\<close>

lemma initProc_empty: "p \<noteq> NULL \<Longrightarrow> table (initProc p n s) []"
  by (auto simp: table_def rep_def initProc_def nodePreparation_def sentinel_def addrs_ok_def
      rbtree_def intro!: exI [of _ Lf])

section \<open>Search\<close>

fun lookup_pid :: "u32 \<Rightarrow> ptree \<Rightarrow> ptr option" where
  "lookup_pid k Lf = None"
| "lookup_pid k (Br c l a k' r) = (if k' = k then Some a else if k < k' then lookup_pid k l else lookup_pid k r)"

lemma lookup_pid_sorted:
  assumes "sorted (map snd (nodes t))"
  shows "case lookup_pid k t of None \<Rightarrow> k \<notin> snd ` set (nodes t) | Some a \<Rightarrow> (a, k) \<in> set (nodes t)"
  using assms
proof (induction t)
  case (Br c l a k' r)
  then have "\<forall>x \<in> snd ` set (nodes l). x \<le> k'" "\<forall>x \<in> snd ` set (nodes r). k' \<le> x"
    by (auto simp: sorted_append)
  moreover have "case lookup_pid k l of None \<Rightarrow> k \<notin> snd ` set (nodes l) | Some a \<Rightarrow> (a, k) \<in> set (nodes l)"
    "case lookup_pid k r of None \<Rightarrow> k \<notin> snd ` set (nodes r) | Some a \<Rightarrow> (a, k) \<in> set (nodes r)"
    using Br by (auto simp: sorted_append)
  ultimately show ?case
    by (auto simp: image_Un split: option.splits)
qed simp

lemma search_loop_lookup:
  assumes "rep s (plug t cs)"
  shows "search_loop s k (tptr (NIL s) t) = Some (case lookup_pid k t of None \<Rightarrow> NIL s | Some a \<Rightarrow> a)"
  using assms
proof (induction t arbitrary: cs)
  case Lf
  then show ?case by (simp add: search_loop.simps)
next
  case (Br c l a k' r)
  have "a \<noteq> NIL s" using rep_addrs(2) [OF Br(3)] by simp
  moreover obtain n where "rd s a = Some n" "pid n = k'" "left n = tptr (NIL s) l"
      "right n = tptr (NIL s) r"
    by (rule rep_node [OF Br(3)]) auto
  moreover have l: "rep s (plug l (LS c a k' r # cs))" and r: "rep s (plug r (RS c l a k' # cs))"
    using Br(3) by simp_all
  moreover note Br.IH(1) [OF l] Br.IH(2) [OF r]
  ultimately show ?case
    by (subst search_loop.simps) simp
qed

lemma rep_lock: "rep (s\<lparr>rbTreeLock := l, iflag := i\<rparr>) t = rep s t"
proof -
  have "is_tree (s\<lparr>rbTreeLock := l, iflag := i\<rparr>) par t = is_tree s par t" for par
    by (intro is_tree_cong) auto
  then show ?thesis by (simp add: rep_def sentinel_def addrs_ok_def)
qed

lemma rbSearch_run:
  assumes "table s xs" and "locked (rbTreeLock s) = 0"
  shows "\<exists>p. rbSearch apic s k = Some (p, s\<lparr>rbTreeLock := (rbTreeLock s)\<lparr>lock_cpu := 0\<rparr>, iflag := True\<rparr>)
    \<and> (if k \<in> snd ` set xs then (p, k) \<in> set xs else p = NIL s)"
proof -
  obtain t where t: "rep s t" "nodes t = xs" "sorted (map snd xs)"
    using assms(1) by (auto simp: table_def)
  define lk where "lk = (rbTreeLock s)\<lparr>locked := 1, lock_cpu := apic\<rparr>"
  have acq: "acquire apic (rbTreeLock s, iflag s) = Some (lk, False)"
    using assms(2) by (simp add: acquire_def xchg_def lk_def)
  have rel: "release apic (lk, False) = ((rbTreeLock s)\<lparr>lock_cpu := 0\<rparr>, True)"
    using assms(2) by (simp add: release_def lk_def)
  let ?s = "s\<lparr>rbTreeLock := lk, iflag := False\<rparr>"
  have "rep ?s (plug t [])" using t(1) by (simp add: rep_lock)
  then have "search_loop ?s k (root s) = Some (case lookup_pid k t of None \<Rightarrow> NIL s | Some a \<Rightarrow> a)"
    using search_loop_lookup [of ?s t "[]" k] rep_root [OF t(1)] by (simp split: option.split)
  moreover have "case lookup_pid k t of None \<Rightarrow> k \<notin> snd ` set xs | Some a \<Rightarrow> (a, k) \<in> set xs"
    using lookup_pid_sorted [of t k] t(3) unfolding t(2) by simp
  ultimately show ?thesis
    using acq rel by (auto simp: rbSearch_def split: option.splits intro: rev_image_eqI)
qed

section \<open>Traversal\<close>

text \<open>The calls of the callback in order, on a state that it threads through.\<close>

fun visit :: "('st \<Rightarrow> ptr \<Rightarrow> 'st option) \<Rightarrow> ptr list \<Rightarrow> 'st \<Rightarrow> 'st option" where
  "visit f [] st = Some st"
| "visit f (p # ps) st = do { st \<leftarrow> f st p; visit f ps st }"

lemma visit_append: "visit f (xs @ ys) st = do { st \<leftarrow> visit f xs st; visit f ys st }"
  by (induction xs arbitrary: st) (auto split: Option.bind_split)

lemma traversal_visit:
  assumes "\<And>st p st'. f st p = Some st' \<Longrightarrow> ps st' = ps st" and "rep (ps st) (plug t cs)"
  shows "inOrderTraversal ps f st (tptr (NIL (ps st)) t) = visit f (addrs t) st"
    and "visit f (addrs t) st = Some st' \<Longrightarrow> ps st' = ps st"
  using assms(2)
proof (induction t arbitrary: st st' cs)
  case Lf
  { case 1 then show ?case by (simp add: inOrderTraversal.simps) }
  { case 2 then show ?case by simp }
next
  case (Br c l a k r)
  { case 1
    have "a \<noteq> NIL (ps st)" using rep_addrs(2) [OF 1] by simp
    moreover obtain n where n: "rd (ps st) a = Some n" "left n = tptr (NIL (ps st)) l"
        "right n = tptr (NIL (ps st)) r"
      by (rule rep_node [OF 1]) auto
    moreover have L: "rep (ps st) (plug l (LS c a k r # cs))"
      and R: "rep (ps st) (plug r (RS c l a k # cs))"
      using 1 by simp_all
    moreover note Br.IH(1) [OF L]
    moreover have "inOrderTraversal ps f st'' (tptr (NIL (ps st)) r) = visit f (addrs r) st''"
      if "ps st'' = ps st" for st''
      using Br.IH(3) [of st'' "RS c l a k # cs"] that R by simp
    moreover have "ps st'' = ps st" if "visit f (addrs l) st = Some st''" for st''
      using Br.IH(2) [OF that L] .
    moreover have "ps st'' = ps st'" if "f st' a = Some st''" for st' st''
      using assms(1) [OF that] .
    ultimately show ?case
      by (subst inOrderTraversal.simps) (auto simp: visit_append split: Option.bind_split)
  }
  { case 2
    then obtain s1 s2 where "visit f (addrs l) st = Some s1" "f s1 a = Some s2"
        "visit f (addrs r) s2 = Some st'"
      by (auto simp: visit_append bind_eq_Some_conv)
    moreover from this have "ps s1 = ps st"
      using Br.IH(2) [of st s1 "LS c a k r # cs"] 2(2) by simp
    moreover from calculation have "ps s2 = ps st" using assms(1) by simp
    ultimately show ?case
      using Br.IH(4) [of s2 st' "RS c l a k # cs"] 2(2) by simp
  }
qed

section \<open>Depth\<close>

fun depth :: "ptree \<Rightarrow> nat" where
  "depth Lf = 0"
| "depth (Br c l a k r) = Suc (max (depth l) (depth r))"

lemma tinv_size: "tinv t n \<Longrightarrow> 2 ^ n \<le> length (nodes t) + 1"
proof (induction t n rule: tinv.induct)
  case (3 l a k r n)
  then show ?case by (cases n) auto
qed (auto intro: le_trans)

lemma tinv_depth: "tinv t n \<Longrightarrow> depth t \<le> 2 * n + (if red t then 1 else 0)"
proof (induction t n rule: tinv.induct)
  case (3 l a k r n)
  then obtain m where m: "n = Suc m" "tinv l m" "tinv r m" by auto
  have "depth l \<le> 2 * m + 1" "depth r \<le> 2 * m + 1"
    using 3 m by (auto split: if_splits dest: order_trans)
  with m show ?case by simp
qed auto

section \<open>Deletion is correct\<close>

lemma node_plug:
  assumes "(z, k) \<in> set (nodes t)"
  obtains c l r cs where "t = plug (Br c l z k r) cs"
  using assms
proof (induction t arbitrary: thesis)
  case (Br c l a k' r)
  from Br.prems(2) consider "(z, k) \<in> set (nodes l)" | "a = z" "k' = k" | "(z, k) \<in> set (nodes r)" by auto
  then show ?case
  proof cases
    case 1
    obtain c' l' r' cs where "l = plug (Br c' l' z k r') cs" using Br.IH(1) 1 by blast
    then show ?thesis by (intro Br.prems(1) [of c' l' r' "cs @ [LS c a k' r]"]) (simp add: plug_append)
  next
    case 2
    then show ?thesis by (intro Br.prems(1) [of c l r "[]"]) simp
  next
    case 3
    obtain c' l' r' cs where "r = plug (Br c' l' z k r') cs" using Br.IH(2) 3 by blast
    then show ?thesis by (intro Br.prems(1) [of c' l' r' "cs @ [RS c l a k']"]) (simp add: plug_append)
  qed
qed simp

lemma rb_delete_node_found:
  assumes R: "rep s t" and rb: "rbtree t" and z: "(z, k) \<in> set (nodes t)"
    and search: "rbSearch apic s0 k = Some (z, s)"
  shows "\<exists>s' t'. rb_delete_node apic s0 k = Some (z, s') \<and> rep s' t' \<and> rbtree t'
    \<and> nodes t' = remove1 (z, k) (nodes t) \<and> frame (insert (NIL s) (tset t)) s s'"
proof -
  let ?A = "insert (NIL s) (tset t)"
  obtain c l r cs where t: "t = plug (Br c l z k r) cs" using z by (rule node_plug)
  have zA: "z \<in> tset t" using z by (force simp: tset_addrs)
  have zN: "z \<noteq> NIL s" using rep_addrs(2) [OF R zA] .
  obtain s1 x d where u: "rb_unlink s z = Some (s1, x, d)" "frame ?A s s1"
      "unlinked (z, k) (nodes t) s1 x d"
    using rb_unlink_correct [of s c l z k r cs ?A] R rb t by auto
  obtain t1 cs1 e ys zs where f: "focus s1 t1 cs1" "x = tptr (NIL s1) t1" "d = colv e"
      "nodes t = ys @ (z, k) # zs" "nodes (plug t1 cs1) = ys @ zs"
      "e = Red \<longrightarrow> rbtree (plug t1 cs1)" "e = Black \<longrightarrow> lacks t1 cs1"
    using u(3) unfolding unlinked_def by blast
  have "distinct (addrs t)" using R by (simp add: rep_def tdist_addrs)
  then have "(z, k) \<notin> set ys" by (auto simp: f(4) image_iff)
  then have rem: "nodes (plug t1 cs1) = remove1 (z, k) (nodes t)"
    using f(4,5) by (simp add: remove1_append)
  have NILs: "NIL s1 = NIL s" by (rule frame_NIL [OF u(2)])
  have R1: "rep s1 (plug t1 cs1)" using f(1) by (simp add: focus_def)
  have sub: "tset (plug t1 cs1) \<subseteq> tset t"
    unfolding tset_addrs [of "plug t1 cs1"] tset_addrs [of t] f(4,5) by auto
  show ?thesis
  proof (cases e)
    case Red
    then show ?thesis
      using search zN u(1,2) f R1 rem by (auto simp: rb_delete_node_def RED_def BLACK_def)
  next
    case Black
    have nil: "NIL s1 \<notin> tset t"
      using NILs rep_addrs(2) [OF R] by auto
    obtain s2 t2 where "rbDeleteFixup s1 x = Some s2" "rep s2 t2" "rbtree t2"
        "nodes t2 = nodes (plug t1 cs1)" "frame ?A s1 s2"
      using rbDeleteFixup_focus [OF f(1) f(7) [rule_format, OF Black] sub nil] f(2) NILs by auto
    then show ?thesis
      using search zN u(1,2) f(3) rem Black by (auto simp: rb_delete_node_def intro: frame_trans)
  qed
qed

lemma sorted_remove: "sorted (map snd xs) \<Longrightarrow> sorted (map snd (remove1 x xs))"
  by (induction xs) (auto dest: notin_set_remove1)

lemma rb_delete_node_run:
  assumes "table s xs" and "locked (rbTreeLock s) = 0"
  defines "s0 \<equiv> s\<lparr>rbTreeLock := (rbTreeLock s)\<lparr>lock_cpu := 0\<rparr>, iflag := True\<rparr>"
  shows "if k \<in> snd ` set xs
    then \<exists>z s'. rb_delete_node apic s k = Some (z, s') \<and> (z, k) \<in> set xs \<and> table s' (remove1 (z, k) xs)
      \<and> frame (insert (NIL s) (fst ` set xs)) s0 s'
    else rb_delete_node apic s k = Some (NULL, s0)"
proof -
  obtain t where t: "rep s t" "rbtree t" "nodes t = xs" and sorted: "sorted (map snd xs)"
    using assms(1) by (auto simp: table_def)
  obtain p where p: "rbSearch apic s k = Some (p, s0)"
      "if k \<in> snd ` set xs then (p, k) \<in> set xs else p = NIL s"
    using rbSearch_run [OF assms(1,2), of apic k] unfolding s0_def by auto
  have R0: "rep s0 t" using t(1) by (simp add: s0_def rep_lock)
  have NIL0: "NIL s0 = NIL s" by (simp add: s0_def)
  show ?thesis
  proof (cases "k \<in> snd ` set xs")
    case True
    with p have "(p, k) \<in> set (nodes t)" using t(3) by simp
    from rb_delete_node_found [OF R0 t(2) this p(1)] obtain s' t' where
      "rb_delete_node apic s k = Some (p, s')" "rep s' t'" "rbtree t'" "nodes t' = remove1 (p, k) xs"
      "frame (insert (NIL s) (fst ` set xs)) s0 s'"
      by (auto simp: t(3) NIL0 tset_addrs)
    moreover have "table s' (remove1 (p, k) xs)"
      using calculation sorted_remove [OF sorted] unfolding table_def by blast
    ultimately show ?thesis using True p(2) by auto
  next
    case False
    then show ?thesis using p NIL0 by (simp add: rb_delete_node_def)
  qed
qed

section \<open>A concrete table\<close>

text \<open>Three processes with the pids 1, 5 and 9, the first and the last one red.\<close>

definition blank :: process where
  "blank = \<lparr>pid = 0, filename = 0, pageDirectory = 0, isUserProc = 0, color = 0, parent = 0,
     left = 0, right = 0, head_thread = 0, tail_thread = 0\<rparr>"

definition three :: pstate where
  "three = \<lparr>procs = (\<lambda>_. None)
       (16 \<mapsto> blank\<lparr>color := BLACK, left := 16, right := 16\<rparr>,
        32 \<mapsto> blank\<lparr>pid := 5, color := BLACK, left := 48, right := 64\<rparr>,
        48 \<mapsto> blank\<lparr>pid := 1, color := RED, parent := 32, left := 16, right := 16\<rparr>,
        64 \<mapsto> blank\<lparr>pid := 9, color := RED, parent := 32, left := 16, right := 16\<rparr>,
        80 \<mapsto> blank\<lparr>pid := 7, color := RED\<rparr>),
     root = 32, NIL = 16, UProcessID = 100, KProcessID = 9, threadID = 9,
     rbTreeLock = initLock ''RB tree lock'', iflag = True\<rparr>"

lemma three_table: "table three [(48, 1), (32, 5), (64, 9)]"
  unfolding table_def
  by (intro conjI exI [of _ "Br Black (Br Red Lf 48 1 Lf) 32 5 (Br Red Lf 64 9 Lf)"])
    (simp_all add: three_def blank_def rep_def sentinel_def addrs_ok_def rbtree_def NULL_def
      RED_def BLACK_def exI [of _ 1])

section \<open>The process table is correct\<close>

lemma rbInsert_table:
  assumes "table s xs" and "a \<notin> fst ` set xs" and "a \<noteq> NULL" and "a \<noteq> NIL s"
    and "procs s a = Some n"
  shows "\<exists>s'. rbInsert s a = Some s' \<and> table s' (add_process a (pid n) xs)
    \<and> frame (insert a (fst ` set xs)) s s'"
proof -
  obtain t where t: "rep s t" "rbtree t" "nodes t = xs" and sorted: "sorted (map snd xs)"
    using assms(1) by (auto simp: table_def)
  have "tset t = fst ` set xs" by (simp add: tset_addrs t(3))
  then show ?thesis
    using rbInsert_rep [OF t(1) _ assms(3-5)] assms(2) rbtree_insert [OF t(2)]
      nodes_insert [of t a "pid n"] sorted t(3) sorted_add_process [OF sorted]
    by (fastforce simp: table_def)
qed

text \<open>C1: \<open>rbInsert\<close> of a node that is not in the tree ends without a fault, leaves a red-black
  tree that holds the same processes plus the new one, placed behind every process whose pid is
  not larger, and changes nothing but colours and links of the nodes of the tree.\<close>

theorem rbInsert_correct:
  assumes "table s xs" and "a \<notin> fst ` set xs" and "a \<noteq> NULL" and "a \<noteq> NIL s"
    and "procs s a = Some n"
  shows "\<exists>s'. rbInsert s a = Some s' \<and> table s' (add_process a (pid n) xs)
    \<and> frame (insert a (fst ` set xs)) s s'"
  using assms by (rule rbInsert_table)

theorem rbInsert_correct_witness:
  "\<exists>s. rbInsert three 80 = Some s \<and> table s [(48, 1), (32, 5), (80, 7), (64, 9)]"
  using rbInsert_correct [OF three_table, of 80 "blank\<lparr>pid := 7, color := RED\<rparr>"]
  by (auto simp: three_def blank_def NULL_def add_process_def)

text \<open>C31: \<open>rbSearch\<close> with the tree lock free returns a node with the given pid, or \<open>NIL\<close> exactly
  when no process has it, and gives the lock back; interrupts are enabled afterwards.\<close>

theorem rbSearch_correct:
  assumes "table s xs" and "locked (rbTreeLock s) = 0"
  shows "\<exists>p. rbSearch apic s k = Some (p, s\<lparr>rbTreeLock := (rbTreeLock s)\<lparr>lock_cpu := 0\<rparr>, iflag := True\<rparr>)
    \<and> (if k \<in> snd ` set xs then (p, k) \<in> set xs else p = NIL s)"
  using assms by (rule rbSearch_run)

theorem rbSearch_correct_witness:
  "rbSearch 2 three 9 = Some (64, three\<lparr>iflag := True\<rparr>) \<and> rbSearch 2 three 4 = Some (16, three\<lparr>iflag := True\<rparr>)"
  using rbSearch_correct [OF three_table, of 2 9] rbSearch_correct [OF three_table, of 2 4]
  by (auto simp: three_def initLock_def)

text \<open>\<open>inOrderTraversal\<close> with a callback that leaves the process table alone calls it for
  every process once, in ascending order of the pids, and stops early only when a call does.\<close>

theorem inOrderTraversal_visits_ascending:
  assumes "table (ps st) xs" and "\<And>st p st'. f st p = Some st' \<Longrightarrow> ps st' = ps st"
  shows "inOrderTraversal ps f st (root (ps st)) = visit f (map fst xs) st"
proof -
  obtain t where t: "rep (ps st) t" "nodes t = xs"
    using assms(1) by (auto simp: table_def)
  then show ?thesis
    using traversal_visit(1) [of f ps st t "[]"] assms(2) rep_root [OF t(1)] by simp
qed

theorem inOrderTraversal_visits_ascending_witness:
  "inOrderTraversal fst (\<lambda>(s, out) p. Some (s, out @ [p])) (three, []) (root three) = Some (three, [48, 32, 64])"
  using inOrderTraversal_visits_ascending [of fst "(three, [])" _ "\<lambda>(s, out) p. Some (s, out @ [p])"]
    three_table by auto

text \<open>The tree is balanced: with \<open>n\<close> processes no path from the root is longer than twice the
  binary logarithm of \<open>n + 1\<close> plus one, which bounds the loops of \<open>rbSearch\<close> and \<open>rbInsert\<close>.\<close>

theorem table_depth:
  assumes "table s xs"
  shows "\<exists>t. rep s t \<and> nodes t = xs \<and> 2 ^ (depth t div 2) \<le> length xs + 1"
proof -
  obtain t n where t: "rep s t" "nodes t = xs" "tinv t n" "\<not> red t"
    using assms by (auto simp: table_def rbtree_def)
  then have "(2::nat) ^ (depth t div 2) \<le> 2 ^ n"
    using tinv_depth [OF t(3)] by (intro power_increasing) auto
  also have "\<dots> \<le> length xs + 1"
    using tinv_size [OF t(3)] t(2) by simp
  finally show ?thesis using t by blast
qed

theorem table_depth_witness:
  "\<exists>t. rep three t \<and> length (nodes t) = 3 \<and> 2 ^ (depth t div 2) \<le> (4::nat)"
  using table_depth [OF three_table] by auto

text \<open>\<open>initProc\<close> builds an empty table, whatever the memory for the sentinel held before.\<close>

theorem initProc_table_empty:
  assumes "p \<noteq> NULL"
  shows "table (initProc p n s) [] \<and> locked (rbTreeLock (initProc p n s)) = 0"
  using initProc_empty [OF assms] by (simp add: initProc_def nodePreparation_def initLock_def)

theorem initProc_table_empty_witness: "table (initProc 16 blank three) []"
  using initProc_table_empty [of 16 blank three] by (simp add: NULL_def)

end
