(* ===== verification/Framebuffer.thy ===== *)
theory Framebuffer
  imports Kernel_Prelude
begin

text \<open>
  The linear framebuffer: \<open>drivers/video/vbe/vbe.c\<close>, the bitmap font of \<open>font.c\<close> and the windows of
  \<open>wm/window.c\<close>. The framebuffer is the array of 32-bit pixels at \<open>0xE0000000\<close>, a map from its
  32-bit index. C characters are bytes, read as signed where the code compares them; a C string is
  the list of its bytes before the terminating zero.
\<close>

type_synonym cstr = "u8 list"
type_synonym pixels = "u32 \<Rightarrow> u32"

section \<open>The font\<close>

definition FONT_WIDTH :: u32 where "FONT_WIDTH = 8"
definition FONT_HEIGHT :: u32 where "FONT_HEIGHT = 8"

definition font :: "u8 list list" where
  "font =
    [[0x00, 0x00, 0x00, 0x00, 0x00, 0x00, 0x00, 0x00],
     [0x18, 0x3C, 0x3C, 0x18, 0x18, 0x00, 0x18, 0x00],
     [0x36, 0x36, 0x24, 0x00, 0x00, 0x00, 0x00, 0x00],
     [0x36, 0x36, 0x7F, 0x36, 0x7F, 0x36, 0x36, 0x00],
     [0x18, 0x3E, 0x03, 0x1E, 0x30, 0x1F, 0x18, 0x00],
     [0x00, 0x63, 0x33, 0x18, 0x0C, 0x66, 0x63, 0x00],
     [0x1C, 0x36, 0x1C, 0x6E, 0x3B, 0x33, 0x6E, 0x00],
     [0x06, 0x06, 0x03, 0x00, 0x00, 0x00, 0x00, 0x00],
     [0x18, 0x0C, 0x06, 0x06, 0x06, 0x0C, 0x18, 0x00],
     [0x06, 0x0C, 0x18, 0x18, 0x18, 0x0C, 0x06, 0x00],
     [0x00, 0x66, 0x3C, 0xFF, 0x3C, 0x66, 0x00, 0x00],
     [0x00, 0x18, 0x18, 0x7E, 0x18, 0x18, 0x00, 0x00],
     [0x00, 0x00, 0x00, 0x00, 0x00, 0x18, 0x18, 0x0C],
     [0x00, 0x00, 0x00, 0x7E, 0x00, 0x00, 0x00, 0x00],
     [0x00, 0x00, 0x00, 0x00, 0x00, 0x18, 0x18, 0x00],
     [0x60, 0x30, 0x18, 0x0C, 0x06, 0x03, 0x01, 0x00],
     [0x3E, 0x63, 0x73, 0x7B, 0x6F, 0x67, 0x3E, 0x00],
     [0x0C, 0x0E, 0x0F, 0x0C, 0x0C, 0x0C, 0x3F, 0x00],
     [0x3E, 0x63, 0x30, 0x1C, 0x06, 0x63, 0x7F, 0x00],
     [0x3E, 0x63, 0x30, 0x1C, 0x30, 0x63, 0x3E, 0x00],
     [0x1C, 0x1E, 0x1B, 0x19, 0x7F, 0x18, 0x1C, 0x00],
     [0x7F, 0x03, 0x3F, 0x60, 0x30, 0x63, 0x3E, 0x00],
     [0x3E, 0x63, 0x03, 0x3F, 0x63, 0x63, 0x3E, 0x00],
     [0x7F, 0x63, 0x30, 0x18, 0x0C, 0x0C, 0x0C, 0x00],
     [0x3E, 0x63, 0x63, 0x3E, 0x63, 0x63, 0x3E, 0x00],
     [0x3E, 0x63, 0x63, 0x7E, 0x60, 0x63, 0x3E, 0x00],
     [0x00, 0x18, 0x18, 0x00, 0x00, 0x18, 0x18, 0x00],
     [0x00, 0x18, 0x18, 0x00, 0x00, 0x18, 0x18, 0x0C],
     [0x30, 0x18, 0x0C, 0x06, 0x0C, 0x18, 0x30, 0x00],
     [0x00, 0x00, 0x7E, 0x00, 0x00, 0x7E, 0x00, 0x00],
     [0x06, 0x0C, 0x18, 0x30, 0x18, 0x0C, 0x06, 0x00],
     [0x3E, 0x63, 0x30, 0x18, 0x18, 0x00, 0x18, 0x00],
     [0x3E, 0x63, 0x7B, 0x7B, 0x7B, 0x03, 0x3E, 0x00],
     [0x18, 0x3C, 0x66, 0x66, 0x7E, 0x66, 0x66, 0x00],
     [0x3F, 0x66, 0x66, 0x3E, 0x66, 0x66, 0x3F, 0x00],
     [0x3C, 0x66, 0x03, 0x03, 0x03, 0x66, 0x3C, 0x00],
     [0x1F, 0x36, 0x66, 0x66, 0x66, 0x36, 0x1F, 0x00],
     [0x7F, 0x03, 0x03, 0x1F, 0x03, 0x03, 0x7F, 0x00],
     [0x7F, 0x03, 0x03, 0x1F, 0x03, 0x03, 0x03, 0x00],
     [0x3E, 0x63, 0x03, 0x7B, 0x63, 0x63, 0x3E, 0x00],
     [0x66, 0x66, 0x66, 0x7E, 0x66, 0x66, 0x66, 0x00],
     [0x3C, 0x18, 0x18, 0x18, 0x18, 0x18, 0x3C, 0x00],
     [0x78, 0x30, 0x30, 0x30, 0x30, 0x33, 0x1E, 0x00],
     [0x67, 0x36, 0x1E, 0x0E, 0x1E, 0x36, 0x67, 0x00],
     [0x03, 0x03, 0x03, 0x03, 0x03, 0x03, 0x7F, 0x00],
     [0x63, 0x77, 0x7F, 0x7F, 0x6B, 0x63, 0x63, 0x00],
     [0x63, 0x67, 0x6F, 0x7F, 0x7B, 0x73, 0x63, 0x00],
     [0x3C, 0x66, 0x66, 0x66, 0x66, 0x66, 0x3C, 0x00],
     [0x3F, 0x66, 0x66, 0x3F, 0x03, 0x03, 0x03, 0x00],
     [0x3C, 0x66, 0x66, 0x66, 0x76, 0x3C, 0x70, 0x00],
     [0x3F, 0x66, 0x66, 0x3F, 0x1E, 0x36, 0x63, 0x00],
     [0x3E, 0x63, 0x07, 0x1C, 0x70, 0x63, 0x3E, 0x00],
     [0x7E, 0x18, 0x18, 0x18, 0x18, 0x18, 0x18, 0x00],
     [0x66, 0x66, 0x66, 0x66, 0x66, 0x66, 0x3E, 0x00],
     [0x66, 0x66, 0x66, 0x66, 0x66, 0x3C, 0x18, 0x00],
     [0x63, 0x63, 0x63, 0x6B, 0x7F, 0x77, 0x63, 0x00],
     [0x63, 0x63, 0x36, 0x1C, 0x1C, 0x36, 0x63, 0x00],
     [0x66, 0x66, 0x66, 0x3C, 0x18, 0x18, 0x18, 0x00],
     [0x7F, 0x63, 0x31, 0x18, 0x0C, 0x46, 0x7F, 0x00],
     [0x1E, 0x06, 0x06, 0x06, 0x06, 0x06, 0x1E, 0x00],
     [0x01, 0x03, 0x06, 0x0C, 0x18, 0x30, 0x60, 0x00],
     [0x1E, 0x18, 0x18, 0x18, 0x18, 0x18, 0x1E, 0x00],
     [0x08, 0x1C, 0x36, 0x63, 0x00, 0x00, 0x00, 0x00],
     [0x00, 0x00, 0x00, 0x00, 0x00, 0x00, 0x00, 0xFF],
     [0x0C, 0x0C, 0x18, 0x00, 0x00, 0x00, 0x00, 0x00],
     [0x00, 0x00, 0x3C, 0x60, 0x7C, 0x66, 0x7C, 0x00],
     [0x03, 0x03, 0x3B, 0x67, 0x63, 0x63, 0x3F, 0x00],
     [0x00, 0x00, 0x3E, 0x63, 0x03, 0x63, 0x3E, 0x00],
     [0x60, 0x60, 0x7E, 0x63, 0x63, 0x63, 0x7E, 0x00],
     [0x00, 0x00, 0x3E, 0x63, 0x7F, 0x03, 0x3E, 0x00],
     [0x38, 0x6C, 0x0C, 0x1F, 0x0C, 0x0C, 0x0C, 0x00],
     [0x00, 0x00, 0x7E, 0x63, 0x63, 0x7E, 0x60, 0x3E],
     [0x03, 0x03, 0x3B, 0x67, 0x63, 0x63, 0x63, 0x00],
     [0x18, 0x00, 0x1C, 0x18, 0x18, 0x18, 0x3C, 0x00],
     [0x30, 0x00, 0x3C, 0x30, 0x30, 0x30, 0x33, 0x1E],
     [0x03, 0x03, 0x63, 0x33, 0x1B, 0x0F, 0x1B, 0x00],
     [0x1C, 0x18, 0x18, 0x18, 0x18, 0x18, 0x3C, 0x00],
     [0x00, 0x00, 0x7F, 0x7F, 0x6B, 0x6B, 0x63, 0x00],
     [0x00, 0x00, 0x3B, 0x67, 0x63, 0x63, 0x63, 0x00],
     [0x00, 0x00, 0x3E, 0x63, 0x63, 0x63, 0x3E, 0x00],
     [0x00, 0x00, 0x3F, 0x63, 0x63, 0x3F, 0x03, 0x03],
     [0x00, 0x00, 0x7E, 0x63, 0x63, 0x7E, 0x60, 0x60],
     [0x00, 0x00, 0x3B, 0x67, 0x03, 0x03, 0x03, 0x00],
     [0x00, 0x00, 0x7E, 0x03, 0x3E, 0x60, 0x3F, 0x00],
     [0x00, 0x0C, 0x0C, 0x3F, 0x0C, 0x6C, 0x38, 0x00],
     [0x00, 0x00, 0x63, 0x63, 0x63, 0x63, 0x7E, 0x00],
     [0x00, 0x00, 0x63, 0x63, 0x63, 0x36, 0x1C, 0x00],
     [0x00, 0x00, 0x63, 0x63, 0x6B, 0x7F, 0x36, 0x00],
     [0x00, 0x00, 0x63, 0x36, 0x1C, 0x36, 0x63, 0x00],
     [0x00, 0x00, 0x63, 0x63, 0x63, 0x7E, 0x60, 0x3E],
     [0x00, 0x00, 0x3F, 0x31, 0x18, 0x4C, 0x3F, 0x00],
     [0x38, 0x0C, 0x0C, 0x07, 0x0C, 0x0C, 0x38, 0x00],
     [0x18, 0x18, 0x18, 0x00, 0x18, 0x18, 0x18, 0x00],
     [0x07, 0x0C, 0x0C, 0x38, 0x0C, 0x0C, 0x07, 0x00],
     [0x6E, 0x3B, 0x00, 0x00, 0x00, 0x00, 0x00, 0x00],
     [0x00, 0x00, 0x00, 0x00, 0x00, 0x00, 0x00, 0x00]]"

definition font_get_glyph :: "u8 \<Rightarrow> u8 list" where
  "font_get_glyph c =
     (if sint c < 0x20 \<or> sint c > 0x7E then font ! 0 else font ! unat (c - 0x20))"

section \<open>Drawing\<close>

definition COLOR_BLACK :: u32 where "COLOR_BLACK = 0x000000"
definition COLOR_WHITE :: u32 where "COLOR_WHITE = 0xFFFFFF"
definition COLOR_LIGHT_GREY :: u32 where "COLOR_LIGHT_GREY = 0xD3D3D3"

record vbe_info =
  framebuffer_addr :: u64
  framebuffer_pitch :: u32
  framebuffer_width :: u32
  framebuffer_height :: u32
  framebuffer_bpp :: u8
  background_color :: u32

definition draw_pixel :: "u32 \<Rightarrow> u32 \<Rightarrow> u32 \<Rightarrow> vbe_info \<Rightarrow> pixels \<Rightarrow> pixels" where
  "draw_pixel x y color v fb =
     (if x \<ge> framebuffer_width v \<or> y \<ge> framebuffer_height v then fb
      else fb(y * (framebuffer_pitch v div 4) + x := color))"

definition draw_rectangle :: "u32 \<Rightarrow> u32 \<Rightarrow> u32 \<Rightarrow> u32 \<Rightarrow> u32 \<Rightarrow> vbe_info \<Rightarrow> pixels \<Rightarrow> pixels" where
  "draw_rectangle x y width height color v fb =
     fold (\<lambda>i. fold (\<lambda>j. draw_pixel (x + of_nat j) (y + of_nat i) color v) [0..<unat width])
       [0..<unat height] fb"

definition draw_char :: "u32 \<Rightarrow> u32 \<Rightarrow> u8 \<Rightarrow> u32 \<Rightarrow> vbe_info \<Rightarrow> pixels \<Rightarrow> pixels" where
  "draw_char x y c color v fb =
     (let glyph = font_get_glyph c in
      fold (\<lambda>i. fold (\<lambda>j fb. if glyph ! i AND push_bit j 1 \<noteq> 0
                            then draw_pixel (x + of_nat j) (y + of_nat i) color v fb else fb)
                  [0..<unat FONT_WIDTH])
        [0..<unat FONT_HEIGHT] fb)"

fun draw_string :: "u32 \<Rightarrow> u32 \<Rightarrow> cstr \<Rightarrow> u32 \<Rightarrow> vbe_info \<Rightarrow> pixels \<Rightarrow> pixels" where
  "draw_string x y [] color v fb = fb"
| "draw_string x y (c # str) color v fb =
     draw_string (x + FONT_WIDTH) y str color v (draw_char x y c color v fb)"

text \<open>The two global variables of \<open>stdiok.c\<close> and \<open>globalvbeinfo\<close>, which is a null pointer until
  \<open>init_vbe\<close> has run.\<close>

record screen =
  cursor_x :: u32
  cursor_y :: u32
  globalvbeinfo :: "vbe_info option"
  fb :: pixels

definition get_background_color :: "screen \<Rightarrow> u32 option" where
  "get_background_color s = map_option background_color (globalvbeinfo s)"

definition clear_screen_sys_2 :: "u32 \<Rightarrow> screen \<Rightarrow> screen option" where
  "clear_screen_sys_2 color s = do {
     v \<leftarrow> globalvbeinfo s;
     Some (s\<lparr>cursor_x := 0, cursor_y := 0,
             fb := draw_rectangle 0 0 (framebuffer_width v) (framebuffer_height v) color v (fb s),
             globalvbeinfo := Some (v\<lparr>background_color := color\<rparr>)\<rparr>)
   }"

definition clear_screen :: "u32 \<Rightarrow> vbe_info \<Rightarrow> screen \<Rightarrow> screen option" where
  "clear_screen color vbeinfo s = do {
     let s = s\<lparr>fb := draw_rectangle 0 0 (framebuffer_width vbeinfo) (framebuffer_height vbeinfo) color
                      vbeinfo (fb s)\<rparr>;
     v \<leftarrow> globalvbeinfo s;
     Some (s\<lparr>globalvbeinfo := Some (v\<lparr>background_color := color\<rparr>)\<rparr>)
   }"

definition set_vbe_info :: "vbe_info \<Rightarrow> screen \<Rightarrow> screen" where
  "set_vbe_info v s = s\<lparr>globalvbeinfo := Some v\<rparr>"

definition init_vbe :: "vbe_info \<Rightarrow> screen \<Rightarrow> screen option" where
  "init_vbe vbeinfo s = do {
     s \<leftarrow> clear_screen COLOR_BLACK vbeinfo (set_vbe_info vbeinfo s);
     v \<leftarrow> globalvbeinfo s;
     Some (s\<lparr>globalvbeinfo := Some (v\<lparr>background_color := COLOR_BLACK\<rparr>)\<rparr>)
   }"

section \<open>Windows\<close>

text \<open>\<open>strncpy\<close> of \<open>window.c\<close>: \<open>dest\<close> and \<open>src\<close> are arrays; reading or writing outside is \<open>None\<close>.\<close>

function strncpy_loop :: "u8 list \<Rightarrow> u8 list \<Rightarrow> int \<Rightarrow> nat \<Rightarrow> (u8 list \<times> nat) option" where
  "strncpy_loop dest src count i =
     (if int i < count - 1 then
        (if i \<ge> length src then None
         else if src ! i = 0 then Some (dest, i)
         else if i \<ge> length dest then None
         else strncpy_loop (dest[i := src ! i]) src count (Suc i))
      else Some (dest, i))"
  by pat_completeness auto
termination
  by (relation "measure (\<lambda>(dest, src, count, i). nat (count - int i))") auto

declare strncpy_loop.simps [simp del]

definition strncpy :: "u8 list \<Rightarrow> u8 list \<Rightarrow> int \<Rightarrow> u8 list option" where
  "strncpy dest src count = do {
     (dest, i) \<leftarrow> strncpy_loop dest src count 0;
     if i < length dest then Some (dest[i := 0]) else None
   }"

record window =
  win_x :: u32
  win_y :: u32
  win_width :: u32
  win_height :: u32
  win_background_color :: u32
  win_title :: "u8 list"
  win_buffer :: "u32 list"

definition cstring :: "u8 list \<Rightarrow> cstr" where
  "cstring bytes = takeWhile (\<lambda>b. b \<noteq> 0) bytes"

definition window_draw :: "window \<Rightarrow> vbe_info \<Rightarrow> pixels \<Rightarrow> pixels" where
  "window_draw w v px =
     draw_string (win_x w + 5) (win_y w + 5) (cstring (win_title w)) COLOR_BLACK v
       (draw_rectangle (win_x w) (win_y w) (win_width w) (win_height w) (win_background_color w) v px)"

definition window_move :: "window \<Rightarrow> u32 \<Rightarrow> u32 \<Rightarrow> vbe_info \<Rightarrow> screen \<Rightarrow> (window \<times> screen) option" where
  "window_move w new_x new_y vbeinfo s = do {
     s \<leftarrow> clear_screen COLOR_LIGHT_GREY vbeinfo s;
     let w = w\<lparr>win_x := new_x, win_y := new_y\<rparr>;
     Some (w, s\<lparr>fb := window_draw w vbeinfo (fb s)\<rparr>)
   }"

text \<open>
  \<open>window_create\<close> with both calls of \<open>malloc\<close> successful: \<open>raw\<close> is what the 256 bytes of \<open>title\<close>
  held before, and the pixel buffer has room for \<open>width * height\<close> pixels in 32-bit arithmetic.
\<close>

definition window_create :: "u32 \<Rightarrow> u32 \<Rightarrow> u32 \<Rightarrow> u32 \<Rightarrow> u32 \<Rightarrow> u8 list \<Rightarrow> u8 list \<Rightarrow> vbe_info \<Rightarrow> screen
    \<Rightarrow> (window \<times> screen) option" where
  "window_create x y width height color title raw vbeinfo s = do {
     t \<leftarrow> strncpy raw title 255;
     let w = \<lparr>win_x = x, win_y = y, win_width = width, win_height = height,
              win_background_color = color, win_title = t,
              win_buffer = replicate (unat (width * height)) color\<rparr>;
     Some (w, s\<lparr>fb := window_draw w vbeinfo (fb s)\<rparr>)
   }"


section \<open>Pixels\<close>

definition pixel_index :: "vbe_info \<Rightarrow> u32 \<Rightarrow> u32 \<Rightarrow> u32" where
  "pixel_index v x y = y * (framebuffer_pitch v div 4) + x"

definition on_screen :: "vbe_info \<Rightarrow> u32 \<Rightarrow> u32 \<Rightarrow> bool" where
  "on_screen v x y \<longleftrightarrow> x < framebuffer_width v \<and> y < framebuffer_height v"

text \<open>The lines do not overlap, and the whole screen is addressed without wrap-around.\<close>

definition screen_ok :: "vbe_info \<Rightarrow> bool" where
  "screen_ok v \<longleftrightarrow> framebuffer_width v \<le> framebuffer_pitch v div 4
     \<and> unat (framebuffer_height v) * unat (framebuffer_pitch v div 4) \<le> 4294967296"

lemma draw_pixel_index:
  "draw_pixel x y color v f = (if on_screen v x y then f(pixel_index v x y := color) else f)"
  by (auto simp: draw_pixel_def on_screen_def pixel_index_def not_less [symmetric])

lemma unat_pixel_index:
  assumes "screen_ok v" and "on_screen v x y"
  shows "unat (pixel_index v x y) = unat y * unat (framebuffer_pitch v div 4) + unat x"
    and "unat x < unat (framebuffer_pitch v div 4)"
proof -
  let ?P = "unat (framebuffer_pitch v div 4)"
  have "framebuffer_width v \<le> framebuffer_pitch v div 4" "x < framebuffer_width v"
    using assms by (auto simp: screen_ok_def on_screen_def)
  then show x: "unat x < ?P" by (simp add: word_less_nat_alt word_le_nat_alt)
  have "Suc (unat y) \<le> unat (framebuffer_height v)"
    using assms by (simp add: on_screen_def word_less_nat_alt)
  then have "Suc (unat y) * ?P \<le> unat (framebuffer_height v) * ?P"
    by (rule mult_le_mono1)
  then have "unat y * ?P + unat x < 4294967296"
    using assms(1) x by (simp add: screen_ok_def)
  then show "unat (pixel_index v x y) = unat y * ?P + unat x"
    by (simp add: pixel_index_def unat_word_ariths)
qed

lemma pixel_index_inj:
  assumes "screen_ok v" and "on_screen v x y" and "on_screen v x' y'"
    and "pixel_index v x y = pixel_index v x' y'"
  shows "x = x' \<and> y = y'"
proof -
  let ?P = "unat (framebuffer_pitch v div 4)"
  have eq: "unat y * ?P + unat x = unat y' * ?P + unat x'" and lt: "unat x < ?P" "unat x' < ?P"
    using unat_pixel_index [OF assms(1,2)] unat_pixel_index [OF assms(1,3)] assms(4) by auto
  have "unat y = (unat y * ?P + unat x) div ?P" "unat y' = (unat y' * ?P + unat x') div ?P"
    using lt by simp_all
  then have "unat y = unat y'" using eq by simp
  with eq show ?thesis by (auto simp: word_unat_eq_iff)
qed

lemma draw_row:
  "fold (\<lambda>j. draw_pixel (X j) y color v) js f q
    = (if \<exists>j \<in> set js. on_screen v (X j) y \<and> q = pixel_index v (X j) y then color else f q)"
  by (induction js arbitrary: f) (auto simp: draw_pixel_index)

lemma draw_rows:
  "fold (\<lambda>i. fold (\<lambda>j. draw_pixel (X j) (Y i) color v) js) is f q
    = (if \<exists>i \<in> set is. \<exists>j \<in> set js. on_screen v (X j) (Y i) \<and> q = pixel_index v (X j) (Y i)
       then color else f q)"
  by (induction "is" arbitrary: f) (auto simp: draw_row)

lemma word_interval:
  fixes x p :: u32
  assumes "unat x + n \<le> 4294967296"
  shows "(\<exists>j<n. x + of_nat j = p) \<longleftrightarrow> unat x \<le> unat p \<and> unat p < unat x + n"
proof -
  have u: "unat (x + of_nat j) = unat x + j" if "j < n" for j
    using that assms by (simp add: unat_word_ariths unat_of_nat)
  show ?thesis
  proof
    assume "\<exists>j<n. x + of_nat j = p"
    then show "unat x \<le> unat p \<and> unat p < unat x + n" using u by auto
  next
    assume a: "unat x \<le> unat p \<and> unat p < unat x + n"
    then have "unat (x + of_nat (unat p - unat x)) = unat p" using u [of "unat p - unat x"] by auto
    then have "x + of_nat (unat p - unat x) = p" by (simp add: word_unat_eq_iff)
    then show "\<exists>j<n. x + of_nat j = p" using a by (intro exI [of _ "unat p - unat x"]) auto
  qed
qed

text \<open>\<open>draw_rectangle\<close> gives exactly the pixels of the rectangle that are on the screen the
  colour and leaves every other pixel alone, for any rectangle whose corners fit into 32 bits.\<close>

theorem draw_rectangle_pixels:
  assumes "screen_ok v" and "on_screen v px py"
    and "unat x + unat width \<le> 4294967296" and "unat y + unat height \<le> 4294967296"
  shows "draw_rectangle x y width height color v f (pixel_index v px py)
    = (if unat x \<le> unat px \<and> unat px < unat x + unat width
          \<and> unat y \<le> unat py \<and> unat py < unat y + unat height
       then color else f (pixel_index v px py))"
proof -
  have "(\<exists>i \<in> set [0..<unat height]. \<exists>j \<in> set [0..<unat width]. on_screen v (x + of_nat j) (y + of_nat i)
      \<and> pixel_index v px py = pixel_index v (x + of_nat j) (y + of_nat i))
    \<longleftrightarrow> (\<exists>i<unat height. y + of_nat i = py) \<and> (\<exists>j<unat width. x + of_nat j = px)" (is "?L \<longleftrightarrow> ?R")
  proof
    assume ?L
    then obtain i j where "i < unat height" "j < unat width" "on_screen v (x + of_nat j) (y + of_nat i)"
        "pixel_index v px py = pixel_index v (x + of_nat j) (y + of_nat i)"
      by auto
    moreover from this have "px = x + of_nat j \<and> py = y + of_nat i"
      using pixel_index_inj [OF assms(1,2)] by blast
    ultimately show ?R by blast
  next
    assume ?R
    then obtain i j where "i < unat height" "y + of_nat i = py" "j < unat width" "x + of_nat j = px"
      by blast
    then show ?L
      using assms(2) by (intro bexI [of _ i] bexI [of _ j]) auto
  qed
  then show ?thesis
    using word_interval [OF assms(3), of px] word_interval [OF assms(4), of py]
    by (simp add: draw_rectangle_def draw_rows)
qed

definition vga_mode :: vbe_info where
  "vga_mode = \<lparr>framebuffer_addr = 0xFD000000, framebuffer_pitch = 4096, framebuffer_width = 1024,
     framebuffer_height = 768, framebuffer_bpp = 32, background_color = 0\<rparr>"

theorem draw_rectangle_pixels_witness:
  "draw_rectangle 1020 10 8 4 7 vga_mode (\<lambda>_. 3) (pixel_index vga_mode 1023 13) = 7
   \<and> draw_rectangle 1020 10 8 4 7 vga_mode (\<lambda>_. 3) (pixel_index vga_mode 0 13) = 3"
  using draw_rectangle_pixels [of vga_mode 1023 13 1020 8 10 4 7 "\<lambda>_. 3"]
    draw_rectangle_pixels [of vga_mode 0 13 1020 8 10 4 7 "\<lambda>_. 3"]
  by (simp add: vga_mode_def screen_ok_def on_screen_def)

section \<open>Titles\<close>

lemma cstring_shorter: "0 \<in> set src \<Longrightarrow> length (cstring src) < length src"
  by (induction src) (auto simp: cstring_def)

lemma cstring_append_zero: "\<forall>b \<in> set xs. b \<noteq> 0 \<Longrightarrow> cstring (xs @ 0 # ys) = xs"
  by (induction xs) (auto simp: cstring_def)

lemma take_cstring_nonzero: "\<forall>b \<in> set (take k (cstring src)). b \<noteq> 0"
  by (auto simp: cstring_def dest!: in_set_takeD set_takeWhileD)

lemma strncpy_loop_copies:
  assumes "i \<le> k" and "int k = min (count - 1) (int (length (cstring src)))" and "k < length dest"
    and "length (cstring src) < length src"
  shows "strncpy_loop dest src count i = Some (take i dest @ drop i (take k src) @ drop k dest, k)"
  using assms(1,3)
proof (induction "k - i" arbitrary: i dest)
  case 0
  then have i: "i = k" by simp
  show ?case
  proof (cases "int k < count - 1")
    case True
    then have "k = length (cstring src)" using assms(2) by simp
    then have "src ! k = 0"
      using nth_length_takeWhile [of "\<lambda>b. b \<noteq> 0" src] assms(4) by (simp add: cstring_def)
    then show ?thesis
      using i True assms(4) 0 \<open>k = length (cstring src)\<close>
      by (subst strncpy_loop.simps) simp
  next
    case False
    then show ?thesis using i by (subst strncpy_loop.simps) simp
  qed
next
  case (Suc m)
  then have i: "i < k" by simp
  then have k: "k \<le> length (cstring src)" "int i < count - 1" using assms(2) by auto
  then have "src ! i = cstring src ! i" "cstring src ! i \<in> set (cstring src)"
    using i nth_mem [of i "cstring src"] by (simp_all add: cstring_def takeWhile_nth)
  then have nz: "src ! i \<noteq> 0" by (auto simp: cstring_def dest: set_takeWhileD)
  have len: "i < length src" using i k assms(4) by simp
  have "strncpy_loop dest src count i = strncpy_loop (dest[i := src ! i]) src count (Suc i)"
    using k nz len Suc.prems i by (subst strncpy_loop.simps) simp
  also have "\<dots> = Some (take (Suc i) (dest[i := src ! i]) @ drop (Suc i) (take k src) @ drop k (dest[i := src ! i]), k)"
    using Suc by (intro Suc.hyps(1)) auto
  also have "take (Suc i) (dest[i := src ! i]) = take i dest @ [src ! i]"
    using Suc.prems i by (simp add: take_Suc_conv_app_nth)
  finally show ?case
    using i len by (simp add: Cons_nth_drop_Suc drop_take)
      (metis Cons_nth_drop_Suc Suc_diff_Suc take_Suc_Cons)
qed

text \<open>\<open>strncpy\<close> of \<open>window.c\<close> copies at most \<open>count - 1\<close> bytes of the string and always
  terminates it: read back, the result is the first \<open>count - 1\<close> characters of the source.\<close>

theorem strncpy_truncates:
  assumes "0 < count" and "count \<le> int (length dest)" and "0 \<in> set src"
  shows "\<exists>d. strncpy dest src count = Some d \<and> length d = length dest
    \<and> cstring d = take (nat (count - 1)) (cstring src)"
proof -
  have src: "length (cstring src) < length src"
    using assms(3) by (rule cstring_shorter)
  define k where "k = min (nat (count - 1)) (length (cstring src))"
  have k: "int k = min (count - 1) (int (length (cstring src)))" "k < length dest"
    using assms(1,2) by (auto simp: k_def)
  have loop: "strncpy_loop dest src count 0 = Some (take k src @ drop k dest, k)"
    using strncpy_loop_copies [of 0 k count src dest] k src by simp
  have len: "length (take k src) = k" using src by (simp add: k_def)
  define d where "d = (take k src @ drop k dest)[k := 0]"
  have "strncpy dest src count = Some d"
    using loop k(2) len by (simp add: strncpy_def d_def)
  moreover have "length d = length dest" using k(2) len by (simp add: d_def)
  moreover have "d = take k src @ 0 # drop (Suc k) dest"
    using k(2) len by (simp add: d_def list_update_append) (simp add: Cons_nth_drop_Suc [symmetric])
  moreover have "take k src = take k (cstring src)"
    unfolding cstring_def by (metis k_def cstring_def min.cobounded2 takeWhile_eq_take take_take min.absorb1)
  ultimately have "cstring d = take k (cstring src)"
    by (simp only: cstring_append_zero [OF take_cstring_nonzero])
  then show ?thesis
    using \<open>strncpy dest src count = Some d\<close> \<open>length d = length dest\<close> by (auto simp: k_def min_def)
qed

theorem strncpy_truncates_witness:
  "\<exists>d. strncpy (replicate 6 9) [72, 105, 33, 33, 0] 3 = Some d \<and> cstring d = [72, 105]"
  using strncpy_truncates [of 3 "replicate 6 9" "[72, 105, 33, 33, 0]"] by (auto simp: cstring_def)

end
