(* ===== verification/Console.thy ===== *)
theory Console
  imports Framebuffer
begin

text \<open>
  The text console of \<open>libk/stdiok.c\<close>: \<open>putc_kernel\<close> with its cursor, \<open>puts_kernel\<close>, and the
  formatted output \<open>kernel_write\<close> with its state machine and \<open>printf_number_kernel\<close>. The variable
  arguments are the 32-bit words on the stack, \<open>argp\<close> is an index into them; a string argument is
  a pointer, resolved by \<open>str_at\<close>.
\<close>

section \<open>Characters\<close>

definition putc_kernel :: "u8 \<Rightarrow> screen \<Rightarrow> screen" where
  "putc_kernel c s =
     (case globalvbeinfo s of
        None \<Rightarrow> s
      | Some v \<Rightarrow>
          if c = 10 then
            (let y = cursor_y s + FONT_HEIGHT
             in s\<lparr>cursor_x := 0, cursor_y := (if y \<ge> framebuffer_height v then 0 else y)\<rparr>)
          else if c = 13 then s\<lparr>cursor_x := 0\<rparr>
          else if c = 9 then
            (let x = cursor_x s + 4 * FONT_WIDTH; y = cursor_y s + FONT_HEIGHT
             in if x \<ge> framebuffer_width v
                then s\<lparr>cursor_x := 0, cursor_y := (if y \<ge> framebuffer_height v then 0 else y)\<rparr>
                else s\<lparr>cursor_x := x\<rparr>)
          else if c = 8 then
            (let s = (if cursor_x s \<ge> FONT_WIDTH then s\<lparr>cursor_x := cursor_x s - FONT_WIDTH\<rparr>
                      else if cursor_y s \<ge> FONT_HEIGHT
                      then s\<lparr>cursor_y := cursor_y s - FONT_HEIGHT, cursor_x := framebuffer_width v - FONT_WIDTH\<rparr>
                      else s)
             in s\<lparr>fb := draw_rectangle (cursor_x s) (cursor_y s) FONT_WIDTH FONT_HEIGHT
                          (background_color v) v (fb s)\<rparr>)
          else
            (let s = s\<lparr>fb := draw_char (cursor_x s) (cursor_y s) c COLOR_WHITE v (fb s)\<rparr>;
                 x = cursor_x s + FONT_WIDTH; y = cursor_y s + FONT_HEIGHT
             in if x \<ge> framebuffer_width v
                then s\<lparr>cursor_x := 0, cursor_y := (if y \<ge> framebuffer_height v then 0 else y)\<rparr>
                else s\<lparr>cursor_x := x\<rparr>))"

fun puts_kernel :: "cstr \<Rightarrow> screen \<Rightarrow> screen" where
  "puts_kernel [] s = s"
| "puts_kernel (c # cs) s = puts_kernel cs (putc_kernel c s)"

section \<open>Numbers\<close>

datatype printf_state = STATE_START | STATE_LENGTH | STATE_SHORT | STATE_LONG | STATE_SPEC

datatype printf_length = LENGTH_START | LENGTH_SHORT_SHORT | LENGTH_SHORT | LENGTH_LONG | LENGTH_LONG_LONG

definition possibleChars :: "u8 list" where
  "possibleChars = [48, 49, 50, 51, 52, 53, 54, 55, 56, 57, 97, 98, 99, 100, 101, 102]"

text \<open>The digits the loop stores into \<open>buffer\<close>, the last digit first.\<close>

function number_buffer :: "u32 \<Rightarrow> u32 \<Rightarrow> u8 list" where
  "number_buffer radix number =
     (if radix < 2 then []
      else possibleChars ! unat (number mod radix)
           # (if number div radix > 0 then number_buffer radix (number div radix) else []))"
  by pat_completeness auto
termination
proof (relation "measure (\<lambda>(radix, number). unat number)")
  fix radix number :: u32
  assume "\<not> radix < 2" and "0 < number div radix"
  then have "2 \<le> unat radix" and "0 < unat number div unat radix"
    by (simp_all add: word_less_nat_alt unat_div not_less word_le_nat_alt)
  then have "0 < unat number" by (cases "unat number = 0") auto
  with \<open>2 \<le> unat radix\<close> have "unat number div unat radix < unat number" by simp
  then show "((radix, number div radix), (radix, number)) \<in> measure (\<lambda>(radix, number). unat number)"
    by (simp add: unat_div)
qed simp

declare number_buffer.simps [simp del]

text \<open>
  The value that is printed and its sign, and how far \<open>argp\<close> moves. \<open>int\<close> and \<open>long int\<close> have 32
  bits, \<open>long long int\<close> 64; \<open>number\<close> keeps the low 32 bits. \<open>-n\<close> wraps for the smallest value.
\<close>

definition printf_argument :: "(nat \<Rightarrow> u32) \<Rightarrow> nat \<Rightarrow> printf_length \<Rightarrow> bool \<Rightarrow> u32 \<times> bool \<times> nat" where
  "printf_argument args argp len sign =
     (if len = LENGTH_LONG_LONG then
        (if sign then
           (let n = (word_cat (args (argp + 1)) (args argp) :: 64 word);
                neg = sint n < 0
            in (ucast (if neg then - n else n), neg, argp + 4))
         else (args argp, False, argp + 4))
      else
        (let step = (if len = LENGTH_LONG then 2 else 1) in
         if sign then
           (let n = args argp; neg = sint n < 0 in (if neg then - n else n, neg, argp + step))
         else (args argp, False, argp + step)))"

definition printf_number_kernel ::
  "(nat \<Rightarrow> u32) \<Rightarrow> nat \<Rightarrow> printf_length \<Rightarrow> bool \<Rightarrow> u32 \<Rightarrow> screen \<Rightarrow> nat \<times> screen" where
  "printf_number_kernel args argp len sign radix s =
     (let (number, neg, argp') = printf_argument args argp len sign;
          buffer = number_buffer radix number @ (if sign \<and> neg then [45] else [])
      in (argp', fold putc_kernel (rev buffer) s))"

section \<open>Formatted output\<close>

record printf_run =
  fstate :: printf_state
  flength :: printf_length
  fargp :: nat

definition printf_start :: "nat \<Rightarrow> printf_run" where
  "printf_start argp = \<lparr>fstate = STATE_START, flength = LENGTH_START, fargp = argp\<rparr>"

text \<open>The \<open>case\<close> of a conversion letter, at the label \<open>PRINTF_STATE_SPEC_\<close>.\<close>

definition printf_spec ::
  "(u32 \<Rightarrow> cstr option) \<Rightarrow> (nat \<Rightarrow> u32) \<Rightarrow> u8 \<Rightarrow> printf_run \<Rightarrow> screen \<Rightarrow> (printf_run \<times> screen) option" where
  "printf_spec str_at args c r s =
     (let argp = fargp r; len = flength r;
          num = (\<lambda>sign radix. let (argp', s') = printf_number_kernel args argp len sign radix s
                               in Some (printf_start argp', s'))
      in if c = 99 then Some (printf_start (argp + 1), putc_kernel (ucast (args argp)) s)
         else if c = 115 then do {
           str \<leftarrow> str_at (args argp);
           Some (printf_start (argp + (if len = LENGTH_LONG \<or> len = LENGTH_LONG_LONG then 2 else 1)),
                 puts_kernel str s)
         }
         else if c = 37 then Some (printf_start argp, putc_kernel 37 s)
         else if c = 100 \<or> c = 105 then num True 10
         else if c = 117 then num False 10
         else if c = 88 \<or> c = 120 \<or> c = 112 then num False 16
         else if c = 111 then num False 8
         else Some (printf_start argp, s))"

definition printf_step ::
  "(u32 \<Rightarrow> cstr option) \<Rightarrow> (nat \<Rightarrow> u32) \<Rightarrow> u8 \<Rightarrow> printf_run \<Rightarrow> screen \<Rightarrow> (printf_run \<times> screen) option" where
  "printf_step str_at args c r s =
     (case fstate r of
        STATE_START \<Rightarrow>
          if c = 37 then Some (r\<lparr>fstate := STATE_LENGTH\<rparr>, s) else Some (r, putc_kernel c s)
      | STATE_LENGTH \<Rightarrow>
          if c = 104 then Some (r\<lparr>flength := LENGTH_SHORT, fstate := STATE_SHORT\<rparr>, s)
          else if c = 108 then Some (r\<lparr>flength := LENGTH_LONG, fstate := STATE_LONG\<rparr>, s)
          else printf_spec str_at args c r s
      | STATE_SHORT \<Rightarrow>
          if c = 104 then Some (r\<lparr>flength := LENGTH_SHORT_SHORT, fstate := STATE_SPEC\<rparr>, s)
          else printf_spec str_at args c r s
      | STATE_LONG \<Rightarrow>
          if c = 108 then Some (r\<lparr>flength := LENGTH_LONG_LONG, fstate := STATE_SPEC\<rparr>, s)
          else printf_spec str_at args c r s
      | STATE_SPEC \<Rightarrow> printf_spec str_at args c r s)"

fun printf_loop ::
  "(u32 \<Rightarrow> cstr option) \<Rightarrow> (nat \<Rightarrow> u32) \<Rightarrow> cstr \<Rightarrow> printf_run \<Rightarrow> screen \<Rightarrow> (printf_run \<times> screen) option" where
  "printf_loop str_at args [] r s = Some (r, s)"
| "printf_loop str_at args (c # fmt) r s = do {
     (r, s) \<leftarrow> printf_step str_at args c r s;
     printf_loop str_at args fmt r s
   }"

text \<open>\<open>args 0\<close> is the word behind the format pointer.\<close>

definition kernel_write :: "(u32 \<Rightarrow> cstr option) \<Rightarrow> cstr \<Rightarrow> (nat \<Rightarrow> u32) \<Rightarrow> screen \<Rightarrow> screen option" where
  "kernel_write str_at fmt args s = map_option snd (printf_loop str_at args fmt (printf_start 0) s)"

section \<open>Numerals\<close>

text \<open>The reference: the digits of a number, the most significant first, without leading zeros.\<close>

fun numeral_of :: "nat \<Rightarrow> nat \<Rightarrow> cstr" where
  "numeral_of r n =
     (if r < 2 then []
      else if n < r then [possibleChars ! n]
      else numeral_of r (n div r) @ [possibleChars ! (n mod r)])"

declare numeral_of.simps [simp del]

definition decimal_of_int :: "int \<Rightarrow> cstr" where
  "decimal_of_int i = (if i < 0 then 45 # numeral_of 10 (nat (- i)) else numeral_of 10 (nat i))"

lemma number_buffer_numeral:
  assumes "2 \<le> unat radix"
  shows "rev (number_buffer radix n) = numeral_of (unat radix) (unat n)"
proof (induction "unat n" arbitrary: n rule: less_induct)
  case less
  let ?r = "unat radix"
  have r: "\<not> radix < 2" using assms by (simp add: word_less_nat_alt)
  have div: "unat (n div radix) = unat n div ?r" "unat (n mod radix) = unat n mod ?r"
    by (simp_all add: unat_div unat_mod)
  have pos: "0 < n div radix \<longleftrightarrow> \<not> unat n < ?r"
    using assms by (simp add: word_less_nat_alt div div_greater_zero_iff not_less)
  show ?case
  proof (cases "unat n < ?r")
    case True
    then show ?thesis
      using r assms pos by (subst number_buffer.simps, subst numeral_of.simps) (simp add: div)
  next
    case False
    then have "unat (n div radix) < unat n" using assms by (simp add: div)
    then have "rev (number_buffer radix (n div radix)) = numeral_of ?r (unat n div ?r)"
      using less by (simp add: div)
    then show ?thesis
      using r assms pos False by (subst number_buffer.simps, subst numeral_of.simps) (simp add: div)
  qed
qed

lemma puts_kernel_fold: "puts_kernel str s = fold putc_kernel str s"
  by (induction str arbitrary: s) auto

lemma uint_u32_less: "uint w < 0x100000000" for w :: u32
  using uint_bounded [of w] by simp

lemma sint_u32: "sint w = (if uint w < 0x80000000 then uint w else uint w - 0x100000000)" for w :: u32
proof -
  have "(uint w + 0x80000000) mod 0x100000000 = (uint w + 0x80000000 - 0x100000000) mod 0x100000000"
    using mod_add_self2 [where a = "uint w - 0x80000000" and b = "0x100000000"] by (simp add: ac_simps)
  moreover have "\<dots> = uint w - 0x80000000" if "\<not> uint w < 0x80000000"
    using that uint_u32_less [of w] by (simp add: mod_pos_pos_trivial)
  moreover have "(uint w + 0x80000000) mod 0x100000000 = uint w + 0x80000000" if "uint w < 0x80000000"
    using that by (intro mod_pos_pos_trivial) auto
  ultimately show ?thesis
    by (auto simp: sint_uint signed_take_bit_eq_take_bit_shift take_bit_eq_mod)
qed

lemma unat_neg_int:
  fixes n :: u32
  assumes "sint n < 0"
  shows "unat (- n) = nat (- sint n)"
proof -
  have "uint n < 0x100000000" "0x80000000 \<le> uint n"
    using assms uint_u32_less [of n] by (auto simp: sint_u32 split: if_splits)
  then have "uint (- n) = 0x100000000 - uint n"
    by (simp add: uint_word_ariths zmod_zminus1_eq_if)
  then show ?thesis
    using \<open>0x80000000 \<le> uint n\<close> by (simp add: sint_u32 flip: nat_uint_eq)
qed

lemma unat_nonneg_int: "\<not> sint n < 0 \<Longrightarrow> unat n = nat (sint n)" for n :: u32
  using uint_u32_less [of n] by (simp add: sint_u32 flip: nat_uint_eq split: if_splits)

lemma printf_signed:
  "printf_number_kernel args argp LENGTH_START True 10 s
   = (argp + 1, puts_kernel (decimal_of_int (sint (args argp))) s)"
  using number_buffer_numeral [of 10 "args argp"] number_buffer_numeral [of 10 "- args argp"]
  by (simp add: printf_number_kernel_def printf_argument_def decimal_of_int_def puts_kernel_fold Let_def
      unat_neg_int unat_nonneg_int)

lemma printf_unsigned:
  assumes "2 \<le> unat radix"
  shows "printf_number_kernel args argp LENGTH_START False radix s
   = (argp + 1, puts_kernel (numeral_of (unat radix) (unat (args argp))) s)"
  using number_buffer_numeral [OF assms, of "args argp"]
  by (simp add: printf_number_kernel_def printf_argument_def puts_kernel_fold Let_def)

lemmas kernel_write_simps = kernel_write_def printf_start_def printf_step_def printf_spec_def


text \<open>What a format without length modifiers should print: the reference for \<open>kernel_write\<close>.\<close>

definition conversion :: "(u32 \<Rightarrow> cstr option) \<Rightarrow> u8 \<Rightarrow> u32 \<Rightarrow> (cstr \<times> nat) option" where
  "conversion str_at c arg =
     (if c = 37 then Some ([37], 0)
      else if c = 99 then Some ([ucast arg], 1)
      else if c = 115 then map_option (\<lambda>str. (str, 1)) (str_at arg)
      else if c \<in> {100, 105} then Some (decimal_of_int (sint arg), 1)
      else if c = 117 then Some (numeral_of 10 (unat arg), 1)
      else if c \<in> {120, 88, 112} then Some (numeral_of 16 (unat arg), 1)
      else if c = 111 then Some (numeral_of 8 (unat arg), 1)
      else if c \<in> {104, 108} then None
      else Some ([], 0))"

fun rendered :: "(u32 \<Rightarrow> cstr option) \<Rightarrow> cstr \<Rightarrow> (nat \<Rightarrow> u32) \<Rightarrow> nat \<Rightarrow> cstr option" where
  "rendered str_at [] args i = Some []"
| "rendered str_at [c] args i = Some (if c = 37 then [] else [c])"
| "rendered str_at (b # c # fmt) args i =
     (if b \<noteq> 37 then map_option ((#) b) (rendered str_at (c # fmt) args i)
      else do {
        (out, n) \<leftarrow> conversion str_at c (args i);
        map_option ((@) out) (rendered str_at fmt args (i + n))
      })"

lemma puts_kernel_append: "puts_kernel (xs @ ys) s = puts_kernel ys (puts_kernel xs s)"
  by (simp add: puts_kernel_fold)

lemma conversion_step:
  assumes "conversion str_at c (args i) = Some (out, n)"
  shows "printf_step str_at args c \<lparr>fstate = STATE_LENGTH, flength = LENGTH_START, fargp = i\<rparr> s
    = Some (printf_start (i + n), puts_kernel out s)"
  using assms
  by (auto simp: conversion_def printf_step_def printf_spec_def printf_signed printf_unsigned
      split: if_splits)

lemma printf_loop_rendered:
  assumes "rendered str_at fmt args i = Some out"
  shows "\<exists>r. printf_loop str_at args fmt (printf_start i) s = Some (r, puts_kernel out s)"
  using assms
proof (induction str_at fmt args i arbitrary: out s rule: rendered.induct)
  case (3 str_at b c fmt args i)
  show ?case
  proof (cases "b = 37")
    case True
    with 3(3) obtain o1 n o2 where conv: "conversion str_at c (args i) = Some (o1, n)"
        and rest: "rendered str_at fmt args (i + n) = Some o2" and out: "out = o1 @ o2"
      by (auto split: Option.bind_splits)
    obtain r where "printf_loop str_at args fmt (printf_start (i + n)) (puts_kernel o1 s)
        = Some (r, puts_kernel o2 (puts_kernel o1 s))"
      using 3(2) [OF _ conv] True rest by blast
    then show ?thesis
      using True conversion_step [where args = args and i = i, OF conv]
      by (simp add: printf_step_def [where c = 37] printf_start_def out puts_kernel_append)
  next
    case False
    with 3(3) obtain o1 where "rendered str_at (c # fmt) args i = Some o1" "out = b # o1"
      by auto
    with 3(1) [OF False] show ?thesis
      using False by (simp add: printf_step_def [where c = b] printf_start_def)
  qed
qed (auto simp: printf_step_def printf_start_def)

text \<open>C14: for a format without \<open>h\<close> and \<open>l\<close>, \<open>kernel_write\<close> prints what the format means: its text,
  \<open>%d\<close> and \<open>%i\<close> as the shortest signed decimal numeral (the smallest integer included), \<open>%u\<close>, \<open>%x\<close>,
  \<open>%o\<close> as unsigned numerals, \<open>%s\<close> and \<open>%c\<close> as given and \<open>%%\<close> as one sign, each conversion with the
  next argument. An unknown conversion prints nothing.\<close>

theorem kernel_write_renders:
  assumes "rendered str_at fmt args 0 = Some out"
  shows "kernel_write str_at fmt args s = Some (puts_kernel out s)"
  using printf_loop_rendered [OF assms, of s] by (auto simp: kernel_write_def)

definition blank_screen :: screen where
  "blank_screen = \<lparr>cursor_x = 0, cursor_y = 0, globalvbeinfo = Some vga_mode, fb = (\<lambda>_. 0)\<rparr>"

theorem kernel_write_renders_witness:
  "kernel_write (\<lambda>_. None) [112, 105, 100, 32, 37, 100, 33, 37, 120] ((\<lambda>_. 0)(0 := - 25, 1 := 255)) blank_screen
    = Some (puts_kernel [112, 105, 100, 32, 45, 50, 53, 33, 102, 102] blank_screen)"
proof -
  have minus: "sint (- 25 :: u32) = - 25" by simp
  have digits: "numeral_of 10 25 = [50, 53]" "numeral_of 16 255 = [102, 102]"
    by (simp_all add: numeral_of.simps possibleChars_def)
  have "rendered (\<lambda>_. None) [112, 105, 100, 32, 37, 100, 33, 37, 120] ((\<lambda>_. 0)(0 := - 25, 1 := 255)) 0
      = Some [112, 105, 100, 32, 45, 50, 53, 33, 102, 102]"
    by (simp add: conversion_def decimal_of_int_def digits minus)
  then show ?thesis by (rule kernel_write_renders)
qed

text \<open>A \<open>long\<close> has the size of an \<open>int\<close>, but \<open>%ld\<close> moves two words ahead: in \<open>"%ld %d"\<close> the second
  conversion prints the argument after the next one, and the second argument is never printed.\<close>

theorem kernel_write_long_skips:
  "kernel_write str_at [37, 108, 100, 32, 37, 100] args s
    = Some (puts_kernel (decimal_of_int (sint (args 0)) @ [32] @ decimal_of_int (sint (args 2))) s)"
proof -
  have long: "printf_number_kernel args argp LENGTH_LONG True 10 s
      = (argp + 2, puts_kernel (decimal_of_int (sint (args argp))) s)" for argp s
    using printf_signed [of args argp s]
    by (auto simp: printf_number_kernel_def printf_argument_def Let_def split: if_splits prod.splits)
  show ?thesis
    by (simp add: kernel_write_def printf_start_def printf_step_def printf_spec_def printf_signed long
        puts_kernel_append) (simp add: eval_nat_numeral)
qed


section \<open>The cursor stays on the screen\<close>

text \<open>
  What the console relies on: a screen at least one character wide and high, far from the end of the
  32-bit range, and a cursor inside it.
\<close>

definition console_ok :: "screen \<Rightarrow> bool" where
  "console_ok s \<longleftrightarrow> (case globalvbeinfo s of None \<Rightarrow> True
     | Some v \<Rightarrow> screen_ok v \<and> 8 \<le> framebuffer_width v \<and> framebuffer_width v \<le> 0x80000000
          \<and> 8 \<le> framebuffer_height v \<and> framebuffer_height v \<le> 0x80000000
          \<and> cursor_x s < framebuffer_width v \<and> cursor_y s < framebuffer_height v)"

text \<open>The framebuffer words that belong to no pixel of the screen.\<close>

definition outside :: "vbe_info \<Rightarrow> u32 \<Rightarrow> bool" where
  "outside v q \<longleftrightarrow> \<not> (\<exists>x y. on_screen v x y \<and> q = pixel_index v x y)"

lemma draw_pixel_outside: "outside v q \<Longrightarrow> draw_pixel x y color v f q = f q"
  by (auto simp: draw_pixel_index outside_def)

lemma fold_outside:
  assumes "\<And>i f. i \<in> set xs \<Longrightarrow> g i f q = f q"
  shows "fold g xs f q = f q"
  using assms by (induction xs arbitrary: f) auto

lemma draw_rectangle_outside: "outside v q \<Longrightarrow> draw_rectangle x y w h color v f q = f q"
  unfolding draw_rectangle_def by (intro fold_outside draw_pixel_outside)

lemma draw_char_outside: "outside v q \<Longrightarrow> draw_char x y c color v f q = f q"
  unfolding draw_char_def Let_def by (intro fold_outside) (simp add: draw_pixel_outside)

definition same_frame :: "screen \<Rightarrow> screen \<Rightarrow> bool" where
  "same_frame s s' \<longleftrightarrow> globalvbeinfo s' = globalvbeinfo s
     \<and> (\<forall>v q. globalvbeinfo s = Some v \<longrightarrow> outside v q \<longrightarrow> fb s' q = fb s q)
     \<and> (globalvbeinfo s = None \<longrightarrow> s' = s)"

lemma same_frame_refl [simp]: "same_frame s s"
  by (simp add: same_frame_def)

lemma same_frame_trans: "same_frame s t \<Longrightarrow> same_frame t u \<Longrightarrow> same_frame s u"
  by (auto simp: same_frame_def)

lemma putc_kernel_frame: "same_frame s (putc_kernel c s)"
  by (auto simp: same_frame_def putc_kernel_def Let_def draw_char_outside draw_rectangle_outside
      split: option.splits)

lemma putc_kernel_ok:
  assumes "console_ok s"
  shows "console_ok (putc_kernel c s)"
proof (cases "globalvbeinfo s")
  case None
  then show ?thesis using assms by (simp add: putc_kernel_def)
next
  case (Some v)
  have pos: "0 < framebuffer_width v" "0 < framebuffer_height v"
    using assms Some by (simp_all add: console_ok_def word_less_nat_alt word_le_nat_alt)
  have behind: "framebuffer_width v - FONT_WIDTH < framebuffer_width v"
      "FONT_WIDTH \<le> cursor_x s \<Longrightarrow> cursor_x s - FONT_WIDTH < framebuffer_width v"
      "FONT_HEIGHT \<le> cursor_y s \<Longrightarrow> cursor_y s - FONT_HEIGHT < framebuffer_height v"
    using assms Some unfolding console_ok_def FONT_WIDTH_def FONT_HEIGHT_def
    by simp_all unat_arith+
  show ?thesis
    using assms Some pos behind
    by (auto simp: console_ok_def putc_kernel_def Let_def not_le)
qed

lemma puts_kernel_ok: "console_ok s \<Longrightarrow> console_ok (puts_kernel str s) \<and> same_frame s (puts_kernel str s)"
proof (induction str arbitrary: s)
  case (Cons c str)
  then show ?case
    using putc_kernel_ok [of s c] putc_kernel_frame [of s c] by (auto intro: same_frame_trans)
qed simp

definition safe_result :: "screen \<Rightarrow> screen \<Rightarrow> bool" where
  "safe_result s s' \<longleftrightarrow> console_ok s' \<and> same_frame s s'"

lemma fold_putc_safe: "console_ok s \<Longrightarrow> safe_result s (fold putc_kernel str s)"
  using puts_kernel_ok [of s str] by (simp add: safe_result_def puts_kernel_fold)

lemma printf_step_safe:
  assumes "console_ok s" and "\<forall>p. str_at p \<noteq> None"
  shows "\<exists>r' s'. printf_step str_at args c r s = Some (r', s') \<and> safe_result s s'"
proof -
  have num: "safe_result s (snd (printf_number_kernel args argp len sign radix s))" for argp len sign radix
    by (simp only: printf_number_kernel_def Let_def case_prod_beta snd_conv fold_putc_safe [OF assms(1)])
  have putc: "safe_result s (putc_kernel c s)" for c
    using fold_putc_safe [OF assms(1), of "[c]"] by simp
  have puts: "safe_result s (puts_kernel str s)" for str
    using fold_putc_safe [OF assms(1), of str] by (simp add: puts_kernel_fold)
  have refl: "safe_result s s" using assms(1) by (simp add: safe_result_def)
  have spec: "\<exists>r' s'. printf_spec str_at args c r s = Some (r', s') \<and> safe_result s s'"
    using spec [OF assms(2), of "args (fargp r)"] putc puts refl num
    by (auto simp: printf_spec_def Let_def split: prod.split) (metis snd_conv)+
  show ?thesis
    using spec putc refl by (cases "fstate r") (simp_all add: printf_step_def)
qed

lemma printf_loop_safe:
  assumes "console_ok s" and "\<forall>p. str_at p \<noteq> None"
  shows "\<exists>r' s'. printf_loop str_at args fmt r s = Some (r', s') \<and> safe_result s s'"
  using assms(1)
proof (induction fmt arbitrary: r s)
  case Nil
  then show ?case by (simp add: safe_result_def)
next
  case (Cons c fmt)
  obtain r1 s1 where step: "printf_step str_at args c r s = Some (r1, s1)" and safe: "safe_result s s1"
    using printf_step_safe [OF Cons.prems assms(2)] by blast
  then obtain r2 s2 where "printf_loop str_at args fmt r1 s1 = Some (r2, s2)" "safe_result s1 s2"
    using Cons.IH [of s1 r1] by (auto simp: safe_result_def)
  then show ?case
    using step safe by (auto simp: safe_result_def intro: same_frame_trans)
qed

text \<open>The same for a call that returns although some strings cannot be read.\<close>

lemma printf_loop_total:
  assumes "printf_loop str_at args fmt r s = Some res" and "\<And>p str. str_at p = Some str \<Longrightarrow> total_at p = Some str"
  shows "printf_loop total_at args fmt r s = Some res"
  using assms(1)
proof (induction fmt arbitrary: r s)
  case (Cons c fmt)
  then obtain r1 s1 where step: "printf_step str_at args c r s = Some (r1, s1)"
      "printf_loop str_at args fmt r1 s1 = Some res" by (auto split: Option.bind_splits)
  have "printf_step total_at args c r s = Some (r1, s1)"
    using step(1) by (auto simp: printf_step_def printf_spec_def Let_def dest!: assms(2)
        split: if_splits printf_state.splits Option.bind_splits)
  then show ?case using Cons.IH step(2) by simp
qed simp

lemma kernel_write_safe:
  assumes "console_ok s" and "kernel_write str_at fmt args s = Some s'"
  shows "safe_result s s'"
proof -
  define total_at where "total_at = (\<lambda>p. Some (case str_at p of None \<Rightarrow> [] | Some str \<Rightarrow> str))"
  obtain r where "printf_loop str_at args fmt (printf_start 0) s = Some (r, s')"
    using assms(2) by (auto simp: kernel_write_def)
  then have "printf_loop total_at args fmt (printf_start 0) s = Some (r, s')"
    by (rule printf_loop_total) (simp add: total_at_def)
  moreover have "\<forall>p. total_at p \<noteq> None" by (simp add: total_at_def)
  ultimately show ?thesis
    using printf_loop_safe [OF assms(1), of total_at args fmt "printf_start 0"] by auto
qed

text \<open>C15: \<open>kernel_write\<close> returns for every format and all arguments whose strings are readable, leaves
  the cursor on the screen and writes no framebuffer word that belongs to no pixel; before \<open>init_vbe\<close>
  has run it changes nothing.\<close>

theorem kernel_write_stays_on_screen:
  assumes "console_ok s" and "\<forall>p. str_at p \<noteq> None"
  shows "\<exists>s'. kernel_write str_at fmt args s = Some s' \<and> console_ok s' \<and> globalvbeinfo s' = globalvbeinfo s
    \<and> (\<forall>v q. globalvbeinfo s = Some v \<longrightarrow> outside v q \<longrightarrow> fb s' q = fb s q)
    \<and> (globalvbeinfo s = None \<longrightarrow> s' = s)"
  using printf_loop_safe [OF assms, where fmt = fmt and args = args and r = "printf_start 0"]
  by (auto simp: kernel_write_def safe_result_def same_frame_def)

theorem kernel_write_stays_on_screen_witness:
  "\<exists>s'. kernel_write (\<lambda>_. Some [72, 105]) [37, 108, 115, 8, 10, 37] (\<lambda>_. 7) blank_screen = Some s'
    \<and> console_ok s' \<and> globalvbeinfo s' = globalvbeinfo blank_screen"
proof -
  have "console_ok blank_screen"
    by (simp add: console_ok_def blank_screen_def vga_mode_def screen_ok_def)
  from kernel_write_stays_on_screen [OF this, of "\<lambda>_. Some [72, 105]" "[37, 108, 115, 8, 10, 37]" "\<lambda>_. 7"]
  show ?thesis by auto
qed

end
