(* ===== verification/Keyboard.thy ===== *)
theory Keyboard
  imports Console
begin

text \<open>
  The keyboard driver \<open>drivers/keyboard/keyboard.c\<close>: the two scan code tables, the interrupt handler
  with its shift state, and the ring buffer between the handler and the readers. The buffer is one
  implementation of a bounded queue, the interface stated as a locale first.
\<close>

section \<open>Bounded queues\<close>

datatype 'a queue_op = Put 'a | Get

text \<open>What a sequence of operations returns: the values of its \<open>Get\<close>s, on the queue and on a list.\<close>

fun queue_run :: "('a \<Rightarrow> 'q \<Rightarrow> 'q) \<Rightarrow> ('q \<Rightarrow> 'a \<times> 'q) \<Rightarrow> 'a queue_op list \<Rightarrow> 'q \<Rightarrow> 'a list \<times> 'q" where
  "queue_run enq deq [] q = ([], q)"
| "queue_run enq deq (Put x # ops) q = queue_run enq deq ops (enq x q)"
| "queue_run enq deq (Get # ops) q =
     (let (x, q) = deq q; (xs, q) = queue_run enq deq ops q in (x # xs, q))"

definition list_put :: "nat \<Rightarrow> 'a \<Rightarrow> 'a list \<Rightarrow> 'a list" where
  "list_put capacity x xs = (if length xs < capacity then xs @ [x] else xs)"

definition list_get :: "'a \<Rightarrow> 'a list \<Rightarrow> 'a \<times> 'a list" where
  "list_get none xs = (case xs of [] \<Rightarrow> (none, []) | x # xs \<Rightarrow> (x, xs))"

locale bounded_queue =
  fixes enq :: "'a \<Rightarrow> 'q \<Rightarrow> 'q" and deq :: "'q \<Rightarrow> 'a \<times> 'q"
    and items :: "'q \<Rightarrow> 'a list" and valid :: "'q \<Rightarrow> bool" and capacity :: nat and empty_value :: 'a
  assumes valid_enq: "valid q \<Longrightarrow> valid (enq x q)"
    and items_enq: "valid q \<Longrightarrow> items (enq x q) = list_put capacity x (items q)"
    and valid_deq: "valid q \<Longrightarrow> valid (snd (deq q))"
    and items_deq: "valid q \<Longrightarrow> (fst (deq q), items (snd (deq q))) = list_get empty_value (items q)"
begin

lemma queue_refines:
  assumes "valid q"
  shows "valid (snd (queue_run enq deq ops q))
    \<and> (fst (queue_run enq deq ops q), items (snd (queue_run enq deq ops q)))
        = queue_run (list_put capacity) (list_get empty_value) ops (items q)"
  using assms
proof (induction ops arbitrary: q)
  case (Cons op ops)
  show ?case
  proof (cases op)
    case (Put x)
    then show ?thesis using Cons.IH [of "enq x q"] Cons.prems by (simp add: valid_enq items_enq)
  next
    case Get
    obtain x q' where deq: "deq q = (x, q')" by (cases "deq q")
    then have "valid q'" "list_get empty_value (items q) = (x, items q')"
      using valid_deq [OF Cons.prems] items_deq [OF Cons.prems] by simp_all
    then show ?thesis
      using Cons.IH [of q'] Get deq by (auto simp: split_beta Let_def prod_eq_iff)
  qed
qed simp

lemma fits:
  assumes "valid q" and "length (items q) < capacity"
  shows "items (enq x q) = items q @ [x]"
  using assms by (simp add: items_enq list_put_def)

end

section \<open>Key codes\<close>

definition UNKNOWN :: u32 where "UNKNOWN = 0xFFFFFFE0"
definition ESC :: u32 where "ESC = 0xFFFFFFE1"
definition CTRL :: u32 where "CTRL = 0xFFFFFFE2"
definition LSHFT :: u32 where "LSHFT = 0xFFFFFFE3"
definition RSHFT :: u32 where "RSHFT = 0xFFFFFFE4"
definition ALT :: u32 where "ALT = 0xFFFFFFE5"
definition F1 :: u32 where "F1 = 0xFFFFFFE6"
definition F2 :: u32 where "F2 = 0xFFFFFFE7"
definition F3 :: u32 where "F3 = 0xFFFFFFE8"
definition F4 :: u32 where "F4 = 0xFFFFFFE9"
definition F5 :: u32 where "F5 = 0xFFFFFFEA"
definition F6 :: u32 where "F6 = 0xFFFFFFEB"
definition F7 :: u32 where "F7 = 0xFFFFFFEC"
definition F8 :: u32 where "F8 = 0xFFFFFFED"
definition F9 :: u32 where "F9 = 0xFFFFFFEE"
definition F10 :: u32 where "F10 = 0xFFFFFFEF"
definition F11 :: u32 where "F11 = 0xFFFFFFF0"
definition F12 :: u32 where "F12 = 0xFFFFFFF1"
definition SCRLCK :: u32 where "SCRLCK = 0xFFFFFFF2"
definition HOME :: u32 where "HOME = 0xFFFFFFF3"
definition UP :: u32 where "UP = 0xFFFFFFF4"
definition LEFT :: u32 where "LEFT = 0xFFFFFFF5"
definition RIGHT :: u32 where "RIGHT = 0xFFFFFFF6"
definition DOWN :: u32 where "DOWN = 0xFFFFFFF7"
definition PGUP :: u32 where "PGUP = 0xFFFFFFF8"
definition PGDOWN :: u32 where "PGDOWN = 0xFFFFFFF9"
definition END :: u32 where "END = 0xFFFFFFFA"
definition INS :: u32 where "INS = 0xFFFFFFFB"
definition DEL :: u32 where "DEL = 0xFFFFFFFC"
definition CAPS :: u32 where "CAPS = 0xFFFFFFFD"
definition NONE :: u32 where "NONE = 0xFFFFFFFE"
definition ALTGR :: u32 where "ALTGR = 0xFFFFFFDF"
definition NUMLCK :: u32 where "NUMLCK = 0xFFFFFFC0"
definition BACKSPACE :: u32 where "BACKSPACE = 0xFFFFFFBF"

lemmas key_defs =
  UNKNOWN_def ESC_def CTRL_def LSHFT_def RSHFT_def ALT_def F1_def F2_def F3_def F4_def F5_def
  F6_def F7_def F8_def F9_def F10_def F11_def F12_def SCRLCK_def HOME_def UP_def LEFT_def RIGHT_def
  DOWN_def PGUP_def PGDOWN_def END_def INS_def DEL_def CAPS_def NONE_def ALTGR_def NUMLCK_def
  BACKSPACE_def

text \<open>The tables; a key outside ASCII is the number of its two UTF-8 bytes. The initialiser of
  \<open>uppercase\<close> has 130 elements, of which the compiler keeps 128.\<close>

definition lowercase :: "u32 list" where
  "lowercase =
    [UNKNOWN, ESC, 49, 50, 51, 52, 53, 54, 55, 56, 57, 48, 39, 94, BACKSPACE, 9, 113, 119, 101,
     114, 116, 122, 117, 105, 111, 112, 50108, 42, 10, CTRL, 97, 115, 100, 102, 103, 104, 106, 107,
     108, 50102, 50084, 36, LSHFT, 60, 121, 120, 99, 118, 98, 110, 109, 44, 46, 45, RSHFT, 42, ALT,
     32, CAPS, F1, F2, F3, F4, F5, F6, F7, F8, F9, F10, NUMLCK, SCRLCK, HOME, UP, PGUP, 45, LEFT,
     UNKNOWN, RIGHT, 43, END, DOWN, PGDOWN, INS, DEL, UNKNOWN, UNKNOWN, UNKNOWN, F11, F12, UNKNOWN,
     UNKNOWN, UNKNOWN, UNKNOWN, UNKNOWN, UNKNOWN, UNKNOWN, UNKNOWN, UNKNOWN, UNKNOWN, UNKNOWN,
     UNKNOWN, UNKNOWN, UNKNOWN, UNKNOWN, UNKNOWN, UNKNOWN, UNKNOWN, UNKNOWN, UNKNOWN, UNKNOWN,
     UNKNOWN, UNKNOWN, UNKNOWN, UNKNOWN, UNKNOWN, UNKNOWN, UNKNOWN, UNKNOWN, UNKNOWN, UNKNOWN,
     UNKNOWN, UNKNOWN, UNKNOWN, UNKNOWN, UNKNOWN, UNKNOWN, UNKNOWN, UNKNOWN]"

definition uppercase :: "u32 list" where
  "uppercase =
    [UNKNOWN, ESC, 43, 34, 42, 50087, 37, 38, 47, 40, 41, 61, 63, 96, BACKSPACE, 9, 81, 87, 69, 82,
     84, 90, 85, 73, 79, 80, 50076, 33, 10, CTRL, 65, 83, 68, 70, 71, 72, 74, 75, 76, 50070, 50052,
     49827, LSHFT, 62, 89, 88, 67, 86, 66, 78, 77, 59, 58, 95, RSHFT, 42, ALT, 32, CAPS, F1, F2,
     F3, F4, F5, F6, F7, F8, F9, F10, NUMLCK, SCRLCK, HOME, UP, PGUP, 45, LEFT, UNKNOWN, RIGHT, 43,
     END, DOWN, PGDOWN, INS, DEL, UNKNOWN, UNKNOWN, UNKNOWN, F11, F12, UNKNOWN, UNKNOWN, UNKNOWN,
     UNKNOWN, UNKNOWN, UNKNOWN, UNKNOWN, UNKNOWN, UNKNOWN, UNKNOWN, UNKNOWN, UNKNOWN, UNKNOWN,
     UNKNOWN, UNKNOWN, UNKNOWN, UNKNOWN, UNKNOWN, UNKNOWN, UNKNOWN, UNKNOWN, UNKNOWN, UNKNOWN,
     UNKNOWN, UNKNOWN, UNKNOWN, UNKNOWN, UNKNOWN, UNKNOWN, UNKNOWN, UNKNOWN, UNKNOWN, UNKNOWN,
     UNKNOWN, UNKNOWN, UNKNOWN, UNKNOWN, UNKNOWN, UNKNOWN]"

definition is_special_key :: "u32 \<Rightarrow> bool" where
  "is_special_key key \<longleftrightarrow> key \<in> {ESC, CTRL, LSHFT, RSHFT, ALT, F1, F2, F3, F4, F5, F6,
     F7, F8, F9, F10, F11, F12, SCRLCK, CAPS, NUMLCK, BACKSPACE}"

section \<open>The ring buffer\<close>

definition KEY_BUFFER_SIZE :: nat where "KEY_BUFFER_SIZE = 128"

record keyboard =
  key_buffer :: "u32 list"
  key_buffer_head :: nat
  key_buffer_tail :: nat
  capsOn :: bool
  capsLock :: bool

definition add_key_to_buffer :: "u32 \<Rightarrow> keyboard \<Rightarrow> keyboard" where
  "add_key_to_buffer key k =
     (let next_head = (key_buffer_head k + 1) mod KEY_BUFFER_SIZE
      in if next_head \<noteq> key_buffer_tail k
         then k\<lparr>key_buffer := (key_buffer k)[key_buffer_head k := key], key_buffer_head := next_head\<rparr>
         else k)"

definition get_key_from_buffer :: "keyboard \<Rightarrow> u32 \<times> keyboard" where
  "get_key_from_buffer k =
     (if key_buffer_head k = key_buffer_tail k then (0, k)
      else (key_buffer k ! key_buffer_tail k,
            k\<lparr>key_buffer_tail := (key_buffer_tail k + 1) mod KEY_BUFFER_SIZE\<rparr>))"

section \<open>The interrupt handler\<close>

definition handle_special_key :: "u32 \<Rightarrow> bool \<Rightarrow> keyboard \<times> screen \<Rightarrow> keyboard \<times> screen" where
  "handle_special_key key pressed st =
     (let (k, s) = st in
      if key = LSHFT \<or> key = RSHFT then (k\<lparr>capsOn := pressed\<rparr>, s)
      else if key = CAPS then (if pressed then k\<lparr>capsLock := \<not> capsLock k\<rparr> else k, s)
      else if key = BACKSPACE then (k, if pressed then putc_kernel 8 s else s)
      else (k, s))"

text \<open>
  The handler reads port \<open>0x60\<close> twice; the two bytes it gets are arguments. Its call of
  \<open>kernel_write("%c", key)\<close> reads no string.
\<close>

definition irq1_handler :: "u8 \<Rightarrow> u8 \<Rightarrow> keyboard \<times> screen \<Rightarrow> (keyboard \<times> screen) option" where
  "irq1_handler in1 in2 st =
     (let scancode = unat (in1 AND 0x7F);
          shiftpressed = in2 AND 0x80;
          pressed = (shiftpressed = 0)
      in if is_special_key (lowercase ! scancode)
         then Some (handle_special_key (lowercase ! scancode) pressed st)
         else if pressed then
           (let (k, s) = st;
                key = (if capsOn k \<or> capsLock k then uppercase ! scancode else lowercase ! scancode)
            in do {
              s \<leftarrow> kernel_write (\<lambda>_. None) [37, 99] (\<lambda>_. key) s;
              Some (add_key_to_buffer key k, s)
            })
         else Some st)"

text \<open>\<open>init_keyboard\<close> without the registration of the handler and the command byte it sends.\<close>

definition init_keyboard :: "keyboard \<Rightarrow> keyboard" where
  "init_keyboard k = k\<lparr>capsOn := False, capsLock := False\<rparr>"

text \<open>The driver's static data when the kernel starts.\<close>

definition keyboard_boot :: keyboard where
  "keyboard_boot = \<lparr>key_buffer = replicate 128 0, key_buffer_head = 0, key_buffer_tail = 0,
     capsOn = False, capsLock = False\<rparr>"

section \<open>The ring buffer is a queue of 127 keys\<close>

definition keyboard_ok :: "keyboard \<Rightarrow> bool" where
  "keyboard_ok k \<longleftrightarrow> length (key_buffer k) = KEY_BUFFER_SIZE
     \<and> key_buffer_head k < KEY_BUFFER_SIZE \<and> key_buffer_tail k < KEY_BUFFER_SIZE"

definition key_count :: "keyboard \<Rightarrow> nat" where
  "key_count k = (if key_buffer_tail k \<le> key_buffer_head k then key_buffer_head k - key_buffer_tail k
                  else key_buffer_head k + KEY_BUFFER_SIZE - key_buffer_tail k)"

definition slot :: "keyboard \<Rightarrow> nat \<Rightarrow> nat" where
  "slot k i = (key_buffer_tail k + i) mod KEY_BUFFER_SIZE"

definition pending_keys :: "keyboard \<Rightarrow> u32 list" where
  "pending_keys k = map (\<lambda>i. key_buffer k ! slot k i) [0..<key_count k]"

lemma ring_mod: "t < KEY_BUFFER_SIZE \<Longrightarrow> i \<le> KEY_BUFFER_SIZE \<Longrightarrow>
    (t + i) mod KEY_BUFFER_SIZE = (if t + i < KEY_BUFFER_SIZE then t + i else t + i - KEY_BUFFER_SIZE)"
  by (simp add: KEY_BUFFER_SIZE_def mod_if)

lemma length_pending_keys [simp]: "length (pending_keys k) = key_count k"
  by (simp add: pending_keys_def)

lemma slot_count:
  assumes "keyboard_ok k"
  shows "key_count k < KEY_BUFFER_SIZE" "slot k (key_count k) = key_buffer_head k"
    and "i < key_count k \<Longrightarrow> slot k i \<noteq> key_buffer_head k"
    and "i < key_count k \<Longrightarrow> slot k i < KEY_BUFFER_SIZE"
  using assms by (auto simp: keyboard_ok_def key_count_def slot_def ring_mod split: if_splits)

lemma add_key_full:
  assumes "keyboard_ok k"
  shows "(key_buffer_head k + 1) mod KEY_BUFFER_SIZE \<noteq> key_buffer_tail k \<longleftrightarrow> key_count k < 127"
  using assms ring_mod [of "key_buffer_head k" 1]
  by (auto simp: keyboard_ok_def key_count_def KEY_BUFFER_SIZE_def split: if_splits)

lemma add_key_ok: "keyboard_ok k \<Longrightarrow> keyboard_ok (add_key_to_buffer key k)"
  by (simp add: keyboard_ok_def add_key_to_buffer_def Let_def KEY_BUFFER_SIZE_def)

lemma add_key_pending:
  assumes "keyboard_ok k"
  shows "pending_keys (add_key_to_buffer key k) = list_put 127 key (pending_keys k)"
proof (cases "key_count k < 127")
  case True
  define k' where "k' = k\<lparr>key_buffer := (key_buffer k)[key_buffer_head k := key],
              key_buffer_head := (key_buffer_head k + 1) mod KEY_BUFFER_SIZE\<rparr>"
  have run: "add_key_to_buffer key k = k'"
    using add_key_full [OF assms] True by (simp add: add_key_to_buffer_def Let_def k'_def)
  have count: "key_count k' = Suc (key_count k)"
    using assms True ring_mod [of "key_buffer_head k" 1] unfolding k'_def
    by (auto simp: keyboard_ok_def key_count_def KEY_BUFFER_SIZE_def split: if_splits)
  have slot: "slot k' i = slot k i" for i by (simp add: slot_def k'_def)
  have buf: "key_buffer k' = (key_buffer k)[key_buffer_head k := key]" by (simp add: k'_def)
  have "key_buffer_head k < length (key_buffer k)"
    using assms by (simp add: keyboard_ok_def)
  then show ?thesis
    using slot_count [OF assms] True
    by (auto simp: run pending_keys_def count slot buf list_put_def nth_list_update) blast
next
  case False
  then show ?thesis
    using add_key_full [OF assms] by (simp add: add_key_to_buffer_def list_put_def)
qed

lemma get_key_ok: "keyboard_ok k \<Longrightarrow> keyboard_ok (snd (get_key_from_buffer k))"
  by (simp add: keyboard_ok_def get_key_from_buffer_def KEY_BUFFER_SIZE_def)

lemma get_key_pending:
  assumes "keyboard_ok k"
  shows "(fst (get_key_from_buffer k), pending_keys (snd (get_key_from_buffer k)))
    = list_get 0 (pending_keys k)"
proof (cases "key_buffer_head k = key_buffer_tail k")
  case True
  then show ?thesis
    by (simp add: get_key_from_buffer_def pending_keys_def key_count_def list_get_def)
next
  case False
  define k' where "k' = k\<lparr>key_buffer_tail := (key_buffer_tail k + 1) mod KEY_BUFFER_SIZE\<rparr>"
  have count: "key_count k = Suc (key_count k')"
    using assms False ring_mod [of "key_buffer_tail k" 1] unfolding k'_def
    by (auto simp: keyboard_ok_def key_count_def KEY_BUFFER_SIZE_def split: if_splits)
  have slot: "slot k (Suc i) = slot k' i" for i
    by (simp add: slot_def mod_simps k'_def)
  have "key_buffer k' = key_buffer k" by (simp add: k'_def)
  then have "pending_keys k = key_buffer k ! slot k 0 # pending_keys k'"
    by (simp add: pending_keys_def count slot map_upt_Suc del: upt_Suc)
  moreover have "slot k 0 = key_buffer_tail k"
    using assms by (simp add: slot_def keyboard_ok_def)
  ultimately show ?thesis
    using False by (simp add: get_key_from_buffer_def list_get_def k'_def)
qed

interpretation keys: bounded_queue add_key_to_buffer get_key_from_buffer pending_keys keyboard_ok 127 0
  by unfold_locales (rule add_key_ok add_key_pending get_key_ok get_key_pending; assumption)+

lemma keyboard_boot_ok: "keyboard_ok keyboard_boot" "pending_keys keyboard_boot = []"
  by (simp_all add: keyboard_ok_def keyboard_boot_def pending_keys_def key_count_def KEY_BUFFER_SIZE_def)

text \<open>C28: the key buffer is a first-in first-out queue of 127 keys: whatever sequence of insertions and
  removals runs from boot, \<open>get_key_from_buffer\<close> returns the keys in the order they were added, 0 when
  none is left, and a key that arrives when 127 are waiting is dropped.\<close>

theorem key_buffer_fifo:
  "fst (queue_run add_key_to_buffer get_key_from_buffer ops keyboard_boot)
    = fst (queue_run (list_put 127) (list_get 0) ops [])"
  using keys.queue_refines [OF keyboard_boot_ok(1), of ops] by (simp add: keyboard_boot_ok(2) prod_eq_iff)

section \<open>Handling a scan code\<close>

lemma tables: "length lowercase = 128" "length uppercase = 128"
  "list_all (\<lambda>key. key \<noteq> 0) lowercase" "list_all (\<lambda>key. key \<noteq> 0) uppercase"
  by (simp_all add: lowercase_def uppercase_def key_defs)

definition key_of :: "keyboard \<Rightarrow> nat \<Rightarrow> u32" where
  "key_of k c = (if capsOn k \<or> capsLock k then uppercase ! c else lowercase ! c)"

lemma key_of_nonzero: "c < 128 \<Longrightarrow> key_of k c \<noteq> 0"
  using tables by (simp add: key_of_def list_all_length)

lemma scancode_less: "unat (in1 AND 0x7F :: u8) < 128"
proof -
  have "in1 AND 0x7F \<le> 0x7F" by (rule word_and_le1)
  then show ?thesis by (simp add: word_le_nat_alt)
qed

lemma kernel_write_char:
  "kernel_write str_at [37, 99] args s = Some (putc_kernel (ucast (args 0)) s)"
  by (simp add: kernel_write_def printf_step_def printf_spec_def printf_start_def)

definition keyboard_inv :: "keyboard \<times> screen \<Rightarrow> bool" where
  "keyboard_inv st \<longleftrightarrow> keyboard_ok (fst st) \<and> 0 \<notin> set (pending_keys (fst st)) \<and> console_ok (snd st)"

lemma handle_special_key_inv:
  assumes "keyboard_inv st"
  shows "keyboard_inv (handle_special_key key pressed st)"
    and "pending_keys (fst (handle_special_key key pressed st)) = pending_keys (fst st)"
proof -
  obtain k s where st: "st = (k, s)" by (cases st)
  have ok: "keyboard_ok (k\<lparr>capsOn := a, capsLock := b\<rparr>) = keyboard_ok k" for a b
    by (simp add: keyboard_ok_def)
  have *: "pending_keys (k\<lparr>capsOn := a\<rparr>) = pending_keys k" "pending_keys (k\<lparr>capsLock := b\<rparr>) = pending_keys k"
    "keyboard_ok (k\<lparr>capsOn := a\<rparr>) = keyboard_ok k" "keyboard_ok (k\<lparr>capsLock := b\<rparr>) = keyboard_ok k" for a b
    by (simp_all add: pending_keys_def key_count_def slot_def keyboard_ok_def)
  show "keyboard_inv (handle_special_key key pressed st)"
    using assms st by (auto simp: handle_special_key_def keyboard_inv_def * putc_kernel_ok)
  show "pending_keys (fst (handle_special_key key pressed st)) = pending_keys (fst st)"
    using st by (auto simp: handle_special_key_def *)
qed

text \<open>C29: one keyboard interrupt, for any two bytes read from the port: the handler returns, keeps the
  buffer, the screen and the cursor valid, and appends to the waiting keys exactly the key of the scan
  code in the current shift state, when it was pressed, is not a special key and there is room; special
  keys and releases append nothing. No key is 0, so 0 from \<open>get_key_from_buffer\<close> means that no key waits.\<close>

theorem irq1_handler_correct:
  assumes "keyboard_ok k" and "0 \<notin> set (pending_keys k)" and "console_ok s"
  shows "\<exists>k' s'. irq1_handler in1 in2 (k, s) = Some (k', s')
    \<and> keyboard_ok k' \<and> 0 \<notin> set (pending_keys k') \<and> console_ok s'
    \<and> pending_keys k' =
        (if is_special_key (lowercase ! unat (in1 AND 0x7F)) \<or> in2 AND 0x80 \<noteq> 0 then pending_keys k
         else list_put 127 (key_of k (unat (in1 AND 0x7F))) (pending_keys k))"
proof (cases "is_special_key (lowercase ! unat (in1 AND 0x7F))")
  case True
  have inv: "keyboard_inv (k, s)" using assms by (simp add: keyboard_inv_def)
  show ?thesis
    using True handle_special_key_inv [OF inv, of "lowercase ! unat (in1 AND 0x7F)" "in2 AND 0x80 = 0"]
    by (cases "handle_special_key (lowercase ! unat (in1 AND 0x7F)) (in2 AND 0x80 = 0) (k, s)")
      (simp add: irq1_handler_def keyboard_inv_def)
next
  case False
  let ?c = "unat (in1 AND 0x7F)"
  have nz: "0 \<notin> set (list_put 127 (key_of k ?c) (pending_keys k))"
    using assms(2) key_of_nonzero [OF scancode_less, of k in1] by (auto simp: list_put_def)
  show ?thesis
    using False assms nz putc_kernel_ok [OF assms(3)] add_key_ok [OF assms(1)]
    by (simp add: irq1_handler_def kernel_write_char add_key_pending Let_def flip: key_of_def)
qed

theorem irq1_handler_correct_witness:
  "\<exists>k' s'. irq1_handler 0x1E 0x1E (keyboard_boot\<lparr>capsOn := True\<rparr>, blank_screen) = Some (k', s')
    \<and> pending_keys k' = [65]"
proof -
  have "keyboard_ok (keyboard_boot\<lparr>capsOn := True\<rparr>)" "pending_keys (keyboard_boot\<lparr>capsOn := True\<rparr>) = []"
    by (simp_all add: keyboard_ok_def keyboard_boot_def pending_keys_def key_count_def KEY_BUFFER_SIZE_def)
  moreover have "console_ok blank_screen"
    by (simp add: console_ok_def blank_screen_def vga_mode_def screen_ok_def)
  ultimately show ?thesis
    using irq1_handler_correct [of "keyboard_boot\<lparr>capsOn := True\<rparr>" blank_screen "0x1E" "0x1E"]
    by (auto simp: lowercase_def uppercase_def is_special_key_def key_of_def list_put_def key_defs)
qed

end
