(* ===== verification/Vga.thy ===== *)
theory Vga
  imports Framebuffer
begin

text \<open>
  The text mode driver \<open>drivers/video/vga/vga.c\<close>. The video memory at \<open>0xB8000\<close> is an array of 16-bit
  cells, read and written through \<open>vga_address[i]\<close> with an \<open>int\<close> index; the index can be negative.
  \<open>column\<close> and \<open>line\<close> are 16-bit counters; they are natural numbers here, as the invariant below keeps
  them under 81.
\<close>

section \<open>The driver\<close>

definition width_screen :: nat where "width_screen = 80"
definition height_screen :: nat where "height_screen = 25"

definition defaultColor :: u16 where
  "defaultColor = push_bit 8 0 OR push_bit 12 7"

record vga =
  vga_column :: nat
  vga_line :: nat
  currColor :: u16
  cells :: "int \<Rightarrow> u16"

definition put_cell :: "int \<Rightarrow> u16 \<Rightarrow> vga \<Rightarrow> vga" where
  "put_cell i c v = v\<lparr>cells := (cells v)(i := c)\<rparr>"

definition cell_at :: "nat \<Rightarrow> nat \<Rightarrow> int" where
  "cell_at y x = int y * int width_screen + int x"

definition vga_reset :: "vga \<Rightarrow> vga" where
  "vga_reset v =
     (let v = v\<lparr>vga_line := 0, vga_column := 0, currColor := defaultColor\<rparr>
      in fold (\<lambda>y. fold (\<lambda>x. put_cell (cell_at y x) (32 OR defaultColor)) [0..<width_screen])
           [0..<height_screen] v)"

text \<open>The copying loop starts with line 0, whose cells go to the indices \<open>(0 - 1) * 80 + x\<close>.\<close>

definition scrollUp :: "vga \<Rightarrow> vga" where
  "scrollUp v =
     (let v = fold (\<lambda>y. fold (\<lambda>x v. put_cell ((int y - 1) * int width_screen + int x)
                                  (cells v (cell_at y x)) v) [0..<width_screen]) [0..<height_screen] v
      in fold (\<lambda>x v. put_cell (cell_at (height_screen - 1) x) (32 OR currColor v) v) [0..<width_screen] v)"

definition newLine :: "vga \<Rightarrow> vga" where
  "newLine v =
     (if vga_line v < height_screen - 1 then v\<lparr>vga_line := vga_line v + 1, vga_column := 0\<rparr>
      else (scrollUp v)\<lparr>vga_column := 0\<rparr>)"

definition handleBackspace :: "vga \<Rightarrow> vga" where
  "handleBackspace v =
     (if vga_column v > 0 then
        (let v = v\<lparr>vga_column := vga_column v - 1\<rparr>
         in put_cell (cell_at (vga_line v) (vga_column v)) (32 OR currColor v) v)
      else if vga_line v > 0 then
        (let v = v\<lparr>vga_line := vga_line v - 1, vga_column := width_screen - 1\<rparr>
         in put_cell (cell_at (vga_line v) (vga_column v)) (32 OR currColor v) v)
      else v)"

text \<open>Writing one cell at the cursor and moving on; a \<open>char\<close> is sign extended before it is combined
  with the colour.\<close>

definition put_char_cell :: "u16 \<Rightarrow> vga \<Rightarrow> vga" where
  "put_char_cell c v =
     (let v' = put_cell (cell_at (vga_line v) (vga_column v)) (c OR currColor v) v
      in v'\<lparr>vga_column := vga_column v + 1\<rparr>)"

definition print_char :: "u8 \<Rightarrow> vga \<Rightarrow> vga" where
  "print_char c v =
     (if c = 10 then newLine v
      else if c = 13 then v\<lparr>vga_column := 0\<rparr>
      else if c = 9 then
        (let v = (if vga_column v = width_screen then newLine v else v);
             tablen = 4 - vga_column v mod 4
         in (put_char_cell 32 ^^ tablen) v)
      else if c = 8 then handleBackspace v
      else
        (let v = (if vga_column v = width_screen then newLine v else v)
         in put_char_cell (scast c) v))"

fun print :: "cstr \<Rightarrow> vga \<Rightarrow> vga" where
  "print [] v = v"
| "print (c # s) v = print s (print_char c v)"

section \<open>Cells\<close>

lemma put_cell_simps [simp]:
  "vga_column (put_cell i c v) = vga_column v" "vga_line (put_cell i c v) = vga_line v"
  "currColor (put_cell i c v) = currColor v" "cells (put_cell i c v) = (cells v)(i := c)"
  by (simp_all add: put_cell_def)

text \<open>The fields that copying cells keeps.\<close>

definition same_cursor :: "vga \<Rightarrow> vga \<Rightarrow> bool" where
  "same_cursor v w \<longleftrightarrow> vga_column w = vga_column v \<and> vga_line w = vga_line v \<and> currColor w = currColor v"

text \<open>Copying line \<open>y\<close> up.\<close>

definition copy_line :: "nat \<Rightarrow> vga \<Rightarrow> vga" where
  "copy_line y = fold (\<lambda>x v. put_cell ((int y - 1) * int width_screen + int x) (cells v (cell_at y x)) v)
                   [0..<width_screen]"

lemma fill_line:
  assumes "n \<le> width_screen" and "\<And>w. g w = currColor w"
  shows "same_cursor v (fold (\<lambda>x v. put_cell (cell_at y x) (f (g v)) v) [0..<n] v)
    \<and> cells (fold (\<lambda>x v. put_cell (cell_at y x) (f (g v)) v) [0..<n] v)
      = (\<lambda>i. if cell_at y 0 \<le> i \<and> i < cell_at y n then f (currColor v) else cells v i)"
  using assms by (induction n) (auto simp: same_cursor_def cell_at_def fun_eq_iff)

lemma copy_line_cells:
  "same_cursor v (copy_line y v)
   \<and> cells (copy_line y v) = (\<lambda>i. if (int y - 1) * int width_screen \<le> i \<and> i < int y * int width_screen
                              then cells v (i + int width_screen) else cells v i)"
proof -
  let ?go = "\<lambda>n. fold (\<lambda>x v. put_cell ((int y - 1) * int width_screen + int x) (cells v (cell_at y x)) v) [0..<n] v"
  have "same_cursor v (?go n) \<and> cells (?go n) = (\<lambda>i. if (int y - 1) * int width_screen \<le> i
      \<and> i < (int y - 1) * int width_screen + int n then cells v (i + int width_screen) else cells v i)"
    if "n \<le> width_screen" for n
    using that
  proof (induction n)
    case (Suc n)
    then show ?case
      by (auto simp: same_cursor_def cell_at_def fun_eq_iff width_screen_def)
  qed (auto simp: same_cursor_def fun_eq_iff)
  from this [of width_screen] show ?thesis
    by (simp add: copy_line_def algebra_simps)
qed

lemma copy_lines_cells:
  "same_cursor v (fold copy_line [0..<n] v)
   \<and> cells (fold copy_line [0..<n] v) = (\<lambda>i. if - int width_screen \<le> i \<and> i < (int n - 1) * int width_screen
                              then cells v (i + int width_screen) else cells v i)"
proof (induction n)
  case (Suc n)
  then show ?case
    using copy_line_cells [of "fold copy_line [0..<n] v" n]
    by (auto simp: same_cursor_def fun_eq_iff width_screen_def)
qed (auto simp: same_cursor_def fun_eq_iff)

lemma scrollUp_run:
  "same_cursor v (scrollUp v) \<and> cells (scrollUp v) i =
     (if - 80 \<le> i \<and> i < 1920 then cells v (i + 80)
      else if 1920 \<le> i \<and> i < 2000 then 32 OR currColor v else cells v i)"
proof -
  let ?w = "fold copy_line [0..<height_screen] v"
  have "scrollUp v = fold (\<lambda>x v. put_cell (cell_at (height_screen - 1) x) (32 OR currColor v) v) [0..<width_screen] ?w"
    by (simp add: scrollUp_def copy_line_def [abs_def])
  moreover have "currColor ?w = currColor v" using copy_lines_cells [of v height_screen] by (simp add: same_cursor_def)
  ultimately show ?thesis
    using fill_line [of width_screen currColor ?w "height_screen - 1" "\<lambda>c. 32 OR c"] copy_lines_cells [of v height_screen]
    by (auto simp: same_cursor_def cell_at_def width_screen_def height_screen_def)
qed

text \<open>\<open>scrollUp\<close> moves every line of the screen up by one and blanks the last one. It also copies
  line 0 to the 80 cells before the video memory, and changes nothing else.\<close>

theorem scrollUp_moves_lines:
  "cells (scrollUp v) i =
     (if 0 \<le> i \<and> i < 1920 then cells v (i + 80)
      else if 1920 \<le> i \<and> i < 2000 then 32 OR currColor v
      else if - 80 \<le> i \<and> i < 0 then cells v (i + 80) else cells v i)"
  using scrollUp_run [of v i] by auto

section \<open>Printing stays on the screen\<close>

definition vga_ok :: "vga \<Rightarrow> bool" where
  "vga_ok v \<longleftrightarrow> vga_line v < height_screen \<and> vga_column v \<le> width_screen"

definition vga_safe :: "vga \<Rightarrow> vga \<Rightarrow> bool" where
  "vga_safe v w \<longleftrightarrow> vga_ok w \<and> currColor w = currColor v \<and> (\<forall>i. i < - 80 \<or> 2000 \<le> i \<longrightarrow> cells w i = cells v i)"

lemma vga_safe_trans: "vga_safe u v \<Longrightarrow> vga_safe v w \<Longrightarrow> vga_safe u w"
  by (simp add: vga_safe_def)

lemma cell_on_screen: "y < height_screen \<Longrightarrow> x < width_screen \<Longrightarrow> 0 \<le> cell_at y x \<and> cell_at y x < 2000"
  by (auto simp: cell_at_def width_screen_def height_screen_def)

lemma newLine_safe:
  assumes "vga_ok v"
  shows "vga_safe v (newLine v)" "vga_column (newLine v) = 0"
  using assms scrollUp_run [of v]
  by (auto simp: vga_safe_def vga_ok_def newLine_def same_cursor_def)

lemma handleBackspace_safe: "vga_ok v \<Longrightarrow> vga_safe v (handleBackspace v)"
  by (auto simp: vga_safe_def vga_ok_def handleBackspace_def Let_def width_screen_def height_screen_def
      cell_at_def)

lemma put_char_cell_safe:
  "vga_ok v \<Longrightarrow> vga_column v < width_screen \<Longrightarrow> vga_safe v (put_char_cell c v)
     \<and> vga_column (put_char_cell c v) = Suc (vga_column v)"
  using cell_on_screen [of "vga_line v" "vga_column v"]
  by (auto simp: vga_safe_def vga_ok_def put_char_cell_def Let_def)

lemma put_char_cells_safe:
  assumes "vga_ok v" and "vga_column v + n \<le> width_screen"
  shows "vga_safe v ((put_char_cell c ^^ n) v) \<and> vga_column ((put_char_cell c ^^ n) v) = vga_column v + n"
  using assms(2)
proof (induction n)
  case 0
  then show ?case using assms(1) by (simp add: vga_safe_def)
next
  case (Suc n)
  then have IH: "vga_safe v ((put_char_cell c ^^ n) v)" "vga_column ((put_char_cell c ^^ n) v) = vga_column v + n"
    by simp_all
  then show ?case
    using put_char_cell_safe [of "(put_char_cell c ^^ n) v" c] Suc.prems
    by (auto simp: vga_safe_def)
qed

lemma wrapped_safe:
  assumes "vga_ok v"
  shows "vga_safe v (if vga_column v = width_screen then newLine v else v)"
    and "vga_column (if vga_column v = width_screen then newLine v else v) < width_screen"
  using assms newLine_safe [OF assms] by (auto simp: vga_ok_def vga_safe_def width_screen_def)

lemma tab_fits: "x < width_screen \<Longrightarrow> x + (4 - x mod 4) \<le> width_screen"
  unfolding width_screen_def by presburger

lemma print_char_safe:
  assumes "vga_ok v"
  shows "vga_safe v (print_char c v)"
proof -
  let ?v = "if vga_column v = width_screen then newLine v else v"
  have ok: "vga_ok ?v" using wrapped_safe(1) [OF assms] by (simp add: vga_safe_def)
  have "vga_safe v ((put_char_cell 32 ^^ (4 - vga_column ?v mod 4)) ?v)" "vga_safe v (put_char_cell (scast c) ?v)"
    using put_char_cells_safe [OF ok tab_fits [OF wrapped_safe(2) [OF assms]]]
      put_char_cell_safe [OF ok wrapped_safe(2) [OF assms]] wrapped_safe(1) [OF assms]
    by (auto intro: vga_safe_trans)
  moreover have "vga_safe v (v\<lparr>vga_column := 0\<rparr>)" using assms by (simp add: vga_safe_def vga_ok_def)
  ultimately show ?thesis
    using newLine_safe [OF assms] handleBackspace_safe [OF assms] by (simp add: print_char_def Let_def)
qed

lemma print_safe: "vga_ok v \<Longrightarrow> vga_safe v (print s v)"
proof (induction s arbitrary: v)
  case (Cons c s)
  then show ?case
    using print_char_safe [of v c] by (auto simp: vga_safe_def)
qed (simp add: vga_safe_def)

text \<open>Whatever bytes are printed, the cursor of the text mode driver stays in its 25 lines (a column of
  80 means that the next character starts a line), the colour stays, and no cell outside the screen and
  the 80 cells before it is written.\<close>

theorem vga_print_stays:
  assumes "vga_line v < 25" and "vga_column v \<le> 80"
  shows "vga_line (print s v) < 25 \<and> vga_column (print s v) \<le> 80 \<and> currColor (print s v) = currColor v
    \<and> (\<forall>i. i < - 80 \<or> 2000 \<le> i \<longrightarrow> cells (print s v) i = cells v i)"
  using print_safe [of v s] assms by (auto simp: vga_safe_def vga_ok_def width_screen_def height_screen_def)

definition vga_boot :: vga where
  "vga_boot = \<lparr>vga_column = 0, vga_line = 24, currColor = defaultColor, cells = (\<lambda>_. 0)\<rparr>"

theorem vga_print_stays_witness: "vga_line (print [72, 10, 9, 8] vga_boot) < 25"
  using vga_print_stays [of vga_boot "[72, 10, 9, 8]"] by (simp add: vga_boot_def)

end
