(* ===== verification/Clib.thy ===== *)
theory Clib
  imports Kernel_Prelude
begin

text \<open>
  The kernel's own string and memory functions: \<open>libk/memory.c\<close> and \<open>libk/string.c\<close>. Memory is a map
  from 32-bit addresses to bytes, pointer arithmetic wraps; \<open>char\<close> is signed. The loops of
  \<open>string.c\<close> end only at a zero byte, so they are partial.
\<close>

type_synonym bytes = "u32 \<Rightarrow> u8"

section \<open>The functions\<close>

text \<open>The counter of \<open>memset\<close> is an \<open>int\<close>: from \<open>2\<^sup>3\<^sup>1\<close> bytes on it overflows. So does the countdown of
  \<open>memcpy\<close> for a negative length.\<close>

definition memset :: "u32 \<Rightarrow> u32 \<Rightarrow> u32 \<Rightarrow> bytes \<Rightarrow> bytes option" where
  "memset ptr c n m =
     (if n < 0x80000000 then Some (fold (\<lambda>i m. m(ptr + of_nat i := ucast c)) [0..<unat n] m) else None)"

definition memcpy :: "u32 \<Rightarrow> u32 \<Rightarrow> int \<Rightarrow> bytes \<Rightarrow> bytes option" where
  "memcpy dest src len m =
     (if len < 0 then None
      else Some (fold (\<lambda>i m. m(dest + of_nat i := m (src + of_nat i))) [0..<nat len] m))"

fun memcmp_loop :: "bytes \<Rightarrow> u32 \<Rightarrow> u32 \<Rightarrow> nat \<Rightarrow> int" where
  "memcmp_loop m c1 c2 0 = 0"
| "memcmp_loop m c1 c2 (Suc count) =
     (if m c1 \<noteq> m c2 then (if sint (m c1) < sint (m c2) then - 1 else 1)
      else memcmp_loop m (c1 + 1) (c2 + 1) count)"

definition memcmp :: "bytes \<Rightarrow> u32 \<Rightarrow> u32 \<Rightarrow> int \<Rightarrow> int" where
  "memcmp m s1 s2 count = memcmp_loop m s1 s2 (nat count)"

partial_function (option) strchr :: "bytes \<Rightarrow> u32 \<Rightarrow> u32 \<Rightarrow> u32 option" where
  "strchr m str c =
     (if m str \<noteq> 0 then (if m str = ucast c then Some str else strchr m (str + 1) c)
      else Some (if c = 0 then str else 0))"

partial_function (option) strlen_loop :: "bytes \<Rightarrow> u32 \<Rightarrow> nat \<Rightarrow> nat option" where
  "strlen_loop m ptr i = (if m ptr \<noteq> 0 then strlen_loop m (ptr + 1) (i + 1) else Some i)"

definition strlen :: "bytes \<Rightarrow> u32 \<Rightarrow> nat option" where
  "strlen m ptr = strlen_loop m ptr 0"

partial_function (option) strcpy :: "u32 \<Rightarrow> u32 \<Rightarrow> bytes \<Rightarrow> bytes option" where
  "strcpy dest src m =
     (let m' = m(dest := m src)
      in if m' dest \<noteq> 0 then strcpy (dest + 1) (src + 1) m' else Some m')"

section \<open>Regions\<close>

text \<open>The offset of an address in a region that starts at \<open>p\<close>; \<open>p\<close>'s region of length \<open>n\<close> may wrap.\<close>

definition offset :: "u32 \<Rightarrow> u32 \<Rightarrow> nat" where
  "offset p a = unat (a - p)"

lemma offset_region [simp]: "i < 4294967296 \<Longrightarrow> offset p (p + of_nat i) = i"
  by (simp add: offset_def unat_of_nat)

lemma offset_self [simp]: "offset p p = 0"
  by (simp add: offset_def)

lemma offset_less_Suc:
  assumes "i < 4294967296"
  shows "offset p a < Suc i \<longleftrightarrow> offset p a < i \<or> a = p + of_nat i"
proof -
  have "a = p + of_nat (offset p a)" by (simp add: offset_def)
  then have "offset p a = i \<longleftrightarrow> a = p + of_nat i" using assms by auto
  then show ?thesis by auto
qed

text \<open>A copy from \<open>src\<close> upwards does not read what it has written before.\<close>

lemma offset_before:
  assumes "i < len" and "len \<le> 4294967296" and "dest = src \<or> len \<le> offset src dest"
  shows "\<not> offset dest (src + of_nat i) < i"
proof (cases "dest = src")
  case True
  then show ?thesis using assms(1,2) by simp
next
  case False
  define e where "e = dest - src"
  have le: "len \<le> unat e" using False assms(3) by (simp add: offset_def e_def)
  have i: "unat (of_nat i :: u32) = i"
    using assms(1) le unat_u32_less [of e] by (simp add: unat_of_nat)
  have "src + of_nat i - dest = of_nat i - e" by (simp add: e_def)
  then have "offset dest (src + of_nat i) = unat (of_nat i - e)" by (simp only: offset_def)
  moreover have "\<not> e \<le> of_nat i"
    using assms(1) le i by (simp add: word_le_nat_alt)
  then have "\<not> unat e \<le> i" using i by (simp add: word_le_nat_alt)
  ultimately have "offset dest (src + of_nat i) = 4294967296 + i - unat e"
    using i by (simp add: unat_sub_if_size word_size)
  then show ?thesis
    using unat_u32_less [of e] by simp
qed

text \<open>Memory when the first \<open>k\<close> bytes have been copied.\<close>

definition copied :: "u32 \<Rightarrow> u32 \<Rightarrow> bytes \<Rightarrow> nat \<Rightarrow> bytes" where
  "copied dest src m k = (\<lambda>a. if offset dest a < k then m (src + (a - dest)) else m a)"

lemma copied_0 [simp]: "copied dest src m 0 = m"
  by (simp add: copied_def)

lemma copied_step:
  assumes "k < len" and "len \<le> 4294967296" and "dest = src \<or> len \<le> offset src dest"
  shows "copied dest src m k (src + of_nat k) = m (src + of_nat k)"
    and "(copied dest src m k)(dest + of_nat k := m (src + of_nat k)) = copied dest src m (Suc k)"
  using offset_before [OF assms] offset_less_Suc [of k dest] assms(1,2)
  by (auto simp: copied_def fun_eq_iff)

lemma copied_at: "k < n \<Longrightarrow> k < 4294967296 \<Longrightarrow> copied dest src m n (dest + of_nat k) = m (src + of_nat k)"
  by (simp add: copied_def)

lemma memset_run:
  assumes "n < 0x80000000"
  shows "memset ptr c n m = Some (\<lambda>a. if offset ptr a < unat n then ucast c else m a)"
proof -
  have "unat n \<le> 4294967296" using unat_u32_less [of n] by simp
  moreover have "fold (\<lambda>i m. m(ptr + of_nat i := ucast c)) [0..<k] m = (\<lambda>a. if offset ptr a < k then ucast c else m a)"
    if "k \<le> 4294967296" for k
    using that by (induction k) (auto simp: fun_eq_iff offset_less_Suc)
  ultimately show ?thesis using assms by (simp add: memset_def)
qed

lemma memcpy_run:
  assumes "0 \<le> len" and "len \<le> 4294967296" and "dest = src \<or> nat len \<le> offset src dest"
  shows "memcpy dest src len m = Some (copied dest src m (nat len))"
proof -
  have "fold (\<lambda>i m. m(dest + of_nat i := m (src + of_nat i))) [0..<k] m = copied dest src m k"
    if "k \<le> nat len" for k
    using that
  proof (induction k)
    case (Suc k)
    then show ?case using copied_step [of k "nat len" dest src m] assms by (simp del: fun_upd_apply)
  qed simp
  from this [of "nat len"] show ?thesis using assms(1) by (simp add: memcpy_def)
qed

section \<open>Strings in memory\<close>

definition string_at :: "bytes \<Rightarrow> u32 \<Rightarrow> u8 list \<Rightarrow> bool" where
  "string_at m p cs \<longleftrightarrow> 0 \<notin> set cs \<and> length cs < 4294967296
     \<and> (\<forall>i < length cs. m (p + of_nat i) = cs ! i) \<and> m (p + of_nat (length cs)) = 0"

lemma string_at_Nil: "string_at m p [] \<longleftrightarrow> m p = 0"
  by (simp add: string_at_def)

lemma string_at_Cons:
  "string_at m p (c # cs) \<longleftrightarrow> c \<noteq> 0 \<and> m p = c \<and> string_at m (p + 1) cs \<and> Suc (length cs) < 4294967296"
proof -
  have "(\<forall>i < Suc n. m (p + of_nat i) = (c # cs) ! i) \<longleftrightarrow> m p = c \<and> (\<forall>i < n. m (p + 1 + of_nat i) = cs ! i)" for n
    by (simp add: All_less_Suc2 add.assoc)
  then show ?thesis by (auto simp: string_at_def add.assoc)
qed

lemma strlen_loop_run: "string_at m p cs \<Longrightarrow> strlen_loop m p i = Some (i + length cs)"
proof (induction cs arbitrary: p i)
  case Nil
  then show ?case by (simp add: string_at_Nil strlen_loop.simps)
next
  case (Cons c cs)
  have "strlen_loop m p i = strlen_loop m (p + 1) (i + 1)"
    using Cons.prems by (subst strlen_loop.simps) (simp add: string_at_Cons)
  then show ?case using Cons by (simp add: string_at_Cons)
qed

lemma strlen_run: "string_at m p cs \<Longrightarrow> strlen m p = Some (length cs)"
  by (simp add: strlen_def strlen_loop_run)

lemma strcpy_run:
  assumes "string_at m src cs" and "dest = src \<or> Suc (length cs) \<le> offset src dest"
  shows "strcpy dest src m = Some (copied dest src m (Suc (length cs)))"
proof -
  have len: "Suc (length cs) \<le> 4294967296" using assms(1) by (simp add: string_at_def)
  have "strcpy (dest + of_nat i) (src + of_nat i) (copied dest src m i) = Some (copied dest src m (Suc (length cs)))"
    if "i \<le> length cs" for i
    using that
  proof (induction i rule: inc_induct)
    case base
    then show ?case
      using copied_step [of "length cs" "Suc (length cs)" dest src m] len assms
        copied_at [of "length cs" "Suc (length cs)" dest src m]
      by (subst strcpy.simps) (simp add: Let_def string_at_def del: fun_upd_apply)
  next
    case (step i)
    then have "cs ! i \<in> set cs" "m (src + of_nat i) = cs ! i"
      using assms(1) by (auto simp: string_at_def)
    then have "m (src + of_nat i) \<noteq> 0"
      using assms(1) by (auto simp: string_at_def)
    then show ?case
      using copied_step [of i "Suc (length cs)" dest src m] len assms step
        copied_at [of i "Suc i" dest src m]
      by (subst strcpy.simps) (simp add: Let_def add.assoc add.commute [of 1] del: fun_upd_apply)
  qed
  from this [of 0] show ?thesis by simp
qed

text \<open>\<open>strcpy\<close> copies a string with its terminator to any place that does not lie inside the
  string: the copy reads back as the string, \<open>strlen\<close> returns its length, and every byte outside the
  copy keeps its value.\<close>

theorem strcpy_copies:
  assumes "string_at m src cs" and "Suc (length cs) \<le> offset src dest"
  shows "\<exists>m'. strcpy dest src m = Some m' \<and> string_at m' dest cs \<and> strlen m' dest = Some (length cs)
    \<and> (\<forall>a. length cs < offset dest a \<longrightarrow> m' a = m a)"
proof -
  let ?m = "copied dest src m (Suc (length cs))"
  have "?m (dest + of_nat i) = m (src + of_nat i)" if "i \<le> length cs" for i
    using that assms(1) by (simp add: copied_def string_at_def)
  then have at: "string_at ?m dest cs"
    using assms(1) by (simp add: string_at_def)
  have "\<forall>a. length cs < offset dest a \<longrightarrow> ?m a = m a" by (simp add: copied_def)
  then show ?thesis
    using strcpy_run [OF assms(1) disjI2 [OF assms(2)]] at strlen_run [OF at] by blast
qed

definition hello :: bytes where
  "hello = (\<lambda>_. 9)(0x1000 := 104, 0x1001 := 105, 0x1002 := 0)"

theorem strcpy_copies_witness:
  "\<exists>m'. strcpy 0x0FFE 0x1000 hello = Some m' \<and> string_at m' 0x0FFE [104, 105] \<and> m' 0x1001 = 105"
proof -
  have "string_at hello 0x1000 [104, 105]"
    by (simp add: string_at_Cons string_at_Nil hello_def)
  moreover have "Suc (length [104 :: u8, 105]) \<le> offset 0x1000 0x0FFE" by (simp add: offset_def)
  ultimately obtain m' where m: "strcpy 0x0FFE 0x1000 hello = Some m'" "string_at m' 0x0FFE [104, 105]"
      "\<forall>a. length [104 :: u8, 105] < offset 0x0FFE a \<longrightarrow> m' a = hello a"
    using strcpy_copies by blast
  have "m' 0x1001 = 105" using m(3) [rule_format, of "0x1001"] by (simp add: offset_def hello_def)
  with m show ?thesis by blast
qed

lemma memcmp_loop_eq:
  "n \<le> 4294967296 \<Longrightarrow> memcmp_loop m c1 c2 n = 0 \<longleftrightarrow> (\<forall>i<n. m (c1 + of_nat i) = m (c2 + of_nat i))"
  by (induction m c1 c2 n rule: memcmp_loop.induct) (auto simp: All_less_Suc2 add.assoc)

lemma memcmp_loop_less:
  "memcmp_loop m c1 c2 n = - 1 \<longleftrightarrow> (\<exists>i<n. (\<forall>j<i. m (c1 + of_nat j) = m (c2 + of_nat j))
     \<and> sint (m (c1 + of_nat i)) < sint (m (c2 + of_nat i)))"
  by (induction m c1 c2 n rule: memcmp_loop.induct)
    (auto simp: Ex_less_Suc2 All_less_Suc2 add.assoc)

end
