(* ===== verification/Pmm.thy ===== *)
theory Pmm
  imports Kernel_Prelude
begin

text \<open>
  The physical memory manager, \<open>mm/PMM/pmm.c\<close>: a bitmap with one bit per page frame, a
  window of frames that may be handed out, and a counter. The static array
  \<open>physical_memory_bitmap\<close> has \<open>PAGE_FRAMES / 8\<close> bytes; an index outside it is \<open>None\<close>.
\<close>

section \<open>State and operations\<close>

definition PAGE_FRAMES :: nat where
  "PAGE_FRAMES = 0x100000000 div 0x1000 div 8"

definition PAGE_FRAME_SIZE :: u32 where
  "PAGE_FRAME_SIZE = 4096"

record pmm_state =
  physical_memory_bitmap :: "nat \<Rightarrow> u8"
  page_frame_min_index :: u32
  page_frame_max_index :: u32
  total_allocated :: u32

definition bitmap_read :: "pmm_state \<Rightarrow> u32 \<Rightarrow> u8 option" where
  "bitmap_read s i =
     (if unat i < PAGE_FRAMES div 8 then Some (physical_memory_bitmap s (unat i)) else None)"

definition bitmap_write :: "pmm_state \<Rightarrow> u32 \<Rightarrow> u8 \<Rightarrow> pmm_state option" where
  "bitmap_write s i b =
     (if unat i < PAGE_FRAMES div 8
      then Some (s\<lparr>physical_memory_bitmap := (physical_memory_bitmap s)(unat i := b)\<rparr>)
      else None)"

definition pmm_init :: "u32 \<Rightarrow> u32 \<Rightarrow> pmm_state" where
  "pmm_init mem_low mem_high =
     \<lparr>physical_memory_bitmap = (\<lambda>_. 0),
      page_frame_min_index = CEIL_DIV mem_low PAGE_FRAME_SIZE,
      page_frame_max_index = mem_high div PAGE_FRAME_SIZE,
      total_allocated = 0\<rparr>"

definition is_page_frame_used :: "pmm_state \<Rightarrow> u32 \<Rightarrow> bool option" where
  "is_page_frame_used s pf_index = do {
     byte \<leftarrow> bitmap_read s (drop_bit 3 pf_index);
     Some (drop_bit (unat (pf_index AND 7)) byte AND 1 \<noteq> 0)
   }"

definition set_page_frame_used_or_free :: "pmm_state \<Rightarrow> u32 \<Rightarrow> bool \<Rightarrow> pmm_state option" where
  "set_page_frame_used_or_free s pf_index used = do {
     byte \<leftarrow> bitmap_read s (drop_bit 3 pf_index);
     let byte' = byte XOR (((if used then -1 else 0) XOR byte)
                           AND push_bit (unat (pf_index AND 7)) 1);
     bitmap_write s (drop_bit 3 pf_index) byte'
   }"

text \<open>The inner loop of \<open>pmm_alloc_pageframe\<close>: the first clear bit of a byte from bit \<open>i\<close> on.\<close>

function first_free_bit :: "u8 \<Rightarrow> nat \<Rightarrow> nat option" where
  "first_free_bit byte i =
     (if i < 8
      then (if drop_bit i byte AND 1 \<noteq> 0 then first_free_bit byte (Suc i) else Some i)
      else None)"
  by pat_completeness auto
termination
  by (relation "measure (\<lambda>(byte, i). 8 - i)") auto

text \<open>The outer loop, over the bytes \<open>b\<close> up to \<open>e\<close>.\<close>

function pmm_scan :: "pmm_state \<Rightarrow> u32 \<Rightarrow> u32 \<Rightarrow> (u32 \<times> pmm_state) option" where
  "pmm_scan s b e =
     (if b < e
      then (case bitmap_read s b of
              None \<Rightarrow> None
            | Some byte \<Rightarrow>
                (if byte = 0xFF then pmm_scan s (b + 1) e
                 else (case first_free_bit byte 0 of
                         None \<Rightarrow> pmm_scan s (b + 1) e
                       | Some i \<Rightarrow> do {
                           s1 \<leftarrow> bitmap_write s b (byte XOR ((-1 XOR byte) AND push_bit i 1));
                           let addr = (b * 8 + of_nat i) * PAGE_FRAME_SIZE;
                           s2 \<leftarrow> set_page_frame_used_or_free s1 (b * 8 + of_nat i) True;
                           Some (addr, s2\<lparr>total_allocated := total_allocated s2 + 1\<rparr>)
                         })))
      else Some (0, s))"
  by pat_completeness auto
termination
  by (relation "measure (\<lambda>(s, b, e). unat e - unat b)")
     (auto simp: unat_Suc_u32 word_less_nat_alt)

declare first_free_bit.simps [simp del] pmm_scan.simps [simp del]

definition scan_start :: "pmm_state \<Rightarrow> u32" where
  "scan_start s = page_frame_min_index s div 8
     + (if page_frame_min_index s AND 7 \<noteq> 0 then 1 else 0)"

definition scan_end :: "pmm_state \<Rightarrow> u32" where
  "scan_end s = page_frame_max_index s div 8
     - (if page_frame_max_index s AND 7 \<noteq> 0 then 1 else 0)"

definition pmm_alloc_pageframe :: "pmm_state \<Rightarrow> (u32 \<times> pmm_state) option" where
  "pmm_alloc_pageframe s = pmm_scan s (scan_start s) (scan_end s)"

definition pmm_free_pageframe :: "u32 \<Rightarrow> pmm_state \<Rightarrow> pmm_state option" where
  "pmm_free_pageframe addr s = (let pf_index = addr div PAGE_FRAME_SIZE in do {
     used \<leftarrow> is_page_frame_used s pf_index;
     if \<not> used then Some s
     else do {
       s1 \<leftarrow> set_page_frame_used_or_free s pf_index False;
       Some (s1\<lparr>total_allocated := total_allocated s1 - 1\<rparr>)
     }
   })"

definition pmm_get_total_allocated_pages :: "pmm_state \<Rightarrow> u32" where
  "pmm_get_total_allocated_pages s = total_allocated s"

section \<open>Abstraction: the set of used frames\<close>

definition frame_used :: "pmm_state \<Rightarrow> nat \<Rightarrow> bool" where
  "frame_used s n \<longleftrightarrow> n < PAGE_FRAMES \<and> bit (physical_memory_bitmap s (n div 8)) (n mod 8)"

definition used_frames :: "pmm_state \<Rightarrow> nat set" where
  "used_frames s = {n. frame_used s n}"

text \<open>The frames that \<open>pmm_alloc_pageframe\<close> looks at.\<close>

definition pmm_window :: "pmm_state \<Rightarrow> nat set" where
  "pmm_window s = {8 * unat (scan_start s) ..< 8 * unat (scan_end s)}"

definition window_ok :: "pmm_state \<Rightarrow> bool" where
  "window_ok s \<longleftrightarrow> 0 < scan_start s \<and> unat (scan_end s) \<le> PAGE_FRAMES div 8"

text \<open>The effect of both bit operations on the abstract set.\<close>

definition same_window :: "pmm_state \<Rightarrow> pmm_state \<Rightarrow> bool" where
  "same_window s s' \<longleftrightarrow> page_frame_min_index s' = page_frame_min_index s
     \<and> page_frame_max_index s' = page_frame_max_index s"

lemma same_window_refl [simp]: "same_window s s"
  by (simp add: same_window_def)

lemma same_window_trans: "same_window r s \<Longrightarrow> same_window s t \<Longrightarrow> same_window r t"
  by (simp add: same_window_def)

lemma same_windowD:
  "same_window s s' \<Longrightarrow> pmm_window s' = pmm_window s \<and> window_ok s' = window_ok s"
  by (simp add: same_window_def pmm_window_def window_ok_def scan_start_def scan_end_def)

lemma PAGE_FRAMES_eq: "PAGE_FRAMES = 131072"
  by (simp add: PAGE_FRAMES_def)

lemma used_frames_finite [simp]: "finite (used_frames s)"
  by (rule finite_subset [of _ "{..<PAGE_FRAMES}"]) (auto simp: used_frames_def frame_used_def)

lemma used_frames_card: "card (used_frames s) \<le> PAGE_FRAMES"
  using card_mono [of "{..<PAGE_FRAMES}" "used_frames s"]
  by (auto simp: used_frames_def frame_used_def)

lemma is_page_frame_used_iff:
  "is_page_frame_used s pf =
     (if unat pf < PAGE_FRAMES then Some (unat pf \<in> used_frames s) else None)"
  by (auto simp: is_page_frame_used_def bitmap_read_def unat_shift3 unat_and7 bit_facts
      used_frames_def frame_used_def PAGE_FRAMES_eq)

lemma set_page_frame_used_or_free_ok:
  assumes "unat pf < PAGE_FRAMES"
  obtains s' where "set_page_frame_used_or_free s pf u = Some s'"
    and "used_frames s' = (if u then insert (unat pf) (used_frames s) else used_frames s - {unat pf})"
    and "same_window s s'" and "total_allocated s' = total_allocated s"
proof -
  let ?n = "unat pf"
  let ?m = "physical_memory_bitmap s"
  let ?b = "if u then ?m (?n div 8) OR 2 ^ (?n mod 8)
            else ?m (?n div 8) AND NOT (2 ^ (?n mod 8))"
  let ?s = "s\<lparr>physical_memory_bitmap := ?m(?n div 8 := ?b)\<rparr>"
  have "set_page_frame_used_or_free s pf u = Some ?s"
    using assms by (auto simp: set_page_frame_used_or_free_def bitmap_read_def bitmap_write_def
        unat_shift3 unat_and7 bit_facts PAGE_FRAMES_eq)
  moreover have "frame_used ?s k \<longleftrightarrow> (if k = ?n then u else frame_used s k)" for k
  proof (cases "k div 8 = ?n div 8")
    case True
    then have "k = ?n \<longleftrightarrow> k mod 8 = ?n mod 8"
      by (metis mod_div_decomp)
    with True assms show ?thesis
      by (auto simp: frame_used_def bit_or_shift_one bit_and_not_shift_one PAGE_FRAMES_eq)
  next
    case False
    then show ?thesis by (auto simp: frame_used_def)
  qed
  then have "used_frames ?s = (if u then insert ?n (used_frames s) else used_frames s - {?n})"
    by (auto simp: used_frames_def)
  ultimately show thesis
    using that [of ?s] by (simp add: same_window_def)
qed

section \<open>Allocation\<close>

lemma first_free_bit_spec:
  "case first_free_bit byte i of
     None \<Rightarrow> \<forall>j. i \<le> j \<and> j < 8 \<longrightarrow> bit byte j
   | Some k \<Rightarrow> i \<le> k \<and> k < 8 \<and> \<not> bit byte k \<and> (\<forall>j. i \<le> j \<and> j < k \<longrightarrow> bit byte j)"
proof (induction byte i rule: first_free_bit.induct)
  case (1 byte i)
  show ?case
  proof (cases "i < 8 \<and> bit byte i")
    case True
    with 1 show ?thesis
      by (subst first_free_bit.simps)
         (auto simp: bit_facts Suc_le_eq split: option.splits dest: le_neq_implies_less)
  next
    case False
    then show ?thesis by (subst first_free_bit.simps) (auto simp: bit_facts)
  qed
qed

definition alloc_result :: "pmm_state \<Rightarrow> nat \<Rightarrow> nat \<Rightarrow> u32 \<Rightarrow> pmm_state \<Rightarrow> bool" where
  "alloc_result s lo hi a s' \<longleftrightarrow>
     (if {lo..<hi} \<subseteq> used_frames s then a = 0 \<and> s' = s
      else let n = (LEAST n. lo \<le> n \<and> n \<notin> used_frames s) in
        n < hi \<and> a = of_nat n * PAGE_FRAME_SIZE \<and> used_frames s' = insert n (used_frames s)
        \<and> same_window s s' \<and> total_allocated s' = total_allocated s + 1)"

lemma alloc_result_skip:
  assumes "{lo..<mid} \<subseteq> used_frames s" and "lo \<le> mid" and "mid \<le> hi"
    and "alloc_result s mid hi a s'"
  shows "alloc_result s lo hi a s'"
proof -
  have split: "{lo..<hi} = {lo..<mid} \<union> {mid..<hi}"
    using assms by auto
  have "(lo \<le> n \<and> n \<notin> used_frames s) \<longleftrightarrow> (mid \<le> n \<and> n \<notin> used_frames s)" for n
    using assms(1,2) by (metis atLeastLessThan_iff le_trans not_less subsetD)
  then show ?thesis
    using assms(1,4) by (simp add: alloc_result_def split)
qed

lemma byte_frames:
  assumes "k < PAGE_FRAMES div 8" and "i < 8"
  shows "8 * k + i \<in> used_frames s \<longleftrightarrow> bit (physical_memory_bitmap s k) i"
  using assms by (simp add: used_frames_def frame_used_def PAGE_FRAMES_eq)

lemma full_byte_used:
  assumes "k < PAGE_FRAMES div 8" and "\<forall>i<8. bit (physical_memory_bitmap s k) i"
  shows "{8 * k..<8 * Suc k} \<subseteq> used_frames s"
proof
  fix n assume "n \<in> {8 * k..<8 * Suc k}"
  then obtain i where "n = 8 * k + i" and "i < 8"
    by (metis add.commute add_less_cancel_left atLeastLessThan_iff le_Suc_ex mult_Suc_right)
  with assms show "n \<in> used_frames s" by (simp add: byte_frames)
qed

lemma alloc_result_hit:
  assumes "lo \<le> n" and "n < hi" and "n \<notin> used_frames s" and "{lo..<n} \<subseteq> used_frames s"
    and "used_frames s' = insert n (used_frames s)" and "same_window s s'"
    and "total_allocated s' = total_allocated s + 1"
  shows "alloc_result s lo hi (of_nat n * PAGE_FRAME_SIZE) s'"
proof -
  have least: "(LEAST n. lo \<le> n \<and> n \<notin> used_frames s) = n"
    using assms(1,3,4) by (intro Least_equality) (auto simp: subset_eq not_less [symmetric])
  have "\<not> {lo..<hi} \<subseteq> used_frames s"
    using assms(1-3) by auto
  with least assms show ?thesis by (simp add: alloc_result_def Let_def)
qed

text \<open>One hit of the scan: byte \<open>b\<close> has its first clear bit at \<open>i\<close>.\<close>

lemma pmm_scan_hit:
  assumes b: "unat b < PAGE_FRAMES div 8" and "b < e"
    and byte: "bitmap_read s b = Some byte" and "byte \<noteq> 0xFF"
    and i: "first_free_bit byte 0 = Some i"
  shows "\<exists>a s'. pmm_scan s b e = Some (a, s') \<and> alloc_result s (8 * unat b) (8 * unat e) a s'"
proof -
  let ?n = "8 * unat b + i"
  have i8: "i < 8" and free: "\<not> bit byte i" and below: "\<forall>j<i. bit byte j"
    using first_free_bit_spec [where byte = byte and i = 0] i by auto
  have byte_eq: "byte = physical_memory_bitmap s (unat b)"
    using byte b by (simp add: bitmap_read_def)
  have idx: "unat (b * 8 + of_nat i :: u32) = ?n"
    using b i8 by (simp add: PAGE_FRAMES_eq unat_word_ariths unat_of_nat)
  define s1 where "s1 = s\<lparr>physical_memory_bitmap :=
    (physical_memory_bitmap s)(unat b := byte OR 2 ^ i)\<rparr>"
  have w: "bitmap_write s b (byte XOR ((-1 XOR byte) AND push_bit i 1)) = Some s1"
    using b by (simp add: bitmap_write_def s1_def xor_set_bit)
  have s1_used: "used_frames s1 = insert ?n (used_frames s)"
  proof -
    have "k \<in> used_frames s1 \<longleftrightarrow> k = ?n \<or> k \<in> used_frames s" for k
    proof (cases "k div 8 = unat b")
      case True
      then have "k = 8 * unat b + k mod 8" by presburger
      with True b i8 show ?thesis
        by (auto simp: s1_def byte_eq used_frames_def frame_used_def bit_or_shift_one PAGE_FRAMES_eq)
    next
      case False
      with i8 show ?thesis by (auto simp: s1_def used_frames_def frame_used_def)
    qed
    then show ?thesis by auto
  qed
  have "?n < PAGE_FRAMES"
    using b i8 by (simp add: PAGE_FRAMES_eq)
  then obtain s2 where s2: "set_page_frame_used_or_free s1 (b * 8 + of_nat i) True = Some s2"
    "used_frames s2 = insert ?n (used_frames s1)" "same_window s1 s2"
    "total_allocated s2 = total_allocated s1"
    using set_page_frame_used_or_free_ok [of "b * 8 + of_nat i" s1 True] idx by auto
  let ?s' = "s2\<lparr>total_allocated := total_allocated s2 + 1\<rparr>"
  have "pmm_scan s b e = Some ((b * 8 + of_nat i) * PAGE_FRAME_SIZE, ?s')"
    using assms w s2(1) by (subst pmm_scan.simps) (simp add: Let_def)
  moreover have "b * 8 + of_nat i = (of_nat ?n :: u32)"
    by (simp add: mult.commute)
  moreover have "alloc_result s (8 * unat b) (8 * unat e) (of_nat ?n * PAGE_FRAME_SIZE) ?s'"
  proof (rule alloc_result_hit)
    show "?n < 8 * unat e"
      using \<open>b < e\<close> i8 by (simp add: word_less_nat_alt)
    show "?n \<notin> used_frames s"
      using b i8 free byte_eq by (simp add: byte_frames)
    show "{8 * unat b..<?n} \<subseteq> used_frames s"
    proof
      fix k assume "k \<in> {8 * unat b..<?n}"
      then obtain j where "k = 8 * unat b + j" "j < i"
        by (metis add_less_cancel_left atLeastLessThan_iff le_Suc_ex)
      with b i8 below byte_eq show "k \<in> used_frames s" by (simp add: byte_frames)
    qed
    show "used_frames ?s' = insert ?n (used_frames s)"
      using s2(2) s1_used by (simp add: used_frames_def frame_used_def)
    show "same_window s ?s'" and "total_allocated ?s' = total_allocated s + 1"
      using s2(3,4) by (simp_all add: same_window_def s1_def)
  qed simp
  ultimately show ?thesis by auto
qed

lemma pmm_scan_spec:
  assumes "unat e \<le> PAGE_FRAMES div 8"
  shows "\<exists>a s'. pmm_scan s b e = Some (a, s') \<and> alloc_result s (8 * unat b) (8 * unat e) a s'"
  using assms
proof (induction s b e rule: pmm_scan.induct)
  case (1 s b e)
  show ?case
  proof (cases "b < e")
    case False
    then show ?thesis
      by (subst pmm_scan.simps) (auto simp: alloc_result_def word_less_nat_alt)
  next
    case True
    with "1.prems" have b: "unat b < PAGE_FRAMES div 8" by (simp add: word_less_nat_alt)
    then obtain byte where byte: "bitmap_read s b = Some byte"
      and byte_eq: "byte = physical_memory_bitmap s (unat b)"
      by (simp add: bitmap_read_def)
    have full: "first_free_bit byte 0 = None \<longleftrightarrow> byte = 0xFF"
      using first_free_bit_spec [where byte = byte and i = 0] by (auto simp: all_bits_u8_iff split: option.splits)
    show ?thesis
    proof (cases "byte = 0xFF")
      case False
      with full obtain i where "first_free_bit byte 0 = Some i" by auto
      with b True byte False show ?thesis by (intro pmm_scan_hit) auto
    next
      case ff: True
      with True byte have step: "pmm_scan s b e = pmm_scan s (b + 1) e"
        by (subst pmm_scan.simps) simp
      from "1.IH"(1) [OF True byte ff "1.prems"] obtain a s' where
        r: "pmm_scan s (b + 1) e = Some (a, s')"
        and res: "alloc_result s (8 * unat (b + 1)) (8 * unat e) a s'" by auto
      have "{8 * unat b..<8 * unat (b + 1)} \<subseteq> used_frames s"
        using full_byte_used [OF b, of s] ff byte_eq True by (simp add: unat_Suc_u32 all_bits_u8_iff)
      moreover have "8 * unat (b + 1) \<le> 8 * unat e"
        using True by (simp add: unat_Suc_u32 word_less_nat_alt Suc_le_eq)
      ultimately have "alloc_result s (8 * unat b) (8 * unat e) a s'"
        using res True by (intro alloc_result_skip [of "8 * unat b" "8 * unat (b + 1)"])
          (simp_all add: unat_Suc_u32)
      with step r show ?thesis by auto
    qed
  qed
qed

section \<open>The frame pool interface\<close>

text \<open>
  What the clients of the memory manager rely on: allocation hands out a frame that is not in
  use, or 0 when there is none, and freeing a frame in use puts it back.
\<close>

locale frame_pool =
  fixes alloc :: "'s \<Rightarrow> (u32 \<times> 's) option"
    and free :: "u32 \<Rightarrow> 's \<Rightarrow> 's option"
    and frames :: "'s \<Rightarrow> u32 set"
    and pool_ok :: "'s \<Rightarrow> bool"
  assumes alloc_total: "pool_ok s \<Longrightarrow> \<exists>a s'. alloc s = Some (a, s')"
    and alloc_fresh: "pool_ok s \<Longrightarrow> alloc s = Some (a, s') \<Longrightarrow> a \<noteq> 0 \<Longrightarrow>
          a \<notin> frames s \<and> frames s' = insert a (frames s)"
    and alloc_none: "pool_ok s \<Longrightarrow> alloc s = Some (0, s') \<Longrightarrow> s' = s"
    and alloc_ok: "pool_ok s \<Longrightarrow> alloc s = Some (a, s') \<Longrightarrow> pool_ok s'"
    and free_frames: "pool_ok s \<Longrightarrow> a \<in> frames s \<Longrightarrow>
          \<exists>s'. free a s = Some s' \<and> frames s' = frames s - {a} \<and> pool_ok s'"
begin

text \<open>A loop that allocates \<open>n\<close> frames and stops at the first 0.\<close>

primrec alloc_many :: "nat \<Rightarrow> 's \<Rightarrow> (u32 list \<times> 's) option" where
  "alloc_many 0 s = Some ([], s)"
| "alloc_many (Suc n) s =
     (case alloc s of
        None \<Rightarrow> None
      | Some (a, s') \<Rightarrow>
          if a = 0 then Some ([], s')
          else map_option (\<lambda>(as, t). (a # as, t)) (alloc_many n s'))"

lemma alloc_many_distinct:
  assumes "pool_ok s" and "alloc_many n s = Some (as, s')"
  shows "distinct as \<and> set as \<inter> frames s = {} \<and> 0 \<notin> set as
    \<and> frames s' = frames s \<union> set as \<and> pool_ok s'"
  using assms
proof (induction n arbitrary: s as)
  case 0
  then show ?case by simp
next
  case (Suc n)
  obtain a t where a: "alloc s = Some (a, t)"
    using alloc_total Suc.prems(1) by blast
  show ?case
  proof (cases "a = 0")
    case True
    with a Suc.prems alloc_none show ?thesis by auto
  next
    case False
    with a Suc.prems obtain bs where bs: "as = a # bs" "alloc_many n t = Some (bs, s')"
      by auto
    have "pool_ok t" and fr: "a \<notin> frames s" "frames t = insert a (frames s)"
      using alloc_ok alloc_fresh Suc.prems(1) a False by blast+
    with Suc.IH [OF _ bs(2)] bs(1) False show ?thesis by auto
  qed
qed

lemma alloc_free_restores:
  assumes "pool_ok s" and "alloc s = Some (a, s')" and "a \<noteq> 0"
  shows "\<exists>t. free a s' = Some t \<and> frames t = frames s \<and> pool_ok t"
proof -
  have "a \<in> frames s'" and "frames s' - {a} = frames s" and "pool_ok s'"
    using alloc_fresh [OF assms] alloc_ok assms(1,2) by auto
  then show ?thesis using free_frames by fastforce
qed

end

section \<open>The memory manager provides a frame pool\<close>

definition frame_addr :: "nat \<Rightarrow> u32" where
  "frame_addr n = of_nat n * PAGE_FRAME_SIZE"

definition frame_addrs :: "pmm_state \<Rightarrow> u32 set" where
  "frame_addrs s = frame_addr ` used_frames s"

definition pmm_ok :: "pmm_state \<Rightarrow> bool" where
  "pmm_ok s \<longleftrightarrow> window_ok s \<and> unat (total_allocated s) = card (used_frames s)"

lemma unat_frame_addr: "n < PAGE_FRAMES \<Longrightarrow> unat (frame_addr n) = n * 4096"
  by (simp add: frame_addr_def PAGE_FRAME_SIZE_def PAGE_FRAMES_eq unat_word_ariths unat_of_nat)

lemma frame_addr_div: "n < PAGE_FRAMES \<Longrightarrow> unat (frame_addr n div PAGE_FRAME_SIZE) = n"
  by (simp add: unat_div unat_frame_addr PAGE_FRAME_SIZE_def)

lemma frame_addr_inj: "n < PAGE_FRAMES \<Longrightarrow> m < PAGE_FRAMES \<Longrightarrow> frame_addr n = frame_addr m \<longleftrightarrow> n = m"
  by (metis frame_addr_div)

lemma used_frames_bound: "n \<in> used_frames s \<Longrightarrow> n < PAGE_FRAMES"
  by (simp add: used_frames_def frame_used_def)

lemma frame_addr_mem: "n < PAGE_FRAMES \<Longrightarrow> frame_addr n \<in> frame_addrs s \<longleftrightarrow> n \<in> used_frames s"
  by (auto simp: frame_addrs_def frame_addr_inj used_frames_bound)

lemma inj_on_frame_addr: "inj_on frame_addr (used_frames s)"
  by (meson frame_addr_inj inj_onI used_frames_bound)

lemma pmm_alloc_cases:
  assumes "window_ok s"
  obtains (full) "pmm_alloc_pageframe s = Some (0, s)" and "pmm_window s \<subseteq> used_frames s"
  | (frame) n s' where "pmm_alloc_pageframe s = Some (frame_addr n, s')"
      and "n \<in> pmm_window s" and "n \<notin> used_frames s" and "0 < n" and "n < PAGE_FRAMES"
      and "\<forall>m \<in> pmm_window s. m < n \<longrightarrow> m \<in> used_frames s"
      and "used_frames s' = insert n (used_frames s)" and "same_window s s'"
      and "total_allocated s' = total_allocated s + 1"
proof -
  let ?lo = "8 * unat (scan_start s)"
  let ?hi = "8 * unat (scan_end s)"
  have ok: "0 < unat (scan_start s)" "unat (scan_end s) \<le> PAGE_FRAMES div 8"
    using assms by (auto simp: window_ok_def word_less_nat_alt)
  obtain a s' where r: "pmm_alloc_pageframe s = Some (a, s')"
    and res: "alloc_result s ?lo ?hi a s'"
    using pmm_scan_spec [OF ok(2), of s "scan_start s"] by (auto simp: pmm_alloc_pageframe_def)
  show thesis
  proof (cases "{?lo..<?hi} \<subseteq> used_frames s")
    case True
    with r res full show thesis by (simp add: alloc_result_def pmm_window_def)
  next
    case False
    define n where "n = (LEAST n. ?lo \<le> n \<and> n \<notin> used_frames s)"
    from False obtain k where "?lo \<le> k \<and> k \<notin> used_frames s"
      by (metis atLeastLessThan_iff subsetI)
    then have n: "?lo \<le> n \<and> n \<notin> used_frames s"
      unfolding n_def by (rule LeastI)
    have least: "m \<in> used_frames s" if "?lo \<le> m" "m < n" for m
      using that not_less_Least unfolding n_def by blast
    from False res have "n < ?hi" "a = frame_addr n" "used_frames s' = insert n (used_frames s)"
      "same_window s s'" "total_allocated s' = total_allocated s + 1"
      by (simp_all add: alloc_result_def n_def frame_addr_def Let_def)
    moreover from this ok have "n < PAGE_FRAMES" by (simp add: PAGE_FRAMES_eq)
    ultimately show thesis
      using frame r n least ok(1) by (auto simp: pmm_window_def)
  qed
qed

lemma pmm_alloc_keeps_ok:
  assumes "pmm_ok s" and "pmm_alloc_pageframe s = Some (a, s')"
  shows "pmm_ok s'"
proof -
  have w: "window_ok s" using assms(1) by (simp add: pmm_ok_def)
  then show ?thesis
  proof (cases rule: pmm_alloc_cases)
    case full
    with assms show ?thesis by simp
  next
    case (frame n t)
    have "card (used_frames s) < 4294967295"
      using used_frames_card [of s] by (simp add: PAGE_FRAMES_eq)
    with frame assms show ?thesis
      by (auto simp: pmm_ok_def unat_word_ariths dest: same_windowD)
  qed
qed

lemma pmm_free_used:
  assumes "n \<in> used_frames s"
  obtains s' where "pmm_free_pageframe (frame_addr n) s = Some s'"
    and "used_frames s' = used_frames s - {n}" and "same_window s s'"
    and "total_allocated s' = total_allocated s - 1"
proof -
  have n: "n < PAGE_FRAMES" using assms by (rule used_frames_bound)
  let ?pf = "frame_addr n div PAGE_FRAME_SIZE"
  have pf: "unat ?pf = n" using n by (rule frame_addr_div)
  then have bound: "unat ?pf < PAGE_FRAMES" using n by simp
  obtain t where t: "set_page_frame_used_or_free s ?pf False = Some t"
    "used_frames t = used_frames s - {n}" "same_window s t" "total_allocated t = total_allocated s"
    using set_page_frame_used_or_free_ok [OF bound, of s False] pf by auto
  show thesis
  proof (rule that)
    show "pmm_free_pageframe (frame_addr n) s =
      Some (t\<lparr>total_allocated := total_allocated t - 1\<rparr>)"
      using assms pf bound t(1)
      by (simp add: pmm_free_pageframe_def is_page_frame_used_iff Let_def)
  qed (use t in \<open>auto simp: used_frames_def frame_used_def same_window_def\<close>)
qed

lemma pmm_free_frames:
  assumes "pmm_ok s" and "a \<in> frame_addrs s"
  shows "\<exists>s'. pmm_free_pageframe a s = Some s' \<and> frame_addrs s' = frame_addrs s - {a} \<and> pmm_ok s'"
proof -
  from assms(2) obtain n where a: "a = frame_addr n" and n: "n \<in> used_frames s"
    by (auto simp: frame_addrs_def)
  then obtain s' where s': "pmm_free_pageframe a s = Some s'"
    "used_frames s' = used_frames s - {n}" "same_window s s'"
    "total_allocated s' = total_allocated s - 1"
    using pmm_free_used by metis
  have "frame_addrs s' = frame_addrs s - {a}"
    unfolding frame_addrs_def s'(2) a
    using n by (simp add: inj_on_image_set_diff [OF inj_on_frame_addr [of s]])
  moreover have "pmm_ok s'"
  proof -
    have "card (used_frames s) > 0" using n by (auto simp: card_gt_0_iff)
    then have "total_allocated s \<noteq> 0" using assms(1) by (auto simp: pmm_ok_def)
    then have "unat (total_allocated s - 1) = card (used_frames s) - 1"
      using assms(1) by (simp add: pmm_ok_def unat_minus_one)
    then show ?thesis
      using assms(1) n s'(2-4) by (auto simp: pmm_ok_def dest: same_windowD)
  qed
  ultimately show ?thesis using s'(1) by blast
qed

interpretation pool: frame_pool pmm_alloc_pageframe pmm_free_pageframe frame_addrs pmm_ok
proof unfold_locales
  fix s a s'
  assume ok: "pmm_ok s"
  then have w: "window_ok s" by (simp add: pmm_ok_def)
  show "\<exists>a s'. pmm_alloc_pageframe s = Some (a, s')"
    using w by (cases rule: pmm_alloc_cases) blast+
  show "a \<notin> frame_addrs s \<and> frame_addrs s' = insert a (frame_addrs s)"
    if "pmm_alloc_pageframe s = Some (a, s')" and "a \<noteq> 0"
    using w
  proof (cases rule: pmm_alloc_cases)
    case (frame n t)
    then have "a = frame_addr n" and "s' = t" and "a \<notin> frame_addrs s"
      using that by (simp_all add: frame_addr_mem)
    moreover have "frame_addrs t = insert (frame_addr n) (frame_addrs s)"
      by (simp add: frame_addrs_def frame(7))
    ultimately show ?thesis by simp
  qed (use that in simp)
  show "s' = s" if "pmm_alloc_pageframe s = Some (0, s')"
    using w
  proof (cases rule: pmm_alloc_cases)
    case (frame n t)
    then have "unat (frame_addr n) \<noteq> 0" by (simp add: unat_frame_addr)
    then have "frame_addr n \<noteq> 0" by auto
    with frame that show ?thesis by simp
  qed (use that in simp)
qed (use pmm_alloc_keeps_ok pmm_free_frames in auto)

section \<open>Properties\<close>

text \<open>C35: a call of \<open>pmm_alloc_pageframe\<close> returns the lowest free frame of the window and marks
  exactly that frame as used, or returns 0 and changes nothing when the whole window is used.\<close>

theorem pmm_alloc_lowest_free:
  assumes "window_ok s"
  shows "if pmm_window s \<subseteq> used_frames s then pmm_alloc_pageframe s = Some (0, s)
    else (let n = Min (pmm_window s - used_frames s) in
      \<exists>s'. pmm_alloc_pageframe s = Some (frame_addr n, s') \<and> unat (frame_addr n) = 4096 * n
        \<and> frame_addr n \<noteq> 0 \<and> used_frames s' = insert n (used_frames s) \<and> same_window s s'
        \<and> total_allocated s' = total_allocated s + 1)"
  using assms
proof (cases rule: pmm_alloc_cases)
  case full
  then show ?thesis by simp
next
  case (frame n s')
  have "finite (pmm_window s)" by (simp add: pmm_window_def)
  with frame have "Min (pmm_window s - used_frames s) = n"
    by (intro Min_eqI) (auto simp: not_less [symmetric])
  moreover have "\<not> pmm_window s \<subseteq> used_frames s"
    using frame by blast
  moreover have "unat (frame_addr n) = 4096 * n" and "frame_addr n \<noteq> 0"
    using frame(4,5) unat_frame_addr [of n] by auto
  ultimately show ?thesis
    using frame by (simp add: Let_def)
qed

definition pmm_demo :: pmm_state where
  "pmm_demo = pmm_init 0x1000000 0x7FE0000"

lemma pmm_demo_window: "window_ok pmm_demo" "scan_start pmm_demo = 512" "scan_end pmm_demo = 4092"
  by (simp_all add: pmm_demo_def pmm_init_def window_ok_def scan_start_def scan_end_def CEIL_DIV_def
      PAGE_FRAME_SIZE_def PAGE_FRAMES_eq word_div_def)

lemma pmm_demo_used: "used_frames pmm_demo = {}"
  by (simp add: pmm_demo_def pmm_init_def used_frames_def frame_used_def)

theorem pmm_alloc_lowest_free_witness:
  "\<exists>s'. pmm_alloc_pageframe pmm_demo = Some (0x1000000, s') \<and> used_frames s' = {4096}"
proof -
  have win: "pmm_window pmm_demo = {4096..<32736}"
    by (simp add: pmm_window_def pmm_demo_window)
  have "Min {4096..<32736::nat} = 4096"
    by (intro Min_eqI) auto
  moreover have "frame_addr 4096 = 0x1000000"
    by (simp add: frame_addr_def PAGE_FRAME_SIZE_def)
  ultimately show ?thesis
    using pmm_alloc_lowest_free [OF pmm_demo_window(1)]
    by (auto simp: win pmm_demo_used Let_def split: if_splits)
qed

text \<open>Freeing the frame that was just allocated restores the set of used frames and the
  counter, and the counter always equals the number of used frames.\<close>

theorem pmm_alloc_free_roundtrip:
  assumes "pmm_ok s" and "pmm_alloc_pageframe s = Some (a, s1)" and "a \<noteq> 0"
  shows "\<exists>s2. pmm_free_pageframe a s1 = Some s2 \<and> frame_addrs s2 = frame_addrs s
    \<and> total_allocated s2 = total_allocated s \<and> unat (total_allocated s1) = card (used_frames s) + 1"
proof -
  from assms(1) have "window_ok s" by (simp add: pmm_ok_def)
  then show ?thesis
  proof (cases rule: pmm_alloc_cases)
    case (frame n t)
    with assms(2) have t: "a = frame_addr n" "s1 = t" by simp_all
    then obtain s2 where s2: "pmm_free_pageframe a s1 = Some s2"
      "used_frames s2 = used_frames t - {n}" "total_allocated s2 = total_allocated t - 1"
      using pmm_free_used [of n t] frame(7) by (metis insertI1)
    have "pmm_ok t"
      using pmm_alloc_keeps_ok [OF assms(1,2)] t(2) by simp
    with s2 t frame(3,7,9) show ?thesis
      by (simp add: frame_addrs_def pmm_ok_def)
  qed (use assms in simp)
qed

lemma pmm_demo_ok: "pmm_ok pmm_demo"
  using pmm_demo_window(1) by (simp add: pmm_ok_def pmm_demo_used) (simp add: pmm_demo_def pmm_init_def)

theorem pmm_alloc_free_roundtrip_witness:
  "\<exists>a s1 s2. pmm_alloc_pageframe pmm_demo = Some (a, s1) \<and> a \<noteq> 0
     \<and> pmm_free_pageframe a s1 = Some s2 \<and> frame_addrs s2 = {}"
proof -
  obtain n s1 where "pmm_alloc_pageframe pmm_demo = Some (frame_addr n, s1)" "frame_addr n \<noteq> 0"
    using pmm_demo_window(1)
  proof (cases rule: pmm_alloc_cases)
    case full
    then show thesis by (simp add: pmm_window_def pmm_demo_window pmm_demo_used)
  next
    case (frame n s1)
    then have "unat (frame_addr n) \<noteq> 0" by (simp add: unat_frame_addr)
    then have "frame_addr n \<noteq> 0" by auto
    with frame(1) that show thesis by blast
  qed
  then show ?thesis
    using pmm_alloc_free_roundtrip [OF pmm_demo_ok] by (fastforce simp: frame_addrs_def pmm_demo_used)
qed

lemma unat_ceil_page:
  assumes "unat a + 4095 < 4294967296"
  shows "unat (CEIL_DIV a PAGE_FRAME_SIZE) = (unat a + 4095) div 4096"
proof -
  have "a + PAGE_FRAME_SIZE - 1 = a + 4095" by (simp add: PAGE_FRAME_SIZE_def)
  then show ?thesis
    using assms by (simp add: CEIL_DIV_def PAGE_FRAME_SIZE_def unat_div unat_u32_add)
qed

lemma nat_ceil8: "((m::nat) + 7) div 8 = m div 8 + (if m mod 8 \<noteq> 0 then 1 else 0)"
  by presburger

lemma unat_scan_start:
  "unat (scan_start s) = (unat (page_frame_min_index s) + 7) div 8"
proof -
  let ?m = "unat (page_frame_min_index s)"
  have "page_frame_min_index s AND 7 \<noteq> 0 \<longleftrightarrow> ?m mod 8 \<noteq> 0"
    by (metis unat_and7 unat_0 unat_eq_zero)
  moreover have "?m < 4294967296" by (rule unat_u32_less)
  then have "?m div 8 + 1 < 4294967296" by simp
  ultimately show ?thesis
    by (simp add: scan_start_def unat_div unat_word_ariths nat_ceil8)
qed

lemma unat_scan_end:
  assumes "8 \<le> unat (page_frame_max_index s)"
  shows "unat (scan_end s) = unat (page_frame_max_index s) div 8
    - (if unat (page_frame_max_index s) mod 8 \<noteq> 0 then 1 else 0)"
proof -
  let ?m = "page_frame_max_index s"
  have "?m AND 7 \<noteq> 0 \<longleftrightarrow> unat ?m mod 8 \<noteq> 0"
    by (metis unat_and7 unat_0 unat_eq_zero)
  moreover have "unat (?m div 8) = unat ?m div 8" by (simp add: unat_div)
  moreover from this have "?m div 8 \<noteq> 0" using assms by (metis div_greater_zero_iff unat_0 zero_less_numeral less_numeral_extra(3))
  ultimately show ?thesis
    by (simp add: scan_end_def unat_minus_one)
qed

text \<open>After \<open>pmm_init mem_low mem_high\<close>, with at most 512 MiB of memory, the manager is
  well-formed and every frame it can hand out lies completely inside \<open>[mem_low, mem_high)\<close>.\<close>

theorem pmm_init_window_inside:
  assumes "0 < mem_low" and "mem_low \<le> 0xFFFFF000" and "0x8000 \<le> mem_high" and "mem_high \<le> 0x20000000"
  shows "pmm_ok (pmm_init mem_low mem_high) \<and> used_frames (pmm_init mem_low mem_high) = {} \<and>
    (\<forall>n \<in> pmm_window (pmm_init mem_low mem_high).
       unat mem_low \<le> 4096 * n \<and> 4096 * (n + 1) \<le> unat mem_high)"
proof -
  let ?s = "pmm_init mem_low mem_high"
  have lo: "0 < unat mem_low" "unat mem_low \<le> 4294963200"
    and hi: "32768 \<le> unat mem_high" "unat mem_high \<le> 536870912"
    using assms by (simp_all add: word_less_nat_alt word_le_nat_alt)
  have mn: "unat (page_frame_min_index ?s) = (unat mem_low + 4095) div 4096"
    using lo by (simp add: pmm_init_def unat_ceil_page)
  have mx: "unat (page_frame_max_index ?s) = unat mem_high div 4096"
    by (simp add: pmm_init_def PAGE_FRAME_SIZE_def unat_div)
  have st: "unat (scan_start ?s) = ((unat mem_low + 4095) div 4096 + 7) div 8"
    by (simp add: unat_scan_start mn)
  have "8 \<le> unat (page_frame_max_index ?s)" using mx hi by simp
  then have en: "unat (scan_end ?s) \<le> unat mem_high div 4096 div 8"
    by (simp add: unat_scan_end mx)
  have used: "used_frames ?s = {}"
    by (simp add: pmm_init_def used_frames_def frame_used_def)
  have "0 < unat (scan_start ?s)" using st lo by simp
  moreover have "unat (scan_end ?s) \<le> 16384" using en hi by simp
  ultimately have "pmm_ok ?s"
    by (simp add: pmm_ok_def window_ok_def used word_less_nat_alt PAGE_FRAMES_eq)
      (simp add: pmm_init_def)
  moreover have "unat mem_low \<le> 4096 * n \<and> 4096 * (n + 1) \<le> unat mem_high"
    if "n \<in> pmm_window ?s" for n
  proof
    have "8 * unat (scan_start ?s) \<le> n" and n: "n < 8 * unat (scan_end ?s)"
      using that by (auto simp: pmm_window_def)
    with st show "unat mem_low \<le> 4096 * n" by linarith
    from n en have "n + 1 \<le> unat mem_high div 4096" by linarith
    then have "4096 * (n + 1) \<le> 4096 * (unat mem_high div 4096)" by (rule mult_le_mono2)
    also have "\<dots> \<le> unat mem_high" by simp
    finally show "4096 * (n + 1) \<le> unat mem_high" .
  qed
  ultimately show ?thesis using used by blast
qed

theorem pmm_init_window_inside_witness:
  "pmm_ok (pmm_init 0x1000000 0x7FE0000)"
  by (rule pmm_init_window_inside [THEN conjunct1]) simp_all

text \<open>The bitmap has one bit for each frame of the first 512 MiB only. When these frames are
  all in use and the window reaches further, the scan reads past the end of the array.\<close>

theorem pmm_scan_overruns_bitmap:
  assumes "{..<PAGE_FRAMES} \<subseteq> used_frames s" and "unat (scan_start s) \<le> PAGE_FRAMES div 8"
    and "PAGE_FRAMES div 8 < unat (scan_end s)"
  shows "pmm_alloc_pageframe s = None"
proof -
  have "pmm_scan s b (scan_end s) = None" if "unat b \<le> PAGE_FRAMES div 8" for b
    using that
  proof (induction "PAGE_FRAMES div 8 - unat b" arbitrary: b)
    case 0
    with assms(3) have "bitmap_read s b = None" and "b < scan_end s"
      by (auto simp: bitmap_read_def word_less_nat_alt)
    then show ?case by (subst pmm_scan.simps) simp
  next
    case (Suc k)
    then have b: "unat b < PAGE_FRAMES div 8" by simp
    have lt: "b < scan_end s" using b assms(3) by (simp add: word_less_nat_alt)
    have "bit (physical_memory_bitmap s (unat b)) i" if "i < 8" for i
    proof -
      have "8 * unat b + i \<in> used_frames s"
        using assms(1) b that by (auto simp: PAGE_FRAMES_eq)
      with b that show ?thesis by (simp add: byte_frames)
    qed
    then have "physical_memory_bitmap s (unat b) = 0xFF" by (simp add: all_bits_u8_iff)
    then have "bitmap_read s b = Some 0xFF" using b by (simp add: bitmap_read_def)
    moreover have "pmm_scan s (b + 1) (scan_end s) = None"
      using Suc.hyps lt b by (intro Suc.hyps(1)) (simp_all add: unat_Suc_u32)
    ultimately show ?case using lt by (subst pmm_scan.simps) simp
  qed
  then show ?thesis using assms(2) by (simp add: pmm_alloc_pageframe_def)
qed

theorem pmm_scan_overruns_bitmap_witness:
  "pmm_alloc_pageframe ((pmm_init 0x1000000 0x40000000)\<lparr>physical_memory_bitmap := \<lambda>_. 0xFF\<rparr>) = None"
    (is "pmm_alloc_pageframe ?s = None")
proof (rule pmm_scan_overruns_bitmap)
  have "bit (0xFF :: u8) i" if "i < 8" for i
    using all_bits_u8_iff [of "0xFF"] that by blast
  then show "{..<PAGE_FRAMES} \<subseteq> used_frames ?s"
    by (auto simp: used_frames_def frame_used_def)
qed (simp_all add: PAGE_FRAMES_eq pmm_init_def scan_start_def scan_end_def CEIL_DIV_def
       PAGE_FRAME_SIZE_def word_div_def)

end
