(* ===== verification/Paging.thy ===== *)
theory Paging
  imports Pmm
begin

text \<open>
  Virtual memory, \<open>mm/paging/paging.c\<close>. Physical memory is a map from page frame and word index
  to 32-bit words; page directories and tables are frames of it. The code reaches them through the
  recursive last entry of the directory, so every access goes through the two-level walk of the
  processor, which is \<open>translate\<close>. A page fault is \<open>None\<close>. The supervisor runs with \<open>CR0.WP\<close>
  clear, so writes ignore the write flag; the TLB is taken to agree with the tables, which is what
  the calls of \<open>invalidate\<close> are for; that its assembly hands \<open>invlpg\<close> the address of the parameter instead is
  outside of this model.
\<close>

section \<open>Constants and state\<close>

definition KERNEL_START :: u32 where "KERNEL_START = 0xC0000000"
definition NUM_PAGE_DIRS :: nat where "NUM_PAGE_DIRS = 256"
definition PAGE_SIZE :: u32 where "PAGE_SIZE = 4096"

definition PAGE_FLAG_PRESENT :: u32 where "PAGE_FLAG_PRESENT = 1"
definition PAGE_FLAG_WRITE :: u32 where "PAGE_FLAG_WRITE = 2"
definition PAGE_FLAG_USER :: u32 where "PAGE_FLAG_USER = 4"
definition PAGE_FLAG_4MB :: u32 where "PAGE_FLAG_4MB = 128"
definition PAGE_FLAG_OWNER :: u32 where "PAGE_FLAG_OWNER = 512"

lemmas page_flags = PAGE_FLAG_PRESENT_def PAGE_FLAG_WRITE_def PAGE_FLAG_USER_def
  PAGE_FLAG_4MB_def PAGE_FLAG_OWNER_def

definition P_PHYS_ADDR :: "u32 \<Rightarrow> u32" where
  "P_PHYS_ADDR x = x AND NOT 0xFFF"

definition REC_PAGEDIR :: u32 where
  "REC_PAGEDIR = 0xFFFFF000"

definition REC_PAGETABLE :: "nat \<Rightarrow> u32" where
  "REC_PAGETABLE i = 0xFFC00000 + push_bit 12 (of_nat i)"

definition pd_index :: "u32 \<Rightarrow> nat" where
  "pd_index virt_addr = unat (drop_bit 22 virt_addr)"

definition pt_index :: "u32 \<Rightarrow> nat" where
  "pt_index virt_addr = unat (drop_bit 12 virt_addr AND 0x3FF)"

text \<open>The page frame of a physical address or of an entry.\<close>

definition pframe :: "u32 \<Rightarrow> nat" where
  "pframe a = unat (drop_bit 12 a)"

text \<open>
  \<open>kernel_directory\<close> and \<open>pageDirs\<close> are the addresses the linker gave to these two arrays; they
  lie in the part of the kernel image that is mapped at \<open>KERNEL_START\<close> above its physical address.
\<close>

record mmu_state =
  ram :: "nat \<Rightarrow> nat \<Rightarrow> u32"
  cr3 :: u32
  kernel_directory :: u32
  pageDirs :: u32
  pageDirsUsed :: "nat \<Rightarrow> u8"
  mem_num_vpages :: u32
  frames :: pmm_state

definition poke :: "nat \<Rightarrow> nat \<Rightarrow> u32 \<Rightarrow> mmu_state \<Rightarrow> mmu_state" where
  "poke fr i e s = s\<lparr>ram := (ram s)(fr := (ram s fr)(i := e))\<rparr>"

definition kdir_frame :: "mmu_state \<Rightarrow> nat" where
  "kdir_frame s = pframe (kernel_directory s - KERNEL_START)"

definition page_dir :: "mmu_state \<Rightarrow> nat \<Rightarrow> u32" where
  "page_dir s i = pageDirs s + of_nat i * PAGE_SIZE"

definition pdir_frame :: "mmu_state \<Rightarrow> nat \<Rightarrow> nat" where
  "pdir_frame s i = pframe (page_dir s i - KERNEL_START)"

section \<open>The processor's walk\<close>

definition present :: "u32 \<Rightarrow> bool" where
  "present e \<longleftrightarrow> e AND PAGE_FLAG_PRESENT \<noteq> 0"

definition walk :: "(nat \<Rightarrow> nat \<Rightarrow> u32) \<Rightarrow> nat \<Rightarrow> u32 \<Rightarrow> nat option" where
  "walk mem d v =
     (let pde = mem d (pd_index v)
      in if \<not> present pde then None
         else if pde AND PAGE_FLAG_4MB \<noteq> 0 then Some (pframe pde div 1024 * 1024 + pt_index v)
         else (let pte = mem (pframe pde) (pt_index v)
               in if present pte then Some (pframe pte) else None))"

definition translate :: "mmu_state \<Rightarrow> u32 \<Rightarrow> nat option" where
  "translate s v = walk (ram s) (pframe (cr3 s)) v"

section \<open>Operations\<close>

definition mem_change_page_directory :: "u32 \<Rightarrow> mmu_state \<Rightarrow> mmu_state" where
  "mem_change_page_directory pd s = s\<lparr>cr3 := pd - KERNEL_START\<rparr>"

definition mem_get_current_page_directory :: "mmu_state \<Rightarrow> u32" where
  "mem_get_current_page_directory s = cr3 s + KERNEL_START"

definition sync_page_dirs :: "mmu_state \<Rightarrow> mmu_state" where
  "sync_page_dirs s =
     fold (\<lambda>i s. if pageDirsUsed s i \<noteq> 0
                then fold (\<lambda>j s. poke (pdir_frame s i) j
                             (ram s (kdir_frame s) j AND NOT PAGE_FLAG_OWNER) s) [768..<1023] s
                else s) [0..<NUM_PAGE_DIRS] s"

text \<open>The two ends of \<open>mem_map_page\<close> and \<open>mem_unmap_page\<close>: switching to the kernel directory for
  kernel addresses, and synchronising and switching back.\<close>

definition enter_dir :: "u32 \<Rightarrow> mmu_state \<Rightarrow> u32 \<times> mmu_state" where
  "enter_dir virt_addr s =
     (if virt_addr \<ge> KERNEL_START
      then (let prev = mem_get_current_page_directory s
            in (prev, if prev \<noteq> kernel_directory s
                      then mem_change_page_directory (kernel_directory s) s else s))
      else (0, s))"

definition leave_dir :: "u32 \<Rightarrow> mmu_state \<Rightarrow> mmu_state" where
  "leave_dir prev s =
     (if prev \<noteq> 0
      then (let s = sync_page_dirs s
            in if prev \<noteq> kernel_directory s then mem_change_page_directory prev s else s)
      else s)"

text \<open>The loop that clears a fresh page table through the recursive mapping.\<close>

definition clear_table :: "nat \<Rightarrow> mmu_state \<Rightarrow> mmu_state option" where
  "clear_table pd s =
     fold_opt (\<lambda>i s. do { pt \<leftarrow> translate s (REC_PAGETABLE pd); Some (poke pt i 0 s) }) [0..<1024] s"

definition map_in_dir :: "u32 \<Rightarrow> u32 \<Rightarrow> u32 \<Rightarrow> mmu_state \<Rightarrow> mmu_state option" where
  "map_in_dir virt_addr phys_addr flags s = (let pd = pd_index virt_addr in do {
     dir \<leftarrow> translate s REC_PAGEDIR;
     s \<leftarrow> (if \<not> present (ram s dir pd) then do {
            (pt_paddr, pm) \<leftarrow> pmm_alloc_pageframe (frames s);
            let s = poke dir pd (pt_paddr OR PAGE_FLAG_PRESENT OR PAGE_FLAG_WRITE
                                 OR PAGE_FLAG_OWNER OR flags) (s\<lparr>frames := pm\<rparr>);
            clear_table pd s
          } else Some s);
     pt \<leftarrow> translate s (REC_PAGETABLE pd);
     let s = poke pt (pt_index virt_addr) (phys_addr OR PAGE_FLAG_PRESENT OR flags) s;
     Some (s\<lparr>mem_num_vpages := mem_num_vpages s + 1\<rparr>)
   })"

definition mem_map_page :: "u32 \<Rightarrow> u32 \<Rightarrow> u32 \<Rightarrow> mmu_state \<Rightarrow> mmu_state option" where
  "mem_map_page virt_addr phys_addr flags s =
     (let (prev, s) = enter_dir virt_addr s in do {
        s \<leftarrow> map_in_dir virt_addr phys_addr flags s;
        Some (leave_dir prev s)
      })"

text \<open>
  \<open>mem_unmap_page\<close> returns the old entry. Its two early returns leave the kernel directory in
  \<open>CR3\<close>; the message they print is not modelled.
\<close>

definition mem_unmap_page :: "u32 \<Rightarrow> mmu_state \<Rightarrow> (u32 \<times> mmu_state) option" where
  "mem_unmap_page virt_addr s =
     (let (prev, s) = enter_dir virt_addr s; pd = pd_index virt_addr in do {
        dir \<leftarrow> translate s REC_PAGEDIR;
        if \<not> present (ram s dir pd) then Some (0, s)
        else do {
          pt \<leftarrow> translate s (REC_PAGETABLE pd);
          let pte = ram s pt (pt_index virt_addr);
          if \<not> present pte then Some (0, s)
          else do {
            let s = poke pt (pt_index virt_addr) 0 s;
            let s = s\<lparr>mem_num_vpages := mem_num_vpages s - 1\<rparr>;
            pt \<leftarrow> translate s (REC_PAGETABLE pd);
            dir \<leftarrow> translate s REC_PAGEDIR;
            let pde = ram s dir pd;
            s \<leftarrow> (if list_all (\<lambda>i. \<not> present (ram s pt i)) [0..<1024] \<and> pde AND PAGE_FLAG_OWNER \<noteq> 0
                 then do {
                   pm \<leftarrow> pmm_free_pageframe (P_PHYS_ADDR pde) (frames s);
                   Some (poke dir pd 0 (s\<lparr>frames := pm\<rparr>))
                 } else Some s);
            s \<leftarrow> (if pte AND PAGE_FLAG_OWNER \<noteq> 0
                 then do {
                   pm \<leftarrow> pmm_free_pageframe (P_PHYS_ADDR pte) (frames s);
                   Some (s\<lparr>frames := pm\<rparr>)
                 } else Some s);
            Some (pte, leave_dir prev s)
          }
        }
      })"

text \<open>The index of the first page directory that is not in use.\<close>

definition first_unused_dir :: "mmu_state \<Rightarrow> nat option" where
  "first_unused_dir s = find (\<lambda>i. pageDirsUsed s i = 0) [0..<NUM_PAGE_DIRS]"

text \<open>The entries that \<open>mem_alloc_page_dir\<close> writes into directory \<open>i\<close>, in the order of its loops.\<close>

definition fill_page_dir :: "nat \<Rightarrow> mmu_state \<Rightarrow> mmu_state" where
  "fill_page_dir i s =
     (let s = fold (\<lambda>j s. poke (pdir_frame s i) j 0 s) [0..<1024] s;
          s = fold (\<lambda>j s. poke (pdir_frame s i) j 0 s) [0..<768] s;
          s = fold (\<lambda>j s. poke (pdir_frame s i) j
                     (ram s (kdir_frame s) j AND NOT PAGE_FLAG_OWNER) s) [768..<1023] s
      in poke (pdir_frame s i) 1023
           ((page_dir s i - KERNEL_START) OR PAGE_FLAG_PRESENT OR PAGE_FLAG_WRITE) s)"

definition mem_alloc_page_dir :: "mmu_state \<Rightarrow> u32 \<times> mmu_state" where
  "mem_alloc_page_dir s =
     (case first_unused_dir s of
        None \<Rightarrow> (0, s)
      | Some i \<Rightarrow> (page_dir s i, fill_page_dir i (s\<lparr>pageDirsUsed := (pageDirsUsed s)(i := 1)\<rparr>)))"

text \<open>One user entry of \<open>mem_free_page_dir\<close>: the owned frames of its table, the table, the entry.\<close>

definition free_pde :: "nat \<Rightarrow> mmu_state \<Rightarrow> mmu_state option" where
  "free_pde i s = do {
     dir \<leftarrow> translate s REC_PAGEDIR;
     let pde = ram s dir i;
     if pde = 0 then Some s
     else do {
       s \<leftarrow> fold_opt (\<lambda>j s. do {
              pt \<leftarrow> translate s (REC_PAGETABLE i);
              let pte = ram s pt j;
              if pte AND PAGE_FLAG_OWNER \<noteq> 0
              then do { pm \<leftarrow> pmm_free_pageframe (P_PHYS_ADDR pte) (frames s); Some (s\<lparr>frames := pm\<rparr>) }
              else Some s }) [0..<1024] s;
       s \<leftarrow> clear_table i s;
       s \<leftarrow> (if pde AND PAGE_FLAG_OWNER \<noteq> 0
            then do { pm \<leftarrow> pmm_free_pageframe (P_PHYS_ADDR pde) (frames s); Some (s\<lparr>frames := pm\<rparr>) }
            else Some s);
       dir \<leftarrow> translate s REC_PAGEDIR;
       Some (poke dir i 0 s)
     }
   }"

definition mem_free_page_dir :: "u32 \<Rightarrow> mmu_state \<Rightarrow> mmu_state option" where
  "mem_free_page_dir pd s =
     (let prev = mem_get_current_page_directory s;
          s = mem_change_page_directory pd s;
          i = (pd - pageDirs s) div 4096 in do {
        s \<leftarrow> fold_opt free_pde [0..<768] s;
        if unat i \<ge> NUM_PAGE_DIRS then None
        else Some (mem_change_page_directory prev (s\<lparr>pageDirsUsed := (pageDirsUsed s)(unat i := 0)\<rparr>))
      })"

definition mem_get_phys_from_virt :: "mmu_state \<Rightarrow> u32 \<Rightarrow> u32 option" where
  "mem_get_phys_from_virt s virt_addr = do {
     dir \<leftarrow> translate s REC_PAGEDIR;
     if \<not> present (ram s dir (pd_index virt_addr)) then Some (- 1)
     else do {
       pt \<leftarrow> translate s (REC_PAGETABLE (pd_index virt_addr));
       Some (P_PHYS_ADDR (ram s pt (pt_index virt_addr)))
     }
   }"

definition mem_is_valid_vaddr :: "mmu_state \<Rightarrow> u32 \<Rightarrow> bool option" where
  "mem_is_valid_vaddr s vaddr = do {
     dir \<leftarrow> translate s REC_PAGEDIR;
     if \<not> present (ram s dir (pd_index vaddr)) then Some False
     else do {
       pt \<leftarrow> translate s (REC_PAGETABLE (pd_index vaddr));
       Some (present (ram s pt (pt_index vaddr)))
     }
   }"

text \<open>
  \<open>init_memory\<close>: the recursive entry, the frame allocator, empty directories and the 8192 pages of
  the kernel's newlib heap. It stores into \<open>kernel_directory\<close> directly.
\<close>

definition init_memory :: "u32 \<Rightarrow> u32 \<Rightarrow> mmu_state \<Rightarrow> mmu_state option" where
  "init_memory memHigh physicalAllocstart s =
     (let s = s\<lparr>mem_num_vpages := 0\<rparr>;
          s = poke (kdir_frame s) 1023
                ((kernel_directory s - KERNEL_START) OR PAGE_FLAG_PRESENT OR PAGE_FLAG_WRITE) s;
          s = s\<lparr>frames := pmm_init physicalAllocstart memHigh\<rparr>;
          s = fold (\<lambda>i s. fold (\<lambda>j s. poke (pdir_frame s i) j 0 s) [0..<1024] s) [0..<NUM_PAGE_DIRS] s;
          s = s\<lparr>pageDirsUsed := (\<lambda>i. if i < NUM_PAGE_DIRS then 0 else pageDirsUsed s i)\<rparr>
      in fold_opt (\<lambda>i s. do {
           (phys, pm) \<leftarrow> pmm_alloc_pageframe (frames s);
           mem_map_page (0xC3000000 + of_nat i * PAGE_SIZE) phys (PAGE_FLAG_PRESENT OR PAGE_FLAG_WRITE)
             (s\<lparr>frames := pm\<rparr>)
         }) [0..<8192] s)"


section \<open>The recursive mapping\<close>

lemma unat_pd_index: "pd_index v = unat v div 4194304"
  by (simp add: pd_index_def drop_bit_eq_div unat_div)

lemma unat_pt_index: "pt_index v = unat v div 4096 mod 1024"
proof -
  have "w AND 0x3FF = take_bit 10 w" for w :: u32
    by (rule bit_eqI) (auto simp: bit_simps less_Suc_eq numeral_eq_Suc)
  then show ?thesis
    by (simp add: pt_index_def drop_bit_eq_div take_bit_eq_mod unat_div unat_mod)
qed

lemma pd_index_bound: "pd_index v < 1024"
  using unat_u32_less [of v] by (simp add: unat_pd_index)

lemma pt_index_bound: "pt_index v < 1024"
  by (simp add: unat_pt_index)

lemma unat_REC_PAGETABLE: "i < 1024 \<Longrightarrow> unat (REC_PAGETABLE i) = 0xFFC00000 + 4096 * i"
  by (simp add: REC_PAGETABLE_def push_bit_eq_mult unat_word_ariths unat_of_nat)

lemma REC_indices [simp]:
  "i < 1024 \<Longrightarrow> pd_index (REC_PAGETABLE i) = 1023" "i < 1024 \<Longrightarrow> pt_index (REC_PAGETABLE i) = i"
  "pd_index REC_PAGEDIR = 1023" "pt_index REC_PAGEDIR = 1023"
proof -
  have "(1047552 + i) mod 1024 = i" if "i < 1024"
    using that mod_mult_self1 [of i 1023 1024] by (simp add: add.commute)
  then show "i < 1024 \<Longrightarrow> pd_index (REC_PAGETABLE i) = 1023" "i < 1024 \<Longrightarrow> pt_index (REC_PAGETABLE i) = i"
    "pd_index REC_PAGEDIR = 1023" "pt_index REC_PAGEDIR = 1023"
    by (simp_all add: unat_pd_index unat_pt_index unat_REC_PAGETABLE REC_PAGEDIR_def)
qed

text \<open>The last entry of directory \<open>d\<close> maps the directory itself.\<close>

definition recursive :: "(nat \<Rightarrow> nat \<Rightarrow> u32) \<Rightarrow> nat \<Rightarrow> bool" where
  "recursive mem d \<longleftrightarrow> present (mem d 1023) \<and> mem d 1023 AND PAGE_FLAG_4MB = 0 \<and> pframe (mem d 1023) = d"

lemma walk_recursive [simp]:
  assumes "recursive mem d"
  shows "walk mem d REC_PAGEDIR = Some d"
    and "i < 1024 \<Longrightarrow> walk mem d (REC_PAGETABLE i) = (if present (mem d i) then Some (pframe (mem d i)) else None)"
  using assms by (auto simp: walk_def recursive_def Let_def)

text \<open>Two pages differ when one of their indices does.\<close>

lemma page_eq_iff: "drop_bit 12 v = drop_bit 12 w \<longleftrightarrow> pd_index v = pd_index w \<and> pt_index v = pt_index w"
proof -
  have "drop_bit 12 v = drop_bit 12 w \<longleftrightarrow> unat v div 4096 = unat w div 4096"
    by (simp add: word_eq_iff_unsigned unsigned_drop_bit_eq drop_bit_eq_div flip: unat_div)
      (simp add: drop_bit_eq_div unat_div word_unat_eq_iff)
  moreover have "unat u div 4194304 = unat u div 4096 div 1024" for u :: u32
    using div_mult2_eq [of "unat u" 4096 1024] by simp
  ultimately show ?thesis
    unfolding unat_pd_index unat_pt_index by (metis div_mult_mod_eq)
qed

section \<open>Updates of physical memory\<close>

lemma poke_simps [simp]:
  "ram (poke fr i e s) = (ram s)(fr := (ram s fr)(i := e))"
  "cr3 (poke fr i e s) = cr3 s" "kernel_directory (poke fr i e s) = kernel_directory s"
  "pageDirs (poke fr i e s) = pageDirs s" "pageDirsUsed (poke fr i e s) = pageDirsUsed s"
  "frames (poke fr i e s) = frames s" "mem_num_vpages (poke fr i e s) = mem_num_vpages s"
  "pdir_frame (poke fr i e s) = pdir_frame s" "kdir_frame (poke fr i e s) = kdir_frame s"
  by (simp_all add: poke_def pdir_frame_def page_dir_def kdir_frame_def fun_eq_iff)

text \<open>The state with another content of physical memory.\<close>

lemma clear_table_ok:
  assumes rec: "recursive (ram s) (pframe (cr3 s))" and pd: "pd < 1023"
    and e: "present (ram s (pframe (cr3 s)) pd)" "pframe (ram s (pframe (cr3 s)) pd) = f"
    and f: "f \<noteq> pframe (cr3 s)"
  shows "clear_table pd s = Some (s\<lparr>ram := (ram s)(f := (\<lambda>i. if i < 1024 then 0 else ram s f i))\<rparr>)"
proof -
  let ?d = "pframe (cr3 s)"
  let ?P = "\<lambda>n t. t = s\<lparr>ram := (ram s)(f := (\<lambda>i. if i < n then 0 else ram s f i))\<rparr>"
  have "\<exists>t. clear_table pd s = Some t \<and> ?P 1024 t"
    unfolding clear_table_def
  proof (rule fold_opt_upt)
    show "?P 0 s" by simp
  next
    fix i t assume i: "i < 1024" and t: "?P i t"
    have d: "ram t ?d = ram s ?d" "cr3 t = cr3 s" using t f by auto
    then have "recursive (ram t) ?d" using rec by (simp add: recursive_def)
    then have "translate t (REC_PAGETABLE pd) = Some f"
      using pd e d by (simp add: translate_def)
    then show "\<exists>s'. do { pt \<leftarrow> translate t (REC_PAGETABLE pd); Some (poke pt i 0 t) } = Some s' \<and> ?P (Suc i) s'"
      using t by (auto simp: poke_def less_Suc_eq fun_eq_iff)
  qed simp
  then show ?thesis by simp
qed


section \<open>Entries\<close>

lemma present_bit: "present e \<longleftrightarrow> bit e 0"
  by (simp add: present_def PAGE_FLAG_PRESENT_def and_one_eq bit_0 odd_iff_mod_2_eq_one)

lemma big_bit: "e AND PAGE_FLAG_4MB = 0 \<longleftrightarrow> \<not> bit e 7"
proof -
  have "PAGE_FLAG_4MB = 2 ^ 7" by (simp add: PAGE_FLAG_4MB_def)
  then show ?thesis by (metis and_exp_eq_0_iff_not_bit)
qed

lemma pframe_or: "drop_bit 12 b = 0 \<Longrightarrow> pframe (a OR b) = pframe a"
  by (simp add: pframe_def drop_bit_or)

lemma drop_small: "e < 4096 \<Longrightarrow> drop_bit 12 (e :: u32) = 0"
  by (simp add: drop_bit_eq_div word_arith_nat_div word_less_nat_alt)

lemma or_small: "a < 4096 \<Longrightarrow> b < 4096 \<Longrightarrow> drop_bit 12 (a OR b :: u32) = 0"
  by (simp add: drop_bit_or drop_small)

lemma pframe_entry:
  "flags < 4096 \<Longrightarrow> pframe (a OR PAGE_FLAG_PRESENT OR flags) = pframe a"
  "flags < 4096 \<Longrightarrow>
     pframe (a OR PAGE_FLAG_PRESENT OR PAGE_FLAG_WRITE OR PAGE_FLAG_OWNER OR flags) = pframe a"
  by (simp_all add: pframe_or drop_bit_or drop_small or.assoc page_flags)

lemma present_entry:
  "present (a OR PAGE_FLAG_PRESENT OR b)"
  by (simp add: present_bit bit_simps PAGE_FLAG_PRESENT_def)

lemma pframe_frame_addr: "n < PAGE_FRAMES \<Longrightarrow> pframe (frame_addr n) = n"
  by (simp add: pframe_def drop_bit_eq_div unat_div unat_frame_addr)

lemma frame_addr_bit7: "\<not> bit (frame_addr n) 7"
proof -
  have "frame_addr n = push_bit 12 (of_nat n)"
    by (simp add: frame_addr_def PAGE_FRAME_SIZE_def push_bit_eq_mult mult.commute)
  then show ?thesis by (simp add: bit_push_bit_iff)
qed

lemma table_entry:
  assumes "\<not> bit a 7" and "\<not> bit flags 7"
  shows "(a OR PAGE_FLAG_PRESENT OR PAGE_FLAG_WRITE OR PAGE_FLAG_OWNER OR flags) AND PAGE_FLAG_4MB = 0"
  using assms unfolding big_bit by (simp add: bit_simps page_flags)

section \<open>Well-formed directories\<close>

definition is_table :: "u32 \<Rightarrow> bool" where
  "is_table e \<longleftrightarrow> present e \<and> e AND PAGE_FLAG_4MB = 0"

text \<open>The frame allocator will not hand out this frame.\<close>

definition held :: "mmu_state \<Rightarrow> nat \<Rightarrow> bool" where
  "held s f \<longleftrightarrow> f \<notin> pmm_window (frames s) \<or> f \<in> used_frames (frames s)"

definition tables_ok :: "mmu_state \<Rightarrow> nat \<Rightarrow> bool" where
  "tables_ok s d \<longleftrightarrow> recursive (ram s) d \<and> held s d
     \<and> (\<forall>i<1023. is_table (ram s d i) \<longrightarrow> pframe (ram s d i) \<noteq> d \<and> held s (pframe (ram s d i)))
     \<and> (\<forall>i<1023. \<forall>j<1023. is_table (ram s d i) \<longrightarrow> is_table (ram s d j)
          \<longrightarrow> pframe (ram s d i) = pframe (ram s d j) \<longrightarrow> i = j)"

text \<open>What \<open>map_in_dir\<close> does to memory: one entry of table \<open>f\<close>, which may be new.\<close>

definition mapped :: "mmu_state \<Rightarrow> nat \<Rightarrow> u32 \<Rightarrow> u32 \<Rightarrow> nat \<Rightarrow> mmu_state \<Rightarrow> bool" where
  "mapped s d virt e f s' \<longleftrightarrow>
     is_table (ram s' d (pd_index virt)) \<and> pframe (ram s' d (pd_index virt)) = f \<and> f \<noteq> d
     \<and> ram s' f (pt_index virt) = e
     \<and> (\<forall>j. j \<noteq> pd_index virt \<longrightarrow> ram s' d j = ram s d j)
     \<and> (\<forall>g. g \<noteq> d \<longrightarrow> g \<noteq> f \<longrightarrow> ram s' g = ram s g)
     \<and> (if present (ram s d (pd_index virt))
        then ram s' d = ram s d \<and> (\<forall>j. j \<noteq> pt_index virt \<longrightarrow> ram s' f j = ram s f j) \<and> frames s' = frames s
        else \<not> held s f \<and> (\<forall>j<1024. j \<noteq> pt_index virt \<longrightarrow> ram s' f j = 0)
          \<and> used_frames (frames s') = insert f (used_frames (frames s))
          \<and> same_window (frames s) (frames s'))"

definition same_setup :: "mmu_state \<Rightarrow> mmu_state \<Rightarrow> bool" where
  "same_setup s s' \<longleftrightarrow> cr3 s' = cr3 s \<and> kernel_directory s' = kernel_directory s
     \<and> pageDirs s' = pageDirs s \<and> pageDirsUsed s' = pageDirsUsed s"

lemma map_in_dir_mapped:
  assumes ok: "tables_ok s d" and d: "d = pframe (cr3 s)" and w: "window_ok (frames s)"
    and virt: "pd_index virt < 1023" and flags: "flags < 4096" "\<not> bit flags 7"
    and pde: "if present (ram s d (pd_index virt)) then is_table (ram s d (pd_index virt))
      else \<not> pmm_window (frames s) \<subseteq> used_frames (frames s)"
  shows "\<exists>s' f. map_in_dir virt phys flags s = Some s'
    \<and> mapped s d virt (phys OR PAGE_FLAG_PRESENT OR flags) f s' \<and> same_setup s s'"
proof -
  let ?pd = "pd_index virt" and ?pt = "pt_index virt" and ?e = "phys OR PAGE_FLAG_PRESENT OR flags"
  have rec: "recursive (ram s) d" using ok by (simp add: tables_ok_def)
  then have dir: "translate s REC_PAGEDIR = Some d" by (simp add: translate_def d)
  show ?thesis
  proof (cases "present (ram s d ?pd)")
    case True
    define f where "f = pframe (ram s d ?pd)"
    have f: "is_table (ram s d ?pd)" "f \<noteq> d"
      using True pde ok virt by (auto simp: tables_ok_def f_def)
    have pt: "translate s (REC_PAGETABLE ?pd) = Some f"
      using rec True virt by (simp add: translate_def d f_def)
    define s' where "s' = (poke f ?pt ?e s)\<lparr>mem_num_vpages := mem_num_vpages s + 1\<rparr>"
    have "map_in_dir virt phys flags s = Some s'"
      using dir True pt by (simp add: map_in_dir_def s'_def Let_def)
    moreover have "mapped s d virt ?e f s'" "same_setup s s'"
      using True f by (simp_all add: mapped_def same_setup_def s'_def f_def [symmetric])
    ultimately show ?thesis by blast
  next
    case False
    with pde have free: "\<not> pmm_window (frames s) \<subseteq> used_frames (frames s)" by simp
    from w obtain n pm where n: "pmm_alloc_pageframe (frames s) = Some (frame_addr n, pm)"
        "n \<in> pmm_window (frames s)" "n \<notin> used_frames (frames s)" "n < PAGE_FRAMES"
        "used_frames pm = insert n (used_frames (frames s))" "same_window (frames s) pm"
      by (cases rule: pmm_alloc_cases) (use free in auto)
    define e where "e = (frame_addr n OR PAGE_FLAG_PRESENT OR PAGE_FLAG_WRITE OR PAGE_FLAG_OWNER OR flags)"
    have e: "present e" "e AND PAGE_FLAG_4MB = 0" "pframe e = n"
      using table_entry [OF frame_addr_bit7 flags(2)] pframe_entry(2) [OF flags(1)]
        present_entry pframe_frame_addr [OF n(4)] by (simp_all add: e_def)
    have nd: "n \<noteq> d" using ok n(2,3) by (auto simp: tables_ok_def held_def)
    define s1 where "s1 = poke d ?pd e (s\<lparr>frames := pm\<rparr>)"
    have d1: "pframe (cr3 s1) = d" "ram s1 d ?pd = e" by (simp_all add: s1_def d)
    have rec1: "recursive (ram s1) d"
      using rec virt by (simp add: recursive_def s1_def)
    define s2 where "s2 = s1\<lparr>ram := (ram s1)(n := (\<lambda>i. if i < 1024 then 0 else ram s1 n i))\<rparr>"
    have clear: "clear_table ?pd s1 = Some s2"
      unfolding s2_def using clear_table_ok [of s1 ?pd n] rec1 virt d1 e nd by simp
    have rec2: "recursive (ram s2) d" and pd2: "ram s2 d ?pd = e" and cr2: "cr3 s2 = cr3 s"
      using rec1 nd d1 by (simp_all add: recursive_def s2_def, simp add: s1_def)
    have pt: "translate s2 (REC_PAGETABLE ?pd) = Some n"
      using rec2 pd2 e virt by (simp add: translate_def cr2 d [symmetric])
    define s' where "s' = (poke n ?pt ?e s2)\<lparr>mem_num_vpages := mem_num_vpages s2 + 1\<rparr>"
    have "map_in_dir virt phys flags s = Some s'"
      using dir False n(1) clear pt
      by (simp add: map_in_dir_def s'_def Let_def e_def [symmetric] s1_def [symmetric])
    moreover have "mapped s d virt ?e n s'"
      using False n e nd by (auto simp: mapped_def s'_def s2_def s1_def is_table_def held_def)
    moreover have "same_setup s s'"
      by (simp add: same_setup_def s'_def s2_def s1_def)
    ultimately show ?thesis by blast
  qed
qed


section \<open>Mapping a page\<close>

lemma held_mono:
  assumes "used_frames (frames s) \<subseteq> used_frames (frames s')" and "same_window (frames s) (frames s')"
    and "held s f"
  shows "held s' f"
  using assms same_windowD [OF assms(2)] by (auto simp: held_def)

lemma mapped_frames:
  assumes "mapped s d virt e f s'"
  shows "used_frames (frames s) \<subseteq> used_frames (frames s')" and "same_window (frames s) (frames s')"
  using assms by (auto simp: mapped_def split: if_splits)

lemma mapped_other_table:
  assumes m: "mapped s d virt e f s'" and ok: "tables_ok s d" and virt: "pd_index virt < 1023"
    and i: "i < 1023" "i \<noteq> pd_index virt" "is_table (ram s d i)"
  shows "pframe (ram s d i) \<noteq> f" and "ram s' (pframe (ram s d i)) = ram s (pframe (ram s d i))"
proof -
  have nd: "pframe (ram s d i) \<noteq> d" and h: "held s (pframe (ram s d i))"
    using ok i by (auto simp: tables_ok_def)
  show nf: "pframe (ram s d i) \<noteq> f"
  proof (cases "present (ram s d (pd_index virt))")
    case True
    then have "is_table (ram s d (pd_index virt))" "pframe (ram s d (pd_index virt)) = f"
      using m by (auto simp: mapped_def)
    then show ?thesis using ok i virt by (auto simp: tables_ok_def)
  next
    case False
    then show ?thesis using m h by (auto simp: mapped_def)
  qed
  show "ram s' (pframe (ram s d i)) = ram s (pframe (ram s d i))"
    using m nd nf by (simp add: mapped_def)
qed

lemma mapped_walk:
  assumes m: "mapped s d virt e f s'" and e: "present e"
  shows "walk (ram s') d virt = Some (pframe e)"
  using m e by (simp add: mapped_def walk_def is_table_def Let_def)

lemma mapped_walk_other:
  assumes m: "mapped s d virt e f s'" and ok: "tables_ok s d" and virt: "pd_index virt < 1023"
    and v: "drop_bit 12 v \<noteq> drop_bit 12 virt" "pd_index v < 1023"
  shows "walk (ram s') d v = walk (ram s) d v"
proof (cases "pd_index v = pd_index virt")
  case True
  with v have pt: "pt_index v \<noteq> pt_index virt" by (simp add: page_eq_iff)
  show ?thesis
  proof (cases "present (ram s d (pd_index virt))")
    case True
    then have "ram s' d = ram s d" "ram s' f (pt_index v) = ram s f (pt_index v)"
        "is_table (ram s d (pd_index virt))" "pframe (ram s d (pd_index virt)) = f"
      using m pt by (auto simp: mapped_def)
    then show ?thesis using \<open>pd_index v = pd_index virt\<close>
      by (simp add: walk_def Let_def is_table_def)
  next
    case False
    have "\<not> present 0" by (simp add: present_bit)
    then show ?thesis using m pt False \<open>pd_index v = pd_index virt\<close> pt_index_bound [of v]
      by (simp add: mapped_def walk_def Let_def is_table_def)
  qed
next
  case False
  have "ram s' d (pd_index v) = ram s d (pd_index v)"
    using m False by (simp add: mapped_def)
  then show ?thesis
    using mapped_other_table(2) [OF m ok virt v(2) False] by (auto simp: walk_def Let_def is_table_def)
qed

lemma mapped_tables_ok:
  assumes m: "mapped s d virt e f s'" and ok: "tables_ok s d" and virt: "pd_index virt < 1023"
  shows "tables_ok s' d"
proof -
  let ?pd = "pd_index virt"
  note mono = held_mono [OF mapped_frames [OF m]]
  have same: "ram s' d j = ram s d j" if "j \<noteq> ?pd" for j using m that by (simp add: mapped_def)
  have f: "is_table (ram s' d ?pd)" "pframe (ram s' d ?pd) = f" "f \<noteq> d"
    using m by (simp_all add: mapped_def)
  have hf: "held s' f"
  proof (cases "present (ram s d ?pd)")
    case True
    then have "is_table (ram s d ?pd)" "pframe (ram s d ?pd) = f" using m by (auto simp: mapped_def)
    then show ?thesis using ok virt mono by (auto simp: tables_ok_def)
  next
    case False
    then show ?thesis using m by (simp add: mapped_def held_def)
  qed
  have other: "pframe (ram s d i) \<noteq> f" if "i < 1023" "i \<noteq> ?pd" "is_table (ram s d i)" for i
    by (rule mapped_other_table(1) [OF m ok virt that])
  have "recursive (ram s') d"
    using ok virt same [of 1023] by (simp add: tables_ok_def recursive_def)
  moreover have "held s' d" using ok mono by (simp add: tables_ok_def)
  moreover have "pframe (ram s' d i) \<noteq> d \<and> held s' (pframe (ram s' d i))"
    if "i < 1023" "is_table (ram s' d i)" for i
    using that f hf same [of i] ok mono by (cases "i = ?pd") (auto simp: tables_ok_def)
  moreover have "i = j" if "i < 1023" "j < 1023" "is_table (ram s' d i)" "is_table (ram s' d j)"
      "pframe (ram s' d i) = pframe (ram s' d j)" for i j
    using that same [of i] same [of j] f other [of i] other [of j] ok
    by (cases "i = ?pd"; cases "j = ?pd") (auto simp: tables_ok_def)
  ultimately show ?thesis
    unfolding tables_ok_def by blast
qed


section \<open>Synchronising the kernel half\<close>

lemma copy_kernel_half:
  assumes "p \<noteq> k"
  shows "fold (\<lambda>j s. poke p j (ram s k j AND NOT PAGE_FLAG_OWNER) s) [768..<1023] s
    = s\<lparr>ram := (ram s)(p := (\<lambda>j. if 768 \<le> j \<and> j < 1023 then ram s k j AND NOT PAGE_FLAG_OWNER
                                else ram s p j))\<rparr>"
proof -
  let ?P = "\<lambda>n t. t = s\<lparr>ram := (ram s)(p := (\<lambda>j. if 768 \<le> j \<and> j < n
    then ram s k j AND NOT PAGE_FLAG_OWNER else ram s p j))\<rparr>"
  have "?P 1023 (fold (\<lambda>j s. poke p j (ram s k j AND NOT PAGE_FLAG_OWNER) s) [768..<1023] s)"
  proof (rule fold_upt [where P = ?P])
    show "?P 768 s" by (intro mmu_state.equality) (auto simp: fun_eq_iff)
  qed (use assms in \<open>auto simp: poke_def less_Suc_eq fun_eq_iff\<close>)
  then show ?thesis .
qed

text \<open>The static page directories are different frames, and none is the kernel directory.\<close>

definition dirs_ok :: "mmu_state \<Rightarrow> bool" where
  "dirs_ok s \<longleftrightarrow> inj_on (pdir_frame s) {..<NUM_PAGE_DIRS} \<and> kdir_frame s \<notin> pdir_frame s ` {..<NUM_PAGE_DIRS}"

definition dir_used :: "mmu_state \<Rightarrow> nat \<Rightarrow> bool" where
  "dir_used s i \<longleftrightarrow> i < NUM_PAGE_DIRS \<and> pageDirsUsed s i \<noteq> 0"

lemma setup_simps [simp]:
  "pdir_frame (s\<lparr>ram := r\<rparr>) = pdir_frame s" "kdir_frame (s\<lparr>ram := r\<rparr>) = kdir_frame s"
  by (simp_all add: pdir_frame_def page_dir_def kdir_frame_def fun_eq_iff)

lemma sync_page_dirs_ram:
  assumes "dirs_ok s"
  shows "sync_page_dirs s = s\<lparr>ram := (\<lambda>g j. if (\<exists>i. dir_used s i \<and> g = pdir_frame s i) \<and> 768 \<le> j \<and> j < 1023
    then ram s (kdir_frame s) j AND NOT PAGE_FLAG_OWNER else ram s g j)\<rparr>"
proof -
  let ?k = "kdir_frame s"
  let ?P = "\<lambda>n t. t = s\<lparr>ram := (\<lambda>g j. if (\<exists>i<n. pageDirsUsed s i \<noteq> 0 \<and> g = pdir_frame s i) \<and> 768 \<le> j \<and> j < 1023
    then ram s ?k j AND NOT PAGE_FLAG_OWNER else ram s g j)\<rparr>"
  let ?f = "\<lambda>i s. if pageDirsUsed s i \<noteq> 0
                then fold (\<lambda>j s. poke (pdir_frame s i) j
                             (ram s (kdir_frame s) j AND NOT PAGE_FLAG_OWNER) s) [768..<1023] s
                else s"
  have fold_eq: "fold (\<lambda>j s. poke (pdir_frame s i) j (ram s (kdir_frame s) j AND NOT PAGE_FLAG_OWNER) s) js t
    = fold (\<lambda>j s. poke (pdir_frame t i) j (ram s (kdir_frame t) j AND NOT PAGE_FLAG_OWNER) s) js t" for i js t
    by (induction js arbitrary: t) simp_all
  have "?P NUM_PAGE_DIRS (fold ?f [0..<NUM_PAGE_DIRS] s)"
  proof (rule fold_upt [where P = ?P])
    show "?P 0 s" by simp
  next
    fix i t assume i: "i < NUM_PAGE_DIRS" and t: "?P i t"
    have kn: "?k \<noteq> pdir_frame s i'" if "i' < NUM_PAGE_DIRS" for i'
      using assms that unfolding dirs_ok_def by blast
    have "i = i'" if "i' < i" "pdir_frame s i = pdir_frame s i'" for i'
      using assms i that unfolding dirs_ok_def by (meson inj_onD lessThan_iff less_trans)
    then have nd: "\<not> (\<exists>i'<i. pdir_frame s i = pdir_frame s i')" by blast
    have k: "pdir_frame s i \<noteq> ?k" and no: "\<not> (\<exists>i'<i. pageDirsUsed s i' \<noteq> 0 \<and> ?k = pdir_frame s i')"
      using kn i less_trans by metis+
    have kr: "ram t ?k = ram s ?k"
      using no t by (auto simp: fun_eq_iff)
    have fr: "pdir_frame t = pdir_frame s" "kdir_frame t = ?k" "pageDirsUsed t = pageDirsUsed s"
      using t by simp_all
    show "?P (Suc i) (?f i t)"
    proof (cases "pageDirsUsed s i = 0")
      case True
      then show ?thesis using t by (simp add: less_Suc_eq conj_disj_distribR ex_disj_distrib)
    next
      case False
      have "?f i t = fold (\<lambda>j s. poke (pdir_frame s i) j (ram s (kdir_frame s) j AND NOT PAGE_FLAG_OWNER) s)
          [768..<1023] t"
        by (simp only: fr False simp_thms if_True)
      also have "\<dots> = fold (\<lambda>j s. poke (pdir_frame t i) j (ram s (kdir_frame t) j AND NOT PAGE_FLAG_OWNER) s)
          [768..<1023] t"
        by (rule fold_eq)
      also have "\<dots> = t\<lparr>ram := (ram t)(pdir_frame s i := (\<lambda>j. if 768 \<le> j \<and> j < 1023
          then ram s ?k j AND NOT PAGE_FLAG_OWNER else ram t (pdir_frame s i) j))\<rparr>"
        unfolding fr(1,2) copy_kernel_half [OF k] kr by (rule refl)
      finally have step: "?f i t = t\<lparr>ram := (ram t)(pdir_frame s i := (\<lambda>j. if 768 \<le> j \<and> j < 1023
          then ram s ?k j AND NOT PAGE_FLAG_OWNER else ram t (pdir_frame s i) j))\<rparr>" .
      have rt: "ram t (pdir_frame s i) = ram s (pdir_frame s i)"
        using t nd by (auto simp: fun_eq_iff)
      have tt: "t\<lparr>ram := X\<rparr> = s\<lparr>ram := X\<rparr>" for X
        using t by simp
      have new: "(ram t)(pdir_frame s i := (\<lambda>j. if 768 \<le> j \<and> j < 1023
          then ram s ?k j AND NOT PAGE_FLAG_OWNER else ram s (pdir_frame s i) j))
        = (\<lambda>g j. if (\<exists>i'<Suc i. pageDirsUsed s i' \<noteq> 0 \<and> g = pdir_frame s i') \<and> 768 \<le> j \<and> j < 1023
            then ram s ?k j AND NOT PAGE_FLAG_OWNER else ram s g j)"
      proof (intro ext)
        fix g j
        show "((ram t)(pdir_frame s i := (\<lambda>j. if 768 \<le> j \<and> j < 1023
            then ram s ?k j AND NOT PAGE_FLAG_OWNER else ram s (pdir_frame s i) j))) g j
          = (if (\<exists>i'<Suc i. pageDirsUsed s i' \<noteq> 0 \<and> g = pdir_frame s i') \<and> 768 \<le> j \<and> j < 1023
            then ram s ?k j AND NOT PAGE_FLAG_OWNER else ram s g j)"
        proof (cases "g = pdir_frame s i")
          case True
          then show ?thesis using False by auto
        next
          case other: False
          then have "(\<exists>i'<Suc i. pageDirsUsed s i' \<noteq> 0 \<and> g = pdir_frame s i')
              \<longleftrightarrow> (\<exists>i'<i. pageDirsUsed s i' \<noteq> 0 \<and> g = pdir_frame s i')"
            by (auto simp: less_Suc_eq)
          then show ?thesis using other t by simp
        qed
      qed
      show ?thesis
        unfolding step rt tt new by (rule refl)
    qed
  qed simp
  then show ?thesis
    by (simp add: sync_page_dirs_def dir_used_def)
qed

lemma not_owner:
  "present (e AND NOT PAGE_FLAG_OWNER) = present e"
  "(e AND NOT PAGE_FLAG_OWNER) AND PAGE_FLAG_4MB = e AND PAGE_FLAG_4MB"
  "pframe (e AND NOT PAGE_FLAG_OWNER) = pframe e"
proof -
  show "present (e AND NOT PAGE_FLAG_OWNER) = present e"
    using bit_and_not_shift_one [of 9 e 0] by (simp add: present_bit PAGE_FLAG_OWNER_def)
  have "PAGE_FLAG_4MB AND NOT PAGE_FLAG_OWNER = PAGE_FLAG_4MB" by (simp add: page_flags)
  then show "(e AND NOT PAGE_FLAG_OWNER) AND PAGE_FLAG_4MB = e AND PAGE_FLAG_4MB"
    by (metis and.assoc and.commute)
  have "drop_bit 12 (NOT PAGE_FLAG_OWNER) = (drop_bit 12 (-1) :: u32)"
    by (simp add: PAGE_FLAG_OWNER_def mask_eq_exp_minus_1)
  then show "pframe (e AND NOT PAGE_FLAG_OWNER) = pframe e"
    unfolding pframe_def drop_bit_and by (metis and.right_neutral drop_bit_and)
qed

section \<open>Entering and leaving the kernel directory\<close>

lemma enter_user:
  assumes "v < KERNEL_START"
  shows "enter_dir v s = (0, s)"
proof -
  have "\<not> KERNEL_START \<le> v" using assms by (simp add: not_le)
  then show ?thesis by (simp add: enter_dir_def)
qed

lemma leave_user [simp]: "leave_dir 0 s = s"
  by (simp add: leave_dir_def)

lemma enter_kernel:
  assumes "v \<ge> KERNEL_START"
  shows "enter_dir v s = (cr3 s + KERNEL_START, s\<lparr>cr3 := kernel_directory s - KERNEL_START\<rparr>)"
  using assms
  by (auto simp: enter_dir_def mem_get_current_page_directory_def mem_change_page_directory_def Let_def
      eq_diff_eq [symmetric])

lemma leave_kernel:
  assumes "prev \<noteq> 0" and "cr3 s = kernel_directory s - KERNEL_START" and "dirs_ok s"
  shows "leave_dir prev s = (sync_page_dirs s)\<lparr>cr3 := prev - KERNEL_START\<rparr>"
  using assms
  by (auto simp: leave_dir_def mem_change_page_directory_def sync_page_dirs_ram Let_def)


section \<open>Fresh directories\<close>

lemma clear_entries:
  "fold (\<lambda>j s. poke p j 0 s) [0..<n] s
    = s\<lparr>ram := (ram s)(p := (\<lambda>j. if j < n then 0 else ram s p j))\<rparr>"
proof (induction n)
  case 0
  then show ?case by (intro mmu_state.equality) (auto simp: fun_eq_iff)
next
  case (Suc n)
  then show ?case by (auto simp: poke_def less_Suc_eq fun_eq_iff)
qed

lemma fill_page_dir_ram:
  assumes "pdir_frame s i \<noteq> kdir_frame s"
  shows "fill_page_dir i s = s\<lparr>ram := (ram s)(pdir_frame s i := (\<lambda>j.
    if j < 768 then 0
    else if j < 1023 then ram s (kdir_frame s) j AND NOT PAGE_FLAG_OWNER
    else if j = 1023 then (page_dir s i - KERNEL_START) OR PAGE_FLAG_PRESENT OR PAGE_FLAG_WRITE
    else ram s (pdir_frame s i) j))\<rparr>"
proof -
  let ?p = "pdir_frame s i" and ?k = "kdir_frame s"
  have eq0: "fold (\<lambda>j s. poke (pdir_frame s i) j 0 s) js t = fold (\<lambda>j s. poke (pdir_frame t i) j 0 s) js t" for js t
    by (induction js arbitrary: t) simp_all
  have eqk: "fold (\<lambda>j s. poke (pdir_frame s i) j (ram s (kdir_frame s) j AND NOT PAGE_FLAG_OWNER) s) js t
    = fold (\<lambda>j s. poke (pdir_frame t i) j (ram s (kdir_frame t) j AND NOT PAGE_FLAG_OWNER) s) js t" for js t
    by (induction js arbitrary: t) simp_all
  define s1 where "s1 = s\<lparr>ram := (ram s)(?p := (\<lambda>j. if j < 1024 then 0 else ram s ?p j))\<rparr>"
  have f1: "fold (\<lambda>j s. poke (pdir_frame s i) j 0 s) [0..<1024] s = s1"
    unfolding eq0 [of _ s] clear_entries s1_def by (rule refl)
  have fr: "pdir_frame s1 = pdir_frame s" "kdir_frame s1 = ?k" "page_dir s1 = page_dir s"
    "kernel_directory s1 = kernel_directory s"
    by (simp_all add: s1_def page_dir_def fun_eq_iff)
  have f2: "fold (\<lambda>j s. poke (pdir_frame s i) j 0 s) [0..<768] s1 = s1"
    unfolding eq0 [of _ s1] fr(1) clear_entries
    by (intro mmu_state.equality) (auto simp: s1_def fun_eq_iff)
  show ?thesis
    unfolding fill_page_dir_def f1 Let_def f2 eqk [of _ s1] fr(1,2) copy_kernel_half [OF assms]
    using assms by (intro mmu_state.equality) (auto simp: s1_def fun_eq_iff page_dir_def)
qed

section \<open>Properties\<close>

lemma user_page: "v < KERNEL_START \<Longrightarrow> pd_index v < 768"
  by (simp add: unat_pd_index KERNEL_START_def word_less_nat_alt)

text \<open>What \<open>mem_map_page\<close> needs of its arguments and of the tables it changes.\<close>

definition map_request_ok :: "mmu_state \<Rightarrow> nat \<Rightarrow> u32 \<Rightarrow> u32 \<Rightarrow> bool" where
  "map_request_ok s d virt flags \<longleftrightarrow> tables_ok s d \<and> window_ok (frames s)
     \<and> pd_index virt < 1023 \<and> flags < 4096 \<and> \<not> bit flags 7
     \<and> (if present (ram s d (pd_index virt)) then is_table (ram s d (pd_index virt))
        else \<not> pmm_window (frames s) \<subseteq> used_frames (frames s))"

text \<open>C4: mapping a page of the user half: afterwards the page translates to the given frame in the
  current directory, every other page below the recursive window translates as before, and the
  tables are again well formed, whether or not a page table had to be allocated.\<close>

theorem mem_map_page_user:
  assumes "virt < KERNEL_START" and "map_request_ok s (pframe (cr3 s)) virt flags"
  shows "\<exists>s'. mem_map_page virt phys flags s = Some s' \<and> translate s' virt = Some (pframe phys)
    \<and> (\<forall>v. drop_bit 12 v \<noteq> drop_bit 12 virt \<longrightarrow> pd_index v < 1023 \<longrightarrow> translate s' v = translate s v)
    \<and> tables_ok s' (pframe (cr3 s')) \<and> cr3 s' = cr3 s"
proof -
  let ?d = "pframe (cr3 s)" and ?e = "phys OR PAGE_FLAG_PRESENT OR flags"
  from assms(2) have ok: "tables_ok s ?d" and virt: "pd_index virt < 1023" and fl: "flags < 4096"
    by (auto simp: map_request_ok_def)
  obtain s' f where s': "map_in_dir virt phys flags s = Some s'" "mapped s ?d virt ?e f s'" "same_setup s s'"
    using map_in_dir_mapped [of s ?d virt flags phys] assms(2) by (auto simp: map_request_ok_def)
  have "mem_map_page virt phys flags s = Some s'"
    using s'(1) enter_user [OF assms(1)] by (simp add: mem_map_page_def)
  moreover have "cr3 s' = cr3 s" using s'(3) by (simp add: same_setup_def)
  moreover have "translate s' virt = Some (pframe phys)"
    using mapped_walk [OF s'(2) present_entry] pframe_entry(1) [OF fl] calculation(2)
    by (simp only: translate_def)
  moreover have "translate s' v = translate s v"
    if "drop_bit 12 v \<noteq> drop_bit 12 virt" "pd_index v < 1023" for v
    using mapped_walk_other [OF s'(2) ok virt that] calculation(2) by (simp only: translate_def)
  moreover have "tables_ok s' ?d" by (rule mapped_tables_ok [OF s'(2) ok virt])
  ultimately show ?thesis by auto
qed

text \<open>The frames of the page directories are none of the tables of the kernel directory.\<close>

definition kernel_ok :: "mmu_state \<Rightarrow> bool" where
  "kernel_ok s \<longleftrightarrow> dirs_ok s \<and> (\<forall>i<NUM_PAGE_DIRS. held s (pdir_frame s i)
     \<and> (\<forall>j<1023. is_table (ram s (kdir_frame s) j) \<longrightarrow> pframe (ram s (kdir_frame s) j) \<noteq> pdir_frame s i))"

text \<open>Mapping a page of the kernel half is mapping it in the kernel directory and synchronising.\<close>

lemma map_kernel_mapped:
  assumes virt: "virt \<ge> KERNEL_START" and ok: "map_request_ok s (kdir_frame s) virt flags"
    and k: "kernel_ok s" and cur: "mem_get_current_page_directory s \<noteq> 0"
  shows "\<exists>s1 f. mem_map_page virt phys flags s = Some ((sync_page_dirs s1)\<lparr>cr3 := cr3 s\<rparr>)
    \<and> mapped s (kdir_frame s) virt (phys OR PAGE_FLAG_PRESENT OR flags) f s1
    \<and> same_setup (s\<lparr>cr3 := kernel_directory s - KERNEL_START\<rparr>) s1 \<and> kernel_ok s1"
proof -
  let ?k = "kdir_frame s" and ?e = "phys OR PAGE_FLAG_PRESENT OR flags" and ?pd = "pd_index virt"
  let ?s = "s\<lparr>cr3 := kernel_directory s - KERNEL_START\<rparr>"
  have kd: "pframe (cr3 ?s) = ?k" by (simp add: kdir_frame_def)
  have pd: "?pd < 1023" and tabs: "tables_ok ?s ?k" using ok by (simp_all add: map_request_ok_def tables_ok_def held_def)
  have "\<exists>s' f. map_in_dir virt phys flags ?s = Some s' \<and> mapped ?s ?k virt ?e f s' \<and> same_setup ?s s'"
    by (rule map_in_dir_mapped [OF tabs kd [symmetric]]) (use ok in \<open>simp_all add: map_request_ok_def\<close>)
  moreover have "mapped ?s = mapped s" by (simp add: mapped_def held_def fun_eq_iff)
  ultimately obtain s1 f where s1: "map_in_dir virt phys flags ?s = Some s1" "mapped s ?k virt ?e f s1"
      "same_setup ?s s1"
    by auto
  have same: "pdir_frame s1 = pdir_frame s" "kdir_frame s1 = ?k"
    using s1(3) by (simp_all add: same_setup_def pdir_frame_def page_dir_def kdir_frame_def fun_eq_iff)
  have dirs: "dirs_ok s1" using k same by (simp add: kernel_ok_def dirs_ok_def)
  have "f \<noteq> pdir_frame s i" if i: "i < NUM_PAGE_DIRS" for i
    using s1(2) k i pd by (cases "present (ram s ?k ?pd)") (auto simp: mapped_def kernel_ok_def)
  moreover have "ram s1 ?k j = ram s ?k j \<or> j = ?pd \<and> pframe (ram s1 ?k j) = f" for j
    using s1(2) by (cases "j = ?pd") (simp_all add: mapped_def)
  ultimately have "kernel_ok s1"
    using k dirs held_mono [OF mapped_frames [OF s1(2)]] unfolding kernel_ok_def same by metis
  moreover have "cr3 s1 = kernel_directory s1 - KERNEL_START" using s1(3) by (simp add: same_setup_def)
  then have "mem_map_page virt phys flags s = Some ((sync_page_dirs s1)\<lparr>cr3 := cr3 s\<rparr>)"
    using s1(1) enter_kernel [OF virt] leave_kernel [OF _ _ dirs] cur
    by (simp add: mem_map_page_def mem_get_current_page_directory_def)
  ultimately show ?thesis using s1(2,3) by blast
qed

text \<open>Synchronising leaves everything but the page directories alone, so the kernel directory translates as before.\<close>

lemma sync_page_dirs_other:
  assumes "kernel_ok s"
  shows "g \<notin> pdir_frame s ` {..<NUM_PAGE_DIRS} \<Longrightarrow> ram (sync_page_dirs s) g = ram s g"
    and "ram (sync_page_dirs s) (kdir_frame s) = ram s (kdir_frame s)"
    and "is_table (ram s (kdir_frame s) j) \<Longrightarrow> j < 1023 \<Longrightarrow>
      ram (sync_page_dirs s) (pframe (ram s (kdir_frame s) j)) = ram s (pframe (ram s (kdir_frame s) j))"
    and "pd_index v < 1023 \<Longrightarrow> walk (ram (sync_page_dirs s)) (kdir_frame s) v = walk (ram s) (kdir_frame s) v"
    and "dir_used s i \<Longrightarrow> 768 \<le> pd_index v \<Longrightarrow> pd_index v < 1023 \<Longrightarrow>
      walk (ram (sync_page_dirs s)) (pdir_frame s i) v = walk (ram s) (kdir_frame s) v"
proof -
  have d: "dirs_ok s" using assms by (simp add: kernel_ok_def)
  note ram' = sync_page_dirs_ram [OF d]
  have other: "ram (sync_page_dirs s) g = ram s g" if "g \<notin> pdir_frame s ` {..<NUM_PAGE_DIRS}" for g
    using that by (auto simp: ram' dir_used_def fun_eq_iff)
  then show "g \<notin> pdir_frame s ` {..<NUM_PAGE_DIRS} \<Longrightarrow> ram (sync_page_dirs s) g = ram s g" .
  show kr: "ram (sync_page_dirs s) (kdir_frame s) = ram s (kdir_frame s)"
    by (rule other) (use d in \<open>simp add: dirs_ok_def\<close>)
  have tr: "ram (sync_page_dirs s) (pframe (ram s (kdir_frame s) j)) = ram s (pframe (ram s (kdir_frame s) j))"
    if "is_table (ram s (kdir_frame s) j)" "j < 1023" for j
    by (rule other) (use assms that in \<open>auto simp: kernel_ok_def\<close>)
  then show "is_table (ram s (kdir_frame s) j) \<Longrightarrow> j < 1023 \<Longrightarrow>
      ram (sync_page_dirs s) (pframe (ram s (kdir_frame s) j)) = ram s (pframe (ram s (kdir_frame s) j))" .
  show "walk (ram (sync_page_dirs s)) (kdir_frame s) v = walk (ram s) (kdir_frame s) v" if "pd_index v < 1023"
    using tr [of "pd_index v"] that by (auto simp: walk_def Let_def kr is_table_def)
  show "walk (ram (sync_page_dirs s)) (pdir_frame s i) v = walk (ram s) (kdir_frame s) v"
    if "dir_used s i" "768 \<le> pd_index v" "pd_index v < 1023"
  proof -
    have "ram (sync_page_dirs s) (pdir_frame s i) (pd_index v) = ram s (kdir_frame s) (pd_index v) AND NOT PAGE_FLAG_OWNER"
      using that by (auto simp: ram')
    then show ?thesis
      using tr [of "pd_index v"] that by (auto simp: walk_def Let_def is_table_def not_owner)
  qed
qed

text \<open>C3: mapping a page of the kernel half, from whatever directory is current: the page translates
  to the given frame in the kernel directory and in every page directory that is in use, and
  \<open>CR3\<close> is what it was.\<close>

theorem mem_map_page_kernel:
  assumes virt: "virt \<ge> KERNEL_START" and ok: "map_request_ok s (kdir_frame s) virt flags"
    and k: "kernel_ok s" and cur: "mem_get_current_page_directory s \<noteq> 0"
  shows "\<exists>s'. mem_map_page virt phys flags s = Some s' \<and> cr3 s' = cr3 s
    \<and> (\<forall>d \<in> insert (kdir_frame s) (pdir_frame s ` {i. dir_used s i}).
         walk (ram s') d virt = Some (pframe phys))"
proof -
  let ?e = "phys OR PAGE_FLAG_PRESENT OR flags"
  obtain s1 f where s1: "mem_map_page virt phys flags s = Some ((sync_page_dirs s1)\<lparr>cr3 := cr3 s\<rparr>)"
      "mapped s (kdir_frame s) virt ?e f s1" "same_setup (s\<lparr>cr3 := kernel_directory s - KERNEL_START\<rparr>) s1"
      "kernel_ok s1"
    using map_kernel_mapped [OF assms, of phys] by blast
  have pd: "768 \<le> pd_index virt" "pd_index virt < 1023" and fl: "flags < 4096"
    using virt ok by (simp_all add: map_request_ok_def unat_pd_index KERNEL_START_def word_le_nat_alt)
  have same: "pdir_frame s1 = pdir_frame s" "kdir_frame s1 = kdir_frame s" "dir_used s1 = dir_used s"
    using s1(3) by (simp_all add: same_setup_def pdir_frame_def page_dir_def kdir_frame_def dir_used_def fun_eq_iff)
  have "walk (ram s1) (kdir_frame s) virt = Some (pframe phys)"
    using mapped_walk [OF s1(2) present_entry] pframe_entry(1) [OF fl] by simp
  then show ?thesis
    using s1(1) sync_page_dirs_other(4,5) [OF s1(4)] pd by (auto simp: same)
qed

text \<open>The early return of \<open>mem_unmap_page\<close>: asked to unmap a page of the kernel half whose page
  table is not present, it returns 0 without switching back, so the caller goes on in the kernel
  directory instead of its own.\<close>

theorem mem_unmap_page_keeps_kernel_directory:
  assumes "virt \<ge> KERNEL_START" and "recursive (ram s) (kdir_frame s)"
    and "\<not> present (ram s (kdir_frame s) (pd_index virt))"
  shows "mem_unmap_page virt s = Some (0, s\<lparr>cr3 := kernel_directory s - KERNEL_START\<rparr>)"
  using assms enter_kernel [OF assms(1), of s]
  by (simp add: mem_unmap_page_def translate_def kdir_frame_def)


text \<open>C32: \<open>mem_alloc_page_dir\<close> hands out the first directory that is not in use: its user half is
  empty, its kernel half is that of the kernel directory without the owner flags, its last entry
  maps itself, and nothing else in memory changes. With all 256 in use it returns 0.\<close>

theorem mem_alloc_page_dir_fresh:
  assumes "dirs_ok s"
  shows "if \<forall>i<NUM_PAGE_DIRS. dir_used s i then mem_alloc_page_dir s = (0, s)
    else let i = LEAST i. i < NUM_PAGE_DIRS \<and> \<not> dir_used s i; (pd, s') = mem_alloc_page_dir s in
      pd = page_dir s i \<and> dir_used s' = (dir_used s)(i := True)
      \<and> (\<forall>j<768. ram s' (pdir_frame s i) j = 0)
      \<and> (\<forall>j. 768 \<le> j \<longrightarrow> j < 1023 \<longrightarrow>
           ram s' (pdir_frame s i) j = ram s (kdir_frame s) j AND NOT PAGE_FLAG_OWNER)
      \<and> ram s' (pdir_frame s i) 1023 = (pd - KERNEL_START) OR PAGE_FLAG_PRESENT OR PAGE_FLAG_WRITE
      \<and> (\<forall>g. g \<noteq> pdir_frame s i \<longrightarrow> ram s' g = ram s g)"
proof (cases "\<forall>i<NUM_PAGE_DIRS. dir_used s i")
  case True
  then have "first_unused_dir s = None"
    by (auto simp: first_unused_dir_def find_None_iff dir_used_def)
  then show ?thesis using True by (simp add: mem_alloc_page_dir_def)
next
  case False
  define i where "i = (LEAST i. i < NUM_PAGE_DIRS \<and> \<not> dir_used s i)"
  have i: "i < NUM_PAGE_DIRS \<and> \<not> dir_used s i"
    using False LeastI_ex [of "\<lambda>i. i < NUM_PAGE_DIRS \<and> \<not> dir_used s i"] unfolding i_def by blast
  have least: "dir_used s j" if "j < i" for j
    using that i not_less_Least [of j "\<lambda>i. i < NUM_PAGE_DIRS \<and> \<not> dir_used s i"] unfolding i_def
    by (meson less_trans)
  have first: "first_unused_dir s = Some i"
    using i least unfolding first_unused_dir_def find_Some_iff
    by (intro exI [of _ i]) (auto simp: dir_used_def nth_upt)
  define s1 where "s1 = s\<lparr>pageDirsUsed := (pageDirsUsed s)(i := 1)\<rparr>"
  have fr: "pdir_frame s1 = pdir_frame s" "kdir_frame s1 = kdir_frame s" "page_dir s1 = page_dir s" "ram s1 = ram s"
    by (simp_all add: s1_def pdir_frame_def page_dir_def kdir_frame_def fun_eq_iff)
  have pk: "pdir_frame s1 i \<noteq> kdir_frame s1"
    using assms i unfolding fr dirs_ok_def by (metis imageI lessThan_iff)
  have res: "mem_alloc_page_dir s = (page_dir s i, fill_page_dir i s1)"
    by (simp add: mem_alloc_page_dir_def first s1_def)
  have used: "dir_used (fill_page_dir i s1) = (dir_used s)(i := True)"
    unfolding fill_page_dir_ram [OF pk] using i by (auto simp: dir_used_def s1_def fun_eq_iff)
  have mem: "ram (fill_page_dir i s1) = (ram s)(pdir_frame s i := (\<lambda>j.
      if j < 768 then 0
      else if j < 1023 then ram s (kdir_frame s) j AND NOT PAGE_FLAG_OWNER
      else if j = 1023 then (page_dir s i - KERNEL_START) OR PAGE_FLAG_PRESENT OR PAGE_FLAG_WRITE
      else ram s (pdir_frame s i) j))"
    unfolding fill_page_dir_ram [OF pk] fr by simp
  show ?thesis
    unfolding if_not_P [OF False] by (simp add: i_def [symmetric] res used mem)
qed

section \<open>A concrete memory\<close>

text \<open>The kernel directory in frame 1, the page directories from frame 2 on, the first of them in
  use and current; \<open>pmm_demo\<close> hands out frames from 4096 on.\<close>

definition mmu_demo :: mmu_state where
  "mmu_demo = \<lparr>ram = (\<lambda>_ _. 0)(1 := (\<lambda>_. 0)(1023 := 0x1003), 2 := (\<lambda>_. 0)(1023 := 0x2003)),
     cr3 = 0x2000, kernel_directory = 0xC0001000, pageDirs = 0xC0002000,
     pageDirsUsed = (\<lambda>i. if i = 0 then 1 else 0), mem_num_vpages = 0, frames = pmm_demo\<rparr>"

lemma demo_pdir: "i < NUM_PAGE_DIRS \<Longrightarrow> pdir_frame mmu_demo i = 2 + i"
  by (simp add: pdir_frame_def page_dir_def mmu_demo_def pframe_def KERNEL_START_def PAGE_SIZE_def
      NUM_PAGE_DIRS_def drop_bit_eq_div unat_div unat_word_ariths unat_of_nat)

lemma demo_kdir: "kdir_frame mmu_demo = 1"
  by (simp add: kdir_frame_def mmu_demo_def pframe_def KERNEL_START_def)

lemma demo_cr3: "pframe (cr3 mmu_demo) = 2" "frames mmu_demo = pmm_demo"
  by (simp_all add: mmu_demo_def pframe_def)

lemma demo_window: "f < 4096 \<Longrightarrow> held mmu_demo f"
  using pmm_demo_window by (simp add: held_def demo_cr3 pmm_window_def)

lemma demo_free: "\<not> pmm_window pmm_demo \<subseteq> used_frames pmm_demo"
  using pmm_demo_window pmm_demo_used by (simp add: pmm_window_def)

lemma demo_tables: "d = 1 \<or> d = 2 \<Longrightarrow> tables_ok mmu_demo d"
  using demo_window [of d]
  by (auto simp: tables_ok_def recursive_def mmu_demo_def is_table_def present_def pframe_def page_flags)

lemma demo_request:
  "d = 1 \<or> d = 2 \<Longrightarrow> pd_index virt < 1023 \<Longrightarrow> map_request_ok mmu_demo d virt 3"
  using demo_tables [of d] pmm_demo_window(1) demo_free
  by (auto simp: map_request_ok_def demo_cr3 mmu_demo_def present_def)

lemma demo_dirs: "dirs_ok mmu_demo" "kernel_ok mmu_demo"
proof -
  show "dirs_ok mmu_demo"
    by (auto simp: dirs_ok_def inj_on_def demo_pdir demo_kdir)
  moreover have "held mmu_demo (pdir_frame mmu_demo i)" if "i < NUM_PAGE_DIRS" for i
    using that demo_window [of "2 + i"] by (simp add: demo_pdir NUM_PAGE_DIRS_def)
  ultimately show "kernel_ok mmu_demo"
    by (auto simp: kernel_ok_def demo_kdir mmu_demo_def is_table_def present_def)
qed

theorem mem_map_page_user_witness:
  "\<exists>s'. mem_map_page 0x800000 0x5000 3 mmu_demo = Some s' \<and> translate s' 0x800000 = Some 5
    \<and> translate s' 0x801000 = translate mmu_demo 0x801000"
proof -
  have req: "map_request_ok mmu_demo (pframe (cr3 mmu_demo)) 0x800000 3"
    using demo_request [of 2 "0x800000"] by (simp add: demo_cr3 unat_pd_index)
  have "(0x800000 :: u32) < KERNEL_START" by (simp add: KERNEL_START_def)
  from mem_map_page_user [OF this req, of "0x5000"] obtain s' where
    "mem_map_page 0x800000 0x5000 3 mmu_demo = Some s'" "translate s' 0x800000 = Some (pframe 0x5000)"
    "\<forall>v. drop_bit 12 v \<noteq> drop_bit 12 (0x800000 :: u32) \<longrightarrow> pd_index v < 1023 \<longrightarrow>
       translate s' v = translate mmu_demo v"
    by blast
  moreover have "pframe 0x5000 = 5" by (simp add: pframe_def)
  moreover have "translate s' 0x801000 = translate mmu_demo 0x801000"
    by (rule calculation(3) [rule_format]) (simp_all add: unat_pd_index)
  ultimately show ?thesis by auto
qed

theorem mem_map_page_kernel_witness:
  "\<exists>s'. mem_map_page 0xD0000000 0x5000 3 mmu_demo = Some s'
    \<and> walk (ram s') 1 0xD0000000 = Some 5 \<and> walk (ram s') 2 0xD0000000 = Some 5"
proof -
  have "dir_used mmu_demo 0" by (simp add: dir_used_def NUM_PAGE_DIRS_def mmu_demo_def)
  moreover have "pdir_frame mmu_demo 0 = 2" by (simp add: demo_pdir NUM_PAGE_DIRS_def)
  moreover have "mem_get_current_page_directory mmu_demo \<noteq> 0"
    by (simp add: mem_get_current_page_directory_def mmu_demo_def KERNEL_START_def)
  ultimately show ?thesis
    using mem_map_page_kernel [of "0xD0000000" mmu_demo 3 "0x5000"] demo_request [of 1 "0xD0000000"] demo_dirs(2)
    by (force simp: demo_kdir KERNEL_START_def unat_pd_index pframe_def)
qed

theorem mem_unmap_page_keeps_kernel_directory_witness:
  "\<exists>s'. mem_unmap_page 0xD0000000 mmu_demo = Some (0, s') \<and> cr3 s' = 0x1000 \<and> cr3 mmu_demo = 0x2000"
proof -
  have "\<not> present (ram mmu_demo (kdir_frame mmu_demo) (pd_index 0xD0000000))"
    unfolding demo_kdir by (simp add: mmu_demo_def unat_pd_index present_def)
  moreover have "recursive (ram mmu_demo) (kdir_frame mmu_demo)"
    using demo_tables [of 1] by (simp add: demo_kdir tables_ok_def)
  moreover have "(0xD0000000 :: u32) \<ge> KERNEL_START" by (simp add: KERNEL_START_def)
  ultimately have "mem_unmap_page 0xD0000000 mmu_demo
      = Some (0, mmu_demo\<lparr>cr3 := kernel_directory mmu_demo - KERNEL_START\<rparr>)"
    by (intro mem_unmap_page_keeps_kernel_directory)
  then show ?thesis by (simp add: mmu_demo_def KERNEL_START_def)
qed

theorem mem_alloc_page_dir_fresh_witness:
  "fst (mem_alloc_page_dir mmu_demo) = 0xC0003000"
proof -
  have "(LEAST i. i < NUM_PAGE_DIRS \<and> \<not> dir_used mmu_demo i) = 1"
    by (rule Least_equality) (auto simp: dir_used_def NUM_PAGE_DIRS_def mmu_demo_def split: if_splits)
  moreover have "\<not> dir_used mmu_demo 1" by (simp add: dir_used_def mmu_demo_def)
  ultimately show ?thesis
    using mem_alloc_page_dir_fresh [OF demo_dirs(1)]
    by (auto simp: NUM_PAGE_DIRS_def Let_def split_beta page_dir_def mmu_demo_def PAGE_SIZE_def split: if_splits)
qed

end
