(* ===== verification/Disk.thy ===== *)
theory Disk
  imports Clib Paging
begin

text \<open>
  The RAM disk \<open>disk/ramdisk.c\<close> and the glue \<open>fatfs/diskio.c\<close> through which FatFs reads and writes it.
  The disk is the memory from \<open>0xE0400000\<close> on. A function whose C text leaves a non-void function by
  \<open>return;\<close> hands its caller an indeterminate value, which is the argument \<open>garbage\<close> here. Memory is a total
  map of bytes: behind the pages that \<open>create_ramdisk\<close> maps the program faults, where this model still reads and
  writes. The range checks let such sectors pass; the theories of the volume ask for sectors on the disk (\<open>drive_ok\<close>).
\<close>

section \<open>The RAM disk\<close>

definition RAMDISKVIRTUALADRESS :: u32 where "RAMDISKVIRTUALADRESS = 0xE0400000"
definition SECTOR_SIZE :: u32 where "SECTOR_SIZE = 512"

record ramdisk =
  rd_size :: u32
  rd_phys_addr :: u32
  using_ramdisk :: bool

text \<open>The first module of the boot loader, when there is one: where it starts and ends. Without a module
  the pointer \<open>mod\<close> is not initialised before it is followed.\<close>

definition init_ramdisk_disk :: "(u32 \<times> u32) option \<Rightarrow> ramdisk \<Rightarrow> ramdisk option" where
  "init_ramdisk_disk modl d =
     (case modl of
        None \<Rightarrow> None
      | Some (mod_start, mod_end) \<Rightarrow>
          Some (d\<lparr>using_ramdisk := True, rd_phys_addr := mod_start, rd_size := mod_end - mod_start\<rparr>))"

definition create_ramdisk :: "ramdisk \<Rightarrow> mmu_state \<Rightarrow> mmu_state option" where
  "create_ramdisk d s =
     (if \<not> using_ramdisk d then Some s
      else fold_opt (\<lambda>i. mem_map_page (RAMDISKVIRTUALADRESS + of_nat i * PAGE_SIZE)
                         (rd_phys_addr d + of_nat i * PAGE_SIZE) (PAGE_FLAG_PRESENT OR PAGE_FLAG_WRITE))
             [0..<unat (CEIL_DIV (rd_size d) PAGE_SIZE)] s)"

text \<open>\<open>len\<close> of \<open>memcpy\<close> is an \<open>int\<close>: the 32-bit product is read as signed.\<close>

definition disk_read_sector :: "int \<Rightarrow> u32 \<Rightarrow> u32 \<Rightarrow> u32 \<Rightarrow> ramdisk \<Rightarrow> bytes \<Rightarrow> (int \<times> bytes) option" where
  "disk_read_sector garbage buffer sector count d m =
     (if sector + SECTOR_SIZE \<ge> rd_size d then Some (garbage, m)
      else do {
        m \<leftarrow> memcpy buffer (RAMDISKVIRTUALADRESS + sector * SECTOR_SIZE) (sint (count * SECTOR_SIZE)) m;
        Some (0, m)
      })"

definition disk_read_from_offset :: "u32 \<Rightarrow> u32 \<Rightarrow> u32 \<Rightarrow> ramdisk \<Rightarrow> bytes \<Rightarrow> bytes option" where
  "disk_read_from_offset buffer offs n d m =
     (if offs \<ge> rd_size d then Some m
      else memcpy buffer (RAMDISKVIRTUALADRESS + offs) (sint n) m)"

definition disk_write_sector :: "int \<Rightarrow> u32 \<Rightarrow> u32 \<Rightarrow> u32 \<Rightarrow> ramdisk \<Rightarrow> bytes \<Rightarrow> (int \<times> bytes) option" where
  "disk_write_sector garbage buffer sector count d m =
     (if sector + count * SECTOR_SIZE \<ge> rd_size d then Some (garbage, m)
      else do {
        m \<leftarrow> memcpy (RAMDISKVIRTUALADRESS + sector * SECTOR_SIZE) buffer (sint (count * SECTOR_SIZE)) m;
        Some (0, m)
      })"

section \<open>The interface of FatFs\<close>

datatype DRESULT = RES_OK | RES_ERROR | RES_WRPRT | RES_NOTRDY | RES_PARERR

definition STA_NOINIT :: u8 where "STA_NOINIT = 1"
definition DEV_RAM :: u8 where "DEV_RAM = 0"
definition DEV_MMC :: u8 where "DEV_MMC = 1"
definition DEV_USB :: u8 where "DEV_USB = 2"

definition disk_status :: "u8 \<Rightarrow> ramdisk \<Rightarrow> u8" where
  "disk_status pdrv d = (if \<not> using_ramdisk d then STA_NOINIT else 0)"

definition disk_initialize :: "u8 \<Rightarrow> ramdisk \<Rightarrow> u8" where
  "disk_initialize pdrv d = (if \<not> using_ramdisk d then STA_NOINIT else 0)"

definition disk_read :: "int \<Rightarrow> u8 \<Rightarrow> u32 \<Rightarrow> u32 \<Rightarrow> u32 \<Rightarrow> ramdisk \<Rightarrow> bytes \<Rightarrow> (DRESULT \<times> bytes) option" where
  "disk_read garbage pdrv buff sector count d m =
     (if pdrv = DEV_RAM then do {
        (result, m) \<leftarrow> disk_read_sector garbage buff sector count d m;
        Some (if result = 0 then RES_OK else RES_ERROR, m)
      } else Some (RES_PARERR, m))"

definition disk_write :: "int \<Rightarrow> u8 \<Rightarrow> u32 \<Rightarrow> u32 \<Rightarrow> u32 \<Rightarrow> ramdisk \<Rightarrow> bytes \<Rightarrow> (DRESULT \<times> bytes) option" where
  "disk_write garbage pdrv buff sector count d m =
     (if pdrv = DEV_RAM then do {
        (result, m) \<leftarrow> disk_write_sector garbage buff sector count d m;
        Some (if result = 0 then RES_OK else RES_ERROR, m)
      } else Some (RES_PARERR, m))"

text \<open>\<open>disk_ioctl\<close> returns a variable that it never sets for the three drives.\<close>

definition disk_ioctl :: "DRESULT \<Rightarrow> u8 \<Rightarrow> u8 \<Rightarrow> DRESULT" where
  "disk_ioctl garbage pdrv cmd =
     (if pdrv = DEV_RAM \<or> pdrv = DEV_MMC \<or> pdrv = DEV_USB then garbage else RES_PARERR)"

section \<open>Reading and writing sectors\<close>

lemma sector_bytes:
  assumes "unat count < 0x400000"
  shows "sint (count * SECTOR_SIZE) = int (unat count * 512)" "unat (count * SECTOR_SIZE) = unat count * 512"
proof -
  show *: "unat (count * SECTOR_SIZE) = unat count * 512"
    using assms by (simp add: SECTOR_SIZE_def unat_u32_mult)
  then have "unat (count * SECTOR_SIZE) < 0x80000000" using assms by simp
  then show "sint (count * SECTOR_SIZE) = int (unat count * 512)"
    using sint_small [of "count * SECTOR_SIZE"] unfolding * by simp
qed

lemma memcpy_sectors:
  assumes "unat count < 0x400000" and "unat count * 512 \<le> offset src dest"
  shows "memcpy dest src (sint (count * SECTOR_SIZE)) m = Some (copied dest src m (unat count * 512))"
proof -
  have "unat count * 512 \<le> 4294967296" using assms(1) by simp
  then have "int (unat count * 512) \<le> int 4294967296" by (simp only: of_nat_le_iff)
  then show ?thesis
    unfolding sector_bytes(1) [OF assms(1)] using assms(2) by (subst memcpy_run) (simp_all only: nat_int, simp_all)
qed

lemma unat_sum_less: "unat a + unat b < unat c \<Longrightarrow> a + b < (c :: u32)"
  using unat_u32_less [of c] by (simp add: word_less_nat_alt unat_u32_add)

definition sector_address :: "u32 \<Rightarrow> u32" where
  "sector_address sector = RAMDISKVIRTUALADRESS + sector * SECTOR_SIZE"

lemma disk_read_run:
  assumes "unat sector + 512 < unat (rd_size d)" and "unat count < 0x400000"
    and "unat count * 512 \<le> offset (sector_address sector) buff"
  shows "disk_read g DEV_RAM buff sector count d m
    = Some (RES_OK, copied buff (sector_address sector) m (unat count * 512))"
proof -
  have "sector + SECTOR_SIZE < rd_size d"
    using assms(1) by (intro unat_sum_less) (simp add: SECTOR_SIZE_def)
  then show ?thesis
    using memcpy_sectors [OF assms(2,3)]
    by (simp add: disk_read_def disk_read_sector_def not_le [symmetric] flip: sector_address_def)
qed

lemma disk_write_run:
  assumes "unat sector + unat count * 512 < unat (rd_size d)" and "unat count < 0x400000"
    and "unat count * 512 \<le> offset buff (sector_address sector)"
  shows "disk_write g DEV_RAM buff sector count d m
    = Some (RES_OK, copied (sector_address sector) buff m (unat count * 512))"
proof -
  have "sector + count * SECTOR_SIZE < rd_size d"
    using assms by (intro unat_sum_less) (simp add: sector_bytes)
  then show ?thesis
    using memcpy_sectors [OF assms(2,3)]
    by (simp add: disk_write_def disk_write_sector_def not_le [symmetric] flip: sector_address_def)
qed

text \<open>C34: what \<open>disk_write\<close> has written to a run of sectors, \<open>disk_read\<close> of the same sectors returns,
  for buffers apart from the disk and a run that passes both range checks. What the checks let pass behind the end
  of the disk counts as memory here.\<close>

theorem disk_write_read:
  assumes "unat sector + unat count * 512 < unat (rd_size d)" and "0 < count" and "unat count < 0x400000"
    and "unat count * 512 \<le> offset buff (sector_address sector)"
    and "unat count * 512 \<le> offset (sector_address sector) buff'"
  shows "\<exists>m1 m2. disk_write g 0 buff sector count d m = Some (RES_OK, m1)
    \<and> disk_read g 0 buff' sector count d m1 = Some (RES_OK, m2)
    \<and> (\<forall>i < unat count * 512. m2 (buff' + of_nat i) = m (buff + of_nat i))"
proof -
  let ?n = "unat count * 512"
  let ?m1 = "copied (sector_address sector) buff m ?n"
  have "0 < unat count" using assms(2) by (simp add: word_less_nat_alt)
  then have "unat sector + 512 < unat (rd_size d)" using assms(1) by simp
  note run = disk_write_run [OF assms(1,3,4), of g m] disk_read_run [OF this assms(3,5), of g ?m1]
  have "copied buff' (sector_address sector) ?m1 ?n (buff' + of_nat i) = m (buff + of_nat i)" if "i < ?n" for i
    using that assms(3) by (simp add: copied_at)
  with run show ?thesis by (auto simp: DEV_RAM_def)
qed

definition ramdisk_demo :: ramdisk where
  "ramdisk_demo = \<lparr>rd_size = 0x100000, rd_phys_addr = 0x1000000, using_ramdisk = True\<rparr>"

theorem disk_write_read_witness:
  "\<exists>m1 m2. disk_write 7 0 0x1000 3 2 ramdisk_demo (\<lambda>a. ucast a) = Some (RES_OK, m1)
    \<and> disk_read 7 0 0x9000 3 2 ramdisk_demo m1 = Some (RES_OK, m2)"
  using disk_write_read [of 3 2 ramdisk_demo "0x1000" "0x9000" 7 "\<lambda>a. ucast a"]
  by (auto simp: ramdisk_demo_def offset_def sector_address_def RAMDISKVIRTUALADRESS_def SECTOR_SIZE_def)

text \<open>The range check of \<open>disk_read\<close> compares a sector number with a size in bytes: a sector that
  starts behind the end of the disk is accepted with \<open>RES_OK\<close> whenever its number is small enough, and
  the buffer receives memory that does not belong to the disk.\<close>

theorem disk_read_beyond_end:
  assumes "unat sector + 512 < unat (rd_size d)" and "unat (rd_size d) \<le> unat sector * 512"
    and "unat sector * 512 < 0x1FC00000" and "512 \<le> offset (sector_address sector) buff"
  shows "\<exists>m'. disk_read g 0 buff sector 1 d m = Some (RES_OK, m')
    \<and> (\<forall>i<512. m' (buff + of_nat i) = m (sector_address sector + of_nat i)
         \<and> unat RAMDISKVIRTUALADRESS + unat (rd_size d) \<le> unat (sector_address sector + of_nat i))"
proof -
  have run: "disk_read g DEV_RAM buff sector 1 d m = Some (RES_OK, copied buff (sector_address sector) m 512)"
    using disk_read_run [of sector d 1 buff g m] assms(1,4) by simp
  have addr: "unat (sector_address sector + of_nat i) = 0xE0400000 + unat sector * 512 + i" if "i < 512" for i
    using assms(3) that
    by (simp add: sector_address_def RAMDISKVIRTUALADRESS_def SECTOR_SIZE_def unat_word_ariths unat_of_nat)
  show ?thesis
    using run addr assms(2) by (auto simp: DEV_RAM_def copied_at RAMDISKVIRTUALADRESS_def)
qed

theorem disk_read_beyond_end_witness:
  "\<exists>m'. disk_read 7 0 0x1000 0x1000 1 ramdisk_demo (\<lambda>_. 3) = Some (RES_OK, m') \<and> m' 0x1000 = 3"
  using disk_read_beyond_end [of "0x1000" ramdisk_demo "0x1000" 7 "\<lambda>_. 3"]
  by (force simp: ramdisk_demo_def offset_def sector_address_def RAMDISKVIRTUALADRESS_def SECTOR_SIZE_def)

end
