(* ===== verification/Heap.thy ===== *)
theory Heap
  imports Paging
begin

text \<open>
  The kernel heap of \<open>mm/heap/heap.c\<close>: blocks of 4096 bytes from \<open>HEAP_START_ADDRESS\<close> on, with one
  byte of state per block. The table of these bytes is itself at \<open>HEAP_START_ADDRESS\<close>: it is the
  beginning of block 0. The model keeps the bytes of the heap by their offset from the start; the
  table entry of block \<open>i\<close> is the byte at offset \<open>i\<close>. An access to an unmapped address is \<open>None\<close>.
\<close>

section \<open>State\<close>

definition HEAP_BLOCK_SIZE :: u32 where "HEAP_BLOCK_SIZE = 4096"
definition HEAP_START_ADDRESS :: u32 where "HEAP_START_ADDRESS = 0xD0000000"
definition HEAP_BLOCK_TABLE_ENTRY_TAKEN :: u8 where "HEAP_BLOCK_TABLE_ENTRY_TAKEN = 1"
definition HEAP_BLOCK_TABLE_ENTRY_FREE :: u8 where "HEAP_BLOCK_TABLE_ENTRY_FREE = 0"
definition HEAP_BLOCK_HAS_NEXT :: u8 where "HEAP_BLOCK_HAS_NEXT = 128"
definition HEAP_BLOCK_IS_FIRST :: u8 where "HEAP_BLOCK_IS_FIRST = 64"
definition INITIAL_HEAP_SIZE :: u32 where "INITIAL_HEAP_SIZE = HEAP_BLOCK_SIZE * 4"

lemmas entry_consts = HEAP_BLOCK_TABLE_ENTRY_TAKEN_def HEAP_BLOCK_TABLE_ENTRY_FREE_def
  HEAP_BLOCK_HAS_NEXT_def HEAP_BLOCK_IS_FIRST_def

record heap_state =
  heap_mem :: "nat \<Rightarrow> u8"
  total_blocks :: u32
  heap_size :: u32
  mmu :: mmu_state

definition heap_mapped :: "heap_state \<Rightarrow> nat \<Rightarrow> bool" where
  "heap_mapped s n \<longleftrightarrow> translate (mmu s) (HEAP_START_ADDRESS + of_nat n) \<noteq> None"

definition entry :: "heap_state \<Rightarrow> nat \<Rightarrow> u8 option" where
  "entry s i = (if heap_mapped s i then Some (heap_mem s i) else None)"

definition set_entry :: "nat \<Rightarrow> u8 \<Rightarrow> heap_state \<Rightarrow> heap_state option" where
  "set_entry i e s = (if heap_mapped s i then Some (s\<lparr>heap_mem := (heap_mem s)(i := e)\<rparr>) else None)"

section \<open>Operations\<close>

text \<open>The loop of \<open>heap_init\<close>, which stops when no frame is left.\<close>

fun heap_init_loop :: "nat list \<Rightarrow> heap_state \<Rightarrow> heap_state option" where
  "heap_init_loop [] s = Some s"
| "heap_init_loop (i # is) s = do {
     (phys_addr, pm) \<leftarrow> pmm_alloc_pageframe (frames (mmu s));
     let s = s\<lparr>mmu := (mmu s)\<lparr>frames := pm\<rparr>\<rparr>;
     if phys_addr = 0 then Some s
     else do {
       m \<leftarrow> mem_map_page (HEAP_START_ADDRESS + of_nat i * HEAP_BLOCK_SIZE) phys_addr
              (PAGE_FLAG_WRITE OR PAGE_FLAG_PRESENT) (mmu s);
       s \<leftarrow> set_entry i HEAP_BLOCK_TABLE_ENTRY_FREE (s\<lparr>mmu := m\<rparr>);
       heap_init_loop is s
     }
   }"

definition heap_init :: "heap_state \<Rightarrow> heap_state option" where
  "heap_init s = do {
     s \<leftarrow> heap_init_loop [0..<unat (INITIAL_HEAP_SIZE div HEAP_BLOCK_SIZE)]
           (s\<lparr>total_blocks := INITIAL_HEAP_SIZE div HEAP_BLOCK_SIZE\<rparr>);
     Some (s\<lparr>heap_size := INITIAL_HEAP_SIZE\<rparr>)
   }"

text \<open>The search for a run of free blocks; \<open>-1\<close> is no run, as in the code.\<close>

function start_block_loop :: "heap_state \<Rightarrow> int \<Rightarrow> nat \<Rightarrow> int \<Rightarrow> int \<Rightarrow> int option" where
  "start_block_loop s n i current_run_start current_run_length =
     (if i < unat (total_blocks s) then do {
        e \<leftarrow> entry s i;
        if e = HEAP_BLOCK_TABLE_ENTRY_FREE then
          (let st = (if current_run_start = - 1 then int i else current_run_start)
           in if current_run_length + 1 = n then Some st
              else start_block_loop s n (Suc i) st (current_run_length + 1))
        else start_block_loop s n (Suc i) (- 1) 0
      } else Some (- 1))"
  by pat_completeness auto
termination
  by (relation "measure (\<lambda>(s, n, i, st, l). unat (total_blocks s) - i)") auto

declare start_block_loop.simps [simp del]

definition heap_get_start_block :: "heap_state \<Rightarrow> int \<Rightarrow> int option" where
  "heap_get_start_block s n = start_block_loop s n 0 (- 1) 0"

text \<open>The entry of block \<open>i\<close> of an allocation from \<open>startblock\<close> to \<open>endblock\<close>.\<close>

definition block_entry :: "nat \<Rightarrow> nat \<Rightarrow> nat \<Rightarrow> u8" where
  "block_entry startblock endblock i =
     (if i = startblock
      then HEAP_BLOCK_IS_FIRST OR (if startblock < endblock then HEAP_BLOCK_HAS_NEXT else 0)
      else if i = endblock then HEAP_BLOCK_TABLE_ENTRY_TAKEN
      else HEAP_BLOCK_TABLE_ENTRY_TAKEN OR HEAP_BLOCK_HAS_NEXT)"

definition heap_malloc_blocks :: "heap_state \<Rightarrow> int \<Rightarrow> (u32 \<times> heap_state) option" where
  "heap_malloc_blocks s n = do {
     startblock \<leftarrow> heap_get_start_block s n;
     if startblock < 0 then Some (0, s)
     else do {
       let st = nat startblock;
       let en = nat (startblock + n - 1);
       s \<leftarrow> fold_opt (\<lambda>i s. set_entry i (block_entry st en i) s) [st..<Suc en] s;
       Some (HEAP_START_ADDRESS + of_nat st * HEAP_BLOCK_SIZE, s)
     }
   }"

fun heap_expand_loop :: "nat \<Rightarrow> heap_state \<Rightarrow> (bool \<times> heap_state) option" where
  "heap_expand_loop 0 s = Some (True, s)"
| "heap_expand_loop (Suc k) s = do {
     (phys_addr, pm) \<leftarrow> pmm_alloc_pageframe (frames (mmu s));
     let s = s\<lparr>mmu := (mmu s)\<lparr>frames := pm\<rparr>\<rparr>;
     if phys_addr = 0 then Some (False, s)
     else do {
       m \<leftarrow> mem_map_page (HEAP_START_ADDRESS + heap_size s) phys_addr
              (PAGE_FLAG_WRITE OR PAGE_FLAG_PRESENT) (mmu s);
       s \<leftarrow> set_entry (unat (total_blocks s)) HEAP_BLOCK_TABLE_ENTRY_FREE (s\<lparr>mmu := m\<rparr>);
       heap_expand_loop k (s\<lparr>total_blocks := total_blocks s + 1, heap_size := heap_size s + HEAP_BLOCK_SIZE\<rparr>)
     }
   }"

definition heap_expand :: "u32 \<Rightarrow> heap_state \<Rightarrow> (bool \<times> heap_state) option" where
  "heap_expand sz s = heap_expand_loop (unat (sz div HEAP_BLOCK_SIZE)) s"

definition blocks_needed :: "u32 \<Rightarrow> u32" where
  "blocks_needed sz =
     (let aligned_number_to_allocate = (sz + HEAP_BLOCK_SIZE - 1) AND NOT (HEAP_BLOCK_SIZE - 1)
      in (aligned_number_to_allocate + HEAP_BLOCK_SIZE - 1) div HEAP_BLOCK_SIZE)"

definition heap_malloc :: "u32 \<Rightarrow> heap_state \<Rightarrow> (u32 \<times> heap_state) option" where
  "heap_malloc sz s = (let n = blocks_needed sz in do {
     startblock \<leftarrow> heap_get_start_block s (sint n);
     if startblock = - 1 then do {
       (ok, s) \<leftarrow> heap_expand (n * HEAP_BLOCK_SIZE) s;
       if \<not> ok then Some (0, s)
       else do {
         startblock \<leftarrow> heap_get_start_block s (sint n);
         if startblock = - 1 then Some (0, s) else heap_malloc_blocks s (sint n)
       }
     } else heap_malloc_blocks s (sint n)
   })"

definition kmalloc :: "u32 \<Rightarrow> heap_state \<Rightarrow> (u32 \<times> heap_state) option" where
  "kmalloc sz s = heap_malloc sz s"

text \<open>\<open>memset\<close> on heap memory, byte by byte.\<close>

definition heap_memset :: "nat \<Rightarrow> u8 \<Rightarrow> nat \<Rightarrow> heap_state \<Rightarrow> heap_state option" where
  "heap_memset off c len s = fold_opt (\<lambda>i s. set_entry i c s) [off..<off + len] s"

definition kzalloc :: "u32 \<Rightarrow> heap_state \<Rightarrow> (u32 \<times> heap_state) option" where
  "kzalloc sz s = do {
     (ptr, s) \<leftarrow> kmalloc sz s;
     if ptr \<noteq> 0 then do {
       s \<leftarrow> heap_memset (unat (ptr - HEAP_START_ADDRESS)) 0 (unat sz) s;
       Some (ptr, s)
     } else Some (ptr, s)
   }"

function heap_mark_blocks_free :: "nat \<Rightarrow> heap_state \<Rightarrow> heap_state option" where
  "heap_mark_blocks_free i s =
     (if i < unat (total_blocks s)
      then (case entry s i of
              None \<Rightarrow> None
            | Some e \<Rightarrow>
                (let s' = s\<lparr>heap_mem := (heap_mem s)(i := HEAP_BLOCK_TABLE_ENTRY_FREE)\<rparr>
                 in if e AND HEAP_BLOCK_HAS_NEXT = 0 then Some s' else heap_mark_blocks_free (Suc i) s'))
      else Some s)"
  by pat_completeness auto
termination
  by (relation "measure (\<lambda>(i, s). unat (total_blocks s) - i)") auto

declare heap_mark_blocks_free.simps [simp del]

text \<open>A signed division, which rounds towards zero.\<close>

definition heap_address_to_block :: "u32 \<Rightarrow> int" where
  "heap_address_to_block address =
     (let d = sint (address - HEAP_START_ADDRESS) in if d < 0 then - (- d div 4096) else d div 4096)"

fun heap_contract_loop :: "nat \<Rightarrow> heap_state \<Rightarrow> heap_state option" where
  "heap_contract_loop 0 s = Some s"
| "heap_contract_loop (Suc last_block) s = do {
     e \<leftarrow> entry s last_block;
     if e \<noteq> HEAP_BLOCK_TABLE_ENTRY_FREE then Some s
     else do {
       (pte, m) \<leftarrow> mem_unmap_page (HEAP_START_ADDRESS + of_nat last_block * HEAP_BLOCK_SIZE) (mmu s);
       heap_contract_loop last_block
         (s\<lparr>mmu := m, total_blocks := total_blocks s - 1, heap_size := heap_size s - HEAP_BLOCK_SIZE\<rparr>)
     }
   }"

definition heap_contract :: "heap_state \<Rightarrow> heap_state option" where
  "heap_contract s = heap_contract_loop (unat (total_blocks s)) s"

text \<open>A negative block number is compared with the unsigned \<open>total_blocks\<close>: nothing is freed.\<close>

definition heap_free :: "u32 \<Rightarrow> heap_state \<Rightarrow> heap_state option" where
  "heap_free ptr s = (let startblock = heap_address_to_block ptr in do {
     s \<leftarrow> (if startblock < 0 then Some s else heap_mark_blocks_free (nat startblock) s);
     heap_contract s
   })"

definition kfree :: "u32 \<Rightarrow> heap_state \<Rightarrow> heap_state option" where
  "kfree ptr s = heap_free ptr s"


section \<open>Finding a run of free blocks\<close>

definition blocks :: "heap_state \<Rightarrow> nat" where
  "blocks s = unat (total_blocks s)"

definition block_free :: "heap_state \<Rightarrow> nat \<Rightarrow> bool" where
  "block_free s i \<longleftrightarrow> heap_mem s i = HEAP_BLOCK_TABLE_ENTRY_FREE"

definition is_run :: "heap_state \<Rightarrow> nat \<Rightarrow> nat \<Rightarrow> bool" where
  "is_run s n p \<longleftrightarrow> p + n \<le> blocks s \<and> (\<forall>i. p \<le> i \<longrightarrow> i < p + n \<longrightarrow> block_free s i)"

text \<open>The table of all blocks can be read.\<close>

definition table_mapped :: "heap_state \<Rightarrow> bool" where
  "table_mapped s \<longleftrightarrow> (\<forall>i<blocks s. heap_mapped s i)"

lemma start_block_loop_first:
  assumes "table_mapped s" and "0 < n" and "i \<le> blocks s" and "lo \<le> i" and "i - lo < n"
    and "st = (if lo = i then - 1 else int lo)" and "len = int (i - lo)"
    and "\<forall>k. lo \<le> k \<longrightarrow> k < i \<longrightarrow> block_free s k" and "\<forall>p. is_run s n p \<longrightarrow> lo \<le> p"
  shows "start_block_loop s (int n) i st len
    = Some (if \<exists>p. is_run s n p then int (LEAST p. is_run s n p) else - 1)"
  using assms(3-)
proof (induction "blocks s - i" arbitrary: i lo st len)
  case 0
  then have i: "i = blocks s" by simp
  have "\<not> is_run s n p" for p
    using 0 i by (auto simp: is_run_def)
  then show ?case
    using i by (subst start_block_loop.simps) (simp add: blocks_def)
next
  case (Suc k)
  then have i: "i < blocks s" by simp
  then have e: "entry s i = Some (heap_mem s i)"
    using assms(1) by (simp add: table_mapped_def entry_def)
  show ?case
  proof (cases "block_free s i")
    case True
    have free: "\<forall>k. lo \<le> k \<longrightarrow> k < Suc i \<longrightarrow> block_free s k"
      using Suc.prems(6) True by (auto simp: less_Suc_eq)
    have st: "(if st = - 1 then int i else st) = int lo"
      using Suc.prems(2,4) by auto
    show ?thesis
    proof (cases "Suc i - lo = n")
      case True
      have "is_run s n lo"
        using free True i Suc.prems(2) by (auto simp: is_run_def)
      moreover from this have "(LEAST p. is_run s n p) = lo"
        using Suc.prems(7) by (intro Least_equality) auto
      moreover have "len + 1 = int n"
        using True Suc.prems(2,5) by linarith
      ultimately show ?thesis
        using i e \<open>block_free s i\<close> st
        by (subst start_block_loop.simps) (auto simp: blocks_def block_free_def)
    next
      case False
      have "len + 1 = int (Suc i - lo)" using Suc.prems(2,5) by linarith
      moreover have "len + 1 \<noteq> int n" using False calculation by linarith
      moreover have "start_block_loop s (int n) (Suc i) (int lo) (len + 1)
          = Some (if \<exists>p. is_run s n p then int (LEAST p. is_run s n p) else - 1)"
        using Suc.prems i False free calculation(1)
        by (intro Suc.hyps(1) [of "Suc i" lo]) (use Suc.hyps(2) in auto)
      ultimately show ?thesis
        using i e \<open>block_free s i\<close> st
        by (subst start_block_loop.simps) (simp add: blocks_def block_free_def)
    qed
  next
    case False
    have "Suc i \<le> p" if "is_run s n p" for p
    proof (rule ccontr)
      assume "\<not> Suc i \<le> p"
      moreover have "lo \<le> p" using Suc.prems(7) that by blast
      ultimately have "p \<le> i \<and> i < p + n" using Suc.prems(3) by linarith
      with that False show False by (auto simp: is_run_def)
    qed
    then have "start_block_loop s (int n) (Suc i) (- 1) 0
        = Some (if \<exists>p. is_run s n p then int (LEAST p. is_run s n p) else - 1)"
      using i assms(2) by (intro Suc.hyps(1) [of "Suc i" "Suc i"]) (use Suc.hyps(2) in auto)
    then show ?thesis
      using i e False by (subst start_block_loop.simps) (simp add: blocks_def block_free_def)
  qed
qed

lemma heap_get_start_block_first:
  assumes "table_mapped s" and "0 < n"
  shows "heap_get_start_block s (int n)
    = Some (if \<exists>p. is_run s n p then int (LEAST p. is_run s n p) else - 1)"
  unfolding heap_get_start_block_def
  by (rule start_block_loop_first [OF assms, of 0 0]) (use assms in auto)

section \<open>Allocating and freeing a run\<close>

text \<open>Writing entries does not change what is mapped.\<close>

lemma set_entries:
  assumes "\<forall>i. a \<le> i \<longrightarrow> i < b \<longrightarrow> heap_mapped s i" and "a \<le> b"
  shows "fold_opt (\<lambda>i s. set_entry i (f i) s) [a..<b] s
    = Some (s\<lparr>heap_mem := (\<lambda>i. if a \<le> i \<and> i < b then f i else heap_mem s i)\<rparr>)"
proof -
  let ?P = "\<lambda>n t. t = s\<lparr>heap_mem := (\<lambda>i. if a \<le> i \<and> i < n then f i else heap_mem s i)\<rparr>"
  have "\<exists>t. fold_opt (\<lambda>i s. set_entry i (f i) s) [a..<b] s = Some t \<and> ?P b t"
  proof (rule fold_opt_upt [where P = ?P])
    show "?P a s" by (intro heap_state.equality) (auto simp: fun_eq_iff)
  next
    fix i t assume i: "a \<le> i" "i < b" and t: "?P i t"
    have "heap_mapped t i" using assms(1) i t by (simp add: heap_mapped_def)
    then show "\<exists>t'. set_entry i (f i) t = Some t' \<and> ?P (Suc i) t'"
      using i t by (auto simp: set_entry_def fun_eq_iff less_Suc_eq)
  qed (rule assms(2))
  then show ?thesis by blast
qed

text \<open>The state after the run of \<open>n\<close> blocks from \<open>p\<close> on is allocated.\<close>

definition with_run :: "nat \<Rightarrow> nat \<Rightarrow> heap_state \<Rightarrow> heap_state" where
  "with_run p n s = s\<lparr>heap_mem := (\<lambda>i. if p \<le> i \<and> i < p + n then block_entry p (p + n - 1) i else heap_mem s i)\<rparr>"

definition block_address :: "nat \<Rightarrow> u32" where
  "block_address p = HEAP_START_ADDRESS + of_nat p * HEAP_BLOCK_SIZE"

lemma heap_malloc_blocks_run:
  assumes "table_mapped s" and "0 < n" and "is_run s n q"
  defines "p \<equiv> LEAST p. is_run s n p"
  shows "heap_malloc_blocks s (int n) = Some (block_address p, with_run p n s)"
proof -
  have p: "is_run s n p" unfolding p_def using assms(3) by (rule LeastI)
  have st: "heap_get_start_block s (int n) = Some (int p)"
    using heap_get_start_block_first [OF assms(1,2)] assms(3) by (auto simp: p_def)
  have en: "nat (int p + int n - 1) = p + n - 1" "Suc (p + n - 1) = p + n"
    using assms(2) by auto
  have "\<forall>i. p \<le> i \<longrightarrow> i < p + n \<longrightarrow> heap_mapped s i"
    using p assms(1) by (auto simp: is_run_def table_mapped_def)
  then show ?thesis
    using set_entries [of p "p + n" s "block_entry p (p + n - 1)"] st en
    by (simp add: heap_malloc_blocks_def with_run_def block_address_def Let_def del: upt_Suc)
qed

lemma unat_blocks_needed:
  assumes "unat sz \<le> 0xFFFFF000"
  shows "unat (blocks_needed sz) = (unat sz + 4095) div 4096"
proof -
  have m: "(HEAP_BLOCK_SIZE - 1 :: u32) = mask 12"
    by (simp add: HEAP_BLOCK_SIZE_def mask_eq_exp_minus_1)
  define q where "q = (4095 + unat sz) div 4096"
  moreover have "q \<le> 1048575" using assms by (simp add: q_def)
  then have "(4095 + q * 4096) mod 4294967296 div 4096 = q" by simp
  ultimately show ?thesis
    using assms unfolding blocks_needed_def m
    by (simp add: unat_page_floor Let_def HEAP_BLOCK_SIZE_def unat_div unat_word_ariths)
qed


lemma kmalloc_run:
  assumes "table_mapped s" and "0 < unat sz" and "unat sz \<le> 0x7FFFF000"
    and "is_run s ((unat sz + 4095) div 4096) q"
  defines "n \<equiv> (unat sz + 4095) div 4096" and "p \<equiv> LEAST p. is_run s ((unat sz + 4095) div 4096) p"
  shows "kmalloc sz s = Some (block_address p, with_run p n s)"
proof -
  have n: "0 < n" "n < 1048576" using assms(2,3) by (auto simp: n_def)
  have "unat (blocks_needed sz) = n" using unat_blocks_needed [of sz] assms(3) by (simp add: n_def)
  then have sn: "sint (blocks_needed sz) = int n"
    using n sint_small [of "blocks_needed sz"] by simp
  have "heap_get_start_block s (int n) \<noteq> Some (- 1)"
    using heap_get_start_block_first [OF assms(1) n(1)] assms(4) by (auto simp: n_def)
  moreover obtain st where "heap_get_start_block s (int n) = Some st"
    using heap_get_start_block_first [OF assms(1) n(1)] by blast
  moreover have "heap_malloc_blocks s (int n) = Some (block_address p, with_run p n s)"
    using heap_malloc_blocks_run [OF assms(1) n(1)] assms(4) by (simp add: p_def n_def)
  ultimately show ?thesis
    by (simp add: kmalloc_def heap_malloc_def sn Let_def)
qed

lemma block_entry_next: "p \<le> i \<Longrightarrow> i < p + n \<Longrightarrow> block_entry p (p + n - 1) i AND HEAP_BLOCK_HAS_NEXT = 0 \<longleftrightarrow> i = p + n - 1"
  by (auto simp: block_entry_def entry_consts)

lemma heap_mark_blocks_free_run:
  assumes "table_mapped s" and "is_run s n p" and "p \<le> i" and "i < p + n"
  shows "heap_mark_blocks_free i (with_run p n s\<lparr>heap_mem := (\<lambda>k. if i \<le> k \<and> k < p + n
      then block_entry p (p + n - 1) k else heap_mem s k)\<rparr>) = Some s"
  using assms(3,4)
proof (induction "p + n - i" arbitrary: i)
  case (Suc m)
  let ?t = "\<lambda>i. with_run p n s\<lparr>heap_mem := (\<lambda>k. if i \<le> k \<and> k < p + n
      then block_entry p (p + n - 1) k else heap_mem s k)\<rparr>"
  have i: "i < blocks s" using Suc.prems assms(2) by (auto simp: is_run_def)
  then have "heap_mapped (?t i) i"
    using assms(1) by (auto simp: table_mapped_def heap_mapped_def with_run_def)
  then have e: "entry (?t i) i = Some (block_entry p (p + n - 1) i)"
    using Suc.prems by (simp add: entry_def)
  have free: "heap_mem s i = HEAP_BLOCK_TABLE_ENTRY_FREE"
    using assms(2) Suc.prems by (auto simp: is_run_def block_free_def)
  have step: "(?t i)\<lparr>heap_mem := (heap_mem (?t i))(i := HEAP_BLOCK_TABLE_ENTRY_FREE)\<rparr> = ?t (Suc i)"
    using free by (intro heap_state.equality) (auto simp: fun_eq_iff le_Suc_eq with_run_def)
  have tb: "unat (total_blocks (?t i)) = blocks s" by (simp add: with_run_def blocks_def)
  show ?case
  proof (cases "i = p + n - 1")
    case True
    have "?t (Suc i) = s"
      using True by (intro heap_state.equality) (auto simp: fun_eq_iff with_run_def)
    then show ?thesis
      using block_entry_next [of p i n] Suc.prems True i e step tb
      by (subst heap_mark_blocks_free.simps) (simp add: Let_def)
  next
    case False
    then have "heap_mark_blocks_free (Suc i) (?t (Suc i)) = Some s"
      using Suc.hyps(2) Suc.prems by (intro Suc.hyps(1)) auto
    then show ?thesis
      using block_entry_next [of p i n] Suc.prems False i e step tb
      by (subst heap_mark_blocks_free.simps) (simp add: Let_def)
  qed
qed simp

lemma heap_address_to_block_address: "p < 524288 \<Longrightarrow> heap_address_to_block (block_address p) = int p"
proof -
  assume p: "p < 524288"
  have "sint (of_nat p * 4096 :: u32) = int p * 4096"
    using p by (subst sint_small) (simp_all add: unat_word_ariths unat_of_nat)
  then show ?thesis
    by (simp add: heap_address_to_block_def block_address_def HEAP_BLOCK_SIZE_def Let_def)
qed

section \<open>Properties\<close>

text \<open>C18: \<open>kmalloc\<close> is first fit: when the table shows a run of enough free blocks, the call returns
  the address of the lowest such run, whose blocks were all free and lie inside the heap, marks
  exactly these blocks, and neither maps nor unmaps anything.\<close>

theorem kmalloc_first_fit:
  assumes "table_mapped s" and "0 < unat sz" and "unat sz \<le> 0x7FFFF000"
    and "is_run s ((unat sz + 4095) div 4096) q"
  shows "let n = (unat sz + 4095) div 4096; p = LEAST p. is_run s n p in
    kmalloc sz s = Some (block_address p, with_run p n s) \<and> is_run s n p \<and> unat sz \<le> n * 4096
    \<and> (\<forall>i. block_free (with_run p n s) i \<longleftrightarrow> block_free s i \<and> \<not> (p \<le> i \<and> i < p + n))"
proof -
  define n where "n = (unat sz + 4095) div 4096"
  define p where "p = (LEAST p. is_run s n p)"
  have "is_run s n p" unfolding p_def n_def using assms(4) by (rule LeastI)
  moreover have "unat sz \<le> n * 4096" by (simp add: n_def)
  moreover have "block_free (with_run p n s) i \<longleftrightarrow> block_free s i \<and> \<not> (p \<le> i \<and> i < p + n)" for i
    by (auto simp: block_free_def with_run_def block_entry_def entry_consts)
  ultimately show ?thesis
    using kmalloc_run [OF assms] by (simp add: Let_def n_def p_def)
qed

text \<open>\<open>kfree\<close> of what \<open>kmalloc\<close> just returned marks the same blocks free again and then
  contracts the heap as if the allocation had not happened.\<close>

lemma kfree_kmalloc_contracts:
  assumes "table_mapped s" and "0 < unat sz" and "blocks s < 196608"
    and "is_run s ((unat sz + 4095) div 4096) q"
  shows "\<exists>ptr s'. kmalloc sz s = Some (ptr, s') \<and> ptr \<noteq> 0 \<and> kfree ptr s' = heap_contract s"
proof -
  define n where "n = (unat sz + 4095) div 4096"
  define p where "p = (LEAST p. is_run s n p)"
  have run: "is_run s n p" unfolding p_def n_def using assms(4) by (rule LeastI)
  have n: "0 < n" using assms(2) by (simp add: n_def)
  have p: "p < 196608" "p + n \<le> blocks s" using run n assms(3) by (auto simp: is_run_def)
  then have "n < 196608" using assms(3) by simp
  then have "unat sz \<le> 0x7FFFF000" by (simp add: n_def)
  then have m: "kmalloc sz s = Some (block_address p, with_run p n s)"
    using kmalloc_run [OF assms(1,2) _ assms(4)] by (simp add: n_def p_def)
  have "with_run p n s\<lparr>heap_mem := (\<lambda>k. if p \<le> k \<and> k < p + n
      then block_entry p (p + n - 1) k else heap_mem s k)\<rparr> = with_run p n s"
    by (simp add: with_run_def)
  then have "heap_mark_blocks_free p (with_run p n s) = Some s"
    using heap_mark_blocks_free_run [OF assms(1) run, of p] n by simp
  then have "kfree (block_address p) (with_run p n s) = heap_contract s"
    using heap_address_to_block_address [of p] p(1) by (simp add: kfree_def heap_free_def Let_def)
  moreover have "block_address p \<noteq> 0"
  proof -
    have "unat (block_address p) = 0xD0000000 + p * 4096"
      using p(1) by (simp add: block_address_def HEAP_START_ADDRESS_def HEAP_BLOCK_SIZE_def
          unat_word_ariths unat_of_nat)
    then show ?thesis by auto
  qed
  ultimately show ?thesis using m by blast
qed

text \<open>The table is part of block 0, and nothing reserves that block: while it is free, \<open>kzalloc\<close>
  of a page returns the table itself, and clearing it frees the block again, so the next call
  returns the same memory a second time.\<close>

theorem kzalloc_hands_out_the_table:
  assumes "\<forall>i<4096. heap_mapped s i" and "0 < blocks s" and "blocks s \<le> 4096" and "block_free s 0"
  shows "\<exists>s1 s2. kzalloc 4096 s = Some (HEAP_START_ADDRESS, s1) \<and> kzalloc 4096 s1 = Some (HEAP_START_ADDRESS, s2)"
proof -
  have zalloc: "kzalloc 4096 t = Some (HEAP_START_ADDRESS, t\<lparr>heap_mem := (\<lambda>i. if i < 4096 then 0 else heap_mem t i)\<rparr>)"
    if t: "\<forall>i<4096. heap_mapped t i" "0 < blocks t" "blocks t \<le> 4096" "block_free t 0" for t
  proof -
    have run: "is_run t 1 0" using t by (simp add: is_run_def)
    have "table_mapped t" using t by (simp add: table_mapped_def)
    moreover have "(LEAST p. is_run t 1 p) = 0" using run by (intro Least_equality) auto
    ultimately have m: "kmalloc 4096 t = Some (HEAP_START_ADDRESS, with_run 0 1 t)"
      using kmalloc_run [of t 4096 0] run by (simp add: block_address_def)
    have "\<forall>i. 0 \<le> i \<longrightarrow> i < 4096 \<longrightarrow> heap_mapped (with_run 0 1 t) i"
      using t(1) by (simp add: heap_mapped_def with_run_def)
    from set_entries [OF this, of "\<lambda>_. 0"]
    have "heap_memset 0 0 4096 (with_run 0 1 t)
        = Some (t\<lparr>heap_mem := (\<lambda>i. if i < 4096 then 0 else heap_mem t i)\<rparr>)"
      by (simp add: heap_memset_def with_run_def cong: if_cong)
    then show ?thesis
      using m by (simp add: kzalloc_def HEAP_START_ADDRESS_def)
  qed
  let ?s1 = "s\<lparr>heap_mem := (\<lambda>i. if i < 4096 then 0 else heap_mem s i)\<rparr>"
  have "kzalloc 4096 s = Some (HEAP_START_ADDRESS, ?s1)" by (rule zalloc [OF assms])
  moreover have "\<forall>i<4096. heap_mapped ?s1 i" "0 < blocks ?s1" "blocks ?s1 \<le> 4096" "block_free ?s1 0"
    using assms by (simp_all add: heap_mapped_def blocks_def block_free_def entry_consts)
  note zalloc [OF this]
  ultimately show ?thesis by blast
qed

section \<open>A concrete heap\<close>

text \<open>Four free blocks whose table is mapped.\<close>

definition heap_demo :: heap_state where
  "heap_demo = \<lparr>heap_mem = (\<lambda>_. 0), total_blocks = 4, heap_size = 16384,
     mmu = mmu_demo\<lparr>ram := (ram mmu_demo)(2 := (ram mmu_demo 2)(832 := 0x5003), 5 := (\<lambda>_. 0x6003))\<rparr>\<rparr>"

lemma heap_demo_mapped: "i < 4096 \<Longrightarrow> heap_mapped heap_demo i"
  by (simp add: heap_mapped_def translate_def walk_def heap_demo_def mmu_demo_def pframe_def
      unat_pd_index HEAP_START_ADDRESS_def unat_word_ariths unat_of_nat present_def page_flags Let_def)

lemma heap_demo_facts: "blocks heap_demo = 4" "table_mapped heap_demo" "block_free heap_demo i"
  using heap_demo_mapped
  by (auto simp: blocks_def table_mapped_def block_free_def entry_consts) (simp_all add: heap_demo_def)

lemma heap_demo_run: "p + n \<le> 4 \<Longrightarrow> is_run heap_demo n p"
  using heap_demo_facts by (simp add: is_run_def)

theorem kmalloc_first_fit_witness:
  "kmalloc 5000 heap_demo = Some (HEAP_START_ADDRESS, with_run 0 2 heap_demo)"
proof -
  have "(LEAST p. is_run heap_demo 2 p) = 0"
    by (rule Least_equality) (auto intro: heap_demo_run)
  then show ?thesis
    using kmalloc_first_fit [OF heap_demo_facts(2), of 5000 0] heap_demo_run [of 0 2]
    by (simp add: Let_def block_address_def)
qed

theorem kzalloc_hands_out_the_table_witness:
  "\<exists>s1 s2. kzalloc 4096 heap_demo = Some (0xD0000000, s1) \<and> kzalloc 4096 s1 = Some (0xD0000000, s2)"
  using kzalloc_hands_out_the_table [of heap_demo] heap_demo_mapped heap_demo_facts
  by (simp add: HEAP_START_ADDRESS_def)

end
