(* ===== verification/Address_Space.thy ===== *)
theory Address_Space
  imports Paging
begin

text \<open>
  How an address space grows. The kernel maps pages into its own half and into the half of a new process by
  the same loops; what they need of \<open>mem_map_page\<close> and of the frame allocator is the interface
  \<open>address_space\<close>, a step relation with two steps: taking a frame and mapping a page. The lemmas on runs
  of fresh pages are proved once, from the interface. Before it stand the counting lemmas on the page tables
  of one directory.
\<close>

lemma setup_updates [simp]:
  "pdir_frame (s\<lparr>frames := pm\<rparr>) = pdir_frame s" "kdir_frame (s\<lparr>frames := pm\<rparr>) = kdir_frame s"
  "pdir_frame (s\<lparr>mem_num_vpages := n\<rparr>) = pdir_frame s" "kdir_frame (s\<lparr>mem_num_vpages := n\<rparr>) = kdir_frame s"
  "pdir_frame (s\<lparr>pageDirsUsed := u\<rparr>) = pdir_frame s" "kdir_frame (s\<lparr>pageDirsUsed := u\<rparr>) = kdir_frame s"
  by (simp_all add: pdir_frame_def page_dir_def kdir_frame_def fun_eq_iff)

section \<open>The page tables of a directory\<close>

definition dir_tables :: "nat \<Rightarrow> mmu_state \<Rightarrow> nat set" where
  "dir_tables d s = {pframe (ram s d j) | j. j < 1023 \<and> is_table (ram s d j)}"

text \<open>The frames that are in use, and one for every page table of \<open>R\<close> that is still missing.\<close>

definition dir_need :: "nat \<Rightarrow> nat set \<Rightarrow> mmu_state \<Rightarrow> nat" where
  "dir_need d R s = card (used_frames (frames s) \<inter> pmm_window (frames s)) + card {j \<in> R. \<not> present (ram s d j)}"

definition frame_room :: "mmu_state \<Rightarrow> nat" where
  "frame_room s = card (pmm_window (frames s))"

lemma window_finite [simp]: "finite (pmm_window s)"
  by (simp add: pmm_window_def)

lemma window_room:
  assumes "card (used_frames pm \<inter> pmm_window pm) < card (pmm_window pm)"
  shows "\<not> pmm_window pm \<subseteq> used_frames pm"
  using assms by (metis inf.absorb_iff2 less_irrefl)

lemma dir_room_free: "dir_need d R s < frame_room s \<Longrightarrow> \<not> pmm_window (frames s) \<subseteq> used_frames (frames s)"
  by (rule window_room) (simp add: dir_need_def frame_room_def)

lemma dir_table_room:
  assumes "dir_need d R s \<le> frame_room s" and "finite R" and "j \<in> R" and "\<not> present (ram s d j)"
  shows "\<not> pmm_window (frames s) \<subseteq> used_frames (frames s)"
proof (rule window_room)
  have "0 < card {j \<in> R. \<not> present (ram s d j)}"
    using assms by (auto simp: card_gt_0_iff)
  then show "card (used_frames (frames s) \<inter> pmm_window (frames s)) < card (pmm_window (frames s))"
    using assms(1) by (simp add: dir_need_def frame_room_def)
qed

lemma dir_tables_held: "tables_ok s d \<Longrightarrow> f \<in> dir_tables d s \<Longrightarrow> held s f"
  by (auto simp: tables_ok_def dir_tables_def)

text \<open>Mapping a page: a page table that is missing costs the frame that \<open>dir_need\<close> holds for it.\<close>

lemma mapped_dir_need:
  assumes m: "mapped s d virt e f s1" and v: "pd_index virt \<in> R" and fin: "finite R"
  shows "dir_need d R s1 = dir_need d R s"
proof (cases "present (ram s d (pd_index virt))")
  case True
  then have "ram s1 d = ram s d" "frames s1 = frames s"
    using m by (simp_all add: mapped_def)
  then show ?thesis by (simp add: dir_need_def)
next
  case False
  let ?A = "\<lambda>s. {j \<in> R. \<not> present (ram s d j)}" and ?U = "\<lambda>s. used_frames (frames s) \<inter> pmm_window (frames s)"
  have f: "\<not> held s f" "used_frames (frames s1) = insert f (used_frames (frames s))"
      "pmm_window (frames s1) = pmm_window (frames s)" "present (ram s1 d (pd_index virt))"
      "\<And>j. j \<noteq> pd_index virt \<Longrightarrow> ram s1 d j = ram s d j"
    using m False by (auto simp: mapped_def is_table_def dest: same_windowD)
  have "?U s1 = insert f (?U s)" "f \<notin> ?U s" using f by (auto simp: held_def)
  then have "card (?U s1) = Suc (card (?U s))" by simp
  moreover have "?A s = insert (pd_index virt) (?A s1)" "pd_index virt \<notin> ?A s1"
    using f v False by (auto, metis)
  then have "card (?A s) = Suc (card (?A s1))" using fin by simp
  ultimately show ?thesis by (simp add: dir_need_def)
qed

lemma mapped_dir_tables:
  assumes m: "mapped s d virt e f s1" and v: "pd_index virt < 1023"
  shows "dir_tables d s1 \<subseteq> dir_tables d s \<union> (used_frames (frames s1) - used_frames (frames s))"
proof
  fix g assume "g \<in> dir_tables d s1"
  then obtain j where j: "j < 1023" "is_table (ram s1 d j)" "g = pframe (ram s1 d j)"
    by (auto simp: dir_tables_def)
  show "g \<in> dir_tables d s \<union> (used_frames (frames s1) - used_frames (frames s))"
  proof (cases "ram s1 d j = ram s d j")
    case True
    then show ?thesis using j unfolding dir_tables_def by auto
  next
    case False
    then have "j = pd_index virt" "\<not> present (ram s d (pd_index virt))"
      using m by (auto simp: mapped_def split: if_splits)
    then show ?thesis using m j(3) by (auto simp: mapped_def held_def)
  qed
qed

text \<open>The walk after mapping a page, with pages named by their number.\<close>

lemma walk_page: "drop_bit 12 v = drop_bit 12 w \<Longrightarrow> walk mem d v = walk mem d w"
  unfolding page_eq_iff by (elim conjE) (simp only: walk_def)

lemma page_number: "drop_bit 12 v = drop_bit 12 w \<longleftrightarrow> unat v div 4096 = unat (w :: u32) div 4096"
  by (simp add: drop_bit_eq_div word_unat_eq_iff unat_div)

lemma mapped_walks:
  assumes m: "mapped s d virt e f s1" and tabs: "tables_ok s d" and pd: "pd_index virt < 1023" and e: "present e"
    and w: "pd_index w < 1023"
  shows "walk (ram s1) d w = (case [unat virt div 4096 \<mapsto> pframe e] (unat w div 4096) of
      None \<Rightarrow> walk (ram s) d w | f \<Rightarrow> f)"
proof (cases "drop_bit 12 w = drop_bit 12 virt")
  case True
  then have "walk (ram s1) d w = walk (ram s1) d virt" by (rule walk_page)
  then show ?thesis using True mapped_walk [OF m e] by (simp add: page_number)
next
  case False
  then show ?thesis using mapped_walk_other [OF m tabs pd False w] by (simp add: page_number)
qed

section \<open>Runs of fresh pages\<close>

text \<open>The pages from number \<open>base\<close> on, page \<open>base + i\<close> on frame \<open>p i\<close>.\<close>

definition frames_run :: "nat \<Rightarrow> nat \<Rightarrow> (nat \<Rightarrow> nat) \<Rightarrow> nat \<Rightarrow> nat option" where
  "frames_run base n p g = (if base \<le> g \<and> g < base + n then Some (p (g - base)) else None)"

lemma frames_run_0 [simp]: "frames_run base 0 p = (\<lambda>_. None)"
  by (auto simp: frames_run_def)

lemma frames_run_Suc: "(frames_run base n p)(base + n \<mapsto> f) = frames_run base (Suc n) (p(n := f))"
  by (auto simp: frames_run_def fun_eq_iff)

lemma frames_run_Cons: "[base \<mapsto> f] ++ frames_run (Suc base) n p = frames_run base (Suc n) (case_nat f p)"
proof
  fix g
  have "case_nat f p (g - base) = p (g - Suc base)" if "Suc base \<le> g"
  proof -
    have "g - base = Suc (g - Suc base)" using that by simp
    then show ?thesis by simp
  qed
  then show "([base \<mapsto> f] ++ frames_run (Suc base) n p) g = frames_run base (Suc n) (case_nat f p) g"
    by (auto simp: frames_run_def map_add_def)
qed

text \<open>\<open>n\<close> new pages, each on a frame of its own that was free and carries no page table.\<close>

definition fresh_run :: "((nat \<Rightarrow> nat option) \<Rightarrow> nat \<Rightarrow> mmu_state \<Rightarrow> mmu_state \<Rightarrow> bool) \<Rightarrow> (mmu_state \<Rightarrow> nat set)
    \<Rightarrow> nat \<Rightarrow> nat \<Rightarrow> (nat \<Rightarrow> nat) \<Rightarrow> mmu_state \<Rightarrow> mmu_state \<Rightarrow> bool" where
  "fresh_run step tabs base n p s s' \<longleftrightarrow> step (frames_run base n p) n s s' \<and> inj_on p {..<n}
     \<and> p ` {..<n} \<subseteq> pmm_window (frames s) \<inter> used_frames (frames s') - used_frames (frames s) - tabs s'"

text \<open>
  The interface. \<open>step M c s s'\<close> says that \<open>s'\<close> maps the pages of \<open>M\<close> beside those of \<open>s\<close> and took \<open>c\<close>
  frames for them; \<open>need\<close> and \<open>frame_room\<close> say whether the frames suffice, \<open>tabs\<close> are the frames of the
  page tables, and \<open>page\<close> says which addresses belong to the space.
\<close>

locale address_space =
  fixes ok :: "mmu_state \<Rightarrow> bool" and step :: "(nat \<Rightarrow> nat option) \<Rightarrow> nat \<Rightarrow> mmu_state \<Rightarrow> mmu_state \<Rightarrow> bool"
    and need :: "mmu_state \<Rightarrow> nat" and tabs :: "mmu_state \<Rightarrow> nat set" and page :: "u32 \<Rightarrow> bool"
  assumes step_refl: "ok s \<Longrightarrow> step (\<lambda>_. None) 0 s s"
    and step_trans: "step M c s t \<Longrightarrow> step M' c' t u \<Longrightarrow> step (M ++ M') (c + c') s u"
    and step_ok: "step M c s t \<Longrightarrow> ok t"
    and step_need: "step M c s t \<Longrightarrow> need t = need s + c"
    and step_window: "step M c s t \<Longrightarrow> pmm_window (frames t) = pmm_window (frames s)"
    and step_used: "step M c s t \<Longrightarrow> used_frames (frames s) \<subseteq> used_frames (frames t)"
    and step_tabs: "step M c s t \<Longrightarrow> tabs t \<subseteq> tabs s \<union> (used_frames (frames t) - used_frames (frames s))"
    and alloc: "ok s \<Longrightarrow> need s < frame_room s \<Longrightarrow> \<exists>n pm. pmm_alloc_pageframe (frames s) = Some (frame_addr n, pm)
      \<and> step (\<lambda>_. None) 1 s (s\<lparr>frames := pm\<rparr>) \<and> n \<in> pmm_window (frames s) \<and> n < PAGE_FRAMES \<and> 0 < n
      \<and> n \<notin> used_frames (frames s) \<and> used_frames pm = insert n (used_frames (frames s)) \<and> n \<notin> tabs (s\<lparr>frames := pm\<rparr>)"
    and map_page: "ok s \<Longrightarrow> page virt \<Longrightarrow> need s \<le> frame_room s \<Longrightarrow> flags < 4096 \<Longrightarrow> \<not> bit flags 7
      \<Longrightarrow> \<exists>t. mem_map_page virt phys flags s = Some t \<and> step [unat virt div 4096 \<mapsto> pframe phys] 0 s t"
begin

lemma step_room: "step M c s t \<Longrightarrow> frame_room t = frame_room s"
  by (simp add: frame_room_def step_window)

lemma fresh_page:
  assumes ok: "ok s" and v: "page virt" and room: "need s < frame_room s" and fl: "flags < 4096" "\<not> bit flags 7"
  shows "\<exists>n pm s'. pmm_alloc_pageframe (frames s) = Some (frame_addr n, pm) \<and> frame_addr n \<noteq> 0
    \<and> mem_map_page virt (frame_addr n) flags (s\<lparr>frames := pm\<rparr>) = Some s'
    \<and> step [unat virt div 4096 \<mapsto> n] 1 s s'
    \<and> n \<in> pmm_window (frames s) \<and> n \<notin> used_frames (frames s) \<and> n \<in> used_frames (frames s') \<and> n \<notin> tabs s'"
proof -
  obtain n pm where n: "pmm_alloc_pageframe (frames s) = Some (frame_addr n, pm)"
      "step (\<lambda>_. None) 1 s (s\<lparr>frames := pm\<rparr>)" "n \<in> pmm_window (frames s)" "n < PAGE_FRAMES" "0 < n"
      "n \<notin> used_frames (frames s)" "used_frames pm = insert n (used_frames (frames s))" "n \<notin> tabs (s\<lparr>frames := pm\<rparr>)"
    using alloc [OF ok room] by blast
  have "need (s\<lparr>frames := pm\<rparr>) \<le> frame_room (s\<lparr>frames := pm\<rparr>)"
    using step_need [OF n(2)] step_room [OF n(2)] room by simp
  then obtain s' where s': "mem_map_page virt (frame_addr n) flags (s\<lparr>frames := pm\<rparr>) = Some s'"
      "step [unat virt div 4096 \<mapsto> pframe (frame_addr n)] 0 (s\<lparr>frames := pm\<rparr>) s'"
    using map_page [OF step_ok [OF n(2)] v _ fl] by blast
  have "step [unat virt div 4096 \<mapsto> n] 1 s s'"
    using step_trans [OF n(2) s'(2)] by (simp add: pframe_frame_addr [OF n(4)])
  moreover have "frame_addr n \<noteq> 0" using unat_frame_addr [OF n(4)] n(5) by auto
  moreover have "n \<in> used_frames (frames s')" "n \<notin> tabs s'"
    using step_used [OF s'(2)] step_tabs [OF s'(2)] n(7,8) by auto
  ultimately show ?thesis using n s'(1) by blast
qed

lemma fresh_run_0: "ok s \<Longrightarrow> fresh_run step tabs base 0 p s s"
  by (simp add: fresh_run_def step_refl)

lemma fresh_run_step:
  assumes run: "fresh_run step tabs base n p s s1" and st: "step M c s1 s2"
  shows "p ` {..<n} \<subseteq> pmm_window (frames s) \<inter> used_frames (frames s2) - used_frames (frames s) - tabs s2"
  using run step_used [OF st] step_tabs [OF st] by (auto simp: fresh_run_def)

lemma fresh_run_Suc:
  assumes run: "fresh_run step tabs base n p s s1" and st: "step [base + n \<mapsto> f] 1 s1 s2"
    and f: "f \<in> pmm_window (frames s1)" "f \<notin> used_frames (frames s1)" "f \<in> used_frames (frames s2)" "f \<notin> tabs s2"
  shows "fresh_run step tabs base (Suc n) (p(n := f)) s s2"
proof -
  have k: "step (frames_run base n p) n s s1" "inj_on p {..<n}"
    and p: "p ` {..<n} \<subseteq> used_frames (frames s1)" using run by (auto simp: fresh_run_def)
  have "step (frames_run base (Suc n) (p(n := f))) (Suc n) s s2"
    using step_trans [OF k(1) st] by (simp add: frames_run_Suc)
  moreover have "inj_on (p(n := f)) {..<Suc n}"
    using k(2) p f(2) by (auto simp: lessThan_Suc inj_on_def)
  moreover have "(p(n := f)) ` {..<Suc n} = insert f (p ` {..<n})"
    by (auto simp: lessThan_Suc)
  moreover have "f \<in> pmm_window (frames s)" "f \<notin> used_frames (frames s)"
    using f step_used [OF k(1)] step_window [OF k(1)] by auto
  ultimately show ?thesis
    using fresh_run_step [OF run st] f(3,4) by (simp add: fresh_run_def)
qed

lemma fresh_run_extend:
  assumes run: "fresh_run step tabs base n p s s1" and v: "page virt" "unat virt div 4096 = base + n"
    and room: "need s + n < frame_room s" and fl: "flags < 4096" "\<not> bit flags 7"
  shows "\<exists>f pm s2. pmm_alloc_pageframe (frames s1) = Some (frame_addr f, pm) \<and> frame_addr f \<noteq> 0
    \<and> mem_map_page virt (frame_addr f) flags (s1\<lparr>frames := pm\<rparr>) = Some s2
    \<and> fresh_run step tabs base (Suc n) (p(n := f)) s s2"
proof -
  have k: "step (frames_run base n p) n s s1" using run by (simp add: fresh_run_def)
  have "need s1 < frame_room s1" using step_need [OF k] step_room [OF k] room by simp
  then show ?thesis
    using fresh_page [OF step_ok [OF k] v(1) _ fl] fresh_run_Suc [OF run] unfolding v(2) by metis
qed

text \<open>The same with the first page of the run before the others.\<close>

lemma fresh_run_Cons:
  assumes st: "step [base \<mapsto> f] 1 s s1" and f: "f \<in> pmm_window (frames s)" "f \<notin> used_frames (frames s)"
      "f \<in> used_frames (frames s1)" "f \<notin> tabs s1"
    and run: "fresh_run step tabs (Suc base) n p s1 s2"
  shows "fresh_run step tabs base (Suc n) (case_nat f p) s s2"
proof -
  have k: "step (frames_run (Suc base) n p) n s1 s2" "inj_on p {..<n}"
    and p: "p ` {..<n} \<inter> used_frames (frames s1) = {}" using run by (auto simp: fresh_run_def)
  have "step (frames_run base (Suc n) (case_nat f p)) (Suc n) s s2"
    using step_trans [OF st k(1)] by (simp add: frames_run_Cons)
  moreover have im: "case_nat f p ` {..<Suc n} = insert f (p ` {..<n})"
    by (simp add: lessThan_Suc_eq_insert_0 image_image)
  have "f \<notin> p ` {..<n}" using p f(3) by blast
  then have "inj_on (case_nat f p) {..<Suc n}"
    using k(2) by (auto simp: inj_on_def split: nat.splits)
  moreover have "f \<in> used_frames (frames s2)" "f \<notin> tabs s2"
    using step_used [OF k(1)] step_tabs [OF k(1)] f(3,4) by auto
  moreover have "p ` {..<n} \<subseteq> pmm_window (frames s) \<inter> used_frames (frames s2) - used_frames (frames s) - tabs s2"
    using run step_used [OF st] step_window [OF st] by (auto simp: fresh_run_def)
  ultimately show ?thesis using f(1,2) by (simp add: fresh_run_def im)
qed

text \<open>The loop that maps fresh pages one after the other.\<close>

lemma fresh_pages:
  assumes ok: "ok s" and room: "need s + n \<le> frame_room s"
    and v: "\<And>i. i < n \<Longrightarrow> page (addr i) \<and> unat (addr i) div 4096 = base + i"
    and fl: "flags < 4096" "\<not> bit flags 7"
  shows "\<exists>s' p. fold_opt (\<lambda>i s. do { (phys, pm) \<leftarrow> pmm_alloc_pageframe (frames s);
      mem_map_page (addr i) phys flags (s\<lparr>frames := pm\<rparr>) }) [0..<n] s = Some s' \<and> fresh_run step tabs base n p s s'"
proof -
  have "\<exists>s'. fold_opt (\<lambda>i s. do { (phys, pm) \<leftarrow> pmm_alloc_pageframe (frames s);
      mem_map_page (addr i) phys flags (s\<lparr>frames := pm\<rparr>) }) [0..<n] s = Some s' \<and> (\<exists>p. fresh_run step tabs base n p s s')"
  proof (rule fold_opt_upt [where P = "\<lambda>i t. \<exists>p. fresh_run step tabs base i p s t"])
    show "\<exists>p. fresh_run step tabs base 0 p s s" using fresh_run_0 [OF ok] by blast
  next
    fix i t assume i: "i < n" and "\<exists>p. fresh_run step tabs base i p s t"
    then obtain p where p: "fresh_run step tabs base i p s t" by blast
    from i room have "need s + i < frame_room s" by simp
    from fresh_run_extend [OF p conjunct1 [OF v [OF i]] conjunct2 [OF v [OF i]] this fl]
    show "\<exists>s'. do { (phys, pm) \<leftarrow> pmm_alloc_pageframe (frames t);
        mem_map_page (addr i) phys flags (t\<lparr>frames := pm\<rparr>) } = Some s' \<and> (\<exists>p. fresh_run step tabs base (Suc i) p s s')"
      by auto
  qed simp
  then show ?thesis by blast
qed

text \<open>The loop that maps pages on given frames.\<close>

lemma given_pages:
  assumes ok: "ok s" and room: "need s \<le> frame_room s"
    and v: "\<And>i. i < n \<Longrightarrow> page (addr i) \<and> unat (addr i) div 4096 = base + i"
    and ph: "\<And>i. i < n \<Longrightarrow> pframe (phys i) = p i"
    and fl: "flags < 4096" "\<not> bit flags 7"
  shows "\<exists>s'. fold_opt (\<lambda>i. mem_map_page (addr i) (phys i) flags) [0..<n] s = Some s'
    \<and> step (frames_run base n p) 0 s s'"
proof (rule fold_opt_upt [where P = "\<lambda>i t. step (frames_run base i p) 0 s t"])
  show "step (frames_run base 0 p) 0 s s" using step_refl [OF ok] by simp
next
  fix i t assume i: "i < n" and t: "step (frames_run base i p) 0 s t"
  have "need t \<le> frame_room t" using step_need [OF t] step_room [OF t] room by simp
  then obtain s' where s': "mem_map_page (addr i) (phys i) flags t = Some s'"
      "step [unat (addr i) div 4096 \<mapsto> pframe (phys i)] 0 t s'"
    using map_page [OF step_ok [OF t] conjunct1 [OF v [OF i]] _ fl] by blast
  have "step (frames_run base (Suc i) p) 0 s s'"
    using step_trans [OF t s'(2)] v [OF i] ph [OF i] frames_run_Suc [of base i p "p i"] by simp
  then show "\<exists>s'. mem_map_page (addr i) (phys i) flags t = Some s' \<and> step (frames_run base (Suc i) p) 0 s s'"
    using s'(1) by blast
qed simp

end

end
