(* ===== verification/Kernel_Memory.thy ===== *)
theory Kernel_Memory
  imports Address_Space
begin

text \<open>
  How the kernel's half of the address space grows. A step relation says what a call may do to the kernel
  directory and to the frame allocator: which pages it maps to which frames, how many frames it takes, and
  that everything else stays. Steps compose, so that the loops of \<open>init_memory\<close>, \<open>heap_init\<close>,
  \<open>heap_expand\<close> and \<open>create_ramdisk\<close> are inductions over one page. \<open>kmem_need\<close> counts the frames in use
  and the page tables still missing.
\<close>

section \<open>What an operation adds to the kernel's address space\<close>

text \<open>The frames of the page tables of the kernel directory.\<close>

definition table_frames :: "mmu_state \<Rightarrow> nat set" where
  "table_frames s = dir_tables (kdir_frame s) s"

text \<open>The kernel can map pages whose directory entries are in \<open>R\<close>.\<close>

definition kmem_ok :: "nat set \<Rightarrow> mmu_state \<Rightarrow> bool" where
  "kmem_ok R s \<longleftrightarrow> tables_ok s (kdir_frame s) \<and> window_ok (frames s) \<and> kernel_ok s
     \<and> mem_get_current_page_directory s \<noteq> 0
     \<and> (\<forall>j\<in>R. 768 \<le> j \<and> j < 1023 \<and> (present (ram s (kdir_frame s) j) \<longrightarrow> is_table (ram s (kdir_frame s) j)))"

definition kmem_need :: "nat set \<Rightarrow> mmu_state \<Rightarrow> nat" where
  "kmem_need R s = dir_need (kdir_frame s) R s"

text \<open>From \<open>s\<close> to \<open>s'\<close>: the kernel directory also maps the pages of \<open>M\<close>, at most \<open>c\<close> frames beside
  page tables were taken, and the tables that are new lie in frames that were free.\<close>

definition kdir_step :: "nat set \<Rightarrow> (nat \<Rightarrow> nat option) \<Rightarrow> nat \<Rightarrow> mmu_state \<Rightarrow> mmu_state \<Rightarrow> bool" where
  "kdir_step R M c s s' \<longleftrightarrow> kmem_ok R s' \<and> same_setup s s' \<and> same_window (frames s) (frames s')
     \<and> used_frames (frames s) \<subseteq> used_frames (frames s') \<and> kmem_need R s' = kmem_need R s + c
     \<and> table_frames s' \<subseteq> table_frames s \<union> (used_frames (frames s') - used_frames (frames s))
     \<and> (\<forall>v. pd_index v < 1023 \<longrightarrow> walk (ram s') (kdir_frame s) v =
          (case M (unat v div 4096) of None \<Rightarrow> walk (ram s) (kdir_frame s) v | f \<Rightarrow> f))"

text \<open>
  The frames that such a step may change: those of the directories and of the kernel's page tables. The kernel half
  of a directory in use is a copy of the kernel directory, without the owner flag, and stays one.
\<close>

definition kernel_frames :: "mmu_state \<Rightarrow> nat set" where
  "kernel_frames s = insert (kdir_frame s) (pdir_frame s ` {..<NUM_PAGE_DIRS} \<union> table_frames s)"

definition mirrors :: "mmu_state \<Rightarrow> nat \<Rightarrow> bool" where
  "mirrors s i \<longleftrightarrow> (\<forall>j. 768 \<le> j \<longrightarrow> j < 1023
     \<longrightarrow> ram s (pdir_frame s i) j = ram s (kdir_frame s) j AND NOT PAGE_FLAG_OWNER)"

definition spares :: "mmu_state \<Rightarrow> mmu_state \<Rightarrow> bool" where
  "spares s s' \<longleftrightarrow> (\<forall>g. held s g \<longrightarrow> g \<notin> kernel_frames s \<longrightarrow> ram s' g = ram s g \<and> g \<notin> kernel_frames s')
     \<and> (\<forall>i j. i < NUM_PAGE_DIRS \<longrightarrow> \<not> (768 \<le> j \<and> j < 1023) \<longrightarrow> ram s' (pdir_frame s i) j = ram s (pdir_frame s i) j)
     \<and> (\<forall>i. dir_used s i \<longrightarrow> mirrors s i \<longrightarrow> mirrors s' i)"

definition kmem_step :: "nat set \<Rightarrow> (nat \<Rightarrow> nat option) \<Rightarrow> nat \<Rightarrow> mmu_state \<Rightarrow> mmu_state \<Rightarrow> bool" where
  "kmem_step R M c s s' \<longleftrightarrow> kdir_step R M c s s' \<and> spares s s' \<and> (\<forall>g. M g \<noteq> None \<longrightarrow> 0xC0000 \<le> g)"

lemma same_setup_frames: "same_setup s s' \<Longrightarrow> kdir_frame s' = kdir_frame s \<and> pdir_frame s' = pdir_frame s"
  by (simp add: same_setup_def kdir_frame_def pdir_frame_def page_dir_def fun_eq_iff)

lemma same_setup_used: "same_setup s s' \<Longrightarrow> dir_used s' = dir_used s"
  by (simp add: same_setup_def dir_used_def fun_eq_iff)

lemma spares_refl: "spares s s"
  by (simp add: spares_def)

lemma spares_trans:
  assumes "spares s s1" and "spares s1 s2" and su: "same_setup s s1" and held: "\<And>g. held s g \<Longrightarrow> held s1 g"
  shows "spares s s2"
  using assms(1,2) held unfolding spares_def same_setup_used [OF su] conjunct2 [OF same_setup_frames [OF su]] by simp

lemma kmem_step_refl: "kmem_ok R s \<Longrightarrow> kmem_step R (\<lambda>_. None) 0 s s"
  by (auto simp: kmem_step_def kdir_step_def same_setup_def spares_refl)

lemma kmem_stepD:
  assumes "kmem_step R M c s s'"
  shows "kmem_ok R s'" "same_setup s s'" "same_window (frames s) (frames s')"
    and "used_frames (frames s) \<subseteq> used_frames (frames s')" "kmem_need R s' = kmem_need R s + c"
    and "table_frames s' \<subseteq> table_frames s \<union> (used_frames (frames s') - used_frames (frames s))"
    and "pd_index v < 1023 \<Longrightarrow> walk (ram s') (kdir_frame s) v =
          (case M (unat v div 4096) of None \<Rightarrow> walk (ram s) (kdir_frame s) v | f \<Rightarrow> f)"
    and "kdir_frame s' = kdir_frame s" "pdir_frame s' = pdir_frame s" "frame_room s' = frame_room s"
    and "pmm_window (frames s') = pmm_window (frames s)" "held s g \<Longrightarrow> held s' g" "spares s s'" "M g = Some x \<Longrightarrow> 0xC0000 \<le> g"
  using assms same_setup_frames [of s s'] same_windowD [of "frames s" "frames s'"] held_mono [of s s' g]
  unfolding kmem_step_def kdir_step_def frame_room_def by auto

lemma kmem_step_trans:
  assumes "kmem_step R M c s s1" and "kmem_step R M' c' s1 s2"
  shows "kmem_step R (M ++ M') (c + c') s s2"
  unfolding kmem_step_def kdir_step_def
proof (intro conjI allI impI)
  note a = kmem_stepD [OF assms(1)] and b = kmem_stepD [OF assms(2)]
  show "kmem_ok R s2" by (rule b)
  show "same_setup s s2" using a(2) b(2) by (simp add: same_setup_def)
  show "same_window (frames s) (frames s2)" by (rule same_window_trans [OF a(3) b(3)])
  show "used_frames (frames s) \<subseteq> used_frames (frames s2)" using a(4) b(4) by blast
  show "kmem_need R s2 = kmem_need R s + (c + c')" using a(5) b(5) by simp
  show "table_frames s2 \<subseteq> table_frames s \<union> (used_frames (frames s2) - used_frames (frames s))"
    using a(4,6) b(4,6) by blast
  show "walk (ram s2) (kdir_frame s) v =
      (case (M ++ M') (unat v div 4096) of None \<Rightarrow> walk (ram s) (kdir_frame s) v | f \<Rightarrow> f)"
    if "pd_index v < 1023" for v
    using a(7) [OF that] b(7) [OF that] a(8) by (simp add: map_add_def split: option.splits)
  show "spares s s2" by (rule spares_trans [OF a(13) b(13) a(2)]) (rule a(12))
  show "0xC0000 \<le> g" if "(M ++ M') g \<noteq> None" for g
    using that a(14) [of g] b(14) [of g] by (auto simp: map_add_def split: option.splits)
qed

section \<open>The two steps\<close>

text \<open>Taking a frame: it is one of the window that was free, and no page table.\<close>

lemma kmem_room_free: "kmem_need R s < frame_room s \<Longrightarrow> \<not> pmm_window (frames s) \<subseteq> used_frames (frames s)"
  unfolding kmem_need_def by (rule dir_room_free)

lemma kmem_finite: "kmem_ok R s \<Longrightarrow> finite R"
  by (rule finite_subset [of _ "{..<1023}"]) (auto simp: kmem_ok_def)

lemma table_frames_held:
  assumes "kmem_ok R s" and "f \<in> table_frames s"
  shows "held s f"
  using assms dir_tables_held unfolding kmem_ok_def table_frames_def by blast

lemma kmem_alloc:
  assumes ok: "kmem_ok R s" and room: "kmem_need R s < frame_room s"
  shows "\<exists>n pm. pmm_alloc_pageframe (frames s) = Some (frame_addr n, pm)
    \<and> kmem_step R (\<lambda>_. None) 1 s (s\<lparr>frames := pm\<rparr>) \<and> n \<in> pmm_window (frames s) \<and> n < PAGE_FRAMES \<and> 0 < n
    \<and> n \<notin> used_frames (frames s) \<and> used_frames pm = insert n (used_frames (frames s))
    \<and> n \<notin> table_frames (s\<lparr>frames := pm\<rparr>)"
proof -
  have w: "window_ok (frames s)" using ok by (simp add: kmem_ok_def)
  then obtain n pm where n: "pmm_alloc_pageframe (frames s) = Some (frame_addr n, pm)"
      "n \<in> pmm_window (frames s)" "n \<notin> used_frames (frames s)" "n < PAGE_FRAMES" "0 < n"
      "used_frames pm = insert n (used_frames (frames s))" "same_window (frames s) pm"
    by (cases rule: pmm_alloc_cases) (use kmem_room_free [OF room] in auto)
  let ?s = "s\<lparr>frames := pm\<rparr>"
  have k: "kdir_frame ?s = kdir_frame s" "pdir_frame ?s = pdir_frame s"
    by (simp_all add: kdir_frame_def pdir_frame_def page_dir_def fun_eq_iff)
  have h: "held ?s f" if "held s f" for f
    by (rule held_mono [OF _ _ that]) (use n in auto)
  have "kmem_ok R ?s"
    using ok h same_windowD [OF n(7)] unfolding kmem_ok_def tables_ok_def kernel_ok_def dirs_ok_def k
    by (simp add: mem_get_current_page_directory_def)
  moreover have "used_frames pm \<inter> pmm_window (frames s) = insert n (used_frames (frames s) \<inter> pmm_window (frames s))"
    using n by blast
  then have "kmem_need R ?s = kmem_need R s + 1"
    using n same_windowD [OF n(7)] by (simp add: kmem_need_def dir_need_def k)
  moreover have "same_setup s ?s" by (simp add: same_setup_def)
  moreover have tf: "table_frames ?s = table_frames s" by (simp add: table_frames_def dir_tables_def k)
  moreover have "kernel_frames ?s = kernel_frames s" "dir_used ?s = dir_used s" "mirrors ?s = mirrors s"
    unfolding kernel_frames_def mirrors_def tf k by (simp_all add: dir_used_def fun_eq_iff)
  then have "spares s ?s" by (simp add: spares_def k)
  ultimately have "kmem_step R (\<lambda>_. None) 1 s ?s" using n by (auto simp: kmem_step_def kdir_step_def)
  moreover have "n \<notin> table_frames ?s"
    using table_frames_held [OF ok, of n] n unfolding tf by (auto simp: held_def)
  ultimately show ?thesis using n by blast
qed

text \<open>All of this depends on the contents of the kernel directory and on the frame allocator only.\<close>

lemma kmem_cong:
  assumes "same_setup s s'" and "ram s' (kdir_frame s) = ram s (kdir_frame s)" and "frames s' = frames s"
  shows "kmem_ok R s' = kmem_ok R s" "kmem_need R s' = kmem_need R s" "table_frames s' = table_frames s"
proof -
  note k = same_setup_frames [OF assms(1), THEN conjunct1] same_setup_frames [OF assms(1), THEN conjunct2]
  have h: "held s' = held s" by (simp add: held_def assms(3) fun_eq_iff)
  have "mem_get_current_page_directory s' = mem_get_current_page_directory s"
    using assms(1) by (simp add: mem_get_current_page_directory_def same_setup_def)
  then show "kmem_ok R s' = kmem_ok R s"
    by (simp add: kmem_ok_def tables_ok_def recursive_def kernel_ok_def dirs_ok_def k h assms(2,3))
  show "kmem_need R s' = kmem_need R s" "table_frames s' = table_frames s"
    by (simp_all add: kmem_need_def dir_need_def table_frames_def dir_tables_def k assms(2,3))
qed

lemma kdir_step_mapped:
  assumes ok: "kmem_ok R s" and v: "pd_index virt \<in> R"
    and m: "mapped s (kdir_frame s) virt e f s1" and e: "present e"
    and su: "same_setup (s\<lparr>cr3 := kernel_directory s - KERNEL_START\<rparr>) s1" and k1: "kernel_ok s1"
  shows "kdir_step R [unat virt div 4096 \<mapsto> pframe e] 0 s (s1\<lparr>cr3 := cr3 s\<rparr>)"
proof -
  let ?t = "s1\<lparr>cr3 := cr3 s\<rparr>"
  have pd: "pd_index virt < 1023" and tabs: "tables_ok s (kdir_frame s)" using ok v by (auto simp: kmem_ok_def)
  have su': "same_setup s ?t" using su by (simp add: same_setup_def)
  have k: "kdir_frame s1 = kdir_frame s" "pdir_frame s1 = pdir_frame s"
    using su by (simp_all add: same_setup_def kdir_frame_def pdir_frame_def page_dir_def fun_eq_iff)
  have kt: "kdir_frame ?t = kdir_frame s1" "pdir_frame ?t = pdir_frame s1" "held ?t = held s1"
    by (simp_all add: kdir_frame_def pdir_frame_def page_dir_def held_def fun_eq_iff)
  note fr = mapped_frames [OF m]
  have "tables_ok ?t (kdir_frame s)"
    using mapped_tables_ok [OF m tabs pd] by (simp add: tables_ok_def kt)
  moreover have "kernel_ok ?t" using k1 by (simp add: kernel_ok_def dirs_ok_def kt)
  moreover have "mem_get_current_page_directory ?t \<noteq> 0"
    using ok by (simp add: kmem_ok_def mem_get_current_page_directory_def)
  moreover have "present (ram s1 (kdir_frame s) j) \<longrightarrow> is_table (ram s1 (kdir_frame s) j)" if "j \<in> R" for j
    using ok that m by (cases "j = pd_index virt") (auto simp: kmem_ok_def mapped_def)
  ultimately have ok': "kmem_ok R ?t"
    using ok same_windowD [OF fr(2)] unfolding kmem_ok_def kt k by auto
  have need: "kmem_need R ?t = kmem_need R s"
    using mapped_dir_need [OF m v kmem_finite [OF ok]] by (simp add: kmem_need_def dir_need_def kt k)
  have tf: "table_frames ?t \<subseteq> table_frames s \<union> (used_frames (frames ?t) - used_frames (frames s))"
    using mapped_dir_tables [OF m pd] by (simp add: table_frames_def dir_tables_def kt k)
  have "walk (ram ?t) (kdir_frame s) w = (case [unat virt div 4096 \<mapsto> pframe e] (unat w div 4096) of
      None \<Rightarrow> walk (ram s) (kdir_frame s) w | f \<Rightarrow> f)" if "pd_index w < 1023" for w
    using mapped_walks [OF m tabs pd e that] by simp
  then show ?thesis using ok' su' fr need tf by (simp add: kdir_step_def)
qed

text \<open>Mapping a page of the kernel writes to the directories and to one page table of the kernel only.\<close>

lemma map_spares:
  assumes m: "mapped s (kdir_frame s) virt e f s1" and pd: "pd_index virt < 1023"
    and pde: "present (ram s (kdir_frame s) (pd_index virt)) \<longrightarrow> is_table (ram s (kdir_frame s) (pd_index virt))"
    and su: "same_setup (s\<lparr>cr3 := kernel_directory s - KERNEL_START\<rparr>) s1" and k0: "kernel_ok s" and k1: "kernel_ok s1"
  shows "spares s ((sync_page_dirs s1)\<lparr>cr3 := cr3 s\<rparr>)"
proof -
  let ?t = "(sync_page_dirs s1)\<lparr>cr3 := cr3 s\<rparr>" and ?k = "kdir_frame s"
  have d1: "dirs_ok s1" using k1 by (simp add: kernel_ok_def)
  have k: "kdir_frame s1 = ?k" "pdir_frame s1 = pdir_frame s" "dir_used s1 = dir_used s"
    using su by (simp_all add: same_setup_def kdir_frame_def pdir_frame_def page_dir_def dir_used_def fun_eq_iff)
  have kt: "kdir_frame ?t = ?k" "pdir_frame ?t = pdir_frame s" "ram ?t = ram (sync_page_dirs s1)"
    using k unfolding sync_page_dirs_ram [OF d1] by (simp_all add: kdir_frame_def pdir_frame_def page_dir_def fun_eq_iff)
  note sy = sync_page_dirs_other(1,2) [OF k1, unfolded k]
  have tf: "table_frames ?t = dir_tables ?k s1" by (simp add: table_frames_def dir_tables_def kt sy(2))
  have f: "f \<in> table_frames s \<or> \<not> held s f"
    using m pde pd by (cases "present (ram s ?k (pd_index virt))") (auto simp: mapped_def table_frames_def dir_tables_def)
  have nk: "pdir_frame s i \<noteq> ?k" "pdir_frame s i \<noteq> f" if i: "i < NUM_PAGE_DIRS" for i
  proof -
    show "pdir_frame s i \<noteq> ?k" using k0 i unfolding kernel_ok_def dirs_ok_def by (metis imageI lessThan_iff)
    have "held s (pdir_frame s i)" and tab: "\<And>j. j < 1023 \<Longrightarrow> is_table (ram s ?k j) \<Longrightarrow> pframe (ram s ?k j) \<noteq> pdir_frame s i"
      using k0 i by (simp_all add: kernel_ok_def)
    moreover have "pdir_frame s i \<notin> table_frames s"
    proof
      assume "pdir_frame s i \<in> table_frames s"
      then obtain j where "pdir_frame s i = pframe (ram s ?k j)" "j < 1023" "is_table (ram s ?k j)"
        unfolding table_frames_def dir_tables_def by (elim CollectE exE conjE) (rule that)
      then show False using tab [of j] by simp
    qed
    ultimately show "pdir_frame s i \<noteq> f" using f by metis
  qed
  have "ram ?t g = ram s g \<and> g \<notin> kernel_frames ?t" if g: "held s g" "g \<notin> kernel_frames s" for g
  proof -
    have out: "g \<noteq> ?k" "g \<notin> pdir_frame s ` {..<NUM_PAGE_DIRS}" "g \<notin> table_frames s" using g(2) by (auto simp: kernel_frames_def)
    then have "g \<noteq> f" using f g(1) by blast
    then have "ram s1 g = ram s g" using m out(1) by (simp add: mapped_def)
    moreover have "g \<notin> dir_tables ?k s1"
    proof
      assume "g \<in> dir_tables ?k s1"
      then obtain j where j: "j < 1023" "is_table (ram s1 ?k j)" "g = pframe (ram s1 ?k j)" by (auto simp: dir_tables_def)
      then have "j \<noteq> pd_index virt" using m \<open>g \<noteq> f\<close> by (auto simp: mapped_def)
      then have "ram s1 ?k j = ram s ?k j" using m by (simp add: mapped_def)
      then show False using j out(3) by (auto simp: table_frames_def dir_tables_def)
    qed
    ultimately show ?thesis using sy(1) [OF out(2)] out(1,2) tf by (simp add: kernel_frames_def kt)
  qed
  moreover have "ram ?t (pdir_frame s i) j = ram s (pdir_frame s i) j" if "i < NUM_PAGE_DIRS" "\<not> (768 \<le> j \<and> j < 1023)" for i j
    using that nk [of i] m unfolding kt sync_page_dirs_ram [OF d1] by (auto simp: mapped_def)
  moreover have "mirrors ?t i" if "dir_used s i" for i
    unfolding mirrors_def kt sy(2) using that k by (auto simp: sync_page_dirs_ram [OF d1])
  ultimately show ?thesis by (simp add: spares_def)
qed

lemma kmem_map:
  assumes ok: "kmem_ok R s" and v: "pd_index virt \<in> R" and room: "kmem_need R s \<le> frame_room s"
    and fl: "flags < 4096" "\<not> bit flags 7"
  shows "\<exists>s'. mem_map_page virt phys flags s = Some s' \<and> kmem_step R [unat virt div 4096 \<mapsto> pframe phys] 0 s s'"
proof -
  have "KERNEL_START \<le> virt" and pd: "pd_index virt < 1023"
    using ok v by (auto simp: kmem_ok_def unat_pd_index KERNEL_START_def word_le_nat_alt)
  moreover have "map_request_ok s (kdir_frame s) virt flags"
    using ok v fl pd dir_table_room [OF room [unfolded kmem_need_def] kmem_finite [OF ok] v] by (auto simp: kmem_ok_def map_request_ok_def)
  moreover have "kernel_ok s" "mem_get_current_page_directory s \<noteq> 0" using ok by (simp_all add: kmem_ok_def)
  ultimately obtain s1 f where s1: "mem_map_page virt phys flags s = Some ((sync_page_dirs s1)\<lparr>cr3 := cr3 s\<rparr>)"
      "mapped s (kdir_frame s) virt (phys OR PAGE_FLAG_PRESENT OR flags) f s1"
      "same_setup (s\<lparr>cr3 := kernel_directory s - KERNEL_START\<rparr>) s1" "kernel_ok s1"
    using map_kernel_mapped [of virt s flags phys] by blast
  have "kdir_step R [unat virt div 4096 \<mapsto> pframe phys] 0 s (s1\<lparr>cr3 := cr3 s\<rparr>)"
    using kdir_step_mapped [OF ok v s1(2) present_entry s1(3,4)] pframe_entry(1) [OF fl(1)] by simp
  moreover have "kdir_step R M c s t \<Longrightarrow> same_setup t t' \<Longrightarrow> frames t' = frames t
      \<Longrightarrow> ram t' (kdir_frame t) = ram t (kdir_frame t)
      \<Longrightarrow> (\<And>w. pd_index w < 1023 \<Longrightarrow> walk (ram t') (kdir_frame t) w = walk (ram t) (kdir_frame t) w)
      \<Longrightarrow> kdir_step R M c s t'" for M c t t'
    using kmem_cong(1,2) [of t t' R] kmem_cong(3) [of t t'] same_setup_frames [of s t] by (simp add: kdir_step_def same_setup_def)
  moreover have "same_setup (s1\<lparr>cr3 := cr3 s\<rparr>) ((sync_page_dirs s1)\<lparr>cr3 := cr3 s\<rparr>)"
      "frames (sync_page_dirs s1) = frames s1" "kdir_frame (s1\<lparr>cr3 := cr3 s\<rparr>) = kdir_frame s1"
    using s1(4) by (simp_all add: kernel_ok_def sync_page_dirs_ram same_setup_def kdir_frame_def)
  ultimately have "kdir_step R [unat virt div 4096 \<mapsto> pframe phys] 0 s ((sync_page_dirs s1)\<lparr>cr3 := cr3 s\<rparr>)"
    using sync_page_dirs_other(2,4) [OF s1(4)] by simp
  moreover have "spares s ((sync_page_dirs s1)\<lparr>cr3 := cr3 s\<rparr>)"
    by (rule map_spares [OF s1(2) pd _ s1(3) _ s1(4)]) (use ok v in \<open>auto simp: kmem_ok_def\<close>)
  moreover have "0xC0000 \<le> unat virt div 4096"
    using \<open>KERNEL_START \<le> virt\<close> div_le_mono [of "0xC0000000" "unat virt" 4096] by (simp add: KERNEL_START_def word_le_nat_alt)
  ultimately show ?thesis using s1(1) by (auto simp: kmem_step_def)
qed

lemma pde_of_page: "4096 * (1024 * k + i) div 4194304 = k + i div (1024 :: nat)"
proof -
  have "4096 * (1024 * k + i) div (4096 * 1024) = (1024 * k + i) div 1024" by (rule div_mult_mult1) simp
  then show ?thesis by simp
qed

text \<open>The kernel's half is an address space, so the lemmas on runs of fresh pages hold for it.\<close>

interpretation kspace: address_space "kmem_ok R" "kmem_step R" "kmem_need R" table_frames "\<lambda>v. pd_index v \<in> R" for R
proof unfold_locales
  show "\<exists>n pm. pmm_alloc_pageframe (frames s) = Some (frame_addr n, pm)
      \<and> kmem_step R (\<lambda>_. None) 1 s (s\<lparr>frames := pm\<rparr>) \<and> n \<in> pmm_window (frames s) \<and> n < PAGE_FRAMES \<and> 0 < n
      \<and> n \<notin> used_frames (frames s) \<and> used_frames pm = insert n (used_frames (frames s))
      \<and> n \<notin> table_frames (s\<lparr>frames := pm\<rparr>)" if "kmem_ok R s" "kmem_need R s < frame_room s" for s
    using that by (rule kmem_alloc)
  show "\<exists>t. mem_map_page virt phys flags s = Some t \<and> kmem_step R [unat virt div 4096 \<mapsto> pframe phys] 0 s t"
    if "kmem_ok R s" "pd_index virt \<in> R" "kmem_need R s \<le> frame_room s" "flags < 4096" "\<not> bit flags 7" for s virt phys flags
    using that by (rule kmem_map)
qed (fact kmem_step_refl kmem_step_trans kmem_stepD)+

abbreviation kernel_run :: "nat set \<Rightarrow> nat \<Rightarrow> nat \<Rightarrow> (nat \<Rightarrow> nat) \<Rightarrow> mmu_state \<Rightarrow> mmu_state \<Rightarrow> bool" where
  "kernel_run R \<equiv> fresh_run (kmem_step R) table_frames"

section \<open>Directories that see the kernel's half\<close>

abbreviation cur_dir :: "mmu_state \<Rightarrow> nat" where
  "cur_dir s \<equiv> pframe (cr3 s)"

text \<open>The kernel runs in its own directory or in one in use whose kernel half is current and whose other page
  tables are not among the frames of the kernel.\<close>

definition sees_kernel :: "mmu_state \<Rightarrow> bool" where
  "sees_kernel s \<longleftrightarrow> cur_dir s = kdir_frame s \<or> (\<exists>i. dir_used s i \<and> cur_dir s = pdir_frame s i \<and> mirrors s i
     \<and> (\<forall>j<768. is_table (ram s (cur_dir s) j) \<longrightarrow> held s (pframe (ram s (cur_dir s) j))
          \<and> pframe (ram s (cur_dir s) j) \<notin> kernel_frames s))"

lemma not_owner_table: "is_table (e AND NOT PAGE_FLAG_OWNER) = is_table e"
  by (simp add: is_table_def not_owner)

lemma mirrors_walk:
  "mirrors s i \<Longrightarrow> 768 \<le> pd_index v \<Longrightarrow> pd_index v < 1023 \<Longrightarrow> walk (ram s) (pdir_frame s i) v = walk (ram s) (kdir_frame s) v"
  by (simp add: mirrors_def walk_def Let_def not_owner)

lemma sees_kernel_walk:
  "sees_kernel s \<Longrightarrow> 768 \<le> pd_index v \<Longrightarrow> pd_index v < 1023 \<Longrightarrow> translate s v = walk (ram s) (kdir_frame s) v"
  using mirrors_walk by (auto simp: sees_kernel_def translate_def)

text \<open>It then sees what is mapped, and the half of the process stays as it is.\<close>

lemma sees_kernel_step:
  assumes st: "kmem_step R M c s s'" and sees: "sees_kernel s"
  shows "sees_kernel s'" and "pd_index v < 1023 \<Longrightarrow> translate s' v = (case M (unat v div 4096) of None \<Rightarrow> translate s v | f \<Rightarrow> f)"
proof -
  note d = kmem_stepD [OF st]
  have c: "cur_dir s' = cur_dir s" using d(2) by (simp add: same_setup_def)
  show s': "sees_kernel s'"
  proof (cases "cur_dir s = kdir_frame s")
    case True
    then show ?thesis by (simp add: sees_kernel_def c d(8))
  next
    case False
    then obtain i where i: "dir_used s i" "cur_dir s = pdir_frame s i" "mirrors s i"
        "\<And>j. j < 768 \<Longrightarrow> is_table (ram s (pdir_frame s i) j) \<Longrightarrow> held s (pframe (ram s (pdir_frame s i) j))
          \<and> pframe (ram s (pdir_frame s i) j) \<notin> kernel_frames s"
      using sees by (auto simp: sees_kernel_def)
    have "i < NUM_PAGE_DIRS" using i(1) by (simp add: dir_used_def)
    then have "ram s' (pdir_frame s i) j = ram s (pdir_frame s i) j" if "j < 768" for j using d(13) that by (simp add: spares_def)
    then have "is_table (ram s' (pdir_frame s i) j) \<Longrightarrow> held s' (pframe (ram s' (pdir_frame s i) j))
        \<and> pframe (ram s' (pdir_frame s i) j) \<notin> kernel_frames s'" if "j < 768" for j
      using i(4) [OF that] that d(12,13) by (simp add: spares_def)
    moreover have "dir_used s' i" "mirrors s' i" using i(1,3) d(13) same_setup_used [OF d(2)] by (simp_all add: spares_def)
    ultimately show ?thesis using i(2) unfolding sees_kernel_def c d(9) by auto
  qed
  show "translate s' v = (case M (unat v div 4096) of None \<Rightarrow> translate s v | f \<Rightarrow> f)" if v: "pd_index v < 1023"
  proof (cases "768 \<le> pd_index v \<or> cur_dir s = kdir_frame s")
    case True
    then have "translate s' v = walk (ram s') (kdir_frame s) v" "translate s v = walk (ram s) (kdir_frame s) v"
      using sees_kernel_walk [OF s' _ v] sees_kernel_walk [OF sees _ v] d(8) c by (auto simp: translate_def)
    then show ?thesis using d(7) [OF v] by (simp split: option.split)
  next
    case False
    then obtain i where i: "dir_used s i" "cur_dir s = pdir_frame s i"
        "\<And>j. j < 768 \<Longrightarrow> is_table (ram s (pdir_frame s i) j) \<Longrightarrow> held s (pframe (ram s (pdir_frame s i) j))
          \<and> pframe (ram s (pdir_frame s i) j) \<notin> kernel_frames s"
      using sees by (auto simp: sees_kernel_def)
    have "unat v div 4194304 < 768" using False by (simp add: unat_pd_index)
    then have "unat v div 4096 < 0xC0000" by (simp add: div_less_iff_less_mult)
    then have "M (unat v div 4096) = None" using d(14) [of "unat v div 4096"] by (cases "M (unat v div 4096)") auto
    moreover have "i < NUM_PAGE_DIRS" using i(1) by (simp add: dir_used_def)
    then have "ram s' (pdir_frame s i) (pd_index v) = ram s (pdir_frame s i) (pd_index v)" using d(13) False by (simp add: spares_def)
    moreover have "ram s' g = ram s g" if "is_table (ram s (pdir_frame s i) (pd_index v))" "g = pframe (ram s (pdir_frame s i) (pd_index v))" for g
      using that i(3) [OF _ that(1)] False d(13) by (simp add: spares_def)
    ultimately show ?thesis by (auto simp: translate_def walk_def Let_def c i(2) is_table_def)
  qed
qed

text \<open>A smaller set of directory entries.\<close>

lemma kmem_mono:
  assumes "R' \<subseteq> R" and "finite R"
  shows "kmem_ok R s \<Longrightarrow> kmem_ok R' s" and "kmem_need R' s \<le> kmem_need R s"
proof -
  show "kmem_ok R s \<Longrightarrow> kmem_ok R' s" using assms(1) by (auto simp: kmem_ok_def)
  have "card {j \<in> R'. \<not> present (ram s (kdir_frame s) j)} \<le> card {j \<in> R. \<not> present (ram s (kdir_frame s) j)}"
    using assms by (intro card_mono) auto
  then show "kmem_need R' s \<le> kmem_need R s" by (simp add: kmem_need_def dir_need_def)
qed

end
