(* ===== verification/Heap_Growth.thy ===== *)
theory Heap_Growth
  imports Heap Kernel_Memory
begin

text \<open>
  How the heap grows when no run of free blocks is long enough: \<open>heap_expand\<close> maps one fresh frame after
  the other behind the last block and enters it as free.
\<close>

section \<open>A heap that can grow\<close>

text \<open>The directory entries of the first 4096 blocks, whose table is the first page of the heap.\<close>

definition heap_pdes :: "nat set" where
  "heap_pdes = {832..<836}"

definition heap_grows :: "heap_state \<Rightarrow> nat \<Rightarrow> bool" where
  "heap_grows h n \<longleftrightarrow> kmem_ok heap_pdes (mmu h) \<and> sees_kernel (mmu h)
     \<and> heap_size h = total_blocks h * HEAP_BLOCK_SIZE \<and> 0 < blocks h \<and> blocks h + n \<le> 4096
     \<and> kmem_need heap_pdes (mmu h) + n \<le> frame_room (mmu h)"

lemma heap_block_page:
  assumes "unat b = i" and "i < 4096"
  shows "pd_index (HEAP_START_ADDRESS + b * HEAP_BLOCK_SIZE) \<in> heap_pdes"
    and "pd_index (HEAP_START_ADDRESS + b * HEAP_BLOCK_SIZE) < 1023"
    and "unat (HEAP_START_ADDRESS + b * HEAP_BLOCK_SIZE) div 4096 = 0xD0000 + i"
proof -
  have u: "unat (HEAP_START_ADDRESS + b * HEAP_BLOCK_SIZE) = 4096 * (0xD0000 + i)"
    using assms by (simp add: HEAP_START_ADDRESS_def HEAP_BLOCK_SIZE_def unat_word_ariths)
  then show "unat (HEAP_START_ADDRESS + b * HEAP_BLOCK_SIZE) div 4096 = 0xD0000 + i" by simp
  have "4096 * (0xD0000 + i) div 4194304 = 832 + i div 1024" using pde_of_page [of 832 i] by simp
  then have "pd_index (HEAP_START_ADDRESS + b * HEAP_BLOCK_SIZE) = 832 + i div 1024" unfolding unat_pd_index u .
  then show "pd_index (HEAP_START_ADDRESS + b * HEAP_BLOCK_SIZE) \<in> heap_pdes"
      "pd_index (HEAP_START_ADDRESS + b * HEAP_BLOCK_SIZE) < 1023"
    using assms by (auto simp: heap_pdes_def)
qed

lemma heap_table_page:
  "i < 4096 \<Longrightarrow> pd_index (HEAP_START_ADDRESS + of_nat i) = 832"
  "i < 4096 \<Longrightarrow> unat (HEAP_START_ADDRESS + of_nat i) div 4096 = 0xD0000"
  by (simp_all add: unat_pd_index HEAP_START_ADDRESS_def HEAP_BLOCK_SIZE_def unat_word_ariths unat_of_nat)

text \<open>The whole table of the first 4096 blocks lies in one page.\<close>

lemma heap_mapped_page:
  assumes "i < 4096" and "j < 4096"
  shows "heap_mapped h i = heap_mapped h j"
proof -
  have "drop_bit 12 (HEAP_START_ADDRESS + of_nat i) = drop_bit 12 (HEAP_START_ADDRESS + of_nat j)"
    unfolding page_number using heap_table_page(2) [OF assms(1)] heap_table_page(2) [OF assms(2)] by simp
  from walk_page [OF this] show ?thesis unfolding heap_mapped_def translate_def by simp
qed

text \<open>The pages that are mapped stay mapped.\<close>

lemma heap_mapped_step:
  assumes st: "kmem_step R M c (mmu h) (mmu h')" and cur: "sees_kernel (mmu h)"
    and i: "i < 4096" "heap_mapped h i"
  shows "heap_mapped h' i"
proof -
  have v: "pd_index (HEAP_START_ADDRESS + of_nat i) < 1023" using heap_table_page(1) [OF i(1)] by simp
  show ?thesis
    using sees_kernel_step(2) [OF st cur v] i(2) by (auto simp: heap_mapped_def split: option.splits)
qed

section \<open>Growing by some pages\<close>

lemma heap_expand_step:
  assumes g: "heap_grows h (Suc n)" and tab: "table_mapped h"
  shows "\<exists>phys pm m f. pmm_alloc_pageframe (frames (mmu h)) = Some (phys, pm) \<and> phys \<noteq> 0
    \<and> mem_map_page (HEAP_START_ADDRESS + heap_size h) phys (PAGE_FLAG_WRITE OR PAGE_FLAG_PRESENT) ((mmu h)\<lparr>frames := pm\<rparr>) = Some m
    \<and> set_entry (blocks h) HEAP_BLOCK_TABLE_ENTRY_FREE (h\<lparr>mmu := m\<rparr>)
        = Some (h\<lparr>mmu := m, heap_mem := (heap_mem h)(blocks h := 0)\<rparr>)
    \<and> kmem_step heap_pdes [0xD0000 + blocks h \<mapsto> f] 1 (mmu h) m
    \<and> f \<in> pmm_window (frames (mmu h)) \<and> f \<notin> used_frames (frames (mmu h)) \<and> f \<in> used_frames (frames m) \<and> f \<notin> table_frames m"
proof -
  have g': "kmem_ok heap_pdes (mmu h)" "sees_kernel (mmu h)" "heap_size h = total_blocks h * HEAP_BLOCK_SIZE"
      "0 < blocks h" "blocks h < 4096" "kmem_need heap_pdes (mmu h) < frame_room (mmu h)"
    using g by (simp_all add: heap_grows_def)
  note pg = heap_block_page [OF blocks_def [symmetric] g'(5), folded g'(3)]
  have fl: "PAGE_FLAG_WRITE OR PAGE_FLAG_PRESENT < 4096" "\<not> bit (PAGE_FLAG_WRITE OR PAGE_FLAG_PRESENT) 7"
    by (simp_all add: page_flags)
  from kspace.fresh_page [OF g'(1) pg(1) g'(6) fl] obtain f pm m where
    m: "pmm_alloc_pageframe (frames (mmu h)) = Some (frame_addr f, pm)" "frame_addr f \<noteq> 0"
      "mem_map_page (HEAP_START_ADDRESS + heap_size h) (frame_addr f) (PAGE_FLAG_WRITE OR PAGE_FLAG_PRESENT) ((mmu h)\<lparr>frames := pm\<rparr>) = Some m"
      "kmem_step heap_pdes [0xD0000 + blocks h \<mapsto> f] 1 (mmu h) m"
      "f \<in> pmm_window (frames (mmu h))" "f \<notin> used_frames (frames (mmu h))" "f \<in> used_frames (frames m)" "f \<notin> table_frames m"
    unfolding pg(3) by blast
  have "heap_mapped h 0" using tab g'(4) by (simp add: table_mapped_def)
  then have "heap_mapped h (blocks h)" using heap_mapped_page [of "blocks h" 0] g'(5) by simp
  then have "heap_mapped (h\<lparr>mmu := m\<rparr>) (blocks h)"
    using heap_mapped_step [of heap_pdes _ 1 h "h\<lparr>mmu := m\<rparr>"] m(4) g'(2,5) by simp
  then show ?thesis using m by (simp add: set_entry_def HEAP_BLOCK_TABLE_ENTRY_FREE_def) blast
qed

text \<open>The heap after it has grown by \<open>n\<close> blocks.\<close>

definition grown :: "nat \<Rightarrow> mmu_state \<Rightarrow> heap_state \<Rightarrow> heap_state" where
  "grown n m h = h\<lparr>mmu := m, total_blocks := total_blocks h + of_nat n, heap_size := heap_size h + of_nat n * HEAP_BLOCK_SIZE,
     heap_mem := (\<lambda>i. if blocks h \<le> i \<and> i < blocks h + n then 0 else heap_mem h i)\<rparr>"

lemma grown_blocks: "blocks h + n < 4294967296 \<Longrightarrow> blocks (grown n m h) = blocks h + n"
  by (simp add: grown_def blocks_def unat_word_ariths unat_of_nat)

lemma grown_ready:
  assumes st: "kmem_step heap_pdes M n (mmu h) m" and g: "heap_grows h (n + k)" and tab: "table_mapped h"
  shows "heap_grows (grown n m h) k" and "table_mapped (grown n m h)"
proof -
  have b: "blocks h + n + k \<le> 4096" "0 < blocks h" using g by (simp_all add: heap_grows_def)
  then have bl: "blocks (grown n m h) = blocks h + n" by (intro grown_blocks) simp
  have "sees_kernel m" using sees_kernel_step(1) [OF st] g by (simp add: heap_grows_def)
  then show "heap_grows (grown n m h) k"
    using g kmem_stepD(1,5,10) [OF st] unfolding heap_grows_def bl
    by (simp add: grown_def algebra_simps)
  have "heap_mapped (grown n m h) i" if "i < blocks h + n" for i
  proof -
    have "heap_mapped h i" using tab b that heap_mapped_page [of i 0] by (simp add: table_mapped_def)
    then show ?thesis
      using heap_mapped_step [of heap_pdes M n h "grown n m h"] st g that b by (simp add: grown_def heap_grows_def)
  qed
  then show "table_mapped (grown n m h)" by (simp add: table_mapped_def bl)
qed

lemma heap_expand_loop_run:
  assumes "heap_grows h n" and "table_mapped h"
  shows "\<exists>m p. heap_expand_loop n h = Some (True, grown n m h) \<and> kernel_run heap_pdes (0xD0000 + blocks h) n p (mmu h) m"
  using assms
proof (induction n arbitrary: h)
  case 0
  have "(\<lambda>i. if blocks h \<le> i \<and> i < blocks h + 0 then 0 else heap_mem h i) = heap_mem h" by (auto simp: fun_eq_iff)
  then have "grown 0 (mmu h) h = h" unfolding grown_def by simp
  moreover have "kernel_run heap_pdes (0xD0000 + blocks h) 0 undefined (mmu h) (mmu h)"
    by (rule kspace.fresh_run_0) (use 0 in \<open>simp add: heap_grows_def\<close>)
  ultimately show ?case by (metis heap_expand_loop.simps(1))
next
  case (Suc n)
  from heap_expand_step [OF Suc.prems] obtain phys pm m f where
    m: "pmm_alloc_pageframe (frames (mmu h)) = Some (phys, pm)" "phys \<noteq> 0"
      "mem_map_page (HEAP_START_ADDRESS + heap_size h) phys (PAGE_FLAG_WRITE OR PAGE_FLAG_PRESENT) ((mmu h)\<lparr>frames := pm\<rparr>) = Some m"
      "set_entry (blocks h) HEAP_BLOCK_TABLE_ENTRY_FREE (h\<lparr>mmu := m\<rparr>)
        = Some (h\<lparr>mmu := m, heap_mem := (heap_mem h)(blocks h := 0)\<rparr>)"
    and st: "kmem_step heap_pdes [0xD0000 + blocks h \<mapsto> f] 1 (mmu h) m"
    and f: "f \<in> pmm_window (frames (mmu h))" "f \<notin> used_frames (frames (mmu h))" "f \<in> used_frames (frames m)" "f \<notin> table_frames m"
    by (elim exE conjE) (rule that)
  define h1 where "h1 = grown 1 m h"
  have b: "blocks h + Suc n \<le> 4096" using Suc.prems(1) by (simp add: heap_grows_def)
  have bl: "blocks h1 = Suc (blocks h)" using b by (simp add: h1_def grown_blocks)
  have "heap_grows h (1 + n)" using Suc.prems(1) by simp
  note r = grown_ready [OF st this Suc.prems(2), folded h1_def]
  from Suc.IH [OF r] obtain m' p where m': "heap_expand_loop n h1 = Some (True, grown n m' h1)"
      "kernel_run heap_pdes (Suc (0xD0000 + blocks h)) n p (mmu h1) m'"
    unfolding bl by auto
  have "heap_expand_loop (Suc n) h = heap_expand_loop n h1"
  proof -
    have "(h\<lparr>mmu := m, heap_mem := (heap_mem h)(blocks h := 0)\<rparr>)\<lparr>total_blocks := total_blocks h + 1, heap_size := heap_size h + HEAP_BLOCK_SIZE\<rparr> = h1"
      by (auto simp: h1_def grown_def fun_eq_iff)
    then show ?thesis using m by (simp add: Let_def flip: blocks_def)
  qed
  moreover have "grown n m' h1 = grown (Suc n) m' h"
    using bl by (auto simp: grown_def h1_def fun_eq_iff algebra_simps)
  moreover have "mmu h1 = m" by (simp add: h1_def grown_def)
  ultimately have "heap_expand_loop (Suc n) h = Some (True, grown (Suc n) m' h)"
    and "kernel_run heap_pdes (0xD0000 + blocks h) (Suc n) (case_nat f p) (mmu h) m'"
    using m' kspace.fresh_run_Cons [OF st f, of n p m'] by simp_all
  then show ?case by blast
qed

section \<open>Allocation\<close>

lemma kmalloc_grows_run:
  assumes tab: "table_mapped h" and sz: "0 < unat sz" "unat sz \<le> 0x7FFFF000"
    and none: "\<not> (\<exists>q. is_run h ((unat sz + 4095) div 4096) q)" and g: "heap_grows h ((unat sz + 4095) div 4096)"
  defines "n \<equiv> (unat sz + 4095) div 4096"
  shows "\<exists>m p. kernel_run heap_pdes (0xD0000 + blocks h) n p (mmu h) m
    \<and> kmalloc sz h = kmalloc sz (grown n m h) \<and> table_mapped (grown n m h) \<and> is_run (grown n m h) n (blocks h)"
proof -
  have n: "0 < n" "n < 1048576" using sz by (auto simp: n_def)
  have bn: "unat (blocks_needed sz) = n" using unat_blocks_needed [of sz] sz(2) by (simp add: n_def)
  then have sn: "sint (blocks_needed sz) = int n"
    using n sint_small [of "blocks_needed sz"] by simp
  have first: "heap_get_start_block h (int n) = Some (- 1)"
    using heap_get_start_block_first [OF tab n(1)] none by (simp add: n_def)
  have g: "heap_grows h n" using g by (simp add: n_def)
  from heap_expand_loop_run [OF g tab] obtain m p where
    m: "heap_expand_loop n h = Some (True, grown n m h)" "kernel_run heap_pdes (0xD0000 + blocks h) n p (mmu h) m"
    by blast
  have "unat (blocks_needed sz * HEAP_BLOCK_SIZE div HEAP_BLOCK_SIZE) = n"
    using n bn by (simp add: HEAP_BLOCK_SIZE_def unat_div unat_word_ariths)
  then have ex: "heap_expand (blocks_needed sz * HEAP_BLOCK_SIZE) h = Some (True, grown n m h)"
    using m(1) by (simp add: heap_expand_def)
  have b: "blocks h + n \<le> 4096" using g by (simp add: heap_grows_def)
  have "kmem_step heap_pdes (frames_run (0xD0000 + blocks h) n p) n (mmu h) m" using m(2) by (simp add: fresh_run_def)
  note r = grown_ready(2) [OF this _ tab, of 0]
  have tab': "table_mapped (grown n m h)" using r g by simp
  have "block_free (grown n m h) i" if "blocks h \<le> i" "i < blocks h + n" for i
    using that by (simp add: block_free_def grown_def HEAP_BLOCK_TABLE_ENTRY_FREE_def)
  then have run: "is_run (grown n m h) n (blocks h)" using b by (simp add: is_run_def grown_blocks)
  then have "\<exists>st. st \<noteq> - 1 \<and> heap_get_start_block (grown n m h) (int n) = Some st"
    using heap_get_start_block_first [OF tab' n(1)] by auto
  then have "kmalloc sz h = kmalloc sz (grown n m h)"
    using first ex by (auto simp: kmalloc_def heap_malloc_def sn Let_def)
  then show ?thesis using m(2) tab' run by blast
qed

section \<open>Single blocks\<close>

text \<open>How many blocks the heap can still grow by, and the addresses that it can hand out: those of its free
  blocks and those behind its end.\<close>

definition extra_blocks :: "heap_state \<Rightarrow> nat" where
  "extra_blocks h = (if heap_grows h 0 then min (4096 - blocks h) (frame_room (mmu h) - kmem_need heap_pdes (mmu h)) else 0)"

definition free_addrs :: "heap_state \<Rightarrow> u32 set" where
  "free_addrs h = block_address ` {i. i < blocks h + extra_blocks h \<and> (i < blocks h \<longrightarrow> block_free h i)}"

text \<open>
  A heap that can serve \<open>n\<close> more small requests. Its first block, which holds the table, is taken, so
  that no object lies in the table; the typed stores of objects depend on that.
\<close>

definition heap_ready :: "heap_state \<Rightarrow> nat \<Rightarrow> bool" where
  "heap_ready h n \<longleftrightarrow> table_mapped h \<and> blocks h \<le> 4096 \<and> 0 < blocks h \<and> \<not> block_free h 0 \<and> n \<le> card (free_addrs h)"

lemma free_addrs_fixed: "extra_blocks h = 0 \<Longrightarrow> free_addrs h = block_address ` {i. i < blocks h \<and> block_free h i}"
  unfolding free_addrs_def by (intro arg_cong2 [where f = image] refl Collect_cong) auto

lemma heap_size_fixed: "heap_size h \<noteq> total_blocks h * HEAP_BLOCK_SIZE \<Longrightarrow> extra_blocks h = 0"
  by (simp add: extra_blocks_def heap_grows_def)

lemma extra_blocks_bound: "blocks h \<le> 4096 \<Longrightarrow> blocks h + extra_blocks h \<le> 4096"
  by (auto simp: extra_blocks_def min_def)

lemma unat_block_address: "p < 4096 \<Longrightarrow> unat (block_address p) = 0xD0000000 + p * 4096"
proof -
  assume p: "p < 4096"
  have n: "unat (of_nat p :: u32) = p" using p by (intro unat_u32_of_nat) simp
  have c: "unat HEAP_BLOCK_SIZE = 4096" "unat HEAP_START_ADDRESS = 0xD0000000"
    by (simp_all add: HEAP_BLOCK_SIZE_def HEAP_START_ADDRESS_def)
  have m: "unat (of_nat p * HEAP_BLOCK_SIZE) = p * 4096"
    using p n c(1) unat_u32_mult [of "of_nat p" HEAP_BLOCK_SIZE] by simp
  show ?thesis
    using p m c(2) unat_u32_add [of HEAP_START_ADDRESS "of_nat p * HEAP_BLOCK_SIZE"]
    by (simp add: block_address_def)
qed

lemma block_address_inj: "p < 4096 \<Longrightarrow> q < 4096 \<Longrightarrow> block_address p = block_address q \<longleftrightarrow> p = q"
  by (metis unat_block_address add_left_cancel mult_cancel2 numeral_neq_zero)

lemma block_address_not_null: "p < 4096 \<Longrightarrow> block_address p \<noteq> 0"
proof
  assume "p < 4096" and "block_address p = 0"
  then have "unat (block_address p) = 0" by simp
  then show False using unat_block_address [OF \<open>p < 4096\<close>] by linarith
qed

lemma null_not_free: "heap_ready h n \<Longrightarrow> 0 \<notin> free_addrs h"
proof
  assume h: "heap_ready h n" and "0 \<in> free_addrs h"
  then obtain i where "i < blocks h + extra_blocks h" "block_address i = 0" by (auto simp: free_addrs_def)
  moreover have "blocks h + extra_blocks h \<le> 4096" using h by (intro extra_blocks_bound) (simp add: heap_ready_def)
  ultimately show False using block_address_not_null [of i] by simp
qed

text \<open>Taking block \<open>p\<close>, out of a heap in which it is free.\<close>

lemma take_block:
  assumes p: "p < blocks h" "block_free h p" and b: "blocks h \<le> 4096"
  shows "free_addrs (with_run p (Suc 0) h) = free_addrs h - {block_address p}" and "block_address p \<in> free_addrs h"
    and "heap_ready h (Suc n) \<Longrightarrow> heap_ready (with_run p (Suc 0) h) n"
proof -
  let ?h = "with_run p (Suc 0) h"
  have same: "blocks ?h = blocks h" "mmu ?h = mmu h" "heap_mapped ?h i = heap_mapped h i" "extra_blocks ?h = extra_blocks h" for i
    by (simp_all add: with_run_def blocks_def heap_mapped_def extra_blocks_def heap_grows_def)
  have free: "block_free ?h i \<longleftrightarrow> block_free h i \<and> i \<noteq> p" for i
    by (auto simp: block_free_def with_run_def block_entry_def entry_consts)
  have inj: "block_address i = block_address p \<longleftrightarrow> i = p" if "i < blocks h + extra_blocks h" for i
    using that p(1) extra_blocks_bound [OF b] by (intro block_address_inj) simp_all
  have "{i. i < blocks h + extra_blocks h \<and> (i < blocks h \<longrightarrow> block_free h i \<and> i \<noteq> p)}
      = {i. i < blocks h + extra_blocks h \<and> (i < blocks h \<longrightarrow> block_free h i)} - {p}"
    using p(1) by auto
  then show addrs: "free_addrs ?h = free_addrs h - {block_address p}"
    using inj p(1) unfolding free_addrs_def same free by auto
  show mem: "block_address p \<in> free_addrs h" using p by (auto simp: free_addrs_def)
  have "finite (free_addrs h)" by (simp add: free_addrs_def)
  then have "card (free_addrs ?h) = card (free_addrs h) - 1"
    using addrs mem by simp
  then show "heap_ready ?h n" if "heap_ready h (Suc n)"
    using that by (auto simp: heap_ready_def same free table_mapped_def)
qed

lemma is_run_Suc_0: "is_run h (Suc 0) q \<longleftrightarrow> q < blocks h \<and> block_free h q"
  by (auto simp: is_run_def less_Suc_eq)

lemma kmalloc_free_block:
  assumes "table_mapped h" and "blocks h \<le> 4096" and "0 < unat sz" and "unat sz \<le> 4096" and q: "q < blocks h" "block_free h q"
  obtains p where "kmalloc sz h = Some (block_address p, with_run p (Suc 0) h)" and "p < blocks h" and "block_free h p"
proof -
  have one: "(unat sz + 4095) div 4096 = Suc 0" using assms(3,4) by simp
  have "is_run h (Suc 0) q" using q by (simp add: is_run_Suc_0)
  moreover from this have "is_run h (Suc 0) (LEAST p. is_run h (Suc 0) p)" by (rule LeastI)
  moreover have "unat sz \<le> 0x7FFFF000" using assms(4) by simp
  ultimately show ?thesis
    using kmalloc_run [OF assms(1,3), of q] that unfolding one is_run_Suc_0 by blast
qed

text \<open>Growing by one block leaves the addresses that can be handed out the same.\<close>

lemma grow_block:
  assumes st: "kmem_step heap_pdes M (Suc 0) (mmu h) m" and g: "heap_grows h (Suc 0)"
  shows "free_addrs (grown (Suc 0) m h) = free_addrs h" and "block_free (grown (Suc 0) m h) (blocks h)"
    and "block_free (grown (Suc 0) m h) 0 \<longleftrightarrow> block_free h 0"
proof -
  let ?h = "grown (Suc 0) m h"
  have b: "0 < blocks h" "Suc (blocks h) \<le> 4096" "kmem_need heap_pdes (mmu h) + 1 \<le> frame_room (mmu h)" and g0: "heap_grows h 0"
    using g by (simp_all add: heap_grows_def)
  have bl: "blocks ?h = Suc (blocks h)" using b(2) by (simp add: grown_blocks)
  have m: "mmu ?h = m" by (simp add: grown_def)
  have "sees_kernel m" using sees_kernel_step(1) [OF st] g by (simp add: heap_grows_def)
  then have "heap_grows ?h 0"
    using g kmem_stepD(1,5,10) [OF st] unfolding heap_grows_def bl m
    by simp (simp add: grown_def algebra_simps)
  then have ex: "extra_blocks ?h = extra_blocks h - 1"
    using g0 kmem_stepD(5,10) [OF st] b by (auto simp: extra_blocks_def bl m min_def)
  have "0 < extra_blocks h" using g0 b by (simp add: extra_blocks_def)
  then have lim: "blocks ?h + extra_blocks ?h = blocks h + extra_blocks h" using bl ex by simp
  have fr: "block_free ?h i \<longleftrightarrow> block_free h i \<or> i = blocks h" for i
    by (auto simp: block_free_def grown_def HEAP_BLOCK_TABLE_ENTRY_FREE_def)
  show "free_addrs ?h = free_addrs h"
    using \<open>0 < extra_blocks h\<close> unfolding free_addrs_def lim unfolding bl fr
    by (intro arg_cong2 [where f = image] refl Collect_cong) auto
  show "block_free ?h (blocks h)" "block_free ?h 0 \<longleftrightarrow> block_free h 0" using b(1) by (auto simp: fr)
qed

text \<open>A small request to a heap that is ready: a free block if there is one, a new one otherwise.\<close>

lemma kmalloc_block:
  assumes ready: "heap_ready h (Suc n)" and sz: "0 < unat sz" "unat sz \<le> 4096"
  shows "\<exists>a h'. kmalloc sz h = Some (a, h') \<and> a \<in> free_addrs h \<and> a \<noteq> 0
    \<and> free_addrs h' = free_addrs h - {a} \<and> heap_ready h' n \<and> kernel_directory (mmu h') = kernel_directory (mmu h)"
proof (cases "\<exists>q. q < blocks h \<and> block_free h q")
  case True
  have r: "table_mapped h" "blocks h \<le> 4096" using ready by (simp_all add: heap_ready_def)
  from True obtain p where "kmalloc sz h = Some (block_address p, with_run p (Suc 0) h)" "p < blocks h" "block_free h p"
    using kmalloc_free_block [OF r sz] by blast
  then show ?thesis
    using take_block(1,2) [of p h] take_block(3) [of p h n] r(2) ready block_address_not_null [of p] by (simp add: with_run_def)
next
  case False
  have r: "table_mapped h" "blocks h \<le> 4096" "0 < blocks h" "\<not> block_free h 0" "Suc n \<le> card (free_addrs h)"
    using ready by (simp_all add: heap_ready_def)
  have one: "(unat sz + 4095) div 4096 = Suc 0" using sz by simp
  have "free_addrs h \<noteq> {}" using r(5) by auto
  then have "0 < extra_blocks h" using False by (auto simp: free_addrs_def)
  then have g: "heap_grows h (Suc 0)"
    using r(2) by (auto simp: extra_blocks_def heap_grows_def split: if_splits)
  have none: "\<not> (\<exists>q. is_run h ((unat sz + 4095) div 4096) q)" using False unfolding one is_run_Suc_0 .
  have s2: "unat sz \<le> 0x7FFFF000" using sz(2) by simp
  from kmalloc_grows_run [OF r(1) sz(1) s2 none] g obtain m p where m: "kernel_run heap_pdes (0xD0000 + blocks h) (Suc 0) p (mmu h) m"
      "kmalloc sz h = kmalloc sz (grown (Suc 0) m h)" "table_mapped (grown (Suc 0) m h)"
    unfolding one by blast
  have st: "kmem_step heap_pdes (frames_run (0xD0000 + blocks h) (Suc 0) p) (Suc 0) (mmu h) m" using m(1) by (simp add: fresh_run_def)
  note gb = grow_block [OF st g]
  have "Suc (blocks h) \<le> 4096" using g by (simp add: heap_grows_def)
  then have b: "blocks (grown (Suc 0) m h) = Suc (blocks h)" "blocks (grown (Suc 0) m h) \<le> 4096" by (simp_all add: grown_blocks)
  have ready': "heap_ready (grown (Suc 0) m h) (Suc n)"
    using r m(3) gb b by (simp add: heap_ready_def)
  obtain a where a: "kmalloc sz (grown (Suc 0) m h) = Some (block_address a, with_run a (Suc 0) (grown (Suc 0) m h))"
      "a < blocks (grown (Suc 0) m h)" "block_free (grown (Suc 0) m h) a"
    using kmalloc_free_block [OF m(3) b(2) sz, of "blocks h"] gb(2) b(1) by auto
  have "kernel_directory m = kernel_directory (mmu h)" using kmem_stepD(2) [OF st] by (simp add: same_setup_def)
  then show ?thesis
    using take_block [OF a(2,3) b(2)] ready' a(1) m(2) gb(1) block_address_not_null [of a] a(2) b(2)
    by (simp add: with_run_def) (simp add: grown_def)
qed

section \<open>Properties\<close>

text \<open>C24: when no run of free blocks is long enough, \<open>kmalloc\<close> grows the heap by as many blocks as it needs, each on a
  frame of its own that was free, and then allocates by first fit, at the latest behind the old end; the
  blocks in use and every page that was mapped stay as they were.\<close>

theorem kmalloc_grows:
  assumes "table_mapped h" and "0 < unat sz" and "unat sz \<le> 0x7FFFF000"
    and "\<not> (\<exists>q. is_run h ((unat sz + 4095) div 4096) q)" and "heap_grows h ((unat sz + 4095) div 4096)"
  shows "let n = (unat sz + 4095) div 4096 in \<exists>m p. let h' = grown n m h; a = LEAST a. is_run h' n a in
    kmalloc sz h = Some (block_address a, with_run a n h') \<and> a \<le> blocks h \<and> is_run h' n a
    \<and> blocks h' = blocks h + n \<and> (\<forall>i<blocks h. heap_mem h' i = heap_mem h i)
    \<and> (\<forall>i<n. translate m (block_address (blocks h + i)) = Some (p i))
    \<and> inj_on p {..<n} \<and> (\<forall>i<n. p i \<notin> used_frames (frames (mmu h)) \<and> p i \<notin> table_frames m)
    \<and> (\<forall>v. pd_index v < 1023 \<longrightarrow> unat v div 4096 \<notin> {0xD0000 + blocks h..<0xD0000 + blocks h + n}
         \<longrightarrow> translate m v = translate (mmu h) v)"
proof -
  define n where "n = (unat sz + 4095) div 4096"
  have n: "0 < n" using assms(2) by (simp add: n_def)
  from kmalloc_grows_run [OF assms] obtain m p where
    m: "kernel_run heap_pdes (0xD0000 + blocks h) n p (mmu h) m" "kmalloc sz h = kmalloc sz (grown n m h)"
      "table_mapped (grown n m h)" "is_run (grown n m h) n (blocks h)"
    unfolding n_def by blast
  define a where "a = (LEAST a. is_run (grown n m h) n a)"
  have run: "is_run (grown n m h) n a" "a \<le> blocks h"
    using m(4) unfolding a_def by (rule LeastI, rule Least_le)
  have km: "kmalloc sz h = Some (block_address a, with_run a n (grown n m h))"
    using kmalloc_run [OF m(3) assms(2,3), of "blocks h"] m(2,4) by (simp add: a_def n_def)
  have g: "sees_kernel (mmu h)" "blocks h + n \<le> 4096"
    using assms(5) by (simp_all add: heap_grows_def n_def)
  have st: "kmem_step heap_pdes (frames_run (0xD0000 + blocks h) n p) n (mmu h) m" using m(1) by (simp add: fresh_run_def)
  have tr: "translate m v = (case frames_run (0xD0000 + blocks h) n p (unat v div 4096) of
      None \<Rightarrow> translate (mmu h) v | f \<Rightarrow> f)" if "pd_index v < 1023" for v
    by (rule sees_kernel_step(2) [OF st g(1) that])
  have new: "translate m (block_address (blocks h + i)) = Some (p i)" if "i < n" for i
  proof -
    have i: "blocks h + i < 4096" using that g(2) by simp
    then have "unat (of_nat (blocks h + i) :: u32) = blocks h + i" by (intro unat_u32_of_nat) simp
    from heap_block_page(2,3) [OF this i] show ?thesis
      using tr [of "block_address (blocks h + i)"] that unfolding block_address_def by (simp add: frames_run_def)
  qed
  have old: "translate m v = translate (mmu h) v"
    if "pd_index v < 1023" "unat v div 4096 \<notin> {0xD0000 + blocks h..<0xD0000 + blocks h + n}" for v
    using tr [OF that(1)] that(2) by (auto simp: frames_run_def)
  have "blocks (grown n m h) = blocks h + n" using g(2) by (simp add: grown_blocks)
  moreover have "\<forall>i<blocks h. heap_mem (grown n m h) i = heap_mem h i" by (simp add: grown_def)
  moreover have "inj_on p {..<n}" "\<forall>i<n. p i \<notin> used_frames (frames (mmu h)) \<and> p i \<notin> table_frames m"
    using m(1) by (auto simp: fresh_run_def)
  ultimately show ?thesis
    using km run new old unfolding n_def [symmetric] Let_def a_def by blast
qed

text \<open>A heap of one block, which is taken, in the kernel directory of a machine with 128 MB.\<close>

definition small_heap :: heap_state where
  "small_heap = \<lparr>heap_mem = (\<lambda>i. if i = 0 then 0x41 else 0), total_blocks = 1, heap_size = 4096,
     mmu = mmu_demo\<lparr>cr3 := 0x1000, ram := (ram mmu_demo)(1 := (ram mmu_demo 1)(832 := 0x12C003), 300 := (\<lambda>_. 0)(0 := 0x12D003))\<rparr>\<rparr>"

lemma small_heap_frames: "kdir_frame (mmu small_heap) = Suc 0" "i < NUM_PAGE_DIRS \<Longrightarrow> pdir_frame (mmu small_heap) i = 2 + i"
  "frames (mmu small_heap) = pmm_demo" "f < 4096 \<Longrightarrow> held (mmu small_heap) f"
  "ram (mmu small_heap) (Suc 0) j = (if j = 832 then 0x12C003 else if j = 1023 then 0x1003 else 0)"
proof -
  have "kdir_frame (mmu small_heap) = kdir_frame mmu_demo" "pdir_frame (mmu small_heap) = pdir_frame mmu_demo"
    by (simp_all add: small_heap_def kdir_frame_def pdir_frame_def page_dir_def fun_eq_iff)
  then show "kdir_frame (mmu small_heap) = Suc 0" "i < NUM_PAGE_DIRS \<Longrightarrow> pdir_frame (mmu small_heap) i = 2 + i"
    using demo_kdir demo_pdir by simp_all
  show f: "frames (mmu small_heap) = pmm_demo" by (simp add: small_heap_def mmu_demo_def)
  show "f < 4096 \<Longrightarrow> held (mmu small_heap) f" using demo_window [of f] by (simp add: held_def f demo_cr3)
  show "ram (mmu small_heap) (Suc 0) j = (if j = 832 then 0x12C003 else if j = 1023 then 0x1003 else 0)"
    by (simp add: small_heap_def mmu_demo_def)
qed

lemma small_heap_grows: "heap_grows small_heap 2" "table_mapped small_heap" "blocks small_heap = 1"
    "kmem_need heap_pdes (mmu small_heap) = 3" "frame_room (mmu small_heap) = 28640"
proof -
  show b: "blocks small_heap = 1" by (simp add: blocks_def small_heap_def)
  have "heap_mapped small_heap 0"
    by (simp add: heap_mapped_def translate_def walk_def small_heap_def mmu_demo_def pframe_def present_def page_flags
        HEAP_START_ADDRESS_def unat_pd_index unat_pt_index Let_def)
  then show "table_mapped small_heap" by (simp add: table_mapped_def b)
  have tab: "is_table (0x12C003 :: u32)" "pframe 0x12C003 = 300" "\<not> is_table 0"
    by (simp_all add: is_table_def present_def page_flags pframe_def)
  have "tables_ok (mmu small_heap) (Suc 0)"
    using tab small_heap_frames(4)
    by (auto simp: tables_ok_def recursive_def small_heap_frames(5) present_def page_flags pframe_def split: if_splits)
  moreover have "dirs_ok (mmu small_heap)"
    by (auto simp: dirs_ok_def inj_on_def small_heap_frames(1,2))
  then have "kernel_ok (mmu small_heap)"
    using tab small_heap_frames(4) by (auto simp: kernel_ok_def small_heap_frames(1,2,5) NUM_PAGE_DIRS_def split: if_splits)
  moreover have "mem_get_current_page_directory (mmu small_heap) \<noteq> 0"
    by (simp add: mem_get_current_page_directory_def small_heap_def KERNEL_START_def)
  ultimately have "kmem_ok heap_pdes (mmu small_heap)"
    using tab pmm_demo_window(1) by (simp add: kmem_ok_def small_heap_frames(1,3,5) heap_pdes_def present_def)
  moreover have "{j \<in> heap_pdes. \<not> present (ram (mmu small_heap) (Suc 0) j)} = {833, 834, 835}"
    by (auto simp: heap_pdes_def small_heap_frames(5) present_def page_flags)
  then show need: "kmem_need heap_pdes (mmu small_heap) = 3" "frame_room (mmu small_heap) = 28640"
    using pmm_demo_window(2,3) by (simp_all add: kmem_need_def dir_need_def frame_room_def small_heap_frames(1,3) pmm_demo_used pmm_window_def)
  moreover note need
  moreover have "pframe (cr3 (mmu small_heap)) = 1" by (simp add: small_heap_def pframe_def)
  ultimately show "heap_grows small_heap 2"
    by (simp add: heap_grows_def sees_kernel_def small_heap_frames(1) b) (simp add: small_heap_def HEAP_BLOCK_SIZE_def)
qed

theorem kmalloc_grows_witness:
  "\<exists>h'. kmalloc 5000 small_heap = Some (0xD0001000, h') \<and> blocks h' = 3"
proof -
  have n: "(unat (5000 :: u32) + 4095) div 4096 = 2" by simp
  have sz: "0 < unat (5000 :: u32)" "unat (5000 :: u32) \<le> 0x7FFFF000" by simp_all
  have none: "\<not> (\<exists>q. is_run small_heap ((unat (5000 :: u32) + 4095) div 4096) q)"
    unfolding n by (simp add: is_run_def small_heap_grows(3))
  have g: "heap_grows small_heap ((unat (5000 :: u32) + 4095) div 4096)"
    unfolding n by (rule small_heap_grows(1))
  from kmalloc_grows [OF small_heap_grows(2) sz none g, unfolded n Let_def small_heap_grows(3)]
  obtain m where m: "kmalloc 5000 small_heap = Some (block_address (LEAST a. is_run (grown 2 m small_heap) 2 a),
        with_run (LEAST a. is_run (grown 2 m small_heap) 2 a) 2 (grown 2 m small_heap))"
      "(LEAST a. is_run (grown 2 m small_heap) 2 a) \<le> 1"
      "is_run (grown 2 m small_heap) 2 (LEAST a. is_run (grown 2 m small_heap) 2 a)"
      "blocks (grown 2 m small_heap) = 1 + 2" "\<forall>i<1. heap_mem (grown 2 m small_heap) i = heap_mem small_heap i"
    by (elim exE conjE) (rule that)
  define a where "a = (LEAST a. is_run (grown 2 m small_heap) 2 a)"
  have a: "kmalloc 5000 small_heap = Some (block_address a, with_run a 2 (grown 2 m small_heap))" "a \<le> 1"
      "is_run (grown 2 m small_heap) 2 a" "blocks (grown 2 m small_heap) = 3" "heap_mem (grown 2 m small_heap) 0 = 0x41"
    using m by (simp_all add: a_def) (simp add: small_heap_def)
  then have "a = 1" by (cases "a = 0") (auto simp: is_run_def block_free_def HEAP_BLOCK_TABLE_ENTRY_FREE_def)
  then show ?thesis
    using a by (simp add: block_address_def HEAP_START_ADDRESS_def HEAP_BLOCK_SIZE_def with_run_def blocks_def)
qed

end
