(* ===== verification/Fatfs.thy ===== *)
theory Fatfs
  imports Kernel_Prelude
begin

text \<open>
  The vocabulary of FatFs that the kernel uses (\<open>fatfs/ff.h\<close>): result codes, access modes and the
  directory attribute. The functions of FatFs themselves are parameters wherever they are called.
\<close>

datatype FRESULT = FR_OK | FR_DISK_ERR | FR_INT_ERR | FR_NOT_READY | FR_NO_FILE | FR_NO_PATH
  | FR_INVALID_NAME | FR_DENIED | FR_EXIST | FR_INVALID_OBJECT | FR_WRITE_PROTECTED | FR_INVALID_DRIVE
  | FR_NOT_ENABLED | FR_NO_FILESYSTEM | FR_MKFS_ABORTED | FR_TIMEOUT | FR_LOCKED | FR_NOT_ENOUGH_CORE
  | FR_TOO_MANY_OPEN_FILES | FR_INVALID_PARAMETER

definition FA_READ :: u8 where "FA_READ = 0x01"
definition FA_WRITE :: u8 where "FA_WRITE = 0x02"
definition FA_CREATE_ALWAYS :: u8 where "FA_CREATE_ALWAYS = 0x08"
definition FA_OPEN_APPEND :: u8 where "FA_OPEN_APPEND = 0x30"
definition AM_DIR :: u8 where "AM_DIR = 0x10"

end
