(* ===== verification/Process.thy ===== *)
theory Process
  imports Proc_Tree_Query Heap_Growth Fatfs
begin

text \<open>
  Creating processes and threads: the part of \<open>sys/process.c\<close> around the process table. The objects
  that \<open>kmalloc\<close> hands out are kept in typed stores by their address: processes in the store of the
  process table, threads and register sets here. A null result of \<open>kmalloc\<close> faults when the object is
  written. What FatFs returns for the program file is a parameter.
\<close>

section \<open>Data\<close>

definition USER_STACK_TOP :: u32 where "USER_STACK_TOP = 0xB0000000"
definition PROGRAMM_VIRTUAL_ADDRESS_START :: u32 where "PROGRAMM_VIRTUAL_ADDRESS_START = 0x00400000"

datatype threadState = UNUSED | EMBRYO | SLEEPING | RUNNABLE | RUNNING | WAITING

record regs =
  r_eax :: u32
  r_ebx :: u32
  r_ecx :: u32
  r_edx :: u32
  r_esp :: u32
  r_ebp :: u32
  r_edi :: u32
  r_eip :: u32
  r_eflags :: u32
  r_cs :: u32
  r_ss :: u32
  r_ds :: u32
  r_es :: u32
  r_fs :: u32
  r_gs :: u32
  r_cr3 :: u32

record thread =
  t_threadID :: u32
  t_owner :: ptr
  t_next :: ptr
  t_prev :: ptr
  t_regs :: ptr
  t_state :: threadState
  basePriority :: u32
  dynamicPriority :: u32
  waitTicks :: u32
  kstack_esp0 :: u32
  kstack_ss0 :: u16
  kstack_stackStart :: u32

text \<open>The kernel state these functions work on; \<open>kheap\<close> contains the page tables and the frames.\<close>

record kstate =
  kheap :: heap_state
  ptab :: pstate
  threads :: "ptr \<Rightarrow> thread option"
  regstore :: "ptr \<Rightarrow> regs option"

definition zero_process :: process where
  "zero_process = \<lparr>pid = 0, filename = 0, pageDirectory = 0, isUserProc = 0, color = 0, parent = 0,
     left = 0, right = 0, head_thread = 0, tail_thread = 0\<rparr>"

definition zero_thread :: thread where
  "zero_thread = \<lparr>t_threadID = 0, t_owner = 0, t_next = 0, t_prev = 0, t_regs = 0, t_state = UNUSED,
     basePriority = 0, dynamicPriority = 0, waitTicks = 0, kstack_esp0 = 0, kstack_ss0 = 0,
     kstack_stackStart = 0\<rparr>"

section \<open>Access through pointers\<close>

definition kernel_kmalloc :: "u32 \<Rightarrow> 'a kstate_scheme \<Rightarrow> (ptr \<times> 'a kstate_scheme) option" where
  "kernel_kmalloc n s = do { (p, h) \<leftarrow> kmalloc n (kheap s); Some (p, s\<lparr>kheap := h\<rparr>) }"

definition upd_proc :: "ptr \<Rightarrow> (process \<Rightarrow> process) \<Rightarrow> 'a kstate_scheme \<Rightarrow> 'a kstate_scheme option" where
  "upd_proc p f s = do { t \<leftarrow> upd (ptab s) p f; Some (s\<lparr>ptab := t\<rparr>) }"

definition rd_thread :: "'a kstate_scheme \<Rightarrow> ptr \<Rightarrow> thread option" where
  "rd_thread s t = (if t = NULL then None else threads s t)"

definition upd_thread :: "ptr \<Rightarrow> (thread \<Rightarrow> thread) \<Rightarrow> 'a kstate_scheme \<Rightarrow> 'a kstate_scheme option" where
  "upd_thread t f s = do { th \<leftarrow> rd_thread s t; Some (s\<lparr>threads := (threads s)(t := Some (f th))\<rparr>) }"

text \<open>\<open>kmalloc\<close> and \<open>memset\<close> of a \<open>struct process\<close> (40 bytes) and a \<open>struct thread\<close> (48 bytes).\<close>

definition alloc_process :: "'a kstate_scheme \<Rightarrow> (ptr \<times> 'a kstate_scheme) option" where
  "alloc_process s = do {
     (p, s) \<leftarrow> kernel_kmalloc 40 s;
     if p = NULL then None
     else Some (p, s\<lparr>ptab := (ptab s)\<lparr>procs := (procs (ptab s))(p := Some zero_process)\<rparr>\<rparr>)
   }"

definition alloc_thread :: "'a kstate_scheme \<Rightarrow> (ptr \<times> 'a kstate_scheme) option" where
  "alloc_thread s = do {
     (t, s) \<leftarrow> kernel_kmalloc 48 s;
     if t = NULL then None else Some (t, s\<lparr>threads := (threads s)(t := Some zero_thread)\<rparr>)
   }"

section \<open>Kernel processes\<close>

text \<open>Appending a thread to the list of its owner.\<close>

definition link_thread :: "ptr \<Rightarrow> 'a kstate_scheme \<Rightarrow> 'a kstate_scheme option" where
  "link_thread t s = do {
     th \<leftarrow> rd_thread s t;
     own \<leftarrow> rd (ptab s) (t_owner th);
     if head_thread own = NULL
     then upd_proc (t_owner th) (\<lambda>p. p\<lparr>head_thread := t, tail_thread := t\<rparr>) s
     else do {
       s \<leftarrow> upd_thread t (\<lambda>x. x\<lparr>t_prev := tail_thread own, t_next := NULL\<rparr>) s;
       s \<leftarrow> upd_thread (tail_thread own) (t_next_update (\<lambda>_. t)) s;
       upd_proc (t_owner th) (tail_thread_update (\<lambda>_. t)) s
     }
   }"

text \<open>The registers of a fresh thread; the fields the code does not set keep what was in the memory.\<close>

definition start_regs :: "u32 \<Rightarrow> u32 \<Rightarrow> u32 \<Rightarrow> u32 \<Rightarrow> u32 \<Rightarrow> regs \<Rightarrow> regs" where
  "start_regs segmentSelector cs eip esp pd r =
     r\<lparr>r_ss := segmentSelector, r_eflags := 0x202, r_cs := cs, r_eip := eip, r_ds := segmentSelector,
       r_es := segmentSelector, r_fs := segmentSelector, r_gs := segmentSelector, r_esp := esp, r_cr3 := pd\<rparr>"

definition createKernelThread :: "regs \<Rightarrow> ptr \<Rightarrow> u32 \<Rightarrow> 'a kstate_scheme \<Rightarrow> (ptr \<times> 'a kstate_scheme) option" where
  "createKernelThread junk process entry_point s = do {
     (t, s) \<leftarrow> alloc_thread s;
     let (tid, pt) = getThreadID (ptab s);
     let s = s\<lparr>ptab := pt\<rparr>;
     s \<leftarrow> upd_thread t (\<lambda>x. x\<lparr>t_threadID := tid, t_owner := process, t_state := EMBRYO, kstack_ss0 := 0x10\<rparr>) s;
     (kernelStack, s) \<leftarrow> kernel_kmalloc 4096 s;
     let esp0 = kernelStack + 4096 - 4;
     s \<leftarrow> upd_thread t (\<lambda>x. x\<lparr>kstack_esp0 := esp0, kstack_stackStart := kernelStack\<rparr>) s;
     (r, s) \<leftarrow> kernel_kmalloc 64 s;
     if r = NULL then None
     else do {
       own \<leftarrow> rd (ptab s) process;
       let s = s\<lparr>regstore := (regstore s)(r := Some (start_regs 0x10 0x08 entry_point esp0 (pageDirectory own) junk))\<rparr>;
       s \<leftarrow> upd_thread t (\<lambda>x. x\<lparr>t_regs := r, t_state := RUNNABLE\<rparr>) s;
       s \<leftarrow> link_thread t s;
       Some (t, s)
     }
   }"

text \<open>\<open>rbInsert\<close> between \<open>acquire\<close> and \<open>release\<close> of the tree lock.\<close>

definition insert_process :: "u32 \<Rightarrow> ptr \<Rightarrow> 'a kstate_scheme \<Rightarrow> 'a kstate_scheme option" where
  "insert_process apic p s = do {
     (lk, i) \<leftarrow> acquire apic (rbTreeLock (ptab s), iflag (ptab s));
     t \<leftarrow> rbInsert ((ptab s)\<lparr>rbTreeLock := lk, iflag := i\<rparr>) p;
     let (lk, i) = release apic (rbTreeLock t, iflag t);
     Some (s\<lparr>ptab := t\<lparr>rbTreeLock := lk, iflag := i\<rparr>\<rparr>)
   }"

definition assign_pid :: "ptr \<Rightarrow> 'a kstate_scheme \<Rightarrow> 'a kstate_scheme option" where
  "assign_pid p s = do {
     n \<leftarrow> rd (ptab s) p;
     let (k, pt) = getProcessID n (ptab s);
     upd_proc p (pid_update (\<lambda>_. k)) (s\<lparr>ptab := pt\<rparr>)
   }"

definition createKernelProcess :: "u32 \<Rightarrow> regs \<Rightarrow> u32 \<Rightarrow> 'a kstate_scheme \<Rightarrow> (ptr \<times> 'a kstate_scheme) option" where
  "createKernelProcess apic junk entry_point s = do {
     (p, s) \<leftarrow> alloc_process s;
     s \<leftarrow> upd_proc p (isUserProc_update (\<lambda>_. 0)) s;
     s \<leftarrow> assign_pid p s;
     s \<leftarrow> upd_proc p (\<lambda>x. x\<lparr>pageDirectory := kernel_directory (mmu (kheap s)), tail_thread := NULL,
                              head_thread := NULL\<rparr>) s;
     (t, s) \<leftarrow> createKernelThread junk p entry_point s;
     s \<leftarrow> insert_process apic p s;
     Some (p, s)
   }"

text \<open>\<open>idle_entry\<close> is the address of \<open>idle\<close>, a loop around \<open>hlt\<close>.\<close>

definition initIdle :: "u32 \<Rightarrow> regs \<Rightarrow> u32 \<Rightarrow> 'a kstate_scheme \<Rightarrow> (u32 \<times> 'a kstate_scheme) option" where
  "initIdle apic junk idle_entry s = do {
     (p, s) \<leftarrow> createKernelProcess apic junk idle_entry s;
     n \<leftarrow> rd (ptab s) p;
     Some (pid n, s)
   }"

text \<open>The APIC id from the register \<open>ebx\<close> that \<open>cpuid\<close> returns.\<close>

definition get_local_apic_id_cpuid :: "u32 \<Rightarrow> u32" where
  "get_local_apic_id_cpuid ebx = drop_bit 24 ebx AND 0xFF"

section \<open>User processes\<close>

definition user_flags :: u32 where
  "user_flags = PAGE_FLAG_PRESENT OR PAGE_FLAG_WRITE OR PAGE_FLAG_USER"

text \<open>One new frame, mapped at \<open>v\<close> in the current directory. The result of the frame allocator is not checked.\<close>

definition map_user_page :: "u32 \<Rightarrow> mmu_state \<Rightarrow> mmu_state option" where
  "map_user_page v m = do {
     (phys, pm) \<leftarrow> pmm_alloc_pageframe (frames m);
     mem_map_page v phys user_flags (m\<lparr>frames := pm\<rparr>)
   }"

definition map_user_pages :: "u32 \<Rightarrow> nat \<Rightarrow> mmu_state \<Rightarrow> mmu_state option" where
  "map_user_pages base n = fold_opt (\<lambda>i. map_user_page (base + of_nat i * PAGE_SIZE)) [0..<n]"

definition on_mmu :: "(mmu_state \<Rightarrow> mmu_state option) \<Rightarrow> 'a kstate_scheme \<Rightarrow> 'a kstate_scheme option" where
  "on_mmu f s = do { m \<leftarrow> f (mmu (kheap s)); Some (s\<lparr>kheap := (kheap s)\<lparr>mmu := m\<rparr>\<rparr>) }"

text \<open>\<open>res\<close> and \<open>fsize\<close> are what \<open>f_stat\<close> reports.\<close>

definition mapMemoryForProgramm ::
  "FRESULT \<Rightarrow> u32 \<Rightarrow> u32 \<Rightarrow> 'a kstate_scheme \<Rightarrow> (u32 \<times> 'a kstate_scheme) option" where
  "mapMemoryForProgramm res fsize programAddress s =
     (if res \<noteq> FR_OK then Some (0, s)
      else (let pagesNeeded = CEIL_DIV fsize PAGE_SIZE in do {
        s \<leftarrow> on_mmu (map_user_pages programAddress (unat (pagesNeeded + 256))) s;
        Some (pagesNeeded, s)
      }))"

text \<open>Storing one byte through the current directory; memory is kept in words of four bytes.\<close>

definition store_byte :: "u32 \<Rightarrow> u8 \<Rightarrow> mmu_state \<Rightarrow> mmu_state option" where
  "store_byte v b m = do {
     fr \<leftarrow> translate m v;
     let i = unat (drop_bit 2 (v AND 0xFFF));
     let lane = 8 * unat (v AND 3);
     Some (poke fr i ((ram m fr i AND NOT (push_bit lane 0xFF)) OR push_bit lane (ucast b)) m)
   }"

text \<open>The \<open>i\<close>-th call of \<open>f_read\<close> gives \<open>reads i\<close>: a result code and the bytes it has put into the buffer.\<close>

fun copy_pages :: "(nat \<Rightarrow> FRESULT \<times> u8 list) \<Rightarrow> u32 \<Rightarrow> nat \<Rightarrow> nat \<Rightarrow> mmu_state \<Rightarrow> mmu_state option" where
  "copy_pages reads programAddress i 0 m = Some m"
| "copy_pages reads programAddress i (Suc k) m =
     (let (res, bytes) = reads i in
      if res \<noteq> FR_OK then Some m
      else do {
        m \<leftarrow> fold_opt (\<lambda>j. store_byte (programAddress + of_nat i * PAGE_SIZE + of_nat j) (bytes ! j))
               [0..<length bytes] m;
        copy_pages reads programAddress (Suc i) k m
      })"

definition copyProgramToAddress ::
  "FRESULT \<Rightarrow> (nat \<Rightarrow> FRESULT \<times> u8 list) \<Rightarrow> u32 \<Rightarrow> u32 \<Rightarrow> 'a kstate_scheme \<Rightarrow> 'a kstate_scheme option" where
  "copyProgramToAddress open_res reads pagesNeeded programAddress s =
     (if open_res \<noteq> FR_OK then Some s
      else on_mmu (copy_pages reads programAddress 0 (unat pagesNeeded)) s)"

definition createUserThread :: "regs \<Rightarrow> ptr \<Rightarrow> 'a kstate_scheme \<Rightarrow> (ptr \<times> 'a kstate_scheme) option" where
  "createUserThread junk process s = do {
     (t, s) \<leftarrow> alloc_thread s;
     let (tid, pt) = getThreadID (ptab s);
     let s = s\<lparr>ptab := pt\<rparr>;
     s \<leftarrow> upd_thread t (\<lambda>x. x\<lparr>t_threadID := tid, t_owner := process, t_state := EMBRYO\<rparr>) s;
     let stackPages = 100;
     let endOfStack = USER_STACK_TOP - PAGE_SIZE * of_nat stackPages;
     s \<leftarrow> on_mmu (map_user_pages endOfStack stackPages) s;
     s \<leftarrow> on_mmu (map_user_pages 0x00800000 4096) s;
     (r, s) \<leftarrow> kernel_kmalloc 64 s;
     if r = NULL then None
     else do {
       own \<leftarrow> rd (ptab s) process;
       let s = s\<lparr>regstore := (regstore s)(r := Some (start_regs 0x23 0x1B PROGRAMM_VIRTUAL_ADDRESS_START
                                                      (USER_STACK_TOP - 4) (pageDirectory own) junk))\<rparr>;
       s \<leftarrow> upd_thread t (\<lambda>x. x\<lparr>t_regs := r, kstack_ss0 := 0x10\<rparr>) s;
       (kernelStack, s) \<leftarrow> kernel_kmalloc 4096 s;
       s \<leftarrow> upd_thread t (\<lambda>x. x\<lparr>kstack_esp0 := kernelStack + 4096 - 4, kstack_stackStart := kernelStack,
                                  t_state := RUNNABLE\<rparr>) s;
       s \<leftarrow> link_thread t s;
       Some (t, s)
     }
   }"

text \<open>What FatFs says about the program file.\<close>

record program_file =
  stat_res :: FRESULT
  stat_fsize :: u32
  open_res :: FRESULT
  reads :: "nat \<Rightarrow> FRESULT \<times> u8 list"
  close_res :: FRESULT

text \<open>What it prints is in \<open>Syscalls\<close>, with the screen. \<open>isUserProc\<close> keeps the 0 of \<open>memset\<close>: the process gets its pid from the kernel counter.\<close>

definition createUserProcess ::
  "u32 \<Rightarrow> regs \<Rightarrow> program_file \<Rightarrow> 'a kstate_scheme \<Rightarrow> (ptr \<times> 'a kstate_scheme) option" where
  "createUserProcess apic junk file s = do {
     (p, s) \<leftarrow> alloc_process s;
     s \<leftarrow> assign_pid p s;
     let (pd, m) = mem_alloc_page_dir (mmu (kheap s));
     let s = s\<lparr>kheap := (kheap s)\<lparr>mmu := mem_change_page_directory pd m\<rparr>\<rparr>;
     s \<leftarrow> upd_proc p (pageDirectory_update (\<lambda>_. pd)) s;
     (pagesNeeded, s) \<leftarrow> mapMemoryForProgramm (stat_res file) (stat_fsize file) 0x00400000 s;
     s \<leftarrow> copyProgramToAddress (open_res file) (reads file) pagesNeeded 0x00400000 s;
     s \<leftarrow> upd_proc p (\<lambda>x. x\<lparr>tail_thread := NULL, head_thread := NULL\<rparr>) s;
     (t, s) \<leftarrow> createUserThread junk p s;
     let s = s\<lparr>kheap := (kheap s)\<lparr>mmu := mem_change_page_directory pd (mmu (kheap s))\<rparr>\<rparr>;
     s \<leftarrow> insert_process apic p s;
     Some (p, s)
   }"

section \<open>Tables in a larger state\<close>

lemma table_cong:
  assumes "\<And>a. a \<in> insert (NIL s) (fst ` set xs) \<Longrightarrow> procs s' a = procs s a" and "NIL s' = NIL s"
    and "root s' = root s" and "table s xs"
  shows "table s' xs"
proof -
  obtain t where t: "rep s t" "rbtree t" "nodes t = xs" "sorted (map snd xs)"
    using assms(4) by (auto simp: table_def)
  have "tset t = fst ` set xs" by (simp add: tset_addrs t(3))
  then have "is_tree s' NULL t = is_tree s NULL t" using assms(1,2) by (intro is_tree_cong) auto
  then have "rep s' t" using t(1) assms by (simp add: rep_def sentinel_def addrs_ok_def)
  then show ?thesis using t by (auto simp: table_def)
qed

section \<open>What creating a kernel process does\<close>

lemma kernel_kmalloc_block:
  assumes "heap_ready (kheap s) (Suc n)" and "0 < unat sz" and "unat sz \<le> 4096"
  obtains a h' where "kernel_kmalloc sz s = Some (a, s\<lparr>kheap := h'\<rparr>)" and "a \<in> free_addrs (kheap s)" and "a \<noteq> NULL"
    and "free_addrs h' = free_addrs (kheap s) - {a}" and "heap_ready h' n"
    and "kernel_directory (mmu h') = kernel_directory (mmu (kheap s))"
  using kmalloc_block [OF assms] by (auto simp: kernel_kmalloc_def NULL_def)

text \<open>The thread that \<open>createKernelThread\<close> builds.\<close>

definition kernel_thread :: "u32 \<Rightarrow> ptr \<Rightarrow> ptr \<Rightarrow> u32 \<Rightarrow> thread" where
  "kernel_thread tid p r stack = \<lparr>t_threadID = tid, t_owner = p, t_next = NULL, t_prev = NULL, t_regs = r,
     t_state = RUNNABLE, basePriority = 0, dynamicPriority = 0, waitTicks = 0, kstack_esp0 = stack + 4092,
     kstack_ss0 = 0x10, kstack_stackStart = stack\<rparr>"

lemma createKernelThread_run:
  assumes ready: "heap_ready (kheap s) (Suc (Suc (Suc n)))" and p: "p \<noteq> NULL" "procs (ptab s) p = Some own"
    and "head_thread own = NULL"
  shows "\<exists>t r stack h'. createKernelThread junk p e s = Some (t, s\<lparr>kheap := h',
      regstore := (regstore s)(r \<mapsto> start_regs 0x10 0x08 e (stack + 4092) (pageDirectory own) junk),
      threads := (threads s)(t \<mapsto> kernel_thread (threadID (ptab s) + 1) p r stack),
      ptab := (ptab s)\<lparr>threadID := threadID (ptab s) + 1,
        procs := (procs (ptab s))(p \<mapsto> own\<lparr>head_thread := t, tail_thread := t\<rparr>)\<rparr>\<rparr>)
    \<and> {t, r, stack} \<subseteq> free_addrs (kheap s) \<and> distinct [t, r, stack]
    \<and> free_addrs h' = free_addrs (kheap s) - {t, r, stack} \<and> heap_ready h' n
    \<and> kernel_directory (mmu h') = kernel_directory (mmu (kheap s))"
proof -
  obtain t h1 where 1: "kmalloc 48 (kheap s) = Some (t, h1)" "t \<in> free_addrs (kheap s)" "t \<noteq> NULL"
    "free_addrs h1 = free_addrs (kheap s) - {t}" "heap_ready h1 (Suc (Suc n))" "kernel_directory (mmu h1) = kernel_directory (mmu (kheap s))"
    using kmalloc_block [OF ready, of 48] by (auto simp: NULL_def)
  obtain stack h2 where 2: "kmalloc 4096 h1 = Some (stack, h2)" "stack \<in> free_addrs h1"
    "free_addrs h2 = free_addrs h1 - {stack}" "heap_ready h2 (Suc n)" "kernel_directory (mmu h2) = kernel_directory (mmu h1)"
    using kmalloc_block [OF 1(5), of 4096] by (auto simp: NULL_def)
  obtain r h3 where 3: "kmalloc 64 h2 = Some (r, h3)" "r \<in> free_addrs h2" "r \<noteq> NULL"
    "free_addrs h3 = free_addrs h2 - {r}" "heap_ready h3 n" "kernel_directory (mmu h3) = kernel_directory (mmu h2)"
    using kmalloc_block [OF 2(4), of 64] by (auto simp: NULL_def)
  have "createKernelThread junk p e s = Some (t, s\<lparr>kheap := h3,
      regstore := (regstore s)(r \<mapsto> start_regs 0x10 0x08 e (stack + 4092) (pageDirectory own) junk),
      threads := (threads s)(t \<mapsto> kernel_thread (threadID (ptab s) + 1) p r stack),
      ptab := (ptab s)\<lparr>threadID := threadID (ptab s) + 1,
        procs := (procs (ptab s))(p \<mapsto> own\<lparr>head_thread := t, tail_thread := t\<rparr>)\<rparr>\<rparr>)"
    using 1(1,3) 2(1) 3(1,3) p assms(4)
    by (simp add: createKernelThread_def alloc_thread_def kernel_kmalloc_def getThreadID_def upd_thread_def
        rd_thread_def rd_def upd_def upd_proc_def link_thread_def zero_thread_def kernel_thread_def Let_def NULL_def
        add.commute [of stack])
  moreover have "{t, r, stack} \<subseteq> free_addrs (kheap s)" "distinct [t, r, stack]"
    "free_addrs h3 = free_addrs (kheap s) - {t, r, stack}"
    "kernel_directory (mmu h3) = kernel_directory (mmu (kheap s))"
    using 1(2,4,6) 2(2,3,5) 3(2,4,6) by auto
  ultimately show ?thesis using 3(5) by blast
qed

text \<open>
  A kernel that can create another process: the process table is in order and unlocked, the heap can
  serve \<open>n\<close> objects, and no node of the table lies in a free block.
\<close>

definition kernel_ready :: "'a kstate_scheme \<Rightarrow> (ptr \<times> u32) list \<Rightarrow> nat \<Rightarrow> bool" where
  "kernel_ready s xs n \<longleftrightarrow> heap_ready (kheap s) n \<and> table (ptab s) xs \<and> locked (rbTreeLock (ptab s)) = 0
     \<and> free_addrs (kheap s) \<inter> insert (NIL (ptab s)) (fst ` set xs) = {}"

lemma set_add_process [simp]: "set (add_process a k xs) = insert (a, k) (set xs)"
proof -
  have "set (takeWhile P xs) \<union> set (dropWhile P xs) = set xs" for P
    by (metis set_append takeWhile_dropWhile_id)
  then show ?thesis by (auto simp: add_process_def)
qed

lemma insert_process_run:
  assumes "table (ptab s) xs" and "locked (rbTreeLock (ptab s)) = 0" and "a \<notin> insert (NIL (ptab s)) (fst ` set xs)"
    and "a \<noteq> NULL" and "procs (ptab s) a = Some n"
  shows "\<exists>t. insert_process apic a s = Some (s\<lparr>ptab := t\<rparr>) \<and> table t (add_process a (pid n) xs)
    \<and> locked (rbTreeLock t) = 0 \<and> iflag t \<and> NIL t = NIL (ptab s)
    \<and> KProcessID t = KProcessID (ptab s) \<and> threadID t = threadID (ptab s)
    \<and> (\<forall>q. map_option payload (procs t q) = map_option payload (procs (ptab s) q))"
proof -
  define lk where "lk = (rbTreeLock (ptab s))\<lparr>locked := 1, lock_cpu := apic\<rparr>"
  define s0 where "s0 = (ptab s)\<lparr>rbTreeLock := lk, iflag := False\<rparr>"
  have "table s0 xs"
    using assms(1) by (rule table_cong [rotated -1]) (simp_all add: s0_def)
  then obtain t where t: "rbInsert s0 a = Some t" "table t (add_process a (pid n) xs)"
    "frame (insert a (fst ` set xs)) s0 t"
    using rbInsert_table [of s0 xs a n] assms by (auto simp: s0_def)
  define u where "u = t\<lparr>rbTreeLock := (rbTreeLock t)\<lparr>locked := 0, lock_cpu := 0\<rparr>, iflag := True\<rparr>"
  have "insert_process apic a s = Some (s\<lparr>ptab := u\<rparr>)"
    using t(1) assms(2)
    by (simp add: insert_process_def acquire_def xchg_def release_def u_def lk_def s0_def Let_def)
  moreover have "table u (add_process a (pid n) xs)"
    using t(2) by (rule table_cong [rotated -1]) (simp_all add: u_def)
  ultimately show ?thesis
    using t(3) by (intro exI [of _ u]) (simp add: frame_def u_def s0_def)
qed

definition kernel_process :: "u32 \<Rightarrow> u32 \<Rightarrow> process" where
  "kernel_process k pd = zero_process\<lparr>pid := k, pageDirectory := pd\<rparr>"

lemma createKernelProcess_alloc:
  assumes "kmalloc 40 (kheap s) = Some (p, h)" and "p \<noteq> NULL"
  shows "createKernelProcess apic junk e s = do {
    (t, s) \<leftarrow> createKernelThread junk p e (s\<lparr>kheap := h, ptab := (ptab s)\<lparr>KProcessID := KProcessID (ptab s) + 1,
      procs := (procs (ptab s))(p \<mapsto> kernel_process (KProcessID (ptab s) + 1) (kernel_directory (mmu h)))\<rparr>\<rparr>);
    s \<leftarrow> insert_process apic p s;
    Some (p, s) }"
  using assms
  by (simp add: createKernelProcess_def alloc_process_def kernel_kmalloc_def upd_proc_def upd_def rd_def
      zero_process_def assign_pid_def getProcessID_def kernel_process_def NULL_def)

text \<open>The state before the process enters the tree.\<close>

lemma createKernelProcess_before_insert:
  fixes s :: "'a kstate_scheme"
  assumes ready: "heap_ready (kheap s) (n + 4)"
  defines "k \<equiv> KProcessID (ptab s) + 1" and "kd \<equiv> kernel_directory (mmu (kheap s))"
  obtains p t r stack and s' :: "'a kstate_scheme" where
    "createKernelProcess apic junk e s = do { s \<leftarrow> insert_process apic p s'; Some (p, s) }"
    and "{p, t, r, stack} \<subseteq> free_addrs (kheap s)" and "distinct [p, t, r, stack]" and "p \<noteq> NULL"
    and "free_addrs (kheap s') = free_addrs (kheap s) - {p, t, r, stack}" and "heap_ready (kheap s') n"
    and "ptab s' = (ptab s)\<lparr>KProcessID := k, threadID := threadID (ptab s) + 1, procs := (procs (ptab s))(p \<mapsto>
      (kernel_process k kd)\<lparr>head_thread := t, tail_thread := t\<rparr>)\<rparr>"
    and "threads s' = (threads s)(t \<mapsto> kernel_thread (threadID (ptab s) + 1) p r stack)"
    and "regstore s' = (regstore s)(r \<mapsto> start_regs 0x10 0x08 e (stack + 4092) kd junk)"
    and "kstate.more s' = kstate.more s"
proof -
  have "heap_ready (kheap s) (Suc (n + 3))" using ready by (simp add: eval_nat_numeral)
  then obtain p h1 where p: "kmalloc 40 (kheap s) = Some (p, h1)" "p \<in> free_addrs (kheap s)" "p \<noteq> NULL"
    "free_addrs h1 = free_addrs (kheap s) - {p}" "heap_ready h1 (n + 3)" "kernel_directory (mmu h1) = kernel_directory (mmu (kheap s))"
    using kmalloc_block [of "kheap s" "n + 3" 40] by (auto simp: NULL_def)
  define s1 where "s1 = s\<lparr>kheap := h1, ptab := (ptab s)\<lparr>KProcessID := k,
    procs := (procs (ptab s))(p \<mapsto> kernel_process k kd)\<rparr>\<rparr>"
  have s1: "heap_ready (kheap s1) (Suc (Suc (Suc n)))" "procs (ptab s1) p = Some (kernel_process k kd)"
      "head_thread (kernel_process k kd) = NULL" "pageDirectory (kernel_process k kd) = kd" "kheap s1 = h1"
    using p(5) by (simp_all add: s1_def kernel_process_def zero_process_def NULL_def eval_nat_numeral)
  obtain t r stack h' where t: "createKernelThread junk p e s1 = Some (t, s1\<lparr>kheap := h',
      regstore := (regstore s1)(r \<mapsto> start_regs 0x10 0x08 e (stack + 4092) kd junk),
      threads := (threads s1)(t \<mapsto> kernel_thread (threadID (ptab s1) + 1) p r stack),
      ptab := (ptab s1)\<lparr>threadID := threadID (ptab s1) + 1,
        procs := (procs (ptab s1))(p \<mapsto> (kernel_process k kd)\<lparr>head_thread := t, tail_thread := t\<rparr>)\<rparr>\<rparr>)"
      (is "_ = Some (t, ?s2)")
    and addrs: "{t, r, stack} \<subseteq> free_addrs h1" "distinct [t, r, stack]"
      "free_addrs h' = free_addrs h1 - {t, r, stack}" "heap_ready h' n"
    using createKernelThread_run [OF s1(1) p(3) s1(2,3), of junk e] unfolding s1(4,5)
    by (elim exE conjE) (rule that)
  have run: "createKernelProcess apic junk e s = do { s \<leftarrow> insert_process apic p ?s2; Some (p, s) }"
    unfolding createKernelProcess_alloc [OF p(1,3)] p(6)
    using t by (simp add: s1_def k_def kd_def)
  have "{p, t, r, stack} \<subseteq> free_addrs (kheap s)" "distinct [p, t, r, stack]"
    "free_addrs h' = free_addrs (kheap s) - {p, t, r, stack}"
    using p(2,4) addrs(1-3) by auto
  then show ?thesis
    using p(3) addrs(4) by (intro that [OF run]) (simp_all add: s1_def)
qed

lemma kernel_process_simps [simp]:
  "pid (kernel_process k pd) = k" "pageDirectory (kernel_process k pd) = pd" "isUserProc (kernel_process k pd) = 0"
  by (simp_all add: kernel_process_def zero_process_def)

lemma payload_eq:
  "payload m = payload n \<longleftrightarrow> pid m = pid n \<and> filename m = filename n \<and> pageDirectory m = pageDirectory n
    \<and> isUserProc m = isUserProc n \<and> head_thread m = head_thread n \<and> tail_thread m = tail_thread n"
  by (cases m; cases n) (auto simp: payload_def)

lemma createKernelProcess_run:
  assumes "kernel_ready s xs (n + 4)"
  shows "\<exists>p t r stack s' own. createKernelProcess apic junk e s = Some (p, s')
    \<and> kernel_ready s' (add_process p (KProcessID (ptab s) + 1) xs) n \<and> NIL (ptab s') = NIL (ptab s)
    \<and> procs (ptab s') p = Some own \<and> head_thread own = t \<and> tail_thread own = t
    \<and> pageDirectory own = kernel_directory (mmu (kheap s)) \<and> isUserProc own = 0
    \<and> pid own = KProcessID (ptab s) + 1
    \<and> threads s' = (threads s)(t \<mapsto> kernel_thread (threadID (ptab s) + 1) p r stack)
    \<and> regstore s' = (regstore s)(r \<mapsto> start_regs 0x10 0x08 e (stack + 4092) (pageDirectory own) junk)
    \<and> {p, t, r, stack} \<subseteq> free_addrs (kheap s)
    \<and> free_addrs (kheap s') = free_addrs (kheap s) - {p, t, r, stack} \<and> distinct [p, t, r, stack]
    \<and> (\<forall>q \<in> fst ` set xs. map_option payload (procs (ptab s') q) = map_option payload (procs (ptab s) q))
    \<and> kstate.more s' = kstate.more s"
proof -
  have ready: "heap_ready (kheap s) (n + 4)" and tab: "table (ptab s) xs"
    and lock: "locked (rbTreeLock (ptab s)) = 0"
    and apart: "free_addrs (kheap s) \<inter> insert (NIL (ptab s)) (fst ` set xs) = {}"
    using assms by (auto simp: kernel_ready_def)
  obtain p t r stack s2 where run: "createKernelProcess apic junk e s = do { s \<leftarrow> insert_process apic p s2; Some (p, s) }"
    and addrs: "{p, t, r, stack} \<subseteq> free_addrs (kheap s)" "distinct [p, t, r, stack]" "p \<noteq> NULL"
      "free_addrs (kheap s2) = free_addrs (kheap s) - {p, t, r, stack}" "heap_ready (kheap s2) n"
    and s2: "ptab s2 = (ptab s)\<lparr>KProcessID := KProcessID (ptab s) + 1, threadID := threadID (ptab s) + 1,
        procs := (procs (ptab s))(p \<mapsto> (kernel_process (KProcessID (ptab s) + 1)
          (kernel_directory (mmu (kheap s))))\<lparr>head_thread := t, tail_thread := t\<rparr>)\<rparr>"
      "threads s2 = (threads s)(t \<mapsto> kernel_thread (threadID (ptab s) + 1) p r stack)"
      "regstore s2 = (regstore s)(r \<mapsto> start_regs 0x10 0x08 e (stack + 4092) (kernel_directory (mmu (kheap s))) junk)"
      "kstate.more s2 = kstate.more s"
    using ready by (rule createKernelProcess_before_insert)
  have outside: "p \<notin> insert (NIL (ptab s)) (fst ` set xs)" using apart addrs(1) by blast
  have "table (ptab s2) xs"
    using tab by (rule table_cong [rotated -1]) (use outside in \<open>auto simp: s2(1) image_iff\<close>)
  then obtain u where u: "insert_process apic p s2 = Some (s2\<lparr>ptab := u\<rparr>)"
      "table u (add_process p (KProcessID (ptab s) + 1) xs)" "locked (rbTreeLock u) = 0" "NIL u = NIL (ptab s)"
      "\<And>q. map_option payload (procs u q) = map_option payload (procs (ptab s2) q)"
    using insert_process_run [of s2 xs p _ apic] lock outside addrs(3) by (auto simp: s2(1))
  obtain own where own: "procs u p = Some own" "head_thread own = t" "tail_thread own = t"
      "pageDirectory own = kernel_directory (mmu (kheap s))" "isUserProc own = 0" "pid own = KProcessID (ptab s) + 1"
    using u(5) [of p] by (auto simp: s2(1) payload_eq)
  have others: "\<forall>q \<in> fst ` set xs. map_option payload (procs u q) = map_option payload (procs (ptab s) q)"
    using u(5) outside by (auto simp: s2(1) image_iff)
  have "kernel_ready (s2\<lparr>ptab := u\<rparr>) (add_process p (KProcessID (ptab s) + 1) xs) n"
    using u(2-4) addrs(4,5) apart by (auto simp: kernel_ready_def)
  then show ?thesis
    using run u(1,4) own others addrs(1,2,4) s2(2-4)
    by (intro exI [of _ p] exI [of _ t] exI [of _ r] exI [of _ stack] exI [of _ "s2\<lparr>ptab := u\<rparr>"] exI [of _ own]) simp
qed

text \<open>C16: with room for the four objects, in free blocks of the heap or in blocks it can still grow by,
  \<open>createKernelProcess\<close> returns a process that is in
  the process table under the next kernel pid, runs in the kernel's page directory and owns exactly one
  thread, which is runnable, has the next thread id, a kernel stack of its own and registers that start it
  at the given entry point on top of this stack; the tree lock is free again, no other process changes but
  in its links and colour, the kernel can create further processes, and the rest of the
  state is as before.\<close>

theorem createKernelProcess_correct:
  assumes "kernel_ready s xs (n + 4)"
  shows "\<exists>p t r stack s' own. createKernelProcess apic junk e s = Some (p, s')
    \<and> kernel_ready s' (add_process p (KProcessID (ptab s) + 1) xs) n \<and> NIL (ptab s') = NIL (ptab s)
    \<and> procs (ptab s') p = Some own \<and> head_thread own = t \<and> tail_thread own = t
    \<and> pageDirectory own = kernel_directory (mmu (kheap s)) \<and> isUserProc own = 0
    \<and> pid own = KProcessID (ptab s) + 1
    \<and> threads s' = (threads s)(t \<mapsto> kernel_thread (threadID (ptab s) + 1) p r stack)
    \<and> regstore s' = (regstore s)(r \<mapsto> start_regs 0x10 0x08 e (stack + 4092) (pageDirectory own) junk)
    \<and> {p, t, r, stack} \<subseteq> free_addrs (kheap s)
    \<and> free_addrs (kheap s') = free_addrs (kheap s) - {p, t, r, stack} \<and> distinct [p, t, r, stack]
    \<and> (\<forall>q \<in> fst ` set xs. map_option payload (procs (ptab s') q) = map_option payload (procs (ptab s) q))
    \<and> kstate.more s' = kstate.more s"
  using assms by (rule createKernelProcess_run)

text \<open>A heap of five blocks, of which the first is taken, beside a table of three processes.\<close>

definition kernel_demo :: kstate where
  "kernel_demo = \<lparr>kheap = heap_demo\<lparr>heap_mem := (\<lambda>i. if i = 0 then 0x41 else 0), total_blocks := 5\<rparr>,
     ptab = three, threads = (\<lambda>_. None), regstore = (\<lambda>_. None)\<rparr>"

lemma kernel_demo_free: "free_addrs (kheap kernel_demo) = {0xD0001000, 0xD0002000, 0xD0003000, 0xD0004000}"
proof -
  have "{i. i < blocks (kheap kernel_demo) \<and> block_free (kheap kernel_demo) i} = {1, 2, 3, 4}"
    by (auto simp: kernel_demo_def blocks_def block_free_def entry_consts)
  moreover have "extra_blocks (kheap kernel_demo) = 0"
    by (rule heap_size_fixed) (simp add: kernel_demo_def heap_demo_def HEAP_BLOCK_SIZE_def)
  ultimately show ?thesis
    by (simp add: free_addrs_fixed block_address_def HEAP_START_ADDRESS_def HEAP_BLOCK_SIZE_def)
qed

lemma kernel_demo_ready: "kernel_ready kernel_demo [(48, 1), (32, 5), (64, 9)] 4"
proof -
  have "heap_mapped (kheap kernel_demo) i" if "i < 5" for i
    using heap_demo_mapped [of i] that by (simp add: kernel_demo_def heap_mapped_def)
  then have "table_mapped (kheap kernel_demo)"
    by (simp add: table_mapped_def) (simp add: kernel_demo_def blocks_def)
  moreover have "blocks (kheap kernel_demo) \<le> 4096" "\<not> block_free (kheap kernel_demo) 0" "0 < blocks (kheap kernel_demo)"
    by (simp_all add: kernel_demo_def blocks_def block_free_def entry_consts)
  ultimately have "heap_ready (kheap kernel_demo) 4"
    by (simp add: heap_ready_def kernel_demo_free)
  then show ?thesis
    using three_table by (simp add: kernel_ready_def kernel_demo_free) (simp add: kernel_demo_def three_def initLock_def)
qed

definition regs_demo :: regs where
  "regs_demo = \<lparr>r_eax = 0, r_ebx = 0, r_ecx = 0, r_edx = 0, r_esp = 0, r_ebp = 0, r_edi = 0, r_eip = 0, r_eflags = 0,
     r_cs = 0, r_ss = 0, r_ds = 0, r_es = 0, r_fs = 0, r_gs = 0, r_cr3 = 0\<rparr>"

theorem createKernelProcess_correct_witness:
  "\<exists>p s'. createKernelProcess 2 regs_demo 0xC0100000 kernel_demo = Some (p, s')
    \<and> kernel_ready s' (add_process p (KProcessID three + 1) [(48, 1), (32, 5), (64, 9)]) 0"
  using createKernelProcess_correct [of kernel_demo "[(48, 1), (32, 5), (64, 9)]" 0 2 regs_demo "0xC0100000"]
    kernel_demo_ready by (auto simp: kernel_demo_def)

end
