(* ===== verification/Descriptors.thy ===== *)
theory Descriptors
  imports Kernel_Prelude
begin

text \<open>
  Segment and interrupt descriptors: \<open>gdt/gdt.c\<close> and the tables of \<open>interrupts/idt.c\<close>. The arrays are
  functions of the index; an index outside of an array is \<open>None\<close>. The linker's addresses of the arrays
  and of the assembly stubs are arguments, and \<open>lgdt\<close>, \<open>ltr\<close> and \<open>lidt\<close> are not modelled.
\<close>

section \<open>Data\<close>

definition MAX_CPUS :: nat where "MAX_CPUS = 8"
definition BAST_GDT_ENTRIES :: nat where "BAST_GDT_ENTRIES = 5"
definition TOTAL_GDT_ENTRIES :: nat where "TOTAL_GDT_ENTRIES = BAST_GDT_ENTRIES + MAX_CPUS"

lemmas table_sizes = MAX_CPUS_def BAST_GDT_ENTRIES_def TOTAL_GDT_ENTRIES_def

record gdt_entry_struct =
  limit_low :: u16
  base_low :: u16
  base_middle :: u8
  access :: u8
  seg_flags :: u8
  base_high :: u8

record table_ptr =
  ptr_limit :: u16
  ptr_base :: u32

text \<open>The task state segment; the unused halves of its 16-bit fields are left out.\<close>

record tss_struct =
  previous_task :: u16
  esp0 :: u32
  ss0 :: u16
  esp1 :: u32
  ss1 :: u16
  esp2 :: u32
  ss2 :: u16
  tss_cr3 :: u32
  tss_eip :: u32
  tss_eflags :: u32
  tss_eax :: u32
  tss_ecx :: u32
  tss_edx :: u32
  tss_ebx :: u32
  tss_esp :: u32
  tss_ebp :: u32
  tss_esi :: u32
  tss_edi :: u32
  tss_es :: u16
  tss_cs :: u16
  tss_ss :: u16
  tss_ds :: u16
  tss_fs :: u16
  tss_gs :: u16
  ldt_selector :: u16
  debug_flag :: u16
  io_map :: u16

definition zero_tss :: tss_struct where
  "zero_tss = \<lparr>previous_task = 0, esp0 = 0, ss0 = 0, esp1 = 0, ss1 = 0, esp2 = 0, ss2 = 0, tss_cr3 = 0,
     tss_eip = 0, tss_eflags = 0, tss_eax = 0, tss_ecx = 0, tss_edx = 0, tss_ebx = 0, tss_esp = 0, tss_ebp = 0,
     tss_esi = 0, tss_edi = 0, tss_es = 0, tss_cs = 0, tss_ss = 0, tss_ds = 0, tss_fs = 0, tss_gs = 0,
     ldt_selector = 0, debug_flag = 0, io_map = 0\<rparr>"

text \<open>\<open>sizeof(struct tss)\<close>, which is packed, and the size of a descriptor.\<close>

definition sizeof_tss :: nat where "sizeof_tss = 104"
definition sizeof_descriptor :: nat where "sizeof_descriptor = 8"

record idt_entry_t =
  isr_low :: u16
  kernel_cs :: u16
  idt_reserved :: u8
  gate_type :: u8
  isr_high :: u16

record desc_state =
  tss :: "nat \<Rightarrow> tss_struct"
  gdt_entries :: "nat \<Rightarrow> gdt_entry_struct"
  gdt_ptr :: table_ptr
  idt_descriptors :: "nat \<Rightarrow> idt_entry_t"
  idtr :: table_ptr

section \<open>Segment descriptors\<close>

definition gdt_entry :: "u32 \<Rightarrow> u32 \<Rightarrow> u8 \<Rightarrow> u32 \<Rightarrow> gdt_entry_struct" where
  "gdt_entry base limit acc flags =
     \<lparr>limit_low = ucast (limit AND 0xFFFF),
      base_low = ucast (base AND 0xFFFF),
      base_middle = ucast (drop_bit 16 base AND 0xFF),
      access = acc,
      seg_flags = ucast (drop_bit 16 limit AND 0x0F) OR ucast (flags AND 0xF0),
      base_high = ucast (drop_bit 24 base AND 0xFF)\<rparr>"

definition setGdtEntry :: "nat \<Rightarrow> u32 \<Rightarrow> u32 \<Rightarrow> u8 \<Rightarrow> u32 \<Rightarrow> desc_state \<Rightarrow> desc_state option" where
  "setGdtEntry num base limit acc flags s =
     (if num < TOTAL_GDT_ENTRIES
      then Some (s\<lparr>gdt_entries := (gdt_entries s)(num := gdt_entry base limit acc flags)\<rparr>) else None)"

definition updateTssEsp0 :: "u32 \<Rightarrow> u32 \<Rightarrow> desc_state \<Rightarrow> desc_state option" where
  "updateTssEsp0 e AP_NR s =
     (if unat AP_NR < MAX_CPUS
      then Some (s\<lparr>tss := (tss s)(unat AP_NR := (tss s (unat AP_NR))\<lparr>esp0 := e\<rparr>)\<rparr>) else None)"

text \<open>The TSS of CPU \<open>i\<close> and its descriptor; \<open>tss_addr\<close> is the address of the array \<open>tss\<close>.\<close>

definition init_tss :: "u32 \<Rightarrow> nat \<Rightarrow> desc_state \<Rightarrow> desc_state option" where
  "init_tss tss_addr i s =
     setGdtEntry (5 + i) (tss_addr + of_nat (i * sizeof_tss)) (of_nat sizeof_tss - 1) 0xE9 0x00
       (s\<lparr>tss := (tss s)(i := zero_tss\<lparr>ss0 := 0x10, esp0 := 0, io_map := of_nat sizeof_tss\<rparr>)\<rparr>)"

definition init_gdt :: "u32 \<Rightarrow> u32 \<Rightarrow> desc_state \<Rightarrow> desc_state option" where
  "init_gdt tss_addr gdt_addr s = do {
     s \<leftarrow> setGdtEntry 0 0 0 0 0 s;
     s \<leftarrow> setGdtEntry 1 0 0xFFFFFFFF 0x9A 0xCF s;
     s \<leftarrow> setGdtEntry 2 0 0xFFFFFFFF 0x92 0xCF s;
     s \<leftarrow> setGdtEntry 3 0 0xFFFFFFFF 0xFA 0xCF s;
     s \<leftarrow> setGdtEntry 4 0 0xFFFFFFFF 0xF2 0xCF s;
     s \<leftarrow> init_tss tss_addr 0 s;
     s \<leftarrow> fold_opt (init_tss tss_addr) [1..<MAX_CPUS] s;
     Some (s\<lparr>gdt_ptr := \<lparr>ptr_limit = of_nat (sizeof_descriptor * TOTAL_GDT_ENTRIES) - 1, ptr_base = gdt_addr\<rparr>\<rparr>)
   }"

section \<open>Interrupt descriptors\<close>

definition idt_entry :: "u32 \<Rightarrow> u8 \<Rightarrow> idt_entry_t" where
  "idt_entry isr dpl =
     \<lparr>isr_low = ucast (isr AND 0xFFFF), kernel_cs = 0x08, idt_reserved = 0x00,
      gate_type = 0x8E OR push_bit 5 dpl, isr_high = ucast (drop_bit 16 isr AND 0xFFFF)\<rparr>"

definition idt_set_descriptor :: "u8 \<Rightarrow> u32 \<Rightarrow> u8 \<Rightarrow> desc_state \<Rightarrow> desc_state" where
  "idt_set_descriptor interrupt_number isr dpl s =
     s\<lparr>idt_descriptors := (idt_descriptors s)(unat interrupt_number := idt_entry isr dpl)\<rparr>"

text \<open>
  The stubs by the vector they are installed at: \<open>isr0\<close> to \<open>isr31\<close>, \<open>irq0\<close>, \<open>irq1\<close>, \<open>irq32\<close> (0x40),
  the two C functions at 0xFE and 0xFF, and \<open>isr128\<close>.
\<close>

definition idt_vectors :: "(u8 \<times> u8) list" where
  "idt_vectors = map (\<lambda>i. (of_nat i, 1)) [0..<32]
     @ [(0x20, 1), (0x21, 1), (0x40, 1), (0xFE, 1), (0xFF, 1), (128, 3)]"

definition idt_zero :: idt_entry_t where
  "idt_zero = \<lparr>isr_low = 0, kernel_cs = 0, idt_reserved = 0, gate_type = 0, isr_high = 0\<rparr>"

definition idt_init :: "(u8 \<Rightarrow> u32) \<Rightarrow> u32 \<Rightarrow> desc_state \<Rightarrow> desc_state" where
  "idt_init stub idt_addr s =
     fold (\<lambda>(v, dpl). idt_set_descriptor v (stub v) dpl) idt_vectors
       (s\<lparr>idt_descriptors := (\<lambda>_. idt_zero),
          idtr := \<lparr>ptr_limit = of_nat (sizeof_descriptor * 256) - 1, ptr_base = idt_addr\<rparr>\<rparr>)"

text \<open>The bytes that \<open>init_pic\<close> sends, as pairs of port and value.\<close>

definition init_pic :: "(u16 \<times> u8) list" where
  "init_pic = [(0x20, 0x11), (0xA0, 0x11), (0x21, 0x20), (0xA1, 0x28), (0x21, 0x04), (0xA1, 0x02),
     (0x21, 0x01), (0xA1, 0x01), (0x21, 0x00), (0xA1, 0x00)]"

section \<open>What the processor reads\<close>

text \<open>Base, limit and attributes as the processor decodes a segment descriptor, and the target of a gate.\<close>

definition seg_base :: "gdt_entry_struct \<Rightarrow> u32" where
  "seg_base d = ucast (base_low d) OR push_bit 16 (ucast (base_middle d)) OR push_bit 24 (ucast (base_high d))"

definition seg_limit :: "gdt_entry_struct \<Rightarrow> u32" where
  "seg_limit d = ucast (limit_low d) OR push_bit 16 (ucast (seg_flags d AND 0x0F))"

definition gate_target :: "idt_entry_t \<Rightarrow> u32" where
  "gate_target d = ucast (isr_low d) OR push_bit 16 (ucast (isr_high d))"

definition gate_dpl :: "idt_entry_t \<Rightarrow> u8" where
  "gate_dpl d = drop_bit 5 (gate_type d) AND 3"

text \<open>The masks of the code as truncations.\<close>

lemma and_masks [bit_facts]:
  "w AND 0xFFFF = take_bit 16 w" "w AND 0xFF = take_bit 8 w" "w AND 0x0F = take_bit 4 w"
  "w AND 3 = take_bit 2 w" for w :: "'a::len word"
  by (simp_all add: take_bit_eq_mask mask_eq_exp_minus_1)

lemma bit_F0 [bit_facts]: "bit (0xF0 :: 'a::len word) n \<longleftrightarrow> 4 \<le> n \<and> n < 8 \<and> n < LENGTH('a)"
proof -
  have "(0xF0 :: 'a word) = push_bit 4 (mask 4)" by (simp add: mask_eq_exp_minus_1)
  then show ?thesis by (simp only: bit_simps) auto
qed

lemma and_F0 [bit_facts]: "w AND 0xF0 = push_bit 4 (take_bit 4 (drop_bit 4 w))" for w :: "'a::len word"
proof (rule bit_word_eqI)
  fix n assume "n < LENGTH('a)"
  then show "bit (w AND 0xF0) n = bit (push_bit 4 (take_bit 4 (drop_bit 4 w))) n"
    unfolding bit_and_iff bit_F0 by (auto simp: bit_push_bit_iff bit_take_bit_iff bit_drop_bit_eq)
qed

lemma seg_base_entry: "seg_base (gdt_entry base limit acc flags) = base"
proof (rule bit_word_eqI)
  fix n assume "n < LENGTH(32)"
  then show "bit (seg_base (gdt_entry base limit acc flags)) n = bit base n"
    by (cases "24 \<le> n") (auto simp: seg_base_def gdt_entry_def bit_simps and_masks)
qed

lemma seg_limit_entry: "seg_limit (gdt_entry base limit acc flags) = take_bit 20 limit"
  by (rule bit_word_eqI) (auto simp: seg_limit_def gdt_entry_def bit_simps and_masks and_F0)

lemma seg_flags_entry: "seg_flags (gdt_entry base limit acc flags) AND 0xF0 = ucast flags AND 0xF0"
  by (rule bit_word_eqI) (auto simp: gdt_entry_def bit_simps and_masks and_F0)

lemma gate_target_entry: "gate_target (idt_entry isr dpl) = isr"
  by (rule bit_word_eqI) (auto simp: gate_target_def idt_entry_def bit_simps and_masks)

text \<open>Installing a list of gates.\<close>

abbreviation install :: "(u8 \<Rightarrow> u32) \<Rightarrow> (u8 \<times> u8) list \<Rightarrow> desc_state \<Rightarrow> desc_state" where
  "install stub \<equiv> fold (\<lambda>(v, dpl). idt_set_descriptor v (stub v) dpl)"

lemma install_other: "n \<notin> unat ` fst ` set vs \<Longrightarrow> idt_descriptors (install stub vs s) n = idt_descriptors s n"
  by (induction vs arbitrary: s) (auto simp: idt_set_descriptor_def)

lemma install_at:
  "(v, dpl) \<in> set vs \<Longrightarrow> distinct (map fst vs) \<Longrightarrow>
    idt_descriptors (install stub vs s) (unat v) = idt_entry (stub v) dpl"
proof (induction vs arbitrary: s)
  case (Cons x vs)
  show ?case
  proof (cases "x = (v, dpl)")
    case True
    then have "v \<notin> fst ` set vs" using Cons.prems(2) by auto
    then have "unat v \<notin> unat ` fst ` set vs" by (metis imageE word_unat_eq_iff)
    then show ?thesis by (simp add: True install_other) (simp add: idt_set_descriptor_def)
  qed (use Cons in auto)
qed simp

section \<open>The tables that the kernel installs\<close>

lemma init_tss_entries:
  assumes "i < MAX_CPUS"
  shows "\<exists>s'. init_tss addr i s = Some s' \<and> tss s' = (tss s)(i := zero_tss\<lparr>ss0 := 0x10, io_map := 104\<rparr>)
    \<and> gdt_entries s' = (gdt_entries s)(5 + i := gdt_entry (addr + of_nat (i * 104)) 103 0xE9 0)
    \<and> idt_descriptors s' = idt_descriptors s \<and> idtr s' = idtr s"
  using assms by (simp add: init_tss_def setGdtEntry_def table_sizes sizeof_tss_def zero_tss_def)

lemma fold_init_tss:
  assumes "n \<le> MAX_CPUS" and "1 \<le> n"
  shows "\<exists>s'. fold_opt (init_tss addr) [1..<n] s = Some s'
    \<and> tss s' = (\<lambda>i. if 1 \<le> i \<and> i < n then zero_tss\<lparr>ss0 := 0x10, io_map := 104\<rparr> else tss s i)
    \<and> gdt_entries s' = (\<lambda>k. if 6 \<le> k \<and> k < 5 + n
        then gdt_entry (addr + of_nat ((k - 5) * 104)) 103 0xE9 0 else gdt_entries s k)"
    (is "\<exists>s'. _ \<and> ?P n s'")
proof (rule fold_opt_upt [where P = ?P])
  fix i t assume i: "1 \<le> i" "i < n" and t: "?P i t"
  then have "i < MAX_CPUS" using assms(1) by simp
  from init_tss_entries [OF this, of addr t] t i
  show "\<exists>t'. init_tss addr i t = Some t' \<and> ?P (Suc i) t'"
    by (auto simp: fun_eq_iff less_Suc_eq)
qed (use assms(2) in \<open>auto simp: fun_eq_iff\<close>)

text \<open>\<open>init_gdt\<close> installs flat kernel and user segments with the privilege levels 0 and 3, and for each
  of the eight CPUs a descriptor that covers exactly the CPU's task state segment, whose kernel stack
  segment is 0x10.\<close>

theorem init_gdt_segments:
  "\<exists>s'. init_gdt tss_addr gdt_addr s = Some s'
    \<and> (\<forall>k \<in> {1, 2, 3, 4}. seg_base (gdt_entries s' k) = 0 \<and> seg_limit (gdt_entries s' k) = 0xFFFFF)
    \<and> map (\<lambda>k. drop_bit 5 (access (gdt_entries s' k)) AND 3) [1, 2, 3, 4] = [0, 0, 3, 3]
    \<and> (\<forall>i < MAX_CPUS. seg_base (gdt_entries s' (5 + i)) = tss_addr + of_nat (i * sizeof_tss)
        \<and> seg_limit (gdt_entries s' (5 + i)) = of_nat sizeof_tss - 1 \<and> ss0 (tss s' i) = 0x10)
    \<and> ptr_base (gdt_ptr s') = gdt_addr \<and> unat (ptr_limit (gdt_ptr s')) + 1 = TOTAL_GDT_ENTRIES * 8"
proof -
  define g where "g = (gdt_entries s)(0 := gdt_entry 0 0 0 0, 1 := gdt_entry 0 0xFFFFFFFF 0x9A 0xCF,
    2 := gdt_entry 0 0xFFFFFFFF 0x92 0xCF, 3 := gdt_entry 0 0xFFFFFFFF 0xFA 0xCF, 4 := gdt_entry 0 0xFFFFFFFF 0xF2 0xCF)"
  obtain s1 where s1: "init_tss tss_addr 0 (s\<lparr>gdt_entries := g\<rparr>) = Some s1"
      "tss s1 = (tss s)(0 := zero_tss\<lparr>ss0 := 0x10, io_map := 104\<rparr>)"
      "gdt_entries s1 = g(5 := gdt_entry tss_addr 103 0xE9 0)"
    using init_tss_entries [of 0 tss_addr "s\<lparr>gdt_entries := g\<rparr>"] by (auto simp: MAX_CPUS_def)
  obtain s2 where s2: "fold_opt (init_tss tss_addr) [1..<MAX_CPUS] s1 = Some s2"
      "tss s2 = (\<lambda>i. if 1 \<le> i \<and> i < MAX_CPUS then zero_tss\<lparr>ss0 := 0x10, io_map := 104\<rparr> else tss s1 i)"
      "gdt_entries s2 = (\<lambda>k. if 6 \<le> k \<and> k < 5 + MAX_CPUS
        then gdt_entry (tss_addr + of_nat ((k - 5) * 104)) 103 0xE9 0 else gdt_entries s1 k)"
    using fold_init_tss [of MAX_CPUS tss_addr s1] by (auto simp: MAX_CPUS_def)
  have "init_gdt tss_addr gdt_addr s = Some (s2\<lparr>gdt_ptr := \<lparr>ptr_limit = 103, ptr_base = gdt_addr\<rparr>\<rparr>)"
    using s1(1) s2(1) by (simp add: init_gdt_def setGdtEntry_def table_sizes g_def sizeof_descriptor_def)
  moreover have "gdt_entries s2 (5 + i) = gdt_entry (tss_addr + of_nat (i * 104)) 103 0xE9 0" "ss0 (tss s2 i) = 0x10"
    if "i < MAX_CPUS" for i
    using that by (cases "i = 0"; simp add: s2(2,3) s1(2,3))+
  moreover have "gdt_entries s2 k = g k" if "k < 5" for k
    using that by (simp add: s2(3) s1(3))
  ultimately show ?thesis
    by (simp add: seg_base_entry seg_limit_entry sizeof_tss_def table_sizes g_def) (simp add: gdt_entry_def)
qed

text \<open>After \<open>idt_init\<close> the gate of every vector of the list leads to its stub, the only gate that user
  code may call is the one of vector 128, and every other vector is not present.\<close>

theorem idt_init_gates:
  "\<forall>n < 256. (case map_of idt_vectors (of_nat n) of
      Some dpl \<Rightarrow> gate_target (idt_descriptors (idt_init stub idt_addr s) n) = stub (of_nat n)
        \<and> gate_dpl (idt_descriptors (idt_init stub idt_addr s) n) = dpl \<and> (dpl = 3 \<longleftrightarrow> n = 128)
    | None \<Rightarrow> idt_descriptors (idt_init stub idt_addr s) n = idt_zero)"
proof (intro allI impI)
  fix n :: nat assume "n < 256"
  then have n: "unat (of_nat n :: u8) = n" by (simp add: unat_of_nat)
  have dist: "distinct (map fst idt_vectors)" by code_simp
  have dpls: "\<forall>(v, dpl) \<in> set idt_vectors. gate_dpl (idt_entry 0 dpl) = dpl \<and> (dpl = 3 \<longleftrightarrow> v = 128)" by code_simp
  show "case map_of idt_vectors (of_nat n) of
      Some dpl \<Rightarrow> gate_target (idt_descriptors (idt_init stub idt_addr s) n) = stub (of_nat n)
        \<and> gate_dpl (idt_descriptors (idt_init stub idt_addr s) n) = dpl \<and> (dpl = 3 \<longleftrightarrow> n = 128)
    | None \<Rightarrow> idt_descriptors (idt_init stub idt_addr s) n = idt_zero"
  proof (cases "map_of idt_vectors (of_nat n :: u8)")
    case None
    have "n \<notin> unat ` fst ` set idt_vectors"
    proof
      assume "n \<in> unat ` fst ` set idt_vectors"
      then obtain v where "v \<in> fst ` set idt_vectors" "n = unat v" by blast
      with None show False by (simp add: map_of_eq_None_iff)
    qed
    with None show ?thesis by (simp add: idt_init_def install_other)
  next
    case (Some dpl)
    then have mem: "(of_nat n, dpl) \<in> set idt_vectors" by (rule map_of_SomeD)
    have "(of_nat n :: u8) = 128 \<longleftrightarrow> n = 128" using n by (simp add: word_unat_eq_iff)
    then show ?thesis
      using install_at [OF mem dist] dpls mem n Some
      by (simp add: idt_init_def gate_target_entry) (auto simp: gate_dpl_def idt_entry_def)
  qed
qed

text \<open>Tables before the initialisation, for the witnesses.\<close>

definition desc_zero :: desc_state where
  "desc_zero = \<lparr>tss = (\<lambda>_. zero_tss), gdt_entries = (\<lambda>_. gdt_entry 0 0 0 0),
     gdt_ptr = \<lparr>ptr_limit = 0, ptr_base = 0\<rparr>, idt_descriptors = (\<lambda>_. idt_zero), idtr = \<lparr>ptr_limit = 0, ptr_base = 0\<rparr>\<rparr>"

theorem init_gdt_segments_witness:
  "\<exists>s'. init_gdt 0xC0200000 0xC0201000 desc_zero = Some s' \<and> seg_base (gdt_entries s' 7) = 0xC02000D0"
proof -
  obtain s' where "init_gdt 0xC0200000 0xC0201000 desc_zero = Some s'"
    and "\<forall>i < MAX_CPUS. seg_base (gdt_entries s' (5 + i)) = 0xC0200000 + of_nat (i * sizeof_tss)"
    using init_gdt_segments [of "0xC0200000" "0xC0201000" desc_zero] by auto
  then show ?thesis
    by (intro exI [of _ s']) (auto simp: MAX_CPUS_def sizeof_tss_def dest: spec [of _ 2])
qed

theorem idt_init_gates_witness:
  "gate_target (idt_descriptors (idt_init (\<lambda>v. 0xC0100000 + ucast v) 0xC0202000 desc_zero) 128) = 0xC0100080"
proof -
  have "map_of idt_vectors 128 = Some 3" by code_simp
  then show ?thesis
    using idt_init_gates [of "\<lambda>v. 0xC0100000 + ucast v" "0xC0202000" desc_zero]
    by (auto dest!: spec [of _ 128])
qed

end
