(* ===== verification/Sched.thy ===== *)
theory Sched
  imports Process Descriptors
begin

text \<open>
  The scheduler, \<open>sys/sched.c\<close>: for each CPU five queues, one per priority, in arrays of 64 slots
  whose \<open>head\<close> and \<open>tail\<close> only ever move up. The messages it prints are not modelled. An index outside
  of an array of CPUs is \<open>None\<close>.
\<close>

section \<open>State\<close>

definition MAX_PRIORITY :: nat where "MAX_PRIORITY = 5"
definition MAX_RUNQUEUE_SIZE :: nat where "MAX_RUNQUEUE_SIZE = 64"
definition AGE_THRESHOLD :: u32 where "AGE_THRESHOLD = 50"

lemmas sched_consts = MAX_PRIORITY_def MAX_RUNQUEUE_SIZE_def MAX_CPUS_def

text \<open>The indices are \<open>int\<close> in the code; they start at 0 and never leave 0 to 64.\<close>

record runqueue =
  queues :: "nat \<Rightarrow> nat \<Rightarrow> ptr"
  rq_head :: "nat \<Rightarrow> nat"
  rq_tail :: "nat \<Rightarrow> nat"

record sched_state = kstate +
  cpuRunqueues :: "nat \<Rightarrow> runqueue"
  threadsPerCPU :: "nat \<Rightarrow> u32"
  currentThread :: "nat \<Rightarrow> ptr"
  ticksSinceLastSwitch :: "nat \<Rightarrow> u64"
  ncpus :: u32
  descs :: desc_state

definition empty_runqueue :: runqueue where
  "empty_runqueue = \<lparr>queues = (\<lambda>_ _. NULL), rq_head = (\<lambda>_. 0), rq_tail = (\<lambda>_. 0)\<rparr>"

section \<open>Queues\<close>

text \<open>The queue for a dynamic priority: everything from 4 on is the last one.\<close>

definition queue_of :: "u32 \<Rightarrow> nat" where
  "queue_of prio = (if MAX_PRIORITY \<le> unat prio then MAX_PRIORITY - 1 else unat prio)"

definition enqueueThread :: "ptr \<Rightarrow> u32 \<Rightarrow> 'a sched_state_scheme \<Rightarrow> 'a sched_state_scheme option" where
  "enqueueThread t cpu s = do {
     th \<leftarrow> rd_thread s t;
     let prio = queue_of (dynamicPriority th);
     let c = unat cpu;
     if MAX_CPUS \<le> c then None
     else (let rq = cpuRunqueues s c in
       if MAX_RUNQUEUE_SIZE \<le> rq_tail rq prio then Some s
       else Some (s\<lparr>cpuRunqueues := (cpuRunqueues s)(c := rq\<lparr>
              queues := (queues rq)(prio := (queues rq prio)(rq_tail rq prio := t)),
              rq_tail := (rq_tail rq)(prio := rq_tail rq prio + 1)\<rparr>),
            threadsPerCPU := (threadsPerCPU s)(c := threadsPerCPU s c + 1)\<rparr>))
   }"

definition dequeueThread :: "u32 \<Rightarrow> 'a sched_state_scheme \<Rightarrow> (ptr \<times> 'a sched_state_scheme) option" where
  "dequeueThread cpu s = (let c = unat cpu in
     if MAX_CPUS \<le> c then None
     else (let rq = cpuRunqueues s c in
       case find (\<lambda>prio. rq_head rq prio < rq_tail rq prio) [0..<MAX_PRIORITY] of
         None \<Rightarrow> Some (NULL, s)
       | Some prio \<Rightarrow> Some (queues rq prio (rq_head rq prio),
           s\<lparr>cpuRunqueues := (cpuRunqueues s)(c := rq\<lparr>rq_head := (rq_head rq)(prio := rq_head rq prio + 1)\<rparr>),
             threadsPerCPU := (threadsPerCPU s)(c := threadsPerCPU s c - 1)\<rparr>)))"

definition demotePriority :: "ptr \<Rightarrow> 'a sched_state_scheme \<Rightarrow> 'a sched_state_scheme option" where
  "demotePriority t s = do {
     th \<leftarrow> rd_thread s t;
     if unat (dynamicPriority th) < MAX_PRIORITY - 1
     then upd_thread t (\<lambda>x. x\<lparr>dynamicPriority := dynamicPriority x + 1\<rparr>) s
     else Some s
   }"

section \<open>Filling the queues\<close>

fun least_loop :: "(nat \<Rightarrow> u32) \<Rightarrow> nat list \<Rightarrow> u32 \<Rightarrow> nat \<Rightarrow> nat option" where
  "least_loop load [] m idx = Some idx"
| "least_loop load (i # is) m idx =
     (if MAX_CPUS \<le> i then None
      else if load i < m then least_loop load is (load i) i
      else least_loop load is m idx)"

definition leastLoadedCPU :: "'a sched_state_scheme \<Rightarrow> u32 option" where
  "leastLoadedCPU s = map_option of_nat
     (least_loop (threadsPerCPU s) [0..<unat (ncpus s)] (threadsPerCPU s 0) 0)"

partial_function (option) enqueue_list :: "ptr \<Rightarrow> 'a sched_state_scheme \<Rightarrow> 'a sched_state_scheme option" where
  "enqueue_list t s =
     (if t = NULL then Some s
      else do {
        th \<leftarrow> rd_thread s t;
        s \<leftarrow> (if t_state th = RUNNABLE then do {
                cpu \<leftarrow> leastLoadedCPU s;
                enqueueThread t cpu s
              } else Some s);
        th \<leftarrow> rd_thread s t;
        enqueue_list (t_next th) s
      })"

definition enqueueRunnableThread :: "'a sched_state_scheme \<Rightarrow> ptr \<Rightarrow> 'a sched_state_scheme option" where
  "enqueueRunnableThread s proc = do {
     p \<leftarrow> rd (ptab s) proc;
     enqueue_list (head_thread p) s
   }"

definition fillRunqueuesFromBST :: "'a sched_state_scheme \<Rightarrow> 'a sched_state_scheme option" where
  "fillRunqueuesFromBST s = inOrderTraversal ptab enqueueRunnableThread s (root (ptab s))"

section \<open>Aging\<close>

definition age :: "thread \<Rightarrow> thread" where
  "age th = (if t_state th = RUNNABLE \<and> AGE_THRESHOLD < waitTicks th
     then th\<lparr>waitTicks := 0, dynamicPriority := dynamicPriority th - 1\<rparr>
     else th\<lparr>waitTicks := waitTicks th + 1\<rparr>)"

definition age_slot :: "nat \<Rightarrow> nat \<Rightarrow> nat \<Rightarrow> 'a sched_state_scheme \<Rightarrow> 'a sched_state_scheme option" where
  "age_slot c prio i s = upd_thread (queues (cpuRunqueues s c) prio i) age s"

text \<open>From the last priority down to 1; the first queue does not age.\<close>

definition ageThreads :: "u32 \<Rightarrow> 'a sched_state_scheme \<Rightarrow> 'a sched_state_scheme option" where
  "ageThreads cpu s = (let c = unat cpu; rq = cpuRunqueues s c in
     if MAX_CPUS \<le> c then None
     else fold_opt (\<lambda>prio. fold_opt (age_slot c prio) [rq_head rq prio..<rq_tail rq prio])
            (rev [1..<MAX_PRIORITY]) s)"

section \<open>Switching\<close>

text \<open>
  \<open>switchTask\<close> loads all registers of the thread and does not come back; the result of \<open>schedule\<close> is the
  register set that it loads.
\<close>

definition switchTask :: "ptr \<Rightarrow> 'a sched_state_scheme \<Rightarrow> regs option" where
  "switchTask r s = (if r = NULL then None else regstore s r)"

definition requeue_current :: "u32 \<Rightarrow> 'a sched_state_scheme \<Rightarrow> 'a sched_state_scheme option" where
  "requeue_current cpu s = (let current = currentThread s (unat cpu) in
     if current = NULL then Some s
     else do {
       th \<leftarrow> rd_thread s current;
       if t_state th = RUNNING then do {
         s \<leftarrow> upd_thread current (\<lambda>x. x\<lparr>t_state := RUNNABLE\<rparr>) s;
         s \<leftarrow> demotePriority current s;
         enqueueThread current cpu s
       } else Some s
     })"

definition dispatch :: "u32 \<Rightarrow> ptr \<Rightarrow> 'a sched_state_scheme \<Rightarrow> (regs \<times> 'a sched_state_scheme) option" where
  "dispatch cpu nextThread s = do {
     s \<leftarrow> upd_thread nextThread (\<lambda>x. x\<lparr>waitTicks := 0, t_state := RUNNING\<rparr>) s;
     let s = s\<lparr>currentThread := (currentThread s)(unat cpu := nextThread),
               ticksSinceLastSwitch := (ticksSinceLastSwitch s)(unat cpu := 0)\<rparr>;
     th \<leftarrow> rd_thread s nextThread;
     d \<leftarrow> updateTssEsp0 (kstack_esp0 th) cpu (descs s);
     let s = s\<lparr>descs := d\<rparr>;
     r \<leftarrow> switchTask (t_regs th) s;
     Some (r, s)
   }"

text \<open>\<open>apic\<close> is the APIC id of the CPU that runs the code, which takes the lock of the process table.\<close>

definition schedule :: "u32 \<Rightarrow> regs \<Rightarrow> u32 \<Rightarrow> u32 \<Rightarrow> 'a sched_state_scheme \<Rightarrow> (regs \<times> 'a sched_state_scheme) option" where
  "schedule apic junk idle_entry cpu s = do {
     (idle_pid, s) \<leftarrow> initIdle apic junk idle_entry s;
     (idleProcess, pt) \<leftarrow> rbSearch apic (ptab s) idle_pid;
     let s = s\<lparr>ptab := pt\<rparr>;
     s \<leftarrow> requeue_current cpu s;
     (nextThread, s) \<leftarrow> dequeueThread cpu s;
     nextThread \<leftarrow> (if nextThread = NULL
                     then map_option head_thread (rd (ptab s) idleProcess) else Some nextThread);
     dispatch cpu nextThread s
   }"

section \<open>Queues as lists\<close>

text \<open>The threads that wait in the queue of priority \<open>p\<close> of CPU \<open>c\<close>, first the one that came first.\<close>

definition pending :: "'a sched_state_scheme \<Rightarrow> nat \<Rightarrow> nat \<Rightarrow> ptr list" where
  "pending s c p = (let rq = cpuRunqueues s c in map (queues rq p) [rq_head rq p..<rq_tail rq p])"

text \<open>How often the queue has been appended to since the start, which is what limits it.\<close>

definition accepted :: "'a sched_state_scheme \<Rightarrow> nat \<Rightarrow> nat \<Rightarrow> nat" where
  "accepted s c p = rq_tail (cpuRunqueues s c) p"

definition queues_ok :: "'a sched_state_scheme \<Rightarrow> nat \<Rightarrow> bool" where
  "queues_ok s c \<longleftrightarrow> (\<forall>p. rq_head (cpuRunqueues s c) p \<le> accepted s c p \<and> accepted s c p \<le> MAX_RUNQUEUE_SIZE
       \<and> NULL \<notin> set (pending s c p))
     \<and> unat (threadsPerCPU s c) = (\<Sum>p < MAX_PRIORITY. length (pending s c p))"

lemma queue_of_less: "queue_of k < MAX_PRIORITY"
  by (simp add: queue_of_def MAX_PRIORITY_def)

lemma length_pending: "length (pending s c p) = accepted s c p - rq_head (cpuRunqueues s c) p"
  by (simp add: pending_def accepted_def Let_def)

lemma sum_upd: "p < (n::nat) \<Longrightarrow> (\<Sum>q < n. if q = p then f q + 1 else f q) = (\<Sum>q < n. f q) + (1::nat)"
proof -
  assume "p < n"
  have "(\<Sum>q < n. if q = p then f q + 1 else f q) = (\<Sum>q < n. f q + (if q = p then 1 else 0))"
    by (rule sum.cong) auto
  also have "\<dots> = (\<Sum>q < n. f q) + (\<Sum>q < n. if q = p then 1 else 0)" by (rule sum.distrib)
  also have "(\<Sum>q < n. if q = p then 1 else 0) = (1::nat)" using \<open>p < n\<close> by (simp add: sum.delta')
  finally show ?thesis .
qed

lemma load_bound:
  assumes "queues_ok s c"
  shows "(\<Sum>p < MAX_PRIORITY. length (pending s c p)) \<le> 320"
proof -
  have "(\<Sum>p < MAX_PRIORITY. length (pending s c p)) \<le> (\<Sum>p < MAX_PRIORITY. 64)"
    using assms by (intro sum_mono) (auto simp: length_pending queues_ok_def MAX_RUNQUEUE_SIZE_def intro: diff_le_self [THEN le_trans])
  then show ?thesis by (simp add: MAX_PRIORITY_def)
qed

lemma enqueueThread_run:
  assumes ok: "queues_ok s (unat cpu)" and cpu: "unat cpu < MAX_CPUS" and t: "t \<noteq> NULL" "threads s t = Some th"
  defines "c \<equiv> unat cpu" and "p \<equiv> queue_of (dynamicPriority th)"
  shows "\<exists>s'. enqueueThread t cpu s = Some s' \<and> queues_ok s' c
    \<and> (if accepted s c p = MAX_RUNQUEUE_SIZE then s' = s
       else pending s' c = (pending s c)(p := pending s c p @ [t]) \<and> accepted s' c = (accepted s c)(p := accepted s c p + 1))
    \<and> (\<forall>c'. c' \<noteq> c \<longrightarrow> cpuRunqueues s' c' = cpuRunqueues s c' \<and> threadsPerCPU s' c' = threadsPerCPU s c')
    \<and> s\<lparr>cpuRunqueues := cpuRunqueues s', threadsPerCPU := threadsPerCPU s'\<rparr> = s'"
proof (cases "accepted s c p = MAX_RUNQUEUE_SIZE")
  case True
  then show ?thesis
    using ok cpu t by (simp add: enqueueThread_def rd_thread_def c_def p_def accepted_def Let_def)
next
  case False
  define rq where "rq = cpuRunqueues s c"
  define s' where "s' = s\<lparr>cpuRunqueues := (cpuRunqueues s)(c := rq\<lparr>
      queues := (queues rq)(p := (queues rq p)(rq_tail rq p := t)), rq_tail := (rq_tail rq)(p := rq_tail rq p + 1)\<rparr>),
    threadsPerCPU := (threadsPerCPU s)(c := threadsPerCPU s c + 1)\<rparr>"
  have ht: "rq_head rq q \<le> rq_tail rq q" "rq_tail rq q \<le> MAX_RUNQUEUE_SIZE" "NULL \<notin> set (pending s c q)" for q
    using ok by (simp_all add: queues_ok_def accepted_def c_def rq_def)
  have "rq_tail rq p < MAX_RUNQUEUE_SIZE"
    using False ht(2) [of p] by (simp add: accepted_def rq_def)
  then have run: "enqueueThread t cpu s = Some s'"
    using cpu t by (simp add: enqueueThread_def rd_thread_def c_def p_def rq_def s'_def Let_def)
  have pend: "pending s' c = (pending s c)(p := pending s c p @ [t])"
    using ht(1) by (auto simp: fun_eq_iff pending_def s'_def rq_def [symmetric] Let_def)
  have acc: "accepted s' c = (accepted s c)(p := accepted s c p + 1)"
    by (auto simp: fun_eq_iff accepted_def s'_def rq_def)
  have "length (pending s' c q) = (if q = p then length (pending s c q) + 1 else length (pending s c q))" for q
    by (simp add: pend)
  then have "(\<Sum>q < MAX_PRIORITY. length (pending s' c q)) = (\<Sum>q < MAX_PRIORITY. length (pending s c q)) + 1"
    using queue_of_less by (simp only: sum_upd p_def)
  moreover have "unat (threadsPerCPU s c + 1) = unat (threadsPerCPU s c) + 1"
    using ok load_bound [OF ok] unat_u32_add [of "threadsPerCPU s c" 1] by (simp add: queues_ok_def c_def)
  moreover have "threadsPerCPU s' c = threadsPerCPU s c + 1" "rq_head (cpuRunqueues s' c) = rq_head rq"
    by (simp_all add: s'_def rq_def)
  moreover have "unat (threadsPerCPU s c) = (\<Sum>p < MAX_PRIORITY. length (pending s c p))"
    using ok by (simp add: queues_ok_def c_def)
  moreover have "rq_head rq q \<le> accepted s' c q \<and> accepted s' c q \<le> MAX_RUNQUEUE_SIZE \<and> NULL \<notin> set (pending s' c q)" for q
    using ht [of q] \<open>rq_tail rq p < MAX_RUNQUEUE_SIZE\<close> t(1) by (auto simp: pend acc) (auto simp: accepted_def rq_def)
  ultimately have "queues_ok s' c" by (simp add: queues_ok_def)
  then show ?thesis
    using run pend acc False by (auto simp: s'_def)
qed

text \<open>The queue that \<open>dequeueThread\<close> takes from.\<close>

definition best :: "(nat \<Rightarrow> ptr list) \<Rightarrow> nat option" where
  "best q = find (\<lambda>p. q p \<noteq> []) [0..<MAX_PRIORITY]"

lemma best_SomeD: "best q = Some p \<Longrightarrow> p < MAX_PRIORITY \<and> q p \<noteq> [] \<and> (\<forall>p' < p. q p' = [])"
  by (auto simp: best_def find_Some_iff)

lemma best_NoneD: "best q = None \<Longrightarrow> p < MAX_PRIORITY \<Longrightarrow> q p = []"
  by (auto simp: best_def find_None_iff)

lemma dequeueThread_run:
  assumes ok: "queues_ok s (unat cpu)" and cpu: "unat cpu < MAX_CPUS"
  defines "c \<equiv> unat cpu"
  shows "\<exists>t s'. dequeueThread cpu s = Some (t, s') \<and> queues_ok s' c \<and> accepted s' c = accepted s c
    \<and> (case best (pending s c) of None \<Rightarrow> t = NULL \<and> s' = s
       | Some p \<Rightarrow> t \<noteq> NULL \<and> pending s c p = t # pending s' c p \<and> pending s' c = (pending s c)(p := pending s' c p))
    \<and> (\<forall>c'. c' \<noteq> c \<longrightarrow> cpuRunqueues s' c' = cpuRunqueues s c' \<and> threadsPerCPU s' c' = threadsPerCPU s c')
    \<and> s\<lparr>cpuRunqueues := cpuRunqueues s', threadsPerCPU := threadsPerCPU s'\<rparr> = s'"
proof -
  define rq where "rq = cpuRunqueues s c"
  have ne: "pending s c p \<noteq> [] \<longleftrightarrow> rq_head rq p < rq_tail rq p" for p
    by (auto simp: pending_def rq_def Let_def)
  then have bst: "find (\<lambda>prio. rq_head rq prio < rq_tail rq prio) [0..<MAX_PRIORITY] = best (pending s c)"
    by (simp add: best_def)
  show ?thesis
  proof (cases "best (pending s c)")
    case None
    then show ?thesis using ok cpu bst by (simp add: dequeueThread_def c_def rq_def Let_def)
  next
    case (Some p)
    define s' where "s' = s\<lparr>cpuRunqueues := (cpuRunqueues s)(c := rq\<lparr>rq_head := (rq_head rq)(p := rq_head rq p + 1)\<rparr>),
      threadsPerCPU := (threadsPerCPU s)(c := threadsPerCPU s c - 1)\<rparr>"
    define t where "t = queues rq p (rq_head rq p)"
    have p: "p < MAX_PRIORITY" "rq_head rq p < rq_tail rq p" using best_SomeD [OF Some] ne by auto
    have run: "dequeueThread cpu s = Some (t, s')"
      using cpu Some bst by (simp add: dequeueThread_def c_def rq_def s'_def t_def Let_def)
    have hd: "pending s c p = t # pending s' c p"
      using p(2) by (simp add: pending_def s'_def t_def rq_def Let_def upt_conv_Cons)
    have rest: "pending s' c = (pending s c)(p := pending s' c p)"
      by (auto simp: fun_eq_iff pending_def s'_def rq_def Let_def)
    have ht: "rq_head rq q \<le> accepted s c q" "accepted s c q \<le> MAX_RUNQUEUE_SIZE" "NULL \<notin> set (pending s c q)" for q
      using ok by (simp_all add: queues_ok_def c_def rq_def)
    have acc: "accepted s' c = accepted s c" and head: "rq_head (cpuRunqueues s' c) = (rq_head rq)(p := rq_head rq p + 1)"
      and load: "threadsPerCPU s' c = threadsPerCPU s c - 1"
      by (auto simp: fun_eq_iff accepted_def s'_def rq_def)
    have "length (pending s c q) = (if q = p then length (pending s' c q) + 1 else length (pending s' c q))" for q
      using hd arg_cong [OF rest, of "\<lambda>f. length (f q)"] by auto
    then have "(\<Sum>q < MAX_PRIORITY. length (pending s c q)) = (\<Sum>q < MAX_PRIORITY. length (pending s' c q)) + 1"
      using p(1) by (simp only: sum_upd)
    moreover have "unat (threadsPerCPU s c) = (\<Sum>p < MAX_PRIORITY. length (pending s c p))"
      using ok by (simp add: queues_ok_def c_def)
    moreover from calculation have "threadsPerCPU s c \<noteq> 0" by auto
    ultimately have "unat (threadsPerCPU s' c) = (\<Sum>q < MAX_PRIORITY. length (pending s' c q))"
      by (simp add: load unat_minus_one)
    moreover have "rq_head (cpuRunqueues s' c) q \<le> accepted s' c q \<and> NULL \<notin> set (pending s' c q)" for q
      using ht [of q] p(2) hd by (subst rest) (auto simp: head acc accepted_def rq_def)
    ultimately have "queues_ok s' c" using ht(2) by (simp add: queues_ok_def acc)
    moreover have "t \<noteq> NULL" using ht(3) [of p] hd by auto
    ultimately show ?thesis
      using run hd rest acc Some by (auto simp: s'_def)
  qed
qed

section \<open>The order in which threads leave the queues\<close>

text \<open>\<open>n\<close> calls of \<open>deq\<close> and their results.\<close>

fun drain :: "('s \<Rightarrow> (ptr \<times> 's) option) \<Rightarrow> nat \<Rightarrow> 's \<Rightarrow> (ptr list \<times> 's) option" where
  "drain deq 0 s = Some ([], s)"
| "drain deq (Suc n) s = do { (t, s) \<leftarrow> deq s; (ts, s) \<leftarrow> drain deq n s; Some (t # ts, s) }"

text \<open>All threads of a CPU, by priority and then by age.\<close>

definition all_threads :: "(nat \<Rightarrow> ptr list) \<Rightarrow> ptr list" where
  "all_threads q = concat (map q [0..<MAX_PRIORITY])"

lemma all_threads_best:
  assumes "best q = Some p" and "q p = t # ts"
  shows "all_threads q = t # all_threads (q(p := ts))"
proof -
  have p: "p < MAX_PRIORITY" "\<forall>p' < p. q p' = []" using best_SomeD [OF assms(1)] by auto
  then have split: "[0..<MAX_PRIORITY] = [0..<p] @ p # [Suc p..<MAX_PRIORITY]"
    by (metis less_imp_le_nat upt_add_eq_append le_add_diff_inverse upt_conv_Cons zero_le)
  have "concat (map q [0..<p]) = []" "concat (map (q(p := ts)) [0..<p]) = []" using p(2) by simp_all
  moreover have "map (q(p := ts)) [Suc p..<MAX_PRIORITY] = map q [Suc p..<MAX_PRIORITY]" by simp
  ultimately show ?thesis
    by (simp only: all_threads_def split map_append concat_append list.map concat.simps fun_upd_same assms(2) append.simps)
qed

lemma all_threads_none: "best q = None \<Longrightarrow> all_threads q = []"
  by (simp add: all_threads_def best_NoneD)

text \<open>What a queue by priority promises to the code that takes threads from it.\<close>

locale ready_queues =
  fixes inv :: "'s \<Rightarrow> bool" and content :: "'s \<Rightarrow> nat \<Rightarrow> ptr list" and deq :: "'s \<Rightarrow> (ptr \<times> 's) option"
  assumes deq_run: "inv s \<Longrightarrow> \<exists>t s'. deq s = Some (t, s') \<and> inv s'
    \<and> (case best (content s) of None \<Rightarrow> t = NULL \<and> s' = s
       | Some p \<Rightarrow> t \<noteq> NULL \<and> content s p = t # content s' p \<and> content s' = (content s)(p := content s' p))"
begin

lemma deq_all:
  assumes "inv s"
  obtains t s' where "deq s = Some (t, s')" and "inv s'"
    and "all_threads (content s) = [] \<and> t = NULL \<and> s' = s
      \<or> all_threads (content s) = t # all_threads (content s')"
proof -
  obtain t s' where d: "deq s = Some (t, s')" "inv s'"
    and c: "case best (content s) of None \<Rightarrow> t = NULL \<and> s' = s
       | Some p \<Rightarrow> t \<noteq> NULL \<and> content s p = t # content s' p \<and> content s' = (content s)(p := content s' p)"
    using deq_run [OF assms] by blast
  show ?thesis
  proof (cases "best (content s)")
    case None
    then show ?thesis using c d by (auto intro!: that simp: all_threads_none)
  next
    case (Some p)
    then have "all_threads (content s) = t # all_threads (content s')"
      using c all_threads_best [of "content s" p t "content s' p"] by simp
    then show ?thesis using d by (auto intro!: that)
  qed
qed

lemma drain_run:
  "inv s \<Longrightarrow> \<exists>s'. drain deq n s = Some (take n (all_threads (content s))
      @ replicate (n - length (all_threads (content s))) NULL, s') \<and> inv s'
    \<and> all_threads (content s') = drop n (all_threads (content s))"
proof (induction n arbitrary: s)
  case (Suc n)
  from \<open>inv s\<close> obtain t s1 where d: "deq s = Some (t, s1)" "inv s1"
    and c: "all_threads (content s) = [] \<and> t = NULL \<and> s1 = s
      \<or> all_threads (content s) = t # all_threads (content s1)"
    by (rule deq_all)
  from Suc.IH [OF d(2)] c d(1) show ?case by auto
qed simp

end

interpretation cpu_queues: ready_queues "\<lambda>s. queues_ok s (unat cpu) \<and> unat cpu < MAX_CPUS"
    "\<lambda>s. pending s (unat cpu)" "dequeueThread cpu" for cpu
  by unfold_locales (use dequeueThread_run in blast)

text \<open>C12: repeated calls of \<open>dequeueThread\<close> return the waiting threads of the CPU, those of a better priority
  before the others and those of one priority in the order they were enqueued, each once, and then \<open>NULL\<close>;
  the number of threads kept for the CPU stays the number of waiting threads.\<close>

theorem dequeueThread_order:
  assumes "queues_ok s (unat cpu)" and "unat cpu < MAX_CPUS"
  defines "waiting \<equiv> all_threads (pending s (unat cpu))"
  shows "\<exists>s'. drain (dequeueThread cpu) n s = Some (take n waiting @ replicate (n - length waiting) NULL, s')
    \<and> queues_ok s' (unat cpu) \<and> all_threads (pending s' (unat cpu)) = drop n waiting"
  using cpu_queues.drain_run [of s cpu n] assms by auto

section \<open>What changes the queues\<close>

lemma sched_more:
  fixes s s' :: "'a sched_state_scheme"
  assumes "kstate.more s' = kstate.more s"
  shows "cpuRunqueues s' = cpuRunqueues s" and "threadsPerCPU s' = threadsPerCPU s"
    and "currentThread s' = currentThread s" and "descs s' = descs s" and "ncpus s' = ncpus s"
    and "ticksSinceLastSwitch s' = ticksSinceLastSwitch s"
  using assms by (cases s; cases s'; simp)+

text \<open>Creating processes does not touch the scheduler.\<close>

lemma basic_more:
  "kernel_kmalloc n s = Some (p, s') \<Longrightarrow> kstate.more s' = kstate.more s"
  "upd_proc q f s = Some s' \<Longrightarrow> kstate.more s' = kstate.more s"
  "upd_thread t g s = Some s' \<Longrightarrow> kstate.more s' = kstate.more s"
  by (auto simp: kernel_kmalloc_def upd_proc_def upd_thread_def bind_eq_Some_conv)

lemma alloc_more:
  "alloc_process s = Some (p, s') \<Longrightarrow> kstate.more s' = kstate.more s"
  "alloc_thread s = Some (p, s') \<Longrightarrow> kstate.more s' = kstate.more s"
  by (auto simp: alloc_process_def alloc_thread_def bind_eq_Some_conv dest: basic_more split: if_splits)

lemma link_more:
  "link_thread t s = Some s' \<Longrightarrow> kstate.more s' = kstate.more s"
  "insert_process apic p s = Some s' \<Longrightarrow> kstate.more s' = kstate.more s"
  "assign_pid p s = Some s' \<Longrightarrow> kstate.more s' = kstate.more s"
  by (auto simp: link_thread_def insert_process_def assign_pid_def bind_eq_Some_conv Let_def release_def getProcessID_def
      dest!: basic_more split: if_splits)

lemma createKernelThread_more:
  "createKernelThread junk p e s = Some (t, s') \<Longrightarrow> kstate.more s' = kstate.more s"
  unfolding createKernelThread_def Let_def
  by (auto simp: bind_eq_Some_conv getThreadID_def dest!: basic_more alloc_more link_more split: if_splits)

lemma initIdle_more:
  "createKernelProcess apic junk e s = Some (p, s') \<Longrightarrow> kstate.more s' = kstate.more s"
  "initIdle apic junk e s = Some (k, s') \<Longrightarrow> kstate.more s' = kstate.more s"
  by (auto simp: createKernelProcess_def initIdle_def bind_eq_Some_conv
      dest!: basic_more alloc_more link_more createKernelThread_more)

section \<open>A queue that is full\<close>

text \<open>Every operation only ever raises the number of accepted threads of a queue, up to 64.\<close>

definition only_up :: "'a sched_state_scheme \<Rightarrow> 'a sched_state_scheme \<Rightarrow> bool" where
  "only_up s s' \<longleftrightarrow> (\<forall>c p. accepted s c p \<le> accepted s' c p
     \<and> (accepted s c p \<le> MAX_RUNQUEUE_SIZE \<longrightarrow> accepted s' c p \<le> MAX_RUNQUEUE_SIZE))"

lemma only_up_refl [simp]: "only_up s s"
  by (simp add: only_up_def)

lemma only_up_trans: "only_up r s \<Longrightarrow> only_up s t \<Longrightarrow> only_up r t"
  unfolding only_up_def by (meson le_trans)

lemma only_up_same: "cpuRunqueues s' = cpuRunqueues s \<Longrightarrow> only_up s s'"
  by (simp add: only_up_def accepted_def)

lemma only_up_upd_thread: "upd_thread t f s = Some s' \<Longrightarrow> only_up s s'"
  by (intro only_up_same sched_more) (rule basic_more)

lemma only_up_enqueue: "enqueueThread t cpu s = Some s' \<Longrightarrow> only_up s s'"
  by (auto simp: enqueueThread_def bind_eq_Some_conv Let_def only_up_def accepted_def split: if_splits)

lemma only_up_dequeue: "dequeueThread cpu s = Some (t, s') \<Longrightarrow> only_up s s'"
  by (auto simp: dequeueThread_def Let_def only_up_def accepted_def split: if_splits option.splits)

lemma only_up_demote: "demotePriority t s = Some s' \<Longrightarrow> only_up s s'"
  by (auto simp: demotePriority_def bind_eq_Some_conv split: if_splits dest: only_up_upd_thread)

lemma only_up_fold:
  "fold_opt f xs s = Some s' \<Longrightarrow> (\<And>x s s'. f x s = Some s' \<Longrightarrow> only_up s s') \<Longrightarrow> only_up s s'"
proof (induction xs arbitrary: s)
  case (Cons x xs)
  then obtain s1 where "f x s = Some s1" "fold_opt f xs s1 = Some s'" by (auto simp: bind_eq_Some_conv)
  moreover from this(2) have "only_up s1 s'" using Cons.prems(2) by (rule Cons.IH)
  ultimately show ?case using Cons.prems(2) only_up_trans by blast
qed simp

lemma only_up_age: "ageThreads cpu s = Some s' \<Longrightarrow> only_up s s'"
  by (auto simp: ageThreads_def Let_def age_slot_def split: if_splits elim!: only_up_fold dest: only_up_upd_thread)

lemma only_up_list: "enqueue_list t s = Some s' \<Longrightarrow> only_up s s'"
proof (rule enqueue_list.raw_induct [where P = "\<lambda>t s s'. only_up s s'"])
  fix rec :: "ptr \<Rightarrow> 'a sched_state_scheme \<Rightarrow> 'a sched_state_scheme option" and t and s s' :: "'a sched_state_scheme"
  assume IH: "\<And>t s s'. rec t s = Some s' \<Longrightarrow> only_up s s'"
    and "(if t = NULL then Some s
      else do {
        th \<leftarrow> rd_thread s t;
        s \<leftarrow> (if t_state th = RUNNABLE then do {
                cpu \<leftarrow> leastLoadedCPU s;
                enqueueThread t cpu s
              } else Some s);
        th \<leftarrow> rd_thread s t;
        rec (t_next th) s
      }) = Some s'"
  then show "only_up s s'"
    by (auto simp: bind_eq_Some_conv split: if_splits dest!: IH only_up_enqueue intro: only_up_trans)
qed

lemma only_up_load: "enqueueRunnableThread s p = Some s' \<Longrightarrow> only_up s s'"
  by (auto simp: enqueueRunnableThread_def bind_eq_Some_conv dest: only_up_list)

lemma only_up_traversal:
  "inOrderTraversal ps f s x = Some s' \<Longrightarrow> (\<forall>s p s'. f s p = Some s' \<longrightarrow> only_up s s') \<longrightarrow> only_up s s'"
proof (rule inOrderTraversal.raw_induct [where xa = "(((ps, f), s), x)" and
    P = "\<lambda>ps f s x s'. (\<forall>s p s'. f s p = Some s' \<longrightarrow> only_up s s') \<longrightarrow> only_up s s'", unfolded prod.case])
  fix rec and ps :: "'a sched_state_scheme \<Rightarrow> pstate" and f x s s'
  assume IH: "\<And>ps f s x s'. rec ps f s x = Some s' \<Longrightarrow> (\<forall>s p s'. f s p = Some s' \<longrightarrow> only_up s s') \<longrightarrow> only_up s s'"
    and run: "(if x \<noteq> NIL (ps s) then do {
        n \<leftarrow> rd (ps s) x;
        s \<leftarrow> rec ps f s (left n);
        s \<leftarrow> f s x;
        n \<leftarrow> rd (ps s) x;
        rec ps f s (right n)
      } else Some s) = Some s'"
  show "(\<forall>s p s'. f s p = Some s' \<longrightarrow> only_up s s') \<longrightarrow> only_up s s'"
  proof
    assume f: "\<forall>s p s'. f s p = Some s' \<longrightarrow> only_up s s'"
    then have "only_up s s'" if "rec ps f s x = Some s'" for s x s' using IH that by blast
    moreover have "s' = s \<or> (\<exists>l r s1 s2. rec ps f s l = Some s1 \<and> f s1 x = Some s2 \<and> rec ps f s2 r = Some s')"
      using run by (auto simp: bind_eq_Some_conv split: if_splits)
    ultimately show "only_up s s'" using f only_up_refl only_up_trans by metis
  qed
qed

lemma only_up_fill: "fillRunqueuesFromBST s = Some s' \<Longrightarrow> only_up s s'"
  using only_up_load by (auto simp: fillRunqueuesFromBST_def dest!: only_up_traversal)

lemma only_up_more: "kstate.more s' = kstate.more s \<Longrightarrow> only_up s s'" for s :: "'a sched_state_scheme"
  by (intro only_up_same sched_more)

lemma only_up_requeue: "requeue_current cpu s = Some s' \<Longrightarrow> only_up s s'"
  by (auto simp: requeue_current_def Let_def bind_eq_Some_conv split: if_splits
      dest!: only_up_upd_thread only_up_demote only_up_enqueue intro: only_up_trans)

lemma only_up_dispatch: "dispatch cpu t s = Some (r, s') \<Longrightarrow> only_up s s'"
  by (auto simp: dispatch_def Let_def bind_eq_Some_conv only_up_def accepted_def dest!: only_up_upd_thread)

lemma only_up_schedule: "schedule apic junk e cpu s = Some (r, s') \<Longrightarrow> only_up s s'"
proof -
  assume "schedule apic junk e cpu s = Some (r, s')"
  then obtain k s1 pt s2 t s3 t' where "initIdle apic junk e s = Some (k, s1)"
      "requeue_current cpu (s1\<lparr>ptab := pt\<rparr>) = Some s2" "dequeueThread cpu s2 = Some (t, s3)"
      "dispatch cpu t' s3 = Some (r, s')"
    by (auto simp: schedule_def bind_eq_Some_conv split: if_splits)
  moreover have "only_up s1 (s1\<lparr>ptab := pt\<rparr>)" by (rule only_up_same) simp
  ultimately show ?thesis
    by (meson initIdle_more only_up_more only_up_requeue only_up_dequeue only_up_dispatch only_up_trans)
qed

text \<open>Everything that can happen to the queues once the system runs.\<close>

inductive sched_step :: "sched_state \<Rightarrow> sched_state \<Rightarrow> bool" where
  enqueue: "enqueueThread t cpu s = Some s' \<Longrightarrow> sched_step s s'"
| load: "enqueueRunnableThread s p = Some s' \<Longrightarrow> sched_step s s'"
| fill: "fillRunqueuesFromBST s = Some s' \<Longrightarrow> sched_step s s'"
| age: "ageThreads cpu s = Some s' \<Longrightarrow> sched_step s s'"
| switch: "schedule apic junk e cpu s = Some (r, s') \<Longrightarrow> sched_step s s'"
| create: "createKernelProcess apic junk e s = Some (p, s') \<Longrightarrow> sched_step s s'"

lemma only_up_step: "sched_step s s' \<Longrightarrow> only_up s s'"
  by (induction rule: sched_step.induct)
    (auto intro: only_up_enqueue only_up_load only_up_fill only_up_age only_up_schedule only_up_more initIdle_more)

lemma only_up_steps: "sched_step\<^sup>*\<^sup>* s s' \<Longrightarrow> only_up s s'"
  by (induction rule: rtranclp_induct) (auto intro: only_up_trans only_up_step)

text \<open>C30: a queue that has accepted 64 threads since the start is full for ever: whatever happens to the
  scheduler afterwards, however many of the threads are taken out again, adding another thread to it does
  nothing. No queue ever accepts more than 64 threads.\<close>

theorem full_queue_rejects_forever:
  assumes "sched_step\<^sup>*\<^sup>* s s'" and "accepted s (unat cpu) p = MAX_RUNQUEUE_SIZE" and "unat cpu < MAX_CPUS"
    and "rd_thread s' t = Some th" and "queue_of (dynamicPriority th) = p"
  shows "enqueueThread t cpu s' = Some s' \<and> accepted s' (unat cpu) p = MAX_RUNQUEUE_SIZE"
proof -
  have full: "accepted s' (unat cpu) p = MAX_RUNQUEUE_SIZE"
    using only_up_steps [OF assms(1)] assms(2) unfolding only_up_def by (metis order.antisym order.refl)
  then show ?thesis
    using assms(3-5) by (simp add: enqueueThread_def accepted_def Let_def)
qed

section \<open>The steps of \<open>schedule\<close>\<close>

lemma NULL_not_free: "heap_ready h n \<Longrightarrow> NULL \<notin> free_addrs h"
  using null_not_free by (simp add: NULL_def)

text \<open>The first step: a new idle process, found again in the process table.\<close>

lemma new_idle_run:
  fixes s :: "'a kstate_scheme"
  assumes ready: "kernel_ready s xs (n + 4)" and new: "KProcessID (ptab s) + 1 \<notin> snd ` set xs"
  obtains p idle r stack own pt k and s1 :: "'a kstate_scheme" where
    "initIdle apic junk e s = Some (k, s1)" and "rbSearch apic (ptab s1) k = Some (p, pt)"
    and "rd pt p = Some own" and "head_thread own = idle"
    and "kernel_ready (s1\<lparr>ptab := pt\<rparr>) (add_process p (KProcessID (ptab s) + 1) xs) n"
    and "{idle, r} \<subseteq> free_addrs (kheap s) - free_addrs (kheap s1)" and "free_addrs (kheap s1) \<subseteq> free_addrs (kheap s)"
    and "idle \<noteq> NULL" and "r \<noteq> NULL"
    and "threads s1 = (threads s)(idle \<mapsto> kernel_thread (threadID (ptab s) + 1) p r stack)"
    and "regstore s1 = (regstore s)(r \<mapsto> start_regs 0x10 0x08 e (stack + 4092) (kernel_directory (mmu (kheap s))) junk)"
    and "kstate.more s1 = kstate.more s"
proof -
  define k where "k = KProcessID (ptab s) + 1"
  obtain p idle r stack s1 own where c: "createKernelProcess apic junk e s = Some (p, s1)"
      "kernel_ready s1 (add_process p k xs) n" "procs (ptab s1) p = Some own" "head_thread own = idle" "pid own = k"
      "{p, idle, r, stack} \<subseteq> free_addrs (kheap s)"
      "free_addrs (kheap s1) = free_addrs (kheap s) - {p, idle, r, stack}"
      "threads s1 = (threads s)(idle \<mapsto> kernel_thread (threadID (ptab s) + 1) p r stack)"
      "regstore s1 = (regstore s)(r \<mapsto> start_regs 0x10 0x08 e (stack + 4092) (pageDirectory own) junk)"
      "pageDirectory own = kernel_directory (mmu (kheap s))" "kstate.more s1 = kstate.more s"
    using createKernelProcess_run [OF ready, of apic junk e] unfolding k_def [symmetric]
    by (elim exE conjE) (rule that)
  have "NULL \<notin> free_addrs (kheap s)" using ready by (auto simp: kernel_ready_def dest: NULL_not_free)
  then have nn: "p \<noteq> NULL" "idle \<noteq> NULL" "r \<noteq> NULL" using c(6) by auto
  have init: "initIdle apic junk e s = Some (k, s1)"
    using c(1,3,5) nn(1) by (simp add: initIdle_def rd_def)
  define pt where "pt = (ptab s1)\<lparr>rbTreeLock := (rbTreeLock (ptab s1))\<lparr>lock_cpu := 0\<rparr>, iflag := True\<rparr>"
  have tab: "table (ptab s1) (add_process p k xs)" "locked (rbTreeLock (ptab s1)) = 0"
    using c(2) by (auto simp: kernel_ready_def)
  have "(q, k) \<in> set (add_process p k xs) \<longleftrightarrow> q = p" for q
    using new by (force simp: k_def)
  then have search: "rbSearch apic (ptab s1) k = Some (p, pt)"
    using rbSearch_run [OF tab, of apic k] by (auto simp: pt_def image_iff)
  have "table pt (add_process p k xs)"
    using tab(1) by (rule table_cong [rotated -1]) (simp_all add: pt_def)
  then have "kernel_ready (s1\<lparr>ptab := pt\<rparr>) (add_process p k xs) n"
    using c(2) tab(2) by (simp add: kernel_ready_def pt_def)
  moreover have "rd pt p = Some own" using c(3) nn(1) by (simp add: rd_def pt_def)
  ultimately show ?thesis
    using c(4,6-11) nn init search by (intro that [of k s1 p pt own idle r stack]) (simp_all add: k_def)
qed

text \<open>The second step: the thread that was running.\<close>

definition demoted :: "thread \<Rightarrow> thread" where
  "demoted th = th\<lparr>t_state := RUNNABLE, dynamicPriority :=
     (if unat (dynamicPriority th) < MAX_PRIORITY - 1 then dynamicPriority th + 1 else dynamicPriority th)\<rparr>"

text \<open>The waiting threads of the CPU after the thread that was running has gone back to its queue, if it could.\<close>

definition waiting :: "'a sched_state_scheme \<Rightarrow> nat \<Rightarrow> nat \<Rightarrow> ptr list" where
  "waiting s c = (let cur = currentThread s c in
     case (if cur = NULL then None else threads s cur) of None \<Rightarrow> pending s c
     | Some th \<Rightarrow> (let p = queue_of (dynamicPriority (demoted th)) in
         if t_state th = RUNNING \<and> accepted s c p < MAX_RUNQUEUE_SIZE
         then (pending s c)(p := pending s c p @ [cur]) else pending s c))"

definition demote_current :: "'a sched_state_scheme \<Rightarrow> nat \<Rightarrow> ptr \<Rightarrow> thread option" where
  "demote_current s c = (let cur = currentThread s c in (threads s)(cur :=
     (case threads s cur of Some th \<Rightarrow> if cur \<noteq> NULL \<and> t_state th = RUNNING then Some (demoted th) else Some th
      | None \<Rightarrow> None)))"

lemma requeue_current_run:
  assumes ok: "queues_ok s (unat cpu)" and cpu: "unat cpu < MAX_CPUS"
    and cur: "currentThread s (unat cpu) = NULL \<or> threads s (currentThread s (unat cpu)) \<noteq> None"
  shows "\<exists>s'. requeue_current cpu s = Some s' \<and> queues_ok s' (unat cpu) \<and> pending s' (unat cpu) = waiting s (unat cpu)
    \<and> s\<lparr>threads := demote_current s (unat cpu), cpuRunqueues := cpuRunqueues s', threadsPerCPU := threadsPerCPU s'\<rparr> = s'"
proof (cases "\<exists>th. currentThread s (unat cpu) \<noteq> NULL \<and> threads s (currentThread s (unat cpu)) = Some th \<and> t_state th = RUNNING")
  case False
  then have "demote_current s (unat cpu) = threads s"
    by (auto simp: demote_current_def Let_def split: option.split)
  then show ?thesis
    using False ok cur
    by (auto simp: requeue_current_def waiting_def rd_thread_def Let_def split: option.split)
next
  case True
  define c where "c = unat cpu"
  define t where "t = currentThread s c"
  obtain th where th: "t \<noteq> NULL" "threads s t = Some th" "t_state th = RUNNING"
    using True by (auto simp: t_def c_def)
  define s1 where "s1 = s\<lparr>threads := (threads s)(t \<mapsto> demoted th)\<rparr>"
  have run: "requeue_current cpu s = enqueueThread t cpu s1"
    using th by (simp add: requeue_current_def t_def [symmetric] c_def [symmetric] rd_thread_def upd_thread_def
        demotePriority_def s1_def demoted_def)
  have same: "pending s1 = pending s" "accepted s1 = accepted s"
    by (simp_all add: fun_eq_iff pending_def accepted_def s1_def)
  have "cpuRunqueues s1 = cpuRunqueues s" "threadsPerCPU s1 = threadsPerCPU s" by (simp_all add: s1_def)
  then have "queues_ok s1 c" using ok by (simp add: queues_ok_def same c_def)
  then obtain s' where s': "enqueueThread t cpu s1 = Some s'" "queues_ok s' c"
      "if accepted s c (queue_of (dynamicPriority (demoted th))) = MAX_RUNQUEUE_SIZE then s' = s1
       else pending s' c = (pending s c)(queue_of (dynamicPriority (demoted th)) :=
              pending s c (queue_of (dynamicPriority (demoted th))) @ [t])"
      "s1\<lparr>cpuRunqueues := cpuRunqueues s', threadsPerCPU := threadsPerCPU s'\<rparr> = s'"
    using enqueueThread_run [of s1 cpu t "demoted th"] cpu th(1) unfolding same c_def by (auto simp: s1_def)
  have "accepted s c p \<le> MAX_RUNQUEUE_SIZE" for p using ok by (simp add: queues_ok_def c_def)
  then have "pending s' c = waiting s c"
    using s'(3) th by (auto simp: waiting_def t_def [symmetric] Let_def same order.order_iff_strict split: if_splits)
  moreover have "demote_current s c = (threads s)(t \<mapsto> demoted th)"
    using th by (simp add: demote_current_def t_def [symmetric])
  ultimately show ?thesis
    using run s'(1,2,4) unfolding c_def by (auto simp: s1_def)
qed

text \<open>The last step: the switch.\<close>

lemma dispatch_run:
  assumes "unat cpu < MAX_CPUS" and "t \<noteq> NULL" and "threads s t = Some th" and "t_regs th \<noteq> NULL"
    and "regstore s (t_regs th) = Some r"
  shows "\<exists>s'. dispatch cpu t s = Some (r, s') \<and> threads s' = (threads s)(t \<mapsto> th\<lparr>waitTicks := 0, t_state := RUNNING\<rparr>)
    \<and> currentThread s' = (currentThread s)(unat cpu := t) \<and> ticksSinceLastSwitch s' (unat cpu) = 0
    \<and> esp0 (tss (descs s') (unat cpu)) = kstack_esp0 th \<and> regstore s' = regstore s \<and> ptab s' = ptab s
    \<and> kheap s' = kheap s \<and> cpuRunqueues s' = cpuRunqueues s \<and> threadsPerCPU s' = threadsPerCPU s"
  using assms by (simp add: dispatch_def upd_thread_def rd_thread_def updateTssEsp0_def switchTask_def)

section \<open>\<open>schedule\<close>\<close>

text \<open>A thread that can be switched to: it and its registers exist, outside of the free memory.\<close>

definition dispatchable :: "'a sched_state_scheme \<Rightarrow> ptr \<Rightarrow> bool" where
  "dispatchable s t \<longleftrightarrow> t \<noteq> NULL \<and> t \<notin> free_addrs (kheap s) \<and> (\<exists>th. threads s t = Some th
     \<and> t_regs th \<noteq> NULL \<and> t_regs th \<notin> free_addrs (kheap s) \<and> regstore s (t_regs th) \<noteq> None)"

lemma demote_current_other:
  "t \<noteq> currentThread s c \<Longrightarrow> demote_current s c t = threads s t"
  by (simp add: demote_current_def Let_def)

lemma demote_current_regs:
  "threads s t = Some th \<Longrightarrow> \<exists>th'. demote_current s c t = Some th' \<and> t_regs th' = t_regs th"
  by (cases "t = currentThread s c") (auto simp: demote_current_def demoted_def Let_def split: option.split)

lemma pending_cong: "cpuRunqueues s' = cpuRunqueues s \<Longrightarrow> pending s' = pending s \<and> accepted s' = accepted s"
  by (simp add: fun_eq_iff pending_def accepted_def)

lemma queues_ok_cong:
  "cpuRunqueues s' = cpuRunqueues s \<Longrightarrow> threadsPerCPU s' = threadsPerCPU s \<Longrightarrow> queues_ok s' c = queues_ok s c"
  using pending_cong [of s' s] by (simp add: queues_ok_def)

lemma waiting_cong:
  assumes "cpuRunqueues s' = cpuRunqueues s" and "currentThread s' = currentThread s"
    and "currentThread s c = NULL \<or> threads s' (currentThread s c) = threads s (currentThread s c)"
  shows "waiting s' c = waiting s c"
  using assms pending_cong [OF assms(1)] by (auto simp: waiting_def Let_def split: option.split)

text \<open>Everything of \<open>schedule\<close> up to the switch.\<close>

lemma schedule_before_dispatch:
  fixes s :: "'a sched_state_scheme"
  assumes ready: "kernel_ready s xs (n + 4)" and new: "KProcessID (ptab s) + 1 \<notin> snd ` set xs"
    and ok: "queues_ok s (unat cpu)" and cpu: "unat cpu < MAX_CPUS"
    and cur: "currentThread s (unat cpu) = NULL \<or> dispatchable s (currentThread s (unat cpu))"
  obtains t idle p r stack and s' :: "'a sched_state_scheme" where
    "schedule apic junk e cpu s = dispatch cpu (if t = NULL then idle else t) s'"
    and "kernel_ready s' (add_process p (KProcessID (ptab s) + 1) xs) n" and "queues_ok s' (unat cpu)"
    and "{idle, r} \<subseteq> free_addrs (kheap s)" and "idle \<noteq> NULL" and "r \<noteq> NULL"
    and "all_threads (pending s' (unat cpu)) = tl (all_threads (waiting s (unat cpu)))"
    and "t = (case all_threads (waiting s (unat cpu)) of [] \<Rightarrow> NULL | t # _ \<Rightarrow> t)"
    and "threads s' = (demote_current s (unat cpu))(idle \<mapsto> kernel_thread (threadID (ptab s) + 1) p r stack)"
    and "regstore s' = (regstore s)(r \<mapsto> start_regs 0x10 0x08 e (stack + 4092) (kernel_directory (mmu (kheap s))) junk)"
    and "currentThread s' = currentThread s"
proof -
  define c where "c = unat cpu"
  obtain p idle r stack own pt k s1 where i: "initIdle apic junk e s = Some (k, s1)" "rbSearch apic (ptab s1) k = Some (p, pt)"
    "rd pt p = Some own" "head_thread own = idle"
    "kernel_ready (s1\<lparr>ptab := pt\<rparr>) (add_process p (KProcessID (ptab s) + 1) xs) n"
    "{idle, r} \<subseteq> free_addrs (kheap s) - free_addrs (kheap s1)" "free_addrs (kheap s1) \<subseteq> free_addrs (kheap s)"
    "idle \<noteq> NULL" "r \<noteq> NULL"
    "threads s1 = (threads s)(idle \<mapsto> kernel_thread (threadID (ptab s) + 1) p r stack)"
    "regstore s1 = (regstore s)(r \<mapsto> start_regs 0x10 0x08 e (stack + 4092) (kernel_directory (mmu (kheap s))) junk)"
    "kstate.more s1 = kstate.more s"
    using ready new by (rule new_idle_run)
  define s2 where "s2 = s1\<lparr>ptab := pt\<rparr>"
  have s2: "cpuRunqueues s2 = cpuRunqueues s" "threadsPerCPU s2 = threadsPerCPU s" "currentThread s2 = currentThread s"
      "threads s2 = threads s1" "regstore s2 = regstore s1" "ptab s2 = pt" "kheap s2 = kheap s1"
    using sched_more [OF i(12)] by (simp_all add: s2_def)
  have apart: "currentThread s c \<noteq> idle" using cur i(6,8) by (auto simp: dispatchable_def c_def)
  have w: "waiting s2 c = waiting s c" and ok2: "queues_ok s2 c"
    using waiting_cong [OF s2(1,3), of c] queues_ok_cong [OF s2(1,2), of c] ok apart
    by (auto simp: s2(4) i(10) c_def)
  have dem: "demote_current s2 c = (demote_current s c)(idle \<mapsto> kernel_thread (threadID (ptab s) + 1) p r stack)"
    using apart by (auto simp: demote_current_def s2(3,4) i(10) Let_def fun_eq_iff)
  have "currentThread s2 c = NULL \<or> threads s2 (currentThread s2 c) \<noteq> None"
    using cur apart by (auto simp: s2(3,4) i(10) dispatchable_def c_def)
  then obtain s3 where s3: "requeue_current cpu s2 = Some s3" "queues_ok s3 c" "pending s3 c = waiting s2 c"
      "s2\<lparr>threads := demote_current s2 c, cpuRunqueues := cpuRunqueues s3, threadsPerCPU := threadsPerCPU s3\<rparr> = s3"
    using requeue_current_run [of s2 cpu] ok2 cpu by (auto simp: c_def)
  obtain t s4 where s4: "dequeueThread cpu s3 = Some (t, s4)" "queues_ok s4 c"
      "all_threads (pending s3 c) = [] \<and> t = NULL \<and> s4 = s3 \<or> all_threads (pending s3 c) = t # all_threads (pending s4 c)"
    using cpu_queues.deq_all [of s3 cpu] s3(2) cpu unfolding c_def by blast
  have "s3\<lparr>cpuRunqueues := cpuRunqueues s4, threadsPerCPU := threadsPerCPU s4\<rparr> = s4"
    using dequeueThread_run [of s3 cpu] s3(2) s4(1) cpu by (auto simp: c_def)
  then have "s4 = (s2\<lparr>threads := demote_current s2 c, cpuRunqueues := cpuRunqueues s3, threadsPerCPU := threadsPerCPU s3\<rparr>)
      \<lparr>cpuRunqueues := cpuRunqueues s4, threadsPerCPU := threadsPerCPU s4\<rparr>"
    by (simp only: s3(4))
  then obtain q l where s4_eq: "s4 = s2\<lparr>threads := demote_current s2 c, cpuRunqueues := q, threadsPerCPU := l\<rparr>"
    by simp
  have run: "schedule apic junk e cpu s = dispatch cpu (if t = NULL then idle else t) s4"
    using i(1-4) s3(1) s4(1) s4_eq by (simp add: schedule_def s2_def)
  have out: "t = (case all_threads (waiting s c) of [] \<Rightarrow> NULL | t # _ \<Rightarrow> t)"
      "all_threads (pending s4 c) = tl (all_threads (waiting s c))"
    using s4(3) by (auto simp: s3(3) w)
  have "kernel_ready s4 (add_process p (KProcessID (ptab s) + 1) xs) n"
    using i(5) by (simp add: kernel_ready_def s4_eq s2_def)
  then show ?thesis
    using run out s4(2) i(6-9,11) s2(3,5) dem
    by (intro that [of t idle s4 p r stack]) (auto simp: s4_eq c_def)
qed

lemma schedule_run:
  assumes "kernel_ready s xs (n + 4)" and "KProcessID (ptab s) + 1 \<notin> snd ` set xs"
    and "queues_ok s (unat cpu)" and cpu: "unat cpu < MAX_CPUS"
    and cur: "currentThread s (unat cpu) = NULL \<or> dispatchable s (currentThread s (unat cpu))"
    and wait: "\<forall>t \<in> set (all_threads (waiting s (unat cpu))). dispatchable s t"
  shows "\<exists>nxt th r s'. schedule apic junk e cpu s = Some (r, s')
    \<and> (case all_threads (waiting s (unat cpu)) of [] \<Rightarrow> nxt \<in> free_addrs (kheap s) | t # _ \<Rightarrow> nxt = t \<and> demote_current s (unat cpu) t = Some th)
    \<and> all_threads (pending s' (unat cpu)) = tl (all_threads (waiting s (unat cpu))) \<and> queues_ok s' (unat cpu)
    \<and> currentThread s' = (currentThread s)(unat cpu := nxt) \<and> ticksSinceLastSwitch s' (unat cpu) = 0
    \<and> threads s' nxt = Some (th\<lparr>waitTicks := 0, t_state := RUNNING\<rparr>)
    \<and> esp0 (tss (descs s') (unat cpu)) = kstack_esp0 th \<and> regstore s' (t_regs th) = Some r
    \<and> (\<forall>q. q \<notin> free_addrs (kheap s) \<longrightarrow> regstore s' q = regstore s q)
    \<and> (\<forall>q. q \<notin> insert nxt (free_addrs (kheap s)) \<longrightarrow> threads s' q = demote_current s (unat cpu) q)
    \<and> (\<exists>p. kernel_ready s' (add_process p (KProcessID (ptab s) + 1) xs) n)"
proof -
  define c where "c = unat cpu"
  obtain t idle p r stack s1 where run: "schedule apic junk e cpu s = dispatch cpu (if t = NULL then idle else t) s1"
    and s1: "kernel_ready s1 (add_process p (KProcessID (ptab s) + 1) xs) n" "queues_ok s1 c"
    and new: "{idle, r} \<subseteq> free_addrs (kheap s)" "idle \<noteq> NULL" "r \<noteq> NULL"
    and rest: "all_threads (pending s1 c) = tl (all_threads (waiting s c))"
    and t: "t = (case all_threads (waiting s c) of [] \<Rightarrow> NULL | t # _ \<Rightarrow> t)"
    and threads: "threads s1 = (demote_current s c)(idle \<mapsto> kernel_thread (threadID (ptab s) + 1) p r stack)"
    and regs: "regstore s1 = (regstore s)(r \<mapsto> start_regs 0x10 0x08 e (stack + 4092) (kernel_directory (mmu (kheap s))) junk)"
    and cur1: "currentThread s1 = currentThread s"
    using assms(1-5) unfolding c_def by (rule schedule_before_dispatch)
  define nxt where "nxt = (if t = NULL then idle else t)"
  have "\<exists>th rg. nxt \<noteq> NULL \<and> threads s1 nxt = Some th \<and> t_regs th \<noteq> NULL \<and> regstore s1 (t_regs th) = Some rg
    \<and> (case all_threads (waiting s c) of [] \<Rightarrow> nxt \<in> free_addrs (kheap s) | t # _ \<Rightarrow> nxt = t \<and> demote_current s c t = Some th)"
  proof (cases "all_threads (waiting s c)")
    case Nil
    then show ?thesis using t new by (simp add: nxt_def threads regs kernel_thread_def)
  next
    case (Cons u us)
    then have "dispatchable s u" and nxt: "nxt = u" using wait t by (auto simp: c_def nxt_def dispatchable_def)
    then obtain th rg where u: "u \<noteq> NULL" "u \<noteq> idle" "threads s u = Some th" "t_regs th \<noteq> NULL" "t_regs th \<noteq> r"
        "regstore s (t_regs th) = Some rg"
      using new(1) by (auto simp: dispatchable_def)
    obtain th' where th': "demote_current s c u = Some th'" "t_regs th' = t_regs th"
      using demote_current_regs [OF u(3)] by blast
    show ?thesis
      by (intro exI [of _ th'] exI [of _ rg]) (use u th' Cons in \<open>simp add: nxt threads regs\<close>)
  qed
  then obtain th rg where th: "nxt \<noteq> NULL" "threads s1 nxt = Some th" "t_regs th \<noteq> NULL" "regstore s1 (t_regs th) = Some rg"
    and first: "case all_threads (waiting s c) of [] \<Rightarrow> nxt \<in> free_addrs (kheap s) | t # _ \<Rightarrow> nxt = t \<and> demote_current s c t = Some th"
    by blast
  obtain s' where s': "dispatch cpu nxt s1 = Some (rg, s')" "threads s' = (threads s1)(nxt \<mapsto> th\<lparr>waitTicks := 0, t_state := RUNNING\<rparr>)"
      "currentThread s' = (currentThread s1)(c := nxt)" "ticksSinceLastSwitch s' c = 0"
      "esp0 (tss (descs s') c) = kstack_esp0 th" "regstore s' = regstore s1" "ptab s' = ptab s1"
      "kheap s' = kheap s1" "cpuRunqueues s' = cpuRunqueues s1" "threadsPerCPU s' = threadsPerCPU s1"
    using dispatch_run [OF cpu th] unfolding c_def [symmetric] by (elim exE conjE) (rule that)
  have "queues_ok s' c" "all_threads (pending s' c) = tl (all_threads (waiting s c))"
    using queues_ok_cong [OF s'(9,10)] pending_cong [OF s'(9)] s1(2) rest by simp_all
  moreover have "kernel_ready s' (add_process p (KProcessID (ptab s) + 1) xs) n"
    using s1(1) by (simp add: kernel_ready_def s'(7,8))
  moreover have "\<forall>q. q \<notin> free_addrs (kheap s) \<longrightarrow> regstore s' q = regstore s q"
      "\<forall>q. q \<notin> insert nxt (free_addrs (kheap s)) \<longrightarrow> threads s' q = demote_current s c q"
    using new(1) by (auto simp: s'(2,6) threads regs)
  moreover have "schedule apic junk e cpu s = Some (rg, s')" using run s'(1) by (simp only: nxt_def)
  ultimately show ?thesis
    using s'(2-6) th(4) first unfolding c_def [symmetric]
    by (intro exI [of _ nxt] exI [of _ th] exI [of _ rg] exI [of _ s'] exI [of _ p] conjI)
      (simp_all add: cur1)
qed

text \<open>C11: \<open>schedule\<close> puts the running thread back into a queue at the next lower priority, when that queue still
  accepts threads, and switches to the first of the waiting threads of the best priority, or to a new idle
  thread when none waits. The chosen thread becomes the running one, its kernel stack goes into the task
  state segment of the CPU and its registers are loaded. The registers that are loaded are the ones that
  were stored when the thread was created: no register set that existed before changes, so what the
  interrupted thread was doing is not kept.\<close>

theorem schedule_correct:
  assumes "kernel_ready s xs (n + 4)" and "KProcessID (ptab s) + 1 \<notin> snd ` set xs"
    and "queues_ok s (unat cpu)" and cpu: "unat cpu < MAX_CPUS"
    and cur: "currentThread s (unat cpu) = NULL \<or> dispatchable s (currentThread s (unat cpu))"
    and wait: "\<forall>t \<in> set (all_threads (waiting s (unat cpu))). dispatchable s t"
  shows "\<exists>nxt th r s'. schedule apic junk e cpu s = Some (r, s')
    \<and> (case all_threads (waiting s (unat cpu)) of [] \<Rightarrow> nxt \<in> free_addrs (kheap s) | t # _ \<Rightarrow> nxt = t \<and> demote_current s (unat cpu) t = Some th)
    \<and> all_threads (pending s' (unat cpu)) = tl (all_threads (waiting s (unat cpu))) \<and> queues_ok s' (unat cpu)
    \<and> currentThread s' = (currentThread s)(unat cpu := nxt) \<and> ticksSinceLastSwitch s' (unat cpu) = 0
    \<and> threads s' nxt = Some (th\<lparr>waitTicks := 0, t_state := RUNNING\<rparr>)
    \<and> esp0 (tss (descs s') (unat cpu)) = kstack_esp0 th \<and> regstore s' (t_regs th) = Some r
    \<and> (\<forall>q. q \<notin> free_addrs (kheap s) \<longrightarrow> regstore s' q = regstore s q)
    \<and> (\<forall>q. q \<notin> insert nxt (free_addrs (kheap s)) \<longrightarrow> threads s' q = demote_current s (unat cpu) q)
    \<and> (\<exists>p. kernel_ready s' (add_process p (KProcessID (ptab s) + 1) xs) n)"
  using assms by (rule schedule_run)

section \<open>Aging\<close>

lemma fold_age:
  assumes "distinct ts" and "\<forall>t \<in> set ts. t \<noteq> NULL \<and> threads s t \<noteq> None"
  shows "fold_opt (\<lambda>t. upd_thread t age) ts s
    = Some (s\<lparr>threads := (\<lambda>t. if t \<in> set ts then map_option age (threads s t) else threads s t)\<rparr>)"
  using assms
proof (induction ts arbitrary: s)
  case (Cons t ts)
  define s1 where "s1 = s\<lparr>threads := (threads s)(t := map_option age (threads s t))\<rparr>"
  have "upd_thread t age s = Some s1"
    using Cons.prems(2) by (auto simp: upd_thread_def rd_thread_def s1_def)
  moreover have "fold_opt (\<lambda>t. upd_thread t age) ts s1
    = Some (s1\<lparr>threads := (\<lambda>t. if t \<in> set ts then map_option age (threads s1 t) else threads s1 t)\<rparr>)"
    using Cons.prems by (intro Cons.IH) (auto simp: s1_def)
  moreover have "(\<lambda>u. if u \<in> set ts then map_option age (threads s1 u) else threads s1 u)
      = (\<lambda>u. if u \<in> set (t # ts) then map_option age (threads s u) else threads s u)"
    using Cons.prems(1) by (auto simp: s1_def)
  ultimately show ?case by (simp add: s1_def)
qed simp

lemma fold_age_slot:
  "fold_opt (age_slot c p) is s = fold_opt (\<lambda>t. upd_thread t age) (map (queues (cpuRunqueues s c) p) is) s"
proof (induction "is" arbitrary: s)
  case (Cons i "is")
  have "cpuRunqueues s' = cpuRunqueues s" if "upd_thread t age s = Some s'" for t s'
    using that by (intro sched_more) (rule basic_more)
  then show ?case
    using Cons by (auto simp: age_slot_def intro!: Option.bind_cong)
qed simp

text \<open>The threads that \<open>ageThreads\<close> looks at: those of all queues but the first.\<close>

definition aging :: "'a sched_state_scheme \<Rightarrow> nat \<Rightarrow> ptr list" where
  "aging s c = concat (map (pending s c) (rev [1..<MAX_PRIORITY]))"

lemma fold_age_queues:
  fixes s :: "'a sched_state_scheme"
  shows "fold_opt (\<lambda>p. fold_opt (age_slot c p) [rq_head (cpuRunqueues s c) p..<rq_tail (cpuRunqueues s c) p]) ps s
    = fold_opt (\<lambda>t. upd_thread t age) (concat (map (pending s c) ps)) s"
proof -
  have "fold_opt (\<lambda>p. fold_opt (age_slot c p) [rq_head (cpuRunqueues s c) p..<rq_tail (cpuRunqueues s c) p]) ps u
    = fold_opt (\<lambda>t. upd_thread t age) (concat (map (pending s c) ps)) u"
    if "cpuRunqueues u = cpuRunqueues s" for u
    using that
  proof (induction ps arbitrary: u)
    case (Cons p ps)
    have same: "cpuRunqueues u' = cpuRunqueues u" if "fold_opt (\<lambda>t. upd_thread t age) ts u = Some u'" for ts u'
      using that
    proof (induction ts arbitrary: u)
      case (Cons t ts)
      then obtain u1 where u1: "upd_thread t age u = Some u1" "fold_opt (\<lambda>t. upd_thread t age) ts u1 = Some u'"
        by (auto simp: bind_eq_Some_conv)
      then have "cpuRunqueues u1 = cpuRunqueues u" by (intro sched_more) (rule basic_more)
      then show ?case using Cons.IH [OF u1(2)] by simp
    qed simp
    show ?case
      using Cons same by (auto simp: fold_age_slot fold_opt_append pending_def Let_def intro!: Option.bind_cong)
  qed simp
  from this [OF refl] show ?thesis .
qed

lemma ageThreads_run:
  assumes "unat cpu < MAX_CPUS" and "distinct (aging s (unat cpu))"
    and "\<forall>t \<in> set (aging s (unat cpu)). t \<noteq> NULL \<and> threads s t \<noteq> None"
  shows "ageThreads cpu s = Some (s\<lparr>threads :=
    (\<lambda>t. if t \<in> set (aging s (unat cpu)) then map_option age (threads s t) else threads s t)\<rparr>)"
  using assms(1) fold_age [OF assms(2,3)] fold_age_queues [of "unat cpu" s "rev [1..<MAX_PRIORITY]"]
  by (simp add: ageThreads_def Let_def aging_def)

text \<open>\<open>ageThreads\<close> ages every waiting thread of the queues of priority 1 to 4 once and leaves all threads
  where they are. A thread that is raised while its priority is already 0 gets the priority
  \<open>2\<^sup>3\<^sup>2 - 1\<close>, and with it the last queue the next time it is enqueued.\<close>

theorem ageThreads_ages:
  assumes "unat cpu < MAX_CPUS" and "distinct (aging s (unat cpu))"
    and "\<forall>t \<in> set (aging s (unat cpu)). t \<noteq> NULL \<and> threads s t \<noteq> None"
  shows "\<exists>s'. ageThreads cpu s = Some s' \<and> pending s' = pending s
    \<and> threads s' = (\<lambda>t. if t \<in> set (aging s (unat cpu)) then map_option age (threads s t) else threads s t)
    \<and> (\<forall>t \<in> set (aging s (unat cpu)). \<forall>th. threads s t = Some th \<and> t_state th = RUNNABLE
        \<and> AGE_THRESHOLD < waitTicks th \<and> dynamicPriority th = 0
        \<longrightarrow> (\<exists>th'. threads s' t = Some th' \<and> dynamicPriority th' = 0xFFFFFFFF \<and> queue_of (dynamicPriority th') = 4))"
proof -
  define s' where "s' = s\<lparr>threads := (\<lambda>t. if t \<in> set (aging s (unat cpu)) then map_option age (threads s t) else threads s t)\<rparr>"
  have "ageThreads cpu s = Some s'"
    unfolding s'_def using assms by (rule ageThreads_run)
  moreover have "cpuRunqueues s' = cpuRunqueues s" by (simp add: s'_def)
  then have "pending s' = pending s" using pending_cong by blast
  moreover have "threads s' t = Some th' \<longrightarrow> dynamicPriority th' = 0xFFFFFFFF \<and> queue_of (dynamicPriority th') = 4"
    if "t \<in> set (aging s (unat cpu))" "threads s t = Some th" "t_state th = RUNNABLE" "AGE_THRESHOLD < waitTicks th"
      "dynamicPriority th = 0" for t th th'
  proof -
    have "threads s' t = Some (th\<lparr>waitTicks := 0, dynamicPriority := 0xFFFFFFFF\<rparr>)"
      using that by (simp add: s'_def age_def)
    moreover have "queue_of 0xFFFFFFFF = 4" by (simp add: queue_of_def MAX_PRIORITY_def)
    ultimately show ?thesis by auto
  qed
  moreover have "threads s' t \<noteq> None" if "threads s t = Some th" for t th
    using that by (simp add: s'_def)
  moreover have "threads s' = (\<lambda>t. if t \<in> set (aging s (unat cpu)) then map_option age (threads s t) else threads s t)"
    by (simp add: s'_def)
  ultimately show ?thesis by (intro exI [of _ s'] conjI) blast+
qed

section \<open>A small example\<close>

text \<open>
  CPU 2 runs the thread at 0x100 at priority 1; the one at 0x200 waits in the queue of priority 3, has aged
  to priority 0 and is about to be aged again.
\<close>

definition sched_demo :: sched_state where
  "sched_demo = \<lparr>kheap = kheap kernel_demo, ptab = three,
     threads = [0x100 \<mapsto> zero_thread\<lparr>t_state := RUNNING, dynamicPriority := 1, t_regs := 0x300\<rparr>,
                0x200 \<mapsto> zero_thread\<lparr>t_state := RUNNABLE, t_regs := 0x400, waitTicks := 51, kstack_esp0 := 0x900\<rparr>],
     regstore = [0x300 \<mapsto> regs_demo\<lparr>r_eip := 7\<rparr>, 0x400 \<mapsto> regs_demo],
     cpuRunqueues = (\<lambda>c. if c = 2 then \<lparr>queues = (\<lambda>p i. if p = 3 then 0x200 else NULL), rq_head = (\<lambda>_. 0),
                            rq_tail = (\<lambda>p. if p = 3 then 1 else 0)\<rparr> else empty_runqueue),
     threadsPerCPU = (\<lambda>c. if c = 2 then 1 else 0), currentThread = (\<lambda>c. if c = 2 then 0x100 else NULL),
     ticksSinceLastSwitch = (\<lambda>_. 5), ncpus = 3, descs = desc_zero\<rparr>"

lemma five: "[0..<MAX_PRIORITY] = [0, 1, 2, 3, 4]" "[Suc 0..<MAX_PRIORITY] = [1, 2, 3, 4]" "{..<MAX_PRIORITY} = {0, 1, 2, 3, 4}"
  by (auto simp: MAX_PRIORITY_def upt_rec)

lemma sched_demo_pending: "pending sched_demo 2 = (\<lambda>_. [])(3 := [0x200])"
  by (auto simp: fun_eq_iff pending_def sched_demo_def)

lemma sched_demo_ok: "queues_ok sched_demo 2"
proof -
  have "NULL \<notin> set (pending sched_demo 2 p)" for p by (simp add: sched_demo_pending NULL_def)
  moreover have "rq_head (cpuRunqueues sched_demo 2) p = 0" "accepted sched_demo 2 p \<le> MAX_RUNQUEUE_SIZE"
      "threadsPerCPU sched_demo 2 = 1" for p
    by (simp_all add: sched_demo_def accepted_def MAX_RUNQUEUE_SIZE_def)
  ultimately show ?thesis by (simp add: queues_ok_def five sched_demo_pending)
qed

theorem dequeueThread_order_witness:
  "\<exists>s'. drain (dequeueThread 2) 2 sched_demo = Some ([0x200, NULL], s')"
proof -
  have "all_threads (pending sched_demo 2) = [0x200]"
    by (simp add: all_threads_def sched_demo_pending five)
  then show ?thesis
    using dequeueThread_order [of sched_demo 2 2] sched_demo_ok by (auto simp: MAX_CPUS_def simp del: drain.simps)
qed

theorem ageThreads_ages_witness:
  "\<exists>s' th. ageThreads 2 sched_demo = Some s' \<and> threads s' 0x200 = Some th \<and> dynamicPriority th = 0xFFFFFFFF"
proof -
  have "aging sched_demo 2 = [0x200]"
    by (simp add: aging_def sched_demo_pending five)
  moreover have "threads sched_demo 0x200 = Some (zero_thread\<lparr>t_state := RUNNABLE, t_regs := 0x400, waitTicks := 51, kstack_esp0 := 0x900\<rparr>)"
    by (simp add: sched_demo_def)
  ultimately show ?thesis
    using ageThreads_ages [of 2 sched_demo]
    by (auto simp: MAX_CPUS_def NULL_def AGE_THRESHOLD_def zero_thread_def)
qed

theorem full_queue_rejects_forever_witness:
  "\<exists>s :: sched_state. accepted s 2 0 = 64 \<and> pending s 2 0 = [] \<and> enqueueThread 0x200 2 s = Some s"
proof -
  define s where "s = sched_demo\<lparr>cpuRunqueues := (\<lambda>c. empty_runqueue\<lparr>rq_head := (\<lambda>_. 64), rq_tail := (\<lambda>_. 64)\<rparr>)\<rparr>"
  have full: "accepted s 2 0 = MAX_RUNQUEUE_SIZE" "pending s 2 0 = []"
    by (simp_all add: s_def accepted_def pending_def MAX_RUNQUEUE_SIZE_def)
  have "rd_thread s 0x200 = Some (zero_thread\<lparr>t_state := RUNNABLE, t_regs := 0x400, waitTicks := 51, kstack_esp0 := 0x900\<rparr>)"
    by (simp add: s_def sched_demo_def rd_thread_def NULL_def)
  then have "enqueueThread 0x200 2 s = Some s"
    using full full_queue_rejects_forever [of s s 2 0 "0x200"]
    by (simp add: MAX_CPUS_def zero_thread_def queue_of_def MAX_PRIORITY_def)
  then show ?thesis using full by (auto simp: MAX_RUNQUEUE_SIZE_def)
qed

theorem schedule_correct_witness:
  "\<exists>r s'. schedule 2 regs_demo 0xC0100000 2 sched_demo = Some (r, s') \<and> currentThread s' 2 = 0x100 \<and> r_eip r = 7"
proof -
  have ready: "kernel_ready sched_demo [(48, 1), (32, 5), (64, 9)] (0 + 4)"
    using kernel_demo_ready by (simp add: kernel_ready_def sched_demo_def kernel_demo_def)
  have free: "free_addrs (kheap sched_demo) = {0xD0001000, 0xD0002000, 0xD0003000, 0xD0004000}"
    using kernel_demo_free by (simp add: sched_demo_def)
  have ok: "dispatchable sched_demo 0x100" "dispatchable sched_demo 0x200" "currentThread sched_demo 2 = 0x100"
    unfolding dispatchable_def free by (simp_all add: sched_demo_def zero_thread_def NULL_def)
  have "waiting sched_demo 2 = (\<lambda>_. [])(3 := [0x200], 2 := [0x100])"
    unfolding waiting_def sched_demo_pending
    by (simp add: sched_demo_def accepted_def demoted_def zero_thread_def queue_of_def sched_consts NULL_def fun_eq_iff Let_def)
  then have w: "all_threads (waiting sched_demo 2) = [0x100, 0x200]"
    by (simp add: all_threads_def five)
  have pid: "KProcessID (ptab sched_demo) = 9" "threads sched_demo 0x100 = Some (zero_thread\<lparr>t_state := RUNNING, dynamicPriority := 1, t_regs := 0x300\<rparr>)"
      "regstore sched_demo 0x300 = Some (regs_demo\<lparr>r_eip := 7\<rparr>)"
    by (simp_all add: sched_demo_def three_def)
  obtain nxt th r s' where run: "schedule 2 regs_demo 0xC0100000 2 sched_demo = Some (r, s')" "nxt = 0x100"
      "demote_current sched_demo 2 nxt = Some th" "currentThread s' = (currentThread sched_demo)(2 := nxt)"
      "regstore s' (t_regs th) = Some r"
      "\<forall>q. q \<notin> free_addrs (kheap sched_demo) \<longrightarrow> regstore s' q = regstore sched_demo q"
    using schedule_correct [OF ready, of 2 2 regs_demo "0xC0100000"] sched_demo_ok ok pid(1) by (auto simp: w MAX_CPUS_def)
  have "t_regs th = 0x300"
    using run(2,3) pid(2) ok(3) by (auto simp: demote_current_def demoted_def zero_thread_def NULL_def Let_def)
  then have "r = regs_demo\<lparr>r_eip := 7\<rparr>"
    using run(5,6) pid(3) by (simp add: free)
  then show ?thesis using run(1,2,4) by simp
qed

end
