(* ===== verification/Lapic.thy ===== *)
theory Lapic
  imports Paging
begin

text \<open>
  The local interrupt controller, \<open>sys/lapic.c\<close>, and the busy waiting of \<open>kernel.c\<close>. What the controller's
  registers return and what the tick counter holds at each read are arguments of the model; the model keeps
  how many reads there were and the list of the writes. The registers can be reached only while they are
  mapped at their physical address.
\<close>

section \<open>Registers\<close>

definition LAPIC_ID :: u32 where "LAPIC_ID = 0x0020 div 4"
definition TPR :: u32 where "TPR = 0x0080 div 4"
definition EOI :: u32 where "EOI = 0x00B0 div 4"
definition SVR :: u32 where "SVR = 0x00F0 div 4"
definition ENABLE :: u32 where "ENABLE = 0x00000100"
definition ESR :: u32 where "ESR = 0x0280 div 4"
definition INIT :: u32 where "INIT = 0x00000500"
definition STARTUP :: u32 where "STARTUP = 0x00000600"
definition DELIVS :: u32 where "DELIVS = 0x00001000"
definition ASSERT :: u32 where "ASSERT = 0x00004000"
definition LEVEL :: u32 where "LEVEL = 0x00008000"
definition ICR1 :: u32 where "ICR1 = 0x0300 div 4"
definition ICR2 :: u32 where "ICR2 = 0x0310 div 4"
definition TIMER :: u32 where "TIMER = 0x0320 div 4"
definition PERIODIC :: u32 where "PERIODIC = 0x00020000"
definition LINT0 :: u32 where "LINT0 = 0x0350 div 4"
definition LINT1 :: u32 where "LINT1 = 0x0360 div 4"
definition MASKED :: u32 where "MASKED = 0x00010000"
definition TICR :: u32 where "TICR = 0x0380 div 4"
definition TDCR :: u32 where "TDCR = 0x03E0 div 4"
definition IA32_APIC_BASE :: u32 where "IA32_APIC_BASE = 0xFEE00000"

record lapic_state =
  reads_done :: nat
  reg_writes :: "(u32 \<times> u32) list"
  tick_reads :: nat

section \<open>Access\<close>

text \<open>\<open>hw n reg\<close> is what the \<open>n\<close>-th read returns when it reads register \<open>reg\<close>.\<close>

type_synonym lapic_hw = "nat \<Rightarrow> u32 \<Rightarrow> u32"

definition reg_mapped :: "mmu_state \<Rightarrow> u32 \<Rightarrow> bool" where
  "reg_mapped m reg \<longleftrightarrow> translate m (IA32_APIC_BASE + 4 * reg) = Some (pframe IA32_APIC_BASE)"

definition lapicRead :: "lapic_hw \<Rightarrow> mmu_state \<Rightarrow> u32 \<Rightarrow> lapic_state \<Rightarrow> (u32 \<times> lapic_state) option" where
  "lapicRead hw m reg s =
     (if reg_mapped m reg then Some (hw (reads_done s) reg, s\<lparr>reads_done := reads_done s + 1\<rparr>) else None)"

text \<open>The write is followed by a read of the id, whose value is dropped.\<close>

definition lapicWrite :: "mmu_state \<Rightarrow> u32 \<Rightarrow> u32 \<Rightarrow> lapic_state \<Rightarrow> lapic_state option" where
  "lapicWrite m reg val s =
     (if reg_mapped m reg \<and> reg_mapped m LAPIC_ID
      then Some (s\<lparr>reg_writes := reg_writes s @ [(reg, val)], reads_done := reads_done s + 1\<rparr>) else None)"

definition eoi :: "mmu_state \<Rightarrow> lapic_state \<Rightarrow> lapic_state option" where
  "eoi m s = lapicWrite m EOI 0x00 s"

definition mapLAPIC :: "mmu_state \<Rightarrow> mmu_state option" where
  "mapLAPIC m = mem_map_page 0xFEE00000 0xFEE00000 (PAGE_FLAG_PRESENT OR PAGE_FLAG_WRITE) m"

definition lapicTimerInit :: "mmu_state \<Rightarrow> lapic_state \<Rightarrow> lapic_state option" where
  "lapicTimerInit m s = do {
     s \<leftarrow> lapicWrite m TDCR 0x3 s;
     s \<leftarrow> lapicWrite m TIMER (PERIODIC OR 0x40) s;
     lapicWrite m TICR 1000000 s
   }"

text \<open>The three reads of \<open>SVR\<close> only decide about messages.\<close>

definition lapicInit :: "lapic_hw \<Rightarrow> mmu_state \<Rightarrow> lapic_state \<Rightarrow> (mmu_state \<times> lapic_state) option" where
  "lapicInit hw m s = do {
     m \<leftarrow> mapLAPIC m;
     s \<leftarrow> lapicWrite m SVR (ENABLE OR 0xFF) s;
     (svr, s) \<leftarrow> lapicRead hw m SVR s;
     (sivr, s) \<leftarrow> lapicRead hw m SVR s;
     (svr2, s) \<leftarrow> lapicRead hw m SVR s;
     s \<leftarrow> lapicWrite m TPR 0x00 s;
     s \<leftarrow> lapicWrite m LINT0 0x700 s;
     s \<leftarrow> lapicWrite m LINT1 MASKED s;
     s \<leftarrow> lapicWrite m ESR 0x00 s;
     s \<leftarrow> lapicWrite m ESR 0x00 s;
     s \<leftarrow> lapicWrite m EOI 0x00 s;
     Some (m, s)
   }"

section \<open>Interrupts to other CPUs\<close>

partial_function (option) wait_delivery :: "lapic_hw \<Rightarrow> mmu_state \<Rightarrow> lapic_state \<Rightarrow> lapic_state option" where
  "wait_delivery hw m s = do {
     (v, s) \<leftarrow> lapicRead hw m ICR1 s;
     if v AND DELIVS \<noteq> 0 then wait_delivery hw m s else Some s
   }"

definition lapicSendIPI :: "lapic_hw \<Rightarrow> mmu_state \<Rightarrow> u32 \<Rightarrow> lapic_state \<Rightarrow> lapic_state option" where
  "lapicSendIPI hw m apic_id s = do {
     s \<leftarrow> lapicWrite m ICR2 (push_bit 24 apic_id) s;
     s \<leftarrow> lapicWrite m ICR1 (INIT OR LEVEL OR ASSERT) s;
     s \<leftarrow> wait_delivery hw m s;
     s \<leftarrow> lapicWrite m ICR2 (push_bit 24 apic_id) s;
     s \<leftarrow> lapicWrite m ICR1 (INIT OR LEVEL) s;
     wait_delivery hw m s
   }"

definition lapicSendSIPI :: "lapic_hw \<Rightarrow> mmu_state \<Rightarrow> u32 \<Rightarrow> u32 \<Rightarrow> lapic_state \<Rightarrow> lapic_state option" where
  "lapicSendSIPI hw m apicID trampolineAddr s = do {
     s \<leftarrow> lapicWrite m ICR2 (push_bit 24 apicID) s;
     s \<leftarrow> lapicWrite m ICR1 (drop_bit 12 trampolineAddr OR STARTUP OR ASSERT) s;
     wait_delivery hw m s
   }"

section \<open>Busy waiting\<close>

text \<open>
  \<open>ticks n\<close> is the value of \<open>pit_ticks\<close> at the \<open>n\<close>-th read of it. The start is kept in 32 bits, the
  difference is taken in 64.
\<close>

type_synonym clock = "nat \<Rightarrow> u64"

partial_function (option) pit_loop :: "clock \<Rightarrow> u32 \<Rightarrow> u32 \<Rightarrow> nat \<Rightarrow> nat option" where
  "pit_loop ticks now ms n = (if ticks n - ucast now < ucast ms then pit_loop ticks now ms (Suc n) else Some (Suc n))"

definition PitWait :: "clock \<Rightarrow> u32 \<Rightarrow> lapic_state \<Rightarrow> lapic_state option" where
  "PitWait ticks ms s = do {
     let now = ucast (ticks (tick_reads s));
     n \<leftarrow> pit_loop ticks now (ms + 1) (tick_reads s + 1);
     Some (s\<lparr>tick_reads := n\<rparr>)
   }"

definition apStartup :: "lapic_hw \<Rightarrow> clock \<Rightarrow> mmu_state \<Rightarrow> u32 \<Rightarrow> u32 \<Rightarrow> lapic_state \<Rightarrow> lapic_state option" where
  "apStartup hw ticks m apicID trampolineAddr s = do {
     s \<leftarrow> lapicSendIPI hw m apicID s;
     s \<leftarrow> PitWait ticks 10 s;
     fold_opt (\<lambda>i s. do {
       s \<leftarrow> lapicSendSIPI hw m apicID trampolineAddr s;
       PitWait ticks 1 s
     }) [0..<2] s
   }"

section \<open>Starting a CPU\<close>

text \<open>The controller is mapped, and it reports again and again that it has delivered.\<close>

definition lapic_works :: "lapic_hw \<Rightarrow> mmu_state \<Rightarrow> bool" where
  "lapic_works hw m \<longleftrightarrow> (\<forall>reg < 1024. reg_mapped m reg) \<and> (\<forall>n. \<exists>k \<ge> n. hw k ICR1 AND DELIVS = 0)"

lemma lapic_works_regs:
  "lapic_works hw m \<Longrightarrow> reg_mapped m ICR1 \<and> reg_mapped m ICR2 \<and> reg_mapped m LAPIC_ID"
  by (simp add: lapic_works_def ICR1_def ICR2_def LAPIC_ID_def)

lemma lapicWrite_run:
  "lapic_works hw m \<Longrightarrow> reg < 1024 \<Longrightarrow>
    lapicWrite m reg val s = Some (s\<lparr>reg_writes := reg_writes s @ [(reg, val)], reads_done := reads_done s + 1\<rparr>)"
  by (simp add: lapicWrite_def lapic_works_def LAPIC_ID_def)

lemma wait_delivery_run:
  assumes "lapic_works hw m"
  shows "\<exists>n > reads_done s. wait_delivery hw m s = Some (s\<lparr>reads_done := n\<rparr>)"
proof -
  obtain k where "k \<ge> reads_done s" "hw k ICR1 AND DELIVS = 0"
    using assms by (auto simp: lapic_works_def)
  then show ?thesis
  proof (induction "k - reads_done s" arbitrary: s)
    case 0
    then show ?case
      using lapic_works_regs [OF assms] by (subst wait_delivery.simps) (auto simp: lapicRead_def)
  next
    case (Suc d)
    show ?case
    proof (cases "hw (reads_done s) ICR1 AND DELIVS = 0")
      case False
      then have "wait_delivery hw m s = wait_delivery hw m (s\<lparr>reads_done := Suc (reads_done s)\<rparr>)"
        using lapic_works_regs [OF assms] by (subst wait_delivery.simps) (simp add: lapicRead_def)
      moreover have "\<exists>n > Suc (reads_done s). wait_delivery hw m (s\<lparr>reads_done := Suc (reads_done s)\<rparr>)
          = Some (s\<lparr>reads_done := n\<rparr>)"
        using Suc(1) [of "s\<lparr>reads_done := Suc (reads_done s)\<rparr>"] Suc(2-) by simp
      ultimately show ?thesis by (metis Suc_lessD)
    qed (use lapic_works_regs [OF assms] in \<open>subst wait_delivery.simps, auto simp: lapicRead_def\<close>)
  qed
qed

text \<open>The tick counter at each read: it never goes back, moves by at most one between two reads and never stops.\<close>

definition clock_runs :: "(nat \<Rightarrow> nat) \<Rightarrow> bool" where
  "clock_runs T \<longleftrightarrow> (\<forall>n. T (Suc n) = T n \<or> T (Suc n) = Suc (T n)) \<and> (\<forall>v. \<exists>n. v \<le> T n)"

lemma clock_mono: "clock_runs T \<Longrightarrow> i \<le> j \<Longrightarrow> T i \<le> T j"
  using lift_Suc_mono_le [of T i j] by (metis clock_runs_def le_Suc_eq order.refl)

lemma clock_hits:
  assumes "clock_runs T" and "T a < v"
  shows "\<exists>k > a. T k = v \<and> (\<forall>j < k. T j < v)"
proof -
  define k where "k = (LEAST k. v \<le> T k)"
  have "\<exists>k. v \<le> T k" using assms(1) by (simp add: clock_runs_def)
  then have k: "v \<le> T k" "\<And>j. j < k \<Longrightarrow> T j < v"
    unfolding k_def by (auto intro: LeastI dest: not_less_Least)
  have "a < k" using k(1) assms clock_mono [OF assms(1), of k a] by (cases "a < k") auto
  then obtain j where "k = Suc j" by (cases k) auto
  then have "T k = v" using k assms(1) unfolding clock_runs_def by (metis lessI Suc_leI le_antisym less_irrefl not_less_eq_eq)
  then show ?thesis using \<open>a < k\<close> k(2) by blast
qed

lemma pit_loop_least:
  assumes "n \<le> k" and "\<not> ticks k - ucast now < ucast ms" and "\<forall>j. n \<le> j \<longrightarrow> j < k \<longrightarrow> ticks j - ucast now < ucast ms"
  shows "pit_loop ticks now ms n = Some (Suc k)"
  using assms
proof (induction "k - n" arbitrary: n)
  case 0
  then show ?case by (subst pit_loop.simps) simp
next
  case (Suc d)
  then show ?case by (subst pit_loop.simps) (simp add: Suc_le_eq)
qed

lemma pit_loop_ends:
  assumes "n \<le> k" and "\<not> ticks k - ucast now < ucast ms"
  shows "\<exists>j \<ge> n. pit_loop ticks now ms n = Some (Suc j)"
proof -
  define j where "j = (LEAST j. n \<le> j \<and> \<not> ticks j - ucast now < ucast ms)"
  have "n \<le> j \<and> \<not> ticks j - ucast now < ucast ms"
    unfolding j_def by (rule LeastI [of _ k]) (use assms in simp)
  moreover have "\<forall>i. n \<le> i \<longrightarrow> i < j \<longrightarrow> ticks i - ucast now < ucast ms"
    unfolding j_def using not_less_Least by blast
  ultimately show ?thesis using pit_loop_least by blast
qed

text \<open>The value \<open>T k\<close> that is \<open>ms\<close> ticks away from the 32 bits the code keeps of the start.\<close>

lemma tick_difference:
  assumes "T k = unat (now :: u32) + unat (ms :: u32) + M * 2 ^ 64"
  shows "(of_nat (T k) :: u64) - ucast now = ucast ms"
proof -
  have "(of_nat (T k) :: u64) = of_nat (unat now) + of_nat (unat ms) + of_nat M * 2 ^ 64"
    unfolding assms by simp
  also have "(2 ^ 64 :: u64) = 0" by simp
  finally show ?thesis by simp
qed

lemma ucast_tick: "(ucast (of_nat n :: u64) :: u32) = of_nat n"
  by (simp add: unsigned_of_nat word_of_nat_eq_iff)

lemma PitWait_ends:
  assumes "clock_runs T"
  shows "\<exists>j > tick_reads s. PitWait (\<lambda>n. of_nat (T n)) ms s = Some (s\<lparr>tick_reads := Suc j\<rparr>)"
proof -
  define i where "i = tick_reads s"
  define now :: u32 where "now = of_nat (T i)"
  define v where "v = unat now + unat (ms + 1) + Suc (T (Suc i)) * 2 ^ 64"
  have "T (Suc i) < v" by (simp add: v_def)
  then obtain k where "k > Suc i" "T k = v" using clock_hits [OF assms] by blast
  then have "\<exists>j \<ge> Suc i. pit_loop (\<lambda>n. of_nat (T n)) now (ms + 1) (Suc i) = Some (Suc j)"
    using tick_difference [of T k now "ms + 1" "Suc (T (Suc i))"]
    by (intro pit_loop_ends [of _ k]) (simp_all add: v_def)
  then obtain j where "Suc i \<le> j" "pit_loop (\<lambda>n. of_nat (T n)) now (ms + 1) (Suc i) = Some (Suc j)" by blast
  then show ?thesis
    unfolding PitWait_def ucast_tick by (intro exI [of _ j]) (simp add: i_def now_def)
qed

lemma mod_plus_le: "m \<le> x \<Longrightarrow> x mod m + m \<le> (x :: nat)"
  using le_mod_geq [of m x] mod_less_eq_dividend [of "x - m" m] by linarith

lemma tick_less:
  assumes "unat (now :: u32) \<le> x" and "x < 2 ^ 64"
  shows "(of_nat x :: u64) - ucast now < ucast (ms :: u32) \<longleftrightarrow> x < unat now + unat ms"
proof -
  have "(of_nat x :: u64) - ucast now = of_nat (x - unat now)"
    using assms(1) by (simp add: of_nat_diff)
  moreover have "unat (of_nat (x - unat now) :: u64) = x - unat now"
    using assms(2) by (simp add: unat_of_nat)
  moreover have "unat (ucast ms :: u64) = unat ms"
    by (simp add: unsigned_ucast_eq take_bit_eq_mod) (use unat_u32_less [of ms] in simp)
  ultimately show ?thesis using assms(1) by (simp add: word_less_nat_alt) linarith
qed

text \<open>With a running clock \<open>PitWait\<close> always ends. Started in the first \<open>2\<^sup>3\<^sup>2\<close> ticks it ends exactly
  \<open>ms + 1\<close> ticks after its start; from then on, the start being cut to 32 bits, it does not wait at all.\<close>

theorem PitWait_waits:
  fixes s :: lapic_state and T :: "nat \<Rightarrow> nat"
  assumes "clock_runs T" and "ms \<noteq> 0xFFFFFFFF"
  defines "start \<equiv> T (tick_reads s)"
  shows "\<exists>j > tick_reads s. PitWait (\<lambda>n. of_nat (T n)) ms s = Some (s\<lparr>tick_reads := Suc j\<rparr>)
    \<and> (start < 2 ^ 32 \<longrightarrow> T j = start + unat ms + 1)
    \<and> (2 ^ 32 \<le> start \<and> start < 2 ^ 64 - 1 \<longrightarrow> j = Suc (tick_reads s))"
proof -
  define i where "i = tick_reads s"
  define now :: u32 where "now = of_nat (T i)"
  have ms: "unat (ms + 1) = unat ms + 1"
  proof -
    have "unat ms \<noteq> 0xFFFFFFFF" using assms(2) by (simp add: word_unat_eq_iff)
    then show ?thesis using unat_u32_less [of ms] unat_u32_add [of ms 1] by simp
  qed
  have wait: "PitWait (\<lambda>n. of_nat (T n)) ms s = Some (s\<lparr>tick_reads := Suc j\<rparr>)"
    if "pit_loop (\<lambda>n. of_nat (T n)) now (ms + 1) (Suc i) = Some (Suc j)" for j
    using that unfolding PitWait_def ucast_tick by (simp add: i_def now_def)
  have mono: "T i \<le> T j" if "i \<le> j" for j using assms(1) that by (rule clock_mono)
  consider "start < 2 ^ 32" | "2 ^ 32 \<le> start" "start < 2 ^ 64 - 1" | "2 ^ 64 - 1 \<le> start" by linarith
  then show ?thesis
  proof cases
    case 1
    then have now: "unat now = T i" by (simp add: now_def start_def i_def unat_of_nat)
    obtain k where k: "k > i" "T k = T i + unat (ms + 1)" "\<forall>j < k. T j < T i + unat (ms + 1)"
      using clock_hits [OF assms(1), of i "T i + unat (ms + 1)"] ms by auto
    have less: "(of_nat (T j) :: u64) - ucast now < ucast (ms + 1) \<longleftrightarrow> T j < T i + unat (ms + 1)"
      if "i \<le> j" "j \<le> k" for j
      using tick_less [of now "T j" "ms + 1"] now mono [OF that(1)] clock_mono [OF assms(1) that(2)] k(2) 1
        unat_u32_less [of "ms + 1"] by (simp add: start_def i_def)
    have "pit_loop (\<lambda>n. of_nat (T n)) now (ms + 1) (Suc i) = Some (Suc k)"
    proof (rule pit_loop_least)
      show "\<not> (of_nat (T k) :: u64) - ucast now < ucast (ms + 1)"
        using less [of k] k(1,2) by linarith
    qed (use k less in auto)
    then show ?thesis
      using wait k(1,2) 1 ms by (intro exI [of _ k]) (simp add: i_def start_def)
  next
    case 2
    have now: "unat now \<le> T i" "unat now + 2 ^ 32 \<le> T i"
      using 2(1) mod_plus_le [of "2 ^ 32" "T i"] by (simp_all add: now_def start_def i_def unat_of_nat)
    have "T (Suc i) \<le> Suc (T i)" using assms(1) by (metis clock_runs_def le_Suc_eq order.refl)
    then have "\<not> (of_nat (T (Suc i)) :: u64) - ucast now < ucast (ms + 1)"
      using 2(2) now mono [of "Suc i"] unat_u32_less [of "ms + 1"] by (subst tick_less) (auto simp: start_def i_def)
    then have "pit_loop (\<lambda>n. of_nat (T n)) now (ms + 1) (Suc i) = Some (Suc (Suc i))"
      by (intro pit_loop_least) auto
    then show ?thesis
      using wait 2 by (intro exI [of _ "Suc i"]) (simp add: i_def)
  next
    case 3
    then show ?thesis using PitWait_ends [OF assms(1), of s ms] by auto
  qed
qed

section \<open>Starting another CPU\<close>

lemma lapicSendIPI_run:
  assumes "lapic_works hw m"
  shows "\<exists>n. lapicSendIPI hw m apic s = Some (s\<lparr>reads_done := n, reg_writes := reg_writes s
    @ [(ICR2, push_bit 24 apic), (ICR1, INIT OR LEVEL OR ASSERT), (ICR2, push_bit 24 apic), (ICR1, INIT OR LEVEL)]\<rparr>)"
proof -
  have w: "lapicWrite m ICR1 val t = Some (t\<lparr>reg_writes := reg_writes t @ [(ICR1, val)], reads_done := reads_done t + 1\<rparr>)"
    "lapicWrite m ICR2 val t = Some (t\<lparr>reg_writes := reg_writes t @ [(ICR2, val)], reads_done := reads_done t + 1\<rparr>)" for val t
    using lapicWrite_run [OF assms] by (simp_all add: ICR1_def ICR2_def)
  have d: "\<exists>n. wait_delivery hw m t = Some (t\<lparr>reads_done := n\<rparr>)" for t
    using wait_delivery_run [OF assms, of t] by blast
  define s1 where "s1 = s\<lparr>reg_writes := reg_writes s @ [(ICR2, push_bit 24 apic), (ICR1, INIT OR LEVEL OR ASSERT)],
    reads_done := reads_done s + 2\<rparr>"
  obtain n where n: "wait_delivery hw m s1 = Some (s1\<lparr>reads_done := n\<rparr>)" using d by blast
  define s2 where "s2 = s1\<lparr>reg_writes := reg_writes s1 @ [(ICR2, push_bit 24 apic), (ICR1, INIT OR LEVEL)],
    reads_done := n + 2\<rparr>"
  obtain k where k: "wait_delivery hw m s2 = Some (s2\<lparr>reads_done := k\<rparr>)" using d by blast
  have "lapicSendIPI hw m apic s = Some (s2\<lparr>reads_done := k\<rparr>)"
    using n k by (simp add: lapicSendIPI_def w s1_def s2_def)
  then show ?thesis by (intro exI [of _ k]) (simp add: s2_def s1_def)
qed

lemma lapicSendSIPI_run:
  assumes "lapic_works hw m"
  shows "\<exists>n. lapicSendSIPI hw m apic addr s = Some (s\<lparr>reads_done := n, reg_writes := reg_writes s
    @ [(ICR2, push_bit 24 apic), (ICR1, drop_bit 12 addr OR STARTUP OR ASSERT)]\<rparr>)"
proof -
  define s1 where "s1 = s\<lparr>reg_writes := reg_writes s @ [(ICR2, push_bit 24 apic),
    (ICR1, drop_bit 12 addr OR STARTUP OR ASSERT)], reads_done := reads_done s + 2\<rparr>"
  obtain n where "wait_delivery hw m s1 = Some (s1\<lparr>reads_done := n\<rparr>)"
    using wait_delivery_run [OF assms, of s1] by blast
  then show ?thesis
    using assms lapicWrite_run [OF assms] by (intro exI [of _ n]) (simp add: lapicSendSIPI_def ICR1_def ICR2_def s1_def)
qed

text \<open>What the code writes to start the CPU with the given id at the given address.\<close>

definition startup_writes :: "u32 \<Rightarrow> u32 \<Rightarrow> (u32 \<times> u32) list" where
  "startup_writes apic addr =
     [(ICR2, push_bit 24 apic), (ICR1, 0xC500), (ICR2, push_bit 24 apic), (ICR1, 0x8500)]
     @ [(ICR2, push_bit 24 apic), (ICR1, drop_bit 12 addr OR 0x4600)]
     @ [(ICR2, push_bit 24 apic), (ICR1, drop_bit 12 addr OR 0x4600)]"

lemma apStartup_run:
  assumes "lapic_works hw m" and "clock_runs T"
  shows "\<exists>s'. apStartup hw (\<lambda>n. of_nat (T n)) m apic addr s = Some s'
    \<and> reg_writes s' = reg_writes s @ startup_writes apic addr"
proof -
  have icr: "INIT OR LEVEL OR ASSERT = 0xC500" "INIT OR LEVEL = 0x8500" "drop_bit 12 addr OR STARTUP OR ASSERT = drop_bit 12 addr OR 0x4600"
    by (simp_all add: INIT_def LEVEL_def ASSERT_def STARTUP_def or.assoc)
  have pit: "\<exists>j. PitWait (\<lambda>n. of_nat (T n)) ms t = Some (t\<lparr>tick_reads := j\<rparr>)" for ms t
    using PitWait_ends [OF assms(2)] by blast
  have sipi: "\<exists>u t'. lapicSendSIPI hw m apic addr t = Some u \<and> PitWait (\<lambda>n. of_nat (T n)) 1 u = Some t'
      \<and> reg_writes t' = reg_writes t @ [(ICR2, push_bit 24 apic), (ICR1, drop_bit 12 addr OR 0x4600)]" for t
    using lapicSendSIPI_run [OF assms(1), of apic addr t] pit by (fastforce simp: icr)
  obtain s1 where s1: "lapicSendIPI hw m apic s = Some s1" "reg_writes s1 = reg_writes s
      @ [(ICR2, push_bit 24 apic), (ICR1, 0xC500), (ICR2, push_bit 24 apic), (ICR1, 0x8500)]"
    using lapicSendIPI_run [OF assms(1), of apic s] by (auto simp: icr)
  obtain j where j: "PitWait (\<lambda>n. of_nat (T n)) 10 s1 = Some (s1\<lparr>tick_reads := j\<rparr>)" using pit by blast
  obtain s3 u3 where s3: "lapicSendSIPI hw m apic addr (s1\<lparr>tick_reads := j\<rparr>) = Some u3" "PitWait (\<lambda>n. of_nat (T n)) 1 u3 = Some s3"
      "reg_writes s3 = reg_writes s1 @ [(ICR2, push_bit 24 apic), (ICR1, drop_bit 12 addr OR 0x4600)]"
    using sipi [of "s1\<lparr>tick_reads := j\<rparr>"] by auto
  obtain s4 u4 where s4: "lapicSendSIPI hw m apic addr s3 = Some u4" "PitWait (\<lambda>n. of_nat (T n)) 1 u4 = Some s4"
      "reg_writes s4 = reg_writes s3 @ [(ICR2, push_bit 24 apic), (ICR1, drop_bit 12 addr OR 0x4600)]"
    using sipi [of s3] by auto
  have "apStartup hw (\<lambda>n. of_nat (T n)) m apic addr s = Some s4"
    by (simp add: apStartup_def s1(1) j s3(1,2) s4(1,2) numeral_2_eq_2)
  then show ?thesis using s1(2) s3(3) s4(3) by (simp add: startup_writes_def)
qed

text \<open>C36: while the controller is mapped and reports delivery and the clock runs, \<open>apStartup\<close> comes back; it has
  sent the target CPU, and no other, an INIT interrupt, its release, and two start-up interrupts whose vector
  is the page of the trampoline.\<close>

theorem apStartup_sequence:
  assumes "lapic_works hw m" and "clock_runs T"
  shows "\<exists>s'. apStartup hw (\<lambda>n. of_nat (T n)) m apic addr s = Some s' \<and> reg_writes s' = reg_writes s
    @ [(ICR2, push_bit 24 apic), (ICR1, 0xC500), (ICR2, push_bit 24 apic), (ICR1, 0x8500)]
    @ [(ICR2, push_bit 24 apic), (ICR1, drop_bit 12 addr OR 0x4600)]
    @ [(ICR2, push_bit 24 apic), (ICR1, drop_bit 12 addr OR 0x4600)]"
  using apStartup_run [OF assms] by (simp add: startup_writes_def)

text \<open>A machine on which all this holds: page 0xFEE00 is mapped and delivery takes one read.\<close>

definition lapic_mmu_demo :: mmu_state where
  "lapic_mmu_demo = mmu_demo\<lparr>ram := (ram mmu_demo)(2 := (ram mmu_demo 2)(1019 := 0x5003), 5 := (\<lambda>_. 0)(512 := 0xFEE00003))\<rparr>"

lemma lapic_demo_works: "lapic_works (\<lambda>n reg. if even n then DELIVS else 0) lapic_mmu_demo"
proof -
  have "reg_mapped lapic_mmu_demo reg" if "reg < 1024" for reg
  proof -
    have "unat reg < 1024" using that by (simp add: word_less_nat_alt)
    then have "unat (4 * reg) = 4 * unat reg" using unat_u32_mult [of 4 reg] by simp
    then have "unat (IA32_APIC_BASE + 4 * reg) = 0xFEE00000 + 4 * unat reg"
      using \<open>unat reg < 1024\<close> unat_u32_add [of IA32_APIC_BASE "4 * reg"] by (simp add: IA32_APIC_BASE_def)
    moreover have "(4276092928 + 4 * unat reg) div 4096 = 1043968"
      using \<open>unat reg < 1024\<close> by (intro div_nat_eqI) simp_all
    ultimately have "pd_index (IA32_APIC_BASE + 4 * reg) = 1019" "pt_index (IA32_APIC_BASE + 4 * reg) = 512"
      using \<open>unat reg < 1024\<close> by (simp_all add: unat_pd_index unat_pt_index)
    then show ?thesis
      by (simp add: reg_mapped_def translate_def walk_def lapic_mmu_demo_def mmu_demo_def pframe_def present_def
          page_flags IA32_APIC_BASE_def Let_def)
  qed
  moreover have "\<exists>k \<ge> n. (if even k then DELIVS else 0) AND DELIVS = 0" for n :: nat
    by (intro exI [of _ "2 * n + 1"]) simp
  ultimately show ?thesis by (simp add: lapic_works_def)
qed

definition lapic_start :: lapic_state where
  "lapic_start = \<lparr>reads_done = 0, reg_writes = [], tick_reads = 0\<rparr>"

lemma clock_demo: "clock_runs (\<lambda>n. n + a)"
  by (auto simp: clock_runs_def intro: le_add1)

theorem apStartup_sequence_witness:
  "\<exists>s'. apStartup (\<lambda>n reg. if even n then DELIVS else 0) (\<lambda>n. of_nat (n + 0)) lapic_mmu_demo 3 0x7000 lapic_start = Some s'
    \<and> (ICR1, 0x4607) \<in> set (reg_writes s')"
  using apStartup_sequence [OF lapic_demo_works clock_demo [of 0], of 3 "0x7000" lapic_start] by auto

theorem PitWait_waits_witness:
  "PitWait (\<lambda>n. of_nat (n + 2 ^ 32)) 50 lapic_start = Some (lapic_start\<lparr>tick_reads := 2\<rparr>)"
  using PitWait_waits [OF clock_demo [of "2 ^ 32"], of 50 lapic_start] by (auto simp: lapic_start_def)

end
