(* ===== verification/Smp.thy ===== *)
theory Smp
  imports Clib Descriptors Lapic
begin

text \<open>
  Finding and starting the other CPUs: \<open>sys/mp.c\<close>, \<open>sys/smp.c\<close> and \<open>sys/startup.c\<close>. The tables of the firmware
  are read from a memory of bytes; the messages, and with them the read through the overwritten \<open>IOAPIC\<close>
  pointer, which only feeds one, are not modelled.
\<close>

section \<open>Data\<close>

definition sizeof_table :: u32 where "sizeof_table = 44"

record cpu =
  cpu_id :: u32
  lapicBase :: u32
  lapicVersion :: u32
  lapicFlags :: u32
  cpu_proc :: u32
  isBSP :: u32
  cpuName :: u8

record mp_state =
  cpus :: "nat \<Rightarrow> cpu"
  mp_ncpus :: u32
  ioapicid :: u32

text \<open>The fields of \<open>struct entryProcessor\<close> and of the table that the code reads.\<close>

definition entry_type :: "bytes \<Rightarrow> u32 \<Rightarrow> u8" where "entry_type m e = m e"
definition localAPICID :: "bytes \<Rightarrow> u32 \<Rightarrow> u8" where "localAPICID m e = m (e + 1)"
definition localAPICVersion :: "bytes \<Rightarrow> u32 \<Rightarrow> u8" where "localAPICVersion m e = m (e + 2)"
definition entry_flags :: "bytes \<Rightarrow> u32 \<Rightarrow> u8" where "entry_flags m e = m (e + 3)"

definition entryCount :: "bytes \<Rightarrow> u32 \<Rightarrow> u16" where
  "entryCount m table = ucast (m (table + 34)) OR push_bit 8 (ucast (m (table + 35)))"

definition configurationTable :: "bytes \<Rightarrow> u32 \<Rightarrow> u32" where
  "configurationTable m fp = ucast (m (fp + 4)) OR push_bit 8 (ucast (m (fp + 5)))
     OR push_bit 16 (ucast (m (fp + 6))) OR push_bit 24 (ucast (m (fp + 7)))"

section \<open>The floating pointer structure\<close>

definition validateMPChecksum :: "bytes \<Rightarrow> u32 \<Rightarrow> bool" where
  "validateMPChecksum m mp = (fold (\<lambda>i sum. sum + m (mp + of_nat i)) [0..<16] 0 = (0 :: u8))"

text \<open>\<open>sig\<close> is the address of the string \<open>_MP_\<close> in the kernel's image.\<close>

function find_mp_loop :: "bytes \<Rightarrow> u32 \<Rightarrow> u32 \<Rightarrow> u32" where
  "find_mp_loop m sig addr =
     (if addr < 0x000FFFFF then
        (if memcmp m addr sig 4 = 0 \<and> validateMPChecksum m addr then addr
         else find_mp_loop m sig (addr + 16))
      else 0)"
  by pat_completeness auto
termination
proof (relation "measure (\<lambda>(m, sig, addr). 0x000FFFFF - unat addr)")
  fix m sig and addr :: u32 assume "addr < 0x000FFFFF"
  then have "unat addr < 0x000FFFFF" by (simp add: word_less_nat_alt)
  then show "((m, sig, addr + 16), m, sig, addr) \<in> measure (\<lambda>(m, sig, addr). 0x000FFFFF - unat addr)"
    using unat_u32_add [of addr 16] by simp
qed simp

declare find_mp_loop.simps [simp del]

definition find_mp_floating_pointer :: "bytes \<Rightarrow> u32 \<Rightarrow> u32" where
  "find_mp_floating_pointer m sig = find_mp_loop m sig 0x000A0000"

section \<open>The configuration table\<close>

definition add_processor :: "bytes \<Rightarrow> u32 \<Rightarrow> mp_state \<Rightarrow> mp_state" where
  "add_processor m e s =
     (if unat (mp_ncpus s) < MAX_CPUS
      then s\<lparr>cpus := (cpus s)(unat (mp_ncpus s) := (cpus s (unat (mp_ncpus s)))
               \<lparr>cpu_id := ucast (localAPICID m e), isBSP := ucast (entry_flags m e AND 0x02),
                lapicVersion := ucast (localAPICVersion m e)\<rparr>),
             mp_ncpus := mp_ncpus s + 1\<rparr>
      else s)"

fun mpSearch_loop :: "bytes \<Rightarrow> u32 \<Rightarrow> nat \<Rightarrow> mp_state \<Rightarrow> mp_state" where
  "mpSearch_loop m e 0 s = s"
| "mpSearch_loop m e (Suc n) s =
     (if entry_type m e = 0 then mpSearch_loop m (e + 20) n (add_processor m e s)
      else mpSearch_loop m (e + 8) n s)"

definition mpSearch :: "bytes \<Rightarrow> u32 \<Rightarrow> mp_state \<Rightarrow> mp_state" where
  "mpSearch m table s =
     mpSearch_loop m (table + sizeof_table) (unat (entryCount m table)) (s\<lparr>mp_ncpus := 0, ioapicid := 0\<rparr>)"

text \<open>With no floating pointer structure the code follows the null pointer.\<close>

definition mpInit :: "bytes \<Rightarrow> u32 \<Rightarrow> mp_state \<Rightarrow> mp_state option" where
  "mpInit m sig s = (let fp = find_mp_floating_pointer m sig in
     if fp = 0 then None else Some (mpSearch m (configurationTable m fp) s))"

section \<open>Starting the CPUs\<close>

text \<open>The two pieces of start-up code by their first and last address.\<close>

definition prepareTrampolineCode :: "u32 \<Rightarrow> u32 \<Rightarrow> u32 \<Rightarrow> u32 \<Rightarrow> bytes \<Rightarrow> bytes option" where
  "prepareTrampolineCode trampoline_start trampoline_end pMode_start pMode_end m = do {
     m \<leftarrow> memcpy 0x7000 trampoline_start (sint (trampoline_end - trampoline_start)) m;
     memcpy 0x8000 pMode_start (sint (pMode_end - pMode_start)) m
   }"

fun start_cpus :: "lapic_hw \<Rightarrow> clock \<Rightarrow> mmu_state \<Rightarrow> nat list \<Rightarrow> lapic_state \<Rightarrow> lapic_state option" where
  "start_cpus hw ticks m [] s = Some s"
| "start_cpus hw ticks m (i # is) s =
     (if i > 8 then Some s
      else do {
        s \<leftarrow> apStartup hw ticks m (of_nat i) 0x7000 s;
        s \<leftarrow> PitWait ticks 50 s;
        start_cpus hw ticks m is s
      })"

definition smpInit ::
  "lapic_hw \<Rightarrow> clock \<Rightarrow> u32 \<Rightarrow> u32 \<Rightarrow> u32 \<Rightarrow> u32 \<Rightarrow> u32 \<Rightarrow> bytes \<times> mmu_state \<times> mp_state \<times> lapic_state
    \<Rightarrow> (bytes \<times> mmu_state \<times> mp_state \<times> lapic_state) option" where
  "smpInit hw ticks sig t_start t_end p_start p_end st = (let (mem, m, mp, l) = st in do {
     mp \<leftarrow> mpInit mem sig mp;
     (m, l) \<leftarrow> lapicInit hw m l;
     mem \<leftarrow> prepareTrampolineCode t_start t_end p_start p_end mem;
     l \<leftarrow> start_cpus hw ticks m [1..<unat (mp_ncpus mp)] l;
     Some (mem, m, mp, l)
   })"

text \<open>What a started CPU does: the selector it loads for its task state segment and its own controller.\<close>

definition initializeAP ::
  "u32 \<Rightarrow> lapic_hw \<Rightarrow> mmu_state \<Rightarrow> lapic_state \<Rightarrow> (u16 \<times> mmu_state \<times> lapic_state) option" where
  "initializeAP lapicID hw m l = do {
     let apTSSSelector = push_bit 3 (5 + lapicID);
     (m, l) \<leftarrow> lapicInit hw m l;
     l \<leftarrow> lapicTimerInit m l;
     Some (ucast apTSSSelector, m, l)
   }"

section \<open>Starting the CPUs one after the other\<close>

lemma start_cpus_run:
  assumes works: "lapic_works hw m" and clock: "clock_runs T" and "\<forall>i\<in>set is. i \<le> 8"
  shows "\<exists>s'. start_cpus hw (\<lambda>n. of_nat (T n)) m is s = Some s'
    \<and> reg_writes s' = reg_writes s @ concat (map (\<lambda>i. startup_writes (of_nat i) 0x7000) is)"
  using assms(3)
proof (induction "is" arbitrary: s)
  case (Cons i "is")
  obtain s1 where s1: "apStartup hw (\<lambda>n. of_nat (T n)) m (of_nat i) 0x7000 s = Some s1"
      "reg_writes s1 = reg_writes s @ startup_writes (of_nat i) 0x7000"
    using apStartup_run [OF works clock] by blast
  obtain j where j: "PitWait (\<lambda>n. of_nat (T n)) 50 s1 = Some (s1\<lparr>tick_reads := Suc j\<rparr>)"
    using PitWait_ends [OF clock] by blast
  obtain s2 where "start_cpus hw (\<lambda>n. of_nat (T n)) m is (s1\<lparr>tick_reads := Suc j\<rparr>) = Some s2"
      "reg_writes s2 = reg_writes s1 @ concat (map (\<lambda>i. startup_writes (of_nat i) 0x7000) is)"
    using Cons.IH [of "s1\<lparr>tick_reads := Suc j\<rparr>"] Cons.prems by auto
  then show ?case using Cons.prems s1 j by simp
qed simp

section \<open>The CPUs of the table\<close>

text \<open>The processor entries of a table as the multiprocessor specification lays them out.\<close>

fun processors :: "bytes \<Rightarrow> u32 \<Rightarrow> nat \<Rightarrow> u32 list" where
  "processors m e 0 = []"
| "processors m e (Suc n) =
     (if entry_type m e = 0 then e # processors m (e + 20) n else processors m (e + 8) n)"

lemma mpSearch_loop_fold: "mpSearch_loop m e n s = fold (add_processor m) (processors m e n) s"
  by (induction n arbitrary: e s) simp_all

lemma fold_add_processor:
  assumes "mp_ncpus s = 0"
  shows "unat (mp_ncpus (fold (add_processor m) ps s)) = min MAX_CPUS (length ps)
    \<and> (\<forall>i. cpu_id (cpus (fold (add_processor m) ps s) i) = (if i < min MAX_CPUS (length ps)
          then ucast (localAPICID m (ps ! i)) else cpu_id (cpus s i))
        \<and> isBSP (cpus (fold (add_processor m) ps s) i) = (if i < min MAX_CPUS (length ps)
          then ucast (entry_flags m (ps ! i) AND 2) else isBSP (cpus s i)))"
proof (induction ps rule: rev_induct)
  case (snoc p ps)
  define r where "r = fold (add_processor m) ps s"
  have IH: "unat (mp_ncpus r) = min MAX_CPUS (length ps)"
    "cpu_id (cpus r i) = (if i < min MAX_CPUS (length ps) then ucast (localAPICID m (ps ! i)) else cpu_id (cpus s i))"
    "isBSP (cpus r i) = (if i < min MAX_CPUS (length ps) then ucast (entry_flags m (ps ! i) AND 2) else isBSP (cpus s i))" for i
    using snoc by (simp_all add: r_def)
  have step: "fold (add_processor m) (ps @ [p]) s = add_processor m p r" by (simp add: r_def)
  show ?case
  proof (cases "length ps < MAX_CPUS")
    case True
    define c where "c = (cpus r (length ps))\<lparr>cpu_id := ucast (localAPICID m p),
      isBSP := ucast (entry_flags m p AND 0x02), lapicVersion := ucast (localAPICVersion m p)\<rparr>"
    have add: "add_processor m p r = r\<lparr>cpus := (cpus r)(length ps := c), mp_ncpus := mp_ncpus r + 1\<rparr>"
      using True IH(1) by (simp add: add_processor_def c_def)
    have c: "cpu_id c = ucast (localAPICID m p)" "isBSP c = ucast (entry_flags m p AND 2)" by (simp_all add: c_def)
    have "unat (mp_ncpus r + 1) = Suc (length ps)"
      using True IH(1) unat_u32_add [of "mp_ncpus r" 1] by (simp add: MAX_CPUS_def)
    then show ?thesis
      unfolding step add using True by (simp add: IH(2,3) c nth_append less_Suc_eq)
  next
    case False
    then have "add_processor m p r = r" using IH(1) by (simp add: add_processor_def)
    then show ?thesis
      unfolding step using False by (simp add: IH nth_append)
  qed
qed (use assms in simp)

lemma mpSearch_bound: "unat (mp_ncpus (mpSearch m table s)) \<le> MAX_CPUS"
  using fold_add_processor [of "s\<lparr>mp_ncpus := 0, ioapicid := 0\<rparr>" m "processors m (table + sizeof_table) (unat (entryCount m table))"]
  by (simp add: mpSearch_def mpSearch_loop_fold)

text \<open>\<open>mpSearch\<close> records the first eight processor entries of the table, in their order, with their APIC id
  and bit 1 of their flags, and counts them; entries beyond the array are dropped and the other elements of
  the array keep what they held. Whether an entry is marked as usable makes no difference.\<close>

theorem mpSearch_collects:
  fixes m :: bytes and table :: u32 and s :: mp_state
  defines "ps \<equiv> take MAX_CPUS (processors m (table + sizeof_table) (unat (entryCount m table)))"
  shows "unat (mp_ncpus (mpSearch m table s)) = length ps
    \<and> (\<forall>i. cpu_id (cpus (mpSearch m table s) i)
          = (if i < length ps then ucast (localAPICID m (ps ! i)) else cpu_id (cpus s i))
        \<and> isBSP (cpus (mpSearch m table s) i)
          = (if i < length ps then ucast (entry_flags m (ps ! i) AND 2) else isBSP (cpus s i)))"
  using fold_add_processor [of "s\<lparr>mp_ncpus := 0, ioapicid := 0\<rparr>" m "processors m (table + sizeof_table) (unat (entryCount m table))"]
  by (simp add: mpSearch_def mpSearch_loop_fold ps_def min.commute)

end
