(* ===== verification/Interrupts.thy ===== *)
theory Interrupts
  imports Sched Smp
begin

text \<open>
  Handling interrupts: the handlers of \<open>interrupts/idt.c\<close>, \<open>interrupts/pit.c\<close> and the tick handler of
  \<open>kernel.c\<close>. A handler returns, or it switches to another thread and never comes back, or it stops the CPU
  in an endless loop; the three are kept apart. The messages are not modelled.
\<close>

section \<open>State\<close>

definition TIME_SLICE_TICKS :: u64 where "TIME_SLICE_TICKS = 5"

record Interrupt_registers =
  i_cr2 :: u32
  i_ds :: u32
  i_edi :: u32
  i_esi :: u32
  i_ebp :: u32
  i_esp :: u32
  i_ebx :: u32
  i_edx :: u32
  i_ecx :: u32
  i_eax :: u32
  interrupt_number :: u32
  err_code :: u32
  i_eip :: u32
  i_csm :: u32
  i_eflags :: u32
  i_useresp :: u32
  i_ss :: u32

record irq_state = sched_state +
  cpuTicks :: "nat \<Rightarrow> u64"
  pit_ticks :: u64
  lapic :: lapic_state
  port_log :: "(u16 \<times> u8) list"

datatype 's outcome = Returned Interrupt_registers 's | Switched regs 's | Halted 's

type_synonym 's handler = "Interrupt_registers \<Rightarrow> 's \<Rightarrow> 's outcome option"

definition outb :: "u16 \<Rightarrow> u8 \<Rightarrow> 'a irq_state_scheme \<Rightarrow> 'a irq_state_scheme" where
  "outb port v s = s\<lparr>port_log := port_log s @ [(port, v)]\<rparr>"

section \<open>Handlers\<close>

definition pit_handler :: "'a irq_state_scheme handler" where
  "pit_handler r s = Some (Returned r (s\<lparr>pit_ticks := pit_ticks s + 1\<rparr>))"

text \<open>\<open>apic\<close> is the APIC id of the CPU; \<open>schedule\<close> does not return, so \<open>eoi\<close> is reached only without it.\<close>

definition apicTimerHandler :: "u32 \<Rightarrow> regs \<Rightarrow> u32 \<Rightarrow> 'a irq_state_scheme handler" where
  "apicTimerHandler apic junk idle_entry r s = (let i = unat apic in
     if MAX_CPUS \<le> i then None
     else (let s = s\<lparr>cpuTicks := (cpuTicks s)(i := cpuTicks s i + 1)\<rparr>;
               s = s\<lparr>ticksSinceLastSwitch := (ticksSinceLastSwitch s)(i := ticksSinceLastSwitch s i + 1)\<rparr> in
       if TIME_SLICE_TICKS \<le> ticksSinceLastSwitch s i then do {
         s \<leftarrow> ageThreads apic s;
         (regs, s) \<leftarrow> schedule apic junk idle_entry apic s;
         Some (Switched regs s)
       } else do {
         l \<leftarrow> eoi (mmu (kheap s)) (lapic s);
         Some (Returned r (s\<lparr>lapic := l\<rparr>))
       }))"

definition message_handler :: "'a irq_state_scheme handler" where
  "message_handler r s = Some (Returned r s)"

definition page_fault_handler :: "'a irq_state_scheme \<Rightarrow> 'a irq_state_scheme" where
  "page_fault_handler s = s\<lparr>kheap := (kheap s)\<lparr>mmu :=
     mem_change_page_directory (kernel_directory (mmu (kheap s))) (sync_page_dirs (mmu (kheap s)))\<rparr>\<rparr>"

text \<open>A null entry of the table of the system calls is called like any other.\<close>

definition syscall_handler :: "(nat \<Rightarrow> 's handler option) \<Rightarrow> 's handler" where
  "syscall_handler syscall_functions r s =
     (if 1024 \<le> unat (i_eax r) then Some (Returned r s)
      else (case syscall_functions (unat (i_eax r)) of None \<Rightarrow> None | Some f \<Rightarrow> f r s))"

definition isr_handler :: "(nat \<Rightarrow> 'a irq_state_scheme handler option) \<Rightarrow> 'a irq_state_scheme handler" where
  "isr_handler syscall_functions r s =
     (if interrupt_number r < 32
      then Some (Halted (if interrupt_number r = 14 then page_fault_handler s else s))
      else if interrupt_number r = 128 then syscall_handler syscall_functions r s
      else Some (Returned r s))"

section \<open>Vectors\<close>

definition vector_add_handler ::
  "nat \<Rightarrow> 's handler \<Rightarrow> (nat \<Rightarrow> 's handler option) \<Rightarrow> (nat \<Rightarrow> 's handler option) option" where
  "vector_add_handler vector h hs = (if vector < 256 then Some (hs(vector \<mapsto> h)) else None)"

definition vector_remove_handler :: "nat \<Rightarrow> (nat \<Rightarrow> 's handler option) \<Rightarrow> (nat \<Rightarrow> 's handler option) option" where
  "vector_remove_handler vector hs = (if vector < 256 then Some (hs(vector := None)) else None)"

definition setup_vectors ::
  "u32 \<Rightarrow> regs \<Rightarrow> u32 \<Rightarrow> (nat \<Rightarrow> 'a irq_state_scheme handler option) \<Rightarrow> (nat \<Rightarrow> 'a irq_state_scheme handler option) option" where
  "setup_vectors apic junk idle_entry hs = do {
     hs \<leftarrow> vector_add_handler 0 pit_handler hs;
     hs \<leftarrow> vector_add_handler 32 (apicTimerHandler apic junk idle_entry) hs;
     hs \<leftarrow> vector_add_handler 0xFE message_handler hs;
     vector_add_handler 0xFF message_handler hs
   }"

text \<open>\<open>init_pit\<close>: the handler, and the mode and the two bytes of the divisor for 1000 Hz.\<close>

definition init_pit :: "(nat \<Rightarrow> 'a irq_state_scheme handler option) \<Rightarrow> 'a irq_state_scheme
    \<Rightarrow> ((nat \<Rightarrow> 'a irq_state_scheme handler option) \<times> 'a irq_state_scheme) option" where
  "init_pit hs s = do {
     hs \<leftarrow> vector_add_handler 0 pit_handler hs;
     let divisor = (1193180 :: u64) div 1000;
     Some (hs, outb 0x40 (ucast (drop_bit 8 divisor)) (outb 0x40 (ucast divisor) (outb 0x43 0x36 s)))
   }"

text \<open>The end-of-interrupt bytes for the two old controllers follow a handler that returns.\<close>

definition irq_handler :: "(nat \<Rightarrow> 'a irq_state_scheme handler option) \<Rightarrow> 'a irq_state_scheme handler" where
  "irq_handler vector_handlers r s = (let vector = sint (interrupt_number r - 32) in
     if vector < 0 \<or> 256 \<le> vector then None
     else do {
       out \<leftarrow> (case vector_handlers (nat vector) of None \<Rightarrow> Some (Returned r s) | Some h \<Rightarrow> h r s);
       (case out of
          Returned r s \<Rightarrow> Some (Returned r (if 15 \<le> interrupt_number r then outb 0xA0 0x20 (outb 0x20 0x20 s) else s))
        | _ \<Rightarrow> Some out)
     })"

section \<open>The timer interrupt\<close>

lemma setup_vectors_timer:
  "\<exists>hs. setup_vectors apic junk e hs0 = Some hs \<and> hs 32 = Some (apicTimerHandler apic junk e) \<and> hs 0 = Some pit_handler"
  by (simp add: setup_vectors_def vector_add_handler_def)

text \<open>The scheduler leaves the rest of the state alone.\<close>

lemma kstate_more_rest:
  fixes s s' :: "'a sched_state_scheme"
  shows "kstate.more s' = kstate.more s \<Longrightarrow> sched_state.more s' = sched_state.more s"
  by (cases s; cases s') simp

lemma upd_thread_rest: "upd_thread t f s = Some s' \<Longrightarrow> sched_state.more s' = sched_state.more s"
  by (intro kstate_more_rest basic_more)

lemma queue_rest:
  "enqueueThread t cpu s = Some s' \<Longrightarrow> sched_state.more s' = sched_state.more s"
  "dequeueThread cpu s = Some (t, s') \<Longrightarrow> sched_state.more s' = sched_state.more s"
  by (auto simp: enqueueThread_def dequeueThread_def bind_eq_Some_conv Let_def split: if_splits option.splits)

lemma requeue_current_rest: "requeue_current cpu s = Some s' \<Longrightarrow> sched_state.more s' = sched_state.more s"
  by (auto simp: requeue_current_def demotePriority_def bind_eq_Some_conv Let_def split: if_splits
      dest!: upd_thread_rest queue_rest)

lemma dispatch_rest: "dispatch cpu t s = Some (r, s') \<Longrightarrow> sched_state.more s' = sched_state.more s"
  by (auto simp: dispatch_def bind_eq_Some_conv Let_def dest!: upd_thread_rest)

lemma schedule_rest:
  assumes "schedule apic junk e cpu s = Some (r, s')"
  shows "sched_state.more s' = sched_state.more s"
proof -
  obtain k s1 pt s2 t s3 t' where "initIdle apic junk e s = Some (k, s1)"
      "requeue_current cpu (s1\<lparr>ptab := pt\<rparr>) = Some s2" "dequeueThread cpu s2 = Some (t, s3)"
      "dispatch cpu t' s3 = Some (r, s')"
    using assms by (auto simp: schedule_def bind_eq_Some_conv split: if_splits)
  then show ?thesis
    by (auto dest!: initIdle_more kstate_more_rest requeue_current_rest queue_rest dispatch_rest)
qed

lemma rest_fields:
  fixes s s' :: "'a irq_state_scheme"
  assumes "sched_state.more s' = sched_state.more s"
  shows "lapic s' = lapic s" and "port_log s' = port_log s" and "cpuTicks s' = cpuTicks s" and "pit_ticks s' = pit_ticks s"
  using assms by (cases s; cases s'; simp)+

text \<open>A waiting thread is pending or the one that was running.\<close>

lemma set_all_threads: "set (all_threads q) = (\<Union>p < MAX_PRIORITY. set (q p))"
  by (auto simp: all_threads_def)

lemma waiting_pending:
  "t \<in> set (all_threads (waiting s c)) \<Longrightarrow>
    t \<in> set (all_threads (pending s c)) \<or> t = currentThread s c \<and> t \<noteq> NULL"
  by (auto simp: set_all_threads waiting_def Let_def split: option.splits if_splits)

text \<open>Aging keeps threads fit to be switched to.\<close>

lemma age_regs [simp]: "t_regs (age th) = t_regs th"
  by (simp add: age_def)

lemma aged_dispatchable:
  assumes "threads s' = (\<lambda>t. if t \<in> A then map_option age (threads s t) else threads s t)"
    and "regstore s' = regstore s" and "kheap s' = kheap s" and "dispatchable s t"
  shows "dispatchable s' t"
  using assms(4) by (auto simp: dispatchable_def assms(1-3))

lemma set_aging: "set (aging s c) \<subseteq> set (all_threads (pending s c))"
  by (auto simp: aging_def all_threads_def)

text \<open>The timer handler when the time slice is over.\<close>

lemma timer_switches:
  fixes s :: "'a irq_state_scheme"
  assumes over: "TIME_SLICE_TICKS \<le> ticksSinceLastSwitch s (unat apic) + 1" and cpu: "unat apic < MAX_CPUS"
    and ready: "kernel_ready s xs (n + 4)" "KProcessID (ptab s) + 1 \<notin> snd ` set xs" and ok: "queues_ok s (unat apic)"
    and cur: "currentThread s (unat apic) = NULL \<or> dispatchable s (currentThread s (unat apic))"
    and pend: "\<forall>t \<in> set (all_threads (pending s (unat apic))). dispatchable s t" and dist: "distinct (aging s (unat apic))"
  shows "\<exists>rg s'. apicTimerHandler apic junk e r s = Some (Switched rg s') \<and> lapic s' = lapic s \<and> port_log s' = port_log s"
proof -
  define c where "c = unat apic"
  define s1 where "s1 = (s\<lparr>cpuTicks := (cpuTicks s)(c := cpuTicks s c + 1)\<rparr>)
    \<lparr>ticksSinceLastSwitch := (ticksSinceLastSwitch s)(c := ticksSinceLastSwitch s c + 1)\<rparr>"
  have same1: "cpuRunqueues s1 = cpuRunqueues s" "threadsPerCPU s1 = threadsPerCPU s" "threads s1 = threads s"
    "currentThread s1 = currentThread s" "kheap s1 = kheap s" "ptab s1 = ptab s" "regstore s1 = regstore s"
    "lapic s1 = lapic s" "port_log s1 = port_log s" by (simp_all add: s1_def)
  have pend1: "pending s1 = pending s" using pending_cong [OF same1(1)] by simp
  have ag: "aging s1 c = aging s c" by (simp add: aging_def pend1)
  define s2 where "s2 = s1\<lparr>threads := (\<lambda>t. if t \<in> set (aging s1 c) then map_option age (threads s1 t) else threads s1 t)\<rparr>"
  have "\<forall>t \<in> set (aging s1 c). t \<noteq> NULL \<and> threads s1 t \<noteq> None"
    unfolding ag using pend set_aging [of s c] by (auto simp: same1(3) c_def dispatchable_def)
  then have age: "ageThreads apic s1 = Some s2"
    using ageThreads_run [of apic s1] cpu dist ag by (simp add: s2_def c_def)
  have same2: "cpuRunqueues s2 = cpuRunqueues s" "threadsPerCPU s2 = threadsPerCPU s" "currentThread s2 = currentThread s"
    "kheap s2 = kheap s" "ptab s2 = ptab s" "regstore s2 = regstore s" "lapic s2 = lapic s" "port_log s2 = port_log s"
    by (simp_all add: s2_def same1)
  have disp: "dispatchable s t \<Longrightarrow> dispatchable s2 t" for t
    by (rule aged_dispatchable [of s2 "set (aging s1 c)" s]) (simp_all add: same2, simp add: s2_def same1(3) cong: if_cong)
  have "\<forall>t \<in> set (all_threads (waiting s2 c)). dispatchable s2 t"
  proof
    fix t assume "t \<in> set (all_threads (waiting s2 c))"
    then have "t \<in> set (all_threads (pending s c)) \<or> t = currentThread s c \<and> t \<noteq> NULL"
      using waiting_pending [of t s2 c] pending_cong [OF same2(1)] by (simp add: same2(3))
    then show "dispatchable s2 t" using pend cur disp unfolding c_def by blast
  qed
  moreover have "kernel_ready s2 xs (n + 4)" using ready(1) by (simp add: kernel_ready_def same2(4,5))
  moreover have "queues_ok s2 c" using ok queues_ok_cong [OF same2(1,2)] by (simp add: c_def)
  ultimately obtain rg s' where sched: "schedule apic junk e apic s2 = Some (rg, s')"
    using schedule_run [of s2 xs n apic apic junk e] ready(2) cpu cur disp by (auto simp: same2(3,5) c_def)
  have "apicTimerHandler apic junk e r s = Some (Switched rg s')"
    using cpu over age sched by (simp add: apicTimerHandler_def c_def s1_def Let_def)
  then show ?thesis
    using rest_fields [OF schedule_rest [OF sched]] same2(7,8) by auto
qed

text \<open>C26: the timer interrupt (vector 64, with the handlers of \<open>setup_vectors\<close>). Before the time slice is over it
  counts the tick and acknowledges itself at the local controller and at both old ones. On the tick that
  ends the time slice the CPU is switched to another thread and none of the acknowledgements is made.\<close>

theorem timer_interrupt:
  fixes s :: "'a irq_state_scheme"
  assumes "setup_vectors apic junk e hs0 = Some hs" and "interrupt_number r = 64" and "unat apic < MAX_CPUS"
    and "kernel_ready s xs (n + 4)" and "KProcessID (ptab s) + 1 \<notin> snd ` set xs" and "queues_ok s (unat apic)"
    and "currentThread s (unat apic) = NULL \<or> dispatchable s (currentThread s (unat apic))"
    and "\<forall>t \<in> set (all_threads (pending s (unat apic))). dispatchable s t" and "distinct (aging s (unat apic))"
    and "reg_mapped (mmu (kheap s)) EOI" and "reg_mapped (mmu (kheap s)) LAPIC_ID"
  shows "if TIME_SLICE_TICKS \<le> ticksSinceLastSwitch s (unat apic) + 1
    then \<exists>rg s'. irq_handler hs r s = Some (Switched rg s') \<and> lapic s' = lapic s \<and> port_log s' = port_log s
    else \<exists>s'. irq_handler hs r s = Some (Returned r s') \<and> reg_writes (lapic s') = reg_writes (lapic s) @ [(EOI, 0)]
      \<and> port_log s' = port_log s @ [(0x20, 0x20), (0xA0, 0x20)]
      \<and> ticksSinceLastSwitch s' (unat apic) = ticksSinceLastSwitch s (unat apic) + 1"
proof -
  have hs: "hs 32 = Some (apicTimerHandler apic junk e)"
    using assms(1) by (auto simp: setup_vectors_def vector_add_handler_def)
  have irq: "irq_handler hs r s = do {
      out \<leftarrow> apicTimerHandler apic junk e r s;
      (case out of Returned r s \<Rightarrow> Some (Returned r (if 15 \<le> interrupt_number r then outb 0xA0 0x20 (outb 0x20 0x20 s) else s))
       | _ \<Rightarrow> Some out) }"
    using assms(2) hs by (simp add: irq_handler_def)
  show ?thesis
  proof (cases "TIME_SLICE_TICKS \<le> ticksSinceLastSwitch s (unat apic) + 1")
    case True
    with timer_switches [OF True assms(3-9), of junk e r] irq show ?thesis by auto
  next
    case False
    with assms(2,3,10,11) irq show ?thesis
      by (simp add: apicTimerHandler_def eoi_def lapicWrite_def outb_def Let_def)
  qed
qed

text \<open>The example of the scheduler on a machine whose controller is mapped; CPU 2 is at the end of its time slice.\<close>

definition irq_demo :: irq_state where
  "irq_demo = \<lparr>kheap = (kheap kernel_demo)\<lparr>mmu := mmu_demo\<lparr>ram := (ram mmu_demo)
       (2 := (ram mmu_demo 2)(832 := 0x5003, 1019 := 0x7003), 5 := (\<lambda>_. 0x6003), 7 := (\<lambda>_. 0)(512 := 0xFEE00003))\<rparr>\<rparr>,
     ptab = three, threads = threads sched_demo, regstore = regstore sched_demo, cpuRunqueues = cpuRunqueues sched_demo,
     threadsPerCPU = threadsPerCPU sched_demo, currentThread = currentThread sched_demo,
     ticksSinceLastSwitch = (\<lambda>_. 4), ncpus = 3, descs = desc_zero, cpuTicks = (\<lambda>_. 0), pit_ticks = 0,
     lapic = lapic_start, port_log = []\<rparr>"

definition timer_regs :: Interrupt_registers where
  "timer_regs = \<lparr>i_cr2 = 0, i_ds = 0, i_edi = 0, i_esi = 0, i_ebp = 0, i_esp = 0, i_ebx = 0, i_edx = 0, i_ecx = 0, i_eax = 0,
     interrupt_number = 64, err_code = 0, i_eip = 0, i_csm = 0, i_eflags = 0, i_useresp = 0, i_ss = 0\<rparr>"

lemma irq_demo_heap: "i < 4096 \<Longrightarrow> heap_mapped (kheap irq_demo) i"
  by (simp add: heap_mapped_def translate_def walk_def irq_demo_def mmu_demo_def pframe_def
      unat_pd_index HEAP_START_ADDRESS_def unat_word_ariths unat_of_nat present_def page_flags Let_def)

lemma irq_demo_free: "free_addrs (kheap irq_demo) = {0xD0001000, 0xD0002000, 0xD0003000, 0xD0004000}"
proof -
  have "extra_blocks (kheap irq_demo) = 0" "extra_blocks (kheap kernel_demo) = 0"
    by (rule heap_size_fixed, simp add: irq_demo_def kernel_demo_def heap_demo_def HEAP_BLOCK_SIZE_def)+
  then show ?thesis
    using kernel_demo_free by (simp add: free_addrs_fixed) (simp add: irq_demo_def blocks_def block_free_def)
qed

lemma irq_demo_ready: "kernel_ready irq_demo [(48, 1), (32, 5), (64, 9)] (0 + 4)"
proof -
  have b: "blocks (kheap irq_demo) = 5" "\<not> block_free (kheap irq_demo) 0"
    by (simp_all add: irq_demo_def kernel_demo_def blocks_def block_free_def entry_consts)
  have "table_mapped (kheap irq_demo)" using irq_demo_heap by (simp add: table_mapped_def b(1))
  then have "heap_ready (kheap irq_demo) 4" using b by (simp add: heap_ready_def irq_demo_free)
  then show ?thesis
    using three_table by (simp add: kernel_ready_def irq_demo_free) (simp add: irq_demo_def three_def initLock_def)
qed

lemma irq_demo_regs: "reg_mapped (mmu (kheap irq_demo)) EOI" "reg_mapped (mmu (kheap irq_demo)) LAPIC_ID"
  by (simp_all add: reg_mapped_def translate_def walk_def irq_demo_def mmu_demo_def pframe_def present_def page_flags
      IA32_APIC_BASE_def EOI_def LAPIC_ID_def unat_pd_index unat_pt_index Let_def)

theorem timer_interrupt_witness:
  "\<exists>hs rg s'. setup_vectors 2 regs_demo 0xC0100000 (\<lambda>_. None) = Some hs
    \<and> irq_handler hs timer_regs irq_demo = Some (Switched rg s') \<and> reg_writes (lapic s') = []"
proof -
  obtain hs :: "nat \<Rightarrow> irq_state handler option" where hs: "setup_vectors 2 regs_demo 0xC0100000 (\<lambda>_. None) = Some hs"
    using setup_vectors_timer by blast
  have q: "cpuRunqueues irq_demo = cpuRunqueues sched_demo" "currentThread irq_demo 2 = 0x100"
      "ticksSinceLastSwitch irq_demo 2 = 4" "lapic irq_demo = lapic_start" "KProcessID (ptab irq_demo) = 9"
    by (simp_all add: irq_demo_def sched_demo_def three_def)
  have pend: "pending irq_demo 2 = (\<lambda>_. [])(3 := [0x200])"
    by (auto simp: fun_eq_iff pending_def q(1) sched_demo_def)
  have disp: "dispatchable irq_demo 0x100" "dispatchable irq_demo 0x200"
    unfolding dispatchable_def irq_demo_free by (simp_all add: irq_demo_def sched_demo_def zero_thread_def NULL_def)
  have "queues_ok irq_demo 2"
    using sched_demo_ok pend by (simp add: queues_ok_def sched_demo_pending accepted_def q(1)) (simp add: irq_demo_def)
  moreover have "aging irq_demo 2 = [0x200]" "all_threads (pending irq_demo 2) = [0x200]"
    by (simp_all add: aging_def all_threads_def pend five)
  moreover have "interrupt_number timer_regs = 64" by (simp add: timer_regs_def)
  ultimately have "\<exists>rg s'. irq_handler hs timer_regs irq_demo = Some (Switched rg s') \<and> lapic s' = lapic_start"
    using timer_interrupt [OF hs, of timer_regs irq_demo "[(48, 1), (32, 5), (64, 9)]" 0] irq_demo_ready irq_demo_regs disp q
    by (auto simp: MAX_CPUS_def TIME_SLICE_TICKS_def)
  then show ?thesis using hs by (auto simp: lapic_start_def)
qed

end
