(* ===== verification/Files.thy ===== *)
theory Files
  imports Heap Console Fatfs Keyboard
begin

text \<open>
  The system interface of the kernel, \<open>libk/libk.c\<close>: file descriptors over FatFs, the console as standard
  input and output, and \<open>sbrk\<close>. FatFs is a record of functions on a state of their own. A path is the list
  of its characters, \<open>None\<close> the null pointer; a FatFs file object is the address of its \<open>FIL\<close>.
\<close>

section \<open>Data\<close>

definition MAX_FILES :: nat where "MAX_FILES = 32"
definition MAX_LFN :: nat where "MAX_LFN = 255"
definition STDIN_FILENO :: int where "STDIN_FILENO = 0"
definition STDOUT_FILENO :: int where "STDOUT_FILENO = 1"
definition STDERR_FILENO :: int where "STDERR_FILENO = 2"

text \<open>The values of newlib's \<open>errno.h\<close> and \<open>fcntl.h\<close>.\<close>

definition ENOENT :: int where "ENOENT = 2"
definition EIO :: int where "EIO = 5"
definition EBADF :: int where "EBADF = 9"
definition ECHILD :: int where "ECHILD = 10"
definition ENOMEM :: int where "ENOMEM = 12"
definition EACCES :: int where "EACCES = 13"
definition EBUSY :: int where "EBUSY = 16"
definition EEXIST :: int where "EEXIST = 17"
definition ENODEV :: int where "ENODEV = 19"
definition EINVAL :: int where "EINVAL = 22"
definition EMFILE :: int where "EMFILE = 24"
definition EROFS :: int where "EROFS = 30"
definition EMLINK :: int where "EMLINK = 31"
definition ETIMEDOUT :: int where "ETIMEDOUT = 116"

definition O_WRONLY :: u32 where "O_WRONLY = 1"
definition O_RDWR :: u32 where "O_RDWR = 2"
definition O_APPEND :: u32 where "O_APPEND = 0x0008"
definition O_CREAT :: u32 where "O_CREAT = 0x0200"
definition O_TRUNC :: u32 where "O_TRUNC = 0x0400"

definition S_IFDIR :: u32 where "S_IFDIR = 0x4000"
definition S_IFREG :: u32 where "S_IFREG = 0x8000"

text \<open>\<open>sizeof(FIL)\<close> with the configuration of the repository.\<close>

definition sizeof_FIL :: u32 where "sizeof_FIL = 552"

text \<open>What the kernel calls of FatFs, on a state \<open>'d\<close> that holds the volume and the file objects.\<close>

record 'd fatfs =
  f_open :: "u32 \<Rightarrow> cstr \<Rightarrow> u8 \<Rightarrow> 'd \<Rightarrow> FRESULT \<times> 'd"
  f_close :: "u32 \<Rightarrow> 'd \<Rightarrow> FRESULT \<times> 'd"
  f_read :: "u32 \<Rightarrow> u32 \<Rightarrow> 'd \<Rightarrow> FRESULT \<times> u8 list \<times> 'd"
  f_write :: "u32 \<Rightarrow> u8 list \<Rightarrow> 'd \<Rightarrow> FRESULT \<times> u32 \<times> 'd"
  f_lseek :: "u32 \<Rightarrow> u32 \<Rightarrow> 'd \<Rightarrow> FRESULT \<times> 'd"
  f_tell :: "u32 \<Rightarrow> 'd \<Rightarrow> u32"
  f_stat :: "cstr \<Rightarrow> 'd \<Rightarrow> FRESULT \<times> u32 \<times> u8"
  f_unlink :: "cstr \<Rightarrow> 'd \<Rightarrow> FRESULT \<times> 'd"
  f_mkdir :: "cstr \<Rightarrow> 'd \<Rightarrow> FRESULT \<times> 'd"

record 'd file_state =
  volume :: 'd
  fil_heap :: heap_state
  file_table :: "nat \<Rightarrow> u32"
  entry_fil :: "nat \<Rightarrow> u32"
  entry_path :: "nat \<Rightarrow> cstr"
  errno :: int
  console :: screen

section \<open>Helpers\<close>

fun map_fresult_to_errno :: "FRESULT \<Rightarrow> int" where
  "map_fresult_to_errno FR_OK = 0"
| "map_fresult_to_errno FR_DISK_ERR = EIO"
| "map_fresult_to_errno FR_INT_ERR = EIO"
| "map_fresult_to_errno FR_NOT_READY = ENODEV"
| "map_fresult_to_errno FR_NO_FILE = ENOENT"
| "map_fresult_to_errno FR_NO_PATH = ENOENT"
| "map_fresult_to_errno FR_INVALID_NAME = EINVAL"
| "map_fresult_to_errno FR_DENIED = EACCES"
| "map_fresult_to_errno FR_EXIST = EEXIST"
| "map_fresult_to_errno FR_INVALID_OBJECT = EBADF"
| "map_fresult_to_errno FR_WRITE_PROTECTED = EROFS"
| "map_fresult_to_errno FR_INVALID_DRIVE = EINVAL"
| "map_fresult_to_errno FR_NOT_ENABLED = ENODEV"
| "map_fresult_to_errno FR_NO_FILESYSTEM = ENODEV"
| "map_fresult_to_errno FR_MKFS_ABORTED = EIO"
| "map_fresult_to_errno FR_TIMEOUT = ETIMEDOUT"
| "map_fresult_to_errno FR_LOCKED = EBUSY"
| "map_fresult_to_errno FR_NOT_ENOUGH_CORE = ENOMEM"
| "map_fresult_to_errno FR_TOO_MANY_OPEN_FILES = EMFILE"
| "map_fresult_to_errno FR_INVALID_PARAMETER = EINVAL"

definition fail :: "int \<Rightarrow> 'd file_state \<Rightarrow> int \<times> 'd file_state" where
  "fail e s = (- 1, s\<lparr>errno := e\<rparr>)"

text \<open>The end of most functions: -1 and an error number, or the value.\<close>

definition check :: "FRESULT \<Rightarrow> int \<Rightarrow> 'd file_state \<Rightarrow> int \<times> 'd file_state" where
  "check res v s = (if res \<noteq> FR_OK then fail (map_fresult_to_errno res) s else (v, s))"

definition get_free_fd :: "'d file_state \<Rightarrow> int" where
  "get_free_fd s = (case find (\<lambda>fd. file_table s fd = 0) [3..<MAX_FILES] of None \<Rightarrow> - 1 | Some fd \<Rightarrow> int fd)"

definition translate_flags :: "u32 \<Rightarrow> u8" where
  "translate_flags flags =
     (let mode = FA_READ;
          mode = (if flags AND O_RDWR = O_RDWR then FA_READ OR FA_WRITE
                  else if flags AND O_WRONLY \<noteq> 0 then FA_WRITE else mode);
          mode = (if flags AND O_CREAT \<noteq> 0 then mode OR FA_CREATE_ALWAYS else mode);
          mode = (if flags AND O_APPEND \<noteq> 0 then mode OR FA_OPEN_APPEND else mode)
      in if flags AND O_TRUNC \<noteq> 0 then mode OR FA_CREATE_ALWAYS else mode)"

text \<open>A descriptor that may be used with a file: the check of \<open>close\<close>, \<open>lseek\<close>, \<open>fstat\<close> and \<open>write\<close>.\<close>

definition open_fd :: "'d file_state \<Rightarrow> int \<Rightarrow> bool" where
  "open_fd s fd \<longleftrightarrow> \<not> (fd < 0 \<or> int MAX_FILES \<le> fd \<or> file_table s (nat fd) = 0)"

section \<open>Files\<close>

definition open_file :: "'d fatfs \<Rightarrow> cstr option \<Rightarrow> u32 \<Rightarrow> 'd file_state \<Rightarrow> (int \<times> 'd file_state) option" where
  "open_file ff name flags s =
     (case name of
        None \<Rightarrow> Some (fail EINVAL s)
      | Some nm \<Rightarrow>
          (let fd = get_free_fd s in
           if fd < 0 then Some (fail EMFILE s)
           else do {
             (fil, h) \<leftarrow> kmalloc sizeof_FIL (fil_heap s);
             let s = s\<lparr>fil_heap := h, entry_fil := (entry_fil s)(nat fd := fil),
                       entry_path := (entry_path s)(nat fd := take MAX_LFN nm)\<rparr>;
             let (res, d) = f_open ff fil (entry_path s (nat fd)) (translate_flags flags) (volume s);
             let s = s\<lparr>volume := d\<rparr>;
             Some (if res \<noteq> FR_OK then fail (map_fresult_to_errno res) s
                   else (fd, s\<lparr>file_table := (file_table s)(nat fd := entry_fil s (nat fd))\<rparr>))
           }))"

definition close_file :: "'d fatfs \<Rightarrow> int \<Rightarrow> 'd file_state \<Rightarrow> int \<times> 'd file_state" where
  "close_file ff file s =
     (if \<not> open_fd s file then fail EBADF s
      else (let (res, d) = f_close ff (file_table s (nat file)) (volume s); s = s\<lparr>volume := d\<rparr> in
        if res \<noteq> FR_OK then fail (map_fresult_to_errno res) s
        else (0, s\<lparr>file_table := (file_table s)(nat file := 0), entry_path := (entry_path s)(nat file := [])\<rparr>)))"

text \<open>Seeking to a position and returning where the file is then; \<open>off_t\<close> is \<open>long\<close>.\<close>

definition seek_to :: "'d fatfs \<Rightarrow> u32 \<Rightarrow> u32 \<Rightarrow> 'd file_state \<Rightarrow> int \<times> 'd file_state" where
  "seek_to ff fil pos s =
     (let (res, d) = f_lseek ff fil pos (volume s); s = s\<lparr>volume := d\<rparr>
      in check res (sint (f_tell ff fil (volume s))) s)"

definition lseek :: "'d fatfs \<Rightarrow> int \<Rightarrow> u32 \<Rightarrow> int \<Rightarrow> 'd file_state \<Rightarrow> int \<times> 'd file_state" where
  "lseek ff file off whence s =
     (if \<not> open_fd s file then fail EBADF s
      else (let fil = file_table s (nat file) in
        if whence = 0 then seek_to ff fil off s
        else if whence = 1 then seek_to ff fil (f_tell ff fil (volume s) + off) s
        else if whence = 2 then
          (let (res, fsize, attr) = f_stat ff (entry_path s (nat file)) (volume s)
           in if res \<noteq> FR_OK then fail (map_fresult_to_errno res) s else seek_to ff fil (fsize + off) s)
        else fail EINVAL s))"

text \<open>
  \<open>get_key_from_buffer\<close> until it returns a key. The list is what will be typed: whenever the buffer is
  empty the CPU sleeps until the interrupt of the next key puts it there. With nothing typed any more the
  loop waits for ever.
\<close>

fun wait_key :: "keyboard \<Rightarrow> u32 list \<Rightarrow> (u32 \<times> keyboard \<times> u32 list) option" where
  "wait_key k typed = (let (key, k) = get_key_from_buffer k in
     if key \<noteq> 0 then Some (key, k, typed)
     else (case typed of [] \<Rightarrow> None | x # typed \<Rightarrow> wait_key (add_key_to_buffer x k) typed))"

declare wait_key.simps [simp del]

text \<open>The list is what is stored at \<open>dst\<close>; the final zero is stored also when \<open>len\<close> is 0.\<close>

function console_read_line :: "nat \<Rightarrow> nat \<Rightarrow> keyboard \<Rightarrow> u32 list \<Rightarrow> (u8 list \<times> keyboard \<times> u32 list) option" where
  "console_read_line count len k typed =
     (if count + 1 < len then do {
        (key, k, typed) \<leftarrow> wait_key k typed;
        if key = 10 then Some ([ucast key, 0], k, typed)
        else do {
          (out, k, typed) \<leftarrow> console_read_line (Suc count) len k typed;
          Some (ucast key # out, k, typed)
        }
      } else Some ([0], k, typed))"
  by pat_completeness auto
termination
  by (relation "measure (\<lambda>(count, len, k, typed). len - count)") auto

declare console_read_line.simps [simp del]

text \<open>The result, the bytes stored at \<open>buf\<close>, the keyboard afterwards and the state.\<close>

definition read_file :: "'d fatfs \<Rightarrow> int \<Rightarrow> u32 \<Rightarrow> keyboard \<Rightarrow> u32 list \<Rightarrow> 'd file_state
    \<Rightarrow> (int \<times> u8 list \<times> keyboard \<times> u32 list \<times> 'd file_state) option" where
  "read_file ff file len k typed s =
     (if file < 0 \<or> int MAX_FILES \<le> file then (let (r, s) = fail EBADF s in Some (r, [], k, typed, s))
      else if file = STDIN_FILENO then do {
        (out, k, typed) \<leftarrow> console_read_line 0 (unat len) k typed;
        Some (int (length out) - 1, out, k, typed, s)
      }
      else (let (res, bytes, d) = f_read ff (file_table s (nat file)) len (volume s);
                (r, s) = check res (sint (of_nat (length bytes) :: u32)) (s\<lparr>volume := d\<rparr>)
            in Some (r, bytes, k, typed, s)))"

record file_stat =
  st_size :: u32
  st_mode :: u32

definition stat_path :: "'d fatfs \<Rightarrow> cstr option \<Rightarrow> bool \<Rightarrow> 'd file_state \<Rightarrow> (int \<times> file_stat option) \<times> 'd file_state" where
  "stat_path ff path st_null s =
     (case path of
        None \<Rightarrow> (let (r, s) = fail EINVAL s in ((r, None), s))
      | Some p \<Rightarrow>
          if st_null then (let (r, s) = fail EINVAL s in ((r, None), s))
          else (let (res, fsize, attr) = f_stat ff p (volume s) in
            if res \<noteq> FR_OK then (let (r, s) = fail (map_fresult_to_errno res) s in ((r, None), s))
            else ((0, Some \<lparr>st_size = fsize, st_mode = (if attr AND AM_DIR \<noteq> 0 then S_IFDIR else S_IFREG)\<rparr>), s)))"

definition fstat :: "'d fatfs \<Rightarrow> int \<Rightarrow> bool \<Rightarrow> 'd file_state \<Rightarrow> (int \<times> file_stat option) \<times> 'd file_state" where
  "fstat ff file st_null s =
     (if \<not> open_fd s file then (let (r, s) = fail EBADF s in ((r, None), s))
      else stat_path ff (Some (entry_path s (nat file))) st_null s)"

text \<open>
  \<open>buf\<close> is \<open>None\<close> for the null pointer; what it points to is \<open>None\<close> when it cannot be read. On the console,
  \<open>kernel_write\<close> is called with the text itself as the format; \<open>stack\<close> is what lies on the stack where the
  arguments would be, \<open>str_at\<close> the memory that a \<open>%s\<close> reads. The text ends at its first zero. The copy of the
  text is an array of the length that was passed, on the stack of the kernel: \<open>room\<close> is how much of the stack is
  left, and a text for which that is not enough overruns it, which is \<open>None\<close>.
\<close>

definition write_file :: "nat \<Rightarrow> 'd fatfs \<Rightarrow> (u32 \<Rightarrow> cstr option) \<Rightarrow> (nat \<Rightarrow> u32) \<Rightarrow> int \<Rightarrow> u8 list option option
    \<Rightarrow> 'd file_state \<Rightarrow> (int \<times> 'd file_state) option" where
  "write_file room ff str_at stack fd buf s =
     (case buf of
        None \<Rightarrow> Some (fail EINVAL s)
      | Some content \<Rightarrow>
          if fd = STDOUT_FILENO \<or> fd = STDERR_FILENO then do {
            bytes \<leftarrow> content;
            _ \<leftarrow> (if length bytes + 1 \<le> room then Some () else None);
            scr \<leftarrow> kernel_write str_at (takeWhile (\<lambda>b. b \<noteq> 0) bytes) stack (console s);
            Some (sint (of_nat (length bytes) :: u32), s\<lparr>console := scr\<rparr>)
          }
          else if \<not> open_fd s fd then Some (fail EBADF s)
          else do {
            bytes \<leftarrow> content;
            let (res, bw, d) = f_write ff (file_table s (nat fd)) bytes (volume s);
            Some (check res (sint bw) (s\<lparr>volume := d\<rparr>))
          })"

definition unlink :: "'d fatfs \<Rightarrow> cstr option \<Rightarrow> 'd file_state \<Rightarrow> int \<times> 'd file_state" where
  "unlink ff name s =
     (case name of None \<Rightarrow> fail EINVAL s
      | Some nm \<Rightarrow> (let (res, d) = f_unlink ff nm (volume s) in check res 0 (s\<lparr>volume := d\<rparr>)))"

definition mkdir :: "'d fatfs \<Rightarrow> cstr option \<Rightarrow> 'd file_state \<Rightarrow> int \<times> 'd file_state" where
  "mkdir ff path s =
     (case path of None \<Rightarrow> fail EINVAL s
      | Some p \<Rightarrow> (let (res, d) = f_mkdir ff p (volume s) in check res 0 (s\<lparr>volume := d\<rparr>)))"

text \<open>\<open>dup\<close> does not check its argument: a descriptor outside of the table is read beyond it.\<close>

definition dup :: "int \<Rightarrow> 'd file_state \<Rightarrow> (int \<times> 'd file_state) option" where
  "dup fd s = (let new_fd = get_free_fd s in
     if new_fd < 0 then Some (fail EMFILE s)
     else if fd < 0 \<or> int MAX_FILES \<le> fd then None
     else Some (new_fd, s\<lparr>file_table := (file_table s)(nat new_fd := file_table s (nat fd)),
                          entry_path := (entry_path s)(nat new_fd := [])\<rparr>))"

definition dup2 :: "'d fatfs \<Rightarrow> int \<Rightarrow> int \<Rightarrow> 'd file_state \<Rightarrow> int \<times> 'd file_state" where
  "dup2 ff oldfd newfd s =
     (if \<not> open_fd s oldfd then fail EBADF s
      else if newfd < 0 \<or> int MAX_FILES \<le> newfd then fail EBADF s
      else (let s = (if file_table s (nat newfd) \<noteq> 0 then snd (close_file ff newfd s) else s)
            in (newfd, s\<lparr>file_table := (file_table s)(nat newfd := file_table s (nat oldfd)),
                         entry_path := (entry_path s)(nat newfd := take MAX_LFN (entry_path s (nat oldfd)))\<rparr>)))"

section \<open>The rest of the interface\<close>

definition isatty :: "int \<Rightarrow> int" where "isatty file = 1"
definition kill :: "int \<Rightarrow> int \<Rightarrow> 'd file_state \<Rightarrow> int \<times> 'd file_state" where "kill p sig s = fail EINVAL s"
definition link :: "'d file_state \<Rightarrow> int \<times> 'd file_state" where "link s = fail EMLINK s"
definition times :: "'d file_state \<Rightarrow> int \<times> 'd file_state" where "times s = fail EACCES s"
definition wait :: "'d file_state \<Rightarrow> int \<times> 'd file_state" where "wait s = fail ECHILD s"

text \<open>The end of the kernel's own heap; the result and the new end. The pointers are compared unsigned.\<close>

definition heap_end_start :: u32 where "heap_end_start = 0xC3000000"
definition heap_limit :: u32 where "heap_limit = 0xC500000"

definition sbrk :: "u32 \<Rightarrow> u32 \<Rightarrow> u32 \<times> u32" where
  "sbrk increment heap_end = (let new_heap_end = heap_end + increment in
     if heap_limit < new_heap_end then (- 1, heap_end) else (heap_end, new_heap_end))"

section \<open>Opening and closing\<close>

lemma get_free_fd_least:
  "get_free_fd s = int fd \<longleftrightarrow> 3 \<le> fd \<and> fd < MAX_FILES \<and> file_table s fd = 0
    \<and> (\<forall>i. 3 \<le> i \<longrightarrow> i < fd \<longrightarrow> file_table s i \<noteq> 0)"
proof (cases "find (\<lambda>fd. file_table s fd = 0) [3..<MAX_FILES]")
  case None
  then have "get_free_fd s = - 1" by (simp add: get_free_fd_def)
  then show ?thesis using None by (auto simp: find_None_iff)
next
  case (Some k)
  then obtain j where j: "j < MAX_FILES - 3" "k = 3 + j" "file_table s k = 0" "\<forall>i < j. file_table s (3 + i) \<noteq> 0"
    by (auto simp: find_Some_iff)
  have least: "file_table s i \<noteq> 0" if "3 \<le> i" "i < k" for i
    using that j(2,4) by (metis add_diff_inverse_nat add_less_cancel_left not_less)
  then show ?thesis
  proof -
    have k: "get_free_fd s = int k" "3 \<le> k" "k < MAX_FILES" "file_table s k = 0"
      using Some j by (simp_all add: get_free_fd_def)
    have "k = fd" if "3 \<le> fd" "file_table s fd = 0" "\<forall>i. 3 \<le> i \<longrightarrow> i < fd \<longrightarrow> file_table s i \<noteq> 0"
      using that k least by (metis linorder_neqE_nat)
    then show ?thesis using k least by auto
  qed
qed

text \<open>C38: when the file system opens the file, \<open>open\<close> returns the lowest descriptor from 3 on that is free, and
  changes the table only there; when the file system closes it, \<open>close\<close> of this descriptor returns 0 and
  restores the table. The memory of the file object is not given back: the heap stays as \<open>kmalloc\<close> left it.\<close>

theorem open_close:
  assumes "get_free_fd s = int fd" and "kmalloc sizeof_FIL (fil_heap s) = Some (fil, h)" and "fil \<noteq> 0"
    and "f_open ff fil (take MAX_LFN name) (translate_flags flags) (volume s) = (FR_OK, d)"
    and "f_close ff fil d = (FR_OK, d')"
  shows "3 \<le> fd \<and> fd < MAX_FILES \<and> (\<forall>i. 3 \<le> i \<longrightarrow> i < fd \<longrightarrow> file_table s i \<noteq> 0)
    \<and> (\<exists>s1 s2. open_file ff (Some name) flags s = Some (int fd, s1) \<and> file_table s1 = (file_table s)(fd := fil)
        \<and> close_file ff (int fd) s1 = (0, s2) \<and> file_table s2 = file_table s \<and> volume s2 = d' \<and> fil_heap s2 = h)"
proof -
  have fd: "3 \<le> fd" "fd < MAX_FILES" "file_table s fd = 0" "\<forall>i. 3 \<le> i \<longrightarrow> i < fd \<longrightarrow> file_table s i \<noteq> 0"
    using assms(1) by (simp_all add: get_free_fd_least)
  define s1 where "s1 = s\<lparr>fil_heap := h, entry_fil := (entry_fil s)(fd := fil),
    entry_path := (entry_path s)(fd := take MAX_LFN name), volume := d, file_table := (file_table s)(fd := fil)\<rparr>"
  define s2 where "s2 = s1\<lparr>volume := d', file_table := file_table s, entry_path := (entry_path s1)(fd := [])\<rparr>"
  have "open_file ff (Some name) flags s = Some (int fd, s1)"
    using assms(1,2,4) by (simp add: open_file_def s1_def Let_def)
  moreover have "(file_table s)(fd := 0) = file_table s" using fd(3) by auto
  then have "close_file ff (int fd) s1 = (0, s2)"
    using assms(3,5) fd(2) by (simp add: close_file_def open_fd_def s1_def s2_def)
  ultimately show ?thesis using fd by (simp add: s1_def s2_def)
qed

text \<open>A file that does not open leaves the table alone, but the memory for its object is gone as well.\<close>

lemma open_failure:
  assumes "get_free_fd s = int fd" and "kmalloc sizeof_FIL (fil_heap s) = Some (fil, h)"
    and "f_open ff fil (take MAX_LFN name) (translate_flags flags) (volume s) = (res, d)" and "res \<noteq> FR_OK"
  shows "\<exists>s'. open_file ff (Some name) flags s = Some (- 1, s') \<and> errno s' = map_fresult_to_errno res
    \<and> file_table s' = file_table s \<and> fil_heap s' = h"
  using assms by (simp add: open_file_def fail_def Let_def)

lemma open_table_full:
  assumes "get_free_fd s < 0"
  shows "open_file ff (Some name) flags s = Some (- 1, s\<lparr>errno := EMFILE\<rparr>)"
  using assms by (simp add: open_file_def fail_def)

text \<open>After \<open>dup\<close>, closing one of the two descriptors leaves the other one at a closed file.\<close>

lemma dup_close_other:
  assumes "open_fd s fd" and "get_free_fd s = int nfd" and "f_close ff (file_table s (nat fd)) (volume s) = (FR_OK, d)"
  shows "\<exists>s1 s2. dup fd s = Some (int nfd, s1) \<and> close_file ff fd s1 = (0, s2)
    \<and> file_table s2 nfd = file_table s (nat fd) \<and> open_fd s2 (int nfd)"
proof -
  have n: "nfd < MAX_FILES" "file_table s nfd = 0" using assms(2) by (simp_all add: get_free_fd_least)
  moreover have "0 \<le> fd" "fd < int MAX_FILES" "file_table s (nat fd) \<noteq> 0" using assms(1) by (auto simp: open_fd_def)
  ultimately show ?thesis
    using assms(2,3) by (auto simp: dup_def close_file_def open_fd_def)
qed

section \<open>A line from the keyboard\<close>

text \<open>Waiting for a key takes the first of those in the buffer and those still to be typed.\<close>

lemma wait_key_first:
  assumes "keyboard_ok k" and "pending_keys k @ typed = x # xs" and "0 \<notin> set (x # xs)"
  shows "\<exists>k' typed'. wait_key k typed = Some (x, k', typed') \<and> keyboard_ok k' \<and> pending_keys k' @ typed' = xs"
proof -
  have got: "\<exists>k'. get_key_from_buffer q = (y, k') \<and> keyboard_ok k' \<and> pending_keys k' = ys"
    if "keyboard_ok q" "pending_keys q = y # ys" for q y ys
    using keys.valid_deq [OF that(1)] keys.items_deq [OF that(1)] that(2)
    by (cases "get_key_from_buffer q") (simp add: list_get_def)
  show ?thesis
  proof (cases "pending_keys k")
    case (Cons y ys)
    then show ?thesis using got [OF assms(1) Cons] assms(2,3) by (auto simp: wait_key.simps)
  next
    case Nil
    obtain q where q: "get_key_from_buffer k = (0, q)" "keyboard_ok q" "pending_keys q = []"
      using keys.valid_deq [OF assms(1)] keys.items_deq [OF assms(1)] Nil
      by (cases "get_key_from_buffer k") (simp add: list_get_def)
    have "keyboard_ok (add_key_to_buffer x q)" "pending_keys (add_key_to_buffer x q) = [x]"
      using keys.valid_enq [OF q(2)] keys.fits [OF q(2)] q(3) by auto
    then obtain k' where "get_key_from_buffer (add_key_to_buffer x q) = (x, k')" "keyboard_ok k'" "pending_keys k' = []"
      using got by blast
    then show ?thesis using q(1) assms(2,3) Nil by (simp add: wait_key.simps)
  qed
qed

lemma console_read_line_run:
  assumes "keyboard_ok k" and "pending_keys k @ typed = line @ 10 # rest" and "10 \<notin> set line"
    and "0 \<notin> set (line @ 10 # rest)" and "count + length line + 1 < len"
  shows "\<exists>k' typed'. console_read_line count len k typed = Some (map ucast line @ [10, 0], k', typed')
    \<and> keyboard_ok k' \<and> pending_keys k' @ typed' = rest"
  using assms
proof (induction line arbitrary: k typed count)
  case Nil
  then obtain k' typed' where "wait_key k typed = Some (10, k', typed')" "keyboard_ok k'" "pending_keys k' @ typed' = rest"
    using wait_key_first [of k typed 10 rest] by auto
  then show ?case using Nil.prems(5) by (subst console_read_line.simps) simp
next
  case (Cons x line)
  then obtain k1 typed1 where w: "wait_key k typed = Some (x, k1, typed1)" "keyboard_ok k1"
      "pending_keys k1 @ typed1 = line @ 10 # rest"
    using wait_key_first [of k typed x "line @ 10 # rest"] by auto
  then show ?case
    using Cons.IH [OF w(2,3), of "Suc count"] Cons.prems(3-5) by (subst console_read_line.simps) auto
qed

text \<open>Reading from the console waits until a line has been typed and stores it with its newline and a
  final zero; what was typed behind it stays for the next call, whether it is in the buffer already or not.\<close>

lemma read_file_line_run:
  assumes "keyboard_ok k" and "pending_keys k @ typed = line @ 10 # rest" and "10 \<notin> set line"
    and "0 \<notin> set (line @ 10 # rest)" and "length line + 1 < unat len"
  shows "\<exists>k' typed'. read_file ff STDIN_FILENO len k typed s
      = Some (int (length line) + 1, map ucast line @ [10, 0], k', typed', s)
    \<and> keyboard_ok k' \<and> pending_keys k' @ typed' = rest"
  using console_read_line_run [OF assms(1-4), of 0 "unat len"] assms(5)
  by (auto simp: read_file_def STDIN_FILENO_def MAX_FILES_def)

section \<open>Text for the console\<close>

lemma printf_loop_plain:
  "37 \<notin> set fmt \<Longrightarrow> fstate r = STATE_START \<Longrightarrow> printf_loop str_at args fmt r s = Some (r, puts_kernel fmt s)"
  by (induction fmt arbitrary: s) (auto simp: printf_step_def)

text \<open>\<open>write\<close> to standard output or error shows a text without percent sign and zero byte as it is and
  returns its length. It is used as a format, though: a \<open>%s\<close> in it shows what a word from the stack points to.\<close>

lemma write_console_run:
  assumes "fd = STDOUT_FILENO \<or> fd = STDERR_FILENO" and "37 \<notin> set bytes" and "0 \<notin> set bytes"
    and "length bytes < room" and "length bytes < 0x80000000"
  shows "write_file room ff str_at stack fd (Some (Some bytes)) s
      = Some (int (length bytes), s\<lparr>console := puts_kernel bytes (console s)\<rparr>)
    \<and> (2 < room \<longrightarrow> write_file room ff str_at stack fd (Some (Some [37, 115])) s
      = map_option (\<lambda>str. (2, s\<lparr>console := puts_kernel str (console s)\<rparr>)) (str_at (stack 0)))"
proof -
  have tw: "takeWhile (\<lambda>b. b \<noteq> 0) bytes = bytes" using assms(3) by (auto simp: takeWhile_eq_all_conv)
  have len: "sint (of_nat (length bytes) :: u32) = int (length bytes)"
    using assms(4,5) by (simp add: sint_u32 uint_nat unat_u32_of_nat)
  have plain: "kernel_write str_at bytes stack (console s) = Some (puts_kernel bytes (console s))"
    using printf_loop_plain [OF assms(2)] by (simp add: kernel_write_def printf_start_def)
  have str: "kernel_write str_at [37, 115] stack (console s)
      = map_option (\<lambda>str. puts_kernel str (console s)) (str_at (stack 0))"
    by (cases "str_at (stack 0)") (simp_all add: kernel_write_simps)
  show ?thesis
    using assms(1,4) by (cases "str_at (stack 0)") (auto simp: write_file_def tw len plain str)
qed

section \<open>Witnesses\<close>

text \<open>A file system that opens and closes everything.\<close>

definition ff_demo :: "unit fatfs" where
  "ff_demo = \<lparr>f_open = (\<lambda>_ _ _ d. (FR_OK, d)), f_close = (\<lambda>_ d. (FR_OK, d)), f_read = (\<lambda>_ _ d. (FR_OK, [], d)),
     f_write = (\<lambda>_ bs d. (FR_OK, of_nat (length bs), d)), f_lseek = (\<lambda>_ _ d. (FR_OK, d)), f_tell = (\<lambda>_ _. 0),
     f_stat = (\<lambda>_ _. (FR_OK, 0, 0)), f_unlink = (\<lambda>_ d. (FR_OK, d)), f_mkdir = (\<lambda>_ d. (FR_OK, d))\<rparr>"

definition files_demo :: "unit file_state" where
  "files_demo = \<lparr>volume = (), fil_heap = heap_demo, file_table = (\<lambda>fd. if fd = 3 then 7 else 0), entry_fil = (\<lambda>_. 0),
     entry_path = (\<lambda>_. []), errno = 0, console = \<lparr>cursor_x = 0, cursor_y = 0, globalvbeinfo = None, fb = (\<lambda>_. 0)\<rparr>\<rparr>"

theorem open_close_witness:
  "\<exists>s1 s2. open_file ff_demo (Some [97]) O_RDWR files_demo = Some (4, s1) \<and> close_file ff_demo 4 s1 = (0, s2)
    \<and> file_table s2 = file_table files_demo"
proof -
  have "get_free_fd files_demo = int 4"
    unfolding get_free_fd_least by (auto simp: files_demo_def MAX_FILES_def)
  moreover have "kmalloc sizeof_FIL (fil_heap files_demo) = Some (HEAP_START_ADDRESS, with_run 0 1 heap_demo)"
  proof -
    have "(LEAST p. is_run heap_demo 1 p) = 0" by (rule Least_equality) (auto intro: heap_demo_run)
    then show ?thesis
      using kmalloc_run [OF heap_demo_facts(2), of sizeof_FIL 0] heap_demo_run [of 0 1]
      by (simp add: files_demo_def sizeof_FIL_def block_address_def)
  qed
  ultimately show ?thesis
    using open_close [of files_demo 4 HEAP_START_ADDRESS "with_run 0 1 heap_demo" ff_demo "[97]" O_RDWR "()" "()"]
    by (auto simp: ff_demo_def HEAP_START_ADDRESS_def)
qed

end
