(* ===== verification/User_Memory.thy ===== *)
theory User_Memory
  imports Process Framebuffer
begin

text \<open>
  Bytes and strings in virtual memory, as the system calls read and write them through the active page
  directory: what a store changes, and that a buffer holds what was stored in it. A page fault is \<open>None\<close>.
\<close>

section \<open>Access\<close>

definition load_byte :: "mmu_state \<Rightarrow> u32 \<Rightarrow> u8 option" where
  "load_byte m v = do {
     fr \<leftarrow> translate m v;
     Some (ucast (drop_bit (8 * unat (v AND 3)) (ram m fr (unat (drop_bit 2 (v AND 0xFFF))))))
   }"

fun load_bytes :: "mmu_state \<Rightarrow> u32 \<Rightarrow> nat \<Rightarrow> u8 list option" where
  "load_bytes m v 0 = Some []"
| "load_bytes m v (Suc n) = do { b \<leftarrow> load_byte m v; bs \<leftarrow> load_bytes m (v + 1) n; Some (b # bs) }"

partial_function (option) load_string :: "mmu_state \<Rightarrow> u32 \<Rightarrow> cstr option" where
  "load_string m v = do {
     b \<leftarrow> load_byte m v;
     if b = 0 then Some [] else do { bs \<leftarrow> load_string m (v + 1); Some (b # bs) }
   }"

definition store_bytes :: "u32 \<Rightarrow> u8 list \<Rightarrow> mmu_state \<Rightarrow> mmu_state option" where
  "store_bytes v bs = fold_opt (\<lambda>i. store_byte (v + of_nat i) (bs ! i)) [0..<length bs]"

definition store_word :: "u32 \<Rightarrow> u32 \<Rightarrow> mmu_state \<Rightarrow> mmu_state option" where
  "store_word v w = store_bytes v [ucast w, ucast (drop_bit 8 w), ucast (drop_bit 16 w), ucast (drop_bit 24 w)]"

section \<open>Stores and the page tables\<close>

text \<open>The frames that the walk of the active directory reads: a store elsewhere does not move any page.\<close>

definition walk_frames :: "mmu_state \<Rightarrow> nat set" where
  "walk_frames m = insert (pframe (cr3 m))
     {pframe e |e. \<exists>i<1024. e = ram m (pframe (cr3 m)) i \<and> present e \<and> e AND PAGE_FLAG_4MB = 0}"

lemma translate_poke:
  assumes "fr \<notin> walk_frames m"
  shows "translate (poke fr i e m) v = translate m v"
proof -
  have "fr \<noteq> pframe (cr3 m)" using assms by (simp add: walk_frames_def)
  moreover have "fr \<noteq> pframe (ram m (pframe (cr3 m)) (pd_index v))"
    if "present (ram m (pframe (cr3 m)) (pd_index v))" "ram m (pframe (cr3 m)) (pd_index v) AND PAGE_FLAG_4MB = 0"
    using that assms pd_index_bound [of v] by (auto simp: walk_frames_def)
  ultimately show ?thesis
    by (cases "present (ram m (pframe (cr3 m)) (pd_index v))"; cases "ram m (pframe (cr3 m)) (pd_index v) AND PAGE_FLAG_4MB = 0")
      (simp_all add: translate_def walk_def poke_def Let_def)
qed

lemma walk_frames_poke: "fr \<notin> walk_frames m \<Longrightarrow> walk_frames (poke fr i e m) = walk_frames m"
  by (auto simp: walk_frames_def poke_def)

text \<open>The physical place of a byte: its frame and its offset there.\<close>

definition place :: "mmu_state \<Rightarrow> u32 \<Rightarrow> (nat \<times> u32) option" where
  "place m v = map_option (\<lambda>fr. (fr, v AND 0xFFF)) (translate m v)"

definition byte_of :: "u32 \<Rightarrow> u32 \<Rightarrow> u8" where
  "byte_of lane w = ucast (drop_bit (8 * unat lane) w)"

lemma small_lanes: "(v AND 3 :: u32) \<in> {0, 1, 2, 3}"
proof -
  have "v AND 3 \<le> 3" by (rule word_and_le1)
  then have "unat (v AND 3) < 4" by (simp add: word_le_nat_alt)
  then have "unat (v AND 3) = 0 \<or> unat (v AND 3) = 1 \<or> unat (v AND 3) = 2 \<or> unat (v AND 3) = 3" by linarith
  then show ?thesis by (auto simp: word_unat_eq_iff)
qed

lemma lane_bit:
  assumes "K < 4" and "L < 4" and "n < 8"
  shows "bit ((w AND NOT (push_bit (8 * L) 0xFF)) OR push_bit (8 * L) (ucast (b :: u8)) :: u32) (8 * K + n)
    = (if K = L then bit b n else bit w (8 * K + n))"
proof -
  have m: "(0xFF :: u32) = mask 8" by (simp add: mask_eq_exp_minus_1)
  have big: "\<not> bit b i" if "8 \<le> i" for i using bit_imp_le_length [of b i] that by auto
  consider "K = L" | "8 * K + n < 8 * L" "K \<noteq> L" | "8 \<le> 8 * K + n - 8 * L" "8 * L \<le> 8 * K + n" "K \<noteq> L"
    using assms(3) by (cases "K < L"; cases "K = L") linarith+
  then show ?thesis
    unfolding m using assms by cases (simp_all add: bit_simps big)
qed

lemma byte_of_set:
  assumes "k \<in> {0, 1, 2, 3}" and "l \<in> {0, 1, 2, 3}"
  shows "byte_of k ((w AND NOT (push_bit (8 * unat l) 0xFF)) OR push_bit (8 * unat l) (ucast b))
    = (if k = l then b else byte_of k w)"
proof (rule bit_word_eqI)
  fix n assume n: "n < LENGTH(8)"
  have less: "unat k < 4" "unat l < 4" "k = l \<longleftrightarrow> unat k = unat l" using assms by (auto simp: word_unat_eq_iff)
  have get: "bit (byte_of k x) n = bit x (8 * unat k + n)" for x
    using n less(1) by (simp add: byte_of_def bit_simps)
  show "bit (byte_of k ((w AND NOT (push_bit (8 * unat l) 0xFF)) OR push_bit (8 * unat l) (ucast b))) n
      = bit (if k = l then b else byte_of k w) n"
    using lane_bit [OF less(1,2), of n w b] n less(3) by (simp only: get) (simp add: get)
qed

lemma place_eq: "drop_bit 2 v = drop_bit 2 w \<and> v AND 3 = w AND 3 \<longleftrightarrow> v = (w :: u32)"
proof -
  have m: "(3 :: u32) = mask 2" by (simp add: mask_eq_exp_minus_1)
  have "v = w" if "drop_bit 2 v = drop_bit 2 w" "take_bit 2 v = take_bit 2 w"
    using that by (metis bits_ident)
  then show ?thesis by (auto simp: m take_bit_eq_mask)
qed

lemma unat_word_index: "unat (drop_bit 2 (v AND 0xFFF :: u32)) = unat (drop_bit 2 (w AND 0xFFF)) \<longleftrightarrow>
    drop_bit 2 (v AND 0xFFF) = drop_bit 2 (w AND 0xFFF)"
  by (simp only: word_unat_eq_iff)

text \<open>A store changes the byte at one place, for all addresses of that place.\<close>

lemma store_byte_run:
  assumes "translate m v = Some fr" and "fr \<notin> walk_frames m"
  shows "\<exists>m'. store_byte v b m = Some m' \<and> walk_frames m' = walk_frames m \<and> translate m' = translate m
    \<and> load_byte m' = (\<lambda>w. if place m w = place m v then Some b else load_byte m w)"
proof -
  define i where "i = unat (drop_bit 2 (v AND 0xFFF))"
  define e where "e = (ram m fr i AND NOT (push_bit (8 * unat (v AND 3)) 0xFF)) OR push_bit (8 * unat (v AND 3)) (ucast b)"
  define m' where "m' = poke fr i e m"
  have run: "store_byte v b m = Some m'" using assms(1) by (simp add: store_byte_def m'_def i_def e_def Let_def)
  have tr: "translate m' = translate m" using translate_poke [OF assms(2)] by (simp add: m'_def fun_eq_iff)
  have low: "(x AND 0xFFF) AND 3 = x AND 3" for x :: u32 by (simp add: and.assoc)
  have "load_byte m' w = (if place m w = place m v then Some b else load_byte m w)" for w
  proof (cases "translate m w = Some fr")
    case True
    have at: "place m w = place m v \<longleftrightarrow> unat (drop_bit 2 (w AND 0xFFF)) = i \<and> w AND 3 = v AND 3"
      unfolding i_def unat_word_index using place_eq [of "w AND 0xFFF" "v AND 0xFFF"] True assms(1) by (simp add: place_def low)
    have "load_byte m' w = Some (byte_of (w AND 3) (if unat (drop_bit 2 (w AND 0xFFF)) = i then e else ram m fr (unat (drop_bit 2 (w AND 0xFFF)))))"
      using True tr by (simp add: load_byte_def byte_of_def m'_def poke_def)
    moreover have "byte_of (w AND 3) e = (if w AND 3 = v AND 3 then b else byte_of (w AND 3) (ram m fr i))"
      unfolding e_def by (intro byte_of_set small_lanes)
    moreover have "load_byte m w = Some (byte_of (w AND 3) (ram m fr (unat (drop_bit 2 (w AND 0xFFF)))))"
      using True by (simp add: load_byte_def byte_of_def)
    ultimately show ?thesis using at by auto
  next
    case False
    then show ?thesis
      using assms(1) tr by (cases "translate m w") (auto simp: load_byte_def place_def m'_def poke_def)
  qed
  then show ?thesis
    using run tr walk_frames_poke [OF assms(2)] by (auto simp: m'_def)
qed

section \<open>Buffers\<close>

text \<open>A buffer of a program: mapped, its bytes at different places, none of them in a page table.\<close>

definition buffer_ok :: "mmu_state \<Rightarrow> u32 \<Rightarrow> nat \<Rightarrow> bool" where
  "buffer_ok m v n \<longleftrightarrow> (\<forall>i < n. \<exists>fr. translate m (v + of_nat i) = Some fr \<and> fr \<notin> walk_frames m)
    \<and> inj_on (\<lambda>i. place m (v + of_nat i)) {..<n}"

lemma load_bytes_map:
  "load_bytes m v n = (if \<forall>i < n. load_byte m (v + of_nat i) \<noteq> None
    then Some (map (\<lambda>i. the (load_byte m (v + of_nat i))) [0..<n]) else None)"
proof (induction n arbitrary: v)
  case (Suc n)
  have step: "(\<forall>i < Suc n. P i) \<longleftrightarrow> P 0 \<and> (\<forall>i < n. P (Suc i))" for P by (auto simp: less_Suc_eq_0_disj)
  have up: "map f [0..<Suc n] = f 0 # map (\<lambda>i. f (Suc i)) [0..<n]" for f :: "nat \<Rightarrow> u8"
    by (simp add: map_upt_Suc del: upt_Suc)
  show ?case
    unfolding load_bytes.simps Suc.IH step up by (cases "load_byte m v") (auto simp: add.assoc)
qed simp

lemma store_bytes_run:
  assumes "buffer_ok m v (length bs)"
  shows "\<exists>m'. store_bytes v bs m = Some m' \<and> walk_frames m' = walk_frames m \<and> translate m' = translate m
    \<and> (\<forall>i < length bs. load_byte m' (v + of_nat i) = Some (bs ! i))
    \<and> (\<forall>w. (\<forall>i < length bs. place m w \<noteq> place m (v + of_nat i)) \<longrightarrow> load_byte m' w = load_byte m w)"
proof -
  let ?P = "\<lambda>k m'. walk_frames m' = walk_frames m \<and> translate m' = translate m
    \<and> (\<forall>i < k. load_byte m' (v + of_nat i) = Some (bs ! i))
    \<and> (\<forall>w. (\<forall>i < k. place m w \<noteq> place m (v + of_nat i)) \<longrightarrow> load_byte m' w = load_byte m w)"
  have "\<exists>m'. fold_opt (\<lambda>i. store_byte (v + of_nat i) (bs ! i)) [0..<length bs] m = Some m' \<and> ?P (length bs) m'"
  proof (rule fold_opt_upt)
    fix k m1 assume k: "k < length bs" and P: "?P k m1"
    obtain fr where fr: "translate m (v + of_nat k) = Some fr" "fr \<notin> walk_frames m"
      using assms k by (auto simp: buffer_ok_def)
    have pl: "place m1 = place m" using P by (auto simp: place_def fun_eq_iff)
    have t1: "translate m1 (v + of_nat k) = Some fr" "fr \<notin> walk_frames m1" using fr P by simp_all
    obtain m2 where m2: "store_byte (v + of_nat k) (bs ! k) m1 = Some m2" "walk_frames m2 = walk_frames m1"
        "translate m2 = translate m1"
        "load_byte m2 = (\<lambda>w. if place m1 w = place m1 (v + of_nat k) then Some (bs ! k) else load_byte m1 w)"
      using store_byte_run [OF t1, of "bs ! k"] by (elim exE conjE) (rule that)
    have other: "place m (v + of_nat i) \<noteq> place m (v + of_nat k)" if "i < k" for i
      using inj_onD [of "\<lambda>i. place m (v + of_nat i)" "{..<length bs}" i k] assms k that by (auto simp: buffer_ok_def)
    have load: "load_byte m2 w = (if place m w = place m (v + of_nat k) then Some (bs ! k) else load_byte m1 w)" for w
      using m2(4) by (simp add: pl)
    have "load_byte m2 (v + of_nat i) = Some (bs ! i)" if "i < Suc k" for i
      using that P other [of i] by (cases "i = k") (simp_all add: load)
    moreover have "load_byte m2 w = load_byte m w" if "\<forall>i < Suc k. place m w \<noteq> place m (v + of_nat i)" for w
      using that P by (simp add: load)
    ultimately have "?P (Suc k) m2" using P m2(2,3) by simp
    then show "\<exists>m2. store_byte (v + of_nat k) (bs ! k) m1 = Some m2 \<and> ?P (Suc k) m2" using m2(1) by blast
  qed simp_all
  then show ?thesis by (simp add: store_bytes_def)
qed

lemma store_load_bytes:
  assumes "buffer_ok m v (length bs)"
  shows "\<exists>m'. store_bytes v bs m = Some m' \<and> load_bytes m' v (length bs) = Some bs \<and> translate m' = translate m"
proof -
  obtain m' where "store_bytes v bs m = Some m'" "translate m' = translate m"
      "\<forall>i < length bs. load_byte m' (v + of_nat i) = Some (bs ! i)"
    using store_bytes_run [OF assms] by (elim exE conjE) (rule that)
  moreover have "map (\<lambda>i. the (load_byte m' (v + of_nat i))) [0..<length bs] = bs"
    using calculation(3) by (intro nth_equalityI) simp_all
  ultimately show ?thesis by (auto simp: load_bytes_map)
qed

end
