(* ===== verification/Syscalls.thy ===== *)
theory Syscalls
  imports Interrupts Files User_Memory
begin

text \<open>
  The system calls, \<open>syscalls/syscalls.c\<close>. A user program passes addresses; the kernel reads and writes them
  through the page directory that is active, in the same physical memory the paging functions work on, and a
  page fault is \<open>None\<close>. FatFs, the palette of the game and the other CPUs' view are arguments, collected in
  a record.
\<close>

section \<open>State and arguments\<close>

datatype printf_arg = Num u32 | Str cstr

text \<open>The heap of the kernel is \<open>kheap\<close>; the copy inside of \<open>files\<close> is brought up to date for each call.\<close>

record 'd sys_state = irq_state +
  files :: "'d file_state"
  keyb :: keyboard
  typed :: "u32 list"
  user_heap_end :: u32
  doomPalette :: "nat \<Rightarrow> u8"

text \<open>
  \<open>program_of\<close> is what FatFs reports while a program file is loaded, \<open>kstack\<close> the words on the stack behind
  the format argument of \<open>kernel_write\<close>, \<open>garbage\<close> the value of an uninitialised variable, \<open>apic_id\<close> the CPU,
  \<open>junk_regs\<close> the old contents of a new register set, \<open>stack_room\<close> the bytes of the kernel stack that are left for
  the array in \<open>write\<close> and \<open>kernel_printf\<close> what \<open>printf\<close> of newlib, which the kernel links, shows on the screen.
\<close>

record 'd machine =
  ff :: "'d fatfs"
  f_opendir :: "cstr \<Rightarrow> 'd \<Rightarrow> FRESULT \<times> 'd"
  f_readdir :: "'d \<Rightarrow> FRESULT \<times> cstr \<times> 'd"
  f_closedir :: "'d \<Rightarrow> 'd"
  program_of :: "cstr \<Rightarrow> 'd \<Rightarrow> program_file \<times> 'd"
  playpal :: "nat \<Rightarrow> u8"
  kstack :: "nat \<Rightarrow> u32"
  garbage :: u32
  apic_id :: u32
  junk_regs :: regs
  stack_room :: nat
  kernel_printf :: "cstr \<Rightarrow> printf_arg list \<Rightarrow> screen \<Rightarrow> screen"

section \<open>Memory of the program\<close>

definition user_mem :: "'d sys_state \<Rightarrow> mmu_state" where
  "user_mem s = mmu (kheap s)"

text \<open>A path argument: \<open>Some None\<close> is the null pointer.\<close>

definition path_at :: "mmu_state \<Rightarrow> u32 \<Rightarrow> cstr option option" where
  "path_at m v = (if v = 0 then Some None else map_option Some (load_string m v))"

section \<open>Numbers\<close>

definition PRINT_SYSCALL :: u32 where "PRINT_SYSCALL = 0"
definition LOAD_PROCESS_SYSCALL :: u32 where "LOAD_PROCESS_SYSCALL = 1"
definition CLEAR_SCREEN_SYSCALL :: u32 where "CLEAR_SCREEN_SYSCALL = 2"
definition WRITE_SYSCALL :: u32 where "WRITE_SYSCALL = 3"
definition SBRK_SYSCALL :: u32 where "SBRK_SYSCALL = 4"
definition OPEN_SYSCALL :: u32 where "OPEN_SYSCALL = 5"
definition READDIR_SYSCALL :: u32 where "READDIR_SYSCALL = 6"
definition CLOSE_SYSCALL :: u32 where "CLOSE_SYSCALL = 7"
definition READ_SYSCALL :: u32 where "READ_SYSCALL = 8"
definition LSEEK_SYSCALL :: u32 where "LSEEK_SYSCALL = 9"
definition STAT_SYSCALL :: u32 where "STAT_SYSCALL = 10"
definition FSTAT_SYSCALL :: u32 where "FSTAT_SYSCALL = 11"
definition MKDRI_SYSCALL :: u32 where "MKDRI_SYSCALL = 12"
definition GKBUFFER_SYSCALL :: u32 where "GKBUFFER_SYSCALL = 13"
definition DRAW_FRAME_DOOM_SYSCALL :: u32 where "DRAW_FRAME_DOOM_SYSCALL = 14"
definition GETTICKS_SYSCALL :: u32 where "GETTICKS_SYSCALL = 15"
definition EXECVE_SYSCALL :: u32 where "EXECVE_SYSCALL = 16"
definition GETPID_SYSCALL :: u32 where "GETPID_SYSCALL = 17"

lemmas syscall_numbers = PRINT_SYSCALL_def CLEAR_SCREEN_SYSCALL_def WRITE_SYSCALL_def SBRK_SYSCALL_def
  OPEN_SYSCALL_def READDIR_SYSCALL_def CLOSE_SYSCALL_def READ_SYSCALL_def LSEEK_SYSCALL_def STAT_SYSCALL_def
  FSTAT_SYSCALL_def MKDRI_SYSCALL_def GKBUFFER_SYSCALL_def DRAW_FRAME_DOOM_SYSCALL_def GETTICKS_SYSCALL_def
  EXECVE_SYSCALL_def GETPID_SYSCALL_def

section \<open>Screen and files\<close>

definition ret :: "u32 \<Rightarrow> Interrupt_registers \<Rightarrow> 's \<Rightarrow> 's outcome option" where
  "ret v r s = Some (Returned (r\<lparr>i_eax := v\<rparr>) s)"

text \<open>Running a function of \<open>libk.c\<close> on the state of the whole kernel.\<close>

definition with_files :: "('d file_state \<Rightarrow> (int \<times> 'd file_state) option) \<Rightarrow> 'd sys_state \<Rightarrow> (int \<times> 'd sys_state) option" where
  "with_files f s = do {
     (v, fs) \<leftarrow> f ((files s)\<lparr>fil_heap := kheap s\<rparr>);
     Some (v, s\<lparr>files := fs, kheap := fil_heap fs\<rparr>)
   }"

definition with_screen :: "(screen \<Rightarrow> screen option) \<Rightarrow> 'd sys_state \<Rightarrow> 'd sys_state option" where
  "with_screen f s = do { scr \<leftarrow> f (console (files s)); Some (s\<lparr>files := (files s)\<lparr>console := scr\<rparr>\<rparr>) }"

definition syscall_0_print :: "'d machine \<Rightarrow> 'd sys_state handler" where
  "syscall_0_print mc r s = do {
     s \<leftarrow> with_screen (kernel_write (load_string (user_mem s)) [37, 115] (\<lambda>_. i_ebx r)) s;
     Some (Returned r s)
   }"

definition syscall_2_clear_screen :: "'d sys_state handler" where
  "syscall_2_clear_screen r s = do { s \<leftarrow> with_screen (clear_screen_sys_2 (i_ebx r)) s; ret 1 r s }"

definition syscall_3_write :: "'d machine \<Rightarrow> 'd sys_state handler" where
  "syscall_3_write mc r s = do {
     let buf = (if i_ecx r = 0 then None else Some (load_bytes (user_mem s) (i_ecx r) (unat (i_edx r))));
     (v, s) \<leftarrow> with_files (write_file (stack_room mc) (ff mc) (load_string (user_mem s)) (kstack mc) (sint (i_ebx r)) buf) s;
     ret (of_int v) r s
   }"

text \<open>\<open>open\<close> looks at the path only when there is a free descriptor.\<close>

definition syscall_5_open :: "'d machine \<Rightarrow> 'd sys_state handler" where
  "syscall_5_open mc r s = do {
     name \<leftarrow> (if i_ebx r \<noteq> 0 \<and> get_free_fd (files s) < 0 then Some (Some []) else path_at (user_mem s) (i_ebx r));
     (v, s) \<leftarrow> with_files (open_file (ff mc) name (i_ecx r)) s;
     ret (of_int v) r s
   }"

definition syscall_7_close :: "'d machine \<Rightarrow> 'd sys_state handler" where
  "syscall_7_close mc r s = do {
     (v, s) \<leftarrow> with_files (\<lambda>fs. Some (close_file (ff mc) (sint (i_ebx r)) fs)) s;
     ret (of_int v) r s
   }"

definition syscall_8_read :: "'d machine \<Rightarrow> 'd sys_state handler" where
  "syscall_8_read mc r s = do {
     (v, bytes, k, ty, fs) \<leftarrow> read_file (ff mc) (sint (i_ebx r)) (i_edx r) (keyb s) (typed s) (files s);
     m \<leftarrow> store_bytes (i_ecx r) bytes (user_mem s);
     ret (of_int v) r (s\<lparr>files := fs, keyb := k, typed := ty, kheap := (kheap s)\<lparr>mmu := m\<rparr>\<rparr>)
   }"

definition syscall_9_lseek :: "'d machine \<Rightarrow> 'd sys_state handler" where
  "syscall_9_lseek mc r s = do {
     (v, s) \<leftarrow> with_files (\<lambda>fs. Some (lseek (ff mc) (sint (i_ebx r)) (i_ecx r) (sint (i_edx r)) fs)) s;
     ret (of_int v) r s
   }"

text \<open>The two fields of \<open>struct stat\<close> that \<open>stat\<close> fills in are at the offsets 16 and 4.\<close>

definition store_stat :: "u32 \<Rightarrow> file_stat option \<Rightarrow> mmu_state \<Rightarrow> mmu_state option" where
  "store_stat p st m = (case st of
     None \<Rightarrow> Some m
   | Some st \<Rightarrow> do { m \<leftarrow> store_word (p + 16) (st_size st) m; store_word (p + 4) (st_mode st) m })"

definition syscall_10_stat :: "'d machine \<Rightarrow> 'd sys_state handler" where
  "syscall_10_stat mc r s = do {
     path \<leftarrow> (if i_ecx r = 0 then Some None else path_at (user_mem s) (i_ebx r));
     let ((v, st), fs) = stat_path (ff mc) path (i_ecx r = 0) (files s);
     m \<leftarrow> store_stat (i_ecx r) st (user_mem s);
     ret (of_int v) r (s\<lparr>files := fs, kheap := (kheap s)\<lparr>mmu := m\<rparr>\<rparr>)
   }"

definition syscall_11_fstat :: "'d machine \<Rightarrow> 'd sys_state handler" where
  "syscall_11_fstat mc r s = do {
     let ((v, st), fs) = fstat (ff mc) (sint (i_ebx r)) (i_ecx r = 0) (files s);
     m \<leftarrow> store_stat (i_ecx r) st (user_mem s);
     ret (of_int v) r (s\<lparr>files := fs, kheap := (kheap s)\<lparr>mmu := m\<rparr>\<rparr>)
   }"

definition syscall_12_mkdir :: "'d machine \<Rightarrow> 'd sys_state handler" where
  "syscall_12_mkdir mc r s = do {
     path \<leftarrow> path_at (user_mem s) (i_ebx r);
     (v, s) \<leftarrow> with_files (\<lambda>fs. Some (mkdir (ff mc) path fs)) s;
     ret (of_int v) r s
   }"

text \<open>
  The loop of \<open>readdir\<close>: \<open>fresult\<close> gets the value of the whole condition, as the assignment binds weaker than
  \<open>==\<close> and \<open>&&\<close>. A directory that never ends is \<open>None\<close>.
\<close>

definition found_line :: cstr where "found_line = map of_char ''Gefunden: %s'' @ [10]"

partial_function (option) readdir_loop :: "'d machine \<Rightarrow> u32 \<Rightarrow> 'd file_state \<Rightarrow> (u32 \<times> 'd file_state) option" where
  "readdir_loop mc fresult fs =
     (let (res, fname, d) = f_readdir mc (volume fs); fs = fs\<lparr>volume := d\<rparr>;
          fresult = (if res = FR_OK \<and> fname \<noteq> [] then 1 else 0)
      in if fresult \<noteq> 0 then do {
           scr \<leftarrow> kernel_write (\<lambda>_. Some fname) found_line (\<lambda>_. 0) (console fs);
           readdir_loop mc fresult (fs\<lparr>console := scr\<rparr>)
         } else Some (fresult, fs))"

definition syscall_6_readdir :: "'d machine \<Rightarrow> 'd sys_state handler" where
  "syscall_6_readdir mc r s = do {
     path \<leftarrow> load_string (user_mem s) (i_ebx r);
     let (res, d) = f_opendir mc path (volume (files s));
     let fs = (files s)\<lparr>volume := d\<rparr>;
     (fresult, fs) \<leftarrow> (if res = FR_OK
       then do {
         (fresult, fs) \<leftarrow> readdir_loop mc (garbage mc) fs;
         Some (fresult, fs\<lparr>volume := f_closedir mc (volume fs)\<rparr>)
       }
       else Some (garbage mc, fs));
     ret fresult r (s\<lparr>files := fs\<rparr>)
   }"

section \<open>Memory, keys and time\<close>

definition user_heap_start :: u32 where "user_heap_start = 0x00800000"
definition user_heap_limit :: u32 where "user_heap_limit = 0x01800000"
definition ALIGN_UP :: "u32 \<Rightarrow> u32 \<Rightarrow> u32" where "ALIGN_UP x align = (x + (align - 1)) AND NOT (align - 1)"

definition syscall_4_sbrk :: "'d sys_state handler" where
  "syscall_4_sbrk r s = (let new_heap_end = ALIGN_UP (user_heap_end s + i_ebx r) 0x1000 in
     if user_heap_limit < new_heap_end then ret (- 1) r s
     else ret (user_heap_end s) r (s\<lparr>user_heap_end := new_heap_end\<rparr>))"

definition syscall_13_get_key_from_buffer :: "'d sys_state handler" where
  "syscall_13_get_key_from_buffer r s = (let (key, k) = get_key_from_buffer (keyb s) in ret key r (s\<lparr>keyb := k\<rparr>))"

definition syscall_15_get_ticks :: "'d sys_state handler" where
  "syscall_15_get_ticks r s = ret (ucast (pit_ticks s)) r s"

text \<open>The body of \<open>getpid\<close> is a comment: \<open>eax\<close> keeps the number of the call.\<close>

definition syscall_17_getpid :: "'d sys_state handler" where
  "syscall_17_getpid r s = Some (Returned r s)"

section \<open>Drawing a frame\<close>

text \<open>One byte of the frame buffer, whose pixels are words of four bytes.\<close>

definition set_fb_byte :: "u32 \<Rightarrow> u8 \<Rightarrow> pixels \<Rightarrow> pixels" where
  "set_fb_byte i b p = (let lane = 8 * unat (i AND 3) in
     p(drop_bit 2 i := (p (drop_bit 2 i) AND NOT (push_bit lane 0xFF)) OR push_bit lane (ucast b)))"

definition doom_subpixel :: "u8 \<Rightarrow> u8 \<Rightarrow> u8 \<Rightarrow> nat \<Rightarrow> nat \<Rightarrow> nat \<Rightarrow> nat \<Rightarrow> pixels \<Rightarrow> pixels" where
  "doom_subpixel r g b y x sy sx p =
     (let fbX = x * 3 + sx; fbY = y * 3 + sy; fb_index = of_nat ((fbY * 1024 + fbX) * 4)
      in set_fb_byte (fb_index + 3) 255 (set_fb_byte (fb_index + 2) r
          (set_fb_byte (fb_index + 1) g (set_fb_byte fb_index b p))))"

definition doom_pixel :: "mmu_state \<Rightarrow> u32 \<Rightarrow> u32 \<Rightarrow> (nat \<Rightarrow> u8) \<Rightarrow> nat \<Rightarrow> nat \<Rightarrow> pixels \<Rightarrow> pixels option" where
  "doom_pixel m buffer pitch pal y x p = do {
     index \<leftarrow> load_byte m (buffer + (of_nat y * pitch + of_nat x));
     let r = pal (unat index * 3 + 0);
     let g = pal (unat index * 3 + 1);
     let b = pal (unat index * 3 + 2);
     Some (fold (\<lambda>sy. fold (\<lambda>sx. doom_subpixel r g b y x sy sx) [0..<3]) [0..<3] p)
   }"

definition syscall_14_draw_frame_doom :: "'d machine \<Rightarrow> 'd sys_state handler" where
  "syscall_14_draw_frame_doom mc r s = (let pal = (\<lambda>i. if i < 768 then playpal mc i else doomPalette s i) in do {
     s \<leftarrow> with_screen (\<lambda>scr. do {
       p \<leftarrow> fold_opt (\<lambda>y. fold_opt (doom_pixel (user_mem s) (i_ebx r) (i_ecx r) pal y) [0..<320]) [0..<200] (fb scr);
       Some (scr\<lparr>fb := p\<rparr>) }) s;
     Some (Returned r (s\<lparr>doomPalette := pal\<rparr>))
   })"

section \<open>Starting a program\<close>

text \<open>The numbers of the results of FatFs, in the order of its enumeration.\<close>

fun fresult_number :: "FRESULT \<Rightarrow> u32" where
  "fresult_number FR_OK = 0"
| "fresult_number FR_DISK_ERR = 1"
| "fresult_number FR_INT_ERR = 2"
| "fresult_number FR_NOT_READY = 3"
| "fresult_number FR_NO_FILE = 4"
| "fresult_number FR_NO_PATH = 5"
| "fresult_number FR_INVALID_NAME = 6"
| "fresult_number FR_DENIED = 7"
| "fresult_number FR_EXIST = 8"
| "fresult_number FR_INVALID_OBJECT = 9"
| "fresult_number FR_WRITE_PROTECTED = 10"
| "fresult_number FR_INVALID_DRIVE = 11"
| "fresult_number FR_NOT_ENABLED = 12"
| "fresult_number FR_NO_FILESYSTEM = 13"
| "fresult_number FR_MKFS_ABORTED = 14"
| "fresult_number FR_TIMEOUT = 15"
| "fresult_number FR_LOCKED = 16"
| "fresult_number FR_NOT_ENOUGH_CORE = 17"
| "fresult_number FR_TOO_MANY_OPEN_FILES = 18"
| "fresult_number FR_INVALID_PARAMETER = 19"

text \<open>
  What \<open>createUserProcess\<close> prints, on the process that it has made: where the process is, the errors of FatFs
  while the file is loaded, where the thread is, and \<open>rbInsert\<close> the pid. The screen is not read
  by anything in between, so the messages are put there together.
\<close>

definition process_line :: cstr where "process_line = map of_char ''Allocated process structure at: %p'' @ [10]"
definition thread_line :: cstr where "thread_line = map of_char ''Allocated thread structure at: %p'' @ [10]"
definition inserting_line :: cstr where "inserting_line = map of_char ''inserting process with PID: %d'' @ [10]"
definition stats_error :: cstr where "stats_error = map of_char ''Error looking for the stats from the file: %d'' @ [10]"
definition open_error :: cstr where "open_error = map of_char ''Error opening the file: %d'' @ [10]"
definition read_error :: cstr where "read_error = map of_char ''Error reading the file: %d'' @ [10]"
definition close_error :: cstr where "close_error = map of_char ''Error closing the file: %d'' @ [10]"

definition load_messages :: "'d machine \<Rightarrow> program_file \<Rightarrow> screen \<Rightarrow> screen" where
  "load_messages mc file scr =
     (let report = (\<lambda>line res. kernel_printf mc line [Num (fresult_number res)]);
          scr = (if stat_res file \<noteq> FR_OK then report stats_error (stat_res file) scr else scr);
          pagesNeeded = (if stat_res file \<noteq> FR_OK then 0 else unat (CEIL_DIV (stat_fsize file) PAGE_SIZE))
      in if open_res file \<noteq> FR_OK then report open_error (open_res file) scr
         else (case find (\<lambda>i. fst (reads file i) \<noteq> FR_OK) [0..<pagesNeeded] of
             Some i \<Rightarrow> report read_error (fst (reads file i)) scr
           | None \<Rightarrow> if close_res file \<noteq> FR_OK then report close_error (close_res file) scr else scr))"

definition create_messages :: "'d machine \<Rightarrow> program_file \<Rightarrow> ptr \<Rightarrow> 'd sys_state \<Rightarrow> 'd sys_state option" where
  "create_messages mc file p s = do {
     own \<leftarrow> rd (ptab s) p;
     s \<leftarrow> with_screen (kernel_write (\<lambda>_. None) process_line (\<lambda>_. p)) s;
     s \<leftarrow> with_screen (\<lambda>scr. Some (load_messages mc file scr)) s;
     s \<leftarrow> with_screen (kernel_write (\<lambda>_. None) thread_line (\<lambda>_. head_thread own)) s;
     with_screen (kernel_write (\<lambda>_. None) inserting_line (\<lambda>_. pid own)) s
   }"

text \<open>\<open>execve\<close> of \<open>libk.c\<close>; \<open>switchTask\<close> does not come back.\<close>

definition execve :: "'d machine \<Rightarrow> cstr \<Rightarrow> 'd sys_state \<Rightarrow> (regs \<times> 'd sys_state) option" where
  "execve mc name s = do {
     let (file, d) = program_of mc name (volume (files s));
     (p, s) \<leftarrow> createUserProcess (apic_id mc) (junk_regs mc) file (s\<lparr>files := (files s)\<lparr>volume := d\<rparr>\<rparr>);
     s \<leftarrow> create_messages mc file p s;
     own \<leftarrow> rd (ptab s) p;
     th \<leftarrow> rd_thread s (head_thread own);
     rg \<leftarrow> switchTask (t_regs th) s;
     Some (rg, s)
   }"

text \<open>The path is printed first. A path of 20 characters or more runs over the array \<open>name\<close> of the handler.\<close>

definition syscall_16_execve :: "'d machine \<Rightarrow> 'd sys_state handler" where
  "syscall_16_execve mc r s = do {
     name \<leftarrow> load_string (user_mem s) (i_ebx r);
     if 20 \<le> length name then None
     else do {
       s \<leftarrow> with_screen (\<lambda>scr. Some (kernel_printf mc (map of_char ''%s'' @ [10]) [Str name] scr)) s;
       (rg, s) \<leftarrow> execve mc name s;
       Some (Switched rg s)
     }
   }"

section \<open>Registration\<close>

definition add_syscalls ::
  "u32 \<Rightarrow> 's handler \<Rightarrow> (nat \<Rightarrow> 's handler option) \<times> u32 \<Rightarrow> ((nat \<Rightarrow> 's handler option) \<times> u32) option" where
  "add_syscalls n f t = (case t of (functions, amount) \<Rightarrow>
     if unat n < 1024 then Some (functions(unat n \<mapsto> f), amount + 1) else None)"

definition register_all :: "'d machine \<Rightarrow> (nat \<Rightarrow> 'd sys_state handler option) \<times> u32
    \<Rightarrow> ((nat \<Rightarrow> 'd sys_state handler option) \<times> u32) option" where
  "register_all mc t = do {
     t \<leftarrow> add_syscalls PRINT_SYSCALL (syscall_0_print mc) t;
     t \<leftarrow> add_syscalls CLEAR_SCREEN_SYSCALL syscall_2_clear_screen t;
     t \<leftarrow> add_syscalls WRITE_SYSCALL (syscall_3_write mc) t;
     t \<leftarrow> add_syscalls SBRK_SYSCALL syscall_4_sbrk t;
     t \<leftarrow> add_syscalls OPEN_SYSCALL (syscall_5_open mc) t;
     t \<leftarrow> add_syscalls READDIR_SYSCALL (syscall_6_readdir mc) t;
     t \<leftarrow> add_syscalls CLOSE_SYSCALL (syscall_7_close mc) t;
     t \<leftarrow> add_syscalls READ_SYSCALL (syscall_8_read mc) t;
     t \<leftarrow> add_syscalls LSEEK_SYSCALL (syscall_9_lseek mc) t;
     t \<leftarrow> add_syscalls STAT_SYSCALL (syscall_10_stat mc) t;
     t \<leftarrow> add_syscalls FSTAT_SYSCALL (syscall_11_fstat mc) t;
     t \<leftarrow> add_syscalls MKDRI_SYSCALL (syscall_12_mkdir mc) t;
     t \<leftarrow> add_syscalls GKBUFFER_SYSCALL syscall_13_get_key_from_buffer t;
     t \<leftarrow> add_syscalls DRAW_FRAME_DOOM_SYSCALL (syscall_14_draw_frame_doom mc) t;
     t \<leftarrow> add_syscalls GETTICKS_SYSCALL syscall_15_get_ticks t;
     t \<leftarrow> add_syscalls EXECVE_SYSCALL (syscall_16_execve mc) t;
     add_syscalls GETPID_SYSCALL syscall_17_getpid t
   }"

definition registering :: cstr where "registering = map of_char ''Registering syscalls'' @ [10]"
definition registered :: cstr where
  "registered = map of_char ''A total of %d Syscalls have been registered'' @ [10]"

text \<open>With the two messages: the second one shows one less than the number of registered calls.\<close>

definition register_syscalls :: "'d machine \<Rightarrow> (nat \<Rightarrow> 'd sys_state handler option) \<times> u32 \<Rightarrow> screen
    \<Rightarrow> (((nat \<Rightarrow> 'd sys_state handler option) \<times> u32) \<times> screen) option" where
  "register_syscalls mc t scr = do {
     scr \<leftarrow> kernel_write (\<lambda>_. None) registering (\<lambda>_. 0) scr;
     t \<leftarrow> register_all mc t;
     scr \<leftarrow> kernel_write (\<lambda>_. None) registered (\<lambda>_. snd t - 1) scr;
     Some (t, scr)
   }"

section \<open>Drawn frames\<close>

definition paint :: "u32 set \<Rightarrow> (u32 \<Rightarrow> u32) \<Rightarrow> pixels \<Rightarrow> pixels" where
  "paint S c p = (\<lambda>q. if q \<in> S then c q else p q)"

lemma paint_paint: "paint S c (paint T c p) = paint (S \<union> T) c p"
  by (auto simp: paint_def fun_eq_iff)

lemma paint_single: "c q = w \<Longrightarrow> p(q := w) = paint {q} c p"
  by (auto simp: paint_def fun_eq_iff)

lemma fold_paint: "fold (\<lambda>i. paint (S i) c) xs p = paint (\<Union>i\<in>set xs. S i) c p"
  by (induction xs arbitrary: p) (simp_all add: paint_paint Un_commute, simp add: paint_def)

lemma fold_opt_paint:
  assumes "\<And>i p. i \<in> set xs \<Longrightarrow> f i p = Some (paint (S i) c p)"
  shows "fold_opt f xs p = Some (paint (\<Union>i\<in>set xs. S i) c p)"
  using assms by (induction xs arbitrary: p) (auto simp: paint_paint Un_commute paint_def)

text \<open>Row and column of a pixel on a screen of 1024 pixels per line.\<close>

definition row :: "u32 \<Rightarrow> nat" where "row q = unat q div 1024"
definition col :: "u32 \<Rightarrow> nat" where "col q = unat q mod 1024"

lemma of_nat_unat_eq: "unat (w :: u32) = n \<Longrightarrow> w = of_nat n"
  by (drule sym) simp

lemma pixel_at: "i < 1024 \<Longrightarrow> j < 1024 \<Longrightarrow> q = of_nat (i * 1024 + j) \<longleftrightarrow> row q = i \<and> col q = j"
proof
  assume "i < 1024" "j < 1024" "q = of_nat (i * 1024 + j)"
  then show "row q = i \<and> col q = j"
    using unat_u32_of_nat [of "i * 1024 + j"] by (simp add: row_def col_def)
next
  assume "row q = i \<and> col q = j"
  then have "unat q = i * 1024 + j" using div_mult_mod_eq [of "unat q" 1024] by (simp add: row_def col_def)
  then show "q = of_nat (i * 1024 + j)" by (rule of_nat_unat_eq)
qed

definition pixel_word :: "u8 \<Rightarrow> u8 \<Rightarrow> u8 \<Rightarrow> u32" where
  "pixel_word r g b = 0xFF000000 OR push_bit 16 (ucast r) OR push_bit 8 (ucast g) OR ucast b"

lemma four_bytes:
  fixes n k :: nat
  assumes "n < 0x40000000" and "k < 4"
  shows "drop_bit 2 (of_nat (n * 4) + of_nat k :: u32) = of_nat n" and "(of_nat (n * 4) + of_nat k :: u32) AND 3 = of_nat k"
proof -
  define w :: u32 where "w = of_nat (n * 4) + of_nat k"
  have u: "unat w = n * 4 + k"
    using assms unat_u32_of_nat [of "n * 4 + k"] by (simp add: w_def)
  have "unat (drop_bit 2 w) = n"
    using assms(2) by (simp add: unat_div u drop_bit_eq_div)
  moreover have "unat (w AND 3) = k"
    using assms(2) by (simp add: and_masks unat_mod u take_bit_eq_mod)
  ultimately show "drop_bit 2 (of_nat (n * 4) + of_nat k :: u32) = of_nat n" "(of_nat (n * 4) + of_nat k :: u32) AND 3 = of_nat k"
    unfolding w_def [symmetric] by (auto intro: of_nat_unat_eq)
qed

lemma stored_pixel:
  fixes w :: u32
  shows "((((((((w AND NOT 0xFF) OR ucast (b :: u8)) AND NOT (push_bit 8 0xFF)) OR push_bit 8 (ucast (g :: u8)))
     AND NOT (push_bit 16 0xFF)) OR push_bit 16 (ucast (r :: u8))) AND NOT (push_bit 24 0xFF)) OR push_bit 24 0xFF) = pixel_word r g b"
proof -
  have m: "(0xFF :: u32) = mask 8" "(0xFF000000 :: u32) = push_bit 24 (mask 8)" by (simp_all add: mask_eq_exp_minus_1)
  have big: "\<not> bit x n" if "8 \<le> n" for x :: u8 and n using bit_imp_le_length [of x n] that by auto
  have ff: "bit (mask 8 :: u32) n \<longleftrightarrow> n < 8" if "n < 32" for n using that by (simp add: bit_mask_iff)
  show ?thesis
  proof (rule bit_word_eqI)
    fix n assume n: "n < LENGTH(32)"
    then consider "n < 8" | "8 \<le> n" "n < 16" | "16 \<le> n" "n < 24" | "24 \<le> n" "n < 32" by force
    then show "bit ((((((((w AND NOT 0xFF) OR ucast b) AND NOT (push_bit 8 0xFF)) OR push_bit 8 (ucast g))
        AND NOT (push_bit 16 0xFF)) OR push_bit 16 (ucast r)) AND NOT (push_bit 24 0xFF)) OR push_bit 24 0xFF) n
      = bit (pixel_word r g b) n"
      unfolding pixel_word_def m
      by cases (simp_all only: bit_simps ff big simp_thms, use n in \<open>auto simp: big\<close>)
  qed
qed


lemma doom_subpixel_run:
  assumes "y < 200" and "x < 320" and "sy < 3" and "sx < 3"
  shows "doom_subpixel r g b y x sy sx p = p(of_nat ((y * 3 + sy) * 1024 + (x * 3 + sx)) := pixel_word r g b)"
proof -
  define n where "n = (y * 3 + sy) * 1024 + (x * 3 + sx)"
  have n: "n < 0x40000000" using assms by (simp add: n_def)
  have at: "drop_bit 2 (of_nat (n * 4) + c :: u32) = of_nat n" "(of_nat (n * 4) + c :: u32) AND 3 = c"
    if "c \<in> {0, 1, 2, 3}" for c
    using that four_bytes [OF n, of 0] four_bytes [OF n, of 1] four_bytes [OF n, of 2] four_bytes [OF n, of 3] by auto
  have byte: "set_fb_byte (of_nat (n * 4) + c) v p = p(of_nat n :=
      (p (of_nat n) AND NOT (push_bit (8 * unat c) 0xFF)) OR push_bit (8 * unat c) (ucast v))" if "c \<in> {0, 1, 2, 3}" for c v p
    by (simp only: set_fb_byte_def Let_def at [OF that])
  have bytes: "set_fb_byte (of_nat (n * 4)) v p = p(of_nat n := (p (of_nat n) AND NOT 0xFF) OR ucast v)"
    "set_fb_byte (of_nat (n * 4) + 1) v p = p(of_nat n := (p (of_nat n) AND NOT (push_bit 8 0xFF)) OR push_bit 8 (ucast v))"
    "set_fb_byte (of_nat (n * 4) + 2) v p = p(of_nat n := (p (of_nat n) AND NOT (push_bit 16 0xFF)) OR push_bit 16 (ucast v))"
    "set_fb_byte (of_nat (n * 4) + 3) v p = p(of_nat n := (p (of_nat n) AND NOT (push_bit 24 0xFF)) OR push_bit 24 (ucast v))"
    for v p
    using byte [of 0] byte [of 1] byte [of 2] byte [of 3] by simp_all
  have full: "ucast (255 :: u8) = (0xFF :: u32)" by simp
  show ?thesis
    unfolding doom_subpixel_def Let_def n_def [symmetric] bytes
    by (simp only: fun_upd_same fun_upd_upd full stored_pixel)
qed

text \<open>The pixels of the screen that show the pixel of column \<open>x\<close> and line \<open>y\<close> of the frame.\<close>

definition block :: "nat \<Rightarrow> nat \<Rightarrow> u32 set" where
  "block y x = {q. row q div 3 = y \<and> col q div 3 = x}"

definition frame_index :: "mmu_state \<Rightarrow> u32 \<Rightarrow> u32 \<Rightarrow> u32 \<Rightarrow> u8 option" where
  "frame_index m buffer pitch q = load_byte m (buffer + (of_nat (row q div 3) * pitch + of_nat (col q div 3)))"

definition frame_color :: "mmu_state \<Rightarrow> u32 \<Rightarrow> u32 \<Rightarrow> (nat \<Rightarrow> u8) \<Rightarrow> u32 \<Rightarrow> u32" where
  "frame_color m buffer pitch pal q = (let i = unat (the (frame_index m buffer pitch q)) * 3
     in pixel_word (pal i) (pal (i + 1)) (pal (i + 2)))"

lemma doom_pixel_run:
  assumes "y < 200" and "x < 320" and "load_byte m (buffer + (of_nat y * pitch + of_nat x)) \<noteq> None"
  shows "doom_pixel m buffer pitch pal y x p = Some (paint (block y x) (frame_color m buffer pitch pal) p)"
proof -
  define c where "c = frame_color m buffer pitch pal"
  obtain i where i: "load_byte m (buffer + (of_nat y * pitch + of_nat x)) = Some i" using assms(3) by blast
  define w where "w = pixel_word (pal (unat i * 3)) (pal (unat i * 3 + 1)) (pal (unat i * 3 + 2))"
  define q where "q = (\<lambda>sy sx. of_nat ((y * 3 + sy) * 1024 + (x * 3 + sx)) :: u32)"
  have q: "a = q sy sx \<longleftrightarrow> row a = y * 3 + sy \<and> col a = x * 3 + sx" if "sy < 3" "sx < 3" for a sy sx
    unfolding q_def using assms(1,2) that by (intro pixel_at) simp_all
  have color: "c (q sy sx) = w" if "sy < 3" "sx < 3" for sy sx
    using q [OF that, of "q sy sx"] that by (simp add: c_def frame_color_def frame_index_def w_def i Let_def)
  have one: "doom_subpixel (pal (unat i * 3)) (pal (unat i * 3 + 1)) (pal (unat i * 3 + 2)) y x sy sx p = paint {q sy sx} c p"
    if "sy < 3" "sx < 3" for sy sx p
    using paint_single [where c = c and q = "q sy sx", OF color [OF that], of p] unfolding doom_subpixel_run [OF assms(1,2) that] w_def [symmetric] by (simp only: q_def)
  have inner: "fold (doom_subpixel (pal (unat i * 3)) (pal (unat i * 3 + 1)) (pal (unat i * 3 + 2)) y x sy) [0..<3] p
      = paint (\<Union>sx < 3. {q sy sx}) c p" if "sy < 3" for sy p
  proof -
    have "fold (doom_subpixel (pal (unat i * 3)) (pal (unat i * 3 + 1)) (pal (unat i * 3 + 2)) y x sy) [0..<3] p
        = fold (\<lambda>sx. paint {q sy sx} c) [0..<3] p"
      using one [OF that] by (intro fold_cong) (auto simp: fun_eq_iff)
    then show ?thesis unfolding fold_paint by (simp only: set_upt lessThan_atLeast0)
  qed
  have "fold (\<lambda>sy. fold (doom_subpixel (pal (unat i * 3)) (pal (unat i * 3 + 1)) (pal (unat i * 3 + 2)) y x sy) [0..<3]) [0..<3] p
      = fold (\<lambda>sy. paint (\<Union>sx < 3. {q sy sx}) c) [0..<3] p"
    using inner by (intro fold_cong) (auto simp: fun_eq_iff)
  also have "\<dots> = paint (\<Union>sy < 3. \<Union>sx < 3. {q sy sx}) c p"
    unfolding fold_paint by (simp only: set_upt lessThan_atLeast0)
  also have "(\<Union>sy < 3. \<Union>sx < 3. {q sy sx}) = block y x"
  proof (intro set_eqI iffI)
    fix a assume "a \<in> block y x"
    then have "row a div 3 = y" "col a div 3 = x" by (simp_all add: block_def)
    then have "row a = y * 3 + row a mod 3" "col a = x * 3 + col a mod 3" by auto
    then have "a = q (row a mod 3) (col a mod 3)" by (subst q) simp_all
    then show "a \<in> (\<Union>sy < 3. \<Union>sx < 3. {q sy sx})" by fastforce
  next
    fix a assume "a \<in> (\<Union>sy < 3. \<Union>sx < 3. {q sy sx})"
    then show "a \<in> block y x" by (auto simp: q block_def)
  qed
  finally show ?thesis by (simp add: doom_pixel_def i c_def)
qed


text \<open>C33: when the frame can be read, the call shows it three times as large in the upper left corner, in the
  colours of the first palette of the game, on the assumption that a line has 1024 pixels; nothing else on
  the screen and no register changes.\<close>

theorem draw_frame_scales:
  assumes "\<forall>y < 200. \<forall>x < 320. load_byte (user_mem s) (i_ebx r + (of_nat y * i_ecx r + of_nat x)) \<noteq> None"
  shows "\<exists>s'. syscall_14_draw_frame_doom mc r s = Some (Returned r s') \<and> (\<forall>q. fb (console (files s')) q =
    (if unat q div 1024 < 600 \<and> unat q mod 1024 < 960
     then (case load_byte (user_mem s) (i_ebx r + (of_nat (unat q div 1024 div 3) * i_ecx r + of_nat (unat q mod 1024 div 3)))
       of Some i \<Rightarrow> pixel_word (playpal mc (3 * unat i)) (playpal mc (3 * unat i + 1)) (playpal mc (3 * unat i + 2)))
     else fb (console (files s)) q))"
proof -
  define pal where "pal = (\<lambda>i. if i < 768 then playpal mc i else doomPalette s i)"
  define c where "c = frame_color (user_mem s) (i_ebx r) (i_ecx r) pal"
  have line: "fold_opt (doom_pixel (user_mem s) (i_ebx r) (i_ecx r) pal y) [0..<320] p
      = Some (paint (\<Union>x\<in>set [0..<320]. block y x) c p)" if "y < 200" for y p
    unfolding c_def using that assms by (intro fold_opt_paint doom_pixel_run) auto
  define S where "S = (\<Union>y\<in>set [0..<200]. \<Union>x\<in>set [0..<320]. block y x)"
  have frame: "fold_opt (\<lambda>y. fold_opt (doom_pixel (user_mem s) (i_ebx r) (i_ecx r) pal y) [0..<320]) [0..<200] p = Some (paint S c p)" for p
    unfolding S_def by (rule fold_opt_paint, rule line) simp
  have S: "q \<in> S \<longleftrightarrow> unat q div 1024 < 600 \<and> unat q mod 1024 < 960" for q
    by (simp add: S_def block_def row_def col_def) linarith
  have color: "c q = (case load_byte (user_mem s) (i_ebx r + (of_nat (unat q div 1024 div 3) * i_ecx r + of_nat (unat q mod 1024 div 3)))
       of Some i \<Rightarrow> pixel_word (playpal mc (3 * unat i)) (playpal mc (3 * unat i + 1)) (playpal mc (3 * unat i + 2)))" if "q \<in> S" for q
  proof -
    have "unat q div 1024 div 3 < 200" "unat q mod 1024 div 3 < 320" using that S [of q] by linarith+
    then obtain i where i: "frame_index (user_mem s) (i_ebx r) (i_ecx r) q = Some i"
      using assms unfolding frame_index_def row_def col_def by blast
    have "unat i < 256" using unsigned_less [of i] by simp
    then show ?thesis
      using i by (simp add: c_def frame_color_def pal_def Let_def)
        (simp add: frame_index_def row_def col_def mult.commute [of _ 3])
  qed
  have run: "syscall_14_draw_frame_doom mc r s = Some (Returned r (s\<lparr>doomPalette := pal,
      files := (files s)\<lparr>console := (console (files s))\<lparr>fb := paint S c (fb (console (files s)))\<rparr>\<rparr>\<rparr>))"
    by (simp add: syscall_14_draw_frame_doom_def with_screen_def pal_def [symmetric] Let_def frame)
  have painted: "paint S c p q = (if unat q div 1024 < 600 \<and> unat q mod 1024 < 960
     then (case load_byte (user_mem s) (i_ebx r + (of_nat (unat q div 1024 div 3) * i_ecx r + of_nat (unat q mod 1024 div 3)))
       of Some i \<Rightarrow> pixel_word (playpal mc (3 * unat i)) (playpal mc (3 * unat i + 1)) (playpal mc (3 * unat i + 2)))
     else p q)" for p q
    using color [of q] unfolding S [symmetric] by (simp add: paint_def)
  show ?thesis by (rule exI, rule conjI, rule run) (simp add: painted)
qed

section \<open>The table\<close>

text \<open>What the handlers of the system calls are, by number. Number 1 is not one of them.\<close>

definition syscall_table :: "'d machine \<Rightarrow> nat \<Rightarrow> 'd sys_state handler option" where
  "syscall_table mc = map_of (rev
     [(0, syscall_0_print mc), (2, syscall_2_clear_screen), (3, syscall_3_write mc), (4, syscall_4_sbrk),
      (5, syscall_5_open mc), (6, syscall_6_readdir mc), (7, syscall_7_close mc), (8, syscall_8_read mc),
      (9, syscall_9_lseek mc), (10, syscall_10_stat mc), (11, syscall_11_fstat mc), (12, syscall_12_mkdir mc),
      (13, syscall_13_get_key_from_buffer), (14, syscall_14_draw_frame_doom mc), (15, syscall_15_get_ticks),
      (16, syscall_16_execve mc), (17, syscall_17_getpid)])"

lemma register_all_table: "register_all mc (\<lambda>_. None, 0) = Some (syscall_table mc, 17)"
  by (simp add: register_all_def add_syscalls_def syscall_numbers syscall_table_def)

lemma syscall_table_none: "syscall_table mc n = None \<longleftrightarrow> n = 1 \<or> 18 \<le> n"
proof -
  have "n \<in> {0, 2, 3, 4, 5, 6, 7, 8, 9, 10, 11, 12, 13, 14, 15, 16, 17} \<longleftrightarrow> n \<noteq> 1 \<and> n < 18"
    by (auto simp: numeral_eq_Suc less_Suc_eq)
  moreover have "dom (syscall_table mc) = {0, 2, 3, 4, 5, 6, 7, 8, 9, 10, 11, 12, 13, 14, 15, 16, 17}"
    by (auto simp: syscall_table_def dom_map_of_conv_image_fst)
  ultimately show ?thesis by (metis domIff not_less)
qed

definition registered_16 :: cstr where
  "registered_16 = map of_char ''A total of 16 Syscalls have been registered'' @ [10]"

lemma register_messages:
  "rendered (\<lambda>_. None) registering (\<lambda>_. 0) 0 = Some registering"
  "rendered (\<lambda>_. None) registered (\<lambda>_. 16) 0 = Some registered_16"
proof -
  have "numeral_of 10 16 = [49, 54]" "decimal_of_int 16 = [49, 54]"
    by (simp_all add: decimal_of_int_def numeral_of.simps possibleChars_def)
  then show "rendered (\<lambda>_. None) registering (\<lambda>_. 0) 0 = Some registering"
      "rendered (\<lambda>_. None) registered (\<lambda>_. 16) 0 = Some registered_16"
    by (simp_all add: registering_def registered_def registered_16_def conversion_def)
qed

text \<open>The 17 system calls are registered under the numbers the user library uses, and 16 are reported. After
  that, an interrupt 128 with one of these numbers in \<open>eax\<close> is exactly its handler; a number from 1024 on
  changes nothing, and 1 and the numbers from 18 to 1023 call a null pointer.\<close>

theorem syscall_dispatch:
  assumes "interrupt_number r = 128"
  shows "register_syscalls mc (\<lambda>_. None, 0) scr
      = Some ((syscall_table mc, 17), puts_kernel registered_16 (puts_kernel registering scr))
    \<and> isr_handler (syscall_table mc) r s =
      (if 1024 \<le> unat (i_eax r) then Some (Returned r s)
       else if i_eax r = 1 \<or> 18 \<le> unat (i_eax r) then None
       else the (syscall_table mc (unat (i_eax r))) r s)"
proof -
  have "kernel_write (\<lambda>_. None) registering (\<lambda>_. 0) x = Some (puts_kernel registering x)"
    "kernel_write (\<lambda>_. None) registered (\<lambda>_. 16) x = Some (puts_kernel registered_16 x)" for x
    using printf_loop_rendered [OF register_messages(1), of x] printf_loop_rendered [OF register_messages(2), of x]
    by (auto simp: kernel_write_def)
  moreover have "i_eax r = 1 \<longleftrightarrow> unat (i_eax r) = 1" by (simp add: word_unat_eq_iff)
  ultimately show ?thesis
    using assms syscall_table_none [of mc "unat (i_eax r)"]
    by (auto simp: register_syscalls_def register_all_table isr_handler_def syscall_handler_def split: option.splits)
qed

section \<open>The heap of a program\<close>

lemma uint_ALIGN_UP: "uint (ALIGN_UP x 0x1000) = uint (x + 0xFFF) div 0x1000 * 0x1000"
proof -
  have m: "(0xFFF :: u32) = mask 12" by (simp add: mask_eq_exp_minus_1)
  have "uint (w AND NOT (mask 12)) = push_bit 12 (drop_bit 12 (uint w))" for w :: u32
    by (rule bit_eqI) (auto simp: bit_simps dest: bit_imp_le_length)
  then show ?thesis by (simp add: ALIGN_UP_def m [symmetric] push_bit_eq_mult drop_bit_eq_div)
qed

text \<open>The break stays on a page boundary and below the limit.\<close>

definition user_heap_ok :: "'d sys_state \<Rightarrow> bool" where
  "user_heap_ok s \<longleftrightarrow> uint (user_heap_end s) mod 0x1000 = 0 \<and> user_heap_end s \<le> user_heap_limit"

text \<open>C39: \<open>sbrk\<close> moves the break by the signed increment, rounded up to whole pages, and returns the old one; beyond
  the limit, or below address 0, it returns -1 and changes nothing. The start of the heap is no bound: the
  break can be moved below it, over the pages of the program.\<close>

theorem sbrk_moves:
  fixes s :: "'d sys_state" and r :: Interrupt_registers
  assumes "user_heap_ok s"
  defines "new \<equiv> (uint (user_heap_end s) + sint (i_ebx r) + 0xFFF) div 0x1000 * 0x1000"
  shows "if 0 \<le> new \<and> new \<le> 0x01800000
    then syscall_4_sbrk r s = Some (Returned (r\<lparr>i_eax := user_heap_end s\<rparr>) (s\<lparr>user_heap_end := of_int new\<rparr>))
      \<and> user_heap_ok (s\<lparr>user_heap_end := of_int new\<rparr>)
    else syscall_4_sbrk r s = Some (Returned (r\<lparr>i_eax := - 1\<rparr>) s)"
proof -
  define t where "t = uint (user_heap_end s) + sint (i_ebx r) + 0xFFF"
  define e where "e = ALIGN_UP (user_heap_end s + i_ebx r) 0x1000"
  have "user_heap_end s + i_ebx r + 0xFFF = word_of_int t" by (simp add: t_def)
  then have e: "uint e = t mod 2 ^ 32 div 0x1000 * 0x1000" by (simp add: e_def uint_ALIGN_UP uint_word_of_int)
  have t: "- 0x80000000 \<le> t" "t < 0x82000000"
  proof -
    define E where "E = uint (user_heap_end s)"
    have "0 \<le> E" "E \<le> 0x01800000"
      using assms(1) by (simp_all add: E_def user_heap_ok_def user_heap_limit_def word_le_def)
    then show "- 0x80000000 \<le> t" "t < 0x82000000"
      using sint_greater_eq [of "i_ebx r"] sint_less [of "i_ebx r"] unfolding t_def E_def [symmetric] by simp_all
  qed
  have pos: "uint e = new" if "0 \<le> t" using e t that by (simp add: new_def t_def)
  have neg: "0x80000000 \<le> uint e \<and> new < 0" if "t < 0"
  proof -
    have "t mod 2 ^ 32 = t + 2 ^ 32" using t(1) that mod_pos_pos_trivial [of "t + 2 ^ 32" "2 ^ 32"] by simp
    moreover have "0x80000 \<le> (t + 2 ^ 32) div 0x1000" using t(1) by simp
    ultimately show ?thesis using e that by (simp add: new_def t_def)
  qed
  have lim: "e \<le> user_heap_limit \<longleftrightarrow> 0 \<le> new \<and> new \<le> 0x01800000"
    using pos neg uint_ge_0 [of e] by (cases "0 \<le> t") (auto simp: user_heap_limit_def word_le_def)
  show ?thesis
  proof (cases "e \<le> user_heap_limit")
    case True
    then have "uint e = new" using pos neg lim by force
    have "e = of_int (uint e)" by simp
    then have "e = of_int new" by (simp only: \<open>uint e = new\<close>)
    moreover have "new mod 0x1000 = 0" by (simp add: new_def)
    ultimately show ?thesis
      using True lim \<open>uint e = new\<close>
      by (simp add: syscall_4_sbrk_def e_def [symmetric] ret_def Let_def user_heap_ok_def)
  next
    case False
    then show ?thesis
      unfolding lim [symmetric] by (simp add: syscall_4_sbrk_def e_def [symmetric] ret_def Let_def)
  qed
qed

end
