(* ===== verification/Userland.thy ===== *)
theory Userland
  imports Syscalls
begin

text \<open>
  The system call library of user programs, \<open>userland/programs/stdlib/syscall.c\<close>: each function loads the
  registers and executes \<open>int $0x80\<close>; what it returns is \<open>eax\<close> when the kernel comes back. The last part
  follows a call through the whole kernel. \<open>r\<close> are the registers of the program before the call.
\<close>

section \<open>The functions\<close>

definition int80 :: "(nat \<Rightarrow> 'a irq_state_scheme handler option) \<Rightarrow> 'a irq_state_scheme handler" where
  "int80 functions r s = isr_handler functions (r\<lparr>interrupt_number := 128\<rparr>) s"

definition u_clear_screen where
  "u_clear_screen functions colour r s = int80 functions (r\<lparr>i_eax := 2, i_ebx := colour\<rparr>) s"

definition u_write where
  "u_write functions fd buf len r s = int80 functions (r\<lparr>i_eax := 3, i_ebx := fd, i_ecx := buf, i_edx := len\<rparr>) s"

text \<open>The pointer is -1 exactly when \<open>eax\<close> is.\<close>

definition u_sbrk where
  "u_sbrk functions increment r s = int80 functions (r\<lparr>i_eax := 4, i_ebx := increment\<rparr>) s"

definition u_open where
  "u_open functions name flags r s = int80 functions (r\<lparr>i_eax := 5, i_ebx := name, i_ecx := flags\<rparr>) s"

definition u_readdir where
  "u_readdir functions path r s = int80 functions (r\<lparr>i_eax := 6, i_ebx := path\<rparr>) s"

text \<open>\<open>close\<close> has no \<open>return\<close>; its value is indeterminate, not \<open>eax\<close>.\<close>

definition u_close where
  "u_close functions file r s = int80 functions (r\<lparr>i_eax := 7, i_ebx := file\<rparr>) s"

definition u_read where
  "u_read functions file buf len r s = int80 functions (r\<lparr>i_eax := 8, i_ebx := file, i_ecx := buf, i_edx := len\<rparr>) s"

definition u_lseek where
  "u_lseek functions file off whence r s =
     int80 functions (r\<lparr>i_eax := 9, i_ebx := file, i_ecx := off, i_edx := whence\<rparr>) s"

definition u_stat where
  "u_stat functions path st r s = int80 functions (r\<lparr>i_eax := 10, i_ebx := path, i_ecx := st\<rparr>) s"

definition u_fstat where
  "u_fstat functions file st r s = int80 functions (r\<lparr>i_eax := 11, i_ebx := file, i_ecx := st\<rparr>) s"

definition u_mkdir where
  "u_mkdir functions path mode r s = int80 functions (r\<lparr>i_eax := 12, i_ebx := path, i_ecx := mode\<rparr>) s"

definition u_get_key_from_buffer where
  "u_get_key_from_buffer functions r s = int80 functions (r\<lparr>i_eax := 13\<rparr>) s"

definition u_draw_frame_doom where
  "u_draw_frame_doom functions buffer pitch r s = int80 functions (r\<lparr>i_eax := 14, i_ebx := buffer, i_ecx := pitch\<rparr>) s"

definition u_get_ticks_doom where
  "u_get_ticks_doom functions r s = int80 functions (r\<lparr>i_eax := 15\<rparr>) s"

definition u_execve where
  "u_execve functions name argv envp r s =
     int80 functions (r\<lparr>i_eax := 16, i_ebx := name, i_ecx := argv, i_edx := envp\<rparr>) s"

definition u_getpid where
  "u_getpid functions r s = int80 functions (r\<lparr>i_eax := 17\<rparr>) s"

text \<open>\<open>print\<close> of \<open>print.c\<close>, and \<open>load_proc\<close> of \<open>proc.c\<close>, whose number is not registered.\<close>

definition u_print where
  "u_print functions str r s = int80 functions (r\<lparr>i_eax := 0, i_ebx := str\<rparr>) s"

definition u_load_proc where
  "u_load_proc functions name r s = int80 functions (r\<lparr>i_eax := 1, i_ebx := name\<rparr>) s"

text \<open>The functions that only have a constant result.\<close>

definition u_unlink :: "u32 \<Rightarrow> int" where "u_unlink name = - 1"
definition u_link :: "u32 \<Rightarrow> u32 \<Rightarrow> int" where "u_link old new = - 1"
definition u_dup :: "int \<Rightarrow> int" where "u_dup fd = - 1"
definition u_dup2 :: "int \<Rightarrow> int \<Rightarrow> int" where "u_dup2 oldfd newfd = - 1"
definition u_isatty :: "int \<Rightarrow> int" where "u_isatty file = 1"
definition u_kill :: "int \<Rightarrow> int \<Rightarrow> int" where "u_kill proc sig = - 1"

lemmas user_calls = u_clear_screen_def u_write_def u_sbrk_def u_open_def u_readdir_def u_close_def u_read_def
  u_lseek_def u_stat_def u_fstat_def u_mkdir_def u_get_key_from_buffer_def u_draw_frame_doom_def
  u_get_ticks_doom_def u_execve_def u_getpid_def u_print_def u_load_proc_def

section \<open>Through the kernel\<close>

lemma int80_run:
  assumes "syscall_table mc (unat (i_eax r)) = Some f" and "unat (i_eax r) < 1024"
  shows "int80 (syscall_table mc) r s = f (r\<lparr>interrupt_number := 128\<rparr>) s"
  using assms by (simp add: int80_def isr_handler_def syscall_handler_def)

text \<open>C37: a program that writes to its standard output or error gets the text, when it has no percent sign and no
  zero and fits, with its final zero, into what is left of the kernel stack, shown on the screen at the cursor, and
  the number of its bytes. Nothing else changes: of the state only the screen (and the copy of the heap in
  \<open>files\<close>, which is renewed by every call), of the registers those in which the call passes its arguments and
  its result.\<close>

theorem user_write_shows:
  fixes s :: "'d sys_state"
  assumes "load_bytes (user_mem s) buf (length text_bytes) = Some text_bytes" and "buf \<noteq> 0" and "fd = 1 \<or> fd = 2"
    and "37 \<notin> set text_bytes" and "0 \<notin> set text_bytes" and "length text_bytes < stack_room mc" and "length text_bytes < 0x80000000"
  shows "u_write (syscall_table mc) fd buf (of_nat (length text_bytes)) r s
    = Some (Returned (r\<lparr>i_eax := of_nat (length text_bytes), i_ebx := fd, i_ecx := buf, i_edx := of_nat (length text_bytes),
          interrupt_number := 128\<rparr>)
        (s\<lparr>files := (files s)\<lparr>fil_heap := kheap s, console := puts_kernel text_bytes (console (files s))\<rparr>\<rparr>))"
proof -
  let ?r = "r\<lparr>i_eax := 3, i_ebx := fd, i_ecx := buf, i_edx := of_nat (length text_bytes)\<rparr>"
  have n: "unat (of_nat (length text_bytes) :: u32) = length text_bytes" using assms(7) by (intro unat_u32_of_nat) simp
  have fd: "sint fd = STDOUT_FILENO \<or> sint fd = STDERR_FILENO"
    using assms(3) by (auto simp: STDOUT_FILENO_def STDERR_FILENO_def)
  have "int80 (syscall_table mc) ?r s = syscall_3_write mc (?r\<lparr>interrupt_number := 128\<rparr>) s"
    by (rule int80_run) (simp_all add: syscall_table_def)
  moreover have "write_file (stack_room mc) f str_at stack (sint fd) (Some (Some text_bytes)) x
      = Some (int (length text_bytes), x\<lparr>console := puts_kernel text_bytes (console x)\<rparr>)" for f str_at stack and x :: "'d file_state"
    using write_console_run [OF fd assms(4-7)] by blast
  ultimately show ?thesis
    using assms(1,2) by (simp add: u_write_def syscall_3_write_def with_files_def n ret_def)
qed

text \<open>C8: a program that reads a line from its standard input into a buffer of its own finds there, when the call
  comes back, the line that was typed with its newline and a zero, and gets the number of the characters;
  what was typed behind the line is still there for the next call, and no page has moved.\<close>

theorem user_read_line:
  fixes s :: "'d sys_state"
  assumes "keyboard_ok (keyb s)" and "pending_keys (keyb s) @ typed s = line @ 10 # rest" and "10 \<notin> set line"
    and "0 \<notin> set (line @ 10 # rest)" and "length line + 1 < unat len" and "buffer_ok (user_mem s) buf (length line + 2)"
  shows "\<exists>r' s'. u_read (syscall_table mc) 0 buf len r s = Some (Returned r' s')
    \<and> i_eax r' = of_nat (length line + 1)
    \<and> load_bytes (user_mem s') buf (length line + 2) = Some (map ucast line @ [10, 0])
    \<and> translate (user_mem s') = translate (user_mem s)
    \<and> keyboard_ok (keyb s') \<and> pending_keys (keyb s') @ typed s' = rest"
proof -
  let ?r = "r\<lparr>i_eax := 8, i_ebx := 0, i_ecx := buf, i_edx := len\<rparr>"
  have call: "int80 (syscall_table mc) ?r s = syscall_8_read mc (?r\<lparr>interrupt_number := 128\<rparr>) s"
    by (rule int80_run) (simp_all add: syscall_table_def)
  obtain k ty where read: "read_file (ff mc) STDIN_FILENO len (keyb s) (typed s) (files s)
      = Some (int (length line) + 1, map ucast line @ [10, 0], k, ty, files s)" "keyboard_ok k" "pending_keys k @ ty = rest"
    using read_file_line_run [OF assms(1-5)] by blast
  obtain m where m: "store_bytes buf (map ucast line @ [10, 0]) (user_mem s) = Some m"
      "load_bytes m buf (length line + 2) = Some (map ucast line @ [10, 0])" "translate m = translate (user_mem s)"
    using store_load_bytes [of "user_mem s" buf "map ucast line @ [10, 0]"] assms(6) by auto
  show ?thesis
    using read m call by (simp add: u_read_def syscall_8_read_def ret_def STDIN_FILENO_def user_mem_def)
qed

section \<open>Examples\<close>

text \<open>
  All pages from 4 to 8 MB are frame 9, which begins with the word \<open>Hi\<close>; the line \<open>ls\<close> is about to be typed.
\<close>

definition sys_mmu :: mmu_state where
  "sys_mmu = mmu_demo\<lparr>ram := (ram mmu_demo)(2 := (ram mmu_demo 2)(1 := 0x5007), 5 := (\<lambda>_. 0x9007), 9 := (\<lambda>_. 0)(0 := 0x6948))\<rparr>"

definition sys_demo :: "unit sys_state" where
  "sys_demo = \<lparr>kheap = (kheap irq_demo)\<lparr>mmu := sys_mmu\<rparr>, ptab = ptab irq_demo, threads = threads irq_demo,
     regstore = regstore irq_demo, cpuRunqueues = cpuRunqueues irq_demo, threadsPerCPU = threadsPerCPU irq_demo,
     currentThread = currentThread irq_demo, ticksSinceLastSwitch = (\<lambda>_. 0), ncpus = 3, descs = desc_zero,
     cpuTicks = (\<lambda>_. 0), pit_ticks = 12, lapic = lapic_start, port_log = [], files = files_demo, keyb = keyboard_boot,
     typed = [108, 115, 10, 97], user_heap_end = user_heap_start, doomPalette = (\<lambda>_. 0)\<rparr>"

definition machine_demo :: "unit machine" where
  "machine_demo = \<lparr>ff = ff_demo, f_opendir = (\<lambda>_ d. (FR_OK, d)), f_readdir = (\<lambda>d. (FR_OK, [], d)), f_closedir = (\<lambda>d. d),
     program_of = (\<lambda>_ d. (\<lparr>stat_res = FR_OK, stat_fsize = 1, open_res = FR_OK, reads = (\<lambda>_. (FR_OK, [])),
       close_res = FR_OK\<rparr>, d)),
     playpal = (\<lambda>i. of_nat i), kstack = (\<lambda>_. 0), garbage = 7, apic_id = 2, junk_regs = regs_demo, stack_room = 3000,
     kernel_printf = (\<lambda>line _. puts_kernel line)\<rparr>"

lemma sys_demo_page:
  assumes "unat v div 4194304 = 1"
  shows "translate (user_mem sys_demo) v = Some 9"
  using assms by (simp add: user_mem_def sys_demo_def sys_mmu_def mmu_demo_def translate_def walk_def pframe_def
      unat_pd_index present_def page_flags Let_def)

lemma sys_demo_tables: "9 \<notin> walk_frames (user_mem sys_demo)"
  by (auto simp: walk_frames_def user_mem_def sys_demo_def sys_mmu_def mmu_demo_def pframe_def present_def page_flags
      split: if_splits)

lemma sys_demo_address: "i < 4194304 \<Longrightarrow> unat (0x400000 + of_nat i :: u32) = 4194304 + i"
  using unat_u32_of_nat [of i] unat_u32_add [of "0x400000" "of_nat i"] by simp

lemma sys_demo_readable: "i < 4194304 \<Longrightarrow> translate (user_mem sys_demo) (0x400000 + of_nat i) = Some 9"
  by (rule sys_demo_page) (simp add: sys_demo_address)

lemma sys_demo_buffer: "n \<le> 4096 \<Longrightarrow> buffer_ok (user_mem sys_demo) 0x400000 n"
proof -
  assume n: "n \<le> 4096"
  have off: "unat ((0x400000 + of_nat i :: u32) AND 0xFFF) = i" if "i < n" for i
  proof -
    have m: "(0xFFF :: u32) = mask 12" by (simp add: mask_eq_exp_minus_1)
    have "(0x400000 + of_nat i :: u32) AND 0xFFF = take_bit 12 (0x400000 + of_nat i)" by (simp add: m take_bit_eq_mask)
    then show ?thesis using n that mod_mult_self3 [of 1024 4096 i] by (simp add: unat_mod take_bit_eq_mod sys_demo_address)
  qed
  have place: "place (user_mem sys_demo) (0x400000 + of_nat i) = Some (9, (0x400000 + of_nat i) AND 0xFFF)" if "i < n" for i
    unfolding place_def using n that by (subst sys_demo_readable) simp_all
  have "i = j" if "i < n" "j < n" "place (user_mem sys_demo) (0x400000 + of_nat i) = place (user_mem sys_demo) (0x400000 + of_nat j)" for i j
  proof -
    have "(0x400000 + of_nat i :: u32) AND 0xFFF = (0x400000 + of_nat j) AND 0xFFF"
      using that(3) unfolding place [OF that(1)] place [OF that(2)] by (simp only: option.inject prod.inject)
    from arg_cong [OF this, of unat] show ?thesis unfolding off [OF that(1)] off [OF that(2)] .
  qed
  then show ?thesis
    using n sys_demo_readable sys_demo_tables by (auto simp: buffer_ok_def inj_on_def)
qed

lemma sys_demo_byte: "load_byte (user_mem sys_demo) 0x400000 = Some 72" "load_byte (user_mem sys_demo) 0x400001 = Some 105"
proof -
  have "translate (user_mem sys_demo) 0x400000 = Some 9" "translate (user_mem sys_demo) 0x400001 = Some 9"
    using sys_demo_readable [of 0] sys_demo_readable [of 1] by simp_all
  then show "load_byte (user_mem sys_demo) 0x400000 = Some 72" "load_byte (user_mem sys_demo) 0x400001 = Some 105"
    by (simp_all add: load_byte_def) (simp_all add: user_mem_def sys_demo_def sys_mmu_def)
qed

lemma sys_demo_text: "load_bytes (user_mem sys_demo) 0x400000 2 = Some [72, 105]"
  by (simp add: numeral_2_eq_2 sys_demo_byte)

theorem syscall_dispatch_witness:
  "isr_handler (syscall_table machine_demo) (timer_regs\<lparr>interrupt_number := 128, i_eax := 15\<rparr>) sys_demo
    = Some (Returned (timer_regs\<lparr>interrupt_number := 128, i_eax := 12\<rparr>) sys_demo)"
  using syscall_dispatch [of "timer_regs\<lparr>interrupt_number := 128, i_eax := 15\<rparr>" machine_demo blank_screen sys_demo]
  by (simp add: syscall_table_def syscall_15_get_ticks_def ret_def sys_demo_def)

theorem sbrk_moves_witness:
  "syscall_4_sbrk (timer_regs\<lparr>i_ebx := - 0x300001\<rparr>) sys_demo
    = Some (Returned (timer_regs\<lparr>i_ebx := - 0x300001, i_eax := 0x800000\<rparr>) (sys_demo\<lparr>user_heap_end := 0x500000\<rparr>))"
proof -
  have "user_heap_ok sys_demo" by (simp add: user_heap_ok_def sys_demo_def user_heap_start_def user_heap_limit_def)
  from sbrk_moves [OF this, of "timer_regs\<lparr>i_ebx := - 0x300001\<rparr>"]
  show ?thesis by (simp add: sys_demo_def user_heap_start_def)
qed

theorem draw_frame_scales_witness:
  "\<exists>s'. syscall_14_draw_frame_doom machine_demo (timer_regs\<lparr>i_ebx := 0x400000, i_ecx := 320\<rparr>) sys_demo
      = Some (Returned (timer_regs\<lparr>i_ebx := 0x400000, i_ecx := 320\<rparr>) s')
    \<and> fb (console (files s')) 1025 = 0xFFD8D9DA"
proof -
  have "load_byte (user_mem sys_demo) (0x400000 + (of_nat y * 320 + of_nat x)) \<noteq> None" if "y < 200" "x < 320" for y x
    using sys_demo_readable [of "y * 320 + x"] that by (simp add: load_byte_def)
  then show ?thesis
    using draw_frame_scales [of sys_demo "timer_regs\<lparr>i_ebx := 0x400000, i_ecx := 320\<rparr>" machine_demo]
    by (auto simp: pixel_word_def sys_demo_byte) (simp add: machine_demo_def)
qed

theorem user_write_shows_witness:
  "\<exists>r' s'. u_write (syscall_table machine_demo) 1 0x400000 2 timer_regs sys_demo = Some (Returned r' s')
    \<and> i_eax r' = 2 \<and> console (files s') = puts_kernel [72, 105] (console (files sys_demo))"
proof -
  have "length [72, 105 :: u8] = 2" by simp
  from user_write_shows [of sys_demo "0x400000" "[72, 105]" 1 machine_demo timer_regs, unfolded this, OF sys_demo_text]
  show ?thesis by (auto simp: machine_demo_def)
qed

theorem user_read_line_witness:
  "\<exists>r' s'. u_read (syscall_table machine_demo) 0 0x400000 80 timer_regs sys_demo = Some (Returned r' s')
    \<and> i_eax r' = 3 \<and> load_bytes (user_mem s') 0x400000 4 = Some [108, 115, 10, 0] \<and> pending_keys (keyb s') @ typed s' = [97]"
proof -
  have kb: "keyb sys_demo = keyboard_boot" "typed sys_demo = [108, 115, 10, 97]" by (simp_all add: sys_demo_def)
  have "length [108, 115 :: u32] + 2 = 4" by simp
  from user_read_line [of sys_demo "[108, 115]" "[97]" 80 "0x400000" machine_demo timer_regs, unfolded this]
  show ?thesis
    using sys_demo_buffer [of 4] by (auto simp: keyboard_boot_ok kb simp del: load_bytes.simps)
qed

end
