(* ===== verification/Sys_Invariant.thy ===== *)
theory Sys_Invariant
  imports Userland
begin

text \<open>
  A type invariant of the state that the system calls share, and that every one of them keeps it. The calls that
  store a result for the program, \<open>read\<close>, \<open>stat\<close> and \<open>fstat\<close>, do not check where: the variables of the
  kernel are above \<open>KERNEL_START\<close>, mapped in every directory, and a program that passes an address there has them
  overwritten. The invariant is about calls whose results are to be stored in the program's own half, and part of
  what is shown is that no byte of the kernel's half is written then.
\<close>

section \<open>The invariant\<close>

text \<open>Descriptors 0 to 2 belong to the console and are in no table; the others are indices of the table.\<close>

definition files_ok :: "'d file_state \<Rightarrow> bool" where
  "files_ok fs \<longleftrightarrow> console_ok (console fs) \<and> (\<forall>fd. file_table fs fd \<noteq> 0 \<longrightarrow> 3 \<le> fd \<and> fd < MAX_FILES)"

definition sys_ok :: "'d sys_state \<Rightarrow> bool" where
  "sys_ok s \<longleftrightarrow> files_ok (files s) \<and> keyboard_ok (keyb s) \<and> user_heap_ok s"

definition outcome_ok :: "'d sys_state outcome \<Rightarrow> bool" where
  "outcome_ok out \<longleftrightarrow> (case out of Returned r s \<Rightarrow> sys_ok s | Switched rg s \<Rightarrow> sys_ok s | Halted s \<Rightarrow> sys_ok s)"

lemma outcome_ok_simps [simp]:
  "outcome_ok (Returned r s) = sys_ok s" "outcome_ok (Switched rg s) = sys_ok s" "outcome_ok (Halted s) = sys_ok s"
  by (simp_all add: outcome_ok_def)

lemma ret_ok: "ret v r s = Some out \<Longrightarrow> sys_ok s \<Longrightarrow> outcome_ok out"
  by (auto simp: ret_def)

lemma sys_ok_kheap: "sys_ok (s\<lparr>kheap := h\<rparr>) = sys_ok s"
  by (simp add: sys_ok_def user_heap_ok_def)

lemma sys_ok_files: "sys_ok s \<Longrightarrow> files_ok fs \<Longrightarrow> sys_ok (s\<lparr>files := fs\<rparr>)"
  by (simp add: sys_ok_def user_heap_ok_def)

lemma files_ok_volume [simp]: "files_ok (fs\<lparr>volume := d\<rparr>) = files_ok fs" "files_ok (fs\<lparr>errno := e\<rparr>) = files_ok fs"
  "files_ok (fs\<lparr>fil_heap := h\<rparr>) = files_ok fs"
  by (simp_all add: files_ok_def)

section \<open>The functions on files\<close>

lemma fail_ok: "fail e fs = (v, fs') \<Longrightarrow> files_ok fs \<Longrightarrow> files_ok fs'"
  by (auto simp: fail_def)

lemma check_ok: "check res v fs = (w, fs') \<Longrightarrow> files_ok fs \<Longrightarrow> files_ok fs'"
  by (auto simp: check_def fail_def split: if_splits)

lemma open_file_ok:
  assumes "open_file f name flags fs = Some (v, fs')" and "files_ok fs"
  shows "files_ok fs'"
proof (cases "name = None \<or> get_free_fd fs < 0")
  case True
  then show ?thesis using assms by (auto simp: open_file_def fail_def split: option.splits)
next
  case False
  then obtain nm where nm: "name = Some nm" by auto
  define n where "n = nat (get_free_fd fs)"
  have n: "get_free_fd fs = int n" using False by (simp add: n_def)
  then have "3 \<le> n" "n < MAX_FILES" by (simp_all add: get_free_fd_least)
  then show ?thesis
    using assms by (auto simp: open_file_def nm n fail_def bind_eq_Some_conv Let_def case_prod_unfold files_ok_def split: if_splits)
qed

lemma close_file_ok: "close_file f fd fs = (v, fs') \<Longrightarrow> files_ok fs \<Longrightarrow> files_ok fs'"
  by (auto simp: close_file_def fail_def Let_def files_ok_def case_prod_unfold split: if_splits)

lemma lseek_ok: "lseek f fd off whence fs = (v, fs') \<Longrightarrow> files_ok fs \<Longrightarrow> files_ok fs'"
  by (auto simp: lseek_def seek_to_def fail_def check_def Let_def case_prod_unfold split: if_splits)

lemma stat_path_ok: "stat_path f path null fs = (v, fs') \<Longrightarrow> files_ok fs \<Longrightarrow> files_ok fs'"
  by (auto simp: stat_path_def fail_def Let_def case_prod_unfold split: if_splits option.splits)

lemma fstat_ok: "fstat f fd null fs = (v, fs') \<Longrightarrow> files_ok fs \<Longrightarrow> files_ok fs'"
  by (auto simp: fstat_def fail_def Let_def case_prod_unfold dest: stat_path_ok split: if_splits)

lemma mkdir_ok: "mkdir f path fs = (v, fs') \<Longrightarrow> files_ok fs \<Longrightarrow> files_ok fs'"
  by (auto simp: mkdir_def check_def fail_def Let_def case_prod_unfold split: if_splits option.splits)

lemma kernel_write_ok: "kernel_write str_at fmt args (console fs) = Some scr \<Longrightarrow> files_ok fs \<Longrightarrow> files_ok (fs\<lparr>console := scr\<rparr>)"
  using kernel_write_safe by (auto simp: files_ok_def safe_result_def)

lemma write_file_ok: "write_file room f str_at stack fd buf fs = Some (v, fs') \<Longrightarrow> files_ok fs \<Longrightarrow> files_ok fs'"
  by (auto simp: write_file_def fail_def check_def bind_eq_Some_conv Let_def case_prod_unfold intro: kernel_write_ok
      split: option.splits if_splits)

lemma wait_key_ok: "wait_key k ty = Some (key, k', ty') \<Longrightarrow> keyboard_ok k \<Longrightarrow> keyboard_ok k'"
proof (induction ty arbitrary: k)
  case Nil
  then show ?case using keys.valid_deq [of k] by (auto simp: wait_key.simps [of k] Let_def case_prod_unfold split: if_splits)
next
  case (Cons x ty)
  then show ?case
    using keys.valid_deq [of k] keys.valid_enq by (auto simp: wait_key.simps [of k] Let_def case_prod_unfold split: if_splits)
qed

lemma console_read_line_ok:
  "console_read_line count len k ty = Some (out, k', ty') \<Longrightarrow> keyboard_ok k \<Longrightarrow> keyboard_ok k'"
proof (induction count len k ty arbitrary: out rule: console_read_line.induct)
  case (1 count len k ty)
  show ?case
  proof (cases "count + 1 < len")
    case True
    then obtain key k1 ty1 where w: "wait_key k ty = Some (key, k1, ty1)"
      using "1.prems"(1) by (subst (asm) console_read_line.simps) (auto simp: bind_eq_Some_conv)
    have k1: "keyboard_ok k1" using wait_key_ok [OF w "1.prems"(2)] .
    show ?thesis
    proof (cases "key = 10")
      case True
      then show ?thesis
        using "1.prems"(1) \<open>count + 1 < len\<close> w k1 by (subst (asm) console_read_line.simps) auto
    next
      case False
      then obtain out1 where "console_read_line (Suc count) len k1 ty1 = Some (out1, k', ty')"
        using "1.prems"(1) \<open>count + 1 < len\<close> w by (subst (asm) console_read_line.simps) (auto simp: bind_eq_Some_conv)
      then show ?thesis using "1.IH" [OF True w refl refl] False k1 by blast
    qed
  next
    case False
    then show ?thesis using "1.prems" by (subst (asm) console_read_line.simps) auto
  qed
qed

lemma read_file_ok:
  "read_file f fd len k ty fs = Some (v, bytes, k', ty', fs') \<Longrightarrow> files_ok fs \<Longrightarrow> keyboard_ok k
    \<Longrightarrow> files_ok fs' \<and> keyboard_ok k'"
  by (auto simp: read_file_def fail_def check_def bind_eq_Some_conv Let_def case_prod_unfold dest: console_read_line_ok
      split: if_splits)

lemma readdir_loop_ok:
  assumes "readdir_loop mc f fs = Some res"
  shows "files_ok fs \<longrightarrow> files_ok (snd res)"
proof (rule readdir_loop.raw_induct [OF _ assms, where P = "\<lambda>mc f fs res. files_ok fs \<longrightarrow> files_ok (snd res)"])
  fix rec mc f fs and res :: "u32 \<times> 'a file_state"
  assume IH: "\<And>mc f fs res. rec mc f fs = Some res \<Longrightarrow> files_ok fs \<longrightarrow> files_ok (snd res)"
    and step: "(let (res, fname, d) = f_readdir mc (volume fs); fs = fs\<lparr>volume := d\<rparr>;
          fresult = (if res = FR_OK \<and> fname \<noteq> [] then 1 else 0)
      in if fresult \<noteq> 0 then do {
           scr \<leftarrow> kernel_write (\<lambda>_. Some fname) found_line (\<lambda>_. 0) (console fs);
           rec mc fresult (fs\<lparr>console := scr\<rparr>)
         } else Some (fresult, fs)) = Some res"
  obtain r fname d where rd: "f_readdir mc (volume fs) = (r, fname, d)" by (cases "f_readdir mc (volume fs)") auto
  show "files_ok fs \<longrightarrow> files_ok (snd res)"
  proof
    assume ok: "files_ok fs"
    show "files_ok (snd res)"
    proof (cases "r = FR_OK \<and> fname \<noteq> []")
      case True
      then obtain scr where scr: "kernel_write (\<lambda>_. Some fname) found_line (\<lambda>_. 0) (console (fs\<lparr>volume := d\<rparr>)) = Some scr"
          "rec mc 1 (fs\<lparr>volume := d, console := scr\<rparr>) = Some res"
        using step rd by (auto simp: bind_eq_Some_conv)
      have "files_ok (fs\<lparr>volume := d, console := scr\<rparr>)" using kernel_write_ok [OF scr(1)] ok by simp
      then show ?thesis using IH [OF scr(2)] by blast
    next
      case False
      then show ?thesis using step rd ok by (auto simp: Let_def)
    qed
  qed
qed

section \<open>The system calls\<close>

lemma with_files_ok:
  assumes "with_files f s = Some (v, s')" and "sys_ok s" and "\<And>fs v fs'. f fs = Some (v, fs') \<Longrightarrow> files_ok fs \<Longrightarrow> files_ok fs'"
  shows "sys_ok s'"
proof -
  obtain fs where fs: "f ((files s)\<lparr>fil_heap := kheap s\<rparr>) = Some (v, fs)" "s' = s\<lparr>files := fs, kheap := fil_heap fs\<rparr>"
    using assms(1) by (auto simp: with_files_def bind_eq_Some_conv)
  moreover have "files_ok fs" using assms(3) [OF fs(1)] assms(2) by (simp add: sys_ok_def)
  ultimately show ?thesis using assms(2) by (simp add: sys_ok_def user_heap_ok_def)
qed

lemma with_screen_ok:
  assumes "with_screen f s = Some s'" and "sys_ok s" and "\<And>scr. f (console (files s)) = Some scr \<Longrightarrow> console_ok scr"
  shows "sys_ok s'"
  using assms by (auto simp: with_screen_def bind_eq_Some_conv sys_ok_def files_ok_def user_heap_ok_def)

lemma clear_screen_ok: "clear_screen_sys_2 c scr = Some scr' \<Longrightarrow> console_ok scr \<Longrightarrow> console_ok scr'"
  by (auto simp: clear_screen_sys_2_def bind_eq_Some_conv console_ok_def screen_ok_def word_less_nat_alt word_le_nat_alt)

lemma console_ok_fb: "console_ok (scr\<lparr>fb := p\<rparr>) = console_ok scr"
  by (simp add: console_ok_def split: option.split)

lemma screen_calls_ok:
  assumes "sys_ok s"
  shows "syscall_0_print mc r s = Some out \<Longrightarrow> outcome_ok out"
    and "syscall_2_clear_screen r s = Some out \<Longrightarrow> outcome_ok out"
    and "syscall_14_draw_frame_doom mc r s = Some out \<Longrightarrow> outcome_ok out"
proof -
  have ok: "console_ok (console (files s))" using assms by (simp add: sys_ok_def files_ok_def)
  show "syscall_0_print mc r s = Some out \<Longrightarrow> outcome_ok out"
    using kernel_write_safe [OF ok] with_screen_ok [OF _ assms]
    by (auto simp: syscall_0_print_def bind_eq_Some_conv safe_result_def)
  show "syscall_2_clear_screen r s = Some out \<Longrightarrow> outcome_ok out"
    by (auto simp: syscall_2_clear_screen_def bind_eq_Some_conv elim!: ret_ok with_screen_ok [OF _ assms]
        intro: clear_screen_ok [OF _ ok])
  have pal: "sys_ok (x\<lparr>doomPalette := pal\<rparr>) = sys_ok x" for x pal by (simp add: sys_ok_def user_heap_ok_def)
  show "syscall_14_draw_frame_doom mc r s = Some out \<Longrightarrow> outcome_ok out"
    by (auto simp: syscall_14_draw_frame_doom_def bind_eq_Some_conv Let_def pal console_ok_fb ok
        elim!: with_screen_ok [OF _ assms])
qed

lemma file_calls_ok:
  assumes "sys_ok s"
  shows "syscall_3_write mc r s = Some out \<Longrightarrow> outcome_ok out"
    and "syscall_5_open mc r s = Some out \<Longrightarrow> outcome_ok out"
    and "syscall_7_close mc r s = Some out \<Longrightarrow> outcome_ok out"
    and "syscall_9_lseek mc r s = Some out \<Longrightarrow> outcome_ok out"
    and "syscall_12_mkdir mc r s = Some out \<Longrightarrow> outcome_ok out"
  unfolding syscall_3_write_def syscall_5_open_def syscall_7_close_def syscall_9_lseek_def syscall_12_mkdir_def Let_def
  using assms
  by (auto simp: bind_eq_Some_conv elim!: ret_ok with_files_ok
      intro: write_file_ok open_file_ok close_file_ok lseek_ok mkdir_ok)

lemma syscall_8_read_ok:
  assumes "sys_ok s" and "syscall_8_read mc r s = Some out"
  shows "outcome_ok out"
proof -
  have ok: "files_ok (files s)" "keyboard_ok (keyb s)" "user_heap_ok s" using assms(1) by (simp_all add: sys_ok_def)
  obtain v bytes k ty fs m where "read_file (ff mc) (sint (i_ebx r)) (i_edx r) (keyb s) (typed s) (files s) = Some (v, bytes, k, ty, fs)"
      "ret (of_int v) r (s\<lparr>files := fs, keyb := k, typed := ty, kheap := (kheap s)\<lparr>mmu := m\<rparr>\<rparr>) = Some out"
    using assms(2) by (auto simp: syscall_8_read_def bind_eq_Some_conv)
  moreover from this(1) have "files_ok fs \<and> keyboard_ok k" using ok(1,2) by (rule read_file_ok)
  ultimately show ?thesis
    using ok(3) by (elim ret_ok) (simp add: sys_ok_def user_heap_ok_def)
qed

lemma stat_calls_ok:
  assumes "sys_ok s"
  shows "syscall_10_stat mc r s = Some out \<Longrightarrow> outcome_ok out"
    and "syscall_11_fstat mc r s = Some out \<Longrightarrow> outcome_ok out"
proof -
  have ok: "sys_ok (s\<lparr>files := fs, kheap := h\<rparr>)" if "files_ok fs" for fs h
    using assms that by (simp add: sys_ok_def user_heap_ok_def)
  have fs: "files_ok (files s)" using assms by (simp add: sys_ok_def)
  have path: "files_ok (snd (stat_path f path null (files s)))" "files_ok (snd (fstat f fd null (files s)))" for f path null fd
    using stat_path_ok [OF _ fs] fstat_ok [OF _ fs] by (metis prod.collapse)+
  show "syscall_10_stat mc r s = Some out \<Longrightarrow> outcome_ok out" "syscall_11_fstat mc r s = Some out \<Longrightarrow> outcome_ok out"
    by (auto simp: syscall_10_stat_def syscall_11_fstat_def bind_eq_Some_conv Let_def case_prod_unfold elim!: ret_ok
        intro!: ok path)
qed

lemma syscall_6_readdir_ok:
  assumes "sys_ok s" and "syscall_6_readdir mc r s = Some out"
  shows "outcome_ok out"
proof -
  have fs: "files_ok (files s)" using assms(1) by (simp add: sys_ok_def)
  obtain path where path: "load_string (user_mem s) (i_ebx r) = Some path"
    using assms(2) by (auto simp: syscall_6_readdir_def bind_eq_Some_conv)
  obtain res d where dir: "f_opendir mc path (volume (files s)) = (res, d)" by (cases "f_opendir mc path (volume (files s))")
  show ?thesis
  proof (cases "res = FR_OK")
    case True
    then obtain v fs' where loop: "readdir_loop mc (garbage mc) ((files s)\<lparr>volume := d\<rparr>) = Some (v, fs')"
        "ret v r (s\<lparr>files := fs'\<lparr>volume := f_closedir mc (volume fs')\<rparr>\<rparr>) = Some out"
      using assms(2) path dir by (auto simp: syscall_6_readdir_def bind_eq_Some_conv)
    have "files_ok fs'" using readdir_loop_ok [OF loop(1)] fs by simp
    then show ?thesis using loop(2) assms(1) by (auto intro!: ret_ok sys_ok_files)
  next
    case False
    then show ?thesis
      using assms path dir fs by (auto simp: syscall_6_readdir_def bind_eq_Some_conv intro!: ret_ok sys_ok_files)
  qed
qed

lemma plain_calls_ok:
  assumes "sys_ok s"
  shows "syscall_4_sbrk r s = Some out \<Longrightarrow> outcome_ok out"
    and "syscall_13_get_key_from_buffer r s = Some out \<Longrightarrow> outcome_ok out"
    and "syscall_15_get_ticks r s = Some out \<Longrightarrow> outcome_ok out"
    and "syscall_17_getpid r s = Some out \<Longrightarrow> outcome_ok out"
proof -
  have aligned: "uint (ALIGN_UP x 0x1000) mod 0x1000 = 0" for x by (simp add: uint_ALIGN_UP)
  show "syscall_4_sbrk r s = Some out \<Longrightarrow> outcome_ok out"
    using assms aligned by (auto simp: syscall_4_sbrk_def Let_def ret_def sys_ok_def user_heap_ok_def not_less split: if_splits)
  show "syscall_13_get_key_from_buffer r s = Some out \<Longrightarrow> outcome_ok out"
    using assms keys.valid_deq [of "keyb s"]
    by (auto simp: syscall_13_get_key_from_buffer_def ret_def Let_def sys_ok_def user_heap_ok_def case_prod_unfold)
  show "syscall_15_get_ticks r s = Some out \<Longrightarrow> outcome_ok out" "syscall_17_getpid r s = Some out \<Longrightarrow> outcome_ok out"
    using assms by (auto simp: syscall_15_get_ticks_def syscall_17_getpid_def ret_def)
qed

text \<open>Creating a process changes nothing outside of the kernel's own objects.\<close>

lemma on_mmu_more: "on_mmu f s = Some s' \<Longrightarrow> kstate.more s' = kstate.more s"
  by (auto simp: on_mmu_def bind_eq_Some_conv)

lemma program_more:
  "mapMemoryForProgramm res n a s = Some (k, s') \<Longrightarrow> kstate.more s' = kstate.more s"
  "copyProgramToAddress res contents k a s = Some s' \<Longrightarrow> kstate.more s' = kstate.more s"
  by (auto simp: mapMemoryForProgramm_def copyProgramToAddress_def bind_eq_Some_conv Let_def dest: on_mmu_more split: if_splits)

lemma createUserThread_more:
  "createUserThread junk p s = Some (t, s') \<Longrightarrow> kstate.more s' = kstate.more s"
  unfolding createUserThread_def Let_def
  by (auto simp: bind_eq_Some_conv getThreadID_def dest!: basic_more alloc_more link_more on_mmu_more split: if_splits)

lemma createUserProcess_more:
  "createUserProcess apic junk file s = Some (p, s') \<Longrightarrow> kstate.more s' = kstate.more s"
  unfolding createUserProcess_def Let_def
  by (auto simp: bind_eq_Some_conv case_prod_unfold
      dest!: basic_more alloc_more link_more program_more createUserThread_more)

lemma sys_ok_more:
  fixes s s' :: "'d sys_state"
  assumes "kstate.more s' = kstate.more s" and "sys_ok s"
  shows "sys_ok s'"
proof -
  have "files s' = files s" "keyb s' = keyb s" "user_heap_end s' = user_heap_end s"
    using assms(1) by (cases s; cases s'; simp)+
  then show ?thesis using assms(2) by (simp add: sys_ok_def user_heap_ok_def)
qed

text \<open>What is relied on of FatFs and of newlib: \<open>f_read\<close> gives at most as many bytes as it is asked for, and \<open>printf\<close>
  leaves the cursor on the screen.\<close>

definition machine_ok :: "'d machine \<Rightarrow> bool" where
  "machine_ok mc \<longleftrightarrow> (\<forall>obj len d. length (fst (snd (f_read (ff mc) obj len d))) \<le> unat len)
     \<and> (\<forall>line args scr. console_ok scr \<longrightarrow> console_ok (kernel_printf mc line args scr))"

lemma with_screen_write_ok:
  "with_screen (kernel_write str_at fmt args) s = Some s' \<Longrightarrow> sys_ok s \<Longrightarrow> sys_ok s'"
  by (erule with_screen_ok) (use kernel_write_safe in \<open>auto simp: sys_ok_def files_ok_def safe_result_def\<close>)

lemma load_messages_ok: "machine_ok mc \<Longrightarrow> console_ok scr \<Longrightarrow> console_ok (load_messages mc file scr)"
  by (auto simp: load_messages_def machine_ok_def Let_def split: option.split)

lemma create_messages_ok:
  assumes "create_messages mc file p s = Some s'" and "machine_ok mc" and "sys_ok s"
  shows "sys_ok s'"
proof -
  obtain own s1 s2 s3 where
    s: "rd (ptab s) p = Some own" "with_screen (kernel_write (\<lambda>_. None) process_line (\<lambda>_. p)) s = Some s1"
      "with_screen (\<lambda>scr. Some (load_messages mc file scr)) s1 = Some s2"
      "with_screen (kernel_write (\<lambda>_. None) thread_line (\<lambda>_. head_thread own)) s2 = Some s3"
      "with_screen (kernel_write (\<lambda>_. None) inserting_line (\<lambda>_. pid own)) s3 = Some s'"
    using assms(1) unfolding create_messages_def bind_eq_Some_conv by (elim exE conjE) (rule that)
  have s1: "sys_ok s1" using s(2) assms(3) by (rule with_screen_write_ok)
  then have "sys_ok s2"
    using s(3) load_messages_ok [OF assms(2)] by (elim with_screen_ok) (auto simp: sys_ok_def files_ok_def)
  from with_screen_write_ok [OF s(4) this] show ?thesis by (rule with_screen_write_ok [OF s(5)])
qed

lemma syscall_16_execve_ok:
  assumes "machine_ok mc" and "sys_ok s" and "syscall_16_execve mc r s = Some out"
  shows "outcome_ok out"
proof -
  obtain name s0 rg s' where s0: "with_screen (\<lambda>scr. Some (kernel_printf mc (map of_char ''%s'' @ [10]) [Str name] scr)) s = Some s0"
      and name: "execve mc name s0 = Some (rg, s')" "out = Switched rg s'"
    using assms(3) by (auto simp: syscall_16_execve_def bind_eq_Some_conv split: if_splits)
  have ok0: "sys_ok s0"
    using s0 assms(1,2) by (elim with_screen_ok) (auto simp: machine_ok_def sys_ok_def files_ok_def)
  obtain prog d where prog: "program_of mc name (volume (files s0)) = (prog, d)" by (cases "program_of mc name (volume (files s0))")
  let ?s = "s0\<lparr>files := (files s0)\<lparr>volume := d\<rparr>\<rparr>"
  obtain p s1 where s1: "createUserProcess (apic_id mc) (junk_regs mc) prog ?s = Some (p, s1)" "create_messages mc prog p s1 = Some s'"
    using name(1) prog by (auto simp: execve_def bind_eq_Some_conv)
  have "kstate.more s1 = kstate.more ?s" using s1(1) by (rule createUserProcess_more)
  moreover have "sys_ok ?s" using ok0 by (intro sys_ok_files) (simp_all add: sys_ok_def)
  ultimately have "sys_ok s1" by (rule sys_ok_more)
  then show ?thesis using create_messages_ok [OF s1(2) assms(1)] name(2) by simp
qed

section \<open>The half of the kernel\<close>

text \<open>The pages of the program lie on frames that are no page tables and that no address of the kernel's half leads to.\<close>

definition user_half_apart :: "mmu_state \<Rightarrow> bool" where
  "user_half_apart m \<longleftrightarrow> (\<forall>v fr. v < KERNEL_START \<longrightarrow> translate m v = Some fr
     \<longrightarrow> fr \<notin> walk_frames m \<and> (\<forall>w. KERNEL_START \<le> w \<longrightarrow> translate m w \<noteq> Some fr))"

text \<open>Where a call is to store something, the whole buffer is in the program's half.\<close>

definition user_targets :: "Interrupt_registers \<Rightarrow> bool" where
  "user_targets r \<longleftrightarrow> (i_eax r = READ_SYSCALL \<longrightarrow> unat (i_ecx r) + max 1 (unat (i_edx r)) \<le> unat KERNEL_START)
     \<and> (i_eax r \<in> {STAT_SYSCALL, FSTAT_SYSCALL} \<longrightarrow> i_ecx r = 0 \<or> unat (i_ecx r) + 20 \<le> unat KERNEL_START)"

definition kernel_half_kept :: "mmu_state \<Rightarrow> mmu_state \<Rightarrow> bool" where
  "kernel_half_kept m m' \<longleftrightarrow> translate m' = translate m \<and> walk_frames m' = walk_frames m
     \<and> (\<forall>w. KERNEL_START \<le> w \<longrightarrow> load_byte m' w = load_byte m w)"

lemma kernel_half_refl: "kernel_half_kept m m"
  by (simp add: kernel_half_kept_def)

lemma kernel_half_trans: "kernel_half_kept m m1 \<Longrightarrow> kernel_half_kept m1 m2 \<Longrightarrow> kernel_half_kept m m2"
  by (simp add: kernel_half_kept_def)

lemma kernel_half_apart: "kernel_half_kept m m' \<Longrightarrow> user_half_apart m' = user_half_apart m"
  by (simp add: kernel_half_kept_def user_half_apart_def)

lemma store_byte_half:
  assumes "user_half_apart m" and "v < KERNEL_START" and "store_byte v b m = Some m'"
  shows "kernel_half_kept m m'"
proof -
  obtain fr where fr: "translate m v = Some fr" using assms(3) by (auto simp: store_byte_def bind_eq_Some_conv)
  have apart: "fr \<notin> walk_frames m" "KERNEL_START \<le> w \<Longrightarrow> translate m w \<noteq> Some fr" for w
    using assms(1,2) fr unfolding user_half_apart_def by blast+
  have "place m w \<noteq> place m v" if "KERNEL_START \<le> w" for w
    using apart(2) [OF that] fr by (cases "translate m w") (auto simp: place_def)
  then show ?thesis
    using store_byte_run [OF fr apart(1), of b] assms(3) by (auto simp: kernel_half_kept_def)
qed

lemma store_fold_half:
  assumes "fold_opt (\<lambda>i. store_byte (v + of_nat i) (bs ! i)) ns m = Some m'" and "user_half_apart m"
    and "\<forall>i\<in>set ns. unat v + i < unat KERNEL_START"
  shows "kernel_half_kept m m'"
  using assms
proof (induction ns arbitrary: m)
  case (Cons i ns)
  then obtain m1 where m1: "store_byte (v + of_nat i) (bs ! i) m = Some m1"
      "fold_opt (\<lambda>i. store_byte (v + of_nat i) (bs ! i)) ns m1 = Some m'"
    by (auto simp: bind_eq_Some_conv)
  have "unat v + i < unat KERNEL_START" using Cons.prems(3) by simp
  then have "v + of_nat i < KERNEL_START"
    by (simp add: word_less_nat_alt KERNEL_START_def unat_u32_add unat_u32_of_nat)
  then have k: "kernel_half_kept m m1" using Cons.prems(2) m1(1) by (blast intro: store_byte_half)
  moreover have "user_half_apart m1" using kernel_half_apart [OF k] Cons.prems(2) by simp
  then have "kernel_half_kept m1 m'" using Cons.IH [OF m1(2)] Cons.prems(3) by simp
  ultimately show ?case by (rule kernel_half_trans)
qed (simp add: kernel_half_refl)

lemma store_bytes_half:
  "store_bytes v bs m = Some m' \<Longrightarrow> user_half_apart m \<Longrightarrow> unat v + length bs \<le> unat KERNEL_START \<Longrightarrow> kernel_half_kept m m'"
  unfolding store_bytes_def by (erule store_fold_half) simp_all

lemma store_word_half:
  "store_word v w m = Some m' \<Longrightarrow> user_half_apart m \<Longrightarrow> unat v + 4 \<le> unat KERNEL_START \<Longrightarrow> kernel_half_kept m m'"
  unfolding store_word_def by (erule store_bytes_half) simp_all

lemma store_stat_half:
  assumes "store_stat p st m = Some m'" and "user_half_apart m" and "st = None \<or> unat p + 20 \<le> unat KERNEL_START"
  shows "kernel_half_kept m m'"
proof (cases st)
  case None
  then show ?thesis using assms(1) by (simp add: store_stat_def kernel_half_refl)
next
  case (Some a)
  then obtain m1 where m1: "store_word (p + 16) (st_size a) m = Some m1" "store_word (p + 4) (st_mode a) m1 = Some m'"
    using assms(1) by (auto simp: store_stat_def bind_eq_Some_conv)
  have p: "unat p + 20 \<le> unat KERNEL_START" using assms(3) Some by simp
  then have "unat (p + 16) = unat p + 16" "unat (p + 4) = unat p + 4"
    using unat_u32_add [of p 16] unat_u32_add [of p 4] by (simp_all add: KERNEL_START_def)
  then have "unat (p + 16) + 4 \<le> unat KERNEL_START" "unat (p + 4) + 4 \<le> unat KERNEL_START" using p by simp_all
  then have k: "kernel_half_kept m m1" "user_half_apart m1 \<Longrightarrow> kernel_half_kept m1 m'"
    using store_word_half [OF m1(1) assms(2)] store_word_half [OF m1(2)] by blast+
  then show ?thesis using kernel_half_apart [OF k(1)] assms(2) kernel_half_trans by blast
qed

text \<open>The kernel's half after the calls that come back, other than \<open>open\<close> with its \<open>kmalloc\<close>.\<close>

definition keeps_kernel :: "'d sys_state \<Rightarrow> 'd sys_state outcome \<Rightarrow> bool" where
  "keeps_kernel s out \<longleftrightarrow> (\<exists>r' s'. out = Returned r' s' \<and> kernel_half_kept (user_mem s) (user_mem s'))"

lemma keeps_kernel_same: "out = Returned r' s' \<Longrightarrow> kheap s' = kheap s \<Longrightarrow> keeps_kernel s out"
  by (simp add: keeps_kernel_def user_mem_def kernel_half_refl)

lemma fil_heap_kept:
  "write_file room f str_at stack fd buf fs = Some (v, fs') \<Longrightarrow> fil_heap fs' = fil_heap fs"
  "close_file f fd fs = (v, fs') \<Longrightarrow> fil_heap fs' = fil_heap fs"
  "lseek f fd off whence fs = (v, fs') \<Longrightarrow> fil_heap fs' = fil_heap fs"
  "mkdir f path fs = (v, fs') \<Longrightarrow> fil_heap fs' = fil_heap fs"
  by (auto simp: write_file_def close_file_def lseek_def seek_to_def mkdir_def fail_def check_def bind_eq_Some_conv Let_def
      case_prod_unfold split: option.splits if_splits)

lemma with_files_kheap:
  "with_files f s = Some (v, s') \<Longrightarrow> (\<And>fs v fs'. f fs = Some (v, fs') \<Longrightarrow> fil_heap fs' = fil_heap fs) \<Longrightarrow> kheap s' = kheap s"
  by (auto simp: with_files_def bind_eq_Some_conv)

lemma with_screen_kheap: "with_screen f s = Some s' \<Longrightarrow> kheap s' = kheap s"
  by (auto simp: with_screen_def bind_eq_Some_conv)

lemma screen_calls_keep:
  "syscall_0_print mc r s = Some out \<Longrightarrow> keeps_kernel s out"
  "syscall_2_clear_screen r s = Some out \<Longrightarrow> keeps_kernel s out"
  "syscall_14_draw_frame_doom mc r s = Some out \<Longrightarrow> keeps_kernel s out"
  by (auto simp: syscall_0_print_def syscall_2_clear_screen_def syscall_14_draw_frame_doom_def ret_def bind_eq_Some_conv Let_def
      dest: with_screen_kheap intro!: keeps_kernel_same)

lemma file_calls_keep:
  "syscall_3_write mc r s = Some out \<Longrightarrow> keeps_kernel s out"
  "syscall_7_close mc r s = Some out \<Longrightarrow> keeps_kernel s out"
  "syscall_9_lseek mc r s = Some out \<Longrightarrow> keeps_kernel s out"
  "syscall_12_mkdir mc r s = Some out \<Longrightarrow> keeps_kernel s out"
  by (auto simp: syscall_3_write_def syscall_7_close_def syscall_9_lseek_def syscall_12_mkdir_def ret_def bind_eq_Some_conv Let_def
      dest!: with_files_kheap dest: fil_heap_kept intro!: keeps_kernel_same)

lemma plain_calls_keep:
  "syscall_4_sbrk r s = Some out \<Longrightarrow> keeps_kernel s out"
  "syscall_13_get_key_from_buffer r s = Some out \<Longrightarrow> keeps_kernel s out"
  "syscall_15_get_ticks r s = Some out \<Longrightarrow> keeps_kernel s out"
  "syscall_17_getpid r s = Some out \<Longrightarrow> keeps_kernel s out"
  by (auto simp: syscall_4_sbrk_def syscall_13_get_key_from_buffer_def syscall_15_get_ticks_def syscall_17_getpid_def
      ret_def Let_def case_prod_unfold intro!: keeps_kernel_same split: if_splits)

lemma syscall_6_readdir_keeps:
  assumes "syscall_6_readdir mc r s = Some out"
  shows "keeps_kernel s out"
proof -
  obtain v fs where "ret v r (s\<lparr>files := fs\<rparr>) = Some out"
    using assms by (auto simp: syscall_6_readdir_def bind_eq_Some_conv case_prod_unfold Let_def)
  then show ?thesis by (intro keeps_kernel_same [of _ "r\<lparr>i_eax := v\<rparr>" "s\<lparr>files := fs\<rparr>"]) (simp_all add: ret_def)
qed

lemma read_file_length:
  assumes "machine_ok mc" and "read_file (ff mc) fd len k ty fs = Some (v, bytes, k', ty', fs')"
  shows "length bytes \<le> max 1 (unat len)"
proof -
  have line: "length out \<le> max 1 (n - c)" if "console_read_line c n k ty = Some (out, k', ty')" for c n k ty out k' ty'
    using that
  proof (induction c n k ty arbitrary: out rule: console_read_line.induct)
    case (1 c n k ty)
    show ?case
    proof (cases "c + 1 < n")
      case True
      then obtain key k1 ty1 where w: "wait_key k ty = Some (key, k1, ty1)"
        using "1.prems" by (subst (asm) console_read_line.simps) (auto simp: bind_eq_Some_conv)
      show ?thesis
      proof (cases "key = 10")
        case True
        then have "out = [ucast key, 0]"
          using "1.prems" \<open>c + 1 < n\<close> w by (subst (asm) console_read_line.simps) auto
        then show ?thesis using \<open>c + 1 < n\<close> by simp
      next
        case False
        then obtain out1 where o: "console_read_line (Suc c) n k1 ty1 = Some (out1, k', ty')" "out = ucast key # out1"
          using "1.prems" \<open>c + 1 < n\<close> w by (subst (asm) console_read_line.simps) (auto simp: bind_eq_Some_conv)
        have "length out1 \<le> max 1 (n - Suc c)" using "1.IH" [OF True w refl refl False o(1)] .
        then show ?thesis using True o(2) by simp
      qed
    next
      case False
      then show ?thesis using "1.prems" by (subst (asm) console_read_line.simps) auto
    qed
  qed
  have read: "length (fst (snd (f_read (ff mc) obj l d))) \<le> unat l" for obj l d
    using assms(1) by (simp add: machine_ok_def)
  show ?thesis
    using assms(2) line [of 0 "unat len" k ty bytes k' ty'] read [of "file_table fs (nat fd)" len "volume fs"]
    by (auto simp: read_file_def fail_def bind_eq_Some_conv Let_def case_prod_unfold split: if_splits)
qed

lemma syscall_8_read_keeps:
  assumes "machine_ok mc" and "user_half_apart (user_mem s)" and "syscall_8_read mc r s = Some out"
    and t: "unat (i_ecx r) + max 1 (unat (i_edx r)) \<le> unat KERNEL_START"
  shows "keeps_kernel s out"
proof -
  obtain v bytes k ty fs m where f: "read_file (ff mc) (sint (i_ebx r)) (i_edx r) (keyb s) (typed s) (files s) = Some (v, bytes, k, ty, fs)"
      and m: "store_bytes (i_ecx r) bytes (user_mem s) = Some m"
      and out: "ret (of_int v) r (s\<lparr>files := fs, keyb := k, typed := ty, kheap := (kheap s)\<lparr>mmu := m\<rparr>\<rparr>) = Some out"
    using assms(3) by (auto simp: syscall_8_read_def bind_eq_Some_conv)
  have "unat (i_ecx r) + length bytes \<le> unat KERNEL_START" using read_file_length [OF assms(1) f] t by linarith
  with m assms(2) have "kernel_half_kept (user_mem s) m" by (rule store_bytes_half)
  then show ?thesis using out by (auto simp: keeps_kernel_def ret_def user_mem_def)
qed

lemma stat_calls_keep:
  assumes "user_half_apart (user_mem s)" and t: "i_ecx r = 0 \<or> unat (i_ecx r) + 20 \<le> unat KERNEL_START"
  shows "syscall_10_stat mc r s = Some out \<Longrightarrow> keeps_kernel s out"
    and "syscall_11_fstat mc r s = Some out \<Longrightarrow> keeps_kernel s out"
proof -
  have null: "snd (fst (stat_path f path True fs)) = None" "snd (fst (fstat f fd True fs)) = None" for f path fd fs
    by (auto simp: stat_path_def fstat_def fail_def split: option.split)
  have store: "kernel_half_kept (user_mem s) m" if "store_stat (i_ecx r) st (user_mem s) = Some m" "i_ecx r = 0 \<longrightarrow> st = None" for st m
    using that assms by (auto intro: store_stat_half)
  show "syscall_10_stat mc r s = Some out \<Longrightarrow> keeps_kernel s out" "syscall_11_fstat mc r s = Some out \<Longrightarrow> keeps_kernel s out"
    by (auto simp: syscall_10_stat_def syscall_11_fstat_def bind_eq_Some_conv Let_def case_prod_unfold ret_def keeps_kernel_def
        user_mem_def [of "x\<lparr>files := y, kheap := z\<rparr>" for x y z] null dest!: store)
qed


text \<open>The calls that come back, with the number of each.\<close>

lemma returning_calls_keep:
  assumes "machine_ok mc" and "user_half_apart (user_mem s)" and "user_targets r"
    and "syscall_table mc (unat (i_eax r)) = Some f" and "f r s = Some out" and "i_eax r \<notin> {OPEN_SYSCALL, EXECVE_SYSCALL}"
  shows "keeps_kernel s out"
proof -
  have num: "unat (i_eax r) = unat k \<longleftrightarrow> i_eax r = k" for k by (simp add: word_unat_eq_iff)
  have n: "unat (i_eax r) = 5 \<longleftrightarrow> i_eax r = 5" "unat (i_eax r) = 8 \<longleftrightarrow> i_eax r = 8" "unat (i_eax r) = 10 \<longleftrightarrow> i_eax r = 10"
      "unat (i_eax r) = 11 \<longleftrightarrow> i_eax r = 11" "unat (i_eax r) = 16 \<longleftrightarrow> i_eax r = 16"
    using num [of 5] num [of 8] num [of 10] num [of 11] num [of 16] by simp_all
  have read: "syscall_8_read mc r s = Some out \<Longrightarrow> i_eax r = 8 \<Longrightarrow> keeps_kernel s out"
    using syscall_8_read_keeps [OF assms(1,2)] assms(3) by (simp add: user_targets_def syscall_numbers)
  have stat: "syscall_10_stat mc r s = Some out \<Longrightarrow> i_eax r = 10 \<Longrightarrow> keeps_kernel s out"
      "syscall_11_fstat mc r s = Some out \<Longrightarrow> i_eax r = 11 \<Longrightarrow> keeps_kernel s out"
    using stat_calls_keep [OF assms(2), of r] assms(3) by (simp_all add: user_targets_def syscall_numbers)
  show ?thesis
    using map_of_SomeD [OF assms(4) [unfolded syscall_table_def]] assms(5,6) n
    by (auto simp: syscall_numbers intro: screen_calls_keep file_calls_keep plain_calls_keep syscall_6_readdir_keeps read stat)
qed


lemma sys_demo_ok: "sys_ok sys_demo" "machine_ok machine_demo"
proof -
  show "sys_ok sys_demo"
    by (simp add: sys_ok_def files_ok_def user_heap_ok_def sys_demo_def keyboard_boot_ok files_demo_def console_ok_def
        user_heap_start_def user_heap_limit_def MAX_FILES_def)
  have "console_ok (puts_kernel line scr)" if "console_ok scr" for line scr
    using puts_kernel_ok [OF that] by blast
  then show "machine_ok machine_demo" by (simp add: machine_ok_def machine_demo_def ff_demo_def)
qed

lemma sys_demo_apart: "user_half_apart (user_mem sys_demo)"
proof -
  have tr: "translate (user_mem sys_demo) v = (if unat v div 4194304 = 1 then Some 9
      else if unat v div 4194304 = 1023 then (if pt_index v = 1 then Some 5 else if pt_index v = 1023 then Some 2 else None)
      else None)" for v
    by (simp add: user_mem_def sys_demo_def sys_mmu_def mmu_demo_def translate_def walk_def pframe_def unat_pd_index present_def
        page_flags Let_def)
  have "fr = 9" if "translate (user_mem sys_demo) v = Some fr" "v < KERNEL_START" for v fr
  proof -
    have "unat v div 4194304 \<noteq> 1023" using that(2) by (simp add: word_less_nat_alt KERNEL_START_def)
    then show ?thesis using that(1) by (simp add: tr split: if_splits)
  qed
  moreover have "translate (user_mem sys_demo) w \<noteq> Some 9" if "KERNEL_START \<le> w" for w
  proof -
    have "unat w div 4194304 \<noteq> 1" using that by (simp add: word_le_nat_alt KERNEL_START_def)
    then show ?thesis by (simp add: tr)
  qed
  ultimately show ?thesis using sys_demo_tables unfolding user_half_apart_def by blast
qed


end
