(* ===== verification/Boot_Memory.thy ===== *)
theory Boot_Memory
  imports Heap_Growth Disk
begin

text \<open>
  The address space that \<open>kernel_main\<close> builds: \<open>init_memory\<close>, \<open>heap_init\<close> and \<open>create_ramdisk\<close> one after
  the other, from the page directory that \<open>boot.s\<close> assembles.
\<close>

section \<open>The loop of \<open>heap_init\<close>\<close>

lemma heap_init_loop_upt:
  assumes "P a s" and "a \<le> b"
    and "\<And>i s. a \<le> i \<Longrightarrow> i < b \<Longrightarrow> P i s \<Longrightarrow> \<exists>phys pm m s'.
      pmm_alloc_pageframe (frames (mmu s)) = Some (phys, pm) \<and> phys \<noteq> 0
      \<and> mem_map_page (HEAP_START_ADDRESS + of_nat i * HEAP_BLOCK_SIZE) phys (PAGE_FLAG_WRITE OR PAGE_FLAG_PRESENT)
          ((mmu s)\<lparr>frames := pm\<rparr>) = Some m
      \<and> set_entry i HEAP_BLOCK_TABLE_ENTRY_FREE (s\<lparr>mmu := m\<rparr>) = Some s' \<and> P (Suc i) s'"
  shows "\<exists>s'. heap_init_loop [a..<b] s = Some s' \<and> P b s'"
  using assms(2,1,3)
proof (induction "b - a" arbitrary: a s)
  case 0
  then show ?case by simp
next
  case (Suc k)
  then have "a < b" by simp
  with Suc.prems obtain phys pm m t where t: "pmm_alloc_pageframe (frames (mmu s)) = Some (phys, pm)" "phys \<noteq> 0"
      "mem_map_page (HEAP_START_ADDRESS + of_nat a * HEAP_BLOCK_SIZE) phys (PAGE_FLAG_WRITE OR PAGE_FLAG_PRESENT)
          ((mmu s)\<lparr>frames := pm\<rparr>) = Some m"
      "set_entry a HEAP_BLOCK_TABLE_ENTRY_FREE (s\<lparr>mmu := m\<rparr>) = Some t" "P (Suc a) t"
    by blast
  have "\<exists>s'. heap_init_loop [Suc a..<b] t = Some s' \<and> P b s'"
    by (rule Suc.hyps(1)) (use Suc.hyps(2) \<open>a < b\<close> t(5) Suc.prems(3) in auto)
  then show ?case using \<open>a < b\<close> t by (simp add: upt_conv_Cons Let_def)
qed

lemma heap_page:
  assumes "i < 4"
  shows "pd_index (HEAP_START_ADDRESS + of_nat i * HEAP_BLOCK_SIZE) = 832"
    and "unat (HEAP_START_ADDRESS + of_nat i * HEAP_BLOCK_SIZE) div 4096 = 0xD0000 + i"
  using assms by (simp_all add: unat_pd_index HEAP_START_ADDRESS_def HEAP_BLOCK_SIZE_def unat_word_ariths unat_of_nat)

text \<open>\<open>heap_init\<close> maps the four pages of the first heap and leaves a table of four free blocks.\<close>

lemma heap_init_run:
  fixes h :: heap_state
  assumes ok: "kmem_ok R (mmu h)" and R: "832 \<in> R"
    and room: "kmem_need R (mmu h) + 4 \<le> frame_room (mmu h)" and cur: "pframe (cr3 (mmu h)) = kdir_frame (mmu h)"
  shows "\<exists>h' q. heap_init h = Some h' \<and> kernel_run R 0xD0000 4 q (mmu h) (mmu h')
    \<and> total_blocks h' = 4 \<and> heap_size h' = 16384 \<and> (\<forall>i<4. heap_mem h' i = 0)"
proof -
  let ?h = "h\<lparr>total_blocks := 4\<rparr>" and ?fl = "PAGE_FLAG_WRITE OR PAGE_FLAG_PRESENT"
  let ?P = "\<lambda>n t. \<exists>q. kernel_run R 0xD0000 n q (mmu h) (mmu t) \<and> total_blocks t = 4 \<and> (\<forall>i<n. heap_mem t i = 0)"
  have fl: "?fl < 4096" "\<not> bit ?fl 7" by (simp_all add: page_flags)
  have n: "unat (INITIAL_HEAP_SIZE div HEAP_BLOCK_SIZE) = 4" "INITIAL_HEAP_SIZE div HEAP_BLOCK_SIZE = 4"
    by (simp_all add: INITIAL_HEAP_SIZE_def HEAP_BLOCK_SIZE_def)
  have "\<exists>t. heap_init_loop [0..<4] ?h = Some t \<and> ?P 4 t"
  proof (rule heap_init_loop_upt [where P = ?P])
    show "?P 0 ?h" using kspace.fresh_run_0 [OF ok] by auto
  next
    fix i and t :: heap_state assume i: "i < 4" and "?P i t"
    then obtain q where q: "kernel_run R 0xD0000 i q (mmu h) (mmu t)" "total_blocks t = 4" "\<forall>j<i. heap_mem t j = 0" by blast
    have rm: "kmem_need R (mmu h) + i < frame_room (mmu h)" using room i by simp
    have ad: "pd_index (HEAP_START_ADDRESS + of_nat i * HEAP_BLOCK_SIZE) \<in> R"
      "unat (HEAP_START_ADDRESS + of_nat i * HEAP_BLOCK_SIZE) div 4096 = 0xD0000 + i"
      using heap_page(1,2) [OF i] R by simp_all
    from kspace.fresh_run_extend [OF q(1) ad rm fl]
    obtain f pm m where m: "pmm_alloc_pageframe (frames (mmu t)) = Some (frame_addr f, pm)" "frame_addr f \<noteq> 0"
        "mem_map_page (HEAP_START_ADDRESS + of_nat i * HEAP_BLOCK_SIZE) (frame_addr f) ?fl ((mmu t)\<lparr>frames := pm\<rparr>) = Some m"
        "kernel_run R 0xD0000 (Suc i) (q(i := f)) (mmu h) m"
      by blast
    have st: "kmem_step R (frames_run 0xD0000 (Suc i) (q(i := f))) (Suc i) (mmu h) m"
      using m(4) by (simp add: fresh_run_def)
    have "cr3 m = cr3 (mmu h)" using kmem_stepD(2) [OF st] by (simp add: same_setup_def)
    then have "translate m (HEAP_START_ADDRESS + of_nat i) \<noteq> None"
      using kmem_stepD(7) [OF st, of "HEAP_START_ADDRESS + of_nat i"] heap_table_page [of i] i cur
      by (simp add: translate_def frames_run_def)
    then have "set_entry i HEAP_BLOCK_TABLE_ENTRY_FREE (t\<lparr>mmu := m\<rparr>)
        = Some (t\<lparr>mmu := m, heap_mem := (heap_mem t)(i := 0)\<rparr>)"
      by (simp add: set_entry_def heap_mapped_def HEAP_BLOCK_TABLE_ENTRY_FREE_def)
    moreover have "?P (Suc i) (t\<lparr>mmu := m, heap_mem := (heap_mem t)(i := 0)\<rparr>)"
      using m(4) q(2,3) by (auto simp: less_Suc_eq)
    ultimately show "\<exists>phys pm m s'. pmm_alloc_pageframe (frames (mmu t)) = Some (phys, pm) \<and> phys \<noteq> 0
        \<and> mem_map_page (HEAP_START_ADDRESS + of_nat i * HEAP_BLOCK_SIZE) phys ?fl ((mmu t)\<lparr>frames := pm\<rparr>) = Some m
        \<and> set_entry i HEAP_BLOCK_TABLE_ENTRY_FREE (t\<lparr>mmu := m\<rparr>) = Some s' \<and> ?P (Suc i) s'"
      using m(1-3) by blast
  qed simp
  then show ?thesis
    by (auto simp: heap_init_def n INITIAL_HEAP_SIZE_def HEAP_BLOCK_SIZE_def)
qed

section \<open>\<open>init_memory\<close> on the directory of the boot code\<close>

text \<open>The entries that \<open>boot.s\<close> assembles into \<open>kernel_directory\<close>: 4 MB pages only.\<close>

definition boot_entry :: "nat \<Rightarrow> u32" where
  "boot_entry j =
     (if j = 0 then 0x00000083
      else if 768 \<le> j \<and> j < 780 then of_nat (j - 768) * 0x00400000 + 0x83
      else if j = 896 then 0xFD000083
      else 0)"

text \<open>The machine when \<open>kernel_main\<close> is called, with the image of the kernel below \<open>start\<close>.\<close>

definition boot_ok :: "mmu_state \<Rightarrow> u32 \<Rightarrow> bool" where
  "boot_ok s start \<longleftrightarrow> (\<forall>j<1024. ram s (kdir_frame s) j = boot_entry j)
     \<and> cr3 s = kernel_directory s - KERNEL_START \<and> kernel_directory s \<noteq> 0
     \<and> kernel_directory s AND 0xFFF = 0 \<and> dirs_ok s
     \<and> (\<forall>f \<in> insert (kdir_frame s) (pdir_frame s ` {..<NUM_PAGE_DIRS}). 4096 * (f + 1) \<le> unat start)"

text \<open>The directory entries of the kernel's newlib heap, of its own heap, of the RAM disk and of the registers of
  the local interrupt controller.\<close>

definition kernel_pdes :: "nat set" where
  "kernel_pdes = {780..<788} \<union> heap_pdes \<union> {897..<961} \<union> {1019}"

lemma kernel_pdes: "finite kernel_pdes" "card kernel_pdes = 77" "832 \<in> kernel_pdes" "heap_pdes \<subseteq> kernel_pdes"
proof -
  have d: "{780..<788} \<inter> heap_pdes = {}" "({780..<788} \<union> heap_pdes) \<inter> {897..<961} = {}"
      "1019 \<notin> {780..<788} \<union> heap_pdes \<union> {897..<961}" and h: "finite heap_pdes" "card heap_pdes = 4"
    by (auto simp: heap_pdes_def)
  have "card ({780..<788} \<union> heap_pdes) = 12" using card_Un_disjoint [OF _ h(1) d(1)] h(2) by simp
  then have "card ({780..<788} \<union> heap_pdes \<union> {897..<961}) = 76" using card_Un_disjoint [OF _ _ d(2)] h(1) by simp
  then show "card kernel_pdes = 77" using card_insert_disjoint [OF _ d(3)] h(1) by (simp add: kernel_pdes_def)
qed (auto simp: kernel_pdes_def heap_pdes_def)

lemma boot_entry_table: "\<not> is_table (boot_entry j)"
proof -
  have "bit (of_nat n * 0x400000 + 0x83 :: u32) 7" if "n < 12" for n
  proof -
    have u: "unat (of_nat n * 0x400000 + 0x83 :: u32) = 131 + 4194304 * n"
      using that by (simp add: unat_word_ariths unat_of_nat)
    have "(131 + 4194304 * n) div 128 = 32768 * n + 1" by presburger
    then have "odd (unat (of_nat n * 0x400000 + 0x83 :: u32) div 2 ^ 7)" unfolding u by simp
    then show ?thesis by (simp only: bit_iff_odd [symmetric] bit_unsigned_iff)
  qed
  from this [of "j - 768"] have "bit (boot_entry j) 7" if "768 \<le> j" "j < 780"
    using that by (simp add: boot_entry_def)
  then show ?thesis
    by (cases "768 \<le> j \<and> j < 780") (auto simp: boot_entry_def is_table_def big_bit present_bit)
qed

lemma clear_dir:
  "fold (\<lambda>j s. poke (pdir_frame s i) j 0 s) [0..<n] s
    = s\<lparr>ram := (ram s)(pdir_frame s i := (\<lambda>j. if j < n then 0 else ram s (pdir_frame s i) j))\<rparr>"
proof (induction n)
  case 0
  then show ?case by (intro mmu_state.equality) (auto simp: fun_eq_iff)
next
  case (Suc n)
  then show ?case by (auto simp: poke_def less_Suc_eq fun_eq_iff)
qed

lemma clear_dirs:
  assumes "dirs_ok s"
  shows "\<exists>r. fold (\<lambda>i s. fold (\<lambda>j s. poke (pdir_frame s i) j 0 s) [0..<1024] s) [0..<NUM_PAGE_DIRS] s = s\<lparr>ram := r\<rparr>
    \<and> r (kdir_frame s) = ram s (kdir_frame s)"
proof (rule fold_upt [where P = "\<lambda>i t. \<exists>r. t = s\<lparr>ram := r\<rparr> \<and> r (kdir_frame s) = ram s (kdir_frame s)"])
  show "\<exists>r. s = s\<lparr>ram := r\<rparr> \<and> r (kdir_frame s) = ram s (kdir_frame s)" by (rule exI [of _ "ram s"]) simp
next
  fix i t assume i: "i < NUM_PAGE_DIRS" and "\<exists>r. t = s\<lparr>ram := r\<rparr> \<and> r (kdir_frame s) = ram s (kdir_frame s)"
  then obtain r where r: "t = s\<lparr>ram := r\<rparr>" "r (kdir_frame s) = ram s (kdir_frame s)" by blast
  have "kdir_frame s \<noteq> pdir_frame s i" using assms i unfolding dirs_ok_def by (metis imageI lessThan_iff)
  then show "\<exists>r. fold (\<lambda>j s. poke (pdir_frame s i) j 0 s) [0..<1024] t = s\<lparr>ram := r\<rparr> \<and> r (kdir_frame s) = ram s (kdir_frame s)"
    unfolding clear_dir r(1) using r(2)
    by (intro exI [of _ "r(pdir_frame s i := (\<lambda>j. if j < 1024 then 0 else r (pdir_frame s i) j))"]) (simp cong: if_cong)
qed simp

text \<open>The state in which the loop of \<open>init_memory\<close> starts.\<close>

lemma init_memory_start:
  assumes "dirs_ok s"
  shows "\<exists>r. init_memory memHigh start s =
      fold_opt (\<lambda>i s. do {
           (phys, pm) \<leftarrow> pmm_alloc_pageframe (frames s);
           mem_map_page (0xC3000000 + of_nat i * PAGE_SIZE) phys (PAGE_FLAG_PRESENT OR PAGE_FLAG_WRITE) (s\<lparr>frames := pm\<rparr>)
         }) [0..<8192]
        (s\<lparr>mem_num_vpages := 0, frames := pmm_init start memHigh, ram := r,
           pageDirsUsed := (\<lambda>i. if i < NUM_PAGE_DIRS then 0 else pageDirsUsed s i)\<rparr>)
    \<and> r (kdir_frame s) = (ram s (kdir_frame s))(1023 := (kernel_directory s - KERNEL_START) OR PAGE_FLAG_PRESENT OR PAGE_FLAG_WRITE)"
proof -
  define s0 where "s0 = (poke (kdir_frame (s\<lparr>mem_num_vpages := 0\<rparr>)) 1023
      ((kernel_directory (s\<lparr>mem_num_vpages := 0\<rparr>) - KERNEL_START) OR PAGE_FLAG_PRESENT OR PAGE_FLAG_WRITE)
      (s\<lparr>mem_num_vpages := 0\<rparr>))\<lparr>frames := pmm_init start memHigh\<rparr>"
  have "dirs_ok s0" using assms by (simp add: dirs_ok_def s0_def)
  from clear_dirs [OF this] obtain r where
    r: "fold (\<lambda>i s. fold (\<lambda>j s. poke (pdir_frame s i) j 0 s) [0..<1024] s) [0..<NUM_PAGE_DIRS] s0 = s0\<lparr>ram := r\<rparr>"
      "r (kdir_frame s) = ram s0 (kdir_frame s)"
    by (auto simp: s0_def)
  show ?thesis
    unfolding init_memory_def Let_def s0_def [symmetric] r(1)
    using r(2) by (intro exI [of _ r]) (simp add: s0_def poke_def cong: if_cong)
qed

section \<open>The room of the window\<close>

lemma pmm_init_room:
  assumes "0 < unat lo" and "unat lo + 4096 * (k + 24) \<le> unat hi"
  shows "k \<le> card (pmm_window (pmm_init lo hi))"
proof -
  let ?s = "pmm_init lo hi"
  have hb: "unat hi < 4294967296" by (rule unat_u32_less)
  have mn: "unat (page_frame_min_index ?s) = (unat lo + 4095) div 4096"
    using assms hb by (simp add: pmm_init_def unat_ceil_page)
  have mx: "unat (page_frame_max_index ?s) = unat hi div 4096"
    by (simp add: pmm_init_def PAGE_FRAME_SIZE_def unat_div)
  have m8: "m \<le> 8 * (m div 8 - (if m mod 8 \<noteq> 0 then 1 else 0)) + 15" if "8 \<le> m" for m :: nat
    using that by (cases "m mod 8 = 0") (simp, presburger)+
  have "8 \<le> unat (page_frame_max_index ?s)" using mx assms by simp
  then have "unat hi div 4096 \<le> 8 * unat (scan_end ?s) + 15"
    unfolding unat_scan_end [OF \<open>8 \<le> unat (page_frame_max_index ?s)\<close>] mx by (rule m8)
  moreover have "8 * unat (scan_start ?s) \<le> (unat lo + 4095) div 4096 + 7"
    by (simp add: unat_scan_start mn)
  moreover have "(unat lo + 4095 + 4096 * (k + 23)) div 4096 \<le> unat hi div 4096"
    using assms(2) by (intro div_le_mono) simp
  ultimately show ?thesis by (simp add: pmm_window_def)
qed

lemma unat_and_page: "unat (w AND 0xFFF :: u32) = unat w mod 4096"
proof -
  have "w AND 0xFFF = take_bit 12 w" by (rule bit_eqI) (auto simp: bit_simps less_Suc_eq numeral_eq_Suc)
  then show ?thesis by (simp add: take_bit_eq_mod unat_mod)
qed

lemma page_aligned_minus: "w AND 0xFFF = 0 \<Longrightarrow> w - KERNEL_START AND 0xFFF = 0"
proof -
  assume "w AND 0xFFF = 0"
  then have "unat w mod 4096 = 0" using unat_and_page [of w] by simp
  moreover have "w - KERNEL_START = w + 0x40000000" by (simp add: KERNEL_START_def)
  then have "unat (w - KERNEL_START) = unat (w + 0x40000000)" by (rule arg_cong)
  then have "unat (w - KERNEL_START) = (unat w + 1073741824) mod 4294967296" by (simp add: unat_word_ariths)
  moreover have "(m + 1073741824) mod 4294967296 mod 4096 = m mod 4096" for m :: nat
  proof -
    have "(m + 1073741824) mod 4294967296 mod 4096 = (m + 1073741824) mod 4096" by (rule mod_mod_cancel) simp
    moreover have "(m + 4096 * 262144) mod 4096 = m mod 4096" by (rule mod_mult_self2)
    ultimately show ?thesis by simp
  qed
  ultimately have "unat (w - KERNEL_START) mod 4096 = 0" by simp
  then show ?thesis by (metis unat_and_page unat_eq_zero)
qed

lemma recursive_entry:
  assumes "a AND 0xFFF = 0"
  shows "present (a OR PAGE_FLAG_PRESENT OR PAGE_FLAG_WRITE)"
    and "(a OR PAGE_FLAG_PRESENT OR PAGE_FLAG_WRITE) AND PAGE_FLAG_4MB = 0"
    and "pframe (a OR PAGE_FLAG_PRESENT OR PAGE_FLAG_WRITE) = pframe a"
proof -
  have "bit (a AND 0xFFF) 7 = bit a 7" by (simp add: bit_simps)
  then have "\<not> bit a 7" by (simp add: assms)
  then show "(a OR PAGE_FLAG_PRESENT OR PAGE_FLAG_WRITE) AND PAGE_FLAG_4MB = 0"
    unfolding big_bit by (simp add: bit_simps page_flags)
  show "present (a OR PAGE_FLAG_PRESENT OR PAGE_FLAG_WRITE)" by (rule present_entry)
  show "pframe (a OR PAGE_FLAG_PRESENT OR PAGE_FLAG_WRITE) = pframe a"
    by (rule pframe_entry(1)) (simp add: page_flags)
qed

lemma boot_kmem_ok:
  assumes boot: "boot_ok s start" and hi: "unat memHigh \<le> 0x20000000" and room: "unat start + 4096 * (k + 24) \<le> unat memHigh"
    and r: "r (kdir_frame s) = (ram s (kdir_frame s))(1023 := (kernel_directory s - KERNEL_START) OR PAGE_FLAG_PRESENT OR PAGE_FLAG_WRITE)"
  defines "t \<equiv> s\<lparr>mem_num_vpages := 0, frames := pmm_init start memHigh, ram := r,
           pageDirsUsed := (\<lambda>i. if i < NUM_PAGE_DIRS then 0 else pageDirsUsed s i)\<rparr>"
  shows "kmem_ok kernel_pdes t" and "kmem_need kernel_pdes t = 77" and "k \<le> frame_room t"
    and "used_frames (frames t) = {}"
    and "\<forall>n \<in> pmm_window (frames t). unat start \<le> 4096 * n \<and> 4096 * (n + 1) \<le> unat memHigh"
proof -
  have st: "0 < unat start" using boot by (auto simp: boot_ok_def)
  have "0 < start" "start \<le> 0xFFFFF000" "0x8000 \<le> memHigh" "memHigh \<le> 0x20000000"
    using st hi room by (simp_all add: word_less_nat_alt word_le_nat_alt)
  from pmm_init_window_inside [OF this]
  have pmm: "pmm_ok (frames t)" "used_frames (frames t) = {}"
    "\<forall>n \<in> pmm_window (frames t). unat start \<le> 4096 * n \<and> 4096 * (n + 1) \<le> unat memHigh"
    by (auto simp: t_def)
  have k: "kdir_frame t = kdir_frame s" "pdir_frame t = pdir_frame s" "ram t = r" by (simp_all add: t_def)
  show "used_frames (frames t) = {}" by (rule pmm)
  show "\<forall>n \<in> pmm_window (frames t). unat start \<le> 4096 * n \<and> 4096 * (n + 1) \<le> unat memHigh" by (rule pmm)
  show "k \<le> frame_room t" using pmm_init_room [OF st room] by (simp add: frame_room_def t_def)
  have e: "r (kdir_frame s) j = boot_entry j" if "j < 1023" for j
    using boot that by (simp add: r boot_ok_def)
  have ab: "\<not> present (boot_entry j)" if "j \<in> kernel_pdes" for j
    using that by (auto simp: kernel_pdes_def heap_pdes_def boot_entry_def present_def)
  have pl: "768 \<le> j \<and> j < 1023" if "j \<in> kernel_pdes" for j
    using that by (auto simp: kernel_pdes_def heap_pdes_def)
  have "{j \<in> kernel_pdes. \<not> present (r (kdir_frame s) j)} = kernel_pdes"
    using e ab pl by auto
  then show "kmem_need kernel_pdes t = 77"
    using pmm(2) kernel_pdes by (simp add: kmem_need_def dir_need_def k)
  have held: "held t f" if "f \<in> insert (kdir_frame s) (pdir_frame s ` {..<NUM_PAGE_DIRS})" for f
  proof -
    have "4096 * (f + 1) \<le> unat start" using boot that unfolding boot_ok_def by blast
    then have "f \<notin> pmm_window (frames t)" using pmm(3) by (auto dest!: bspec)
    then show ?thesis by (simp add: held_def)
  qed
  have "kernel_directory s - KERNEL_START AND 0xFFF = 0"
    using boot unfolding boot_ok_def by (intro page_aligned_minus) simp_all
  then have "recursive r (kdir_frame s)"
    unfolding recursive_def r by (simp add: recursive_entry kdir_frame_def)
  then have "tables_ok t (kdir_frame t)"
    using held e boot_entry_table by (simp add: tables_ok_def k)
  moreover have "kernel_ok t"
    using boot held e boot_entry_table by (auto simp: kernel_ok_def dirs_ok_def boot_ok_def k)
  moreover have "mem_get_current_page_directory t \<noteq> 0"
    using boot by (simp add: mem_get_current_page_directory_def boot_ok_def t_def)
  ultimately show "kmem_ok kernel_pdes t"
    using pmm(1) e ab pl by (simp add: kmem_ok_def pmm_ok_def k)
qed

section \<open>The address space after the start\<close>

text \<open>Where \<open>kernel_main\<close> lets the frame allocator begin: behind the RAM disk, on a page boundary.\<close>

definition physicalAllocStart :: "ramdisk \<Rightarrow> u32" where
  "physicalAllocStart d =
     (if using_ramdisk d then (rd_phys_addr d + rd_size d + 0xFFF) AND 0xFFFFF000 else 0x100000 * 16)"

lemma unat_physicalAllocStart:
  assumes "using_ramdisk d" and "unat (rd_phys_addr d) + unat (rd_size d) + 4095 < 4294967296"
  shows "unat (physicalAllocStart d) = (unat (rd_phys_addr d) + unat (rd_size d) + 4095) div 4096 * 4096"
proof -
  let ?w = "rd_phys_addr d + rd_size d + 0xFFF"
  have u: "unat ?w = unat (rd_phys_addr d) + unat (rd_size d) + 4095"
    using assms(2) by (simp add: unat_u32_add)
  have "(0xFFFFF000 :: u32) = NOT (mask 12)" by (simp add: mask_eq_exp_minus_1)
  then have "unat (?w AND 0xFFFFF000) = unat ?w div 4096 * 4096" by (simp only: unat_page_floor)
  then show ?thesis using assms(1) by (simp add: physicalAllocStart_def u)
qed

lemma newlib_page:
  assumes "i < 8192"
  shows "pd_index (0xC3000000 + of_nat i * PAGE_SIZE) \<in> kernel_pdes"
    and "pd_index (0xC3000000 + of_nat i * PAGE_SIZE) < 1023"
    and "unat (0xC3000000 + of_nat i * PAGE_SIZE) div 4096 = 0xC3000 + i"
proof -
  have u: "unat (0xC3000000 + of_nat i * PAGE_SIZE) = 4096 * (0xC3000 + i)"
    using assms by (simp add: PAGE_SIZE_def unat_word_ariths unat_of_nat)
  then show "unat (0xC3000000 + of_nat i * PAGE_SIZE) div 4096 = 0xC3000 + i" by simp
  have "4096 * (0xC3000 + i) div 4194304 = 780 + i div 1024" using pde_of_page [of 780 i] by simp
  then have "pd_index (0xC3000000 + of_nat i * PAGE_SIZE) = 780 + i div 1024" unfolding unat_pd_index u .
  then show "pd_index (0xC3000000 + of_nat i * PAGE_SIZE) \<in> kernel_pdes"
      "pd_index (0xC3000000 + of_nat i * PAGE_SIZE) < 1023"
    using assms by (auto simp: kernel_pdes_def)
qed

lemma disk_page:
  assumes "i < 65536"
  shows "pd_index (RAMDISKVIRTUALADRESS + of_nat i * PAGE_SIZE) \<in> kernel_pdes"
    and "pd_index (RAMDISKVIRTUALADRESS + of_nat i * PAGE_SIZE) < 1023"
    and "unat (RAMDISKVIRTUALADRESS + of_nat i * PAGE_SIZE) div 4096 = 0xE0400 + i"
proof -
  have u: "unat (RAMDISKVIRTUALADRESS + of_nat i * PAGE_SIZE) = 4096 * (0xE0400 + i)"
    using assms by (simp add: RAMDISKVIRTUALADRESS_def PAGE_SIZE_def unat_word_ariths unat_of_nat)
  then show "unat (RAMDISKVIRTUALADRESS + of_nat i * PAGE_SIZE) div 4096 = 0xE0400 + i" by simp
  have "4096 * (0xE0400 + i) div 4194304 = 897 + i div 1024" using pde_of_page [of 897 i] by simp
  then have "pd_index (RAMDISKVIRTUALADRESS + of_nat i * PAGE_SIZE) = 897 + i div 1024" unfolding unat_pd_index u .
  then show "pd_index (RAMDISKVIRTUALADRESS + of_nat i * PAGE_SIZE) \<in> kernel_pdes"
      "pd_index (RAMDISKVIRTUALADRESS + of_nat i * PAGE_SIZE) < 1023"
    using assms by (auto simp: kernel_pdes_def)
qed

text \<open>\<open>init_memory\<close> from the state \<open>s\<close> in which its loop begins.\<close>

definition boot_base :: "mmu_state \<Rightarrow> u32 \<Rightarrow> u32 \<Rightarrow> mmu_state \<Rightarrow> bool" where
  "boot_base m0 start memHigh s \<longleftrightarrow> kmem_ok kernel_pdes s \<and> kdir_frame s = kdir_frame m0 \<and> cr3 s = cr3 m0
    \<and> pframe (cr3 s) = kdir_frame s \<and> kmem_need kernel_pdes s = 77
    \<and> (\<forall>k. unat start + 4096 * (k + 24) \<le> unat memHigh \<longrightarrow> k \<le> frame_room s)
    \<and> (\<forall>j<1023. ram s (kdir_frame s) j = boot_entry j) \<and> used_frames (frames s) = {}
    \<and> (\<forall>n \<in> pmm_window (frames s). unat start \<le> 4096 * n \<and> 4096 * (n + 1) \<le> unat memHigh)
    \<and> kernel_directory s = kernel_directory m0"

lemma boot_baseD:
  assumes "boot_base m0 start memHigh s"
  shows "kmem_ok kernel_pdes s" "kdir_frame s = kdir_frame m0" "cr3 s = cr3 m0" "pframe (cr3 s) = kdir_frame s"
    and "kmem_need kernel_pdes s = 77" "unat start + 4096 * (k + 24) \<le> unat memHigh \<Longrightarrow> k \<le> frame_room s"
    and "j < 1023 \<Longrightarrow> ram s (kdir_frame s) j = boot_entry j"
    and "used_frames (frames s) = {}"
    and "n \<in> pmm_window (frames s) \<Longrightarrow> unat start \<le> 4096 * n \<and> 4096 * (n + 1) \<le> unat memHigh"
    and "kernel_directory s = kernel_directory m0"
  using assms unfolding boot_base_def by auto

lemma kmem_step_cr3:
  "kmem_step R M c s s' \<Longrightarrow> cr3 s' = cr3 s"
  using kmem_stepD(2) by (fastforce simp: same_setup_def)

lemma kernel_flags: "PAGE_FLAG_PRESENT OR PAGE_FLAG_WRITE < 4096" "\<not> bit (PAGE_FLAG_PRESENT OR PAGE_FLAG_WRITE) 7"
  by (simp_all add: page_flags)

lemma init_memory_run:
  assumes boot: "boot_ok m0 start" and hi: "unat memHigh \<le> 0x20000000" and room: "unat start + 0x2069000 \<le> unat memHigh"
  shows "\<exists>s m p. init_memory memHigh start m0 = Some m \<and> kernel_run kernel_pdes 0xC3000 8192 p s m \<and> boot_base m0 start memHigh s"
proof -
  have "dirs_ok m0" using boot by (simp add: boot_ok_def)
  from init_memory_start [OF this, of memHigh start] obtain r where r:
    "init_memory memHigh start m0 =
      fold_opt (\<lambda>i s. do {
           (phys, pm) \<leftarrow> pmm_alloc_pageframe (frames s);
           mem_map_page (0xC3000000 + of_nat i * PAGE_SIZE) phys (PAGE_FLAG_PRESENT OR PAGE_FLAG_WRITE) (s\<lparr>frames := pm\<rparr>)
         }) [0..<8192]
        (m0\<lparr>mem_num_vpages := 0, frames := pmm_init start memHigh, ram := r,
           pageDirsUsed := (\<lambda>i. if i < NUM_PAGE_DIRS then 0 else pageDirsUsed m0 i)\<rparr>)"
    "r (kdir_frame m0) = (ram m0 (kdir_frame m0))
        (1023 := (kernel_directory m0 - KERNEL_START) OR PAGE_FLAG_PRESENT OR PAGE_FLAG_WRITE)"
    by blast
  define s where "s = m0\<lparr>mem_num_vpages := 0, frames := pmm_init start memHigh, ram := r,
           pageDirsUsed := (\<lambda>i. if i < NUM_PAGE_DIRS then 0 else pageDirsUsed m0 i)\<rparr>"
  have "unat start + 4096 * (8273 + 24) \<le> unat memHigh" using room by simp
  note s = boot_kmem_ok [where r = r, OF boot hi this r(2), folded s_def]
  have rm: "k \<le> frame_room s" if "unat start + 4096 * (k + 24) \<le> unat memHigh" for k
    using boot_kmem_ok(3) [where r = r, OF boot hi that r(2)] by (simp add: s_def)
  have ks: "kdir_frame s = kdir_frame m0" "cr3 s = cr3 m0" "ram s = r" "kernel_directory s = kernel_directory m0"
    by (simp_all add: s_def)
  have "kmem_need kernel_pdes s + 8192 \<le> frame_room s" using s(2,3) by simp
  from kspace.fresh_pages [OF s(1) this conjI [OF newlib_page(1,3)] kernel_flags]
  obtain m p where m: "init_memory memHigh start m0 = Some m" "kernel_run kernel_pdes 0xC3000 8192 p s m"
    unfolding r(1) s_def [symmetric] by blast
  moreover have "boot_base m0 start memHigh s"
    using boot s rm r(2) by (simp add: boot_base_def ks boot_ok_def) (simp add: kdir_frame_def)
  ultimately show ?thesis by blast
qed

text \<open>\<open>create_ramdisk\<close>.\<close>

definition disk_pages :: "ramdisk \<Rightarrow> nat" where
  "disk_pages d = (unat (rd_size d) + 4095) div 4096"

lemma create_ramdisk_run:
  assumes ok: "kmem_ok kernel_pdes m" and room: "kmem_need kernel_pdes m \<le> frame_room m"
    and d: "using_ramdisk d" "unat (rd_phys_addr d) + unat (rd_size d) < 0x20000000" "unat (rd_size d) \<le> 0x10000000"
  shows "\<exists>m'. create_ramdisk d m = Some m'
    \<and> kmem_step kernel_pdes (frames_run 0xE0400 (disk_pages d) (\<lambda>i. pframe (rd_phys_addr d) + i)) 0 m m'"
proof -
  have n: "disk_pages d \<le> 65536" "unat (CEIL_DIV (rd_size d) PAGE_SIZE) = disk_pages d"
    using d(3) unat_ceil_page [of "rd_size d"] by (simp_all add: disk_pages_def PAGE_SIZE_def PAGE_FRAME_SIZE_def)
  have "pframe (rd_phys_addr d + of_nat i * PAGE_SIZE) = pframe (rd_phys_addr d) + i" if "i < disk_pages d" for i
  proof -
    have "i * 4096 < unat (rd_size d)" using that by (simp add: disk_pages_def)
    then have "unat (rd_phys_addr d + of_nat i * PAGE_SIZE) = unat (rd_phys_addr d) + i * 4096"
      using d(2) by (simp add: PAGE_SIZE_def unat_word_ariths unat_of_nat)
    then show ?thesis by (simp add: pframe_def drop_bit_eq_div unat_div)
  qed
  then show ?thesis
    using kspace.given_pages [OF ok room conjI [OF disk_page(1,3)] _ kernel_flags,
        of "disk_pages d" "\<lambda>i. rd_phys_addr d + of_nat i * PAGE_SIZE" "\<lambda>i. pframe (rd_phys_addr d) + i"] n d(1)
    by (auto simp: create_ramdisk_def)
qed

text \<open>The three calls one after the other, as steps.\<close>

lemma boot_steps:
  fixes h :: heap_state
  assumes boot: "boot_ok (mmu h) start" and hi: "unat memHigh \<le> 0x20000000"
    and room: "unat start + 0x2069000 \<le> unat memHigh"
    and d: "using_ramdisk d" "unat (rd_phys_addr d) + unat (rd_size d) < 0x20000000" "unat (rd_size d) \<le> 0x10000000"
  shows "\<exists>s m h' m' p q. init_memory memHigh start (mmu h) = Some m \<and> heap_init (h\<lparr>mmu := m\<rparr>) = Some h'
    \<and> create_ramdisk d (mmu h') = Some m' \<and> boot_base (mmu h) start memHigh s
    \<and> kernel_run kernel_pdes 0xC3000 8192 p s m \<and> kernel_run kernel_pdes 0xD0000 4 q m (mmu h')
    \<and> kmem_step kernel_pdes (frames_run 0xE0400 (disk_pages d) (\<lambda>i. pframe (rd_phys_addr d) + i)) 0 (mmu h') m'
    \<and> total_blocks h' = 4 \<and> heap_size h' = 16384 \<and> (\<forall>i<4. heap_mem h' i = 0)"
proof -
  obtain s m p where m: "init_memory memHigh start (mmu h) = Some m" "kernel_run kernel_pdes 0xC3000 8192 p s m"
      and s: "boot_base (mmu h) start memHigh s"
    using init_memory_run [OF boot hi room] by blast
  have st1: "kmem_step kernel_pdes (frames_run 0xC3000 8192 p) 8192 s m" using m(2) by (simp add: fresh_run_def)
  have k1: "pframe (cr3 m) = kdir_frame m"
    by (simp only: kmem_step_cr3 [OF st1] kmem_stepD(8) [OF st1] boot_baseD(4) [OF s])
  have rm: "8273 \<le> frame_room s" using room by (intro boot_baseD(6) [OF s]) simp
  then have "kmem_need kernel_pdes m + 4 \<le> frame_room m"
    using kmem_stepD(5,10) [OF st1] boot_baseD(5) [OF s] by simp
  then obtain h' q where h': "heap_init (h\<lparr>mmu := m\<rparr>) = Some h'" "kernel_run kernel_pdes 0xD0000 4 q m (mmu h')"
      "total_blocks h' = 4" "heap_size h' = 16384" "\<forall>i<4. heap_mem h' i = 0"
    using heap_init_run [of kernel_pdes "h\<lparr>mmu := m\<rparr>"] kmem_stepD(1) [OF st1] kernel_pdes(1,3) k1 by auto
  have st2: "kmem_step kernel_pdes (frames_run 0xD0000 4 q) 4 m (mmu h')" using h'(2) by (simp add: fresh_run_def)
  have "kmem_need kernel_pdes (mmu h') \<le> frame_room (mmu h')"
    using kmem_stepD(5,10) [OF st1] kmem_stepD(5,10) [OF st2] boot_baseD(5) [OF s] rm by simp
  then show ?thesis
    using m h' s create_ramdisk_run [OF kmem_stepD(1) [OF st2] _ d] by blast
qed

section \<open>Properties\<close>

text \<open>The frames of a run are free of everything that was there before.\<close>

lemma boot_walk:
  assumes base: "boot_base m0 start memHigh s" and boot: "boot_ok m0 start"
    and v: "0xC0000000 \<le> v" "v < 0xC3000000"
  shows "walk (ram s) (kdir_frame s) v = translate m0 v"
proof -
  have pd: "768 \<le> pd_index v" "pd_index v < 780"
    using v by (simp_all add: unat_pd_index word_le_nat_alt word_less_nat_alt)
  have "ram s (kdir_frame s) (pd_index v) = boot_entry (pd_index v)" by (rule boot_baseD(7) [OF base]) (use pd in simp)
  moreover have "ram m0 (kdir_frame s) (pd_index v) = boot_entry (pd_index v)"
    using boot pd by (simp add: boot_ok_def boot_baseD(2) [OF base])
  moreover have "pframe (cr3 m0) = kdir_frame s" using boot_baseD(3,4) [OF base] by simp
  ultimately have "ram s (kdir_frame s) (pd_index v) = boot_entry (pd_index v)"
    "ram m0 (kdir_frame s) (pd_index v) = boot_entry (pd_index v)" "pframe (cr3 m0) = kdir_frame s" by blast+
  then show ?thesis
    using boot_entry_table [of "pd_index v"] by (auto simp: translate_def walk_def Let_def is_table_def)
qed

text \<open>What the three steps leave behind, page by page.\<close>

lemma boot_translations:
  assumes base: "boot_base m0 start memHigh s" and boot: "boot_ok m0 start"
    and st1: "kmem_step kernel_pdes (frames_run 0xC3000 8192 p) 8192 s m"
    and st2: "kmem_step kernel_pdes (frames_run 0xD0000 4 q) 4 m m1"
    and st3: "kmem_step kernel_pdes (frames_run 0xE0400 n g) 0 m1 m'" and n: "n \<le> 65536"
  shows "i < 8192 \<Longrightarrow> translate m' (0xC3000000 + of_nat i * PAGE_SIZE) = Some (p i)"
    and "i < 4 \<Longrightarrow> translate m' (HEAP_START_ADDRESS + of_nat i * HEAP_BLOCK_SIZE) = Some (q i)"
    and "i < 4096 \<Longrightarrow> translate m' (HEAP_START_ADDRESS + of_nat i) = Some (q 0)"
    and "i < n \<Longrightarrow> translate m' (RAMDISKVIRTUALADRESS + of_nat i * PAGE_SIZE) = Some (g i)"
    and "0xC0000000 \<le> v \<Longrightarrow> v < 0xC3000000 \<Longrightarrow> translate m' v = translate m0 v"
proof -
  note all = kmem_step_trans [OF kmem_step_trans [OF st1 st2] st3]
  have "pframe (cr3 m') = kdir_frame s"
    using boot_baseD(4) [OF base] by (simp add: kmem_step_cr3 [OF all])
  then have tr: "translate m' w = (case (frames_run 0xC3000 8192 p ++ frames_run 0xD0000 4 q ++
      frames_run 0xE0400 n g) (unat w div 4096) of
      None \<Rightarrow> walk (ram s) (kdir_frame s) w | f \<Rightarrow> f)" if "pd_index w < 1023" for w
    using kmem_stepD(7) [OF all that] by (simp add: translate_def)
  show "translate m' (0xC3000000 + of_nat i * PAGE_SIZE) = Some (p i)" if "i < 8192"
    using tr [OF newlib_page(2) [OF that]] that n unfolding newlib_page(3) [OF that] by (simp add: frames_run_def map_add_def)
  show "translate m' (HEAP_START_ADDRESS + of_nat i * HEAP_BLOCK_SIZE) = Some (q i)" if "i < 4"
    using tr [of "HEAP_START_ADDRESS + of_nat i * HEAP_BLOCK_SIZE"] that unfolding heap_page(1,2) [OF that]
    by (simp add: frames_run_def map_add_def)
  show "translate m' (HEAP_START_ADDRESS + of_nat i) = Some (q 0)" if "i < 4096"
    using tr [of "HEAP_START_ADDRESS + of_nat i"] that heap_table_page [of i] by (simp add: frames_run_def map_add_def)
  show "translate m' (RAMDISKVIRTUALADRESS + of_nat i * PAGE_SIZE) = Some (g i)" if "i < n"
  proof -
    have i: "i < 65536" using that n by simp
    show ?thesis using tr [OF disk_page(2) [OF i]] that unfolding disk_page(3) [OF i] by (simp add: frames_run_def map_add_def)
  qed
  show "translate m' v = translate m0 v" if "0xC0000000 \<le> v" "v < 0xC3000000"
  proof -
    have "unat v < 0xC3000000" using that(2) by (simp add: word_less_nat_alt)
    then have "unat v div 4096 < 0xC3000" "pd_index v < 1023" by (simp_all add: unat_pd_index)
    then show ?thesis using tr [of v] boot_walk [OF base boot that] by (simp add: frames_run_def map_add_def)
  qed
qed

text \<open>In a heap of four free blocks the first object is at the start of the heap.\<close>

lemma first_kmalloc:
  assumes "table_mapped h" and "blocks h = 4" and "\<forall>i<4. block_free h i" and sz: "0 < unat sz" "unat sz \<le> 16384"
  shows "kmalloc sz h = Some (HEAP_START_ADDRESS, with_run 0 ((unat sz + 4095) div 4096) h)"
proof -
  have "is_run h ((unat sz + 4095) div 4096) 0" using assms by (simp add: is_run_def)
  then show ?thesis
    using kmalloc_run [OF assms(1) sz(1) _ \<open>is_run h ((unat sz + 4095) div 4096) 0\<close>] sz(2)
      Least_eq_0 [of "is_run h ((unat sz + 4095) div 4096)"] by (simp add: block_address_def)
qed

text \<open>C17: the address space after the start: the 8192 pages of the newlib heap and the four of the kernel heap
  each have a frame of their own, none of them a page table, all of them between the end of the RAM disk
  and the end of memory; the pages of the RAM disk are its module; the image of the kernel is mapped as the
  boot code mapped it; and the heap is four free blocks, so that the first object that is allocated gets the
  address where the table of the blocks is.\<close>

theorem boot_address_space:
  fixes h :: heap_state
  assumes "boot_ok (mmu h) (physicalAllocStart d)" and "using_ramdisk d"
    and "unat (rd_size d) \<le> 0x10000000" and "unat (mem_upper * 1024) \<le> 0x20000000"
    and "unat (rd_phys_addr d) + unat (rd_size d) + 0x206A000 \<le> unat (mem_upper * 1024)"
  shows "\<exists>m h' m' p q. init_memory (mem_upper * 1024) (physicalAllocStart d) (mmu h) = Some m
    \<and> heap_init (h\<lparr>mmu := m\<rparr>) = Some h' \<and> create_ramdisk d (mmu h') = Some m'
    \<and> (\<forall>i<8192. translate m' (0xC3000000 + of_nat i * PAGE_SIZE) = Some (p i))
    \<and> (\<forall>i<4. translate m' (HEAP_START_ADDRESS + of_nat i * HEAP_BLOCK_SIZE) = Some (q i))
    \<and> (\<forall>i<disk_pages d. translate m' (RAMDISKVIRTUALADRESS + of_nat i * PAGE_SIZE) = Some (pframe (rd_phys_addr d) + i))
    \<and> (\<forall>v. 0xC0000000 \<le> v \<longrightarrow> v < 0xC3000000 \<longrightarrow> translate m' v = translate (mmu h) v)
    \<and> inj_on p {..<8192} \<and> inj_on q {..<4} \<and> p ` {..<8192} \<inter> q ` {..<4} = {}
    \<and> (\<forall>f \<in> p ` {..<8192} \<union> q ` {..<4}. f \<notin> table_frames m'
         \<and> unat (rd_phys_addr d) + unat (rd_size d) \<le> 4096 * f \<and> 4096 * (f + 1) \<le> unat (mem_upper * 1024))
    \<and> blocks h' = 4 \<and> table_mapped (h'\<lparr>mmu := m'\<rparr>) \<and> (\<forall>i<4. block_free (h'\<lparr>mmu := m'\<rparr>) i)
    \<and> (\<forall>sz. 0 < unat sz \<longrightarrow> unat sz \<le> 16384 \<longrightarrow>
         (\<exists>h2. kmalloc sz (h'\<lparr>mmu := m'\<rparr>) = Some (HEAP_START_ADDRESS, h2)))"
proof -
  have size: "unat (rd_phys_addr d) + unat (rd_size d) + 4095 < 4294967296" "unat (rd_phys_addr d) + unat (rd_size d) < 0x20000000"
    using assms(4,5) by simp_all
  have start: "unat (rd_phys_addr d) + unat (rd_size d) \<le> unat (physicalAllocStart d)"
      "unat (physicalAllocStart d) + 0x2069000 \<le> unat (mem_upper * 1024)"
    using assms(5) unfolding unat_physicalAllocStart [OF assms(2) size(1)] by linarith+
  from boot_steps [OF assms(1,4) start(2) assms(2) size(2) assms(3)] obtain s m h' m' p q where
    b: "init_memory (mem_upper * 1024) (physicalAllocStart d) (mmu h) = Some m" "heap_init (h\<lparr>mmu := m\<rparr>) = Some h'"
      "create_ramdisk d (mmu h') = Some m'"
    and base: "boot_base (mmu h) (physicalAllocStart d) (mem_upper * 1024) s"
    and p: "kernel_run kernel_pdes 0xC3000 8192 p s m" and q: "kernel_run kernel_pdes 0xD0000 4 q m (mmu h')"
    and st3: "kmem_step kernel_pdes (frames_run 0xE0400 (disk_pages d) (\<lambda>i. pframe (rd_phys_addr d) + i)) 0 (mmu h') m'"
    and hp: "total_blocks h' = 4" "\<forall>i<4. heap_mem h' i = 0"
    by blast
  have st1: "kmem_step kernel_pdes (frames_run 0xC3000 8192 p) 8192 s m" "inj_on p {..<8192}"
    and st2: "kmem_step kernel_pdes (frames_run 0xD0000 4 q) 4 m (mmu h')" "inj_on q {..<4}"
    and dp: "disk_pages d \<le> 65536"
    using p q assms(3) by (simp_all add: fresh_run_def disk_pages_def)
  note tr = boot_translations [OF base assms(1) st1(1) st2(1) st3 dp]
  have "p ` {..<8192} \<inter> q ` {..<4} = {}" using p q by (auto simp: fresh_run_def)
  moreover have "f \<notin> table_frames m' \<and> f \<in> pmm_window (frames s)" if "f \<in> p ` {..<8192} \<union> q ` {..<4}" for f
    using that kspace.fresh_run_step [OF p kmem_step_trans [OF st2(1) st3]] kspace.fresh_run_step [OF q st3] kmem_stepD(11) [OF st1(1)] by auto
  then have "\<forall>f \<in> p ` {..<8192} \<union> q ` {..<4}. f \<notin> table_frames m'
      \<and> unat (rd_phys_addr d) + unat (rd_size d) \<le> 4096 * f \<and> 4096 * (f + 1) \<le> unat (mem_upper * 1024)"
    using boot_baseD(9) [OF base] start(1) by (meson order_trans)
  moreover have "blocks h' = 4" "\<forall>i<4. block_free (h'\<lparr>mmu := m'\<rparr>) i" "table_mapped (h'\<lparr>mmu := m'\<rparr>)"
    using hp tr(3) by (simp_all add: blocks_def block_free_def HEAP_BLOCK_TABLE_ENTRY_FREE_def table_mapped_def heap_mapped_def)
  moreover from this have "\<exists>h2. kmalloc sz (h'\<lparr>mmu := m'\<rparr>) = Some (HEAP_START_ADDRESS, h2)"
    if "0 < unat sz" "unat sz \<le> 16384" for sz
    using first_kmalloc [of "h'\<lparr>mmu := m'\<rparr>" sz] that by (simp add: blocks_def block_free_def)
  ultimately show ?thesis using b tr(1,2,4,5) st1(2) st2(2) by blast
qed

section \<open>A concrete machine\<close>

text \<open>The kernel directory in frame 257, the page directories behind it, a RAM disk of 4 MB at 16 MB, and
  the memory of a machine with 128 MB.\<close>

definition boot_demo :: mmu_state where
  "boot_demo = \<lparr>ram = (\<lambda>f. if f = 257 then boot_entry else (\<lambda>_. 0)), cr3 = 0x101000, kernel_directory = 0xC0101000,
     pageDirs = 0xC0102000, pageDirsUsed = (\<lambda>_. 0), mem_num_vpages = 0, frames = pmm_init 0 0\<rparr>"

definition boot_disk :: ramdisk where
  "boot_disk = \<lparr>rd_size = 0x400000, rd_phys_addr = 0x1000000, using_ramdisk = True\<rparr>"

lemma boot_demo_frames: "kdir_frame boot_demo = 257" "i < NUM_PAGE_DIRS \<Longrightarrow> pdir_frame boot_demo i = 258 + i"
  by (simp_all add: kdir_frame_def pdir_frame_def page_dir_def boot_demo_def pframe_def KERNEL_START_def PAGE_SIZE_def
      NUM_PAGE_DIRS_def drop_bit_eq_div unat_div unat_word_ariths unat_of_nat)

lemma boot_disk_start: "physicalAllocStart boot_disk = 0x1400000"
  by (simp add: physicalAllocStart_def boot_disk_def)

lemma boot_demo_ok: "boot_ok boot_demo (physicalAllocStart boot_disk)"
proof -
  have "dirs_ok boot_demo"
    by (auto simp: dirs_ok_def inj_on_def boot_demo_frames)
  moreover have "4096 * (f + 1) \<le> 0x1400000" if "f \<in> insert (kdir_frame boot_demo) (pdir_frame boot_demo ` {..<NUM_PAGE_DIRS})" for f
    using that by (auto simp: boot_demo_frames NUM_PAGE_DIRS_def)
  ultimately show ?thesis
    unfolding boot_ok_def boot_disk_start boot_demo_frames(1)
    by (auto simp: boot_demo_def KERNEL_START_def)
qed

theorem boot_address_space_witness:
  "\<exists>m h' m'. init_memory 0x7EE0000 0x1400000 boot_demo = Some m \<and> heap_init (heap_demo\<lparr>mmu := m\<rparr>) = Some h'
    \<and> create_ramdisk boot_disk (mmu h') = Some m' \<and> translate m' 0xE0401000 = Some 4097
    \<and> translate m' 0xC0101000 = Some 257 \<and> blocks h' = 4"
proof -
  have "unat (rd_phys_addr boot_disk) + unat (rd_size boot_disk) + 0x206A000 \<le> unat ((0x1FB80 :: u32) * 1024)"
    "using_ramdisk boot_disk" "unat (rd_size boot_disk) \<le> 0x10000000" "unat ((0x1FB80 :: u32) * 1024) \<le> 0x20000000"
    by (simp_all add: boot_disk_def)
  moreover have "boot_ok (mmu (heap_demo\<lparr>mmu := boot_demo\<rparr>)) (physicalAllocStart boot_disk)"
    using boot_demo_ok by simp
  ultimately obtain m h' m' where
    "init_memory (0x1FB80 * 1024) (physicalAllocStart boot_disk) boot_demo = Some m"
    "heap_init (heap_demo\<lparr>mmu := boot_demo, mmu := m\<rparr>) = Some h'" "create_ramdisk boot_disk (mmu h') = Some m'"
    and disk: "\<forall>i<disk_pages boot_disk. translate m' (RAMDISKVIRTUALADRESS + of_nat i * PAGE_SIZE) = Some (pframe (rd_phys_addr boot_disk) + i)"
    and image: "\<forall>v. 0xC0000000 \<le> v \<longrightarrow> v < 0xC3000000 \<longrightarrow> translate m' v = translate boot_demo v" and "blocks h' = 4"
    using boot_address_space [of "heap_demo\<lparr>mmu := boot_demo\<rparr>" boot_disk "0x1FB80"] by auto
  moreover have "translate m' 0xE0401000 = Some 4097"
    using disk [rule_format, of 1] by (simp add: disk_pages_def boot_disk_def RAMDISKVIRTUALADRESS_def PAGE_SIZE_def pframe_def)
  moreover have "translate m' 0xC0101000 = Some 257"
    using image [rule_format, of "0xC0101000"]
    by (simp add: translate_def walk_def boot_demo_def boot_entry_def unat_pd_index unat_pt_index present_def pframe_def page_flags)
  ultimately show ?thesis by (simp add: boot_disk_start)
qed

end
