(* ===== verification/System.thy ===== *)
theory System
  imports Sys_Invariant Boot_Memory
begin

text \<open>
  The start of the kernel (\<open>kernel.c\<close>): \<open>kernel_main\<close> as the composition of the components, in the order in which it
  calls them, and \<open>kernel_panic\<close>. The messages of \<open>kernel_main\<close> and of \<open>init_ramdisk_disk\<close> are modelled, those of
  the functions that start the other CPUs and make the idle process are not, as their theories say. Interrupts that
  arrive during the start appear only through the tick counter that \<open>PitWait\<close> reads.
\<close>

section \<open>What the boot loader passes\<close>

text \<open>The fields of \<open>struct multiboot_info\<close> and \<open>struct multiboot_module\<close> that the kernel reads.\<close>

record multiboot_info =
  mb_mem_upper :: u32
  mb_mods_count :: u32
  mb_mods_addr :: u32
  mb_framebuffer_addr :: u64
  mb_framebuffer_pitch :: u32
  mb_framebuffer_width :: u32
  mb_framebuffer_height :: u32
  mb_framebuffer_bpp :: u8

record multiboot_module =
  mod_start :: u32
  mod_end :: u32

definition le32 :: "bytes \<Rightarrow> u32 \<Rightarrow> u32" where
  "le32 m a = ucast (m a) OR push_bit 8 (ucast (m (a + 1))) OR push_bit 16 (ucast (m (a + 2))) OR push_bit 24 (ucast (m (a + 3)))"

definition module_at :: "bytes \<Rightarrow> u32 \<Rightarrow> multiboot_module" where
  "module_at m a = \<lparr>mod_start = le32 m a, mod_end = le32 m (a + 4)\<rparr>"

section \<open>State and surroundings\<close>

text \<open>The global variables of the kernel: the state of the system calls, and the tables that they are reached by.\<close>

record 'd kernel =
  k_sys :: "'d sys_state"
  k_vectors :: "nat \<Rightarrow> 'd sys_state handler option"
  k_calls :: "(nat \<Rightarrow> 'd sys_state handler option) \<times> u32"
  k_disk :: ramdisk
  k_bytes :: bytes
  k_mp :: mp_state

text \<open>
  The surroundings: the machine of the system calls, what the interrupt controller and the timer answer, the addresses
  the linker gave to the tables, the interrupt stubs, the idle loop and the start-up code of the other CPUs,
  what \<open>f_mount\<close> does to the volume, the two reads of the keyboard port and the old contents of the node \<open>NIL\<close>.
\<close>

record 'd surroundings =
  e_machine :: "'d machine"
  e_hw :: lapic_hw
  e_ticks :: clock
  e_tss :: u32
  e_gdt :: u32
  e_idt :: u32
  e_stub :: "u8 \<Rightarrow> u32"
  e_idle :: u32
  e_sig :: u32
  e_trampoline :: "u32 \<times> u32"
  e_pMode :: "u32 \<times> u32"
  e_mount :: "'d \<Rightarrow> FRESULT \<times> 'd"
  e_port60 :: "'d sys_state \<Rightarrow> u8 \<times> u8"
  e_nil :: process

text \<open>\<open>kernel_main\<close> ends in the idle loop of the first CPU or in the endless loop of \<open>kernel_panic\<close>.\<close>

datatype 'd boot = Panicked "'d kernel" | Idling "'d kernel"

section \<open>Panic\<close>

definition panic_line :: cstr where "panic_line = map of_char ''Kernel Panic: %s'' @ [10]"

definition kernel_panic :: "cstr \<Rightarrow> 'd sys_state \<Rightarrow> 'd sys_state option" where
  "kernel_panic message s = with_screen (kernel_write (\<lambda>_. Some message) panic_line (\<lambda>_. 0)) s"

section \<open>The steps of \<open>kernel_main\<close>\<close>

text \<open>The keyboard interrupt, and \<open>init_keyboard\<close>, which enters it and writes to the data port.\<close>

definition keyboard_interrupt :: "('d sys_state \<Rightarrow> u8 \<times> u8) \<Rightarrow> 'd sys_state handler" where
  "keyboard_interrupt port60 r s = (let (in1, in2) = port60 s in do {
     (k, scr) \<leftarrow> irq1_handler in1 in2 (keyb s, console (files s));
     Some (Returned r (s\<lparr>keyb := k, files := (files s)\<lparr>console := scr\<rparr>\<rparr>))
   })"

definition enter_keyboard :: "('d sys_state \<Rightarrow> u8 \<times> u8) \<Rightarrow> (nat \<Rightarrow> 'd sys_state handler option) \<Rightarrow> 'd sys_state
    \<Rightarrow> ((nat \<Rightarrow> 'd sys_state handler option) \<times> 'd sys_state) option" where
  "enter_keyboard port60 hs s = do {
     hs \<leftarrow> vector_add_handler 1 (keyboard_interrupt port60) hs;
     Some (hs, outb 0x60 0xAE (s\<lparr>keyb := init_keyboard (keyb s)\<rparr>))
   }"

text \<open>Tables, interrupts and the timer.\<close>

definition boot_tables :: "'d surroundings \<Rightarrow> 'd kernel \<Rightarrow> 'd kernel option" where
  "boot_tables ev k = do {
     d \<leftarrow> init_gdt (e_tss ev) (e_gdt ev) (descs (k_sys k));
     let d = idt_init (e_stub ev) (e_idt ev) d;
     (hs, s) \<leftarrow> init_pit (k_vectors k) ((k_sys k)\<lparr>descs := d\<rparr>);
     Some (k\<lparr>k_vectors := hs, k_sys := s\<rparr>)
   }"

text \<open>
  The screen and the RAM disk; \<open>vbeinfo\<close> is a static variable, its background is black at first. The call of
  \<open>set_vbe_info\<close> that follows \<open>init_vbe\<close> sets the same pointer again.
\<close>

definition boot_vbe :: "multiboot_info \<Rightarrow> vbe_info" where
  "boot_vbe mbi = \<lparr>framebuffer_addr = mb_framebuffer_addr mbi, framebuffer_pitch = mb_framebuffer_pitch mbi,
     framebuffer_width = mb_framebuffer_width mbi, framebuffer_height = mb_framebuffer_height mbi,
     framebuffer_bpp = mb_framebuffer_bpp mbi, background_color = 0\<rparr>"

definition disk_line :: cstr where "disk_line = map of_char ''Ram Disk module loaded at physical addr: %x'' @ [10]"
definition disk_size_line :: cstr where "disk_size_line = map of_char ''Ram Disk size: %x'' @ [10]"

definition boot_devices :: "multiboot_info \<Rightarrow> 'd kernel \<Rightarrow> 'd kernel option" where
  "boot_devices mbi k = do {
     s \<leftarrow> with_screen (init_vbe (boot_vbe mbi)) (k_sys k);
     d \<leftarrow> init_ramdisk_disk (if 0 < mb_mods_count mbi
            then (let md = module_at (k_bytes k) (mb_mods_addr mbi) in Some (mod_start md, mod_end md)) else None) (k_disk k);
     s \<leftarrow> with_screen (kernel_write (\<lambda>_. None) disk_line (\<lambda>_. rd_phys_addr d)) s;
     s \<leftarrow> with_screen (kernel_write (\<lambda>_. None) disk_size_line (\<lambda>_. rd_size d)) s;
     Some (k\<lparr>k_sys := s, k_disk := d\<rparr>)
   }"

text \<open>Memory: \<open>mem_upper\<close> is in units of 1024 bytes.\<close>

definition module_line :: cstr where "module_line = map of_char ''Module: %d'' @ [10]"

definition boot_memory :: "multiboot_info \<Rightarrow> 'd kernel \<Rightarrow> 'd kernel option" where
  "boot_memory mbi k = (let s = k_sys k; d = k_disk k in do {
     m \<leftarrow> init_memory (mb_mem_upper mbi * 1024) (physicalAllocStart d) (mmu (kheap s));
     h \<leftarrow> heap_init ((kheap s)\<lparr>mmu := m\<rparr>);
     s \<leftarrow> with_screen (kernel_write (\<lambda>_. None) module_line (\<lambda>_. mb_mods_count mbi)) (s\<lparr>kheap := h\<rparr>);
     m \<leftarrow> create_ramdisk d (mmu (kheap s));
     Some (k\<lparr>k_sys := s\<lparr>kheap := (kheap s)\<lparr>mmu := m\<rparr>\<rparr>\<rparr>)
   })"

text \<open>The file system; the results of \<open>disk_initialize\<close> and \<open>disk_status\<close> are not used.\<close>

definition mount_line :: cstr where "mount_line = map of_char ''result of mount: %d'' @ [10]"
definition mount_failed :: cstr where "mount_failed = map of_char ''Filesystem mount failed.'' @ [10]"
definition mount_done :: cstr where "mount_done = map of_char ''Filesystem mounted successfully!'' @ [10]"

definition boot_mount :: "'d surroundings \<Rightarrow> 'd sys_state \<Rightarrow> 'd sys_state option" where
  "boot_mount ev s = do {
     let (res, d) = e_mount ev (volume (files s));
     s \<leftarrow> with_screen (kernel_write (\<lambda>_. None) mount_line (\<lambda>_. fresult_number res))
           (s\<lparr>files := (files s)\<lparr>volume := d\<rparr>\<rparr>);
     with_screen (kernel_write (\<lambda>_. None) (if res \<noteq> FR_OK then mount_failed else mount_done) (\<lambda>_. 0)) s
   }"

text \<open>The interrupt vectors, the keyboard and the system calls.\<close>

definition boot_handlers :: "'d surroundings \<Rightarrow> 'd kernel \<Rightarrow> 'd kernel option" where
  "boot_handlers ev k = (let mc = e_machine ev in do {
     hs \<leftarrow> setup_vectors (apic_id mc) (junk_regs mc) (e_idle ev) (k_vectors k);
     (hs, s) \<leftarrow> enter_keyboard (e_port60 ev) hs (k_sys k);
     (t, scr) \<leftarrow> register_syscalls mc (k_calls k) (console (files s));
     Some (k\<lparr>k_vectors := hs, k_calls := t, k_sys := s\<lparr>files := (files s)\<lparr>console := scr\<rparr>\<rparr>\<rparr>)
   })"

text \<open>The names in the root directory; the loop is that of \<open>readdir\<close>, but for the result that it keeps.\<close>

definition root_path :: cstr where "root_path = map of_char ''0:/''"

definition boot_listing :: "'d surroundings \<Rightarrow> 'd sys_state \<Rightarrow> 'd sys_state option" where
  "boot_listing ev s = (let mc = e_machine ev; (res, d) = f_opendir mc root_path (volume (files s)); fs = (files s)\<lparr>volume := d\<rparr> in
     if res = FR_OK then do {
       (_, fs) \<leftarrow> readdir_loop mc 0 fs;
       Some (s\<lparr>files := fs\<lparr>volume := f_closedir mc (volume fs)\<rparr>\<rparr>)
     } else Some (s\<lparr>files := fs\<rparr>))"

text \<open>The process table, the other CPUs, the idle process and the run queues.\<close>

definition boot_initProc :: "'d surroundings \<Rightarrow> 'd sys_state \<Rightarrow> 'd sys_state option" where
  "boot_initProc ev s = do {
     (p, s) \<leftarrow> kernel_kmalloc 40 s;
     if p = NULL then None else Some (s\<lparr>ptab := initProc p (e_nil ev) (ptab s)\<rparr>)
   }"

definition boot_cpus :: "'d surroundings \<Rightarrow> 'd kernel \<Rightarrow> 'd kernel option" where
  "boot_cpus ev k = (let s = k_sys k in do {
     (bytes, m, mp, l) \<leftarrow> smpInit (e_hw ev) (e_ticks ev) (e_sig ev) (fst (e_trampoline ev)) (snd (e_trampoline ev))
        (fst (e_pMode ev)) (snd (e_pMode ev)) (k_bytes k, mmu (kheap s), k_mp k, lapic s);
     Some (k\<lparr>k_bytes := bytes, k_mp := mp,
             k_sys := s\<lparr>kheap := (kheap s)\<lparr>mmu := m\<rparr>, lapic := l, ncpus := mp_ncpus mp\<rparr>\<rparr>)
   })"

definition boot_processes :: "'d surroundings \<Rightarrow> 'd kernel \<Rightarrow> 'd kernel option" where
  "boot_processes ev k = (let mc = e_machine ev in do {
     s \<leftarrow> boot_initProc ev (k_sys k);
     k \<leftarrow> boot_cpus ev (k\<lparr>k_sys := s\<rparr>);
     (idle_pid, s) \<leftarrow> initIdle (apic_id mc) (junk_regs mc) (e_idle ev) (k_sys k);
     s \<leftarrow> fillRunqueuesFromBST s;
     Some (k\<lparr>k_sys := s\<rparr>)
   })"

definition bad_magic_line :: cstr where "bad_magic_line = map of_char ''Invalid magic value: %x'' @ [10]"
definition bad_magic :: cstr where "bad_magic = map of_char ''Invalid magic value''"

definition kernel_main :: "'d surroundings \<Rightarrow> u32 \<Rightarrow> multiboot_info \<Rightarrow> 'd kernel \<Rightarrow> 'd boot option" where
  "kernel_main ev magic_value mbi k = do {
     k \<leftarrow> boot_tables ev k;
     if magic_value \<noteq> 0x2BADB002 then do {
       s \<leftarrow> with_screen (kernel_write (\<lambda>_. None) bad_magic_line (\<lambda>_. magic_value)) (k_sys k);
       s \<leftarrow> kernel_panic bad_magic s;
       Some (Panicked (k\<lparr>k_sys := s\<rparr>))
     } else do {
       k \<leftarrow> boot_devices mbi k;
       k \<leftarrow> boot_memory mbi k;
       s \<leftarrow> boot_mount ev (k_sys k);
       k \<leftarrow> boot_handlers ev (k\<lparr>k_sys := s\<rparr>);
       s \<leftarrow> boot_listing ev (k_sys k);
       k \<leftarrow> boot_processes ev (k\<lparr>k_sys := s\<rparr>);
       Some (Idling k)
     }
   }"

section \<open>Messages\<close>

lemma kernel_write_text: "rendered str_at fmt args 0 = Some out \<Longrightarrow> kernel_write str_at fmt args scr = Some (puts_kernel out scr)"
  using printf_loop_rendered [of str_at fmt args 0 out scr] by (auto simp: kernel_write_def)

lemma puts_kernel_nowhere: "globalvbeinfo scr = None \<Longrightarrow> puts_kernel out scr = scr"
  using puts_kernel_ok [of scr out] by (simp add: console_ok_def same_frame_def)

lemma files_console_same: "files_update (\<lambda>_. files s) s = s" for s :: "'d sys_state"
  by (cases s) simp

lemmas message_defs = panic_line_def bad_magic_line_def bad_magic_def module_line_def mount_line_def mount_failed_def mount_done_def
  disk_line_def disk_size_line_def

lemma messages:
  "rendered str_at bad_magic_line args 0 = Some (map of_char ''Invalid magic value: '' @ numeral_of 16 (unat (args 0)) @ [10])"
  "rendered (\<lambda>_. Some m) panic_line args 0 = Some (map of_char ''Kernel Panic: '' @ m @ [10])"
  "rendered str_at module_line args 0 = Some (map of_char ''Module: '' @ decimal_of_int (sint (args 0)) @ [10])"
  "rendered str_at mount_line args 0 = Some (map of_char ''result of mount: '' @ decimal_of_int (sint (args 0)) @ [10])"
  "rendered str_at mount_failed args 0 = Some mount_failed"
  "rendered str_at mount_done args 0 = Some mount_done"
  "rendered str_at disk_line args 0 = Some (map of_char ''Ram Disk module loaded at physical addr: '' @ numeral_of 16 (unat (args 0)) @ [10])"
  "rendered str_at disk_size_line args 0 = Some (map of_char ''Ram Disk size: '' @ numeral_of 16 (unat (args 0)) @ [10])"
  by (simp_all add: message_defs conversion_def)

lemma write_nowhere:
  "globalvbeinfo (console (files s)) = None \<Longrightarrow> rendered str_at fmt args 0 = Some out
    \<Longrightarrow> with_screen (kernel_write str_at fmt args) s = Some s"
  by (cases "files s") (simp add: with_screen_def kernel_write_text puts_kernel_nowhere files_console_same)

section \<open>Tables\<close>

lemma boot_tables_run:
  fixes k :: "'d kernel"
  shows "\<exists>d. boot_tables ev k = Some (k\<lparr>k_vectors := (k_vectors k)(0 \<mapsto> pit_handler), k_sys := (k_sys k)
    \<lparr>descs := d, port_log := port_log (k_sys k) @ [(0x43, 0x36), (0x40, 0xA9), (0x40, 4)]\<rparr>\<rparr>)"
proof -
  obtain d where "init_gdt (e_tss ev) (e_gdt ev) (descs (k_sys k)) = Some d" using init_gdt_segments by blast
  then show ?thesis
    by (intro exI [of _ "idt_init (e_stub ev) (e_idt ev) d"])
      (simp add: boot_tables_def init_pit_def vector_add_handler_def outb_def Let_def)
qed

section \<open>A wrong boot loader\<close>

text \<open>With a wrong magic value \<open>kernel_main\<close> enters the tick handler and fills the descriptor tables, and
  then panics; as the screen is only set up later, neither message is shown: the console and the framebuffer,
  the memory and everything else are as before.\<close>

theorem wrong_magic_is_silent:
  assumes "magic_value \<noteq> 0x2BADB002" and "globalvbeinfo (console (files (k_sys k))) = None"
  shows "\<exists>d. kernel_main ev magic_value mbi k = Some (Panicked (k\<lparr>k_vectors := (k_vectors k)(0 \<mapsto> pit_handler), k_sys := (k_sys k)
    \<lparr>descs := d, port_log := port_log (k_sys k) @ [(0x43, 0x36), (0x40, 0xA9), (0x40, 4)]\<rparr>\<rparr>))"
proof -
  obtain d where d: "boot_tables ev k = Some (k\<lparr>k_vectors := (k_vectors k)(0 \<mapsto> pit_handler), k_sys := (k_sys k)
    \<lparr>descs := d, port_log := port_log (k_sys k) @ [(0x43, 0x36), (0x40, 0xA9), (0x40, 4)]\<rparr>\<rparr>)" (is "_ = Some ?k")
    using boot_tables_run by blast
  have "globalvbeinfo (console (files (k_sys ?k))) = None" using assms(2) by simp
  note w = write_nowhere [OF this]
  show ?thesis
    by (rule exI [of _ d]) (simp only: kernel_main_def kernel_panic_def d bind.bind_lunit if_True assms(1) not_False_eq_True
      w [OF messages(1)] w [OF messages(2)], simp)
qed

end
