(* ===== verification/Boot_Cpus.thy ===== *)
theory Boot_Cpus
  imports Smp Boot_Memory
begin

text \<open>
  The other CPUs during the start: \<open>smpInit\<close> in the address space that the kernel has built, from the multiprocessor
  table to the interrupts that start them.
\<close>

section \<open>The local interrupt controller\<close>

definition delivers :: "lapic_hw \<Rightarrow> bool" where
  "delivers hw \<longleftrightarrow> (\<forall>n. \<exists>k \<ge> n. hw k ICR1 AND DELIVS = 0)"

lemma lapic_page:
  assumes "reg < 1024"
  shows "pd_index (IA32_APIC_BASE + 4 * reg) = 1019" and "unat (IA32_APIC_BASE + 4 * reg) div 4096 = 0xFEE00"
proof -
  have reg: "unat reg < 1024" using assms by (simp add: word_less_nat_alt)
  then have u: "unat (IA32_APIC_BASE + 4 * reg) = 0xFEE00000 + 4 * unat reg"
    by (simp add: IA32_APIC_BASE_def unat_word_ariths)
  show "unat (IA32_APIC_BASE + 4 * reg) div 4096 = 0xFEE00"
    unfolding u using reg by (intro div_nat_eqI) simp_all
  show "pd_index (IA32_APIC_BASE + 4 * reg) = 1019"
    unfolding unat_pd_index u using reg by (intro div_nat_eqI) simp_all
qed

definition init_writes :: "(u32 \<times> u32) list" where
  "init_writes = [(SVR, 0x1FF), (TPR, 0), (LINT0, 0x700), (LINT1, MASKED), (ESR, 0), (ESR, 0), (EOI, 0)]"

lemma lapicInit_run:
  assumes ok: "kmem_ok R m" "finite R" "1019 \<in> R" and room: "kmem_need R m \<le> frame_room m"
    and cur: "pframe (cr3 m) = kdir_frame m" and hw: "delivers hw"
  shows "\<exists>m' l'. lapicInit hw m l = Some (m', l') \<and> kmem_step R [0xFEE00 \<mapsto> 0xFEE00] 0 m m' \<and> lapic_works hw m'
    \<and> reg_writes l' = reg_writes l @ init_writes"
proof -
  have base: "pd_index 0xFEE00000 = 1019" "unat (0xFEE00000 :: u32) div 4096 = 0xFEE00" "pframe 0xFEE00000 = 0xFEE00"
    by (simp_all add: unat_pd_index pframe_def drop_bit_eq_div)
  have fl: "PAGE_FLAG_PRESENT OR PAGE_FLAG_WRITE < 4096" "\<not> bit (PAGE_FLAG_PRESENT OR PAGE_FLAG_WRITE) 7"
    by (rule kernel_flags)+
  have "pd_index 0xFEE00000 \<in> R" using ok(3) base(1) by simp
  from kmem_map [OF ok(1) this room fl, of "0xFEE00000"] obtain m' where
    m: "mapLAPIC m = Some m'" "kmem_step R [0xFEE00 \<mapsto> 0xFEE00] 0 m m'"
    unfolding base mapLAPIC_def by blast
  have c: "pframe (cr3 m') = kdir_frame m" using cur kmem_step_cr3 [OF m(2)] by simp
  have "reg_mapped m' reg" if "reg < 1024" for reg
    using kmem_stepD(7) [OF m(2), of "IA32_APIC_BASE + 4 * reg"] lapic_page [OF that]
    by (simp add: reg_mapped_def translate_def c) (simp add: IA32_APIC_BASE_def base)
  then have works: "lapic_works hw m'" using hw by (simp add: lapic_works_def delivers_def)
  have r: "reg_mapped m' SVR" using works by (simp add: lapic_works_def SVR_def)
  have "\<exists>l'. lapicInit hw m l = Some (m', l') \<and> reg_writes l' = reg_writes l @ init_writes"
    using m(1) r lapicWrite_run [OF works]
    by (simp add: lapicInit_def lapicRead_def SVR_def TPR_def LINT0_def LINT1_def ESR_def EOI_def init_writes_def ENABLE_def)
  then show ?thesis using m works by blast
qed

section \<open>\<open>smpInit\<close>\<close>

text \<open>The processors of the table that the firmware left, at most eight.\<close>

definition found_processors :: "bytes \<Rightarrow> u32 \<Rightarrow> u32 list" where
  "found_processors m sig = (let table = configurationTable m (find_mp_floating_pointer m sig) in
     take MAX_CPUS (processors m (table + sizeof_table) (unat (entryCount m table))))"

text \<open>A piece of start-up code: at most a page, above the two pages it is copied to.\<close>

definition start_code :: "u32 \<Rightarrow> u32 \<Rightarrow> bool" where
  "start_code code_start code_end \<longleftrightarrow> 0 \<le> sint (code_end - code_start) \<and> sint (code_end - code_start) \<le> 0x1000
     \<and> 0x9000 \<le> unat code_start \<and> unat code_start \<le> 0xFFFFF000"

definition code_size :: "u32 \<Rightarrow> u32 \<Rightarrow> nat" where
  "code_size code_start code_end = nat (sint (code_end - code_start))"

lemma copied_outside:
  assumes "unat dest + n \<le> unat a \<or> unat a < unat dest \<and> unat dest + n \<le> 4294967296"
  shows "copied dest src m n a = m a"
proof -
  have "n \<le> offset dest a"
    using assms unat_u32_less [of dest] by (auto simp: offset_def unat_sub_if_size word_size word_le_nat_alt)
  then show ?thesis by (simp add: copied_def)
qed

lemma start_codeD:
  assumes "start_code code_start code_end"
  shows "code_size code_start code_end \<le> 0x1000" and "0 \<le> sint (code_end - code_start)"
    and "i < 0x1000 \<Longrightarrow> 0x9000 \<le> unat (code_start + of_nat i)"
    and "unat dest \<le> 0x8000 \<Longrightarrow> 0x1000 \<le> offset code_start dest"
  using assms unat_u32_less [of code_start]
  by (simp_all add: start_code_def code_size_def offset_def unat_word_ariths unat_of_nat unat_sub_if_size word_size word_le_nat_alt)
    linarith+

lemma copy_code:
  assumes "start_code code_start code_end" and "unat dest \<le> 0x8000"
  shows "memcpy dest code_start (sint (code_end - code_start)) m = Some (copied dest code_start m (code_size code_start code_end))"
  using start_codeD(1,2) [OF assms(1)] start_codeD(4) [OF assms]
  unfolding code_size_def by (intro memcpy_run) simp_all

lemma prepareTrampolineCode_run:
  assumes t: "start_code t_start t_end" and p: "start_code p_start p_end"
  shows "\<exists>mem'. prepareTrampolineCode t_start t_end p_start p_end mem = Some mem'
    \<and> (\<forall>i<code_size t_start t_end. mem' (0x7000 + of_nat i) = mem (t_start + of_nat i))
    \<and> (\<forall>i<code_size p_start p_end. mem' (0x8000 + of_nat i) = mem (p_start + of_nat i))"
proof -
  let ?m1 = "copied 0x7000 t_start mem (code_size t_start t_end)"
  let ?m2 = "copied 0x8000 p_start ?m1 (code_size p_start p_end)"
  note sz = start_codeD(1) [OF t] start_codeD(1) [OF p]
  have "prepareTrampolineCode t_start t_end p_start p_end mem = Some ?m2"
    using copy_code [OF t] copy_code [OF p] by (simp add: prepareTrampolineCode_def)
  moreover have "?m2 (0x7000 + of_nat i) = mem (t_start + of_nat i)" if "i < code_size t_start t_end" for i
  proof -
    have "unat (0x7000 + of_nat i :: u32) < 0x8000" using that sz by (simp add: unat_word_ariths unat_of_nat)
    then have "?m2 (0x7000 + of_nat i) = ?m1 (0x7000 + of_nat i)" using sz by (intro copied_outside) simp
    then show ?thesis using that sz by (simp add: copied_at)
  qed
  moreover have "?m2 (0x8000 + of_nat i) = mem (p_start + of_nat i)" if "i < code_size p_start p_end" for i
  proof -
    have "?m2 (0x8000 + of_nat i) = ?m1 (p_start + of_nat i)" using that sz by (simp add: copied_at)
    also have "\<dots> = mem (p_start + of_nat i)"
      using start_codeD(3) [OF p, of i] that sz by (intro copied_outside) simp
    finally show ?thesis .
  qed
  ultimately show ?thesis by blast
qed

lemma smpInit_run:
  assumes ok: "kmem_ok R m" "finite R" "1019 \<in> R" and room: "kmem_need R m \<le> frame_room m"
    and cur: "pframe (cr3 m) = kdir_frame m" and hw: "delivers hw" and clock: "clock_runs T"
    and mp: "find_mp_floating_pointer mem sig \<noteq> 0"
    and code: "start_code t_start t_end" "start_code p_start p_end"
  shows "\<exists>mem' m' mp' l'. smpInit hw (\<lambda>n. of_nat (T n)) sig t_start t_end p_start p_end (mem, m, mps, l) = Some (mem', m', mp', l')
    \<and> kmem_step R [0xFEE00 \<mapsto> 0xFEE00] 0 m m' \<and> lapic_works hw m'
    \<and> unat (mp_ncpus mp') = length (found_processors mem sig)
    \<and> reg_writes l' = reg_writes l @ init_writes
        @ concat (map (\<lambda>i. startup_writes (of_nat i) 0x7000) [1..<length (found_processors mem sig)])
    \<and> (\<forall>i<code_size t_start t_end. mem' (0x7000 + of_nat i) = mem (t_start + of_nat i))
    \<and> (\<forall>i<code_size p_start p_end. mem' (0x8000 + of_nat i) = mem (p_start + of_nat i))"
proof -
  define table where "table = configurationTable mem (find_mp_floating_pointer mem sig)"
  define mp' where "mp' = mpSearch mem table mps"
  have n: "unat (mp_ncpus mp') = length (found_processors mem sig)" "length (found_processors mem sig) \<le> 8"
    using fold_add_processor [of "mps\<lparr>mp_ncpus := 0, ioapicid := 0\<rparr>" mem "processors mem (table + sizeof_table) (unat (entryCount mem table))"]
    by (simp_all add: mp'_def mpSearch_def mpSearch_loop_fold found_processors_def table_def [symmetric] Let_def min.commute MAX_CPUS_def)
  obtain m' l1 where m': "lapicInit hw m l = Some (m', l1)" "kmem_step R [0xFEE00 \<mapsto> 0xFEE00] 0 m m'" "lapic_works hw m'"
      "reg_writes l1 = reg_writes l @ init_writes"
    using lapicInit_run [OF ok room cur hw] by blast
  obtain l' where l': "start_cpus hw (\<lambda>n. of_nat (T n)) m' [1..<length (found_processors mem sig)] l1 = Some l'"
      "reg_writes l' = reg_writes l1 @ concat (map (\<lambda>i. startup_writes (of_nat i) 0x7000) [1..<length (found_processors mem sig)])"
    using start_cpus_run [OF m'(3) clock, of "[1..<length (found_processors mem sig)]" l1] n(2) by auto
  have init: "mpInit mem sig mps = Some mp'"
    using mp by (simp add: mpInit_def mp'_def table_def Let_def)
  obtain mem' where mem: "prepareTrampolineCode t_start t_end p_start p_end mem = Some mem'"
      "\<forall>i<code_size t_start t_end. mem' (0x7000 + of_nat i) = mem (t_start + of_nat i)"
      "\<forall>i<code_size p_start p_end. mem' (0x8000 + of_nat i) = mem (p_start + of_nat i)"
    using prepareTrampolineCode_run [OF code] by blast
  have "smpInit hw (\<lambda>n. of_nat (T n)) sig t_start t_end p_start p_end (mem, m, mps, l) = Some (mem', m', mp', l')"
    using m'(1) l'(1) n(1) init mem(1) by (simp add: smpInit_def)
  then show ?thesis using m'(2-4) l'(2) n(1) mem(2,3) by simp
qed

end
