(* ===== verification/Boot.thy ===== *)
theory Boot
  imports System Boot_Cpus
begin

text \<open>
  What \<open>kernel_main\<close> achieves: from a machine on which the boot loader has passed a RAM disk and enough memory the
  start reaches the idle loop, in a state in which everything is in place.
\<close>

section \<open>Steps that only show something\<close>

text \<open>Steps that leave files and console in order.\<close>

definition shows_only :: "'d file_state \<Rightarrow> 'd file_state \<Rightarrow> bool" where
  "shows_only fs fs' \<longleftrightarrow> (files_ok fs \<longrightarrow> files_ok fs')"

lemma shows_only_refl [simp]: "shows_only fs fs"
  by (simp add: shows_only_def)

lemma shows_only_trans: "shows_only fs fs1 \<Longrightarrow> shows_only fs1 fs2 \<Longrightarrow> shows_only fs fs2"
  by (simp add: shows_only_def)

lemma shows_only_volume [simp]: "shows_only fs (fs\<lparr>volume := d\<rparr>)"
  by (simp add: shows_only_def)

lemma shows_only_write:
  "kernel_write str_at fmt args (console fs) = Some scr \<Longrightarrow> shows_only fs (fs\<lparr>console := scr\<rparr>)"
  by (simp add: shows_only_def kernel_write_ok)

lemma write_run:
  fixes s :: "'d sys_state"
  assumes "rendered str_at fmt args 0 = Some out"
  shows "\<exists>fs. with_screen (kernel_write str_at fmt args) s = Some (s\<lparr>files := fs\<rparr>) \<and> shows_only (files s) fs
    \<and> volume fs = volume (files s)"
proof -
  note w = kernel_write_text [OF assms, of "console (files s)"]
  show ?thesis
    using shows_only_write [OF w] w
    by (intro exI [of _ "(files s)\<lparr>console := puts_kernel out (console (files s))\<rparr>"]) (simp add: with_screen_def)
qed

section \<open>Devices, memory and file system\<close>

definition boot_ramdisk :: "multiboot_info \<Rightarrow> bytes \<Rightarrow> ramdisk" where
  "boot_ramdisk mbi m = (let md = module_at m (mb_mods_addr mbi) in
     \<lparr>rd_size = mod_end md - mod_start md, rd_phys_addr = mod_start md, using_ramdisk = True\<rparr>)"

text \<open>A screen that the console can work with, and no open file.\<close>

definition boot_screen_ok :: "multiboot_info \<Rightarrow> 'd file_state \<Rightarrow> bool" where
  "boot_screen_ok mbi fs \<longleftrightarrow> files_ok (fs\<lparr>console := (console fs)\<lparr>globalvbeinfo := Some (boot_vbe mbi)\<rparr>\<rparr>)"

lemma boot_devices_run:
  fixes k :: "'d kernel"
  assumes "0 < mb_mods_count mbi"
  shows "\<exists>fs. boot_devices mbi k = Some (k\<lparr>k_sys := (k_sys k)\<lparr>files := fs\<rparr>, k_disk := boot_ramdisk mbi (k_bytes k)\<rparr>)
    \<and> (boot_screen_ok mbi (files (k_sys k)) \<longrightarrow> files_ok fs) \<and> volume fs = volume (files (k_sys k))"
proof -
  define scr where "scr = console (files (k_sys k))"
  define d where "d = boot_ramdisk mbi (k_bytes k)"
  define fr where "fr = draw_rectangle 0 0 (framebuffer_width (boot_vbe mbi)) (framebuffer_height (boot_vbe mbi)) COLOR_BLACK (boot_vbe mbi) (fb scr)"
  define fs0 where "fs0 = (files (k_sys k))\<lparr>console := scr\<lparr>globalvbeinfo := Some (boot_vbe mbi), fb := fr\<rparr>\<rparr>"
  have "init_vbe (boot_vbe mbi) scr = Some (scr\<lparr>globalvbeinfo := Some (boot_vbe mbi), fb := fr\<rparr>)"
    by (simp add: init_vbe_def clear_screen_def set_vbe_info_def fr_def boot_vbe_def COLOR_BLACK_def)
  then have screen: "with_screen (init_vbe (boot_vbe mbi)) (k_sys k) = Some ((k_sys k)\<lparr>files := fs0\<rparr>)"
    by (simp add: with_screen_def scr_def fs0_def)
  have disk: "init_ramdisk_disk (if 0 < mb_mods_count mbi then (let md = module_at (k_bytes k) (mb_mods_addr mbi) in
      Some (mod_start md, mod_end md)) else None) (k_disk k) = Some d"
    using assms by (cases "k_disk k") (simp add: init_ramdisk_disk_def d_def boot_ramdisk_def Let_def)
  have fs0: "files_ok fs0" if "boot_screen_ok mbi (files (k_sys k))"
    using that by (simp add: boot_screen_ok_def files_ok_def console_ok_def scr_def fs0_def)
  obtain fs1 where fs1: "with_screen (kernel_write (\<lambda>_. None) disk_line (\<lambda>_. rd_phys_addr d)) ((k_sys k)\<lparr>files := fs0\<rparr>)
      = Some ((k_sys k)\<lparr>files := fs1\<rparr>)" "shows_only fs0 fs1" "volume fs1 = volume fs0"
    using write_run [OF messages(7), where s = "(k_sys k)\<lparr>files := fs0\<rparr>"] by auto
  obtain fs2 where fs2: "with_screen (kernel_write (\<lambda>_. None) disk_size_line (\<lambda>_. rd_size d)) ((k_sys k)\<lparr>files := fs1\<rparr>)
      = Some ((k_sys k)\<lparr>files := fs2\<rparr>)" "shows_only fs1 fs2" "volume fs2 = volume fs1"
    using write_run [OF messages(8), where s = "(k_sys k)\<lparr>files := fs1\<rparr>"] by auto
  have "boot_devices mbi k = Some (k\<lparr>k_sys := (k_sys k)\<lparr>files := fs2\<rparr>, k_disk := d\<rparr>)"
    unfolding boot_devices_def screen bind.bind_lunit disk fs1(1) fs2(1) ..
  moreover have "boot_screen_ok mbi (files (k_sys k)) \<longrightarrow> files_ok fs2"
    using fs0 fs1(2) fs2(2) by (simp add: shows_only_def)
  moreover have "volume fs2 = volume (files (k_sys k))" using fs1(3) fs2(3) by (simp add: fs0_def)
  ultimately show ?thesis by (intro exI [of _ fs2]) (simp add: d_def)
qed

lemma boot_memory_run:
  fixes k :: "'d kernel"
  assumes "init_memory (mb_mem_upper mbi * 1024) (physicalAllocStart (k_disk k)) (mmu (kheap (k_sys k))) = Some m"
    and "heap_init ((kheap (k_sys k))\<lparr>mmu := m\<rparr>) = Some h" and "create_ramdisk (k_disk k) (mmu h) = Some m'"
  shows "\<exists>fs. boot_memory mbi k = Some (k\<lparr>k_sys := (k_sys k)\<lparr>kheap := h\<lparr>mmu := m'\<rparr>, files := fs\<rparr>\<rparr>)
    \<and> shows_only (files (k_sys k)) fs \<and> volume fs = volume (files (k_sys k))"
proof -
  obtain fs where "with_screen (kernel_write (\<lambda>_. None) module_line (\<lambda>_. mb_mods_count mbi)) ((k_sys k)\<lparr>kheap := h\<rparr>)
      = Some ((k_sys k)\<lparr>kheap := h, files := fs\<rparr>)" "shows_only (files (k_sys k)) fs" "volume fs = volume (files (k_sys k))"
    using write_run [OF messages(3), where s = "(k_sys k)\<lparr>kheap := h\<rparr>"] by auto
  then show ?thesis using assms by (intro exI [of _ fs]) (simp add: boot_memory_def Let_def)
qed

lemma boot_mount_run:
  fixes s :: "'d sys_state"
  shows "\<exists>fs. boot_mount ev s = Some (s\<lparr>files := fs\<rparr>) \<and> shows_only (files s) fs \<and> volume fs = snd (e_mount ev (volume (files s)))"
proof -
  obtain res d where e: "e_mount ev (volume (files s)) = (res, d)" by fastforce
  define s1 where "s1 = s\<lparr>files := (files s)\<lparr>volume := d\<rparr>\<rparr>"
  obtain fs1 where fs1: "with_screen (kernel_write (\<lambda>_. None) mount_line (\<lambda>_. fresult_number res)) s1 = Some (s1\<lparr>files := fs1\<rparr>)"
      "shows_only (files s1) fs1" "volume fs1 = volume (files s1)"
    using write_run [OF messages(4)] by blast
  define s2 where "s2 = s1\<lparr>files := fs1\<rparr>"
  have "\<exists>out. rendered (\<lambda>_. None) (if res \<noteq> FR_OK then mount_failed else mount_done) (\<lambda>_. 0) 0 = Some out"
    using messages(5,6) by simp
  then obtain fs2 where fs2: "with_screen (kernel_write (\<lambda>_. None) (if res \<noteq> FR_OK then mount_failed else mount_done) (\<lambda>_. 0)) s2
      = Some (s2\<lparr>files := fs2\<rparr>)" "shows_only (files s2) fs2" "volume fs2 = volume (files s2)"
    using write_run by blast
  have "boot_mount ev s = Some (s\<lparr>files := fs2\<rparr>)"
    using e fs1(1) fs2(1) by (simp add: boot_mount_def s1_def s2_def)
  moreover have "shows_only (files s) fs2"
    using fs1(2) fs2(2) by (simp add: shows_only_def s1_def s2_def)
  ultimately show ?thesis using fs1(3) fs2(3) e by (intro exI [of _ fs2]) (simp add: s1_def s2_def)
qed

section \<open>Handlers and the root directory\<close>

definition boot_vectors :: "'d surroundings \<Rightarrow> nat \<Rightarrow> 'd sys_state handler option" where
  "boot_vectors ev = [0 \<mapsto> pit_handler, 32 \<mapsto> apicTimerHandler (apic_id (e_machine ev)) (junk_regs (e_machine ev)) (e_idle ev),
     0xFE \<mapsto> message_handler, 0xFF \<mapsto> message_handler, 1 \<mapsto> keyboard_interrupt (e_port60 ev)]"

lemma boot_handlers_run:
  fixes k :: "'d kernel"
  assumes "k_calls k = (\<lambda>_. None, 0)" and "k_vectors k = [0 \<mapsto> pit_handler]"
  shows "\<exists>fs. boot_handlers ev k = Some (k\<lparr>k_vectors := boot_vectors ev, k_calls := (syscall_table (e_machine ev), 17),
      k_sys := (k_sys k)\<lparr>keyb := init_keyboard (keyb (k_sys k)), port_log := port_log (k_sys k) @ [(0x60, 0xAE)], files := fs\<rparr>\<rparr>)
    \<and> shows_only (files (k_sys k)) fs \<and> volume fs = volume (files (k_sys k))"
proof -
  define fs where "fs = files (k_sys k)"
  obtain fs1 where 1: "kernel_write (\<lambda>_. None) registering (\<lambda>_. 0) (console fs) = Some fs1"
    using kernel_write_text [OF register_messages(1)] by blast
  obtain fs2 where 2: "kernel_write (\<lambda>_. None) registered (\<lambda>_. 16) fs1 = Some fs2"
    using kernel_write_text [OF register_messages(2)] by blast
  have reg: "register_syscalls (e_machine ev) (k_calls k) (console fs) = Some ((syscall_table (e_machine ev), 17), fs2)"
    by (simp add: register_syscalls_def 1 2 register_all_table assms(1))
  have "shows_only fs (fs\<lparr>console := fs1\<rparr>)" using 1 by (rule shows_only_write)
  moreover have "shows_only (fs\<lparr>console := fs1\<rparr>) (fs\<lparr>console := fs2\<rparr>)"
    using shows_only_write [of _ _ _ "fs\<lparr>console := fs1\<rparr>" fs2] 2 by simp
  ultimately have ok: "shows_only fs (fs\<lparr>console := fs2\<rparr>)" by (rule shows_only_trans)
  have "boot_handlers ev k = Some (k\<lparr>k_vectors := boot_vectors ev, k_calls := (syscall_table (e_machine ev), 17),
      k_sys := (k_sys k)\<lparr>keyb := init_keyboard (keyb (k_sys k)), port_log := port_log (k_sys k) @ [(0x60, 0xAE)],
        files := fs\<lparr>console := fs2\<rparr>\<rparr>\<rparr>)"
    using reg assms(2)
    by (simp add: boot_handlers_def setup_vectors_def vector_add_handler_def enter_keyboard_def outb_def boot_vectors_def fs_def Let_def)
  then show ?thesis using ok by (auto simp: fs_def)
qed

text \<open>The entries of a directory come to an end.\<close>

inductive dir_ends :: "'d machine \<Rightarrow> 'd \<Rightarrow> bool" for mc where
  last: "f_readdir mc d = (res, fname, d') \<Longrightarrow> res \<noteq> FR_OK \<or> fname = [] \<Longrightarrow> dir_ends mc d"
| entry: "f_readdir mc d = (FR_OK, fname, d') \<Longrightarrow> fname \<noteq> [] \<Longrightarrow> dir_ends mc d' \<Longrightarrow> dir_ends mc d"

lemma found_message: "rendered (\<lambda>_. Some fname) found_line args 0 = Some (map of_char ''Gefunden: '' @ fname @ [10])"
  by (simp add: found_line_def conversion_def)

lemma readdir_loop_run:
  assumes "dir_ends mc d" and "volume fs = d"
  shows "\<exists>v fs'. readdir_loop mc r fs = Some (v, fs') \<and> shows_only fs fs'"
  using assms
proof (induction arbitrary: fs r rule: dir_ends.induct)
  case (last d res fname d')
  then show ?case by (subst readdir_loop.simps) (auto simp: Let_def)
next
  case (entry d fname d')
  define fs1 where "fs1 = fs\<lparr>volume := d'\<rparr>"
  obtain scr where scr: "kernel_write (\<lambda>_. Some fname) found_line (\<lambda>_. 0) (console fs1) = Some scr"
    using kernel_write_text [OF found_message] by blast
  obtain v fs' where v: "readdir_loop mc 1 (fs1\<lparr>console := scr\<rparr>) = Some (v, fs')" "shows_only (fs1\<lparr>console := scr\<rparr>) fs'"
    using entry.IH [of "fs1\<lparr>console := scr\<rparr>" 1] by (auto simp: fs1_def)
  have "shows_only fs fs1" by (simp add: fs1_def)
  then have "shows_only fs fs'"
    using shows_only_write [OF scr] v(2) by (meson shows_only_trans)
  moreover have "readdir_loop mc r fs = Some (v, fs')"
    using entry.hyps entry.prems scr v(1) by (subst readdir_loop.simps) (simp add: fs1_def Let_def)
  ultimately show ?case by blast
qed

lemma boot_listing_run:
  fixes s :: "'d sys_state"
  assumes "case f_opendir (e_machine ev) root_path (volume (files s)) of (res, d) \<Rightarrow> res = FR_OK \<longrightarrow> dir_ends (e_machine ev) d"
  shows "\<exists>fs. boot_listing ev s = Some (s\<lparr>files := fs\<rparr>) \<and> shows_only (files s) fs"
proof -
  obtain res d where e: "f_opendir (e_machine ev) root_path (volume (files s)) = (res, d)" by fastforce
  define fs where "fs = (files s)\<lparr>volume := d\<rparr>"
  have fs: "shows_only (files s) fs" by (simp add: fs_def)
  show ?thesis
  proof (cases "res = FR_OK")
    case True
    then have "dir_ends (e_machine ev) d" using assms e by simp
    then obtain v fs' where rd: "readdir_loop (e_machine ev) 0 fs = Some (v, fs')" and ok: "shows_only fs fs'"
      using readdir_loop_run [of "e_machine ev" d fs 0] by (auto simp: fs_def)
    have "boot_listing ev s = Some (s\<lparr>files := fs'\<lparr>volume := f_closedir (e_machine ev) (volume fs')\<rparr>\<rparr>)"
      unfolding boot_listing_def Let_def e prod.case fs_def [symmetric] rd True by simp
    moreover have "shows_only (files s) (fs'\<lparr>volume := f_closedir (e_machine ev) (volume fs')\<rparr>)"
      by (rule shows_only_trans [OF shows_only_trans [OF fs ok] shows_only_volume])
    ultimately show ?thesis by blast
  next
    case False
    have "boot_listing ev s = Some (s\<lparr>files := fs\<rparr>)"
      unfolding boot_listing_def Let_def e prod.case fs_def [symmetric] using False by simp
    then show ?thesis using fs by blast
  qed
qed

section \<open>The first process\<close>

text \<open>The heap after its first block has been taken: three free blocks, and as many new ones as there are frames.\<close>

lemma boot_heap_ready:
  fixes h :: heap_state
  assumes h: "total_blocks h = 4" "heap_size h = 16384" "\<not> block_free h 0" "\<forall>i\<in>{1, 2, 3}. block_free h i" "table_mapped h"
    and m: "kmem_ok kernel_pdes (mmu h)" "pframe (cr3 (mmu h)) = kdir_frame (mmu h)"
    and n: "kmem_need kernel_pdes (mmu h) + n \<le> frame_room (mmu h)" "n \<le> 4092"
  shows "heap_ready h (n + 3)"
proof -
  have b: "blocks h = 4" by (simp add: blocks_def h(1))
  have need: "kmem_need heap_pdes (mmu h) \<le> kmem_need kernel_pdes (mmu h)" "kmem_ok heap_pdes (mmu h)"
    using kmem_mono [OF kernel_pdes(4,1)] m(1) by blast+
  then have "heap_grows h 0" using h(1,2) m(2) n(1) b by (simp add: heap_grows_def sees_kernel_def HEAP_BLOCK_SIZE_def)
  then have extra: "n \<le> extra_blocks h" using need n b by (simp add: extra_blocks_def)
  have ends: "4 + extra_blocks h \<le> 4096" using extra_blocks_bound [of h] b by simp
  have "block_free h i" if "1 \<le> i" "i < 4" for i using h(4) that by (auto simp: eval_nat_numeral less_Suc_eq)
  then have sub: "block_address ` {1..<n + 4} \<subseteq> free_addrs h" using extra by (auto simp: free_addrs_def b)
  have "inj_on block_address {1..<n + 4}"
    using extra ends by (intro inj_onI) (simp add: block_address_inj)
  then have "card (block_address ` {1..<n + 4}) = n + 3" by (simp add: card_image)
  moreover have "finite (free_addrs h)" by (simp add: free_addrs_def)
  ultimately have "n + 3 \<le> card (free_addrs h)" using card_mono [OF _ sub] by simp
  then show ?thesis using h(3,5) by (simp add: heap_ready_def b)
qed

lemma least_loop_equal: "\<forall>i\<in>set is. i < MAX_CPUS \<Longrightarrow> least_loop (\<lambda>_. w) is w idx = Some idx"
  by (induction "is") auto

lemma enqueue_list_single:
  fixes s :: "'a sched_state_scheme"
  assumes empty: "cpuRunqueues s = (\<lambda>_. empty_runqueue)" "threadsPerCPU s = (\<lambda>_. 0)" and n: "unat (ncpus s) \<le> MAX_CPUS"
    and t: "t \<noteq> NULL" "threads s t = Some (kernel_thread tid p r stack)"
  shows "\<exists>s'. enqueue_list t s = Some s' \<and> pending s' 0 0 = [t] \<and> (\<forall>c q. (c, q) \<noteq> (0, 0) \<longrightarrow> pending s' c q = [])
    \<and> (\<forall>c. queues_ok s' c) \<and> s\<lparr>cpuRunqueues := cpuRunqueues s', threadsPerCPU := threadsPerCPU s'\<rparr> = s'"
proof -
  have none: "pending s c q = []" for c q by (simp add: pending_def empty empty_runqueue_def)
  have ok: "queues_ok s c" for c by (simp add: queues_ok_def none accepted_def empty empty_runqueue_def)
  have cpu: "leastLoadedCPU s = Some 0"
    using n by (simp add: leastLoadedCPU_def empty(2) least_loop_equal)
  have q: "queue_of (dynamicPriority (kernel_thread tid p r stack)) = 0"
    by (simp add: kernel_thread_def queue_of_def MAX_PRIORITY_def)
  have "accepted s 0 0 \<noteq> MAX_RUNQUEUE_SIZE" by (simp add: accepted_def empty empty_runqueue_def MAX_RUNQUEUE_SIZE_def)
  with enqueueThread_run [OF ok _ t, of 0] q obtain s' where s': "enqueueThread t 0 s = Some s'" "queues_ok s' 0"
      "pending s' 0 = (pending s 0)(0 := pending s 0 0 @ [t])"
      "\<forall>c. c \<noteq> 0 \<longrightarrow> cpuRunqueues s' c = cpuRunqueues s c \<and> threadsPerCPU s' c = threadsPerCPU s c"
      "s\<lparr>cpuRunqueues := cpuRunqueues s', threadsPerCPU := threadsPerCPU s'\<rparr> = s'"
    by (auto simp: MAX_CPUS_def)
  have th: "threads s' = threads s" using s'(5) by (cases s; cases s') simp
  have other: "pending s' c = pending s c \<and> queues_ok s' c" if "c \<noteq> 0" for c
    using s'(4) that ok [of c] by (simp add: pending_def queues_ok_def accepted_def fun_eq_iff)
  have stop: "enqueue_list NULL s' = Some s'" by (simp add: enqueue_list.simps)
  have "enqueue_list t s = Some s'"
    using t cpu s'(1) stop th
    by (subst enqueue_list.simps) (simp add: rd_thread_def, simp add: kernel_thread_def)
  then show ?thesis using s'(2,3,5) other none by (intro exI [of _ s']) (metis fun_upd_apply append_Nil)
qed

lemma fill_single:
  fixes s :: "'a sched_state_scheme"
  assumes tab: "table (ptab s) [(p, k)]" and own: "procs (ptab s) p = Some own" "head_thread own = t"
    and run: "enqueue_list t s = Some s'" "s\<lparr>cpuRunqueues := cpuRunqueues s', threadsPerCPU := threadsPerCPU s'\<rparr> = s'"
  shows "fillRunqueuesFromBST s = Some s'"
proof -
  obtain tr where tr: "rep (ptab s) tr" "nodes tr = [(p, k)]" using tab by (auto simp: table_def)
  have pt: "ptab s' = ptab s" using run(2) by (cases s; cases s') simp
  obtain c where c: "tr = Br c Lf p k Lf"
  proof (cases tr)
    case (Br c l a k' r)
    with tr(2) have "nodes l = [] \<and> nodes r = [] \<and> a = p \<and> k' = k" by (cases "nodes l") auto
    then show ?thesis using that Br by (cases l; cases r) auto
  qed (use tr(2) in simp)
  have rd: "rd (ptab s) p = Some own" using tr(1) own(1) by (auto simp: c rep_def addrs_ok_def rd_def)
  have l: "left own = NIL (ptab s)" "right own = NIL (ptab s)" "root (ptab s) = p" "p \<noteq> NIL (ptab s)"
    using tr(1) own(1) unfolding c by (auto simp: rep_def addrs_ok_def rd_def)
  have nil: "inOrderTraversal ptab enqueueRunnableThread st (NIL (ptab st)) = Some st" for st :: "'a sched_state_scheme"
    by (simp add: inOrderTraversal.simps)
  have "enqueueRunnableThread s p = Some s'" using rd own(2) run(1) by (simp add: enqueueRunnableThread_def)
  then show ?thesis
    unfolding fillRunqueuesFromBST_def l(3)
    by (subst inOrderTraversal.simps) (simp add: l rd nil [of s] pt nil [of s', unfolded pt])
qed

lemma first_process:
  fixes s :: "'a sched_state_scheme"
  assumes ready: "kernel_ready s [] (n + 4)" and n: "unat (ncpus s) \<le> MAX_CPUS"
    and empty: "cpuRunqueues s = (\<lambda>_. empty_runqueue)" "threadsPerCPU s = (\<lambda>_. 0)"
  shows "\<exists>p t r stack s1 s'. initIdle apic junk e s = Some (KProcessID (ptab s) + 1, s1) \<and> fillRunqueuesFromBST s1 = Some s'
    \<and> kernel_ready s' [(p, KProcessID (ptab s) + 1)] n \<and> NIL (ptab s') = NIL (ptab s) \<and> distinct [p, t, r, stack]
    \<and> map_option head_thread (procs (ptab s') p) = Some t
    \<and> threads s' t = Some (kernel_thread (threadID (ptab s) + 1) p r stack)
    \<and> regstore s' r = Some (start_regs 0x10 0x08 e (stack + 4092) (kernel_directory (mmu (kheap s))) junk)
    \<and> pending s' 0 0 = [t] \<and> (\<forall>c q. (c, q) \<noteq> (0, 0) \<longrightarrow> pending s' c q = []) \<and> (\<forall>c. queues_ok s' c)
    \<and> kstate.more (s'\<lparr>cpuRunqueues := cpuRunqueues s, threadsPerCPU := threadsPerCPU s\<rparr>) = kstate.more s"
proof -
  let ?k = "KProcessID (ptab s) + 1"
  obtain p t r stack s1 own where s1: "createKernelProcess apic junk e s = Some (p, s1)"
    "kernel_ready s1 (add_process p ?k []) n" "NIL (ptab s1) = NIL (ptab s)" "procs (ptab s1) p = Some own" "head_thread own = t"
    "pageDirectory own = kernel_directory (mmu (kheap s))" "pid own = ?k"
    "threads s1 = (threads s)(t \<mapsto> kernel_thread (threadID (ptab s) + 1) p r stack)"
    "regstore s1 = (regstore s)(r \<mapsto> start_regs 0x10 0x08 e (stack + 4092) (pageDirectory own) junk)"
    "{p, t, r, stack} \<subseteq> free_addrs (kheap s)" "distinct [p, t, r, stack]" "kstate.more s1 = kstate.more s"
    using createKernelProcess_run [OF ready, of apic junk e]
    by (elim exE conjE) (rule that)
  have "0 \<notin> free_addrs (kheap s)"
    using ready null_not_free [of "kheap s" "n + 4"] by (simp add: kernel_ready_def)
  then have null: "p \<noteq> NULL" "t \<noteq> NULL" using s1(10) by (auto simp: NULL_def)
  note more = sched_more [OF s1(12)]
  have q: "cpuRunqueues s1 = (\<lambda>_. empty_runqueue)" "threadsPerCPU s1 = (\<lambda>_. 0)" "unat (ncpus s1) \<le> MAX_CPUS"
      "threads s1 t = Some (kernel_thread (threadID (ptab s) + 1) p r stack)"
    using more empty n s1(8) by simp_all
  from enqueue_list_single [OF q(1-3) null(2) q(4)] obtain s' where s': "enqueue_list t s1 = Some s'" "pending s' 0 0 = [t]"
      "\<forall>c q. (c, q) \<noteq> (0, 0) \<longrightarrow> pending s' c q = []" "\<forall>c. queues_ok s' c"
      "s1\<lparr>cpuRunqueues := cpuRunqueues s', threadsPerCPU := threadsPerCPU s'\<rparr> = s'"
    by blast
  have same: "ptab s' = ptab s1" "kheap s' = kheap s1" "threads s' = threads s1" "regstore s' = regstore s1"
    using s'(5) by (cases s1; cases s'; simp)+
  have one: "add_process p ?k [] = [(p, ?k)]" by (simp add: add_process_def)
  have "table (ptab s1) [(p, ?k)]" using s1(2) one by (simp add: kernel_ready_def)
  from fill_single [OF this s1(4,5) s'(1,5)] have fill: "fillRunqueuesFromBST s1 = Some s'" .
  have idle: "initIdle apic junk e s = Some (?k, s1)"
    using s1(1,4,7) null(1) by (simp add: initIdle_def rd_def)
  have ready': "kernel_ready s' [(p, ?k)] n" using s1(2) one by (simp add: kernel_ready_def same)
  have rest: "kstate.more (s'\<lparr>cpuRunqueues := cpuRunqueues s, threadsPerCPU := threadsPerCPU s\<rparr>) = kstate.more s"
    using s'(5) s1(12) by (cases s; cases s1; cases s') simp
  show ?thesis
    by (rule exI [of _ p], rule exI [of _ t], rule exI [of _ r], rule exI [of _ stack], rule exI [of _ s1], rule exI [of _ s'])
      (use idle fill ready' rest s1 s' same in simp)
qed

section \<open>Processes\<close>

text \<open>A process table that holds one process, whose thread waits alone in the first queue of the first CPU to run
  \<open>idle\<close> in the kernel's page directory, and room for \<open>n\<close> more objects. The sentinel of the table lies where the
  heap keeps its block table.\<close>

definition only_idle :: "'d surroundings \<Rightarrow> 'd sys_state \<Rightarrow> nat \<Rightarrow> 'd sys_state \<Rightarrow> bool" where
  "only_idle ev s n s' \<longleftrightarrow> (\<exists>p t r stack. kernel_ready s' [(p, KProcessID (ptab s) + 1)] n
     \<and> NIL (ptab s') = HEAP_START_ADDRESS \<and> distinct [p, t, r, stack]
     \<and> map_option head_thread (procs (ptab s') p) = Some t
     \<and> threads s' t = Some (kernel_thread (threadID (ptab s) + 1) p r stack)
     \<and> regstore s' r = Some (start_regs 0x10 0x08 (e_idle ev) (stack + 4092) (kernel_directory (mmu (kheap s))) (junk_regs (e_machine ev)))
     \<and> pending s' 0 0 = [t] \<and> (\<forall>c q. (c, q) \<noteq> (0, 0) \<longrightarrow> pending s' c q = []) \<and> (\<forall>c. queues_ok s' c))"

text \<open>What the firmware and the linker provide for the other CPUs.\<close>

definition cpus_can_start :: "'d surroundings \<Rightarrow> bytes \<Rightarrow> bool" where
  "cpus_can_start ev mem \<longleftrightarrow> delivers (e_hw ev) \<and> (\<exists>T. clock_runs T \<and> e_ticks ev = (\<lambda>i. of_nat (T i)))
     \<and> find_mp_floating_pointer mem (e_sig ev) \<noteq> 0
     \<and> start_code (fst (e_trampoline ev)) (snd (e_trampoline ev)) \<and> start_code (fst (e_pMode ev)) (snd (e_pMode ev))"

definition cpus_started :: "'d surroundings \<Rightarrow> 'd kernel \<Rightarrow> 'd kernel \<Rightarrow> bool" where
  "cpus_started ev k k' \<longleftrightarrow> (let n = length (found_processors (k_bytes k) (e_sig ev)) in
     unat (ncpus (k_sys k')) = n
     \<and> reg_writes (lapic (k_sys k')) = reg_writes (lapic (k_sys k)) @ init_writes
         @ concat (map (\<lambda>i. startup_writes (of_nat i) 0x7000) [1..<n])
     \<and> (\<forall>i<code_size (fst (e_trampoline ev)) (snd (e_trampoline ev)).
          k_bytes k' (0x7000 + of_nat i) = k_bytes k (fst (e_trampoline ev) + of_nat i))
     \<and> (\<forall>i<code_size (fst (e_pMode ev)) (snd (e_pMode ev)).
          k_bytes k' (0x8000 + of_nat i) = k_bytes k (fst (e_pMode ev) + of_nat i)))"

lemma found_processors_bound: "length (found_processors m sig) \<le> MAX_CPUS"
  by (simp add: found_processors_def Let_def)

text \<open>\<open>smpInit\<close> in the state of the kernel.\<close>

lemma boot_cpus_run:
  fixes k :: "'d kernel"
  defines "h \<equiv> kheap (k_sys k)"
  assumes "cpus_can_start ev (k_bytes k)" and "kmem_ok kernel_pdes (mmu h)" and "kmem_need kernel_pdes (mmu h) \<le> frame_room (mmu h)"
    and "pframe (cr3 (mmu h)) = kdir_frame (mmu h)"
  shows "\<exists>bytes m mp l nc. boot_cpus ev k = Some (k\<lparr>k_bytes := bytes, k_mp := mp, k_sys := (k_sys k)
      \<lparr>kheap := h\<lparr>mmu := m\<rparr>, lapic := l, ncpus := nc\<rparr>\<rparr>)
    \<and> kmem_step kernel_pdes [0xFEE00 \<mapsto> 0xFEE00] 0 (mmu h) m
    \<and> cpus_started ev k (k\<lparr>k_bytes := bytes, k_mp := mp, k_sys := (k_sys k)\<lparr>kheap := h\<lparr>mmu := m\<rparr>, lapic := l, ncpus := nc\<rparr>\<rparr>)"
proof -
  obtain T where T: "clock_runs T" "e_ticks ev = (\<lambda>i. of_nat (T i))" and c: "delivers (e_hw ev)"
      "find_mp_floating_pointer (k_bytes k) (e_sig ev) \<noteq> 0"
      "start_code (fst (e_trampoline ev)) (snd (e_trampoline ev))" "start_code (fst (e_pMode ev)) (snd (e_pMode ev))"
    using assms(2) by (auto simp: cpus_can_start_def)
  have "1019 \<in> kernel_pdes" by (simp add: kernel_pdes_def)
  from smpInit_run [OF assms(3) kernel_pdes(1) this assms(4,5) c(1) T(1) c(2-4), of "k_mp k" "lapic (k_sys k)"]
  obtain mem' m' mp' l' where "smpInit (e_hw ev) (e_ticks ev) (e_sig ev) (fst (e_trampoline ev)) (snd (e_trampoline ev))
        (fst (e_pMode ev)) (snd (e_pMode ev)) (k_bytes k, mmu h, k_mp k, lapic (k_sys k)) = Some (mem', m', mp', l')"
      "kmem_step kernel_pdes [0xFEE00 \<mapsto> 0xFEE00] 0 (mmu h) m'"
      "unat (mp_ncpus mp') = length (found_processors (k_bytes k) (e_sig ev))"
      "reg_writes l' = reg_writes (lapic (k_sys k)) @ init_writes
        @ concat (map (\<lambda>i. startup_writes (of_nat i) 0x7000) [1..<length (found_processors (k_bytes k) (e_sig ev))])"
      "\<forall>i<code_size (fst (e_trampoline ev)) (snd (e_trampoline ev)). mem' (0x7000 + of_nat i) = k_bytes k (fst (e_trampoline ev) + of_nat i)"
      "\<forall>i<code_size (fst (e_pMode ev)) (snd (e_pMode ev)). mem' (0x8000 + of_nat i) = k_bytes k (fst (e_pMode ev) + of_nat i)"
    unfolding T(2) by blast
  then show ?thesis
    by (intro exI [of _ mem'] exI [of _ m'] exI [of _ mp'] exI [of _ l'] exI [of _ "mp_ncpus mp'"])
      (simp add: boot_cpus_def cpus_started_def Let_def h_def)
qed

lemma sys_ok_cong:
  fixes s s' :: "'d sys_state"
  assumes "irq_state.more s' = irq_state.more s"
  shows "sys_ok s' = sys_ok s" and "files s' = files s"
  using assms by (cases s; cases s'; simp add: sys_ok_def user_heap_ok_def)+

lemma first_block:
  fixes h :: heap_state
  assumes h: "total_blocks h = 4" "heap_size h = 16384" "\<forall>i<4. heap_mem h i = 0" "table_mapped h"
    and st: "kmem_step kernel_pdes M 0 (mmu h) m" and cur: "pframe (cr3 (mmu h)) = kdir_frame (mmu h)"
    and n: "kmem_need kernel_pdes (mmu h) + Suc n \<le> frame_room (mmu h)" "n < 4092"
  shows "kmalloc 40 h = Some (HEAP_START_ADDRESS, with_run 0 (Suc 0) h)"
    and "heap_ready ((with_run 0 (Suc 0) h)\<lparr>mmu := m\<rparr>) (n + 4)"
    and "HEAP_START_ADDRESS \<notin> free_addrs ((with_run 0 (Suc 0) h)\<lparr>mmu := m\<rparr>)"
proof -
  let ?h = "(with_run 0 (Suc 0) h)\<lparr>mmu := m\<rparr>"
  have b: "blocks h = 4" "blocks ?h = 4" by (simp_all add: blocks_def h(1) with_run_def)
  have "\<forall>i<4. block_free h i" using h(3) by (simp add: block_free_def HEAP_BLOCK_TABLE_ENTRY_FREE_def)
  then show "kmalloc 40 h = Some (HEAP_START_ADDRESS, with_run 0 (Suc 0) h)"
    using first_kmalloc [OF h(4) b(1), of 40] by simp
  have f: "\<not> block_free ?h 0" "\<forall>i\<in>{1, 2, 3}. block_free ?h i"
    using h(3) by (simp_all add: block_free_def with_run_def block_entry_def entry_consts)
  have "heap_mapped ?h i" if "i < 4" for i
    using heap_mapped_step [of kernel_pdes M 0 h ?h i] st cur h(4) that b(1) by (simp add: table_mapped_def sees_kernel_def)
  then have tab: "table_mapped ?h" by (simp add: table_mapped_def b(2))
  have m: "kmem_ok kernel_pdes (mmu ?h)" "pframe (cr3 (mmu ?h)) = kdir_frame (mmu ?h)"
      "kmem_need kernel_pdes (mmu ?h) + Suc n \<le> frame_room (mmu ?h)"
    using kmem_stepD(1,5,8,10) [OF st] kmem_step_cr3 [OF st] cur n(1) by simp_all
  have "heap_ready ?h (Suc n + 3)"
    by (rule boot_heap_ready) (use h(1,2) f tab m n(2) in \<open>simp_all add: with_run_def\<close>)
  then show r: "heap_ready ?h (n + 4)" by (simp add: eval_nat_numeral)
  show "HEAP_START_ADDRESS \<notin> free_addrs ?h"
  proof
    assume "HEAP_START_ADDRESS \<in> free_addrs ?h"
    then obtain i where i: "HEAP_START_ADDRESS = block_address i" "i < blocks ?h + extra_blocks ?h" "i < blocks ?h \<longrightarrow> block_free ?h i"
      by (auto simp: free_addrs_def)
    have "i < 4096" using i(2) extra_blocks_bound [of ?h] b(2) by simp
    moreover have "HEAP_START_ADDRESS = block_address 0" by (simp add: block_address_def)
    ultimately have "i = 0" using i(1) block_address_inj [of 0 i] by simp
    then show False using i(3) f(1) b(2) by simp
  qed
qed

lemma boot_processes_run:
  fixes k :: "'d kernel" and n :: nat
  defines "s \<equiv> k_sys k"
  assumes h: "total_blocks (kheap s) = 4" "heap_size (kheap s) = 16384" "\<forall>i<4. heap_mem (kheap s) i = 0" "table_mapped (kheap s)"
    and m: "kmem_ok kernel_pdes (mmu (kheap s))" "pframe (cr3 (mmu (kheap s))) = kdir_frame (mmu (kheap s))"
      "kmem_need kernel_pdes (mmu (kheap s)) + Suc n \<le> frame_room (mmu (kheap s))" "n < 4092"
    and cpu: "cpus_can_start ev (k_bytes k)"
    and empty: "cpuRunqueues s = (\<lambda>_. empty_runqueue)" "threadsPerCPU s = (\<lambda>_. 0)"
  shows "\<exists>k'. boot_processes ev k = Some k' \<and> only_idle ev s n (k_sys k') \<and> cpus_started ev k k'
    \<and> k_vectors k' = k_vectors k \<and> k_calls k' = k_calls k \<and> k_disk k' = k_disk k \<and> files (k_sys k') = files s
    \<and> sys_ok (k_sys k') = sys_ok s"
proof -
  define h1 where "h1 = with_run 0 (Suc 0) (kheap s)"
  define pt where "pt = initProc HEAP_START_ADDRESS (e_nil ev) (ptab s)"
  define s1 where "s1 = s\<lparr>kheap := h1, ptab := pt\<rparr>"
  have mm: "mmu h1 = mmu (kheap s)" by (simp add: h1_def with_run_def)
  have cpu': "cpus_can_start ev (k_bytes (k\<lparr>k_sys := s1\<rparr>))" using cpu by simp
  have need: "kmem_need kernel_pdes (mmu (kheap s)) \<le> frame_room (mmu (kheap s))" using m(3) by simp
  have ks1: "kheap (k_sys (k\<lparr>k_sys := s1\<rparr>)) = h1" by (simp add: s1_def)
  from boot_cpus_run [of ev "k\<lparr>k_sys := s1\<rparr>", unfolded ks1 mm, OF cpu' m(1) need m(2)] obtain bytes m1 mp l nc where
    c: "boot_cpus ev (k\<lparr>k_sys := s1\<rparr>) = Some (k\<lparr>k_bytes := bytes, k_mp := mp, k_sys := s1\<lparr>kheap := h1\<lparr>mmu := m1\<rparr>, lapic := l, ncpus := nc\<rparr>\<rparr>)"
      "kmem_step kernel_pdes [0xFEE00 \<mapsto> 0xFEE00] 0 (mmu (kheap s)) m1"
      "cpus_started ev (k\<lparr>k_sys := s1\<rparr>) (k\<lparr>k_bytes := bytes, k_mp := mp, k_sys := s1\<lparr>kheap := h1\<lparr>mmu := m1\<rparr>, lapic := l, ncpus := nc\<rparr>\<rparr>)"
    by auto
  note fb = first_block [OF h c(2) m(2,3,4), folded h1_def]
  have init: "boot_initProc ev s = Some s1"
    using fb(1) by (simp add: boot_initProc_def kernel_kmalloc_def s1_def pt_def NULL_def HEAP_START_ADDRESS_def)
  define s2 where "s2 = s1\<lparr>kheap := h1\<lparr>mmu := m1\<rparr>, lapic := l, ncpus := nc\<rparr>"
  have tab: "table pt []" "locked (rbTreeLock pt) = 0" "NIL pt = HEAP_START_ADDRESS" "KProcessID pt = KProcessID (ptab s)"
      "threadID pt = threadID (ptab s)"
    using initProc_empty [of HEAP_START_ADDRESS] by (simp_all add: pt_def initProc_def nodePreparation_def initLock_def NULL_def HEAP_START_ADDRESS_def)
  have ready: "kernel_ready s2 [] (n + 4)"
    using fb(2,3) tab by (simp add: kernel_ready_def s2_def s1_def)
  have kd: "kernel_directory m1 = kernel_directory (mmu (kheap s))" using kmem_stepD(2) [OF c(2)] by (simp add: same_setup_def)
  have nc: "unat (ncpus s2) \<le> MAX_CPUS"
    using c(3) found_processors_bound by (simp add: cpus_started_def Let_def s2_def)
  have e2: "cpuRunqueues s2 = (\<lambda>_. empty_runqueue)" "threadsPerCPU s2 = (\<lambda>_. 0)" using empty by (simp_all add: s2_def s1_def)
  from first_process [OF ready nc e2, of "apic_id (e_machine ev)" "junk_regs (e_machine ev)" "e_idle ev"]
  obtain p t r stack s3 s4 where f: "initIdle (apic_id (e_machine ev)) (junk_regs (e_machine ev)) (e_idle ev) s2 = Some (KProcessID (ptab s2) + 1, s3)"
    "fillRunqueuesFromBST s3 = Some s4" "kernel_ready s4 [(p, KProcessID (ptab s2) + 1)] n" "NIL (ptab s4) = NIL (ptab s2)"
    "distinct [p, t, r, stack]" "map_option head_thread (procs (ptab s4) p) = Some t"
    "threads s4 t = Some (kernel_thread (threadID (ptab s2) + 1) p r stack)"
    "regstore s4 r = Some (start_regs 0x10 0x08 (e_idle ev) (stack + 4092) (kernel_directory (mmu (kheap s2))) (junk_regs (e_machine ev)))"
    "pending s4 0 0 = [t]" "\<forall>c q. (c, q) \<noteq> (0, 0) \<longrightarrow> pending s4 c q = []" "\<forall>c. queues_ok s4 c"
    "kstate.more (s4\<lparr>cpuRunqueues := cpuRunqueues s2, threadsPerCPU := threadsPerCPU s2\<rparr>) = kstate.more s2"
    by (elim exE conjE) (rule that)
  have s2': "ptab s2 = pt" "mmu (kheap s2) = m1" by (simp_all add: s2_def s1_def)
  have idle: "only_idle ev s n s4"
    unfolding only_idle_def
    by (rule exI [of _ p], rule exI [of _ t], rule exI [of _ r], rule exI [of _ stack])
      (use f(3-11) in \<open>simp add: s2' tab(3-5) kd\<close>)
  have rest: "irq_state.more s4 = irq_state.more s2" "lapic s4 = lapic s2" "ncpus s4 = ncpus s2"
    using f(12) by (cases s2; cases s4; simp)+
  define k' where "k' = k\<lparr>k_bytes := bytes, k_mp := mp, k_sys := s4\<rparr>"
  have "boot_processes ev k = Some k'"
    using f(1,2) init c(1) by (simp add: boot_processes_def s_def [symmetric] s2_def [symmetric] Let_def k'_def)
  moreover have "cpus_started ev k k'"
    using c(3) rest(2,3) by (simp add: cpus_started_def Let_def k'_def s2_def s1_def s_def)
  moreover have "irq_state.more s4 = irq_state.more s" using rest(1) by (simp add: s2_def s1_def)
  then have "sys_ok s4 = sys_ok s" "files s4 = files s" by (rule sys_ok_cong)+
  ultimately show ?thesis using idle by (intro exI [of _ k']) (simp add: k'_def)
qed

section \<open>The whole start\<close>

text \<open>
  The machine in which the boot loader calls \<open>kernel_main\<close>: a first module for the RAM disk, the page directory of
  \<open>boot.s\<close>, memory for 8192 pages of newlib heap, four blocks of kernel heap, 77 page tables and \<open>n\<close> more objects,
  static variables that are zero, tables of the other CPUs, and a root directory that comes to an end.
\<close>

definition can_boot :: "'d surroundings \<Rightarrow> multiboot_info \<Rightarrow> nat \<Rightarrow> 'd kernel \<Rightarrow> bool" where
  "can_boot ev mbi n k \<longleftrightarrow> (let s = k_sys k; d = boot_ramdisk mbi (k_bytes k) in
     0 < mb_mods_count mbi \<and> unat (rd_size d) \<le> 0x10000000
     \<and> unat (mb_mem_upper mbi * 1024) \<le> 0x20000000
     \<and> unat (rd_phys_addr d) + unat (rd_size d) + 4096 * (n + 0x206B) \<le> unat (mb_mem_upper mbi * 1024)
     \<and> n < 4092 \<and> boot_ok (mmu (kheap s)) (physicalAllocStart d)
     \<and> k_vectors k = Map.empty \<and> k_calls k = (Map.empty, 0)
     \<and> cpuRunqueues s = (\<lambda>_. empty_runqueue) \<and> threadsPerCPU s = (\<lambda>_. 0)
     \<and> cpus_can_start ev (k_bytes k)
     \<and> (case f_opendir (e_machine ev) root_path (snd (e_mount ev (volume (files s)))) of
          (res, v) \<Rightarrow> res = FR_OK \<longrightarrow> dir_ends (e_machine ev) v))"

text \<open>The memory that is left after the three steps of \<open>boot_steps\<close>.\<close>

lemma boot_memory_left:
  fixes h :: heap_state
  assumes boot: "boot_ok (mmu h) (physicalAllocStart d)" and d: "using_ramdisk d" "unat (rd_size d) \<le> 0x10000000"
    and hi: "unat memHigh \<le> 0x20000000" and room: "unat (rd_phys_addr d) + unat (rd_size d) + 4096 * (n + 0x206B) \<le> unat memHigh"
  shows "\<exists>m h' m'. init_memory memHigh (physicalAllocStart d) (mmu h) = Some m \<and> heap_init (h\<lparr>mmu := m\<rparr>) = Some h'
    \<and> create_ramdisk d (mmu h') = Some m' \<and> total_blocks h' = 4 \<and> heap_size h' = 16384 \<and> (\<forall>i<4. heap_mem h' i = 0)
    \<and> table_mapped (h'\<lparr>mmu := m'\<rparr>) \<and> kmem_ok kernel_pdes m' \<and> pframe (cr3 m') = kdir_frame m'
    \<and> kmem_need kernel_pdes m' + Suc n \<le> frame_room m' \<and> kernel_directory m' = kernel_directory (mmu h)"
proof -
  have size: "unat (rd_phys_addr d) + unat (rd_size d) + 4095 < 4294967296" "unat (rd_phys_addr d) + unat (rd_size d) < 0x20000000"
    using hi room by simp_all
  have start: "unat (physicalAllocStart d) + 4096 * (8274 + n + 24) \<le> unat memHigh"
    using room div_times_less_eq_dividend [of "unat (rd_phys_addr d) + unat (rd_size d) + 4095" 4096]
    unfolding unat_physicalAllocStart [OF d(1) size(1)] by simp
  then have "unat (physicalAllocStart d) + 0x2069000 \<le> unat memHigh" by simp
  from boot_steps [OF boot hi this d(1) size(2) d(2)] obtain s m h' m' p q where
    b: "init_memory memHigh (physicalAllocStart d) (mmu h) = Some m" "heap_init (h\<lparr>mmu := m\<rparr>) = Some h'"
      "create_ramdisk d (mmu h') = Some m'"
    and base: "boot_base (mmu h) (physicalAllocStart d) memHigh s"
    and p: "kernel_run kernel_pdes 0xC3000 8192 p s m" and q: "kernel_run kernel_pdes 0xD0000 4 q m (mmu h')"
    and st3: "kmem_step kernel_pdes (frames_run 0xE0400 (disk_pages d) (\<lambda>i. pframe (rd_phys_addr d) + i)) 0 (mmu h') m'"
    and hp: "total_blocks h' = 4" "heap_size h' = 16384" "\<forall>i<4. heap_mem h' i = 0"
    by blast
  have st1: "kmem_step kernel_pdes (frames_run 0xC3000 8192 p) 8192 s m"
    and st2: "kmem_step kernel_pdes (frames_run 0xD0000 4 q) 4 m (mmu h')"
    and dp: "disk_pages d \<le> 65536"
    using p q d(2) by (simp_all add: fresh_run_def disk_pages_def)
  note tr = boot_translations [OF base boot st1 st2 st3 dp]
  note all = kmem_step_trans [OF kmem_step_trans [OF st1 st2] st3]
  have "table_mapped (h'\<lparr>mmu := m'\<rparr>)"
    using tr(3) hp(1) by (simp add: table_mapped_def heap_mapped_def blocks_def)
  moreover have "8274 + n \<le> frame_room s" by (rule boot_baseD(6) [OF base start])
  then have "kmem_need kernel_pdes m' + Suc n \<le> frame_room m'"
    using kmem_stepD(5,10) [OF all] boot_baseD(5) [OF base] by simp
  moreover have "pframe (cr3 m') = kdir_frame m'"
    using kmem_step_cr3 [OF all] kmem_stepD(8) [OF all] boot_baseD(4) [OF base] by simp
  ultimately show ?thesis using b hp kmem_stepD(1) [OF all] kmem_stepD(2) [OF all] boot_baseD(10) [OF base]
    by (intro exI [of _ m] exI [of _ h'] exI [of _ m']) (simp add: same_setup_def)
qed

text \<open>Everything up to the processes.\<close>

lemma kernel_main_start:
  assumes "can_boot ev mbi n k"
  shows "\<exists>k6. kernel_main ev 0x2BADB002 mbi k = do { k' \<leftarrow> boot_processes ev k6; Some (Idling k') }
    \<and> total_blocks (kheap (k_sys k6)) = 4 \<and> heap_size (kheap (k_sys k6)) = 16384 \<and> (\<forall>i<4. heap_mem (kheap (k_sys k6)) i = 0)
    \<and> table_mapped (kheap (k_sys k6)) \<and> kmem_ok kernel_pdes (mmu (kheap (k_sys k6)))
    \<and> pframe (cr3 (mmu (kheap (k_sys k6)))) = kdir_frame (mmu (kheap (k_sys k6)))
    \<and> kmem_need kernel_pdes (mmu (kheap (k_sys k6))) + Suc n \<le> frame_room (mmu (kheap (k_sys k6)))
    \<and> kernel_directory (mmu (kheap (k_sys k6))) = kernel_directory (mmu (kheap (k_sys k)))
    \<and> cpuRunqueues (k_sys k6) = (\<lambda>_. empty_runqueue) \<and> threadsPerCPU (k_sys k6) = (\<lambda>_. 0)
    \<and> ptab (k_sys k6) = ptab (k_sys k) \<and> lapic (k_sys k6) = lapic (k_sys k) \<and> k_bytes k6 = k_bytes k
    \<and> k_vectors k6 = boot_vectors ev \<and> k_calls k6 = (syscall_table (e_machine ev), 17)
    \<and> k_disk k6 = boot_ramdisk mbi (k_bytes k)
    \<and> (boot_screen_ok mbi (files (k_sys k)) \<and> keyboard_ok (keyb (k_sys k)) \<and> user_heap_ok (k_sys k) \<longrightarrow> sys_ok (k_sys k6))"
proof -
  define s where "s = k_sys k"
  define d where "d = boot_ramdisk mbi (k_bytes k)"
  have c: "0 < mb_mods_count mbi" "unat (rd_size d) \<le> 0x10000000" "unat (mb_mem_upper mbi * 1024) \<le> 0x20000000"
    "unat (rd_phys_addr d) + unat (rd_size d) + 4096 * (n + 0x206B) \<le> unat (mb_mem_upper mbi * 1024)" "n < 4092"
    "boot_ok (mmu (kheap s)) (physicalAllocStart d)" "k_vectors k = Map.empty" "k_calls k = (Map.empty, 0)"
    "cpuRunqueues s = (\<lambda>_. empty_runqueue)" "threadsPerCPU s = (\<lambda>_. 0)"
    "case f_opendir (e_machine ev) root_path (snd (e_mount ev (volume (files s)))) of
       (res, v) \<Rightarrow> res = FR_OK \<longrightarrow> dir_ends (e_machine ev) v"
    using assms by (simp_all add: can_boot_def Let_def s_def d_def)
  have d: "using_ramdisk d" by (simp add: d_def boot_ramdisk_def Let_def)
  obtain ds where 1: "boot_tables ev k = Some (k\<lparr>k_vectors := [0 \<mapsto> pit_handler], k_sys := s
      \<lparr>descs := ds, port_log := port_log s @ [(0x43, 0x36), (0x40, 0xA9), (0x40, 4)]\<rparr>\<rparr>)" (is "_ = Some ?k1")
    using boot_tables_run [of ev k] c(7) by (auto simp: s_def)
  obtain f2 where 2: "boot_devices mbi ?k1 = Some (?k1\<lparr>k_sys := (k_sys ?k1)\<lparr>files := f2\<rparr>, k_disk := d\<rparr>)" (is "_ = Some ?k2")
      "boot_screen_ok mbi (files s) \<longrightarrow> files_ok f2" "volume f2 = volume (files s)"
    using boot_devices_run [OF c(1), of ?k1] by (auto simp: d_def)
  obtain m h m' where m: "init_memory (mb_mem_upper mbi * 1024) (physicalAllocStart d) (mmu (kheap s)) = Some m"
      "heap_init ((kheap s)\<lparr>mmu := m\<rparr>) = Some h" "create_ramdisk d (mmu h) = Some m'"
    and h: "total_blocks h = 4" "heap_size h = 16384" "\<forall>i<4. heap_mem h i = 0" "table_mapped (h\<lparr>mmu := m'\<rparr>)"
    and km: "kmem_ok kernel_pdes m'" "pframe (cr3 m') = kdir_frame m'" "kmem_need kernel_pdes m' + Suc n \<le> frame_room m'"
      "kernel_directory m' = kernel_directory (mmu (kheap s))"
    using boot_memory_left [OF c(6) d c(2,3,4)] by (elim exE conjE) (rule that)
  have m2: "init_memory (mb_mem_upper mbi * 1024) (physicalAllocStart (k_disk ?k2)) (mmu (kheap (k_sys ?k2))) = Some m"
      "heap_init ((kheap (k_sys ?k2))\<lparr>mmu := m\<rparr>) = Some h" "create_ramdisk (k_disk ?k2) (mmu h) = Some m'"
    using m by simp_all
  obtain f3 where 3: "boot_memory mbi ?k2 = Some (?k2\<lparr>k_sys := (k_sys ?k2)\<lparr>kheap := h\<lparr>mmu := m'\<rparr>, files := f3\<rparr>\<rparr>)" (is "_ = Some ?k3")
      "shows_only f2 f3" "volume f3 = volume f2"
    using boot_memory_run [OF m2] by auto
  obtain f4 where 4: "boot_mount ev (k_sys ?k3) = Some ((k_sys ?k3)\<lparr>files := f4\<rparr>)" "shows_only f3 f4"
      "volume f4 = snd (e_mount ev (volume f3))"
    using boot_mount_run [of ev "k_sys ?k3"] by auto
  define k4 where "k4 = ?k3\<lparr>k_sys := (k_sys ?k3)\<lparr>files := f4\<rparr>\<rparr>"
  have "k_calls k4 = (\<lambda>_. None, 0)" "k_vectors k4 = [0 \<mapsto> pit_handler]" using c(8) by (simp_all add: k4_def)
  from boot_handlers_run [OF this, of ev] obtain f5 where
    5: "boot_handlers ev k4 = Some (k4\<lparr>k_vectors := boot_vectors ev, k_calls := (syscall_table (e_machine ev), 17),
      k_sys := (k_sys k4)\<lparr>keyb := init_keyboard (keyb (k_sys k4)), port_log := port_log (k_sys k4) @ [(0x60, 0xAE)], files := f5\<rparr>\<rparr>)"
      (is "_ = Some ?k5")
      "shows_only f4 f5" "volume f5 = volume f4"
    by (auto simp: k4_def)
  have "volume f5 = snd (e_mount ev (volume (files s)))" using 2(3) 3(3) 4(3) 5(3) by simp
  then obtain f6 where 6: "boot_listing ev (k_sys ?k5) = Some ((k_sys ?k5)\<lparr>files := f6\<rparr>)" "shows_only f5 f6"
    using boot_listing_run [of ev "k_sys ?k5"] c(11) by auto
  define k6 where "k6 = ?k5\<lparr>k_sys := (k_sys ?k5)\<lparr>files := f6\<rparr>\<rparr>"
  have k6: "kheap (k_sys k6) = h\<lparr>mmu := m'\<rparr>" "ptab (k_sys k6) = ptab s" "cpuRunqueues (k_sys k6) = cpuRunqueues s"
    "threadsPerCPU (k_sys k6) = threadsPerCPU s" "k_bytes k6 = k_bytes k" "k_vectors k6 = boot_vectors ev"
    "k_calls k6 = (syscall_table (e_machine ev), 17)" "k_disk k6 = d" "files (k_sys k6) = f6" "lapic (k_sys k6) = lapic s"
    "keyb (k_sys k6) = init_keyboard (keyb s)" "user_heap_end (k_sys k6) = user_heap_end s"
    by (simp_all add: k6_def k4_def)
  have "kernel_main ev 0x2BADB002 mbi k = do { k' \<leftarrow> boot_processes ev k6; Some (Idling k') }"
    unfolding kernel_main_def 1 bind.bind_lunit simp_thms if_False 2(1) 3(1) 4(1) k4_def [symmetric] 5(1) 6(1)
      k6_def [symmetric] by simp
  moreover have "sys_ok (k_sys k6)" if "boot_screen_ok mbi (files s)" "keyboard_ok (keyb s)" "user_heap_ok s"
    using that 2(2) 3(2) 4(2) 5(2) 6(2)
    by (simp add: sys_ok_def k6 shows_only_def user_heap_ok_def init_keyboard_def keyboard_ok_def)
  ultimately show ?thesis
    using h km c(9,10) by (intro exI [of _ k6]) (simp add: k6 s_def d_def)
qed

text \<open>C5: on such a machine \<open>kernel_main\<close> reaches the idle loop. Then the timer, the keyboard and the messages between
  CPUs have their handlers and the 17 system calls are registered; the process table holds the idle process alone,
  whose thread waits in the first queue of the first CPU and nothing waits anywhere else; every processor that the
  table of the firmware lists beside the first, up to eight, has been sent the interrupts that start it at
  the copied start-up code; and with a sensible screen and zeroed variables the state of the system calls is
  well-formed, whatever \<open>f_mount\<close> and \<open>f_opendir\<close> report. The sentinel of the process table has the address of the
  block table of the heap.\<close>

theorem kernel_boots:
  assumes "can_boot ev mbi n k"
  shows "\<exists>k'. kernel_main ev 0x2BADB002 mbi k = Some (Idling k') \<and> only_idle ev (k_sys k) n (k_sys k')
    \<and> cpus_started ev k k' \<and> k_vectors k' = boot_vectors ev \<and> k_calls k' = (syscall_table (e_machine ev), 17)
    \<and> k_disk k' = boot_ramdisk mbi (k_bytes k)
    \<and> (boot_screen_ok mbi (files (k_sys k)) \<and> keyboard_ok (keyb (k_sys k)) \<and> user_heap_ok (k_sys k) \<longrightarrow> sys_ok (k_sys k'))"
proof -
  obtain k6 where main: "kernel_main ev 0x2BADB002 mbi k = do { k' \<leftarrow> boot_processes ev k6; Some (Idling k') }"
    and b: "total_blocks (kheap (k_sys k6)) = 4" "heap_size (kheap (k_sys k6)) = 16384" "\<forall>i<4. heap_mem (kheap (k_sys k6)) i = 0"
      "table_mapped (kheap (k_sys k6))" "kmem_ok kernel_pdes (mmu (kheap (k_sys k6)))"
      "pframe (cr3 (mmu (kheap (k_sys k6)))) = kdir_frame (mmu (kheap (k_sys k6)))"
      "kmem_need kernel_pdes (mmu (kheap (k_sys k6))) + Suc n \<le> frame_room (mmu (kheap (k_sys k6)))"
    and q: "cpuRunqueues (k_sys k6) = (\<lambda>_. empty_runqueue)" "threadsPerCPU (k_sys k6) = (\<lambda>_. 0)"
    and k6: "kernel_directory (mmu (kheap (k_sys k6))) = kernel_directory (mmu (kheap (k_sys k)))" "ptab (k_sys k6) = ptab (k_sys k)"
      "lapic (k_sys k6) = lapic (k_sys k)" "k_bytes k6 = k_bytes k" "k_vectors k6 = boot_vectors ev"
      "k_calls k6 = (syscall_table (e_machine ev), 17)" "k_disk k6 = boot_ramdisk mbi (k_bytes k)"
    and ok: "boot_screen_ok mbi (files (k_sys k)) \<and> keyboard_ok (keyb (k_sys k)) \<and> user_heap_ok (k_sys k) \<longrightarrow> sys_ok (k_sys k6)"
    using kernel_main_start [OF assms] by (elim exE conjE) (rule that)
  have c: "n < 4092" "cpus_can_start ev (k_bytes k6)" using assms by (simp_all add: can_boot_def Let_def k6)
  from boot_processes_run [OF b c q] obtain k' where
    p: "boot_processes ev k6 = Some k'" "only_idle ev (k_sys k6) n (k_sys k')" "cpus_started ev k6 k'"
      "k_vectors k' = k_vectors k6" "k_calls k' = k_calls k6" "k_disk k' = k_disk k6" "sys_ok (k_sys k') = sys_ok (k_sys k6)"
    by blast
  moreover have "only_idle ev (k_sys k) n (k_sys k')" using p(2) by (simp add: only_idle_def k6)
  moreover have "cpus_started ev k k'" using p(3) by (simp add: cpus_started_def k6)
  ultimately show ?thesis using main ok by (intro exI [of _ k']) (simp add: k6)
qed

section \<open>A concrete start\<close>

text \<open>
  A machine with 128 MB and two CPUs: the module entry at 0x10000, the floating pointer structure at 0xA0000, the table
  of the processors at 0xA0100, the string \<open>_MP_\<close> in the kernel's image.
\<close>

definition boot_bytes :: bytes where
  "boot_bytes = (\<lambda>_. 0)(0x10003 := 1, 0x10006 := 0x40, 0x10007 := 1,
     0xA0000 := 95, 0xA0001 := 77, 0xA0002 := 80, 0xA0003 := 95, 0xA0005 := 1, 0xA0006 := 0x0A, 0xA000A := 154,
     0xA0122 := 2, 0xA0141 := 1,
     0xC0110000 := 95, 0xC0110001 := 77, 0xC0110002 := 80, 0xC0110003 := 95)"

definition boot_mbi :: multiboot_info where
  "boot_mbi = \<lparr>mb_mem_upper = 0x1FB80, mb_mods_count = 1, mb_mods_addr = 0x10000, mb_framebuffer_addr = 0xFD000000,
     mb_framebuffer_pitch = 4096, mb_framebuffer_width = 1024, mb_framebuffer_height = 768, mb_framebuffer_bpp = 32\<rparr>"

definition boot_surroundings :: "unit surroundings" where
  "boot_surroundings = \<lparr>e_machine = machine_demo, e_hw = (\<lambda>n reg. if even n then DELIVS else 0), e_ticks = (\<lambda>i. of_nat (i + 0)),
     e_tss = 0xC0130000, e_gdt = 0xC0131000, e_idt = 0xC0132000, e_stub = (\<lambda>v. 0xC0140000 + 16 * ucast v), e_idle = 0xC0100400,
     e_sig = 0xC0110000, e_trampoline = (0xC0120000, 0xC0120040), e_pMode = (0xC0120040, 0xC01200C0),
     e_mount = (\<lambda>d. (FR_OK, d)), e_port60 = (\<lambda>_. (0, 0)), e_nil = zero_process\<rparr>"

definition boot_kernel :: "unit kernel" where
  "boot_kernel = \<lparr>k_sys = sys_demo\<lparr>kheap := heap_demo\<lparr>mmu := boot_demo\<rparr>, cpuRunqueues := (\<lambda>_. empty_runqueue),
       threadsPerCPU := (\<lambda>_. 0)\<rparr>,
     k_vectors = Map.empty, k_calls = (Map.empty, 0), k_disk = \<lparr>rd_size = 0, rd_phys_addr = 0, using_ramdisk = False\<rparr>,
     k_bytes = boot_bytes, k_mp = \<lparr>cpus = (\<lambda>_. \<lparr>cpu_id = 0, lapicBase = 0, lapicVersion = 0, lapicFlags = 0, cpu_proc = 0, isBSP = 0, cpuName = 0\<rparr>),
       mp_ncpus = 0, ioapicid = 0\<rparr>\<rparr>"

lemma boot_bytes_mp: "find_mp_floating_pointer boot_bytes 0xC0110000 = 0xA0000"
proof -
  have "memcmp boot_bytes 0xA0000 0xC0110000 4 = 0"
  proof -
    have four: "nat 4 = Suc (Suc (Suc (Suc 0)))" by simp
    show ?thesis unfolding memcmp_def four by (simp add: boot_bytes_def)
  qed
  moreover have "validateMPChecksum boot_bytes 0xA0000"
  proof -
    have "[0..<16] = [0, 1, 2, 3, 4, 5, 6, 7, 8, 9, 10, 11, 12, 13, 14, 15 :: nat]" by code_simp
    then show ?thesis unfolding validateMPChecksum_def by (simp add: boot_bytes_def)
  qed
  ultimately show ?thesis by (simp add: find_mp_floating_pointer_def find_mp_loop.simps [of _ _ "0xA0000"])
qed

lemma boot_bytes_cpus: "found_processors boot_bytes 0xC0110000 = [0xA012C, 0xA0140]"
proof -
  have t: "configurationTable boot_bytes 0xA0000 = 0xA0100"
    by (simp add: configurationTable_def boot_bytes_def)
  have n: "unat (entryCount boot_bytes 0xA0100) = Suc (Suc 0)"
    by (simp add: entryCount_def boot_bytes_def)
  have e: "entry_type boot_bytes 0xA012C = 0" "entry_type boot_bytes 0xA0140 = 0"
    by (simp_all add: entry_type_def boot_bytes_def)
  show ?thesis
    unfolding found_processors_def boot_bytes_mp Let_def t n by (simp add: sizeof_table_def e MAX_CPUS_def)
qed

lemma boot_bytes_disk: "boot_ramdisk boot_mbi boot_bytes = boot_disk"
  by (simp add: boot_ramdisk_def boot_mbi_def module_at_def le32_def boot_bytes_def boot_disk_def Let_def)

lemma boot_kernel_ready: "can_boot boot_surroundings boot_mbi 4000 boot_kernel"
proof -
  have "delivers (e_hw boot_surroundings)"
    unfolding delivers_def boot_surroundings_def
    by (intro allI, rule_tac x = "2 * n + 1" in exI) simp
  moreover have "\<exists>T. clock_runs T \<and> e_ticks boot_surroundings = (\<lambda>i. of_nat (T i))"
    using clock_demo [of 0] by (intro exI [of _ "\<lambda>i. i + 0"]) (simp add: boot_surroundings_def)
  ultimately have cpu: "cpus_can_start boot_surroundings (k_bytes boot_kernel)"
    using boot_bytes_mp by (simp add: cpus_can_start_def boot_surroundings_def boot_kernel_def start_code_def)
  have dir: "dir_ends machine_demo ()"
    by (rule dir_ends.last [where res = FR_OK and fname = "[]" and d' = "()"]) (simp_all add: machine_demo_def)
  show ?thesis
    using cpu dir boot_demo_ok
    by (simp add: can_boot_def boot_bytes_disk Let_def boot_kernel_def)
      (simp add: boot_mbi_def boot_disk_def boot_surroundings_def machine_demo_def split: prod.split)
qed

theorem kernel_boots_witness:
  "\<exists>k'. kernel_main boot_surroundings 0x2BADB002 boot_mbi boot_kernel = Some (Idling k') \<and> ncpus (k_sys k') = 2
    \<and> (ICR1, 0x4607) \<in> set (reg_writes (lapic (k_sys k'))) \<and> sys_ok (k_sys k')"
proof -
  obtain k' where "kernel_main boot_surroundings 0x2BADB002 boot_mbi boot_kernel = Some (Idling k')"
    and c: "cpus_started boot_surroundings boot_kernel k'"
    and ok: "boot_screen_ok boot_mbi (files (k_sys boot_kernel)) \<and> keyboard_ok (keyb (k_sys boot_kernel)) \<and> user_heap_ok (k_sys boot_kernel)
      \<longrightarrow> sys_ok (k_sys k')"
    using kernel_boots [OF boot_kernel_ready] by blast
  moreover have "length (found_processors (k_bytes boot_kernel) (e_sig boot_surroundings)) = 2"
    by (simp add: boot_kernel_def boot_surroundings_def boot_bytes_cpus)
  then have "unat (ncpus (k_sys k')) = 2" "(ICR1, 0x4607) \<in> set (reg_writes (lapic (k_sys k')))"
    using c by (simp_all add: cpus_started_def startup_writes_def upt_rec)
  moreover from this have "ncpus (k_sys k') = 2" by (simp add: word_unat_eq_iff)
  moreover have "boot_screen_ok boot_mbi (files (k_sys boot_kernel))" "keyboard_ok (keyb (k_sys boot_kernel))"
      "user_heap_ok (k_sys boot_kernel)"
    by (simp_all add: boot_screen_ok_def boot_kernel_def sys_demo_def keyboard_boot_ok files_ok_def files_demo_def boot_vbe_def
        boot_mbi_def console_ok_def screen_ok_def user_heap_ok_def user_heap_start_def user_heap_limit_def MAX_FILES_def)
  ultimately show ?thesis by simp
qed

theorem wrong_magic_is_silent_witness:
  "\<exists>k'. kernel_main boot_surroundings 0x36D76289 boot_mbi boot_kernel = Some (Panicked k') \<and> files (k_sys k') = files_demo"
  using wrong_magic_is_silent [of "0x36D76289" boot_kernel boot_surroundings boot_mbi]
  by (auto simp: boot_kernel_def sys_demo_def files_demo_def)

end
