(* ===== verification/Exceptions.thy ===== *)
theory Exceptions
  imports System
begin

text \<open>
  The messages of the interrupt handlers (\<open>interrupts/idt.c\<close>). \<open>Interrupts\<close> has the handlers without what they
  print, as the console is no part of the state there; here they run on the state of the system calls, and
  forgetting the messages gives the handlers of \<open>Interrupts\<close> back.
\<close>

section \<open>Texts\<close>

definition exceptions :: "string list" where
  "exceptions =
    [''[0x00] Divide by Zero Exception'',
     ''[0x01] Debug Exception'',
     ''[0x02] Unhandled Non-maskable Interrupt'',
     ''[0x03] Breakpoint Exception'',
     ''[0x04] Overflow Exception'',
     ''[0x05] Bound Range Exceeded Exception'',
     ''[0x06] Invalid Opcode/Operand Exception'',
     ''[0x07] Device Unavailable Exception'',
     ''[0x08] Double Fault'',
     ''[0x09] Coprocessor Segment Overrun'',
     ''[0x0A] Invalid TSS Exception'',
     ''[0x0B] Absent Segment Exception'',
     ''[0x0C] Stack-segment Fault'',
     ''[0x0D] General Protection Fault'',
     ''[0x0E] Page Fault'',
     ''[0x0F] Inexplicable Error'',
     ''[0x10] x87 Floating Exception'',
     ''[0x11] Alignment Check'',
     ''[0x12] Machine Check'',
     ''[0x13] SIMD Floating Exception'',
     ''[0x14] Virtualized Exception'',
     ''[0x15] Control Protection Exception'',
     ''[0x16] Inexplicable Error'',
     ''[0x17] Inexplicable Error'',
     ''[0x18] Inexplicable Error'',
     ''[0x19] Inexplicable Error'',
     ''[0x1A] Inexplicable Error'',
     ''[0x1B] Inexplicable Error'',
     ''[0x1C] Hypervisor Intrusion Exception'',
     ''[0x1D] VMM Communications Exception'',
     ''[0x1E] Security Exception'',
     ''[0x1F] Inexplicable Error'']"

definition text_line :: "string \<Rightarrow> cstr" where
  "text_line t = map of_char t @ [10]"

definition page_fault_line :: cstr where
  "page_fault_line = text_line ''Page fault at address: 0x%x, error code: 0x%x''"

definition say :: "cstr \<Rightarrow> (nat \<Rightarrow> u32) \<Rightarrow> 'd sys_state \<Rightarrow> 'd sys_state option" where
  "say fmt args = with_screen (kernel_write (\<lambda>_. None) fmt args)"

section \<open>Handlers\<close>

text \<open>\<open>cr2\<close> is the register with the faulting address.\<close>

definition page_fault_report :: "u32 \<Rightarrow> Interrupt_registers \<Rightarrow> 'd sys_state \<Rightarrow> 'd sys_state option" where
  "page_fault_report cr2 r s = do {
     s \<leftarrow> say page_fault_line (\<lambda>i. if i = 0 then cr2 else err_code r) s;
     s \<leftarrow> say (text_line (if err_code r AND 1 = 0 then ''Page not present.'' else ''Page protection violation.'')) (\<lambda>_. 0) s;
     Some (page_fault_handler s)
   }"

definition isr_handler_report :: "u32 \<Rightarrow> (nat \<Rightarrow> 'd sys_state handler option) \<Rightarrow> 'd sys_state handler" where
  "isr_handler_report cr2 syscall_functions r s =
     (if interrupt_number r < 32
      then do {
        s \<leftarrow> (if interrupt_number r = 14 then page_fault_report cr2 r s else Some s);
        s \<leftarrow> say (map of_char (exceptions ! unat (interrupt_number r))) (\<lambda>_. 0) s;
        s \<leftarrow> say [10] (\<lambda>_. 0) s;
        s \<leftarrow> say (text_line ''Exception occured!'') (\<lambda>_. 0) s;
        Some (Halted s)
      }
      else if interrupt_number r = 128
      then (if 1024 \<le> unat (i_eax r)
            then do { s \<leftarrow> say (text_line ''not a valid syscall nr: %u'') (\<lambda>_. i_eax r) s; Some (Returned r s) }
            else syscall_handler syscall_functions r s)
      else Some (Returned r s))"

definition spurious_interrupt_handler :: "'d sys_state handler" where
  "spurious_interrupt_handler r s = do {
     s \<leftarrow> say (text_line ''Spurious interrupt received: 0x%x'') (\<lambda>_. interrupt_number r) s;
     Some (Returned r s)
   }"

definition apic_error_handler :: "'d sys_state handler" where
  "apic_error_handler r s = do {
     s \<leftarrow> say (text_line ''APIC Error Interrupt Triggered'') (\<lambda>_. 0) s;
     Some (Returned r s)
   }"

section \<open>What is shown\<close>

definition shown :: "cstr \<Rightarrow> 'd sys_state \<Rightarrow> 'd sys_state" where
  "shown out s = s\<lparr>files := (files s)\<lparr>console := puts_kernel out (console (files s))\<rparr>\<rparr>"

lemma say_shown: "rendered (\<lambda>_. None) fmt args 0 = Some out \<Longrightarrow> say fmt args s = Some (shown out s)"
  by (simp add: say_def with_screen_def kernel_write_text shown_def)

lemma shown_append: "shown ys (shown xs s) = shown (xs @ ys) s"
  by (simp add: shown_def puts_kernel_append)

lemma shown_fields [simp]: "kheap (shown out s) = kheap s"
  by (simp add: shown_def)

lemma page_fault_shown: "page_fault_handler (shown out s) = shown out (page_fault_handler s)"
  by (simp add: page_fault_handler_def shown_def)

text \<open>Text without a percent sign is printed as it is.\<close>

lemma rendered_plain: "37 \<notin> set out \<Longrightarrow> rendered str_at out args i = Some out"
  by (induction out rule: induct_list012) auto

lemma exceptions_plain: "list_all (\<lambda>t. 37 \<notin> set (map of_char t :: u8 list)) exceptions"
  by (simp add: exceptions_def)

lemma exception_rendered:
  assumes "n < 32"
  shows "rendered str_at (map of_char (exceptions ! n)) args i = Some (map of_char (exceptions ! n))"
proof (rule rendered_plain)
  have "length exceptions = 32" by (simp add: exceptions_def)
  then show "37 \<notin> set (map of_char (exceptions ! n) :: u8 list)"
    using exceptions_plain assms by (simp add: list_all_length)
qed

definition page_fault_text :: "u32 \<Rightarrow> u32 \<Rightarrow> cstr" where
  "page_fault_text cr2 err = map of_char ''Page fault at address: 0x'' @ numeral_of 16 (unat cr2)
     @ map of_char '', error code: 0x'' @ numeral_of 16 (unat err) @ [10]
     @ text_line (if bit err 0 then ''Page protection violation.'' else ''Page not present.'')"

definition exception_text :: "u32 \<Rightarrow> Interrupt_registers \<Rightarrow> cstr" where
  "exception_text cr2 r = (if interrupt_number r = 14 then page_fault_text cr2 (err_code r) else [])
     @ text_line (exceptions ! unat (interrupt_number r)) @ text_line ''Exception occured!''"

lemma message_texts:
  "rendered str_at page_fault_line args 0 = Some (map of_char ''Page fault at address: 0x'' @ numeral_of 16 (unat (args 0))
     @ map of_char '', error code: 0x'' @ numeral_of 16 (unat (args 1)) @ [10])"
  "rendered str_at (text_line ''Page not present.'') args 0 = Some (text_line ''Page not present.'')"
  "rendered str_at (text_line ''Page protection violation.'') args 0 = Some (text_line ''Page protection violation.'')"
  "rendered str_at (text_line ''Exception occured!'') args 0 = Some (text_line ''Exception occured!'')"
  "rendered str_at (text_line ''not a valid syscall nr: %u'') args 0
     = Some (map of_char ''not a valid syscall nr: '' @ numeral_of 10 (unat (args 0)) @ [10])"
  "rendered str_at [10] args 0 = Some [10]"
  by (simp_all add: page_fault_line_def text_line_def conversion_def)

lemma page_fault_report_shown: "page_fault_report cr2 r s = Some (shown (page_fault_text cr2 (err_code r)) (page_fault_handler s))"
proof -
  have "bit (err_code r) 0 \<longleftrightarrow> err_code r AND 1 \<noteq> 0" by (simp add: and_one_eq bit_0 odd_iff_mod_2_eq_one)
  then show ?thesis
    by (cases "bit (err_code r) 0")
      (simp_all add: page_fault_report_def say_shown [OF message_texts(1)] say_shown [OF message_texts(2)]
        say_shown [OF message_texts(3)] shown_append page_fault_shown page_fault_text_def)
qed

text \<open>The text that an interrupt leaves on the screen.\<close>

definition report_text :: "u32 \<Rightarrow> Interrupt_registers \<Rightarrow> cstr" where
  "report_text cr2 r =
     (if interrupt_number r < 32 then exception_text cr2 r
      else if interrupt_number r = 128 \<and> 1024 \<le> unat (i_eax r)
      then map of_char ''not a valid syscall nr: '' @ numeral_of 10 (unat (i_eax r)) @ [10] else [])"

lemma shown_nothing: "shown [] = (\<lambda>s. s)" for s :: "'d sys_state"
  by (rule ext) (simp add: shown_def puts_kernel_fold files_console_same)

text \<open>C27: the interrupt handler with its messages does what the handler of \<open>Interrupts\<close> does and shows one text beside it:
  for an exception the line of its number and that the CPU stops, after a page fault also the address and the cause;
  for a system call whose number is out of range that number, and for all else nothing. So every exception,
  repaired page faults included, is reported and stops the CPU.\<close>

theorem isr_handler_reports:
  fixes s :: "'d sys_state"
  shows "isr_handler_report cr2 functions r s = map_option (map_outcome (shown (report_text cr2 r))) (isr_handler functions r s)"
proof (cases "interrupt_number r < 32")
  case True
  then have "unat (interrupt_number r) < 32" by (simp add: word_less_nat_alt)
  note ex = say_shown [OF exception_rendered [OF this]]
  have out: "say [10] (\<lambda>_. 0) (t :: 'd sys_state) = Some (shown [10] t)"
      "say (text_line ''Exception occured!'') (\<lambda>_. 0) t = Some (shown (text_line ''Exception occured!'') t)" for t
    by (simp_all only: say_shown [OF message_texts(6)] say_shown [OF message_texts(4)])
  have line: "text_line (exceptions ! unat (interrupt_number r)) = map of_char (exceptions ! unat (interrupt_number r)) @ [10]"
    by (simp add: text_line_def)
  have "do { s \<leftarrow> say (map of_char (exceptions ! unat (interrupt_number r))) (\<lambda>_. 0) t; s \<leftarrow> say [10] (\<lambda>_. 0) s;
      s \<leftarrow> say (text_line ''Exception occured!'') (\<lambda>_. 0) s; Some (Halted s) }
    = Some (Halted (shown (text_line (exceptions ! unat (interrupt_number r)) @ text_line ''Exception occured!'') t))"
    for t :: "'d sys_state"
    by (simp add: ex out shown_append line)
  then show ?thesis
    using True by (cases "interrupt_number r = 14")
      (simp_all add: isr_handler_report_def isr_handler_def page_fault_report_shown shown_append report_text_def exception_text_def)
next
  case False
  show ?thesis
  proof (cases "interrupt_number r = 128 \<and> 1024 \<le> unat (i_eax r)")
    case True
    then show ?thesis
      by (simp add: isr_handler_report_def isr_handler_def syscall_handler_def report_text_def say_shown [OF message_texts(5)])
  next
    case other: False
    then have "report_text cr2 r = []" using False by (simp add: report_text_def)
    moreover have "map_option (map_outcome (\<lambda>s :: 'd sys_state. s)) x = x" for x
      by (cases x) (simp_all add: outcome.map_ident)
    ultimately show ?thesis
      using False other by (auto simp: isr_handler_report_def isr_handler_def shown_nothing)
  qed
qed

end
