(* ===== verification/User_Space.thy ===== *)
theory User_Space
  imports User_Memory
begin

text \<open>
  The address space of a new process. A step relation says what mapping pages of the user half in the
  current directory may do: which pages it adds, how many frames it takes, and that memory which was in use
  before keeps its contents. It is another instance of \<open>address_space\<close>, so the loops that map the
  program, the stack and the heap of a process are runs of fresh pages. Then come the directory of a new process
  and the bytes of the program in its pages.
\<close>

section \<open>Mapping pages of the user half\<close>

text \<open>The frames of the page tables of the user half.\<close>

definition user_tables :: "mmu_state \<Rightarrow> nat set" where
  "user_tables s = {pframe (ram s (cur_dir s) j) | j. j < 768 \<and> is_table (ram s (cur_dir s) j)}"

text \<open>Pages whose directory entries are in \<open>R\<close> can be mapped in the current directory.\<close>

definition user_ok :: "nat set \<Rightarrow> mmu_state \<Rightarrow> bool" where
  "user_ok R s \<longleftrightarrow> tables_ok s (cur_dir s) \<and> window_ok (frames s)
     \<and> (\<forall>j\<in>R. j < 768 \<and> (present (ram s (cur_dir s) j) \<longrightarrow> is_table (ram s (cur_dir s) j)))"

definition user_need :: "nat set \<Rightarrow> mmu_state \<Rightarrow> nat" where
  "user_need R s = dir_need (cur_dir s) R s"

definition space_tables :: "mmu_state \<Rightarrow> nat set" where
  "space_tables s = dir_tables (cur_dir s) s"

text \<open>Memory that was in use, beside the directory and its user tables, keeps its contents.\<close>

definition keeps_memory :: "mmu_state \<Rightarrow> mmu_state \<Rightarrow> bool" where
  "keeps_memory s s' \<longleftrightarrow> (\<forall>g. held s g \<longrightarrow> g \<noteq> cur_dir s \<longrightarrow> g \<notin> user_tables s
     \<longrightarrow> ram s' g = ram s g \<and> g \<notin> user_tables s')"

definition user_step :: "nat set \<Rightarrow> (nat \<Rightarrow> nat option) \<Rightarrow> nat \<Rightarrow> mmu_state \<Rightarrow> mmu_state \<Rightarrow> bool" where
  "user_step R M c s s' \<longleftrightarrow> user_ok R s' \<and> same_setup s s' \<and> same_window (frames s) (frames s')
     \<and> used_frames (frames s) \<subseteq> used_frames (frames s') \<and> user_need R s' = user_need R s + c
     \<and> space_tables s' \<subseteq> space_tables s \<union> (used_frames (frames s') - used_frames (frames s))
     \<and> (\<forall>v. pd_index v < 1023 \<longrightarrow> translate s' v =
          (case M (unat v div 4096) of None \<Rightarrow> translate s v | f \<Rightarrow> f))
     \<and> keeps_memory s s' \<and> (\<forall>j. 768 \<le> j \<longrightarrow> ram s' (cur_dir s) j = ram s (cur_dir s) j)"

lemma user_step_refl: "user_ok R s \<Longrightarrow> user_step R (\<lambda>_. None) 0 s s"
  by (auto simp: user_step_def same_setup_def keeps_memory_def)

lemma user_stepD:
  assumes "user_step R M c s s'"
  shows "user_ok R s'" "same_setup s s'" "same_window (frames s) (frames s')"
    and "used_frames (frames s) \<subseteq> used_frames (frames s')" "user_need R s' = user_need R s + c"
    and "space_tables s' \<subseteq> space_tables s \<union> (used_frames (frames s') - used_frames (frames s))"
    and "pd_index v < 1023 \<Longrightarrow> translate s' v = (case M (unat v div 4096) of None \<Rightarrow> translate s v | f \<Rightarrow> f)"
    and "keeps_memory s s'" "cr3 s' = cr3 s" "pmm_window (frames s') = pmm_window (frames s)"
    and "held s g \<Longrightarrow> held s' g" "768 \<le> j \<Longrightarrow> ram s' (cur_dir s) j = ram s (cur_dir s) j"
  using assms same_windowD [of "frames s" "frames s'"] held_mono [of s s' g]
  unfolding user_step_def same_setup_def by simp_all

lemma user_step_trans:
  assumes "user_step R M c s s1" and "user_step R M' c' s1 s2"
  shows "user_step R (M ++ M') (c + c') s s2"
  unfolding user_step_def
proof (intro conjI allI impI)
  note a = user_stepD [OF assms(1)] and b = user_stepD [OF assms(2)]
  show "user_ok R s2" by (rule b)
  show "same_setup s s2" using a(2) b(2) by (simp add: same_setup_def)
  show "same_window (frames s) (frames s2)" by (rule same_window_trans [OF a(3) b(3)])
  show "used_frames (frames s) \<subseteq> used_frames (frames s2)" using a(4) b(4) by blast
  show "user_need R s2 = user_need R s + (c + c')" using a(5) b(5) by simp
  show "space_tables s2 \<subseteq> space_tables s \<union> (used_frames (frames s2) - used_frames (frames s))"
    using a(4,6) b(4,6) by blast
  show "translate s2 v = (case (M ++ M') (unat v div 4096) of None \<Rightarrow> translate s v | f \<Rightarrow> f)" if "pd_index v < 1023" for v
    using a(7) [OF that] b(7) [OF that] by (simp add: map_add_def split: option.splits)
  show "keeps_memory s s2"
    using a(8,9,11) b(8) unfolding keeps_memory_def by simp
  show "ram s2 (cur_dir s) j = ram s (cur_dir s) j" if "768 \<le> j" for j
    using a(9) a(12) [OF that] b(12) [OF that] by simp
qed

lemma user_finite: "user_ok R s \<Longrightarrow> finite R"
  by (rule finite_subset [of _ "{..<768}"]) (auto simp: user_ok_def)

lemma user_alloc:
  assumes ok: "user_ok R s" and room: "user_need R s < frame_room s"
  shows "\<exists>n pm. pmm_alloc_pageframe (frames s) = Some (frame_addr n, pm)
    \<and> user_step R (\<lambda>_. None) 1 s (s\<lparr>frames := pm\<rparr>) \<and> n \<in> pmm_window (frames s) \<and> n < PAGE_FRAMES \<and> 0 < n
    \<and> n \<notin> used_frames (frames s) \<and> used_frames pm = insert n (used_frames (frames s))
    \<and> n \<notin> space_tables (s\<lparr>frames := pm\<rparr>)"
proof -
  have w: "window_ok (frames s)" using ok by (simp add: user_ok_def)
  have free: "\<not> pmm_window (frames s) \<subseteq> used_frames (frames s)"
    using room unfolding user_need_def by (rule dir_room_free)
  from w obtain n pm where n: "pmm_alloc_pageframe (frames s) = Some (frame_addr n, pm)"
      "n \<in> pmm_window (frames s)" "n \<notin> used_frames (frames s)" "n < PAGE_FRAMES" "0 < n"
      "used_frames pm = insert n (used_frames (frames s))" "same_window (frames s) pm"
    by (cases rule: pmm_alloc_cases) (use free in auto)
  let ?s = "s\<lparr>frames := pm\<rparr>"
  have h: "held ?s f" if "held s f" for f
    by (rule held_mono [OF _ _ that]) (use n in auto)
  have "user_ok R ?s"
    using ok h same_windowD [OF n(7)] unfolding user_ok_def tables_ok_def by simp
  moreover have "used_frames pm \<inter> pmm_window (frames s) = insert n (used_frames (frames s) \<inter> pmm_window (frames s))"
    using n by blast
  then have "user_need R ?s = user_need R s + 1"
    using n same_windowD [OF n(7)] by (simp add: user_need_def dir_need_def)
  moreover have tf: "space_tables ?s = space_tables s" "user_tables ?s = user_tables s"
    by (simp_all add: space_tables_def dir_tables_def user_tables_def)
  moreover have "translate ?s v = translate s v" for v by (simp add: translate_def)
  ultimately have "user_step R (\<lambda>_. None) 1 s ?s"
    using n by (auto simp: user_step_def same_setup_def keeps_memory_def)
  moreover have "n \<notin> space_tables ?s"
    using dir_tables_held [of s "cur_dir s" n] ok n(2,3) unfolding tf by (auto simp: held_def user_ok_def space_tables_def)
  ultimately show ?thesis using n by blast
qed

lemma mapped_keeps_memory:
  assumes m: "mapped s (cur_dir s) virt e f s'" and su: "same_setup s s'" and v: "pd_index virt < 768"
    and pde: "present (ram s (cur_dir s) (pd_index virt)) \<longrightarrow> is_table (ram s (cur_dir s) (pd_index virt))"
  shows "keeps_memory s s'"
  unfolding keeps_memory_def
proof (intro allI impI)
  fix g assume g: "held s g" "g \<noteq> cur_dir s" "g \<notin> user_tables s"
  have c: "cr3 s' = cr3 s" using su by (simp add: same_setup_def)
  have "g \<noteq> f"
  proof (cases "present (ram s (cur_dir s) (pd_index virt))")
    case True
    then have "pframe (ram s (cur_dir s) (pd_index virt)) = f" using m by (auto simp: mapped_def)
    then have "f \<in> user_tables s" using True pde v by (auto simp: user_tables_def)
    then show ?thesis using g(3) by blast
  next
    case False
    then show ?thesis using m g(1) by (auto simp: mapped_def)
  qed
  then have "ram s' g = ram s g" using m g(2) by (simp add: mapped_def)
  moreover have "g \<notin> user_tables s'"
  proof
    assume "g \<in> user_tables s'"
    then obtain j where j: "j < 768" "is_table (ram s' (cur_dir s) j)" "g = pframe (ram s' (cur_dir s) j)"
      by (auto simp: user_tables_def c)
    have "j \<noteq> pd_index virt" using j(3) \<open>g \<noteq> f\<close> m by (auto simp: mapped_def)
    then have "ram s' (cur_dir s) j = ram s (cur_dir s) j" using m by (simp add: mapped_def)
    then show False using j g(3) by (auto simp: user_tables_def)
  qed
  ultimately show "ram s' g = ram s g \<and> g \<notin> user_tables s'" ..
qed

lemma user_map:
  assumes ok: "user_ok R s" and v: "pd_index virt \<in> R" and room: "user_need R s \<le> frame_room s"
    and fl: "flags < 4096" "\<not> bit flags 7"
  shows "\<exists>t. mem_map_page virt phys flags s = Some t \<and> user_step R [unat virt div 4096 \<mapsto> pframe phys] 0 s t"
proof -
  let ?d = "cur_dir s" and ?e = "phys OR PAGE_FLAG_PRESENT OR flags"
  have tabs: "tables_ok s ?d" and w: "window_ok (frames s)" and pd: "pd_index virt < 768"
    and pde: "present (ram s ?d (pd_index virt)) \<longrightarrow> is_table (ram s ?d (pd_index virt))"
    using ok v by (auto simp: user_ok_def)
  have below: "virt < KERNEL_START"
    using pd by (simp add: unat_pd_index KERNEL_START_def word_less_nat_alt)
  have pd': "pd_index virt < 1023" using pd by simp
  have "if present (ram s ?d (pd_index virt)) then is_table (ram s ?d (pd_index virt))
      else \<not> pmm_window (frames s) \<subseteq> used_frames (frames s)"
    using pde dir_table_room [OF room [unfolded user_need_def] user_finite [OF ok] v] by auto
  then obtain t f where t: "map_in_dir virt phys flags s = Some t" "mapped s ?d virt ?e f t" "same_setup s t"
    using map_in_dir_mapped [OF tabs refl w pd' fl] by blast
  have c: "cr3 t = cr3 s" using t(3) by (simp add: same_setup_def)
  note fr = mapped_frames [OF t(2)]
  have "present (ram t ?d j) \<longrightarrow> is_table (ram t ?d j)" if "j \<in> R" for j
    using ok that t(2) by (cases "j = pd_index virt") (auto simp: user_ok_def mapped_def)
  then have "user_ok R t"
    using ok mapped_tables_ok [OF t(2) tabs pd'] same_windowD [OF fr(2)] unfolding user_ok_def c by blast
  moreover have "user_need R t = user_need R s"
    using mapped_dir_need [OF t(2) v user_finite [OF ok]] by (simp add: user_need_def c)
  moreover have "space_tables t \<subseteq> space_tables s \<union> (used_frames (frames t) - used_frames (frames s))"
    using mapped_dir_tables [OF t(2) pd'] by (simp add: space_tables_def c)
  moreover have "translate t w = (case [unat virt div 4096 \<mapsto> pframe phys] (unat w div 4096) of
      None \<Rightarrow> translate s w | f \<Rightarrow> f)" if "pd_index w < 1023" for w
    using mapped_walks [OF t(2) tabs pd' present_entry that] pframe_entry(1) [OF fl(1)] by (simp add: translate_def c)
  moreover have "ram t ?d j = ram s ?d j" if "768 \<le> j" for j using t(2) pd that by (simp add: mapped_def)
  ultimately have "user_step R [unat virt div 4096 \<mapsto> pframe phys] 0 s t"
    using t(3) fr mapped_keeps_memory [OF t(2,3) pd pde] by (simp add: user_step_def)
  moreover have "mem_map_page virt phys flags s = Some t"
    using t(1) enter_user [OF below] by (simp add: mem_map_page_def)
  ultimately show ?thesis by blast
qed

interpretation uspace: address_space "user_ok R" "user_step R" "user_need R" space_tables "\<lambda>v. pd_index v \<in> R" for R
proof unfold_locales
  show "\<exists>n pm. pmm_alloc_pageframe (frames s) = Some (frame_addr n, pm)
      \<and> user_step R (\<lambda>_. None) 1 s (s\<lparr>frames := pm\<rparr>) \<and> n \<in> pmm_window (frames s) \<and> n < PAGE_FRAMES \<and> 0 < n
      \<and> n \<notin> used_frames (frames s) \<and> used_frames pm = insert n (used_frames (frames s))
      \<and> n \<notin> space_tables (s\<lparr>frames := pm\<rparr>)" if "user_ok R s" "user_need R s < frame_room s" for s
    using that by (rule user_alloc)
  show "\<exists>t. mem_map_page virt phys flags s = Some t \<and> user_step R [unat virt div 4096 \<mapsto> pframe phys] 0 s t"
    if "user_ok R s" "pd_index virt \<in> R" "user_need R s \<le> frame_room s" "flags < 4096" "\<not> bit flags 7" for s virt phys flags
    using that by (rule user_map)
qed (fact user_step_refl user_step_trans user_stepD)+

abbreviation user_run :: "nat set \<Rightarrow> nat \<Rightarrow> nat \<Rightarrow> (nat \<Rightarrow> nat) \<Rightarrow> mmu_state \<Rightarrow> mmu_state \<Rightarrow> bool" where
  "user_run R \<equiv> fresh_run (user_step R) space_tables"

lemma user_flags_ok: "user_flags < 4096" "\<not> bit user_flags 7"
  by (simp_all add: user_flags_def page_flags)

text \<open>The loops of \<open>mapMemoryForProgramm\<close> and \<open>createUserThread\<close>; page numbers instead of addresses.\<close>

lemma run_page:
  assumes "unat base = 4096 * b" and "b + n \<le> 0xC0000" and "i < n"
  shows "unat (base + of_nat i * PAGE_SIZE) = 4096 * (b + i)" "pd_index (base + of_nat i * PAGE_SIZE) = (b + i) div 1024"
    and "unat (base + of_nat i * PAGE_SIZE) div 4096 = b + i"
proof -
  have i: "unat (of_nat i :: u32) = i" using assms(2,3) by (intro unat_u32_of_nat) simp
  have "unat (of_nat i * PAGE_SIZE) = i * 4096"
    using assms(2,3) by (simp add: unat_word_ariths i PAGE_SIZE_def)
  then show u: "unat (base + of_nat i * PAGE_SIZE) = 4096 * (b + i)"
    using assms by (simp add: unat_word_ariths(1))
  have "4096 * (b + i) div (4096 * 1024) = (b + i) div 1024" by (rule div_mult_mult1) simp
  then show "pd_index (base + of_nat i * PAGE_SIZE) = (b + i) div 1024" by (simp add: unat_pd_index u)
  show "unat (base + of_nat i * PAGE_SIZE) div 4096 = b + i" by (simp add: u)
qed

lemma map_user_pages_run:
  assumes "user_ok R m" and "user_need R m + n \<le> frame_room m" and "unat base = 4096 * b" and "b + n \<le> 0xC0000"
    and "\<And>i. i < n \<Longrightarrow> (b + i) div 1024 \<in> R"
  shows "\<exists>m' p. map_user_pages base n m = Some m' \<and> user_run R b n p m m'"
proof -
  have "pd_index (base + of_nat i * PAGE_SIZE) \<in> R \<and> unat (base + of_nat i * PAGE_SIZE) div 4096 = b + i" if "i < n" for i
    using run_page(2,3) [OF assms(3,4) that] assms(5) [OF that] by simp
  from uspace.fresh_pages [OF assms(1,2) this user_flags_ok]
  show ?thesis unfolding map_user_pages_def map_user_page_def by simp
qed

section \<open>The directory of a new process\<close>

text \<open>What the kernel keeps so that it can make page directories.\<close>

definition dirs_ready :: "mmu_state \<Rightarrow> bool" where
  "dirs_ready m \<longleftrightarrow> kernel_ok m \<and> tables_ok m (kdir_frame m) \<and> window_ok (frames m) \<and> pageDirs m AND 0xFFF = 0
     \<and> (\<forall>i<NUM_PAGE_DIRS. page_dir m i \<noteq> 0)"

lemma page_dir_entry:
  fixes m :: mmu_state and i :: nat
  assumes "pageDirs m AND 0xFFF = 0"
  defines "e \<equiv> (page_dir m i - KERNEL_START) OR PAGE_FLAG_PRESENT OR PAGE_FLAG_WRITE"
  shows "present e" "e AND PAGE_FLAG_4MB = 0" "pframe e = pdir_frame m i"
proof -
  have "(0xFFF :: u32) = mask 12" by (simp add: mask_eq_exp_minus_1)
  then have "take_bit 12 (pageDirs m) = 0" using assms(1) by (simp add: take_bit_eq_mask)
  then have "(4096 :: u32) dvd pageDirs m" by (simp add: take_bit_eq_0_iff)
  moreover have "(4096 :: u32) dvd of_nat i * PAGE_SIZE" by (simp add: PAGE_SIZE_def)
  moreover have "(KERNEL_START :: u32) = 4096 * 0xC0000" by (simp add: KERNEL_START_def)
  then have "(4096 :: u32) dvd KERNEL_START" by (rule dvdI)
  ultimately have "(4096 :: u32) dvd page_dir m i - KERNEL_START" unfolding page_dir_def by (intro dvd_add dvd_diff)
  then have "take_bit 12 (page_dir m i - KERNEL_START) = 0" by (simp add: take_bit_eq_0_iff)
  then have "\<not> bit (take_bit 12 (page_dir m i - KERNEL_START)) 7" by simp
  then have "\<not> bit (page_dir m i - KERNEL_START) 7" unfolding bit_take_bit_iff by simp
  then show "e AND PAGE_FLAG_4MB = 0" unfolding big_bit e_def by (simp add: bit_simps page_flags)
  show "present e" unfolding e_def by (rule present_entry)
  show "pframe e = pdir_frame m i"
    by (simp add: e_def pdir_frame_def pframe_or or_small page_flags drop_small)
qed

text \<open>The state in which the pages of the new process are mapped.\<close>

definition new_space :: "nat \<Rightarrow> mmu_state \<Rightarrow> mmu_state" where
  "new_space i m = mem_change_page_directory (page_dir m i) (fill_page_dir i (m\<lparr>pageDirsUsed := (pageDirsUsed m)(i := 1)\<rparr>))"

lemma new_space_alloc:
  assumes "first_unused_dir m = Some i"
  obtains m' where "mem_alloc_page_dir m = (page_dir m i, m')" "mem_change_page_directory (page_dir m i) m' = new_space i m"
  by (simp add: mem_alloc_page_dir_def assms new_space_def)

lemma first_unused_bound: "first_unused_dir m = Some i \<Longrightarrow> i < NUM_PAGE_DIRS"
  by (auto simp: first_unused_dir_def find_Some_iff)

lemma new_space_state:
  assumes "dirs_ok m" and "i < NUM_PAGE_DIRS"
  shows "cur_dir (new_space i m) = pdir_frame m i" "frames (new_space i m) = frames m"
    and "kernel_directory (new_space i m) = kernel_directory m" "pageDirs (new_space i m) = pageDirs m"
    and "pageDirsUsed (new_space i m) = (pageDirsUsed m)(i := 1)" "cr3 (new_space i m) = page_dir m i - KERNEL_START"
    and "g \<noteq> pdir_frame m i \<Longrightarrow> ram (new_space i m) g = ram m g"
    and "j < 1024 \<Longrightarrow> ram (new_space i m) (pdir_frame m i) j =
      (if j < 768 then 0 else if j < 1023 then ram m (kdir_frame m) j AND NOT PAGE_FLAG_OWNER
       else (page_dir m i - KERNEL_START) OR PAGE_FLAG_PRESENT OR PAGE_FLAG_WRITE)"
proof -
  have pk: "pdir_frame m i \<noteq> kdir_frame m" using assms unfolding dirs_ok_def by (metis imageI lessThan_iff)
  define m1 where "m1 = m\<lparr>pageDirsUsed := (pageDirsUsed m)(i := 1)\<rparr>"
  have fr: "pdir_frame m1 = pdir_frame m" "kdir_frame m1 = kdir_frame m" "page_dir m1 = page_dir m" "ram m1 = ram m"
    by (simp_all add: m1_def page_dir_def fun_eq_iff)
  have pk1: "pdir_frame m1 i \<noteq> kdir_frame m1" using pk by (simp add: fr)
  note run = fill_page_dir_ram [OF pk1, unfolded fr]
  show "cur_dir (new_space i m) = pdir_frame m i"
    by (simp add: new_space_def mem_change_page_directory_def pdir_frame_def)
  show "frames (new_space i m) = frames m" "kernel_directory (new_space i m) = kernel_directory m"
    "pageDirs (new_space i m) = pageDirs m" "pageDirsUsed (new_space i m) = (pageDirsUsed m)(i := 1)"
    "cr3 (new_space i m) = page_dir m i - KERNEL_START"
    unfolding new_space_def m1_def [symmetric] run by (simp_all add: mem_change_page_directory_def) (simp_all add: m1_def)
  show "g \<noteq> pdir_frame m i \<Longrightarrow> ram (new_space i m) g = ram m g"
    unfolding new_space_def m1_def [symmetric] run by (simp add: mem_change_page_directory_def)
  show "j < 1024 \<Longrightarrow> ram (new_space i m) (pdir_frame m i) j =
      (if j < 768 then 0 else if j < 1023 then ram m (kdir_frame m) j AND NOT PAGE_FLAG_OWNER
       else (page_dir m i - KERNEL_START) OR PAGE_FLAG_PRESENT OR PAGE_FLAG_WRITE)"
    unfolding new_space_def m1_def [symmetric] run by (simp add: mem_change_page_directory_def)
qed

lemma not_table_0: "\<not> present 0" "\<not> is_table 0"
  by (simp_all add: present_bit is_table_def)

lemma new_space_entry:
  assumes "dirs_ok m" and "i < NUM_PAGE_DIRS" and "j < 1023"
  shows "is_table (ram (new_space i m) (pdir_frame m i) j) \<longleftrightarrow> 768 \<le> j \<and> is_table (ram m (kdir_frame m) j)"
    and "768 \<le> j \<Longrightarrow> pframe (ram (new_space i m) (pdir_frame m i) j) = pframe (ram m (kdir_frame m) j)"
    and "present (ram (new_space i m) (pdir_frame m i) j) \<longleftrightarrow> 768 \<le> j \<and> present (ram m (kdir_frame m) j)"
  using new_space_state(8) [OF assms(1,2), of j] assms(3) by (simp_all add: not_table_0 not_owner_table not_owner)

lemma new_space_ok:
  assumes m: "dirs_ready m" and i: "i < NUM_PAGE_DIRS" and R: "R \<subseteq> {..<768}"
  shows "user_ok R (new_space i m)" "user_tables (new_space i m) = {}"
    and "space_tables (new_space i m) \<subseteq> table_frames m"
    and "user_need R (new_space i m) = card (used_frames (frames m) \<inter> pmm_window (frames m)) + card R"
    and "pd_index v < 1023 \<Longrightarrow> translate (new_space i m) v = (if pd_index v < 768 then None else walk (ram m) (kdir_frame m) v)"
proof -
  let ?s = "new_space i m" and ?d = "pdir_frame m i"
  have d: "dirs_ok m" and tk: "tables_ok m (kdir_frame m)" and w: "window_ok (frames m)" and al: "pageDirs m AND 0xFFF = 0"
    and kp: "\<And>j. j < 1023 \<Longrightarrow> is_table (ram m (kdir_frame m) j) \<Longrightarrow> pframe (ram m (kdir_frame m) j) \<noteq> ?d" and hd: "held m ?d"
    using m i by (auto simp: dirs_ready_def kernel_ok_def)
  note st = new_space_state [OF d i] and en = new_space_entry [OF d i]
  have h: "held ?s = held m" by (simp add: held_def st(2) fun_eq_iff)
  have "recursive (ram ?s) ?d"
    using page_dir_entry [OF al, of i] st(8) [of 1023] by (simp add: recursive_def)
  moreover have "held ?s (pframe (ram m (kdir_frame m) j))" if "j < 1023" "is_table (ram m (kdir_frame m) j)" for j
    using tk that h by (auto simp: tables_ok_def)
  moreover have "j = k" if "j < 1023" "k < 1023" "is_table (ram m (kdir_frame m) j)" "is_table (ram m (kdir_frame m) k)"
      "pframe (ram m (kdir_frame m) j) = pframe (ram m (kdir_frame m) k)" for j k
    using tk that unfolding tables_ok_def by blast
  ultimately have "tables_ok ?s ?d"
    unfolding tables_ok_def using hd h kp en(1,2) by metis
  moreover have "\<not> present (ram ?s ?d j)" if "j \<in> R" for j
    using en(3) [of j] R that by auto
  ultimately show "user_ok R ?s" using R w unfolding user_ok_def st(1,2) by blast
  show "user_tables ?s = {}" using en(1) by (auto simp: user_tables_def st(1))
  show "space_tables ?s \<subseteq> table_frames m"
    using en(1,2) by (auto simp: space_tables_def table_frames_def dir_tables_def st(1))
  have "{j \<in> R. \<not> present (ram ?s ?d j)} = R" using en(3) R by auto
  then show "user_need R ?s = card (used_frames (frames m) \<inter> pmm_window (frames m)) + card R"
    by (simp add: user_need_def dir_need_def st(1,2))
  have tr: "ram ?s (pframe (ram m (kdir_frame m) j)) = ram m (pframe (ram m (kdir_frame m) j))"
    if "j < 1023" "is_table (ram m (kdir_frame m) j)" for j
    using st(7) kp [OF that] by simp
  show "translate ?s v = (if pd_index v < 768 then None else walk (ram m) (kdir_frame m) v)" if "pd_index v < 1023" for v
  proof (cases "pd_index v < 768")
    case True
    then show ?thesis using en(3) [OF that] by (simp add: translate_def walk_def st(1) Let_def)
  next
    case False
    have "ram ?s ?d (pd_index v) = ram m (kdir_frame m) (pd_index v) AND NOT PAGE_FLAG_OWNER"
      using st(8) [of "pd_index v"] that False by simp
    then show ?thesis
      using False tr [OF that] by (auto simp: translate_def walk_def st(1) Let_def not_owner is_table_def)
  qed
qed

section \<open>The bytes of the program\<close>

text \<open>Stores reach the frames of their pages only.\<close>

lemma store_byte_ram:
  assumes "store_byte v b m = Some m'" and "translate m v = Some fr"
  obtains r where "m' = m\<lparr>ram := r\<rparr>" and "\<And>g. g \<noteq> fr \<Longrightarrow> r g = ram m g"
  using assms by (auto simp: store_byte_def poke_def Let_def)

lemma store_bytes_ram:
  assumes ok: "buffer_ok m v (length bs)" and st: "store_bytes v bs m = Some m'"
    and F: "\<And>i fr. i < length bs \<Longrightarrow> translate m (v + of_nat i) = Some fr \<Longrightarrow> fr \<in> F"
  shows "\<exists>r. m' = m\<lparr>ram := r\<rparr> \<and> (\<forall>g. g \<notin> F \<longrightarrow> r g = ram m g)"
proof -
  let ?P = "\<lambda>k t. translate t = translate m \<and> walk_frames t = walk_frames m
    \<and> (\<exists>r. t = m\<lparr>ram := r\<rparr> \<and> (\<forall>g. g \<notin> F \<longrightarrow> r g = ram m g))"
  have "\<exists>t. fold_opt (\<lambda>i. store_byte (v + of_nat i) (bs ! i)) [0..<length bs] m = Some t \<and> ?P (length bs) t"
  proof (rule fold_opt_upt [where P = ?P])
    show "?P 0 m" by (auto intro!: exI [of _ "ram m"])
  next
    fix k t assume k: "k < length bs" and P: "?P k t"
    obtain fr where fr: "translate m (v + of_nat k) = Some fr" "fr \<notin> walk_frames m"
      using ok k by (auto simp: buffer_ok_def)
    have t: "translate t (v + of_nat k) = Some fr" "fr \<notin> walk_frames t" using fr P by simp_all
    obtain u where u: "store_byte (v + of_nat k) (bs ! k) t = Some u" "walk_frames u = walk_frames t" "translate u = translate t"
      using store_byte_run [OF t, of "bs ! k"] by (elim exE conjE) (rule that)
    obtain r' where r': "u = t\<lparr>ram := r'\<rparr>" "\<And>g. g \<noteq> fr \<Longrightarrow> r' g = ram t g"
      using store_byte_ram [OF u(1) t(1)] by blast
    obtain r where r: "t = m\<lparr>ram := r\<rparr>" "\<And>g. g \<notin> F \<Longrightarrow> r g = ram m g" using P by blast
    have "u = m\<lparr>ram := r'\<rparr>" using r' r(1) by simp
    moreover have "ram t = r" using r(1) by simp
    then have "\<forall>g. g \<notin> F \<longrightarrow> r' g = ram m g" using r'(2) r(2) F [OF k fr(1)] by metis
    ultimately have "?P (Suc k) u" using u(2,3) P by auto
    then show "\<exists>u. store_byte (v + of_nat k) (bs ! k) t = Some u \<and> ?P (Suc k) u" using u(1) by blast
  qed simp
  then show ?thesis using st by (auto simp: store_bytes_def)
qed

text \<open>The pages from number \<open>b\<close> on lie on the frames \<open>p\<close>; the address of page \<open>b\<close> is \<open>base\<close>.\<close>

definition pages_at :: "mmu_state \<Rightarrow> u32 \<Rightarrow> nat \<Rightarrow> (nat \<Rightarrow> nat) \<Rightarrow> bool" where
  "pages_at m base n p \<longleftrightarrow> unat base mod 4096 = 0 \<and> unat base + 4096 * n \<le> 0xC0000000 \<and> inj_on p {..<n}
     \<and> p ` {..<n} \<inter> walk_frames m = {}
     \<and> (\<forall>x < 4096 * n. translate m (base + of_nat x) = Some (p (x div 4096)))"

lemma low_bits: "(v AND 0xFFF :: u32) = of_nat (unat v mod 4096)"
proof -
  have "(0xFFF :: u32) = mask 12" by (simp add: mask_eq_exp_minus_1)
  then have "v AND 0xFFF = take_bit 12 v" by (simp add: take_bit_eq_mask)
  then show ?thesis by (simp add: take_bit_eq_mod word_unat_eq_iff unat_mod unat_of_nat)
qed

lemma pages_translate:
  "pages_at m base n p \<Longrightarrow> x < 4096 * n \<Longrightarrow> translate m (base + of_nat x) = Some (p (x div 4096)) \<and> x div 4096 < n"
  by (simp add: pages_at_def less_mult_imp_div_less mult.commute)

lemma pages_place:
  assumes "pages_at m base n p" and "x < 4096 * n"
  shows "place m (base + of_nat x) = Some (p (x div 4096), of_nat (x mod 4096))"
proof -
  have b: "unat base mod 4096 = 0" "unat base + x < 0xC0000000" using assms by (auto simp: pages_at_def)
  have "unat (of_nat x :: u32) = x" using b(2) by (intro unat_u32_of_nat) simp
  then have "unat (base + of_nat x) = unat base + x" using b(2) by (simp add: unat_word_ariths(1))
  moreover have "(unat base + x) mod 4096 = x mod 4096" using b(1) by (metis add.left_neutral mod_add_left_eq)
  ultimately show ?thesis using assms by (simp add: place_def low_bits pages_at_def)
qed

lemma pages_place_eq:
  assumes "pages_at m base n p" and "x < 4096 * n" and "y < 4096 * n"
  shows "place m (base + of_nat x) = place m (base + of_nat y) \<longleftrightarrow> x = y"
proof
  assume "place m (base + of_nat x) = place m (base + of_nat y)"
  then have eq: "p (x div 4096) = p (y div 4096)" "(of_nat (x mod 4096) :: u32) = of_nat (y mod 4096)"
    using pages_place [OF assms(1,2)] pages_place [OF assms(1,3)] by simp_all
  have "x div 4096 < n" "y div 4096 < n" using assms(2,3) by (simp_all add: less_mult_imp_div_less mult.commute)
  then have d: "x div 4096 = y div 4096"
    using eq(1) assms(1) by (auto simp: pages_at_def inj_on_def)
  have "unat (of_nat (z mod 4096) :: u32) = z mod 4096" for z by (intro unat_u32_of_nat) (simp add: less_trans [of "z mod 4096" 4096])
  then have "x mod 4096 = y mod 4096" using eq(2) by metis
  then show "x = y" using d by (metis div_mult_mod_eq)
qed simp

lemma pages_buffer:
  assumes "pages_at m base n p" and "x + k \<le> 4096 * n"
  shows "buffer_ok m (base + of_nat x) k"
  unfolding buffer_ok_def
proof (intro conjI allI impI inj_onI)
  fix i assume "i < k"
  then have "x + i < 4096 * n" using assms(2) by simp
  then have "translate m (base + of_nat (x + i)) = Some (p ((x + i) div 4096))" "(x + i) div 4096 < n"
    using pages_translate [OF assms(1), of "x + i"] by blast+
  moreover from this have "p ((x + i) div 4096) \<notin> walk_frames m" using assms(1) by (auto simp: pages_at_def)
  ultimately show "\<exists>fr. translate m (base + of_nat x + of_nat i) = Some fr \<and> fr \<notin> walk_frames m" by (simp add: add.assoc)
next
  fix i j assume ij: "i \<in> {..<k}" "j \<in> {..<k}" and "place m (base + of_nat x + of_nat i) = place m (base + of_nat x + of_nat j)"
  then have "place m (base + of_nat (x + i)) = place m (base + of_nat (x + j))" by (simp add: add.assoc)
  then show "i = j" using pages_place_eq [OF assms(1), of "x + i" "x + j"] ij assms(2) by simp
qed

text \<open>What \<open>f_read\<close> delivers of a file, 4096 bytes at a time.\<close>

definition page_of :: "u8 list \<Rightarrow> nat \<Rightarrow> u8 list" where
  "page_of data i = take 4096 (drop (4096 * i) data)"

text \<open>One page of the program.\<close>

lemma copy_page:
  assumes at: "pages_at m base n p" and "i < n"
  shows "\<exists>r. fold_opt (\<lambda>j. store_byte (base + of_nat i * PAGE_SIZE + of_nat j) (page_of data i ! j)) [0..<length (page_of data i)] m
      = Some (m\<lparr>ram := r\<rparr>) \<and> (\<forall>g. g \<notin> p ` {..<n} \<longrightarrow> r g = ram m g) \<and> pages_at (m\<lparr>ram := r\<rparr>) base n p
    \<and> (\<forall>x < length data. x < 4096 * n \<longrightarrow> load_byte (m\<lparr>ram := r\<rparr>) (base + of_nat x)
        = (if x div 4096 = i then Some (data ! x) else load_byte m (base + of_nat x)))"
proof -
  let ?v = "base + of_nat (4096 * i)" and ?bs = "page_of data i"
  have len: "length ?bs \<le> 4096" "4096 * i + 4096 \<le> 4096 * n" using assms(2) by (simp_all add: page_of_def)
  then have buf: "buffer_ok m ?v (length ?bs)" by (intro pages_buffer [OF at]) simp
  obtain m' where m': "store_bytes ?v ?bs m = Some m'" "walk_frames m' = walk_frames m" "translate m' = translate m"
      "\<forall>j < length ?bs. load_byte m' (?v + of_nat j) = Some (?bs ! j)"
      "\<forall>w. (\<forall>j < length ?bs. place m w \<noteq> place m (?v + of_nat j)) \<longrightarrow> load_byte m' w = load_byte m w"
    using store_bytes_run [OF buf] by (elim exE conjE) (rule that)
  have in_run: "fr \<in> p ` {..<n}" if "j < length ?bs" "translate m (?v + of_nat j) = Some fr" for j fr
  proof -
    have x: "4096 * i + j < 4096 * n" using that(1) len by simp
    have "base + of_nat (4096 * i + j) = ?v + of_nat j" by (simp add: add.assoc)
    then have "translate m (?v + of_nat j) = Some (p ((4096 * i + j) div 4096))" "(4096 * i + j) div 4096 < n"
      using pages_translate [OF at x] by metis+
    then show ?thesis using that(2) by auto
  qed
  have "\<exists>r. m' = m\<lparr>ram := r\<rparr> \<and> (\<forall>g. g \<notin> p ` {..<n} \<longrightarrow> r g = ram m g)"
    by (rule store_bytes_ram [OF buf m'(1)]) (rule in_run)
  then obtain r where r: "m' = m\<lparr>ram := r\<rparr>" "\<forall>g. g \<notin> p ` {..<n} \<longrightarrow> r g = ram m g" by blast
  have load: "load_byte m' (base + of_nat x) = (if x div 4096 = i then Some (data ! x) else load_byte m (base + of_nat x))"
    if x: "x < length data" "x < 4096 * n" for x
  proof (cases "x div 4096 = i")
    case True
    then have "x = 4096 * i + x mod 4096" by (metis mult_div_mod_eq)
    then obtain j where j: "x = 4096 * i + j" "j < 4096" by (metis mod_less_divisor zero_less_numeral)
    then have "j < length ?bs" using x(1) by (simp add: page_of_def)
    moreover have "4096 * i \<le> length data" using j(1) x(1) by simp
    then have "?bs ! j = data ! x" using j(2) by (simp add: page_of_def j(1))
    ultimately show ?thesis using m'(4) True by (auto simp: j(1) add.assoc)
  next
    case False
    have "place m (base + of_nat x) \<noteq> place m (?v + of_nat j)" if "j < length ?bs" for j
    proof -
      have j: "j < 4096" "4096 * i + j < 4096 * n" using that len by simp_all
      have "(4096 * i + j) div 4096 = i" using j(1) by simp
      then have "x \<noteq> 4096 * i + j" using False by blast
      then show ?thesis using pages_place_eq [OF at x(2) j(2)] by (simp add: add.assoc)
    qed
    then show ?thesis using m'(5) False by simp
  qed
  have "base + of_nat i * PAGE_SIZE = ?v" by (simp add: PAGE_SIZE_def mult.commute)
  moreover have "pages_at m' base n p" using at m'(2,3) by (simp add: pages_at_def)
  ultimately show ?thesis using m'(1) r(2) load unfolding r(1) store_bytes_def by auto
qed

text \<open>The loop of \<open>copyProgramToAddress\<close> over the whole file.\<close>

lemma copy_pages_run:
  assumes "pages_at m base n p" and "i + k \<le> n" and "\<And>j. i \<le> j \<Longrightarrow> j < i + k \<Longrightarrow> chunk j = (FR_OK, page_of data j)"
  shows "\<exists>r. copy_pages chunk base i k m = Some (m\<lparr>ram := r\<rparr>) \<and> (\<forall>g. g \<notin> p ` {..<n} \<longrightarrow> r g = ram m g)
    \<and> pages_at (m\<lparr>ram := r\<rparr>) base n p
    \<and> (\<forall>x < length data. x < 4096 * n \<longrightarrow> load_byte (m\<lparr>ram := r\<rparr>) (base + of_nat x)
        = (if i \<le> x div 4096 \<and> x div 4096 < i + k then Some (data ! x) else load_byte m (base + of_nat x)))"
  using assms
proof (induction k arbitrary: i m)
  case 0
  then show ?case by (intro exI [of _ "ram m"]) auto
next
  case (Suc k)
  have i: "i < n" using Suc.prems(2) by simp
  obtain r where r: "fold_opt (\<lambda>j. store_byte (base + of_nat i * PAGE_SIZE + of_nat j) (page_of data i ! j)) [0..<length (page_of data i)] m
        = Some (m\<lparr>ram := r\<rparr>)" "\<forall>g. g \<notin> p ` {..<n} \<longrightarrow> r g = ram m g" "pages_at (m\<lparr>ram := r\<rparr>) base n p"
      "\<forall>x < length data. x < 4096 * n \<longrightarrow> load_byte (m\<lparr>ram := r\<rparr>) (base + of_nat x)
        = (if x div 4096 = i then Some (data ! x) else load_byte m (base + of_nat x))"
    using copy_page [OF Suc.prems(1) i, of data] by (elim exE conjE) (rule that)
  have k: "Suc i + k \<le> n" "\<And>j. Suc i \<le> j \<Longrightarrow> j < Suc i + k \<Longrightarrow> chunk j = (FR_OK, page_of data j)"
    using Suc.prems(2,3) by simp_all
  obtain r' where r': "copy_pages chunk base (Suc i) k (m\<lparr>ram := r\<rparr>) = Some (m\<lparr>ram := r'\<rparr>)" "\<forall>g. g \<notin> p ` {..<n} \<longrightarrow> r' g = r g"
      "pages_at (m\<lparr>ram := r'\<rparr>) base n p"
      "\<forall>x < length data. x < 4096 * n \<longrightarrow> load_byte (m\<lparr>ram := r'\<rparr>) (base + of_nat x)
        = (if Suc i \<le> x div 4096 \<and> x div 4096 < Suc i + k then Some (data ! x) else load_byte (m\<lparr>ram := r\<rparr>) (base + of_nat x))"
    using Suc.IH [OF r(3) k] by auto
  have "chunk i = (FR_OK, page_of data i)" using Suc.prems(3) by simp
  then have "copy_pages chunk base i (Suc k) m = Some (m\<lparr>ram := r'\<rparr>)" using r(1) r'(1) by (simp add: Let_def)
  moreover have "load_byte (m\<lparr>ram := r'\<rparr>) (base + of_nat x)
      = (if i \<le> x div 4096 \<and> x div 4096 < i + Suc k then Some (data ! x) else load_byte m (base + of_nat x))"
    if "x < length data" "x < 4096 * n" for x
    using r(4) r'(4) that by (cases "x div 4096 = i") auto
  ultimately show ?case using r(2) r'(2,3) by (intro exI [of _ r']) simp
qed

section \<open>The whole user half\<close>

lemma user_cong:
  assumes "ram s' (cur_dir s) = ram s (cur_dir s)" and "cr3 s' = cr3 s" and "frames s' = frames s"
  shows "user_ok R s' = user_ok R s" "user_need R s' = user_need R s" "user_tables s' = user_tables s"
    and "space_tables s' = space_tables s" "held s' = held s"
proof -
  show h: "held s' = held s" by (simp add: held_def assms(3) fun_eq_iff)
  show "user_ok R s' = user_ok R s"
    by (simp add: user_ok_def tables_ok_def recursive_def h assms)
  show "user_need R s' = user_need R s" "user_tables s' = user_tables s" "space_tables s' = space_tables s"
    by (simp_all add: user_need_def dir_need_def user_tables_def space_tables_def dir_tables_def assms)
qed

lemma walk_frames_space: "tables_ok s (cur_dir s) \<Longrightarrow> walk_frames s \<subseteq> insert (cur_dir s) (space_tables s)"
proof
  fix g assume ok: "tables_ok s (cur_dir s)" and "g \<in> walk_frames s"
  then consider "g = cur_dir s" | j where "j < 1024" "is_table (ram s (cur_dir s) j)" "g = pframe (ram s (cur_dir s) j)"
    by (auto simp: walk_frames_def is_table_def)
  then show "g \<in> insert (cur_dir s) (space_tables s)"
  proof cases
    case (2 j)
    have "pframe (ram s (cur_dir s) 1023) = cur_dir s" using ok by (simp add: tables_ok_def recursive_def)
    then show ?thesis using 2 by (cases "j = 1023") (auto simp: space_tables_def dir_tables_def)
  qed simp
qed

lemma user_tables_space: "user_tables s \<subseteq> space_tables s"
  by (auto simp: user_tables_def space_tables_def dir_tables_def)

text \<open>The directory entries of the program, the heap and the stack of a process.\<close>

definition process_pdes :: "nat set" where
  "process_pdes = {1, 2, 3, 4, 5, 703}"

lemma process_pdes: "process_pdes \<subseteq> {..<768}" "card process_pdes = 6"
  "i < 1280 \<Longrightarrow> (0x400 + i) div 1024 \<in> process_pdes" "i < 100 \<Longrightarrow> (0xAFF9C + i) div 1024 \<in> process_pdes"
  "i < 4096 \<Longrightarrow> (0x800 + i) div 1024 \<in> process_pdes"
proof -
  show "process_pdes \<subseteq> {..<768}" "card process_pdes = 6" by (auto simp: process_pdes_def)
  have "(0x400 + i) div 1024 \<in> {1, 2}" if "i < 1280"
  proof -
    have "(0x400 + i) div 1024 < 3" "0 < (0x400 + i) div 1024" using that by (simp_all add: div_less_iff_less_mult)
    then show ?thesis by auto
  qed
  then show "i < 1280 \<Longrightarrow> (0x400 + i) div 1024 \<in> process_pdes" by (auto simp: process_pdes_def)
  have "(0xAFF9C + i) div 1024 = 703" if "i < 100"
    using that by (intro div_nat_eqI) simp_all
  then show "i < 100 \<Longrightarrow> (0xAFF9C + i) div 1024 \<in> process_pdes" by (simp add: process_pdes_def)
  have "(0x800 + i) div 1024 \<in> {2, 3, 4, 5}" if "i < 4096"
  proof -
    have "(0x800 + i) div 1024 < 6" "2 \<le> (0x800 + i) div 1024"
      using that div_le_mono [of 2048 "0x800 + i" 1024] by (simp_all add: div_less_iff_less_mult)
    then show ?thesis by auto
  qed
  then show "i < 4096 \<Longrightarrow> (0x800 + i) div 1024 \<in> process_pdes" by (auto simp: process_pdes_def)
qed

text \<open>A run of pages after another one: what it leaves of the first, and that their frames differ.\<close>

lemma run_pages_at:
  assumes run: "user_run R b n p s s'" and base: "unat base = 4096 * b" "b + n \<le> 0xC0000" and ok: "user_ok R s"
  shows "pages_at s' base n p"
proof -
  have st: "user_step R (frames_run b n p) n s s'" and inj: "inj_on p {..<n}"
    and p: "p ` {..<n} \<subseteq> pmm_window (frames s) - used_frames (frames s) - space_tables s'" using run by (auto simp: fresh_run_def)
  note d = user_stepD [OF st]
  have "tables_ok s' (cur_dir s')" using d(1) by (simp add: user_ok_def)
  then have wf: "walk_frames s' \<subseteq> insert (cur_dir s) (space_tables s')" using walk_frames_space [of s'] d(9) by simp
  have "held s (cur_dir s)" using ok by (simp add: user_ok_def tables_ok_def)
  then have "cur_dir s \<notin> pmm_window (frames s) - used_frames (frames s)" by (simp add: held_def)
  then have "f \<notin> walk_frames s'" if "f \<in> p ` {..<n}" for f
    using subsetD [OF p that] wf by blast
  then have "p ` {..<n} \<inter> walk_frames s' = {}" by (meson disjoint_iff)
  moreover have "translate s' (base + of_nat x) = Some (p (x div 4096))" if x: "x < 4096 * n" for x
  proof -
    have "unat (of_nat x :: u32) = x" using x base(2) by (intro unat_u32_of_nat) simp
    then have u: "unat (base + of_nat x) = 4096 * b + x" using x base by (simp add: unat_word_ariths(1))
    then have "unat (base + of_nat x) div 4096 = b + x div 4096" by simp
    moreover have "x div 4096 < n" using x by (simp add: less_mult_imp_div_less mult.commute)
    moreover have "pd_index (base + of_nat x) < 1023"
      using x base(2) by (simp add: unat_pd_index u div_less_iff_less_mult)
    ultimately show ?thesis using d(7) [of "base + of_nat x"] by (simp add: frames_run_def)
  qed
  ultimately show ?thesis using inj base by (simp add: pages_at_def)
qed

definition pages_of :: "u8 list \<Rightarrow> nat" where
  "pages_of data = (length data + 4095) div 4096"

lemma pages_of_bound: "length data \<le> 4096 * pages_of data" "length data \<le> 0x400000 \<Longrightarrow> pages_of data \<le> 1024"
proof -
  show "length data \<le> 4096 * pages_of data" unfolding pages_of_def by simp
  show "length data \<le> 0x400000 \<Longrightarrow> pages_of data \<le> 1024"
    unfolding pages_of_def using div_le_mono [of "length data + 4095" "0x400000 + 4095" 4096] by simp
qed

lemma program_loaded:
  assumes m: "dirs_ready m" "i < NUM_PAGE_DIRS" and len: "length data \<le> 0x400000"
    and room: "card (used_frames (frames m) \<inter> pmm_window (frames m)) + pages_of data + 262 \<le> frame_room m"
    and chunk: "\<forall>j < pages_of data. chunk j = (FR_OK, page_of data j)"
  shows "\<exists>m1 r p. map_user_pages 0x400000 (pages_of data + 256) (new_space i m) = Some m1
    \<and> user_run process_pdes 0x400 (pages_of data + 256) p (new_space i m) m1
    \<and> copy_pages chunk 0x400000 0 (pages_of data) m1 = Some (m1\<lparr>ram := r\<rparr>)
    \<and> (\<forall>g. g \<notin> p ` {..<pages_of data + 256} \<longrightarrow> r g = ram m1 g)
    \<and> pages_at (m1\<lparr>ram := r\<rparr>) 0x400000 (pages_of data + 256) p
    \<and> (\<forall>x < length data. load_byte (m1\<lparr>ram := r\<rparr>) (0x400000 + of_nat x) = Some (data ! x))"
proof -
  let ?n = "pages_of data + 256" and ?s = "new_space i m"
  have n: "?n \<le> 1280" using pages_of_bound(2) [OF len] by simp
  note ok = new_space_ok [OF m process_pdes(1)]
  have need: "user_need process_pdes ?s + ?n \<le> frame_room ?s"
    using room ok(4) new_space_state(2) m by (simp add: process_pdes(2) frame_room_def dirs_ready_def kernel_ok_def)
  have base: "unat (0x400000 :: u32) = 4096 * 0x400" "0x400 + ?n \<le> 0xC0000" using n by simp_all
  have "(0x400 + i) div 1024 \<in> process_pdes" if "i < ?n" for i using process_pdes(3) that n by simp
  then obtain m1 p where m1: "map_user_pages 0x400000 ?n ?s = Some m1" "user_run process_pdes 0x400 ?n p ?s m1"
    using map_user_pages_run [OF ok(1) need base] by blast
  have at: "pages_at m1 0x400000 ?n p" by (rule run_pages_at [OF m1(2) base ok(1)])
  have copy: "chunk j = (FR_OK, page_of data j)" if "0 \<le> j" "j < 0 + pages_of data" for j using chunk that by simp
  have "0 + pages_of data \<le> ?n" by simp
  then have "\<exists>r. copy_pages chunk 0x400000 0 (pages_of data) m1 = Some (m1\<lparr>ram := r\<rparr>)
      \<and> (\<forall>g. g \<notin> p ` {..<?n} \<longrightarrow> r g = ram m1 g) \<and> pages_at (m1\<lparr>ram := r\<rparr>) 0x400000 ?n p
      \<and> (\<forall>x < length data. x < 4096 * ?n \<longrightarrow> load_byte (m1\<lparr>ram := r\<rparr>) (0x400000 + of_nat x)
        = (if 0 \<le> x div 4096 \<and> x div 4096 < 0 + pages_of data then Some (data ! x) else load_byte m1 (0x400000 + of_nat x)))"
    by (rule copy_pages_run [OF at]) (rule copy)
  then obtain r where
    r: "copy_pages chunk 0x400000 0 (pages_of data) m1 = Some (m1\<lparr>ram := r\<rparr>)"
      "\<forall>g. g \<notin> p ` {..<?n} \<longrightarrow> r g = ram m1 g" "pages_at (m1\<lparr>ram := r\<rparr>) 0x400000 ?n p"
      "\<forall>x < length data. x < 4096 * ?n \<longrightarrow> load_byte (m1\<lparr>ram := r\<rparr>) (0x400000 + of_nat x)
        = (if 0 \<le> x div 4096 \<and> x div 4096 < 0 + pages_of data then Some (data ! x) else load_byte m1 (0x400000 + of_nat x))"
    by (elim exE conjE) (rule that)
  have "load_byte (m1\<lparr>ram := r\<rparr>) (0x400000 + of_nat x) = Some (data ! x)" if "x < length data" for x
  proof -
    have x: "x < 4096 * pages_of data" using that pages_of_bound(1) [of data] by simp
    then have "x div 4096 < pages_of data" by (simp add: less_mult_imp_div_less mult.commute)
    then show ?thesis using r(4) that x by simp
  qed
  then show ?thesis using m1 r(1-3) by blast
qed

text \<open>The pages of a process of \<open>n\<close> program pages, and their frames.\<close>

definition process_pages :: "nat \<Rightarrow> (nat \<Rightarrow> nat) \<Rightarrow> (nat \<Rightarrow> nat) \<Rightarrow> (nat \<Rightarrow> nat) \<Rightarrow> nat \<Rightarrow> nat option" where
  "process_pages n p q h = frames_run 0x400 (n + 256) p ++ (frames_run 0xAFF9C 100 q ++ frames_run 0x800 4096 h)"

definition process_frames :: "nat \<Rightarrow> (nat \<Rightarrow> nat) \<Rightarrow> (nat \<Rightarrow> nat) \<Rightarrow> (nat \<Rightarrow> nat) \<Rightarrow> nat list" where
  "process_frames n p q h = map p [0..<n + 256] @ map q [0..<100] @ map h [0..<4096]"

lemma translate_cong:
  assumes "\<And>g. g \<in> walk_frames s \<Longrightarrow> ram s' g = ram s g" and "cr3 s' = cr3 s"
  shows "translate s' v = translate s v"
proof -
  have d: "ram s' (cur_dir s) = ram s (cur_dir s)" using assms(1) by (simp add: walk_frames_def)
  have "ram s' (pframe (ram s (cur_dir s) (pd_index v))) = ram s (pframe (ram s (cur_dir s) (pd_index v)))"
    if "present (ram s (cur_dir s) (pd_index v))" "ram s (cur_dir s) (pd_index v) AND PAGE_FLAG_4MB = 0"
    using that pd_index_bound [of v] by (intro assms(1)) (auto simp: walk_frames_def)
  then show ?thesis by (auto simp: translate_def walk_def Let_def assms(2) d)
qed

lemma held_not_fresh: "held s g \<Longrightarrow> g \<notin> pmm_window (frames s) - used_frames (frames s)"
  by (simp add: held_def)

text \<open>Filling the pages of a run leaves the address space as it is.\<close>

lemma filled_run:
  assumes run: "user_run R b n p s s1" and at: "pages_at s1 base n p" and r: "\<forall>g. g \<notin> p ` {..<n} \<longrightarrow> r g = ram s1 g"
  defines "s2 \<equiv> s1\<lparr>ram := r\<rparr>"
  shows "user_ok R s2" "user_need R s2 = user_need R s + n" "user_tables s2 = user_tables s1"
    and "space_tables s2 = space_tables s1" "translate s2 v = translate s1 v" "keeps_memory s s2"
    and "g \<in> p ` {..<n} \<Longrightarrow> held s2 g \<and> g \<noteq> cur_dir s2 \<and> g \<notin> user_tables s2"
proof -
  have st: "user_step R (frames_run b n p) n s s1"
    and p: "p ` {..<n} \<subseteq> pmm_window (frames s) \<inter> used_frames (frames s1) - used_frames (frames s) - space_tables s1"
    using run by (auto simp: fresh_run_def)
  note d = user_stepD [OF st]
  have out: "g \<notin> walk_frames s1" if "g \<in> p ` {..<n}" for g using at that by (auto simp: pages_at_def)
  have ram: "ram s2 g = ram s1 g" if "g \<notin> p ` {..<n}" for g using r that by (simp add: s2_def)
  have dir: "cur_dir s1 \<in> walk_frames s1" by (simp add: walk_frames_def)
  then have "ram s2 (cur_dir s1) = ram s1 (cur_dir s1)" using out ram by blast
  from user_cong [OF this] have c: "user_ok R s2 = user_ok R s1" "user_need R s2 = user_need R s1"
      "user_tables s2 = user_tables s1" "space_tables s2 = space_tables s1" "held s2 = held s1"
    by (simp_all add: s2_def)
  show "user_ok R s2" "user_need R s2 = user_need R s + n" "user_tables s2 = user_tables s1" "space_tables s2 = space_tables s1"
    using c d(1,5) by simp_all
  show "translate s2 v = translate s1 v"
    by (rule translate_cong) (use out ram in blast, simp add: s2_def)
  have "ram s2 g = ram s1 g" if "held s g" for g
    by (rule ram) (use held_not_fresh [OF that] p in blast)
  then show "keeps_memory s s2" using d(8) c(3) unfolding keeps_memory_def by simp
  show "held s2 g \<and> g \<noteq> cur_dir s2 \<and> g \<notin> user_tables s2" if g: "g \<in> p ` {..<n}"
  proof -
    have "g \<in> used_frames (frames s1)" "g \<notin> space_tables s1" using subsetD [OF p g] by blast+
    moreover have "g \<noteq> cur_dir s1" using out [OF g] dir by blast
    ultimately show ?thesis
      using user_tables_space [of s1] c(3,5) by (auto simp: held_def) (simp add: s2_def)
  qed
qed

lemma process_pages_user:
  assumes "768 \<le> pd_index v" and "n \<le> 1024"
  shows "process_pages n p q h (unat v div 4096) = None"
proof -
  have "0xC0000000 \<le> unat v" using assms(1) by (simp add: unat_pd_index less_eq_div_iff_mult_less_eq)
  then have "0xC0000 \<le> unat v div 4096" using div_le_mono [of "0xC0000000" "unat v" 4096] by simp
  then show ?thesis using assms(2) by (auto simp: process_pages_def frames_run_def map_add_def)
qed

lemma stack_base: "unat (USER_STACK_TOP - PAGE_SIZE * of_nat 100) = 4096 * 0xAFF9C" "0xAFF9C + (100 :: nat) \<le> 0xC0000"
  "unat (0x00800000 :: u32) = 4096 * 0x800" "0x800 + (4096 :: nat) \<le> 0xC0000"
  by (simp_all add: USER_STACK_TOP_def PAGE_SIZE_def)

end
