(* ===== verification/Process_Space.thy ===== *)
theory Process_Space
  imports User_Space
begin

text \<open>
  The address space of a process while \<open>createUserProcess\<close> builds it. Pages of the user half and, whenever the heap of the
  kernel has to grow for an object, pages of the kernel half are mapped in turn, all in the new directory. One
  invariant, \<open>building\<close>, describes the state between these steps: which pages the halves have, which frames were
  taken, and that nothing else in memory has changed. Each kind of step keeps it.
\<close>

section \<open>The invariant\<close>

text \<open>The pages behind block \<open>b\<close> of the heap, on the frames \<open>ks\<close>.\<close>

definition heap_pages :: "nat \<Rightarrow> nat list \<Rightarrow> nat \<Rightarrow> nat option" where
  "heap_pages b ks = frames_run (0xD0000 + b) (length ks) (nth ks)"

lemma heap_pages_Nil [simp]: "heap_pages b [] = Map.empty"
  by (simp add: heap_pages_def)

lemma heap_pages_append:
  "heap_pages b ks ++ frames_run (0xD0000 + b + length ks) e p = heap_pages b (ks @ map p [0..<e])"
proof
  fix g
  have "g - (0xD0000 + b) - length ks = g - (0xD0000 + b + length ks)" by simp
  then show "(heap_pages b ks ++ frames_run (0xD0000 + b + length ks) e p) g = heap_pages b (ks @ map p [0..<e]) g"
    by (auto simp: heap_pages_def frames_run_def map_add_def nth_append)
qed

lemma heap_pages_below: "heap_pages b ks g = Some f \<Longrightarrow> 0xD0000 \<le> g"
  by (auto simp: heap_pages_def frames_run_def split: if_splits)

definition missing_tables :: "mmu_state \<Rightarrow> nat" where
  "missing_tables s = card {j \<in> process_pdes. \<not> present (ram s (cur_dir s) j)}"

text \<open>
  From \<open>m\<close>, the space in directory \<open>i\<close> has come to \<open>s\<close>: its user half has the pages \<open>U\<close>, the kernel has got the pages
  of \<open>heap_pages b ks\<close>, and the frames \<open>D\<close> and \<open>ks\<close> were taken for them.
\<close>

definition building :: "nat \<Rightarrow> mmu_state \<Rightarrow> mmu_state \<Rightarrow> (nat \<Rightarrow> nat option) \<Rightarrow> nat list \<Rightarrow> nat \<Rightarrow> nat list \<Rightarrow> bool" where
  "building i m s U D b ks \<longleftrightarrow> i < NUM_PAGE_DIRS \<and> cr3 s = page_dir m i - KERNEL_START
     \<and> kernel_directory s = kernel_directory m \<and> pageDirs s = pageDirs m \<and> pageDirsUsed s = (pageDirsUsed m)(i := 1)
     \<and> same_window (frames m) (frames s) \<and> used_frames (frames m) \<subseteq> used_frames (frames s)
     \<and> kmem_ok heap_pdes s \<and> mirrors s i \<and> user_ok process_pdes s \<and> user_tables s \<inter> kernel_frames s = {}
     \<and> kmem_need heap_pdes s + missing_tables s = kmem_need heap_pdes m + 6 + length (D @ ks)
     \<and> distinct (D @ ks) \<and> set (D @ ks) \<subseteq> pmm_window (frames m) - used_frames (frames m)
     \<and> set (D @ ks) \<subseteq> used_frames (frames s) \<and> set (D @ ks) \<inter> (user_tables s \<union> kernel_frames s) = {}
     \<and> (\<forall>v. pd_index v < 768 \<longrightarrow> translate s v = U (unat v div 4096))
     \<and> (\<forall>v. pd_index v < 1023 \<longrightarrow> walk (ram s) (kdir_frame m) v =
          (case heap_pages b ks (unat v div 4096) of None \<Rightarrow> walk (ram m) (kdir_frame m) v | f \<Rightarrow> f))
     \<and> (\<forall>g. held m g \<longrightarrow> g \<notin> kernel_frames m \<longrightarrow> ram s g = ram m g \<and> g \<notin> kernel_frames s \<and> g \<notin> user_tables s)
     \<and> (\<forall>k j. k < NUM_PAGE_DIRS \<longrightarrow> k \<noteq> i \<longrightarrow> \<not> (768 \<le> j \<and> j < 1023) \<longrightarrow> ram s (pdir_frame m k) j = ram m (pdir_frame m k) j)
     \<and> (\<forall>k. dir_used m k \<longrightarrow> mirrors m k \<longrightarrow> mirrors s k)"

lemma buildingD:
  assumes "building i m s U D b ks"
  shows "i < NUM_PAGE_DIRS" "cr3 s = page_dir m i - KERNEL_START" "kernel_directory s = kernel_directory m" "pageDirs s = pageDirs m"
    and "pageDirsUsed s = (pageDirsUsed m)(i := 1)" "same_window (frames m) (frames s)"
    and "used_frames (frames m) \<subseteq> used_frames (frames s)" "kmem_ok heap_pdes s" "mirrors s i" "user_ok process_pdes s"
    and "user_tables s \<inter> kernel_frames s = {}"
    and "kmem_need heap_pdes s + missing_tables s = kmem_need heap_pdes m + 6 + length (D @ ks)"
    and "distinct (D @ ks)" "set (D @ ks) \<subseteq> pmm_window (frames m) - used_frames (frames m)"
    and "set (D @ ks) \<subseteq> used_frames (frames s)" "set (D @ ks) \<inter> (user_tables s \<union> kernel_frames s) = {}"
    and "pd_index v < 768 \<Longrightarrow> translate s v = U (unat v div 4096)"
    and "pd_index v < 1023 \<Longrightarrow> walk (ram s) (kdir_frame m) v =
          (case heap_pages b ks (unat v div 4096) of None \<Rightarrow> walk (ram m) (kdir_frame m) v | f \<Rightarrow> f)"
    and "held m g \<Longrightarrow> g \<notin> kernel_frames m \<Longrightarrow> ram s g = ram m g \<and> g \<notin> kernel_frames s \<and> g \<notin> user_tables s"
    and "k < NUM_PAGE_DIRS \<Longrightarrow> k \<noteq> i \<Longrightarrow> \<not> (768 \<le> j \<and> j < 1023) \<Longrightarrow> ram s (pdir_frame m k) j = ram m (pdir_frame m k) j"
    and "dir_used m k \<Longrightarrow> mirrors m k \<Longrightarrow> mirrors s k"
  using assms unfolding building_def by simp_all

lemma building_dirs:
  assumes "building i m s U D b ks"
  shows "kdir_frame s = kdir_frame m" "pdir_frame s = pdir_frame m" "cur_dir s = pdir_frame m i" "dir_used s i"
    and "pmm_window (frames s) = pmm_window (frames m)" "frame_room s = frame_room m" "sees_kernel s"
proof -
  note d = buildingD [OF assms]
  show k: "kdir_frame s = kdir_frame m" "pdir_frame s = pdir_frame m"
    by (simp_all add: kdir_frame_def pdir_frame_def page_dir_def d(3,4) fun_eq_iff)
  show c: "cur_dir s = pdir_frame m i" by (simp add: d(2) pdir_frame_def)
  show u: "dir_used s i" using d(1,5) by (simp add: dir_used_def)
  show "pmm_window (frames s) = pmm_window (frames m)" using same_windowD [OF d(6)] by simp
  then show "frame_room s = frame_room m" by (simp add: frame_room_def)
  have "held s (pframe (ram s (cur_dir s) j)) \<and> pframe (ram s (cur_dir s) j) \<notin> kernel_frames s"
    if "j < 768" "is_table (ram s (cur_dir s) j)" for j
  proof -
    have "pframe (ram s (cur_dir s) j) \<in> user_tables s" using that by (auto simp: user_tables_def)
    then show ?thesis using that d(10,11) by (auto simp: user_ok_def tables_ok_def)
  qed
  then show "sees_kernel s" unfolding sees_kernel_def using u c k(2) d(9) by auto
qed

text \<open>The frames of the kernel are held, and the directory of the process is one of them.\<close>

lemma kernel_frames_held:
  assumes "kmem_ok R s" and "g \<in> kernel_frames s"
  shows "held s g"
  using assms table_frames_held [OF assms(1), of g] by (auto simp: kernel_frames_def kmem_ok_def tables_ok_def kernel_ok_def)

lemma kernel_dirs:
  assumes "kmem_ok R s" and "k < NUM_PAGE_DIRS"
  shows "pdir_frame s k \<in> kernel_frames s" "pdir_frame s k \<noteq> kdir_frame s" "pdir_frame s k \<notin> table_frames s"
proof -
  have k: "kernel_ok s" using assms(1) by (simp add: kmem_ok_def)
  show "pdir_frame s k \<in> kernel_frames s" using assms(2) by (auto simp: kernel_frames_def)
  show "pdir_frame s k \<noteq> kdir_frame s" using k assms(2) unfolding kernel_ok_def dirs_ok_def by (metis imageI lessThan_iff)
  show "pdir_frame s k \<notin> table_frames s"
  proof
    assume "pdir_frame s k \<in> table_frames s"
    then obtain j where "pdir_frame s k = pframe (ram s (kdir_frame s) j)" "j < 1023" "is_table (ram s (kdir_frame s) j)"
      unfolding table_frames_def dir_tables_def by (elim CollectE exE conjE) (rule that)
    then show False using k assms(2) unfolding kernel_ok_def by metis
  qed
qed

text \<open>The kernel's part of a state is the same when its frames and the allocator's window are.\<close>

lemma kernel_kept:
  assumes ok: "kmem_ok R s" and su: "same_setup s t" and w: "same_window (frames s) (frames t)"
    and used: "used_frames (frames s) \<subseteq> used_frames (frames t)"
    and ram: "\<forall>g \<in> insert (kdir_frame s) (table_frames s). ram t g = ram s g"
  shows "kmem_ok R t" "table_frames t = table_frames s" "kernel_frames t = kernel_frames s"
    and "pd_index v < 1023 \<Longrightarrow> walk (ram t) (kdir_frame s) v = walk (ram s) (kdir_frame s) v"
proof -
  note fr = same_setup_frames [OF su, THEN conjunct1] same_setup_frames [OF su, THEN conjunct2]
  have kr: "ram t (kdir_frame s) = ram s (kdir_frame s)" using ram by simp
  show tf: "table_frames t = table_frames s" by (simp add: table_frames_def dir_tables_def fr kr)
  show "kernel_frames t = kernel_frames s" by (simp add: kernel_frames_def tf fr)
  have h: "held s g \<Longrightarrow> held t g" for g by (rule held_mono [OF used w])
  have "tables_ok t (kdir_frame s)" using ok h unfolding kmem_ok_def tables_ok_def recursive_def kr by blast
  moreover have "kernel_ok t" using ok h unfolding kmem_ok_def kernel_ok_def dirs_ok_def fr kr by blast
  moreover have "mem_get_current_page_directory t = mem_get_current_page_directory s"
    using su by (simp add: mem_get_current_page_directory_def same_setup_def)
  ultimately show "kmem_ok R t" using ok same_windowD [OF w] unfolding kmem_ok_def fr kr by simp
  have "ram t (pframe (ram s (kdir_frame s) (pd_index v))) = ram s (pframe (ram s (kdir_frame s) (pd_index v)))"
    if "pd_index v < 1023" "is_table (ram s (kdir_frame s) (pd_index v))"
    by (rule bspec [OF ram]) (use that in \<open>auto simp: table_frames_def dir_tables_def\<close>)
  then show "walk (ram t) (kdir_frame s) v = walk (ram s) (kdir_frame s) v" if "pd_index v < 1023"
    using that by (auto simp: walk_def Let_def kr is_table_def)
qed

lemma own_not_table: "tables_ok s (cur_dir s) \<Longrightarrow> cur_dir s \<notin> user_tables s"
proof
  assume ok: "tables_ok s (cur_dir s)" and "cur_dir s \<in> user_tables s"
  then obtain j where j: "cur_dir s = pframe (ram s (cur_dir s) j)" "j < 768" "is_table (ram s (cur_dir s) j)"
    unfolding user_tables_def by (elim CollectE exE conjE) (rule that)
  have "\<forall>j<1023. is_table (ram s (cur_dir s) j) \<longrightarrow> pframe (ram s (cur_dir s) j) \<noteq> cur_dir s"
    using ok unfolding tables_ok_def by blast
  moreover have "j < 1023" using j(2) by simp
  ultimately show False using j(1,3) by metis
qed

section \<open>Pages of the user half\<close>

lemma building_user_step:
  assumes b: "building i m s U D b ks" and st: "user_step process_pdes M c s t"
    and n: "distinct ns" "length ns = c" "set ns \<subseteq> pmm_window (frames s) \<inter> used_frames (frames t) - used_frames (frames s)"
      "set ns \<inter> user_tables t = {}"
  shows "building i m t (U ++ M) (D @ ns) b ks" and "g \<in> set (D @ ks) \<Longrightarrow> ram t g = ram s g"
proof -
  note d = buildingD [OF b] and dd = building_dirs [OF b] and u = user_stepD [OF st]
  note fr = same_setup_frames [OF u(2), THEN conjunct1] same_setup_frames [OF u(2), THEN conjunct2]
  note kd = kernel_dirs [OF d(8)]
  have c: "cur_dir s \<in> kernel_frames s" "cur_dir s \<noteq> kdir_frame s" "cur_dir s \<notin> table_frames s"
    using kd [OF d(1)] by (simp_all add: dd(2,3))
  have kept: "ram t g = ram s g \<and> g \<notin> user_tables t" if "held s g" "g \<noteq> cur_dir s" "g \<notin> user_tables s" for g
    using u(8) that by (simp add: keeps_memory_def)
  have kern: "ram t g = ram s g \<and> g \<notin> user_tables t" if "g \<in> kernel_frames s" "g \<noteq> cur_dir s" for g
    by (rule kept) (use that d(11) kernel_frames_held [OF d(8)] in blast)+
  have "\<forall>g \<in> insert (kdir_frame s) (table_frames s). ram t g = ram s g"
    using kern c by (auto simp: kernel_frames_def)
  note kk = kernel_kept [OF d(8) u(2,3,4) this]
  have "cur_dir s \<notin> user_tables t" using own_not_table [of t] u(1,9) by (simp add: user_ok_def)
  then have ut: "user_tables t \<inter> kernel_frames t = {}" using kern unfolding kk(3) by blast
  have old: "ram t g = ram s g \<and> g \<notin> user_tables t" if "g \<in> set (D @ ks)" for g
    by (rule kept) (use that d(15,16) c(1) in \<open>auto simp: held_def\<close>)
  then show "g \<in> set (D @ ks) \<Longrightarrow> ram t g = ram s g" by blast
  have new: "\<not> held s g" if "g \<in> set ns" for g using n(3) that by (auto simp: held_def)
  then have nk: "g \<notin> kernel_frames t" if "g \<in> set ns" for g
    using that kernel_frames_held [OF d(8)] kk(3) by blast
  have uk: "ram t (kdir_frame s) = ram s (kdir_frame s)" using kern [of "kdir_frame s"] c by (simp add: kernel_frames_def)
  have need: "kmem_need heap_pdes t + missing_tables t = kmem_need heap_pdes s + missing_tables s + c"
    using u(5) by (simp add: kmem_need_def dir_need_def user_need_def missing_tables_def fr uk u(9))
  have "ram t (pdir_frame m k) = ram s (pdir_frame m k)" if "k < NUM_PAGE_DIRS" "k \<noteq> i" for k
  proof -
    have "pdir_frame s k \<noteq> cur_dir s"
      using d(1,8) that unfolding dd(2,3) kmem_ok_def kernel_ok_def dirs_ok_def by (auto simp: dd(2) dest: inj_onD)
    then show ?thesis using kern [OF kd(1) [OF that(1)]] by (simp add: dd(2))
  qed
  note others = this
  have cur: "ram t (pdir_frame m i) j = ram s (pdir_frame m i) j" if "768 \<le> j" for j using u(12) [OF that] by (simp add: dd(3))
  have mir: "mirrors t k" if "mirrors s k" "k < NUM_PAGE_DIRS" for k
    using that others [of k] cur by (cases "k = i") (simp_all add: mirrors_def fr dd(1,2) uk [unfolded dd(1)])
  have tr: "translate t v = (U ++ M) (unat v div 4096)" if "pd_index v < 768" for v
    using u(7) [of v] d(17) [OF that] that by (simp add: map_add_def split: option.splits)
  have wk: "walk (ram t) (kdir_frame m) v = walk (ram s) (kdir_frame m) v" if "pd_index v < 1023" for v
    using kk(4) [OF that] by (simp add: dd(1))
  have mem: "ram t g = ram m g \<and> g \<notin> kernel_frames t \<and> g \<notin> user_tables t" if "held m g" "g \<notin> kernel_frames m" for g
  proof -
    have "held s g" by (rule held_mono [OF d(7,6) that(1)])
    then show ?thesis using kept [of g] d(19) [OF that] c(1) kk(3) by metis
  qed
  have sets: "set ((D @ ns) @ ks) \<subseteq> used_frames (frames t)" "set ((D @ ns) @ ks) \<inter> (user_tables t \<union> kernel_frames t) = {}"
      "set ((D @ ns) @ ks) \<subseteq> pmm_window (frames m) - used_frames (frames m)" "distinct ((D @ ns) @ ks)"
  proof -
    show "set ((D @ ns) @ ks) \<subseteq> used_frames (frames t)" using d(15) u(4) n(3) by auto
    show "set ((D @ ns) @ ks) \<inter> (user_tables t \<union> kernel_frames t) = {}"
      using old d(16) nk n(4) unfolding kk(3) by auto
    show "set ((D @ ns) @ ks) \<subseteq> pmm_window (frames m) - used_frames (frames m)"
      using d(7,14) n(3) by (auto simp: dd(5))
    show "distinct ((D @ ns) @ ks)" using d(13,15) n(1,3) by auto
  qed
  have win: "same_window (frames m) (frames t)" by (rule same_window_trans [OF d(6) u(3)])
  have use: "used_frames (frames m) \<subseteq> used_frames (frames t)" using d(7) u(4) by blast
  have su: "cr3 t = page_dir m i - KERNEL_START" "kernel_directory t = kernel_directory m" "pageDirs t = pageDirs m"
      "pageDirsUsed t = (pageDirsUsed m)(i := 1)"
    using u(2) d(2-5) by (simp_all add: same_setup_def)
  show "building i m t (U ++ M) (D @ ns) b ks"
    unfolding building_def
  proof (intro conjI allI impI)
    show "kmem_need heap_pdes t + missing_tables t = kmem_need heap_pdes m + 6 + length ((D @ ns) @ ks)"
      using need d(12) n(2) by simp
    show "walk (ram t) (kdir_frame m) v =
        (case heap_pages b ks (unat v div 4096) of None \<Rightarrow> walk (ram m) (kdir_frame m) v | f \<Rightarrow> f)" if "pd_index v < 1023" for v
      unfolding wk [OF that] by (rule d(18) [OF that])
    show "ram t (pdir_frame m k) j = ram m (pdir_frame m k) j" if "k < NUM_PAGE_DIRS" "k \<noteq> i" "\<not> (768 \<le> j \<and> j < 1023)" for k j
      using others [OF that(1,2)] d(20) [OF that] by simp
    show "mirrors t k" if "dir_used m k" "mirrors m k" for k
      using mir [OF d(21) [OF that]] that(1) by (simp add: dir_used_def)
  qed (use d(1) su win use kk(1) mir [OF d(9,1)] u(1) ut sets tr mem in blast)+
qed

section \<open>Pages of the kernel's heap\<close>

text \<open>A directory whose lower half is that of \<open>s\<close> and whose upper half has the page tables of the kernel.\<close>

lemma tables_ok_halves:
  assumes s: "tables_ok s d" and k: "tables_ok t (kdir_frame t)" and cur: "cur_dir t = d"
    and low: "\<And>j. j < 768 \<Longrightarrow> ram t d j = ram s d j" and top: "ram t d 1023 = ram s d 1023"
    and high: "\<And>j. 768 \<le> j \<Longrightarrow> j < 1023 \<Longrightarrow> is_table (ram t d j) = is_table (ram t (kdir_frame t) j)"
      "\<And>j. 768 \<le> j \<Longrightarrow> j < 1023 \<Longrightarrow> pframe (ram t d j) = pframe (ram t (kdir_frame t) j)"
    and disj: "user_tables t \<inter> kernel_frames t = {}" and d: "d \<notin> table_frames t" and held: "\<And>g. held s g \<Longrightarrow> held t g"
  shows "tables_ok t d"
proof -
  have up: "pframe (ram t d j) \<in> table_frames t" if "768 \<le> j" "j < 1023" "is_table (ram t d j)" for j
    using that high [OF that(1,2)] by (auto simp: table_frames_def dir_tables_def)
  have lo: "pframe (ram t d j) \<in> user_tables t" if "j < 768" "is_table (ram t d j)" for j
    using that cur by (auto simp: user_tables_def)
  have apart: "pframe (ram t d j) \<noteq> pframe (ram t d j')" if "j < 768" "is_table (ram t d j)" "768 \<le> j'" "j' < 1023" "is_table (ram t d j')" for j j'
    using lo [OF that(1,2)] up [OF that(3-5)] disj by (auto simp: kernel_frames_def)
  have "pframe (ram t d j) \<noteq> d \<and> held t (pframe (ram t d j))" if "j < 1023" "is_table (ram t d j)" for j
  proof (cases "j < 768")
    case True
    then show ?thesis using s held that low [OF True] by (simp add: tables_ok_def)
  next
    case False
    then show ?thesis using up [OF _ that] d k that high [of j] by (auto simp: tables_ok_def)
  qed
  moreover have "j = j'" if j: "j < 1023" "j' < 1023" "is_table (ram t d j)" "is_table (ram t d j')" "pframe (ram t d j) = pframe (ram t d j')" for j j'
  proof (cases "j < 768"; cases "j' < 768")
    assume "j < 768" "j' < 768"
    then show ?thesis using s j low unfolding tables_ok_def by metis
  next
    assume "\<not> j < 768" "\<not> j' < 768"
    then have "768 \<le> j" "768 \<le> j'" by simp_all
    then show ?thesis using k j high unfolding tables_ok_def by metis
  qed (use apart [of j j'] apart [of j' j] j in auto)
  moreover have "recursive (ram t) d" "held t d" using s top held by (auto simp: tables_ok_def recursive_def)
  ultimately show ?thesis unfolding tables_ok_def by blast
qed

lemma building_kernel_step:
  assumes b: "building i m s U D b ks" and run: "kernel_run heap_pdes (0xD0000 + b + length ks) e p s t"
  shows "building i m t U D b (ks @ map p [0..<e])" and "g \<in> set (D @ ks) \<Longrightarrow> ram t g = ram s g"
proof -
  have st: "kmem_step heap_pdes (frames_run (0xD0000 + b + length ks) e p) e s t" and inj: "inj_on p {..<e}"
    and new: "p ` {..<e} \<subseteq> pmm_window (frames s) \<inter> used_frames (frames t) - used_frames (frames s) - table_frames t"
    using run by (auto simp: fresh_run_def)
  note d = buildingD [OF b] and dd = building_dirs [OF b] and u = kmem_stepD [OF st] and sk = sees_kernel_step [OF st dd(7)]
  note kd = kernel_dirs [OF d(8)] and kt = kernel_dirs [OF u(1)]
  have cur: "cur_dir t = pdir_frame m i" using u(2) dd(3) by (simp add: same_setup_def)
  have fr: "kdir_frame t = kdir_frame m" "pdir_frame t = pdir_frame m" using u(8,9) dd(1,2) by simp_all
  have keep: "ram t g = ram s g \<and> g \<notin> kernel_frames t" if "held s g" "g \<notin> kernel_frames s" for g
    using u(13) that by (simp add: spares_def)
  have half: "ram t (pdir_frame m k) j = ram s (pdir_frame m k) j" if "k < NUM_PAGE_DIRS" "\<not> (768 \<le> j \<and> j < 1023)" for k j
    using u(13) that by (simp add: spares_def dd(2))
  have mir: "mirrors t k" if "dir_used s k" "mirrors s k" for k using u(13) that by (simp add: spares_def)
  have low: "ram t (pdir_frame m i) j = ram s (pdir_frame m i) j" if "j < 768" for j using half [OF d(1)] that by simp
  then have ut: "user_tables t = user_tables s"
    unfolding user_tables_def cur dd(3) by (intro Collect_cong ex_cong1) auto
  have uth: "held s g \<and> g \<notin> kernel_frames s" if "g \<in> user_tables s" for g
    using that d(10,11) by (auto simp: user_tables_def user_ok_def tables_ok_def)
  have disj: "user_tables t \<inter> kernel_frames t = {}" using keep uth unfolding ut by blast
  have high: "is_table (ram t (pdir_frame m i) j) = is_table (ram t (kdir_frame m) j)"
      "pframe (ram t (pdir_frame m i) j) = pframe (ram t (kdir_frame m) j)" if "768 \<le> j" "j < 1023" for j
    using mir [OF dd(4) d(9)] that by (simp_all add: mirrors_def fr not_owner_table not_owner)
  have "tables_ok t (pdir_frame m i)"
  proof (rule tables_ok_halves [where s = s])
    show "tables_ok s (pdir_frame m i)" using d(10) by (simp add: user_ok_def dd(3))
    show "tables_ok t (kdir_frame t)" using u(1) by (simp add: kmem_ok_def)
    show "ram t (pdir_frame m i) 1023 = ram s (pdir_frame m i) 1023" by (rule half [OF d(1)]) simp
    show "is_table (ram t (pdir_frame m i) j) = is_table (ram t (kdir_frame t) j)"
        "pframe (ram t (pdir_frame m i) j) = pframe (ram t (kdir_frame t) j)" if "768 \<le> j" "j < 1023" for j
      using high [OF that] by (simp_all add: fr)
    show "pdir_frame m i \<notin> table_frames t" using kt(3) [OF d(1)] by (simp add: fr)
  qed (fact cur low disj u(12))+
  then have user: "user_ok process_pdes t"
    unfolding user_ok_def cur using d(10) u(1) low process_pdes(1) by (simp add: user_ok_def dd(3) kmem_ok_def subset_iff)
  have "ram t (pdir_frame m i) j = ram s (pdir_frame m i) j" if "j \<in> process_pdes" for j
    using low that process_pdes(1) by auto
  then have miss: "missing_tables t = missing_tables s"
    unfolding missing_tables_def cur dd(3) by (intro arg_cong [where f = card] Collect_cong) auto
  have old: "ram t g = ram s g \<and> g \<notin> kernel_frames t" if "g \<in> set (D @ ks)" for g
    by (rule keep) (use that d(15,16) in \<open>auto simp: held_def\<close>)
  then show "g \<in> set (D @ ks) \<Longrightarrow> ram t g = ram s g" by blast
  have tr: "translate t v = U (unat v div 4096)" if "pd_index v < 768" for v
  proof -
    have "unat v div 4194304 < 768" using that by (simp add: unat_pd_index)
    then have "unat v div 4096 < 0xC0000" by (simp add: div_less_iff_less_mult)
    then show ?thesis using sk(2) [of v] that d(17) [OF that] by (simp add: frames_run_def)
  qed
  have wk: "walk (ram t) (kdir_frame m) v = (case heap_pages b (ks @ map p [0..<e]) (unat v div 4096) of
      None \<Rightarrow> walk (ram m) (kdir_frame m) v | f \<Rightarrow> f)" if "pd_index v < 1023" for v
    using u(7) [OF that] d(18) [OF that] unfolding heap_pages_append [symmetric] dd(1)
    by (simp add: map_add_def split: option.splits)
  have mem: "ram t g = ram m g \<and> g \<notin> kernel_frames t \<and> g \<notin> user_tables t" if "held m g" "g \<notin> kernel_frames m" for g
  proof -
    have "held s g" by (rule held_mono [OF d(7,6) that(1)])
    then show ?thesis using keep [of g] d(19) [OF that] ut by metis
  qed
  have pn: "set (map p [0..<e]) = p ` {..<e}" "distinct (map p [0..<e])"
    using inj by (simp_all add: distinct_map lessThan_atLeast0)
  have nh: "\<not> held s g" if "g \<in> p ` {..<e}" for g using new that by (auto simp: held_def)
  have "held s (kdir_frame s)" "held s (pdir_frame s k)" if "k < NUM_PAGE_DIRS" for k
    using d(8) that by (simp_all add: kmem_ok_def tables_ok_def kernel_ok_def)
  then have nk: "g \<notin> kernel_frames t" if "g \<in> p ` {..<e}" for g
    using nh [OF that] subsetD [OF new that] d(1) unfolding kernel_frames_def u(8,9) by auto
  have nu: "g \<notin> user_tables t" if "g \<in> p ` {..<e}" for g using nh [OF that] uth ut by blast
  have sets: "set (D @ ks @ map p [0..<e]) \<subseteq> used_frames (frames t)"
      "set (D @ ks @ map p [0..<e]) \<inter> (user_tables t \<union> kernel_frames t) = {}"
      "set (D @ ks @ map p [0..<e]) \<subseteq> pmm_window (frames m) - used_frames (frames m)" "distinct (D @ ks @ map p [0..<e])"
  proof -
    show "set (D @ ks @ map p [0..<e]) \<subseteq> used_frames (frames t)" using d(15) u(4) new pn(1) by auto
    have "set (D @ ks) \<inter> (user_tables t \<union> kernel_frames t) = {}" using old d(16) unfolding ut by blast
    moreover have "p ` {..<e} \<inter> (user_tables t \<union> kernel_frames t) = {}" using nk nu by blast
    ultimately show "set (D @ ks @ map p [0..<e]) \<inter> (user_tables t \<union> kernel_frames t) = {}"
      unfolding append_assoc [symmetric] set_append [of "D @ ks"] pn(1) by blast
    show "set (D @ ks @ map p [0..<e]) \<subseteq> pmm_window (frames m) - used_frames (frames m)"
      unfolding append_assoc [symmetric] set_append [of "D @ ks"] pn(1) using d(7,14) new dd(5) by blast
    show "distinct (D @ ks @ map p [0..<e])"
      unfolding append_assoc [symmetric] distinct_append [of "D @ ks"] pn(1) using d(13,15) new pn(2) by blast
  qed
  have win: "same_window (frames m) (frames t)" by (rule same_window_trans [OF d(6) u(3)])
  have use: "used_frames (frames m) \<subseteq> used_frames (frames t)" using d(7) u(4) by blast
  have su: "cr3 t = page_dir m i - KERNEL_START" "kernel_directory t = kernel_directory m" "pageDirs t = pageDirs m"
      "pageDirsUsed t = (pageDirsUsed m)(i := 1)"
    using u(2) d(2-5) by (simp_all add: same_setup_def)
  show "building i m t U D b (ks @ map p [0..<e])"
    unfolding building_def
  proof (intro conjI allI impI)
    show "kmem_need heap_pdes t + missing_tables t = kmem_need heap_pdes m + 6 + length (D @ ks @ map p [0..<e])"
      using u(5) miss d(12) by simp
    show "ram t (pdir_frame m k) j = ram m (pdir_frame m k) j" if "k < NUM_PAGE_DIRS" "k \<noteq> i" "\<not> (768 \<le> j \<and> j < 1023)" for k j
      using half [OF that(1,3)] d(20) [OF that] by simp
    show "mirrors t k" if "dir_used m k" "mirrors m k" for k
    proof -
      have "dir_used s k" using that(1) d(5) by (simp add: dir_used_def)
      then show ?thesis by (rule mir [OF _ d(21) [OF that]])
    qed
  qed (use d(1) su win use u(1) mir [OF dd(4) d(9)] user disj sets tr wk mem in blast)+
qed

section \<open>Stores into the pages\<close>

text \<open>Filling frames that were taken for pages changes nothing else.\<close>

lemma building_stores:
  assumes b: "building i m s U D b ks" and r: "\<And>g. g \<notin> set D \<Longrightarrow> r g = ram s g"
  shows "building i m (s\<lparr>ram := r\<rparr>) U D b ks"
proof -
  let ?t = "s\<lparr>ram := r\<rparr>"
  note d = buildingD [OF b] and dd = building_dirs [OF b]
  have out: "ram ?t g = ram s g" if "g \<in> user_tables s \<union> kernel_frames s" for g
    using that d(16) r [of g] by auto
  have c: "cur_dir s \<in> kernel_frames s" using kernel_dirs(1) [OF d(8,1)] by (simp add: dd(2,3))
  have cr: "ram ?t (cur_dir s) = ram s (cur_dir s)" by (rule out) (use c in blast)
  have uc: "user_ok process_pdes ?t = user_ok process_pdes s" "user_tables ?t = user_tables s"
    using user_cong(1,3) [of ?t s, OF cr] by simp_all
  have su: "same_setup s ?t" "same_window (frames s) (frames ?t)" "used_frames (frames s) \<subseteq> used_frames (frames ?t)"
    by (simp_all add: same_setup_def)
  have "\<forall>g \<in> insert (kdir_frame s) (table_frames s). ram ?t g = ram s g" using out by (auto simp: kernel_frames_def)
  note kk = kernel_kept [OF d(8) su this]
  have kr: "ram ?t (kdir_frame s) = ram s (kdir_frame s)" by (rule out) (simp add: kernel_frames_def)
  have dirs: "ram ?t (pdir_frame m k) = ram s (pdir_frame m k)" if "k < NUM_PAGE_DIRS" for k
    by (rule out) (use kernel_dirs(1) [OF d(8) that] in \<open>simp add: dd(2)\<close>)
  have mir: "mirrors ?t k" if "mirrors s k" "k < NUM_PAGE_DIRS" for k
    using that dirs [OF that(2)] kr [unfolded dd(1)] by (simp add: mirrors_def dd(1,2))
  have "g \<in> user_tables s \<union> kernel_frames s" if "g \<in> walk_frames s" for g
  proof -
    have "g \<in> insert (cur_dir s) (space_tables s)" using walk_frames_space [of s] d(10) that by (auto simp: user_ok_def)
    moreover have "space_tables s \<subseteq> user_tables s \<union> table_frames s"
    proof
      fix g assume "g \<in> space_tables s"
      then obtain j where j: "j < 1023" "is_table (ram s (cur_dir s) j)" "g = pframe (ram s (cur_dir s) j)"
        by (auto simp: space_tables_def dir_tables_def)
      show "g \<in> user_tables s \<union> table_frames s"
      proof (cases "j < 768")
        case False
        then have "ram s (cur_dir s) j = ram s (kdir_frame s) j AND NOT PAGE_FLAG_OWNER"
          using d(9) j(1) by (simp add: mirrors_def dd(2,3))
        then show ?thesis using j by (auto simp: table_frames_def dir_tables_def not_owner not_owner_table)
      qed (use j in \<open>auto simp: user_tables_def\<close>)
    qed
    ultimately show ?thesis using c by (auto simp: kernel_frames_def)
  qed
  then have tr: "translate ?t v = translate s v" for v by (intro translate_cong) (use out in blast, simp)
  have mem: "ram ?t g = ram m g" if "held m g" "g \<notin> kernel_frames m" for g
  proof -
    have "g \<notin> set D" using that(1) d(14) by (auto simp: held_def)
    then show ?thesis using r d(19) [OF that] by simp
  qed
  have need: "kmem_need heap_pdes ?t = kmem_need heap_pdes s" "missing_tables ?t = missing_tables s"
    by (simp_all add: kmem_need_def dir_need_def missing_tables_def kr [simplified] cr [simplified])
  have "walk (ram ?t) (kdir_frame m) v = walk (ram s) (kdir_frame m) v" if "pd_index v < 1023" for v
    using kk(4) [OF that] by (simp add: dd(1))
  then show ?thesis
    using b uc kk(1,3) tr mem dirs mir d(1,20,21) need unfolding building_def by (simp add: dir_used_def)
qed

section \<open>The new directory\<close>

lemma building_start:
  assumes m: "dirs_ready m" "kmem_ok heap_pdes m" and i: "i < NUM_PAGE_DIRS"
  shows "building i m (new_space i m) Map.empty [] b []"
proof -
  let ?s = "new_space i m"
  have d: "dirs_ok m" using m(1) by (simp add: dirs_ready_def kernel_ok_def)
  note st = new_space_state [OF d i] and ok = new_space_ok [OF m(1) i process_pdes(1)] and kd = kernel_dirs [OF m(2)]
  have fr: "kdir_frame ?s = kdir_frame m" "pdir_frame ?s = pdir_frame m"
    by (simp_all add: kdir_frame_def pdir_frame_def page_dir_def st(3,4) fun_eq_iff)
  have kr: "ram ?s (kdir_frame m) = ram m (kdir_frame m)" using st(7) kd(2) [OF i] by metis
  have tab: "ram ?s g = ram m g" if "g \<in> table_frames m" for g using st(7) kd(3) [OF i] that by metis
  have tf: "table_frames ?s = table_frames m" by (simp add: table_frames_def dir_tables_def fr kr)
  have h: "held ?s = held m" by (simp add: held_def st(2) fun_eq_iff)
  have "page_dir m i \<noteq> 0" using m(1) i by (simp add: dirs_ready_def)
  then have "mem_get_current_page_directory ?s \<noteq> 0" by (simp add: mem_get_current_page_directory_def st(6))
  then have kok: "kmem_ok heap_pdes ?s"
    using m(2) unfolding kmem_ok_def tables_ok_def recursive_def kernel_ok_def dirs_ok_def fr kr h st(2) by simp
  have mir: "mirrors ?s i" using st(8) by (simp add: mirrors_def fr kr)
  have mo: "mirrors ?s k" if "mirrors m k" "k < NUM_PAGE_DIRS" for k
  proof (cases "k = i")
    case False
    then have "pdir_frame m k \<noteq> pdir_frame m i" using d i that(2) by (auto simp: dirs_ok_def dest: inj_onD)
    then show ?thesis using that(1) st(7) by (simp add: mirrors_def fr kr)
  qed (use mir in simp)
  have wk: "walk (ram ?s) (kdir_frame m) v = walk (ram m) (kdir_frame m) v" if "pd_index v < 1023" for v
  proof -
    have "ram ?s (pframe (ram m (kdir_frame m) (pd_index v))) = ram m (pframe (ram m (kdir_frame m) (pd_index v)))"
      if "is_table (ram m (kdir_frame m) (pd_index v))"
      by (rule tab) (use that \<open>pd_index v < 1023\<close> in \<open>auto simp: table_frames_def dir_tables_def\<close>)
    then show ?thesis by (auto simp: walk_def Let_def kr is_table_def)
  qed
  have need: "kmem_need heap_pdes ?s = kmem_need heap_pdes m" by (simp add: kmem_need_def dir_need_def fr kr st(2))
  have "missing_tables ?s = 6" using ok(4) by (simp add: user_need_def dir_need_def missing_tables_def process_pdes(2) st(2))
  moreover have "ram ?s g = ram m g" if "g \<notin> kernel_frames m" for g
    using st(7) kd(1) [OF i] that by metis
  moreover have "ram ?s (pdir_frame m k) j = ram m (pdir_frame m k) j" if "k < NUM_PAGE_DIRS" "k \<noteq> i" for k j
  proof -
    have "pdir_frame m k \<noteq> pdir_frame m i" using d i that by (auto simp: dirs_ok_def dest: inj_onD)
    then show ?thesis using st(7) by simp
  qed
  moreover have "kernel_frames ?s = kernel_frames m" by (simp add: kernel_frames_def tf fr)
  moreover have "translate ?s v = None" if "pd_index v < 768" for v using ok(5) [of v] that by simp
  ultimately show ?thesis
    unfolding building_def using i st(2-6) kok mir ok(1,2) need wk mo by (simp add: dir_used_def)
qed

text \<open>The kernel's heap may have grown before the directory was made.\<close>

lemma building_before:
  assumes b: "building i m s U D (b + e) ks" and run: "kernel_run heap_pdes (0xD0000 + b) e p m0 m"
    and ok: "kmem_ok heap_pdes m0"
  shows "building i m0 s U D b (map p [0..<e] @ ks)"
proof -
  have st: "kmem_step heap_pdes (frames_run (0xD0000 + b) e p) e m0 m" and inj: "inj_on p {..<e}"
    and new: "p ` {..<e} \<subseteq> pmm_window (frames m0) \<inter> used_frames (frames m) - used_frames (frames m0) - table_frames m"
    using run by (auto simp: fresh_run_def)
  note d = buildingD [OF b] and dd = building_dirs [OF b] and u = kmem_stepD [OF st]
  have pn: "set (map p [0..<e]) = p ` {..<e}" "distinct (map p [0..<e])"
    using inj by (simp_all add: distinct_map lessThan_atLeast0)
  have pd: "page_dir m i = page_dir m0 i" using u(2) by (simp add: same_setup_def page_dir_def)
  have su: "kernel_directory m = kernel_directory m0" "pageDirs m = pageDirs m0" "pageDirsUsed m = pageDirsUsed m0"
    using u(2) by (simp_all add: same_setup_def)
  have du: "dir_used m = dir_used m0" by (rule same_setup_used [OF u(2)])
  have spare: "ram m g = ram m0 g \<and> g \<notin> kernel_frames m" if "held m0 g" "g \<notin> kernel_frames m0" for g
    using u(13) that by (simp add: spares_def)
  have held: "held m g" if "g \<in> p ` {..<e}" for g using that new by (auto simp: held_def)
  have kf: "g \<notin> kernel_frames m" if "g \<in> p ` {..<e}" for g
  proof -
    have "\<not> held m0 g" "g \<notin> table_frames m" using that new by (auto simp: held_def)
    moreover have "held m0 (kdir_frame m0)" "\<And>k. k < NUM_PAGE_DIRS \<Longrightarrow> held m0 (pdir_frame m0 k)"
      using ok by (simp_all add: kmem_ok_def tables_ok_def kernel_ok_def)
    ultimately show ?thesis unfolding kernel_frames_def u(8,9) by auto
  qed
  have sets: "set (D @ map p [0..<e] @ ks) = p ` {..<e} \<union> set (D @ ks)" using pn(1) by auto
  have "heap_pages b (map p [0..<e]) ++ heap_pages (b + e) ks = heap_pages b (map p [0..<e] @ ks)"
    using heap_pages_append [of b "map p [0..<e]" "length ks" "nth ks"] by (simp add: heap_pages_def map_nth add.assoc)
  moreover have "frames_run (0xD0000 + b) e p = heap_pages b (map p [0..<e])"
    using heap_pages_append [of b "[]" e p] by simp
  ultimately have K: "frames_run (0xD0000 + b) e p ++ heap_pages (b + e) ks = heap_pages b (map p [0..<e] @ ks)" by simp
  show ?thesis
    unfolding building_def
  proof (intro conjI allI impI)
    show "same_window (frames m0) (frames s)" by (rule same_window_trans [OF u(3) d(6)])
    show "used_frames (frames m0) \<subseteq> used_frames (frames s)" using u(4) d(7) by blast
    show "kmem_need heap_pdes s + missing_tables s = kmem_need heap_pdes m0 + 6 + length (D @ map p [0..<e] @ ks)"
      using d(12) u(5) by simp
    show "distinct (D @ map p [0..<e] @ ks)"
      using d(13,14) pn new by auto
    show "set (D @ map p [0..<e] @ ks) \<subseteq> pmm_window (frames m0) - used_frames (frames m0)"
      unfolding sets using d(14) new u(4,11) by blast
    show "set (D @ map p [0..<e] @ ks) \<subseteq> used_frames (frames s)" unfolding sets using d(7,15) new by blast
    show "set (D @ map p [0..<e] @ ks) \<inter> (user_tables s \<union> kernel_frames s) = {}"
      unfolding sets using d(16) d(19) [OF held kf] by blast
    show "walk (ram s) (kdir_frame m0) v = (case heap_pages b (map p [0..<e] @ ks) (unat v div 4096) of
        None \<Rightarrow> walk (ram m0) (kdir_frame m0) v | f \<Rightarrow> f)" if "pd_index v < 1023" for v
      using d(18) [OF that] u(7) [OF that] unfolding K [symmetric] u(8) by (simp add: map_add_def split: option.splits)
    show "ram s g = ram m0 g" "g \<notin> kernel_frames s" "g \<notin> user_tables s" if "held m0 g" "g \<notin> kernel_frames m0" for g
      using d(19) [OF u(12) [OF that(1)]] spare [OF that] by simp_all
    show "ram s (pdir_frame m0 k) j = ram m0 (pdir_frame m0 k) j" if "k < NUM_PAGE_DIRS" "k \<noteq> i" "\<not> (768 \<le> j \<and> j < 1023)" for k j
      using d(20) [OF that] u(13) that(1,3) unfolding u(9) by (simp add: spares_def)
    show "mirrors s k" if "dir_used m0 k" "mirrors m0 k" for k
      using d(21) [of k] u(13) that unfolding du by (simp add: spares_def)
  qed (use d(1-5,8-11,17) pd su in simp_all)
qed

section \<open>Objects of the kernel\<close>

text \<open>The addresses that the heap can still hand out, as long as there are frames: those of its free blocks and of the
  blocks that it can grow by.\<close>

definition open_addrs :: "heap_state \<Rightarrow> u32 set" where
  "open_addrs h = block_address ` {i. i < 4096 \<and> (i < blocks h \<longrightarrow> block_free h i)}"

definition heap_open :: "heap_state \<Rightarrow> nat \<Rightarrow> bool" where
  "heap_open h n \<longleftrightarrow> table_mapped h \<and> blocks h \<le> 4096 \<and> 0 < blocks h \<and> \<not> block_free h 0
     \<and> heap_size h = total_blocks h * HEAP_BLOCK_SIZE \<and> n \<le> card (open_addrs h)"

lemma open_taken:
  assumes h: "heap_open h (Suc n)" and p: "p < blocks h" "block_free h p"
  defines "h' \<equiv> with_run p (Suc 0) h"
  shows "block_address p \<in> open_addrs h" "block_address p \<noteq> 0" "open_addrs h' = open_addrs h - {block_address p}"
    and "heap_open h' n" "blocks h' = blocks h" "mmu h' = mmu h"
proof -
  have b: "blocks h \<le> 4096" using h by (simp add: heap_open_def)
  then have p4: "p < 4096" using p(1) by simp
  show bl: "blocks h' = blocks h" "mmu h' = mmu h" by (simp_all add: h'_def with_run_def blocks_def)
  have fr: "block_free h' i \<longleftrightarrow> block_free h i \<and> i \<noteq> p" for i
    by (auto simp: h'_def with_run_def block_free_def block_entry_def entry_consts)
  have "{i. i < 4096 \<and> (i < blocks h' \<longrightarrow> block_free h' i)} = {i. i < 4096 \<and> (i < blocks h \<longrightarrow> block_free h i)} - {p}"
    using p(1) by (auto simp: bl fr)
  moreover have "block_address i = block_address p \<longleftrightarrow> i = p" if "i < 4096" for i using that p4 by (rule block_address_inj)
  ultimately show o: "open_addrs h' = open_addrs h - {block_address p}" unfolding open_addrs_def by auto
  show mem: "block_address p \<in> open_addrs h" using p p4 by (auto simp: open_addrs_def)
  show "block_address p \<noteq> 0" by (rule block_address_not_null [OF p4])
  have "finite (open_addrs h)" by (simp add: open_addrs_def)
  then have "card (open_addrs h') = card (open_addrs h) - 1" using o mem by simp
  then have "n \<le> card (open_addrs h')" using h unfolding heap_open_def by linarith
  moreover have "table_mapped h'" using h by (simp add: heap_open_def table_mapped_def heap_mapped_def bl)
  moreover have "heap_size h' = heap_size h" "total_blocks h' = total_blocks h" by (simp_all add: h'_def with_run_def)
  ultimately show "heap_open h' n" using h by (simp add: heap_open_def bl fr)
qed

lemma open_grown:
  assumes h: "heap_open h n" and run: "kernel_run heap_pdes (0xD0000 + blocks h) (Suc 0) p (mmu h) m"
    and g: "heap_grows h (Suc 0)"
  defines "h' \<equiv> grown (Suc 0) m h"
  shows "heap_open h' n" "open_addrs h' = open_addrs h" "blocks h' = Suc (blocks h)" "mmu h' = m" "block_free h' (blocks h)"
proof -
  have st: "kmem_step heap_pdes (frames_run (0xD0000 + blocks h) (Suc 0) p) (Suc 0) (mmu h) m" using run by (simp add: fresh_run_def)
  have b: "0 < blocks h" "Suc (blocks h) \<le> 4096" using g by (simp_all add: heap_grows_def)
  show bl: "blocks h' = Suc (blocks h)" using b by (simp add: h'_def grown_blocks)
  show "mmu h' = m" by (simp add: h'_def grown_def)
  have fr: "block_free h' i \<longleftrightarrow> block_free h i \<or> i = blocks h" for i
    by (auto simp: h'_def block_free_def grown_def HEAP_BLOCK_TABLE_ENTRY_FREE_def)
  then show "block_free h' (blocks h)" by simp
  have "{i. i < 4096 \<and> (i < blocks h' \<longrightarrow> block_free h' i)} = {i. i < 4096 \<and> (i < blocks h \<longrightarrow> block_free h i)}"
    by (auto simp: bl fr)
  then show o: "open_addrs h' = open_addrs h" by (simp add: open_addrs_def)
  have tab: "table_mapped h" using h by (simp add: heap_open_def)
  have "heap_grows h (Suc 0 + 0)" using g by simp
  from grown_ready(2) [OF st this tab] have "table_mapped h'" by (simp add: h'_def)
  moreover have "heap_size h' = total_blocks h' * HEAP_BLOCK_SIZE"
    using h by (simp add: heap_open_def h'_def grown_def algebra_simps)
  ultimately show "heap_open h' n" using h b by (simp add: heap_open_def bl o fr)
qed

text \<open>A small object, in any directory that sees the kernel's half.\<close>

lemma kmalloc_open:
  assumes h: "heap_open h (Suc n)" and sz: "0 < unat sz" "unat sz \<le> 4096"
    and m: "kmem_ok heap_pdes (mmu h)" "sees_kernel (mmu h)" "kmem_need heap_pdes (mmu h) < frame_room (mmu h)"
  shows "\<exists>a h' e p. kmalloc sz h = Some (a, h') \<and> a \<in> open_addrs h \<and> a \<noteq> NULL \<and> open_addrs h' = open_addrs h - {a}
    \<and> heap_open h' n \<and> blocks h' = blocks h + e \<and> e \<le> 1 \<and> kernel_run heap_pdes (0xD0000 + blocks h) e p (mmu h) (mmu h')"
proof (cases "\<exists>q. q < blocks h \<and> block_free h q")
  case True
  have t: "table_mapped h" "blocks h \<le> 4096" using h by (simp_all add: heap_open_def)
  from True obtain p where p: "kmalloc sz h = Some (block_address p, with_run p (Suc 0) h)" "p < blocks h" "block_free h p"
    using kmalloc_free_block [OF t sz] by blast
  note o = open_taken [OF h p(2,3)]
  show ?thesis
    apply (rule exI [of _ "block_address p"], rule exI [of _ "with_run p (Suc 0) h"], rule exI [of _ 0], rule exI [of _ undefined])
    using p(1) o kspace.fresh_run_0 [OF m(1)] by (simp add: NULL_def)
next
  case False
  have t: "table_mapped h" "blocks h \<le> 4096" "0 < blocks h" and c: "Suc n \<le> card (open_addrs h)" using h by (simp_all add: heap_open_def)
  have "open_addrs h \<noteq> {}" using c by auto
  then obtain i where "i < 4096" "i < blocks h \<longrightarrow> block_free h i" by (auto simp: open_addrs_def)
  then have "Suc (blocks h) \<le> 4096" using False by (metis not_less Suc_leI le_less_trans)
  then have g: "heap_grows h (Suc 0)" using h m by (simp add: heap_grows_def heap_open_def)
  have one: "(unat sz + 4095) div 4096 = Suc 0" using sz by simp
  have none: "\<not> (\<exists>q. is_run h ((unat sz + 4095) div 4096) q)" using False unfolding one is_run_Suc_0 .
  have s2: "unat sz \<le> 0x7FFFF000" using sz(2) by simp
  from kmalloc_grows_run [OF t(1) sz(1) s2 none] g obtain m' p where
    r: "kernel_run heap_pdes (0xD0000 + blocks h) (Suc 0) p (mmu h) m'" "kmalloc sz h = kmalloc sz (grown (Suc 0) m' h)"
      "table_mapped (grown (Suc 0) m' h)"
    unfolding one by blast
  note o = open_grown [OF h r(1) g]
  have b: "blocks (grown (Suc 0) m' h) \<le> 4096" using o(3) \<open>Suc (blocks h) \<le> 4096\<close> by simp
  obtain a where a: "kmalloc sz (grown (Suc 0) m' h) = Some (block_address a, with_run a (Suc 0) (grown (Suc 0) m' h))"
      "a < blocks (grown (Suc 0) m' h)" "block_free (grown (Suc 0) m' h) a"
    using kmalloc_free_block [OF r(3) b sz, of "blocks h"] o(3,5) by auto
  note w = open_taken [OF o(1) a(2,3)]
  show ?thesis
    apply (rule exI [of _ "block_address a"], rule exI [of _ "with_run a (Suc 0) (grown (Suc 0) m' h)"], rule exI [of _ 1], rule exI [of _ p])
    using r(1,2) a(1) w o(2-4) by (simp add: NULL_def)
qed

section \<open>The steps of building a process\<close>

text \<open>An object of the kernel.\<close>

lemma building_kmalloc:
  assumes b: "building i m (mmu h) U D b ks" "blocks h = b + length ks" and h: "heap_open h (Suc n)" and sz: "0 < unat sz" "unat sz \<le> 4096"
    and room: "kmem_need heap_pdes m + 6 + length (D @ ks) < frame_room m"
  shows "\<exists>a h' ns. kmalloc sz h = Some (a, h') \<and> a \<in> open_addrs h \<and> a \<noteq> NULL \<and> open_addrs h' = open_addrs h - {a}
    \<and> heap_open h' n \<and> blocks h' = b + length (ks @ ns) \<and> length ns \<le> 1 \<and> building i m (mmu h') U D b (ks @ ns)
    \<and> (\<forall>g \<in> set D. ram (mmu h') g = ram (mmu h) g)"
proof -
  note d = buildingD [OF b(1)] and dd = building_dirs [OF b(1)]
  have "kmem_need heap_pdes (mmu h) < frame_room (mmu h)" using d(12) room by (simp add: dd(6))
  from kmalloc_open [OF h sz d(8) dd(7) this] obtain a h' e p where
    a: "kmalloc sz h = Some (a, h')" "a \<in> open_addrs h" "a \<noteq> NULL" "open_addrs h' = open_addrs h - {a}" "heap_open h' n"
      "blocks h' = blocks h + e" "e \<le> 1" "kernel_run heap_pdes (0xD0000 + blocks h) e p (mmu h) (mmu h')"
    by (elim exE conjE) (rule that)
  have run: "kernel_run heap_pdes (0xD0000 + b + length ks) e p (mmu h) (mmu h')" using a(8) by (simp add: b(2) add.assoc)
  show ?thesis
    apply (rule exI [of _ a], rule exI [of _ h'], rule exI [of _ "map p [0..<e]"])
    using a(1-7) building_kernel_step [OF b(1) run] by (simp add: b(2))
qed

text \<open>A run of pages in the user half.\<close>

lemma building_pages:
  assumes b: "building i m s U D b ks" and base: "unat base = 4096 * bp" "bp + n \<le> 0xC0000"
    and pdes: "\<forall>k < n. (bp + k) div 1024 \<in> process_pdes"
    and room: "kmem_need heap_pdes m + 6 + length (D @ ks) + n \<le> frame_room m"
  shows "\<exists>t p. map_user_pages base n s = Some t \<and> building i m t (U ++ frames_run bp n p) (D @ map p [0..<n]) b ks
    \<and> (\<forall>g \<in> set D. ram t g = ram s g)"
proof -
  note d = buildingD [OF b] and dd = building_dirs [OF b]
  have "user_need process_pdes s \<le> kmem_need heap_pdes s + missing_tables s"
    by (simp add: user_need_def kmem_need_def dir_need_def missing_tables_def)
  then have "user_need process_pdes s + n \<le> frame_room s" using d(12) room by (simp add: dd(6))
  then obtain t p where t: "map_user_pages base n s = Some t" "user_run process_pdes bp n p s t"
    using map_user_pages_run [OF d(10) _ base] pdes by blast
  have st: "user_step process_pdes (frames_run bp n p) n s t" and inj: "inj_on p {..<n}"
    and new: "p ` {..<n} \<subseteq> pmm_window (frames s) \<inter> used_frames (frames t) - used_frames (frames s) - space_tables t"
    using t(2) by (auto simp: fresh_run_def)
  have pn: "distinct (map p [0..<n])" "length (map p [0..<n]) = n" "set (map p [0..<n]) = p ` {..<n}"
    using inj by (simp_all add: distinct_map lessThan_atLeast0)
  have "set (map p [0..<n]) \<subseteq> pmm_window (frames s) \<inter> used_frames (frames t) - used_frames (frames s)"
      "set (map p [0..<n]) \<inter> user_tables t = {}"
    unfolding pn(3) using new user_tables_space [of t] by blast+
  from building_user_step [OF b st pn(1,2) this] show ?thesis
    by (intro exI [of _ t] exI [of _ p]) (simp add: t(1))
qed

text \<open>The heap in the new space.\<close>

lemma heap_open_space:
  assumes h: "heap_open h n" and t: "translate t HEAP_START_ADDRESS \<noteq> None"
  shows "heap_open (h\<lparr>mmu := t\<rparr>) n" "open_addrs (h\<lparr>mmu := t\<rparr>) = open_addrs h" "blocks (h\<lparr>mmu := t\<rparr>) = blocks h"
proof -
  let ?h = "h\<lparr>mmu := t\<rparr>"
  show b: "blocks ?h = blocks h" by (simp add: blocks_def)
  have f: "block_free ?h i = block_free h i" for i by (simp add: block_free_def)
  show o: "open_addrs ?h = open_addrs h" by (simp add: open_addrs_def b f)
  have "heap_mapped ?h 0" using t by (simp add: heap_mapped_def)
  then have "heap_mapped ?h i" if "i < 4096" for i using heap_mapped_page [OF that, of 0 ?h] by simp
  moreover have "blocks h \<le> 4096" using h by (simp add: heap_open_def)
  ultimately have "table_mapped ?h" unfolding table_mapped_def b by (meson less_le_trans)
  then show "heap_open ?h n" using h by (simp add: heap_open_def b o f)
qed

lemma heap_start_page: "pd_index HEAP_START_ADDRESS = 832"
  by (simp add: unat_pd_index HEAP_START_ADDRESS_def)

lemma heap_table_seen:
  assumes "heap_open h n" and "sees_kernel (mmu h)"
  shows "walk (ram (mmu h)) (kdir_frame (mmu h)) HEAP_START_ADDRESS \<noteq> None"
proof -
  have "heap_mapped h 0" using assms(1) by (simp add: heap_open_def table_mapped_def)
  then show ?thesis
    using sees_kernel_walk [OF assms(2), of HEAP_START_ADDRESS] heap_start_page by (simp add: heap_mapped_def)
qed

lemma building_heap_table:
  assumes b: "building i m s U D b ks" and m: "walk (ram m) (kdir_frame m) HEAP_START_ADDRESS \<noteq> None"
  shows "translate s HEAP_START_ADDRESS \<noteq> None" "walk (ram s) (kdir_frame s) HEAP_START_ADDRESS \<noteq> None"
proof -
  note d = buildingD [OF b] and dd = building_dirs [OF b]
  have "walk (ram s) (kdir_frame m) HEAP_START_ADDRESS \<noteq> None"
    using d(18) [of HEAP_START_ADDRESS] m heap_start_page by (simp split: option.splits)
  then show "walk (ram s) (kdir_frame s) HEAP_START_ADDRESS \<noteq> None" by (simp add: dd(1))
  then show "translate s HEAP_START_ADDRESS \<noteq> None" using sees_kernel_walk [OF dd(7)] heap_start_page by simp
qed

section \<open>The bytes of the program\<close>

definition loaded :: "mmu_state \<Rightarrow> u8 list \<Rightarrow> bool" where
  "loaded s data \<longleftrightarrow> (\<forall>x < length data. load_byte s (0x400000 + of_nat x) = Some (data ! x))"

lemma program_address:
  assumes "x < 0x400000"
  shows "unat (0x400000 + of_nat x :: u32) div 4096 = 0x400 + x div 4096" "pd_index (0x400000 + of_nat x) = 1"
proof -
  have "unat (of_nat x :: u32) = x" using assms by (intro unat_u32_of_nat) simp
  then have u: "unat (0x400000 + of_nat x :: u32) = 0x400000 + x" using assms by (simp add: unat_word_ariths(1))
  then show "unat (0x400000 + of_nat x :: u32) div 4096 = 0x400 + x div 4096" by simp
  have "(0x400000 + x) div 4194304 = 1" using assms by (simp add: div_nat_eqI)
  then show "pd_index (0x400000 + of_nat x) = 1" by (simp add: unat_pd_index u)
qed

lemma loaded_kept:
  assumes s: "loaded s data" "length data \<le> 0x400000" and b: "building i m s U D b ks" "building i' m' t U' D' b' ks'"
    and U: "\<And>g. 0x400 \<le> g \<Longrightarrow> g < 0x800 \<Longrightarrow> U' g = U g" "\<And>g f. U g = Some f \<Longrightarrow> f \<in> set D"
    and ram: "\<forall>f \<in> set D. ram t f = ram s f"
  shows "loaded t data"
  unfolding loaded_def
proof (intro allI impI)
  fix x assume x: "x < length data"
  let ?v = "0x400000 + of_nat x :: u32"
  have x4: "x < 0x400000" using x s(2) by simp
  then have "x div 4096 < 1024" by (simp add: div_less_iff_less_mult)
  then have pg: "0x400 \<le> unat ?v div 4096" "unat ?v div 4096 < 0x800" by (simp_all add: program_address(1) [OF x4])
  have load: "load_byte s ?v = Some (data ! x)" using s(1) x by (simp add: loaded_def)
  then obtain f where f: "translate s ?v = Some f" by (cases "translate s ?v") (simp_all add: load_byte_def)
  have "translate s ?v = U (unat ?v div 4096)" "translate t ?v = U' (unat ?v div 4096)"
    using buildingD(17) [OF b(1), of ?v] buildingD(17) [OF b(2), of ?v] program_address(2) [OF x4] by simp_all
  then have "translate t ?v = Some f" "f \<in> set D" using f U(1) [OF pg] U(2) by simp_all
  then show "load_byte t ?v = Some (data ! x)" using load f ram by (simp add: load_byte_def)
qed

lemma building_program:
  assumes m: "dirs_ready m" "kmem_ok heap_pdes m" "i < NUM_PAGE_DIRS" and len: "length data \<le> 0x400000"
    and room: "kmem_need heap_pdes m + pages_of data + 262 \<le> frame_room m"
    and chunk: "\<forall>j < pages_of data. chunk j = (FR_OK, page_of data j)"
  shows "\<exists>m1 m2 p. map_user_pages 0x400000 (pages_of data + 256) (new_space i m) = Some m1
    \<and> copy_pages chunk 0x400000 0 (pages_of data) m1 = Some m2 \<and> loaded m2 data
    \<and> building i m m2 (frames_run 0x400 (pages_of data + 256) p) (map p [0..<pages_of data + 256]) b []"
proof -
  let ?n = "pages_of data + 256"
  have "card (used_frames (frames m) \<inter> pmm_window (frames m)) \<le> kmem_need heap_pdes m" by (simp add: kmem_need_def dir_need_def)
  then have "card (used_frames (frames m) \<inter> pmm_window (frames m)) + pages_of data + 262 \<le> frame_room m" using room by simp
  from program_loaded [OF m(1,3) len this chunk] obtain m1 r p where
    m1: "map_user_pages 0x400000 ?n (new_space i m) = Some m1" "user_run process_pdes 0x400 ?n p (new_space i m) m1"
      "copy_pages chunk 0x400000 0 (pages_of data) m1 = Some (m1\<lparr>ram := r\<rparr>)" "\<forall>g. g \<notin> p ` {..<?n} \<longrightarrow> r g = ram m1 g"
      "\<forall>x < length data. load_byte (m1\<lparr>ram := r\<rparr>) (0x400000 + of_nat x) = Some (data ! x)"
    by (elim exE conjE) (rule that)
  have st: "user_step process_pdes (frames_run 0x400 ?n p) ?n (new_space i m) m1" and inj: "inj_on p {..<?n}"
    and new: "p ` {..<?n} \<subseteq> pmm_window (frames (new_space i m)) \<inter> used_frames (frames m1) - used_frames (frames (new_space i m)) - space_tables m1"
    using m1(2) by (auto simp: fresh_run_def)
  have pn: "distinct (map p [0..<?n])" "length (map p [0..<?n]) = ?n" "set (map p [0..<?n]) = p ` {..<?n}"
    using inj by (simp_all add: distinct_map lessThan_atLeast0)
  have "set (map p [0..<?n]) \<subseteq> pmm_window (frames (new_space i m)) \<inter> used_frames (frames m1) - used_frames (frames (new_space i m))"
      "set (map p [0..<?n]) \<inter> user_tables m1 = {}"
    unfolding pn(3) using new user_tables_space [of m1] by blast+
  from building_user_step(1) [OF building_start [OF m] st pn(1,2) this, of b]
  have "building i m m1 (frames_run 0x400 ?n p) (map p [0..<?n]) b []" by simp
  then have "building i m (m1\<lparr>ram := r\<rparr>) (frames_run 0x400 ?n p) (map p [0..<?n]) b []"
    by (rule building_stores) (use m1(4) pn(3) in blast)
  then show ?thesis using m1(1,3,5) by (auto simp: loaded_def)
qed

section \<open>The finished space\<close>

lemma building_ready:
  assumes b: "building i m s U D b ks" and m: "dirs_ready m"
  shows "dirs_ready s" "kmem_ok heap_pdes s" "sees_kernel s"
proof -
  note d = buildingD [OF b] and dd = building_dirs [OF b]
  show k: "kmem_ok heap_pdes s" and "sees_kernel s" by (rule d(8), rule dd(7))
  have "page_dir s = page_dir m" by (simp add: page_dir_def d(4) fun_eq_iff)
  then show "dirs_ready s" using k m by (simp add: kmem_ok_def dirs_ready_def d(4))
qed

text \<open>What has become of \<open>m\<close>: directory \<open>i\<close> is current and maps the pages of \<open>U\<close> in its user half and the kernel's pages
  above it, the kernel has got pages for its heap, and all of these are on different frames that were free. The
  rest of memory is as it was, except for page tables of the kernel and the kernel halves of the directories.\<close>

definition space_made :: "nat \<Rightarrow> (nat \<Rightarrow> nat option) \<Rightarrow> nat list \<Rightarrow> nat \<Rightarrow> nat list \<Rightarrow> mmu_state \<Rightarrow> mmu_state \<Rightarrow> bool" where
  "space_made i U D b ks m m' \<longleftrightarrow> distinct (D @ ks) \<and> set (D @ ks) \<subseteq> pmm_window (frames m) - used_frames (frames m)
     \<and> (\<forall>v. pd_index v < 1023 \<longrightarrow> translate m' v =
          (if pd_index v < 768 then U (unat v div 4096) else walk (ram m') (kdir_frame m) v))
     \<and> (\<forall>v. pd_index v < 1023 \<longrightarrow> walk (ram m') (kdir_frame m) v =
          (case heap_pages b ks (unat v div 4096) of None \<Rightarrow> walk (ram m) (kdir_frame m) v | f \<Rightarrow> f))
     \<and> (\<forall>g. held m g \<longrightarrow> g \<notin> kernel_frames m \<longrightarrow> ram m' g = ram m g)
     \<and> (\<forall>k j. k < NUM_PAGE_DIRS \<longrightarrow> k \<noteq> i \<longrightarrow> \<not> (768 \<le> j \<and> j < 1023) \<longrightarrow> ram m' (pdir_frame m k) j = ram m (pdir_frame m k) j)
     \<and> (\<forall>k. dir_used m k \<longrightarrow> mirrors m k \<longrightarrow> mirrors m' k)
     \<and> cr3 m' = page_dir m i - KERNEL_START \<and> kernel_directory m' = kernel_directory m \<and> pageDirs m' = pageDirs m
     \<and> pageDirsUsed m' = (pageDirsUsed m)(i := 1) \<and> same_window (frames m) (frames m')
     \<and> used_frames (frames m) \<union> set (D @ ks) \<subseteq> used_frames (frames m')
     \<and> kmem_need heap_pdes m' \<le> kmem_need heap_pdes m + 6 + length (D @ ks)"

lemma building_made:
  assumes b: "building i m s U D b ks"
  shows "space_made i U D b ks m s"
proof -
  note d = buildingD [OF b] and dd = building_dirs [OF b]
  have tr: "translate s v = (if pd_index v < 768 then U (unat v div 4096) else walk (ram s) (kdir_frame m) v)" if "pd_index v < 1023" for v
    using d(17) [of v] sees_kernel_walk [OF dd(7), of v] that by (simp add: dd(1))
  have need: "kmem_need heap_pdes s \<le> kmem_need heap_pdes m + 6 + length (D @ ks)" using d(12) by simp
  have used: "used_frames (frames m) \<union> set (D @ ks) \<subseteq> used_frames (frames s)" using d(7,15) by blast
  show ?thesis
    unfolding space_made_def
  proof (intro conjI allI impI)
    show "ram s (pdir_frame m k) j = ram m (pdir_frame m k) j" if "k < NUM_PAGE_DIRS" "k \<noteq> i" "\<not> (768 \<le> j \<and> j < 1023)" for k j
      using that by (rule d(20))
    show "walk (ram s) (kdir_frame m) v = (case heap_pages b ks (unat v div 4096) of None \<Rightarrow> walk (ram m) (kdir_frame m) v | f \<Rightarrow> f)"
      if "pd_index v < 1023" for v using that by (rule d(18))
  qed (use d(2-6,13,14,19,21) tr need used in blast)+
qed

text \<open>The address space of a process with the program \<open>data\<close>.\<close>

definition process_space :: "nat \<Rightarrow> u8 list \<Rightarrow> (nat \<Rightarrow> nat) \<Rightarrow> (nat \<Rightarrow> nat) \<Rightarrow> (nat \<Rightarrow> nat) \<Rightarrow> nat \<Rightarrow> nat list \<Rightarrow> mmu_state \<Rightarrow> mmu_state \<Rightarrow> bool" where
  "process_space i data p q h b ks m m' \<longleftrightarrow>
     space_made i (process_pages (pages_of data) p q h) (process_frames (pages_of data) p q h) b ks m m' \<and> loaded m' data"

section \<open>The objects and pages of a thread\<close>

lemma thread_space:
  assumes b: "building i m (mmu h) U D b ks" "blocks h = b + length ks" and h: "heap_open h (n + 3)"
    and tab: "walk (ram m) (kdir_frame m) HEAP_START_ADDRESS \<noteq> None"
    and room: "kmem_need heap_pdes m + length (D @ ks) + 4205 \<le> frame_room m"
  shows "\<exists>t h1 m3 m4 r h3 stack h4 q fh js. kmalloc 48 h = Some (t, h1) \<and> t \<noteq> NULL
    \<and> map_user_pages (USER_STACK_TOP - PAGE_SIZE * of_nat 100) 100 (mmu h1) = Some m3 \<and> map_user_pages 0x00800000 4096 m3 = Some m4
    \<and> kmalloc 64 (h1\<lparr>mmu := m4\<rparr>) = Some (r, h3) \<and> r \<noteq> NULL \<and> kmalloc 4096 h3 = Some (stack, h4)
    \<and> {t, r, stack} \<subseteq> open_addrs h \<and> distinct [t, r, stack] \<and> open_addrs h4 = open_addrs h - {t, r, stack} \<and> heap_open h4 n
    \<and> building i m (mmu h4) (U ++ (frames_run 0xAFF9C 100 q ++ frames_run 0x800 4096 fh)) (D @ map q [0..<100] @ map fh [0..<4096]) b (ks @ js)
    \<and> length js \<le> 3 \<and> blocks h4 = b + length (ks @ js) \<and> (\<forall>g \<in> set D. ram (mmu h4) g = ram (mmu h) g)"
proof -
  have pde: "\<forall>k < 100. (0xAFF9C + k) div 1024 \<in> process_pdes" "\<forall>k < 4096. (0x800 + k) div 1024 \<in> process_pdes"
    using process_pdes(4,5) by blast+
  have sz: "0 < unat (48 :: u32)" "unat (48 :: u32) \<le> 4096" "0 < unat (64 :: u32)" "unat (64 :: u32) \<le> 4096"
      "0 < unat (4096 :: u32)" "unat (4096 :: u32) \<le> 4096" by simp_all
  have "heap_open h (Suc (Suc (Suc n)))" "kmem_need heap_pdes m + 6 + length (D @ ks) < frame_room m"
    using h room by (simp add: numeral_3_eq_3, simp)
  from building_kmalloc [OF b this(1) sz(1,2) this(2)] obtain t h1 ns where
    1: "kmalloc 48 h = Some (t, h1)" "t \<in> open_addrs h" "t \<noteq> NULL" "open_addrs h1 = open_addrs h - {t}" "heap_open h1 (Suc (Suc n))"
      "blocks h1 = b + length (ks @ ns)" "length ns \<le> 1" "building i m (mmu h1) U D b (ks @ ns)" "\<forall>g \<in> set D. ram (mmu h1) g = ram (mmu h) g"
    by (elim exE conjE) (rule that)
  have "kmem_need heap_pdes m + 6 + length (D @ ks @ ns) + 100 \<le> frame_room m" using room 1(7) by simp
  from building_pages [OF 1(8) stack_base(1,2) pde(1) this] obtain m3 q where
    2: "map_user_pages (USER_STACK_TOP - PAGE_SIZE * of_nat 100) 100 (mmu h1) = Some m3"
      "building i m m3 (U ++ frames_run 0xAFF9C 100 q) (D @ map q [0..<100]) b (ks @ ns)" "\<forall>g \<in> set D. ram m3 g = ram (mmu h1) g"
    by (elim exE conjE) (rule that)
  have "kmem_need heap_pdes m + 6 + length ((D @ map q [0..<100]) @ ks @ ns) + 4096 \<le> frame_room m" using room 1(7) by simp
  from building_pages [OF 2(2) stack_base(3,4) pde(2) this] obtain m4 fh where
    3: "map_user_pages 0x00800000 4096 m3 = Some m4"
      "building i m m4 ((U ++ frames_run 0xAFF9C 100 q) ++ frames_run 0x800 4096 fh) ((D @ map q [0..<100]) @ map fh [0..<4096]) b (ks @ ns)"
      "\<forall>g \<in> set (D @ map q [0..<100]). ram m4 g = ram m3 g"
    by (elim exE conjE) (rule that)
  let ?U = "U ++ (frames_run 0xAFF9C 100 q ++ frames_run 0x800 4096 fh)" and ?D = "D @ map q [0..<100] @ map fh [0..<4096]"
  have b4: "building i m m4 ?U ?D b (ks @ ns)" using 3(2) by (simp add: map_add_assoc)
  define h2 where "h2 = h1\<lparr>mmu := m4\<rparr>"
  note o = heap_open_space [OF 1(5) building_heap_table(1) [OF b4 tab], folded h2_def]
  have h2: "mmu h2 = m4" "blocks h2 = b + length (ks @ ns)" using o(3) 1(6) by (simp_all add: h2_def)
  have "kmem_need heap_pdes m + 6 + length (?D @ ks @ ns) < frame_room m" using room 1(7) by simp
  from building_kmalloc [OF b4 [folded h2(1)] h2(2) o(1) sz(3,4) this] obtain r h3 ns' where
    4: "kmalloc 64 h2 = Some (r, h3)" "r \<in> open_addrs h2" "r \<noteq> NULL" "open_addrs h3 = open_addrs h2 - {r}" "heap_open h3 (Suc n)"
      "blocks h3 = b + length ((ks @ ns) @ ns')" "length ns' \<le> 1" "building i m (mmu h3) ?U ?D b ((ks @ ns) @ ns')"
      "\<forall>g \<in> set ?D. ram (mmu h3) g = ram m4 g"
    unfolding h2(1) by (elim exE conjE) (rule that)
  have "kmem_need heap_pdes m + 6 + length (?D @ (ks @ ns) @ ns') < frame_room m" using room 1(7) 4(7) by simp
  from building_kmalloc [OF 4(8,6,5) sz(5,6) this] obtain stack h4 ns'' where
    5: "kmalloc 4096 h3 = Some (stack, h4)" "stack \<in> open_addrs h3" "open_addrs h4 = open_addrs h3 - {stack}" "heap_open h4 n"
      "blocks h4 = b + length (((ks @ ns) @ ns') @ ns'')" "length ns'' \<le> 1" "building i m (mmu h4) ?U ?D b (((ks @ ns) @ ns') @ ns'')"
      "\<forall>g \<in> set ?D. ram (mmu h4) g = ram (mmu h3) g"
    by (elim exE conjE) (rule that)
  define js where "js = ns @ ns' @ ns''"
  have js: "((ks @ ns) @ ns') @ ns'' = ks @ js" "length js \<le> 3" using 1(7) 4(7) 5(6) by (simp_all add: js_def)
  have addrs: "{t, r, stack} \<subseteq> open_addrs h" "distinct [t, r, stack]" "open_addrs h4 = open_addrs h - {t, r, stack}"
    using 1(2,4) o(2) 4(2,4) 5(2,3) by auto
  have "\<forall>g \<in> set D. ram (mmu h4) g = ram (mmu h) g" using 1(9) 2(3) 3(3) 4(9) 5(8) by simp
  moreover note 5(5,7) [unfolded js(1)]
  ultimately show ?thesis
    apply (intro exI [of _ t] exI [of _ h1])
    apply (rule exI [of _ m3], rule exI [of _ m4], rule exI [of _ r], rule exI [of _ h3], rule exI [of _ stack], rule exI [of _ h4])
    apply (rule exI [of _ q], rule exI [of _ fh], rule exI [of _ js])
    using 1(1,3) 2(1) 3(1) 4(1,3) 5(1,4) addrs js(2) unfolding h2_def by simp
qed

end
