(* ===== verification/User_Process.thy ===== *)
theory User_Process
  imports Process_Space
begin

text \<open>
  \<open>createUserProcess\<close> as a whole: the objects of the process and of its thread come from the heap of the kernel, which
  grows while the new directory is the current one, the address space is that of \<open>Process_Space\<close>, and the process
  enters the process table.
\<close>

section \<open>The thread\<close>

lemma createUserThread_made:
  assumes t: "kmalloc 48 (kheap s) = Some (t, h1)" "t \<noteq> NULL"
    and m: "map_user_pages (USER_STACK_TOP - PAGE_SIZE * of_nat 100) 100 (mmu h1) = Some m3" "map_user_pages 0x00800000 4096 m3 = Some m4"
    and r: "kmalloc 64 (h1\<lparr>mmu := m4\<rparr>) = Some (r, h3)" "r \<noteq> NULL" and stack: "kmalloc 4096 h3 = Some (stack, h4)"
    and p: "p \<noteq> NULL" "procs (ptab s) p = Some own" "head_thread own = NULL"
  shows "createUserThread junk p s = Some (t, s\<lparr>kheap := h4,
      regstore := (regstore s)(r \<mapsto> start_regs 0x23 0x1B PROGRAMM_VIRTUAL_ADDRESS_START (USER_STACK_TOP - 4) (pageDirectory own) junk),
      threads := (threads s)(t \<mapsto> kernel_thread (threadID (ptab s) + 1) p r stack),
      ptab := (ptab s)\<lparr>threadID := threadID (ptab s) + 1,
        procs := (procs (ptab s))(p \<mapsto> own\<lparr>head_thread := t, tail_thread := t\<rparr>)\<rparr>\<rparr>)"
  using assms
  by (simp add: createUserThread_def alloc_thread_def kernel_kmalloc_def getThreadID_def upd_thread_def on_mmu_def
      rd_thread_def rd_def upd_def upd_proc_def link_thread_def zero_thread_def kernel_thread_def Let_def NULL_def
      add.commute [of stack])

section \<open>The process\<close>

text \<open>What the process code relies on in FatFs: the calls succeed and \<open>f_read\<close> delivers the bytes of the file.\<close>

definition delivers_file :: "program_file \<Rightarrow> u8 list \<Rightarrow> bool" where
  "delivers_file f data \<longleftrightarrow> stat_res f = FR_OK \<and> stat_fsize f = of_nat (length data) \<and> open_res f = FR_OK
     \<and> (\<forall>j < pages_of data. reads f j = (FR_OK, page_of data j))"

lemma pages_needed:
  assumes "length data \<le> 0x400000"
  shows "unat (CEIL_DIV (of_nat (length data)) PAGE_SIZE) = pages_of data"
    and "unat (CEIL_DIV (of_nat (length data)) PAGE_SIZE + 256) = pages_of data + 256"
proof -
  have "unat (of_nat (length data) :: u32) = length data" using assms by (intro unat_u32_of_nat) simp
  then show 1: "unat (CEIL_DIV (of_nat (length data)) PAGE_SIZE) = pages_of data"
    using unat_ceil_page [of "of_nat (length data)"] assms by (simp add: pages_of_def PAGE_SIZE_def PAGE_FRAME_SIZE_def)
  show "unat (CEIL_DIV (of_nat (length data)) PAGE_SIZE + 256) = pages_of data + 256"
    using pages_of_bound(2) [OF assms] by (simp add: unat_word_ariths(1) 1)
qed

text \<open>Loading the file into the new address space, as \<open>createUserProcess\<close> does it between the objects.\<close>

definition load_file :: "program_file \<Rightarrow> mmu_state \<Rightarrow> mmu_state option" where
  "load_file file m = (let n = if stat_res file = FR_OK then CEIL_DIV (stat_fsize file) PAGE_SIZE else 0 in do {
     m \<leftarrow> (if stat_res file = FR_OK then map_user_pages 0x400000 (unat (n + 256)) m else Some m);
     if open_res file = FR_OK then copy_pages (reads file) 0x400000 0 (unat n) m else Some m
   })"

lemma createUserProcess_alloc:
  assumes "kmalloc 40 (kheap s) = Some (p, h)" and "p \<noteq> NULL" and "first_unused_dir (mmu h) = Some i"
    and "load_file file (new_space i (mmu h)) = Some m2"
  shows "createUserProcess apic junk file s = do {
    (t, s) \<leftarrow> createUserThread junk p (s\<lparr>kheap := h\<lparr>mmu := m2\<rparr>, ptab := (ptab s)\<lparr>KProcessID := KProcessID (ptab s) + 1,
      procs := (procs (ptab s))(p \<mapsto> kernel_process (KProcessID (ptab s) + 1) (page_dir (mmu h) i))\<rparr>\<rparr>);
    s \<leftarrow> insert_process apic p
      (s\<lparr>kheap := (kheap s)\<lparr>mmu := mem_change_page_directory (page_dir (mmu h) i) (mmu (kheap s))\<rparr>\<rparr>);
    Some (p, s) }"
proof -
  obtain m0 where alloc: "mem_alloc_page_dir (mmu h) = (page_dir (mmu h) i, m0)"
      "mem_change_page_directory (page_dir (mmu h) i) m0 = new_space i (mmu h)"
    using new_space_alloc [OF assms(3)] by blast
  show ?thesis
    using assms(1,2,4)
    by (cases "stat_res file = FR_OK"; cases "open_res file = FR_OK")
      (auto simp: createUserProcess_def alloc_process_def kernel_kmalloc_def upd_proc_def upd_def rd_def zero_process_def
        assign_pid_def getProcessID_def kernel_process_def NULL_def alloc mapMemoryForProgramm_def load_file_def
        copyProgramToAddress_def on_mmu_def Let_def bind_eq_Some_conv)
qed

lemma load_file_delivers:
  assumes "delivers_file file data" "length data \<le> 0x400000"
    and "map_user_pages 0x400000 (pages_of data + 256) m = Some m1" and "copy_pages (reads file) 0x400000 0 (pages_of data) m1 = Some m2"
  shows "load_file file m = Some m2"
  using assms pages_needed [OF assms(2)] by (simp add: load_file_def delivers_file_def Let_def)

text \<open>
  A kernel that can start another program: its heap has blocks for \<open>n\<close> objects or can grow by them, page directories
  can be made, the current directory sees the kernel's half, and the process table is in order, unlocked and apart
  from the blocks that can be handed out.
\<close>

definition launch_ready :: "'a kstate_scheme \<Rightarrow> (ptr \<times> u32) list \<Rightarrow> nat \<Rightarrow> bool" where
  "launch_ready s xs n \<longleftrightarrow> heap_open (kheap s) n \<and> dirs_ready (mmu (kheap s)) \<and> kmem_ok heap_pdes (mmu (kheap s))
     \<and> sees_kernel (mmu (kheap s)) \<and> table (ptab s) xs \<and> locked (rbTreeLock (ptab s)) = 0
     \<and> open_addrs (kheap s) \<inter> insert (NIL (ptab s)) (fst ` set xs) = {}"

text \<open>The process, with its thread and registers, in the table.\<close>

definition user_process_made :: "ptr \<Rightarrow> u32 \<Rightarrow> regs \<Rightarrow> (ptr \<times> u32) list \<Rightarrow> 'a kstate_scheme \<Rightarrow> 'a kstate_scheme \<Rightarrow> bool" where
  "user_process_made p pd junk xs s s' \<longleftrightarrow> (\<exists>t r stack own. procs (ptab s') p = Some own \<and> head_thread own = t \<and> tail_thread own = t
     \<and> pageDirectory own = pd \<and> isUserProc own = 0 \<and> pid own = KProcessID (ptab s) + 1
     \<and> threads s' = (threads s)(t \<mapsto> kernel_thread (threadID (ptab s) + 1) p r stack)
     \<and> regstore s' = (regstore s)(r \<mapsto> start_regs 0x23 0x1B PROGRAMM_VIRTUAL_ADDRESS_START (USER_STACK_TOP - 4) pd junk)
     \<and> {p, t, r, stack} \<subseteq> open_addrs (kheap s) \<and> distinct [p, t, r, stack]
     \<and> open_addrs (kheap s') = open_addrs (kheap s) - {p, t, r, stack}
     \<and> table (ptab s') (add_process p (KProcessID (ptab s) + 1) xs) \<and> locked (rbTreeLock (ptab s')) = 0
     \<and> (\<forall>q \<in> fst ` set xs. map_option payload (procs (ptab s') q) = map_option payload (procs (ptab s) q))
     \<and> kstate.more s' = kstate.more s)"

text \<open>The object of the process, before the directory is made.\<close>

lemma first_object:
  assumes ready: "launch_ready s xs (n + 4)" and room: "kmem_need heap_pdes (mmu (kheap s)) < frame_room (mmu (kheap s))"
    and i: "first_unused_dir (mmu (kheap s)) = Some i"
  shows "\<exists>p h e kp. kmalloc 40 (kheap s) = Some (p, h) \<and> p \<in> open_addrs (kheap s) \<and> p \<noteq> NULL \<and> open_addrs h = open_addrs (kheap s) - {p}
    \<and> heap_open h (n + 3) \<and> blocks h = blocks (kheap s) + e \<and> e \<le> 1
    \<and> kernel_run heap_pdes (0xD0000 + blocks (kheap s)) e kp (mmu (kheap s)) (mmu h)
    \<and> dirs_ready (mmu h) \<and> kmem_ok heap_pdes (mmu h) \<and> first_unused_dir (mmu h) = Some i \<and> page_dir (mmu h) i = page_dir (mmu (kheap s)) i
    \<and> kmem_need heap_pdes (mmu h) = kmem_need heap_pdes (mmu (kheap s)) + e \<and> frame_room (mmu h) = frame_room (mmu (kheap s))
    \<and> walk (ram (mmu h)) (kdir_frame (mmu h)) HEAP_START_ADDRESS \<noteq> None"
proof -
  have r: "heap_open (kheap s) (Suc (n + 3))" "dirs_ready (mmu (kheap s))" "kmem_ok heap_pdes (mmu (kheap s))" "sees_kernel (mmu (kheap s))"
    using ready by (simp_all add: launch_ready_def eval_nat_numeral)
  have sz: "0 < unat (40 :: u32)" "unat (40 :: u32) \<le> 4096" by simp_all
  from kmalloc_open [OF r(1) sz r(3,4) room] obtain p h e kp where
    p: "kmalloc 40 (kheap s) = Some (p, h)" "p \<in> open_addrs (kheap s)" "p \<noteq> NULL" "open_addrs h = open_addrs (kheap s) - {p}"
      "heap_open h (n + 3)" "blocks h = blocks (kheap s) + e" "e \<le> 1"
      "kernel_run heap_pdes (0xD0000 + blocks (kheap s)) e kp (mmu (kheap s)) (mmu h)"
    by (elim exE conjE) (rule that)
  have st: "kmem_step heap_pdes (frames_run (0xD0000 + blocks (kheap s)) e kp) e (mmu (kheap s)) (mmu h)" using p(8) by (simp add: fresh_run_def)
  note d = kmem_stepD [OF st]
  have pd: "page_dir (mmu h) = page_dir (mmu (kheap s))" "pageDirs (mmu h) = pageDirs (mmu (kheap s))"
      "pageDirsUsed (mmu h) = pageDirsUsed (mmu (kheap s))"
    using d(2) by (simp_all add: same_setup_def page_dir_def fun_eq_iff)
  have "dirs_ready (mmu h)" using d(1) r(2) by (simp add: dirs_ready_def kmem_ok_def pd)
  moreover have "walk (ram (mmu h)) (kdir_frame (mmu h)) HEAP_START_ADDRESS \<noteq> None"
    by (rule heap_table_seen [OF p(5) sees_kernel_step(1) [OF st r(4)]])
  moreover have "first_unused_dir (mmu h) = Some i" using i by (simp add: first_unused_dir_def pd)
  ultimately show ?thesis
    apply (intro exI [of _ p] exI [of _ h])
    apply (rule exI [of _ e], rule exI [of _ kp])
    using p d(1,5,10) by (simp add: pd)
qed

text \<open>From the loaded file to the process and its thread, before the process enters the tree.\<close>

lemma createUserProcess_before_insert:
  fixes s :: "'a kstate_scheme"
  assumes p: "kmalloc 40 (kheap s) = Some (p, h)" "p \<noteq> NULL" "heap_open h (n + 3)" and i: "first_unused_dir (mmu h) = Some i"
    and load: "load_file file (new_space i (mmu h)) = Some m2" and b: "building i (mmu h) m2 U D (blocks h) []"
    and tab: "walk (ram (mmu h)) (kdir_frame (mmu h)) HEAP_START_ADDRESS \<noteq> None"
    and room: "kmem_need heap_pdes (mmu h) + length D + 4205 \<le> frame_room (mmu h)"
  defines "k \<equiv> KProcessID (ptab s) + 1" and "pd \<equiv> page_dir (mmu h) i"
  obtains t r stack q fh js and s' :: "'a kstate_scheme" where
    "createUserProcess apic junk file s = do { s \<leftarrow> insert_process apic p s'; Some (p, s) }"
    and "{t, r, stack} \<subseteq> open_addrs h" and "distinct [t, r, stack]" and "open_addrs (kheap s') = open_addrs h - {t, r, stack}"
    and "heap_open (kheap s') n" and "length js \<le> 3" and "blocks (kheap s') = blocks h + length js"
    and "building i (mmu h) (mmu (kheap s')) (U ++ (frames_run 0xAFF9C 100 q ++ frames_run 0x800 4096 fh))
      (D @ map q [0..<100] @ map fh [0..<4096]) (blocks h) js"
    and "\<forall>g \<in> set D. ram (mmu (kheap s')) g = ram m2 g"
    and "ptab s' = (ptab s)\<lparr>KProcessID := k, threadID := threadID (ptab s) + 1, procs := (procs (ptab s))(p \<mapsto>
      (kernel_process k pd)\<lparr>head_thread := t, tail_thread := t\<rparr>)\<rparr>"
    and "threads s' = (threads s)(t \<mapsto> kernel_thread (threadID (ptab s) + 1) p r stack)"
    and "regstore s' = (regstore s)(r \<mapsto> start_regs 0x23 0x1B PROGRAMM_VIRTUAL_ADDRESS_START (USER_STACK_TOP - 4) pd junk)"
    and "kstate.more s' = kstate.more s"
proof -
  define h2 where "h2 = h\<lparr>mmu := m2\<rparr>"
  note o = heap_open_space [OF p(3) building_heap_table(1) [OF b tab], folded h2_def]
  have h2: "mmu h2 = m2" "blocks h2 = blocks h + length []" using o(3) by (simp_all add: h2_def)
  have room': "kmem_need heap_pdes (mmu h) + length (D @ []) + 4205 \<le> frame_room (mmu h)" using room by simp
  from thread_space [OF b [folded h2(1)] h2(2) o(1) tab room'] obtain t h1 m3 m4 r h3 stack h4 q fh js where
    t: "kmalloc 48 h2 = Some (t, h1)" "t \<noteq> NULL"
      "map_user_pages (USER_STACK_TOP - PAGE_SIZE * of_nat 100) 100 (mmu h1) = Some m3" "map_user_pages 0x00800000 4096 m3 = Some m4"
      "kmalloc 64 (h1\<lparr>mmu := m4\<rparr>) = Some (r, h3)" "r \<noteq> NULL" "kmalloc 4096 h3 = Some (stack, h4)"
    and addrs: "{t, r, stack} \<subseteq> open_addrs h2" "distinct [t, r, stack]" "open_addrs h4 = open_addrs h2 - {t, r, stack}" "heap_open h4 n"
    and b4: "building i (mmu h) (mmu h4) (U ++ (frames_run 0xAFF9C 100 q ++ frames_run 0x800 4096 fh))
        (D @ map q [0..<100] @ map fh [0..<4096]) (blocks h) ([] @ js)"
    and js: "length js \<le> 3" "blocks h4 = blocks h + length ([] @ js)" and ram: "\<forall>g \<in> set D. ram (mmu h4) g = ram (mmu h2) g"
    by (elim exE conjE) (rule that)
  define s1 where "s1 = s\<lparr>kheap := h2, ptab := (ptab s)\<lparr>KProcessID := k, procs := (procs (ptab s))(p \<mapsto> kernel_process k pd)\<rparr>\<rparr>"
  have s1: "kheap s1 = h2" "procs (ptab s1) p = Some (kernel_process k pd)" "head_thread (kernel_process k pd) = NULL"
    by (simp_all add: s1_def kernel_process_def zero_process_def NULL_def)
  define s2 where "s2 = s1\<lparr>kheap := h4,
      regstore := (regstore s1)(r \<mapsto> start_regs 0x23 0x1B PROGRAMM_VIRTUAL_ADDRESS_START (USER_STACK_TOP - 4) (pageDirectory (kernel_process k pd)) junk),
      threads := (threads s1)(t \<mapsto> kernel_thread (threadID (ptab s1) + 1) p r stack),
      ptab := (ptab s1)\<lparr>threadID := threadID (ptab s1) + 1,
        procs := (procs (ptab s1))(p \<mapsto> (kernel_process k pd)\<lparr>head_thread := t, tail_thread := t\<rparr>)\<rparr>\<rparr>"
  have thread: "createUserThread junk p s1 = Some (t, s2)"
    unfolding s2_def by (rule createUserThread_made [OF t(1) [folded s1(1)] t(2-7) p(2) s1(2,3)])
  have same: "mem_change_page_directory pd (mmu h4) = mmu h4"
    using buildingD(2) [OF b4] by (simp add: mem_change_page_directory_def pd_def)
  have eq: "s2\<lparr>kheap := (kheap s2)\<lparr>mmu := mem_change_page_directory pd (mmu (kheap s2))\<rparr>\<rparr> = s2"
    by (intro kstate.equality) (simp_all add: s2_def same)
  have "createUserProcess apic junk file s = do { (t, s) \<leftarrow> createUserThread junk p s1;
      s \<leftarrow> insert_process apic p (s\<lparr>kheap := (kheap s)\<lparr>mmu := mem_change_page_directory pd (mmu (kheap s))\<rparr>\<rparr>); Some (p, s) }"
    using createUserProcess_alloc [OF p(1,2) i load, of apic junk] unfolding s1_def h2_def k_def pd_def .
  then have run: "createUserProcess apic junk file s = do { s \<leftarrow> insert_process apic p s2; Some (p, s) }"
    unfolding thread Option.bind.simps prod.case eq .
  have kh: "kheap s2 = h4" by (simp add: s2_def)
  show ?thesis
    by (rule that [OF run, unfolded kh, of t r stack js q fh])
      (use addrs b4 js ram o(2) h2(1) in \<open>simp_all add: s2_def s1_def kernel_process_def\<close>)
qed

text \<open>And into the tree: what both a loaded program and a missing file lead to.\<close>

lemma createUserProcess_inserted:
  fixes s :: "'a kstate_scheme"
  assumes ready: "launch_ready s xs (n + 4)"
    and p: "kmalloc 40 (kheap s) = Some (p, h)" "p \<in> open_addrs (kheap s)" "p \<noteq> NULL" "open_addrs h = open_addrs (kheap s) - {p}"
      "heap_open h (n + 3)" "blocks h = blocks (kheap s) + e" "e \<le> 1"
    and run: "kernel_run heap_pdes (0xD0000 + blocks (kheap s)) e kp (mmu (kheap s)) (mmu h)"
    and h: "dirs_ready (mmu h)" "kmem_need heap_pdes (mmu h) = kmem_need heap_pdes (mmu (kheap s)) + e"
      "frame_room (mmu h) = frame_room (mmu (kheap s))" "walk (ram (mmu h)) (kdir_frame (mmu h)) HEAP_START_ADDRESS \<noteq> None"
    and i: "first_unused_dir (mmu h) = Some i" "page_dir (mmu h) i = page_dir (mmu (kheap s)) i"
    and load: "load_file file (new_space i (mmu h)) = Some m2" and b: "building i (mmu h) m2 U D (blocks h) []"
    and room: "kmem_need heap_pdes (mmu (kheap s)) + length D + 4206 \<le> frame_room (mmu (kheap s))"
  shows "\<exists>q fh ks s'. createUserProcess apic junk file s = Some (p, s')
    \<and> launch_ready s' (add_process p (KProcessID (ptab s) + 1) xs) n
    \<and> user_process_made p (page_dir (mmu (kheap s)) i) junk xs s s'
    \<and> building i (mmu (kheap s)) (mmu (kheap s')) (U ++ (frames_run 0xAFF9C 100 q ++ frames_run 0x800 4096 fh))
        (D @ map q [0..<100] @ map fh [0..<4096]) (blocks (kheap s)) ks
    \<and> length ks \<le> 4 \<and> blocks (kheap s') = blocks (kheap s) + length ks \<and> (\<forall>g \<in> set D. ram (mmu (kheap s')) g = ram m2 g)"
proof -
  let ?k = "KProcessID (ptab s) + 1" and ?pd = "page_dir (mmu (kheap s)) i"
  have tab: "table (ptab s) xs" and lock: "locked (rbTreeLock (ptab s)) = 0" and ok: "kmem_ok heap_pdes (mmu (kheap s))"
    and dirs: "dirs_ready (mmu (kheap s))" and apart: "open_addrs (kheap s) \<inter> insert (NIL (ptab s)) (fst ` set xs) = {}"
    using ready by (simp_all add: launch_ready_def)
  have room': "kmem_need heap_pdes (mmu h) + length D + 4205 \<le> frame_room (mmu h)" using room h(2,3) p(7) by simp
  obtain t r stack q fh js s2 where ex: "createUserProcess apic junk file s = do { s \<leftarrow> insert_process apic p s2; Some (p, s) }"
    and a0: "{t, r, stack} \<subseteq> open_addrs h" "distinct [t, r, stack]" "open_addrs (kheap s2) = open_addrs h - {t, r, stack}"
    and ho: "heap_open (kheap s2) n" and js: "length js \<le> 3" "blocks (kheap s2) = blocks h + length js"
    and b2: "building i (mmu h) (mmu (kheap s2)) (U ++ (frames_run 0xAFF9C 100 q ++ frames_run 0x800 4096 fh))
      (D @ map q [0..<100] @ map fh [0..<4096]) (blocks h) js"
    and ram: "\<forall>g \<in> set D. ram (mmu (kheap s2)) g = ram m2 g"
    and s2: "ptab s2 = (ptab s)\<lparr>KProcessID := ?k, threadID := threadID (ptab s) + 1,
        procs := (procs (ptab s))(p \<mapsto> (kernel_process ?k ?pd)\<lparr>head_thread := t, tail_thread := t\<rparr>)\<rparr>"
      "threads s2 = (threads s)(t \<mapsto> kernel_thread (threadID (ptab s) + 1) p r stack)"
      "regstore s2 = (regstore s)(r \<mapsto> start_regs 0x23 0x1B PROGRAMM_VIRTUAL_ADDRESS_START (USER_STACK_TOP - 4) ?pd junk)"
      "kstate.more s2 = kstate.more s"
    by (rule createUserProcess_before_insert [OF p(1,3,5) i(1) load b h(4) room', where apic = apic and junk = junk]) (unfold i(2), rule that)
  have b0: "building i (mmu (kheap s)) (mmu (kheap s2)) (U ++ (frames_run 0xAFF9C 100 q ++ frames_run 0x800 4096 fh))
      (D @ map q [0..<100] @ map fh [0..<4096]) (blocks (kheap s)) (map kp [0..<e] @ js)"
    by (rule building_before [OF b2 [unfolded p(6)] run ok])
  have addrs: "{p, t, r, stack} \<subseteq> open_addrs (kheap s)" "distinct [p, t, r, stack]"
      "open_addrs (kheap s2) = open_addrs (kheap s) - {p, t, r, stack}"
    using a0 p(2,4) by auto
  have outside: "p \<notin> insert (NIL (ptab s)) (fst ` set xs)" using apart addrs(1) by blast
  have "table (ptab s2) xs"
    using tab by (rule table_cong [rotated -1]) (use outside in \<open>auto simp: s2(1) image_iff\<close>)
  then obtain u where u: "insert_process apic p s2 = Some (s2\<lparr>ptab := u\<rparr>)"
      "table u (add_process p ?k xs)" "locked (rbTreeLock u) = 0" "NIL u = NIL (ptab s)"
      "\<And>q. map_option payload (procs u q) = map_option payload (procs (ptab s2) q)"
    using insert_process_run [of s2 xs p _ apic] lock outside p(3) by (auto simp: s2(1))
  obtain own where own: "procs u p = Some own" "head_thread own = t" "tail_thread own = t"
      "pageDirectory own = ?pd" "isUserProc own = 0" "pid own = ?k"
    using u(5) [of p] by (auto simp: s2(1) payload_eq)
  have others: "\<forall>q \<in> fst ` set xs. map_option payload (procs u q) = map_option payload (procs (ptab s) q)"
    using u(5) outside by (auto simp: s2(1) image_iff)
  define s' where "s' = s2\<lparr>ptab := u\<rparr>"
  have s': "kheap s' = kheap s2" "ptab s' = u" "threads s' = threads s2" "regstore s' = regstore s2" "kstate.more s' = kstate.more s2"
    by (simp_all add: s'_def)
  have "open_addrs (kheap s2) \<inter> insert (NIL u) (fst ` set (add_process p ?k xs)) = {}"
    using apart unfolding addrs(3) u(4) set_add_process by auto
  then have "launch_ready s' (add_process p ?k xs) n"
    using u(2,3) ho building_ready [OF b0 dirs] by (simp add: launch_ready_def s')
  moreover have "user_process_made p ?pd junk xs s s'"
    unfolding user_process_made_def
    apply (rule exI [of _ t], rule exI [of _ r], rule exI [of _ stack], rule exI [of _ own])
    using own addrs u(2,3) others by (simp add: s' s2(2-4))
  moreover have "createUserProcess apic junk file s = Some (p, s')" by (simp add: ex u(1) s'_def)
  moreover have "length (map kp [0..<e] @ js) \<le> 4" "blocks (kheap s') = blocks (kheap s) + length (map kp [0..<e] @ js)"
    using js p(6,7) by (simp_all add: s')
  ultimately show ?thesis
    apply -
    apply (rule exI [of _ q], rule exI [of _ fh], rule exI [of _ "map kp [0..<e] @ js"], rule exI [of _ s'])
    using b0 ram by (simp add: s')
qed

lemma createUserProcess_run:
  assumes ready: "launch_ready s xs (n + 4)" and i: "first_unused_dir (mmu (kheap s)) = Some i"
    and f: "delivers_file file data" "length data \<le> 0x400000"
    and room: "kmem_need heap_pdes (mmu (kheap s)) + pages_of data + 4462 \<le> frame_room (mmu (kheap s))"
  shows "\<exists>p fp fq fh ks s'. createUserProcess apic junk file s = Some (p, s')
    \<and> launch_ready s' (add_process p (KProcessID (ptab s) + 1) xs) n
    \<and> process_space i data fp fq fh (blocks (kheap s)) ks (mmu (kheap s)) (mmu (kheap s'))
    \<and> user_process_made p (page_dir (mmu (kheap s)) i) junk xs s s'
    \<and> length ks \<le> 4 \<and> blocks (kheap s') = blocks (kheap s) + length ks"
proof -
  let ?n = "pages_of data + 256"
  have "kmem_need heap_pdes (mmu (kheap s)) < frame_room (mmu (kheap s))" using room by simp
  from first_object [OF ready this i] obtain p h e kp where
    p: "kmalloc 40 (kheap s) = Some (p, h)" "p \<in> open_addrs (kheap s)" "p \<noteq> NULL" "open_addrs h = open_addrs (kheap s) - {p}"
      "heap_open h (n + 3)" "blocks h = blocks (kheap s) + e" "e \<le> 1"
    and run: "kernel_run heap_pdes (0xD0000 + blocks (kheap s)) e kp (mmu (kheap s)) (mmu h)"
    and h: "dirs_ready (mmu h)" "kmem_ok heap_pdes (mmu h)" "first_unused_dir (mmu h) = Some i" "page_dir (mmu h) i = page_dir (mmu (kheap s)) i"
      "kmem_need heap_pdes (mmu h) = kmem_need heap_pdes (mmu (kheap s)) + e" "frame_room (mmu h) = frame_room (mmu (kheap s))"
      "walk (ram (mmu h)) (kdir_frame (mmu h)) HEAP_START_ADDRESS \<noteq> None"
    by (elim exE conjE) (rule that)
  have rm: "kmem_need heap_pdes (mmu h) + pages_of data + 262 \<le> frame_room (mmu h)" using room p(7) h(5,6) by simp
  have chunk: "\<forall>j < pages_of data. reads file j = (FR_OK, page_of data j)" using f(1) by (simp add: delivers_file_def)
  from building_program [OF h(1,2) first_unused_bound [OF h(3)] f(2) rm chunk, of "blocks h"] obtain m1 m2 fp where
    m: "map_user_pages 0x400000 ?n (new_space i (mmu h)) = Some m1" "copy_pages (reads file) 0x400000 0 (pages_of data) m1 = Some m2"
      "loaded m2 data" "building i (mmu h) m2 (frames_run 0x400 ?n fp) (map fp [0..<?n]) (blocks h) []"
    by (elim exE conjE) (rule that)
  have load: "load_file file (new_space i (mmu h)) = Some m2" by (rule load_file_delivers [OF f m(1,2)])
  have "kmem_need heap_pdes (mmu (kheap s)) + length (map fp [0..<?n]) + 4206 \<le> frame_room (mmu (kheap s))" using room by simp
  from createUserProcess_inserted [OF ready p run h(1,5,6,7,3,4) load m(4) this, of apic junk] obtain q fh ks s' where
    r: "createUserProcess apic junk file s = Some (p, s')" "launch_ready s' (add_process p (KProcessID (ptab s) + 1) xs) n"
      "user_process_made p (page_dir (mmu (kheap s)) i) junk xs s s'"
      "building i (mmu (kheap s)) (mmu (kheap s')) (frames_run 0x400 ?n fp ++ (frames_run 0xAFF9C 100 q ++ frames_run 0x800 4096 fh))
        (map fp [0..<?n] @ map q [0..<100] @ map fh [0..<4096]) (blocks (kheap s)) ks"
      "length ks \<le> 4" "blocks (kheap s') = blocks (kheap s) + length ks" "\<forall>g \<in> set (map fp [0..<?n]). ram (mmu (kheap s')) g = ram m2 g"
    by (elim exE conjE) (rule that)
  have n: "pages_of data \<le> 1024" by (rule pages_of_bound(2) [OF f(2)])
  have "loaded (mmu (kheap s')) data"
    by (rule loaded_kept [OF m(3) f(2) m(4) r(4) _ _ r(7)]) (auto simp: frames_run_def map_add_def split: if_splits)
  moreover have "space_made i (process_pages (pages_of data) fp q fh) (process_frames (pages_of data) fp q fh) (blocks (kheap s)) ks
      (mmu (kheap s)) (mmu (kheap s'))"
    using building_made [OF r(4)] by (simp add: process_pages_def process_frames_def)
  ultimately have "process_space i data fp q fh (blocks (kheap s)) ks (mmu (kheap s)) (mmu (kheap s'))" by (simp add: process_space_def)
  then show ?thesis using r(1-3,5,6) by blast
qed

text \<open>C6: with a free page directory, frames for its pages and for the objects of the kernel, and a program file of at most
  4 MB, \<open>createUserProcess\<close> builds a new address space in that directory: the bytes of the file are at
  0x00400000, the pages of the program, 100 pages of stack below \<open>USER_STACK_TOP\<close> and 4096 pages of heap
  at 0x00800000 are all on frames of their own that were free, every other page of the user half is unmapped,
  and the kernel half is that of the kernel directory. The kernel's heap may grow meanwhile, by at most four
  pages, which are mapped behind its end; other memory in use is unchanged, and so are the user halves of the other
  directories. The process is in the process table under the next kernel pid with one runnable thread, which
  starts at the program's address in user mode on top of its stack; the other processes keep all but
  links and colours, and further processes can be created.\<close>

theorem createUserProcess_correct:
  assumes "launch_ready s xs (n + 4)" and "first_unused_dir (mmu (kheap s)) = Some i"
    and "delivers_file file data" and "length data \<le> 0x400000"
    and "kmem_need heap_pdes (mmu (kheap s)) + pages_of data + 4462 \<le> frame_room (mmu (kheap s))"
  shows "\<exists>p fp fq fh ks s'. createUserProcess apic junk file s = Some (p, s')
    \<and> launch_ready s' (add_process p (KProcessID (ptab s) + 1) xs) n
    \<and> process_space i data fp fq fh (blocks (kheap s)) ks (mmu (kheap s)) (mmu (kheap s'))
    \<and> user_process_made p (page_dir (mmu (kheap s)) i) junk xs s s'
    \<and> length ks \<le> 4 \<and> blocks (kheap s') = blocks (kheap s) + length ks"
  using assms by (rule createUserProcess_run)

text \<open>The pages at 0x00400000 that are mapped for a file: none when \<open>f_stat\<close> fails, otherwise those of its size and 256 more.\<close>

definition mapped_pages :: "program_file \<Rightarrow> nat" where
  "mapped_pages file = (if stat_res file = FR_OK then (unat (stat_fsize file) + 4095) div 4096 + 256 else 0)"

lemma unopened_space:
  assumes o: "open_res file \<noteq> FR_OK" and len: "stat_res file = FR_OK \<longrightarrow> unat (stat_fsize file) \<le> 0x400000"
    and m: "dirs_ready m" "kmem_ok heap_pdes m" "i < NUM_PAGE_DIRS"
    and room: "kmem_need heap_pdes m + 6 + mapped_pages file \<le> frame_room m"
  shows "\<exists>t p. load_file file (new_space i m) = Some t
    \<and> building i m t (frames_run 0x400 (mapped_pages file) p) (map p [0..<mapped_pages file]) b []"
proof (cases "stat_res file = FR_OK")
  case False
  then have "load_file file (new_space i m) = Some (new_space i m)" "mapped_pages file = 0"
    using o by (simp_all add: load_file_def mapped_pages_def)
  moreover have "frames_run 0x400 0 p = Map.empty" for p by (auto simp: frames_run_def)
  ultimately show ?thesis using building_start [OF m, of b] by auto
next
  case True
  define n where "n = (unat (stat_fsize file) + 4095) div 4096"
  have n: "mapped_pages file = n + 256" "n \<le> 1024" using True len by (simp_all add: mapped_pages_def n_def)
  have "length (replicate (unat (stat_fsize file)) (0 :: u8)) \<le> 0x400000" using True len by simp
  from pages_needed(2) [OF this] have u: "unat (CEIL_DIV (stat_fsize file) PAGE_SIZE + 256) = mapped_pages file"
    by (simp add: pages_of_def n n_def)
  have base: "unat (0x400000 :: u32) = 4096 * 0x400" "0x400 + mapped_pages file \<le> 0xC0000" using n by simp_all
  have pdes: "\<forall>k < mapped_pages file. (0x400 + k) div 1024 \<in> process_pdes"
  proof (intro allI impI)
    fix k assume "k < mapped_pages file"
    then have "k < 2048" using n by simp
    then have "k div 1024 < 2" using less_mult_imp_div_less [of k 2 1024] by simp
    then have "k div 1024 = 0 \<or> k div 1024 = 1" by linarith
    then have "(0x400 + k) div 1024 = 1 \<or> (0x400 + k) div 1024 = 2" by auto
    then show "(0x400 + k) div 1024 \<in> process_pdes" by (auto simp: process_pdes_def)
  qed
  have "kmem_need heap_pdes m + 6 + length ([] @ [] :: nat list) + mapped_pages file \<le> frame_room m" using room by simp
  from building_pages [OF building_start [OF m, of b] base pdes this] obtain t p where
    "map_user_pages 0x400000 (mapped_pages file) (new_space i m) = Some t"
    "building i m t (frames_run 0x400 (mapped_pages file) p) (map p [0..<mapped_pages file]) b []"
    by auto
  then show ?thesis using True o u by (auto simp: load_file_def Let_def)
qed

text \<open>Each of these pages, in the finished space, is on a frame that was free: one of its own or, behind 4 MB, one of the heap.\<close>

lemma mapped_page_fresh:
  assumes b: "building i m s (frames_run 0x400 n fp ++ (frames_run 0xAFF9C 100 q ++ frames_run 0x800 4096 fh))
      (map fp [0..<n] @ map q [0..<100] @ map fh [0..<4096]) b ks" and k: "k < n" and n: "n \<le> 1280"
  shows "\<exists>fr \<in> pmm_window (frames m) - used_frames (frames m). translate s (PROGRAMM_VIRTUAL_ADDRESS_START + of_nat (4096 * k)) = Some fr"
proof -
  let ?v = "PROGRAMM_VIRTUAL_ADDRESS_START + of_nat (4096 * k)"
  have v: "unat ?v = 4096 * (0x400 + k)"
    using k n unat_u32_of_nat [of "4096 * k"] unat_u32_add [of PROGRAMM_VIRTUAL_ADDRESS_START "of_nat (4096 * k)"]
    by (simp add: PROGRAMM_VIRTUAL_ADDRESS_START_def)
  then have pg: "unat ?v div 4096 = 0x400 + k" and "pd_index ?v < 768" using k n by (simp_all add: unat_pd_index)
  from buildingD(17) [OF b this(2)] have tr: "translate s ?v = (if 0x400 \<le> k then Some (fh (k - 0x400)) else Some (fp k))"
    using k n unfolding pg by (auto simp: frames_run_def map_add_def)
  have "fp k \<in> set (map fp [0..<n] @ map q [0..<100] @ map fh [0..<4096])" using k by simp
  moreover have "fh (k - 0x400) \<in> set (map fp [0..<n] @ map q [0..<100] @ map fh [0..<4096])" using k n by simp
  ultimately show ?thesis using tr buildingD(14) [OF b] by (cases "0x400 \<le> k") auto
qed

text \<open>C40: when FatFs does not open the file, \<open>createUserProcess\<close> does not fail: it still returns a process that is in the
  table with a runnable thread, whose registers start it at 0x00400000, and the result is the same whatever the
  file holds, as nothing of it is copied. If \<open>f_stat\<close> has failed before, as it does when there is no such file, that page is
  not mapped in the new address space, so that the process faults on its first instruction. If \<open>f_stat\<close> has succeeded,
  as for the path of a directory, the pages for the size it gave and 256 more are mapped from 0x00400000 on, each on
  a frame that was free, and the process executes what happens to be there.\<close>

theorem createUserProcess_missing_file:
  assumes "launch_ready s xs (n + 4)" and "first_unused_dir (mmu (kheap s)) = Some i"
    and "open_res file \<noteq> FR_OK" and "stat_res file = FR_OK \<longrightarrow> unat (stat_fsize file) \<le> 0x400000"
    and "kmem_need heap_pdes (mmu (kheap s)) + mapped_pages file + 4206 \<le> frame_room (mmu (kheap s))"
  shows "\<exists>p s'. createUserProcess apic junk file s = Some (p, s')
    \<and> (\<forall>contents. createUserProcess apic junk (file\<lparr>reads := contents\<rparr>) s = Some (p, s'))
    \<and> user_process_made p (page_dir (mmu (kheap s)) i) junk xs s s'
    \<and> cr3 (mmu (kheap s')) = page_dir (mmu (kheap s)) i - KERNEL_START
    \<and> (if stat_res file \<noteq> FR_OK then translate (mmu (kheap s')) PROGRAMM_VIRTUAL_ADDRESS_START = None
       else \<forall>k < mapped_pages file. \<exists>fr \<in> pmm_window (frames (mmu (kheap s))) - used_frames (frames (mmu (kheap s))).
         translate (mmu (kheap s')) (PROGRAMM_VIRTUAL_ADDRESS_START + of_nat (4096 * k)) = Some fr)"
proof -
  have "kmem_need heap_pdes (mmu (kheap s)) < frame_room (mmu (kheap s))" using assms(5) by simp
  from first_object [OF assms(1) this assms(2)] obtain p h e kp where
    p: "kmalloc 40 (kheap s) = Some (p, h)" "p \<in> open_addrs (kheap s)" "p \<noteq> NULL" "open_addrs h = open_addrs (kheap s) - {p}"
      "heap_open h (n + 3)" "blocks h = blocks (kheap s) + e" "e \<le> 1"
    and run: "kernel_run heap_pdes (0xD0000 + blocks (kheap s)) e kp (mmu (kheap s)) (mmu h)"
    and h: "dirs_ready (mmu h)" "kmem_ok heap_pdes (mmu h)" "first_unused_dir (mmu h) = Some i" "page_dir (mmu h) i = page_dir (mmu (kheap s)) i"
      "kmem_need heap_pdes (mmu h) = kmem_need heap_pdes (mmu (kheap s)) + e" "frame_room (mmu h) = frame_room (mmu (kheap s))"
      "walk (ram (mmu h)) (kdir_frame (mmu h)) HEAP_START_ADDRESS \<noteq> None"
    by (elim exE conjE) (rule that)
  let ?n = "mapped_pages file"
  have "kmem_need heap_pdes (mmu h) + 6 + ?n \<le> frame_room (mmu h)" using assms(5) p(7) h(5,6) by simp
  from unopened_space [OF assms(3,4) h(1,2) first_unused_bound [OF h(3)] this, of "blocks h"] obtain m2 fp where
    load: "load_file file (new_space i (mmu h)) = Some m2"
    and b: "building i (mmu h) m2 (frames_run 0x400 ?n fp) (map fp [0..<?n]) (blocks h) []"
    by (elim exE conjE) (rule that)
  have "kmem_need heap_pdes (mmu (kheap s)) + length (map fp [0..<?n]) + 4206 \<le> frame_room (mmu (kheap s))" using assms(5) by simp
  from createUserProcess_inserted [OF assms(1) p run h(1,5,6,7,3,4) load b this, of apic junk] obtain q fh ks s' where
    r: "createUserProcess apic junk file s = Some (p, s')" "user_process_made p (page_dir (mmu (kheap s)) i) junk xs s s'"
      "building i (mmu (kheap s)) (mmu (kheap s')) (frames_run 0x400 ?n fp ++ (frames_run 0xAFF9C 100 q ++ frames_run 0x800 4096 fh))
        (map fp [0..<?n] @ map q [0..<100] @ map fh [0..<4096]) (blocks (kheap s)) ks"
    by (elim exE conjE) (rule that)
  have "createUserProcess apic junk (file\<lparr>reads := contents\<rparr>) s = createUserProcess apic junk file s" for contents
    using assms(3) by (simp add: createUserProcess_def copyProgramToAddress_def)
  moreover have "translate (mmu (kheap s')) PROGRAMM_VIRTUAL_ADDRESS_START = None" if "stat_res file \<noteq> FR_OK"
  proof -
    have "?n = 0" using that by (simp add: mapped_pages_def)
    moreover have "pd_index PROGRAMM_VIRTUAL_ADDRESS_START = 1" "unat PROGRAMM_VIRTUAL_ADDRESS_START div 4096 = 1024"
      by (simp_all add: unat_pd_index PROGRAMM_VIRTUAL_ADDRESS_START_def)
    ultimately show ?thesis
      using buildingD(17) [OF r(3), of PROGRAMM_VIRTUAL_ADDRESS_START] by (simp add: frames_run_def map_add_def)
  qed
  moreover have "?n \<le> 1280" if "stat_res file = FR_OK" using assms(4) that by (simp add: mapped_pages_def)
  then have "\<exists>fr \<in> pmm_window (frames (mmu (kheap s))) - used_frames (frames (mmu (kheap s))).
      translate (mmu (kheap s')) (PROGRAMM_VIRTUAL_ADDRESS_START + of_nat (4096 * k)) = Some fr"
    if "stat_res file = FR_OK" and "k < ?n" for k
    using mapped_page_fresh [OF r(3) that(2)] that(1) by blast
  ultimately show ?thesis using r(1,2) buildingD(2) [OF r(3)] by auto
qed

section \<open>A concrete kernel\<close>

text \<open>The kernel of \<open>kernel_demo\<close> with the heap of \<open>small_heap\<close>, which has no free block, and a program of two bytes.\<close>

definition launch_demo :: kstate where
  "launch_demo = kernel_demo\<lparr>kheap := small_heap\<rparr>"

definition program_demo :: program_file where
  "program_demo = \<lparr>stat_res = FR_OK, stat_fsize = 2, open_res = FR_OK, reads = (\<lambda>_. (FR_OK, [0xEB, 0xFE])), close_res = FR_OK\<rparr>"

lemma open_addrs_high: "a \<in> open_addrs h \<Longrightarrow> 0xD0000000 \<le> unat a"
  using unat_block_address by (auto simp: open_addrs_def)

lemma launch_demo_state: "kheap launch_demo = small_heap" "ptab launch_demo = three"
  by (simp_all add: launch_demo_def kernel_demo_def)

lemma small_heap_open: "heap_open small_heap 4"
proof -
  have "block_free small_heap i \<longleftrightarrow> i \<noteq> 0" for i by (simp add: block_free_def small_heap_def entry_consts)
  then have "open_addrs small_heap = block_address ` {1..<4096}"
    unfolding open_addrs_def small_heap_grows(3) by (intro arg_cong2 [where f = image] set_eqI) (simp_all, arith)
  moreover have "inj_on block_address {1..<4096}" by (intro inj_onI) (simp add: block_address_inj)
  ultimately have "card (open_addrs small_heap) = 4095" by (simp add: card_image)
  then show ?thesis
    using small_heap_grows by (simp add: heap_open_def block_free_def) (simp add: small_heap_def entry_consts HEAP_BLOCK_SIZE_def)
qed

lemma launch_demo_ready: "launch_ready launch_demo [(48, 1), (32, 5), (64, 9)] 4"
proof -
  have k: "kmem_ok heap_pdes (mmu small_heap)" "sees_kernel (mmu small_heap)" using small_heap_grows(1) by (simp_all add: heap_grows_def)
  have "page_dir (mmu small_heap) i \<noteq> 0" if "i < NUM_PAGE_DIRS" for i
  proof -
    have i: "i < 256" using that by (simp add: NUM_PAGE_DIRS_def)
    then have "unat (of_nat i :: u32) = i" by (intro unat_u32_of_nat) simp
    then have "unat (page_dir (mmu small_heap) i) = 0xC0002000 + i * 4096"
      using i by (simp add: page_dir_def small_heap_def mmu_demo_def PAGE_SIZE_def unat_word_ariths)
    then show ?thesis by auto
  qed
  then have "dirs_ready (mmu small_heap)"
    using k(1) by (simp add: kmem_ok_def dirs_ready_def) (simp add: small_heap_def mmu_demo_def)
  moreover have "open_addrs small_heap \<inter> {NIL three, 48, 32, 64} = {}"
    by (auto simp: three_def dest: open_addrs_high)
  ultimately show ?thesis
    using three_table k small_heap_open by (simp add: launch_ready_def launch_demo_state) (simp add: three_def initLock_def)
qed

lemma program_demo_delivers: "delivers_file program_demo [0xEB, 0xFE]"
  by (simp add: delivers_file_def program_demo_def pages_of_def page_of_def)

lemma launch_demo_dir: "first_unused_dir (mmu (kheap launch_demo)) = Some 1"
  unfolding launch_demo_state by (simp add: first_unused_dir_def NUM_PAGE_DIRS_def small_heap_def mmu_demo_def upt_rec)

lemma launch_demo_room: "kmem_need heap_pdes (mmu (kheap launch_demo)) + pages_of [0xEB, 0xFE] + 4462 \<le> frame_room (mmu (kheap launch_demo))"
  by (simp add: launch_demo_state pages_of_def small_heap_grows)

theorem createUserProcess_correct_witness:
  "\<exists>p s'. createUserProcess 2 regs_demo program_demo launch_demo = Some (p, s')
    \<and> load_bytes (mmu (kheap s')) 0x00400000 2 = Some [0xEB, 0xFE] \<and> pframe (cr3 (mmu (kheap s'))) = 3"
proof -
  have ready: "launch_ready launch_demo [(48, 1), (32, 5), (64, 9)] (0 + 4)" using launch_demo_ready by simp
  have len: "length [0xEB, 0xFE :: u8] \<le> 0x400000" by simp
  obtain p s' fp fq fh ks where r: "createUserProcess 2 regs_demo program_demo launch_demo = Some (p, s')"
      "process_space 1 [0xEB, 0xFE] fp fq fh (blocks (kheap launch_demo)) ks (mmu (kheap launch_demo)) (mmu (kheap s'))"
    using createUserProcess_correct [OF ready launch_demo_dir program_demo_delivers len launch_demo_room, of 2 regs_demo] by (elim exE conjE) (rule that)
  have "\<forall>x < length [0xEB, 0xFE :: u8]. load_byte (mmu (kheap s')) (0x400000 + of_nat x) = Some ([0xEB, 0xFE] ! x)"
    using r(2) by (simp add: process_space_def loaded_def)
  then have "load_byte (mmu (kheap s')) 0x400000 = Some 0xEB" "load_byte (mmu (kheap s')) (0x400000 + 1) = Some 0xFE"
    by force+
  then have "load_bytes (mmu (kheap s')) 0x00400000 2 = Some [0xEB, 0xFE]"
    by (simp add: numeral_2_eq_2)
  moreover have "cr3 (mmu (kheap s')) = page_dir (mmu small_heap) 1 - KERNEL_START"
    using r(2) by (simp add: process_space_def space_made_def launch_demo_state)
  then have "pframe (cr3 (mmu (kheap s'))) = 3"
    using small_heap_frames(2) [of 1] by (simp add: pdir_frame_def NUM_PAGE_DIRS_def)
  ultimately show ?thesis using r(1) by blast
qed

theorem createUserProcess_missing_file_witness:
  "(\<exists>p s'. createUserProcess 2 regs_demo (program_demo\<lparr>stat_res := FR_NO_FILE, open_res := FR_NO_FILE\<rparr>) launch_demo = Some (p, s')
      \<and> pframe (cr3 (mmu (kheap s'))) = 3 \<and> translate (mmu (kheap s')) 0x00400000 = None)
    \<and> (\<exists>p s'. createUserProcess 2 regs_demo (program_demo\<lparr>open_res := FR_NO_FILE\<rparr>) launch_demo = Some (p, s')
      \<and> pframe (cr3 (mmu (kheap s'))) = 3 \<and> translate (mmu (kheap s')) 0x00400000 \<noteq> None)"
proof -
  have room: "kmem_need heap_pdes (mmu (kheap launch_demo)) + n + 4206 \<le> frame_room (mmu (kheap launch_demo))" if "n \<le> 257" for n
    using launch_demo_room that by (simp add: pages_of_def)
  have n: "mapped_pages (program_demo\<lparr>stat_res := FR_NO_FILE, open_res := FR_NO_FILE\<rparr>) = 0"
      "mapped_pages (program_demo\<lparr>open_res := FR_NO_FILE\<rparr>) = 257"
    by (simp_all add: mapped_pages_def program_demo_def)
  have ready: "launch_ready launch_demo [(48, 1), (32, 5), (64, 9)] (0 + 4)" using launch_demo_ready by simp
  have three: "pframe (cr3 (mmu (kheap s'))) = 3"
    if "cr3 (mmu (kheap s')) = page_dir (mmu (kheap launch_demo)) 1 - KERNEL_START" for s' :: kstate
    using that small_heap_frames(2) [of 1] by (simp add: pdir_frame_def NUM_PAGE_DIRS_def launch_demo_state)
  obtain p s' where r: "createUserProcess 2 regs_demo (program_demo\<lparr>stat_res := FR_NO_FILE, open_res := FR_NO_FILE\<rparr>) launch_demo = Some (p, s')"
      "cr3 (mmu (kheap s')) = page_dir (mmu (kheap launch_demo)) 1 - KERNEL_START"
      "translate (mmu (kheap s')) PROGRAMM_VIRTUAL_ADDRESS_START = None"
    using createUserProcess_missing_file [OF ready launch_demo_dir,
        of "program_demo\<lparr>stat_res := FR_NO_FILE, open_res := FR_NO_FILE\<rparr>" 2 regs_demo] room [of 0] by (auto simp: n)
  then have missing: "\<exists>p s'. createUserProcess 2 regs_demo (program_demo\<lparr>stat_res := FR_NO_FILE, open_res := FR_NO_FILE\<rparr>) launch_demo = Some (p, s')
      \<and> pframe (cr3 (mmu (kheap s'))) = 3 \<and> translate (mmu (kheap s')) 0x00400000 = None"
    using three by (auto simp: PROGRAMM_VIRTUAL_ADDRESS_START_def)
  have "stat_res (program_demo\<lparr>open_res := FR_NO_FILE\<rparr>) = FR_OK" "unat (stat_fsize (program_demo\<lparr>open_res := FR_NO_FILE\<rparr>)) \<le> 0x400000"
    by (simp_all add: program_demo_def)
  then obtain p s' where r: "createUserProcess 2 regs_demo (program_demo\<lparr>open_res := FR_NO_FILE\<rparr>) launch_demo = Some (p, s')"
      "cr3 (mmu (kheap s')) = page_dir (mmu (kheap launch_demo)) 1 - KERNEL_START"
      "\<forall>k < 257. \<exists>fr \<in> pmm_window (frames (mmu (kheap launch_demo))) - used_frames (frames (mmu (kheap launch_demo))).
         translate (mmu (kheap s')) (PROGRAMM_VIRTUAL_ADDRESS_START + of_nat (4096 * k)) = Some fr"
    using createUserProcess_missing_file [OF ready launch_demo_dir, of "program_demo\<lparr>open_res := FR_NO_FILE\<rparr>" 2 regs_demo] room [of 257]
    by (auto simp: n)
  have "translate (mmu (kheap s')) 0x00400000 \<noteq> None" using r(3) [rule_format, of 0] by (auto simp: PROGRAMM_VIRTUAL_ADDRESS_START_def)
  then have "\<exists>p s'. createUserProcess 2 regs_demo (program_demo\<lparr>open_res := FR_NO_FILE\<rparr>) launch_demo = Some (p, s')
      \<and> pframe (cr3 (mmu (kheap s'))) = 3 \<and> translate (mmu (kheap s')) 0x00400000 \<noteq> None"
    using r(1,2) three by blast
  with missing show ?thesis ..
qed

end
