(* ===== verification/Exec.thy ===== *)
theory Exec
  imports User_Process Userland
begin

text \<open>
  A program starts another one: from the library function through the interrupt, the dispatch and \<open>execve\<close> to
  the registers with which the CPU goes on.
\<close>

lemma load_string_step:
  "load_byte m v = Some b \<Longrightarrow> load_string m v = (if b = 0 then Some [] else map_option ((#) b) (load_string m (v + 1)))"
  by (subst load_string.simps) (cases "load_string m (v + 1)"; simp)

text \<open>What appears on the screen while a file that can be read is started: the path, where the process is, the result
  of closing the file if it is an error, where the thread is, and the pid.\<close>

definition launch_screen :: "'d machine \<Rightarrow> cstr \<Rightarrow> FRESULT \<Rightarrow> ptr \<Rightarrow> ptr \<Rightarrow> u32 \<Rightarrow> screen \<Rightarrow> screen" where
  "launch_screen mc name closed p t k scr =
     (let scr = kernel_printf mc (map of_char ''%s'' @ [10]) [Str name] scr;
          scr = puts_kernel (map of_char ''Allocated process structure at: '' @ numeral_of 16 (unat p) @ [10]) scr;
          scr = (if closed = FR_OK then scr else kernel_printf mc close_error [Num (fresult_number closed)] scr);
          scr = puts_kernel (map of_char ''Allocated thread structure at: '' @ numeral_of 16 (unat t) @ [10]) scr
      in puts_kernel (map of_char ''inserting process with PID: '' @ decimal_of_int (sint k) @ [10]) scr)"

lemma launch_lines:
  "kernel_write str_at process_line args scr
    = Some (puts_kernel (map of_char ''Allocated process structure at: '' @ numeral_of 16 (unat (args 0)) @ [10]) scr)"
  "kernel_write str_at thread_line args scr
    = Some (puts_kernel (map of_char ''Allocated thread structure at: '' @ numeral_of 16 (unat (args 0)) @ [10]) scr)"
  "kernel_write str_at inserting_line args scr
    = Some (puts_kernel (map of_char ''inserting process with PID: '' @ decimal_of_int (sint (args 0)) @ [10]) scr)"
proof -
  have run: "kernel_write str_at fmt args scr = Some (puts_kernel out scr)" if "rendered str_at fmt args 0 = Some out" for fmt out
    using printf_loop_rendered [OF that, of scr] by (auto simp: kernel_write_def)
  show "kernel_write str_at process_line args scr
    = Some (puts_kernel (map of_char ''Allocated process structure at: '' @ numeral_of 16 (unat (args 0)) @ [10]) scr)"
    by (rule run) (simp add: process_line_def conversion_def)
  show "kernel_write str_at thread_line args scr
    = Some (puts_kernel (map of_char ''Allocated thread structure at: '' @ numeral_of 16 (unat (args 0)) @ [10]) scr)"
    by (rule run) (simp add: thread_line_def conversion_def)
  show "kernel_write str_at inserting_line args scr
    = Some (puts_kernel (map of_char ''inserting process with PID: '' @ decimal_of_int (sint (args 0)) @ [10]) scr)"
    by (rule run) (simp add: inserting_line_def conversion_def)
qed

lemma load_messages_delivered:
  assumes f: "delivers_file file data" "length data \<le> 0x400000"
  shows "load_messages mc file scr
    = (if close_res file = FR_OK then scr else kernel_printf mc close_error [Num (fresult_number (close_res file))] scr)"
proof -
  have "find (\<lambda>i. fst (reads file i) \<noteq> FR_OK) [0..<pages_of data] = None"
    using f(1) by (auto simp: find_None_iff delivers_file_def)
  then show ?thesis using f(1) pages_needed(1) [OF f(2)] by (simp add: load_messages_def delivers_file_def)
qed

lemma create_messages_delivered:
  assumes f: "delivers_file file data" "length data \<le> 0x400000" and own: "rd (ptab s) p = Some own"
    and c: "console (files s) = kernel_printf mc (map of_char ''%s'' @ [10]) [Str name] scr"
  shows "create_messages mc file p s
    = Some (s\<lparr>files := (files s)\<lparr>console := launch_screen mc name (close_res file) p (head_thread own) (pid own) scr\<rparr>\<rparr>)"
  by (simp add: create_messages_def own with_screen_def launch_lines load_messages_delivered [OF f] launch_screen_def c Let_def)

lemma execve_run:
  fixes s :: "'d sys_state"
  assumes ready: "launch_ready s xs (n + 4)" and i: "first_unused_dir (mmu (kheap s)) = Some i"
    and prog: "program_of mc name (volume (files s)) = (file, d)" and f: "delivers_file file data" "length data \<le> 0x400000"
    and room: "kmem_need heap_pdes (mmu (kheap s)) + pages_of data + 4462 \<le> frame_room (mmu (kheap s))"
    and c: "console (files s) = kernel_printf mc (map of_char ''%s'' @ [10]) [Str name] scr"
  shows "\<exists>p t own fp fq fh ks s'. execve mc name s
      = Some (start_regs 0x23 0x1B PROGRAMM_VIRTUAL_ADDRESS_START (USER_STACK_TOP - 4) (page_dir (mmu (kheap s)) i) (junk_regs mc), s')
    \<and> launch_ready s' (add_process p (KProcessID (ptab s) + 1) xs) n
    \<and> process_space i data fp fq fh (blocks (kheap s)) ks (user_mem s) (user_mem s')
    \<and> procs (ptab s') p = Some own \<and> head_thread own = t \<and> pid own = KProcessID (ptab s) + 1
    \<and> kstate.more s' = kstate.more (s\<lparr>files := (files s)\<lparr>volume := d,
        console := launch_screen mc name (close_res file) p t (KProcessID (ptab s) + 1) scr\<rparr>\<rparr>)"
proof -
  let ?s = "s\<lparr>files := (files s)\<lparr>volume := d\<rparr>\<rparr>"
  have same: "kheap ?s = kheap s" "ptab ?s = ptab s" by simp_all
  have "launch_ready ?s xs (n + 4)" using ready by (simp add: launch_ready_def)
  from createUserProcess_run [OF this, unfolded same, OF i f room, of "apic_id mc" "junk_regs mc"]
  obtain p fp fq fh ks s1 where p: "createUserProcess (apic_id mc) (junk_regs mc) file ?s = Some (p, s1)"
      "launch_ready s1 (add_process p (KProcessID (ptab s) + 1) xs) n"
      "process_space i data fp fq fh (blocks (kheap s)) ks (mmu (kheap s)) (mmu (kheap s1))"
      "user_process_made p (page_dir (mmu (kheap s)) i) (junk_regs mc) xs ?s s1"
    by (elim exE conjE) (rule that)
  obtain t r stack own where t: "procs (ptab s1) p = Some own" "head_thread own = t"
      "threads s1 = (threads ?s)(t \<mapsto> kernel_thread (threadID (ptab s) + 1) p r stack)"
      "regstore s1 = (regstore ?s)(r \<mapsto> start_regs 0x23 0x1B PROGRAMM_VIRTUAL_ADDRESS_START (USER_STACK_TOP - 4)
         (page_dir (mmu (kheap s)) i) (junk_regs mc))"
      "{p, t, r, stack} \<subseteq> open_addrs (kheap s)" "distinct [p, t, r, stack]" "kstate.more s1 = kstate.more ?s"
      "pid own = KProcessID (ptab s) + 1"
    using p(4) unfolding user_process_made_def same by (elim exE conjE) (rule that)
  have "NULL \<notin> open_addrs (kheap s)"
    using block_address_not_null by (auto simp: open_addrs_def NULL_def)
  then have "p \<noteq> NULL" "t \<noteq> NULL" "r \<noteq> NULL" using t(5) by auto
  define s' where "s' = s1\<lparr>files := (files s1)\<lparr>console := launch_screen mc name (close_res file) p t (KProcessID (ptab s) + 1) scr\<rparr>\<rparr>"
  have more: "files s1 = (files s)\<lparr>volume := d\<rparr>" using t(7) by (cases s; cases s1; simp)
  have c1: "console (files s1) = kernel_printf mc (map of_char ''%s'' @ [10]) [Str name] scr" using c by (simp add: more)
  have own: "rd (ptab s1) p = Some own" using t(1) \<open>p \<noteq> NULL\<close> by (simp add: rd_def)
  have said: "create_messages mc file p s1 = Some s'"
    using create_messages_delivered [where mc = mc and name = name, OF f own c1] by (simp add: s'_def t(2,8))
  have k: "ptab s' = ptab s1" "threads s' = threads s1" "regstore s' = regstore s1" "kheap s' = kheap s1"
    by (simp_all add: s'_def)
  have "execve mc name s
      = Some (start_regs 0x23 0x1B PROGRAMM_VIRTUAL_ADDRESS_START (USER_STACK_TOP - 4) (page_dir (mmu (kheap s)) i) (junk_regs mc), s')"
    using p(1) t(1-4) said \<open>p \<noteq> NULL\<close> \<open>t \<noteq> NULL\<close> \<open>r \<noteq> NULL\<close>
    by (simp add: execve_def prog rd_def rd_thread_def switchTask_def kernel_thread_def k)
  moreover have "kstate.more s' = kstate.more (s\<lparr>files := (files s)\<lparr>volume := d,
        console := launch_screen mc name (close_res file) p t (KProcessID (ptab s) + 1) scr\<rparr>\<rparr>)"
    using t(7) by (cases s; cases s1; simp add: s'_def)
  moreover have "launch_ready s' (add_process p (KProcessID (ptab s) + 1) xs) n"
    using p(2) by (simp add: launch_ready_def k)
  ultimately show ?thesis using p(3) t(1,2,8) unfolding user_mem_def k [symmetric] by blast
qed

lemma user_execve_run:
  fixes s :: "'d sys_state"
  assumes "launch_ready s xs (n + 4)" and "first_unused_dir (user_mem s) = Some i"
    and "load_string (user_mem s) path = Some name" and "length name < 20"
    and "program_of mc name (volume (files s)) = (file, d)" and "delivers_file file data" and "length data \<le> 0x400000"
    and "kmem_need heap_pdes (user_mem s) + pages_of data + 4462 \<le> frame_room (user_mem s)"
  shows "\<exists>rg s'. u_execve (syscall_table mc) path argv envp r s = Some (Switched rg s')
    \<and> r_cs rg = 0x1B \<and> r_ss rg = 0x23 \<and> r_eip rg = 0x00400000 \<and> r_esp rg = 0xAFFFFFFC
    \<and> r_cr3 rg = page_dir (user_mem s) i \<and> mem_get_current_page_directory (user_mem s') = r_cr3 rg
    \<and> load_bytes (user_mem s') (r_eip rg) (length data) = Some data
    \<and> (\<exists>fr. translate (user_mem s') (r_esp rg) = Some fr \<and> fr \<notin> used_frames (frames (user_mem s)))
    \<and> (\<exists>p own. procs (ptab s') p = Some own \<and> pid own = KProcessID (ptab s) + 1
      \<and> files s' = (files s)\<lparr>volume := d,
          console := launch_screen mc name (close_res file) p (head_thread own) (pid own) (console (files s))\<rparr>)
    \<and> keyb s' = keyb s \<and> user_heap_end s' = user_heap_end s"
proof -
  let ?r = "r\<lparr>i_eax := 16, i_ebx := path, i_ecx := argv, i_edx := envp\<rparr>"
  let ?s0 = "s\<lparr>files := (files s)\<lparr>console := kernel_printf mc (map of_char ''%s'' @ [10]) [Str name] (console (files s))\<rparr>\<rparr>"
  have k0: "kheap ?s0 = kheap s" "ptab ?s0 = ptab s" "volume (files ?s0) = volume (files s)" "user_mem ?s0 = user_mem s"
    by (simp_all add: user_mem_def)
  have c0: "console (files ?s0) = kernel_printf mc (map of_char ''%s'' @ [10]) [Str name] (console (files s))" by simp
  have "launch_ready ?s0 xs (n + 4)" using assms(1) by (simp add: launch_ready_def)
  from execve_run [OF this, unfolded k0, OF assms(2) [unfolded user_mem_def] assms(5,6,7) assms(8) [unfolded user_mem_def] c0]
  obtain p t own fp fq fh ks s' where e: "execve mc name ?s0 = Some (start_regs 0x23 0x1B PROGRAMM_VIRTUAL_ADDRESS_START (USER_STACK_TOP - 4)
        (page_dir (mmu (kheap s)) i) (junk_regs mc), s')"
      "process_space i data fp fq fh (blocks (kheap s)) ks (user_mem s) (user_mem s')"
      "procs (ptab s') p = Some own" "head_thread own = t" "pid own = KProcessID (ptab s) + 1"
      "kstate.more s' = kstate.more (?s0\<lparr>files := (files ?s0)\<lparr>volume := d,
        console := launch_screen mc name (close_res file) p t (KProcessID (ptab s) + 1) (console (files s))\<rparr>\<rparr>)"
    by (elim exE conjE) (rule that)
  have "int80 (syscall_table mc) ?r s = syscall_16_execve mc (?r\<lparr>interrupt_number := 128\<rparr>) s"
    by (rule int80_run) (simp_all add: syscall_table_def)
  then have call: "u_execve (syscall_table mc) path argv envp r s = Some (Switched (start_regs 0x23 0x1B PROGRAMM_VIRTUAL_ADDRESS_START
      (USER_STACK_TOP - 4) (page_dir (user_mem s) i) (junk_regs mc)) s')"
    using assms(3,4) e(1) by (simp add: u_execve_def syscall_16_execve_def user_mem_def with_screen_def)
  have rest: "files s' = (files s)\<lparr>volume := d,
        console := launch_screen mc name (close_res file) p (head_thread own) (pid own) (console (files s))\<rparr>"
      "keyb s' = keyb s" "user_heap_end s' = user_heap_end s"
    using e(6) unfolding e(4,5) by (cases s; cases s'; simp)+
  have scr: "\<exists>p own. procs (ptab s') p = Some own \<and> pid own = KProcessID (ptab s) + 1
      \<and> files s' = (files s)\<lparr>volume := d,
          console := launch_screen mc name (close_res file) p (head_thread own) (pid own) (console (files s))\<rparr>"
    using rest(1) e(3,5) by blast
  have bytes: "load_bytes (user_mem s') 0x00400000 (length data) = Some data"
  proof -
    have "\<forall>x < length data. load_byte (user_mem s') (0x400000 + of_nat x) = Some (data ! x)"
      using e(2) by (simp add: process_space_def loaded_def)
    moreover from this have "map (\<lambda>x. the (load_byte (user_mem s') (0x400000 + of_nat x))) [0..<length data] = data"
      by (intro nth_equalityI) simp_all
    ultimately show ?thesis by (simp add: load_bytes_map)
  qed
  have "unat (0xAFFFFFFC :: u32) div 4096 = 0xAFF9C + 99" "pd_index 0xAFFFFFFC = 703" by (simp_all add: unat_pd_index)
  then have "translate (user_mem s') 0xAFFFFFFC = Some (fq 99)"
    using e(2) by (simp add: process_space_def space_made_def process_pages_def frames_run_def map_add_def)
  moreover have "fq 99 \<in> set (process_frames (pages_of data) fp fq fh)" by (auto simp: process_frames_def)
  then have "fq 99 \<notin> used_frames (frames (user_mem s))" using e(2) by (auto simp: process_space_def space_made_def)
  moreover have "mem_get_current_page_directory (user_mem s') = page_dir (user_mem s) i"
    using e(2) by (simp add: process_space_def space_made_def mem_get_current_page_directory_def)
  ultimately show ?thesis
    using call bytes rest(2,3) scr by (simp add: start_regs_def PROGRAMM_VIRTUAL_ADDRESS_START_def USER_STACK_TOP_def)
qed

text \<open>C7: a program that calls \<open>execve\<close> with a path of less than 20 characters, of a file that FatFs can read, hands the CPU
  over to that file: the registers that are loaded are those of user mode, with the instruction pointer at
  0x00400000, the stack pointer at the top of the stack and the directory of the new process, in which the bytes of
  the file are at 0x00400000. On the screen are then the path, the addresses of the new process and of its thread and
  its pid, each on a line of its own, and the error of closing the file if there was one; keys, descriptors
  and the break are as they were.\<close>

theorem user_execve_starts:
  fixes s :: "'d sys_state"
  assumes "launch_ready s xs (n + 4)" and "first_unused_dir (user_mem s) = Some i"
    and "load_string (user_mem s) path = Some name" and "length name < 20"
    and "program_of mc name (volume (files s)) = (file, d)" and "delivers_file file data" and "length data \<le> 0x400000"
    and "kmem_need heap_pdes (user_mem s) + pages_of data + 4462 \<le> frame_room (user_mem s)"
  shows "\<exists>rg s'. u_execve (syscall_table mc) path argv envp r s = Some (Switched rg s')
    \<and> r_cs rg = 0x1B \<and> r_ss rg = 0x23 \<and> r_eip rg = 0x00400000 \<and> r_esp rg = 0xAFFFFFFC
    \<and> r_cr3 rg = page_dir (user_mem s) i \<and> mem_get_current_page_directory (user_mem s') = r_cr3 rg
    \<and> load_bytes (user_mem s') (r_eip rg) (length data) = Some data
    \<and> (\<exists>fr. translate (user_mem s') (r_esp rg) = Some fr \<and> fr \<notin> used_frames (frames (user_mem s)))
    \<and> (\<exists>p own. procs (ptab s') p = Some own \<and> pid own = KProcessID (ptab s) + 1
      \<and> files s' = (files s)\<lparr>volume := d,
          console := launch_screen mc name (close_res file) p (head_thread own) (pid own) (console (files s))\<rparr>)
    \<and> keyb s' = keyb s \<and> user_heap_end s' = user_heap_end s"
  using assms by (rule user_execve_run)

text \<open>A kernel in the directory of a program, which has the line \<open>0:/a\<close> in its first page.\<close>

definition exec_mmu :: mmu_state where
  "exec_mmu = mmu_demo\<lparr>ram := (ram mmu_demo)(1 := (ram mmu_demo 1)(832 := 0x12C003),
     2 := (ram mmu_demo 2)(1 := 0x12E007, 832 := 0x12C003), 300 := (\<lambda>_. 0)(0 := 0x12D003),
     302 := (\<lambda>_. 0)(0 := 0x12F007), 303 := (\<lambda>_. 0)(0 := 0x612F3A30, 1 := 0x0A))\<rparr>"

definition exec_demo :: "unit sys_state" where
  "exec_demo = sys_demo\<lparr>kheap := small_heap\<lparr>mmu := exec_mmu\<rparr>, ptab := three\<rparr>"

lemma exec_mmu_frames: "kdir_frame exec_mmu = kdir_frame (mmu small_heap)" "pdir_frame exec_mmu = pdir_frame (mmu small_heap)"
  "frames exec_mmu = frames (mmu small_heap)" "ram exec_mmu (Suc 0) = ram (mmu small_heap) (Suc 0)" "pageDirs exec_mmu = pageDirs (mmu small_heap)"
  "user_mem exec_demo = exec_mmu" "page_dir exec_mmu = page_dir (mmu small_heap)"
  by (simp_all add: exec_mmu_def small_heap_def mmu_demo_def kdir_frame_def pdir_frame_def page_dir_def fun_eq_iff
      user_mem_def exec_demo_def)

lemma exec_demo_translate: "translate exec_mmu HEAP_START_ADDRESS \<noteq> None"
  "translate exec_mmu 0x400000 = Some 303" "translate exec_mmu 0x400001 = Some 303" "translate exec_mmu 0x400002 = Some 303"
  "translate exec_mmu 0x400003 = Some 303" "translate exec_mmu 0x400004 = Some 303" "translate exec_mmu 0x400005 = Some 303"
  by (simp_all add: translate_def walk_def exec_mmu_def mmu_demo_def pframe_def unat_pd_index unat_pt_index present_def
      page_flags HEAP_START_ADDRESS_def Let_def)

lemma exec_demo_path: "load_string exec_mmu 0x400000 = Some [48, 58, 47, 97, 10]"
proof -
  have "load_byte exec_mmu 0x400000 = Some 48" "load_byte exec_mmu 0x400001 = Some 58" "load_byte exec_mmu 0x400002 = Some 47"
      "load_byte exec_mmu 0x400003 = Some 97" "load_byte exec_mmu 0x400004 = Some 10" "load_byte exec_mmu 0x400005 = Some 0"
    using exec_demo_translate(2-7) by (simp_all add: load_byte_def) (simp_all add: exec_mmu_def)
  then show ?thesis by (simp add: load_string_step)
qed

lemma exec_mmu_sees: "sees_kernel exec_mmu"
proof -
  have k: "kdir_frame exec_mmu = 1" "pdir_frame exec_mmu 0 = 2" "pframe (cr3 exec_mmu) = 2"
    using small_heap_frames(1) small_heap_frames(2) [of 0]
    by (simp_all add: exec_mmu_frames NUM_PAGE_DIRS_def) (simp add: exec_mmu_def mmu_demo_def pframe_def)
  have "mirrors exec_mmu 0"
    unfolding mirrors_def k by (auto simp: exec_mmu_def mmu_demo_def PAGE_FLAG_OWNER_def)
  moreover have "table_frames exec_mmu \<subseteq> {300}"
    unfolding table_frames_def dir_tables_def k
    by (auto simp: exec_mmu_def mmu_demo_def is_table_def present_def page_flags pframe_def split: if_splits)
  then have kf: "kernel_frames exec_mmu \<subseteq> {..<302}"
    using small_heap_frames(2) unfolding kernel_frames_def k exec_mmu_frames(2) by (auto simp: NUM_PAGE_DIRS_def)
  have "j = 1" if "is_table (ram exec_mmu 2 j)" "j < 768" for j
    using that by (auto simp: exec_mmu_def mmu_demo_def is_table_def present_def page_flags split: if_splits)
  moreover have "pframe (ram exec_mmu 2 1) = 302" by (simp add: exec_mmu_def mmu_demo_def pframe_def)
  moreover have "held exec_mmu 302" using small_heap_frames(4) [of 302] by (simp add: held_def exec_mmu_frames)
  ultimately have "\<forall>j<768. is_table (ram exec_mmu 2 j) \<longrightarrow> held exec_mmu (pframe (ram exec_mmu 2 j)) \<and> pframe (ram exec_mmu 2 j) \<notin> kernel_frames exec_mmu"
    using kf by auto
  moreover have "dir_used exec_mmu 0" by (simp add: dir_used_def NUM_PAGE_DIRS_def exec_mmu_def mmu_demo_def)
  ultimately show ?thesis
    using \<open>mirrors exec_mmu 0\<close> k(2) unfolding sees_kernel_def k(3) by (intro disjI2 exI [of _ 0]) simp
qed

lemma exec_mmu_kernel: "kmem_ok heap_pdes exec_mmu" "kmem_need heap_pdes exec_mmu = 3" "frame_room exec_mmu = 28640"
proof -
  have k: "kdir_frame (mmu small_heap) = Suc 0" by (rule small_heap_frames(1))
  have h: "held exec_mmu = held (mmu small_heap)" by (simp add: held_def exec_mmu_frames(3) fun_eq_iff)
  have "kmem_ok heap_pdes (mmu small_heap)" using small_heap_grows(1) by (simp add: heap_grows_def)
  moreover have "mem_get_current_page_directory exec_mmu \<noteq> 0"
    by (simp add: mem_get_current_page_directory_def exec_mmu_def mmu_demo_def KERNEL_START_def)
  ultimately show "kmem_ok heap_pdes exec_mmu"
    unfolding kmem_ok_def kernel_ok_def dirs_ok_def tables_ok_def recursive_def exec_mmu_frames(1-3) k h exec_mmu_frames(4) by blast
  show "kmem_need heap_pdes exec_mmu = 3" "frame_room exec_mmu = 28640"
    using small_heap_grows(4,5) unfolding kmem_need_def dir_need_def frame_room_def exec_mmu_frames(1,3) k exec_mmu_frames(4) by simp_all
qed

lemma exec_demo_ready: "launch_ready exec_demo [(48, 1), (32, 5), (64, 9)] 4"
proof -
  have e: "kheap exec_demo = small_heap\<lparr>mmu := exec_mmu\<rparr>" "ptab exec_demo = three" by (simp_all add: exec_demo_def)
  have "dirs_ready (mmu small_heap)" using launch_demo_ready by (simp add: launch_ready_def launch_demo_state)
  then have "dirs_ready exec_mmu"
    using exec_mmu_kernel(1) unfolding dirs_ready_def exec_mmu_frames(5,7) kmem_ok_def by simp
  moreover note heap_open_space [OF small_heap_open exec_demo_translate(1)]
  ultimately show ?thesis
    using launch_demo_ready exec_mmu_sees exec_mmu_kernel(1) by (simp add: launch_ready_def e launch_demo_state)
qed

lemma exec_demo_dir: "first_unused_dir (user_mem exec_demo) = Some 1"
  unfolding exec_mmu_frames by (simp add: first_unused_dir_def NUM_PAGE_DIRS_def exec_mmu_def mmu_demo_def upt_rec)

lemma exec_demo_room: "kmem_need heap_pdes (user_mem exec_demo) + pages_of [0xEB, 0xFE] + 4462 \<le> frame_room (user_mem exec_demo)"
  by (simp add: exec_mmu_frames(6) exec_mmu_kernel pages_of_def)

theorem user_execve_starts_witness:
  "\<exists>rg s'. u_execve (syscall_table (machine_demo\<lparr>program_of := (\<lambda>_ d. (program_demo, d))\<rparr>)) 0x400000 0 0 timer_regs exec_demo
      = Some (Switched rg s') \<and> r_eip rg = 0x00400000 \<and> load_bytes (user_mem s') 0x00400000 2 = Some [0xEB, 0xFE]"
proof -
  have ready: "launch_ready exec_demo [(48, 1), (32, 5), (64, 9)] (0 + 4)" using exec_demo_ready by simp
  have path: "load_string (user_mem exec_demo) 0x400000 = Some [48, 58, 47, 97, 10]" "length [48, 58, 47, 97, 10 :: u8] < 20"
    using exec_demo_path by (simp_all add: exec_mmu_frames)
  have prog: "program_of (machine_demo\<lparr>program_of := (\<lambda>_ d. (program_demo, d))\<rparr>) [48, 58, 47, 97, 10] (volume (files exec_demo))
      = (program_demo, volume (files exec_demo))" by simp
  have len: "length [0xEB, 0xFE :: u8] \<le> 0x400000" by simp
  obtain rg s' where "u_execve (syscall_table (machine_demo\<lparr>program_of := (\<lambda>_ d. (program_demo, d))\<rparr>)) 0x400000 0 0 timer_regs exec_demo
      = Some (Switched rg s')" "r_eip rg = 0x00400000" "load_bytes (user_mem s') (r_eip rg) (length [0xEB, 0xFE :: u8]) = Some [0xEB, 0xFE]"
    using user_execve_starts [OF ready exec_demo_dir path prog program_demo_delivers len exec_demo_room, of 0 0 timer_regs] by (elim exE conjE) (rule that)
  then show ?thesis by (intro exI [of _ rg] exI [of _ s']) (simp add: numeral_2_eq_2)
qed

end
