(* ===== verification/Shell.thy ===== *)
theory Shell
  imports Exec
begin

text \<open>
  The shell, \<open>programs/shell/shell.c\<close>, and the test program, \<open>programs/test/main.c\<close>. What they call in newlib
  (\<open>printf\<close>, \<open>fflush\<close>, \<open>fgets\<close>, \<open>fopen\<close>) is a parameter; the other calls are those of \<open>Userland\<close>. The program
  is the one that runs while a call returns, so its registers are passed along.
\<close>

section \<open>The C library\<close>

text \<open>
  \<open>c_fgets\<close> gives the string that is in the buffer afterwards, or \<open>None\<close> for the null result; \<open>c_fopen\<close> whether
  the result is not null.
\<close>

record 'd newlib =
  c_printf :: "cstr \<Rightarrow> printf_arg list \<Rightarrow> 'd sys_state \<Rightarrow> 'd sys_state"
  c_fflush :: "'d sys_state \<Rightarrow> 'd sys_state"
  c_fgets :: "u32 \<Rightarrow> nat \<Rightarrow> 'd sys_state \<Rightarrow> cstr option \<times> 'd sys_state"
  c_fopen :: "cstr \<Rightarrow> cstr \<Rightarrow> 'd sys_state \<Rightarrow> bool \<times> 'd sys_state"

text \<open>\<open>strncmp (s, t, n) == 0\<close> for strings without their terminating zeros.\<close>

definition strncmp_0 :: "cstr \<Rightarrow> cstr \<Rightarrow> nat \<Rightarrow> bool" where
  "strncmp_0 s t n \<longleftrightarrow> take n (s @ [0]) = take n (t @ [0])"

text \<open>Where the linker has put the buffers and the string literals that are passed to the kernel.\<close>

record literals =
  lit_inbuffer :: u32
  lit_space :: u32
  lit_root :: u32
  lit_doom :: u32

definition literal :: "string \<Rightarrow> cstr" where "literal t = map of_char t"

definition COLOR_RED :: u32 where "COLOR_RED = 0xFF0000"
definition COLOR_BLUE :: u32 where "COLOR_BLUE = 0x0000FF"

section \<open>The shell\<close>

definition shell_ls :: "'d newlib \<Rightarrow> 'd machine \<Rightarrow> literals \<Rightarrow> cstr \<Rightarrow> 'd sys_state handler" where
  "shell_ls lib mc lit inbuffer r s =
     (if strncmp_0 inbuffer (literal ''ls'') 2 then u_readdir (syscall_table mc) (lit_root lit) r s else Some (Returned r s))"

text \<open>One turn of the loop; \<open>Returned\<close> goes on with the next.\<close>

definition shell_turn :: "'d newlib \<Rightarrow> 'd machine \<Rightarrow> literals \<Rightarrow> 'd sys_state handler" where
  "shell_turn lib mc lit r s =
     (let s = c_fflush lib (c_printf lib (literal ''$'') [] s);
          (line, s) = c_fgets lib (lit_inbuffer lit) 300 s
      in case line of
           None \<Rightarrow> Some (Returned r s)
         | Some inbuffer \<Rightarrow>
             if strncmp_0 inbuffer (literal ''0:/'') 3
             then (let (found, s) = c_fopen lib inbuffer (literal ''rb'') s
                   in if \<not> found
                      then Some (Returned r (c_printf lib (literal ''There is no such program like %s'' @ [10]) [Str inbuffer] s))
                      else do {
                        out \<leftarrow> u_execve (syscall_table mc) (lit_inbuffer lit) (lit_space lit) (lit_space lit) r s;
                        (case out of Returned r s \<Rightarrow> shell_ls lib mc lit inbuffer r s | _ \<Rightarrow> Some out)
                      })
             else shell_ls lib mc lit inbuffer r s)"

text \<open>The loop has no end of its own: it goes on until a turn hands the CPU over or stops it.\<close>

partial_function (option) shell_loop :: "'d newlib \<Rightarrow> 'd machine \<Rightarrow> literals \<Rightarrow> Interrupt_registers \<Rightarrow> 'd sys_state
    \<Rightarrow> 'd sys_state outcome option" where
  "shell_loop lib mc lit r s = do {
     out \<leftarrow> shell_turn lib mc lit r s;
     (case out of Returned r s \<Rightarrow> shell_loop lib mc lit r s | Switched rg s \<Rightarrow> Some out | Halted s \<Rightarrow> Some out)
   }"

lemma shell_loop_never_returns:
  assumes "shell_loop lib mc lit r s = Some out"
  shows "\<forall>r' s'. out \<noteq> Returned r' s'"
proof (rule shell_loop.raw_induct [OF _ assms])
  fix rec lib mc lit r s out
  assume IH: "\<And>lib mc lit r s out. rec lib mc lit r s = Some out \<Longrightarrow> \<forall>r' s'. out \<noteq> Returned r' s'"
    and step: "(do {
      out \<leftarrow> shell_turn lib mc lit r s;
      (case out of Returned r s \<Rightarrow> rec lib mc lit r s | Switched rg s \<Rightarrow> Some out | Halted s \<Rightarrow> Some out) }) = Some out"
  obtain o1 where "shell_turn lib mc lit r s = Some o1" using step by (auto simp: bind_eq_Some_conv)
  then show "\<forall>r' s'. out \<noteq> Returned r' s'" using step IH by (cases o1) auto
qed

text \<open>The next call of a program, when the one before came back.\<close>

definition and_then :: "'s outcome option \<Rightarrow> 's handler \<Rightarrow> 's outcome option" where
  "and_then x f = do { out \<leftarrow> x; (case out of Returned r s \<Rightarrow> f r s | _ \<Rightarrow> Some out) }"

definition shell_main :: "'d newlib \<Rightarrow> 'd machine \<Rightarrow> literals \<Rightarrow> 'd sys_state handler" where
  "shell_main lib mc lit r s =
     and_then (u_clear_screen (syscall_table mc) COLOR_RED r s) (\<lambda>r s.
     and_then (u_getpid (syscall_table mc) r s) (\<lambda>r s.
       shell_loop lib mc lit r (c_printf lib (literal ''Senobhell v0.1 (pid: %d)'' @ [10]) [Num (i_eax r)] s)))"

section \<open>The test program\<close>

text \<open>
  A null result of \<open>fgets\<close> makes it print a buffer that was never set. \<open>execve\<close> does not come back; if it did,
  the program would loop for ever.
\<close>

definition test_main :: "'d newlib \<Rightarrow> 'd machine \<Rightarrow> literals \<Rightarrow> 'd sys_state handler" where
  "test_main lib mc lit r s =
     and_then (u_clear_screen (syscall_table mc) COLOR_BLUE r s) (\<lambda>r s.
       let s = c_printf lib (literal ''Hey, im a userprogramm'' @ [10]) [] s;
           s = c_printf lib (literal ''enter smth'' @ [10]) [] s;
           (buff, s) = c_fgets lib (lit_inbuffer lit) 20 s
       in do {
         b \<leftarrow> buff;
         and_then (u_get_ticks_doom (syscall_table mc) r (c_printf lib (literal ''entered: %s'') [Str b] s)) (\<lambda>r s.
           let s = c_printf lib (literal ''ticks: %d'' @ [10]) [Num (i_eax r)] s
           in and_then (u_get_key_from_buffer (syscall_table mc) r s) (\<lambda>r s.
                let s = c_printf lib (literal ''key: %d'' @ [10]) [Num (i_eax r)] s
                in u_execve (syscall_table mc) (lit_doom lit) (lit_space lit) (lit_space lit) r s)) })"

section \<open>A typed path\<close>

lemma starts_with_0: "strncmp_0 ([48, 58, 47] @ name) (literal ''0:/'') 3"
  by (simp add: strncmp_0_def literal_def)

text \<open>C10: when the user types a path that begins with \<open>0:/\<close> and FatFs reads the file of that path, newline included as
  \<open>fgets\<close> leaves it, the shell hands the CPU over to the program, which starts at its first byte; when there is no
  such file it says so and goes on with the next turn.\<close>

theorem shell_starts_program:
  fixes s :: "'d sys_state"
  assumes "c_fgets lib (lit_inbuffer lit) 300 (c_fflush lib (c_printf lib (literal ''$'') [] s)) = (Some line, s1)"
    and "line = [48, 58, 47] @ name @ [10]" and "c_fopen lib line (literal ''rb'') s1 = (found, s2)"
    and "found \<Longrightarrow> load_string (user_mem s2) (lit_inbuffer lit) = Some line" and "length name < 16"
    and "found \<Longrightarrow> launch_ready s2 xs 4 \<and> first_unused_dir (user_mem s2) \<noteq> None"
    and "found \<Longrightarrow> program_of mc line (volume (files s2)) = (file, d) \<and> delivers_file file data" and "length data \<le> 0x400000"
    and "found \<Longrightarrow> kmem_need heap_pdes (user_mem s2) + pages_of data + 4462 \<le> frame_room (user_mem s2)"
  shows "if found
    then \<exists>rg s'. shell_turn lib mc lit r s = Some (Switched rg s') \<and> r_eip rg = PROGRAMM_VIRTUAL_ADDRESS_START
      \<and> load_bytes (user_mem s') (r_eip rg) (length data) = Some data
    else shell_turn lib mc lit r s
      = Some (Returned r (c_printf lib (literal ''There is no such program like %s'' @ [10]) [Str line] s2))"
proof (cases found)
  case False
  then show ?thesis
    using assms(1,3) starts_with_0 [of "name @ [10]"] by (simp add: shell_turn_def assms(2) Let_def)
next
  case True
  obtain i where i: "first_unused_dir (user_mem s2) = Some i" and ready: "launch_ready s2 xs (0 + 4)" using assms(6) True by auto
  have p: "program_of mc line (volume (files s2)) = (file, d)" "delivers_file file data" using assms(7) True by simp_all
  have len: "length line < 20" using assms(2,5) by simp
  obtain rg s' where e: "u_execve (syscall_table mc) (lit_inbuffer lit) (lit_space lit) (lit_space lit) r s2 = Some (Switched rg s')"
      "r_eip rg = PROGRAMM_VIRTUAL_ADDRESS_START" "load_bytes (user_mem s') (r_eip rg) (length data) = Some data"
    using user_execve_run [OF ready i assms(4) [OF True] len p assms(8) assms(9) [OF True], of "lit_space lit" "lit_space lit" r]
    by (auto simp: PROGRAMM_VIRTUAL_ADDRESS_START_def)
  have "shell_turn lib mc lit r s = Some (Switched rg s')"
    using assms(1,3) True e(1) starts_with_0 [of "name @ [10]"] by (simp add: shell_turn_def assms(2) Let_def)
  then show ?thesis using True e(2,3) by auto
qed

text \<open>The line \<open>0:/a\<close> is in the buffer of \<open>exec_demo\<close>; nothing is printed.\<close>

definition newlib_demo :: "unit newlib" where
  "newlib_demo = \<lparr>c_printf = (\<lambda>_ _ s. s), c_fflush = (\<lambda>s. s), c_fgets = (\<lambda>_ _ s. (Some [48, 58, 47, 97, 10], s)),
     c_fopen = (\<lambda>_ _ s. (True, s))\<rparr>"

definition literals_demo :: literals where
  "literals_demo = \<lparr>lit_inbuffer = 0x400000, lit_space = 0, lit_root = 0, lit_doom = 0\<rparr>"

theorem shell_starts_program_witness:
  "\<exists>rg s'. shell_turn newlib_demo (machine_demo\<lparr>program_of := (\<lambda>_ d. (program_demo, d))\<rparr>) literals_demo timer_regs exec_demo
      = Some (Switched rg s') \<and> r_eip rg = 0x00400000 \<and> load_bytes (user_mem s') 0x00400000 2 = Some [0xEB, 0xFE]"
proof -
  let ?mc = "machine_demo\<lparr>program_of := (\<lambda>_ d. (program_demo, d))\<rparr>" and ?line = "[48, 58, 47, 97, 10] :: cstr"
  have get: "c_fgets newlib_demo (lit_inbuffer literals_demo) 300
      (c_fflush newlib_demo (c_printf newlib_demo (literal ''$'') [] exec_demo)) = (Some ?line, exec_demo)"
      "c_fopen newlib_demo ?line (literal ''rb'') exec_demo = (True, exec_demo)" "?line = [48, 58, 47] @ [97] @ [10]"
    by (simp_all add: newlib_demo_def)
  have path: "load_string (user_mem exec_demo) (lit_inbuffer literals_demo) = Some ?line"
    using exec_demo_path by (simp add: exec_mmu_frames literals_demo_def)
  have ready: "launch_ready exec_demo [(48, 1), (32, 5), (64, 9)] 4 \<and> first_unused_dir (user_mem exec_demo) \<noteq> None"
    using exec_demo_ready exec_demo_dir by simp
  have prog: "program_of ?mc ?line (volume (files exec_demo)) = (program_demo, volume (files exec_demo)) \<and> delivers_file program_demo [0xEB, 0xFE]"
    using program_demo_delivers by simp
  have small: "length [97 :: u8] < 16" "length [0xEB, 0xFE :: u8] \<le> 0x400000" by simp_all
  obtain rg s' where "shell_turn newlib_demo ?mc literals_demo timer_regs exec_demo = Some (Switched rg s')"
      "r_eip rg = PROGRAMM_VIRTUAL_ADDRESS_START" "load_bytes (user_mem s') (r_eip rg) (length [0xEB, 0xFE :: u8]) = Some [0xEB, 0xFE]"
    using shell_starts_program [OF get(1,3,2) path small(1) ready prog small(2) exec_demo_room, of timer_regs]
    unfolding if_True by (elim exE conjE) (rule that)
  then show ?thesis
    by (intro exI [of _ rg] exI [of _ s']) (simp add: numeral_2_eq_2 PROGRAMM_VIRTUAL_ADDRESS_START_def)
qed

end
