(* ===== verification/Fat_Volume.thy ===== *)
theory Fat_Volume
  imports Disk Fatfs
begin

text \<open>
  The volume of FatFs (\<open>fatfs/ff.c\<close>) on the RAM disk: the object \<open>FATFS\<close>, the little-endian words on the
  disk, and the window, a cache of one sector through which all accesses to the FAT and to directories go.
  The configuration is that of \<open>ffconf.h\<close>: no long names, no exFAT, sectors of 512 bytes, one volume.

  The abstract view of a volume is the function \<open>sector_byte\<close>: what the disk holds once the window has been
  written back. \<open>move_window_run\<close> shows that moving the window does not change it, and the invariant
  \<open>volume_ok\<close> that both copies of the FAT agree.
\<close>

section \<open>Data\<close>

text \<open>The array \<open>win\<close> is its address in the memory of the kernel; \<open>LBA_t\<close> has 32 bits. The fields for
  options that are switched off do not exist.\<close>

record FATFS =
  fs_type :: u8
  pdrv :: u8
  n_fats :: u8
  wflag :: u8
  fsi_flag :: u8
  fs_id :: u16
  n_rootdir :: u16
  csize :: u16
  last_clst :: u32
  free_clst :: u32
  n_fatent :: u32
  fsize :: u32
  volbase :: u32
  fatbase :: u32
  dirbase :: u32
  database :: u32
  winsect :: u32
  win :: u32

text \<open>The volume with the memory and the disk. \<open>stray\<close> is what the functions of the disk return for a
  sector they reject, and \<open>stray_ioctl\<close> the variable that \<open>disk_ioctl\<close> does not set.\<close>

record fat_volume = FATFS +
  ram :: bytes
  drive :: ramdisk
  stray :: "u32 \<Rightarrow> int"
  stray_ioctl :: DRESULT

definition FS_FAT12 :: u8 where "FS_FAT12 = 1"
definition FS_FAT16 :: u8 where "FS_FAT16 = 2"
definition FS_FAT32 :: u8 where "FS_FAT32 = 3"
definition SS :: u32 where "SS = 512"
definition CTRL_SYNC :: u8 where "CTRL_SYNC = 0"
definition BS_55AA :: u32 where "BS_55AA = 510"
definition FSI_LeadSig :: u32 where "FSI_LeadSig = 0"
definition FSI_StrucSig :: u32 where "FSI_StrucSig = 484"
definition FSI_Free_Count :: u32 where "FSI_Free_Count = 488"
definition FSI_Nxt_Free :: u32 where "FSI_Nxt_Free = 492"

section \<open>The functions\<close>

definition ld_word :: "bytes \<Rightarrow> u32 \<Rightarrow> u16" where
  "ld_word m p = push_bit 8 (ucast (m (p + 1))) OR ucast (m p)"

definition ld_dword :: "bytes \<Rightarrow> u32 \<Rightarrow> u32" where
  "ld_dword m p =
     push_bit 8 (push_bit 8 (push_bit 8 (ucast (m (p + 3))) OR ucast (m (p + 2))) OR ucast (m (p + 1))) OR ucast (m p)"

definition st_word :: "u32 \<Rightarrow> u16 \<Rightarrow> bytes \<Rightarrow> bytes" where
  "st_word p val m = m(p := ucast val, p + 1 := ucast (drop_bit 8 val))"

definition st_dword :: "u32 \<Rightarrow> u32 \<Rightarrow> bytes \<Rightarrow> bytes" where
  "st_dword p val m =
     m(p := ucast val, p + 1 := ucast (drop_bit 8 val), p + 2 := ucast (drop_bit 8 (drop_bit 8 val)),
       p + 3 := ucast (drop_bit 8 (drop_bit 8 (drop_bit 8 val))))"

text \<open>The calls of \<open>disk_read\<close> and \<open>disk_write\<close> on the drive of the volume.\<close>

definition drive_read :: "u32 \<Rightarrow> u32 \<Rightarrow> u32 \<Rightarrow> fat_volume \<Rightarrow> (DRESULT \<times> fat_volume) option" where
  "drive_read buff sect count v = do {
     (r, m) \<leftarrow> disk_read (stray v sect) (pdrv v) buff sect count (drive v) (ram v);
     Some (r, v\<lparr>ram := m\<rparr>)
   }"

definition drive_write :: "u32 \<Rightarrow> u32 \<Rightarrow> u32 \<Rightarrow> fat_volume \<Rightarrow> (DRESULT \<times> fat_volume) option" where
  "drive_write buff sect count v = do {
     (r, m) \<leftarrow> disk_write (stray v sect) (pdrv v) buff sect count (drive v) (ram v);
     Some (r, v\<lparr>ram := m\<rparr>)
   }"

definition sync_window :: "fat_volume \<Rightarrow> (FRESULT \<times> fat_volume) option" where
  "sync_window v =
     (if wflag v = 0 then Some (FR_OK, v)
      else do {
        (r, v) \<leftarrow> drive_write (win v) (winsect v) 1 v;
        if r \<noteq> RES_OK then Some (FR_DISK_ERR, v)
        else do {
          let v = v\<lparr>wflag := 0\<rparr>;
          if winsect v - fatbase v < fsize v \<and> n_fats v = 2 then do {
            (_, v) \<leftarrow> drive_write (win v) (winsect v + fsize v) 1 v;
            Some (FR_OK, v)
          } else Some (FR_OK, v)
        }
      })"

definition move_window :: "u32 \<Rightarrow> fat_volume \<Rightarrow> (FRESULT \<times> fat_volume) option" where
  "move_window sect v =
     (if sect = winsect v then Some (FR_OK, v)
      else do {
        (res, v) \<leftarrow> sync_window v;
        if res \<noteq> FR_OK then Some (res, v)
        else do {
          (r, v) \<leftarrow> drive_read (win v) sect 1 v;
          if r \<noteq> RES_OK then Some (FR_DISK_ERR, v\<lparr>winsect := - 1\<rparr>)
          else Some (FR_OK, v\<lparr>winsect := sect\<rparr>)
        }
      })"

definition sync_fs :: "fat_volume \<Rightarrow> (FRESULT \<times> fat_volume) option" where
  "sync_fs v = do {
     (res, v) \<leftarrow> sync_window v;
     if res \<noteq> FR_OK then Some (res, v)
     else do {
       v \<leftarrow> if fs_type v = FS_FAT32 \<and> fsi_flag v = 1 then do {
              m \<leftarrow> memset (win v) 0 SS (ram v);
              let m = st_word (win v + BS_55AA) 0xAA55 m;
              let m = st_dword (win v + FSI_LeadSig) 0x41615252 m;
              let m = st_dword (win v + FSI_StrucSig) 0x61417272 m;
              let m = st_dword (win v + FSI_Free_Count) (free_clst v) m;
              let m = st_dword (win v + FSI_Nxt_Free) (last_clst v) m;
              let v = v\<lparr>ram := m, winsect := volbase v + 1\<rparr>;
              (_, v) \<leftarrow> drive_write (win v) (winsect v) 1 v;
              Some (v\<lparr>fsi_flag := 0\<rparr>)
            } else Some v;
       Some (if disk_ioctl (stray_ioctl v) (pdrv v) CTRL_SYNC = RES_OK then FR_OK else FR_DISK_ERR, v)
     }
   }"

definition clst2sect :: "fat_volume \<Rightarrow> u32 \<Rightarrow> u32" where
  "clst2sect v clst =
     (let clst = clst - 2
      in if clst \<ge> n_fatent v - 2 then 0 else database v + ucast (csize v) * clst)"


section \<open>Sectors as addresses\<close>

text \<open>A disk of \<open>N\<close> whole sectors, all of them addressable; the buffers of the kernel lie below the disk.\<close>

definition drive_ok :: "nat \<Rightarrow> fat_volume \<Rightarrow> bool" where
  "drive_ok N v \<longleftrightarrow> pdrv v = 0 \<and> 2 \<le> N \<and> N * 512 \<le> unat (rd_size (drive v)) \<and> N * 512 \<le> 0x1FC00000"

definition buffer_ok :: "u32 \<Rightarrow> nat \<Rightarrow> bool" where
  "buffer_ok b n \<longleftrightarrow> unat b + n \<le> 0xE0400000"

definition disk_byte :: "bytes \<Rightarrow> u32 \<Rightarrow> nat \<Rightarrow> u8" where
  "disk_byte m s i = m (sector_address s + of_nat i)"

lemma offset_less_iff:
  assumes "unat d + k \<le> 4294967296"
  shows "offset d a < k \<longleftrightarrow> unat d \<le> unat a \<and> unat a < unat d + k"
proof (cases "d \<le> a")
  case True
  then show ?thesis using assms by (auto simp: offset_def unat_sub word_le_nat_alt)
next
  case False
  then have "unat a < unat d" by (simp add: word_le_nat_alt)
  moreover from this have "unat (a - d) = 4294967296 + unat a - unat d"
    using unat_u32_less [of d] by (simp add: unat_sub_if_size word_size)
  ultimately show ?thesis using assms by (auto simp: offset_def)
qed

lemma offset_le_iff:
  "unat d + k \<le> 4294967296 \<Longrightarrow> k \<le> offset d a \<longleftrightarrow> unat a < unat d \<or> unat d + k \<le> unat a"
  using offset_less_iff [of d k a] by auto

lemma unat_sector_address:
  assumes "unat s * 512 + i < 0x1FC00000"
  shows "unat (sector_address s + of_nat i) = 0xE0400000 + unat s * 512 + i"
  using assms
  by (simp add: sector_address_def RAMDISKVIRTUALADRESS_def SECTOR_SIZE_def unat_word_ariths unat_of_nat)

lemma unat_sector_start: "unat s * 512 < 0x1FC00000 \<Longrightarrow> unat (sector_address s) = 0xE0400000 + unat s * 512"
  using unat_sector_address [of s 0] by simp

lemma unat_buffer:
  "unat (b :: u32) + n \<le> 0xE0400000 \<Longrightarrow> i < n \<Longrightarrow> unat (b + of_nat i) = unat b + i"
  by (simp add: unat_word_ariths unat_of_nat)

lemma copied_eq:
  assumes "unat d + k \<le> 4294967296"
  shows "copied d src m k a = (if unat d \<le> unat a \<and> unat a < unat d + k then m (src + (a - d)) else m a)"
  using offset_less_iff [OF assms, of a] by (simp add: copied_def)

text \<open>What reading and writing does to buffers and sectors.\<close>

lemma sectors_bound:
  assumes "drive_ok N v" and "unat s + n \<le> N" and "0 < n"
  shows "unat s * 512 + n * 512 \<le> 0x1FC00000" "unat s + 512 < unat (rd_size (drive v))"
    "n < 0x400000" "unat (of_nat n :: u32) = n"
proof -
  show *: "unat s * 512 + n * 512 \<le> 0x1FC00000" "n < 0x400000"
    using assms by (auto simp: drive_ok_def)
  show "unat s + 512 < unat (rd_size (drive v))" using assms by (auto simp: drive_ok_def)
  show "unat (of_nat n :: u32) = n" using *(2) by (simp add: unat_of_nat)
qed

lemma drive_read_run:
  assumes "drive_ok N v" and "unat s + n \<le> N" and "0 < n" and "buffer_ok b (n * 512)"
  shows "drive_read b s (of_nat n) v = Some (RES_OK, v\<lparr>ram := copied b (sector_address s) (ram v) (n * 512)\<rparr>)"
proof -
  note bd = sectors_bound [OF assms(1-3)]
  have "unat s * 512 < 0x1FC00000" using bd(1) assms(3) by simp
  then have "n * 512 \<le> offset (sector_address s) b"
    using bd(1) assms(4) by (subst offset_le_iff) (auto simp: unat_sector_start buffer_ok_def)
  then have "disk_read (stray v s) DEV_RAM b s (of_nat n) (drive v) (ram v)
      = Some (RES_OK, copied b (sector_address s) (ram v) (n * 512))"
    using disk_read_run [of s "drive v" "of_nat n" b] bd by simp
  then show ?thesis using assms(1) by (simp add: drive_read_def drive_ok_def DEV_RAM_def)
qed

lemma drive_write_run:
  assumes "drive_ok N v" and "0 < unat s" and "unat s + n \<le> N" and "0 < n" and "buffer_ok b (n * 512)"
  shows "drive_write b s (of_nat n) v = Some (RES_OK, v\<lparr>ram := copied (sector_address s) b (ram v) (n * 512)\<rparr>)"
proof -
  note bd = sectors_bound [OF assms(1,3,4)]
  have s: "unat s * 512 < 0x1FC00000" using bd(1) assms(4) by simp
  have b: "unat b + n * 512 \<le> 4294967296" using assms(5) by (simp add: buffer_ok_def)
  have "n * 512 \<le> offset b (sector_address s)"
    using assms(5) unfolding offset_le_iff [OF b] by (simp add: unat_sector_start [OF s] buffer_ok_def)
  moreover have "unat s + n * 512 < unat (rd_size (drive v))"
    using assms(1-3) by (auto simp: drive_ok_def)
  ultimately have "disk_write (stray v s) DEV_RAM b s (of_nat n) (drive v) (ram v)
      = Some (RES_OK, copied (sector_address s) b (ram v) (n * 512))"
    using disk_write_run [of s "of_nat n" "drive v" b] bd by simp
  then show ?thesis using assms(1) by (simp add: drive_write_def drive_ok_def DEV_RAM_def)
qed

text \<open>A read changes its buffer only, a write its sectors only.\<close>

lemma read_buffer:
  assumes "buffer_ok b n"
  shows "i < n \<Longrightarrow> copied b (sector_address s) m n (b + of_nat i) = m (sector_address s + of_nat i)"
    and "unat a < unat b \<or> unat b + n \<le> unat a \<Longrightarrow> copied b (sector_address s) m n a = m a"
    and "unat t * 512 + j < 0x1FC00000 \<Longrightarrow> disk_byte (copied b (sector_address s) m n) t j = disk_byte m t j"
proof -
  have b: "unat b + n \<le> 4294967296" using assms by (simp add: buffer_ok_def)
  show "i < n \<Longrightarrow> copied b (sector_address s) m n (b + of_nat i) = m (sector_address s + of_nat i)"
    using assms by (intro copied_at) (simp_all add: buffer_ok_def)
  show out: "copied b (sector_address s) m n a = m a" if "unat a < unat b \<or> unat b + n \<le> unat a" for a
    using that by (auto simp: copied_eq [OF b])
  show "disk_byte (copied b (sector_address s) m n) t j = disk_byte m t j" if "unat t * 512 + j < 0x1FC00000"
    unfolding disk_byte_def using assms by (intro out) (simp add: unat_sector_address [OF that] buffer_ok_def)
qed

lemma sector_distance:
  assumes "unat s \<le> unat t"
  shows "sector_address t + of_nat i - sector_address s = of_nat ((unat t - unat s) * 512 + i)"
proof -
  have "of_nat (unat t) = (of_nat (unat s + (unat t - unat s)) :: u32)" using assms by simp
  then have t: "t = s + of_nat (unat t - unat s)" unfolding of_nat_add by simp
  show ?thesis by (subst (1) t) (simp add: sector_address_def SECTOR_SIZE_def distrib_right del: of_nat_diff)
qed

lemma whole_sectors:
  assumes "i < 512"
  shows "(p * 512 \<le> q * 512 + i \<and> q * 512 + i < p * 512 + n * 512) \<longleftrightarrow> p \<le> q \<and> q < p + (n :: nat)"
proof -
  have "(q * 512 + i) div 512 = q" using assms by simp
  moreover have "p * 512 \<le> q * 512 + i \<longleftrightarrow> p \<le> (q * 512 + i) div 512"
    by (simp only: less_eq_div_iff_mult_less_eq)
  moreover have "q * 512 + i < (p + n) * 512 \<longleftrightarrow> (q * 512 + i) div 512 < p + n"
    by (simp only: div_less_iff_less_mult)
  ultimately show ?thesis by (simp only: distrib_right [symmetric])
qed

lemma write_sectors:
  assumes "unat s * 512 + n * 512 \<le> 0x1FC00000"
  shows "buffer_ok a 1 \<Longrightarrow> copied (sector_address s) b m (n * 512) a = m a"
    and "unat t * 512 < 0x1FC00000 \<Longrightarrow> i < 512 \<Longrightarrow> disk_byte (copied (sector_address s) b m (n * 512)) t i
      = (if unat s \<le> unat t \<and> unat t < unat s + n then m (b + of_nat ((unat t - unat s) * 512 + i)) else disk_byte m t i)"
proof -
  show "copied (sector_address s) b m (n * 512) a = m a" if "buffer_ok a 1"
  proof (cases n)
    case 0
    then show ?thesis by simp
  next
    case (Suc k)
    then have "unat (sector_address s) = 0xE0400000 + unat s * 512" using assms by (intro unat_sector_start) simp
    then show ?thesis using that assms by (subst copied_eq) (auto simp: buffer_ok_def)
  qed
  assume t: "unat t * 512 < 0x1FC00000" "i < 512"
  show "disk_byte (copied (sector_address s) b m (n * 512)) t i
      = (if unat s \<le> unat t \<and> unat t < unat s + n then m (b + of_nat ((unat t - unat s) * 512 + i)) else disk_byte m t i)"
  proof (cases n)
    case 0
    then show ?thesis by (auto simp: disk_byte_def)
  next
    case (Suc k)
    have start: "unat (sector_address s) = 0xE0400000 + unat s * 512"
      using assms Suc by (intro unat_sector_start) simp
    have "unat t < 0xFE000" using t(1) by linarith
    then have "unat t * 512 + i < 0x1FC00000" using t(2) by linarith
    then have at: "unat (sector_address t + of_nat i) = 0xE0400000 + unat t * 512 + i" by (rule unat_sector_address)
    have in_iff: "(unat (sector_address s) \<le> unat (sector_address t + of_nat i)
        \<and> unat (sector_address t + of_nat i) < unat (sector_address s) + n * 512)
        \<longleftrightarrow> unat s \<le> unat t \<and> unat t < unat s + n"
      unfolding start at using whole_sectors [OF t(2), of "unat s" "unat t" n] by simp
    have "unat (sector_address s) + n * 512 \<le> 4294967296" using assms start by simp
    note cp = copied_eq [OF this, of b m "sector_address t + of_nat i", unfolded in_iff]
    show ?thesis
    proof (cases "unat s \<le> unat t")
      case True
      show ?thesis unfolding disk_byte_def cp sector_distance [OF True] ..
    next
      case False
      then show ?thesis unfolding disk_byte_def cp by simp
    qed
  qed
qed

section \<open>The view of the volume\<close>

definition sector_byte :: "fat_volume \<Rightarrow> u32 \<Rightarrow> nat \<Rightarrow> u8" where
  "sector_byte v s i = (if s = winsect v then ram v (win v + of_nat i) else disk_byte (ram v) s i)"

definition in_fat :: "fat_volume \<Rightarrow> u32 \<Rightarrow> bool" where
  "in_fat v s \<longleftrightarrow> unat (fatbase v) \<le> unat s \<and> unat s < unat (fatbase v) + unat (fsize v)"

definition second_fat :: "fat_volume \<Rightarrow> u32 \<Rightarrow> bool" where
  "second_fat v s \<longleftrightarrow> n_fats v = 2 \<and> unat (fatbase v) + unat (fsize v) \<le> unat s
     \<and> unat s < unat (fatbase v) + 2 * unat (fsize v)"

text \<open>The invariant: a clean window equals its sector, a dirty one is on the disk and not in the second FAT.\<close>

definition volume_ok :: "nat \<Rightarrow> fat_volume \<Rightarrow> bool" where
  "volume_ok N v \<longleftrightarrow> drive_ok N v \<and> buffer_ok (win v) 512 \<and> 0 < unat (fatbase v)
     \<and> (n_fats v = 1 \<or> n_fats v = 2) \<and> unat (fatbase v) + unat (n_fats v) * unat (fsize v) \<le> N
     \<and> (if wflag v = 0
        then unat (winsect v) < N \<longrightarrow> (\<forall>i<512. ram v (win v + of_nat i) = disk_byte (ram v) (winsect v) i)
        else 0 < unat (winsect v) \<and> unat (winsect v) < N \<and> \<not> second_fat v (winsect v))"

text \<open>Both copies of the FAT agree, but for the sector that is still in the window.\<close>

definition mirrored :: "fat_volume \<Rightarrow> bool" where
  "mirrored v \<longleftrightarrow> (n_fats v = 2 \<longrightarrow>
     (\<forall>s i. in_fat v s \<longrightarrow> i < 512 \<longrightarrow> wflag v \<noteq> 0 \<and> s = winsect v
        \<or> disk_byte (ram v) (s + fsize v) i = disk_byte (ram v) s i))"

text \<open>A step of the volume that leaves the geometry and the memory alone and changes the view in the
  sectors \<open>T\<close> at most; the functions of this theory change the view nowhere.\<close>

definition volume_step :: "nat \<Rightarrow> (u32 \<Rightarrow> bool) \<Rightarrow> fat_volume \<Rightarrow> fat_volume \<Rightarrow> bool" where
  "volume_step N T v v' \<longleftrightarrow> volume_ok N v' \<and> v' = v\<lparr>wflag := wflag v', winsect := winsect v', ram := ram v'\<rparr>
     \<and> (\<forall>s i. unat s < N \<longrightarrow> \<not> second_fat v s \<longrightarrow> \<not> T s \<longrightarrow> i < 512 \<longrightarrow> sector_byte v' s i = sector_byte v s i)
     \<and> (\<forall>a. buffer_ok a 1 \<longrightarrow> unat a < unat (win v) \<or> unat (win v) + 512 \<le> unat a \<longrightarrow> ram v' a = ram v a)
     \<and> (mirrored v \<longrightarrow> mirrored v')"

abbreviation window_moved :: "nat \<Rightarrow> fat_volume \<Rightarrow> fat_volume \<Rightarrow> bool" where
  "window_moved N \<equiv> volume_step N (\<lambda>_. False)"

lemma volume_step_refl: "volume_ok N v \<Longrightarrow> volume_step N T v v"
  by (simp add: volume_step_def)

lemma volume_stepD:
  assumes "volume_step N T v v'"
  shows "volume_ok N v'"
    "unat s < N \<Longrightarrow> \<not> second_fat v s \<Longrightarrow> \<not> T s \<Longrightarrow> i < 512 \<Longrightarrow> sector_byte v' s i = sector_byte v s i"
    "buffer_ok a 1 \<Longrightarrow> unat a < unat (win v) \<or> unat (win v) + 512 \<le> unat a \<Longrightarrow> ram v' a = ram v a"
    "mirrored v \<Longrightarrow> mirrored v'" "v' = v\<lparr>wflag := wflag v', winsect := winsect v', ram := ram v'\<rparr>"
  using assms by (auto simp: volume_step_def)

lemma volume_step_fields [frame_simps]:
  assumes "volume_step N T v v'"
  shows "fs_type v' = fs_type v" "pdrv v' = pdrv v" "n_fats v' = n_fats v" "fsi_flag v' = fsi_flag v"
    "fs_id v' = fs_id v" "n_rootdir v' = n_rootdir v" "csize v' = csize v" "last_clst v' = last_clst v"
    "free_clst v' = free_clst v" "n_fatent v' = n_fatent v" "fsize v' = fsize v" "volbase v' = volbase v"
    "fatbase v' = fatbase v" "dirbase v' = dirbase v" "database v' = database v" "win v' = win v"
    "drive v' = drive v" "stray v' = stray v" "stray_ioctl v' = stray_ioctl v"
    "second_fat v' s = second_fat v s" "in_fat v' s = in_fat v s"
  by (subst volume_stepD(5) [OF assms], simp add: second_fat_def in_fat_def)+

lemma volume_step_trans [trans]:
  assumes "volume_step N T u v" and "volume_step N T v w"
  shows "volume_step N T u w"
  unfolding volume_step_def
proof (intro conjI allI impI)
  show "volume_ok N w" by (rule volume_stepD(1) [OF assms(2)])
  show "w = u\<lparr>wflag := wflag w, winsect := winsect w, ram := ram w\<rparr>"
    by (subst volume_stepD(5) [OF assms(2)], subst volume_stepD(5) [OF assms(1)]) simp
  show "mirrored w" if "mirrored u" using that assms volume_stepD(4) by blast
  show "sector_byte w s i = sector_byte u s i" if "unat s < N" "\<not> second_fat u s" "\<not> T s" "i < 512" for s i
    using that volume_stepD(2) [OF assms(1)] volume_stepD(2) [OF assms(2)] volume_step_fields(20) [OF assms(1)]
    by simp
  show "ram w a = ram u a" if "buffer_ok a 1" "unat a < unat (win u) \<or> unat (win u) + 512 \<le> unat a" for a
    using that volume_stepD(3) [OF assms(1)] volume_stepD(3) [OF assms(2)] volume_step_fields(16) [OF assms(1)]
    by simp
qed

lemma volume_step_mono: "volume_step N S v v' \<Longrightarrow> (\<And>s. S s \<Longrightarrow> T s) \<Longrightarrow> volume_step N T v v'"
  by (auto simp: volume_step_def)

lemma in_fat_word: "volume_ok N v \<Longrightarrow> winsect v - fatbase v < fsize v \<longleftrightarrow> in_fat v (winsect v)"
proof -
  assume "volume_ok N v"
  then have "unat (fatbase v) + unat (fsize v) \<le> 4294967296"
    by (auto simp: volume_ok_def drive_ok_def)
  from offset_less_iff [OF this, of "winsect v"] show ?thesis
    by (simp add: in_fat_def offset_def word_less_nat_alt)
qed

lemma unat_mirror:
  assumes "volume_ok N v" and "n_fats v = 2" and "in_fat v s"
  shows "unat (s + fsize v) = unat s + unat (fsize v)" "second_fat v (s + fsize v)" "unat s + unat (fsize v) < N"
proof -
  have N: "unat (fatbase v) + 2 * unat (fsize v) \<le> N" "N \<le> 0xFE000"
    using assms(1,2) by (auto simp: volume_ok_def drive_ok_def)
  then show *: "unat (s + fsize v) = unat s + unat (fsize v)" "unat s + unat (fsize v) < N"
    using assms(3) by (auto simp: in_fat_def unat_u32_add)
  show "second_fat v (s + fsize v)" using assms(2,3) N by (simp add: second_fat_def in_fat_def *)
qed

lemma sector_small: "volume_ok N v \<Longrightarrow> unat s < N \<Longrightarrow> unat s * 512 + 512 \<le> 0x1FC00000"
  by (auto simp: volume_ok_def drive_ok_def)

lemma volume_okD:
  assumes "volume_ok N v"
  shows "drive_ok N v" "buffer_ok (win v) 512" "i < 512 \<Longrightarrow> buffer_ok (win v + of_nat i) 1"
proof -
  show "drive_ok N v" "buffer_ok (win v) 512" using assms by (simp_all add: volume_ok_def)
  then show "buffer_ok (win v + of_nat i) 1" if "i < 512"
    using that unat_buffer [of "win v" 512 i] by (simp add: buffer_ok_def)
qed


section \<open>Writing back and moving the window\<close>

lemma flush_sector:
  assumes "drive_ok N v" and "buffer_ok (win v) 512" and "0 < unat s" and "unat s < N"
  shows "\<exists>m. drive_write (win v) s 1 v = Some (RES_OK, v\<lparr>ram := m\<rparr>)
    \<and> (\<forall>a. buffer_ok a 1 \<longrightarrow> m a = ram v a)
    \<and> (\<forall>t i. unat t < N \<longrightarrow> i < 512 \<longrightarrow>
         disk_byte m t i = (if t = s then ram v (win v + of_nat i) else disk_byte (ram v) t i))"
proof -
  let ?m = "copied (sector_address s) (win v) (ram v) (1 * 512)"
  have "unat s + 1 \<le> N" using assms(4) by simp
  have b: "buffer_ok (win v) (1 * 512)" using assms(2) by simp
  have run: "drive_write (win v) s 1 v = Some (RES_OK, v\<lparr>ram := ?m\<rparr>)"
    using drive_write_run [OF assms(1,3) \<open>unat s + 1 \<le> N\<close> _ b] by simp
  have "unat s * 512 + 1 * 512 \<le> 0x1FC00000" using assms(1,4) by (auto simp: drive_ok_def)
  note w = write_sectors [OF this]
  have "disk_byte ?m t i = (if t = s then ram v (win v + of_nat i) else disk_byte (ram v) t i)"
    if "unat t < N" "i < 512" for t i
  proof -
    have "unat t * 512 < 0x1FC00000" using that(1) assms(1) by (auto simp: drive_ok_def)
    note w(2) [OF this that(2), of "win v" "ram v"]
    moreover have "unat s \<le> unat t \<and> unat t < unat s + 1 \<longleftrightarrow> t = s" by (auto simp: word_unat_eq_iff)
    ultimately show ?thesis by auto
  qed
  with run w(1) show ?thesis by blast
qed

lemma sync_window_dirty:
  assumes "volume_ok N v" and "wflag v \<noteq> 0"
  shows "\<exists>m. sync_window v = Some (FR_OK, v\<lparr>ram := m, wflag := 0\<rparr>)
    \<and> (\<forall>a. buffer_ok a 1 \<longrightarrow> m a = ram v a)
    \<and> (\<forall>t i. unat t < N \<longrightarrow> i < 512 \<longrightarrow> disk_byte m t i =
         (if t = winsect v \<or> n_fats v = 2 \<and> in_fat v (winsect v) \<and> t = winsect v + fsize v
          then ram v (win v + of_nat i) else disk_byte (ram v) t i))"
proof -
  have s: "0 < unat (winsect v)" "unat (winsect v) < N" using assms by (auto simp: volume_ok_def)
  obtain m where m: "drive_write (win v) (winsect v) 1 v = Some (RES_OK, v\<lparr>ram := m\<rparr>)"
      "\<forall>a. buffer_ok a 1 \<longrightarrow> m a = ram v a"
      "\<forall>t i. unat t < N \<longrightarrow> i < 512 \<longrightarrow>
         disk_byte m t i = (if t = winsect v then ram v (win v + of_nat i) else disk_byte (ram v) t i)"
    using flush_sector [OF volume_okD(1,2) [OF assms(1)] s] by blast
  let ?v = "v\<lparr>ram := m, wflag := 0\<rparr>"
  show ?thesis
  proof (cases "n_fats v = 2 \<and> in_fat v (winsect v)")
    case False
    then have "sync_window v = Some (FR_OK, ?v)"
      using assms(2) m(1) in_fat_word [OF assms(1)] by (auto simp: sync_window_def)
    with m False show ?thesis by (intro exI [of _ m]) auto
  next
    case True
    note u = unat_mirror [OF assms(1) conjunct1 [OF True] conjunct2 [OF True]]
    have "drive_ok N ?v" "buffer_ok (win ?v) 512" "0 < unat (winsect v + fsize v)"
      using volume_okD(1,2) [OF assms(1)] s by (simp_all add: drive_ok_def u)
    from flush_sector [OF this] u obtain m' where m': "drive_write (win v) (winsect v + fsize v) 1 ?v = Some (RES_OK, ?v\<lparr>ram := m'\<rparr>)"
        "\<forall>a. buffer_ok a 1 \<longrightarrow> m' a = m a"
        "\<forall>t i. unat t < N \<longrightarrow> i < 512 \<longrightarrow>
           disk_byte m' t i = (if t = winsect v + fsize v then m (win v + of_nat i) else disk_byte m t i)"
      by auto
    have "sync_window v = Some (FR_OK, v\<lparr>ram := m', wflag := 0\<rparr>)"
      using assms(2) m(1) m'(1) True in_fat_word [OF assms(1)] by (simp add: sync_window_def)
    moreover have "\<forall>i<512. m (win v + of_nat i) = ram v (win v + of_nat i)"
      using m(2) volume_okD(3) [OF assms(1)] by blast
    ultimately show ?thesis
      using m(2,3) m'(2,3) True by (intro exI [of _ m']) auto
  qed
qed

lemma sync_window_ok:
  assumes "volume_ok N v"
  shows "\<exists>v'. sync_window v = Some (FR_OK, v') \<and> wflag v' = 0 \<and> winsect v' = winsect v \<and> window_moved N v v'"
proof (cases "wflag v = 0")
  case True
  then show ?thesis using volume_step_refl [OF assms] by (simp add: sync_window_def)
next
  case False
  obtain m where m: "sync_window v = Some (FR_OK, v\<lparr>ram := m, wflag := 0\<rparr>)"
      "\<forall>a. buffer_ok a 1 \<longrightarrow> m a = ram v a"
      "\<forall>t i. unat t < N \<longrightarrow> i < 512 \<longrightarrow> disk_byte m t i =
         (if t = winsect v \<or> n_fats v = 2 \<and> in_fat v (winsect v) \<and> t = winsect v + fsize v
          then ram v (win v + of_nat i) else disk_byte (ram v) t i)"
    using sync_window_dirty [OF assms False] by blast
  let ?v = "v\<lparr>ram := m, wflag := 0\<rparr>"
  have w: "m (win v + of_nat i) = ram v (win v + of_nat i)" if "i < 512" for i
    using m(2) volume_okD(3) [OF assms that] by blast
  have mir: "second_fat v (winsect v + fsize v)" if "n_fats v = 2" "in_fat v (winsect v)"
    using unat_mirror [OF assms that] by simp
  have "volume_ok N ?v"
    using assms m(3) False by (auto simp: volume_ok_def drive_ok_def w)
  moreover have "sector_byte ?v s i = sector_byte v s i" if "unat s < N" "\<not> second_fat v s" "i < 512" for s i
    using that m(3) mir by (auto simp: sector_byte_def w)
  moreover have "mirrored ?v" if "mirrored v"
    unfolding mirrored_def
  proof (intro impI allI disjI2)
    fix s i assume a: "n_fats ?v = 2" "in_fat ?v s" "i < (512 :: nat)"
    then have s: "n_fats v = 2" "in_fat v s" by (simp_all add: in_fat_def)
    note u = unat_mirror [OF assms s]
    have "\<not> second_fat v s" using s by (auto simp: in_fat_def second_fat_def)
    then have "disk_byte m s i = (if s = winsect v then ram v (win v + of_nat i) else disk_byte (ram v) s i)"
      using m(3) u(3) mir a(3) by auto
    moreover have "disk_byte m (s + fsize v) i = (if s = winsect v then ram v (win v + of_nat i) else disk_byte (ram v) (s + fsize v) i)"
    proof -
      have "s + fsize v \<noteq> winsect v" using u(2) assms False by (auto simp: volume_ok_def)
      then show ?thesis using m(3) u(1,3) a(3) s by auto
    qed
    ultimately show "disk_byte (ram ?v) (s + fsize ?v) i = disk_byte (ram ?v) s i"
      using that s a(3) by (auto simp: mirrored_def)
  qed
  ultimately have "window_moved N v ?v" using m(2) by (simp add: volume_step_def)
  with m(1) show ?thesis by auto
qed

text \<open>The window can be moved to any sector of the disk: it succeeds, the window holds that sector, and
  the view of the volume is the same. So a clean cache, a dirty one and the copy of the FAT make no difference
  to what the code above reads.\<close>

lemma move_window_run:
  assumes "volume_ok N v" and "unat sect < N"
  shows "\<exists>v'. move_window sect v = Some (FR_OK, v') \<and> winsect v' = sect \<and> window_moved N v v'
    \<and> (\<not> second_fat v sect \<longrightarrow> (\<forall>i<512. ram v' (win v + of_nat i) = sector_byte v sect i))"
proof (cases "sect = winsect v")
  case True
  then show ?thesis using volume_step_refl [OF assms(1)] by (simp add: move_window_def sector_byte_def)
next
  case False
  obtain u where u: "sync_window v = Some (FR_OK, u)" "wflag u = 0" "window_moved N v u"
    using sync_window_ok [OF assms(1)] by blast
  note ok = volume_stepD(1) [OF u(3)]
  let ?m = "copied (win u) (sector_address sect) (ram u) 512"
  have b: "buffer_ok (win u) 512" by (rule volume_okD(2) [OF ok])
  have "drive_read (win u) sect 1 u = Some (RES_OK, u\<lparr>ram := ?m\<rparr>)"
    using drive_read_run [OF volume_okD(1) [OF ok], of sect 1] assms(2) b by simp
  then have run: "move_window sect v = Some (FR_OK, u\<lparr>ram := ?m, winsect := sect\<rparr>)"
    using False u(1) by (simp add: move_window_def)
  have small: "unat t * 512 + i < 0x1FC00000" if "unat t < N" "i < 512" for t i
    using sector_small [OF ok that(1)] that(2) by simp
  have disk: "disk_byte ?m t i = disk_byte (ram u) t i" if "unat t < N" "i < 512" for t i
    using read_buffer(3) [OF b small [OF that]] .
  have buf: "?m (win u + of_nat i) = disk_byte (ram u) sect i" if "i < 512" for i
    using read_buffer(1) [OF b that] by (simp add: disk_byte_def)
  let ?v = "u\<lparr>ram := ?m, winsect := sect\<rparr>"
  have view: "sector_byte ?v s i = sector_byte u s i" if "unat s < N" "i < 512" for s i
    using disk [OF that] buf [OF that(2)] that ok u(2)
    by (auto simp: sector_byte_def volume_ok_def)
  have "volume_ok N ?v" using ok u(2) assms(2) disk buf by (auto simp: volume_ok_def drive_ok_def)
  moreover have "mirrored ?v" if "mirrored u"
    unfolding mirrored_def
  proof (intro impI allI disjI2)
    fix s i assume a: "n_fats ?v = 2" "in_fat ?v s" "i < (512 :: nat)"
    then have s: "n_fats u = 2" "in_fat u s" by (simp_all add: in_fat_def)
    note m = unat_mirror [OF ok s]
    show "disk_byte (ram ?v) (s + fsize ?v) i = disk_byte (ram ?v) s i"
      using that s a(3) u(2) disk [of s i] disk [of "s + fsize u" i] m by (auto simp: mirrored_def)
  qed
  moreover have "ram ?v a = ram u a" if "unat a < unat (win u) \<or> unat (win u) + 512 \<le> unat a" for a
    using read_buffer(2) [OF b that] by simp
  ultimately have "window_moved N u ?v" using view by (simp add: volume_step_def)
  with u(3) have moved: "window_moved N v ?v" by (rule volume_step_trans)
  have "ram ?v (win v + of_nat i) = sector_byte v sect i" if "\<not> second_fat v sect" "i < 512" for i
    using volume_stepD(2) [OF moved assms(2) that(1) _ that(2)] volume_step_fields(16) [OF moved] by (simp add: sector_byte_def)
  with run moved show ?thesis by auto
qed


section \<open>Writing into the window\<close>

text \<open>Bytes stored in the window become the view of its sector.\<close>

lemma window_edited:
  assumes "volume_ok N v" and "0 < unat (winsect v)" and "unat (winsect v) < N" and "\<not> second_fat v (winsect v)"
    and "\<forall>a. unat a < unat (win v) \<or> unat (win v) + 512 \<le> unat a \<longrightarrow> m a = ram v a"
  shows "volume_step N (\<lambda>s. s = winsect v) v (v\<lparr>ram := m, wflag := 1\<rparr>)"
proof -
  have disk: "disk_byte m t i = disk_byte (ram v) t i" if "unat t < N" "i < 512" for t i
  proof -
    have "unat t * 512 + i < 0x1FC00000" using sector_small [OF assms(1) that(1)] that(2) by simp
    then have "unat (win v) + 512 \<le> unat (sector_address t + of_nat i)"
      using volume_okD(2) [OF assms(1)] by (simp add: unat_sector_address buffer_ok_def)
    then show ?thesis using assms(5) by (simp add: disk_byte_def)
  qed
  have "mirrored (v\<lparr>ram := m, wflag := 1\<rparr>)" if "mirrored v"
    unfolding mirrored_def
  proof (intro impI allI)
    fix s i assume a: "n_fats (v\<lparr>ram := m, wflag := 1\<rparr>) = 2" "in_fat (v\<lparr>ram := m, wflag := 1\<rparr>) s" "i < (512 :: nat)"
    then have s: "n_fats v = 2" "in_fat v s" by (simp_all add: in_fat_def)
    note u = unat_mirror [OF assms(1) s]
    have "unat s < N" "unat (s + fsize v) < N" using u by simp_all
    from disk [OF this(1) a(3)] disk [OF this(2) a(3)] that s a(3)
    show "wflag (v\<lparr>ram := m, wflag := 1\<rparr>) \<noteq> 0 \<and> s = winsect (v\<lparr>ram := m, wflag := 1\<rparr>)
      \<or> disk_byte (ram (v\<lparr>ram := m, wflag := 1\<rparr>)) (s + fsize (v\<lparr>ram := m, wflag := 1\<rparr>)) i
        = disk_byte (ram (v\<lparr>ram := m, wflag := 1\<rparr>)) s i"
      by (auto simp: mirrored_def)
  qed
  then show ?thesis
    using assms disk by (simp add: volume_step_def volume_ok_def drive_ok_def sector_byte_def second_fat_def)
qed

text \<open>The window set to one byte, as the stores of \<open>ff.c\<close> do it.\<close>

lemma window_byte_kept:
  assumes "volume_ok N v" and "i < 512"
  shows "\<forall>a. unat a < unat (win v) \<or> unat (win v) + 512 \<le> unat a \<longrightarrow> ((ram v)(win v + of_nat i := b)) a = ram v a"
proof -
  have "unat (win v) + 512 \<le> 0xE0400000" using volume_okD(2) [OF assms(1)] by (simp add: buffer_ok_def)
  note e = unat_buffer [OF this assms(2)]
  have "\<not> (unat (win v + of_nat i) < unat (win v) \<or> unat (win v) + 512 \<le> unat (win v + of_nat i))"
    unfolding e using assms(2) by simp
  then show ?thesis unfolding fun_upd_def by metis
qed

lemma window_at_inj:
  assumes "buffer_ok b n" and "i < n" and "j < n"
  shows "b + of_nat i = b + of_nat j \<longleftrightarrow> i = j"
proof
  assume "b + of_nat i = b + of_nat j"
  then have "unat (b + of_nat i) = unat (b + of_nat j)" by (simp only:)
  moreover have "unat b + n \<le> 0xE0400000" using assms(1) by (simp add: buffer_ok_def)
  note unat_buffer [OF this assms(2)] unat_buffer [OF this assms(3)]
  ultimately show "i = j" by (simp only: add_left_cancel)
qed simp


section \<open>What is on the disk\<close>

text \<open>C23: after \<open>sync_window\<close> the disk itself holds the view of the volume, sector by sector, whatever was in
  the window, and when the two copies of the FAT agreed but for the window they agree again; nothing else in
  memory changes.\<close>

theorem sync_window_writes_back:
  assumes "volume_ok N v"
  shows "\<exists>v'. sync_window v = Some (FR_OK, v') \<and> wflag v' = 0 \<and> volume_ok N v'
    \<and> (\<forall>s i. unat s < N \<longrightarrow> \<not> second_fat v s \<longrightarrow> i < 512 \<longrightarrow> disk_byte (ram v') s i = sector_byte v s i)
    \<and> (mirrored v \<and> n_fats v = 2 \<longrightarrow> (\<forall>s i. in_fat v s \<longrightarrow> i < 512 \<longrightarrow>
         disk_byte (ram v') (s + fsize v) i = sector_byte v s i))
    \<and> (\<forall>a. buffer_ok a 1 \<longrightarrow> unat a < unat (win v) \<or> unat (win v) + 512 \<le> unat a \<longrightarrow> ram v' a = ram v a)"
proof -
  obtain v' where v': "sync_window v = Some (FR_OK, v')" "wflag v' = 0" "window_moved N v v'"
    using sync_window_ok [OF assms] by blast
  note ok = volume_stepD(1) [OF v'(3)] and f = volume_step_fields [OF v'(3)]
  have disk: "disk_byte (ram v') s i = sector_byte v s i" if "unat s < N" "\<not> second_fat v s" "i < 512" for s i
  proof -
    have "sector_byte v' s i = disk_byte (ram v') s i"
      using ok v'(2) that by (auto simp: volume_ok_def sector_byte_def)
    then show ?thesis using volume_stepD(2) [OF v'(3) that(1,2) _ that(3)] by simp
  qed
  have mirror: "disk_byte (ram v') (s + fsize v) i = sector_byte v s i"
    if "mirrored v" "n_fats v = 2" "in_fat v s" "i < 512" for s i
  proof -
    have "disk_byte (ram v') (s + fsize v) i = disk_byte (ram v') s i"
      using volume_stepD(4) [OF v'(3) that(1)] that(2-4) v'(2)
      unfolding mirrored_def f(3,11,21) by simp
    moreover have "unat s < N" "\<not> second_fat v s"
      using unat_mirror(3) [OF assms that(2,3)] that(3) by (auto simp: second_fat_def in_fat_def)
    ultimately show ?thesis using disk that(4) by simp
  qed
  show ?thesis
    by (intro exI [of _ v'] conjI allI impI)
      (simp_all add: v'(1,2) ok disk mirror volume_stepD(3) [OF v'(3)])
qed

text \<open>A small volume of type FAT12, with two copies of the FAT, in which the clusters 2 and 3 are a chain and
  all others are free.\<close>

definition demo_disk :: bytes where
  "demo_disk = (\<lambda>_. 0)(0xE0400203 := 0x03, 0xE0400204 := 0xF0, 0xE0400205 := 0xFF,
     0xE0400603 := 0x03, 0xE0400604 := 0xF0, 0xE0400605 := 0xFF)"

definition demo_volume :: fat_volume where
  "demo_volume = \<lparr>fs_type = FS_FAT12, pdrv = 0, n_fats = 2, wflag = 0, fsi_flag = 0x80, fs_id = 1, n_rootdir = 16,
     csize = 1, last_clst = 0xFFFFFFFF, free_clst = 0xFFFFFFFF, n_fatent = 500, fsize = 2, volbase = 0, fatbase = 1,
     dirbase = 5, database = 6, winsect = 0xFFFFFFFF, win = 0x1000, ram = demo_disk, drive = ramdisk_demo,
     stray = (\<lambda>_. 7), stray_ioctl = RES_OK\<rparr>"

lemma demo_volume_ok: "volume_ok 600 demo_volume"
  by (simp add: volume_ok_def demo_volume_def drive_ok_def buffer_ok_def ramdisk_demo_def)

text \<open>The same volume with a changed byte of the FAT in the window.\<close>

definition demo_dirty :: fat_volume where
  "demo_dirty = demo_volume\<lparr>winsect := 1, wflag := 1, ram := demo_disk(0x1003 := 0x77)\<rparr>"

theorem sync_window_writes_back_witness:
  "\<exists>v'. sync_window demo_dirty = Some (FR_OK, v') \<and> ram v' 0xE0400203 = 0x77"
proof -
  have "volume_ok 600 demo_dirty"
    by (simp add: volume_ok_def demo_dirty_def demo_volume_def drive_ok_def buffer_ok_def ramdisk_demo_def second_fat_def)
  from sync_window_writes_back [OF this]
  obtain v' where v': "sync_window demo_dirty = Some (FR_OK, v')"
      "\<forall>s i. unat s < 600 \<longrightarrow> \<not> second_fat demo_dirty s \<longrightarrow> i < 512 \<longrightarrow>
        disk_byte (ram v') s i = sector_byte demo_dirty s i" by blast
  have "disk_byte (ram v') 1 3 = 0x77"
    using v'(2) [rule_format, of 1 3]
    by (simp add: demo_dirty_def demo_volume_def second_fat_def sector_byte_def)
  moreover have "sector_address 1 + of_nat 3 = 0xE0400203"
    by (simp add: sector_address_def RAMDISKVIRTUALADRESS_def SECTOR_SIZE_def)
  ultimately have "ram v' 0xE0400203 = 0x77" by (simp add: disk_byte_def)
  with v'(1) show ?thesis by blast
qed

end
