(* ===== verification/Fat_Table.thy ===== *)
theory Fat_Table
  imports Fat_Volume
begin

text \<open>
  The file allocation table (\<open>get_fat\<close> and \<open>put_fat\<close> of \<open>fatfs/ff.c\<close>) in its three formats: entries of 12, 16
  and 32 bits, of which the first kind shares bytes and may lie across two sectors. The abstract table is
  \<open>fat_entry\<close>, a function of the cluster; reading returns its value, writing is its update.
\<close>

section \<open>The functions\<close>

definition get_fat :: "u32 \<Rightarrow> fat_volume \<Rightarrow> (u32 \<times> fat_volume) option" where
  "get_fat clst v =
     (if clst < 2 \<or> clst \<ge> n_fatent v then Some (1, v)
      else if fs_type v = FS_FAT12 then do {
        let bc = clst + clst div 2;
        (res, v) \<leftarrow> move_window (fatbase v + bc div SS) v;
        if res \<noteq> FR_OK then Some (0xFFFFFFFF, v)
        else do {
          let wc = (ucast (ram v (win v + bc mod SS)) :: u32);
          let bc = bc + 1;
          (res, v) \<leftarrow> move_window (fatbase v + bc div SS) v;
          if res \<noteq> FR_OK then Some (0xFFFFFFFF, v)
          else do {
            let wc = wc OR push_bit 8 (ucast (ram v (win v + bc mod SS)));
            Some (if clst AND 1 \<noteq> 0 then drop_bit 4 wc else wc AND 0xFFF, v)
          }
        }
      }
      else if fs_type v = FS_FAT16 then do {
        (res, v) \<leftarrow> move_window (fatbase v + clst div (SS div 2)) v;
        if res \<noteq> FR_OK then Some (0xFFFFFFFF, v)
        else Some (ucast (ld_word (ram v) (win v + clst * 2 mod SS)), v)
      }
      else if fs_type v = FS_FAT32 then do {
        (res, v) \<leftarrow> move_window (fatbase v + clst div (SS div 4)) v;
        if res \<noteq> FR_OK then Some (0xFFFFFFFF, v)
        else Some (ld_dword (ram v) (win v + clst * 4 mod SS) AND 0x0FFFFFFF, v)
      }
      else Some (1, v))"

definition put_fat :: "u32 \<Rightarrow> u32 \<Rightarrow> fat_volume \<Rightarrow> (FRESULT \<times> fat_volume) option" where
  "put_fat clst val v =
     (if clst < 2 \<or> clst \<ge> n_fatent v then Some (FR_INT_ERR, v)
      else if fs_type v = FS_FAT12 then do {
        let bc = clst + clst div 2;
        (res, v) \<leftarrow> move_window (fatbase v + bc div SS) v;
        if res \<noteq> FR_OK then Some (res, v)
        else do {
          let p = win v + bc mod SS;
          let b = (if clst AND 1 \<noteq> 0 then (ram v p AND 0x0F) OR push_bit 4 (ucast val) else ucast val);
          let v = v\<lparr>ram := (ram v)(p := b), wflag := 1\<rparr>;
          let bc = bc + 1;
          (res, v) \<leftarrow> move_window (fatbase v + bc div SS) v;
          if res \<noteq> FR_OK then Some (res, v)
          else do {
            let p = win v + bc mod SS;
            let b = (if clst AND 1 \<noteq> 0 then ucast (drop_bit 4 val)
                     else (ram v p AND 0xF0) OR (ucast (drop_bit 8 val) AND 0x0F));
            Some (FR_OK, v\<lparr>ram := (ram v)(p := b), wflag := 1\<rparr>)
          }
        }
      }
      else if fs_type v = FS_FAT16 then do {
        (res, v) \<leftarrow> move_window (fatbase v + clst div (SS div 2)) v;
        if res \<noteq> FR_OK then Some (res, v)
        else Some (FR_OK, v\<lparr>ram := st_word (win v + clst * 2 mod SS) (ucast val) (ram v), wflag := 1\<rparr>)
      }
      else if fs_type v = FS_FAT32 then do {
        (res, v) \<leftarrow> move_window (fatbase v + clst div (SS div 4)) v;
        if res \<noteq> FR_OK then Some (res, v)
        else do {
          let val = (val AND 0x0FFFFFFF) OR (ld_dword (ram v) (win v + clst * 4 mod SS) AND 0xF0000000);
          Some (FR_OK, v\<lparr>ram := st_dword (win v + clst * 4 mod SS) val (ram v), wflag := 1\<rparr>)
        }
      }
      else Some (FR_INT_ERR, v))"

section \<open>The abstract table\<close>

definition fat_sector :: "fat_volume \<Rightarrow> nat \<Rightarrow> u32" where
  "fat_sector v k = fatbase v + of_nat (k div 512)"

definition fat_byte :: "fat_volume \<Rightarrow> nat \<Rightarrow> u8" where
  "fat_byte v k = sector_byte v (fat_sector v k) (k mod 512)"

definition fat_pair :: "fat_volume \<Rightarrow> nat \<Rightarrow> u32" where
  "fat_pair v k = ucast (fat_byte v k) OR push_bit 8 (ucast (fat_byte v (k + 1)))"

definition fat_entry :: "fat_volume \<Rightarrow> u32 \<Rightarrow> u32" where
  "fat_entry v c =
     (if fs_type v = FS_FAT12 then
        (let w = fat_pair v (unat c + unat c div 2) in if odd c then drop_bit 4 w else w AND 0xFFF)
      else if fs_type v = FS_FAT16 then fat_pair v (2 * unat c)
      else (fat_pair v (4 * unat c) OR push_bit 16 (fat_pair v (4 * unat c + 2))) AND 0x0FFFFFFF)"

definition fat_mask :: "fat_volume \<Rightarrow> u32" where
  "fat_mask v = (if fs_type v = FS_FAT12 then 0xFFF else if fs_type v = FS_FAT16 then 0xFFFF else 0x0FFFFFFF)"

definition table_bytes :: "fat_volume \<Rightarrow> nat \<Rightarrow> nat" where
  "table_bytes v n = (if fs_type v = FS_FAT12 then n + n div 2 + n mod 2 else if fs_type v = FS_FAT16 then 2 * n else 4 * n)"

definition max_entries :: "fat_volume \<Rightarrow> nat" where
  "max_entries v = (if fs_type v = FS_FAT12 then 0xFF7 else if fs_type v = FS_FAT16 then 0xFFF7 else 0x0FFFFFF7)"

text \<open>A table whose type is one of the three, with entries that fit and that the type can count.\<close>

definition fat_ok :: "nat \<Rightarrow> fat_volume \<Rightarrow> bool" where
  "fat_ok N v \<longleftrightarrow> volume_ok N v \<and> fs_type v \<in> {FS_FAT12, FS_FAT16, FS_FAT32}
     \<and> unat (n_fatent v) \<le> max_entries v \<and> table_bytes v (unat (n_fatent v)) \<le> unat (fsize v) * 512"

definition cluster :: "fat_volume \<Rightarrow> u32 \<Rightarrow> bool" where
  "cluster v c \<longleftrightarrow> 2 \<le> c \<and> c < n_fatent v"

lemma fat_types [simp]:
  "FS_FAT12 \<noteq> FS_FAT16" "FS_FAT12 \<noteq> FS_FAT32" "FS_FAT16 \<noteq> FS_FAT32"
  "FS_FAT16 \<noteq> FS_FAT12" "FS_FAT32 \<noteq> FS_FAT12" "FS_FAT32 \<noteq> FS_FAT16"
  by (simp_all add: FS_FAT12_def FS_FAT16_def FS_FAT32_def)

text \<open>A change of the volume in the FAT only.\<close>

abbreviation fat_step :: "nat \<Rightarrow> fat_volume \<Rightarrow> fat_volume \<Rightarrow> bool" where
  "fat_step N v \<equiv> volume_step N (in_fat v) v"

lemma fat_step_ok:
  assumes "fat_ok N v" and "volume_step N T v v'"
  shows "fat_ok N v'"
  using assms(1) volume_stepD(1) [OF assms(2)]
  unfolding fat_ok_def max_entries_def table_bytes_def volume_step_fields [OF assms(2)] by blast

lemma step_in_fat: "volume_step N T v v' \<Longrightarrow> in_fat v' = in_fat v"
  by (simp add: fun_eq_iff volume_step_fields)

lemma fat_ok_volume: "fat_ok N v \<Longrightarrow> volume_ok N v"
  by (simp add: fat_ok_def)

text \<open>The byte \<open>k\<close> of the table and its sector.\<close>

lemma unat_fat_sector:
  assumes "volume_ok N v" and "k < unat (fsize v) * 512"
  shows "unat (fat_sector v k) = unat (fatbase v) + k div 512" "in_fat v (fat_sector v k)"
    "\<not> second_fat v (fat_sector v k)" "unat (fat_sector v k) < N" "0 < unat (fat_sector v k)"
proof -
  have bd: "unat (fatbase v) + unat (fsize v) \<le> N" "N \<le> 0xFE000" "0 < unat (fatbase v)"
    using assms(1) by (auto simp: volume_ok_def drive_ok_def)
  have k: "k div 512 < unat (fsize v)" using assms(2) by (simp add: div_less_iff_less_mult)
  then have "unat (of_nat (k div 512) :: u32) = k div 512" using bd by (intro unat_u32_of_nat) simp
  then show *: "unat (fat_sector v k) = unat (fatbase v) + k div 512"
    using bd k by (simp add: fat_sector_def unat_u32_add)
  show "in_fat v (fat_sector v k)" "\<not> second_fat v (fat_sector v k)" "unat (fat_sector v k) < N"
      "0 < unat (fat_sector v k)"
    using bd k by (simp_all add: in_fat_def second_fat_def *)
qed

lemma fat_byte_moved:
  assumes "volume_ok N v" and "window_moved N v v'" and "k < unat (fsize v) * 512"
  shows "fat_byte v' k = fat_byte v k"
  using volume_stepD(2) [OF assms(2)] unat_fat_sector [OF assms(1,3)]
  by (simp add: fat_byte_def fat_sector_def volume_step_fields [OF assms(2)])

text \<open>Moving the window to a byte of the table.\<close>

lemma fat_window:
  assumes "volume_ok N v" and "k < unat (fsize v) * 512"
  shows "\<exists>v'. move_window (fat_sector v k) v = Some (FR_OK, v') \<and> winsect v' = fat_sector v k \<and> window_moved N v v'"
  using move_window_run [OF assms(1) unat_fat_sector(4) [OF assms]] by blast

lemma fat_byte_in_window:
  "winsect v = fat_sector v k \<Longrightarrow> fat_byte v k = ram v (win v + of_nat (k mod 512))"
  by (simp add: fat_byte_def sector_byte_def)

text \<open>Storing one.\<close>

lemma fat_byte_store:
  fixes b :: u8
  assumes "volume_ok N v" and "k < unat (fsize v) * 512" and "winsect v = fat_sector v k"
  defines "v' \<equiv> v\<lparr>ram := (ram v)(win v + of_nat (k mod 512) := b), wflag := 1\<rparr>"
  shows "fat_step N v v'" "j < unat (fsize v) * 512 \<Longrightarrow> fat_byte v' j = (if j = k then b else fat_byte v j)"
proof -
  note s = unat_fat_sector [OF assms(1,2), folded assms(3)]
  have m: "k mod 512 < 512" by simp
  show step: "fat_step N v v'"
    unfolding v'_def using s(2)
    by (intro volume_step_mono [OF window_edited [OF assms(1) s(5,4,3) window_byte_kept [OF assms(1) m]]]) simp
  assume j: "j < unat (fsize v) * 512"
  note t = unat_fat_sector [OF assms(1) j]
  have at: "(win v + of_nat (j mod 512) = win v + of_nat (k mod 512)) = (j mod 512 = k mod 512)"
    by (rule window_at_inj [OF volume_okD(2) [OF assms(1)]]) simp_all
  have [simp]: "fat_sector v' j = fat_sector v j" by (simp add: v'_def fat_sector_def)
  show "fat_byte v' j = (if j = k then b else fat_byte v j)"
  proof (cases "j div 512 = k div 512")
    case True
    then have "fat_sector v j = winsect v" by (simp add: assms(3) fat_sector_def)
    moreover have "j = k \<longleftrightarrow> j mod 512 = k mod 512" using True by (metis div_mod_decomp)
    ultimately show ?thesis unfolding fat_byte_def sector_byte_def v'_def
      by (simp add: at fat_sector_def del: add_left_cancel)
  next
    case False
    then have "unat (fat_sector v j) \<noteq> unat (winsect v)"
      unfolding t(1) assms(3) unat_fat_sector(1) [OF assms(1,2)] by simp
    then have "fat_sector v j \<noteq> winsect v" by auto
    moreover have "disk_byte (ram v') (fat_sector v j) (j mod 512) = disk_byte (ram v) (fat_sector v j) (j mod 512)"
    proof -
      have "unat (fat_sector v j) * 512 + j mod 512 < 0x1FC00000"
        using sector_small [OF assms(1) t(4)] by (simp add: less_le_trans [OF mod_less_divisor])
      then show ?thesis
        using volume_okD(2) [OF assms(1)] window_byte_kept [OF assms(1) m, of b]
        by (simp add: disk_byte_def v'_def unat_sector_address buffer_ok_def)
    qed
    ultimately show ?thesis using False by (auto simp: fat_byte_def sector_byte_def v'_def fat_sector_def)
  qed
qed


section \<open>Reading an entry\<close>

lemma of_nat_eq: "unat (w :: u32) = n \<Longrightarrow> of_nat n = w"
  by auto

lemma word_sector: "fatbase v + w div SS = fat_sector v (unat w)" "w mod SS = of_nat (unat w mod 512)"
proof -
  have "unat (w div SS) = unat w div 512" "unat (w mod SS) = unat w mod 512"
    by (simp_all add: SS_def unat_div unat_mod)
  note of_nat_eq [OF this(1)] of_nat_eq [OF this(2)]
  then show "fatbase v + w div SS = fat_sector v (unat w)" "w mod SS = of_nat (unat w mod 512)"
    by (simp_all only: fat_sector_def)
qed

text \<open>Neighbours of the byte \<open>k\<close> that lie in its sector.\<close>

lemma div_mod_near: "r + i < 512 \<Longrightarrow> (q * 512 + r + i) div 512 = q \<and> (q * 512 + r + i) mod 512 = r + (i :: nat)"
  unfolding add.assoc by simp

lemma same_sector:
  assumes "k mod 512 + i < 512"
  shows "fat_sector v (k + i) = fat_sector v k" "(k + i) mod 512 = k mod 512 + i"
  using div_mod_near [OF assms, of "k div 512"] by (simp_all add: fat_sector_def)

lemma fat_byte_near:
  assumes "winsect v = fat_sector v k" and "k mod 512 + i < 512"
  shows "fat_byte v (k + i) = ram v (win v + of_nat (k mod 512) + of_nat i)"
  using fat_byte_in_window [of v "k + i"] assms(1) same_sector(1) [OF assms(2), of v] same_sector(2) [OF assms(2)]
  by (simp add: add.assoc)

lemma ld_word_pair: "ucast (push_bit 8 (ucast (b :: u8)) OR ucast (a :: u8) :: u16) = (ucast a OR push_bit 8 (ucast b) :: u32)"
  by (rule bit_eqI) (auto simp: bit_simps dest: bit_imp_le_length)

lemma quad_mod: "i < 4 \<Longrightarrow> 4 * c mod 512 + i < (512 :: nat)" "2 * c mod 512 + 1 < (512 :: nat)"
proof -
  have "4 * c mod 512 = 4 * (c mod 128)" "2 * c mod 512 = 2 * (c mod 256)"
    using mod_mult_mult1 [of 4 c 128] mod_mult_mult1 [of 2 c 256] by simp_all
  moreover have "c mod 128 < 128" "c mod 256 < 256" by simp_all
  ultimately show "i < 4 \<Longrightarrow> 4 * c mod 512 + i < (512 :: nat)" "2 * c mod 512 + 1 < (512 :: nat)" by linarith+
qed

lemma ld_dword_pairs:
  "ld_dword m p = (ucast (m p) OR push_bit 8 (ucast (m (p + 1)))) OR push_bit 16 (ucast (m (p + 2)) OR push_bit 8 (ucast (m (p + 3))))"
  by (rule bit_eqI) (auto simp: ld_dword_def bit_simps)

lemma half_mono: "c < n \<Longrightarrow> c + c div 2 + 1 < n + n div 2 + n mod (2 :: nat)"
proof -
  assume "c < n"
  moreover obtain a r where "n = 2 * a + r" "r < 2" by (rule that [of "n div 2" "n mod 2"]) simp_all
  moreover obtain b t where "c = 2 * b + t" "t < 2" by (rule that [of "c div 2" "c mod 2"]) simp_all
  ultimately show ?thesis by simp
qed

text \<open>The parts of an entry lie in the table, those of the wider formats in one sector.\<close>

lemma entry_bounds:
  assumes "fat_ok N v" and "cluster v c"
  shows "fs_type v = FS_FAT12 \<Longrightarrow> unat (c + c div 2) = unat c + unat c div 2
      \<and> unat (c + c div 2 + 1) = unat c + unat c div 2 + 1 \<and> unat c + unat c div 2 + 1 < unat (fsize v) * 512"
    "fs_type v = FS_FAT16 \<Longrightarrow> unat (c * 2) = 2 * unat c \<and> 2 * unat c + 1 < unat (fsize v) * 512"
    "fs_type v = FS_FAT32 \<Longrightarrow> unat (c * 4) = 4 * unat c \<and> 4 * unat c + 3 < unat (fsize v) * 512"
proof -
  have c: "unat c < unat (n_fatent v)" using assms(2) by (simp add: cluster_def word_less_nat_alt)
  have half: "unat (c div 2) = unat c div 2" by (simp add: unat_div)
  show "unat (c + c div 2) = unat c + unat c div 2 \<and> unat (c + c div 2 + 1) = unat c + unat c div 2 + 1
      \<and> unat c + unat c div 2 + 1 < unat (fsize v) * 512" if "fs_type v = FS_FAT12"
  proof -
    have n: "unat (n_fatent v) \<le> 0xFF7"
      "unat (n_fatent v) + unat (n_fatent v) div 2 + unat (n_fatent v) mod 2 \<le> unat (fsize v) * 512"
      using assms(1) that by (simp_all add: fat_ok_def max_entries_def table_bytes_def)
    have le: "unat c + unat c div 2 + 1 < 0x10000" using c n(1) div_le_dividend [of "unat c" 2] by linarith
    then have "unat (c + c div 2) = unat c + unat c div 2" using unat_u32_add [of c "c div 2"] unfolding half by linarith
    moreover from this have "unat (c + c div 2 + 1) = unat c + unat c div 2 + 1"
      using unat_u32_add [of "c + c div 2" 1] le by simp
    moreover have "unat c + unat c div 2 + 1 < unat (n_fatent v) + unat (n_fatent v) div 2 + unat (n_fatent v) mod 2"
      using c by (rule half_mono)
    ultimately show ?thesis using n(2) by simp
  qed
  show "unat (c * 2) = 2 * unat c \<and> 2 * unat c + 1 < unat (fsize v) * 512" if "fs_type v = FS_FAT16"
  proof -
    have n: "unat (n_fatent v) \<le> 0xFFF7" "2 * unat (n_fatent v) \<le> unat (fsize v) * 512"
      using assms(1) that by (simp_all add: fat_ok_def max_entries_def table_bytes_def)
    then show ?thesis using c by (subst unat_u32_mult) simp_all
  qed
  show "unat (c * 4) = 4 * unat c \<and> 4 * unat c + 3 < unat (fsize v) * 512" if "fs_type v = FS_FAT32"
  proof -
    have n: "unat (n_fatent v) \<le> 0x0FFFFFF7" "4 * unat (n_fatent v) \<le> unat (fsize v) * 512"
      using assms(1) that by (simp_all add: fat_ok_def max_entries_def table_bytes_def)
    then show ?thesis using c by (subst unat_u32_mult) simp_all
  qed
qed

lemma wide_sector:
  "fatbase v + c div (SS div 2) = fat_sector v (2 * unat c)" "fatbase v + c div (SS div 4) = fat_sector v (4 * unat c)"
proof -
  have "2 * unat c div 512 = unat c div 256" "4 * unat c div 512 = unat c div 128"
    using div_mult_mult1 [of 2 "unat c" 256] div_mult_mult1 [of 4 "unat c" 128] by simp_all
  moreover have "unat (c div 256) = unat c div 256" "unat (c div 128) = unat c div 128" by (simp_all add: unat_div)
  ultimately have "of_nat (2 * unat c div 512) = c div 256" "of_nat (4 * unat c div 512) = c div 128"
    using of_nat_eq [of "c div 256"] of_nat_eq [of "c div 128"] by simp_all
  then show "fatbase v + c div (SS div 2) = fat_sector v (2 * unat c)" "fatbase v + c div (SS div 4) = fat_sector v (4 * unat c)"
    by (simp_all add: fat_sector_def SS_def)
qed

lemma odd_word: "c AND 1 \<noteq> 0 \<longleftrightarrow> odd (c :: u32)"
  by (simp add: and_one_eq odd_iff_mod_2_eq_one)

lemma get_fat_run:
  assumes "fat_ok N v" and "cluster v c"
  shows "\<exists>v'. get_fat c v = Some (fat_entry v c, v') \<and> window_moved N v v' \<and> in_fat v (winsect v')"
proof -
  note ok = fat_ok_volume [OF assms(1)]
  have c: "\<not> (c < 2 \<or> c \<ge> n_fatent v)" using assms(2) by (auto simp: cluster_def)
  consider "fs_type v = FS_FAT12" | "fs_type v = FS_FAT16" | "fs_type v = FS_FAT32"
    using assms(1) by (auto simp: fat_ok_def)
  then show ?thesis
  proof cases
    case 1
    let ?k = "unat c + unat c div 2"
    note b = entry_bounds(1) [OF assms 1]
    then have k: "?k < unat (fsize v) * 512" by simp
    obtain u where u: "move_window (fat_sector v ?k) v = Some (FR_OK, u)" "winsect u = fat_sector v ?k" "window_moved N v u"
      using fat_window [OF ok k] by blast
    note uf = volume_step_fields [OF u(3)]
    have k1: "?k + 1 < unat (fsize u) * 512" using b by (simp add: uf)
    have su: "fat_sector u = fat_sector v" by (simp add: fat_sector_def fun_eq_iff uf)
    obtain w where w: "move_window (fat_sector v (?k + 1)) u = Some (FR_OK, w)" "winsect w = fat_sector v (?k + 1)" "window_moved N u w"
      using fat_window [OF volume_stepD(1) [OF u(3)] k1] unfolding su by blast
    note wf = volume_step_fields [OF w(3)]
    have sw: "fat_sector w = fat_sector v" by (simp add: fat_sector_def fun_eq_iff uf wf)
    have "ram u (win v + of_nat (?k mod 512)) = fat_byte v ?k"
      using fat_byte_in_window [of u ?k] fat_byte_moved [OF ok u(3) k] u(2) by (simp add: uf su)
    moreover have "ram w (win v + of_nat ((?k + 1) mod 512)) = fat_byte v (?k + 1)"
      using fat_byte_in_window [of w "?k + 1"] fat_byte_moved [OF volume_stepD(1) [OF u(3)] w(3) k1]
        fat_byte_moved [OF ok u(3), of "?k + 1"] w(2) b by (simp add: uf wf sw)
    ultimately have "get_fat c v = Some (fat_entry v c, w)"
      using c 1 u(1) w(1) b
      by (simp add: get_fat_def word_sector fat_entry_def fat_pair_def odd_word Let_def uf wf su)
    moreover have "?k + 1 < unat (fsize v) * 512" using b by simp
    then have "in_fat v (winsect w)" using unat_fat_sector(2) [OF ok] w(2) by simp
    ultimately show ?thesis using volume_step_trans [OF u(3) w(3)] by blast
  next
    case 2
    let ?k = "2 * unat c"
    note b = entry_bounds(2) [OF assms 2]
    then have k: "?k < unat (fsize v) * 512" by simp
    obtain u where u: "move_window (fat_sector v ?k) v = Some (FR_OK, u)" "winsect u = fat_sector v ?k" "window_moved N v u"
      using fat_window [OF ok k] by blast
    note uf = volume_step_fields [OF u(3)]
    have su: "winsect u = fat_sector u ?k" using u(2) by (simp add: fat_sector_def uf)
    from fat_byte_near [OF su quad_mod(2)] fat_byte_in_window [OF su]
    have "ram u (win v + of_nat (?k mod 512)) = fat_byte v ?k" "ram u (win v + of_nat (?k mod 512) + 1) = fat_byte v (?k + 1)"
      using fat_byte_moved [OF ok u(3) k] fat_byte_moved [OF ok u(3), of "?k + 1"] b by (simp_all add: uf)
    then have "get_fat c v = Some (fat_entry v c, u)"
      using c 2 u(1) b
      by (simp add: get_fat_def wide_sector word_sector fat_entry_def fat_pair_def ld_word_def ld_word_pair uf)
    with u(2,3) unat_fat_sector(2) [OF ok k] show ?thesis by auto
  next
    case 3
    let ?k = "4 * unat c"
    note b = entry_bounds(3) [OF assms 3]
    then have k: "?k < unat (fsize v) * 512" by simp
    obtain u where u: "move_window (fat_sector v ?k) v = Some (FR_OK, u)" "winsect u = fat_sector v ?k" "window_moved N v u"
      using fat_window [OF ok k] by blast
    note uf = volume_step_fields [OF u(3)]
    have su: "winsect u = fat_sector u ?k" using u(2) by (simp add: fat_sector_def uf)
    have at: "ram u (win v + of_nat (?k mod 512) + of_nat i) = fat_byte v (?k + i)" if "i < 4" for i
      using fat_byte_near [OF su quad_mod(1) [OF that]] fat_byte_moved [OF ok u(3), of "?k + i"] b that by (simp add: uf)
    have "get_fat c v = Some (fat_entry v c, u)"
      using c 3 u(1) b at [of 0] at [of 1] at [of 2] at [of 3]
      by (simp add: get_fat_def wide_sector word_sector fat_entry_def fat_pair_def ld_dword_pairs uf add.assoc
          numeral_3_eq_3)
    with u(2,3) unat_fat_sector(2) [OF ok k] show ?thesis by auto
  qed
qed

lemma get_fat_outside: "\<not> cluster v c \<Longrightarrow> get_fat c v = Some (1, v)"
  by (auto simp: get_fat_def cluster_def)

lemma fat_entry_moved:
  assumes "fat_ok N v" and "window_moved N v v'" and "cluster v c"
  shows "fat_entry v' c = fat_entry v c"
  using entry_bounds [OF assms(1,3)] fat_byte_moved [OF fat_ok_volume [OF assms(1)] assms(2)] assms(1)
  by (auto simp: fat_entry_def fat_pair_def fat_ok_def Let_def volume_step_fields [OF assms(2)])


section \<open>Writing an entry\<close>

text \<open>Two bytes stored next to each other, and four.\<close>

lemma fat_word_store:
  fixes w :: u16
  assumes "volume_ok N v" and "k + 1 < unat (fsize v) * 512" and "winsect v = fat_sector v k" and "k mod 512 + 1 < 512"
  defines "v' \<equiv> v\<lparr>ram := st_word (win v + of_nat (k mod 512)) w (ram v), wflag := 1\<rparr>"
  shows "fat_step N v v'" "j < unat (fsize v) * 512 \<Longrightarrow> fat_byte v' j =
    (if j = k then ucast w else if j = k + 1 then ucast (drop_bit 8 w) else fat_byte v j)"
proof -
  have k: "k < unat (fsize v) * 512" using assms(2) by simp
  let ?u = "v\<lparr>ram := (ram v)(win v + of_nat (k mod 512) := ucast w), wflag := 1\<rparr>"
  note u = fat_byte_store [OF assms(1) k assms(3), where b = "ucast w"]
  have near: "winsect ?u = fat_sector ?u (k + 1)" "(k + 1) mod 512 = k mod 512 + 1"
    using same_sector [OF assms(4)] assms(3) by (simp_all add: fat_sector_def)
  have k1: "k + 1 < unat (fsize ?u) * 512" using assms(2) by simp
  have v': "v' = ?u\<lparr>ram := (ram ?u)(win ?u + of_nat ((k + 1) mod 512) := ucast (drop_bit 8 w)), wflag := 1\<rparr>"
    unfolding near(2) v'_def by (simp add: st_word_def ac_simps)
  note w = fat_byte_store [OF volume_stepD(1) [OF u(1)] k1 near(1), where b = "ucast (drop_bit 8 w)", folded v']
  show "fat_step N v v'"
    by (rule volume_step_trans [OF u(1)]) (use w(1) in \<open>simp add: step_in_fat [OF u(1)]\<close>)
  show "j < unat (fsize v) * 512 \<Longrightarrow> fat_byte v' j =
      (if j = k then ucast w else if j = k + 1 then ucast (drop_bit 8 w) else fat_byte v j)"
    using w(2) [of j] u(2) [of j] by (cases "j = k") simp_all
qed

lemma st_dword_words: "st_dword p val m = st_word (p + 2) (ucast (drop_bit 16 val)) (st_word p (ucast val) m)"
proof -
  have "(ucast (ucast val :: u16) :: u8) = ucast val" "(ucast (drop_bit 8 (ucast val :: u16)) :: u8) = ucast (drop_bit 8 val)"
    "(ucast (ucast (drop_bit 16 val) :: u16) :: u8) = ucast (drop_bit 8 (drop_bit 8 val))"
    "(ucast (drop_bit 8 (ucast (drop_bit 16 val) :: u16)) :: u8) = ucast (drop_bit 8 (drop_bit 8 (drop_bit 8 val)))"
    by (rule bit_eqI, auto simp: bit_simps)+
  then show ?thesis unfolding st_dword_def st_word_def by (simp add: add.assoc)
qed

text \<open>The bits of an entry in its bytes.\<close>

lemma entry_masks: "(0xFFF :: u32) = mask 12" "(0xFFFF :: u32) = mask 16" "(0x0FFFFFFF :: u32) = mask 28"
  "(0x0F :: u8) = mask 4" "(0xF0 :: u8) = push_bit 4 (mask 4)" "(0xF0000000 :: u32) = push_bit 28 (mask 4)"
  by (simp_all add: mask_eq_exp_minus_1)

lemma nibbles_even:
  "(ucast (ucast val :: u8) OR push_bit 8 (ucast ((x AND 0xF0) OR (ucast (drop_bit 8 val) AND 0x0F) :: u8))) AND 0xFFF
    = (val :: u32) AND 0xFFF"
  unfolding entry_masks by (rule bit_eqI) (auto simp: bit_simps)

lemma nibbles_odd:
  "drop_bit 4 (ucast ((x AND 0x0F) OR push_bit 4 (ucast val) :: u8) OR push_bit 8 (ucast (ucast (drop_bit 4 val) :: u8)))
    = (val :: u32) AND 0xFFF"
  unfolding entry_masks by (rule bit_eqI) (auto simp: bit_simps)

lemma nibble_kept_even:
  "(ucast (a :: u8) OR push_bit 8 (ucast ((x AND 0x0F) OR push_bit 4 z :: u8))) AND 0xFFF
    = (ucast a OR push_bit 8 (ucast x)) AND (0xFFF :: u32)"
  unfolding entry_masks by (rule bit_eqI) (auto simp: bit_simps)

lemma nibble_kept_odd:
  "drop_bit 4 (ucast ((x AND 0xF0) OR (z AND 0x0F) :: u8) OR push_bit 8 (ucast (b :: u8)))
    = (drop_bit 4 (ucast x OR push_bit 8 (ucast b)) :: u32)"
  unfolding entry_masks by (rule bit_eqI) (auto simp: bit_simps dest: bit_imp_le_length)

lemma pair_word: "(ucast (ucast (w :: u16) :: u8) OR push_bit 8 (ucast (ucast (drop_bit 8 w) :: u8)) :: u32) = ucast w"
  by (rule bit_eqI) (auto simp: bit_simps dest: bit_imp_le_length)

lemma ucast_word_mask: "ucast (ucast val :: u16) = (val :: u32) AND 0xFFFF"
  unfolding entry_masks by (rule bit_eqI) (auto simp: bit_simps)

lemma words_dword: "ucast (ucast val :: u16) OR push_bit 16 (ucast (ucast (drop_bit 16 val) :: u16)) = (val :: u32)"
  by (rule bit_eqI) (auto simp: bit_simps)

lemma upper_kept: "((val AND 0x0FFFFFFF) OR (x AND 0xF0000000)) AND 0x0FFFFFFF = (val :: u32) AND 0x0FFFFFFF"
  unfolding entry_masks by (rule bit_eqI) (auto simp: bit_simps)


text \<open>The bytes of two entries of 12 bits.\<close>

lemma fat12_bytes:
  fixes c d :: nat
  assumes "c \<noteq> d"
  defines "k \<equiv> c + c div 2" and "l \<equiv> d + d div 2"
  shows "l = k \<Longrightarrow> False" "l + 1 = k \<Longrightarrow> even d \<and> odd c" "l = k + 1 \<Longrightarrow> odd d \<and> even c"
proof -
  obtain a r where c: "c = 2 * a + r" "r < 2" by (rule that [of "c div 2" "c mod 2"]) simp_all
  obtain b t where d: "d = 2 * b + t" "t < 2" by (rule that [of "d div 2" "d mod 2"]) simp_all
  have k: "k = 3 * a + r" and l: "l = 3 * b + t" using c d by (simp_all add: k_def l_def)
  show "l = k \<Longrightarrow> False" using assms(1) c d unfolding k l by presburger
  show "l + 1 = k \<Longrightarrow> even d \<and> odd c" using c d unfolding k l by presburger
  show "l = k + 1 \<Longrightarrow> odd d \<and> even c" using c d unfolding k l by presburger
qed

lemma put_fat12:
  assumes "fat_ok N v" and "cluster v c" and type: "fs_type v = FS_FAT12"
  shows "\<exists>v'. put_fat c val v = Some (FR_OK, v') \<and> fat_step N v v'
    \<and> (\<forall>d. cluster v d \<longrightarrow> fat_entry v' d = (if d = c then val AND 0xFFF else fat_entry v d))"
proof -
  note ok = fat_ok_volume [OF assms(1)]
  have c: "\<not> (c < 2 \<or> c \<ge> n_fatent v)" using assms(2) by (auto simp: cluster_def)
  let ?k = "unat c + unat c div 2"
  note b = entry_bounds(1) [OF assms]
  then have k: "?k < unat (fsize v) * 512" by simp
  define b0 where "b0 = (if odd c then (fat_byte v ?k AND 0x0F) OR push_bit 4 (ucast val) else ucast val)"
  define b1 where "b1 = (if odd c then ucast (drop_bit 4 val)
      else (fat_byte v (?k + 1) AND 0xF0) OR (ucast (drop_bit 8 val) AND 0x0F))"
  obtain u where u: "move_window (fat_sector v ?k) v = Some (FR_OK, u)" "winsect u = fat_sector v ?k" "window_moved N v u"
    using fat_window [OF ok k] by blast
  note uf = volume_step_fields [OF u(3)]
  have su: "winsect u = fat_sector u ?k" using u(2) by (simp add: fat_sector_def uf)
  have r0: "ram u (win u + of_nat (?k mod 512)) = fat_byte v ?k"
    using fat_byte_in_window [OF su] fat_byte_moved [OF ok u(3) k] by simp
  define x where "x = u\<lparr>ram := (ram u)(win u + of_nat (?k mod 512) := b0), wflag := 1\<rparr>"
  have ku: "?k < unat (fsize u) * 512" using k by (simp add: uf)
  note x = fat_byte_store [OF volume_stepD(1) [OF u(3)] ku su, where b = b0, folded x_def]
  have xv: "fat_step N v x"
    by (rule volume_step_trans [OF volume_step_mono [OF u(3)]]) (use x(1) in \<open>simp_all add: step_in_fat [OF u(3)]\<close>)
  note xf = volume_step_fields [OF xv] and okx = volume_stepD(1) [OF xv]
  have k1: "?k + 1 < unat (fsize x) * 512" using b by (simp add: xf)
  obtain y where y: "move_window (fat_sector x (?k + 1)) x = Some (FR_OK, y)" "winsect y = fat_sector x (?k + 1)" "window_moved N x y"
    using fat_window [OF okx k1] by blast
  note yf = volume_step_fields [OF y(3)] and oky = volume_stepD(1) [OF y(3)]
  have sy: "winsect y = fat_sector y (?k + 1)" using y(2) by (simp add: fat_sector_def yf)
  have k1y: "?k + 1 < unat (fsize y) * 512" using k1 by (simp add: yf)
  have x1: "fat_byte x j = (if j = ?k then b0 else fat_byte v j)" if "j < unat (fsize v) * 512" for j
    using x(2) [of j] fat_byte_moved [OF ok u(3) that] that by (simp add: uf)
  have r1: "ram y (win y + of_nat ((?k + 1) mod 512)) = fat_byte v (?k + 1)"
    using fat_byte_in_window [OF sy] fat_byte_moved [OF okx y(3) k1] x1 [of "?k + 1"] b by simp
  define z where "z = y\<lparr>ram := (ram y)(win y + of_nat ((?k + 1) mod 512) := b1), wflag := 1\<rparr>"
  note z = fat_byte_store [OF oky k1y sy, where b = b1, folded z_def]
  have yv: "fat_step N v y" by (rule volume_step_trans [OF xv]) (rule volume_step_mono [OF y(3)], simp)
  have zv: "fat_step N v z" by (rule volume_step_trans [OF yv]) (use z(1) in \<open>simp add: step_in_fat [OF yv]\<close>)
  have bytes: "fat_byte z j = (if j = ?k then b0 else if j = ?k + 1 then b1 else fat_byte v j)"
    if "j < unat (fsize v) * 512" for j
    using z(2) [of j] fat_byte_moved [OF okx y(3), of j] x1 [OF that] that by (cases "j = ?k") (simp_all add: xf yf)
  have run: "put_fat c val v = Some (FR_OK, z)"
  proof -
    have m1: "move_window (fatbase v + (c + c div 2) div SS) v = Some (FR_OK, u)"
      using u(1) b by (simp add: word_sector)
    have m2: "move_window (fatbase x + (c + c div 2 + 1) div SS) x = Some (FR_OK, y)"
      using y(1) b by (simp add: word_sector)
    have at: "(c + c div 2) mod SS = of_nat (?k mod 512)" "(c + c div 2 + 1) mod SS = of_nat ((?k + 1) mod 512)"
      using b by (simp_all only: word_sector)
    have xs: "u\<lparr>ram := (ram u)(win u + (c + c div 2) mod SS :=
        (if c AND 1 \<noteq> 0 then (ram u (win u + (c + c div 2) mod SS) AND 0x0F) OR push_bit 4 (ucast val) else ucast val)),
        wflag := 1\<rparr> = x"
      by (simp only: at r0 b0_def odd_word x_def)
    have zs: "y\<lparr>ram := (ram y)(win y + (c + c div 2 + 1) mod SS :=
        (if c AND 1 \<noteq> 0 then ucast (drop_bit 4 val)
         else (ram y (win y + (c + c div 2 + 1) mod SS) AND 0xF0) OR (ucast (drop_bit 8 val) AND 0x0F))),
        wflag := 1\<rparr> = z"
      by (simp only: at r1 b1_def odd_word z_def)
    show ?thesis
      by (simp only: put_fat_def Let_def c type if_True if_False m1 m2 Option.bind.bind_lunit prod.case xs zs
          simp_thms)
  qed
  have entry: "fat_entry z d = (if d = c then val AND 0xFFF else fat_entry v d)" if d: "cluster v d" for d
  proof -
    let ?l = "unat d + unat d div 2"
    have tz: "fs_type z = FS_FAT12" by (simp add: volume_step_fields [OF zv] type)
    have l: "?l < unat (fsize v) * 512" "?l + 1 < unat (fsize v) * 512" using entry_bounds(1) [OF assms(1) d type] by simp_all
    note bl = bytes [OF l(1)] bytes [OF l(2)]
    show ?thesis
    proof (cases "d = c")
      case True
      then show ?thesis
        using bl nibbles_even [of val "fat_byte v (?k + 1)"] nibbles_odd [of "fat_byte v ?k" val]
        by (simp add: fat_entry_def tz fat_pair_def Let_def b0_def b1_def)
    next
      case False
      then have "unat c \<noteq> unat d" using word_unat_eq_iff by metis
      note far = fat12_bytes [OF this]
      have par: "even (unat w) = even w" for w :: u32
        by transfer (simp add: even_nat_iff even_take_bit_eq)
      consider "?l + 1 = ?k" | "?l = ?k + 1" | "?l + 1 \<noteq> ?k" "?l \<noteq> ?k + 1" by blast
      then show ?thesis
      proof cases
        case 1
        then have "even d" "odd c" using far(2) par by blast+
        with 1 False bl show ?thesis
          using nibble_kept_even [of "fat_byte v ?l" "fat_byte v ?k" "ucast val"]
          by (simp add: fat_entry_def tz type fat_pair_def Let_def b0_def)
      next
        case 2
        then have "odd d" "even c" using far(3) par by blast+
        with 2 False bl show ?thesis
          using nibble_kept_odd [of "fat_byte v (?k + 1)" "ucast (drop_bit 8 val)" "fat_byte v (?l + 1)"]
          by (simp add: fat_entry_def tz type fat_pair_def Let_def b1_def)
      next
        case 3
        with far(1) False bl show ?thesis by (auto simp: fat_entry_def tz type fat_pair_def Let_def)
      qed
    qed
  qed
  from run zv entry show ?thesis by blast
qed


lemma fat_entry_words:
  "fs_type v = FS_FAT16 \<Longrightarrow> fat_entry v c = fat_pair v (2 * unat c)"
  "fs_type v = FS_FAT32 \<Longrightarrow> fat_entry v c
     = (fat_pair v (4 * unat c) OR push_bit 16 (fat_pair v (4 * unat c + 2))) AND 0x0FFFFFFF"
  by (simp_all add: fat_entry_def)

lemma put_fat16:
  assumes "fat_ok N v" and "cluster v c" and type: "fs_type v = FS_FAT16"
  shows "\<exists>v'. put_fat c val v = Some (FR_OK, v') \<and> fat_step N v v'
    \<and> (\<forall>d. cluster v d \<longrightarrow> fat_entry v' d = (if d = c then val AND 0xFFFF else fat_entry v d))"
proof -
  note ok = fat_ok_volume [OF assms(1)]
  have c: "\<not> (c < 2 \<or> c \<ge> n_fatent v)" using assms(2) by (auto simp: cluster_def)
  let ?k = "2 * unat c"
  note b = entry_bounds(2) [OF assms]
  then have k: "?k < unat (fsize v) * 512" by simp
  obtain u where u: "move_window (fat_sector v ?k) v = Some (FR_OK, u)" "winsect u = fat_sector v ?k" "window_moved N v u"
    using fat_window [OF ok k] by blast
  note uf = volume_step_fields [OF u(3)]
  have su: "winsect u = fat_sector u ?k" using u(2) by (simp add: fat_sector_def uf)
  have k1: "?k + 1 < unat (fsize u) * 512" using b by (simp add: uf)
  define z where "z = u\<lparr>ram := st_word (win u + of_nat (?k mod 512)) (ucast val) (ram u), wflag := 1\<rparr>"
  note z = fat_word_store [OF volume_stepD(1) [OF u(3)] k1 su quad_mod(2), where w = "ucast val", folded z_def]
  have zv: "fat_step N v z"
    by (rule volume_step_trans [OF volume_step_mono [OF u(3)]]) (use z(1) in \<open>simp_all add: step_in_fat [OF u(3)]\<close>)
  have run: "put_fat c val v = Some (FR_OK, z)"
    using c type u(1) b by (simp add: put_fat_def wide_sector word_sector z_def uf)
  have "fat_entry z d = (if d = c then val AND 0xFFFF else fat_entry v d)" if d: "cluster v d" for d
  proof -
    have l: "2 * unat d + 1 < unat (fsize v) * 512" using entry_bounds(2) [OF assms(1) d type] by simp
    have tz: "fs_type z = FS_FAT16" by (simp add: volume_step_fields [OF zv] type)
    have bytes: "fat_byte z (2 * unat d + i) = (if d = c then (if i = 0 then ucast (ucast val :: u16) else ucast (drop_bit 8 (ucast val :: u16)))
        else fat_byte v (2 * unat d + i))" if "i < 2" for i
    proof -
      have at: "2 * unat d + i = 2 * unat c \<longleftrightarrow> d = c \<and> i = 0" "2 * unat d + i = 2 * unat c + 1 \<longleftrightarrow> d = c \<and> i = 1"
        using that by (auto simp: word_unat_eq_iff) presburger+
      have "2 * unat d + i < unat (fsize v) * 512" using l that by simp
      then show ?thesis
        using z(2) [of "2 * unat d + i"] fat_byte_moved [OF ok u(3), of "2 * unat d + i"] that
        unfolding at by (auto simp: uf)
    qed
    show ?thesis
      using bytes [of 0] bytes [of 1]
      by (simp add: fat_entry_words(1) [OF tz] fat_entry_words(1) [OF type] fat_pair_def pair_word ucast_word_mask)
  qed
  with run zv show ?thesis by blast
qed

lemma put_fat32:
  assumes "fat_ok N v" and "cluster v c" and type: "fs_type v = FS_FAT32"
  shows "\<exists>v'. put_fat c val v = Some (FR_OK, v') \<and> fat_step N v v'
    \<and> (\<forall>d. cluster v d \<longrightarrow> fat_entry v' d = (if d = c then val AND 0x0FFFFFFF else fat_entry v d))"
proof -
  note ok = fat_ok_volume [OF assms(1)]
  have c: "\<not> (c < 2 \<or> c \<ge> n_fatent v)" using assms(2) by (auto simp: cluster_def)
  let ?k = "4 * unat c"
  note b = entry_bounds(3) [OF assms]
  then have k: "?k < unat (fsize v) * 512" by simp
  obtain u where u: "move_window (fat_sector v ?k) v = Some (FR_OK, u)" "winsect u = fat_sector v ?k" "window_moved N v u"
    using fat_window [OF ok k] by blast
  note uf = volume_step_fields [OF u(3)] and oku = volume_stepD(1) [OF u(3)]
  have su: "winsect u = fat_sector u ?k" using u(2) by (simp add: fat_sector_def uf)
  define w where "w = (val AND 0x0FFFFFFF) OR (ld_dword (ram u) (win u + of_nat (?k mod 512)) AND 0xF0000000)"
  define x where "x = u\<lparr>ram := st_word (win u + of_nat (?k mod 512)) (ucast w) (ram u), wflag := 1\<rparr>"
  have k1: "?k + 1 < unat (fsize u) * 512" using b by (simp add: uf)
  have "?k mod 512 + 1 < 512" using quad_mod(1) [of 1 "unat c"] by simp
  note x = fat_word_store [OF oku k1 su this, where w = "ucast w", folded x_def]
  note xf = volume_step_fields [OF x(1)]
  have near: "fat_sector x (?k + 2) = fat_sector x ?k" "(?k + 2) mod 512 = ?k mod 512 + 2"
    by (rule same_sector [OF quad_mod(1)], simp)+
  have sx: "winsect x = fat_sector x (?k + 2)" using su unfolding near(1) by (simp add: x_def fat_sector_def)
  have k3: "?k + 2 + 1 < unat (fsize x) * 512" using b by (simp add: xf uf)
  have "(?k + 2) mod 512 + 1 < 512" unfolding near(2) using quad_mod(1) [of 3 "unat c"] by simp
  note y0 = fat_word_store [OF volume_stepD(1) [OF x(1)] k3 sx this, where w = "ucast (drop_bit 16 w)"]
  define z where "z = u\<lparr>ram := st_dword (win u + of_nat (?k mod 512)) w (ram u), wflag := 1\<rparr>"
  have zx: "x\<lparr>ram := st_word (win x + of_nat ((?k + 2) mod 512)) (ucast (drop_bit 16 w)) (ram x), wflag := 1\<rparr> = z"
    unfolding near(2) by (simp add: x_def z_def st_dword_words ac_simps)
  note z = y0 [unfolded zx]
  have xv: "fat_step N v x"
    by (rule volume_step_trans [OF volume_step_mono [OF u(3)]]) (use x(1) in \<open>simp_all add: step_in_fat [OF u(3)]\<close>)
  have zv: "fat_step N v z"
    by (rule volume_step_trans [OF xv]) (use z(1) in \<open>simp add: step_in_fat [OF xv]\<close>)
  have run: "put_fat c val v = Some (FR_OK, z)"
    using c type u(1) b by (simp add: put_fat_def wide_sector word_sector z_def w_def uf)
  have "fat_entry z d = (if d = c then val AND 0x0FFFFFFF else fat_entry v d)" if d: "cluster v d" for d
  proof -
    have l: "4 * unat d + 3 < unat (fsize v) * 512" using entry_bounds(3) [OF assms(1) d type] by simp
    have tz: "fs_type z = FS_FAT32" by (simp add: volume_step_fields [OF zv] type)
    have bytes: "fat_byte z (4 * unat d + i) = (if d = c then
          (if i = 0 then ucast (ucast w :: u16) else if i = 1 then ucast (drop_bit 8 (ucast w :: u16))
           else if i = 2 then ucast (ucast (drop_bit 16 w) :: u16) else ucast (drop_bit 8 (ucast (drop_bit 16 w) :: u16)))
        else fat_byte v (4 * unat d + i))" if "i < 4" for i
    proof -
      have at: "4 * unat d + i = 4 * unat c + j \<longleftrightarrow> d = c \<and> i = j" if "j < 4" for j
        using that \<open>i < 4\<close> by (auto simp: word_unat_eq_iff) presburger+
      have lt: "4 * unat d + i < unat (fsize v) * 512" using l that by simp
      note zi = z(2) [of "4 * unat d + i"] and xi = x(2) [of "4 * unat d + i"]
        and ui = fat_byte_moved [OF ok u(3) lt]
      show ?thesis
      proof (cases "d = c")
        case True
        have "i = 0 \<or> i = 1 \<or> i = 2 \<or> i = 3" using that by auto
        then show ?thesis using zi xi ui lt True by (elim disjE) (simp_all add: uf xf)
      next
        case False
        have "4 * unat d + i \<noteq> 4 * unat c" "4 * unat d + i \<noteq> 4 * unat c + 1"
          "4 * unat d + i \<noteq> 4 * unat c + 2" "4 * unat d + i \<noteq> 4 * unat c + 2 + 1"
          using at [of 0] at [of 1] at [of 2] at [of 3] False by simp_all
        then show ?thesis using zi xi ui lt False by (simp only: uf xf if_False)
      qed
    qed
    show ?thesis
    proof (cases "d = c")
      case True
      have "fat_pair z (4 * unat c) = ucast (ucast w :: u16)"
        "fat_pair z (4 * unat c + 2) = ucast (ucast (drop_bit 16 w) :: u16)"
        using True bytes [of 0] bytes [of 1] bytes [of 2] bytes [of 3]
        by (simp_all add: fat_pair_def pair_word numeral_3_eq_3)
      then have "fat_entry z c = w AND 0x0FFFFFFF" by (simp only: fat_entry_words(2) [OF tz] words_dword)
      also have "\<dots> = val AND 0x0FFFFFFF" unfolding w_def by (rule upper_kept)
      finally show ?thesis using True by simp
    next
      case False
      then show ?thesis
        using bytes [of 0] bytes [of 1] bytes [of 2] bytes [of 3]
        by (simp add: fat_entry_words(2) [OF tz] fat_entry_words(2) [OF type] fat_pair_def numeral_3_eq_3)
    qed
  qed
  with run zv show ?thesis by blast
qed

text \<open>In all formats writing is the update of the abstract table: no other entry changes, also where two
  share a byte, and nothing outside of the FAT.\<close>

lemma put_fat_run:
  assumes "fat_ok N v" and "cluster v c"
  shows "\<exists>v'. put_fat c val v = Some (FR_OK, v') \<and> fat_step N v v' \<and> fat_ok N v'
    \<and> (\<forall>d. cluster v d \<longrightarrow> fat_entry v' d = (if d = c then val AND fat_mask v else fat_entry v d))"
proof -
  consider "fs_type v = FS_FAT12" "fat_mask v = 0xFFF" | "fs_type v = FS_FAT16" "fat_mask v = 0xFFFF"
    | "fs_type v = FS_FAT32" "fat_mask v = 0x0FFFFFFF"
    using assms(1) by (auto simp: fat_ok_def fat_mask_def)
  then have "\<exists>v'. put_fat c val v = Some (FR_OK, v') \<and> fat_step N v v'
      \<and> (\<forall>d. cluster v d \<longrightarrow> fat_entry v' d = (if d = c then val AND fat_mask v else fat_entry v d))"
  proof cases
    case 1
    then show ?thesis using put_fat12 [OF assms] by (simp only:)
  next
    case 2
    then show ?thesis using put_fat16 [OF assms] by (simp only:)
  next
    case 3
    then show ?thesis using put_fat32 [OF assms] by (simp only:)
  qed
  then show ?thesis using fat_step_ok [OF assms(1)] by blast
qed


text \<open>C20: \<open>get_fat\<close> after \<open>put_fat\<close>, in all three formats: the entry written is read back, cut to the width of the
  format, and every other entry reads as before, also one that shares a byte with it. Sectors outside of the
  FAT keep their contents, and the second FAT follows the first.\<close>

theorem get_fat_put_fat:
  assumes "fat_ok N v" and "cluster v c" and "cluster v d"
  shows "\<exists>v' v''. put_fat c val v = Some (FR_OK, v')
    \<and> get_fat d v' = Some (if d = c then val AND fat_mask v else fat_entry v d, v'')
    \<and> (\<forall>s i. unat s < N \<longrightarrow> \<not> second_fat v s \<longrightarrow> \<not> in_fat v s \<longrightarrow> i < 512 \<longrightarrow> sector_byte v'' s i = sector_byte v s i)
    \<and> (mirrored v \<longrightarrow> mirrored v'')"
proof -
  obtain v' where v': "put_fat c val v = Some (FR_OK, v')" "fat_step N v v'" "fat_ok N v'"
      "\<forall>d. cluster v d \<longrightarrow> fat_entry v' d = (if d = c then val AND fat_mask v else fat_entry v d)"
    using put_fat_run [OF assms(1,2)] by blast
  have "cluster v' d" using assms(3) by (simp add: cluster_def volume_step_fields(10) [OF v'(2)])
  from get_fat_run [OF v'(3) this]
  obtain w where w: "get_fat d v' = Some (fat_entry v' d, w)" "window_moved N v' w" by blast
  have step: "fat_step N v w"
    by (rule volume_step_trans [OF v'(2)]) (rule volume_step_mono [OF w(2)], simp)
  have "fat_entry v' d = (if d = c then val AND fat_mask v else fat_entry v d)" using v'(4) assms(3) by blast
  then show ?thesis
    using v'(1) w(1) volume_stepD(2,4) [OF step] by (intro exI [of _ v'] exI [of _ w]) simp
qed

text \<open>The table of the small volume.\<close>

lemma demo_at:
  assumes "k < 1024" and "unat a = 0xE0400200 + k"
  shows "demo_disk a = (if k = 3 then 0x03 else if k = 4 then 0xF0 else if k = 5 then 0xFF else 0)"
  using assms by (simp add: demo_disk_def word_unat_eq_iff)

lemma demo_byte: "k < 1024 \<Longrightarrow> fat_byte demo_volume k = (if k = 3 then 0x03 else if k = 4 then 0xF0 else if k = 5 then 0xFF else 0)"
proof -
  assume k: "k < 1024"
  then have "k < unat (fsize demo_volume) * 512" by (simp add: demo_volume_def)
  note s = unat_fat_sector [OF demo_volume_ok this]
  have "unat (fat_sector demo_volume k) = 1 + k div 512" using s(1) by (simp add: demo_volume_def)
  moreover have "k mod 512 < 512" "(1 + k div 512) * 512 + k mod 512 = 512 + k" by simp_all
  ultimately have at: "unat (sector_address (fat_sector demo_volume k) + of_nat (k mod 512)) = 0xE0400200 + k"
    using k by (subst unat_sector_address) simp_all
  have "fat_sector demo_volume k \<noteq> winsect demo_volume" using s(4) by (auto simp: demo_volume_def)
  then have "fat_byte demo_volume k = demo_disk (sector_address (fat_sector demo_volume k) + of_nat (k mod 512))"
    by (simp add: fat_byte_def sector_byte_def disk_byte_def demo_volume_def)
  also have "\<dots> = (if k = 3 then 0x03 else if k = 4 then 0xF0 else if k = 5 then 0xFF else 0)"
    by (rule demo_at [OF k at])
  finally show ?thesis .
qed

lemma demo_fat_ok: "fat_ok 600 demo_volume"
  using demo_volume_ok
  by (simp add: fat_ok_def demo_volume_def max_entries_def table_bytes_def)

lemma demo_entries: "cluster demo_volume c \<Longrightarrow> fat_entry demo_volume c = (if c = 2 then 3 else if c = 3 then 0xFFF else 0)"
proof -
  assume "cluster demo_volume c"
  then have c: "2 \<le> unat c" "unat c < 500" by (simp_all add: cluster_def demo_volume_def word_le_nat_alt word_less_nat_alt)
  have type: "fs_type demo_volume = FS_FAT12" by (simp add: demo_volume_def)
  have k: "unat c + unat c div 2 + 1 < 1024" using c(2) by linarith
  consider "c = 2" | "c = 3" | "4 \<le> unat c"
    using c(1) by (cases "unat c = 2"; cases "unat c = 3") (auto simp: word_unat_eq_iff)
  then show ?thesis
  proof cases
    case 3
    then have "6 \<le> unat c + unat c div 2" by linarith
    moreover have "c \<noteq> 2" "c \<noteq> 3" using 3 by auto
    ultimately show ?thesis using k by (simp add: fat_entry_def type fat_pair_def demo_byte Let_def)
  qed (simp_all add: fat_entry_def type fat_pair_def demo_byte Let_def)
qed

theorem get_fat_put_fat_witness:
  "\<exists>v' v''. put_fat 3 0x2345 demo_volume = Some (FR_OK, v') \<and> get_fat 2 v' = Some (3, v'')"
proof -
  have "cluster demo_volume 2" "cluster demo_volume 3" by (simp_all add: cluster_def demo_volume_def)
  from get_fat_put_fat [OF demo_fat_ok this(2,1), of "0x2345"] demo_entries [OF this(1)]
  show ?thesis by auto
qed

end
