(* ===== verification/Fat_Chain.thy ===== *)
theory Fat_Chain
  imports Fat_Table
begin

text \<open>
  Chains of clusters in the FAT (\<open>remove_chain\<close> and \<open>create_chain\<close> of \<open>fatfs/ff.c\<close>). A file is a list of
  clusters linked in the table. The theorems say which entries the two functions change, that a chain
  is freed to its end, and that a cluster is found whenever one is free.
\<close>

section \<open>The functions\<close>

partial_function (option) remove_loop :: "u32 \<Rightarrow> fat_volume \<Rightarrow> (FRESULT \<times> fat_volume) option" where
  "remove_loop clst v = do {
     (nxt, v) \<leftarrow> get_fat clst v;
     if nxt = 0 then Some (FR_OK, v)
     else if nxt = 1 then Some (FR_INT_ERR, v)
     else if nxt = 0xFFFFFFFF then Some (FR_DISK_ERR, v)
     else do {
       (res, v) \<leftarrow> put_fat clst 0 v;
       if res \<noteq> FR_OK then Some (res, v)
       else do {
         let v = (if free_clst v < n_fatent v - 2
                  then v\<lparr>free_clst := free_clst v + 1, fsi_flag := fsi_flag v OR 1\<rparr> else v);
         if nxt < n_fatent v then remove_loop nxt v else Some (FR_OK, v)
       }
     }
   }"

definition remove_chain :: "u32 \<Rightarrow> u32 \<Rightarrow> fat_volume \<Rightarrow> (FRESULT \<times> fat_volume) option" where
  "remove_chain clst pclst v =
     (if clst < 2 \<or> clst \<ge> n_fatent v then Some (FR_INT_ERR, v)
      else do {
        (res, v) \<leftarrow> if pclst \<noteq> 0 then put_fat pclst 0xFFFFFFFF v else Some (FR_OK, v);
        if res \<noteq> FR_OK then Some (res, v) else remove_loop clst v
      })"

text \<open>The search for a free cluster behind \<open>ncl\<close>, round to \<open>scl\<close>. \<open>Inl\<close> is a value with which \<open>create_chain\<close>
  returns at once.\<close>

partial_function (option) find_free :: "u32 \<Rightarrow> u32 \<Rightarrow> fat_volume \<Rightarrow> ((u32 + u32) \<times> fat_volume) option" where
  "find_free scl ncl v =
     (let wrap = ncl + 1 \<ge> n_fatent v;
          ncl = (if wrap then 2 else ncl + 1)
      in if wrap \<and> ncl > scl then Some (Inl 0, v)
         else do {
           (cs, v) \<leftarrow> get_fat ncl v;
           if cs = 0 then Some (Inr ncl, v)
           else if cs = 1 \<or> cs = 0xFFFFFFFF then Some (Inl cs, v)
           else if ncl = scl then Some (Inl 0, v)
           else find_free scl ncl v
         })"

definition chain_start :: "u32 \<Rightarrow> fat_volume \<Rightarrow> ((u32 + u32) \<times> fat_volume) option" where
  "chain_start clst v =
     (if clst = 0 then
        (let scl = last_clst v in Some (Inr (if scl = 0 \<or> scl \<ge> n_fatent v then 1 else scl), v))
      else do {
        (cs, v) \<leftarrow> get_fat clst v;
        if cs < 2 then Some (Inl 1, v)
        else if cs = 0xFFFFFFFF then Some (Inl cs, v)
        else if cs < n_fatent v then Some (Inl cs, v)
        else Some (Inr clst, v)
      })"

definition chain_cluster :: "u32 \<Rightarrow> u32 \<Rightarrow> fat_volume \<Rightarrow> ((u32 + u32) \<times> fat_volume) option" where
  "chain_cluster clst scl v =
     (if scl = clst then do {
        let ncl = (if scl + 1 \<ge> n_fatent v then 2 else scl + 1);
        (cs, v) \<leftarrow> get_fat ncl v;
        if cs = 1 \<or> cs = 0xFFFFFFFF then Some (Inl cs, v)
        else if cs \<noteq> 0 then do {
          let cs = last_clst v;
          let scl = (if cs \<ge> 2 \<and> cs < n_fatent v then cs else scl);
          find_free scl scl v
        }
        else Some (Inr ncl, v)
      } else find_free scl scl v)"

definition create_chain :: "u32 \<Rightarrow> fat_volume \<Rightarrow> (u32 \<times> fat_volume) option" where
  "create_chain clst v = do {
     (start, v) \<leftarrow> chain_start clst v;
     case start of
       Inl r \<Rightarrow> Some (r, v)
     | Inr scl \<Rightarrow>
         if free_clst v = 0 then Some (0, v)
         else do {
           (found, v) \<leftarrow> chain_cluster clst scl v;
           case found of
             Inl r \<Rightarrow> Some (r, v)
           | Inr ncl \<Rightarrow> do {
               (res, v) \<leftarrow> put_fat ncl 0xFFFFFFFF v;
               (res, v) \<leftarrow> if res = FR_OK \<and> clst \<noteq> 0 then put_fat clst ncl v else Some (res, v);
               if res = FR_OK then do {
                 let v = v\<lparr>last_clst := ncl\<rparr>;
                 let v = (if free_clst v \<le> n_fatent v - 2 then v\<lparr>free_clst := free_clst v - 1\<rparr> else v);
                 Some (ncl, v\<lparr>fsi_flag := fsi_flag v OR 1\<rparr>)
               }
               else Some (if res = FR_DISK_ERR then 0xFFFFFFFF else 1, v)
             }
         }
   }"

section \<open>Chains\<close>

fun chain :: "fat_volume \<Rightarrow> u32 list \<Rightarrow> bool" where
  "chain v [] \<longleftrightarrow> False"
| "chain v [c] \<longleftrightarrow> cluster v c \<and> n_fatent v \<le> fat_entry v c"
| "chain v (c # d # cs) \<longleftrightarrow> cluster v c \<and> fat_entry v c = d \<and> chain v (d # cs)"

lemma chain_cluster_all: "chain v cs \<Longrightarrow> c \<in> set cs \<Longrightarrow> cluster v c"
  by (induction v cs rule: chain.induct) auto

lemma chain_hd: "chain v cs \<Longrightarrow> \<exists>ds. cs = hd cs # ds"
  by (cases cs) auto

text \<open>The head determines the chain, so no cluster occurs twice.\<close>

lemma chain_unique: "chain v (c # xs) \<Longrightarrow> chain v (c # ys) \<Longrightarrow> xs = ys"
proof (induction xs arbitrary: c ys)
  case Nil
  then show ?case using chain_cluster_all [of v ys "hd ys"] by (cases ys) (auto simp: cluster_def)
next
  case (Cons x xs)
  have x: "fat_entry v c = x" "chain v (x # xs)" "cluster v x" using Cons.prems(1) chain_cluster_all by auto
  show ?case
  proof (cases ys)
    case Nil
    then show ?thesis using Cons.prems(2) x by (auto simp: cluster_def)
  next
    case (Cons y zs)
    then show ?thesis using Cons.IH [of x zs] Cons.prems(2) x by auto
  qed
qed

lemma chain_suffix: "chain v (xs @ c # ys) \<Longrightarrow> chain v (c # ys)"
  by (induction v "xs @ c # ys" arbitrary: xs rule: chain.induct) (auto simp: Cons_eq_append_conv)

lemma chain_distinct: "chain v cs \<Longrightarrow> distinct cs"
proof (induction v cs rule: chain.induct)
  case (3 v c d cs)
  have "c \<notin> set (d # cs)"
  proof
    assume "c \<in> set (d # cs)"
    then obtain xs ys where "d # cs = xs @ c # ys" using split_list [of c "d # cs"] by blast
    moreover from this have "chain v (c # ys)" using chain_suffix [of v "c # xs" c ys] 3(2) by simp
    then have "d # cs = ys" using chain_unique [of v c "d # cs" ys] 3(2) by simp
    ultimately have "length (xs @ c # ys) = length ys" by simp
    then show False by simp
  qed
  then show ?case using 3 by simp
qed auto

lemma chain_cong:
  assumes "\<forall>c. cluster v c \<longrightarrow> c \<in> set cs \<longrightarrow> fat_entry v' c = fat_entry v c" and "n_fatent v' = n_fatent v"
  shows "chain v' cs = chain v cs"
  using assms(1)
proof (induction cs rule: induct_list012)
  case (3 c d cs)
  then show ?case using assms(2) by (auto simp: cluster_def)
qed (auto simp: cluster_def assms(2))


section \<open>Freeing a chain\<close>

text \<open>A change of the FAT and of what the volume remembers of free clusters.\<close>

definition hints :: "fat_volume \<Rightarrow> fat_volume \<Rightarrow> fat_volume" where
  "hints v v' = v\<lparr>last_clst := last_clst v', free_clst := free_clst v', fsi_flag := fsi_flag v'\<rparr>"

definition fat_change :: "nat \<Rightarrow> fat_volume \<Rightarrow> fat_volume \<Rightarrow> bool" where
  "fat_change N v v' \<longleftrightarrow> fat_step N (hints v v') v'"

lemma hints_fields [simp]:
  "fs_type (hints v w) = fs_type v" "n_fats (hints v w) = n_fats v" "fsize (hints v w) = fsize v"
  "fatbase (hints v w) = fatbase v" "database (hints v w) = database v" "csize (hints v w) = csize v"
  "dirbase (hints v w) = dirbase v" "n_rootdir (hints v w) = n_rootdir v" "volbase (hints v w) = volbase v"
  "pdrv (hints v w) = pdrv v" "drive (hints v w) = drive v" "fs_id (hints v w) = fs_id v"
  "n_fatent (hints v w) = n_fatent v" "ram (hints v w) = ram v" "win (hints v w) = win v"
  "winsect (hints v w) = winsect v" "wflag (hints v w) = wflag v" "free_clst (hints v w) = free_clst w"
  "last_clst (hints v w) = last_clst w" "fsi_flag (hints v w) = fsi_flag w" "stray (hints v w) = stray v"
  "hints (hints u v) w = hints u w" "hints u (hints v w) = hints u w"
  by (simp_all add: hints_def)

lemma hints_view [simp]:
  "sector_byte (hints v w) s i = sector_byte v s i" "second_fat (hints v w) s = second_fat v s"
  "in_fat (hints v w) s = in_fat v s" "cluster (hints v w) c = cluster v c" "fat_mask (hints v w) = fat_mask v"
  by (simp_all add: sector_byte_def second_fat_def in_fat_def cluster_def fat_mask_def)

lemma hints_fat [simp]: "fat_entry (hints v w) c = fat_entry v c"
  by (simp add: fat_entry_def fat_pair_def fat_byte_def fat_sector_def)

lemma hints_ok [simp]: "volume_ok N (hints v w) = volume_ok N v" "mirrored (hints v w) = mirrored v"
  "fat_ok N (hints v w) = fat_ok N v"
proof -
  show "volume_ok N (hints v w) = volume_ok N v" by (simp add: volume_ok_def drive_ok_def)
  then show "fat_ok N (hints v w) = fat_ok N v" by (simp add: fat_ok_def table_bytes_def max_entries_def)
  show "mirrored (hints v w) = mirrored v" by (simp add: mirrored_def)
qed

lemma fat_changeD:
  assumes "fat_change N v v'"
  shows "n_fatent v' = n_fatent v" "cluster v' = cluster v" "fat_mask v' = fat_mask v"
    "fat_ok N v \<Longrightarrow> fat_ok N v'" "fs_type v' = fs_type v"
proof -
  have step: "fat_step N (hints v v') v'" using assms by (simp add: fat_change_def)
  note f = volume_step_fields [OF step]
  show "n_fatent v' = n_fatent v" "fs_type v' = fs_type v" using f(1,10) by simp_all
  then show "cluster v' = cluster v" "fat_mask v' = fat_mask v"
    by (simp_all add: cluster_def fat_mask_def fun_eq_iff)
  show "fat_ok N v \<Longrightarrow> fat_ok N v'" using fat_step_ok [OF _ step] by simp
qed

lemma fat_change_refl: "volume_ok N v \<Longrightarrow> fat_change N v v"
  using volume_step_refl [of N "hints v v"] by (simp add: fat_change_def hints_def)

lemma hints_step:
  assumes "fat_step N (hints u v) v"
  shows "fat_step N (hints u w) (hints v w)"
  unfolding volume_step_def
proof (intro conjI allI impI)
  show "volume_ok N (hints v w)" using volume_stepD(1) [OF assms] by simp
  have "hints v w = hints ((hints u v)\<lparr>wflag := wflag v, winsect := winsect v, ram := ram v\<rparr>) w"
    by (rule arg_cong [OF volume_stepD(5) [OF assms]])
  then show "hints v w = (hints u w)\<lparr>wflag := wflag (hints v w), winsect := winsect (hints v w), ram := ram (hints v w)\<rparr>"
    by (simp add: hints_def)
  show "mirrored (hints v w)" if "mirrored (hints u w)" using volume_stepD(4) [OF assms] that by simp
qed (use volume_stepD(2,3) [OF assms] in simp_all)

lemma fat_change_trans [trans]:
  assumes "fat_change N u v" and "fat_change N v w"
  shows "fat_change N u w"
proof -
  have a: "fat_step N (hints u w) (hints v w)" using assms(1) by (intro hints_step) (simp add: fat_change_def)
  have "fat_step N (hints v w) w" using assms(2) by (simp add: fat_change_def)
  then have "volume_step N (in_fat (hints u w)) (hints v w) w" by (simp only: step_in_fat [OF a])
  from volume_step_trans [OF a this] show ?thesis by (simp add: fat_change_def)
qed

lemma fat_step_change: "fat_step N v v' \<Longrightarrow> fat_change N v v'"
proof -
  assume a: "fat_step N v v'"
  have "hints v v' = v" using volume_step_fields(4,8,9) [OF a] by (simp add: hints_def)
  with a show ?thesis by (simp add: fat_change_def)
qed

lemma window_moved_change: "window_moved N v v' \<Longrightarrow> fat_change N v v'"
  by (rule fat_step_change) (erule volume_step_mono, simp)

lemma hints_change: "volume_ok N v \<Longrightarrow> fat_change N v (hints v w)"
  using volume_step_refl [of N "hints v w"] by (simp add: fat_change_def)


lemma fat_entry_not_error: "fat_ok N v \<Longrightarrow> fat_entry v c \<noteq> 0xFFFFFFFF"
proof
  assume "fat_ok N v" and e: "fat_entry v c = 0xFFFFFFFF"
  have "\<not> bit (fat_entry v c) 31"
    unfolding fat_entry_def entry_masks by (auto simp: Let_def fat_pair_def bit_simps dest: bit_imp_le_length)
  moreover have "(0xFFFFFFFF :: u32) = mask 32" by (simp add: mask_eq_exp_minus_1)
  ultimately show False using e by (simp add: bit_simps)
qed

text \<open>The counter of free clusters stops at the number of clusters, and stays when it is not known.\<close>

definition count_freed :: "fat_volume \<Rightarrow> nat \<Rightarrow> nat" where
  "count_freed v k = (let n = unat (n_fatent v) - 2; f = unat (free_clst v) in if f \<le> n then min (f + k) n else f)"

lemma count_freed_Suc:
  "n_fatent v' = n_fatent v \<Longrightarrow> unat (free_clst v') = count_freed v 1 \<Longrightarrow> count_freed v' k = count_freed v (Suc k)"
  by (simp add: count_freed_def Let_def split: if_split_asm)

lemma put_then_change:
  assumes "fat_ok N v" and "cluster v c"
  shows "\<exists>v'. put_fat c val v = Some (FR_OK, v') \<and> fat_change N v v' \<and> fat_ok N v'
    \<and> (\<forall>d. cluster v d \<longrightarrow> fat_entry v' d = (if d = c then val AND fat_mask v else fat_entry v d))
    \<and> free_clst v' = free_clst v \<and> last_clst v' = last_clst v"
proof -
  obtain v' where v': "put_fat c val v = Some (FR_OK, v')" "fat_step N v v'" "fat_ok N v'"
      "\<forall>d. cluster v d \<longrightarrow> fat_entry v' d = (if d = c then val AND fat_mask v else fat_entry v d)"
    using put_fat_run [OF assms] by blast
  then show ?thesis using fat_step_change [OF v'(2)] volume_step_fields(8,9) [OF v'(2)] by blast
qed

lemma remove_loop_step:
  assumes "fat_ok N v" and "cluster v c" and "fat_entry v c \<noteq> 0" and "fat_entry v c \<noteq> 1"
  shows "\<exists>v'. remove_loop c v
      = (if fat_entry v c < n_fatent v then remove_loop (fat_entry v c) v' else Some (FR_OK, v'))
    \<and> fat_change N v v'
    \<and> (\<forall>d. cluster v d \<longrightarrow> fat_entry v' d = (if d = c then 0 else fat_entry v d))
    \<and> unat (free_clst v') = count_freed v 1 \<and> last_clst v' = last_clst v"
proof -
  obtain u where u: "get_fat c v = Some (fat_entry v c, u)" "window_moved N v u"
    using get_fat_run [OF assms(1,2)] by blast
  note uf = volume_step_fields [OF u(2)]
  have cu: "cluster u d = cluster v d" for d by (simp add: cluster_def uf(10))
  obtain w where w: "put_fat c 0 u = Some (FR_OK, w)" "fat_change N u w" "fat_ok N w"
      "\<forall>d. cluster u d \<longrightarrow> fat_entry w d = (if d = c then 0 AND fat_mask u else fat_entry u d)"
      "free_clst w = free_clst u" "last_clst w = last_clst u"
    using put_then_change [OF fat_step_ok [OF assms(1) u(2)]] assms(2) cu by blast
  define x where "x = (if free_clst w < n_fatent w - 2
    then w\<lparr>free_clst := free_clst w + 1, fsi_flag := fsi_flag w OR 1\<rparr> else w)"
  have xh: "x = hints w x" by (simp add: x_def hints_def)
  have "fat_change N w x" using hints_change [OF fat_ok_volume [OF w(3)], of x] xh by simp
  then have change: "fat_change N v x"
    using fat_change_trans [OF fat_change_trans [OF window_moved_change [OF u(2)] w(2)]] by blast
  have n: "n_fatent w = n_fatent v" using fat_changeD(1) [OF w(2)] uf(10) by simp
  then have nx: "n_fatent x = n_fatent v" using fat_changeD(1) [OF change] by simp
  have run: "remove_loop c v = (if fat_entry v c < n_fatent v then remove_loop (fat_entry v c) x else Some (FR_OK, x))"
    using assms(3,4) fat_entry_not_error [OF assms(1)] u(1) w(1) nx
    by (subst remove_loop.simps) (simp add: Let_def x_def [symmetric])
  have entries: "fat_entry x d = (if d = c then 0 else fat_entry v d)" if "cluster v d" for d
  proof -
    have "fat_entry x d = fat_entry w d" using hints_fat [of w x] xh by simp
    then show ?thesis using w(4) that cu fat_entry_moved [OF assms(1) u(2) that] by simp
  qed
  have "2 \<le> n_fatent v" using assms(2) by (auto simp: cluster_def)
  then have n2: "unat (n_fatent v - 2) = unat (n_fatent v) - 2" by (simp add: unat_sub)
  have fw: "free_clst w = free_clst v" "last_clst w = last_clst v" using w(5,6) uf(8,9) by simp_all
  have "unat (free_clst x) = count_freed v 1"
  proof (cases "free_clst v < n_fatent v - 2")
    case True
    then have "unat (free_clst v + 1) = Suc (unat (free_clst v))" by (rule unat_Suc_u32)
    moreover have "unat (free_clst v) < unat (n_fatent v) - 2" using True n2 by (simp add: word_less_nat_alt)
    ultimately show ?thesis using True by (simp add: x_def n fw count_freed_def Let_def)
  next
    case False
    then have "\<not> unat (free_clst v) < unat (n_fatent v) - 2" using n2 by (simp add: word_less_nat_alt)
    then show ?thesis using False by (simp add: x_def n fw count_freed_def Let_def)
  qed
  moreover have "last_clst x = last_clst v" by (simp add: x_def fw)
  ultimately show ?thesis using run change entries by blast
qed

lemma remove_loop_run:
  assumes "fat_ok N v" and "chain v (c # cs)"
  shows "\<exists>v'. remove_loop c v = Some (FR_OK, v') \<and> fat_change N v v'
    \<and> (\<forall>d. cluster v d \<longrightarrow> fat_entry v' d = (if d \<in> set (c # cs) then 0 else fat_entry v d))
    \<and> unat (free_clst v') = count_freed v (length (c # cs)) \<and> last_clst v' = last_clst v"
  using assms
proof (induction cs arbitrary: c v)
  case (Nil c v)
  then have c: "cluster v c" "n_fatent v \<le> fat_entry v c" by simp_all
  have "2 < fat_entry v c"
    by (rule less_le_trans [OF le_less_trans [of _ c] c(2)]) (use c(1) in \<open>simp_all add: cluster_def\<close>)
  then have "fat_entry v c \<noteq> 0" "fat_entry v c \<noteq> 1" "\<not> fat_entry v c < n_fatent v" using c(2) by auto
  then show ?case using remove_loop_step [OF Nil.prems(1) c(1)] by auto
next
  case (Cons d cs c v)
  have c: "cluster v c" "fat_entry v c = d" "chain v (d # cs)" using Cons.prems(2) by simp_all
  have d: "cluster v d" using c(3) by (intro chain_cluster_all) auto
  have "distinct (c # d # cs)" by (rule chain_distinct [OF Cons.prems(2)])
  then have dist: "c \<notin> set (d # cs)" by simp
  have "fat_entry v c \<noteq> 0" "fat_entry v c \<noteq> 1" "fat_entry v c < n_fatent v" using d c(2) by (auto simp: cluster_def word_le_nat_alt)
  then obtain u where u: "remove_loop c v = remove_loop d u" "fat_change N v u"
      "\<forall>e. cluster v e \<longrightarrow> fat_entry u e = (if e = c then 0 else fat_entry v e)"
      "unat (free_clst u) = count_freed v 1" "last_clst u = last_clst v"
    using remove_loop_step [OF Cons.prems(1) c(1)] c(2) by auto
  note uD = fat_changeD [OF u(2)]
  have "chain u (d # cs) = chain v (d # cs)" using u(3) dist uD(1) by (intro chain_cong) auto
  then have "chain u (d # cs)" using c(3) by simp
  from Cons.IH [OF uD(4) [OF Cons.prems(1)] this]
  obtain w where w: "remove_loop d u = Some (FR_OK, w)" "fat_change N u w"
      "\<forall>e. cluster u e \<longrightarrow> fat_entry w e = (if e \<in> set (d # cs) then 0 else fat_entry u e)"
      "unat (free_clst w) = count_freed u (length (d # cs))" "last_clst w = last_clst u" by blast
  have "\<forall>e. cluster v e \<longrightarrow> fat_entry w e = (if e \<in> set (c # d # cs) then 0 else fat_entry v e)"
    using u(3) w(3) uD(2) by auto
  moreover have "unat (free_clst w) = count_freed v (length (c # d # cs))"
    using w(4) count_freed_Suc [OF uD(1) u(4), of "length (d # cs)"] by simp
  ultimately show ?case using u(1,5) w(1,5) fat_change_trans [OF u(2) w(2)] by auto
qed

text \<open>The mark of an end.\<close>

lemma end_mark: "fat_ok N v \<Longrightarrow> n_fatent v \<le> 0xFFFFFFFF AND fat_mask v"
proof -
  assume "fat_ok N v"
  then have "unat (n_fatent v) \<le> unat (fat_mask v)"
    by (auto simp: fat_ok_def max_entries_def fat_mask_def)
  moreover have "0xFFFFFFFF AND fat_mask v = fat_mask v" by (simp add: fat_mask_def)
  ultimately show ?thesis by (simp add: word_le_nat_alt)
qed

lemma remove_chain_run:
  assumes "fat_ok N v" and "chain v cs" and "pclst \<noteq> 0 \<Longrightarrow> chain v (pclst # cs)"
  shows "\<exists>v'. remove_chain (hd cs) pclst v = Some (FR_OK, v') \<and> fat_change N v v'
    \<and> (\<forall>d. cluster v d \<longrightarrow> fat_entry v' d = (if d \<in> set cs then 0
         else if pclst \<noteq> 0 \<and> d = pclst then 0xFFFFFFFF AND fat_mask v else fat_entry v d))
    \<and> unat (free_clst v') = count_freed v (length cs) \<and> last_clst v' = last_clst v"
proof -
  obtain c ds where cs: "cs = c # ds" using chain_hd [OF assms(2)] by blast
  have c: "\<not> (c < 2 \<or> c \<ge> n_fatent v)"
    using chain_cluster_all [OF assms(2), of c] cs by (auto simp: cluster_def)
  show ?thesis
  proof (cases "pclst = 0")
    case True
    obtain u where "remove_loop c v = Some (FR_OK, u)" "fat_change N v u"
        "\<forall>d. cluster v d \<longrightarrow> fat_entry u d = (if d \<in> set (c # ds) then 0 else fat_entry v d)"
        "unat (free_clst u) = count_freed v (length (c # ds))" "last_clst u = last_clst v"
      using remove_loop_run [OF assms(1) assms(2) [unfolded cs]] by blast
    with True c show ?thesis by (intro exI [of _ u]) (simp add: remove_chain_def cs)
  next
    case False
    note ch = assms(3) [OF False]
    have p: "cluster v pclst" using ch by (rule chain_cluster_all) simp
    have "distinct (pclst # cs)" by (rule chain_distinct [OF ch])
    then have np: "pclst \<notin> set cs" by simp
    obtain u where u: "put_fat pclst 0xFFFFFFFF v = Some (FR_OK, u)" "fat_change N v u" "fat_ok N u"
        "\<forall>d. cluster v d \<longrightarrow> fat_entry u d = (if d = pclst then 0xFFFFFFFF AND fat_mask v else fat_entry v d)"
        "free_clst u = free_clst v" "last_clst u = last_clst v"
      using put_then_change [OF assms(1) p] by blast
    note uD = fat_changeD [OF u(2)]
    have "chain u cs = chain v cs" using u(4) np uD(1) by (intro chain_cong) auto
    then have "chain u (c # ds)" using assms(2) cs by simp
    from remove_loop_run [OF u(3) this]
    obtain w where w: "remove_loop c u = Some (FR_OK, w)" "fat_change N u w"
        "\<forall>d. cluster u d \<longrightarrow> fat_entry w d = (if d \<in> set (c # ds) then 0 else fat_entry u d)"
        "unat (free_clst w) = count_freed u (length (c # ds))" "last_clst w = last_clst u" by blast
    have "count_freed u k = count_freed v k" for k by (simp add: count_freed_def u(5) uD(1))
    moreover have "remove_chain (hd cs) pclst v = Some (FR_OK, w)"
      using c False u(1) w(1) by (simp add: remove_chain_def cs)
    moreover have "\<forall>d. cluster v d \<longrightarrow> fat_entry w d = (if d \<in> set cs then 0
         else if pclst \<noteq> 0 \<and> d = pclst then 0xFFFFFFFF AND fat_mask v else fat_entry v d)"
      using w(3) u(4) uD(2) False by (auto simp: cs)
    ultimately show ?thesis using w(4,5) u(6) fat_change_trans [OF u(2) w(2)] cs by auto
  qed
qed


section \<open>Finding a free cluster\<close>

text \<open>A table in which no entry has the reserved value 1; \<open>get_fat\<close> reports that as an error.\<close>

definition sane_table :: "fat_volume \<Rightarrow> bool" where
  "sane_table v \<longleftrightarrow> (\<forall>c. cluster v c \<longrightarrow> fat_entry v c \<noteq> 1)"

definition free_cluster :: "fat_volume \<Rightarrow> u32 \<Rightarrow> bool" where
  "free_cluster v c \<longleftrightarrow> cluster v c \<and> fat_entry v c = 0"

lemma moved_table:
  assumes "fat_ok N v" and "window_moved N v v'"
  shows "free_cluster v' c = free_cluster v c" "sane_table v' = sane_table v" "cluster v' c = cluster v c"
    "fat_ok N v'" "n_fatent v' = n_fatent v"
proof -
  have cl: "cluster v' d = cluster v d" for d
    by (simp add: cluster_def volume_step_fields(10) [OF assms(2)])
  then show "free_cluster v' c = free_cluster v c" "sane_table v' = sane_table v" "cluster v' c = cluster v c"
    using fat_entry_moved [OF assms] by (auto simp: free_cluster_def sane_table_def)
  show "fat_ok N v'" by (rule fat_step_ok [OF assms])
  show "n_fatent v' = n_fatent v" by (rule volume_step_fields(10) [OF assms(2)])
qed

text \<open>The clusters that the search has still to look at.\<close>

definition ahead :: "fat_volume \<Rightarrow> u32 \<Rightarrow> u32 \<Rightarrow> u32 \<Rightarrow> bool" where
  "ahead v scl ncl c \<longleftrightarrow> cluster v c \<and> (if scl \<le> ncl then ncl < c \<or> c \<le> scl else ncl < c \<and> c \<le> scl)"

lemma find_free_run:
  assumes "fat_ok N v" and "0 < scl" and "scl < n_fatent v" and "2 \<le> ncl \<or> ncl = scl"
    and "ncl < n_fatent v" and "2 < n_fatent v"
  shows "\<exists>r v'. find_free scl ncl v = Some (r, v') \<and> window_moved N v v'
    \<and> (case r of Inr c \<Rightarrow> ahead v scl ncl c \<and> free_cluster v c
       | Inl z \<Rightarrow> z = 0 \<and> (\<forall>c. ahead v scl ncl c \<longrightarrow> \<not> free_cluster v c) \<or> z = 1 \<and> \<not> sane_table v)"
  using assms
proof (induction "if scl \<le> ncl then unat (n_fatent v) - unat ncl + unat scl else unat scl - unat ncl"
    arbitrary: ncl v rule: less_induct)
  case (less ncl v)
  define p where "p = (if ncl + 1 \<ge> n_fatent v then 2 else ncl + 1)"
  have Suc: "unat (ncl + 1) = Suc (unat ncl)" by (rule unat_Suc_u32 [OF less.prems(5)])
  show ?case
  proof (cases "ncl + 1 \<ge> n_fatent v \<and> 2 > scl")
    case True
    then have "find_free scl ncl v = Some (Inl 0, v)"
      by (subst find_free.simps) (simp add: Let_def)
    moreover have "\<not> ahead v scl ncl c" for c
      using True Suc less.prems(5) by (auto simp: ahead_def cluster_def word_less_nat_alt word_le_nat_alt)
    ultimately show ?thesis using volume_step_refl [OF fat_ok_volume [OF less.prems(1)]] by auto
  next
    case False
    note no_wrap = False
    have p: "cluster v p"
      using less.prems(4,5,6) less.prems(2) Suc
      by (auto simp: p_def cluster_def word_less_nat_alt word_le_nat_alt)
    obtain u where u: "get_fat p v = Some (fat_entry v p, u)" "window_moved N v u"
      using get_fat_run [OF less.prems(1) p] by blast
    note m = moved_table [OF less.prems(1) u(2)]
    have e: "fat_entry v p \<noteq> 0xFFFFFFFF" using fat_entry_not_error [OF less.prems(1)] by auto
    have run: "find_free scl ncl v = (if fat_entry v p = 0 then Some (Inr p, u)
        else if fat_entry v p = 1 then Some (Inl 1, u) else if p = scl then Some (Inl 0, u) else find_free scl p u)"
      using False u(1) e by (subst find_free.simps) (auto simp: Let_def p_def)
    have next_ahead: "ahead v scl ncl c \<longleftrightarrow> c = p \<or> p \<noteq> scl \<and> ahead v scl p c" if "cluster v c" for c
      using that p False Suc less.prems(2,3,4,5)
      by (auto simp: ahead_def cluster_def p_def word_less_nat_alt word_le_nat_alt word_unat_eq_iff split: if_split_asm)
    show ?thesis
    proof (cases "fat_entry v p = 0 \<or> fat_entry v p = 1 \<or> p = scl")
      case True
      consider "fat_entry v p = 0" | "fat_entry v p = 1" | "fat_entry v p \<noteq> 0" "fat_entry v p \<noteq> 1" "p = scl"
        using True by auto
      then show ?thesis
      proof cases
        case 1
        then have "find_free scl ncl v = Some (Inr p, u)" "ahead v scl ncl p \<and> free_cluster v p"
          using run p next_ahead [OF p] by (auto simp: free_cluster_def)
        with u(2) show ?thesis by (intro exI [of _ "Inr p"] exI [of _ u]) simp
      next
        case 2
        then have "find_free scl ncl v = Some (Inl 1, u)" "\<not> sane_table v"
          using run p by (auto simp: sane_table_def)
        with u(2) show ?thesis by (intro exI [of _ "Inl 1"] exI [of _ u]) simp
      next
        case 3
        then have "find_free scl ncl v = Some (Inl 0, u)" using run by simp
        moreover from 3 have "\<not> free_cluster v c" if "ahead v scl ncl c" for c
          using that next_ahead [of c] by (auto simp: free_cluster_def)
        ultimately show ?thesis using u(2) by (intro exI [of _ "Inl 0"] exI [of _ u]) simp
      qed
    next
      case False
      have "2 \<le> p" "p < n_fatent u" using p m(5) by (auto simp: cluster_def)
      moreover have "(if scl \<le> p then unat (n_fatent u) - unat p + unat scl else unat scl - unat p)
          < (if scl \<le> ncl then unat (n_fatent v) - unat ncl + unat scl else unat scl - unat ncl)"
        using False no_wrap p Suc less.prems(2,3,4,5) m(5)
        by (auto simp: p_def cluster_def word_less_nat_alt word_le_nat_alt word_unat_eq_iff split: if_split_asm)
      ultimately obtain r w where w: "find_free scl p u = Some (r, w)" "window_moved N u w"
          "case r of Inr c \<Rightarrow> ahead u scl p c \<and> free_cluster u c
           | Inl z \<Rightarrow> z = 0 \<and> (\<forall>c. ahead u scl p c \<longrightarrow> \<not> free_cluster u c) \<or> z = 1 \<and> \<not> sane_table u"
        using less.hyps [of p u] less.prems m by (auto simp: m)
      have ah: "ahead u scl p c = ahead v scl p c" for c by (simp add: ahead_def m(3))
      have cl: "ahead v scl q c \<Longrightarrow> cluster v c" for q c by (simp add: ahead_def)
      have np: "\<not> free_cluster v p" using False by (simp add: free_cluster_def)
      have "find_free scl ncl v = Some (r, w)" using run False w(1) by simp
      moreover have "case r of Inr c \<Rightarrow> ahead v scl ncl c \<and> free_cluster v c
           | Inl z \<Rightarrow> z = 0 \<and> (\<forall>c. ahead v scl ncl c \<longrightarrow> \<not> free_cluster v c) \<or> z = 1 \<and> \<not> sane_table v"
        using w(3) next_ahead False cl np unfolding ah m(1) m(2) by (cases r) auto
      ultimately show ?thesis using volume_step_trans [OF u(2) w(2)] by blast
    qed
  qed
qed


lemma search_all: "\<lbrakk>0 < scl; cluster v c\<rbrakk> \<Longrightarrow> ahead v scl scl c"
  by (auto simp: ahead_def cluster_def)

section \<open>Making a chain longer\<close>

text \<open>The chain that ends in \<open>clst\<close>, or no chain at all for 0.\<close>

definition chain_end :: "fat_volume \<Rightarrow> u32 \<Rightarrow> bool" where
  "chain_end v clst \<longleftrightarrow> clst = 0 \<or> cluster v clst \<and> n_fatent v \<le> fat_entry v clst"

lemma chain_start_run:
  assumes "fat_ok N v" and "2 < n_fatent v" and "chain_end v clst"
  shows "\<exists>scl v'. chain_start clst v = Some (Inr scl, v') \<and> window_moved N v v' \<and> 0 < scl \<and> scl < n_fatent v
    \<and> (clst \<noteq> 0 \<longrightarrow> scl = clst)"
proof (cases "clst = 0")
  case True
  let ?scl = "if last_clst v = 0 \<or> last_clst v \<ge> n_fatent v then 1 else last_clst v"
  have "(1 :: u32) < n_fatent v" by (rule less_trans [OF _ assms(2)]) simp
  then have "0 < ?scl" "?scl < n_fatent v" by (auto simp: word_neq_0_conv)
  then show ?thesis
    using True volume_step_refl [OF fat_ok_volume [OF assms(1)]]
    by (intro exI [of _ ?scl] exI [of _ v]) (simp add: chain_start_def Let_def)
next
  case False
  then have c: "cluster v clst" "n_fatent v \<le> fat_entry v clst" using assms(3) by (auto simp: chain_end_def)
  obtain u where u: "get_fat clst v = Some (fat_entry v clst, u)" "window_moved N v u"
    using get_fat_run [OF assms(1) c(1)] by blast
  have "2 < fat_entry v clst" by (rule less_le_trans [OF assms(2) c(2)])
  then have "\<not> fat_entry v clst < 2" "\<not> fat_entry v clst < n_fatent v" using c(2) by auto
  then have "chain_start clst v = Some (Inr clst, u)"
    using False u(1) c(2) fat_entry_not_error [OF assms(1)] volume_step_fields(10) [OF u(2)]
    by (simp add: chain_start_def)
  moreover have "0 < clst" "clst < n_fatent v" using False c(1) by (simp_all add: cluster_def word_neq_0_conv)
  ultimately show ?thesis using u(2) by blast
qed

text \<open>The cluster chosen: the one behind \<open>clst\<close> when it is free, otherwise some free one, and none only when
  there is none.\<close>

lemma chain_cluster_run:
  assumes "fat_ok N v" and "2 < n_fatent v" and "0 < scl" and "scl < n_fatent v"
  shows "\<exists>r v'. chain_cluster clst scl v = Some (r, v') \<and> window_moved N v v'
    \<and> (case r of Inr c \<Rightarrow> free_cluster v c \<and> (scl = clst \<and> free_cluster v (scl + 1) \<longrightarrow> c = scl + 1)
       | Inl z \<Rightarrow> z = 0 \<and> (\<forall>c. \<not> free_cluster v c) \<or> z = 1 \<and> \<not> sane_table v)"
proof -
  have search: "\<exists>r v'. find_free s s u = Some (r, v') \<and> window_moved N v v'
      \<and> (case r of Inr c \<Rightarrow> free_cluster v c | Inl z \<Rightarrow> z = 0 \<and> (\<forall>c. \<not> free_cluster v c) \<or> z = 1 \<and> \<not> sane_table v)"
    if u: "window_moved N v u" and s: "0 < s" "s < n_fatent v" for s u
  proof -
    note m = moved_table [OF assms(1) u]
    have pre: "s < n_fatent u" "2 < n_fatent u" using m assms(2) s by simp_all
    obtain r w where w: "find_free s s u = Some (r, w)" "window_moved N u w"
        "case r of Inr c \<Rightarrow> ahead u s s c \<and> free_cluster u c
         | Inl z \<Rightarrow> z = 0 \<and> (\<forall>c. ahead u s s c \<longrightarrow> \<not> free_cluster u c) \<or> z = 1 \<and> \<not> sane_table u"
      using find_free_run [OF m(4) s(1) pre(1) _ pre(1,2)] by blast
    have "case r of Inr c \<Rightarrow> free_cluster v c | Inl z \<Rightarrow> z = 0 \<and> (\<forall>c. \<not> free_cluster v c) \<or> z = 1 \<and> \<not> sane_table v"
    proof (cases r)
      case (Inl z)
      have "\<not> free_cluster v c" if "z \<noteq> 1" for c
      proof
        assume "free_cluster v c"
        then have "free_cluster u c" "cluster u c" by (simp_all add: m(1,3)) (simp add: free_cluster_def)
        then show False using w(3) search_all [OF s(1)] Inl that by auto
      qed
      then show ?thesis using w(3) Inl by (auto simp: m(2))
    next
      case (Inr c)
      then show ?thesis using w(3) by (simp add: m(1))
    qed
    with w(1) volume_step_trans [OF u w(2)] show ?thesis by blast
  qed
  show ?thesis
  proof (cases "scl = clst")
    case False
    from search [OF volume_step_refl [OF fat_ok_volume [OF assms(1)]] assms(3,4)]
    obtain r v' where "find_free scl scl v = Some (r, v')" "window_moved N v v'"
        "case r of Inr c \<Rightarrow> free_cluster v c | Inl z \<Rightarrow> z = 0 \<and> (\<forall>c. \<not> free_cluster v c) \<or> z = 1 \<and> \<not> sane_table v" by blast
    then show ?thesis using False
      by (intro exI [of _ r] exI [of _ v']) (simp add: chain_cluster_def split: sum.splits)
  next
    case True
    define p where "p = (if scl + 1 \<ge> n_fatent v then 2 else scl + 1)"
    have Suc: "unat (scl + 1) = Suc (unat scl)" by (rule unat_Suc_u32 [OF assms(4)])
    have p: "cluster v p"
      using assms(2,3) Suc by (auto simp: p_def cluster_def word_less_nat_alt word_le_nat_alt)
    have p1: "p = scl + 1" if "free_cluster v (scl + 1)" using that by (auto simp: p_def free_cluster_def cluster_def)
    obtain u where u: "get_fat p v = Some (fat_entry v p, u)" "window_moved N v u"
      using get_fat_run [OF assms(1) p] by blast
    note uf = volume_step_fields(8,10) [OF u(2)]
    have e: "fat_entry v p \<noteq> 0xFFFFFFFF" using fat_entry_not_error [OF assms(1)] by auto
    consider "fat_entry v p = 0" | "fat_entry v p = 1" | "fat_entry v p \<noteq> 0" "fat_entry v p \<noteq> 1" by auto
    then show ?thesis
    proof cases
      case 1
      then have "chain_cluster clst scl v = Some (Inr p, u)"
        using \<open>scl = clst\<close> u(1)
        by (cases "scl + 1 \<ge> n_fatent v") (simp_all add: chain_cluster_def Let_def p_def)
      then show ?thesis using u(2) p p1 1
        by (intro exI [of _ "Inr p"] exI [of _ u]) (auto simp: free_cluster_def)
    next
      case 2
      then have "chain_cluster clst scl v = Some (Inl 1, u)"
        using \<open>scl = clst\<close> u(1)
        by (cases "scl + 1 \<ge> n_fatent v") (simp_all add: chain_cluster_def Let_def p_def)
      moreover have "\<not> sane_table v" using p 2 by (auto simp: sane_table_def)
      ultimately show ?thesis using u(2) by (intro exI [of _ "Inl 1"] exI [of _ u]) simp
    next
      case 3
      define s where "s = (if last_clst v \<ge> 2 \<and> last_clst v < n_fatent v then last_clst v else scl)"
      have "0 < s" "s < n_fatent v"
        using assms(3,4) by (auto simp: s_def word_less_nat_alt word_le_nat_alt)
      from search [OF u(2) this]
      obtain r w where w: "find_free s s u = Some (r, w)" "window_moved N v w"
          "case r of Inr c \<Rightarrow> free_cluster v c | Inl z \<Rightarrow> z = 0 \<and> (\<forall>c. \<not> free_cluster v c) \<or> z = 1 \<and> \<not> sane_table v" by blast
      have "chain_cluster clst scl v = Some (r, w)"
        using \<open>scl = clst\<close> u(1) 3 e w(1) uf
        by (cases "scl + 1 \<ge> n_fatent v") (auto simp: chain_cluster_def Let_def p_def s_def split: if_splits)
      moreover have "\<not> free_cluster v (scl + 1)" using 3 p1 by (auto simp: free_cluster_def)
      ultimately show ?thesis using w(2,3) by (intro exI [of _ r] exI [of _ w]) (simp split: sum.splits)
    qed
  qed
qed


text \<open>\<open>create_chain\<close> at the end of a chain, or for a new one.\<close>

definition linked :: "fat_volume \<Rightarrow> u32 \<Rightarrow> u32 \<Rightarrow> u32 \<Rightarrow> u32" where
  "linked v clst ncl d = (if d = ncl then 0xFFFFFFFF AND fat_mask v else if d = clst then ncl else fat_entry v d)"

lemma mask_of_cluster: "fat_ok N v \<Longrightarrow> cluster v c \<Longrightarrow> c AND fat_mask v = c"
proof -
  assume ok: "fat_ok N v" and "cluster v c"
  then have c: "unat c < max_entries v" by (simp add: fat_ok_def cluster_def word_less_nat_alt)
  obtain k where k: "fat_mask v = mask k" "max_entries v < 2 ^ k" "k \<le> 28"
  proof -
    have "fat_mask v = mask 12 \<and> max_entries v < 2 ^ 12 \<or> fat_mask v = mask 16 \<and> max_entries v < 2 ^ 16
        \<or> fat_mask v = mask 28 \<and> max_entries v < 2 ^ 28"
      using ok by (auto simp: fat_ok_def fat_mask_def max_entries_def entry_masks)
    then show thesis using that by (elim disjE) auto
  qed
  have "unat c < 2 ^ k" using c k(2) by simp
  then have "take_bit k c = c" by (simp add: word_unat_eq_iff unsigned_take_bit_eq take_bit_nat_eq_self)
  then show ?thesis by (simp add: k(1) take_bit_eq_mask [symmetric])
qed

lemma create_chain_run:
  assumes "fat_ok N v" and "2 < n_fatent v" and "chain_end v clst"
  shows "\<exists>r v'. create_chain clst v = Some (r, v') \<and>
    (if 2 \<le> r
     then free_clst v \<noteq> 0 \<and> free_cluster v r \<and> fat_change N v v' \<and> last_clst v' = r
       \<and> (\<forall>d. cluster v d \<longrightarrow> fat_entry v' d = linked v clst r d)
       \<and> free_clst v' = (if free_clst v \<le> n_fatent v - 2 then free_clst v - 1 else free_clst v)
       \<and> (clst \<noteq> 0 \<and> free_cluster v (clst + 1) \<longrightarrow> r = clst + 1)
     else window_moved N v v'
       \<and> (r = 0 \<and> (free_clst v = 0 \<or> (\<forall>c. \<not> free_cluster v c))
          \<or> r = 1 \<and> free_clst v \<noteq> 0 \<and> \<not> sane_table v))"
proof -
  obtain scl u where u: "chain_start clst v = Some (Inr scl, u)" "window_moved N v u" "0 < scl" "scl < n_fatent v"
      "clst \<noteq> 0 \<longrightarrow> scl = clst"
    using chain_start_run [OF assms(1,2,3)] by blast
  note mu = moved_table [OF assms(1) u(2)]
  have preu: "2 < n_fatent u" "scl < n_fatent u" using mu assms(2) u(4) by simp_all
  show ?thesis
  proof (cases "free_clst v = 0")
    case True
    then have "create_chain clst v = Some (0, u)"
      using u(1) volume_step_fields(9) [OF u(2)] by (simp add: create_chain_def)
    with u(2) True show ?thesis by (intro exI [of _ 0] exI [of _ u]) simp
  next
    case counted: False
  obtain r w where w: "chain_cluster clst scl u = Some (r, w)" "window_moved N u w"
      "case r of Inr c \<Rightarrow> free_cluster u c \<and> (scl = clst \<and> free_cluster u (scl + 1) \<longrightarrow> c = scl + 1)
       | Inl z \<Rightarrow> z = 0 \<and> (\<forall>c. \<not> free_cluster u c) \<or> z = 1 \<and> \<not> sane_table u"
    using chain_cluster_run [OF mu(4) preu(1) u(3) preu(2)] by blast
  have vw: "window_moved N v w" by (rule volume_step_trans [OF u(2) w(2)])
  note mw = moved_table [OF assms(1) vw] and vf = volume_step_fields(8,9) [OF vw]
  have fu: "free_clst u \<noteq> 0" using counted volume_step_fields(9) [OF u(2)] by simp
  show ?thesis
  proof (cases r)
    case (Inl z)
    then have "create_chain clst v = Some (z, w)" using u(1) w(1) fu by (simp add: create_chain_def)
    moreover have "z = 0 \<and> (\<forall>c. \<not> free_cluster v c) \<or> z = 1 \<and> \<not> sane_table v"
      using w(3) Inl by (simp add: mu(1,2))
    moreover from this have "\<not> 2 \<le> z" by (auto simp: word_le_nat_alt)
    ultimately show ?thesis using vw counted by (intro exI [of _ z] exI [of _ w]) simp
  next
    case (Inr ncl)
    then have free: "free_cluster v ncl" "clst \<noteq> 0 \<and> free_cluster v (clst + 1) \<longrightarrow> ncl = clst + 1"
      using w(3) u(5) by (auto simp: mu(1))
    then have cn: "cluster v ncl" "cluster w ncl" by (simp_all add: free_cluster_def mw(3))
    obtain x where x: "put_fat ncl 0xFFFFFFFF w = Some (FR_OK, x)" "fat_change N w x" "fat_ok N x"
        "\<forall>d. cluster w d \<longrightarrow> fat_entry x d = (if d = ncl then 0xFFFFFFFF AND fat_mask w else fat_entry w d)"
        "free_clst x = free_clst w" "last_clst x = last_clst w"
      using put_then_change [OF mw(4) cn(2)] by blast
    have mask: "fat_mask w = fat_mask v" using volume_step_fields(1) [OF vw] by (simp add: fat_mask_def)
    have ent: "fat_entry w d = fat_entry v d" if "cluster v d" for d by (rule fat_entry_moved [OF assms(1) vw that])
    have clx: "cluster x d = cluster v d" for d using fat_changeD(2) [OF x(2)] mw(3) by simp
    have nx: "n_fatent x = n_fatent v" using fat_changeD(1) [OF x(2)] mw(5) by simp
    have "\<exists>y. (if clst \<noteq> 0 then put_fat clst ncl x else Some (FR_OK, x)) = Some (FR_OK, y) \<and> fat_change N x y
        \<and> (\<forall>d. cluster v d \<longrightarrow> fat_entry y d = linked v clst ncl d) \<and> free_clst y = free_clst v"
    proof (cases "clst = 0")
      case True
      have "fat_entry x d = linked v clst ncl d" if "cluster v d" for d
      proof -
        have "d \<noteq> clst" using that True by (auto simp: cluster_def)
        then show ?thesis using that x(4) ent by (simp add: linked_def mw(3) mask)
      qed
      with True show ?thesis
        using fat_change_refl [OF fat_ok_volume [OF x(3)]] x(5) vf by auto
    next
      case False
      then have c: "cluster v clst" "n_fatent v \<le> fat_entry v clst" using assms(3) by (auto simp: chain_end_def)
      then have "clst \<noteq> ncl" using free(1) by (auto simp: free_cluster_def cluster_def word_le_nat_alt word_less_nat_alt)
      obtain y where y: "put_fat clst ncl x = Some (FR_OK, y)" "fat_change N x y"
          "\<forall>d. cluster x d \<longrightarrow> fat_entry y d = (if d = clst then ncl AND fat_mask x else fat_entry x d)"
          "free_clst y = free_clst x"
        using put_then_change [OF x(3), of clst ncl] c(1) clx by blast
      have "ncl AND fat_mask x = ncl" using mask_of_cluster [OF x(3)] clx cn(1) by simp
      then have "fat_entry y d = linked v clst ncl d" if "cluster v d" for d
        using that y(3) x(4) ent \<open>clst \<noteq> ncl\<close> by (auto simp: linked_def mw(3) mask clx)
      with False y x(5) vf show ?thesis by auto
    qed
    then obtain y where y: "(if clst \<noteq> 0 then put_fat clst ncl x else Some (FR_OK, x)) = Some (FR_OK, y)"
        "fat_change N x y" "\<forall>d. cluster v d \<longrightarrow> fat_entry y d = linked v clst ncl d" "free_clst y = free_clst v"
      by blast
    define z where "z = (let v = y\<lparr>last_clst := ncl\<rparr>;
        v = (if free_clst v \<le> n_fatent v - 2 then v\<lparr>free_clst := free_clst v - 1\<rparr> else v)
        in v\<lparr>fsi_flag := fsi_flag v OR 1\<rparr>)"
    have ny: "n_fatent y = n_fatent v" using fat_changeD(1) [OF y(2)] nx by simp
    have zh: "z = hints y z" by (simp add: z_def hints_def Let_def)
    have zf: "last_clst z = ncl" "free_clst z = (if free_clst v \<le> n_fatent v - 2 then free_clst v - 1 else free_clst v)"
      by (simp_all add: z_def Let_def y(4) ny)
    have run: "create_chain clst v = Some (ncl, z)"
      using u(1) w(1) Inr fu x(1) y(1) by (simp add: create_chain_def z_def Let_def)
    have oky: "volume_ok N y" using fat_changeD(4) [OF y(2) x(3)] by (rule fat_ok_volume)
    have "fat_change N y z" using hints_change [OF oky, of z] zh by simp
    then have change: "fat_change N v z"
      using fat_change_trans [OF fat_change_trans [OF window_moved_change [OF vw] x(2)] y(2)] fat_change_trans by blast
    have "fat_entry z d = linked v clst ncl d" if "cluster v d" for d
      using hints_fat [of y z] zh y(3) that by simp
    moreover have "2 \<le> ncl" using cn(1) by (simp add: cluster_def)
    ultimately show ?thesis using run free change zf counted by (intro exI [of _ ncl] exI [of _ z]) auto
  qed
  qed
qed


section \<open>Properties\<close>

text \<open>C22: \<open>remove_chain\<close> frees exactly the clusters of the chain it is given, ends the chain before it with the
  mark of an end, leaves every other entry and every sector outside of the FAT alone, and counts the clusters
  as free. So every other chain of the volume stays a chain.\<close>

theorem remove_chain_frees:
  assumes "fat_ok N v" and "chain v cs" and "pclst = 0 \<or> chain v (pclst # cs)"
  shows "\<exists>v'. remove_chain (hd cs) pclst v = Some (FR_OK, v') \<and> fat_ok N v'
    \<and> (\<forall>d. cluster v d \<longrightarrow> fat_entry v' d = (if d \<in> set cs then 0
         else if pclst \<noteq> 0 \<and> d = pclst then 0xFFFFFFFF AND fat_mask v else fat_entry v d))
    \<and> unat (free_clst v') = count_freed v (length cs)
    \<and> (pclst \<noteq> 0 \<longrightarrow> chain v' [pclst])
    \<and> (\<forall>ds. chain v ds \<longrightarrow> set ds \<inter> set (pclst # cs) = {} \<longrightarrow> chain v' ds)
    \<and> (\<forall>s i. unat s < N \<longrightarrow> \<not> second_fat v s \<longrightarrow> \<not> in_fat v s \<longrightarrow> i < 512 \<longrightarrow> sector_byte v' s i = sector_byte v s i)"
proof -
  obtain v' where v': "remove_chain (hd cs) pclst v = Some (FR_OK, v')" "fat_change N v v'"
      "\<forall>d. cluster v d \<longrightarrow> fat_entry v' d = (if d \<in> set cs then 0
         else if pclst \<noteq> 0 \<and> d = pclst then 0xFFFFFFFF AND fat_mask v else fat_entry v d)"
      "unat (free_clst v') = count_freed v (length cs)"
    using remove_chain_run [OF assms(1,2), of pclst] assms(3) by blast
  note D = fat_changeD [OF v'(2)]
  have step: "fat_step N (hints v v') v'" using v'(2) by (simp add: fat_change_def)
  have view: "sector_byte v' s i = sector_byte v s i"
    if "unat s < N" "\<not> second_fat v s" "\<not> in_fat v s" "i < 512" for s i
    using volume_stepD(2) [OF step] that by simp
  have other: "chain v' ds" if ds: "chain v ds" "set ds \<inter> set (pclst # cs) = {}" for ds
  proof -
    have "chain v' ds = chain v ds" using v'(3) ds(2) D(1) by (intro chain_cong) auto
    with ds(1) show ?thesis by simp
  qed
  have "chain v' [pclst]" if p: "pclst \<noteq> 0"
  proof -
    have ch: "chain v (pclst # cs)" using assms(3) p by simp
    then have "cluster v pclst" by (rule chain_cluster_all) simp
    moreover have "pclst \<notin> set cs" using chain_distinct [OF ch] by simp
    ultimately show ?thesis using v'(3) p end_mark [OF assms(1)] D(1,2) by simp
  qed
  with v' D(4) [OF assms(1)] view other show ?thesis by (intro exI [of _ v'] conjI) blast+
qed

text \<open>C21: \<open>create_chain\<close> at the end of a chain, in every case. When the volume counts no free cluster it
  returns 0. Otherwise it makes the chain longer by a cluster that was free, the one behind the end if that is
  free: the result is the chain with it at its end, and all other chains and entries stay. It returns 0 only
  when no cluster is counted or none is free, and the internal error 1 only on a table that has an entry of the
  reserved value 1; then at most the window has moved.\<close>

theorem create_chain_extends:
  assumes "fat_ok N v" and "chain v (cs @ [clst])"
  shows "\<exists>r v'. create_chain clst v = Some (r, v') \<and> fat_ok N v' \<and>
    (if 2 \<le> r
     then free_clst v \<noteq> 0 \<and> free_cluster v r \<and> chain v' (cs @ [clst, r]) \<and> last_clst v' = r
       \<and> free_clst v' = (if free_clst v \<le> n_fatent v - 2 then free_clst v - 1 else free_clst v)
       \<and> (free_cluster v (clst + 1) \<longrightarrow> r = clst + 1)
       \<and> (\<forall>d. cluster v d \<longrightarrow> d \<noteq> r \<longrightarrow> d \<noteq> clst \<longrightarrow> fat_entry v' d = fat_entry v d)
       \<and> (\<forall>ds. chain v ds \<longrightarrow> clst \<notin> set ds \<longrightarrow> chain v' ds)
     else window_moved N v v'
       \<and> (r = 0 \<and> (free_clst v = 0 \<or> (\<forall>c. \<not> free_cluster v c))
          \<or> r = 1 \<and> free_clst v \<noteq> 0 \<and> \<not> sane_table v))"
proof -
  have all: "cluster v c" if "c \<in> set (cs @ [clst])" for c using chain_cluster_all [OF assms(2) that] .
  have last: "cluster v clst" "n_fatent v \<le> fat_entry v clst"
    using chain_suffix [OF assms(2)] by simp_all
  then have ch_end: "chain_end v clst" and nz: "clst \<noteq> 0" by (auto simp: chain_end_def cluster_def)
  have n: "2 < n_fatent v" by (rule le_less_trans [of _ clst]) (use last(1) in \<open>simp_all add: cluster_def\<close>)
  obtain r v' where run: "create_chain clst v = Some (r, v')"
    and post: "if 2 \<le> r
     then free_clst v \<noteq> 0 \<and> free_cluster v r \<and> fat_change N v v' \<and> last_clst v' = r
       \<and> (\<forall>d. cluster v d \<longrightarrow> fat_entry v' d = linked v clst r d)
       \<and> free_clst v' = (if free_clst v \<le> n_fatent v - 2 then free_clst v - 1 else free_clst v)
       \<and> (clst \<noteq> 0 \<and> free_cluster v (clst + 1) \<longrightarrow> r = clst + 1)
     else window_moved N v v'
       \<and> (r = 0 \<and> (free_clst v = 0 \<or> (\<forall>c. \<not> free_cluster v c))
          \<or> r = 1 \<and> free_clst v \<noteq> 0 \<and> \<not> sane_table v)"
    using create_chain_run [OF assms(1) n ch_end] by blast
  show ?thesis
  proof (cases "2 \<le> r")
    case False
    then have "window_moved N v v'" using post by simp
    with run False post show ?thesis
      using moved_table(4) [OF assms(1)] by (intro exI [of _ r] exI [of _ v']) simp
  next
    case True
    then have counted: "free_clst v \<noteq> 0"
        "free_clst v' = (if free_clst v \<le> n_fatent v - 2 then free_clst v - 1 else free_clst v)"
      using post by simp_all
    from True have r: "free_cluster v r" "fat_change N v v'" "last_clst v' = r" "free_cluster v (clst + 1) \<longrightarrow> r = clst + 1"
        "\<forall>d. cluster v d \<longrightarrow> fat_entry v' d = linked v clst r d"
      using post nz by simp_all
    note D = fat_changeD [OF r(2)]
    have not_free: "r \<notin> set ds" if "chain v ds" for ds
    proof
      assume "r \<in> set ds"
      then obtain xs ys where "ds = xs @ r # ys" by (auto dest: split_list)
      then have "chain v (r # ys)" using that chain_suffix by blast
      then show False using r(1) n chain_cluster_all [of v "r # ys" "hd ys"]
        by (cases ys) (auto simp: free_cluster_def cluster_def)
    qed
    have other: "chain v' ds" if ds: "chain v ds" "clst \<notin> set ds" for ds
    proof -
      have "chain v' ds = chain v ds"
        using r(5) ds(2) not_free [OF ds(1)] D(1) by (intro chain_cong) (auto simp: linked_def)
      with ds(1) show ?thesis by simp
    qed
    have ne: "r \<noteq> clst" using not_free [OF assms(2)] by auto
    have "distinct (cs @ [clst])" by (rule chain_distinct [OF assms(2)])
    then have "clst \<notin> set cs" by simp
    have ends: "fat_entry v' clst = r" "n_fatent v' \<le> fat_entry v' r" "cluster v' r" "cluster v' clst"
      using r(1,5) last(1) ne end_mark [OF assms(1)] D(1,2) by (auto simp: linked_def free_cluster_def)
    have "chain v' (ds @ [clst, r])" if "chain v (ds @ [clst])" "clst \<notin> set ds" for ds
      using that
    proof (induction ds)
      case (Cons d ds)
      then have tail: "chain v (ds @ [clst])" "cluster v d" "d \<noteq> clst"
        by (auto intro: chain_suffix [of v "[d]"] simp: chain_cluster_all)
          (cases ds; simp)+
      have "d \<noteq> r" using not_free [OF Cons.prems(1)] by auto
      then have "fat_entry v' d = fat_entry v d" using r(5) tail(2,3) by (simp add: linked_def)
      then show ?case
        using Cons.prems(1) Cons.IH [OF tail(1)] Cons.prems(2) tail(2) D(2) by (cases ds) auto
    qed (use ends in simp)
    then have "chain v' (cs @ [clst, r])" using assms(2) \<open>clst \<notin> set cs\<close> by blast
    with run True counted r D(4) [OF assms(1)] other show ?thesis
      by (intro exI [of _ r] exI [of _ v']) (auto simp: linked_def)
  qed
qed

lemma demo_chain: "chain demo_volume [2, 3]" "sane_table demo_volume"
proof -
  have c: "cluster demo_volume 2" "cluster demo_volume 3" by (simp_all add: cluster_def demo_volume_def)
  then show "chain demo_volume [2, 3]" by (simp add: demo_entries) (simp add: demo_volume_def)
  show "sane_table demo_volume" by (simp add: sane_table_def demo_entries)
qed

theorem remove_chain_frees_witness:
  "\<exists>v'. remove_chain 2 0 demo_volume = Some (FR_OK, v') \<and> fat_entry v' 2 = 0 \<and> fat_entry v' 3 = 0"
proof -
  have "cluster demo_volume 2" "cluster demo_volume 3" by (simp_all add: cluster_def demo_volume_def)
  then show ?thesis using remove_chain_frees [OF demo_fat_ok demo_chain(1), of 0] by auto
qed

theorem create_chain_extends_witness:
  "\<exists>v'. create_chain 3 demo_volume = Some (4, v') \<and> chain v' [2, 3, 4]"
proof -
  have free: "free_cluster demo_volume 4"
  proof -
    have "cluster demo_volume 4" by (simp add: cluster_def demo_volume_def)
    then show ?thesis by (simp add: free_cluster_def demo_entries)
  qed
  have counted: "free_clst demo_volume \<noteq> 0" by (simp add: demo_volume_def)
  have ch: "chain demo_volume ([2] @ [3])" unfolding append.simps by (rule demo_chain(1))
  obtain r v' where r: "create_chain 3 demo_volume = Some (r, v')"
    and post: "if 2 \<le> r
      then chain v' ([2] @ [3, r]) \<and> (free_cluster demo_volume (3 + 1) \<longrightarrow> r = 3 + 1) else False"
    using create_chain_extends [OF demo_fat_ok ch] counted free demo_chain(2) by (auto split: if_splits)
  have "chain v' ([2] @ [3, r])" "free_cluster demo_volume (3 + 1) \<longrightarrow> r = 3 + 1"
    using post by presburger+
  moreover from this(2) have four: "r = 4" using free by simp
  ultimately have "chain v' [2, 3, 4]" by (simp only: four append.simps)
  with r show ?thesis unfolding four by blast
qed

end
