(* ===== verification/Fat_File.thy ===== *)
theory Fat_File
  imports Fat_Chain
begin

text \<open>
  Reading a file (\<open>validate\<close> and \<open>f_read\<close> of \<open>fatfs/ff.c\<close>). A file is a chain of clusters; its bytes go from the
  disk straight into the buffer of the caller where whole sectors are asked for, and through the buffer of the
  file object otherwise. \<open>f_read_bytes\<close> shows that the caller gets the bytes of the file at its position.
\<close>

section \<open>Data\<close>

definition FA_DIRTY :: u8 where "FA_DIRTY = 0x80"

text \<open>The object identifier is part of the record. There is one volume, so its pointer to the volume is whether
  it is not null; \<open>buf\<close> is the address of the array.\<close>

record FIL =
  obj_fs :: bool
  obj_id :: u16
  obj_attr :: u8
  obj_stat :: u8
  sclust :: u32
  objsize :: u32
  flag :: u8
  err :: FRESULT
  fptr :: u32
  clust :: u32
  sect :: u32
  dir_sect :: u32
  dir_ptr :: u32
  buf :: u32

section \<open>The functions\<close>

definition validate :: "FIL \<Rightarrow> fat_volume \<Rightarrow> FRESULT" where
  "validate fp v =
     (if obj_fs fp \<and> fs_type v \<noteq> 0 \<and> obj_id fp = fs_id v
      then (if disk_status (pdrv v) (drive v) AND STA_NOINIT = 0 then FR_OK else FR_INVALID_OBJECT)
      else FR_INVALID_OBJECT)"

text \<open>The parts of one turn of the loop of \<open>f_read\<close>: the cluster, the sector in the buffer of the file, and the
  bytes from there. A result of \<open>Inl\<close> is an error with which the loop ends, \<open>Inr\<close> the number of bytes.\<close>

definition read_cluster :: "u32 \<Rightarrow> FIL \<Rightarrow> fat_volume \<Rightarrow> (FRESULT \<times> FIL \<times> fat_volume) option" where
  "read_cluster csect fp v =
     (if csect = 0 then do {
        (clst, v) \<leftarrow> if fptr fp = 0 then Some (sclust fp, v) else get_fat (clust fp) v;
        if clst < 2 then Some (FR_INT_ERR, fp, v)
        else if clst = 0xFFFFFFFF then Some (FR_DISK_ERR, fp, v)
        else Some (FR_OK, fp\<lparr>clust := clst\<rparr>, v)
      } else Some (FR_OK, fp, v))"

definition fill_buffer :: "u32 \<Rightarrow> FIL \<Rightarrow> fat_volume \<Rightarrow> (FRESULT \<times> FIL \<times> fat_volume) option" where
  "fill_buffer sc fp v =
     (if sect fp \<noteq> sc then do {
        (res, fp, v) \<leftarrow> if flag fp AND FA_DIRTY \<noteq> 0 then do {
            (r, v) \<leftarrow> drive_write (buf fp) (sect fp) 1 v;
            if r \<noteq> RES_OK then Some (FR_DISK_ERR, fp, v)
            else Some (FR_OK, fp\<lparr>flag := flag fp AND NOT FA_DIRTY\<rparr>, v)
          } else Some (FR_OK, fp, v);
        if res \<noteq> FR_OK then Some (res, fp, v)
        else do {
          (r, v) \<leftarrow> drive_read (buf fp) sc 1 v;
          Some (if r \<noteq> RES_OK then FR_DISK_ERR else FR_OK, fp, v)
        }
      } else Some (FR_OK, fp, v))"

definition read_partial :: "u32 \<Rightarrow> u32 \<Rightarrow> FIL \<Rightarrow> fat_volume \<Rightarrow> ((FRESULT + u32) \<times> FIL \<times> fat_volume) option" where
  "read_partial rbuff btr fp v = do {
     let rcnt = SS - fptr fp mod SS;
     let rcnt = (if rcnt > btr then btr else rcnt);
     m \<leftarrow> memcpy rbuff (buf fp + fptr fp mod SS) (sint rcnt) (ram v);
     Some (Inr rcnt, fp, v\<lparr>ram := m\<rparr>)
   }"

definition read_sectors :: "u32 \<Rightarrow> u32 \<Rightarrow> u32 \<Rightarrow> FIL \<Rightarrow> fat_volume \<Rightarrow> ((FRESULT + u32) \<times> FIL \<times> fat_volume) option" where
  "read_sectors rbuff sc cc fp v = do {
     (r, v) \<leftarrow> drive_read rbuff sc cc v;
     if r \<noteq> RES_OK then Some (Inl FR_DISK_ERR, fp, v)
     else do {
       m \<leftarrow> if flag fp AND FA_DIRTY \<noteq> 0 \<and> sect fp - sc < cc
            then memcpy (rbuff + (sect fp - sc) * SS) (buf fp) 512 (ram v) else Some (ram v);
       Some (Inr (SS * cc), fp, v\<lparr>ram := m\<rparr>)
     }
   }"

definition read_step :: "u32 \<Rightarrow> u32 \<Rightarrow> FIL \<Rightarrow> fat_volume \<Rightarrow> ((FRESULT + u32) \<times> FIL \<times> fat_volume) option" where
  "read_step rbuff btr fp v =
     (if fptr fp mod SS = 0 then do {
        let csect = fptr fp div SS AND (ucast (csize v) - 1);
        (res, fp, v) \<leftarrow> read_cluster csect fp v;
        if res \<noteq> FR_OK then Some (Inl res, fp, v)
        else if clst2sect v (clust fp) = 0 then Some (Inl FR_INT_ERR, fp, v)
        else do {
          let sc = clst2sect v (clust fp) + csect;
          let cc = btr div SS;
          if cc > 0 then read_sectors rbuff sc (if csect + cc > ucast (csize v) then ucast (csize v) - csect else cc) fp v
          else do {
            (res, fp, v) \<leftarrow> fill_buffer sc fp v;
            if res \<noteq> FR_OK then Some (Inl res, fp, v)
            else read_partial rbuff btr (fp\<lparr>sect := sc\<rparr>) v
          }
        }
      }
      else read_partial rbuff btr fp v)"

partial_function (option) read_loop :: "u32 \<Rightarrow> u32 \<Rightarrow> u32 \<Rightarrow> FIL \<Rightarrow> fat_volume
    \<Rightarrow> (FRESULT \<times> u32 \<times> FIL \<times> fat_volume) option" where
  "read_loop rbuff btr br fp v =
     (if btr = 0 then Some (FR_OK, br, fp, v)
      else do {
        (out, fp, v) \<leftarrow> read_step rbuff btr fp v;
        case out of
          Inl res \<Rightarrow> Some (res, br, fp\<lparr>err := res\<rparr>, v)
        | Inr rcnt \<Rightarrow> read_loop (rbuff + rcnt) (btr - rcnt) (br + rcnt) (fp\<lparr>fptr := fptr fp + rcnt\<rparr>) v
      })"

definition f_read :: "u32 \<Rightarrow> u32 \<Rightarrow> FIL \<Rightarrow> fat_volume \<Rightarrow> (FRESULT \<times> u32 \<times> FIL \<times> fat_volume) option" where
  "f_read buff btr fp v =
     (let res = validate fp v;
          remain = objsize fp - fptr fp
      in if res \<noteq> FR_OK then Some (res, 0, fp, v)
         else if err fp \<noteq> FR_OK then Some (err fp, 0, fp, v)
         else if flag fp AND FA_READ = 0 then Some (FR_DENIED, 0, fp, v)
         else read_loop buff (if btr > remain then remain else btr) 0 fp v)"


section \<open>Buffers and the view\<close>

text \<open>Steps after which the volume shows the same, whatever happened to buffers.\<close>

definition view_kept :: "nat \<Rightarrow> fat_volume \<Rightarrow> fat_volume \<Rightarrow> bool" where
  "view_kept N v v' \<longleftrightarrow> volume_ok N v' \<and> v' = v\<lparr>wflag := wflag v', winsect := winsect v', ram := ram v'\<rparr>
     \<and> (\<forall>s i. unat s < N \<longrightarrow> \<not> second_fat v s \<longrightarrow> i < 512 \<longrightarrow> sector_byte v' s i = sector_byte v s i)"

lemma view_keptD:
  assumes "view_kept N v v'"
  shows "volume_ok N v'" "unat s < N \<Longrightarrow> \<not> second_fat v s \<Longrightarrow> i < 512 \<Longrightarrow> sector_byte v' s i = sector_byte v s i"
    "v' = v\<lparr>wflag := wflag v', winsect := winsect v', ram := ram v'\<rparr>"
  using assms by (auto simp: view_kept_def)

lemma view_kept_fields:
  assumes "view_kept N v v'"
  shows "fs_type v' = fs_type v" "n_fats v' = n_fats v" "csize v' = csize v" "n_fatent v' = n_fatent v"
    "fsize v' = fsize v" "fatbase v' = fatbase v" "database v' = database v" "win v' = win v"
    "drive v' = drive v" "pdrv v' = pdrv v" "fs_id v' = fs_id v" "second_fat v' s = second_fat v s" "in_fat v' s = in_fat v s"
    "cluster v' c = cluster v c" "clst2sect v' c = clst2sect v c"
  by (subst view_keptD(3) [OF assms], simp add: second_fat_def in_fat_def cluster_def clst2sect_def Let_def)+

lemma window_moved_view: "window_moved N v v' \<Longrightarrow> view_kept N v v'"
  by (simp add: volume_step_def view_kept_def)

lemma view_kept_refl: "volume_ok N v \<Longrightarrow> view_kept N v v"
  by (simp add: view_kept_def)

lemma view_kept_trans [trans]:
  assumes "view_kept N u v" and "view_kept N v w"
  shows "view_kept N u w"
  unfolding view_kept_def
proof (intro conjI allI impI)
  show "volume_ok N w" by (rule view_keptD(1) [OF assms(2)])
  show "w = u\<lparr>wflag := wflag w, winsect := winsect w, ram := ram w\<rparr>"
    by (subst view_keptD(3) [OF assms(2)], subst view_keptD(3) [OF assms(1)]) simp
  show "sector_byte w s i = sector_byte u s i" if "unat s < N" "\<not> second_fat u s" "i < 512" for s i
    using that view_keptD(2) [OF assms(1)] view_keptD(2) [OF assms(2)] view_kept_fields(12) [OF assms(1)] by simp
qed

definition apart :: "u32 \<Rightarrow> nat \<Rightarrow> u32 \<Rightarrow> nat \<Rightarrow> bool" where
  "apart a m b n \<longleftrightarrow> unat a + m \<le> unat b \<or> unat b + n \<le> unat a"

text \<open>Memory written in a buffer apart from the window.\<close>

lemma view_buffer:
  assumes "volume_ok N v" and "buffer_ok b n" and "apart b n (win v) 512"
    and "\<forall>a. unat a < unat b \<or> unat b + n \<le> unat a \<longrightarrow> m a = ram v a"
  shows "view_kept N v (v\<lparr>ram := m\<rparr>)"
proof -
  have disk: "disk_byte m t i = disk_byte (ram v) t i" if "unat t < N" "i < 512" for t i
  proof -
    have "unat t * 512 + i < 0x1FC00000" using sector_small [OF assms(1) that(1)] that(2) by simp
    then have "unat b + n \<le> unat (sector_address t + of_nat i)"
      using assms(2) by (simp add: unat_sector_address buffer_ok_def)
    then show ?thesis using assms(4) by (simp add: disk_byte_def)
  qed
  have win: "m (win v + of_nat i) = ram v (win v + of_nat i)" if "i < 512" for i
  proof -
    have "unat (win v) + 512 \<le> 0xE0400000" using volume_okD(2) [OF assms(1)] by (simp add: buffer_ok_def)
    note e = unat_buffer [OF this that]
    have "unat (win v + of_nat i) < unat b \<or> unat b + n \<le> unat (win v + of_nat i)"
      unfolding e using assms(3) that by (auto simp: apart_def)
    then show ?thesis using assms(4) by blast
  qed
  have "volume_ok N (v\<lparr>ram := m\<rparr>)"
    using assms(1) disk win by (cases "wflag v = 0") (auto simp: volume_ok_def drive_ok_def second_fat_def)
  then show ?thesis using disk win by (simp add: view_kept_def sector_byte_def)
qed

section \<open>The bytes of a file\<close>

text \<open>The clusters lie behind the FAT and on the disk; their size is a power of two.\<close>

definition data_ok :: "nat \<Rightarrow> fat_volume \<Rightarrow> bool" where
  "data_ok N v \<longleftrightarrow> (\<exists>p\<le>7. csize v = 2 ^ p) \<and> unat (fatbase v) + unat (n_fats v) * unat (fsize v) \<le> unat (database v)
     \<and> unat (database v) + unat (csize v) * (unat (n_fatent v) - 2) \<le> N"

definition cluster_bytes :: "fat_volume \<Rightarrow> nat" where
  "cluster_bytes v = unat (csize v) * 512"

definition file_sector :: "fat_volume \<Rightarrow> u32 list \<Rightarrow> nat \<Rightarrow> u32" where
  "file_sector v cs k = clst2sect v (cs ! (k div cluster_bytes v)) + of_nat (k mod cluster_bytes v div 512)"

definition file_byte :: "fat_volume \<Rightarrow> u32 list \<Rightarrow> nat \<Rightarrow> u8" where
  "file_byte v cs k = sector_byte v (file_sector v cs k) (k mod 512)"

lemma unat_ucast16: "unat (ucast (w :: u16) :: u32) = unat w"
proof -
  have "unat w < 2 ^ LENGTH(32)" using unat_lt_two_power [of w] by simp
  then show ?thesis by (simp only: unsigned_ucast_eq take_bit_nat_eq_self)
qed

lemma csize_bounds:
  assumes "data_ok N v"
  shows "0 < unat (csize v)" "unat (csize v) \<le> 128"
    "x AND (ucast (csize v) - 1) = (of_nat (unat (x :: u32) mod unat (csize v)) :: u32)"
proof -
  obtain p where p: "p \<le> 7" "csize v = 2 ^ p" using assms by (auto simp: data_ok_def)
  have "(2 :: nat) ^ p \<le> 2 ^ 7" using p(1) by (rule power_increasing) simp
  then have n: "(2 :: nat) ^ p \<le> 128" by simp
  have pow: "unat (2 ^ p :: u16) = 2 ^ p" "unat (2 ^ p :: u32) = 2 ^ p"
  proof -
    have "(2 ^ p :: u16) = of_nat (2 ^ p)" "(2 ^ p :: u32) = of_nat (2 ^ p)" by simp_all
    then show "unat (2 ^ p :: u16) = 2 ^ p" "unat (2 ^ p :: u32) = 2 ^ p"
      using n by (simp_all only: unat_of_nat) simp_all
  qed
  have u: "unat (csize v) = 2 ^ p" using p(2) pow(1) by simp
  then show "0 < unat (csize v)" "unat (csize v) \<le> 128" using n by simp_all
  have "(ucast (csize v) :: u32) = 2 ^ p" using pow(2) by (simp add: word_unat_eq_iff unat_ucast16 u)
  then have "x AND (ucast (csize v) - 1) = take_bit p x" by (simp add: take_bit_eq_mask mask_eq_exp_minus_1)
  moreover have "unat (take_bit p x) = unat x mod 2 ^ p" unfolding unsigned_take_bit_eq by (rule take_bit_eq_mod)
  ultimately show "x AND (ucast (csize v) - 1) = (of_nat (unat x mod unat (csize v)) :: u32)"
    using of_nat_eq u by metis
qed

lemma cluster_sector:
  assumes "data_ok N v" and "volume_ok N v" and "cluster v c"
  shows "unat (clst2sect v c) + unat (csize v) \<le> N" "unat (database v) \<le> unat (clst2sect v c)"
proof -
  have c: "2 \<le> unat c" "unat c < unat (n_fatent v)"
    using assms(3) by (simp_all add: cluster_def word_le_nat_alt word_less_nat_alt)
  have bd: "unat (database v) + unat (csize v) * (unat (n_fatent v) - 2) \<le> N" "N \<le> 0xFE000"
    using assms(1,2) by (auto simp: data_ok_def volume_ok_def drive_ok_def)
  have "Suc (unat c - 2) \<le> unat (n_fatent v) - 2" using c by simp
  then have "unat (csize v) * Suc (unat c - 2) \<le> unat (csize v) * (unat (n_fatent v) - 2)" by (rule mult_le_mono2)
  then have le: "unat (database v) + (unat (csize v) * (unat c - 2) + unat (csize v)) \<le> N" using bd(1) by simp
  have "2 \<le> c" "2 \<le> n_fatent v" using c by (simp_all add: word_le_nat_alt)
  then have d: "unat (c - 2) = unat c - 2" "unat (n_fatent v - 2) = unat (n_fatent v) - 2" by (simp_all add: unat_sub)
  have "\<not> n_fatent v - 2 \<le> c - 2" unfolding word_le_nat_alt d using c by linarith
  then have "clst2sect v c = database v + ucast (csize v) * (c - 2)" by (simp add: clst2sect_def)
  moreover have "unat (ucast (csize v) * (c - 2) :: u32) = unat (csize v) * (unat c - 2)"
    using le bd(2) by (subst unat_u32_mult) (simp_all add: unat_ucast16 d)
  ultimately have "unat (clst2sect v c) = unat (database v) + unat (csize v) * (unat c - 2)"
    using le bd(2) by (simp add: unat_u32_add)
  with le show "unat (clst2sect v c) + unat (csize v) \<le> N" "unat (database v) \<le> unat (clst2sect v c)" by simp_all
qed

text \<open>The sectors of a file: on the disk, behind the FAT.\<close>

lemma file_sector_ok:
  assumes "data_ok N v" and "volume_ok N v" and "chain v cs" and "k < length cs * cluster_bytes v"
  shows "unat (file_sector v cs k) = unat (clst2sect v (cs ! (k div cluster_bytes v))) + k mod cluster_bytes v div 512"
    "unat (file_sector v cs k) < N" "0 < unat (file_sector v cs k)" "\<not> in_fat v (file_sector v cs k)"
    "\<not> second_fat v (file_sector v cs k)"
    "unat (clst2sect v (cs ! (k div cluster_bytes v))) + unat (csize v) \<le> N"
proof -
  have cb: "0 < cluster_bytes v" using csize_bounds(1) [OF assms(1)] by (simp add: cluster_bytes_def)
  have "k div cluster_bytes v < length cs" using assms(4) by (simp add: less_mult_imp_div_less)
  then have "cluster v (cs ! (k div cluster_bytes v))" using chain_cluster_all [OF assms(3)] by simp
  note c = cluster_sector [OF assms(1,2) this]
  show "unat (clst2sect v (cs ! (k div cluster_bytes v))) + unat (csize v) \<le> N" by (rule c(1))
  have "k mod cluster_bytes v < unat (csize v) * 512" using cb by (simp add: cluster_bytes_def)
  then have o: "k mod cluster_bytes v div 512 < unat (csize v)" by (simp add: div_less_iff_less_mult)
  have N: "N \<le> 0xFE000" "0 < unat (fatbase v)" "n_fats v = 1 \<or> n_fats v = 2"
    using assms(2) by (auto simp: volume_ok_def drive_ok_def)
  have "unat (of_nat (k mod cluster_bytes v div 512) :: u32) = k mod cluster_bytes v div 512"
    using o csize_bounds(2) [OF assms(1)] by (intro unat_u32_of_nat) simp
  then show eq: "unat (file_sector v cs k) = unat (clst2sect v (cs ! (k div cluster_bytes v))) + k mod cluster_bytes v div 512"
    using c(1) o N(1) by (simp add: file_sector_def unat_u32_add)
  have "unat (fatbase v) + unat (n_fats v) * unat (fsize v) \<le> unat (database v)" using assms(1) by (simp add: data_ok_def)
  then show "unat (file_sector v cs k) < N" "0 < unat (file_sector v cs k)" "\<not> in_fat v (file_sector v cs k)"
      "\<not> second_fat v (file_sector v cs k)"
    using c o N(2,3) by (auto simp: eq in_fat_def second_fat_def)
qed

text \<open>Positions further on in the same cluster.\<close>

lemma div_mod_add: "r + k < b \<Longrightarrow> (q * b + r + k) div b = q \<and> (q * b + r + k) mod b = r + (k :: nat)"
  unfolding add.assoc by simp

lemma sector_split: "(x + k) div 512 = x div 512 + (x mod 512 + k) div (512 :: nat)"
proof -
  have "((x mod 512 + k) + x div 512 * 512) div 512 = x div 512 + (x mod 512 + k) div 512"
    by (rule div_mult_self1) simp
  moreover have "(x mod 512 + k) + x div 512 * 512 = x + k" by simp
  ultimately show ?thesis by (simp only:)
qed

lemma file_sector_near:
  assumes "data_ok N v" and "p mod cluster_bytes v + k < cluster_bytes v"
  shows "(p + k) div cluster_bytes v = p div cluster_bytes v"
    "file_sector v cs (p + k) = file_sector v cs p + of_nat ((p mod 512 + k) div 512)"
proof -
  let ?b = "cluster_bytes v"
  have q: "(p + k) div ?b = p div ?b" and m: "(p + k) mod ?b = p mod ?b + k"
    using div_mod_add [OF assms(2), of "p div ?b"] by simp_all
  then show "(p + k) div ?b = p div ?b" by simp
  have "512 dvd ?b" by (simp add: cluster_bytes_def)
  then have "p mod ?b mod 512 = p mod 512" by (rule mod_mod_cancel)
  then have "(p mod ?b + k) div 512 = p mod ?b div 512 + (p mod 512 + k) div 512"
    using sector_split [of "p mod ?b" k] by (simp only:)
  then show "file_sector v cs (p + k) = file_sector v cs p + of_nat ((p mod 512 + k) div 512)"
    unfolding file_sector_def q m by simp
qed


text \<open>A file that can be read from the disk: no sector of it waits in the window.\<close>

definition settled :: "fat_volume \<Rightarrow> u32 list \<Rightarrow> bool" where
  "settled v cs \<longleftrightarrow> (wflag v \<noteq> 0 \<longrightarrow> (\<forall>k < length cs * cluster_bytes v. winsect v \<noteq> file_sector v cs k))"

definition on_file :: "nat \<Rightarrow> fat_volume \<Rightarrow> u32 list \<Rightarrow> bool" where
  "on_file N v cs \<longleftrightarrow> fat_ok N v \<and> data_ok N v \<and> chain v cs \<and> settled v cs"

lemma on_fileD:
  assumes "on_file N v cs"
  shows "fat_ok N v" "data_ok N v" "chain v cs" "settled v cs" "volume_ok N v"
  using assms by (auto simp: on_file_def fat_ok_def)

lemma settled_disk:
  assumes "on_file N v cs" and "k < length cs * cluster_bytes v" and "i < 512"
  shows "disk_byte (ram v) (file_sector v cs k) i = sector_byte v (file_sector v cs k) i"
  using assms(2,3) on_fileD(4,5) [OF assms(1)] file_sector_ok(2) [OF on_fileD(2,5,3) [OF assms(1)] assms(2)]
  by (cases "wflag v = 0") (auto simp: sector_byte_def settled_def volume_ok_def)

lemma file_sector_view:
  assumes "view_kept N v v'"
  shows "file_sector v' cs k = file_sector v cs k" "cluster_bytes v' = cluster_bytes v"
  by (simp_all add: file_sector_def cluster_bytes_def view_kept_fields [OF assms])

lemma fat_entry_bytes:
  assumes "fat_ok N v" and "cluster v c" and "fs_type v' = fs_type v"
    and "\<And>k. k < unat (fsize v) * 512 \<Longrightarrow> fat_byte v' k = fat_byte v k"
  shows "fat_entry v' c = fat_entry v c"
  using entry_bounds [OF assms(1,2)] assms(1,3,4) by (auto simp: fat_entry_def fat_pair_def fat_ok_def Let_def)

lemma fat_entry_view:
  assumes "fat_ok N v" and "view_kept N v v'" and "cluster v c"
  shows "fat_entry v' c = fat_entry v c"
proof (rule fat_entry_bytes [OF assms(1,3) view_kept_fields(1) [OF assms(2)]])
  show "fat_byte v' k = fat_byte v k" if "k < unat (fsize v) * 512" for k
    using view_keptD(2) [OF assms(2)] unat_fat_sector [OF fat_ok_volume [OF assms(1)] that]
    by (simp add: fat_byte_def fat_sector_def view_kept_fields [OF assms(2)])
qed

lemma on_file_view:
  assumes "on_file N v cs" and "view_kept N v v'"
    and "wflag v' = 0 \<or> in_fat v (winsect v') \<or> wflag v' = wflag v \<and> winsect v' = winsect v"
  shows "on_file N v' cs" "k < length cs * cluster_bytes v \<Longrightarrow> file_byte v' cs k = file_byte v cs k"
proof -
  note D = on_fileD [OF assms(1)] and f = view_kept_fields [OF assms(2)]
  note sec = file_sector_ok [OF D(2,5,3)]
  have "fat_ok N v'" using D(1) view_keptD(1) [OF assms(2)]
    unfolding fat_ok_def max_entries_def table_bytes_def f by blast
  moreover have "data_ok N v'" using D(2) unfolding data_ok_def f .
  moreover have "chain v' cs = chain v cs"
    using fat_entry_view [OF D(1) assms(2)] f(4) by (intro chain_cong) auto
  moreover have "settled v' cs"
    using assms(3) D(4) sec(4) unfolding settled_def file_sector_view [OF assms(2)] by auto
  ultimately show "on_file N v' cs" using D(3) by (simp add: on_file_def)
  show "file_byte v' cs k = file_byte v cs k" if "k < length cs * cluster_bytes v"
    using view_keptD(2) [OF assms(2) sec(2) [OF that] sec(5) [OF that]]
    by (simp add: file_byte_def file_sector_view [OF assms(2)])
qed

text \<open>The buffer of the file holds its sector.\<close>

definition buf_loaded :: "nat \<Rightarrow> FIL \<Rightarrow> fat_volume \<Rightarrow> bool" where
  "buf_loaded N fp v \<longleftrightarrow> (sect fp \<noteq> 0 \<longrightarrow> unat (sect fp) < N \<and> \<not> second_fat v (sect fp)
     \<and> (\<forall>i<512. ram v (buf fp + of_nat i) = sector_byte v (sect fp) i))"

lemma below_block: "(q + 1) * 512 \<le> c * 512 \<Longrightarrow> x = q * 512 + r \<Longrightarrow> r + k < 512 \<Longrightarrow> x + k < c * (512 :: nat)"
  by simp

lemma within_cluster:
  assumes "data_ok N v" and "p mod 512 + k < 512"
  shows "p mod cluster_bytes v + k < cluster_bytes v"
proof -
  have "512 dvd cluster_bytes v" by (simp add: cluster_bytes_def)
  then have m: "p mod cluster_bytes v mod 512 = p mod 512" by (rule mod_mod_cancel)
  have "0 < cluster_bytes v" using csize_bounds(1) [OF assms(1)] by (simp add: cluster_bytes_def)
  then have "p mod cluster_bytes v < unat (csize v) * 512" by (simp add: cluster_bytes_def)
  then have "p mod cluster_bytes v div 512 < unat (csize v)" by (simp add: div_less_iff_less_mult)
  then have "(p mod cluster_bytes v div 512 + 1) * 512 \<le> unat (csize v) * 512" by simp
  moreover have "p mod cluster_bytes v = p mod cluster_bytes v div 512 * 512 + p mod 512"
    using div_mult_mod_eq [of "p mod cluster_bytes v" 512] m by simp
  ultimately show ?thesis using assms(2) unfolding cluster_bytes_def by (rule below_block)
qed

lemma read_partial_run:
  assumes "on_file N v cs" and p: "unat (fptr fp) = p" "p < length cs * cluster_bytes v"
    and "sect fp = file_sector v cs p" and "buf_loaded N fp v" and "buffer_ok (buf fp) 512" and "0 < unat btr"
    and "buffer_ok rbuff (unat btr)" and "apart rbuff (unat btr) (buf fp) 512"
  defines "n \<equiv> min (512 - p mod 512) (unat btr)"
  shows "\<exists>m. read_partial rbuff btr fp v = Some (Inr (of_nat n), fp, v\<lparr>ram := m\<rparr>)
    \<and> (\<forall>k<n. m (rbuff + of_nat k) = file_byte v cs (p + k))
    \<and> (\<forall>a. unat a < unat rbuff \<or> unat rbuff + n \<le> unat a \<longrightarrow> m a = ram v a)"
proof -
  note D = on_fileD [OF assms(1)]
  let ?o = "p mod 512"
  have n: "0 < n" "n \<le> 512" "n \<le> unat btr" "?o + n \<le> 512" using assms(7) by (auto simp: n_def)
  have un: "unat (of_nat n :: u32) = n" using n(2) by (intro unat_u32_of_nat) simp
  have o: "fptr fp mod SS = of_nat ?o" using word_sector(2) [of "fptr fp"] p(1) by simp
  have uo: "unat (of_nat ?o :: u32) = ?o" by (intro unat_u32_of_nat) (simp add: less_trans [of _ 512])
  define r where "r = SS - of_nat ?o"
  have "unat r = 512 - ?o" using uo by (simp add: r_def SS_def unat_sub word_le_nat_alt)
  then have "unat (if r > btr then btr else r) = n" by (auto simp: n_def word_less_nat_alt min_def)
  from of_nat_eq [OF this] have rcnt: "(if r > btr then btr else r) = of_nat n" by (rule sym)
  have len: "sint (of_nat n :: u32) = int n" using sint_small [of "of_nat n"] n(2) by (simp add: un)
  let ?src = "buf fp + of_nat ?o"
  have b: "unat (buf fp) + 512 \<le> 0xE0400000" "unat rbuff + unat btr \<le> 0xE0400000"
    using assms(6,8) by (simp_all add: buffer_ok_def)
  have src: "unat ?src = unat (buf fp) + ?o" by (rule unat_buffer [OF b(1)]) simp
  have "n \<le> offset ?src rbuff"
    using n b assms(9) by (subst offset_le_iff) (auto simp: src apart_def)
  then have cp: "memcpy rbuff ?src (int n) (ram v) = Some (copied rbuff ?src (ram v) n)"
    using memcpy_run [of "int n" rbuff ?src "ram v"] n(2) by simp
  then have run: "read_partial rbuff btr fp v = Some (Inr (of_nat n), fp, v\<lparr>ram := copied rbuff ?src (ram v) n\<rparr>)"
    unfolding read_partial_def Let_def o r_def [symmetric] rcnt len by simp
  have sec: "0 < unat (sect fp)" using file_sector_ok(3) [OF D(2,5,3) p(2)] assms(4) by simp
  have byte: "copied rbuff ?src (ram v) n (rbuff + of_nat k) = file_byte v cs (p + k)" if "k < n" for k
  proof -
    have k: "?o + k < 512" using that n(4) by simp
    note near = file_sector_near(2) [OF D(2) within_cluster [OF D(2) k], of cs]
    have "(p + k) mod 512 = ?o + k"
      using div_mod_near [OF k, of "p div 512"] by simp
    then have "file_byte v cs (p + k) = sector_byte v (sect fp) (?o + k)"
      using near k assms(4) by (simp add: file_byte_def)
    also have "\<dots> = ram v (buf fp + of_nat (?o + k))" using assms(5) sec k by (auto simp: buf_loaded_def)
    also have "\<dots> = copied rbuff ?src (ram v) n (rbuff + of_nat k)"
      using copied_at [OF that, of rbuff ?src "ram v"] that n(2) by (simp add: add.assoc)
    finally show ?thesis by simp
  qed
  have out: "copied rbuff ?src (ram v) n a = ram v a" if "unat a < unat rbuff \<or> unat rbuff + n \<le> unat a" for a
    using that b n by (subst copied_eq) auto
  show ?thesis using run byte out by blast
qed


section \<open>One turn of the loop\<close>

lemma chain_nth: "chain v cs \<Longrightarrow> Suc i < length cs \<Longrightarrow> fat_entry v (cs ! i) = cs ! Suc i"
proof (induction v cs arbitrary: i rule: chain.induct)
  case (3 v c d cs)
  then show ?case by (cases i) auto
qed auto

lemma sector_in_cluster:
  assumes "data_ok N v"
  shows "fptr fp div SS AND (ucast (csize v) - 1) = of_nat (unat (fptr fp) mod cluster_bytes v div 512)"
    "k mod cluster_bytes v div 512 < unat (csize v)"
proof -
  have "p mod cluster_bytes v div 512 = p div 512 mod unat (csize v)" for p
    by (simp add: cluster_bytes_def mult.commute [of _ 512] mod_mult2_eq)
  moreover have "unat (fptr fp div SS) = unat (fptr fp) div 512" by (simp add: SS_def unat_div)
  ultimately show "fptr fp div SS AND (ucast (csize v) - 1) = of_nat (unat (fptr fp) mod cluster_bytes v div 512)"
    "k mod cluster_bytes v div 512 < unat (csize v)"
    using csize_bounds(1) [OF assms] unfolding csize_bounds(3) [OF assms] by simp_all
qed

lemma prev_div:
  assumes "0 < b" and "p mod b \<noteq> (0 :: nat)"
  shows "(p - 1) div b = p div b"
proof -
  have "p mod b - 1 < b" "p = p div b * b + p mod b" using assms by (simp_all add: less_imp_diff_less)
  then have "p - 1 = p div b * b + (p mod b - 1)" using assms(2) by linarith
  then show ?thesis using \<open>p mod b - 1 < b\<close> div_mod_add [of "p mod b - 1" 0 b "p div b"] by simp
qed

lemma read_cluster_run:
  assumes "on_file N v cs" and "sclust fp = hd cs" and "p < length cs * cluster_bytes v" and "p mod 512 = 0"
    and "unat (fptr fp) = p" and "0 < p \<Longrightarrow> clust fp = cs ! ((p - 1) div cluster_bytes v)"
  shows "\<exists>v'. read_cluster (of_nat (p mod cluster_bytes v div 512)) fp v
      = Some (FR_OK, fp\<lparr>clust := cs ! (p div cluster_bytes v)\<rparr>, v') \<and> window_moved N v v' \<and> on_file N v' cs"
proof -
  note D = on_fileD [OF assms(1)]
  let ?b = "cluster_bytes v" and ?c = "cs ! (p div cluster_bytes v)"
  have b: "0 < ?b" using csize_bounds(1) [OF D(2)] by (simp add: cluster_bytes_def)
  have q: "p div ?b < length cs" using assms(3) by (simp add: less_mult_imp_div_less)
  then have c: "cluster v ?c" using chain_cluster_all [OF D(3)] by simp
  have "n_fatent v \<le> 0xFFFFFFFF" using unat_u32_less [of "n_fatent v"] by (simp add: word_le_nat_alt)
  then have good: "\<not> ?c < 2" "?c \<noteq> 0xFFFFFFFF" using c by (auto simp: cluster_def)
  have m: "p mod ?b mod 512 = p mod 512" by (rule mod_mod_cancel) (simp add: cluster_bytes_def)
  then have zero: "p mod ?b div 512 = 0 \<longleftrightarrow> p mod ?b = 0" using assms(4) by auto
  have u: "unat (of_nat (p mod ?b div 512) :: u32) = p mod ?b div 512"
    using sector_in_cluster(2) [OF D(2), of p] csize_bounds(2) [OF D(2)] by (intro unat_u32_of_nat) simp
  then have w0: "(of_nat (p mod ?b div 512) :: u32) = 0 \<longleftrightarrow> p mod ?b = 0"
    unfolding zero [symmetric] by (simp add: word_unat_eq_iff)
  note refl = volume_step_refl [OF D(5)]
  consider "p mod ?b \<noteq> 0" | "p = 0" | "p mod ?b = 0" "0 < p" by blast
  then show ?thesis
  proof cases
    case 1
    then have "0 < p" by (cases p) auto
    moreover have "(p - 1) div ?b = p div ?b" by (rule prev_div [OF b 1])
    ultimately have "fp\<lparr>clust := ?c\<rparr> = fp" using assms(6) by simp
    then show ?thesis using 1 w0 refl assms(1) by (intro exI [of _ v]) (simp add: read_cluster_def)
  next
    case 2
    have "fptr fp = 0" using 2 assms(5) by (simp add: unat_eq_0)
    moreover have "hd cs = cs ! 0" using q by (intro hd_conv_nth) auto
    ultimately show ?thesis
      using 2 w0 refl assms(1,2,5) good by (intro exI [of _ v]) (auto simp: read_cluster_def)
  next
    case 3
    define i where "i = p div ?b"
    have p: "p = i * ?b" using 3(1) unfolding i_def by (metis add.right_neutral div_mult_mod_eq)
    then have i: "0 < i" using 3(2) by (cases i) auto
    have "p - 1 = (i - 1) * ?b + (?b - 1)" using p i b by (cases i) auto
    then have prev: "(p - 1) div ?b = i - 1"
      using div_mod_add [of "?b - 1" 0 ?b "i - 1"] b by simp
    have "clust fp = cs ! (i - 1)" using assms(6) 3(2) prev by simp
    moreover have "fat_entry v (cs ! (i - 1)) = ?c"
      using chain_nth [OF D(3), of "i - 1"] i q by (simp add: i_def)
    moreover have "cluster v (cs ! (i - 1))" using chain_cluster_all [OF D(3)] i q by (simp add: i_def)
    ultimately obtain v' where v': "get_fat (clust fp) v = Some (?c, v')" "window_moved N v v'" "in_fat v (winsect v')"
      using get_fat_run [OF D(1)] by metis
    have "on_file N v' cs"
      using on_file_view(1) [OF assms(1) window_moved_view [OF v'(2)]] v'(3) volume_step_fields(21) [OF v'(2)] by blast
    moreover have "fptr fp \<noteq> 0" using 3(2) assms(5) by auto
    ultimately show ?thesis using 3(1) w0 v' good by (intro exI [of _ v']) (simp add: read_cluster_def)
  qed
qed

lemma fill_buffer_run:
  assumes "on_file N v cs" and "p < length cs * cluster_bytes v" and "flag fp AND FA_DIRTY = 0"
    and "buffer_ok (buf fp) 512" and "apart (buf fp) 512 (win v) 512" and "buf_loaded N fp v"
  shows "\<exists>m. fill_buffer (file_sector v cs p) fp v = Some (FR_OK, fp, v\<lparr>ram := m\<rparr>)
    \<and> buf_loaded N (fp\<lparr>sect := file_sector v cs p\<rparr>) (v\<lparr>ram := m\<rparr>) \<and> view_kept N v (v\<lparr>ram := m\<rparr>)
    \<and> (\<forall>a. unat a < unat (buf fp) \<or> unat (buf fp) + 512 \<le> unat a \<longrightarrow> m a = ram v a)"
proof -
  note D = on_fileD [OF assms(1)]
  note sec = file_sector_ok [OF D(2,5,3) assms(2)]
  let ?s = "file_sector v cs p"
  show ?thesis
  proof (cases "sect fp = ?s")
    case True
    then have e: "fp\<lparr>sect := ?s\<rparr> = fp" by simp
    have "fill_buffer ?s fp v = Some (FR_OK, fp, v)" using True by (simp add: fill_buffer_def)
    then show ?thesis
      unfolding e using assms(6) view_kept_refl [OF D(5)] by (intro exI [of _ "ram v"]) simp
  next
    case False
    let ?m = "copied (buf fp) (sector_address ?s) (ram v) 512"
    have "unat ?s + 1 \<le> N" using sec(2) by simp
    then have "drive_read (buf fp) ?s 1 v = Some (RES_OK, v\<lparr>ram := ?m\<rparr>)"
      using drive_read_run [OF volume_okD(1) [OF D(5)], of ?s 1 "buf fp"] assms(4) by simp
    then have run: "fill_buffer ?s fp v = Some (FR_OK, fp, v\<lparr>ram := ?m\<rparr>)"
      using False assms(3) by (simp add: fill_buffer_def)
    have out: "\<forall>a. unat a < unat (buf fp) \<or> unat (buf fp) + 512 \<le> unat a \<longrightarrow> ?m a = ram v a"
      using read_buffer(2) [OF assms(4)] by blast
    note view = view_buffer [OF D(5) assms(4,5) out]
    have "?m (buf fp + of_nat i) = sector_byte v ?s i" if "i < 512" for i
      using read_buffer(1) [OF assms(4) that] settled_disk [OF assms(1,2) that] by (simp add: disk_byte_def)
    then have "buf_loaded N (fp\<lparr>sect := ?s\<rparr>) (v\<lparr>ram := ?m\<rparr>)"
      using sec(2,5) view_keptD(2) [OF view sec(2,5)] by (simp add: buf_loaded_def second_fat_def)
    with run view out show ?thesis by blast
  qed
qed

lemma sector_run: "sector_address s + of_nat k = sector_address (s + of_nat (k div 512)) + of_nat (k mod 512)"
proof -
  have "(of_nat k :: u32) = of_nat (k div 512 * 512 + k mod 512)" by simp
  then have k: "(of_nat k :: u32) = of_nat (k div 512) * 512 + of_nat (k mod 512)"
    unfolding of_nat_add of_nat_mult by simp
  show ?thesis unfolding sector_address_def SECTOR_SIZE_def k by (simp add: distrib_right add.assoc)
qed

lemma read_sectors_run:
  assumes "on_file N v cs" and "p < length cs * cluster_bytes v" and "p mod 512 = 0" and "0 < cc"
    and "p mod cluster_bytes v + cc * 512 \<le> cluster_bytes v" and "flag fp AND FA_DIRTY = 0"
    and "buffer_ok rbuff (cc * 512)"
  defines "m \<equiv> copied rbuff (sector_address (file_sector v cs p)) (ram v) (cc * 512)"
  shows "read_sectors rbuff (file_sector v cs p) (of_nat cc) fp v = Some (Inr (of_nat (cc * 512)), fp, v\<lparr>ram := m\<rparr>)"
    "k < cc * 512 \<Longrightarrow> m (rbuff + of_nat k) = file_byte v cs (p + k)"
    "unat a < unat rbuff \<or> unat rbuff + cc * 512 \<le> unat a \<Longrightarrow> m a = ram v a"
proof -
  note D = on_fileD [OF assms(1)]
  note sec = file_sector_ok [OF D(2,5,3) assms(2)]
  let ?s = "file_sector v cs p" and ?b = "cluster_bytes v"
  have m512: "p mod ?b mod 512 = p mod 512" by (rule mod_mod_cancel) (simp add: cluster_bytes_def)
  then have "p mod ?b = p mod ?b div 512 * 512" using assms(3) div_mult_mod_eq [of "p mod ?b" 512] by simp
  then have "(p mod ?b div 512 + cc) * 512 \<le> unat (csize v) * 512"
    using assms(5) by (simp add: cluster_bytes_def distrib_right)
  then have "p mod ?b div 512 + cc \<le> unat (csize v)" by simp
  then have "unat ?s + cc \<le> N" using sec(1,6) by simp
  then have "drive_read rbuff ?s (of_nat cc) v = Some (RES_OK, v\<lparr>ram := m\<rparr>)"
    unfolding m_def by (rule drive_read_run [OF volume_okD(1) [OF D(5)] _ assms(4,7)])
  moreover have "SS * of_nat cc = of_nat (cc * 512)" by (simp add: SS_def mult.commute)
  ultimately show "read_sectors rbuff ?s (of_nat cc) fp v = Some (Inr (of_nat (cc * 512)), fp, v\<lparr>ram := m\<rparr>)"
    using assms(6) by (simp add: read_sectors_def)
  show "m a = ram v a" if "unat a < unat rbuff \<or> unat rbuff + cc * 512 \<le> unat a"
    using read_buffer(2) [OF assms(7) that] by (simp add: m_def)
  show "m (rbuff + of_nat k) = file_byte v cs (p + k)" if "k < cc * 512"
  proof -
    have k: "p mod ?b + k < ?b" using that assms(5) by simp
    have sk: "file_sector v cs (p + k) = ?s + of_nat (k div 512)"
      using file_sector_near(2) [OF D(2) k, of cs] assms(3) by simp
    have mk: "(p + k) mod 512 = k mod 512" using assms(3) by (simp add: mod_add_left_eq [symmetric])
    have "p + k < length cs * ?b"
    proof -
      have "(p + k) div ?b < length cs"
        unfolding file_sector_near(1) [OF D(2) k] using assms(2) by (simp add: less_mult_imp_div_less)
      moreover have "0 < ?b" using csize_bounds(1) [OF D(2)] by (simp add: cluster_bytes_def)
      ultimately show ?thesis by (simp add: div_less_iff_less_mult)
    qed
    note set = settled_disk [OF assms(1) this, of "k mod 512"]
    have "m (rbuff + of_nat k) = ram v (sector_address ?s + of_nat k)"
      using read_buffer(1) [OF assms(7) that] by (simp add: m_def)
    also have "\<dots> = disk_byte (ram v) (file_sector v cs (p + k)) (k mod 512)"
      unfolding disk_byte_def sk sector_run [of ?s k] ..
    also have "\<dots> = file_byte v cs (p + k)" using set by (simp add: file_byte_def mk)
    finally show ?thesis .
  qed
qed


text \<open>The invariant of the loop: the cluster and the buffer belong to the position, and nothing is unsaved.\<close>

definition reading :: "nat \<Rightarrow> fat_volume \<Rightarrow> u32 list \<Rightarrow> FIL \<Rightarrow> bool" where
  "reading N v cs fp \<longleftrightarrow> on_file N v cs \<and> sclust fp = hd cs \<and> unat (objsize fp) \<le> length cs * cluster_bytes v
     \<and> unat (fptr fp) \<le> unat (objsize fp)
     \<and> (0 < unat (fptr fp) \<longrightarrow> clust fp = cs ! ((unat (fptr fp) - 1) div cluster_bytes v))
     \<and> flag fp AND FA_DIRTY = 0 \<and> buffer_ok (buf fp) 512 \<and> apart (buf fp) 512 (win v) 512 \<and> buf_loaded N fp v
     \<and> (unat (fptr fp) mod 512 \<noteq> 0 \<longrightarrow> sect fp = file_sector v cs (unat (fptr fp)))"

lemma buf_loaded_kept:
  assumes "buf_loaded N fp v" and "view_kept N v v'" and "\<forall>i<512. ram v' (buf fp + of_nat i) = ram v (buf fp + of_nat i)"
  shows "buf_loaded N fp v'"
  using assms view_keptD(2) [OF assms(2)] by (simp add: buf_loaded_def view_kept_fields [OF assms(2)])

lemma buffer_unchanged:
  assumes "buffer_ok b 512" and "apart r n b 512" and "\<forall>a. unat a < unat r \<or> unat r + n \<le> unat a \<longrightarrow> m a = m0 a"
  shows "\<forall>i<512. m (b + of_nat i) = m0 (b + of_nat i)"
proof (intro allI impI)
  fix i :: nat assume i: "i < 512"
  have "unat b + 512 \<le> 0xE0400000" using assms(1) by (simp add: buffer_ok_def)
  note e = unat_buffer [OF this i]
  have "unat (b + of_nat i) < unat r \<or> unat r + n \<le> unat (b + of_nat i)"
    unfolding e using assms(2) i by (auto simp: apart_def)
  then show "m (b + of_nat i) = m0 (b + of_nat i)" using assms(3) by blast
qed

text \<open>After \<open>n\<close> bytes of the current cluster have been delivered.\<close>

lemma reading_advance:
  assumes "on_file N v cs" and "sclust fp = hd cs" and "unat (objsize fp) \<le> length cs * cluster_bytes v"
    and "unat (fptr fp) = p" and "0 < n" and "p + n \<le> unat (objsize fp)" and "clust fp = cs ! (p div cluster_bytes v)"
    and "p mod cluster_bytes v + n \<le> cluster_bytes v" and "flag fp AND FA_DIRTY = 0" and "buffer_ok (buf fp) 512"
    and "apart (buf fp) 512 (win v) 512" and "buf_loaded N fp v"
    and "(p + n) mod 512 \<noteq> 0 \<Longrightarrow> sect fp = file_sector v cs (p + n)"
    and "buffer_ok rbuff n" and "apart rbuff n (win v) 512" and "apart rbuff n (buf fp) 512"
    and "\<forall>a. unat a < unat rbuff \<or> unat rbuff + n \<le> unat a \<longrightarrow> m a = ram v a"
  shows "view_kept N v (v\<lparr>ram := m\<rparr>)" "reading N (v\<lparr>ram := m\<rparr>) cs (fp\<lparr>fptr := fptr fp + of_nat n\<rparr>)"
proof -
  note D = on_fileD [OF assms(1)]
  show view: "view_kept N v (v\<lparr>ram := m\<rparr>)" by (rule view_buffer [OF D(5) assms(14,15,17)])
  let ?v = "v\<lparr>ram := m\<rparr>" and ?fp = "fp\<lparr>fptr := fptr fp + of_nat n\<rparr>"
  note fv = file_sector_view [OF view]
  have on: "on_file N ?v cs" using on_file_view(1) [OF assms(1) view] by simp
  have "p + n < 4294967296" using assms(6) unat_u32_less [of "objsize fp"] by linarith
  then have pos: "unat (fptr fp + of_nat n) = p + n"
    using assms(4) by (simp add: unat_u32_add unat_u32_of_nat)
  have "p mod cluster_bytes v + (n - 1) < cluster_bytes v" using assms(5,8) by linarith
  from file_sector_near(1) [OF D(2) this] have "(p + n - 1) div cluster_bytes v = p div cluster_bytes v"
    using assms(5) by simp
  moreover have "buf_loaded N fp ?v"
    using buf_loaded_kept [OF assms(12) view] buffer_unchanged [OF assms(10,16,17)] by simp
  then have "buf_loaded N ?fp ?v" by (simp add: buf_loaded_def)
  ultimately show "reading N ?v cs ?fp"
    using on assms(2,3,6,7,9,10,11,13) by (simp add: reading_def fv pos)
qed

text \<open>What one turn of the loop does: \<open>n\<close> bytes of the file are in the buffer of the caller, the position may
  advance by them, and nothing but that buffer, the window and the buffer of the file has changed.\<close>

definition delivered :: "nat \<Rightarrow> u32 list \<Rightarrow> u32 \<Rightarrow> nat \<Rightarrow> FIL \<Rightarrow> fat_volume \<Rightarrow> FIL \<Rightarrow> fat_volume \<Rightarrow> bool" where
  "delivered N cs rbuff n fp v fp' v' \<longleftrightarrow> view_kept N v v' \<and> reading N v' cs (fp'\<lparr>fptr := fptr fp + of_nat n\<rparr>)
     \<and> fp' = fp\<lparr>clust := clust fp', sect := sect fp'\<rparr>
     \<and> (\<forall>k<n. ram v' (rbuff + of_nat k) = file_byte v cs (unat (fptr fp) + k))
     \<and> (\<forall>a. buffer_ok a 1 \<longrightarrow> (unat a < unat rbuff \<or> unat rbuff + n \<le> unat a)
          \<longrightarrow> (unat a < unat (win v) \<or> unat (win v) + 512 \<le> unat a)
          \<longrightarrow> (unat a < unat (buf fp) \<or> unat (buf fp) + 512 \<le> unat a) \<longrightarrow> ram v' a = ram v a)"

lemma file_byte_view:
  assumes "on_file N v cs" and "view_kept N v v'" and "k < length cs * cluster_bytes v"
  shows "file_byte v' cs k = file_byte v cs k"
  using view_keptD(2) [OF assms(2)] file_sector_ok(2,5) [OF on_fileD(2,5,3) [OF assms(1)] assms(3)]
  by (simp add: file_byte_def file_sector_view [OF assms(2)])

text \<open>The loop is ready to deliver: the cluster is that of the position.\<close>

definition located :: "nat \<Rightarrow> fat_volume \<Rightarrow> u32 list \<Rightarrow> FIL \<Rightarrow> bool" where
  "located N v cs fp \<longleftrightarrow> on_file N v cs \<and> sclust fp = hd cs \<and> unat (objsize fp) \<le> length cs * cluster_bytes v
     \<and> clust fp = cs ! (unat (fptr fp) div cluster_bytes v) \<and> flag fp AND FA_DIRTY = 0 \<and> buffer_ok (buf fp) 512
     \<and> apart (buf fp) 512 (win v) 512 \<and> buf_loaded N fp v"

definition room :: "u32 \<Rightarrow> nat \<Rightarrow> FIL \<Rightarrow> fat_volume \<Rightarrow> bool" where
  "room rbuff n fp v \<longleftrightarrow> unat (fptr fp) + n \<le> unat (objsize fp) \<and> buffer_ok rbuff n \<and> apart rbuff n (win v) 512
     \<and> apart rbuff n (buf fp) 512"

lemma room_less: "room rbuff n fp v \<Longrightarrow> k \<le> n \<Longrightarrow> room rbuff k fp v"
  by (auto simp: room_def buffer_ok_def apart_def)

lemma delivered_memory:
  assumes "located N v cs fp" and "room rbuff n fp v" and "unat (fptr fp) = p" and "0 < n"
    and "p mod cluster_bytes v + n \<le> cluster_bytes v" and "(p + n) mod 512 \<noteq> 0 \<Longrightarrow> sect fp = file_sector v cs (p + n)"
    and bytes: "\<And>k. k < n \<Longrightarrow> m (rbuff + of_nat k) = file_byte v cs (p + k)"
    and out: "\<forall>a. unat a < unat rbuff \<or> unat rbuff + n \<le> unat a \<longrightarrow> m a = ram v a"
  shows "delivered N cs rbuff n fp v fp (v\<lparr>ram := m\<rparr>)"
proof -
  have L: "on_file N v cs" "sclust fp = hd cs" "unat (objsize fp) \<le> length cs * cluster_bytes v"
    "clust fp = cs ! (p div cluster_bytes v)" "flag fp AND FA_DIRTY = 0" "buffer_ok (buf fp) 512"
    "apart (buf fp) 512 (win v) 512" "buf_loaded N fp v"
    using assms(1,3) by (simp_all add: located_def)
  have R: "p + n \<le> unat (objsize fp)" "buffer_ok rbuff n" "apart rbuff n (win v) 512" "apart rbuff n (buf fp) 512"
    using assms(2,3) by (simp_all add: room_def)
  note adv = reading_advance [OF L(1-3) assms(3,4) R(1) L(4) assms(5) L(5-8) assms(6) R(2-4) out]
  show ?thesis using adv bytes out assms(3) by (simp add: delivered_def)
qed

lemma deliver_partial:
  assumes "located N v cs fp" and "room rbuff (unat btr) fp v" and "0 < unat btr"
    and "sect fp = file_sector v cs (unat (fptr fp))"
  shows "\<exists>n m. read_partial rbuff btr fp v = Some (Inr (of_nat n), fp, v\<lparr>ram := m\<rparr>) \<and> 0 < n \<and> n \<le> unat btr
    \<and> delivered N cs rbuff n fp v fp (v\<lparr>ram := m\<rparr>)"
proof -
  define p where "p = unat (fptr fp)"
  define n where "n = min (512 - p mod 512) (unat btr)"
  have on: "on_file N v cs" and b: "buf_loaded N fp v" "buffer_ok (buf fp) 512" using assms(1) by (simp_all add: located_def)
  note D = on_fileD [OF on]
  have p: "p < length cs * cluster_bytes v" using assms(1-3) by (simp add: located_def room_def p_def)
  have R: "buffer_ok rbuff (unat btr)" "apart rbuff (unat btr) (buf fp) 512" using assms(2) by (simp_all add: room_def)
  obtain m where m: "read_partial rbuff btr fp v = Some (Inr (of_nat n), fp, v\<lparr>ram := m\<rparr>)"
      "\<And>k. k < n \<Longrightarrow> m (rbuff + of_nat k) = file_byte v cs (p + k)"
      "\<forall>a. unat a < unat rbuff \<or> unat rbuff + n \<le> unat a \<longrightarrow> m a = ram v a"
    using read_partial_run [OF on p_def [symmetric] p assms(4) [folded p_def] b assms(3) R] unfolding n_def by blast
  have n: "0 < n" "n \<le> unat btr" "p mod 512 + n \<le> 512" using assms(3) by (auto simp: n_def)
  have "p mod cluster_bytes v + (n - 1) < cluster_bytes v" using n by (intro within_cluster [OF D(2)]) simp
  then have c: "p mod cluster_bytes v + n \<le> cluster_bytes v" by simp
  have "sect fp = file_sector v cs (p + n)" if "(p + n) mod 512 \<noteq> 0"
  proof -
    have "p mod 512 + n \<noteq> 512"
    proof
      assume "p mod 512 + n = 512"
      then have "(p mod 512 + n) mod 512 = 0" by simp
      then show False using that by (simp add: mod_add_left_eq)
    qed
    then have lt: "p mod 512 + n < 512" using n(3) by simp
    from file_sector_near(2) [OF D(2) within_cluster [OF D(2) lt], of cs] show ?thesis
      using lt assms(4) by (simp add: p_def)
  qed
  from delivered_memory [OF assms(1) room_less [OF assms(2) n(2)] p_def [symmetric] n(1) c this m(2,3)]
  show ?thesis using m(1) n(1,2) by blast
qed

lemma clip_sectors:
  assumes "data_ok N v" and "j < unat (csize v)"
  shows "(if of_nat j + btr div SS > ucast (csize v) then ucast (csize v) - of_nat j else (btr div SS :: u32))
    = of_nat (min (unat btr div 512) (unat (csize v) - j))"
proof -
  let ?c = "ucast (csize v) :: u32"
  note c = csize_bounds(2) [OF assms(1)]
  have u: "unat ?c = unat (csize v)" "unat (of_nat j :: u32) = j" "unat (btr div SS) = unat btr div 512"
    using assms(2) c by (simp_all add: unat_ucast16 unat_u32_of_nat SS_def unat_div)
  have "unat btr div 512 \<le> unat btr" "unat btr div 512 * 512 \<le> unat btr" by simp_all
  then have "j + unat btr div 512 < 4294967296" using unat_u32_less [of btr] assms(2) c by linarith
  then have sum: "unat (of_nat j + btr div SS) = j + unat btr div 512" using u by (subst unat_u32_add) simp_all
  have "of_nat j \<le> ?c" using assms(2) by (simp only: word_le_nat_alt u)
  then have sub: "unat (?c - of_nat j) = unat (csize v) - j" by (simp only: unat_sub u)
  have "unat (if of_nat j + btr div SS > ?c then ?c - of_nat j else btr div SS) = min (unat btr div 512) (unat (csize v) - j)"
    unfolding word_less_nat_alt sum u by (simp add: sub u min_def)
  from of_nat_eq [OF this] show ?thesis by (rule sym)
qed

lemma deliver_sectors:
  assumes "located N v cs fp" and "room rbuff (unat btr) fp v" and "unat (fptr fp) = p" and "p mod 512 = 0"
    and "512 \<le> unat btr"
  defines "n \<equiv> min (unat btr div 512) (unat (csize v) - p mod cluster_bytes v div 512)"
  shows "\<exists>m. read_sectors rbuff (file_sector v cs p) (of_nat n) fp v = Some (Inr (of_nat (n * 512)), fp, v\<lparr>ram := m\<rparr>)
    \<and> 0 < n \<and> n * 512 \<le> unat btr \<and> delivered N cs rbuff (n * 512) fp v fp (v\<lparr>ram := m\<rparr>)"
proof -
  let ?b = "cluster_bytes v"
  have on: "on_file N v cs" and cl: "flag fp AND FA_DIRTY = 0" using assms(1) by (simp_all add: located_def)
  note D = on_fileD [OF on]
  have p: "p < length cs * ?b" using assms(1-3,5) by (simp add: located_def room_def)
  have n: "0 < n" "n \<le> unat btr div 512" "n \<le> unat (csize v) - p mod ?b div 512"
    using sector_in_cluster(2) [OF D(2), of p] assms(5) by (simp_all add: n_def)
  have "n * 512 \<le> unat btr div 512 * 512" using n(2) by simp
  then have len: "n * 512 \<le> unat btr" using div_times_less_eq_dividend [of "unat btr" 512] by linarith
  have "p mod ?b mod 512 = p mod 512" by (rule mod_mod_cancel) (simp add: cluster_bytes_def)
  then have "p mod ?b = p mod ?b div 512 * 512" using assms(4) div_mult_mod_eq [of "p mod ?b" 512] by simp
  moreover have "(p mod ?b div 512 + n) * 512 \<le> unat (csize v) * 512"
    using n(3) sector_in_cluster(2) [OF D(2), of p] by (intro mult_le_mono1) linarith
  ultimately have c: "p mod ?b + n * 512 \<le> ?b" by (simp add: cluster_bytes_def distrib_right)
  note R = room_less [OF assms(2) len]
  then have ok: "buffer_ok rbuff (n * 512)" by (simp add: room_def)
  note run = read_sectors_run [OF on p assms(4) n(1) c cl ok]
  have "0 < n * 512" using n(1) by simp
  moreover have "sect fp = file_sector v cs (p + n * 512)" if "(p + n * 512) mod 512 \<noteq> 0"
    using that assms(4) by simp
  ultimately show ?thesis
    using delivered_memory [OF assms(1) R assms(3) _ c _ run(2)] run(1,3) n(1) len by blast
qed

text \<open>Steps before the delivery are part of the turn.\<close>

lemma delivered_after:
  assumes "delivered N cs rbuff n fp1 v1 fp' v'" and "on_file N v cs" and "view_kept N v v1"
    and "fp1 = fp\<lparr>clust := clust fp1, sect := sect fp1\<rparr>" and "unat (fptr fp) + n \<le> length cs * cluster_bytes v"
    and "\<forall>a. buffer_ok a 1 \<longrightarrow> (unat a < unat (win v) \<or> unat (win v) + 512 \<le> unat a)
          \<longrightarrow> (unat a < unat (buf fp) \<or> unat (buf fp) + 512 \<le> unat a) \<longrightarrow> ram v1 a = ram v a"
  shows "delivered N cs rbuff n fp v fp' v'"
proof -
  have f: "fptr fp1 = fptr fp" "buf fp1 = buf fp" by (subst assms(4), simp)+
  note d = assms(1) [unfolded delivered_def f view_kept_fields(8) [OF assms(3)]]
  have "fp' = fp1\<lparr>clust := clust fp', sect := sect fp'\<rparr>" using d by blast
  then have "fp' = fp\<lparr>clust := clust fp', sect := sect fp'\<rparr>" by (subst (asm) assms(4)) simp
  moreover have "file_byte v1 cs (unat (fptr fp) + k) = file_byte v cs (unat (fptr fp) + k)" if "k < n" for k
    using that assms(5) by (intro file_byte_view [OF assms(2,3)]) linarith
  moreover have "view_kept N v v'" using view_kept_trans [OF assms(3)] d by blast
  ultimately show ?thesis using d assms(6) unfolding delivered_def by auto
qed

lemma read_cluster_located:
  assumes "reading N v cs fp" and "unat (fptr fp) = p" and "p mod 512 = 0" and "p < unat (objsize fp)"
    and "room rbuff n fp v"
  shows "\<exists>v1. read_cluster (of_nat (p mod cluster_bytes v div 512)) fp v
      = Some (FR_OK, fp\<lparr>clust := cs ! (p div cluster_bytes v)\<rparr>, v1)
    \<and> located N v1 cs (fp\<lparr>clust := cs ! (p div cluster_bytes v)\<rparr>) \<and> window_moved N v v1
    \<and> room rbuff n (fp\<lparr>clust := cs ! (p div cluster_bytes v)\<rparr>) v1"
proof -
  let ?fp = "fp\<lparr>clust := cs ! (p div cluster_bytes v)\<rparr>"
  have r: "on_file N v cs" "sclust fp = hd cs" "unat (objsize fp) \<le> length cs * cluster_bytes v"
    "0 < p \<Longrightarrow> clust fp = cs ! ((p - 1) div cluster_bytes v)" "flag fp AND FA_DIRTY = 0" "buffer_ok (buf fp) 512"
    "apart (buf fp) 512 (win v) 512" "buf_loaded N fp v"
    using assms(1,2) by (simp_all add: reading_def)
  have "p < length cs * cluster_bytes v" using assms(4) r(3) by linarith
  from read_cluster_run [OF r(1,2) this assms(3,2) r(4)]
  obtain v1 where v1: "read_cluster (of_nat (p mod cluster_bytes v div 512)) fp v = Some (FR_OK, ?fp, v1)"
      "window_moved N v v1" "on_file N v1 cs"
    by blast
  have b: "buffer_ok (buf fp) 512" "unat (buf fp) + 512 \<le> 0xE0400000" using r(6) by (simp_all add: buffer_ok_def)
  have "ram v1 (buf fp + of_nat i) = ram v (buf fp + of_nat i)" if "i < 512" for i
  proof (rule volume_stepD(3) [OF v1(2)])
    note e = unat_buffer [OF b(2) that]
    show "buffer_ok (buf fp + of_nat i) 1" using b(2) that by (simp add: buffer_ok_def e)
    show "unat (buf fp + of_nat i) < unat (win v) \<or> unat (win v) + 512 \<le> unat (buf fp + of_nat i)"
      using r(7) that by (auto simp: apart_def e)
  qed
  then have "buf_loaded N fp v1" by (intro buf_loaded_kept [OF r(8) window_moved_view [OF v1(2)]]) blast
  then have "buf_loaded N ?fp v1" by (simp add: buf_loaded_def)
  moreover note fv = file_sector_view [OF window_moved_view [OF v1(2)]]
  ultimately have "located N v1 cs ?fp"
    using r v1(3) assms(2) by (simp add: located_def volume_step_fields(16) [OF v1(2)])
  moreover have "room rbuff n ?fp v1" using assms(5) by (simp add: room_def volume_step_fields(16) [OF v1(2)])
  ultimately show ?thesis using v1(1,2) by blast
qed

lemma fill_buffer_located:
  assumes "located N v cs fp" and "room rbuff n fp v" and "unat (fptr fp) = p" and "0 < n"
  shows "\<exists>m. fill_buffer (file_sector v cs p) fp v = Some (FR_OK, fp, v\<lparr>ram := m\<rparr>)
    \<and> located N (v\<lparr>ram := m\<rparr>) cs (fp\<lparr>sect := file_sector v cs p\<rparr>) \<and> view_kept N v (v\<lparr>ram := m\<rparr>)
    \<and> room rbuff n (fp\<lparr>sect := file_sector v cs p\<rparr>) (v\<lparr>ram := m\<rparr>)
    \<and> (\<forall>a. unat a < unat (buf fp) \<or> unat (buf fp) + 512 \<le> unat a \<longrightarrow> m a = ram v a)"
proof -
  have L: "on_file N v cs" "flag fp AND FA_DIRTY = 0" "buffer_ok (buf fp) 512" "apart (buf fp) 512 (win v) 512"
    "buf_loaded N fp v"
    using assms(1) by (simp_all add: located_def)
  have "p < length cs * cluster_bytes v" using assms by (simp add: located_def room_def)
  from fill_buffer_run [OF L(1) this L(2-5)] obtain m where m:
    "fill_buffer (file_sector v cs p) fp v = Some (FR_OK, fp, v\<lparr>ram := m\<rparr>)"
    "buf_loaded N (fp\<lparr>sect := file_sector v cs p\<rparr>) (v\<lparr>ram := m\<rparr>)" "view_kept N v (v\<lparr>ram := m\<rparr>)"
    "\<forall>a. unat a < unat (buf fp) \<or> unat (buf fp) + 512 \<le> unat a \<longrightarrow> m a = ram v a"
    by blast
  have "on_file N (v\<lparr>ram := m\<rparr>) cs" using on_file_view(1) [OF L(1) m(3)] by simp
  then have "located N (v\<lparr>ram := m\<rparr>) cs (fp\<lparr>sect := file_sector v cs p\<rparr>)"
    using assms(1) m(2) by (simp add: located_def file_sector_view [OF m(3)])
  moreover have "room rbuff n (fp\<lparr>sect := file_sector v cs p\<rparr>) (v\<lparr>ram := m\<rparr>)" using assms(2) by (simp add: room_def)
  ultimately show ?thesis using m(1,3,4) by blast
qed

lemma located_sector:
  assumes "located N v cs fp" and "unat (fptr fp) = p" and "p < length cs * cluster_bytes v"
  shows "clst2sect v (clust fp) \<noteq> 0"
    "clst2sect v (clust fp) + of_nat (p mod cluster_bytes v div 512) = file_sector v cs p"
proof -
  have on: "on_file N v cs" and c: "clust fp = cs ! (p div cluster_bytes v)" using assms(1,2) by (simp_all add: located_def)
  note D = on_fileD [OF on]
  have "p div cluster_bytes v < length cs" using assms(3) by (simp add: less_mult_imp_div_less)
  then have "cluster v (clust fp)" using chain_cluster_all [OF D(3)] c by simp
  then have "unat (database v) \<le> unat (clst2sect v (clust fp))" by (rule cluster_sector(2) [OF D(2,5)])
  moreover have "0 < unat (database v)" using D(2,5) by (auto simp: data_ok_def volume_ok_def)
  ultimately show "clst2sect v (clust fp) \<noteq> 0" by auto
  show "clst2sect v (clust fp) + of_nat (p mod cluster_bytes v div 512) = file_sector v cs p"
    by (simp add: file_sector_def c)
qed

lemma read_step_inside:
  assumes "reading N v cs fp" and "room rbuff (unat btr) fp v" and "0 < unat btr" and "unat (fptr fp) mod 512 \<noteq> 0"
  shows "\<exists>n v'. read_step rbuff btr fp v = Some (Inr (of_nat n), fp, v') \<and> 0 < n \<and> n \<le> unat btr
    \<and> delivered N cs rbuff n fp v fp v'"
proof -
  let ?p = "unat (fptr fp)" and ?b = "cluster_bytes v"
  have D: "data_ok N v" using assms(1) by (simp add: reading_def on_file_def)
  have "?p mod ?b mod 512 = ?p mod 512" by (rule mod_mod_cancel) (simp add: cluster_bytes_def)
  then have "?p mod ?b \<noteq> 0" using assms(4) by (metis mod_0)
  moreover have "0 < ?b" using csize_bounds(1) [OF D] by (simp add: cluster_bytes_def)
  ultimately have "(?p - 1) div ?b = ?p div ?b" by (intro prev_div)
  moreover have "0 < ?p" using assms(4) by (cases ?p) auto
  ultimately have "located N v cs fp" "sect fp = file_sector v cs ?p"
    using assms(1,4) by (simp_all add: reading_def located_def)
  from deliver_partial [OF this(1) assms(2,3) this(2)]
  obtain n m where "read_partial rbuff btr fp v = Some (Inr (of_nat n), fp, v\<lparr>ram := m\<rparr>)" "0 < n" "n \<le> unat btr"
    "delivered N cs rbuff n fp v fp (v\<lparr>ram := m\<rparr>)"
    by blast
  moreover have "fptr fp mod SS \<noteq> 0"
  proof
    assume "fptr fp mod SS = 0"
    then have "unat (fptr fp mod SS) = 0" by simp
    then show False using assms(4) by (simp add: SS_def unat_mod)
  qed
  ultimately show ?thesis by (intro exI [of _ n] exI [of _ "v\<lparr>ram := m\<rparr>"]) (simp add: read_step_def)
qed

lemma read_step_boundary:
  assumes "reading N v cs fp" and "room rbuff (unat btr) fp v" and "0 < unat btr" and "unat (fptr fp) mod 512 = 0"
  shows "\<exists>n fp' v'. read_step rbuff btr fp v = Some (Inr (of_nat n), fp', v') \<and> 0 < n \<and> n \<le> unat btr
    \<and> delivered N cs rbuff n fp v fp' v'"
proof -
  define p where "p = unat (fptr fp)"
  define fp1 where "fp1 = fp\<lparr>clust := cs ! (p div cluster_bytes v)\<rparr>"
  have r: "on_file N v cs" "p < unat (objsize fp)" "unat (objsize fp) \<le> length cs * cluster_bytes v"
    "p + unat btr \<le> unat (objsize fp)" "p mod 512 = 0"
    using assms by (simp_all add: reading_def room_def p_def)
  note D = on_fileD [OF r(1)]
  from read_cluster_located [OF assms(1) p_def [symmetric] r(5,2) assms(2)] obtain v1 where
    v1: "read_cluster (of_nat (p mod cluster_bytes v div 512)) fp v = Some (FR_OK, fp1, v1)"
      "located N v1 cs fp1" "window_moved N v v1" "room rbuff (unat btr) fp1 v1"
    unfolding fp1_def by blast
  note view = window_moved_view [OF v1(3)]
  note f = view_kept_fields [OF view] and fv = file_sector_view [OF view]
  have p1: "unat (fptr fp1) = p" and w: "fp1 = fp\<lparr>clust := clust fp1, sect := sect fp1\<rparr>" and b1: "buf fp1 = buf fp"
    by (simp_all add: fp1_def p_def)
  have p: "p < length cs * cluster_bytes v1" using r(2,3) unfolding fv(2) by linarith
  note sec = located_sector [OF v1(2) p1 p]
  have j: "fptr fp div SS AND (ucast (csize v) - 1) = of_nat (p mod cluster_bytes v1 div 512)"
    using sector_in_cluster(1) [OF D(2), of fp] by (simp add: p_def fv)
  have on1: "on_file N v1 cs" using v1(2) by (simp add: located_def)
  have small: "p mod cluster_bytes v1 div 512 < unat (csize v1)"
    by (rule sector_in_cluster(2) [OF on_fileD(2) [OF on1]])
  note clip = clip_sectors [OF on_fileD(2) [OF on1] small, of btr]
  have z: "fptr fp mod SS = 0" using r(5) by (simp add: word_unat_eq_iff unat_mod SS_def p_def)
  have out1: "ram v1 a = ram v a" if "buffer_ok a 1" "unat a < unat (win v) \<or> unat (win v) + 512 \<le> unat a" for a
    by (rule volume_stepD(3) [OF v1(3) that])
  show ?thesis
  proof (cases "512 \<le> unat btr")
    case True
    let ?n = "min (unat btr div 512) (unat (csize v1) - p mod cluster_bytes v1 div 512)"
    have "btr div SS > 0" using True by (simp add: word_less_nat_alt unat_div SS_def div_greater_zero_iff)
    then have "read_step rbuff btr fp v = read_sectors rbuff (file_sector v1 cs p)
        (if of_nat (p mod cluster_bytes v1 div 512) + btr div SS > ucast (csize v1)
         then ucast (csize v1) - of_nat (p mod cluster_bytes v1 div 512) else btr div SS) fp1 v1"
      using v1(1) sec unfolding read_step_def Let_def j by (simp add: z fv split del: if_split)
    moreover obtain m where m: "read_sectors rbuff (file_sector v1 cs p) (of_nat ?n) fp1 v1
        = Some (Inr (of_nat (?n * 512)), fp1, v1\<lparr>ram := m\<rparr>)" "0 < ?n" "?n * 512 \<le> unat btr"
        "delivered N cs rbuff (?n * 512) fp1 v1 fp1 (v1\<lparr>ram := m\<rparr>)"
      using deliver_sectors [OF v1(2,4) p1 r(5) True] by blast
    ultimately have "read_step rbuff btr fp v = Some (Inr (of_nat (?n * 512)), fp1, v1\<lparr>ram := m\<rparr>)"
      unfolding clip by simp
    moreover have "unat (fptr fp) + ?n * 512 \<le> length cs * cluster_bytes v" using m(3) r(3,4) p_def by linarith
    from delivered_after [OF m(4) r(1) view w this] have "delivered N cs rbuff (?n * 512) fp v fp1 (v1\<lparr>ram := m\<rparr>)"
      using out1 by blast
    ultimately show ?thesis
      using m(2,3) by (intro exI [of _ "?n * 512"] exI [of _ fp1] exI [of _ "v1\<lparr>ram := m\<rparr>"]) simp
  next
    case False
    let ?s = "file_sector v1 cs p"
    let ?fp2 = "fp1\<lparr>sect := ?s\<rparr>"
    have no: "\<not> btr div SS > 0" using False by (simp add: word_less_nat_alt unat_div SS_def)
    obtain m where m: "fill_buffer ?s fp1 v1 = Some (FR_OK, fp1, v1\<lparr>ram := m\<rparr>)"
        "located N (v1\<lparr>ram := m\<rparr>) cs ?fp2" "view_kept N v1 (v1\<lparr>ram := m\<rparr>)"
        "room rbuff (unat btr) ?fp2 (v1\<lparr>ram := m\<rparr>)"
        "\<forall>a. unat a < unat (buf fp1) \<or> unat (buf fp1) + 512 \<le> unat a \<longrightarrow> m a = ram v1 a"
      using fill_buffer_located [OF v1(2,4) p1 assms(3)] by blast
    have s2: "sect ?fp2 = file_sector (v1\<lparr>ram := m\<rparr>) cs (unat (fptr ?fp2))"
      using p1 by (simp add: file_sector_view [OF m(3)])
    obtain n m2 where m2: "read_partial rbuff btr ?fp2 (v1\<lparr>ram := m\<rparr>)
        = Some (Inr (of_nat n), ?fp2, v1\<lparr>ram := m2\<rparr>)" "0 < n" "n \<le> unat btr"
        "delivered N cs rbuff n ?fp2 (v1\<lparr>ram := m\<rparr>) ?fp2 (v1\<lparr>ram := m2\<rparr>)"
      using deliver_partial [OF m(2,4) assms(3) s2] by auto
    from v1(1) m(1) have "read_step rbuff btr fp v = Some (Inr (of_nat n), ?fp2, v1\<lparr>ram := m2\<rparr>)"
      using no sec m2(1) unfolding read_step_def Let_def j fv(2) by (simp add: z)
    moreover have "unat (fptr fp) + n \<le> length cs * cluster_bytes v" using m2(3) r(3,4) p_def by linarith
    moreover have "?fp2 = fp\<lparr>clust := clust ?fp2, sect := sect ?fp2\<rparr>" by (subst w) simp
    moreover have "\<forall>a. buffer_ok a 1 \<longrightarrow> (unat a < unat (win v) \<or> unat (win v) + 512 \<le> unat a)
          \<longrightarrow> (unat a < unat (buf fp) \<or> unat (buf fp) + 512 \<le> unat a) \<longrightarrow> ram (v1\<lparr>ram := m\<rparr>) a = ram v a"
      using out1 m(5) b1 by simp
    ultimately show ?thesis
      using delivered_after [OF m2(4) r(1) view_kept_trans [OF view m(3)]] m2(2,3) by blast
  qed
qed

lemma read_step_run:
  assumes "reading N v cs fp" and "room rbuff (unat btr) fp v" and "0 < unat btr"
  shows "\<exists>n fp' v'. read_step rbuff btr fp v = Some (Inr (of_nat n), fp', v') \<and> 0 < n \<and> n \<le> unat btr
    \<and> delivered N cs rbuff n fp v fp' v'"
  using read_step_inside [OF assms] read_step_boundary [OF assms] by blast

section \<open>The loop\<close>

lemma deliveredD:
  assumes "delivered N cs rbuff n fp v fp' v'"
  shows "view_kept N v v'" "reading N v' cs (fp'\<lparr>fptr := fptr fp + of_nat n\<rparr>)"
    "fp' = fp\<lparr>clust := clust fp', sect := sect fp'\<rparr>"
    "k < n \<Longrightarrow> ram v' (rbuff + of_nat k) = file_byte v cs (unat (fptr fp) + k)"
    "buffer_ok a 1 \<Longrightarrow> unat a < unat rbuff \<or> unat rbuff + n \<le> unat a \<Longrightarrow> unat a < unat (win v) \<or> unat (win v) + 512 \<le> unat a
      \<Longrightarrow> unat a < unat (buf fp) \<or> unat (buf fp) + 512 \<le> unat a \<Longrightarrow> ram v' a = ram v a"
    "fptr fp' = fptr fp" "buf fp' = buf fp" "objsize fp' = objsize fp"
proof -
  show e: "fp' = fp\<lparr>clust := clust fp', sect := sect fp'\<rparr>" using assms by (simp add: delivered_def)
  show "fptr fp' = fptr fp" "buf fp' = buf fp" "objsize fp' = objsize fp" by (subst e, simp)+
qed (use assms in \<open>auto simp: delivered_def\<close>)

lemma delivered_none:
  assumes "reading N v cs fp"
  shows "delivered N cs rbuff 0 fp v fp v"
proof -
  have "volume_ok N v" using assms by (auto simp: reading_def on_file_def fat_ok_def)
  from view_kept_refl [OF this] show ?thesis using assms by (simp add: delivered_def)
qed

lemma file_room:
  assumes "room rbuff n fp v" and "reading N v cs fp"
  shows "unat (fptr fp) + n \<le> length cs * cluster_bytes v" "n < 4294967296"
    "unat (fptr fp) + n < 4294967296" "unat rbuff + n < 4294967296"
  using assms unat_u32_less [of "objsize fp"] by (simp_all add: room_def reading_def buffer_ok_def)

lemma delivered_trans:
  assumes "delivered N cs rbuff n fp v fp1 v1" and "room rbuff (n + m) fp v" and "reading N v cs fp"
    and "delivered N cs (rbuff + of_nat n) m (fp1\<lparr>fptr := fptr fp + of_nat n\<rparr>) v1 fp2 v2"
  shows "delivered N cs rbuff (n + m) fp v (fp2\<lparr>fptr := fptr fp\<rparr>) v2"
proof -
  note a = deliveredD [OF assms(1)] and b = deliveredD [OF assms(4)]
  note R = file_room [OF assms(2,3)]
  have on: "on_file N v cs" using assms(3) by (simp add: reading_def)
  have ub: "unat (rbuff + of_nat n) = unat rbuff + n" and up: "unat (fptr fp + of_nat n) = unat (fptr fp) + n"
    using R by (simp_all add: unat_u32_add unat_u32_of_nat)
  have w: "win v1 = win v" using view_kept_fields(8) [OF a(1)] .
  have rr: "buffer_ok rbuff (n + m)" "apart rbuff (n + m) (win v) 512" "apart rbuff (n + m) (buf fp) 512"
    using assms(2) by (simp_all add: room_def)
  have out: "ram v2 a = ram v1 a" if "buffer_ok a 1" "unat a < unat rbuff + n \<or> unat rbuff + (n + m) \<le> unat a"
      "unat a < unat (win v) \<or> unat (win v) + 512 \<le> unat a" "unat a < unat (buf fp) \<or> unat (buf fp) + 512 \<le> unat a" for a
    using b(5) [of a] that by (simp add: ub w a(7) add.assoc)
  have "ram v2 (rbuff + of_nat k) = file_byte v cs (unat (fptr fp) + k)" if "k < n + m" for k
  proof (cases "k < n")
    case True
    have e: "unat (rbuff + of_nat k) = unat rbuff + k"
      using rr(1) that by (intro unat_buffer [where n = "n + m"]) (simp_all add: buffer_ok_def)
    have "ram v2 (rbuff + of_nat k) = ram v1 (rbuff + of_nat k)"
      using True rr by (intro out) (auto simp: e buffer_ok_def apart_def)
    then show ?thesis using a(4) [OF True] by simp
  next
    case False
    define j where "j = k - n"
    have k: "k = n + j" "j < m" using False that by (simp_all add: j_def)
    have "ram v2 (rbuff + of_nat k) = file_byte v1 cs (unat (fptr fp) + n + j)"
      using b(4) [OF k(2)] by (simp add: k(1) up add.assoc)
    also have "\<dots> = file_byte v cs (unat (fptr fp) + n + j)"
      using R(1) k(2) by (intro file_byte_view [OF on a(1)]) simp
    finally show ?thesis by (simp add: k(1) add.assoc)
  qed
  moreover have "ram v2 a = ram v a" if "buffer_ok a 1" "unat a < unat rbuff \<or> unat rbuff + (n + m) \<le> unat a"
      "unat a < unat (win v) \<or> unat (win v) + 512 \<le> unat a" "unat a < unat (buf fp) \<or> unat (buf fp) + 512 \<le> unat a" for a
    using that out [of a] a(5) [of a] by auto
  moreover have "fp2\<lparr>fptr := fptr fp\<rparr> = fp\<lparr>clust := clust fp2, sect := sect fp2\<rparr>"
    by (subst b(3), subst a(3)) simp
  moreover have "reading N v2 cs (fp2\<lparr>fptr := fptr fp, fptr := fptr fp + of_nat (n + m)\<rparr>)"
    using b(2) by (simp add: add.assoc)
  moreover have "view_kept N v v2" by (rule view_kept_trans [OF a(1) b(1)])
  ultimately show ?thesis by (simp add: delivered_def)
qed

lemma read_loop_run:
  assumes "reading N v cs fp" and "room rbuff (unat btr) fp v"
  shows "\<exists>fp' v'. read_loop rbuff btr br fp v = Some (FR_OK, br + btr, fp'\<lparr>fptr := fptr fp + btr\<rparr>, v')
    \<and> delivered N cs rbuff (unat btr) fp v fp' v'"
  using assms
proof (induction "unat btr" arbitrary: rbuff btr br fp v rule: less_induct)
  case less
  show ?case
  proof (cases "btr = 0")
    case True
    then show ?thesis
      using delivered_none [OF less.prems(1)] by (intro exI [of _ fp] exI [of _ v]) (simp add: read_loop.simps)
  next
    case False
    then have "0 < unat btr" by (simp add: unat_gt_0)
    from read_step_run [OF less.prems this] obtain n fp1 v1 where
      s: "read_step rbuff btr fp v = Some (Inr (of_nat n), fp1, v1)" "0 < n" "n \<le> unat btr"
        "delivered N cs rbuff n fp v fp1 v1"
      by blast
    note d = deliveredD [OF s(4)] and R = file_room [OF less.prems(2,1)]
    define fp1' where "fp1' = fp1\<lparr>fptr := fptr fp + of_nat n\<rparr>"
    have un: "unat (of_nat n :: u32) = n" using s(3) R(2) by (intro unat_u32_of_nat) simp
    have "of_nat n \<le> btr" using s(3) by (simp add: word_le_nat_alt un)
    then have left: "unat (btr - of_nat n) = unat btr - n" by (simp only: unat_sub un)
    have up: "unat (fptr fp + of_nat n) = unat (fptr fp) + n" "unat (rbuff + of_nat n) = unat rbuff + n"
      using R s(3) by (simp_all add: unat_u32_add un)
    have f: "fptr fp1' = fptr fp + of_nat n" "buf fp1' = buf fp" "objsize fp1' = objsize fp"
      by (simp_all add: fp1'_def d(6-8))
    have room: "room (rbuff + of_nat n) (unat (btr - of_nat n)) fp1' v1"
      using less.prems(2) s(3) unfolding room_def f up left view_kept_fields(8) [OF d(1)]
      by (auto simp: buffer_ok_def apart_def up)
    have "unat (btr - of_nat n) < unat btr" using left s(2,3) by linarith
    from less.hyps [OF this d(2) [folded fp1'_def] room, of "br + of_nat n"] obtain fp2 v2 where
      l: "read_loop (rbuff + of_nat n) (btr - of_nat n) (br + of_nat n) fp1' v1
          = Some (FR_OK, br + btr, fp2\<lparr>fptr := fptr fp + btr\<rparr>, v2)"
        "delivered N cs (rbuff + of_nat n) (unat btr - n) fp1' v1 fp2 v2"
      unfolding left by (auto simp: f)
    have "read_loop rbuff btr br fp v = Some (FR_OK, br + btr, fp2\<lparr>fptr := fptr fp + btr\<rparr>, v2)"
      using l(1) s(1) False by (subst read_loop.simps) (simp add: fp1'_def d(6))
    moreover have "delivered N cs rbuff (unat btr) fp v (fp2\<lparr>fptr := fptr fp\<rparr>) v2"
      using delivered_trans [OF s(4) _ less.prems(1) l(2) [unfolded fp1'_def]] less.prems(2) s(3) by simp
    ultimately show ?thesis by (intro exI [of _ "fp2\<lparr>fptr := fptr fp\<rparr>"] exI [of _ v2]) simp
  qed
qed

section \<open>Reading a file\<close>

lemma opened_reading:
  assumes "on_file N v cs" and "sclust fp = hd cs" and "unat (objsize fp) \<le> length cs * cluster_bytes v"
    and "fptr fp = 0" and "sect fp = 0" and "flag fp AND FA_DIRTY = 0" and "buffer_ok (buf fp) 512"
    and "apart (buf fp) 512 (win v) 512"
  shows "reading N v cs fp"
  using assms by (simp add: reading_def buf_loaded_def)

lemma f_read_run:
  assumes "reading N v cs fp" and "validate fp v = FR_OK" and "err fp = FR_OK" and "flag fp AND FA_READ \<noteq> 0"
    and "n = min (unat btr) (unat (objsize fp) - unat (fptr fp))"
    and "buffer_ok buff n" and "apart buff n (win v) 512" and "apart buff n (buf fp) 512"
  shows "\<exists>fp' v'. f_read buff btr fp v = Some (FR_OK, of_nat n, fp'\<lparr>fptr := fptr fp + of_nat n\<rparr>, v')
    \<and> delivered N cs buff n fp v fp' v'"
proof -
  have le: "unat (fptr fp) \<le> unat (objsize fp)" using assms(1) by (simp add: reading_def)
  then have rem: "unat (objsize fp - fptr fp) = unat (objsize fp) - unat (fptr fp)" by (simp add: unat_sub word_le_nat_alt)
  define r where "r = (if btr > objsize fp - fptr fp then objsize fp - fptr fp else btr)"
  have r: "unat r = n" using assms(5) rem by (auto simp: r_def word_less_nat_alt min_def)
  have "room buff (unat r) fp v" using assms(5-8) le by (auto simp: room_def r)
  from read_loop_run [OF assms(1) this, of 0] obtain fp' v' where
    "read_loop buff r 0 fp v = Some (FR_OK, 0 + r, fp'\<lparr>fptr := fptr fp + r\<rparr>, v')"
    "delivered N cs buff (unat r) fp v fp' v'"
    by blast
  then show ?thesis
    using assms(2-4) of_nat_eq [OF r] unfolding f_read_def Let_def r_def [symmetric] by (auto simp: r)
qed

text \<open>C19: \<open>f_read\<close> on an open, readable file returns \<open>FR_OK\<close> with as many bytes as were asked for, or as many as the
  file still has behind its position if these are fewer. The buffer of the caller then holds the bytes of the file
  from that position on, whichever way they came (the buffer of the file, or whole runs of sectors up to the end
  of a cluster, cluster after cluster along the chain in the FAT); the position has advanced by their number,
  the volume shows the same contents, and the file can be read on.\<close>

theorem f_read_bytes:
  assumes "reading N v cs fp" and "validate fp v = FR_OK" and "err fp = FR_OK" and "flag fp AND FA_READ \<noteq> 0"
    and "n = min (unat btr) (unat (objsize fp) - unat (fptr fp))"
    and "buffer_ok buff n" and "apart buff n (win v) 512" and "apart buff n (buf fp) 512"
  shows "\<exists>fp' v'. f_read buff btr fp v = Some (FR_OK, of_nat n, fp', v')
    \<and> (\<forall>k<n. ram v' (buff + of_nat k) = file_byte v cs (unat (fptr fp) + k))
    \<and> fptr fp' = fptr fp + of_nat n \<and> reading N v' cs fp'
    \<and> (\<forall>s i. unat s < N \<longrightarrow> \<not> second_fat v s \<longrightarrow> i < 512 \<longrightarrow> sector_byte v' s i = sector_byte v s i)
    \<and> (\<forall>k<length cs * cluster_bytes v. file_byte v' cs k = file_byte v cs k)"
proof -
  have on: "on_file N v cs" using assms(1) by (simp add: reading_def)
  obtain fp' v' where r: "f_read buff btr fp v = Some (FR_OK, of_nat n, fp'\<lparr>fptr := fptr fp + of_nat n\<rparr>, v')"
      "delivered N cs buff n fp v fp' v'"
    using f_read_run [OF assms] by blast
  note d = deliveredD [OF r(2)]
  show ?thesis
    by (intro exI [of _ "fp'\<lparr>fptr := fptr fp + of_nat n\<rparr>"] exI [of _ v'] conjI allI impI)
      (simp_all add: r(1) d(2,4) view_keptD(2) [OF d(1)] file_byte_view [OF on d(1)])
qed

text \<open>A file of 600 bytes in the clusters 2 and 3 of the small volume, with a byte set in either of them.\<close>

definition demo_file :: FIL where
  "demo_file = \<lparr>obj_fs = True, obj_id = 1, obj_attr = 0, obj_stat = 0, sclust = 2, objsize = 600, flag = FA_READ, err = FR_OK,
     fptr = 0, clust = 0, sect = 0, dir_sect = 5, dir_ptr = 0, buf = 0x2000\<rparr>"

definition demo_stored :: fat_volume where
  "demo_stored = demo_volume\<lparr>ram := demo_disk(0xE0400C07 := 0x5A, 0xE0400E08 := 0x5B)\<rparr>"

lemma demo_stored_fields: "fs_type demo_stored = FS_FAT12" "csize demo_stored = 1" "n_fatent demo_stored = 500"
  "fatbase demo_stored = 1" "fsize demo_stored = 2" "n_fats demo_stored = 2" "database demo_stored = 6"
  "win demo_stored = 0x1000" "wflag demo_stored = 0" "winsect demo_stored = 0xFFFFFFFF"
  by (simp_all add: demo_stored_def demo_volume_def)

lemma demo_stored_ok: "volume_ok 600 demo_stored" "fat_ok 600 demo_stored"
proof -
  show "volume_ok 600 demo_stored"
    by (simp add: volume_ok_def demo_stored_def demo_volume_def drive_ok_def buffer_ok_def ramdisk_demo_def)
  then show "fat_ok 600 demo_stored"
    by (simp add: fat_ok_def demo_stored_fields max_entries_def table_bytes_def)
qed

lemma demo_stored_entry:
  assumes "cluster demo_volume c"
  shows "fat_entry demo_stored c = fat_entry demo_volume c"
proof (rule fat_entry_bytes [OF demo_fat_ok assms])
  show "fs_type demo_stored = fs_type demo_volume" by (simp add: demo_stored_def)
  fix k assume k: "k < unat (fsize demo_volume) * 512"
  let ?s = "fat_sector demo_volume k"
  note s = unat_fat_sector [OF demo_volume_ok k]
  have "unat ?s = 1 + k div 512" "k div 512 < 2" using s(1) k by (simp_all add: demo_volume_def div_less_iff_less_mult)
  then have "unat ?s * 512 \<le> 2 * 512" by simp
  then have le: "unat ?s * 512 + k mod 512 < 3 * 512" using mod_less_divisor [of 512 k] by linarith
  then have "unat (sector_address ?s + of_nat (k mod 512)) < 0xE0400600"
    by (subst unat_sector_address) simp_all
  then have "sector_address ?s + of_nat (k mod 512) \<noteq> 0xE0400C07" "sector_address ?s + of_nat (k mod 512) \<noteq> 0xE0400E08"
    by auto
  moreover have "?s \<noteq> winsect demo_volume" using s(4) by (auto simp: demo_volume_def)
  moreover have "ram demo_stored = (ram demo_volume)(0xE0400C07 := 0x5A, 0xE0400E08 := 0x5B)"
    "winsect demo_stored = winsect demo_volume" "fat_sector demo_stored k = ?s"
    by (simp_all add: fat_sector_def demo_stored_def) (simp add: demo_volume_def)
  ultimately show "fat_byte demo_stored k = fat_byte demo_volume k"
    by (simp add: fat_byte_def sector_byte_def disk_byte_def)
qed

lemma demo_stored_file: "on_file 600 demo_stored [2, 3]"
proof -
  have c: "cluster demo_volume 2" "cluster demo_volume 3" by (simp_all add: cluster_def demo_volume_def)
  have "chain demo_stored [2, 3]"
    using demo_chain(1) demo_stored_entry [OF c(1)] demo_stored_entry [OF c(2)]
    by (simp add: demo_stored_fields cluster_def) (simp add: demo_volume_def)
  moreover have "\<exists>p\<le>7. (1 :: u16) = 2 ^ p" by (intro exI [of _ 0]) simp
  ultimately show ?thesis
    using demo_stored_ok(2) by (simp add: on_file_def data_ok_def settled_def demo_stored_fields)
qed

lemma demo_stored_byte: "file_byte demo_stored [2, 3] 7 = 0x5A" "file_byte demo_stored [2, 3] 520 = 0x5B"
  by (simp_all add: file_byte_def file_sector_def cluster_bytes_def demo_stored_fields clst2sect_def sector_byte_def
      disk_byte_def sector_address_def SECTOR_SIZE_def RAMDISKVIRTUALADRESS_def word_le_nat_alt)
    (simp_all add: demo_stored_def)

lemma f_read_bytes_witness:
  "\<exists>fp' v'. f_read 0x3000 1000 demo_file demo_stored = Some (FR_OK, 600, fp', v')
    \<and> ram v' 0x3007 = 0x5A \<and> ram v' 0x3208 = 0x5B"
proof -
  have "reading 600 demo_stored [2, 3] demo_file"
    by (rule opened_reading [OF demo_stored_file])
      (simp_all add: demo_file_def demo_stored_fields cluster_bytes_def FA_READ_def FA_DIRTY_def buffer_ok_def apart_def)
  moreover have "validate demo_file demo_stored = FR_OK"
    by (simp add: validate_def demo_file_def demo_stored_def demo_volume_def ramdisk_demo_def disk_status_def FS_FAT12_def)
  moreover have "err demo_file = FR_OK" "flag demo_file AND FA_READ \<noteq> 0"
    "600 = min (unat (1000 :: u32)) (unat (objsize demo_file) - unat (fptr demo_file))"
    "buffer_ok 0x3000 600" "apart 0x3000 600 (win demo_stored) 512" "apart 0x3000 600 (buf demo_file) 512"
    by (simp_all add: demo_file_def demo_stored_fields FA_READ_def buffer_ok_def apart_def)
  ultimately obtain fp' v' where r: "f_read 0x3000 1000 demo_file demo_stored = Some (FR_OK, of_nat 600, fp', v')"
      "\<forall>k<600. ram v' (0x3000 + of_nat k) = file_byte demo_stored [2, 3] (unat (fptr demo_file) + k)"
    using f_read_bytes [where N = 600 and v = demo_stored and cs = "[2, 3]" and fp = demo_file and n = 600
      and btr = 1000 and buff = "0x3000"] by blast
  have "ram v' (0x3000 + of_nat 7) = 0x5A" "ram v' (0x3000 + of_nat 520) = 0x5B"
    using r(2) [rule_format, of 7] r(2) [rule_format, of 520] by (simp_all add: demo_stored_byte demo_file_def)
  then show ?thesis using r(1) by simp
qed

end
