(* ===== verification/Kernel_Unmap.thy ===== *)
theory Kernel_Unmap
  imports Kernel_Memory
begin

text \<open>
  Taking a page of the kernel's half away again, \<open>mem_unmap_page\<close>: the page is gone from the kernel directory and,
  through the synchronisation, from every directory in use; a page table that has become empty is given back
  to the frame allocator when the kernel owns it. All other pages keep their frames.
\<close>

section \<open>The page that goes\<close>

text \<open>A page of the kernel directory whose frame belongs to nobody, as \<open>heap.c\<close> maps them, in a page table that
  the bitmap of the frame allocator reaches.\<close>

definition plain_page :: "mmu_state \<Rightarrow> u32 \<Rightarrow> bool" where
  "plain_page s v \<longleftrightarrow> (let pde = ram s (kdir_frame s) (pd_index v); pte = ram s (pframe pde) (pt_index v)
     in is_table pde \<and> pframe pde < PAGE_FRAMES \<and> present pte \<and> pte AND PAGE_FLAG_OWNER = 0)"

lemma free_frame:
  assumes "pframe e < PAGE_FRAMES"
  shows "\<exists>pm. pmm_free_pageframe (P_PHYS_ADDR e) s = Some pm \<and> used_frames pm = used_frames s - {pframe e} \<and> same_window s pm"
proof -
  have m: "(0xFFF :: u32) = mask 12" by (simp add: mask_eq_exp_minus_1)
  have a: "P_PHYS_ADDR e = frame_addr (pframe e)"
  proof -
    have "unat (P_PHYS_ADDR e) = unat e div 4096 * 4096" by (simp add: P_PHYS_ADDR_def m unat_page_floor)
    moreover have "unat (frame_addr (pframe e)) = unat e div 4096 * 4096"
      using assms by (subst unat_frame_addr) (simp_all add: pframe_def drop_bit_eq_div unat_div)
    ultimately show ?thesis by (simp add: word_unat_eq_iff)
  qed
  show ?thesis
  proof (cases "pframe e \<in> used_frames s")
    case True
    then obtain s' where "pmm_free_pageframe (frame_addr (pframe e)) s = Some s'"
        "used_frames s' = used_frames s - {pframe e}" "same_window s s'"
      by (rule pmm_free_used)
    then show ?thesis unfolding a by blast
  next
    case False
    then have "pmm_free_pageframe (frame_addr (pframe e)) s = Some s"
      using assms by (simp add: pmm_free_pageframe_def is_page_frame_used_iff frame_addr_div Let_def)
    then show ?thesis using False unfolding a by auto
  qed
qed

text \<open>What unmapping does to memory: the entry of the page goes, and with the last one of its table the table may.\<close>

definition unmapped :: "mmu_state \<Rightarrow> nat \<Rightarrow> u32 \<Rightarrow> mmu_state \<Rightarrow> bool" where
  "unmapped s k virt s1 \<longleftrightarrow> (let pd = pd_index virt; f = pframe (ram s k pd) in
     ram s1 f = (ram s f)(pt_index virt := 0) \<and> (\<forall>g. g \<noteq> k \<longrightarrow> g \<noteq> f \<longrightarrow> ram s1 g = ram s g)
     \<and> (\<forall>j. j \<noteq> pd \<longrightarrow> ram s1 k j = ram s k j) \<and> same_window (frames s) (frames s1)
     \<and> used_frames (frames s1) \<subseteq> used_frames (frames s)
     \<and> (if ram s1 k pd = ram s k pd then used_frames (frames s1) = used_frames (frames s)
        else ram s1 k pd = 0 \<and> (\<forall>i<1024. \<not> present (ram s1 f i)) \<and> used_frames (frames s1) = used_frames (frames s) - {f}))"

lemma mem_unmap_page_run:
  assumes ok: "kmem_ok R s" and v: "pd_index virt \<in> R" and page: "plain_page s virt"
  shows "\<exists>e s1. mem_unmap_page virt s = Some (e, (sync_page_dirs s1)\<lparr>cr3 := cr3 s\<rparr>)
    \<and> unmapped s (kdir_frame s) virt s1 \<and> same_setup (s\<lparr>cr3 := kernel_directory s - KERNEL_START\<rparr>) s1"
proof -
  let ?k = "kdir_frame s" and ?pd = "pd_index virt" and ?pt = "pt_index virt"
  define s0 where "s0 = s\<lparr>cr3 := kernel_directory s - KERNEL_START\<rparr>"
  define pde where "pde = ram s ?k ?pd"
  define f where "f = pframe pde"
  define pte where "pte = ram s f ?pt"
  have virt: "KERNEL_START \<le> virt" and pd: "?pd < 1023" and tabs: "tables_ok s ?k" and dirs: "dirs_ok s"
    and cur: "cr3 s + KERNEL_START \<noteq> 0"
    using ok v by (auto simp: kmem_ok_def kernel_ok_def unat_pd_index KERNEL_START_def word_le_nat_alt mem_get_current_page_directory_def)
  have P: "present pde" "pde AND PAGE_FLAG_4MB = 0" "f < PAGE_FRAMES" "present pte" "pte AND PAGE_FLAG_OWNER = 0"
    using page by (simp_all add: plain_page_def pde_def f_def pte_def is_table_def Let_def)
  have fk: "f \<noteq> ?k" using tabs pd P(1,2) by (auto simp: tables_ok_def is_table_def f_def pde_def)
  have rec: "recursive (ram s) ?k" using tabs by (simp add: tables_ok_def)
  have c0: "pframe (cr3 s0) = ?k" by (simp add: s0_def kdir_frame_def)
  have t0: "translate s0 REC_PAGEDIR = Some ?k" "translate s0 (REC_PAGETABLE ?pd) = Some f"
    using walk_recursive [OF rec] pd P(1) by (simp_all add: translate_def c0) (simp_all add: s0_def f_def pde_def)
  define s2 where "s2 = (poke f ?pt 0 s0)\<lparr>mem_num_vpages := mem_num_vpages (poke f ?pt 0 s0) - 1\<rparr>"
  have r2: "ram s2 = (ram s)(f := (ram s f)(?pt := 0))" by (simp add: s2_def s0_def)
  have "recursive (ram s2) ?k" using rec fk by (simp add: recursive_def r2)
  then have t2: "translate s2 REC_PAGEDIR = Some ?k" "translate s2 (REC_PAGETABLE ?pd) = Some f"
    using walk_recursive [of "ram s2" ?k] pd P(1) fk c0
    by (simp_all add: translate_def s2_def r2 [unfolded s2_def]) (simp_all add: f_def pde_def s0_def)
  have fs2: "frames s2 = frames s" by (simp add: s2_def s0_def)
  have set2: "same_setup s0 s2" by (simp add: same_setup_def s2_def)
  let ?gone = "list_all (\<lambda>i. \<not> present (ram s2 f i)) [0..<1024] \<and> pde AND PAGE_FLAG_OWNER \<noteq> 0"
  have pde2: "ram s2 ?k ?pd = pde" using fk by (simp add: r2 pde_def)
  have run: "mem_unmap_page virt s = do {
       s3 \<leftarrow> (if ?gone then do { pm \<leftarrow> pmm_free_pageframe (P_PHYS_ADDR pde) (frames s2); Some (poke ?k ?pd 0 (s2\<lparr>frames := pm\<rparr>)) } else Some s2);
       Some (pte, leave_dir (cr3 s + KERNEL_START) s3) }"
  proof -
    have e: "ram s0 ?k ?pd = pde" "ram s0 f ?pt = pte" by (simp_all add: s0_def pde_def pte_def)
    have rp: "ram (poke f ?pt 0 s0) = ram s2" by (simp add: s2_def)
    show ?thesis
      unfolding mem_unmap_page_def enter_kernel [OF virt] s0_def [symmetric]
      by (simp add: t0 e P Let_def s2_def [symmetric] t2 pde2 rp del: poke_simps)
  qed
  obtain pm where pm: "pmm_free_pageframe (P_PHYS_ADDR pde) (frames s2) = Some pm"
      "used_frames pm = used_frames (frames s) - {f}" "same_window (frames s) pm"
    using free_frame [of pde "frames s2"] P(3) by (auto simp: f_def fs2)
  define s1 where "s1 = (if ?gone then poke ?k ?pd 0 (s2\<lparr>frames := pm\<rparr>) else s2)"
  have set1: "same_setup s0 s1" using set2 by (simp add: s1_def same_setup_def)
  have "kdir_frame s1 = ?k" "pdir_frame s1 = pdir_frame s"
    using set1 by (simp_all add: same_setup_def s0_def kdir_frame_def pdir_frame_def page_dir_def fun_eq_iff)
  then have d1: "dirs_ok s1" using dirs by (simp add: dirs_ok_def)
  have "cr3 s1 = kernel_directory s1 - KERNEL_START" using set1 by (simp add: same_setup_def s0_def)
  then have "leave_dir (cr3 s + KERNEL_START) s1 = (sync_page_dirs s1)\<lparr>cr3 := cr3 s\<rparr>"
    using leave_kernel [OF cur _ d1] by simp
  moreover have "mem_unmap_page virt s = Some (pte, leave_dir (cr3 s + KERNEL_START) s1)"
    unfolding run s1_def using pm(1) by simp
  ultimately have "mem_unmap_page virt s = Some (pte, (sync_page_dirs s1)\<lparr>cr3 := cr3 s\<rparr>)" by simp
  moreover have "unmapped s ?k virt s1"
  proof (cases ?gone)
    case True
    have "pde \<noteq> 0" using P(1) by (auto simp: present_def)
    moreover have "ram s1 = (ram s2)(?k := (ram s2 ?k)(?pd := 0))" "frames s1 = pm"
      using True by (simp_all add: s1_def)
    moreover have "\<not> present (ram s2 f i)" if "i < 1024" for i using True that by (simp add: list_all_iff)
    ultimately show ?thesis
      using fk pm(2,3) unfolding unmapped_def Let_def f_def [symmetric] pde_def [symmetric]
      by (auto simp: r2 f_def [symmetric] pde_def [symmetric])
  next
    case False
    then have "s1 = s2" by (simp only: s1_def if_False)
    then show ?thesis
      using fk unfolding unmapped_def Let_def pde_def [symmetric] f_def [symmetric] by (simp add: r2 fs2 pde_def)
  qed
  ultimately show ?thesis using set1 unfolding s0_def by blast
qed

section \<open>What is left\<close>

definition page_gone :: "nat set \<Rightarrow> u32 \<Rightarrow> mmu_state \<Rightarrow> mmu_state \<Rightarrow> bool" where
  "page_gone R virt s s' \<longleftrightarrow> kmem_ok R s' \<and> same_setup s s' \<and> same_window (frames s) (frames s')
     \<and> used_frames (frames s') \<subseteq> used_frames (frames s)
     \<and> (\<forall>v. pd_index v < 1023 \<longrightarrow> walk (ram s') (kdir_frame s) v
          = (if unat v div 4096 = unat virt div 4096 then None else walk (ram s) (kdir_frame s) v))
     \<and> (\<forall>v. pd_index v < 1023 \<longrightarrow> unat v div 4096 \<noteq> unat virt div 4096 \<longrightarrow> plain_page s v \<longrightarrow> plain_page s' v)
     \<and> spares s s' \<and> (\<forall>g. held s g \<longrightarrow> g \<notin> kernel_frames s \<longrightarrow> held s' g)"

lemma unmappedD:
  assumes "unmapped s k virt s1"
  defines "f \<equiv> pframe (ram s k (pd_index virt))"
  shows "ram s1 f = (ram s f)(pt_index virt := 0)" and "g \<noteq> k \<Longrightarrow> g \<noteq> f \<Longrightarrow> ram s1 g = ram s g"
    and "j \<noteq> pd_index virt \<Longrightarrow> ram s1 k j = ram s k j" and "same_window (frames s) (frames s1)"
    and "used_frames (frames s1) \<subseteq> used_frames (frames s)"
    and "ram s1 k (pd_index virt) = ram s k (pd_index virt) \<and> used_frames (frames s1) = used_frames (frames s)
      \<or> ram s1 k (pd_index virt) = 0 \<and> (\<forall>i<1024. \<not> present (ram s1 f i)) \<and> used_frames (frames s1) = used_frames (frames s) - {f}"
  using assms(1) unfolding unmapped_def Let_def f_def by (auto split: if_splits)

lemma zero_not_table: "\<not> is_table 0" "\<not> present 0"
  by (simp_all add: is_table_def present_def)

lemma held_unmapped:
  assumes U: "unmapped s k virt s1" and "held s g" and "g \<noteq> pframe (ram s k (pd_index virt))"
  shows "held s1 g"
  using unmappedD(6) [OF U] same_windowD [OF unmappedD(4) [OF U]] assms(2,3) by (auto simp: held_def)

lemma table_unmapped:
  assumes U: "unmapped s k virt s1" and tabs: "tables_ok s k" and pd: "pd_index virt < 1023"
    and t: "is_table (ram s k (pd_index virt))" and j: "j < 1023" "is_table (ram s1 k j)"
  shows "ram s1 k j = ram s k j" and "held s1 (pframe (ram s k j))"
    and "j \<noteq> pd_index virt \<Longrightarrow> ram s1 (pframe (ram s k j)) = ram s (pframe (ram s k j))"
proof -
  show same: "ram s1 k j = ram s k j"
    using unmappedD(3,6) [OF U] j(2) zero_not_table(1) by (cases "j = pd_index virt") auto
  then have js: "is_table (ram s k j)" using j(2) by simp
  have h: "held s (pframe (ram s k j))" "pframe (ram s k j) \<noteq> k" using tabs j(1) js by (auto simp: tables_ok_def)
  have other: "pframe (ram s k j) \<noteq> pframe (ram s k (pd_index virt))" if "j \<noteq> pd_index virt"
    using tabs j(1) js pd t that by (auto simp: tables_ok_def)
  then show "j \<noteq> pd_index virt \<Longrightarrow> ram s1 (pframe (ram s k j)) = ram s (pframe (ram s k j))"
    using unmappedD(2) [OF U h(2)] by simp
  show "held s1 (pframe (ram s k j))"
  proof (cases "j = pd_index virt")
    case True
    then have "ram s1 k (pd_index virt) \<noteq> 0" using j(2) zero_not_table(1) by auto
    then have "used_frames (frames s1) = used_frames (frames s)" using unmappedD(6) [OF U] by simp
    then show ?thesis using h(1) same_windowD [OF unmappedD(4) [OF U]] by (simp add: held_def)
  next
    case False
    then show ?thesis using held_unmapped [OF U h(1) other] by simp
  qed
qed

lemma unmapped_walk:
  assumes U: "unmapped s k virt s1" and tabs: "tables_ok s k" and pd: "pd_index virt < 1023"
    and t: "is_table (ram s k (pd_index virt))" and v: "pd_index v < 1023"
  shows "walk (ram s1) k v = (if unat v div 4096 = unat virt div 4096 then None else walk (ram s) k v)"
proof (cases "pd_index v = pd_index virt")
  case True
  have page: "unat v div 4096 = unat virt div 4096 \<longleftrightarrow> pt_index v = pt_index virt"
    using page_eq_iff [of v virt] True by (simp add: page_number)
  have w: "walk (ram s) k v = (let pte = ram s (pframe (ram s k (pd_index virt))) (pt_index v) in if present pte then Some (pframe pte) else None)"
    using t True by (simp add: walk_def is_table_def)
  note un = unmappedD(1) [OF U]
  from unmappedD(6) [OF U] show ?thesis
  proof (elim disjE conjE)
    assume "ram s1 k (pd_index virt) = ram s k (pd_index virt)"
    then show ?thesis using t True un unfolding page w by (simp add: walk_def is_table_def zero_not_table Let_def)
  next
    assume g: "ram s1 k (pd_index virt) = 0" "\<forall>i<1024. \<not> present (ram s1 (pframe (ram s k (pd_index virt))) i)"
    have "\<not> present (ram s (pframe (ram s k (pd_index virt))) (pt_index v))" if "pt_index v \<noteq> pt_index virt"
      using g(2) pt_index_bound [of v] that un by (metis fun_upd_other)
    then show ?thesis using g(1) True unfolding page w by (simp add: walk_def zero_not_table Let_def)
  qed
next
  case False
  then have "unat v div 4096 \<noteq> unat virt div 4096" using page_eq_iff [of v virt] by (simp add: page_number)
  moreover have same: "ram s1 k (pd_index v) = ram s k (pd_index v)" using unmappedD(3) [OF U False] .
  moreover have "ram s1 (pframe (ram s k (pd_index v))) = ram s (pframe (ram s k (pd_index v)))"
    if "is_table (ram s k (pd_index v))"
    using table_unmapped(3) [OF U tabs pd t v] that same False by simp
  ultimately show ?thesis by (auto simp: walk_def Let_def is_table_def)
qed

lemma unmapped_kmem_ok:
  assumes ok: "kmem_ok R s" and U: "unmapped s (kdir_frame s) virt s1" and v: "pd_index virt \<in> R"
    and t: "is_table (ram s (kdir_frame s) (pd_index virt))"
    and su: "same_setup (s\<lparr>cr3 := kernel_directory s - KERNEL_START\<rparr>) s1"
  shows "kernel_ok s1" and "kmem_ok R (s1\<lparr>cr3 := cr3 s\<rparr>)"
proof -
  let ?k = "kdir_frame s" and ?t = "s1\<lparr>cr3 := cr3 s\<rparr>"
  have pd: "pd_index virt < 1023" and tabs: "tables_ok s ?k" and k0: "kernel_ok s" using ok v by (auto simp: kmem_ok_def)
  have k: "kdir_frame s1 = ?k" "pdir_frame s1 = pdir_frame s" "kernel_directory s1 = kernel_directory s"
    using su by (simp_all add: same_setup_def kdir_frame_def pdir_frame_def page_dir_def fun_eq_iff)
  have kt: "kdir_frame ?t = ?k" "pdir_frame ?t = pdir_frame s" "held ?t = held s1"
    using k by (simp_all add: kdir_frame_def pdir_frame_def page_dir_def held_def fun_eq_iff)
  note tab = table_unmapped [OF U tabs pd t]
  have f: "pframe (ram s ?k (pd_index virt)) \<noteq> ?k" using tabs pd t by (simp add: tables_ok_def)
  have "recursive (ram s1) ?k" using tabs unmappedD(3) [OF U, of 1023] pd by (simp add: tables_ok_def recursive_def)
  moreover have "held s1 ?k" using held_unmapped [OF U, of ?k] tabs f by (simp add: tables_ok_def)
  moreover have "pframe (ram s1 ?k i) \<noteq> ?k \<and> held s1 (pframe (ram s1 ?k i))"
    "\<And>j. j < 1023 \<Longrightarrow> is_table (ram s1 ?k j) \<Longrightarrow> pframe (ram s1 ?k i) = pframe (ram s1 ?k j) \<Longrightarrow> i = j"
    if i: "i < 1023" "is_table (ram s1 ?k i)" for i
  proof -
    have e: "ram s1 ?k i = ram s ?k i" by (rule tab(1) [OF i])
    then show "pframe (ram s1 ?k i) \<noteq> ?k \<and> held s1 (pframe (ram s1 ?k i))"
      using tab(2) [OF i] i tabs by (simp add: tables_ok_def)
    show "i = j" if j: "j < 1023" "is_table (ram s1 ?k j)" "pframe (ram s1 ?k i) = pframe (ram s1 ?k j)" for j
    proof -
      have "ram s1 ?k j = ram s ?k j" by (rule tab(1) [OF j(1,2)])
      then show ?thesis using tabs i j e unfolding tables_ok_def by metis
    qed
  qed
  ultimately have tabs1: "tables_ok s1 ?k" unfolding tables_ok_def by blast
  have "held s1 (pdir_frame s i) \<and> (\<forall>j<1023. is_table (ram s1 ?k j) \<longrightarrow> pframe (ram s1 ?k j) \<noteq> pdir_frame s i)"
    if i: "i < NUM_PAGE_DIRS" for i
  proof -
    have "held s (pdir_frame s i)" "pdir_frame s i \<noteq> pframe (ram s ?k (pd_index virt))"
      using k0 i pd t unfolding kernel_ok_def by metis+
    then have "held s1 (pdir_frame s i)" by (rule held_unmapped [OF U])
    moreover have "pframe (ram s1 ?k j) \<noteq> pdir_frame s i" if "j < 1023" "is_table (ram s1 ?k j)" for j
      using tab(1) [OF that] that k0 i unfolding kernel_ok_def by metis
    ultimately show ?thesis by blast
  qed
  then show k1: "kernel_ok s1" using k0 by (simp add: kernel_ok_def dirs_ok_def k)
  have "present (ram s1 ?k j) \<longrightarrow> is_table (ram s1 ?k j)" if "j \<in> R" for j
    using unmappedD(3,6) [OF U] ok that zero_not_table(2) by (cases "j = pd_index virt") (auto simp: kmem_ok_def)
  moreover have "tables_ok ?t ?k" using tabs1 by (simp add: tables_ok_def kt)
  moreover have "kernel_ok ?t" using k1 by (simp add: kernel_ok_def dirs_ok_def kt k)
  ultimately show "kmem_ok R ?t"
    using ok same_windowD [OF unmappedD(4) [OF U]] unfolding kmem_ok_def kt k
    by (auto simp: mem_get_current_page_directory_def)
qed

lemma unmapped_spares:
  assumes ok: "kmem_ok R s" and U: "unmapped s (kdir_frame s) virt s1" and v: "pd_index virt \<in> R"
    and t: "is_table (ram s (kdir_frame s) (pd_index virt))"
    and su: "same_setup (s\<lparr>cr3 := kernel_directory s - KERNEL_START\<rparr>) s1"
  shows "spares s ((sync_page_dirs s1)\<lparr>cr3 := cr3 s\<rparr>)"
proof -
  let ?t = "(sync_page_dirs s1)\<lparr>cr3 := cr3 s\<rparr>" and ?k = "kdir_frame s" and ?f = "pframe (ram s (kdir_frame s) (pd_index virt))"
  have pd: "pd_index virt < 1023" and tabs: "tables_ok s ?k" and k0: "kernel_ok s" using ok v by (auto simp: kmem_ok_def)
  note k1 = unmapped_kmem_ok(1) [OF assms]
  have d1: "dirs_ok s1" using k1 by (simp add: kernel_ok_def)
  have k: "kdir_frame s1 = ?k" "pdir_frame s1 = pdir_frame s" "dir_used s1 = dir_used s"
    using su by (simp_all add: same_setup_def kdir_frame_def pdir_frame_def page_dir_def dir_used_def fun_eq_iff)
  have kt: "kdir_frame ?t = ?k" "pdir_frame ?t = pdir_frame s" "ram ?t = ram (sync_page_dirs s1)"
    using k unfolding sync_page_dirs_ram [OF d1] by (simp_all add: kdir_frame_def pdir_frame_def page_dir_def fun_eq_iff)
  note sy = sync_page_dirs_other(1,2) [OF k1, unfolded k]
  note tab = table_unmapped [OF U tabs pd t]
  have tf: "table_frames ?t \<subseteq> table_frames s"
  proof
    fix g assume "g \<in> table_frames ?t"
    then obtain j where j: "j < 1023" "is_table (ram s1 ?k j)" "g = pframe (ram s1 ?k j)"
      by (auto simp: table_frames_def dir_tables_def kt sy(2))
    with tab(1) [OF j(1,2)] show "g \<in> table_frames s" by (auto simp: table_frames_def dir_tables_def)
  qed
  have fm: "?f \<in> table_frames s" using t pd by (auto simp: table_frames_def dir_tables_def)
  have "ram ?t g = ram s g \<and> g \<notin> kernel_frames ?t" if g: "g \<notin> kernel_frames s" for g
  proof -
    have out: "g \<noteq> ?k" "g \<notin> pdir_frame s ` {..<NUM_PAGE_DIRS}" "g \<notin> table_frames s" using g by (auto simp: kernel_frames_def)
    then have "ram s1 g = ram s g" using unmappedD(2) [OF U] fm by blast
    then show ?thesis using sy(1) [OF out(2)] out tf by (auto simp: kernel_frames_def kt)
  qed
  moreover have "ram ?t (pdir_frame s i) j = ram s (pdir_frame s i) j" if i: "i < NUM_PAGE_DIRS" "\<not> (768 \<le> j \<and> j < 1023)" for i j
  proof -
    have "pdir_frame s i \<noteq> ?k" using k0 i(1) unfolding kernel_ok_def dirs_ok_def by (metis imageI lessThan_iff)
    moreover have "pdir_frame s i \<noteq> ?f" using k0 i(1) pd t unfolding kernel_ok_def by metis
    ultimately have "ram s1 (pdir_frame s i) = ram s (pdir_frame s i)" by (rule unmappedD(2) [OF U])
    then show ?thesis using i(2) unfolding kt sync_page_dirs_ram [OF d1] by auto
  qed
  moreover have "mirrors ?t i" if "dir_used s i" for i
    unfolding mirrors_def kt sy(2) using that k by (auto simp: sync_page_dirs_ram [OF d1])
  ultimately show ?thesis by (simp add: spares_def)
qed

lemma kmem_unmap:
  assumes ok: "kmem_ok R s" and v: "pd_index virt \<in> R" and page: "plain_page s virt"
  shows "\<exists>e s'. mem_unmap_page virt s = Some (e, s') \<and> page_gone R virt s s'"
proof -
  let ?k = "kdir_frame s" and ?f = "pframe (ram s (kdir_frame s) (pd_index virt))"
  have pd: "pd_index virt < 1023" and tabs: "tables_ok s ?k" and k0: "kernel_ok s" using ok v by (auto simp: kmem_ok_def)
  have t: "is_table (ram s ?k (pd_index virt))" using page by (simp add: plain_page_def Let_def)
  obtain e s1 where s1: "mem_unmap_page virt s = Some (e, (sync_page_dirs s1)\<lparr>cr3 := cr3 s\<rparr>)"
    and U: "unmapped s ?k virt s1" and su: "same_setup (s\<lparr>cr3 := kernel_directory s - KERNEL_START\<rparr>) s1"
    using mem_unmap_page_run [OF assms] by blast
  define s' where "s' = (sync_page_dirs s1)\<lparr>cr3 := cr3 s\<rparr>"
  note k1 = unmapped_kmem_ok [OF ok U v t su]
  have d1: "dirs_ok s1" using k1(1) by (simp add: kernel_ok_def)
  have k: "kdir_frame s1 = ?k" "pdir_frame s1 = pdir_frame s" "kdir_frame (s1\<lparr>cr3 := cr3 s\<rparr>) = ?k"
    using su by (simp_all add: same_setup_def kdir_frame_def pdir_frame_def page_dir_def fun_eq_iff)
  have r': "ram s' ?k = ram s1 ?k" using sync_page_dirs_other(2) [OF k1(1)] by (simp add: s'_def k)
  have fr: "frames s' = frames s1" by (simp add: s'_def sync_page_dirs_ram [OF d1])
  have set': "same_setup (s1\<lparr>cr3 := cr3 s\<rparr>) s'" by (simp add: s'_def sync_page_dirs_ram [OF d1] same_setup_def)
  have kd': "kdir_frame s' = ?k" using same_setup_frames [OF set'] k(3) by simp
  have "kmem_ok R s'" using kmem_cong(1) [OF set', of R] r' fr k1(2) by (simp add: k)
  moreover have "same_setup s s'" using set' su by (simp add: same_setup_def)
  moreover have "same_window (frames s) (frames s')" "used_frames (frames s') \<subseteq> used_frames (frames s)"
    using unmappedD(4,5) [OF U] by (simp_all add: fr)
  moreover have walk': "walk (ram s') ?k w = (if unat w div 4096 = unat virt div 4096 then None else walk (ram s) ?k w)"
    if "pd_index w < 1023" for w
    using sync_page_dirs_other(4) [OF k1(1), of w] that unmapped_walk [OF U tabs pd t that] by (simp add: s'_def k)
  moreover have "plain_page s' w" if w: "pd_index w < 1023" "unat w div 4096 \<noteq> unat virt div 4096" "plain_page s w" for w
  proof -
    let ?pde = "ram s ?k (pd_index w)"
    have p: "is_table ?pde" "pframe ?pde < PAGE_FRAMES" "present (ram s (pframe ?pde) (pt_index w))"
        "ram s (pframe ?pde) (pt_index w) AND PAGE_FLAG_OWNER = 0"
      using w(3) by (simp_all add: plain_page_def Let_def)
    have walk0: "walk (ram s1) ?k w \<noteq> None"
      using unmapped_walk [OF U tabs pd t w(1)] w(2) p by (simp add: walk_def is_table_def Let_def)
    then have "present (ram s1 ?k (pd_index w))" by (auto simp: walk_def Let_def split: if_splits)
    then have e: "ram s1 ?k (pd_index w) = ?pde"
      using unmappedD(3,6) [OF U] zero_not_table(2) by (cases "pd_index w = pd_index virt") auto
    have "ram s1 (pframe ?pde) (pt_index w) = ram s (pframe ?pde) (pt_index w)"
    proof (cases "pd_index w = pd_index virt")
      case True
      then have "pt_index w \<noteq> pt_index virt" using w(2) page_eq_iff [of w virt] by (simp add: page_number)
      then show ?thesis using unmappedD(1) [OF U] True by simp
    next
      case False
      then show ?thesis using table_unmapped(3) [OF U tabs pd t w(1)] p(1) e by simp
    qed
    moreover have "ram s' (pframe ?pde) = ram s1 (pframe ?pde)"
      using sync_page_dirs_other(3) [OF k1(1), of "pd_index w"] p(1) w(1) e by (simp add: s'_def k)
    ultimately show ?thesis using p e by (simp add: plain_page_def kd' r')
  qed
  moreover have "spares s s'" unfolding s'_def by (rule unmapped_spares [OF ok U v t su])
  moreover have "held s' g" if "held s g" "g \<notin> kernel_frames s" for g
  proof -
    have "?f \<in> kernel_frames s" using t pd by (auto simp: kernel_frames_def table_frames_def dir_tables_def)
    then have "held s1 g" using held_unmapped [OF U that(1)] that(2) by blast
    then show ?thesis by (simp add: held_def fr)
  qed
  ultimately have "page_gone R virt s s'" unfolding page_gone_def by blast
  then show ?thesis using s1 unfolding s'_def by blast
qed

text \<open>A directory that sees the kernel's half sees that the page is gone, and nothing else.\<close>

lemma sees_kernel_gone:
  assumes st: "page_gone R virt s s'" and virt: "768 \<le> pd_index virt" and sees: "sees_kernel s"
  shows "sees_kernel s'"
    and "pd_index v < 1023 \<Longrightarrow> translate s' v = (if unat v div 4096 = unat virt div 4096 then None else translate s v)"
proof -
  have su: "same_setup s s'" and sp: "spares s s'"
    and held: "\<And>g. held s g \<Longrightarrow> g \<notin> kernel_frames s \<Longrightarrow> held s' g"
    and walk': "\<And>v. pd_index v < 1023 \<Longrightarrow> walk (ram s') (kdir_frame s) v
      = (if unat v div 4096 = unat virt div 4096 then None else walk (ram s) (kdir_frame s) v)"
    using st unfolding page_gone_def by blast+
  have c: "cur_dir s' = cur_dir s" using su by (simp add: same_setup_def)
  have k: "kdir_frame s' = kdir_frame s" "pdir_frame s' = pdir_frame s" using same_setup_frames [OF su] by simp_all
  show s': "sees_kernel s'"
  proof (cases "cur_dir s = kdir_frame s")
    case True
    then show ?thesis by (simp add: sees_kernel_def c k)
  next
    case False
    then obtain i where i: "dir_used s i" "cur_dir s = pdir_frame s i" "mirrors s i"
        "\<And>j. j < 768 \<Longrightarrow> is_table (ram s (pdir_frame s i) j) \<Longrightarrow> held s (pframe (ram s (pdir_frame s i) j))
          \<and> pframe (ram s (pdir_frame s i) j) \<notin> kernel_frames s"
      using sees by (auto simp: sees_kernel_def)
    have "i < NUM_PAGE_DIRS" using i(1) by (simp add: dir_used_def)
    then have "ram s' (pdir_frame s i) j = ram s (pdir_frame s i) j" if "j < 768" for j using sp that by (simp add: spares_def)
    then have "is_table (ram s' (pdir_frame s i) j) \<Longrightarrow> held s' (pframe (ram s' (pdir_frame s i) j))
        \<and> pframe (ram s' (pdir_frame s i) j) \<notin> kernel_frames s'" if "j < 768" for j
      using i(4) [OF that] that sp held by (simp add: spares_def)
    moreover have "dir_used s' i" "mirrors s' i" using i(1,3) sp same_setup_used [OF su] by (simp_all add: spares_def)
    ultimately show ?thesis using i(2) unfolding sees_kernel_def c k by auto
  qed
  show "translate s' v = (if unat v div 4096 = unat virt div 4096 then None else translate s v)" if v: "pd_index v < 1023"
  proof (cases "768 \<le> pd_index v \<or> cur_dir s = kdir_frame s")
    case True
    then have "translate s' v = walk (ram s') (kdir_frame s) v" "translate s v = walk (ram s) (kdir_frame s) v"
      using sees_kernel_walk [OF s' _ v] sees_kernel_walk [OF sees _ v] k c by (auto simp: translate_def)
    then show ?thesis using walk' [OF v] by simp
  next
    case False
    then obtain i where i: "dir_used s i" "cur_dir s = pdir_frame s i"
        "\<And>j. j < 768 \<Longrightarrow> is_table (ram s (pdir_frame s i) j) \<Longrightarrow> held s (pframe (ram s (pdir_frame s i) j))
          \<and> pframe (ram s (pdir_frame s i) j) \<notin> kernel_frames s"
      using sees by (auto simp: sees_kernel_def)
    have "pd_index v \<noteq> pd_index virt" using False virt by auto
    then have "unat v div 4096 \<noteq> unat virt div 4096" using page_eq_iff [of v virt] by (simp add: page_number)
    moreover have "i < NUM_PAGE_DIRS" using i(1) by (simp add: dir_used_def)
    then have "ram s' (pdir_frame s i) (pd_index v) = ram s (pdir_frame s i) (pd_index v)" using sp False by (simp add: spares_def)
    moreover have "ram s' g = ram s g" if "is_table (ram s (pdir_frame s i) (pd_index v))" "g = pframe (ram s (pdir_frame s i) (pd_index v))" for g
      using that i(3) [OF _ that(1)] False sp by (simp add: spares_def)
    ultimately show ?thesis by (auto simp: translate_def walk_def Let_def c i(2) is_table_def)
  qed
qed

end
