(* ===== verification/Heap_Free.thy ===== *)
theory Heap_Free
  imports Heap_Growth Kernel_Unmap
begin

text \<open>
  Giving blocks of the heap back: \<open>kfree\<close> marks the blocks of the allocation as free and \<open>heap_contract\<close> unmaps
  the free blocks at the end of the heap. The frames of those pages are not given back to the frame allocator,
  as \<open>heap.c\<close> maps them without the owner flag.
\<close>

section \<open>A heap that can give blocks back\<close>

definition heap_frees :: "heap_state \<Rightarrow> bool" where
  "heap_frees h \<longleftrightarrow> kmem_ok heap_pdes (mmu h) \<and> sees_kernel (mmu h) \<and> blocks h \<le> 4096
     \<and> (\<forall>i < blocks h. plain_page (mmu h) (block_address i))"

definition in_use :: "heap_state \<Rightarrow> nat \<Rightarrow> bool" where
  "in_use h i \<longleftrightarrow> i < blocks h \<and> \<not> block_free h i"

text \<open>The heap has lost pages at its end, and nothing else has moved.\<close>

definition shrunk :: "heap_state \<Rightarrow> heap_state \<Rightarrow> bool" where
  "shrunk h h' \<longleftrightarrow> heap_frees h' \<and> blocks h' \<le> blocks h \<and> (\<forall>v. pd_index v < 1023 \<longrightarrow> translate (mmu h') v
     = (if 0xD0000 + blocks h' \<le> unat v div 4096 \<and> unat v div 4096 < 0xD0000 + blocks h then None else translate (mmu h) v))"

text \<open>The blocks of \<open>A\<close> have become free, and the last block of the heap is in use again.\<close>

definition freed :: "nat set \<Rightarrow> heap_state \<Rightarrow> heap_state \<Rightarrow> bool" where
  "freed A h h' \<longleftrightarrow> shrunk h h' \<and> (\<forall>i. in_use h' i \<longleftrightarrow> in_use h i \<and> i \<notin> A)
     \<and> (\<forall>i. i \<notin> A \<longrightarrow> heap_mem h' i = heap_mem h i) \<and> (blocks h' = 0 \<or> in_use h' (blocks h' - 1))"

lemma block_page:
  assumes "i < 4096"
  shows "pd_index (block_address i) \<in> heap_pdes" and "pd_index (block_address i) < 1023"
    and "unat (block_address i) div 4096 = 0xD0000 + i" and "768 \<le> pd_index (block_address i)"
proof -
  have "unat (of_nat i :: u32) = i" using assms by (intro unat_u32_of_nat) simp
  note p = heap_block_page [OF this assms, folded block_address_def]
  show "pd_index (block_address i) \<in> heap_pdes" "pd_index (block_address i) < 1023"
      "unat (block_address i) div 4096 = 0xD0000 + i" by (rule p)+
  show "768 \<le> pd_index (block_address i)" using p(1) by (simp add: heap_pdes_def)
qed

lemma plain_page_walk: "plain_page s v \<Longrightarrow> walk (ram s) (kdir_frame s) v \<noteq> None"
  by (simp add: plain_page_def walk_def is_table_def Let_def)

lemma heap_frees_table: "heap_frees h \<Longrightarrow> table_mapped h"
  unfolding table_mapped_def
proof (intro allI impI)
  fix i assume h: "heap_frees h" and i: "i < blocks h"
  have b: "block_address 0 = HEAP_START_ADDRESS" by (simp add: block_address_def)
  have "plain_page (mmu h) (block_address 0)" using h i unfolding heap_frees_def by auto
  then have "walk (ram (mmu h)) (kdir_frame (mmu h)) HEAP_START_ADDRESS \<noteq> None" unfolding b by (rule plain_page_walk)
  moreover have "translate (mmu h) HEAP_START_ADDRESS = walk (ram (mmu h)) (kdir_frame (mmu h)) HEAP_START_ADDRESS"
    using h block_page [of 0] unfolding b by (intro sees_kernel_walk) (simp_all add: heap_frees_def)
  ultimately have "heap_mapped h 0" by (simp add: heap_mapped_def)
  then show "heap_mapped h i" using heap_mapped_page [of i 0] h i by (simp add: heap_frees_def)
qed

lemma shrunk_refl: "heap_frees h \<Longrightarrow> shrunk h h"
  by (auto simp: shrunk_def)

lemma shrunk_trans: "shrunk h h1 \<Longrightarrow> shrunk h1 h2 \<Longrightarrow> shrunk h h2"
  by (auto simp: shrunk_def)

lemma freed_trans: "freed A h h1 \<Longrightarrow> freed B h1 h2 \<Longrightarrow> freed (A \<union> B) h h2"
  using shrunk_trans [of h h1 h2] unfolding freed_def by auto

section \<open>Contraction\<close>

lemma one_block_less: "blocks h = Suc n \<Longrightarrow> unat (total_blocks h - 1) = n"
  by (subst unat_minus_one) (auto simp: blocks_def)

lemma heap_contract_step:
  assumes h: "heap_frees h" and b: "blocks h = Suc n"
  shows "\<exists>e m. mem_unmap_page (block_address n) (mmu h) = Some (e, m)
    \<and> shrunk h (h\<lparr>mmu := m, total_blocks := total_blocks h - 1, heap_size := heap_size h - HEAP_BLOCK_SIZE\<rparr>)"
proof -
  have n: "n < 4096" and ok: "kmem_ok heap_pdes (mmu h)" and sees: "sees_kernel (mmu h)"
    and pages: "\<forall>i < Suc n. plain_page (mmu h) (block_address i)"
    using h b by (simp_all add: heap_frees_def)
  note p = block_page [OF n]
  obtain e m where m: "mem_unmap_page (block_address n) (mmu h) = Some (e, m)"
      "page_gone heap_pdes (block_address n) (mmu h) m"
    using kmem_unmap [OF ok p(1)] pages by blast
  define h1 where "h1 = h\<lparr>mmu := m, total_blocks := total_blocks h - 1, heap_size := heap_size h - HEAP_BLOCK_SIZE\<rparr>"
  have b1: "blocks h1 = n" using b one_block_less [of h] by (simp add: h1_def blocks_def)
  note gone = sees_kernel_gone [OF m(2) p(4) sees]
  have "plain_page m (block_address i)" if "i < n" for i
    using m(2) pages that block_page [of i] n unfolding page_gone_def p(3) by auto
  moreover have "kmem_ok heap_pdes m" using m(2) by (simp add: page_gone_def)
  ultimately have "heap_frees h1" using gone(1) n by (simp add: heap_frees_def b1) (simp add: h1_def)
  moreover have "translate m v = (if 0xD0000 + n \<le> unat v div 4096 \<and> unat v div 4096 < 0xD0000 + Suc n then None else translate (mmu h) v)"
    if "pd_index v < 1023" for v
    using gone(2) [OF that] unfolding p(3) by auto
  ultimately have "shrunk h h1" by (simp add: shrunk_def b1 b) (simp add: h1_def)
  then show ?thesis using m(1) unfolding h1_def by blast
qed

lemma heap_contract_run:
  assumes "heap_frees h"
  shows "\<exists>h'. heap_contract h = Some h' \<and> freed {} h h' \<and> (0 < blocks h \<and> in_use h (blocks h - 1) \<longrightarrow> h' = h)"
proof -
  have "\<exists>h'. heap_contract_loop (blocks h) h = Some h' \<and> freed {} h h' \<and> (0 < blocks h \<and> in_use h (blocks h - 1) \<longrightarrow> h' = h)"
    using assms
  proof (induction "blocks h" arbitrary: h)
    case 0
    then show ?case using shrunk_refl [OF 0(2)] by (simp add: freed_def flip: 0(1))
  next
    case (Suc n)
    have "heap_mapped h n" using heap_frees_table [OF Suc.prems] Suc.hyps(2) by (simp add: table_mapped_def)
    then have e: "entry h n = Some (heap_mem h n)" by (simp add: entry_def)
    show ?case
    proof (cases "block_free h n")
      case False
      then have "in_use h n" using Suc.hyps(2) by (simp add: in_use_def)
      then have "freed {} h h" using shrunk_refl [OF Suc.prems] by (simp add: freed_def flip: Suc.hyps(2))
      then show ?thesis using False e by (simp add: block_free_def flip: Suc.hyps(2))
    next
      case True
      obtain pte m where m: "mem_unmap_page (block_address n) (mmu h) = Some (pte, m)"
          "shrunk h (h\<lparr>mmu := m, total_blocks := total_blocks h - 1, heap_size := heap_size h - HEAP_BLOCK_SIZE\<rparr>)"
        using heap_contract_step [OF Suc.prems Suc.hyps(2) [symmetric]] by blast
      define h1 where "h1 = h\<lparr>mmu := m, total_blocks := total_blocks h - 1, heap_size := heap_size h - HEAP_BLOCK_SIZE\<rparr>"
      have b1: "blocks h1 = n" using Suc.hyps(2) one_block_less [of h] by (simp add: h1_def blocks_def)
      have mem: "heap_mem h1 = heap_mem h" by (simp add: h1_def)
      have "heap_frees h1" using m(2) by (simp add: shrunk_def h1_def)
      then obtain h' where h': "heap_contract_loop n h1 = Some h'" "freed {} h1 h'"
        using Suc.hyps(1) [of h1] b1 by auto
      have "in_use h1 i \<longleftrightarrow> in_use h i" for i
        using True less_Suc_eq [of i n] Suc.hyps(2) by (auto simp: in_use_def b1 block_free_def mem)
      then have "freed {} h h'"
        using h'(2) m(2) shrunk_trans [of h h1 h'] mem unfolding freed_def h1_def [symmetric] by auto
      moreover have "\<not> in_use h n" using True by (simp add: in_use_def)
      moreover have "heap_contract_loop (Suc n) h = Some h'"
        using e True m(1) h'(1) by (simp add: block_free_def h1_def block_address_def)
      ultimately show ?thesis by (simp flip: Suc.hyps(2))
    qed
  qed
  then show ?thesis by (simp add: heap_contract_def blocks_def)
qed

section \<open>Freeing a block\<close>

lemma heap_frees_mem: "heap_frees (h\<lparr>heap_mem := f\<rparr>) = heap_frees h"
  by (simp add: heap_frees_def blocks_def)

text \<open>An allocation of one block.\<close>

lemma kfree_block:
  assumes h: "heap_frees h" and p: "p < blocks h" and e: "heap_mem h p AND HEAP_BLOCK_HAS_NEXT = 0"
  shows "\<exists>h'. kfree (block_address p) h = Some h' \<and> freed {p} h h'"
proof -
  define h1 where "h1 = h\<lparr>heap_mem := (heap_mem h)(p := HEAP_BLOCK_TABLE_ENTRY_FREE)\<rparr>"
  have p': "p < 4096" using h p by (simp add: heap_frees_def)
  have "entry h p = Some (heap_mem h p)" using heap_frees_table [OF h] p by (simp add: entry_def table_mapped_def)
  then have mark: "heap_mark_blocks_free p h = Some h1"
    using p e by (subst heap_mark_blocks_free.simps) (simp add: h1_def blocks_def)
  have "heap_frees h1" using h by (simp add: h1_def heap_frees_mem)
  then obtain h' where h': "heap_contract h1 = Some h'" "freed {} h1 h'" using heap_contract_run by blast
  have b1: "blocks h1 = blocks h" "mmu h1 = mmu h" by (simp_all add: h1_def blocks_def)
  have "block_free h1 i \<longleftrightarrow> i = p \<or> block_free h i" for i by (simp add: h1_def block_free_def)
  then have "in_use h1 i \<longleftrightarrow> in_use h i \<and> i \<notin> {p}" for i by (auto simp: in_use_def b1)
  moreover have "heap_mem h1 i = heap_mem h i" if "i \<notin> {p}" for i using that by (simp add: h1_def)
  moreover have "shrunk h h'" using h'(2) by (simp add: freed_def shrunk_def b1)
  ultimately have "freed {p} h h'" using h'(2) unfolding freed_def by auto
  moreover have "kfree (block_address p) h = Some h'"
    using mark h'(1) heap_address_to_block_address [of p] p' by (simp add: kfree_def heap_free_def Let_def)
  ultimately show ?thesis by blast
qed

text \<open>C25: in a heap whose pages are in order and in which a long enough run of blocks is free, \<open>kmalloc\<close> takes such
  a run and \<open>kfree\<close> of its result comes back: then exactly the blocks are in use that were before, with
  the same entries, the free blocks at the end of the heap are gone, and every page of memory but theirs is
  mapped as before. When the last block was in use the heap is exactly as it was.\<close>

theorem kfree_kmalloc:
  assumes "heap_frees h" and "0 < unat sz" and "is_run h ((unat sz + 4095) div 4096) q"
  shows "\<exists>ptr h1 h2. kmalloc sz h = Some (ptr, h1) \<and> ptr \<noteq> 0 \<and> kfree ptr h1 = Some h2
    \<and> (\<forall>i. in_use h2 i \<longleftrightarrow> in_use h i) \<and> heap_mem h2 = heap_mem h \<and> heap_frees h2
    \<and> blocks h2 \<le> blocks h \<and> (blocks h2 = 0 \<or> in_use h2 (blocks h2 - 1))
    \<and> (\<forall>v. pd_index v < 1023 \<longrightarrow> translate (mmu h2) v
         = (if 0xD0000 + blocks h2 \<le> unat v div 4096 \<and> unat v div 4096 < 0xD0000 + blocks h then None else translate (mmu h) v))
    \<and> (0 < blocks h \<and> in_use h (blocks h - 1) \<longrightarrow> h2 = h)"
proof -
  have "blocks h < 196608" using assms(1) by (simp add: heap_frees_def)
  then obtain ptr h1 where m: "kmalloc sz h = Some (ptr, h1)" "ptr \<noteq> 0" "kfree ptr h1 = heap_contract h"
    using kfree_kmalloc_contracts [OF heap_frees_table [OF assms(1)] assms(2) _ assms(3)] by blast
  obtain h2 where h2: "heap_contract h = Some h2" "freed {} h h2" "0 < blocks h \<and> in_use h (blocks h - 1) \<longrightarrow> h2 = h"
    using heap_contract_run [OF assms(1)] by blast
  have f: "shrunk h h2" "\<forall>i. in_use h2 i \<longleftrightarrow> in_use h i" "\<forall>i. heap_mem h2 i = heap_mem h i"
      "blocks h2 = 0 \<or> in_use h2 (blocks h2 - 1)"
    using h2(2) unfolding freed_def by auto
  have "kfree ptr h1 = Some h2" using m(3) h2(1) by simp
  moreover have "heap_mem h2 = heap_mem h" using f(3) by (simp add: fun_eq_iff)
  moreover have "heap_frees h2" "blocks h2 \<le> blocks h" using f(1) by (simp_all add: shrunk_def)
  moreover have "\<forall>v. pd_index v < 1023 \<longrightarrow> translate (mmu h2) v
      = (if 0xD0000 + blocks h2 \<le> unat v div 4096 \<and> unat v div 4096 < 0xD0000 + blocks h then None else translate (mmu h) v)"
    using f(1) unfolding shrunk_def by blast
  ultimately show ?thesis using m(1,2) f(2,4) h2(3) by blast
qed

section \<open>A concrete heap\<close>

text \<open>A heap of \<open>n\<close> blocks on the frames from 301 on, in the kernel directory of \<open>small_heap\<close>.\<close>

definition paged_heap :: "nat \<Rightarrow> (nat \<Rightarrow> u8) \<Rightarrow> heap_state" where
  "paged_heap n f = \<lparr>heap_mem = f, total_blocks = of_nat n, heap_size = of_nat n * HEAP_BLOCK_SIZE,
     mmu = (mmu small_heap)\<lparr>ram := (ram (mmu small_heap))(300 := (\<lambda>i. if i < n then push_bit 12 (of_nat (301 + i)) OR 3 else 0))\<rparr>\<rparr>"

lemma paged_heap_frees:
  assumes "n \<le> 1024"
  shows "heap_frees (paged_heap n f)" and "blocks (paged_heap n f) = n"
proof -
  let ?m = "mmu (paged_heap n f)"
  have k: "kdir_frame ?m = 1" "pframe (cr3 ?m) = 1" "kdir_frame (mmu small_heap) = 1"
    using small_heap_frames(1) by (simp_all add: paged_heap_def) (simp add: small_heap_def pframe_def)
  show b: "blocks (paged_heap n f) = n"
    using assms unat_u32_of_nat [of n] by (simp add: blocks_def paged_heap_def)
  have "kmem_ok heap_pdes ?m = kmem_ok heap_pdes (mmu small_heap)"
    by (rule kmem_cong) (simp_all add: paged_heap_def same_setup_def small_heap_frames)
  then have "kmem_ok heap_pdes ?m" using small_heap_grows(1) by (simp add: heap_grows_def)
  moreover have "sees_kernel ?m" by (simp add: sees_kernel_def k)
  moreover have "plain_page ?m (block_address i)" if i: "i < n" for i
  proof -
    have u: "unat (block_address i) = 4096 * (0xD0000 + i)"
      using i assms by (simp add: block_address_def HEAP_START_ADDRESS_def HEAP_BLOCK_SIZE_def unat_word_ariths unat_of_nat)
    have pd: "pd_index (block_address i) = 832"
      using pde_of_page [of 832 i] i assms unfolding unat_pd_index u by simp
    have pt: "pt_index (block_address i) = i"
      using i assms mod_mult_self1 [of i 832 1024] unfolding unat_pt_index u by (simp add: add.commute)
    have "ram ?m 1 832 = 0x12C003" using small_heap_frames(5) [of 832] by (simp add: paged_heap_def)
    moreover have "pframe 0x12C003 = 300" "is_table (0x12C003 :: u32)" "(300 :: nat) < PAGE_FRAMES"
      by (simp_all add: pframe_def is_table_def present_def page_flags PAGE_FRAMES_eq)
    moreover have "present (push_bit 12 x OR 3)" "(push_bit 12 x OR 3) AND PAGE_FLAG_OWNER = 0" for x :: u32
    proof -
      show "present (push_bit 12 x OR 3)" by (simp add: present_bit bit_simps)
      have "PAGE_FLAG_OWNER = 2 ^ 9" by (simp add: PAGE_FLAG_OWNER_def)
      moreover have "\<not> bit (push_bit 12 x OR 3) 9" by (simp add: bit_simps)
      ultimately show "(push_bit 12 x OR 3) AND PAGE_FLAG_OWNER = 0" by (metis and_exp_eq_0_iff_not_bit)
    qed
    ultimately show ?thesis using i by (simp add: plain_page_def k pd pt) (simp add: paged_heap_def)
  qed
  ultimately show "heap_frees (paged_heap n f)" using assms by (simp add: heap_frees_def b)
qed

theorem kfree_kmalloc_witness:
  "\<exists>ptr h1 h2. kmalloc 5000 (paged_heap 4 (\<lambda>i. if i = 0 then 0x41 else 0)) = Some (ptr, h1) \<and> ptr \<noteq> 0
    \<and> kfree ptr h1 = Some h2 \<and> blocks h2 = 1"
proof -
  define h where "h = paged_heap 4 (\<lambda>i. if i = 0 then 0x41 else 0)"
  have ok: "heap_frees h" "blocks h = 4" unfolding h_def by (rule paged_heap_frees; simp)+
  have "heap_mem h i = (if i = 0 then 0x41 else 0)" for i by (simp add: h_def paged_heap_def)
  then have free: "block_free h i \<longleftrightarrow> i \<noteq> 0" for i by (simp add: block_free_def entry_consts)
  have use: "in_use h i \<longleftrightarrow> i = 0" for i by (auto simp: in_use_def ok(2) free)
  have "is_run h 2 1" by (simp add: is_run_def ok(2) free)
  then have run: "is_run h ((unat (5000 :: u32) + 4095) div 4096) 1" by simp
  have sz: "0 < unat (5000 :: u32)" by simp
  obtain ptr h1 h2 where r: "kmalloc 5000 h = Some (ptr, h1)" "ptr \<noteq> 0" "kfree ptr h1 = Some h2"
      "\<forall>i. in_use h2 i \<longleftrightarrow> in_use h i" "blocks h2 = 0 \<or> in_use h2 (blocks h2 - 1)"
    using kfree_kmalloc [OF ok(1) sz run] by (elim exE conjE) (rule that)
  have "in_use h2 i \<longleftrightarrow> i = 0" for i using r(4) use by simp
  then have "0 < blocks h2" "blocks h2 - 1 = 0" using r(5) by (auto simp: in_use_def)
  then have "blocks h2 = 1" by simp
  then show ?thesis using r(1-3) unfolding h_def by blast
qed

end
