(* ===== verification/Process_Delete.thy ===== *)
theory Process_Delete
  imports Process Heap_Free
begin

text \<open>
  \<open>rbDelete\<close> of \<open>sys/process.c\<close> as a whole: the part on the tree, which is \<open>rb_delete_node\<close>, and the three calls of
  \<open>kfree\<close> that give back the stack of the kernel, the thread and the process. The node \<open>NIL\<close> is an object
  of the kernel's heap like the others, and the first one that is allocated, so it lies over the table of the blocks
  (\<open>kzalloc_hands_out_the_table\<close>, \<open>boot_address_space\<close>): there its words are bytes of the table.
\<close>

section \<open>The sentinel in the table of the blocks\<close>

definition word_at :: "(nat \<Rightarrow> u8) \<Rightarrow> nat \<Rightarrow> u32" where
  "word_at m i = ucast (m i) OR push_bit 8 (ucast (m (i + 1))) OR push_bit 16 (ucast (m (i + 2))) OR push_bit 24 (ucast (m (i + 3)))"

definition put_word :: "nat \<Rightarrow> u32 \<Rightarrow> (nat \<Rightarrow> u8) \<Rightarrow> nat \<Rightarrow> u8" where
  "put_word i w m = m(i := ucast w, i + 1 := ucast (drop_bit 8 w), i + 2 := ucast (drop_bit 16 w), i + 3 := ucast (drop_bit 24 w))"

text \<open>\<open>NIL\<close> lies in the first page of the heap; where.\<close>

definition nil_offset :: "pstate \<Rightarrow> nat" where
  "nil_offset p = unat (NIL p - HEAP_START_ADDRESS)"

definition over_table :: "pstate \<Rightarrow> bool" where
  "over_table p \<longleftrightarrow> HEAP_START_ADDRESS \<le> NIL p \<and> nil_offset p + 40 \<le> 4096"

text \<open>The words of \<open>NIL\<close> that the functions on the tree read and write: \<open>color\<close>, \<open>parent\<close>, \<open>left\<close> and \<open>right\<close>.\<close>

definition load_sentinel :: "'a kstate_scheme \<Rightarrow> pstate" where
  "load_sentinel s = (let p = ptab s; m = heap_mem (kheap s); i = nil_offset p in
     if over_table p
     then p\<lparr>procs := (procs p)(NIL p := map_option (\<lambda>n. n\<lparr>color := word_at m (i + 16), parent := word_at m (i + 20),
            left := word_at m (i + 24), right := word_at m (i + 28)\<rparr>) (procs p (NIL p)))\<rparr>
     else p)"

definition store_sentinel :: "pstate \<Rightarrow> heap_state \<Rightarrow> heap_state" where
  "store_sentinel p h = (let i = nil_offset p in case procs p (NIL p) of
     Some n \<Rightarrow> if over_table p
       then h\<lparr>heap_mem := put_word (i + 28) (right n) (put_word (i + 24) (left n)
              (put_word (i + 20) (parent n) (put_word (i + 16) (color n) (heap_mem h))))\<rparr>
       else h
   | None \<Rightarrow> h)"

section \<open>Deletion\<close>

definition kernel_kfree :: "u32 \<Rightarrow> 'a kstate_scheme \<Rightarrow> 'a kstate_scheme option" where
  "kernel_kfree ptr s = do { h \<leftarrow> kfree ptr (kheap s); Some (s\<lparr>kheap := h\<rparr>) }"

definition rbDelete :: "u32 \<Rightarrow> u32 \<Rightarrow> 'a kstate_scheme \<Rightarrow> 'a kstate_scheme option" where
  "rbDelete apic k s = do {
     (z, p) \<leftarrow> rb_delete_node apic (load_sentinel s) k;
     if z = NULL then Some (s\<lparr>ptab := p\<rparr>)
     else do {
       let s = s\<lparr>ptab := p, kheap := store_sentinel p (kheap s)\<rparr>;
       own \<leftarrow> rd (ptab s) z;
       th \<leftarrow> rd_thread s (head_thread own);
       s \<leftarrow> kernel_kfree (kstack_stackStart th) s;
       own \<leftarrow> rd (ptab s) z;
       s \<leftarrow> kernel_kfree (head_thread own) s;
       kernel_kfree z s
     }
   }"

section \<open>Words and bytes\<close>

lemma word_at_put: "word_at (put_word i w m) i = w"
proof (rule bit_eqI)
  fix n :: nat
  assume "possible_bit TYPE(u32) n"
  then have n: "n < 32" by simp
  have big: "\<not> bit (x :: u8) j" if "8 \<le> j" for x j using bit_imp_le_length [of x j] that by auto
  show "bit (word_at (put_word i w m) i) n \<longleftrightarrow> bit w n"
  proof -
    consider "n < 8" | "8 \<le> n" "n < 16" | "16 \<le> n" "n < 24" | "24 \<le> n" "n < 32" using n by linarith
    then show ?thesis by cases (auto simp: word_at_def put_word_def bit_simps big)
  qed
qed

lemma word_at_other: "i + 4 \<le> j \<or> j + 4 \<le> i \<Longrightarrow> word_at (put_word i w m) j = word_at m j"
  by (auto simp: word_at_def put_word_def)

lemma put_word_other: "j < i \<Longrightarrow> put_word i w m j = m j"
  by (simp add: put_word_def)

lemma store_sentinel_mem:
  "j < nil_offset p + 16 \<Longrightarrow> heap_mem (store_sentinel p h) j = heap_mem h j"
  "store_sentinel p h = h\<lparr>heap_mem := heap_mem (store_sentinel p h)\<rparr>"
  by (simp_all add: store_sentinel_def put_word_other Let_def split: option.split)

text \<open>What has been stored is what is read, as long as nobody has written to the bytes in between.\<close>

lemma load_store_sentinel:
  assumes p: "procs p (NIL p) \<noteq> None" and s: "ptab s = p"
    and m: "over_table p \<Longrightarrow> \<forall>j. nil_offset p + 16 \<le> j \<longrightarrow> j < nil_offset p + 32
      \<longrightarrow> heap_mem (kheap s) j = heap_mem (store_sentinel p h) j"
  shows "load_sentinel s = p"
proof (cases "over_table p")
  case False
  then show ?thesis by (simp add: load_sentinel_def s Let_def)
next
  case True
  obtain n where n: "procs p (NIL p) = Some n" using p by blast
  have "word_at (heap_mem (kheap s)) (nil_offset p + j) = word_at (heap_mem (store_sentinel p h)) (nil_offset p + j)"
    if "j \<in> {16, 20, 24, 28}" for j
    using m [OF True] that by (auto simp: word_at_def)
  moreover have "heap_mem (store_sentinel p h) = put_word (nil_offset p + 28) (right n) (put_word (nil_offset p + 24) (left n)
      (put_word (nil_offset p + 20) (parent n) (put_word (nil_offset p + 16) (color n) (heap_mem h))))"
    by (simp add: store_sentinel_def n True Let_def)
  ultimately have w: "word_at (heap_mem (kheap s)) (nil_offset p + 16) = color n" "word_at (heap_mem (kheap s)) (nil_offset p + 20) = parent n"
      "word_at (heap_mem (kheap s)) (nil_offset p + 24) = left n" "word_at (heap_mem (kheap s)) (nil_offset p + 28) = right n"
    by (simp_all add: word_at_put word_at_other)
  have "(procs p)(NIL p \<mapsto> n) = procs p" using n by auto
  then show ?thesis using True by (simp add: load_sentinel_def s n w Let_def)
qed

section \<open>The objects of the processes\<close>

text \<open>An object that is one block of the heap, behind the block with the table.\<close>

definition single_block :: "heap_state \<Rightarrow> u32 \<Rightarrow> bool" where
  "single_block h a \<longleftrightarrow> (\<exists>i. 0 < i \<and> a = block_address i \<and> in_use h i \<and> heap_mem h i AND HEAP_BLOCK_HAS_NEXT = 0)"

text \<open>What belongs to a process: its node, its first thread and that thread's kernel stack.\<close>

definition thread_of :: "'a kstate_scheme \<Rightarrow> ptr \<Rightarrow> ptr" where
  "thread_of s z = head_thread (the (procs (ptab s) z))"

definition stack_of :: "'a kstate_scheme \<Rightarrow> ptr \<Rightarrow> u32" where
  "stack_of s z = kstack_stackStart (the (threads s (thread_of s z)))"

definition objects :: "'a kstate_scheme \<Rightarrow> ptr \<Rightarrow> u32 list" where
  "objects s z = [stack_of s z, thread_of s z, z]"

definition objects_ok :: "'a kstate_scheme \<Rightarrow> ptr set \<Rightarrow> bool" where
  "objects_ok s zs \<longleftrightarrow> (\<forall>z\<in>zs. threads s (thread_of s z) \<noteq> None \<and> distinct (objects s z)
       \<and> (\<forall>a\<in>set (objects s z). single_block (kheap s) a))
     \<and> (\<forall>z\<in>zs. \<forall>y\<in>zs. y \<noteq> z \<longrightarrow> set (objects s y) \<inter> set (objects s z) = {})"

text \<open>The blocks at the addresses of \<open>A\<close> are free again and the heap ends with a block in use; the blocks that
  stay in use keep their entries.\<close>

definition gave_back :: "u32 set \<Rightarrow> heap_state \<Rightarrow> heap_state \<Rightarrow> bool" where
  "gave_back A h h' \<longleftrightarrow> shrunk h h' \<and> (\<forall>i. in_use h' i \<longleftrightarrow> in_use h i \<and> block_address i \<notin> A)
     \<and> (\<forall>i. in_use h' i \<longrightarrow> heap_mem h' i = heap_mem h i) \<and> (blocks h' = 0 \<or> in_use h' (blocks h' - 1))"

text \<open>The table of the blocks ends before the words of \<open>NIL\<close>.\<close>

definition table_before_sentinel :: "'a kstate_scheme \<Rightarrow> bool" where
  "table_before_sentinel s \<longleftrightarrow> (over_table (ptab s) \<longrightarrow> blocks (kheap s) \<le> nil_offset (ptab s) + 16)"

lemma single_block_index: "single_block h a \<Longrightarrow> \<exists>i < blocks h. a = block_address i"
  by (auto simp: single_block_def in_use_def)

lemma single_block_free:
  assumes h: "heap_frees h" and a: "single_block h a"
  shows "\<exists>i h'. i < 4096 \<and> a = block_address i \<and> kfree a h = Some h' \<and> freed {i} h h'"
proof -
  obtain i where i: "a = block_address i" "in_use h i" "heap_mem h i AND HEAP_BLOCK_HAS_NEXT = 0"
    using a by (auto simp: single_block_def)
  then have "i < blocks h" by (simp add: in_use_def)
  moreover from this have "i < 4096" using h by (simp add: heap_frees_def)
  ultimately show ?thesis using kfree_block [OF h _ i(3)] i(1) by blast
qed

lemma single_block_kept:
  assumes f: "freed {i} h h'" and i: "i < 4096" and a: "single_block h a" "a \<noteq> block_address i"
  shows "single_block h' a"
proof -
  obtain j where j: "0 < j" "a = block_address j" "in_use h j" "heap_mem h j AND HEAP_BLOCK_HAS_NEXT = 0"
    using a(1) by (auto simp: single_block_def)
  moreover have "j \<noteq> i" using a(2) j(2) by auto
  ultimately show ?thesis using f unfolding single_block_def freed_def by (intro exI [of _ j]) auto
qed

text \<open>Three calls of \<open>kfree\<close> for three objects.\<close>

lemma kfree_three:
  assumes h: "heap_frees h" and d: "distinct [a, b, c]" and s: "single_block h a" "single_block h b" "single_block h c"
  shows "\<exists>h1 h2 h3 A. kfree a h = Some h1 \<and> kfree b h1 = Some h2 \<and> kfree c h2 = Some h3
    \<and> freed A h h3 \<and> block_address ` A = {a, b, c} \<and> A \<subseteq> {..<4096} \<and> A \<subseteq> {..<blocks h}"
proof -
  obtain i h1 where i: "i < 4096" "a = block_address i" "kfree a h = Some h1" "freed {i} h h1"
    using single_block_free [OF h s(1)] by blast
  have h1: "heap_frees h1" using i(4) by (simp add: freed_def shrunk_def)
  have s1: "single_block h1 b" "single_block h1 c"
    using single_block_kept [OF i(4,1)] s(2,3) d by (auto simp: i(2))
  obtain j h2 where j: "j < 4096" "b = block_address j" "kfree b h1 = Some h2" "freed {j} h1 h2"
    using single_block_free [OF h1 s1(1)] by blast
  have h2: "heap_frees h2" using j(4) by (simp add: freed_def shrunk_def)
  have s2: "single_block h2 c" using single_block_kept [OF j(4,1) s1(2)] d by (auto simp: j(2))
  obtain k h3 where k: "k < 4096" "c = block_address k" "kfree c h2 = Some h3" "freed {k} h2 h3"
    using single_block_free [OF h2 s2] by blast
  have f: "freed ({i} \<union> {j} \<union> {k}) h h3" using freed_trans [OF freed_trans [OF i(4) j(4)] k(4)] .
  have "x < blocks h" if x: "single_block h (block_address x)" "x < 4096" for x
  proof -
    obtain y where y: "y < blocks h" "block_address x = block_address y" using single_block_index [OF x(1)] by (elim exE conjE) (rule that)
    moreover have "y < 4096" using y(1) h by (simp add: heap_frees_def)
    ultimately show ?thesis using block_address_inj [of x y] x(2) by simp
  qed
  then have "{i} \<union> {j} \<union> {k} \<subseteq> {..<blocks h}" using s i(1,2) j(1,2) k(1,2) by auto
  with f show ?thesis
    using i j k by (intro exI [of _ h1] exI [of _ h2] exI [of _ h3] exI [of _ "{i} \<union> {j} \<union> {k}"]) auto
qed

lemma single_block_gave_back: "gave_back A h h' \<Longrightarrow> single_block h a \<Longrightarrow> a \<notin> A \<Longrightarrow> single_block h' a"
  unfolding single_block_def gave_back_def by metis

section \<open>The table of the processes\<close>

lemma table_distinct: "table s xs \<Longrightarrow> distinct (map fst xs)"
  by (auto simp: table_def rep_def tdist_addrs)

lemma table_node:
  assumes "table s xs" and "(z, k) \<in> set xs"
  shows "z \<noteq> NULL" and "z \<noteq> NIL s" and "procs s z \<noteq> None"
proof -
  obtain t where t: "rep s t" "nodes t = xs" using assms(1) by (auto simp: table_def)
  then obtain c l r cs where p: "t = plug (Br c l z k r) cs" using assms(2) node_plug [of z k t] by blast
  obtain n where "rd s z = Some n" using t(1) unfolding p by (rule rep_node)
  then show "z \<noteq> NULL" "procs s z \<noteq> None" by (simp_all add: rd_def split: if_splits)
  have "z \<in> tset t" using assms(2) t(2) by (force simp: tset_addrs)
  then show "z \<noteq> NIL s" using rep_addrs(2) [OF t(1)] by blast
qed

lemma table_sentinel: "table s xs \<Longrightarrow> procs s (NIL s) \<noteq> None"
  by (auto simp: table_def rep_def sentinel_def)

lemma remove_addr:
  assumes "distinct (map fst xs)" and "(z, k) \<in> set xs"
  shows "fst ` set (remove1 (z, k) xs) = fst ` set xs - {z}"
proof -
  have d: "distinct xs" "inj_on fst (set xs)" using assms(1) by (simp_all add: distinct_map)
  have "fst ` (set xs - {(z, k)}) = fst ` set xs - fst ` {(z, k)}"
    using d(2) assms(2) by (intro inj_on_image_set_diff [of fst "set xs"]) auto
  then show ?thesis using d(1) by (simp add: set_remove1_eq)
qed

lemma frame_head_thread:
  assumes "frame A s s'" and "procs s y \<noteq> None"
  shows "procs s' y \<noteq> None" and "head_thread (the (procs s' y)) = head_thread (the (procs s y))"
proof -
  have p: "map_option payload (procs s' y) = map_option payload (procs s y)" using assms(1) by (simp add: frame_def)
  then show n: "procs s' y \<noteq> None" using assms(2) by auto
  have h: "head_thread (payload n) = head_thread n" for n by (simp add: payload_def)
  obtain a b where "procs s y = Some a" "procs s' y = Some b" using assms(2) n by blast
  moreover from this have "head_thread (payload b) = head_thread (payload a)" using p by simp
  then have "head_thread b = head_thread a" by (simp only: h)
  ultimately show "head_thread (the (procs s' y)) = head_thread (the (procs s y))" by simp
qed

text \<open>The state that every deletion finds and leaves: a table of processes whose objects are blocks of a heap in
  order, with the words of \<open>NIL\<close> behind the end of the block table.\<close>

definition processes_ok :: "'a kstate_scheme \<Rightarrow> (ptr \<times> u32) list \<Rightarrow> bool" where
  "processes_ok s xs \<longleftrightarrow> table (ptab s) xs \<and> locked (rbTreeLock (ptab s)) = 0 \<and> load_sentinel s = ptab s
     \<and> table_before_sentinel s \<and> heap_frees (kheap s) \<and> objects_ok s (fst ` set xs)"

text \<open>The part on the heap, with the table \<open>p\<close> that the part on the tree has left.\<close>

lemma store_sentinel_heap:
  assumes before: "over_table p \<longrightarrow> blocks h \<le> nil_offset p + 16" and h: "heap_frees h"
  shows "heap_frees (store_sentinel p h)" and "blocks (store_sentinel p h) = blocks h" and "mmu (store_sentinel p h) = mmu h"
    and "i < blocks h \<Longrightarrow> heap_mem (store_sentinel p h) i = heap_mem h i"
    and "in_use (store_sentinel p h) i = in_use h i"
    and "single_block (store_sentinel p h) a = single_block h a"
proof -
  let ?h = "store_sentinel p h"
  have eq: "?h = h\<lparr>heap_mem := heap_mem ?h\<rparr>" by (rule store_sentinel_mem(2))
  show "heap_frees ?h" using h heap_frees_mem [where h = h and f = "heap_mem ?h"] eq by metis
  show b: "blocks ?h = blocks h" and "mmu ?h = mmu h"
    by (simp_all add: store_sentinel_def blocks_def Let_def split: option.split)
  have mem: "heap_mem ?h i = heap_mem h i" if "i < blocks h" for i
  proof (cases "over_table p")
    case True
    then show ?thesis using before that by (intro store_sentinel_mem(1)) simp
  next
    case False
    then show ?thesis by (simp add: store_sentinel_def Let_def split: option.split)
  qed
  then show "i < blocks h \<Longrightarrow> heap_mem ?h i = heap_mem h i" .
  show use: "in_use ?h i = in_use h i" for i using mem [of i] by (auto simp: in_use_def b block_free_def)
  have "heap_mem ?h j = heap_mem h j" if "in_use h j" for j using that mem by (simp add: in_use_def)
  then show "single_block ?h a = single_block h a" unfolding single_block_def use by metis
qed

lemma free_objects:
  assumes before: "over_table p \<longrightarrow> blocks h \<le> nil_offset p + 16" and h: "heap_frees h"
    and d: "distinct [a, b, c]" and sb: "\<forall>x \<in> {a, b, c}. single_block h x"
  shows "\<exists>h1 h2 h3. kfree a (store_sentinel p h) = Some h1 \<and> kfree b h1 = Some h2 \<and> kfree c h2 = Some h3
    \<and> gave_back {a, b, c} h h3
    \<and> (over_table p \<longrightarrow> (\<forall>j \<ge> nil_offset p + 16. heap_mem h3 j = heap_mem (store_sentinel p h) j))"
proof -
  let ?h = "store_sentinel p h"
  note S = store_sentinel_heap [OF before h]
  have "single_block ?h a" "single_block ?h b" "single_block ?h c" using sb S(6) by simp_all
  from kfree_three [OF S(1) d this] obtain h1 h2 h3 A where
    k: "kfree a ?h = Some h1" "kfree b h1 = Some h2" "kfree c h2 = Some h3"
    and f: "freed A ?h h3" and A: "block_address ` A = {a, b, c}" "A \<subseteq> {..<4096}" "A \<subseteq> {..<blocks ?h}"
    by (elim exE conjE) (rule that)
  have less: "i < 4096" if "in_use h i" for i using that h by (simp add: in_use_def heap_frees_def)
  have "i \<in> A \<longleftrightarrow> block_address i \<in> {a, b, c}" if "in_use h i" for i
  proof
    assume "block_address i \<in> {a, b, c}"
    then obtain j where "j \<in> A" "block_address i = block_address j" unfolding A(1) [symmetric] by blast
    then show "i \<in> A" using block_address_inj [OF less [OF that], of j] A(2) by auto
  qed (use A(1) in blast)
  then have use: "in_use h3 i \<longleftrightarrow> in_use h i \<and> block_address i \<notin> {a, b, c}" for i
    using f S(5) unfolding freed_def by blast
  have ent: "heap_mem h3 i = heap_mem h i" if "in_use h3 i" for i
  proof -
    have "in_use ?h i" "i \<notin> A" using that f unfolding freed_def by blast+
    then have "heap_mem h3 i = heap_mem ?h i" "i < blocks h" using f S(5) [of i] unfolding freed_def by (auto simp: in_use_def)
    then show ?thesis using S(4) by simp
  qed
  have "shrunk h h3" using f S(2,3) unfolding freed_def shrunk_def by simp
  then have "gave_back {a, b, c} h h3"
    using use ent f unfolding gave_back_def freed_def by blast
  moreover have "heap_mem h3 j = heap_mem ?h j" if "over_table p" "nil_offset p + 16 \<le> j" for j
  proof -
    have "j \<notin> A" using A(3) before that S(2) by auto
    then show ?thesis using f unfolding freed_def by blast
  qed
  ultimately show ?thesis using k by blast
qed

section \<open>Deletion is correct\<close>

text \<open>C2: \<open>rbDelete\<close> with the tree lock free, on a table of processes whose nodes, first threads and kernel stacks are
  blocks of the heap, with the block table ending before the words of \<open>NIL\<close> that lie over it. When some process
  has the pid, one such process is removed without a fault: the table is a red-black tree of exactly the other
  processes, of which only colours and links have changed; the three blocks of the process, its node, its
  first thread and that thread's stack, are free again and the heap ends with a block in use, all other blocks in use
  being as they were; and the result is again a state from which processes can be deleted.
  When no process has the pid only the lock changes.\<close>

theorem rbDelete_correct:
  assumes "processes_ok s xs"
  shows "if k \<in> snd ` set xs
    then \<exists>z s'. rbDelete apic k s = Some s' \<and> (z, k) \<in> set xs \<and> processes_ok s' (remove1 (z, k) xs)
      \<and> frame (insert (NIL (ptab s)) (fst ` set xs))
          ((ptab s)\<lparr>rbTreeLock := (rbTreeLock (ptab s))\<lparr>lock_cpu := 0\<rparr>, iflag := True\<rparr>) (ptab s')
      \<and> gave_back {stack_of s z, thread_of s z, z} (kheap s) (kheap s')
      \<and> s' = s\<lparr>ptab := ptab s', kheap := kheap s'\<rparr>
    else rbDelete apic k s
      = Some (s\<lparr>ptab := (ptab s)\<lparr>rbTreeLock := (rbTreeLock (ptab s))\<lparr>lock_cpu := 0\<rparr>, iflag := True\<rparr>\<rparr>)"
proof -
  have tab: "table (ptab s) xs" and lock: "locked (rbTreeLock (ptab s)) = 0" and stored: "load_sentinel s = ptab s"
    and before: "table_before_sentinel s" and heap: "heap_frees (kheap s)" and obj: "objects_ok s (fst ` set xs)"
    using assms by (simp_all add: processes_ok_def)
  define p0 where "p0 = (ptab s)\<lparr>rbTreeLock := (rbTreeLock (ptab s))\<lparr>lock_cpu := 0\<rparr>, iflag := True\<rparr>"
  note node = rb_delete_node_run [OF tab lock, of k apic, folded p0_def]
  show ?thesis
  proof (cases "k \<in> snd ` set xs")
    case False
    then show ?thesis using node by (simp add: rbDelete_def stored p0_def)
  next
    case True
    then obtain z p where z: "rb_delete_node apic (ptab s) k = Some (z, p)" "(z, k) \<in> set xs" "table p (remove1 (z, k) xs)"
        and F: "frame (insert (NIL (ptab s)) (fst ` set xs)) p0 p"
      using node by auto
    have NILp: "NIL p = NIL (ptab s)" using F by (simp add: frame_def p0_def)
    have same: "over_table p = over_table (ptab s)" "nil_offset p = nil_offset (ptab s)"
      by (simp_all add: over_table_def nil_offset_def NILp)
    have zx: "z \<in> fst ` set xs" using z(2) by force
    have keep: "procs p y \<noteq> None \<and> head_thread (the (procs p y)) = thread_of s y" if y: "y \<in> fst ` set xs" for y
    proof -
      obtain j where "(y, j) \<in> set xs" using y by auto
      then have "procs p0 y \<noteq> None" using table_node(3) [OF tab] by (simp add: p0_def)
      then show ?thesis using frame_head_thread [OF F] by (simp add: thread_of_def p0_def)
    qed
    obtain n where n: "rd p z = Some n" "head_thread n = thread_of s z"
      using keep [OF zx] table_node(1) [OF tab z(2)] by (auto simp: rd_def)
    have o: "threads s (thread_of s z) \<noteq> None" "distinct [stack_of s z, thread_of s z, z]"
        "\<forall>a \<in> {stack_of s z, thread_of s z, z}. single_block (kheap s) a"
      using obj zx by (auto simp: objects_ok_def objects_def)
    have "thread_of s z \<noteq> NULL"
    proof -
      obtain i where "i < blocks (kheap s)" "thread_of s z = block_address i" using single_block_index o(3) by blast
      then show ?thesis using block_address_not_null [of i] heap by (simp add: heap_frees_def NULL_def)
    qed
    then obtain th where th: "rd_thread s (thread_of s z) = Some th" "kstack_stackStart th = stack_of s z"
      using o(1) by (auto simp: rd_thread_def stack_of_def)
    have bf: "over_table p \<longrightarrow> blocks (kheap s) \<le> nil_offset p + 16"
      using before by (simp add: table_before_sentinel_def same)
    from free_objects [OF bf heap o(2,3)] obtain h1 h2 h3 where
      h: "kfree (stack_of s z) (store_sentinel p (kheap s)) = Some h1" "kfree (thread_of s z) h1 = Some h2" "kfree z h2 = Some h3"
        "gave_back {stack_of s z, thread_of s z, z} (kheap s) h3"
      and bytes: "over_table p \<longrightarrow> (\<forall>j \<ge> nil_offset p + 16. heap_mem h3 j = heap_mem (store_sentinel p (kheap s)) j)"
      by (elim exE conjE) (rule that)
    define s' where "s' = s\<lparr>ptab := p, kheap := h3\<rparr>"
    have zN: "z \<noteq> NULL" by (rule table_node(1) [OF tab z(2)])
    have rdt: "rd_thread (t\<lparr>kheap := h\<rparr>) = rd_thread t" "rd_thread (t\<lparr>ptab := p\<rparr>) = rd_thread t" for t :: "'a kstate_scheme" and h p
      by (simp_all add: rd_thread_def fun_eq_iff)
    have run: "rbDelete apic k s = Some s'"
      using z(1) zN n th h(1-3) by (simp add: rbDelete_def stored rdt kernel_kfree_def s'_def)
    have st: "ptab s' = p" "kheap s' = h3" "threads s' = threads s" by (simp_all add: s'_def)
    have objs: "thread_of s' y = thread_of s y" "stack_of s' y = stack_of s y" if "y \<in> fst ` set xs" for y
      using keep [OF that] by (simp_all add: thread_of_def stack_of_def st)
    have rest: "fst ` set (remove1 (z, k) xs) = fst ` set xs - {z}"
      by (rule remove_addr [OF table_distinct [OF tab] z(2)])
    have "objects_ok s' (fst ` set (remove1 (z, k) xs))"
      unfolding objects_ok_def rest
    proof (intro conjI ballI impI)
      fix y assume y: "y \<in> fst ` set xs - {z}"
      then have yx: "y \<in> fst ` set xs" by blast
      note oy = objs [OF yx]
      have "threads s (thread_of s y) \<noteq> None" "distinct (objects s y)"
        using obj yx unfolding objects_ok_def by blast+
      then show "threads s' (thread_of s' y) \<noteq> None" "distinct (objects s' y)"
        by (simp_all only: objects_def oy st simp_thms)
      show "single_block (kheap s') a" if "a \<in> set (objects s' y)" for a
      proof -
        have a: "a \<in> set (objects s y)" using that by (simp add: objects_def oy)
        then have "a \<notin> set (objects s z)" using obj yx zx y unfolding objects_ok_def by blast
        then have "a \<notin> {stack_of s z, thread_of s z, z}" by (simp add: objects_def)
        moreover have "single_block (kheap s) a" using obj yx a unfolding objects_ok_def by blast
        ultimately show ?thesis using single_block_gave_back [OF h(4)] by (simp add: st)
      qed
      fix x assume x: "x \<in> fst ` set xs - {z}" and "x \<noteq> y"
      moreover from x have "x \<in> fst ` set xs" by blast
      note ox = objs [OF this]
      ultimately show "set (objects s' x) \<inter> set (objects s' y) = {}"
        using obj yx unfolding objects_ok_def objects_def oy ox by blast
    qed
    moreover have "load_sentinel s' = ptab s'"
      using bytes by (intro load_store_sentinel [where h = "kheap s"]) (simp_all add: st table_sentinel [OF z(3)])
    moreover have "heap_frees h3" "blocks h3 \<le> blocks (kheap s)" using h(4) by (simp_all add: gave_back_def shrunk_def)
    moreover from this have "table_before_sentinel s'" using bf by (auto simp: table_before_sentinel_def st)
    moreover have "locked (rbTreeLock p) = 0" using F lock by (simp add: frame_def p0_def)
    ultimately have "processes_ok s' (remove1 (z, k) xs)" using z(3) by (simp add: processes_ok_def st)
    moreover have "s' = s\<lparr>ptab := ptab s', kheap := kheap s'\<rparr>" by (simp add: s'_def)
    moreover note F [folded st(1)] h(4) [folded st(2)]
    ultimately show ?thesis
      using run z(2) unfolding if_P [OF True] p0_def [symmetric]
      by (intro exI [of _ z] exI [of _ s'] conjI) (assumption+)
  qed
qed


section \<open>A concrete state\<close>

text \<open>Two processes with three blocks each behind the block of \<open>NIL\<close>, which is the first one of the heap.\<close>

definition two_processes :: kstate where
  "two_processes = \<lparr>kheap = paged_heap 7 (\<lambda>i. if i < 7 then 0x40 else if i = 27 \<or> i = 31 then 0xD0 else 0),
     ptab = \<lparr>procs = (\<lambda>_. None)
         (0xD0000000 \<mapsto> blank\<lparr>color := BLACK, left := 0xD0000000, right := 0xD0000000\<rparr>,
          0xD0001000 \<mapsto> blank\<lparr>pid := 5, color := BLACK, left := 0xD0000000, right := 0xD0004000, head_thread := 0xD0002000\<rparr>,
          0xD0004000 \<mapsto> blank\<lparr>pid := 9, color := RED, parent := 0xD0001000, left := 0xD0000000, right := 0xD0000000,
            head_thread := 0xD0005000\<rparr>),
       root = 0xD0001000, NIL = 0xD0000000, UProcessID = 100, KProcessID = 9, threadID = 9,
       rbTreeLock = initLock ''RB tree lock'', iflag = True\<rparr>,
     threads = (\<lambda>_. None)(0xD0002000 \<mapsto> zero_thread\<lparr>kstack_stackStart := 0xD0003000\<rparr>,
       0xD0005000 \<mapsto> zero_thread\<lparr>kstack_stackStart := 0xD0006000\<rparr>),
     regstore = (\<lambda>_. None)\<rparr>"

lemma two_processes_ok: "processes_ok two_processes [(0xD0001000, 5), (0xD0004000, 9)]"
proof -
  let ?h = "kheap two_processes"
  have p: "ptab two_processes = \<lparr>procs = procs (ptab two_processes), root = 0xD0001000, NIL = 0xD0000000, UProcessID = 100,
      KProcessID = 9, threadID = 9, rbTreeLock = initLock ''RB tree lock'', iflag = True\<rparr>"
    by (simp add: two_processes_def)
  have t: "table (ptab two_processes) [(0xD0001000, 5), (0xD0004000, 9)]"
    unfolding table_def
    by (intro conjI exI [of _ "Br Black Lf 0xD0001000 5 (Br Red Lf 0xD0004000 9 Lf)"])
      (simp_all add: two_processes_def blank_def rep_def sentinel_def addrs_ok_def rbtree_def NULL_def RED_def BLACK_def exI [of _ 1])
  have ok: "heap_frees ?h" "blocks ?h = 7" unfolding two_processes_def kstate.simps by (rule paged_heap_frees; simp)+
  have m: "heap_mem ?h i = (if i < 7 then 0x40 else if i = 27 \<or> i = 31 then 0xD0 else 0)" for i
    by (simp add: two_processes_def paged_heap_def entry_consts)
  have off: "nil_offset (ptab two_processes) = 0" "over_table (ptab two_processes)"
    by (simp_all add: two_processes_def nil_offset_def over_table_def HEAP_START_ADDRESS_def)
  have w: "word_at (heap_mem ?h) 16 = BLACK" "word_at (heap_mem ?h) 20 = 0" "word_at (heap_mem ?h) 24 = 0xD0000000"
      "word_at (heap_mem ?h) 28 = 0xD0000000"
    by (simp_all add: word_at_def m BLACK_def)
  have "load_sentinel two_processes = ptab two_processes"
    by (simp add: load_sentinel_def off w Let_def) (simp add: two_processes_def blank_def fun_eq_iff)
  moreover have "single_block ?h a" if "a \<in> {0xD0001000, 0xD0002000, 0xD0003000, 0xD0004000, 0xD0005000, 0xD0006000}" for a
  proof -
    have "single_block ?h (block_address i)" if "0 < i" "i < 7" for i
      unfolding single_block_def using that by (intro exI [of _ i]) (simp add: in_use_def ok block_free_def m entry_consts)
    from this [of 1] this [of 2] this [of 3] this [of 4] this [of 5] this [of 6] show ?thesis
      using that by (auto simp: block_address_def HEAP_START_ADDRESS_def HEAP_BLOCK_SIZE_def)
  qed
  then have "objects_ok two_processes {0xD0001000, 0xD0004000}"
    by (simp add: objects_ok_def objects_def stack_of_def thread_of_def) (simp add: two_processes_def)
  ultimately show ?thesis using t ok
    by (simp add: processes_ok_def table_before_sentinel_def off) (simp add: two_processes_def initLock_def)
qed

theorem rbDelete_correct_witness:
  "\<exists>s. rbDelete 2 9 two_processes = Some s \<and> table (ptab s) [(0xD0001000, 5)] \<and> blocks (kheap s) = 4"
proof -
  let ?h = "kheap two_processes"
  obtain z s where s: "rbDelete 2 9 two_processes = Some s" "(z, 9) \<in> set [(0xD0001000, 5), (0xD0004000, 9 :: u32)]"
      "processes_ok s (remove1 (z, 9) [(0xD0001000, 5), (0xD0004000, 9)])"
      "gave_back {stack_of two_processes z, thread_of two_processes z, z} ?h (kheap s)"
    using rbDelete_correct [OF two_processes_ok, of 9 2] by auto
  have z: "z = 0xD0004000" using s(2) by simp
  have A: "{stack_of two_processes z, thread_of two_processes z, z} = {0xD0006000, 0xD0005000, 0xD0004000}"
    by (simp add: z stack_of_def thread_of_def) (simp add: two_processes_def)
  have b: "blocks ?h = 7" unfolding two_processes_def kstate.simps by (rule paged_heap_frees; simp)
  have "heap_mem ?h i = 0x40" if "i < 7" for i using that by (simp add: two_processes_def paged_heap_def entry_consts)
  then have "in_use ?h i \<longleftrightarrow> i < 7" for i by (auto simp: in_use_def b block_free_def entry_consts)
  then have use: "in_use (kheap s) i \<longleftrightarrow> i < 7 \<and> block_address i \<notin> {0xD0006000, 0xD0005000, 0xD0004000}" for i
    using s(4) unfolding A gave_back_def by simp
  have adr: "block_address 3 = 0xD0003000" "block_address 4 = 0xD0004000" "block_address 5 = 0xD0005000" "block_address 6 = 0xD0006000"
    by (simp_all add: block_address_def HEAP_START_ADDRESS_def HEAP_BLOCK_SIZE_def)
  have i3: "in_use (kheap s) 3" unfolding use adr by simp
  have no: "\<not> in_use (kheap s) i" if "4 \<le> i" for i
  proof -
    consider "i = 4" | "i = 5" | "i = 6" | "7 \<le> i" using \<open>4 \<le> i\<close> by linarith
    then show ?thesis by cases (simp_all add: use adr)
  qed
  have last: "blocks (kheap s) = 0 \<or> in_use (kheap s) (blocks (kheap s) - 1)" using s(4) unfolding gave_back_def by (elim conjE)
  have "3 < blocks (kheap s)" using i3 by (simp add: in_use_def)
  then have "in_use (kheap s) (blocks (kheap s) - 1)" using last by simp
  then have "\<not> 4 \<le> blocks (kheap s) - 1" using no by blast
  then have "blocks (kheap s) = 4" using \<open>3 < blocks (kheap s)\<close> by simp
  moreover have "table (ptab s) [(0xD0001000, 5)]" using s(3) by (simp add: z processes_ok_def)
  ultimately show ?thesis using s(1) by blast
qed

section \<open>When the table reaches the sentinel\<close>

text \<open>A block in use from the seventeenth on has its entry in the word \<open>color\<close> of a \<open>NIL\<close> at the start of the table,
  which is then not black: the tree of the processes is not one the functions on it can work with. With more
  blocks the other three words are entries as well.\<close>

lemma sentinel_is_entries:
  assumes o: "over_table (ptab s)" and p: "procs (ptab s) (NIL (ptab s)) \<noteq> None"
    and i: "nil_offset (ptab s) + 16 \<le> i" "i < nil_offset (ptab s) + 20" and u: "heap_mem (kheap s) i \<noteq> 0"
  shows "\<not> table (load_sentinel s) xs"
proof
  assume t: "table (load_sentinel s) xs"
  let ?j = "nil_offset (ptab s) + 16" let ?m = "heap_mem (kheap s)"
  obtain n where n: "procs (ptab s) (NIL (ptab s)) = Some n" using p by blast
  have "word_at ?m ?j = BLACK"
    using t by (auto simp: table_def rep_def sentinel_def load_sentinel_def o n Let_def)
  then have z: "\<not> bit (word_at ?m ?j) b" for b by (simp add: BLACK_def)
  have byte: "?m (?j + k) = 0" if k: "k < 4" for k
  proof (rule bit_eqI)
    fix b :: nat
    assume "possible_bit TYPE(u8) b"
    then have b: "b < 8" by simp
    have "bit (word_at ?m ?j) (8 * k + b)" if h: "bit (?m (?j + k)) b"
    proof -
      consider "k = 0" | "k = 1" | "k = 2" | "k = 3" using k by linarith
      then show ?thesis using b h by cases (simp_all add: word_at_def bit_or_iff bit_push_bit_iff bit_ucast_iff)
    qed
    then show "bit (?m (?j + k)) b \<longleftrightarrow> bit (0 :: u8) b" using z by auto
  qed
  have "i - ?j < 4" using i by linarith
  from byte [OF this] show False using i u by simp
qed

end
