(* ===== verification/Spec2Isabelle.thy ===== *)
theory Spec2Isabelle
  imports Proc_Tree_Query Keyboard Vga Clib Disk Process Descriptors Sched Interrupts Sys_Invariant Boot Exceptions Shell Fat_File Process_Delete
begin

text \<open>
  A verification development for the Senob kernel, a small operating system for the 32-bit x86. The C code under
  \<open>kernel/arch/x86-32\<close>, \<open>kernel/libk\<close>, \<open>drivers\<close> and the system call library of the user programs are
  translated function by function; this text says what is where.

  \<^bold>\<open>Reading the models.\<close> A C integer is a word of its width, so all arithmetic wraps as in C. A \<open>struct\<close> is a
  record, an array a list or a function of the index, a pointer an address in an explicit store. Stateful code
  passes the state. \<open>None\<close> always means that the C program leaves its defined behaviour or never comes back: a
  page fault, a null or wild pointer, an index outside of an array, an endless loop. Errors that the code
  reports are ordinary results. Loops are structural recursion or \<open>fold\<close> where the C loop counts, \<open>function\<close>
  with a measure where it shrinks, and \<open>partial_function (option)\<close> where it may run for ever; no loop has fuel.
  What the hardware and FatFs answer, the addresses the linker chose and the old contents of memory are
  arguments. Messages the kernel prints are modelled where a theory has a screen: those of the system calls with the
  process that \<open>execve\<close> makes, of the start itself and of the exceptions; \<open>printf\<close>, which is newlib's, is an argument there.
  Those of the other CPUs' start, of the idle process and the full run queue, and the warnings of a lock are left out.

  The kernel's objects are records and stores of their own, apart from the bytes of the physical memory that page
  tables and programs use. Where the code lets the two meet, the theorem says so: \<open>NIL\<close> of the process tree lies over
  the table of the heap (\<open>Process_Delete\<close> reads and writes its words there), and a system call that stores its
  result where the program says keeps the kernel's state only if that is in the program's half (\<open>Sys_Invariant\<close>).
  The translation cache of the processor agrees with the page tables, and the memory that holds the disk is total.

  \<^bold>\<open>Memory.\<close> \<open>Pmm\<close> (\<open>mm/PMM/pmm.c\<close>) hands out page frames from a bitmap; the locale \<open>frame_pool\<close> states what
  its clients rely on and is interpreted on the code. \<open>Paging\<close> (\<open>mm/paging/paging.c\<close>) keeps page directories
  and tables in a physical memory that is read by the two-level walk of the processor; its theorems say which
  addresses translate where after mapping and unmapping, in which directories. \<open>Heap\<close> (\<open>mm/heap/heap.c\<close>) is the
  first-fit block allocator on top. How an address space grows page by page is the
  interface \<open>address_space\<close> of the theory of that name: a step relation whose steps take a frame or map a page,
  with the lemmas on loops of fresh pages. \<open>Kernel_Memory\<close> interprets it on the kernel half, \<open>User_Space\<close> on the half
  of a new process; each counts the frames that are left. With the first \<open>Heap_Growth\<close> shows how the heap grows,
  in whatever directory the CPU uses, as long as that directory sees the kernel's tables (\<open>sees_kernel\<close>),
  \<open>Kernel_Unmap\<close> and \<open>Heap_Free\<close> how it shrinks again when the last blocks are freed, page by page, and
  \<open>Boot_Memory\<close> what the address space holds after the start. \<open>User_Memory\<close> reads and writes bytes of a program
  through its page tables.

  \<^bold>\<open>Processes.\<close> \<open>Spinlock\<close> (\<open>sys/spinlock.c\<close>) has the lock both as functions and as a step relation of all
  CPUs, with mutual exclusion by rule induction. The process table of \<open>sys/process.c\<close> is a red-black tree of
  pointers: \<open>Proc_Tree\<close> translates it, \<open>Proc_Tree_Rep\<close> relates it to a functional tree with a zipper,
  \<open>Proc_Tree_Insert\<close>, \<open>Proc_Tree_Delete\<close> and \<open>Proc_Tree_Query\<close> prove insertion, deletion, search and traversal
  against the sorted list of its entries; \<open>Process_Delete\<close> has \<open>rbDelete\<close> as a whole, with the objects of the
  process that go back to the heap. \<open>Process\<close> builds processes and threads (heap, table and paging
  together), \<open>Sched\<close> (\<open>sys/sched.c\<close>) runs them: its queues refine a list by priority and age, stated as the locale
  \<open>ready_queues\<close>, and a step relation collects everything that can happen to them. \<open>User_Space\<close>, \<open>Process_Space\<close> and
  \<open>User_Process\<close> follow \<open>createUserProcess\<close>: the new directory; the pages of program, stack and heap, and the bytes of
  the file in them, while in between the heap of the kernel takes pages of its own for the buffer of the file and for
  the objects, so that the two halves of the space grow in turns; then the thread and its registers and the entry in
  the table; also what happens when the file cannot be opened.

  \<^bold>\<open>Machine.\<close> \<open>Descriptors\<close> (\<open>gdt/gdt.c\<close> and the tables of \<open>interrupts/idt.c\<close>), \<open>Lapic\<close> (\<open>sys/lapic.c\<close> and the
  waiting loop of \<open>kernel.c\<close>), \<open>Smp\<close> (\<open>sys/mp.c\<close>, \<open>sys/smp.c\<close>, \<open>sys/startup.c\<close>) and \<open>Interrupts\<close> (the handlers of
  \<open>interrupts/idt.c\<close>, \<open>interrupts/pit.c\<close>; \<open>Exceptions\<close> adds their messages). A handler returns, switches to another thread for good or stops the
  CPU; these are three different outcomes.

  \<^bold>\<open>Devices.\<close> \<open>Framebuffer\<close> (\<open>vbe.c\<close>, \<open>font.c\<close>, \<open>wm/window.c\<close>), \<open>Console\<close> (\<open>libk/stdiok.c\<close>, the formatted output
  and its reference), \<open>Vga\<close>, \<open>Keyboard\<close> (scan codes and a ring buffer, which is an interpretation of the locale
  \<open>bounded_queue\<close>), \<open>Disk\<close> (\<open>disk/ramdisk.c\<close>, \<open>fatfs/diskio.c\<close>), \<open>Clib\<close> (\<open>libk/memory.c\<close>, \<open>libk/string.c\<close>).

  \<^bold>\<open>Volume.\<close> The lower half of FatFs (\<open>fatfs/ff.c\<close>, in the configuration of \<open>ffconf.h\<close>) runs on that disk.
  \<open>Fat_Volume\<close> has the window, a write-back cache of one sector, and the view of the volume that it must not
  change; \<open>Fat_Table\<close> the file allocation table in its three formats, an abstract function of the cluster that
  \<open>put_fat\<close> updates and \<open>get_fat\<close> reads; \<open>Fat_Chain\<close> the lists of clusters in it, how they are freed and how they
  grow; \<open>Fat_File\<close> how \<open>f_read\<close> gets the bytes of an open file from there, through the buffer of the file or in
  whole runs of sectors. They are stated for a disk whose sectors can be addressed, a table that fits its area and
  clusters that lie behind it; \<open>f_read\<close> for a file without unsaved bytes and buffers that do not overlap.

  \<^bold>\<open>System interface.\<close> \<open>Files\<close> (\<open>libk/libk.c\<close>) has the descriptors over FatFs, whose functions are the record
  \<open>fatfs\<close>, apart from the model of the volume; \<open>Fatfs\<close> holds its result codes. \<open>Syscalls\<close> (\<open>syscalls/syscalls.c\<close>) has the handlers and their
  registration, \<open>Userland\<close> the library of the programs and the way of a call from there through the interrupt,
  the table, the files, the console and the keyboard and back. \<open>Exec\<close> shows what \<open>execve\<close> starts, \<open>Shell\<close> has the
  shell and the test program (\<open>userland/programs\<close>) and shows that a typed path starts its program; its endless loop is a partial
  function. \<open>Sys_Invariant\<close> shows that no system call breaks the state they share, nor writes a byte of the kernel's half. The state of the whole is one record that each layer extends: \<open>kstate\<close> (heap, table,
  threads), \<open>sched_state\<close>, \<open>irq_state\<close>, \<open>sys_state\<close>.

  \<^bold>\<open>Start.\<close> \<open>System\<close> (\<open>kernel.c\<close>) composes the components as \<open>kernel_main\<close> does, from the tables to the run queues;
  its state is the record \<open>kernel\<close> and what hardware, boot loader and FatFs contribute is the record
  \<open>surroundings\<close>. \<open>Boot_Cpus\<close> has the part of the other CPUs, \<open>Boot\<close> shows that the start reaches the idle loop, with
  the predicate \<open>can_boot\<close> listing what it needs for that.

  \<^bold>\<open>Bounds.\<close> The bitmap has \<open>PAGE_FRAMES\<close> frames, the heap at most 4096 blocks of a page, the key buffer 127 keys, a
  run queue 64 threads in its life, the descriptor table 32 entries, the table of directories \<open>NUM_PAGE_DIRS\<close>. A
  program file has at most 4 MB, as its pages would meet those of its heap beyond that; its process takes
  4462 frames besides those of the file: 256 that the code takes for the program whatever its size, 100 of stack,
  4096 of heap, 6 page tables and at most four pages by which the heap of the kernel grows; page tables of the kernel
  heap that do not exist yet are counted apart (\<open>kmem_need\<close>). Hypotheses of this kind are in the statements. Each
  theorem that has a hypothesis is applied to a concrete machine behind it.

  \<^bold>\<open>Not modelled.\<close> Directories, paths, mounting and the other file functions of FatFs, and newlib, which are
  third-party code: what the kernel and the programs call of them are arguments (\<open>f_read\<close> too, where a call names the file by
  the address of an object that FatFs filled). The assembly of the boot, except for the page directory it lays out, the interrupt stubs and the
  trampoline, except for the registers they pass; \<open>lgdt\<close>, \<open>lidt\<close> and the contents of the CPU's caches; interrupts
  that arrive during the start, other than through the tick counter. The self-tests of heap and disk, which nothing
  calls, the Rust part, which prints a message, and the data of the palette.
\<close>

end
